(* ===== verification/Prelude.thy ===== *)
theory Prelude
  imports Main "HOL-Library.Word" "HOL-Library.Monad_Syntax"
begin

text \<open>
  Shared vocabulary of the development.

  The programs modelled are C, built for wasm32 (\<^verbatim>\<open>userspace/wasm/include/u.h\<close>): \<open>char\<close> is 8
  bits, \<open>short\<close> 16, \<open>int\<close>, \<open>long\<close> and pointers 32, \<open>vlong\<close> 64.  A machine integer is a
  word of its width, so that arithmetic wraps where C's unsigned arithmetic wraps.

  A block of memory is a list of bytes and a pointer into it is an offset.  An operation that
  would touch a byte outside its block, dereference nil or a freed object, or fail an
  \<open>assert\<close> has the value \<^const>\<open>None\<close>; a normal return is \<^const>\<open>Some\<close> of what the
  function returns together with the memory it changed.  The error returns of the C code are
  ordinary values inside \<^const>\<open>Some\<close>.
\<close>

unbundle bit_operations_syntax

type_synonym byte = "8 word"
type_synonym u16 = "16 word"
type_synonym u32 = "32 word"
type_synonym u64 = "64 word"

text \<open>A block of memory, and a NUL-terminated string without its terminator.\<close>

type_synonym block = "byte list"
type_synonym cstr = "byte list"

named_theorems mem_simps \<open>reading and writing blocks at the boundary of an append\<close>
named_theorems size_simps \<open>sizes of encoded fields\<close>

subsection \<open>Reading and writing a block\<close>

definition mread :: "block \<Rightarrow> nat \<Rightarrow> nat \<Rightarrow> block option" where
  "mread b p n = (if p + n \<le> length b then Some (take n (drop p b)) else None)"

definition mwrite :: "block \<Rightarrow> nat \<Rightarrow> block \<Rightarrow> block option" where
  "mwrite b p bs = (if p + length bs \<le> length b
     then Some (take p b @ bs @ drop (p + length bs) b) else None)"

lemma mread_append [mem_simps]:
  "length x = n \<Longrightarrow> mread (d @ x @ r) (length d) n = Some x"
  by (simp add: mread_def)

lemma mread_length: "mread b p n = Some x \<Longrightarrow> length x = n"
  by (auto simp: mread_def split: if_splits)

lemma mread_in_range: "p + n \<le> length b \<Longrightarrow> \<exists>x. mread b p n = Some x \<and> length x = n"
  by (auto simp: mread_def)

lemma mwrite_append [mem_simps]:
  "length bs \<le> length r \<Longrightarrow> mwrite (d @ r) (length d) bs = Some (d @ bs @ drop (length bs) r)"
  by (simp add: mwrite_def)

lemma mwrite_length: "mwrite b p bs = Some b' \<Longrightarrow> length b' = length b"
  by (auto simp: mwrite_def split: if_splits)

lemma mwrite_in_range:
  "p + length bs \<le> length b \<Longrightarrow> \<exists>b'. mwrite b p bs = Some b' \<and> length b' = length b"
  by (auto simp: mwrite_def)

text \<open>Reading back what was written, and reading where nothing was written.\<close>

lemma mread_mwrite_same: "mwrite b p bs = Some b' \<Longrightarrow> mread b' p (length bs) = Some bs"
  by (auto simp: mwrite_def mread_def split: if_splits)

lemma mread_mwrite_below:
  "mwrite b p bs = Some b' \<Longrightarrow> q + n \<le> p \<Longrightarrow> mread b' q n = mread b q n"
  by (auto simp: mwrite_def mread_def take_drop split: if_splits)

lemma mread_mwrite_above:
  assumes "mwrite b p bs = Some b'" and "p + length bs \<le> q"
  shows "mread b' q n = mread b q n"
proof -
  from assms(1) have b': "b' = take p b @ bs @ drop (p + length bs) b"
    and le: "p + length bs \<le> length b"
    by (auto simp: mwrite_def split: if_splits)
  have "drop q b' = drop q b"
    using assms(2) le by (simp add: b' add.commute)
  moreover have "length b' = length b"
    using assms(1) by (rule mwrite_length)
  ultimately show ?thesis
    by (simp add: mread_def)
qed

text \<open>The C string that starts at an offset: the bytes before the first NUL; a read that runs
  off the block before it meets one is a fault.\<close>

definition cstring_at :: "block \<Rightarrow> nat \<Rightarrow> cstr option" where
  "cstring_at b p = (if p \<le> length b \<and> 0 \<in> set (drop p b)
     then Some (takeWhile (\<lambda>c. c \<noteq> 0) (drop p b)) else None)"

lemma cstring_at_append [mem_simps]:
  assumes "0 \<notin> set s"
  shows "cstring_at (d @ s @ 0 # r) (length d) = Some s"
proof -
  have "takeWhile (\<lambda>c. c \<noteq> 0) (s @ 0 # r) = s"
    using assms by (induction s) auto
  then show ?thesis
    by (simp add: cstring_at_def)
qed

lemma cstring_at_no_nul: "cstring_at b p = Some s \<Longrightarrow> 0 \<notin> set s"
  by (auto simp: cstring_at_def dest: set_takeWhileD split: if_splits)

text \<open>A string literal of the source as the bytes it compiles to.\<close>

definition ascii :: "string \<Rightarrow> cstr" where
  "ascii s = map (\<lambda>c. of_nat (of_char c)) s"

subsection \<open>Option and list facts\<close>

lemma bind_Some_iff: "(Option.bind m f = Some y) \<longleftrightarrow> (\<exists>x. m = Some x \<and> f x = Some y)"
  by (cases m) auto

lemma bind_None_iff: "(Option.bind m f = None) \<longleftrightarrow> m = None \<or> (\<exists>x. m = Some x \<and> f x = None)"
  by (cases m) auto

lemma length4_conv: "length xs = 4 \<longleftrightarrow> (\<exists>a b c d. xs = [a, b, c, d])"
  by (auto simp: length_Suc_conv eval_nat_numeral)

lemma length2_conv: "length xs = 2 \<longleftrightarrow> (\<exists>a b. xs = [a, b])"
  by (auto simp: length_Suc_conv eval_nat_numeral)

lemma takeWhile_id: "(\<forall>x \<in> set xs. P x) \<Longrightarrow> takeWhile P xs = xs"
  by simp

end
