(* ===== verification/Fcall.thy ===== *)
theory Fcall
  imports Prelude
begin

text \<open>
  The wire format's vocabulary: the byte-order macros and constants of
  \<^verbatim>\<open>sys/include/fcall.h\<close>, and the structures \<open>Qid\<close> and \<open>Dir\<close> (\<^verbatim>\<open>libc.h\<close>) and \<open>Fcall\<close>.

  The members of \<open>Fcall\<close> are a union in C, one structure per message type; here they are
  fields of one record.  Every function modelled reads only the members of the structure that
  belongs to the message type it has just tested, so the overlap is never observed.
  A \<open>char*\<close> member is the string it points to, \<^const>\<open>None\<close> for nil; \<open>data\<close> and
  \<open>stat\<close> are the blocks they point to.
\<close>

section \<open>Structures\<close>

record Qid =
  q_path :: u64
  q_vers :: u32
  q_type :: byte

record Dir =
  d_type :: u16
  d_dev :: u32
  d_qid :: Qid
  d_mode :: u32
  d_atime :: u32
  d_mtime :: u32
  d_length :: u64
  d_name :: "cstr option"
  d_uid :: "cstr option"
  d_gid :: "cstr option"
  d_muid :: "cstr option"

record Fcall =
  f_type :: byte
  f_fid :: u32
  f_tag :: u16
  f_msize :: u32
  f_version :: "cstr option"
  f_oldtag :: u16
  f_ename :: "cstr option"
  f_qid :: Qid
  f_iounit :: u32
  f_aqid :: Qid
  f_afid :: u32
  f_uname :: "cstr option"
  f_aname :: "cstr option"
  f_perm :: u32
  f_name :: "cstr option"
  f_mode :: byte
  f_newfid :: u32
  f_nwname :: u16
  f_wname :: "cstr option list"
  f_nwqid :: u16
  f_wqid :: "Qid list"
  f_offset :: u64
  f_count :: u32
  f_data :: block
  f_nstat :: u16
  f_stat :: block

text \<open>What \<open>memset(f, 0, sizeof *f)\<close> leaves in the structures.\<close>

definition zero_qid :: Qid where
  "zero_qid = \<lparr>q_path = 0, q_vers = 0, q_type = 0\<rparr>"

definition zero_dir :: Dir where
  "zero_dir = \<lparr>d_type = 0, d_dev = 0, d_qid = zero_qid, d_mode = 0, d_atime = 0,
     d_mtime = 0, d_length = 0, d_name = None, d_uid = None, d_gid = None, d_muid = None\<rparr>"

abbreviation (input) MAXWELEM :: nat where
  "MAXWELEM \<equiv> 16"

definition zero_fcall :: Fcall where
  "zero_fcall = \<lparr>f_type = 0, f_fid = 0, f_tag = 0, f_msize = 0, f_version = None,
     f_oldtag = 0, f_ename = None, f_qid = zero_qid, f_iounit = 0, f_aqid = zero_qid,
     f_afid = 0, f_uname = None, f_aname = None, f_perm = 0, f_name = None, f_mode = 0,
     f_newfid = 0, f_nwname = 0, f_wname = replicate MAXWELEM None, f_nwqid = 0,
     f_wqid = replicate MAXWELEM zero_qid, f_offset = 0, f_count = 0, f_data = [],
     f_nstat = 0, f_stat = []\<rparr>"

section \<open>Constants\<close>

abbreviation (input) BIT8SZ :: nat where "BIT8SZ \<equiv> 1"
abbreviation (input) BIT16SZ :: nat where "BIT16SZ \<equiv> 2"
abbreviation (input) BIT32SZ :: nat where "BIT32SZ \<equiv> 4"
abbreviation (input) BIT64SZ :: nat where "BIT64SZ \<equiv> 8"
abbreviation (input) QIDSZ :: nat where "QIDSZ \<equiv> BIT8SZ + BIT32SZ + BIT64SZ"
abbreviation (input) STATFIXLEN :: nat where
  "STATFIXLEN \<equiv> BIT16SZ + QIDSZ + 5 * BIT16SZ + 4 * BIT32SZ + 1 * BIT64SZ"
abbreviation (input) NOTAG :: u16 where "NOTAG \<equiv> - 1"
abbreviation (input) NOFID :: u32 where "NOFID \<equiv> - 1"
abbreviation (input) IOHDRSZ :: nat where "IOHDRSZ \<equiv> 24"

abbreviation (input) Tversion :: byte where "Tversion \<equiv> 100"
abbreviation (input) Rversion :: byte where "Rversion \<equiv> 101"
abbreviation (input) Tauth :: byte where "Tauth \<equiv> 102"
abbreviation (input) Rauth :: byte where "Rauth \<equiv> 103"
abbreviation (input) Tattach :: byte where "Tattach \<equiv> 104"
abbreviation (input) Rattach :: byte where "Rattach \<equiv> 105"
abbreviation (input) Rerror :: byte where "Rerror \<equiv> 107"
abbreviation (input) Tflush :: byte where "Tflush \<equiv> 108"
abbreviation (input) Rflush :: byte where "Rflush \<equiv> 109"
abbreviation (input) Twalk :: byte where "Twalk \<equiv> 110"
abbreviation (input) Rwalk :: byte where "Rwalk \<equiv> 111"
abbreviation (input) Topen :: byte where "Topen \<equiv> 112"
abbreviation (input) Ropen :: byte where "Ropen \<equiv> 113"
abbreviation (input) Tcreate :: byte where "Tcreate \<equiv> 114"
abbreviation (input) Rcreate :: byte where "Rcreate \<equiv> 115"
abbreviation (input) Tread :: byte where "Tread \<equiv> 116"
abbreviation (input) Rread :: byte where "Rread \<equiv> 117"
abbreviation (input) Twrite :: byte where "Twrite \<equiv> 118"
abbreviation (input) Rwrite :: byte where "Rwrite \<equiv> 119"
abbreviation (input) Tclunk :: byte where "Tclunk \<equiv> 120"
abbreviation (input) Rclunk :: byte where "Rclunk \<equiv> 121"
abbreviation (input) Tremove :: byte where "Tremove \<equiv> 122"
abbreviation (input) Rremove :: byte where "Rremove \<equiv> 123"
abbreviation (input) Tstat :: byte where "Tstat \<equiv> 124"
abbreviation (input) Rstat :: byte where "Rstat \<equiv> 125"
abbreviation (input) Twstat :: byte where "Twstat \<equiv> 126"
abbreviation (input) Rwstat :: byte where "Rwstat \<equiv> 127"

section \<open>The byte-order macros\<close>

definition GBIT8 :: "block \<Rightarrow> nat \<Rightarrow> byte option" where
  "GBIT8 b p = (if p < length b then Some (b ! p) else None)"

definition GBIT16 :: "block \<Rightarrow> nat \<Rightarrow> u16 option" where
  "GBIT16 b p = (if p + 1 < length b
     then Some (ucast (b ! p) OR push_bit 8 (ucast (b ! (p + 1)))) else None)"

definition GBIT32 :: "block \<Rightarrow> nat \<Rightarrow> u32 option" where
  "GBIT32 b p = (if p + 3 < length b
     then Some (ucast (b ! p) OR push_bit 8 (ucast (b ! (p + 1)))
       OR push_bit 16 (ucast (b ! (p + 2))) OR push_bit 24 (ucast (b ! (p + 3)))) else None)"

definition GBIT64 :: "block \<Rightarrow> nat \<Rightarrow> u64 option" where
  "GBIT64 b p = do {
     lo \<leftarrow> GBIT32 b p;
     hi \<leftarrow> GBIT32 b (p + 4);
     Some (ucast lo OR push_bit 32 (scast hi))
   }"

definition PBIT8 :: "block \<Rightarrow> nat \<Rightarrow> byte \<Rightarrow> block option" where
  "PBIT8 b p v = mwrite b p [v]"

definition PBIT16 :: "block \<Rightarrow> nat \<Rightarrow> u16 \<Rightarrow> block option" where
  "PBIT16 b p v = mwrite b p [ucast v, ucast (drop_bit 8 v)]"

definition PBIT32 :: "block \<Rightarrow> nat \<Rightarrow> u32 \<Rightarrow> block option" where
  "PBIT32 b p v = mwrite b p [ucast v, ucast (drop_bit 8 v), ucast (drop_bit 16 v),
     ucast (drop_bit 24 v)]"

definition PBIT64 :: "block \<Rightarrow> nat \<Rightarrow> u64 \<Rightarrow> block option" where
  "PBIT64 b p v = mwrite b p [ucast v, ucast (drop_bit 8 v), ucast (drop_bit 16 v),
     ucast (drop_bit 24 v), ucast (drop_bit 32 v), ucast (drop_bit 40 v),
     ucast (drop_bit 48 v), ucast (drop_bit 56 v)]"

subsection \<open>The little-endian spelling of an integer\<close>

definition le8 :: "byte \<Rightarrow> block" where
  "le8 v = [v]"

definition le16 :: "u16 \<Rightarrow> block" where
  "le16 v = [ucast v, ucast (drop_bit 8 v)]"

definition le32 :: "u32 \<Rightarrow> block" where
  "le32 v = [ucast v, ucast (drop_bit 8 v), ucast (drop_bit 16 v), ucast (drop_bit 24 v)]"

definition le64 :: "u64 \<Rightarrow> block" where
  "le64 v = le32 (ucast v) @ le32 (ucast (drop_bit 32 v))"

lemma length_le [simp]:
  "length (le8 a) = 1" "length (le16 b) = 2" "length (le32 c) = 4" "length (le64 d) = 8"
  by (simp_all add: le8_def le16_def le32_def le64_def)

lemma PBIT_le:
  "PBIT8 b p v8 = mwrite b p (le8 v8)"
  "PBIT16 b p v16 = mwrite b p (le16 v16)"
  "PBIT32 b p v32 = mwrite b p (le32 v32)"
  by (simp_all add: PBIT8_def PBIT16_def PBIT32_def le8_def le16_def le32_def)

lemma PBIT64_le: "PBIT64 b p v = mwrite b p (le64 v)"
proof -
  have "ucast (ucast v :: u32) = (ucast v :: byte)"
    and "ucast (drop_bit 8 (ucast v :: u32)) = (ucast (drop_bit 8 v) :: byte)"
    and "ucast (drop_bit 16 (ucast v :: u32)) = (ucast (drop_bit 16 v) :: byte)"
    and "ucast (drop_bit 24 (ucast v :: u32)) = (ucast (drop_bit 24 v) :: byte)"
    and "ucast (ucast (drop_bit 32 v) :: u32) = (ucast (drop_bit 32 v) :: byte)"
    and "ucast (drop_bit 8 (ucast (drop_bit 32 v) :: u32)) = (ucast (drop_bit 40 v) :: byte)"
    and "ucast (drop_bit 16 (ucast (drop_bit 32 v) :: u32)) = (ucast (drop_bit 48 v) :: byte)"
    and "ucast (drop_bit 24 (ucast (drop_bit 32 v) :: u32)) = (ucast (drop_bit 56 v) :: byte)"
    by (auto intro!: bit_word_eqI simp: bit_simps)
  then show ?thesis
    by (simp add: PBIT64_def le64_def le32_def)
qed

lemma PBIT_append [mem_simps]:
  "1 \<le> length r \<Longrightarrow> PBIT8 (d @ r) (length d) a = Some (d @ le8 a @ drop 1 r)"
  "2 \<le> length r \<Longrightarrow> PBIT16 (d @ r) (length d) b = Some (d @ le16 b @ drop 2 r)"
  "4 \<le> length r \<Longrightarrow> PBIT32 (d @ r) (length d) c = Some (d @ le32 c @ drop 4 r)"
  "8 \<le> length r \<Longrightarrow> PBIT64 (d @ r) (length d) e = Some (d @ le64 e @ drop 8 r)"
  by (simp_all add: PBIT_le PBIT64_le mwrite_append)

subsection \<open>Reading back what was written\<close>

lemma le16_join: "ucast (ucast v :: byte) OR push_bit 8 (ucast (ucast (drop_bit 8 v) :: byte)) = (v :: u16)"
  by (rule bit_word_eqI) (auto simp: bit_simps)

lemma le32_join:
  "ucast (ucast v :: byte) OR push_bit 8 (ucast (ucast (drop_bit 8 v) :: byte))
    OR push_bit 16 (ucast (ucast (drop_bit 16 v) :: byte))
    OR push_bit 24 (ucast (ucast (drop_bit 24 v) :: byte)) = (v :: u32)"
proof (rule bit_word_eqI)
  fix n assume "n < LENGTH(32)"
  then consider "n < 8" | "8 \<le> n" "n < 16" | "16 \<le> n" "n < 24" | "24 \<le> n" "n < 32"
    by fastforce
  then show "bit (ucast (ucast v :: byte) OR push_bit 8 (ucast (ucast (drop_bit 8 v) :: byte))
      OR push_bit 16 (ucast (ucast (drop_bit 16 v) :: byte))
      OR push_bit 24 (ucast (ucast (drop_bit 24 v) :: byte)) :: u32) n = bit v n"
    by cases (auto simp: bit_simps)
qed

lemma le64_join:
  "ucast (ucast v :: u32) OR push_bit 32 (scast (ucast (drop_bit 32 v) :: u32)) = (v :: u64)"
proof (rule bit_word_eqI)
  fix n assume "n < LENGTH(64)"
  then consider "n < 32" | "32 \<le> n" "n < 63" | "n = 63"
    by fastforce
  then show "bit (ucast (ucast v :: u32) OR push_bit 32 (scast (ucast (drop_bit 32 v) :: u32)) :: u64) n
      = bit v n"
    by cases (auto simp: bit_simps)
qed

lemma GBIT_append [mem_simps]:
  "GBIT8 (d @ le8 a @ r) (length d) = Some a"
  "GBIT16 (d @ le16 b @ r) (length d) = Some b"
  "GBIT32 (d @ le32 c @ r) (length d) = Some c"
  by (simp_all add: GBIT8_def GBIT16_def GBIT32_def le8_def le16_def le32_def
      nth_append le16_join le32_join)

lemma GBIT64_append [mem_simps]: "GBIT64 (d @ le64 e @ r) (length d) = Some e"
proof -
  have "GBIT32 (d @ le32 x @ le32 y @ r) (length d) = Some x"
    and "GBIT32 (d @ le32 x @ le32 y @ r) (length d + 4) = Some y" for x y
    using GBIT_append(3) [of d x "le32 y @ r"] GBIT_append(3) [of "d @ le32 x" y r]
    by simp_all
  then show ?thesis
    by (simp add: GBIT64_def le64_def le64_join)
qed

lemma GBIT_in_range:
  "p + 1 \<le> length b \<Longrightarrow> \<exists>v. GBIT8 b p = Some v"
  "p + 2 \<le> length b \<Longrightarrow> \<exists>v. GBIT16 b p = Some v"
  "p + 4 \<le> length b \<Longrightarrow> \<exists>v. GBIT32 b p = Some v"
  "p + 8 \<le> length b \<Longrightarrow> \<exists>v. GBIT64 b p = Some v"
  by (auto simp: GBIT8_def GBIT16_def GBIT32_def GBIT64_def)

end
