(* ===== verification/ConvS2M.thy ===== *)
theory ConvS2M
  imports Fcall
begin

text \<open>
  \<^verbatim>\<open>libc/9sys/convS2M.c\<close>: the size of a 9P message and its encoding into a buffer.
  \<open>sizeS2M\<close> computes in 32-bit unsigned arithmetic as the C does.  The walk names are an
  array of \<^const>\<open>MAXWELEM\<close> pointers, so counting more of them than that reads outside the
  structure, a fault.  A branch of \<open>convS2M\<close> answers \<^const>\<open>None\<close> in its first component
  where the C says \<open>return 0\<close>, and the position after the last field otherwise.
\<close>

section \<open>The code\<close>

definition stringsz :: "cstr option \<Rightarrow> u32" where
  "stringsz s = (case s of None \<Rightarrow> of_nat BIT16SZ
     | Some s \<Rightarrow> of_nat BIT16SZ + of_nat (length s))"

text \<open>The loop \<open>for(i=0; i<f->nwname; i++) n += stringsz(f->wname[i])\<close>.\<close>

fun wname_sizes :: "cstr option list \<Rightarrow> nat \<Rightarrow> u32 \<Rightarrow> u32 option" where
  "wname_sizes ws 0 n = Some n"
| "wname_sizes [] (Suc k) n = None"
| "wname_sizes (w # ws) (Suc k) n = wname_sizes ws k (n + stringsz w)"

definition sizeS2M :: "Fcall \<Rightarrow> u32 option" where
  "sizeS2M f = (let n = of_nat BIT32SZ + of_nat BIT8SZ + of_nat BIT16SZ; t = f_type f in
     if t = Tversion then Some (n + of_nat BIT32SZ + stringsz (f_version f))
     else if t = Tflush then Some (n + of_nat BIT16SZ)
     else if t = Tauth then
       Some (n + of_nat BIT32SZ + stringsz (f_uname f) + stringsz (f_aname f))
     else if t = Tattach then
       Some (n + of_nat BIT32SZ + of_nat BIT32SZ + stringsz (f_uname f) + stringsz (f_aname f))
     else if t = Twalk then
       wname_sizes (f_wname f) (unat (f_nwname f))
         (n + of_nat BIT32SZ + of_nat BIT32SZ + of_nat BIT16SZ)
     else if t = Topen then Some (n + of_nat BIT32SZ + of_nat BIT8SZ)
     else if t = Tcreate then
       Some (n + of_nat BIT32SZ + stringsz (f_name f) + of_nat BIT32SZ + of_nat BIT8SZ)
     else if t = Tread then Some (n + of_nat BIT32SZ + of_nat BIT64SZ + of_nat BIT32SZ)
     else if t = Twrite then
       Some (n + of_nat BIT32SZ + of_nat BIT64SZ + of_nat BIT32SZ + f_count f)
     else if t = Tclunk \<or> t = Tremove then Some (n + of_nat BIT32SZ)
     else if t = Tstat then Some (n + of_nat BIT32SZ)
     else if t = Twstat then Some (n + of_nat BIT32SZ + of_nat BIT16SZ + ucast (f_nstat f))
     else if t = Rversion then Some (n + of_nat BIT32SZ + stringsz (f_version f))
     else if t = Rerror then Some (n + stringsz (f_ename f))
     else if t = Rflush then Some n
     else if t = Rauth then Some (n + of_nat QIDSZ)
     else if t = Rattach then Some (n + of_nat QIDSZ)
     else if t = Rwalk then Some (n + of_nat BIT16SZ + ucast (f_nwqid f) * of_nat QIDSZ)
     else if t = Ropen \<or> t = Rcreate then Some (n + of_nat QIDSZ + of_nat BIT32SZ)
     else if t = Rread then Some (n + of_nat BIT32SZ + f_count f)
     else if t = Rwrite then Some (n + of_nat BIT32SZ)
     else if t = Rclunk then Some n
     else if t = Rremove then Some n
     else if t = Rstat then Some (n + of_nat BIT16SZ + ucast (f_nstat f))
     else if t = Rwstat then Some n
     else Some 0)"

definition pstring :: "block \<Rightarrow> nat \<Rightarrow> cstr option \<Rightarrow> (nat \<times> block) option" where
  "pstring b p s = (case s of
     None \<Rightarrow> do {
       b \<leftarrow> PBIT16 b p 0;
       Some (p + BIT16SZ, b)
     }
   | Some s \<Rightarrow> do {
       let n = length s;
       b \<leftarrow> mwrite b (p + BIT16SZ) s;
       b \<leftarrow> PBIT16 b p (of_nat n);
       Some (p + (n + BIT16SZ), b)
     })"

definition pqid :: "block \<Rightarrow> nat \<Rightarrow> Qid \<Rightarrow> (nat \<times> block) option" where
  "pqid b p q = do {
     b \<leftarrow> PBIT8 b p (q_type q);
     let p = p + BIT8SZ;
     b \<leftarrow> PBIT32 b p (q_vers q);
     let p = p + BIT32SZ;
     b \<leftarrow> PBIT64 b p (q_path q);
     let p = p + BIT64SZ;
     Some (p, b)
   }"

text \<open>\<open>memmove(p, src, n); p += n\<close> for a source block.\<close>

definition pdata :: "block \<Rightarrow> nat \<Rightarrow> block \<Rightarrow> nat \<Rightarrow> (nat \<times> block) option" where
  "pdata b p src n = do {
     x \<leftarrow> mread src 0 n;
     b \<leftarrow> mwrite b p x;
     Some (p + n, b)
   }"

text \<open>The two loops over the walk names and the walk qids, counting down the rest.\<close>

fun pwnames :: "cstr option list \<Rightarrow> nat \<Rightarrow> block \<Rightarrow> nat \<Rightarrow> (nat \<times> block) option" where
  "pwnames ws 0 b p = Some (p, b)"
| "pwnames [] (Suc k) b p = None"
| "pwnames (w # ws) (Suc k) b p = do {
     (p, b) \<leftarrow> pstring b p w;
     pwnames ws k b p
   }"

fun pwqids :: "Qid list \<Rightarrow> nat \<Rightarrow> block \<Rightarrow> nat \<Rightarrow> (nat \<times> block) option" where
  "pwqids qs 0 b p = Some (p, b)"
| "pwqids [] (Suc k) b p = None"
| "pwqids (q # qs) (Suc k) b p = do {
     (p, b) \<leftarrow> pqid b p q;
     pwqids qs k b p
   }"

text \<open>The reply half of the switch; its default is \<open>return 0\<close>.\<close>

definition convS2M_R :: "Fcall \<Rightarrow> block \<Rightarrow> nat \<Rightarrow> (nat option \<times> block) option" where
  "convS2M_R f b p = (let t = f_type f in
     if t = Rversion then do {
       b \<leftarrow> PBIT32 b p (f_msize f);
       let p = p + BIT32SZ;
       (p, b) \<leftarrow> pstring b p (f_version f);
       Some (Some p, b)
     } else if t = Rerror then do {
       (p, b) \<leftarrow> pstring b p (f_ename f);
       Some (Some p, b)
     } else if t = Rflush then Some (Some p, b)
     else if t = Rauth then do {
       (p, b) \<leftarrow> pqid b p (f_aqid f);
       Some (Some p, b)
     } else if t = Rattach then do {
       (p, b) \<leftarrow> pqid b p (f_qid f);
       Some (Some p, b)
     } else if t = Rwalk then do {
       b \<leftarrow> PBIT16 b p (f_nwqid f);
       let p = p + BIT16SZ;
       if MAXWELEM < unat (f_nwqid f) then Some (None, b)
       else do {
         (p, b) \<leftarrow> pwqids (f_wqid f) (unat (f_nwqid f)) b p;
         Some (Some p, b)
       }
     } else if t = Ropen \<or> t = Rcreate then do {
       (p, b) \<leftarrow> pqid b p (f_qid f);
       b \<leftarrow> PBIT32 b p (f_iounit f);
       let p = p + BIT32SZ;
       Some (Some p, b)
     } else if t = Rread then do {
       b \<leftarrow> PBIT32 b p (f_count f);
       let p = p + BIT32SZ;
       (p, b) \<leftarrow> pdata b p (f_data f) (unat (f_count f));
       Some (Some p, b)
     } else if t = Rwrite then do {
       b \<leftarrow> PBIT32 b p (f_count f);
       let p = p + BIT32SZ;
       Some (Some p, b)
     } else if t = Rclunk then Some (Some p, b)
     else if t = Rremove then Some (Some p, b)
     else if t = Rstat then do {
       b \<leftarrow> PBIT16 b p (f_nstat f);
       let p = p + BIT16SZ;
       (p, b) \<leftarrow> pdata b p (f_stat f) (unat (f_nstat f));
       Some (Some p, b)
     } else if t = Rwstat then Some (Some p, b)
     else Some (None, b))"

text \<open>The request half.\<close>

definition convS2M_T :: "Fcall \<Rightarrow> block \<Rightarrow> nat \<Rightarrow> (nat option \<times> block) option" where
  "convS2M_T f b p = (let t = f_type f in
     if t = Tversion then do {
       b \<leftarrow> PBIT32 b p (f_msize f);
       let p = p + BIT32SZ;
       (p, b) \<leftarrow> pstring b p (f_version f);
       Some (Some p, b)
     } else if t = Tflush then do {
       b \<leftarrow> PBIT16 b p (f_oldtag f);
       let p = p + BIT16SZ;
       Some (Some p, b)
     } else if t = Tauth then do {
       b \<leftarrow> PBIT32 b p (f_afid f);
       let p = p + BIT32SZ;
       (p, b) \<leftarrow> pstring b p (f_uname f);
       (p, b) \<leftarrow> pstring b p (f_aname f);
       Some (Some p, b)
     } else if t = Tattach then do {
       b \<leftarrow> PBIT32 b p (f_fid f);
       let p = p + BIT32SZ;
       b \<leftarrow> PBIT32 b p (f_afid f);
       let p = p + BIT32SZ;
       (p, b) \<leftarrow> pstring b p (f_uname f);
       (p, b) \<leftarrow> pstring b p (f_aname f);
       Some (Some p, b)
     } else if t = Twalk then do {
       b \<leftarrow> PBIT32 b p (f_fid f);
       let p = p + BIT32SZ;
       b \<leftarrow> PBIT32 b p (f_newfid f);
       let p = p + BIT32SZ;
       b \<leftarrow> PBIT16 b p (f_nwname f);
       let p = p + BIT16SZ;
       if MAXWELEM < unat (f_nwname f) then Some (None, b)
       else do {
         (p, b) \<leftarrow> pwnames (f_wname f) (unat (f_nwname f)) b p;
         Some (Some p, b)
       }
     } else if t = Topen then do {
       b \<leftarrow> PBIT32 b p (f_fid f);
       let p = p + BIT32SZ;
       b \<leftarrow> PBIT8 b p (f_mode f);
       let p = p + BIT8SZ;
       Some (Some p, b)
     } else if t = Tcreate then do {
       b \<leftarrow> PBIT32 b p (f_fid f);
       let p = p + BIT32SZ;
       (p, b) \<leftarrow> pstring b p (f_name f);
       b \<leftarrow> PBIT32 b p (f_perm f);
       let p = p + BIT32SZ;
       b \<leftarrow> PBIT8 b p (f_mode f);
       let p = p + BIT8SZ;
       Some (Some p, b)
     } else if t = Tread then do {
       b \<leftarrow> PBIT32 b p (f_fid f);
       let p = p + BIT32SZ;
       b \<leftarrow> PBIT64 b p (f_offset f);
       let p = p + BIT64SZ;
       b \<leftarrow> PBIT32 b p (f_count f);
       let p = p + BIT32SZ;
       Some (Some p, b)
     } else if t = Twrite then do {
       b \<leftarrow> PBIT32 b p (f_fid f);
       let p = p + BIT32SZ;
       b \<leftarrow> PBIT64 b p (f_offset f);
       let p = p + BIT64SZ;
       b \<leftarrow> PBIT32 b p (f_count f);
       let p = p + BIT32SZ;
       (p, b) \<leftarrow> pdata b p (f_data f) (unat (f_count f));
       Some (Some p, b)
     } else if t = Tclunk \<or> t = Tremove then do {
       b \<leftarrow> PBIT32 b p (f_fid f);
       let p = p + BIT32SZ;
       Some (Some p, b)
     } else if t = Tstat then do {
       b \<leftarrow> PBIT32 b p (f_fid f);
       let p = p + BIT32SZ;
       Some (Some p, b)
     } else if t = Twstat then do {
       b \<leftarrow> PBIT32 b p (f_fid f);
       let p = p + BIT32SZ;
       b \<leftarrow> PBIT16 b p (f_nstat f);
       let p = p + BIT16SZ;
       (p, b) \<leftarrow> pdata b p (f_stat f) (unat (f_nstat f));
       Some (Some p, b)
     } else convS2M_R f b p)"

definition convS2M :: "Fcall \<Rightarrow> block \<Rightarrow> u32 \<Rightarrow> (u32 \<times> block) option" where
  "convS2M f b nap = do {
     size \<leftarrow> sizeS2M f;
     if size = 0 then Some (0, b)
     else if size > nap then Some (0, b)
     else do {
       let p = 0;
       b \<leftarrow> PBIT32 b p size;
       let p = p + BIT32SZ;
       b \<leftarrow> PBIT8 b p (f_type f);
       let p = p + BIT8SZ;
       b \<leftarrow> PBIT16 b p (f_tag f);
       let p = p + BIT16SZ;
       (r, b) \<leftarrow> convS2M_T f b p;
       (case r of
          None \<Rightarrow> Some (0, b)
        | Some p \<Rightarrow> if size \<noteq> of_nat p then Some (0, b) else Some (size, b))
     }
   }"

section \<open>The format as a specification\<close>

text \<open>
  The abstract view of a message (\<^verbatim>\<open>intro(5)\<close>: \<open>size[4] type[1] tag[2]\<close> and the fields of its
  type, strings preceded by a two-byte count).
\<close>

datatype msg =
    MTversion u32 cstr | MTflush u16 | MTauth u32 cstr cstr | MTattach u32 u32 cstr cstr
  | MTwalk u32 u32 "cstr list" | MTopen u32 byte | MTcreate u32 cstr u32 byte
  | MTread u32 u64 u32 | MTwrite u32 u64 block | MTclunk u32 | MTremove u32 | MTstat u32
  | MTwstat u32 block | MRversion u32 cstr | MRerror cstr | MRflush | MRauth Qid
  | MRattach Qid | MRwalk "Qid list" | MRopen Qid u32 | MRcreate Qid u32 | MRread block
  | MRwrite u32 | MRclunk | MRremove | MRstat block | MRwstat

primrec msg_type :: "msg \<Rightarrow> byte" where
  "msg_type (MTversion a b) = Tversion"
| "msg_type (MTflush a) = Tflush"
| "msg_type (MTauth a b c) = Tauth"
| "msg_type (MTattach a b c d) = Tattach"
| "msg_type (MTwalk a b c) = Twalk"
| "msg_type (MTopen a b) = Topen"
| "msg_type (MTcreate a b c d) = Tcreate"
| "msg_type (MTread a b c) = Tread"
| "msg_type (MTwrite a b c) = Twrite"
| "msg_type (MTclunk a) = Tclunk"
| "msg_type (MTremove a) = Tremove"
| "msg_type (MTstat a) = Tstat"
| "msg_type (MTwstat a b) = Twstat"
| "msg_type (MRversion a b) = Rversion"
| "msg_type (MRerror a) = Rerror"
| "msg_type MRflush = Rflush"
| "msg_type (MRauth a) = Rauth"
| "msg_type (MRattach a) = Rattach"
| "msg_type (MRwalk a) = Rwalk"
| "msg_type (MRopen a b) = Ropen"
| "msg_type (MRcreate a b) = Rcreate"
| "msg_type (MRread a) = Rread"
| "msg_type (MRwrite a) = Rwrite"
| "msg_type MRclunk = Rclunk"
| "msg_type MRremove = Rremove"
| "msg_type (MRstat a) = Rstat"
| "msg_type MRwstat = Rwstat"

definition estr :: "cstr \<Rightarrow> block" where
  "estr s = le16 (of_nat (length s)) @ s"

definition eqid :: "Qid \<Rightarrow> block" where
  "eqid q = le8 (q_type q) @ le32 (q_vers q) @ le64 (q_path q)"

primrec payload :: "msg \<Rightarrow> block" where
  "payload (MTversion ms v) = le32 ms @ estr v"
| "payload (MTflush t) = le16 t"
| "payload (MTauth af u a) = le32 af @ estr u @ estr a"
| "payload (MTattach f af u a) = le32 f @ le32 af @ estr u @ estr a"
| "payload (MTwalk f nf ws) = le32 f @ le32 nf @ le16 (of_nat (length ws)) @ concat (map estr ws)"
| "payload (MTopen f m) = le32 f @ le8 m"
| "payload (MTcreate f n p m) = le32 f @ estr n @ le32 p @ le8 m"
| "payload (MTread f off c) = le32 f @ le64 off @ le32 c"
| "payload (MTwrite f off d) = le32 f @ le64 off @ le32 (of_nat (length d)) @ d"
| "payload (MTclunk f) = le32 f"
| "payload (MTremove f) = le32 f"
| "payload (MTstat f) = le32 f"
| "payload (MTwstat f s) = le32 f @ le16 (of_nat (length s)) @ s"
| "payload (MRversion ms v) = le32 ms @ estr v"
| "payload (MRerror e) = estr e"
| "payload MRflush = []"
| "payload (MRauth q) = eqid q"
| "payload (MRattach q) = eqid q"
| "payload (MRwalk qs) = le16 (of_nat (length qs)) @ concat (map eqid qs)"
| "payload (MRopen q i) = eqid q @ le32 i"
| "payload (MRcreate q i) = eqid q @ le32 i"
| "payload (MRread d) = le32 (of_nat (length d)) @ d"
| "payload (MRwrite c) = le32 c"
| "payload MRclunk = []"
| "payload MRremove = []"
| "payload (MRstat s) = le16 (of_nat (length s)) @ s"
| "payload MRwstat = []"

definition msg_size :: "msg \<Rightarrow> nat" where
  "msg_size m = 7 + length (payload m)"

definition encode :: "u16 \<Rightarrow> msg \<Rightarrow> block" where
  "encode tag m = le32 (of_nat (msg_size m)) @ le8 (msg_type m) @ le16 tag @ payload m"

text \<open>The message an \<open>Fcall\<close> stands for; nil is written as the empty string.\<close>

definition str_of :: "cstr option \<Rightarrow> cstr" where
  "str_of s = (case s of None \<Rightarrow> [] | Some s \<Rightarrow> s)"

definition msg_of :: "Fcall \<Rightarrow> msg option" where
  "msg_of f = (let t = f_type f in
     if t = Tversion then Some (MTversion (f_msize f) (str_of (f_version f)))
     else if t = Tflush then Some (MTflush (f_oldtag f))
     else if t = Tauth then Some (MTauth (f_afid f) (str_of (f_uname f)) (str_of (f_aname f)))
     else if t = Tattach then
       Some (MTattach (f_fid f) (f_afid f) (str_of (f_uname f)) (str_of (f_aname f)))
     else if t = Twalk then
       Some (MTwalk (f_fid f) (f_newfid f) (map str_of (take (unat (f_nwname f)) (f_wname f))))
     else if t = Topen then Some (MTopen (f_fid f) (f_mode f))
     else if t = Tcreate then
       Some (MTcreate (f_fid f) (str_of (f_name f)) (f_perm f) (f_mode f))
     else if t = Tread then Some (MTread (f_fid f) (f_offset f) (f_count f))
     else if t = Twrite then
       Some (MTwrite (f_fid f) (f_offset f) (take (unat (f_count f)) (f_data f)))
     else if t = Tclunk then Some (MTclunk (f_fid f))
     else if t = Tremove then Some (MTremove (f_fid f))
     else if t = Tstat then Some (MTstat (f_fid f))
     else if t = Twstat then Some (MTwstat (f_fid f) (take (unat (f_nstat f)) (f_stat f)))
     else if t = Rversion then Some (MRversion (f_msize f) (str_of (f_version f)))
     else if t = Rerror then Some (MRerror (str_of (f_ename f)))
     else if t = Rflush then Some MRflush
     else if t = Rauth then Some (MRauth (f_aqid f))
     else if t = Rattach then Some (MRattach (f_qid f))
     else if t = Rwalk then Some (MRwalk (take (unat (f_nwqid f)) (f_wqid f)))
     else if t = Ropen then Some (MRopen (f_qid f) (f_iounit f))
     else if t = Rcreate then Some (MRcreate (f_qid f) (f_iounit f))
     else if t = Rread then Some (MRread (take (unat (f_count f)) (f_data f)))
     else if t = Rwrite then Some (MRwrite (f_count f))
     else if t = Rclunk then Some MRclunk
     else if t = Rremove then Some MRremove
     else if t = Rstat then Some (MRstat (take (unat (f_nstat f)) (f_stat f)))
     else if t = Rwstat then Some MRwstat
     else None)"

text \<open>The structure is consistent: its counts do not run past the arrays they count.\<close>

definition fcall_ok :: "Fcall \<Rightarrow> bool" where
  "fcall_ok f \<longleftrightarrow> length (f_wname f) = MAXWELEM \<and> length (f_wqid f) = MAXWELEM
     \<and> (f_type f = Twalk \<longrightarrow> unat (f_nwname f) \<le> MAXWELEM)
     \<and> (f_type f = Rwalk \<longrightarrow> unat (f_nwqid f) \<le> MAXWELEM)
     \<and> (f_type f \<in> {Twrite, Rread} \<longrightarrow> unat (f_count f) \<le> length (f_data f))
     \<and> (f_type f \<in> {Twstat, Rstat} \<longrightarrow> unat (f_nstat f) \<le> length (f_stat f))"

section \<open>Sizes\<close>

lemma length_estr [simp, size_simps]: "length (estr s) = 2 + length s"
  by (simp add: estr_def)

lemma length_eqid [simp, size_simps]: "length (eqid q) = 13"
  by (simp add: eqid_def)

lemma length_concat_eqid [simp, size_simps]: "length (concat (map eqid qs)) = 13 * length qs"
  by (induction qs) simp_all

lemma msg_size_ge: "7 \<le> msg_size m"
  by (simp add: msg_size_def)

lemma length_encode [simp, size_simps]: "length (encode tag m) = msg_size m"
  by (simp add: encode_def msg_size_def)

lemma stringsz_eq: "stringsz s = of_nat (2 + length (str_of s))"
  by (simp add: stringsz_def str_of_def split: option.split)

lemma wname_sizes_eq:
  "k \<le> length ws \<Longrightarrow> wname_sizes ws k n
    = Some (n + of_nat (length (concat (map estr (map str_of (take k ws))))))"
  by (induction ws k n rule: wname_sizes.induct) (simp_all add: stringsz_eq)

lemma take_count_length:
  "n \<le> length xs \<Longrightarrow> length (take n xs) = n"
  by simp

lemma of_nat_unat_ucast: "(of_nat (unat (x :: u16)) :: u32) = ucast x"
  by (simp add: of_nat_unat)

lemma sizeS2M_eq:
  assumes "fcall_ok f" and "msg_of f = Some m"
  shows "sizeS2M f = Some (of_nat (msg_size m))"
  using assms
  by (auto simp: msg_of_def sizeS2M_def Let_def msg_size_def stringsz_eq wname_sizes_eq fcall_ok_def
      of_nat_unat_ucast split: if_splits)

lemma sizeS2M_unknown: "msg_of f = None \<Longrightarrow> sizeS2M f = Some 0"
  by (auto simp: msg_of_def sizeS2M_def Let_def split: if_splits)

section \<open>Writing\<close>

text \<open>A field is written where the part already written ends; the rules keep what is written
  as one left-nested prefix.\<close>

lemma PBIT8_at: "p = length d \<Longrightarrow> 1 \<le> length r \<Longrightarrow> PBIT8 (d @ r) p a = Some ((d @ le8 a) @ drop 1 r)"
  by (simp add: mem_simps)

lemma PBIT16_at: "p = length d \<Longrightarrow> 2 \<le> length r \<Longrightarrow> PBIT16 (d @ r) p a = Some ((d @ le16 a) @ drop 2 r)"
  by (simp add: mem_simps)

lemma PBIT32_at: "p = length d \<Longrightarrow> 4 \<le> length r \<Longrightarrow> PBIT32 (d @ r) p a = Some ((d @ le32 a) @ drop 4 r)"
  by (simp add: mem_simps)

lemma PBIT64_at: "p = length d \<Longrightarrow> 8 \<le> length r \<Longrightarrow> PBIT64 (d @ r) p a = Some ((d @ le64 a) @ drop 8 r)"
  by (simp add: mem_simps)

lemma pstring_at:
  assumes "p = length d" and "2 + length (str_of s) \<le> length r"
  shows "pstring (d @ r) p s
    = Some (p + 2 + length (str_of s), (d @ estr (str_of s)) @ drop (2 + length (str_of s)) r)"
proof (cases s)
  case None
  with assms show ?thesis
    by (simp add: pstring_def str_of_def estr_def mem_simps)
next
  case (Some t)
  have "mwrite (d @ r) (length d + 2) t = Some (d @ take 2 r @ t @ drop (2 + length t) r)"
    using assms Some by (simp add: mwrite_def str_of_def add.commute)
  with assms Some show ?thesis
    by (simp add: pstring_def str_of_def estr_def mem_simps Let_def add.commute)
qed

lemma pqid_at:
  "p = length d \<Longrightarrow> 13 \<le> length r \<Longrightarrow> pqid (d @ r) p q = Some (p + 13, (d @ eqid q) @ drop 13 r)"
  by (simp add: pqid_def Let_def eqid_def PBIT8_at PBIT32_at PBIT64_at flip: append_assoc)

lemma pdata_at:
  "p = length d \<Longrightarrow> n \<le> length r \<Longrightarrow> n \<le> length src
    \<Longrightarrow> pdata (d @ r) p src n = Some (p + n, (d @ take n src) @ drop n r)"
  by (simp add: pdata_def mread_def mwrite_append)

lemma pwnames_at:
  "p = length d \<Longrightarrow> k \<le> length ws \<Longrightarrow> es = concat (map estr (map str_of (take k ws)))
    \<Longrightarrow> length es \<le> length r
    \<Longrightarrow> pwnames ws k (d @ r) p = Some (p + length es, (d @ es) @ drop (length es) r)"
proof (induction ws arbitrary: k d r p es)
  case (Cons w ws)
  show ?case
  proof (cases k)
    case (Suc j)
    let ?w = "estr (str_of w)"
    let ?es = "concat (map estr (map str_of (take j ws)))"
    have "pwnames ws j ((d @ ?w) @ drop (2 + length (str_of w)) r) (p + 2 + length (str_of w))
      = Some (p + 2 + length (str_of w) + length ?es,
          ((d @ ?w) @ ?es) @ drop (length ?es) (drop (2 + length (str_of w)) r))"
      using Cons.prems Suc by (intro Cons.IH) auto
    with Cons.prems Suc show ?thesis
      by (simp add: pstring_at add_ac)
  qed (use Cons.prems in simp)
qed simp

lemma pwqids_at:
  "p = length d \<Longrightarrow> k \<le> length qs \<Longrightarrow> 13 * k \<le> length r
    \<Longrightarrow> pwqids qs k (d @ r) p = Some (p + 13 * k,
        (d @ concat (map eqid (take k qs))) @ drop (13 * k) r)"
proof (induction qs arbitrary: k d r p)
  case (Cons q qs)
  show ?case
  proof (cases k)
    case (Suc j)
    have "pwqids qs j ((d @ eqid q) @ drop 13 r) (p + 13)
      = Some (p + 13 + 13 * j, ((d @ eqid q) @ concat (map eqid (take j qs))) @ drop (13 * j) (drop 13 r))"
      using Cons.prems Suc by (intro Cons.IH) auto
    with Cons.prems Suc show ?thesis
      by (simp add: pqid_at add_ac)
  qed (use Cons.prems in simp)
qed simp

lemmas write_at = PBIT8_at PBIT16_at PBIT32_at PBIT64_at pstring_at pqid_at pdata_at
  pwnames_at [OF _ _ refl] pwqids_at

lemma convS2M_T_at:
  assumes "fcall_ok f" and "msg_of f = Some m" and "p = length d"
    and "length (payload m) \<le> length r"
  shows "convS2M_T f (d @ r) p = Some (Some (p + length (payload m)),
    (d @ payload m) @ drop (length (payload m)) r)"
  using assms
  by (auto simp: msg_of_def convS2M_T_def convS2M_R_def Let_def write_at fcall_ok_def
      of_nat_unat_ucast split: if_splits simp del: append_assoc map_map) (simp_all add: add_ac)


lemma convS2M_encode:
  assumes "fcall_ok f" and "msg_of f = Some m" and "msg_size m < 2 ^ 32"
    and "msg_size m \<le> unat nap" and "unat nap \<le> length b"
  shows "convS2M f b nap = Some (of_nat (msg_size m), encode (f_tag f) m @ drop (msg_size m) b)"
proof -
  let ?n = "of_nat (msg_size m) :: u32"
  have t: "f_type f = msg_type m"
    using assms(2) by (auto simp: msg_of_def Let_def split: if_splits)
  have u: "unat ?n = msg_size m"
    using assms(3) by (simp add: unat_of_nat)
  have nz: "?n \<noteq> 0" and le: "\<not> ?n > nap"
    using u msg_size_ge [of m] assms(4) by (auto simp: word_less_nat_alt)
  have len: "7 + length (payload m) \<le> length b"
    using assms(4,5) by (simp add: msg_size_def)
  have "convS2M_T f (((le32 ?n @ le8 (f_type f)) @ le16 (f_tag f)) @ drop 7 b) 7
    = Some (Some (7 + length (payload m)),
        (((le32 ?n @ le8 (f_type f)) @ le16 (f_tag f)) @ payload m)
          @ drop (length (payload m)) (drop 7 b))"
    using assms(1,2) len by (intro convS2M_T_at) auto
  with assms(1,2) nz le len t show ?thesis
    using PBIT32_at [of 0 "[]" b ?n] PBIT8_at [of 4 "le32 ?n" "drop 4 b" "f_type f"]
      PBIT16_at [of 5 "le32 ?n @ le8 (f_type f)" "drop 5 b" "f_tag f"]
    by (simp add: convS2M_def sizeS2M_eq encode_def msg_size_def add.commute [of 7])
qed
end
