(* ===== verification/ConvM2S.thy ===== *)
theory ConvM2S
  imports ConvS2M
begin

text \<open>
  \<^verbatim>\<open>libc/9sys/convM2S.c\<close>: decoding a 9P message in place.  \<open>gstring\<close> moves a string down
  over its count and terminates it in the buffer, so decoding changes the buffer; the model
  returns it.  The caller's structure \<open>f\<close> is updated field by field, as the C updates
  \<open>*f\<close>, and keeps what it held elsewhere.  A branch answers \<^const>\<open>None\<close> in its first
  component where the C returns 0 or leaves \<open>p\<close> nil.

  \<open>ap\<close> is the address of the buffer, and pointers into it are offsets from there.  Where a count of 32 bits
  is added to a pointer, in \<open>Twrite\<close> and \<open>Rread\<close>, the sum wraps around with the addresses
  (\<open>ptr_plus\<close>, \<open>ptr_past\<close>).  The constants and counts of 16 bits added elsewhere would need a
  buffer in the last 64 kB of the address space to wrap around.
\<close>

section \<open>The code\<close>

definition gstring :: "block \<Rightarrow> nat \<Rightarrow> nat \<Rightarrow> ((nat \<times> cstr) option \<times> block) option" where
  "gstring b p ep = (if p + BIT16SZ > ep then Some (None, b)
     else do {
       w \<leftarrow> GBIT16 b p;
       let n = unat w;
       let p = p + (BIT16SZ - 1);
       if p + n + 1 > ep then Some (None, b)
       else do {
         x \<leftarrow> mread b (p + 1) n;
         b \<leftarrow> mwrite b p x;
         b \<leftarrow> mwrite b (p + n) [0];
         s \<leftarrow> cstring_at b p;
         Some (Some (p + (n + 1), s), b)
       }
     })"

definition gqid :: "block \<Rightarrow> nat \<Rightarrow> nat \<Rightarrow> (nat \<times> Qid) option option" where
  "gqid b p ep = (if p + QIDSZ > ep then Some None
     else do {
       t \<leftarrow> GBIT8 b p;
       let p = p + BIT8SZ;
       v \<leftarrow> GBIT32 b p;
       let p = p + BIT32SZ;
       x \<leftarrow> GBIT64 b p;
       let p = p + BIT64SZ;
       Some (Some (p, \<lparr>q_path = x, q_vers = v, q_type = t\<rparr>))
     })"

text \<open>The test \<open>p > ep\<close> on addresses.\<close>

definition ptr_past :: "u32 \<Rightarrow> nat \<Rightarrow> nat \<Rightarrow> bool" where
  "ptr_past ap p ep \<longleftrightarrow> ap + of_nat p > (ap + of_nat ep :: u32)"

text \<open>The offset of \<open>p + count\<close>, which is added modulo $2^{32}$.\<close>

definition ptr_plus :: "nat \<Rightarrow> u32 \<Rightarrow> nat" where
  "ptr_plus p count = unat (of_nat p + count)"

text \<open>One string field: \<open>p = gstring(p, ep, &f->field)\<close>, and what follows if \<open>p\<close> is not nil.\<close>

definition m2s_string :: "block \<Rightarrow> nat \<Rightarrow> nat \<Rightarrow> Fcall \<Rightarrow> (cstr \<Rightarrow> Fcall \<Rightarrow> Fcall)
    \<Rightarrow> (nat option \<times> Fcall \<times> block) option" where
  "m2s_string b p ep f upd = do {
     (r, b) \<leftarrow> gstring b p ep;
     (case r of
        None \<Rightarrow> Some (None, f, b)
      | Some (p, s) \<Rightarrow> Some (Some p, upd s f, b))
   }"

fun m2s_wnames :: "nat \<Rightarrow> nat \<Rightarrow> block \<Rightarrow> nat \<Rightarrow> nat \<Rightarrow> Fcall
    \<Rightarrow> (nat option \<times> Fcall \<times> block) option" where
  "m2s_wnames 0 i b p ep f = Some (Some p, f, b)"
| "m2s_wnames (Suc k) i b p ep f = do {
     (r, b) \<leftarrow> gstring b p ep;
     (case r of
        None \<Rightarrow> Some (None, f, b)
      | Some (p, s) \<Rightarrow>
          m2s_wnames k (Suc i) b p ep (f\<lparr>f_wname := (f_wname f)[i := Some s]\<rparr>))
   }"

fun m2s_wqids :: "nat \<Rightarrow> nat \<Rightarrow> block \<Rightarrow> nat \<Rightarrow> nat \<Rightarrow> Fcall
    \<Rightarrow> (nat option \<times> Fcall \<times> block) option" where
  "m2s_wqids 0 i b p ep f = Some (Some p, f, b)"
| "m2s_wqids (Suc k) i b p ep f = do {
     r \<leftarrow> gqid b p ep;
     (case r of
        None \<Rightarrow> Some (None, f, b)
      | Some (p, q) \<Rightarrow>
          m2s_wqids k (Suc i) b p ep (f\<lparr>f_wqid := (f_wqid f)[i := q]\<rparr>))
   }"

definition m2s_uname_aname :: "block \<Rightarrow> nat \<Rightarrow> nat \<Rightarrow> Fcall
    \<Rightarrow> (nat option \<times> Fcall \<times> block) option" where
  "m2s_uname_aname b p ep f = do {
     (r, f, b) \<leftarrow> m2s_string b p ep f (\<lambda>s f. f\<lparr>f_uname := Some s\<rparr>);
     (case r of
        None \<Rightarrow> Some (None, f, b)
      | Some p \<Rightarrow> m2s_string b p ep f (\<lambda>s f. f\<lparr>f_aname := Some s\<rparr>))
   }"

text \<open>The reply half of the switch; its default is \<open>return 0\<close>.\<close>

definition convM2S_R :: "u32 \<Rightarrow> block \<Rightarrow> nat \<Rightarrow> nat \<Rightarrow> Fcall \<Rightarrow> (nat option \<times> Fcall \<times> block) option" where
  "convM2S_R ap b p ep f = (let t = f_type f in
     if t = Rversion then
       if p + BIT32SZ > ep then Some (None, f, b)
       else do {
         v \<leftarrow> GBIT32 b p;
         let f = f\<lparr>f_msize := v\<rparr>;
         let p = p + BIT32SZ;
         m2s_string b p ep f (\<lambda>s f. f\<lparr>f_version := Some s\<rparr>)
       }
     else if t = Rerror then m2s_string b p ep f (\<lambda>s f. f\<lparr>f_ename := Some s\<rparr>)
     else if t = Rflush then Some (Some p, f, b)
     else if t = Rauth then do {
       r \<leftarrow> gqid b p ep;
       (case r of None \<Rightarrow> Some (None, f, b) | Some (p, q) \<Rightarrow> Some (Some p, f\<lparr>f_aqid := q\<rparr>, b))
     }
     else if t = Rattach then do {
       r \<leftarrow> gqid b p ep;
       (case r of None \<Rightarrow> Some (None, f, b) | Some (p, q) \<Rightarrow> Some (Some p, f\<lparr>f_qid := q\<rparr>, b))
     }
     else if t = Rwalk then
       if p + BIT16SZ > ep then Some (None, f, b)
       else do {
         v \<leftarrow> GBIT16 b p;
         let f = f\<lparr>f_nwqid := v\<rparr>;
         let p = p + BIT16SZ;
         if unat (f_nwqid f) > MAXWELEM then Some (None, f, b)
         else m2s_wqids (unat (f_nwqid f)) 0 b p ep f
       }
     else if t = Ropen \<or> t = Rcreate then do {
       r \<leftarrow> gqid b p ep;
       (case r of None \<Rightarrow> Some (None, f, b)
        | Some (p, q) \<Rightarrow>
            let f = f\<lparr>f_qid := q\<rparr> in
            if p + BIT32SZ > ep then Some (None, f, b)
            else do {
              v \<leftarrow> GBIT32 b p;
              Some (Some (p + BIT32SZ), f\<lparr>f_iounit := v\<rparr>, b)
            })
     }
     else if t = Rread then
       if p + BIT32SZ > ep then Some (None, f, b)
       else do {
         v \<leftarrow> GBIT32 b p;
         let f = f\<lparr>f_count := v\<rparr>;
         let p = p + BIT32SZ;
         let q = ptr_plus p (f_count f);
         if ptr_past ap q ep then Some (None, f, b)
         else Some (Some q, f\<lparr>f_data := drop p b\<rparr>, b)
       }
     else if t = Rwrite then
       if p + BIT32SZ > ep then Some (None, f, b)
       else do {
         v \<leftarrow> GBIT32 b p;
         Some (Some (p + BIT32SZ), f\<lparr>f_count := v\<rparr>, b)
       }
     else if t = Rclunk \<or> t = Rremove then Some (Some p, f, b)
     else if t = Rstat then
       if p + BIT16SZ > ep then Some (None, f, b)
       else do {
         v \<leftarrow> GBIT16 b p;
         let f = f\<lparr>f_nstat := v\<rparr>;
         let p = p + BIT16SZ;
         if p + unat (f_nstat f) > ep then Some (None, f, b)
         else Some (Some (p + unat (f_nstat f)), f\<lparr>f_stat := drop p b\<rparr>, b)
       }
     else if t = Rwstat then Some (Some p, f, b)
     else Some (None, f, b))"

text \<open>The request half.\<close>

definition convM2S_T :: "u32 \<Rightarrow> block \<Rightarrow> nat \<Rightarrow> nat \<Rightarrow> Fcall \<Rightarrow> (nat option \<times> Fcall \<times> block) option" where
  "convM2S_T ap b p ep f = (let t = f_type f in
     if t = Tversion then
       if p + BIT32SZ > ep then Some (None, f, b)
       else do {
         v \<leftarrow> GBIT32 b p;
         let f = f\<lparr>f_msize := v\<rparr>;
         let p = p + BIT32SZ;
         m2s_string b p ep f (\<lambda>s f. f\<lparr>f_version := Some s\<rparr>)
       }
     else if t = Tflush then
       if p + BIT16SZ > ep then Some (None, f, b)
       else do {
         v \<leftarrow> GBIT16 b p;
         Some (Some (p + BIT16SZ), f\<lparr>f_oldtag := v\<rparr>, b)
       }
     else if t = Tauth then
       if p + BIT32SZ > ep then Some (None, f, b)
       else do {
         v \<leftarrow> GBIT32 b p;
         m2s_uname_aname b (p + BIT32SZ) ep (f\<lparr>f_afid := v\<rparr>)
       }
     else if t = Tattach then
       if p + BIT32SZ > ep then Some (None, f, b)
       else do {
         v \<leftarrow> GBIT32 b p;
         let f = f\<lparr>f_fid := v\<rparr>;
         let p = p + BIT32SZ;
         if p + BIT32SZ > ep then Some (None, f, b)
         else do {
           v \<leftarrow> GBIT32 b p;
           m2s_uname_aname b (p + BIT32SZ) ep (f\<lparr>f_afid := v\<rparr>)
         }
       }
     else if t = Twalk then
       if p + BIT32SZ + BIT32SZ + BIT16SZ > ep then Some (None, f, b)
       else do {
         v \<leftarrow> GBIT32 b p;
         let f = f\<lparr>f_fid := v\<rparr>;
         let p = p + BIT32SZ;
         v \<leftarrow> GBIT32 b p;
         let f = f\<lparr>f_newfid := v\<rparr>;
         let p = p + BIT32SZ;
         w \<leftarrow> GBIT16 b p;
         let f = f\<lparr>f_nwname := w\<rparr>;
         let p = p + BIT16SZ;
         if unat (f_nwname f) > MAXWELEM then Some (None, f, b)
         else m2s_wnames (unat (f_nwname f)) 0 b p ep f
       }
     else if t = Topen then
       if p + BIT32SZ + BIT8SZ > ep then Some (None, f, b)
       else do {
         v \<leftarrow> GBIT32 b p;
         let f = f\<lparr>f_fid := v\<rparr>;
         let p = p + BIT32SZ;
         w \<leftarrow> GBIT8 b p;
         Some (Some (p + BIT8SZ), f\<lparr>f_mode := w\<rparr>, b)
       }
     else if t = Tcreate then
       if p + BIT32SZ > ep then Some (None, f, b)
       else do {
         v \<leftarrow> GBIT32 b p;
         let f = f\<lparr>f_fid := v\<rparr>;
         let p = p + BIT32SZ;
         (r, f, b) \<leftarrow> m2s_string b p ep f (\<lambda>s f. f\<lparr>f_name := Some s\<rparr>);
         (case r of
            None \<Rightarrow> Some (None, f, b)
          | Some p \<Rightarrow>
              if p + BIT32SZ + BIT8SZ > ep then Some (None, f, b)
              else do {
                v \<leftarrow> GBIT32 b p;
                let f = f\<lparr>f_perm := v\<rparr>;
                let p = p + BIT32SZ;
                w \<leftarrow> GBIT8 b p;
                Some (Some (p + BIT8SZ), f\<lparr>f_mode := w\<rparr>, b)
              })
       }
     else if t = Tread then
       if p + BIT32SZ + BIT64SZ + BIT32SZ > ep then Some (None, f, b)
       else do {
         v \<leftarrow> GBIT32 b p;
         let f = f\<lparr>f_fid := v\<rparr>;
         let p = p + BIT32SZ;
         w \<leftarrow> GBIT64 b p;
         let f = f\<lparr>f_offset := w\<rparr>;
         let p = p + BIT64SZ;
         v \<leftarrow> GBIT32 b p;
         Some (Some (p + BIT32SZ), f\<lparr>f_count := v\<rparr>, b)
       }
     else if t = Twrite then
       if p + BIT32SZ + BIT64SZ + BIT32SZ > ep then Some (None, f, b)
       else do {
         v \<leftarrow> GBIT32 b p;
         let f = f\<lparr>f_fid := v\<rparr>;
         let p = p + BIT32SZ;
         w \<leftarrow> GBIT64 b p;
         let f = f\<lparr>f_offset := w\<rparr>;
         let p = p + BIT64SZ;
         v \<leftarrow> GBIT32 b p;
         let f = f\<lparr>f_count := v\<rparr>;
         let p = p + BIT32SZ;
         let q = ptr_plus p (f_count f);
         if ptr_past ap q ep then Some (None, f, b)
         else Some (Some q, f\<lparr>f_data := drop p b\<rparr>, b)
       }
     else if t = Tclunk \<or> t = Tremove then
       if p + BIT32SZ > ep then Some (None, f, b)
       else do {
         v \<leftarrow> GBIT32 b p;
         Some (Some (p + BIT32SZ), f\<lparr>f_fid := v\<rparr>, b)
       }
     else if t = Tstat then
       if p + BIT32SZ > ep then Some (None, f, b)
       else do {
         v \<leftarrow> GBIT32 b p;
         Some (Some (p + BIT32SZ), f\<lparr>f_fid := v\<rparr>, b)
       }
     else if t = Twstat then
       if p + BIT32SZ + BIT16SZ > ep then Some (None, f, b)
       else do {
         v \<leftarrow> GBIT32 b p;
         let f = f\<lparr>f_fid := v\<rparr>;
         let p = p + BIT32SZ;
         w \<leftarrow> GBIT16 b p;
         let f = f\<lparr>f_nstat := w\<rparr>;
         let p = p + BIT16SZ;
         if p + unat (f_nstat f) > ep then Some (None, f, b)
         else Some (Some (p + unat (f_nstat f)), f\<lparr>f_stat := drop p b\<rparr>, b)
       }
     else convM2S_R ap b p ep f)"

definition convM2S :: "u32 \<Rightarrow> block \<Rightarrow> u32 \<Rightarrow> Fcall \<Rightarrow> (u32 \<times> Fcall \<times> block) option" where
  "convM2S ap b nap f = do {
     let p = 0;
     let ep = unat nap;
     if p + BIT32SZ + BIT8SZ + BIT16SZ > ep then Some (0, f, b)
     else do {
       size \<leftarrow> GBIT32 b p;
       let p = p + BIT32SZ;
       if unat size < BIT32SZ + BIT8SZ + BIT16SZ then Some (0, f, b)
       else do {
         t \<leftarrow> GBIT8 b p;
         let f = f\<lparr>f_type := t\<rparr>;
         let p = p + BIT8SZ;
         w \<leftarrow> GBIT16 b p;
         let f = f\<lparr>f_tag := w\<rparr>;
         let p = p + BIT16SZ;
         (r, f, b) \<leftarrow> convM2S_T ap b p ep f;
         (case r of
            None \<Rightarrow> Some (0, f, b)
          | Some p \<Rightarrow>
              if ptr_past ap p ep then Some (0, f, b)
              else if unat size = p then Some (size, f, b)
              else Some (0, f, b))
       }
     }
   }"

section \<open>Decoding an encoded message\<close>

text \<open>A field is read past what precedes it, and at the start of what is left.\<close>

lemma GBIT8_skip: "length x \<le> p \<Longrightarrow> GBIT8 (x @ y) p = GBIT8 y (p - length x)"
  by (auto simp: le_iff_add GBIT8_def nth_append)

lemma GBIT16_skip: "length x \<le> p \<Longrightarrow> GBIT16 (x @ y) p = GBIT16 y (p - length x)"
  by (auto simp: le_iff_add GBIT16_def nth_append)

lemma GBIT32_skip: "length x \<le> p \<Longrightarrow> GBIT32 (x @ y) p = GBIT32 y (p - length x)"
  by (auto simp: le_iff_add GBIT32_def nth_append)

lemma GBIT64_skip: "length x \<le> p \<Longrightarrow> GBIT64 (x @ y) p = GBIT64 y (p - length x)"
  by (auto simp: le_iff_add GBIT64_def GBIT32_skip add.assoc)

lemma GBIT_here:
  "GBIT8 (le8 a @ r) 0 = Some a" "GBIT16 (le16 b @ r) 0 = Some b"
  "GBIT32 (le32 c @ r) 0 = Some c" "GBIT64 (le64 e @ r) 0 = Some e"
  using GBIT_append [of "[]"] GBIT64_append [of "[]"] by simp_all

lemma GBIT_last:
  "GBIT8 (le8 a) 0 = Some a" "GBIT16 (le16 b) 0 = Some b"
  "GBIT32 (le32 c) 0 = Some c" "GBIT64 (le64 e) 0 = Some e"
  using GBIT_here [where r = "[]"] by simp_all

text \<open>What \<open>gstring\<close> leaves in place of an encoded string.\<close>

definition mangled :: "cstr \<Rightarrow> block" where
  "mangled s = ucast (of_nat (length s) :: u16) # s @ [0]"

lemma length_mangled [simp]: "length (mangled s) = 2 + length s"
  by (simp add: mangled_def)

definition wf_str :: "cstr \<Rightarrow> bool" where
  "wf_str s \<longleftrightarrow> 0 \<notin> set s \<and> length s < 2 ^ 16"

lemma gstring_at:
  assumes "wf_str s" and "p = length d" and "p + 2 + length s \<le> ep"
  shows "gstring (d @ estr s @ r) p ep = Some (Some (p + 2 + length s, s), d @ mangled s @ r)"
proof -
  let ?n = "length s"
  have n: "unat (of_nat ?n :: u16) = ?n"
    using assms(1) by (simp add: wf_str_def unat_of_nat)
  define c0 c1 where "c0 = (ucast (of_nat ?n :: u16) :: byte)"
    and "c1 = (ucast (drop_bit 8 (of_nat ?n :: u16)) :: byte)"
  have b: "d @ estr s @ r = d @ c0 # c1 # s @ r"
    by (simp add: estr_def le16_def c0_def c1_def)
  have g: "GBIT16 (d @ c0 # c1 # s @ r) p = Some (of_nat ?n)"
    using GBIT_append(2) [of d "of_nat ?n" "s @ r"] assms(2) by (simp add: le16_def c0_def c1_def)
  have rd: "mread (d @ c0 # c1 # s @ r) (p + 2) ?n = Some s"
    using mread_append [of s ?n "d @ [c0, c1]" r] assms(2) by simp
  have w1: "mwrite (d @ c0 # c1 # s @ r) (p + 1) s
      = Some (d @ c0 # s @ drop ?n (c1 # s) @ r)"
    using mwrite_append [of s "c1 # s @ r" "d @ [c0]"] drop_append [of ?n "c1 # s" r] assms(2)
    by simp
  have "length (drop ?n (c1 # s)) = 1" by simp
  then obtain c2 where c2: "drop ?n (c1 # s) = [c2]"
    by (metis One_nat_def length_0_conv length_Suc_conv)
  have w2: "mwrite (d @ c0 # s @ c2 # r) (p + 1 + ?n) [0] = Some (d @ c0 # s @ 0 # r)"
    using mwrite_append [of "[0]" "c2 # r" "d @ c0 # s"] assms(2) by simp
  have cs: "cstring_at (d @ c0 # s @ 0 # r) (p + 1) = Some s"
    using cstring_at_append [of s "d @ [c0]" r] assms(1,2) by (simp add: wf_str_def)
  show ?thesis
    using assms(3) g rd w1 w2 cs c2 n
    by (simp add: b gstring_def Let_def mangled_def c0_def [symmetric])
qed

lemma mread_skip: "length x \<le> p \<Longrightarrow> mread (x @ y) p n = mread y (p - length x) n"
  by (auto simp: le_iff_add mread_def)

lemma mwrite_skip:
  "length x \<le> p \<Longrightarrow> mwrite (x @ y) p bs = map_option ((@) x) (mwrite y (p - length x) bs)"
  by (auto simp: le_iff_add mwrite_def)

lemma cstring_at_skip: "length x \<le> p \<Longrightarrow> cstring_at (x @ y) p = cstring_at y (p - length x)"
  by (auto simp: le_iff_add cstring_at_def)

lemmas skip_simps = GBIT8_skip GBIT16_skip GBIT32_skip GBIT64_skip mread_skip mwrite_skip
  cstring_at_skip

lemma gstring_skip:
  assumes "length x \<le> p" and "length x \<le> ep"
  shows "gstring (x @ y) p ep = map_option (\<lambda>(res, y').
      (map_option (\<lambda>(q, s). (q + length x, s)) res, x @ y'))
      (gstring y (p - length x) (ep - length x))"
proof -
  obtain k e where "p = length x + k" and "ep = length x + e"
    using assms by (auto simp: le_iff_add)
  then show ?thesis
    by (auto simp: gstring_def Let_def skip_simps bind_map_option map_option_bind o_def
        intro!: Option.bind_cong [OF refl])
qed

lemma gstring_here:
  "wf_str s \<Longrightarrow> 2 + length s \<le> ep
    \<Longrightarrow> gstring (estr s @ r) 0 ep = Some (Some (2 + length s, s), mangled s @ r)"
  using gstring_at [of s 0 "[]" ep r] by simp

lemma gqid_skip: "length x \<le> p \<Longrightarrow> length x \<le> ep
  \<Longrightarrow> gqid (x @ y) p ep = map_option (map_option (\<lambda>(q, v). (q + length x, v)))
      (gqid y (p - length x) (ep - length x))"
  by (auto simp: le_iff_add gqid_def GBIT8_skip GBIT32_skip GBIT64_skip Let_def add_ac
      split: bind_splits)

lemma gqid_here: "13 \<le> ep \<Longrightarrow> gqid (eqid q @ r) 0 ep = Some (Some (13, q))"
  by (simp add: gqid_def eqid_def GBIT8_skip GBIT32_skip GBIT64_skip GBIT_here Let_def)

lemma m2s_wnames_at:
  "\<forall>s \<in> set ss. wf_str s \<Longrightarrow> p = length d \<Longrightarrow> p + length (concat (map estr ss)) \<le> ep
    \<Longrightarrow> i + length ss \<le> length (f_wname f)
    \<Longrightarrow> m2s_wnames (length ss) i (d @ concat (map estr ss) @ r) p ep f
      = Some (Some (p + length (concat (map estr ss))),
          f\<lparr>f_wname := take i (f_wname f) @ map Some ss @ drop (i + length ss) (f_wname f)\<rparr>,
          d @ concat (map mangled ss) @ r)"
proof (induction ss arbitrary: i d p f)
  case (Cons s ss)
  let ?f = "f\<lparr>f_wname := (f_wname f)[i := Some s]\<rparr>"
  have "gstring (d @ estr s @ concat (map estr ss) @ r) p ep
      = Some (Some (p + 2 + length s, s), d @ mangled s @ concat (map estr ss) @ r)"
    using Cons.prems by (intro gstring_at) auto
  moreover have "m2s_wnames (length ss) (Suc i) ((d @ mangled s) @ concat (map estr ss) @ r)
      (p + 2 + length s) ep ?f
    = Some (Some (p + 2 + length s + length (concat (map estr ss))),
        ?f\<lparr>f_wname := take (Suc i) (f_wname ?f) @ map Some ss @ drop (Suc i + length ss) (f_wname ?f)\<rparr>,
        (d @ mangled s) @ concat (map mangled ss) @ r)"
    using Cons.prems by (intro Cons.IH) auto
  ultimately show ?case
    using Cons.prems by (simp add: take_Suc_conv_app_nth upd_conv_take_nth_drop)
qed simp

lemma m2s_wqids_at:
  "p = length d \<Longrightarrow> p + 13 * length qs \<le> ep \<Longrightarrow> i + length qs \<le> length (f_wqid f)
    \<Longrightarrow> m2s_wqids (length qs) i (d @ concat (map eqid qs) @ r) p ep f
      = Some (Some (p + 13 * length qs),
          f\<lparr>f_wqid := take i (f_wqid f) @ qs @ drop (i + length qs) (f_wqid f)\<rparr>,
          d @ concat (map eqid qs) @ r)"
proof (induction qs arbitrary: i d p f)
  case (Cons q qs)
  let ?f = "f\<lparr>f_wqid := (f_wqid f)[i := q]\<rparr>"
  have "gqid (d @ eqid q @ concat (map eqid qs) @ r) p ep = Some (Some (p + 13, q))"
    using Cons.prems by (simp add: gqid_skip gqid_here)
  moreover have "m2s_wqids (length qs) (Suc i) ((d @ eqid q) @ concat (map eqid qs) @ r) (p + 13) ep ?f
    = Some (Some (p + 13 + 13 * length qs),
        ?f\<lparr>f_wqid := take (Suc i) (f_wqid ?f) @ qs @ drop (Suc i + length qs) (f_wqid ?f)\<rparr>,
        (d @ eqid q) @ concat (map eqid qs) @ r)"
    using Cons.prems by (intro Cons.IH) auto
  ultimately show ?case
    using Cons.prems by (simp add: take_Suc_conv_app_nth upd_conv_take_nth_drop)
qed simp

primrec msg_strs :: "msg \<Rightarrow> cstr list" where
  "msg_strs (MTversion ms v) = [v]"
| "msg_strs (MTflush t) = []"
| "msg_strs (MTauth af u a) = [u, a]"
| "msg_strs (MTattach f af u a) = [u, a]"
| "msg_strs (MTwalk f nf ws) = ws"
| "msg_strs (MTopen f m) = []"
| "msg_strs (MTcreate f n p m) = [n]"
| "msg_strs (MTread f off c) = []"
| "msg_strs (MTwrite f off d) = []"
| "msg_strs (MTclunk f) = []"
| "msg_strs (MTremove f) = []"
| "msg_strs (MTstat f) = []"
| "msg_strs (MTwstat f s) = []"
| "msg_strs (MRversion ms v) = [v]"
| "msg_strs (MRerror e) = [e]"
| "msg_strs MRflush = []"
| "msg_strs (MRauth q) = []"
| "msg_strs (MRattach q) = []"
| "msg_strs (MRwalk qs) = []"
| "msg_strs (MRopen q i) = []"
| "msg_strs (MRcreate q i) = []"
| "msg_strs (MRread d) = []"
| "msg_strs (MRwrite c) = []"
| "msg_strs MRclunk = []"
| "msg_strs MRremove = []"
| "msg_strs (MRstat s) = []"
| "msg_strs MRwstat = []"

definition wf_msg :: "msg \<Rightarrow> bool" where
  "wf_msg m \<longleftrightarrow> msg_size m < 2 ^ 32 \<and> (\<forall>s \<in> set (msg_strs m). wf_str s)
     \<and> (case m of
          MTwalk f nf ws \<Rightarrow> length ws \<le> MAXWELEM
        | MRwalk qs \<Rightarrow> length qs \<le> MAXWELEM
        | MTwstat f s \<Rightarrow> length s < 2 ^ 16
        | MRstat s \<Rightarrow> length s < 2 ^ 16
        | _ \<Rightarrow> True)"

text \<open>The strings of a message that was decoded are there.\<close>

definition strs_set :: "Fcall \<Rightarrow> bool" where
  "strs_set f \<longleftrightarrow> (f_type f \<in> {Tversion, Rversion} \<longrightarrow> f_version f \<noteq> None)
     \<and> (f_type f \<in> {Tauth, Tattach} \<longrightarrow> f_uname f \<noteq> None \<and> f_aname f \<noteq> None)
     \<and> (f_type f = Tcreate \<longrightarrow> f_name f \<noteq> None) \<and> (f_type f = Rerror \<longrightarrow> f_ename f \<noteq> None)
     \<and> (f_type f = Twalk \<longrightarrow> None \<notin> set (take (unat (f_nwname f)) (f_wname f)))"

lemmas read_simps = skip_simps gstring_skip gqid_skip GBIT_here GBIT_last gstring_here gqid_here
  m2s_string_def m2s_uname_aname_def

lemma ptr_past_iff: "unat ap + p < 2 ^ 32 \<Longrightarrow> unat ap + ep < 2 ^ 32 \<Longrightarrow> ptr_past ap p ep \<longleftrightarrow> ep < p"
  by (simp add: ptr_past_def word_less_nat_alt unat_word_ariths unat_of_nat)

lemma ptr_plus_eq: "p + unat c < 2 ^ 32 \<Longrightarrow> ptr_plus p c = p + unat c"
  by (simp add: ptr_plus_def unat_word_ariths unat_of_nat)

text \<open>The two branches that add a count of 32 bits.\<close>

lemma convM2S_T_Twrite:
  assumes "f_type f = Twrite" and "p + 16 \<le> ep" and "GBIT32 b p = Some a" and "GBIT64 b (p + 4) = Some off"
    and "GBIT32 b (12 + p) = Some c"
  shows "convM2S_T ap b p ep f = (if ptr_past ap (ptr_plus (16 + p) c) ep
     then Some (None, f\<lparr>f_fid := a, f_offset := off, f_count := c\<rparr>, b)
     else Some (Some (ptr_plus (16 + p) c), f\<lparr>f_fid := a, f_offset := off, f_count := c, f_data := drop (16 + p) b\<rparr>, b))"
  using assms by (simp add: convM2S_T_def Let_def)

lemma convM2S_T_Rread:
  assumes "f_type f = Rread" and "p + 4 \<le> ep" and "GBIT32 b p = Some c"
  shows "convM2S_T ap b p ep f = (if ptr_past ap (ptr_plus (p + 4) c) ep
     then Some (None, f\<lparr>f_count := c\<rparr>, b)
     else Some (Some (ptr_plus (p + 4) c), f\<lparr>f_count := c, f_data := drop (p + 4) b\<rparr>, b))"
  using assms by (simp add: convM2S_T_def convM2S_R_def Let_def)

lemma convM2S_T_decode:
  assumes wf: "wf_msg m" and t: "f_type f = msg_type m"
    and p: "p = length d" and ep: "p + length (payload m) \<le> ep" and ap: "unat ap + ep < 2 ^ 32"
    and ok: "length (f_wname f) = MAXWELEM" "length (f_wqid f) = MAXWELEM"
  shows "\<exists>f' b'. convM2S_T ap (d @ payload m @ r) p ep f = Some (Some (p + length (payload m)), f', b')
    \<and> msg_of f' = Some m \<and> f_tag f' = f_tag f \<and> fcall_ok f' \<and> strs_set f'
    \<and> length b' = length (d @ payload m @ r)"
proof (cases m)
  case (MTwalk a b ws)
  then have n: "unat (of_nat (length ws) :: u16) = length ws" and le: "length ws \<le> 16"
    using wf by (simp_all add: wf_msg_def unat_of_nat)
  let ?d = "d @ le32 a @ le32 b @ le16 (of_nat (length ws))"
  let ?f = "f\<lparr>f_fid := a, f_newfid := b, f_nwname := of_nat (length ws)\<rparr>"
  have "m2s_wnames (length ws) 0 (?d @ concat (map estr ws) @ r) (10 + p) ep ?f
    = Some (Some (10 + p + length (concat (map estr ws))),
        ?f\<lparr>f_wname := take 0 (f_wname ?f) @ map Some ws @ drop (0 + length ws) (f_wname ?f)\<rparr>,
        ?d @ concat (map mangled ws) @ r)"
    using MTwalk wf p ep ok le by (intro m2s_wnames_at) (auto simp: wf_msg_def)
  moreover have "length (concat (map mangled ws)) = length (concat (map estr ws))"
    by (induction ws) simp_all
  ultimately show ?thesis
    using MTwalk t p ep ok n le
    by (auto simp: convM2S_T_def Let_def read_simps msg_of_def fcall_ok_def strs_set_def str_of_def o_def)
next
  case (MRwalk qs)
  then have n: "unat (of_nat (length qs) :: u16) = length qs" and le: "length qs \<le> 16"
    using wf by (simp_all add: wf_msg_def unat_of_nat)
  let ?d = "d @ le16 (of_nat (length qs))"
  let ?f = "f\<lparr>f_nwqid := of_nat (length qs)\<rparr>"
  have "m2s_wqids (length qs) 0 (?d @ concat (map eqid qs) @ r) (p + 2) ep ?f
    = Some (Some (p + 2 + 13 * length qs),
        ?f\<lparr>f_wqid := take 0 (f_wqid ?f) @ qs @ drop (0 + length qs) (f_wqid ?f)\<rparr>,
        ?d @ concat (map eqid qs) @ r)"
    using MRwalk p ep ok le by (intro m2s_wqids_at) auto
  then show ?thesis
    using MRwalk t p ep ok n le
    by (simp add: convM2S_T_def convM2S_R_def Let_def read_simps msg_of_def fcall_ok_def strs_set_def)
next
  case (MTwrite a off x)
  let ?c = "of_nat (length x) :: u32"
  have n: "unat ?c = length x"
    using wf MTwrite by (simp add: wf_msg_def msg_size_def unat_of_nat)
  have q: "p + 16 + length x \<le> ep"
    using ep MTwrite by simp
  have "convM2S_T ap (d @ payload m @ r) p ep f = Some (Some (p + length (payload m)),
      f\<lparr>f_fid := a, f_offset := off, f_count := ?c, f_data := x @ r\<rparr>, d @ payload m @ r)"
    using MTwrite t p q ap n ptr_past_iff [of ap "16 + p + length x" ep] ptr_plus_eq [of "16 + p" ?c]
    by (subst convM2S_T_Twrite [where a = a and off = off and c = ?c]) (simp_all add: read_simps)
  then show ?thesis
    using MTwrite t ok n by (simp add: msg_of_def fcall_ok_def strs_set_def)
next
  case (MRread x)
  let ?c = "of_nat (length x) :: u32"
  have n: "unat ?c = length x"
    using wf MRread by (simp add: wf_msg_def msg_size_def unat_of_nat)
  have q: "p + 4 + length x \<le> ep"
    using ep MRread by simp
  have "convM2S_T ap (d @ payload m @ r) p ep f = Some (Some (p + length (payload m)),
      f\<lparr>f_count := ?c, f_data := x @ r\<rparr>, d @ payload m @ r)"
    using MRread t p q ap n ptr_past_iff [of ap "p + 4 + length x" ep] ptr_plus_eq [of "p + 4" ?c]
    by (subst convM2S_T_Rread [where c = ?c]) (simp_all add: read_simps)
  then show ?thesis
    using MRread t ok n by (simp add: msg_of_def fcall_ok_def strs_set_def)
qed (use wf t p ep ok in \<open>simp_all add: convM2S_T_def convM2S_R_def Let_def read_simps msg_of_def
      fcall_ok_def strs_set_def wf_msg_def msg_size_def str_of_def unat_of_nat\<close>)

lemma convM2S_decode:
  assumes wf: "wf_msg m" and le: "msg_size m \<le> unat nap" and ap: "unat ap + unat nap < 2 ^ 32"
    and ok: "length (f_wname f) = MAXWELEM" "length (f_wqid f) = MAXWELEM"
  shows "\<exists>f' b'. convM2S ap (encode tag m @ r) nap f = Some (of_nat (msg_size m), f', b')
    \<and> msg_of f' = Some m \<and> f_tag f' = tag \<and> fcall_ok f' \<and> strs_set f'
    \<and> length b' = msg_size m + length r"
proof -
  let ?n = "of_nat (msg_size m) :: u32"
  let ?h = "le32 ?n @ le8 (msg_type m) @ le16 tag"
  let ?f = "f\<lparr>f_type := msg_type m, f_tag := tag\<rparr>"
  have n: "unat ?n = msg_size m"
    using wf by (simp add: wf_msg_def unat_of_nat)
  obtain f' b' where d: "convM2S_T ap (?h @ payload m @ r) 7 (unat nap) ?f
      = Some (Some (7 + length (payload m)), f', b')"
    and f': "msg_of f' = Some m" "f_tag f' = tag" "fcall_ok f'" "strs_set f'"
    and b': "length b' = length (?h @ payload m @ r)"
    using convM2S_T_decode [OF wf, of ?f 7 ?h "unat nap" ap r] le ap ok by (auto simp: msg_size_def)
  have "convM2S ap (encode tag m @ r) nap f = Some (?n, f', b')"
    using d le n msg_size_ge [of m] ptr_past_iff [of ap "msg_size m" "unat nap"] ap
    by (simp add: convM2S_def encode_def Let_def read_simps) (simp add: msg_size_def)
  with f' b' show ?thesis
    by (simp add: msg_size_def)
qed
section \<open>Memory safety\<close>

text \<open>
  Decoding an arbitrary buffer stays inside it: \<open>m2s_safe\<close> says that a branch does not fault,
  keeps the buffer's length and ends no further than \<open>ep\<close>.
\<close>

definition m2s_safe :: "block \<Rightarrow> nat \<Rightarrow> (nat option \<times> Fcall \<times> block) option \<Rightarrow> bool" where
  "m2s_safe b ep R = (case R of None \<Rightarrow> False
     | Some (r, f, b') \<Rightarrow> length b' = length b \<and> (case r of None \<Rightarrow> True | Some q \<Rightarrow> q \<le> ep))"

lemma m2s_safe_ret [simp]:
  "m2s_safe b ep (Some (r, f, b')) \<longleftrightarrow> length b' = length b \<and> (case r of None \<Rightarrow> True | Some q \<Rightarrow> q \<le> ep)"
  by (simp add: m2s_safe_def)

lemma m2s_safe_GBIT [intro]:
  "p + 1 \<le> length b \<Longrightarrow> (\<And>v. m2s_safe b0 ep (k1 v)) \<Longrightarrow> m2s_safe b0 ep (GBIT8 b p \<bind> k1)"
  "p + 2 \<le> length b \<Longrightarrow> (\<And>v. m2s_safe b0 ep (k2 v)) \<Longrightarrow> m2s_safe b0 ep (GBIT16 b p \<bind> k2)"
  "p + 4 \<le> length b \<Longrightarrow> (\<And>v. m2s_safe b0 ep (k3 v)) \<Longrightarrow> m2s_safe b0 ep (GBIT32 b p \<bind> k3)"
  "p + 8 \<le> length b \<Longrightarrow> (\<And>v. m2s_safe b0 ep (k4 v)) \<Longrightarrow> m2s_safe b0 ep (GBIT64 b p \<bind> k4)"
  using GBIT_in_range by (metis bind.bind_lunit)+

lemma cstring_at_terminated:
  assumes "mwrite b q [0] = Some b'" and "p \<le> q"
  shows "\<exists>s. cstring_at b' p = Some s"
proof -
  from assms have "q < length b" and b': "b' = take q b @ 0 # drop (Suc q) b"
    by (auto simp: mwrite_def split: if_splits)
  then have "0 \<in> set (drop p b')" and "p \<le> length b'"
    using assms(2) by auto
  then show ?thesis
    by (simp add: cstring_at_def)
qed

lemma gstring_safe:
  assumes "ep \<le> length b"
  shows "\<exists>r b'. gstring b p ep = Some (r, b') \<and> length b' = length b
    \<and> (\<forall>q s. r = Some (q, s) \<longrightarrow> p < q \<and> q \<le> ep \<and> 0 \<notin> set s)"
proof (cases "p + 2 \<le> ep")
  case True
  then obtain w where w: "GBIT16 b p = Some w"
    using assms GBIT_in_range(2) [of p b] by auto
  show ?thesis
  proof (cases "p + 2 + unat w \<le> ep")
    case True
    obtain x where x: "mread b (p + 2) (unat w) = Some x" "length x = unat w"
      using mread_in_range [of "p + 2" "unat w" b] assms True by auto
    obtain b1 where b1: "mwrite b (p + 1) x = Some b1" "length b1 = length b"
      using mwrite_in_range [of "p + 1" x b] assms True x by auto
    obtain b2 where b2: "mwrite b1 (p + 1 + unat w) [0] = Some b2" "length b2 = length b1"
      using mwrite_in_range [of "p + 1 + unat w" "[0]" b1] assms True b1 by auto
    obtain s where "cstring_at b2 (p + 1) = Some s"
      using cstring_at_terminated [OF b2(1), of "p + 1"] by auto
    with True \<open>p + 2 \<le> ep\<close> w x b1 b2 show ?thesis
      by (auto simp: gstring_def Let_def dest: cstring_at_no_nul)
  qed (use True w in \<open>simp add: gstring_def Let_def\<close>)
qed (simp add: gstring_def)

lemma gqid_safe:
  "ep \<le> length b \<Longrightarrow> \<exists>r. gqid b p ep = Some r \<and> (\<forall>q v. r = Some (q, v) \<longrightarrow> p < q \<and> q \<le> ep)"
  using GBIT_in_range(1) [of p b] GBIT_in_range(3) [of "p + 1" b] GBIT_in_range(4) [of "5 + p" b]
  by (cases "p + 13 \<le> ep") (auto simp: gqid_def Let_def)

lemma m2s_safe_gstring [intro]:
  assumes "ep \<le> length b" and "length b = length b0"
    and "\<And>r b'. length b' = length b0 \<Longrightarrow> (\<And>q s. r = Some (q, s) \<Longrightarrow> q \<le> ep)
      \<Longrightarrow> m2s_safe b0 ep (k (r, b'))"
  shows "m2s_safe b0 ep (gstring b p ep \<bind> k)"
  using gstring_safe [OF assms(1), of p] assms(2,3) by auto

lemma m2s_safe_gqid [intro]:
  assumes "ep \<le> length b"
    and "\<And>r. (\<And>q v. r = Some (q, v) \<Longrightarrow> q \<le> ep) \<Longrightarrow> m2s_safe b0 ep (k r)"
  shows "m2s_safe b0 ep (gqid b p ep \<bind> k)"
  using gqid_safe [OF assms(1), of p] assms(2) by auto

lemma m2s_safe_string:
  "ep \<le> length b \<Longrightarrow> length b = length b0 \<Longrightarrow> m2s_safe b0 ep (m2s_string b p ep f upd)"
  unfolding m2s_string_def by (rule m2s_safe_gstring) (auto split: option.split)

lemma m2s_safe_bind_string:
  assumes "ep \<le> length b" and "length b = length b0"
    and "\<And>r f' b'. length b' = length b0 \<Longrightarrow> (\<And>q. r = Some q \<Longrightarrow> q \<le> ep)
      \<Longrightarrow> m2s_safe b0 ep (k (r, f', b'))"
  shows "m2s_safe b0 ep (m2s_string b p ep f upd \<bind> k)"
proof -
  obtain r f' b' where "m2s_string b p ep f upd = Some (r, f', b')" and "length b' = length b0"
    and "\<And>q. r = Some q \<Longrightarrow> q \<le> ep"
    using m2s_safe_string [OF assms(1,2), of p f upd]
    by (auto simp: m2s_safe_def split: option.splits)
  then show ?thesis
    using assms(3) [of b' r f'] by simp
qed

lemma m2s_safe_uname_aname:
  "ep \<le> length b \<Longrightarrow> length b = length b0 \<Longrightarrow> m2s_safe b0 ep (m2s_uname_aname b p ep f)"
  unfolding m2s_uname_aname_def
  by (rule m2s_safe_bind_string) (auto split: option.split intro: m2s_safe_string)

lemma m2s_safe_wnames:
  "ep \<le> length b \<Longrightarrow> length b = length b0 \<Longrightarrow> p \<le> ep \<Longrightarrow> m2s_safe b0 ep (m2s_wnames k i b p ep f)"
proof (induction k arbitrary: i b p f)
  case (Suc k)
  show ?case
    unfolding m2s_wnames.simps
    using Suc.prems by (intro m2s_safe_gstring) (auto split: option.split intro: Suc.IH)
qed simp

lemma m2s_safe_wqids:
  "ep \<le> length b \<Longrightarrow> length b = length b0 \<Longrightarrow> p \<le> ep \<Longrightarrow> m2s_safe b0 ep (m2s_wqids k i b p ep f)"
proof (induction k arbitrary: i p f)
  case (Suc k)
  show ?case
    unfolding m2s_wqids.simps
    using Suc.prems by (intro m2s_safe_gqid) (auto split: option.split intro: Suc.IH)
qed simp

lemmas m2s_safe_intros = m2s_safe_GBIT m2s_safe_gqid m2s_safe_string m2s_safe_bind_string
  m2s_safe_uname_aname m2s_safe_wnames m2s_safe_wqids

text \<open>The branches with a count of 32 bits end at a pointer that may have wrapped around.\<close>

lemma convM2S_R_safe: "ep \<le> length b \<Longrightarrow> p \<le> ep \<Longrightarrow> f_type f \<noteq> Rread \<Longrightarrow> m2s_safe b ep (convM2S_R ap b p ep f)"
  by (auto simp: convM2S_R_def Let_def split: option.splits prod.splits intro!: m2s_safe_intros)

lemma convM2S_T_safe:
  "ep \<le> length b \<Longrightarrow> p \<le> ep \<Longrightarrow> f_type f \<noteq> Twrite \<Longrightarrow> f_type f \<noteq> Rread \<Longrightarrow> m2s_safe b ep (convM2S_T ap b p ep f)"
  by (auto simp: convM2S_T_def Let_def split: option.splits prod.splits
      intro!: m2s_safe_intros convM2S_R_safe)

lemma m2s_safe_obtain:
  assumes "m2s_safe b ep R"
  obtains r f' b' where "R = Some (r, f', b')" "length b' = length b" "\<And>q. r = Some q \<Longrightarrow> q \<le> ep"
  using assms by (auto simp: m2s_safe_def split: option.splits)

text \<open>
  The outcome of the branches: they do not fault and keep the length of the buffer; where one ends, at
  \<open>q\<close>, it is inside the buffer, or it is a write or a read reply whose count was added to
  \<open>p\<close>, which the test of the pointers lets pass.
\<close>

lemma convM2S_T_cases:
  assumes ep: "ep \<le> length b" and p: "p \<le> ep"
  obtains r f' b' where "convM2S_T ap b p ep f = Some (r, f', b')" and "length b' = length b"
    and "\<And>q. r = Some q \<Longrightarrow> f_type f = Twrite
      \<Longrightarrow> p + 16 \<le> ep \<and> q = ptr_plus (16 + p) (f_count f') \<and> \<not> ptr_past ap q ep \<and> f_data f' = drop (16 + p) b'"
    and "\<And>q. r = Some q \<Longrightarrow> f_type f = Rread
      \<Longrightarrow> p + 4 \<le> ep \<and> q = ptr_plus (p + 4) (f_count f') \<and> \<not> ptr_past ap q ep \<and> f_data f' = drop (p + 4) b'"
    and "\<And>q. r = Some q \<Longrightarrow> f_type f \<noteq> Twrite \<Longrightarrow> f_type f \<noteq> Rread \<Longrightarrow> q \<le> ep"
proof -
  consider (Twrite) "f_type f = Twrite" | (Rread) "f_type f = Rread" | (other) "f_type f \<noteq> Twrite" "f_type f \<noteq> Rread"
    by blast
  then show thesis
  proof cases
    case Twrite
    show thesis
    proof (cases "p + 16 \<le> ep")
      case True
      then obtain a off c where "GBIT32 b p = Some a" "GBIT64 b (p + 4) = Some off" "GBIT32 b (12 + p) = Some c"
        using ep GBIT_in_range(3) [of p b] GBIT_in_range(4) [of "p + 4" b] GBIT_in_range(3) [of "12 + p" b] by auto
      from convM2S_T_Twrite [OF Twrite True this, of ap] show thesis
        using Twrite True by (cases "ptr_past ap (ptr_plus (16 + p) c) ep") (auto intro: that)
    next
      case False
      then have "convM2S_T ap b p ep f = Some (None, f, b)"
        using Twrite by (simp add: convM2S_T_def)
      then show thesis
        by (auto intro: that)
    qed
  next
    case Rread
    show thesis
    proof (cases "p + 4 \<le> ep")
      case True
      then obtain c where "GBIT32 b p = Some c"
        using ep GBIT_in_range(3) [of p b] by auto
      from convM2S_T_Rread [OF Rread True this, of ap] show thesis
        using Rread True by (cases "ptr_past ap (ptr_plus (p + 4) c) ep") (auto intro: that)
    next
      case False
      then have "convM2S_T ap b p ep f = Some (None, f, b)"
        using Rread by (simp add: convM2S_T_def convM2S_R_def)
      then show thesis
        by (auto intro: that)
    qed
  next
    case other
    obtain r f' b' where "convM2S_T ap b p ep f = Some (r, f', b')" "length b' = length b"
      and "\<And>q. r = Some q \<Longrightarrow> q \<le> ep"
      using m2s_safe_obtain [OF convM2S_T_safe [OF ep p other, of ap]] by blast
    with other show thesis
      by (intro that [of r f' b']) auto
  qed
qed


text \<open>
  The message whose count, taken from its first \<open>h\<close> bytes, reaches the end of the address space, and
  where its data lie.
\<close>

definition count_at :: "block \<Rightarrow> nat option" where
  "count_at b = (case GBIT8 b 4 of None \<Rightarrow> None
     | Some t \<Rightarrow> if t = Twrite then Some 23 else if t = Rread then Some 11 else None)"

definition count_wraps :: "u32 \<Rightarrow> block \<Rightarrow> Fcall \<Rightarrow> bool" where
  "count_wraps ap b f = (case count_at b of None \<Rightarrow> False | Some h \<Rightarrow> 2 ^ 32 \<le> unat ap + h + unat (f_count f))"

definition data_inside :: "block \<Rightarrow> u32 \<Rightarrow> Fcall \<Rightarrow> block \<Rightarrow> bool" where
  "data_inside b nap f b' = (case count_at b of None \<Rightarrow> True
     | Some h \<Rightarrow> h + unat (f_count f) \<le> unat nap \<and> f_data f = drop h b')"

lemma ptr_plus_inside:
  assumes "unat ap + ep < 2 ^ 32" and "\<not> ptr_past ap (ptr_plus h c) ep" and "h \<le> ep"
    and "unat ap + h + unat c < 2 ^ 32 \<or> ptr_plus h c = ep"
  shows "ptr_plus h c = h + unat c \<and> h + unat c \<le> ep"
proof (cases "h + unat c < 2 ^ 32")
  case True
  then show ?thesis
    using assms ptr_past_iff [of ap "h + unat c" ep] by (auto simp: ptr_plus_eq)
next
  case False
  have "ptr_plus h c = (h + unat c) mod 2 ^ 32"
    using assms(1,3) by (simp add: ptr_plus_def unat_word_ariths unat_of_nat)
  also have "\<dots> = h + unat c - 2 ^ 32"
    using False assms(1,3) unsigned_less [of c, where 'a = nat] by (subst le_mod_geq) simp_all
  finally have "ptr_plus h c < h"
    using unsigned_less [of c, where 'a = nat] False by simp
  then show ?thesis
    using assms(3,4) False by auto
qed

lemma convM2S_outcome:
  assumes len: "unat nap \<le> length b" and ap: "unat ap + unat nap < 2 ^ 32"
  obtains n f' b' where "convM2S ap b nap f = Some (n, f', b')" and "length b' = length b"
    and "n \<noteq> 0 \<Longrightarrow> GBIT32 b 0 = Some n"
    and "n \<noteq> 0 \<Longrightarrow> \<not> count_wraps ap b f' \<or> n = nap \<Longrightarrow> n \<le> nap \<and> data_inside b nap f' b'"
proof (cases "unat nap < 7")
  case True
  then show thesis
    by (intro that [of 0 f b]) (simp_all add: convM2S_def)
next
  case False
  then obtain n t w where n: "GBIT32 b 0 = Some n" and t: "GBIT8 b 4 = Some t" and w: "GBIT16 b 5 = Some w"
    using len GBIT_in_range(3) [of 0 b] GBIT_in_range(1) [of 4 b] GBIT_in_range(2) [of 5 b] by auto
  let ?f = "f\<lparr>f_type := t, f_tag := w\<rparr>"
  obtain r f' b' where d: "convM2S_T ap b 7 (unat nap) ?f = Some (r, f', b')" "length b' = length b"
    and q1: "\<And>q. r = Some q \<Longrightarrow> t = Twrite \<Longrightarrow> 23 \<le> unat nap \<and> q = ptr_plus 23 (f_count f')
        \<and> \<not> ptr_past ap q (unat nap) \<and> f_data f' = drop 23 b'"
    and q2: "\<And>q. r = Some q \<Longrightarrow> t = Rread \<Longrightarrow> 11 \<le> unat nap \<and> q = ptr_plus 11 (f_count f')
        \<and> \<not> ptr_past ap q (unat nap) \<and> f_data f' = drop 11 b'"
    and q3: "\<And>q. r = Some q \<Longrightarrow> t \<noteq> Twrite \<Longrightarrow> t \<noteq> Rread \<Longrightarrow> q \<le> unat nap"
    using convM2S_T_cases [OF len, of 7 ap ?f] False by auto
  show thesis
  proof (cases "\<exists>q. r = Some q \<and> \<not> ptr_past ap q (unat nap) \<and> unat n = q \<and> 7 \<le> unat n")
    case True
    then have r: "r = Some (unat n)" and np: "\<not> ptr_past ap (unat n) (unat nap)" and "7 \<le> unat n"
      by auto
    have "convM2S ap b nap f = Some (n, f', b')"
      using False n t w d r np \<open>7 \<le> unat n\<close> by (simp add: convM2S_def Let_def)
    moreover have "n \<le> nap \<and> data_inside b nap f' b'" if "\<not> count_wraps ap b f' \<or> n = nap"
    proof -
      consider (Twrite) "t = Twrite" | (Rread) "t = Rread" | (other) "t \<noteq> Twrite" "t \<noteq> Rread"
        by blast
      then show ?thesis
      proof cases
        case Twrite
        then show ?thesis
          using q1 [OF r] ptr_plus_inside [of ap "unat nap" 23 "f_count f'"] ap t that
          by (auto simp: count_wraps_def data_inside_def count_at_def word_le_nat_alt)
      next
        case Rread
        then show ?thesis
          using q2 [OF r] ptr_plus_inside [of ap "unat nap" 11 "f_count f'"] ap t that
          by (auto simp: count_wraps_def data_inside_def count_at_def word_le_nat_alt)
      next
        case other
        then show ?thesis
          using q3 [OF r] t by (simp add: data_inside_def count_at_def word_le_nat_alt)
      qed
    qed
    ultimately show thesis
      using that d(2) n by metis
  next
    case no: False
    have "\<exists>g b1. convM2S ap b nap f = Some (0, g, b1) \<and> length b1 = length b"
      using False n t w d no by (auto simp: convM2S_def Let_def split: option.splits)
    then show thesis
      using that by blast
  qed
qed

text \<open>A write whose count wraps around to seven bytes before the buffer.\<close>

definition wrapping_write :: "u16 \<Rightarrow> u32 \<Rightarrow> u64 \<Rightarrow> block \<Rightarrow> block" where
  "wrapping_write tag fid off d
     = le32 0xFFFFFFF9 @ le8 Twrite @ le16 tag @ le32 fid @ le64 off @ le32 0xFFFFFFE2 @ d"

lemma length_wrapping_write: "length (wrapping_write tag fid off d) = 23 + length d"
  by (simp add: wrapping_write_def)

lemma wrapping_write_count:
  "f_count f = 0xFFFFFFE2 \<Longrightarrow> 7 \<le> unat ap \<Longrightarrow> count_wraps ap (wrapping_write tag fid off d) f"
  by (simp add: count_wraps_def count_at_def wrapping_write_def read_simps)

lemma convM2S_wrapping_write:
  assumes "unat nap = 23 + length d" and "7 \<le> unat ap" and "unat ap + unat nap < 2 ^ 32"
  shows "convM2S ap (wrapping_write tag fid off d) nap f = Some (0xFFFFFFF9,
    f\<lparr>f_type := Twrite, f_tag := tag, f_fid := fid, f_offset := off, f_count := 0xFFFFFFE2, f_data := d\<rparr>,
    wrapping_write tag fid off d)"
proof -
  let ?b = "wrapping_write tag fid off d" and ?f = "f\<lparr>f_type := Twrite, f_tag := tag\<rparr>"
  have q: "ptr_plus 23 0xFFFFFFE2 = 0xFFFFFFF9"
    by (simp add: ptr_plus_def)
  have "unat (ap + 0xFFFFFFF9) = unat ap - 7"
    using assms(2,3) by (simp add: unat_word_ariths) (subst le_mod_geq, simp_all)
  then have np: "\<not> ptr_past ap 0xFFFFFFF9 (unat nap)"
    using assms(2,3) by (simp add: ptr_past_def word_less_nat_alt unat_word_ariths)
  have h: "GBIT32 ?b 0 = Some 0xFFFFFFF9" "GBIT8 ?b 4 = Some Twrite" "GBIT16 ?b 5 = Some tag"
    "GBIT32 ?b 7 = Some fid" "GBIT64 ?b (7 + 4) = Some off" "GBIT32 ?b (12 + 7) = Some 0xFFFFFFE2" "drop 23 ?b = d"
    by (simp_all add: wrapping_write_def read_simps)
  have "convM2S_T ap ?b 7 (unat nap) ?f = Some (Some 0xFFFFFFF9,
      ?f\<lparr>f_fid := fid, f_offset := off, f_count := 0xFFFFFFE2, f_data := d\<rparr>, ?b)"
    using convM2S_T_Twrite [of ?f 7 "unat nap" ?b fid off "0xFFFFFFE2" ap] h assms(1) q np by simp
  then show ?thesis
    using h assms(1) np by (simp add: convM2S_def Let_def)
qed

text \<open>
  A message is decoded to its last byte, with the result \<open>nap\<close>, at every address or at none.  The server
  takes no other result, so that the address of its buffer does not matter.
\<close>

lemma convM2S_T_address:
  assumes ep: "ep \<le> length b"
  shows "convM2S_T ap b p ep f = Some (Some ep, f', b') \<longleftrightarrow> convM2S_T 0 b p ep f = Some (Some ep, f', b')"
proof -
  have refl: "\<not> ptr_past a ep ep" for a
    by (simp add: ptr_past_def)
  consider (Twrite) "f_type f = Twrite" "p + 16 \<le> ep" | (Rread) "f_type f = Rread" "p + 4 \<le> ep"
    | (short) "f_type f = Twrite \<and> \<not> p + 16 \<le> ep \<or> f_type f = Rread \<and> \<not> p + 4 \<le> ep"
    | (other) "f_type f \<noteq> Twrite" "f_type f \<noteq> Rread"
    by blast
  then show ?thesis
  proof cases
    case Twrite
    then obtain a off c where "GBIT32 b p = Some a" "GBIT64 b (p + 4) = Some off" "GBIT32 b (12 + p) = Some c"
      using ep GBIT_in_range(3) [of p b] GBIT_in_range(4) [of "p + 4" b] GBIT_in_range(3) [of "12 + p" b] by auto
    then show ?thesis
      using refl by (auto simp: convM2S_T_Twrite [OF Twrite])
  next
    case Rread
    then obtain c where "GBIT32 b p = Some c"
      using ep GBIT_in_range(3) [of p b] by auto
    then show ?thesis
      using refl by (auto simp: convM2S_T_Rread [OF Rread])
  next
    case short
    then show ?thesis
      by (auto simp: convM2S_T_def convM2S_R_def)
  next
    case other
    then have "convM2S_R ap b p ep f = convM2S_R 0 b p ep f"
      by (simp only: convM2S_R_def Let_def if_False)
    with other show ?thesis
      by (simp only: convM2S_T_def Let_def if_False)
  qed
qed

lemma convM2S_address:
  assumes "unat nap \<le> length b" and "nap \<noteq> 0"
  shows "convM2S ap b nap f = Some (nap, f', b') \<longleftrightarrow> convM2S 0 b nap f = Some (nap, f', b')"
proof (cases "unat nap < 7")
  case False
  then obtain n t w where n: "GBIT32 b 0 = Some n" and t: "GBIT8 b 4 = Some t" and w: "GBIT16 b 5 = Some w"
    using assms(1) GBIT_in_range(3) [of 0 b] GBIT_in_range(1) [of 4 b] GBIT_in_range(2) [of 5 b] by auto
  let ?f = "f\<lparr>f_type := t, f_tag := w\<rparr>"
  have "convM2S a b nap f = Some (nap, f', b')
      \<longleftrightarrow> n = nap \<and> convM2S_T a b 7 (unat nap) ?f = Some (Some (unat nap), f', b')" for a
    using False assms(2) n t w unfolding convM2S_def
    by (cases "convM2S_T a b 7 (unat nap) ?f") (auto simp: Let_def ptr_past_def split: option.splits if_splits)
  then show ?thesis
    by (simp only: convM2S_T_address [OF assms(1), of ap])
qed (use assms in \<open>auto simp: convM2S_def\<close>)

end
