(* ===== verification/DirCodec.thy ===== *)
theory DirCodec
  imports ConvM2S
begin

text \<open>
  \<^verbatim>\<open>libc/9sys/convD2M.c\<close> and \<^verbatim>\<open>convM2D.c\<close>: the machine-independent form of a directory
  entry.  \<open>convM2D\<close> reads a buffer and copies its four strings to \<open>strs\<close>, which its
  callers put elsewhere or, as \<open>swstat\<close> does, on top of the buffer being read; so the model
  has one block \<open>mem\<close> and takes both pointers as offsets into it.
\<close>

section \<open>The code\<close>

definition dir_svs :: "Dir \<Rightarrow> cstr option list" where
  "dir_svs d = [d_name d, d_uid d, d_gid d, d_muid d]"

definition sizeD2M :: "Dir \<Rightarrow> u32" where
  "sizeD2M d = of_nat STATFIXLEN
     + sum_list (map (\<lambda>s. case s of None \<Rightarrow> 0 | Some s \<Rightarrow> of_nat (length s)) (dir_svs d))"

text \<open>The loop that writes the four strings; a first component \<^const>\<open>None\<close> is \<open>return 0\<close>.\<close>

fun d2m_strings :: "cstr option list \<Rightarrow> block \<Rightarrow> nat \<Rightarrow> nat \<Rightarrow> (nat option \<times> block) option" where
  "d2m_strings [] b p ebuf = Some (Some p, b)"
| "d2m_strings (s # sv) b p ebuf = (let ns = (case s of None \<Rightarrow> 0 | Some s \<Rightarrow> length s) in
     if p + ns + BIT16SZ > ebuf then Some (None, b)
     else do {
       b \<leftarrow> PBIT16 b p (of_nat ns);
       let p = p + BIT16SZ;
       b \<leftarrow> (if ns \<noteq> 0 then mwrite b p (str_of s) else Some b);
       let p = p + ns;
       d2m_strings sv b p ebuf
     })"

definition convD2M :: "Dir \<Rightarrow> block \<Rightarrow> u32 \<Rightarrow> (u32 \<times> block) option" where
  "convD2M d b nbuf = (if unat nbuf < BIT16SZ then Some (0, b)
     else do {
       let p = 0;
       let ebuf = unat nbuf;
       let ns = (sum_list (map (\<lambda>s. case s of None \<Rightarrow> 0 | Some s \<Rightarrow> of_nat (length s)) (dir_svs d)) :: u32);
       let ss = of_nat STATFIXLEN + ns;
       b \<leftarrow> PBIT16 b p (ucast (ss - of_nat BIT16SZ));
       let p = p + BIT16SZ;
       if ss > nbuf then Some (of_nat BIT16SZ, b)
       else do {
         b \<leftarrow> PBIT16 b p (d_type d);
         let p = p + BIT16SZ;
         b \<leftarrow> PBIT32 b p (d_dev d);
         let p = p + BIT32SZ;
         b \<leftarrow> PBIT8 b p (q_type (d_qid d));
         let p = p + BIT8SZ;
         b \<leftarrow> PBIT32 b p (q_vers (d_qid d));
         let p = p + BIT32SZ;
         b \<leftarrow> PBIT64 b p (q_path (d_qid d));
         let p = p + BIT64SZ;
         b \<leftarrow> PBIT32 b p (d_mode d);
         let p = p + BIT32SZ;
         b \<leftarrow> PBIT32 b p (d_atime d);
         let p = p + BIT32SZ;
         b \<leftarrow> PBIT32 b p (d_mtime d);
         let p = p + BIT32SZ;
         b \<leftarrow> PBIT64 b p (d_length d);
         let p = p + BIT64SZ;
         (r, b) \<leftarrow> d2m_strings (dir_svs d) b p ebuf;
         (case r of
            None \<Rightarrow> Some (0, b)
          | Some p \<Rightarrow> if ss \<noteq> of_nat p then Some (0, b) else Some (of_nat p, b))
       }
     })"

text \<open>The loop of \<open>statcheck\<close>: \<open>k\<close> strings are left to step over.\<close>

fun statcheck_strings :: "nat \<Rightarrow> block \<Rightarrow> nat \<Rightarrow> nat \<Rightarrow> nat option option" where
  "statcheck_strings 0 b p ebuf = Some (Some p)"
| "statcheck_strings (Suc k) b p ebuf =
     (if p + BIT16SZ > ebuf then Some None
      else do {
        w \<leftarrow> GBIT16 b p;
        statcheck_strings k b (p + (BIT16SZ + unat w)) ebuf
      })"

definition statcheck :: "block \<Rightarrow> u32 \<Rightarrow> int option" where
  "statcheck b nbuf = (let ebuf = unat nbuf in
     if unat nbuf < STATFIXLEN then Some (- 1)
     else do {
       w \<leftarrow> GBIT16 b 0;
       if unat nbuf \<noteq> BIT16SZ + unat w then Some (- 1)
       else do {
         r \<leftarrow> statcheck_strings 4 b (STATFIXLEN - 4 * BIT16SZ) ebuf;
         (case r of
            None \<Rightarrow> Some (- 1)
          | Some p \<Rightarrow> if p \<noteq> ebuf then Some (- 1) else Some 0)
       }
     })"

text \<open>
  The loop of \<open>convM2D\<close>.  \<open>strs\<close> is the next free byte of the string area (\<^const>\<open>None\<close> for
  nil); the last component collects \<open>sv\<close>, where each string was put.
\<close>

fun m2d_strings :: "nat \<Rightarrow> block \<Rightarrow> nat \<Rightarrow> nat \<Rightarrow> nat option \<Rightarrow> nat list
    \<Rightarrow> ((nat \<times> nat list) option \<times> block) option" where
  "m2d_strings 0 mem p ebuf strs sv = Some (Some (p, sv), mem)"
| "m2d_strings (Suc k) mem p ebuf strs sv =
     (if p + BIT16SZ > ebuf then Some (None, mem)
      else do {
        w \<leftarrow> GBIT16 mem p;
        let ns = unat w;
        let p = p + BIT16SZ;
        if p + ns > ebuf then Some (None, mem)
        else (case strs of
          None \<Rightarrow> m2d_strings k mem (p + ns) ebuf None sv
        | Some a \<Rightarrow> do {
            x \<leftarrow> mread mem p ns;
            mem \<leftarrow> mwrite mem a x;
            mem \<leftarrow> mwrite mem (a + ns) [0];
            m2d_strings k mem (p + ns) ebuf (Some (a + ns + 1)) (sv @ [a])
          })
      })"

text \<open>The strings \<open>sv[0..3]\<close> point to, in the memory as the call leaves it.\<close>

definition set_dir_strings :: "block \<Rightarrow> nat list \<Rightarrow> Dir \<Rightarrow> Dir option" where
  "set_dir_strings mem sv d = (case sv of
     [a0, a1, a2, a3] \<Rightarrow> do {
       s0 \<leftarrow> cstring_at mem a0;
       s1 \<leftarrow> cstring_at mem a1;
       s2 \<leftarrow> cstring_at mem a2;
       s3 \<leftarrow> cstring_at mem a3;
       Some (d\<lparr>d_name := Some s0, d_uid := Some s1, d_gid := Some s2, d_muid := Some s3\<rparr>)
     }
   | _ \<Rightarrow> None)"

definition convM2D :: "block \<Rightarrow> nat \<Rightarrow> u32 \<Rightarrow> Dir \<Rightarrow> nat option \<Rightarrow> (u32 \<times> Dir \<times> block) option" where
  "convM2D mem buf nbuf d strs = (if unat nbuf < STATFIXLEN then Some (0, d, mem)
     else do {
       let p = buf;
       let ebuf = buf + unat nbuf;
       let p = p + BIT16SZ;
       h \<leftarrow> GBIT16 mem p;
       let d = d\<lparr>d_type := h\<rparr>;
       let p = p + BIT16SZ;
       v \<leftarrow> GBIT32 mem p;
       let d = d\<lparr>d_dev := v\<rparr>;
       let p = p + BIT32SZ;
       c \<leftarrow> GBIT8 mem p;
       let p = p + BIT8SZ;
       v \<leftarrow> GBIT32 mem p;
       let p = p + BIT32SZ;
       x \<leftarrow> GBIT64 mem p;
       let d = d\<lparr>d_qid := \<lparr>q_path = x, q_vers = v, q_type = c\<rparr>\<rparr>;
       let p = p + BIT64SZ;
       v \<leftarrow> GBIT32 mem p;
       let d = d\<lparr>d_mode := v\<rparr>;
       let p = p + BIT32SZ;
       v \<leftarrow> GBIT32 mem p;
       let d = d\<lparr>d_atime := v\<rparr>;
       let p = p + BIT32SZ;
       v \<leftarrow> GBIT32 mem p;
       let d = d\<lparr>d_mtime := v\<rparr>;
       let p = p + BIT32SZ;
       x \<leftarrow> GBIT64 mem p;
       let d = d\<lparr>d_length := x\<rparr>;
       let p = p + BIT64SZ;
       (r, mem) \<leftarrow> m2d_strings 4 mem p ebuf strs [];
       (case r of
          None \<Rightarrow> Some (0, d, mem)
        | Some (p, sv) \<Rightarrow> do {
            d \<leftarrow> (case strs of
                None \<Rightarrow> Some (d\<lparr>d_name := Some [], d_uid := Some [], d_gid := Some [], d_muid := Some []\<rparr>)
              | Some a \<Rightarrow> set_dir_strings mem sv d);
            Some (of_nat (p - buf), d, mem)
          })
     })"

section \<open>The format as a specification\<close>

definition dir_strs :: "Dir \<Rightarrow> cstr list" where
  "dir_strs d = map str_of (dir_svs d)"

definition dir_size :: "Dir \<Rightarrow> nat" where
  "dir_size d = STATFIXLEN + sum_list (map length (dir_strs d))"

definition dir_fixed :: "Dir \<Rightarrow> block" where
  "dir_fixed d = le16 (of_nat (dir_size d - BIT16SZ)) @ le16 (d_type d) @ le32 (d_dev d)
     @ eqid (d_qid d) @ le32 (d_mode d) @ le32 (d_atime d) @ le32 (d_mtime d) @ le64 (d_length d)"

definition edir :: "Dir \<Rightarrow> block" where
  "edir d = dir_fixed d @ concat (map estr (dir_strs d))"

text \<open>A directory entry whose strings the format can carry, and the entry a reader gets back:
  nil comes back as the empty string.\<close>

definition wf_dir :: "Dir \<Rightarrow> bool" where
  "wf_dir d \<longleftrightarrow> (\<forall>s \<in> set (dir_strs d). wf_str s) \<and> dir_size d < 2 ^ 16 + BIT16SZ"

definition norm_dir :: "Dir \<Rightarrow> Dir" where
  "norm_dir d = d\<lparr>d_name := Some (str_of (d_name d)), d_uid := Some (str_of (d_uid d)),
     d_gid := Some (str_of (d_gid d)), d_muid := Some (str_of (d_muid d))\<rparr>"


section \<open>Encoding\<close>

lemma length_dir_fixed [simp]: "length (dir_fixed d) = 41"
  by (simp add: dir_fixed_def)

lemma length_concat_estr: "length (concat (map estr ss)) = 2 * length ss + sum_list (map length ss)"
  by (induction ss) simp_all

lemma length_dir_strs [simp]: "length (dir_strs d) = 4"
  by (simp add: dir_strs_def dir_svs_def)

lemma length_edir [simp]: "length (edir d) = dir_size d"
  by (simp add: edir_def dir_size_def length_concat_estr)

lemma dir_size_ge: "49 \<le> dir_size d"
  by (simp add: dir_size_def)

lemma sv_len: "(case s of None \<Rightarrow> 0 | Some s \<Rightarrow> length s) = length (str_of s)"
  by (simp add: str_of_def split: option.split)

lemma sv_sum: "of_nat 49 + sum_list (map (\<lambda>s. case s of None \<Rightarrow> 0 | Some s \<Rightarrow> of_nat (length s)) (dir_svs d))
    = (of_nat (dir_size d) :: u32)"
  by (simp add: dir_svs_def dir_strs_def dir_size_def str_of_def add_ac split: option.split)

lemma sv_sum_minus:
  "sum_list (map (\<lambda>s. case s of None \<Rightarrow> 0 | Some s \<Rightarrow> of_nat (length s)) (dir_svs d))
    = (of_nat (dir_size d) - 49 :: u32)"
  using sv_sum [of d] by (simp add: eq_diff_eq add.commute)

lemma sizeD2M_eq: "sizeD2M d = of_nat (dir_size d)"
  using sv_sum [of d] by (simp add: sizeD2M_def)

lemma ucast_of_nat_trunc: "(ucast (of_nat n :: u32) :: u16) = of_nat n"
  by (rule bit_word_eqI) (auto simp: bit_simps)

lemma estr_Nil: "estr [] = le16 0"
  by (simp add: estr_def)

lemma d2m_strings_at:
  "p = length d \<Longrightarrow> es = concat (map estr (map str_of sv)) \<Longrightarrow> length es \<le> length r
    \<Longrightarrow> p + length es \<le> ebuf
    \<Longrightarrow> d2m_strings sv (d @ r) p ebuf = Some (Some (p + length es), (d @ es) @ drop (length es) r)"
proof (induction sv arbitrary: d r p es)
  case (Cons s sv)
  let ?s = "str_of s"
  let ?es = "concat (map estr (map str_of sv))"
  let ?r = "drop (2 + length ?s) r"
  have "d2m_strings sv ((d @ estr ?s) @ ?r) (p + 2 + length ?s) ebuf
    = Some (Some (p + 2 + length ?s + length ?es), ((d @ estr ?s) @ ?es) @ drop (length ?es) ?r)"
    using Cons.prems by (intro Cons.IH) auto
  moreover have "PBIT16 (d @ r) p (of_nat (length ?s)) = Some ((d @ le16 (of_nat (length ?s))) @ drop 2 r)"
    using Cons.prems by (intro PBIT16_at) auto
  moreover have "mwrite ((d @ le16 (of_nat (length ?s))) @ drop 2 r) (p + 2) ?s
      = Some ((d @ estr ?s) @ ?r)"
    using mwrite_append [of ?s "drop 2 r" "d @ le16 (of_nat (length ?s))"] Cons.prems
    by (simp add: estr_def add.commute)
  ultimately show ?case
    using Cons.prems
    by (cases "?s = []") (simp_all add: Let_def sv_len estr_Nil numeral_2_eq_2 add_ac)
qed simp

lemma convD2M_edir:
  assumes "dir_size d < 2 ^ 32" and "dir_size d \<le> unat nbuf" and "unat nbuf \<le> length b"
  shows "convD2M d b nbuf = Some (of_nat (dir_size d), edir d @ drop (dir_size d) b)"
proof -
  let ?ss = "of_nat (dir_size d) :: u32"
  have u: "unat ?ss = dir_size d"
    using assms(1) by (simp add: unat_of_nat)
  then have le: "\<not> ?ss > nbuf" and nb: "\<not> unat nbuf < 2"
    using assms(2) dir_size_ge [of d] by (auto simp: word_less_nat_alt)
  have "?ss - 2 = of_nat (dir_size d - 2)"
    using dir_size_ge [of d] by (simp add: of_nat_diff)
  then have sz: "(ucast (?ss - 2) :: u16) = of_nat (dir_size d - 2)"
    by (simp only: ucast_of_nat_trunc)
  have len: "dir_size d \<le> length b"
    using assms(2,3) by simp
  have es: "length (concat (map estr (dir_strs d))) = dir_size d - 41"
    by (simp add: length_concat_estr dir_size_def)
  have "d2m_strings (dir_svs d) (dir_fixed d @ drop 41 b) 41 (unat nbuf)
    = Some (Some (41 + length (concat (map estr (dir_strs d)))),
        (dir_fixed d @ concat (map estr (dir_strs d))) @ drop (length (concat (map estr (dir_strs d)))) (drop 41 b))"
    using len assms(2) dir_size_ge [of d] es
    by (intro d2m_strings_at) (auto simp: dir_strs_def)
  moreover have "length (concat (map estr (dir_strs d))) + 41 = dir_size d"
    using es dir_size_ge [of d] by simp
  ultimately have "d2m_strings (dir_svs d) (dir_fixed d @ drop 41 b) 41 (unat nbuf)
    = Some (Some (dir_size d), edir d @ drop (dir_size d) b)"
    by (simp add: edir_def add.commute)
  moreover have "41 \<le> length b"
    using len dir_size_ge [of d] by simp
  ultimately show ?thesis
    using le nb PBIT16_at [of 0 "[]" b]
    by (simp add: convD2M_def Let_def sv_sum_minus sz PBIT16_at PBIT32_at PBIT8_at PBIT64_at
        dir_fixed_def eqid_def flip: append_assoc)
qed

text \<open>A buffer too small for the entry gets its size, which is how callers learn what to
  allocate.\<close>

lemma convD2M_short:
  assumes "dir_size d < 2 ^ 32" and "2 \<le> unat nbuf" and "unat nbuf < dir_size d"
    and "unat nbuf \<le> length b"
  shows "convD2M d b nbuf = Some (2, le16 (of_nat (dir_size d - 2)) @ drop 2 b)"
proof -
  let ?ss = "of_nat (dir_size d) :: u32"
  have gt: "?ss > nbuf"
    using assms(1,3) by (simp add: word_less_nat_alt unat_of_nat)
  have "?ss - 2 = of_nat (dir_size d - 2)"
    using dir_size_ge [of d] by (simp add: of_nat_diff)
  then have sz: "(ucast (?ss - 2) :: u16) = of_nat (dir_size d - 2)"
    by (simp only: ucast_of_nat_trunc)
  have "PBIT16 b 0 a = Some (le16 a @ drop 2 b)" for a
    using PBIT16_at [of 0 "[]" b a] assms(2,4) by simp
  then show ?thesis
    using gt assms(2) sz by (simp add: convD2M_def Let_def sv_sum_minus)
qed

section \<open>Decoding\<close>

text \<open>The strings are copied down, each followed by a NUL; \<open>gap\<close> is what lies between the
  string area and the part still to be read.\<close>

definition zstr :: "cstr \<Rightarrow> block" where
  "zstr s = s @ [0]"

lemma length_zstr [simp]: "length (zstr s) = Suc (length s)"
  by (simp add: zstr_def)

lemma length_zstrs: "length (concat (map zstr ss)) = length ss + sum_list (map length ss)"
  by (induction ss) simp_all

fun zaddrs :: "nat \<Rightarrow> cstr list \<Rightarrow> nat list" where
  "zaddrs a [] = []"
| "zaddrs a (s # ss) = a # zaddrs (a + length s + 1) ss"

lemma m2d_strings_over:
  "\<forall>s \<in> set ss. length s < 2 ^ 16 \<Longrightarrow> a = length x \<Longrightarrow> p = a + length gap
    \<Longrightarrow> p + length (concat (map estr ss)) \<le> ebuf
    \<Longrightarrow> m2d_strings (length ss) (x @ gap @ concat (map estr ss) @ y) p ebuf (Some a) sv
        = Some (Some (p + length (concat (map estr ss)), sv @ zaddrs a ss),
            x @ concat (map zstr ss) @ drop (length (concat (map zstr ss))) (gap @ concat (map estr ss)) @ y)"
proof (induction ss arbitrary: x a p gap sv)
  case (Cons s ss)
  let ?n = "length s"
  let ?es = "concat (map estr ss)" and ?zs = "concat (map zstr ss)"
  have n: "unat (of_nat ?n :: u16) = ?n"
    using Cons.prems by (simp add: unat_of_nat)
  have g: "GBIT16 (x @ gap @ estr s @ ?es @ y) p = Some (of_nat ?n)"
    using Cons.prems by (simp add: skip_simps estr_def GBIT_here)
  have rd: "mread (x @ gap @ estr s @ ?es @ y) (p + 2) ?n = Some s"
    using mread_append [of s ?n "x @ gap @ le16 (of_nat ?n)" "?es @ y"] Cons.prems
    by (simp add: estr_def add_ac)
  define g where "g = gap @ estr s"
  have lg: "length g = length gap + 2 + ?n" by (simp add: g_def)
  have w1: "mwrite (x @ g @ ?es @ y) a s = Some (x @ s @ drop ?n g @ ?es @ y)"
    using mwrite_append [of s "g @ ?es @ y" x] lg Cons.prems by simp
  have "drop ?n g = g ! ?n # drop (?n + 1) g"
    using lg by (simp add: Cons_nth_drop_Suc)
  then have w2: "mwrite (x @ s @ drop ?n g @ ?es @ y) (a + ?n) [0]
      = Some ((x @ zstr s) @ drop (?n + 1) g @ ?es @ y)"
    using mwrite_append [of "[0]" "drop ?n g @ ?es @ y" "x @ s"] Cons.prems
    by (simp add: zstr_def)
  have "m2d_strings (length ss) ((x @ zstr s) @ drop (?n + 1) g @ ?es @ y) (p + 2 + ?n) ebuf
        (Some (a + ?n + 1)) (sv @ [a])
      = Some (Some (p + 2 + ?n + length ?es, (sv @ [a]) @ zaddrs (a + ?n + 1) ss),
          (x @ zstr s) @ ?zs @ drop (length ?zs) (drop (?n + 1) g @ ?es) @ y)"
    by (rule Cons.IH) (use Cons.prems lg in auto)
  moreover have "drop (length ?zs) (drop (?n + 1) g @ ?es) = drop (length (concat (map zstr (s # ss)))) (gap @ concat (map estr (s # ss)))"
  proof -
    have "drop (?n + 1) g @ ?es = drop (?n + 1) (g @ ?es)" using lg by simp
    moreover have "g @ ?es = gap @ concat (map estr (s # ss))" by (simp add: g_def)
    moreover have "length ?zs + (?n + 1) = length (concat (map zstr (s # ss)))" by simp
    ultimately show ?thesis by (simp only: drop_drop)
  qed
  ultimately show ?case
    using g rd w1 w2 n Cons.prems by (simp add: Let_def add_ac g_def)
qed simp

lemma m2d_strings_at:
  assumes "\<forall>s \<in> set ss. length s < 2 ^ 16" "a = length x" "p = a + length gap" "p + length (concat (map estr ss)) \<le> ebuf"
  shows "\<exists>gap'. length gap' = length gap + length ss
      \<and> m2d_strings (length ss) (x @ gap @ concat (map estr ss) @ y) p ebuf (Some a) sv
        = Some (Some (p + length (concat (map estr ss)), sv @ zaddrs a ss),
            x @ concat (map zstr ss) @ gap' @ y)"
  unfolding m2d_strings_over [OF assms]
  by (intro exI [of _ "drop (length (concat (map zstr ss))) (gap @ concat (map estr ss))"]) (simp add: length_zstrs length_concat_estr)

lemma m2d_strings_nil:
  "\<forall>s \<in> set ss. length s < 2 ^ 16 \<Longrightarrow> p = length x \<Longrightarrow> p + length (concat (map estr ss)) \<le> ebuf
    \<Longrightarrow> m2d_strings (length ss) (x @ concat (map estr ss) @ y) p ebuf None sv
      = Some (Some (p + length (concat (map estr ss)), sv), x @ concat (map estr ss) @ y)"
proof (induction ss arbitrary: x p)
  case (Cons s ss)
  then have n: "unat (of_nat (length s) :: u16) = length s"
    by (simp add: unat_of_nat)
  have "GBIT16 (x @ estr s @ concat (map estr ss) @ y) p = Some (of_nat (length s))"
    using Cons.prems by (simp add: skip_simps estr_def GBIT_here)
  then show ?case
    using Cons.IH [of "p + 2 + length s" "x @ estr s"] Cons.prems n
    by (simp add: Let_def add_ac)
qed simp

lemma dir_size_strs: "41 + length (concat (map estr (dir_strs d))) = dir_size d"
  by (simp add: length_concat_estr dir_size_def)

lemma cstring_at_zstr: "wf_str s \<Longrightarrow> cstring_at (zstr s @ r) 0 = Some s"
  using cstring_at_append [of s "[]" r] by (simp add: wf_str_def zstr_def)

lemma set_dir_strings_at:
  assumes "\<forall>s \<in> set (dir_strs d). wf_str s"
  shows "set_dir_strings (x @ concat (map zstr (dir_strs d)) @ y) (zaddrs (length x) (dir_strs d)) d'
    = Some (d'\<lparr>d_name := Some (str_of (d_name d)), d_uid := Some (str_of (d_uid d)),
        d_gid := Some (str_of (d_gid d)), d_muid := Some (str_of (d_muid d))\<rparr>)"
  using assms
  by (simp add: set_dir_strings_def dir_strs_def dir_svs_def cstring_at_skip cstring_at_zstr)

lemma qid_eta: "\<lparr>q_path = q_path q, q_vers = q_vers q, q_type = q_type q\<rparr> = q"
  by simp

text \<open>The fixed part of \<open>convM2D\<close>, for any treatment of the strings; \<open>w\<close> is the size, which it ignores.\<close>

definition stat_fixed :: "u16 \<Rightarrow> Dir \<Rightarrow> block" where
  "stat_fixed w d = le16 w @ le16 (d_type d) @ le32 (d_dev d)
     @ eqid (d_qid d) @ le32 (d_mode d) @ le32 (d_atime d) @ le32 (d_mtime d) @ le64 (d_length d)"

lemma dir_fixed_stat: "dir_fixed d = stat_fixed (of_nat (dir_size d - 2)) d"
  by (simp add: dir_fixed_def stat_fixed_def)

lemma length_stat_fixed [simp]: "length (stat_fixed w d) = 41"
  by (simp add: stat_fixed_def)

lemma convM2D_stat:
  assumes "buf = length x" and "49 \<le> unat nbuf"
  shows "convM2D (x @ stat_fixed w d @ y) buf nbuf d0 strs = do {
     (r, mem) \<leftarrow> m2d_strings 4 (x @ stat_fixed w d @ y) (41 + buf) (buf + unat nbuf) strs [];
     (let d1 = d0\<lparr>d_type := d_type d, d_dev := d_dev d, d_qid := d_qid d, d_mode := d_mode d,
        d_atime := d_atime d, d_mtime := d_mtime d, d_length := d_length d\<rparr> in
      case r of
        None \<Rightarrow> Some (0, d1, mem)
      | Some (p, sv) \<Rightarrow> do {
          d2 \<leftarrow> (case strs of
              None \<Rightarrow> Some (d1\<lparr>d_name := Some [], d_uid := Some [], d_gid := Some [], d_muid := Some []\<rparr>)
            | Some a \<Rightarrow> set_dir_strings mem sv d1);
          Some (of_nat (p - buf), d2, mem)
        })
   }"
  using assms
  by (auto simp: convM2D_def Let_def stat_fixed_def eqid_def skip_simps GBIT_here qid_eta
      intro!: Option.bind_cong [OF refl] split: option.split)

lemmas convM2D_fixed = convM2D_stat [where w = "of_nat (dir_size d - 2)" and d = d for d, folded dir_fixed_stat]

lemma convM2D_edir:
  assumes wf: "wf_dir d" and le: "dir_size d \<le> unat nbuf" and buf: "buf = length x + length gap"
  shows "\<exists>junk. length junk = length gap + dir_size d - length (concat (map zstr (dir_strs d)))
    \<and> convM2D (x @ gap @ edir d @ y) buf nbuf d0 (Some (length x))
      = Some (of_nat (dir_size d), norm_dir d, x @ concat (map zstr (dir_strs d)) @ junk @ y)"
proof -
  have wfs: "\<forall>s \<in> set (dir_strs d). wf_str s" using wf by (simp add: wf_dir_def)
  obtain junk where j: "length junk = length (gap @ dir_fixed d) + length (dir_strs d)"
    and m: "m2d_strings (length (dir_strs d))
        (x @ (gap @ dir_fixed d) @ concat (map estr (dir_strs d)) @ y) (41 + buf) (buf + unat nbuf)
        (Some (length x)) []
      = Some (Some (41 + buf + length (concat (map estr (dir_strs d))), [] @ zaddrs (length x) (dir_strs d)),
          x @ concat (map zstr (dir_strs d)) @ junk @ y)"
    using m2d_strings_at [of "dir_strs d" "length x" x "41 + buf" "gap @ dir_fixed d" "buf + unat nbuf" y "[]"]
      wfs buf le dir_size_strs [of d] by (auto simp: wf_str_def)
  have "convM2D (x @ gap @ edir d @ y) buf nbuf d0 (Some (length x))
      = Some (of_nat (dir_size d), norm_dir d, x @ concat (map zstr (dir_strs d)) @ junk @ y)"
    using convM2D_fixed [of buf "x @ gap" nbuf d "concat (map estr (dir_strs d)) @ y" d0 "Some (length x)"]
      m buf le dir_size_strs [of d] dir_size_ge [of d] set_dir_strings_at [OF wfs]
    by (simp add: edir_def norm_dir_def add_ac)
  moreover have "length junk = length gap + dir_size d - length (concat (map zstr (dir_strs d)))"
    using j by (simp add: dir_size_def dir_strs_def dir_svs_def)
  ultimately show ?thesis by blast
qed

lemma convM2D_edir_nil:
  assumes wf: "wf_dir d" and le: "dir_size d \<le> unat nbuf"
  shows "convM2D (x @ edir d @ y) (length x) nbuf d0 None
    = Some (of_nat (dir_size d), d\<lparr>d_name := Some [], d_uid := Some [], d_gid := Some [],
        d_muid := Some []\<rparr>, x @ edir d @ y)"
proof -
  have wfs: "\<forall>s \<in> set (dir_strs d). wf_str s" using wf by (simp add: wf_dir_def)
  have "m2d_strings 4 (x @ dir_fixed d @ concat (map estr (dir_strs d)) @ y) (41 + length x)
      (length x + unat nbuf) None []
    = Some (Some (length x + dir_size d, []), x @ dir_fixed d @ concat (map estr (dir_strs d)) @ y)"
    using m2d_strings_nil [of "dir_strs d" "41 + length x" "x @ dir_fixed d" "length x + unat nbuf" y "[]"]
      wfs le dir_size_strs [of d] by (simp add: wf_str_def)
  then show ?thesis
    using convM2D_fixed [of "length x" x nbuf d "concat (map estr (dir_strs d)) @ y" d0 None] le dir_size_ge [of d]
    by (simp add: edir_def)
qed

section \<open>Checking\<close>

lemma statcheck_strings_at:
  "\<forall>s \<in> set ss. wf_str s \<Longrightarrow> p = length x \<Longrightarrow> p + length (concat (map estr ss)) \<le> ebuf
    \<Longrightarrow> statcheck_strings (length ss) (x @ concat (map estr ss) @ y) p ebuf
      = Some (Some (p + length (concat (map estr ss))))"
proof (induction ss arbitrary: x p)
  case (Cons s ss)
  then have n: "unat (of_nat (length s) :: u16) = length s"
    by (simp add: wf_str_def unat_of_nat)
  have "GBIT16 (x @ estr s @ concat (map estr ss) @ y) p = Some (of_nat (length s))"
    using Cons.prems by (simp add: skip_simps estr_def GBIT_here)
  then show ?case
    using Cons.IH [of "p + 2 + length s" "x @ estr s"] Cons.prems n
    by (simp add: add_ac)
qed simp

lemma statcheck_edir:
  assumes wf: "wf_dir d"
  shows "statcheck (edir d @ y) (of_nat (dir_size d)) = Some 0"
proof -
  have wfs: "\<forall>s \<in> set (dir_strs d). wf_str s" and sz: "dir_size d < 65538"
    using wf by (simp_all add: wf_dir_def)
  have u: "unat (of_nat (dir_size d) :: u32) = dir_size d"
    using sz by (simp add: unat_of_nat)
  have h: "unat (of_nat (dir_size d - 2) :: u16) = dir_size d - 2"
    using sz dir_size_ge [of d] by (subst unat_of_nat) simp
  have g: "GBIT16 (edir d @ y) 0 = Some (of_nat (dir_size d - 2))"
    by (simp add: edir_def dir_fixed_def GBIT_here)
  have "statcheck_strings 4 (dir_fixed d @ concat (map estr (dir_strs d)) @ y) 41 (dir_size d)
    = Some (Some (dir_size d))"
    using statcheck_strings_at [OF wfs, of 41 "dir_fixed d" "dir_size d" y] dir_size_strs [of d] by simp
  then show ?thesis
    using g h u dir_size_ge [of d] by (simp add: statcheck_def Let_def edir_def)
qed

text \<open>Bytes are an encoding.\<close>

lemma byte_bit: "8 \<le> n \<Longrightarrow> \<not> bit (a :: byte) n" and word_bit: "32 \<le> n \<Longrightarrow> \<not> bit (b :: u32) n"
  using bit_imp_le_length [of a n] bit_imp_le_length [of b n] by auto

lemma le16_of_bytes: "le16 (ucast a OR push_bit 8 (ucast b)) = [a, b]"
  by (auto simp: le16_def bit_simps byte_bit intro!: bit_word_eqI)

lemma le32_of_bytes: "le32 (ucast a OR push_bit 8 (ucast b) OR push_bit 16 (ucast c) OR push_bit 24 (ucast d)) = [a, b, c, d]"
  by (auto simp: le32_def bit_simps byte_bit intro!: bit_word_eqI)

lemma le64_of_words: "le64 (ucast a OR push_bit 32 (ucast b)) = le32 a @ le32 b"
proof -
  have "ucast (ucast a OR push_bit 32 (ucast b) :: u64) = a" "ucast (drop_bit 32 (ucast a OR push_bit 32 (ucast b) :: u64)) = b"
    by (auto simp: bit_simps word_bit intro!: bit_word_eqI)
  then show ?thesis by (simp add: le64_def)
qed

lemma le_bytes:
  "1 \<le> length y \<Longrightarrow> \<exists>v z. y = le8 v @ z \<and> length z = length y - 1"
  "2 \<le> length y \<Longrightarrow> \<exists>v z. y = le16 v @ z \<and> length z = length y - 2"
  "4 \<le> length y \<Longrightarrow> \<exists>v z. y = le32 v @ z \<and> length z = length y - 4"
  "8 \<le> length y \<Longrightarrow> \<exists>v z. y = le64 v @ z \<and> length z = length y - 8"
proof -
  show one: "\<exists>v z. y = le8 v @ z \<and> length z = length y - 1" if "1 \<le> length y" for y using that by (cases y) (auto simp: le8_def)
  show "\<exists>v z. y = le16 v @ z \<and> length z = length y - 2" if "2 \<le> length y" for y
  proof -
    obtain a b z where "y = a # b # z" using \<open>2 \<le> length y\<close> by (auto simp: Suc_le_length_iff numeral_eq_Suc)
    then show ?thesis by (intro exI [of _ "ucast a OR push_bit 8 (ucast b)"] exI [of _ z]) (simp add: le16_of_bytes)
  qed
  show four: "\<exists>v z. y = le32 v @ z \<and> length z = length y - 4" if "4 \<le> length y" for y
  proof -
    obtain a b c d z where "y = a # b # c # d # z" using \<open>4 \<le> length y\<close> by (auto simp: Suc_le_length_iff numeral_eq_Suc)
    then show ?thesis by (intro exI [of _ "ucast a OR push_bit 8 (ucast b) OR push_bit 16 (ucast c) OR push_bit 24 (ucast d)"] exI [of _ z]) (simp add: le32_of_bytes)
  qed
  show "\<exists>v z. y = le64 v @ z \<and> length z = length y - 8" if e: "8 \<le> length y" for y
  proof -
    obtain a z where a: "y = le32 a @ z" "length z = length y - 4" using four [of y] e by auto
    have "4 \<le> length z" using a(2) e by simp
    then obtain b z' where b: "z = le32 b @ z'" "length z' = length z - 4" using four by blast
    show ?thesis unfolding a(1) b(1) by (intro exI [of _ "ucast a OR push_bit 32 (ucast b)"] exI [of _ z']) (simp add: le64_of_words)
  qed
qed

lemma stat_fixed_bytes:
  assumes "length y = 41"
  shows "\<exists>w d. y = stat_fixed w d"
proof -
  obtain w y1 where 1: "y = le16 w @ y1" "length y1 = 39" using le_bytes(2) [of y] assms by auto
  obtain t y2 where 2: "y1 = le16 t @ y2" "length y2 = 37" using le_bytes(2) [of y1] 1(2) by auto
  obtain v y3 where 3: "y2 = le32 v @ y3" "length y3 = 33" using le_bytes(3) [of y2] 2(2) by auto
  obtain qt y4 where 4: "y3 = le8 qt @ y4" "length y4 = 32" using le_bytes(1) [of y3] 3(2) by auto
  obtain qv y5 where 5: "y4 = le32 qv @ y5" "length y5 = 28" using le_bytes(3) [of y4] 4(2) by auto
  obtain qp y6 where 6: "y5 = le64 qp @ y6" "length y6 = 20" using le_bytes(4) [of y5] 5(2) by auto
  obtain m y7 where 7: "y6 = le32 m @ y7" "length y7 = 16" using le_bytes(3) [of y6] 6(2) by auto
  obtain at y8 where 8: "y7 = le32 at @ y8" "length y8 = 12" using le_bytes(3) [of y7] 7(2) by auto
  obtain mt y9 where 9: "y8 = le32 mt @ y9" "length y9 = 8" using le_bytes(3) [of y8] 8(2) by auto
  obtain l where 10: "y9 = le64 l" using le_bytes(4) [of y9] 9(2) by auto
  show ?thesis
    by (intro exI [of _ w] exI [of _ "zero_dir\<lparr>d_type := t, d_dev := v, d_qid := \<lparr>q_path = qp, q_vers = qv, q_type = qt\<rparr>, d_mode := m, d_atime := at, d_mtime := mt, d_length := l\<rparr>"])
      (simp add: stat_fixed_def eqid_def 1 2 3 4 5 6 7 8 9 10)
qed

lemma GBIT16_le16: "GBIT16 y 0 = Some w \<Longrightarrow> \<exists>z. y = le16 w @ z"
proof -
  assume g: "GBIT16 y 0 = Some w"
  then have "2 \<le> length y" by (auto simp: GBIT16_def split: if_splits)
  then obtain v z where "y = le16 v @ z" using le_bytes(2) by blast
  then show ?thesis using g GBIT_here(2) by auto
qed

text \<open>What \<open>statcheck\<close> accepts has four strings after the fixed part.\<close>

lemma statcheck_strings_split:
  "statcheck_strings k b p ebuf = Some (Some q) \<Longrightarrow> q \<le> ebuf \<Longrightarrow> ebuf \<le> length b
    \<Longrightarrow> \<exists>ss y. length ss = k \<and> (\<forall>s \<in> set ss. length s < 2 ^ 16) \<and> drop p b = concat (map estr ss) @ y \<and> p + length (concat (map estr ss)) = q"
proof (induction k arbitrary: p)
  case (Suc k)
  from Suc.prems(1) obtain w where w: "p + 2 \<le> ebuf" "GBIT16 b p = Some w"
    and r: "statcheck_strings k b (p + (2 + unat w)) ebuf = Some (Some q)"
    by (auto simp: bind_Some_iff split: if_splits)
  obtain ss y where ss: "length ss = k" "\<forall>s \<in> set ss. length s < 2 ^ 16" "drop (p + (2 + unat w)) b = concat (map estr ss) @ y"
    "p + (2 + unat w) + length (concat (map estr ss)) = q" using Suc.IH [OF r Suc.prems(2,3)] by blast
  have "GBIT16 (drop p b) 0 = Some w" using w GBIT16_skip [of "take p b" p "drop p b"] Suc.prems(3) by simp
  then obtain z where z: "drop p b = le16 w @ z" using GBIT16_le16 by blast
  then have "z = drop (p + 2) b" by (metis append_eq_conv_conj drop_drop length_le(2) add.commute)
  let ?s = "take (unat w) z"
  have lz: "unat w \<le> length z" using ss(4) Suc.prems(2,3) \<open>z = drop (p + 2) b\<close> by simp
  have "drop (unat w) z = concat (map estr ss) @ y" using ss(3) unfolding \<open>z = drop (p + 2) b\<close> by (simp add: add_ac)
  then have e: "drop p b = concat (map estr (?s # ss)) @ y"
    using z lz append_take_drop_id [of "unat w" z] by (simp add: estr_def min_def)
  have "unat w < 2 ^ 16" using unsigned_less [of w, where 'a = nat] by simp
  then show ?case using e ss(1,2,4) lz by (intro exI [of _ "?s # ss"] exI [of _ y]) auto
qed (auto intro!: exI [of _ "[]"])

text \<open>Strings that are copied to an area behind the buffer.\<close>

lemma m2d_strings_behind:
  "\<forall>s \<in> set ss. length s < 2 ^ 16 \<Longrightarrow> p = length x \<Longrightarrow> a = p + length (concat (map estr ss)) + length gap
    \<Longrightarrow> p + length (concat (map estr ss)) \<le> ebuf \<Longrightarrow> length (concat (map zstr ss)) \<le> length y
    \<Longrightarrow> m2d_strings (length ss) (x @ concat (map estr ss) @ gap @ y) p ebuf (Some a) sv
      = Some (Some (p + length (concat (map estr ss)), sv @ zaddrs a ss),
          x @ concat (map estr ss) @ gap @ concat (map zstr ss) @ drop (length (concat (map zstr ss))) y)"
proof (induction ss arbitrary: x a p gap y sv)
  case (Cons s ss)
  let ?n = "length s" and ?es = "concat (map estr ss)" and ?zs = "concat (map zstr ss)"
  have n: "unat (of_nat ?n :: u16) = ?n" using Cons.prems by (simp add: unat_of_nat)
  have g: "GBIT16 (x @ estr s @ ?es @ gap @ y) p = Some (of_nat ?n)" using Cons.prems by (simp add: skip_simps estr_def GBIT_here)
  have rd: "mread (x @ estr s @ ?es @ gap @ y) (p + 2) ?n = Some s"
    using mread_append [of s ?n "x @ le16 (of_nat ?n)" "?es @ gap @ y"] Cons.prems by (simp add: estr_def add_ac)
  let ?d = "x @ estr s @ ?es @ gap"
  have la: "a = length ?d" using Cons.prems by simp
  have le: "p + 2 \<le> ebuf" "p + 2 + ?n \<le> ebuf" "length s < 65536" using Cons.prems by simp_all
  have w1: "mwrite (?d @ y) a s = Some ((?d @ s) @ drop ?n y)" unfolding la using mwrite_append [of s y ?d] Cons.prems by simp
  have ld: "a + ?n = length (?d @ s)" "drop 1 (drop ?n y) = drop (length [0 :: byte]) (drop ?n y)" using la by simp_all
  have w2: "mwrite ((?d @ s) @ drop ?n y) (a + ?n) [0] = Some ((?d @ s) @ [0] @ drop 1 (drop ?n y))"
    unfolding ld by (rule mwrite_append) (use Cons.prems in simp)
  have m: "(?d @ s) @ [0] @ drop 1 (drop ?n y) = (x @ estr s) @ ?es @ (gap @ zstr s) @ drop (?n + 1) y" by (simp add: zstr_def)
  have ih: "m2d_strings (length ss) ((x @ estr s) @ ?es @ (gap @ zstr s) @ drop (?n + 1) y) (p + 2 + ?n) ebuf (Some (a + ?n + 1)) (sv @ [a])
      = Some (Some (p + 2 + ?n + length ?es, (sv @ [a]) @ zaddrs (a + ?n + 1) ss),
          (x @ estr s) @ ?es @ (gap @ zstr s) @ ?zs @ drop (length ?zs) (drop (?n + 1) y))"
    by (rule Cons.IH) (use Cons.prems in auto)
  have "m2d_strings (Suc (length ss)) (?d @ y) p ebuf (Some a) sv = m2d_strings (length ss) ((?d @ s) @ [0] @ drop 1 (drop ?n y)) (p + 2 + ?n) ebuf (Some (a + ?n + 1)) (sv @ [a])"
    using g rd w1 w2 n le by (simp add: Let_def)
  also have "\<dots> = Some (Some (p + length (concat (map estr (s # ss))), sv @ zaddrs a (s # ss)),
          x @ concat (map estr (s # ss)) @ gap @ concat (map zstr (s # ss)) @ drop (length (concat (map zstr (s # ss)))) y)"
    unfolding m ih by (simp add: add_ac)
  finally show ?case by simp
qed simp

text \<open>The strings a reader finds: up to a NUL.\<close>

definition upto_nul :: "cstr \<Rightarrow> cstr" where
  "upto_nul s = takeWhile (\<lambda>c. c \<noteq> 0) s"

lemma takeWhile_nul: "takeWhile (\<lambda>c. c \<noteq> 0) (s @ 0 # r) = upto_nul s"
  by (induction s) (simp_all add: upto_nul_def)

lemma cstring_at_upto: "cstring_at (zstr s @ r) 0 = Some (upto_nul s)"
  by (simp add: cstring_at_def zstr_def takeWhile_nul)

lemma set_dir_strings_upto:
  assumes "length ss = 4"
  shows "\<exists>d2. set_dir_strings (x @ concat (map zstr ss) @ y) (zaddrs (length x) ss) d = Some d2 \<and> dir_svs d2 = map (\<lambda>s. Some (upto_nul s)) ss
    \<and> stat_fixed w d2 = stat_fixed w d"
proof -
  obtain s0 s1 s2 s3 where "ss = [s0, s1, s2, s3]" using assms by (auto simp: numeral_eq_Suc length_Suc_conv)
  then show ?thesis by (simp add: set_dir_strings_def cstring_at_skip cstring_at_upto dir_svs_def stat_fixed_def)
qed

text \<open>What \<open>statcheck\<close> accepts, \<open>convM2D\<close> decodes to the end, with the strings put over what has been read or behind the buffer.\<close>

lemma statcheck_shape:
  assumes "statcheck (drop buf mem) nbuf = Some 0" and "buf + unat nbuf \<le> length mem"
  obtains w d ss y where "mem = take buf mem @ stat_fixed w d @ concat (map estr ss) @ y" "length ss = 4" "\<forall>s \<in> set ss. length s < 2 ^ 16"
    "unat nbuf = 41 + length (concat (map estr ss))" "unat w + 2 = unat nbuf"
proof -
  let ?b = "drop buf mem"
  obtain w where n: "49 \<le> unat nbuf" "GBIT16 ?b 0 = Some w" "unat w + 2 = unat nbuf"
    and s: "statcheck_strings 4 ?b 41 (unat nbuf) = Some (Some (unat nbuf))"
    using assms(1) by (auto simp: statcheck_def Let_def bind_Some_iff split: if_splits option.splits)
  have bl: "unat nbuf \<le> length ?b" using assms(2) by simp
  obtain ss y where ss: "length ss = 4" "\<forall>s \<in> set ss. length s < 2 ^ 16" "drop 41 ?b = concat (map estr ss) @ y" "41 + length (concat (map estr ss)) = unat nbuf"
    using statcheck_strings_split [OF s order_refl bl] by blast
  have "length (take 41 ?b) = 41" using n(1) assms(2) by simp
  then obtain w' d where d: "take 41 ?b = stat_fixed w' d" using stat_fixed_bytes by blast
  have b: "?b = stat_fixed w' d @ concat (map estr ss) @ y" using append_take_drop_id [of 41 ?b] ss(3) d by simp
  then have "GBIT16 ?b 0 = Some w'" by (simp add: stat_fixed_def GBIT_here)
  then have "w' = w" using n(2) by simp
  moreover have "mem = take buf mem @ ?b" by simp
  ultimately show thesis using that [of w d ss y] b ss n(3) by metis
qed

lemma statcheck_convM2D:
  assumes "statcheck (drop buf mem) nbuf = Some 0" and "buf + unat nbuf \<le> length mem"
  shows "\<exists>d' ss. convM2D mem buf nbuf d None = Some (nbuf, d', mem)
      \<and> take (unat nbuf) (drop buf mem) = stat_fixed (of_nat (unat nbuf - 2)) d' @ concat (map estr ss) \<and> length ss = 4 \<and> dir_svs d' = replicate 4 (Some [])"
    and "a \<le> buf + 41 \<or> buf + unat nbuf \<le> a \<and> a + (unat nbuf - 45) \<le> length mem \<Longrightarrow> \<exists>d' ss. convM2D mem buf nbuf d (Some a)
        = Some (nbuf, d', take a mem @ concat (map zstr ss) @ drop (a + (unat nbuf - 45)) mem)
      \<and> take (unat nbuf) (drop buf mem) = stat_fixed (of_nat (unat nbuf - 2)) d' @ concat (map estr ss) \<and> length ss = 4 \<and> dir_svs d' = map (\<lambda>s. Some (upto_nul s)) ss"
proof -
  define x where "x = take buf mem"
  have x: "buf = length x" using assms(2) by (simp add: x_def)
  obtain w d1 ss y where m: "mem = x @ stat_fixed w d1 @ concat (map estr ss) @ y" and ss: "length ss = 4" "\<forall>s \<in> set ss. length s < 2 ^ 16"
    and n: "unat nbuf = 41 + length (concat (map estr ss))" "unat w + 2 = unat nbuf" unfolding x_def by (rule statcheck_shape [OF assms])
  let ?F = "stat_fixed w d1" and ?es = "concat (map estr ss)" and ?zs = "concat (map zstr ss)"
  have n49: "49 \<le> unat nbuf" using n(1) ss(1) by (simp add: length_concat_estr)
  have lz: "length ?zs = unat nbuf - 45" using n(1) ss(1) by (simp add: length_concat_estr length_zstrs)
  have w: "of_nat (unat nbuf - 2) = w" using n(2) by (metis add_diff_cancel_right' of_nat_unat ucast_id)
  have tk: "take (unat nbuf) (drop buf mem) = ?F @ ?es" using n(1) unfolding m x by simp
  define D where "D = d\<lparr>d_type := d_type d1, d_dev := d_dev d1, d_qid := d_qid d1, d_mode := d_mode d1, d_atime := d_atime d1, d_mtime := d_mtime d1, d_length := d_length d1\<rparr>"
  have D: "stat_fixed w D = ?F" "stat_fixed w (D\<lparr>d_name := e1, d_uid := e2, d_gid := e3, d_muid := e4\<rparr>) = ?F" for e1 e2 e3 e4 by (simp_all add: D_def stat_fixed_def)
  have nb: "of_nat (41 + buf + length ?es - buf) = nbuf" using n(1) by (metis add.commute add_diff_cancel_left' add.assoc of_nat_unat ucast_id)
  note c = convM2D_stat [OF x n49, of w d1 "?es @ y" d, folded m, folded D_def]
  have eb: "41 + buf + length ?es \<le> buf + unat nbuf" using n(1) by simp
  have "m2d_strings 4 mem (41 + buf) (buf + unat nbuf) None [] = Some (Some (41 + buf + length ?es, []), mem)"
    using m2d_strings_nil [OF ss(2) _ eb, of "x @ ?F" y "[]"] x ss(1) unfolding m by simp
  then have "convM2D mem buf nbuf d None = Some (nbuf, D\<lparr>d_name := Some [], d_uid := Some [], d_gid := Some [], d_muid := Some []\<rparr>, mem)" using c [of None] nb by simp
  then show "\<exists>d' ss. convM2D mem buf nbuf d None = Some (nbuf, d', mem)
      \<and> take (unat nbuf) (drop buf mem) = stat_fixed (of_nat (unat nbuf - 2)) d' @ concat (map estr ss) \<and> length ss = 4 \<and> dir_svs d' = replicate 4 (Some [])"
    unfolding w tk using ss(1) D(2) by (intro exI [of _ "D\<lparr>d_name := Some [], d_uid := Some [], d_gid := Some [], d_muid := Some []\<rparr>"] exI [of _ ss]) (simp add: dir_svs_def numeral_eq_Suc)
  assume a: "a \<le> buf + 41 \<or> buf + unat nbuf \<le> a \<and> a + (unat nbuf - 45) \<le> length mem"
  let ?m = "take a mem @ ?zs @ drop (a + (unat nbuf - 45)) mem"
  have la: "length (take a mem) = a" using a n49 assms(2) by auto
  have "m2d_strings 4 mem (41 + buf) (buf + unat nbuf) (Some a) [] = Some (Some (41 + buf + length ?es, zaddrs a ss), ?m)"
  proof (cases "a \<le> buf + 41")
    case True
    define gap where "gap = drop a (x @ ?F)"
    have tm: "take a mem = take a (x @ ?F)" using True x unfolding m by simp
    have mg: "mem = take a mem @ gap @ ?es @ y"
      unfolding tm gap_def append_assoc [symmetric] append_take_drop_id using m by simp
    have lg: "a + length gap = 41 + buf" using True x by (simp add: gap_def)
    have "length ?zs \<le> length (gap @ ?es)" using lz n(1) by simp
    then have dr: "drop (length ?zs) (gap @ ?es) @ y = drop (a + (unat nbuf - 45)) mem"
      using la lz arg_cong [OF mg, of "drop (a + (unat nbuf - 45))"] by simp
    show ?thesis using m2d_strings_over [OF ss(2) la [symmetric] lg [symmetric] eb, of y "[]"] ss(1) unfolding dr mg [symmetric] by simp
  next
    case False
    then have ba: "buf + unat nbuf \<le> a" "a + (unat nbuf - 45) \<le> length mem" using a by simp_all
    define gap z where "gap = take (a - (buf + unat nbuf)) y" and "z = drop (a - (buf + unat nbuf)) y"
    have ly: "length y = length mem - (buf + unat nbuf)" using n(1) x arg_cong [OF m, of length] by simp
    have mg: "mem = (x @ ?F) @ ?es @ gap @ z" using m by (simp add: gap_def z_def)
    have lg: "length gap = a - (buf + unat nbuf)" using ly ba by (simp add: gap_def)
    have a': "a = 41 + buf + length ?es + length gap" using lg ba n(1) by simp
    have lz': "length ?zs \<le> length z" using ly ba lz by (simp add: z_def)
    have ta: "take a mem = (x @ ?F) @ ?es @ gap" "drop (a + (unat nbuf - 45)) mem = drop (length ?zs) z"
      using a' x lz by (subst mg, simp)+
    show ?thesis using m2d_strings_behind [OF ss(2) _ a' eb lz', of "x @ ?F" "[]"] x ss(1) unfolding ta append_assoc mg [unfolded append_assoc, symmetric] by simp
  qed
  moreover obtain d2 where "set_dir_strings ?m (zaddrs a ss) D = Some d2" "dir_svs d2 = map (\<lambda>s. Some (upto_nul s)) ss" "stat_fixed w d2 = stat_fixed w D"
    using set_dir_strings_upto [OF ss(1), of "take a mem" _ D w] la by auto
  ultimately show "\<exists>d' ss. convM2D mem buf nbuf d (Some a) = Some (nbuf, d', take a mem @ concat (map zstr ss) @ drop (a + (unat nbuf - 45)) mem)
      \<and> take (unat nbuf) (drop buf mem) = stat_fixed (of_nat (unat nbuf - 2)) d' @ concat (map estr ss) \<and> length ss = 4 \<and> dir_svs d' = map (\<lambda>s. Some (upto_nul s)) ss"
    unfolding w tk using ss(1) D(1) c [of "Some a"] nb by (intro exI [of _ d2] exI [of _ ss]) simp
qed

end
