(* ===== verification/FileTree.thy ===== *)
theory FileTree
  imports DirCodec
begin

text \<open>
  \<^verbatim>\<open>lib9p/file.c\<close> and \<^verbatim>\<open>uid.c\<close>: the reference-counted tree of files a server can keep.
  The \<open>File\<close> objects live in an explicit store; \<open>fs_files s a = None\<close> means that no object is
  allocated at \<open>a\<close>, so that following a stale pointer is a fault.  A directory's
  \<open>Filelist\<close> is the list of its nodes in order, each with an identity of its own (what a
  \<open>Filelist*\<close> points to) and the file it holds, \<^const>\<open>None\<close> once that has been removed.
  One tree is modelled, so the \<open>tree\<close> member of a file is the state itself; its \<open>destroy\<close>
  callback is the client's, and a call of it is recorded in \<open>fs_destroyed\<close>.
  \<open>fs_now\<close> is what \<open>time(0)\<close> answers and \<open>fs_errstr\<close> what \<open>werrstr\<close> last recorded.
  Locks are not represented: each operation is a step of its own.
\<close>

section \<open>The code\<close>

type_synonym addr = nat

abbreviation (input) QTDIR :: byte where "QTDIR \<equiv> 0x80"
abbreviation (input) QTAPPEND :: byte where "QTAPPEND \<equiv> 0x40"
abbreviation (input) QTEXCL :: byte where "QTEXCL \<equiv> 0x20"
abbreviation (input) DMDIR :: u32 where "DMDIR \<equiv> 0x80000000"
abbreviation (input) DMAPPEND :: u32 where "DMAPPEND \<equiv> 0x40000000"
abbreviation (input) DMEXCL :: u32 where "DMEXCL \<equiv> 0x20000000"

record File =
  fl_ref :: int
  fl_dir :: Dir
  fl_parent :: "addr option"
  fl_aux :: nat
  fl_list :: "(nat \<times> addr option) list"
  fl_nchild :: int
  fl_nxchild :: int
  fl_readers :: int

record Readdir =
  rd_dir :: addr
  rd_fl :: "nat option"

record fs =
  fs_files :: "addr \<Rightarrow> File option"
  fs_free :: "addr list"
  fs_allocd :: "addr list"
  fs_next :: addr
  fs_nextnode :: nat
  fs_root :: addr
  fs_qidgen :: u32
  fs_destroyed :: "addr list"
  fs_now :: u32
  fs_errstr :: cstr

definition zero_file :: File where
  "zero_file = \<lparr>fl_ref = 0, fl_dir = zero_dir, fl_parent = None, fl_aux = 0, fl_list = [],
     fl_nchild = 0, fl_nxchild = 0, fl_readers = 0\<rparr>"

definition put_file :: "addr \<Rightarrow> File \<Rightarrow> fs \<Rightarrow> fs" where
  "put_file a f s = s\<lparr>fs_files := (fs_files s)(a \<mapsto> f)\<rparr>"

definition incref_file :: "addr \<Rightarrow> fs \<Rightarrow> fs option" where
  "incref_file a s = do {
     f \<leftarrow> fs_files s a;
     Some (put_file a (f\<lparr>fl_ref := fl_ref f + 1\<rparr>) s)
   }"

text \<open>\<open>allocfile\<close>: files are carved 16 at a time from a block and recycled through a free
  list; only the first of a block is marked \<open>allocd\<close>.\<close>

definition allocfile :: "fs \<Rightarrow> (addr \<times> fs) option" where
  "allocfile s = (let s = (if fs_free s = []
       then s\<lparr>fs_free := [fs_next s..<fs_next s + 16], fs_allocd := fs_next s # fs_allocd s,
              fs_next := fs_next s + 16\<rparr>
       else s) in
     case fs_free s of
       [] \<Rightarrow> None
     | f # rest \<Rightarrow> Some (f, put_file f zero_file (s\<lparr>fs_free := rest\<rparr>)))"

definition freefile :: "addr \<Rightarrow> fs \<Rightarrow> fs option" where
  "freefile a s = do {
     f \<leftarrow> fs_files s a;
     if \<not> (\<forall>e \<in> set (fl_list f). snd e = None) then None
     else if fl_ref f \<noteq> 0 then None
     else Some (s\<lparr>fs_files := (fs_files s)(a := None), fs_free := a # fs_free s\<rparr>)
   }"

definition cleanfilelist :: "File \<Rightarrow> File" where
  "cleanfilelist f = (if fl_readers f \<noteq> 0 then f
     else if fl_nxchild f = 0 then f
     else f\<lparr>fl_list := filter (\<lambda>e. snd e \<noteq> None) (fl_list f), fl_nxchild := 0\<rparr>)"

definition closefile :: "addr \<Rightarrow> fs \<Rightarrow> fs option" where
  "closefile a s = do {
     f \<leftarrow> fs_files s a;
     let f = f\<lparr>fl_ref := fl_ref f - 1\<rparr>;
     let s = put_file a f s;
     if fl_ref f = 0 then freefile a (s\<lparr>fs_destroyed := a # fs_destroyed s\<rparr>)
     else Some s
   }"

text \<open>The loop of \<open>removefile\<close> over the parent's list: the entry of the child becomes empty,
  in place; not finding it fails the assertion.\<close>

fun clear_entry :: "addr \<Rightarrow> (nat \<times> addr option) list \<Rightarrow> (nat \<times> addr option) list option" where
  "clear_entry a [] = None"
| "clear_entry a ((n, fo) # l) = (if fo = Some a then Some ((n, None) # l)
     else do {
       l \<leftarrow> clear_entry a l;
       Some ((n, fo) # l)
     })"

definition removefile :: "addr \<Rightarrow> fs \<Rightarrow> (int \<times> fs) option" where
  "removefile a s = do {
     f \<leftarrow> fs_files s a;
     (case fl_parent f of
        None \<Rightarrow> do {
          s \<leftarrow> closefile a (s\<lparr>fs_errstr := ascii ''no parent''\<rparr>);
          Some (- 1, s)
        }
      | Some fp \<Rightarrow>
          if fp = a then do {
            s \<leftarrow> closefile a (s\<lparr>fs_errstr := ascii ''cannot remove root''\<rparr>);
            Some (- 1, s)
          }
          else if fl_nchild f \<noteq> 0 then do {
            s \<leftarrow> closefile a (s\<lparr>fs_errstr := ascii ''has children''\<rparr>);
            Some (- 1, s)
          }
          else do {
            p \<leftarrow> fs_files s fp;
            l \<leftarrow> clear_entry a (fl_list p);
            let p = p\<lparr>fl_list := l, fl_nchild := fl_nchild p - 1, fl_nxchild := fl_nxchild p + 1\<rparr>;
            let s = put_file a (f\<lparr>fl_parent := None\<rparr>) s;
            let s = put_file fp (cleanfilelist p) s;
            s \<leftarrow> closefile fp s;
            s \<leftarrow> closefile a s;
            s \<leftarrow> closefile a s;
            Some (0, s)
          })
   }"

text \<open>The scan of a directory for a name, shared by \<open>createfile\<close> and \<open>walkfile1\<close>:
  \<open>strcmp\<close> reads the name of every file still listed before the one found.\<close>

fun find_entry :: "fs \<Rightarrow> cstr \<Rightarrow> (nat \<times> addr option) list \<Rightarrow> addr option option" where
  "find_entry s name [] = Some None"
| "find_entry s name ((n, None) # l) = find_entry s name l"
| "find_entry s name ((n, Some a) # l) = do {
     f \<leftarrow> fs_files s a;
     nm \<leftarrow> d_name (fl_dir f);
     if nm = name then Some (Some a) else find_entry s name l
   }"

text \<open>The part of \<open>createfile\<close> that fills in a new file, given its parent's entry \<open>pd\<close> and
  the number taken from the tree's generator.\<close>

definition new_file :: "addr \<Rightarrow> Dir \<Rightarrow> cstr \<Rightarrow> cstr option \<Rightarrow> u32 \<Rightarrow> nat \<Rightarrow> u32 \<Rightarrow> u32 \<Rightarrow> File option" where
  "new_file fp pd name uid perm aux gen now = do {
     u \<leftarrow> (case uid of Some u \<Rightarrow> Some u | None \<Rightarrow> d_uid pd);
     g \<leftarrow> d_gid pd;
     let t = (if perm AND DMDIR \<noteq> 0 then QTDIR else 0)
         OR (if perm AND DMAPPEND \<noteq> 0 then QTAPPEND else 0)
         OR (if perm AND DMEXCL \<noteq> 0 then QTEXCL else 0);
     let d = zero_dir\<lparr>d_name := Some name, d_uid := Some u, d_gid := Some g,
         d_muid := Some (case uid of Some u \<Rightarrow> u | None \<Rightarrow> ascii ''unknown''),
         d_qid := \<lparr>q_path = ucast gen, q_vers = 0, q_type = t\<rparr>,
         d_mode := perm, d_atime := now, d_mtime := now, d_length := 0\<rparr>;
     Some (zero_file\<lparr>fl_dir := d, fl_aux := aux, fl_parent := Some fp, fl_ref := 2\<rparr>)
   }"

definition createfile :: "addr \<Rightarrow> cstr \<Rightarrow> cstr option \<Rightarrow> u32 \<Rightarrow> nat \<Rightarrow> fs \<Rightarrow> (addr option \<times> fs) option" where
  "createfile fp name uid perm aux s = do {
     p \<leftarrow> fs_files s fp;
     if q_type (d_qid (fl_dir p)) AND QTDIR = 0 then
       Some (None, s\<lparr>fs_errstr := ascii ''create in non-directory''\<rparr>)
     else do {
       r \<leftarrow> find_entry s name (fl_list p);
       if r \<noteq> None then Some (None, s\<lparr>fs_errstr := ascii ''file already exists''\<rparr>)
       else do {
         let node = fs_nextnode s;
         let s = s\<lparr>fs_nextnode := node + 1\<rparr>;
         (a, s) \<leftarrow> allocfile s;
         f \<leftarrow> new_file fp (fl_dir p) name uid perm aux (fs_qidgen s) (fs_now s);
         let s = s\<lparr>fs_qidgen := fs_qidgen s + 1\<rparr>;
         let s = put_file a f s;
         let p = p\<lparr>fl_ref := fl_ref p + 1, fl_list := fl_list p @ [(node, Some a)],
             fl_nchild := fl_nchild p + 1\<rparr>;
         Some (Some a, put_file fp p s)
       }
     }
   }"

definition walkfile1 :: "addr \<Rightarrow> cstr \<Rightarrow> fs \<Rightarrow> (addr option \<times> fs) option" where
  "walkfile1 dir elem s = do {
     d \<leftarrow> fs_files s dir;
     if elem = ascii ''..'' then do {
       fp \<leftarrow> fl_parent d;
       s \<leftarrow> incref_file fp s;
       s \<leftarrow> closefile dir s;
       Some (Some fp, s)
     } else do {
       r \<leftarrow> find_entry s elem (fl_list d);
       s \<leftarrow> (case r of None \<Rightarrow> Some s | Some fp \<Rightarrow> incref_file fp s);
       s \<leftarrow> closefile dir s;
       Some (r, s)
     }
   }"

text \<open>The loop of \<open>walkfile\<close> over the elements of a path, cut at each \<open>/\<close>.\<close>

abbreviation (input) slash :: byte where "slash \<equiv> 47"

function walkfile_loop :: "addr \<Rightarrow> cstr \<Rightarrow> fs \<Rightarrow> (addr option \<times> fs) option" where
  "walkfile_loop f path s = (if path = [] then Some (Some f, s)
     else do {
       let elem = takeWhile (\<lambda>c. c \<noteq> slash) path;
       let nexts = drop 1 (dropWhile (\<lambda>c. c \<noteq> slash) path);
       (r, s) \<leftarrow> walkfile1 f elem s;
       (case r of None \<Rightarrow> Some (None, s) | Some f \<Rightarrow> walkfile_loop f nexts s)
     })"
  by pat_completeness auto
termination
proof (relation "measure (\<lambda>(f, path, s). length path)")
  show "wf (measure (\<lambda>(f :: addr, path :: cstr, s :: fs). length path))" by simp
next
  fix f s r s' f' and path elem nexts :: cstr
  assume "path \<noteq> []" and n: "nexts = drop 1 (dropWhile (\<lambda>c. c \<noteq> slash) path)"
  then have "length nexts < length path"
    using length_dropWhile_le [of "\<lambda>c. c \<noteq> slash" path] by (cases path) (auto simp: le_diff_conv)
  then show "((f', nexts, s'), f, path, s) \<in> measure (\<lambda>(f :: addr, path :: cstr, s :: fs). length path)"
    by simp
qed

definition walkfile :: "addr \<Rightarrow> cstr \<Rightarrow> fs \<Rightarrow> (addr option \<times> fs) option" where
  "walkfile f path s = (if slash \<notin> set path then walkfile1 f path s else walkfile_loop f path s)"

text \<open>\<open>alloctree\<close> starts a tree of one root; \<open>user\<close> is what \<open>getuser\<close> answers.\<close>

definition alloctree :: "cstr option \<Rightarrow> cstr option \<Rightarrow> u32 \<Rightarrow> cstr option \<Rightarrow> u32 \<Rightarrow> fs option" where
  "alloctree uid gid mode user now = do {
     let s = \<lparr>fs_files = Map.empty, fs_free = [], fs_allocd = [], fs_next = 0, fs_nextnode = 0,
       fs_root = 0, fs_qidgen = 0, fs_destroyed = [], fs_now = now, fs_errstr = []\<rparr>;
     (a, s) \<leftarrow> allocfile s;
     let uid = (case uid of Some u \<Rightarrow> u | None \<Rightarrow> (case user of Some u \<Rightarrow> u | None \<Rightarrow> ascii ''none''));
     let gid = (case gid of Some g \<Rightarrow> g | None \<Rightarrow> uid);
     let d = zero_dir\<lparr>d_name := Some (ascii ''/''), d_uid := Some uid, d_gid := Some gid, d_muid := Some uid,
       d_qid := \<lparr>q_path = 0, q_vers = 0, q_type = QTDIR\<rparr>, d_length := 0,
       d_atime := now, d_mtime := now, d_mode := DMDIR OR mode\<rparr>;
     let f = zero_file\<lparr>fl_dir := d, fl_parent := Some a, fl_ref := 1\<rparr>;
     Some ((put_file a f s)\<lparr>fs_root := a\<rparr>)
   }"

text \<open>
  \<open>_freefiles\<close> frees the entries of a directory before it calls \<open>freefile\<close> on it, which walks
  the same entries again, through nodes that are freed: a fault when there are any.  \<open>fuel\<close> bounds the depth
  of the recursion.
\<close>

fun freefiles :: "nat \<Rightarrow> addr \<Rightarrow> fs \<Rightarrow> fs option" and
  freefiles_list :: "nat \<Rightarrow> (nat \<times> addr option) list \<Rightarrow> fs \<Rightarrow> fs option" where
  "freefiles 0 a s = None"
| "freefiles (Suc fuel) a s = do {
     f \<leftarrow> fs_files s a;
     s \<leftarrow> freefiles_list fuel (fl_list f) s;
     if fl_list f \<noteq> [] then None
     else freefile a (s\<lparr>fs_destroyed := a # fs_destroyed s\<rparr>)
   }"
| "freefiles_list 0 l s = None"
| "freefiles_list (Suc fuel) [] s = Some s"
| "freefiles_list (Suc fuel) ((n, fo) # l) s = do {
     c \<leftarrow> fo;
     s \<leftarrow> freefiles fuel c s;
     freefiles_list fuel l s
   }"

definition freetree :: "nat \<Rightarrow> fs \<Rightarrow> fs option" where
  "freetree fuel s = freefiles fuel (fs_root s) s"

definition opendirfile :: "addr \<Rightarrow> fs \<Rightarrow> (Readdir option \<times> fs) option" where
  "opendirfile dir s = do {
     d \<leftarrow> fs_files s dir;
     if d_mode (fl_dir d) AND DMDIR = 0 then Some (None, s)
     else do {
       let r = \<lparr>rd_dir = dir, rd_fl = (case fl_list d of [] \<Rightarrow> None | e # _ \<Rightarrow> Some (fst e))\<rparr>;
       Some (Some r, put_file dir (d\<lparr>fl_readers := fl_readers d + 1\<rparr>) s)
     }
   }"

text \<open>The loop of \<open>readdirfile\<close> over the nodes from the reader's position on; \<open>m\<close> bytes of
  \<open>buf\<close> are filled.\<close>

fun readdir_loop :: "fs \<Rightarrow> (nat \<times> addr option) list \<Rightarrow> block \<Rightarrow> nat \<Rightarrow> nat
    \<Rightarrow> (nat \<times> nat option \<times> block) option" where
  "readdir_loop s [] buf m n = Some (m, None, buf)"
| "readdir_loop s ((node, fo) # l) buf m n =
     (if m + 2 > n then Some (m, Some node, buf)
      else (case fo of
        None \<Rightarrow> readdir_loop s l buf m n
      | Some a \<Rightarrow> do {
          f \<leftarrow> fs_files s a;
          (x, rest) \<leftarrow> convD2M (fl_dir f) (drop m buf) (of_nat (n - m));
          let buf = take m buf @ rest;
          if unat x \<le> BIT16SZ then Some (m, Some node, buf)
          else readdir_loop s l buf (m + unat x) n
        }))"

text \<open>The size \<open>n\<close> of the buffer is a \<open>long\<close> that is not negative: the count of a read request, at most the
  size of a message.\<close>

definition readdirfile :: "Readdir \<Rightarrow> block \<Rightarrow> nat \<Rightarrow> fs \<Rightarrow> (nat \<times> Readdir \<times> block) option" where
  "readdirfile r buf n s = (case rd_fl r of
     None \<Rightarrow> Some (0, r, buf)
   | Some node \<Rightarrow> do {
       d \<leftarrow> fs_files s (rd_dir r);
       let l = dropWhile (\<lambda>e. fst e \<noteq> node) (fl_list d);
       if l = [] then None
       else do {
         (m, fl, buf) \<leftarrow> readdir_loop s l buf 0 n;
         Some (m, r\<lparr>rd_fl := fl\<rparr>, buf)
       }
     })"

definition closedirfile :: "Readdir \<Rightarrow> fs \<Rightarrow> fs option" where
  "closedirfile r s = do {
     d \<leftarrow> fs_files s (rd_dir r);
     let d = d\<lparr>fl_readers := fl_readers d - 1\<rparr>;
     Some (put_file (rd_dir r) (if fl_readers d = 0 then cleanfilelist d else d) s)
   }"

definition hasperm :: "File \<Rightarrow> cstr \<Rightarrow> u32 \<Rightarrow> bool option" where
  "hasperm f uid p = do {
     let mode = d_mode (fl_dir f);
     let m = mode AND 7;
     if p AND m = p then Some True
     else do {
       fuid \<leftarrow> d_uid (fl_dir f);
       let m = (if fuid = uid then m OR (drop_bit 6 mode AND 7) else m);
       if fuid = uid \<and> p AND m = p then Some True
       else do {
         fgid \<leftarrow> d_gid (fl_dir f);
         let m = (if fgid = uid then m OR (drop_bit 3 mode AND 7) else m);
         Some (fgid = uid \<and> p AND m = p)
       }
     }
   }"

section \<open>The tree the files form\<close>

text \<open>
  What a file is to the tree, whatever its counts: its directory entry, its parent, its children
  in order.  \<open>tree_of\<close> forgets the rest of the state.
\<close>

record tnode =
  tn_dir :: Dir
  tn_parent :: "addr option"
  tn_kids :: "addr list"

definition children :: "File \<Rightarrow> addr list" where
  "children f = List.map_filter snd (fl_list f)"

definition node_of :: "File \<Rightarrow> tnode" where
  "node_of f = \<lparr>tn_dir = fl_dir f, tn_parent = fl_parent f, tn_kids = children f\<rparr>"

definition tree_of :: "fs \<Rightarrow> addr \<Rightarrow> tnode option" where
  "tree_of s a = map_option node_of (fs_files s a)"

definition kid_name :: "(addr \<Rightarrow> tnode option) \<Rightarrow> addr \<Rightarrow> cstr option" where
  "kid_name T c = Option.bind (T c) (\<lambda>t. d_name (tn_dir t))"

definition tnode_ok :: "addr \<Rightarrow> (addr \<Rightarrow> tnode option) \<Rightarrow> addr \<Rightarrow> tnode \<Rightarrow> bool" where
  "tnode_ok root T a t \<longleftrightarrow>
     d_name (tn_dir t) \<noteq> None \<and> d_uid (tn_dir t) \<noteq> None \<and> d_gid (tn_dir t) \<noteq> None
     \<and> (tn_kids t \<noteq> [] \<longrightarrow> q_type (d_qid (tn_dir t)) AND QTDIR \<noteq> 0)
     \<and> distinct (tn_kids t) \<and> inj_on (kid_name T) (set (tn_kids t))
     \<and> (\<forall>c \<in> set (tn_kids t). c \<noteq> root \<and> c \<noteq> a \<and> (\<exists>u. T c = Some u \<and> tn_parent u = Some a))
     \<and> (\<forall>q. tn_parent t = Some q \<longrightarrow> a \<noteq> root \<longrightarrow> (\<exists>u. T q = Some u \<and> a \<in> set (tn_kids u)))"

definition tree_ok :: "addr \<Rightarrow> (addr \<Rightarrow> tnode option) \<Rightarrow> bool" where
  "tree_ok root T \<longleftrightarrow> (\<exists>t. T root = Some t \<and> tn_parent t = Some root)
     \<and> (\<forall>a t. T a = Some t \<longrightarrow> tnode_ok root T a t)"

section \<open>The invariant\<close>

text \<open>
  \<open>ext a\<close> is the number of references to \<open>a\<close> held outside the tree (fids, and callers of the
  functions here).  The count of a file is those, one for its place in the tree, and one for each
  child.
\<close>

definition local_ok :: "nat \<Rightarrow> File \<Rightarrow> bool" where
  "local_ok nodes f \<longleftrightarrow> fl_nchild f = int (length (children f))
     \<and> fl_nxchild f = int (length (fl_list f)) - int (length (children f))
     \<and> distinct (map fst (fl_list f)) \<and> (\<forall>e \<in> set (fl_list f). fst e < nodes)"

definition links :: "File \<Rightarrow> int" where
  "links f = (if fl_parent f = None then 0 else 1) + int (length (children f))"

definition alloc_ok :: "fs \<Rightarrow> bool" where
  "alloc_ok s \<longleftrightarrow> distinct (fs_free s)
     \<and> (\<forall>a \<in> set (fs_free s). a < fs_next s \<and> fs_files s a = None)
     \<and> (\<forall>a \<in> dom (fs_files s). a < fs_next s)"

fun ref_ok :: "int \<Rightarrow> File option \<Rightarrow> bool" where
  "ref_ok e None \<longleftrightarrow> e = 0"
| "ref_ok e (Some f) \<longleftrightarrow> 0 \<le> e \<and> 0 < fl_ref f \<and> fl_ref f = e + links f"

definition refs_ok :: "(addr \<Rightarrow> int) \<Rightarrow> fs \<Rightarrow> bool" where
  "refs_ok ext s \<longleftrightarrow> (\<forall>a. ref_ok (ext a) (fs_files s a))"

definition fs_ok :: "(addr \<Rightarrow> int) \<Rightarrow> fs \<Rightarrow> bool" where
  "fs_ok ext s \<longleftrightarrow> alloc_ok s \<and> tree_ok (fs_root s) (tree_of s) \<and> refs_ok ext s
     \<and> (\<forall>a f. fs_files s a = Some f \<longrightarrow> local_ok (fs_nextnode s) f)"

lemma tree_of_put [simp]: "tree_of (put_file a f s) = (tree_of s)(a \<mapsto> node_of f)"
  by (auto simp: tree_of_def put_file_def)

lemma put_file_fields [simp]:
  "fs_files (put_file a f s) = (fs_files s)(a \<mapsto> f)" "fs_free (put_file a f s) = fs_free s"
  "fs_next (put_file a f s) = fs_next s" "fs_root (put_file a f s) = fs_root s"
  "fs_nextnode (put_file a f s) = fs_nextnode s" "fs_destroyed (put_file a f s) = fs_destroyed s"
  "fs_errstr (put_file a f s) = fs_errstr s" "fs_qidgen (put_file a f s) = fs_qidgen s"
  "fs_now (put_file a f s) = fs_now s"
  by (simp_all add: put_file_def)

lemma tree_of_Some: "tree_of s a = Some t \<longleftrightarrow> (\<exists>f. fs_files s a = Some f \<and> t = node_of f)"
  by (auto simp: tree_of_def)

lemma node_of_fields [simp]:
  "tn_dir (node_of f) = fl_dir f" "tn_parent (node_of f) = fl_parent f" "tn_kids (node_of f) = children f"
  by (simp_all add: node_of_def)

lemma fs_okD:
  assumes "fs_ok ext s"
  shows "alloc_ok s" and "tree_ok (fs_root s) (tree_of s)" and "refs_ok ext s"
    and "fs_files s a = Some f \<Longrightarrow> local_ok (fs_nextnode s) f"
  using assms by (auto simp: fs_ok_def)

lemma refs_okD:
  assumes "refs_ok ext s" and "fs_files s a = Some f"
  shows "0 \<le> ext a" and "0 < fl_ref f" and "fl_ref f = ext a + links f"
  using assms(1) [unfolded refs_ok_def, rule_format, of a] assms(2) by auto

lemma ext_live: "fs_ok ext s \<Longrightarrow> 1 \<le> ext a \<Longrightarrow> \<exists>f. fs_files s a = Some f"
  unfolding fs_ok_def refs_ok_def by (cases "fs_files s a") (metis not_one_le_zero ref_ok.simps(1), simp)

lemma refs_ok_upd:
  "refs_ok ext s \<Longrightarrow> fs_files s' = (fs_files s)(a := fo) \<Longrightarrow> ref_ok (ext' a) fo
    \<Longrightarrow> (\<And>b. b \<noteq> a \<Longrightarrow> ext' b = ext b) \<Longrightarrow> refs_ok ext' s'"
  by (simp add: refs_ok_def)

text \<open>Changing a file in a way the tree does not see.\<close>

lemma fs_ok_put:
  assumes ok: "fs_ok ext s" and f: "fs_files s a = Some f"
    and same: "node_of f' = node_of f" and l: "local_ok (fs_nextnode s) f'"
    and r: "0 \<le> ext' a" "0 < fl_ref f'" "fl_ref f' = ext' a + links f'"
    and e: "\<And>b. b \<noteq> a \<Longrightarrow> ext' b = ext b"
  shows "fs_ok ext' (put_file a f' s)"
proof -
  have "tree_of (put_file a f' s) = tree_of s"
    using f same by (auto simp: tree_of_def)
  moreover have "refs_ok ext' (put_file a f' s)"
    using refs_ok_upd [OF fs_okD(3) [OF ok], of "put_file a f' s" a "Some f'" ext'] r e by simp
  ultimately show ?thesis
    using ok f l by (auto simp: fs_ok_def alloc_ok_def)
qed

lemma links_node: "node_of f = node_of g \<Longrightarrow> links f = links g"
  by (simp add: node_of_def links_def)

lemma node_of_ref [simp]:
  "node_of (f\<lparr>fl_ref := r\<rparr>) = node_of f" "children (f\<lparr>fl_ref := r\<rparr>) = children f"
  "local_ok n (f\<lparr>fl_ref := r\<rparr>) = local_ok n f" "links (f\<lparr>fl_ref := r\<rparr>) = links f"
  by (simp_all add: node_of_def children_def local_ok_def links_def)

lemma node_of_readers [simp]:
  "node_of (f\<lparr>fl_readers := r\<rparr>) = node_of f" "children (f\<lparr>fl_readers := r\<rparr>) = children f"
  "local_ok n (f\<lparr>fl_readers := r\<rparr>) = local_ok n f" "links (f\<lparr>fl_readers := r\<rparr>) = links f"
  by (simp_all add: node_of_def children_def local_ok_def links_def)

lemma incref_file_ok:
  assumes "fs_ok ext s" and "fs_files s a = Some f"
  shows "\<exists>s'. incref_file a s = Some s' \<and> fs_ok (ext(a := ext a + 1)) s' \<and> tree_of s' = tree_of s
    \<and> fs_root s' = fs_root s"
proof -
  note r = refs_okD [OF fs_okD(3) [OF assms(1)] assms(2)]
  have "fs_ok (ext(a := ext a + 1)) (put_file a (f\<lparr>fl_ref := fl_ref f + 1\<rparr>) s)"
    using fs_ok_put [OF assms, of "f\<lparr>fl_ref := fl_ref f + 1\<rparr>" "ext(a := ext a + 1)"]
      fs_okD(4) [OF assms] r by auto
  then show ?thesis
    using assms(2) by (auto simp: incref_file_def tree_of_def fun_eq_iff)
qed

section \<open>Closing\<close>

text \<open>A file outside the tree, with no children, can go.\<close>

lemma tree_ok_free:
  assumes "tree_ok root T" and "T a = Some t" and "tn_parent t = None" and "tn_kids t = []"
  shows "tree_ok root (T(a := None))"
proof -
  have r: "a \<noteq> root" using assms by (auto simp: tree_ok_def)
  have kid: "a \<notin> set (tn_kids u)" if "T b = Some u" for b u
    using assms that unfolding tree_ok_def tnode_ok_def by fastforce
  have "tnode_ok root (T(a := None)) b u" if b: "b \<noteq> a" "T b = Some u" for b u
  proof -
    have ok: "tnode_ok root T b u" using assms(1) b by (simp add: tree_ok_def)
    have "kid_name (T(a := None)) c = kid_name T c" if "c \<in> set (tn_kids u)" for c
      using kid [OF b(2)] that by (auto simp: kid_name_def)
    then have "inj_on (kid_name (T(a := None))) (set (tn_kids u)) = inj_on (kid_name T) (set (tn_kids u))"
      by (intro inj_on_cong) simp
    then show ?thesis
      using ok kid [OF b(2)] assms(2,4) unfolding tnode_ok_def by fastforce
  qed
  then show ?thesis
    using assms(1) r by (auto simp: tree_ok_def)
qed

lemma children_Nil: "children f = [] \<Longrightarrow> \<forall>e \<in> set (fl_list f). snd e = None"
proof -
  have "List.map_filter snd l = [] \<Longrightarrow> \<forall>e \<in> set l. snd e = None" for l :: "(nat \<times> addr option) list"
    by (induction l) (auto split: option.splits)
  then show "children f = [] \<Longrightarrow> \<forall>e \<in> set (fl_list f). snd e = None"
    by (simp add: children_def)
qed

lemma closefile_ok:
  assumes ok: "fs_ok ext s" and e: "1 \<le> ext a"
  shows "\<exists>s' T. closefile a s = Some s' \<and> fs_ok (ext(a := ext a - 1)) s' \<and> fs_root s' = fs_root s
    \<and> tree_of s' = (if ext a = 1 \<and> (\<exists>t. tree_of s a = Some t \<and> tn_parent t = None \<and> tn_kids t = [])
        then (tree_of s)(a := None) else tree_of s)"
proof -
  obtain f where f: "fs_files s a = Some f"
    using ext_live [OF ok e] by blast
  note r = refs_okD [OF fs_okD(3) [OF ok] f]
  let ?f = "f\<lparr>fl_ref := fl_ref f - 1\<rparr>"
  let ?ext = "ext(a := ext a - 1)"
  show ?thesis
  proof (cases "fl_ref f = 1")
    case False
    then have "fs_ok ?ext (put_file a ?f s)"
      using fs_ok_put [OF ok f, of ?f ?ext] fs_okD(4) [OF ok f] r e by auto
    moreover have "\<not> (ext a = 1 \<and> fl_parent f = None \<and> children f = [])"
      using False r by (auto simp: links_def)
    ultimately show ?thesis
      using f False by (auto simp: closefile_def Let_def tree_of_def fun_eq_iff)
  next
    case True
    then have iso: "ext a = 1" "fl_parent f = None" "children f = []"
      using r(3) e by (auto simp: links_def simp flip: length_0_conv split: if_splits)
    let ?s = "s\<lparr>fs_destroyed := a # fs_destroyed s, fs_files := (fs_files s)(a := None),
      fs_free := a # fs_free s\<rparr>"
    have c: "closefile a s = Some ?s"
      using f True children_Nil [OF iso(3)]
      by (simp add: closefile_def freefile_def Let_def put_file_def)
    have t: "tree_of ?s = (tree_of s)(a := None)"
      by (auto simp: tree_of_def)
    have "tree_ok (fs_root s) ((tree_of s)(a := None))"
      using tree_ok_free [OF fs_okD(2) [OF ok], of a "node_of f"] f iso by (simp add: tree_of_def)
    moreover have "refs_ok ?ext ?s"
      using refs_ok_upd [OF fs_okD(3) [OF ok], of ?s a None ?ext] iso by simp
    ultimately have "fs_ok ?ext ?s"
      using ok f t by (auto simp: fs_ok_def alloc_ok_def)
    then show ?thesis
      using c t iso f by (auto simp: tree_of_def)
  qed
qed

section \<open>The directory lists\<close>

lemma children_append [simp]: "List.map_filter snd (xs @ ys) = List.map_filter snd xs @ List.map_filter snd ys"
  by (induction xs) (auto split: option.split)

lemma children_kept: "List.map_filter snd (filter (\<lambda>e. snd e \<noteq> None) l) = List.map_filter snd l"
  by (induction l) (auto split: option.split)

lemma length_kept: "length (filter (\<lambda>e. snd e \<noteq> None) l) = length (List.map_filter snd l)"
  by (induction l) (auto split: option.split)

lemma cleanfilelist_ok:
  "children (cleanfilelist f) = children f" "node_of (cleanfilelist f) = node_of f"
  "links (cleanfilelist f) = links f" "fl_ref (cleanfilelist f) = fl_ref f"
  "local_ok n f \<Longrightarrow> local_ok n (cleanfilelist f)"
  by (auto simp: cleanfilelist_def children_def node_of_def links_def local_ok_def children_kept
      length_kept simp del: not_None_eq intro: distinct_map_filter)

lemma clear_entry_Some:
  "a \<in> set (List.map_filter snd l) \<Longrightarrow> \<exists>l'. clear_entry a l = Some l'
    \<and> List.map_filter snd l' = remove1 a (List.map_filter snd l) \<and> map fst l' = map fst l"
proof (induction l)
  case (Cons e l)
  show ?case
  proof (cases "snd e = Some a")
    case True
    then show ?thesis by (cases e) auto
  next
    case False
    then have "a \<in> set (List.map_filter snd l)"
      using Cons.prems by (auto split: option.splits)
    then show ?thesis
      using Cons.IH False by (cases e) (auto split: option.splits)
  qed
qed simp

text \<open>\<open>find_entry\<close> finds the child of a given name.\<close>

lemma find_entry_find:
  assumes "\<And>c. c \<in> set (List.map_filter snd l) \<Longrightarrow> kid_name (tree_of s) c \<noteq> None"
  shows "find_entry s name l = Some (find (\<lambda>c. kid_name (tree_of s) c = Some name) (List.map_filter snd l))"
  using assms
proof (induction l)
  case (Cons e l)
  obtain n fo where e: "e = (n, fo)" by (cases e)
  show ?case
  proof (cases fo)
    case None
    then show ?thesis using Cons e by simp
  next
    case (Some c)
    then have "kid_name (tree_of s) c \<noteq> None" using Cons.prems e by simp
    then obtain f nm where "fs_files s c = Some f" "d_name (fl_dir f) = Some nm"
      by (auto simp: kid_name_def tree_of_def bind_eq_None_conv)
    then show ?thesis using Cons e Some by (simp add: kid_name_def tree_of_def)
  qed
qed simp

definition lookup_name :: "(addr \<Rightarrow> tnode option) \<Rightarrow> addr \<Rightarrow> cstr \<Rightarrow> addr option" where
  "lookup_name T a name = (case T a of
     None \<Rightarrow> None
   | Some t \<Rightarrow> find (\<lambda>c. kid_name T c = Some name) (tn_kids t))"

lemma tree_okD:
  assumes "tree_ok root T" and "T a = Some t"
  shows "d_name (tn_dir t) \<noteq> None" and "d_uid (tn_dir t) \<noteq> None" and "d_gid (tn_dir t) \<noteq> None"
    and "tn_kids t \<noteq> [] \<Longrightarrow> q_type (d_qid (tn_dir t)) AND QTDIR \<noteq> 0"
    and "distinct (tn_kids t)" and "inj_on (kid_name T) (set (tn_kids t))"
    and "c \<in> set (tn_kids t) \<Longrightarrow> c \<noteq> root \<and> c \<noteq> a \<and> (\<exists>u. T c = Some u \<and> tn_parent u = Some a)"
    and "tn_parent t = Some q \<Longrightarrow> a \<noteq> root \<Longrightarrow> \<exists>u. T q = Some u \<and> a \<in> set (tn_kids u)"
  using assms unfolding tree_ok_def tnode_ok_def by blast+

lemma tree_ok_root: "tree_ok root T \<Longrightarrow> \<exists>t. T root = Some t \<and> tn_parent t = Some root"
  by (simp add: tree_ok_def)

lemma kid_name_Some: "tree_ok root T \<Longrightarrow> T a = Some t \<Longrightarrow> c \<in> set (tn_kids t) \<Longrightarrow> kid_name T c \<noteq> None"
  using tree_okD(1) tree_okD(7) by (fastforce simp: kid_name_def)

lemma find_entry_lookup:
  assumes "fs_ok ext s" and "fs_files s a = Some f"
  shows "find_entry s name (fl_list f) = Some (lookup_name (tree_of s) a name)"
proof -
  have t: "tree_of s a = Some (node_of f)" using assms(2) by (simp add: tree_of_def)
  have "kid_name (tree_of s) c \<noteq> None" if "c \<in> set (List.map_filter snd (fl_list f))" for c
    using kid_name_Some [OF fs_okD(2) [OF assms(1)] t] that by (simp add: children_def)
  from find_entry_find [OF this] show ?thesis
    using t by (simp add: lookup_name_def children_def)
qed

lemma find_SomeD: "find P xs = Some x \<Longrightarrow> x \<in> set xs \<and> P x"
  by (auto simp: find_Some_iff)

lemma lookup_nameD:
  assumes "tree_ok root T" and "lookup_name T a name = Some c"
  shows "\<exists>t u. T a = Some t \<and> c \<in> set (tn_kids t) \<and> T c = Some u \<and> tn_parent u = Some a
    \<and> d_name (tn_dir u) = Some name \<and> c \<noteq> a"
proof -
  from assms(2) obtain t where t: "T a = Some t" "c \<in> set (tn_kids t)" "kid_name T c = Some name"
    by (auto simp: lookup_name_def split: option.splits dest!: find_SomeD)
  then show ?thesis
    using tree_okD(7) [OF assms(1) t(1,2)] by (auto simp: kid_name_def)
qed

section \<open>Removing\<close>

lemma tree_ok_unlink:
  assumes ok: "tree_ok root T" and a: "T a = Some t" and p: "T fp = Some p"
    and t: "tn_parent t = Some fp" and ne: "fp \<noteq> a"
  shows "tree_ok root (T(a \<mapsto> t\<lparr>tn_parent := None\<rparr>, fp \<mapsto> p\<lparr>tn_kids := remove1 a (tn_kids p)\<rparr>))"
    (is "tree_ok root ?T")
proof -
  have ar: "a \<noteq> root" using tree_ok_root [OF ok] a t ne by auto
  have kid: "a \<notin> set (tn_kids u)" if "T b = Some u" "b \<noteq> fp" for b u
    using tree_okD(7) [OF ok that(1), of a] a t that(2) by auto
  have names: "kid_name ?T = kid_name T"
    using a p ne by (auto simp: kid_name_def fun_eq_iff)
  have "tnode_ok root ?T b u" if b: "?T b = Some u" for b u
  proof -
    obtain u0 where u0: "T b = Some u0" "tn_dir u = tn_dir u0" "set (tn_kids u) \<subseteq> set (tn_kids u0) - {a}"
        "distinct (tn_kids u)"
      "tn_parent u = (if b = a then None else tn_parent u0)" "tn_kids u0 = [] \<longrightarrow> tn_kids u = []"
    proof (cases "b = fp")
      case True
      have "distinct (tn_kids p)" by (rule tree_okD(5) [OF ok p])
      then show ?thesis using that [of p] b True p ne by (auto)
    next
      case False
      have "distinct (tn_kids u)"
        using b False tree_okD(5) [OF ok a] tree_okD(5) [OF ok, of b u] by (auto split: if_splits)
      then show ?thesis
        using that b False a kid [of b] by (auto split: if_splits)
    qed
    note d = tree_okD [OF ok u0(1)]
    have "inj_on (kid_name T) (set (tn_kids u))"
      using d(6) u0(3) by (auto intro: inj_on_subset)
    moreover have "\<exists>v. ?T c = Some v \<and> tn_parent v = Some b" if "c \<in> set (tn_kids u)" for c
      using d(7) [of c] u0(3) that p by (cases "c = fp") auto
    moreover have "\<exists>v. ?T q = Some v \<and> b \<in> set (tn_kids v)" if q: "tn_parent u = Some q" "b \<noteq> root" for q
    proof -
      have "b \<noteq> a" "tn_parent u0 = Some q" using q u0(5) by (auto split: if_splits)
      then obtain v where v: "T q = Some v" "b \<in> set (tn_kids v)" using d(8) q(2) by blast
      then show ?thesis
        using p a \<open>b \<noteq> a\<close> by (cases "q = fp"; cases "q = a") (auto simp: in_set_remove1)
    qed
    moreover have "c \<noteq> root \<and> c \<noteq> b" if "c \<in> set (tn_kids u)" for c
      using d(7) [of c] u0(3) that by auto
    moreover have "tn_kids u \<noteq> [] \<longrightarrow> q_type (d_qid (tn_dir u)) AND 128 \<noteq> 0"
      using d(4) u0(2,6) by auto
    ultimately show ?thesis
      using d(1-3) u0(2,4) names by (simp add: tnode_ok_def)
  qed
  moreover have "\<exists>t. ?T root = Some t \<and> tn_parent t = Some root"
    using tree_ok_root [OF ok] ar p by auto
  ultimately show ?thesis
    by (simp add: tree_ok_def)
qed

text \<open>The state between the unlinking and the three calls of \<open>closefile\<close>.\<close>

definition ext_add :: "(addr \<Rightarrow> int) \<Rightarrow> addr \<Rightarrow> int \<Rightarrow> addr \<Rightarrow> int" where
  "ext_add ext a n = ext(a := ext a + n)"

lemma ext_add_simps [simp]: "ext_add ext a n a = ext a + n" "b \<noteq> a \<Longrightarrow> ext_add ext a n b = ext b"
  by (simp_all add: ext_add_def)

lemma ext_add_ext_add: "ext_add (ext_add ext a m) a n = ext_add ext a (m + n)"
  by (auto simp: ext_add_def)

lemma ext_add_commute: "ext_add (ext_add ext a m) b n = ext_add (ext_add ext b n) a m"
  by (auto simp: ext_add_def fun_eq_iff)

lemma ext_add_0 [simp]: "ext_add ext a 0 = ext"
  by (simp add: ext_add_def)

definition lone :: "(addr \<Rightarrow> tnode option) \<Rightarrow> addr \<Rightarrow> bool" where
  "lone T a \<longleftrightarrow> (\<exists>t. T a = Some t \<and> tn_parent t = None \<and> tn_kids t = [])"

text \<open>What a \<open>closefile\<close> does to the tree: nothing, unless it gives up the last reference to a
  file that is out of the tree.\<close>

definition close_tree :: "int \<Rightarrow> addr \<Rightarrow> (addr \<Rightarrow> tnode option) \<Rightarrow> addr \<Rightarrow> tnode option" where
  "close_tree n a T = (if n = 1 \<and> lone T a then T(a := None) else T)"

lemma closefile_tree:
  assumes "fs_ok ext s" and "1 \<le> ext a"
  shows "\<exists>s'. closefile a s = Some s' \<and> fs_ok (ext_add ext a (- 1)) s' \<and> fs_root s' = fs_root s
    \<and> tree_of s' = close_tree (ext a) a (tree_of s)"
  using closefile_ok [OF assms] by (auto simp: close_tree_def lone_def ext_add_def)

lemma incref_file_tree:
  assumes "fs_ok ext s" and "tree_of s a \<noteq> None"
  shows "\<exists>s'. incref_file a s = Some s' \<and> fs_ok (ext_add ext a 1) s' \<and> tree_of s' = tree_of s
    \<and> fs_root s' = fs_root s"
  using incref_file_ok [OF assms(1)] assms(2) by (auto simp: tree_of_def ext_add_def)

lemma tree_of_errstr [simp]: "tree_of (s\<lparr>fs_errstr := e\<rparr>) = tree_of s"
  by (simp add: tree_of_def fun_eq_iff)

lemma fs_ok_errstr [simp]: "fs_ok ext (s\<lparr>fs_errstr := e\<rparr>) = fs_ok ext s"
  by (simp add: fs_ok_def alloc_ok_def refs_ok_def)

lemma unlink_ok:
  assumes ok: "fs_ok ext s" and f: "fs_files s a = Some f" and p: "fs_files s fp = Some p"
    and par: "fl_parent f = Some fp" and ne: "fp \<noteq> a" and l: "clear_entry a (fl_list p) = Some l"
  defines "p' \<equiv> p\<lparr>fl_list := l, fl_nchild := fl_nchild p - 1, fl_nxchild := fl_nxchild p + 1\<rparr>"
  defines "s' \<equiv> put_file fp (cleanfilelist p') (put_file a (f\<lparr>fl_parent := None\<rparr>) s)"
  shows "fs_ok (ext_add (ext_add ext a 1) fp 1) s'"
    and "tree_of s' = (tree_of s)(a \<mapsto> (node_of f)\<lparr>tn_parent := None\<rparr>,
      fp \<mapsto> (node_of p)\<lparr>tn_kids := remove1 a (children p)\<rparr>)"
proof -
  note T = fs_okD(2) [OF ok]
  have ar: "a \<noteq> fs_root s"
    using tree_ok_root [OF T] f par ne by (auto simp: tree_of_def)
  have "a \<in> set (children p)"
    using tree_okD(8) [OF T, of a "node_of f" fp] f par ar p by (auto simp: tree_of_def)
  then have l': "List.map_filter snd l = remove1 a (children p)" "map fst l = map fst (fl_list p)"
    and a: "a \<in> set (children p)"
    using clear_entry_Some [of a "fl_list p"] l by (auto simp: children_def)
  have c': "children p' = remove1 a (children p)"
    using l'(1) by (simp add: p'_def children_def)
  have len: "length l = length (fl_list p)"
    using l'(2) by (metis length_map)
  have lk: "int (length (children p)) = 1 + int (length (remove1 a (children p)))"
    using a by (simp add: length_remove1 Suc_diff_Suc)
       (metis One_nat_def Suc_pred length_pos_if_in_set of_nat_Suc)
  have lp: "local_ok (fs_nextnode s) p"
    by (rule fs_okD(4) [OF ok p])
  have "(\<forall>e\<in>set l. fst e < fs_nextnode s) \<longleftrightarrow> (\<forall>n\<in>set (map fst l). n < fs_nextnode s)"
    by simp
  then have lp': "local_ok (fs_nextnode s) p'"
    using lp lk len unfolding local_ok_def c' unfolding l'(2) by (simp add: p'_def l'(2))
  have lf: "local_ok (fs_nextnode s) (f\<lparr>fl_parent := None\<rparr>)"
    using fs_okD(4) [OF ok f] by (simp add: local_ok_def children_def)
  have nodes: "node_of (f\<lparr>fl_parent := None\<rparr>) = (node_of f)\<lparr>tn_parent := None\<rparr>"
    "node_of p' = (node_of p)\<lparr>tn_kids := remove1 a (children p)\<rparr>"
    using c' by (simp_all add: node_of_def children_def p'_def)
  show t: "tree_of s' = (tree_of s)(a \<mapsto> (node_of f)\<lparr>tn_parent := None\<rparr>,
      fp \<mapsto> (node_of p)\<lparr>tn_kids := remove1 a (children p)\<rparr>)"
    by (simp add: s'_def nodes cleanfilelist_ok)
  have "tree_ok (fs_root s') (tree_of s')"
    using tree_ok_unlink [OF T, of a "node_of f" fp "node_of p"] f p par ne t
    by (simp add: tree_of_def s'_def)
  moreover have "links p = links p' + 1" "links f = links (f\<lparr>fl_parent := None\<rparr>) + 1"
    using lk c' par by (simp_all add: links_def p'_def children_def)
  then have "refs_ok (ext_add (ext_add ext a 1) fp 1) s'"
    using fs_okD(3) [OF ok] refs_okD [OF fs_okD(3) [OF ok] f] refs_okD [OF fs_okD(3) [OF ok] p] ne
    by (auto simp: refs_ok_def s'_def cleanfilelist_ok p'_def ext_add_def)
  moreover have "alloc_ok s'"
    using fs_okD(1) [OF ok] f p by (auto simp: alloc_ok_def s'_def)
  moreover have "local_ok (fs_nextnode s') g" if "fs_files s' b = Some g" for b g
    using that lf cleanfilelist_ok(5) [OF lp'] fs_okD(4) [OF ok] by (auto simp: s'_def split: if_splits)
  ultimately show "fs_ok (ext_add (ext_add ext a 1) fp 1) s'"
    by (simp add: fs_ok_def)
qed

text \<open>
  \<open>removefile\<close> consumes the caller's reference on every path, never faults while the caller holds
  one, and fails exactly on a file already removed, the root, or a directory with entries.
\<close>

lemma removefile_fails:
  assumes ok: "fs_ok ext s" and e: "1 \<le> ext a" and t: "tree_of s a = Some t"
    and f: "tn_parent t = None \<or> tn_parent t = Some a \<or> tn_kids t \<noteq> []"
  shows "\<exists>s'. removefile a s = Some (- 1, s') \<and> fs_ok (ext_add ext a (- 1)) s'
    \<and> tree_of s' = close_tree (ext a) a (tree_of s)"
proof -
  obtain g where g: "fs_files s a = Some g" "t = node_of g"
    using t by (auto simp: tree_of_def)
  have n: "fl_nchild g = 0 \<longleftrightarrow> children g = []"
    using fs_okD(4) [OF ok g(1)] by (auto simp: local_ok_def)
  have "\<exists>s'. closefile a (s\<lparr>fs_errstr := m\<rparr>) = Some s' \<and> fs_ok (ext_add ext a (- 1)) s'
      \<and> tree_of s' = close_tree (ext a) a (tree_of s)" for m
    using closefile_tree [of ext "s\<lparr>fs_errstr := m\<rparr>" a] ok e by auto
  from this [of "ascii ''no parent''"] this [of "ascii ''cannot remove root''"]
    this [of "ascii ''has children''"] show ?thesis
    using g f n by (cases "fl_parent g") (auto simp: removefile_def)
qed

lemma removefile_succeeds:
  assumes ok: "fs_ok ext s" and e: "1 \<le> ext a" and t: "tree_of s a = Some t"
    and f: "tn_parent t = Some fp" "fp \<noteq> a" "tn_kids t = []"
  shows "\<exists>s' p. removefile a s = Some (0, s') \<and> fs_ok (ext_add ext a (- 1)) s' \<and> fs_root s' = fs_root s
    \<and> tree_of s fp = Some p \<and> a \<in> set (tn_kids p)
    \<and> tree_of s' = close_tree (ext a) a (close_tree (ext fp + 1) fp
        ((tree_of s)(a \<mapsto> t\<lparr>tn_parent := None\<rparr>, fp \<mapsto> p\<lparr>tn_kids := remove1 a (tn_kids p)\<rparr>)))"
proof -
  obtain g where g: "fs_files s a = Some g" "t = node_of g"
    using t by (auto simp: tree_of_def)
  have n: "fl_nchild g = 0"
    using fs_okD(4) [OF ok g(1)] f(3) g(2) by (auto simp: local_ok_def)
  have "a \<noteq> fs_root s"
    using tree_ok_root [OF fs_okD(2) [OF ok]] t f by auto
  then obtain p where p: "fs_files s fp = Some p" "a \<in> set (children p)"
    using tree_okD(8) [OF fs_okD(2) [OF ok] t f(1)] by (auto simp: tree_of_def)
  then obtain l where l: "clear_entry a (fl_list p) = Some l"
    using clear_entry_Some [of a "fl_list p"] by (auto simp: children_def)
  define s0 where "s0 = put_file fp (cleanfilelist (p\<lparr>fl_list := l, fl_nchild := fl_nchild p - 1,
    fl_nxchild := fl_nxchild p + 1\<rparr>)) (put_file a (g\<lparr>fl_parent := None\<rparr>) s)"
  let ?T = "(tree_of s)(a \<mapsto> t\<lparr>tn_parent := None\<rparr>, fp \<mapsto> (node_of p)\<lparr>tn_kids := remove1 a (children p)\<rparr>)"
  have ok0: "fs_ok (ext_add (ext_add ext a 1) fp 1) s0" "tree_of s0 = ?T"
    unfolding s0_def g(2) using unlink_ok [OF ok g(1) p(1) _ f(2) l] g f by simp_all
  have fp: "0 \<le> ext fp" by (rule refs_okD(1) [OF fs_okD(3) [OF ok] p(1)])
  obtain s1 where s1: "closefile fp s0 = Some s1" "fs_ok (ext_add ext a 1) s1"
    "tree_of s1 = close_tree (ext fp + 1) fp ?T" "fs_root s1 = fs_root s0"
    using closefile_tree [OF ok0(1), of fp] fp f(2) ok0(2) by (auto simp: ext_add_ext_add)
  obtain s2 where s2: "closefile a s1 = Some s2" "fs_ok ext s2" "tree_of s2 = tree_of s1" "fs_root s2 = fs_root s1"
    using closefile_tree [OF s1(2), of a] e by (auto simp: ext_add_ext_add close_tree_def)
  obtain s3 where s3: "closefile a s2 = Some s3" "fs_ok (ext_add ext a (- 1)) s3"
    "tree_of s3 = close_tree (ext a) a (tree_of s2)" "fs_root s3 = fs_root s2"
    using closefile_tree [OF s2(2), of a] e by auto
  have "removefile a s = Some (0, s3)"
    using g f n p l s1(1) s2(1) s3(1) by (simp add: removefile_def Let_def s0_def)
  moreover have "fs_root s3 = fs_root s"
    using s1(4) s2(4) s3(4) by (simp add: s0_def)
  ultimately show ?thesis
    using s1 s2 s3 p by (auto simp: tree_of_def)
qed

section \<open>Creating\<close>

lemma tree_ok_link:
  assumes ok: "tree_ok root T" and new: "T a = None" and p: "T fp = Some p"
    and dir: "q_type (d_qid (tn_dir p)) AND QTDIR \<noteq> 0"
    and t: "tn_parent t = Some fp" "tn_kids t = []" "d_name (tn_dir t) = Some name"
      "d_uid (tn_dir t) \<noteq> None" "d_gid (tn_dir t) \<noteq> None"
    and free: "\<And>c. c \<in> set (tn_kids p) \<Longrightarrow> kid_name T c \<noteq> Some name"
  shows "tree_ok root (T(a \<mapsto> t, fp \<mapsto> p\<lparr>tn_kids := tn_kids p @ [a]\<rparr>))" (is "tree_ok root ?T")
proof -
  have ar: "a \<noteq> root" and ne: "a \<noteq> fp" using tree_ok_root [OF ok] new p by auto
  have kid: "a \<notin> set (tn_kids u)" if "T b = Some u" for b u
    using tree_okD(7) [OF ok that, of a] new by auto
  have names: "kid_name ?T c = kid_name T c" if "c \<noteq> a" for c
    using p that by (auto simp: kid_name_def)
  have na: "kid_name ?T a = Some name"
    using ne t(3) by (simp add: kid_name_def)
  have old: "tnode_ok root ?T b (u\<lparr>tn_kids := ks\<rparr>)"
    if u: "T b = Some u" and ks: "ks = tn_kids u \<and> b \<noteq> fp \<or> b = fp \<and> ks = tn_kids u @ [a]" for b u ks
  proof -
    note d = tree_okD [OF ok u]
    have u': "b = fp \<Longrightarrow> u = p" using u p by auto
    have "inj_on (kid_name ?T) (set (tn_kids u))"
      using d(6) names kid [OF u] by (metis (no_types, lifting) inj_on_cong)
    moreover have "kid_name ?T a \<notin> kid_name ?T ` set (tn_kids u)" if "b = fp"
      using free u' [OF that] kid [OF u] na names by fastforce
    ultimately have "inj_on (kid_name ?T) (set ks)"
      using ks kid [OF u] by auto
    moreover have "\<exists>v. ?T c = Some v \<and> tn_parent v = Some b" if "c \<in> set ks" for c
    proof (cases "c = a")
      case True
      then show ?thesis using ks that kid [OF u] ne t by auto
    next
      case False
      then show ?thesis using d(7) [of c] ks that p by auto
    qed
    moreover have "\<exists>v. ?T q = Some v \<and> b \<in> set (tn_kids v)" if q: "tn_parent u = Some q" "b \<noteq> root" for q
      using d(8) [OF q] p new by (cases "q = fp"; cases "q = a") auto
    moreover have "c \<noteq> root \<and> c \<noteq> b" if "c \<in> set ks" for c
      using d(7) [of c] ks that ar ne by auto
    moreover have "distinct ks"
      using d(5) ks kid [OF u] by auto
    moreover have "ks \<noteq> [] \<longrightarrow> q_type (d_qid (tn_dir u)) AND 128 \<noteq> 0"
      using d(4) ks u' dir by auto
    ultimately show ?thesis
      using d(1-3) by (simp add: tnode_ok_def)
  qed
  have "tnode_ok root ?T b u" if b: "?T b = Some u" for b u
  proof -
    consider "b = fp" | "b = a" "b \<noteq> fp" | "b \<noteq> a" "b \<noteq> fp" by blast
    then show ?thesis
    proof cases
      case 1
      then show ?thesis using b old [OF p, of "tn_kids p @ [a]"] by auto
    next
      case 2
      then show ?thesis using b t by (auto simp: tnode_ok_def)
    next
      case 3
      then show ?thesis using b old [of b u "tn_kids u"] by simp
    qed
  qed
  moreover have "\<exists>t. ?T root = Some t \<and> tn_parent t = Some root"
    using tree_ok_root [OF ok] ar p by auto
  ultimately show ?thesis
    by (simp add: tree_ok_def)
qed

text \<open>A file just allocated is at an address that was not in use, and not free any more.\<close>

definition fresh_at :: "fs \<Rightarrow> addr \<Rightarrow> fs \<Rightarrow> bool" where
  "fresh_at s a s' \<longleftrightarrow> fs_files s a = None \<and> fs_files s' = (fs_files s)(a \<mapsto> zero_file) \<and> alloc_ok s'
     \<and> fs_root s' = fs_root s \<and> fs_nextnode s' = fs_nextnode s \<and> fs_qidgen s' = fs_qidgen s
     \<and> fs_now s' = fs_now s"

lemma allocfile_fresh:
  assumes "alloc_ok s"
  shows "\<exists>a s'. allocfile s = Some (a, s') \<and> fresh_at s a s'"
proof (cases "fs_free s")
  case Nil
  let ?n = "fs_next s"
  have dom: "b < ?n" if "fs_files s b = Some f" for b f
    using assms that by (auto simp: alloc_ok_def)
  have out: "fs_files s b = None" if "?n \<le> b" for b
    using dom [of b] that by (cases "fs_files s b") auto
  have "[?n..<?n + 16] = ?n # [?n + 1..<?n + 16]"
    by (simp add: upt_conv_Cons)
  then have "allocfile s = Some (?n, put_file ?n zero_file (s\<lparr>fs_allocd := ?n # fs_allocd s,
      fs_next := ?n + 16, fs_free := [?n + 1..<?n + 16]\<rparr>))"
    using Nil by (simp add: allocfile_def)
  then show ?thesis
    using dom out by (auto simp: fresh_at_def alloc_ok_def trans_less_add1)
next
  case (Cons a r)
  then have "allocfile s = Some (a, put_file a zero_file (s\<lparr>fs_free := r\<rparr>))"
    by (simp add: allocfile_def)
  then show ?thesis
    using assms Cons by (auto simp: fresh_at_def alloc_ok_def)
qed

text \<open>The directory entry \<open>createfile\<close> gives a new file.\<close>

definition new_dir :: "Dir \<Rightarrow> cstr \<Rightarrow> cstr option \<Rightarrow> u32 \<Rightarrow> u32 \<Rightarrow> u32 \<Rightarrow> Dir \<Rightarrow> bool" where
  "new_dir pd name uid perm path now d \<longleftrightarrow>
     d_name d = Some name \<and> d_uid d = (if uid = None then d_uid pd else uid) \<and> d_gid d = d_gid pd
     \<and> d_mode d = perm \<and> d_length d = 0 \<and> d_atime d = now \<and> d_mtime d = now
     \<and> q_path (d_qid d) = ucast path \<and> q_vers (d_qid d) = 0
     \<and> (q_type (d_qid d) AND QTDIR \<noteq> 0 \<longleftrightarrow> perm AND DMDIR \<noteq> 0)
     \<and> (q_type (d_qid d) AND QTAPPEND \<noteq> 0 \<longleftrightarrow> perm AND DMAPPEND \<noteq> 0)
     \<and> (q_type (d_qid d) AND QTEXCL \<noteq> 0 \<longleftrightarrow> perm AND DMEXCL \<noteq> 0)"

lemma new_file_dir:
  assumes "d_uid pd \<noteq> None" and "d_gid pd \<noteq> None"
  shows "\<exists>f. new_file fp pd name uid perm aux gen now = Some f \<and> new_dir pd name uid perm gen now (fl_dir f)
    \<and> fl_parent f = Some fp \<and> fl_ref f = 2 \<and> fl_list f = [] \<and> fl_nchild f = 0 \<and> fl_nxchild f = 0"
  using assms by (auto simp: new_file_def new_dir_def zero_file_def Let_def split: option.split)

lemma createfile_fails:
  assumes ok: "fs_ok ext s" and p: "tree_of s fp = Some p"
    and f: "q_type (d_qid (tn_dir p)) AND QTDIR = 0 \<or> lookup_name (tree_of s) fp name \<noteq> None"
  shows "\<exists>m. createfile fp name uid perm aux s = Some (None, s\<lparr>fs_errstr := m\<rparr>)"
proof -
  obtain g where "fs_files s fp = Some g" "p = node_of g"
    using p by (auto simp: tree_of_def)
  then show ?thesis
    using f find_entry_lookup [OF ok] by (auto simp: createfile_def)
qed

lemma lookup_name_None:
  "lookup_name T a name = None \<Longrightarrow> T a = Some t \<Longrightarrow> c \<in> set (tn_kids t) \<Longrightarrow> kid_name T c \<noteq> Some name"
  by (auto simp: lookup_name_def find_None_iff)

text \<open>Putting a file with two references at the end of its parent's list.\<close>

lemma link_ok:
  fixes q :: u32
  assumes ok: "fs_ok ext s" and fresh: "fresh_at (s\<lparr>fs_nextnode := fs_nextnode s + 1\<rparr>) a s1"
    and g: "fs_files s fp = Some g" and d: "q_type (d_qid (fl_dir g)) AND QTDIR \<noteq> 0"
    and free: "lookup_name (tree_of s) fp name = None" and f: "fl_parent f = Some fp" "fl_ref f = 2"
      "fl_list f = []" "fl_nchild f = 0" "fl_nxchild f = 0" "d_name (fl_dir f) = Some name"
      "d_uid (fl_dir f) \<noteq> None" "d_gid (fl_dir f) \<noteq> None"
  defines "g' \<equiv> g\<lparr>fl_ref := fl_ref g + 1, fl_list := fl_list g @ [(fs_nextnode s, Some a)],
             fl_nchild := fl_nchild g + 1\<rparr>"
  defines "s' \<equiv> put_file fp g' (put_file a f (s1\<lparr>fs_qidgen := q\<rparr>))"
  shows "fs_ok (ext_add ext a 1) s'"
    and "tree_of s' = (tree_of s)(a \<mapsto> node_of f, fp \<mapsto> (node_of g)\<lparr>tn_kids := children g @ [a]\<rparr>)"
proof -
  note r = fs_okD(3) [OF ok]
  have new: "fs_files s a = None" and s1: "fs_files s1 = (fs_files s)(a \<mapsto> zero_file)"
    "alloc_ok s1" "fs_root s1 = fs_root s" "fs_nextnode s1 = fs_nextnode s + 1"
    using fresh by (simp_all add: fresh_at_def)
  then have ne: "a \<noteq> fp" using g by auto
  have ng: "node_of g' = (node_of g)\<lparr>tn_kids := children g @ [a]\<rparr>" "children g' = children g @ [a]"
    by (simp_all add: g'_def node_of_def children_def)
  have cf: "children f = []" using f by (simp add: children_def)
  have files: "fs_files s' = (fs_files s)(a \<mapsto> f, fp \<mapsto> g')"
    by (auto simp: s'_def s1)
  then show t': "tree_of s' = (tree_of s)(a \<mapsto> node_of f, fp \<mapsto> (node_of g)\<lparr>tn_kids := children g @ [a]\<rparr>)"
    by (auto simp: tree_of_def fun_eq_iff ng)
  have p: "tree_of s fp = Some (node_of g)" and na: "tree_of s a = None"
    using g new by (simp_all add: tree_of_def)
  have "tree_ok (fs_root s) (tree_of s')"
    using tree_ok_link [OF fs_okD(2) [OF ok] na p, of "node_of f" name] lookup_name_None [OF free p] t' f cf d
    by simp
  then have T: "tree_ok (fs_root s') (tree_of s')" by (simp add: s'_def s1)
  have A: "alloc_ok s'"
    using s1 g by (auto simp: alloc_ok_def s'_def)
  have "ext a = 0" using r new unfolding refs_ok_def by (metis ref_ok.simps(1))
  then have "ref_ok (ext_add ext a 1 a) (Some f)" "ref_ok (ext fp) (Some g')"
    using f cf refs_okD [OF r g] by (simp_all add: links_def ng) (simp_all add: g'_def)
  then have R: "refs_ok (ext_add ext a 1) s'"
    using r ne files by (auto simp: refs_ok_def)
  have "local_ok (fs_nextnode s + 1) h" if "fs_files s b = Some h" for b h
    using fs_okD(4) [OF ok that] by (auto simp: local_ok_def less_SucI)
  moreover have "local_ok (fs_nextnode s + 1) g'" "local_ok (fs_nextnode s + 1) f"
    using fs_okD(4) [OF ok g] f cf unfolding local_ok_def ng by (auto simp: g'_def less_SucI)
  ultimately have "local_ok (fs_nextnode s') h" if "fs_files s' b = Some h" for b h
    using that files s1 by (auto simp: s'_def split: if_splits)
  then show "fs_ok (ext_add ext a 1) s'"
    using A T R by (auto simp: fs_ok_def)
qed

lemma createfile_succeeds:
  assumes ok: "fs_ok ext s" and p: "tree_of s fp = Some p"
    and d: "q_type (d_qid (tn_dir p)) AND QTDIR \<noteq> 0" and free: "lookup_name (tree_of s) fp name = None"
  shows "\<exists>a s' t. createfile fp name uid perm aux s = Some (Some a, s') \<and> tree_of s a = None
    \<and> fs_ok (ext_add ext a 1) s' \<and> fs_root s' = fs_root s \<and> fs_qidgen s' = fs_qidgen s + 1
    \<and> tree_of s' = (tree_of s)(a \<mapsto> t, fp \<mapsto> p\<lparr>tn_kids := tn_kids p @ [a]\<rparr>)
    \<and> tn_parent t = Some fp \<and> tn_kids t = []
    \<and> new_dir (tn_dir p) name uid perm (fs_qidgen s) (fs_now s) (tn_dir t)"
proof -
  obtain g where g: "fs_files s fp = Some g" "p = node_of g"
    using p by (auto simp: tree_of_def)
  have strs: "d_uid (fl_dir g) \<noteq> None" "d_gid (fl_dir g) \<noteq> None"
    using tree_okD(2,3) [OF fs_okD(2) [OF ok] p] g(2) by auto
  let ?s = "s\<lparr>fs_nextnode := fs_nextnode s + 1\<rparr>"
  have "alloc_ok ?s" using fs_okD(1) [OF ok] by (simp add: alloc_ok_def)
  then obtain a s1 where al: "allocfile ?s = Some (a, s1)" "fresh_at ?s a s1"
    using allocfile_fresh by blast
  then have s1: "fs_qidgen s1 = fs_qidgen s" "fs_now s1 = fs_now s" "fs_root s1 = fs_root s" "fs_files s a = None"
    by (simp_all add: fresh_at_def)
  obtain f where f: "new_file fp (fl_dir g) name uid perm aux (fs_qidgen s) (fs_now s) = Some f"
    "new_dir (fl_dir g) name uid perm (fs_qidgen s) (fs_now s) (fl_dir f)"
    "fl_parent f = Some fp" "fl_ref f = 2" "fl_list f = []" "fl_nchild f = 0" "fl_nxchild f = 0"
    using new_file_dir [OF strs] by blast
  have fd: "d_name (fl_dir f) = Some name" "d_uid (fl_dir f) \<noteq> None" "d_gid (fl_dir f) \<noteq> None"
    using f(2) strs by (auto simp: new_dir_def)
  note lk = link_ok [OF ok al(2) g(1) _ free f(3-7) fd, of "fs_qidgen s + 1"]
  have "createfile fp name uid perm aux s = Some (Some a, put_file fp
      (g\<lparr>fl_ref := fl_ref g + 1, fl_list := fl_list g @ [(fs_nextnode s, Some a)],
         fl_nchild := fl_nchild g + 1\<rparr>) (put_file a f (s1\<lparr>fs_qidgen := fs_qidgen s + 1\<rparr>)))"
    using g d free find_entry_lookup [OF ok g(1)] al(1) s1 f by (simp add: createfile_def Let_def)
  moreover have "tn_parent (node_of f) = Some fp" "tn_kids (node_of f) = []" "tree_of s a = None"
    using f s1 by (simp_all add: children_def tree_of_def)
  ultimately show ?thesis
    using lk g d s1 f(2) by (intro exI conjI) (assumption | simp)+
qed

section \<open>A new tree\<close>

lemma alloctree_ok:
  "\<exists>s t. alloctree uid gid mode user now = Some s \<and> fs_ok (\<lambda>_. 0) s
    \<and> tree_of s = [fs_root s \<mapsto> t] \<and> tn_parent t = Some (fs_root s) \<and> tn_kids t = []
    \<and> q_type (d_qid (tn_dir t)) = QTDIR \<and> q_path (d_qid (tn_dir t)) = 0 \<and> fs_qidgen s = 0"
proof -
  let ?s = "\<lparr>fs_files = Map.empty, fs_free = [], fs_allocd = [], fs_next = 0, fs_nextnode = 0,
       fs_root = 0, fs_qidgen = 0, fs_destroyed = [], fs_now = now, fs_errstr = []\<rparr>"
  have "alloc_ok ?s" by (simp add: alloc_ok_def)
  then obtain a s where a: "allocfile ?s = Some (a, s)" "fresh_at ?s a s"
    using allocfile_fresh by blast
  then obtain f where f: "alloctree uid gid mode user now = Some ((put_file a f s)\<lparr>fs_root := a\<rparr>)"
    "fl_parent f = Some a" "fl_ref f = 1" "fl_list f = []" "fl_nchild f = 0" "fl_nxchild f = 0"
    "d_name (fl_dir f) \<noteq> None" "d_uid (fl_dir f) \<noteq> None" "d_gid (fl_dir f) \<noteq> None"
    "q_type (d_qid (fl_dir f)) = QTDIR" "q_path (d_qid (fl_dir f)) = 0"
    by (simp add: alloctree_def Let_def zero_file_def)
  let ?s' = "(put_file a f s)\<lparr>fs_root := a\<rparr>"
  have files: "fs_files ?s' = [a \<mapsto> f]" and al: "alloc_ok ?s'" "fs_qidgen ?s' = 0"
    using a(2) by (auto simp: fresh_at_def alloc_ok_def)
  have t: "tree_of ?s' = [a \<mapsto> node_of f]" using files by (auto simp: tree_of_def fun_eq_iff)
  have c: "children f = []" using f by (simp add: children_def)
  have "tree_ok a [a \<mapsto> node_of f]"
    using f c by (simp add: tree_ok_def tnode_ok_def)
  then have "fs_ok (\<lambda>_. 0) ?s'"
    using files t al f c unfolding fs_ok_def refs_ok_def by (auto simp: local_ok_def links_def)
  then show ?thesis
    using f t c al by (intro exI conjI) (assumption | simp)+
qed

section \<open>Walking\<close>

definition dotdot :: cstr where
  "dotdot = ascii ''..''"

text \<open>One step of a walk in the tree.\<close>

definition walk1 :: "(addr \<Rightarrow> tnode option) \<Rightarrow> addr \<Rightarrow> cstr \<Rightarrow> addr option" where
  "walk1 T a elem = (if elem = dotdot then Option.bind (T a) tn_parent else lookup_name T a elem)"

lemma walkfile1_walks:
  assumes ok: "fs_ok ext s" and e: "1 \<le> ext a" and up: "elem = dotdot \<Longrightarrow> walk1 (tree_of s) a elem \<noteq> None"
  shows "\<exists>s'. walkfile1 a elem s = Some (walk1 (tree_of s) a elem, s') \<and> fs_root s' = fs_root s
    \<and> fs_ok (case walk1 (tree_of s) a elem of None \<Rightarrow> ext_add ext a (- 1)
        | Some c \<Rightarrow> ext_add (ext_add ext c 1) a (- 1)) s'
    \<and> (elem \<noteq> dotdot \<longrightarrow> walk1 (tree_of s) a elem \<noteq> None \<longrightarrow> tree_of s' = tree_of s)"
proof -
  note T = fs_okD(2) [OF ok]
  obtain f where f: "fs_files s a = Some f" using ext_live [OF ok e] by blast
  then have t: "tree_of s a = Some (node_of f)" by (simp add: tree_of_def)
  show ?thesis
  proof (cases "walk1 (tree_of s) a elem")
    case None
    then have nd: "elem \<noteq> dotdot" and l: "lookup_name (tree_of s) a elem = None"
      using up by (auto simp: walk1_def split: if_splits)
    then show ?thesis
      using None f find_entry_lookup [OF ok f] closefile_tree [OF ok e]
      by (auto simp: walkfile1_def dotdot_def)
  next
    case (Some c)
    have live: "tree_of s c \<noteq> None"
    proof (cases "elem = dotdot")
      case True
      then have p: "fl_parent f = Some c" using Some t by (simp add: walk1_def)
      then show ?thesis
        using tree_ok_root [OF T] tree_okD(8) [OF T t] t by (cases "a = fs_root s") auto
    next
      case False
      then show ?thesis using Some lookup_nameD [OF T] by (fastforce simp: walk1_def)
    qed
    obtain s1 where s1: "incref_file c s = Some s1" "fs_ok (ext_add ext c 1) s1" "tree_of s1 = tree_of s"
      "fs_root s1 = fs_root s"
      using incref_file_tree [OF ok live] by blast
    have "1 \<le> ext_add ext c 1 a" using e by (cases "a = c") simp_all
    then obtain s2 where s2: "closefile a s1 = Some s2" "fs_ok (ext_add (ext_add ext c 1) a (- 1)) s2"
      "fs_root s2 = fs_root s" "tree_of s2 = close_tree (ext_add ext c 1 a) a (tree_of s)"
      using closefile_tree [OF s1(2)] s1(3,4) by auto
    have "tree_of s2 = tree_of s" if "elem \<noteq> dotdot"
    proof -
      have "c \<in> set (children f)"
        using Some that lookup_nameD [OF T] t by (fastforce simp: walk1_def)
      then show ?thesis using s2(4) t by (auto simp: close_tree_def lone_def)
    qed
    moreover have "walkfile1 a elem s = Some (Some c, s2)"
      using Some f t s1(1) s2(1) find_entry_lookup [OF ok f]
      by (cases "elem = dotdot") (simp_all add: walkfile1_def walk1_def dotdot_def)
    ultimately show ?thesis
      using Some s2 by auto
  qed
qed

text \<open>The one walk that faults: out of a directory that has been removed.\<close>

lemma walkfile1_dotdot_removed:
  assumes "tree_of s a = Some t" and "tn_parent t = None"
  shows "walkfile1 a dotdot s = None"
  using assms by (auto simp: walkfile1_def dotdot_def tree_of_def)

text \<open>The elements \<open>walkfile\<close> cuts a path into.\<close>

function path_elems :: "cstr \<Rightarrow> cstr list" where
  "path_elems path = (if path = [] then []
     else takeWhile (\<lambda>c. c \<noteq> slash) path # path_elems (drop 1 (dropWhile (\<lambda>c. c \<noteq> slash) path)))"
  by pat_completeness auto
termination
proof (relation "measure length")
  fix path :: cstr
  assume "path \<noteq> []"
  then show "(drop 1 (dropWhile (\<lambda>c. c \<noteq> slash) path), path) \<in> measure length"
    using length_dropWhile_le [of "\<lambda>c. c \<noteq> slash" path] by (cases path) (auto simp: le_diff_conv)
qed simp

fun walks :: "(addr \<Rightarrow> tnode option) \<Rightarrow> addr \<Rightarrow> cstr list \<Rightarrow> addr option" where
  "walks T a [] = Some a"
| "walks T a (e # es) = (case walk1 T a e of None \<Rightarrow> None | Some c \<Rightarrow> walks T c es)"

declare walkfile_loop.simps [simp del] path_elems.simps [simp del]

lemma path_elems_Nil [simp]: "path_elems [] = []"
  by (simp add: path_elems.simps)

lemma walkfile_loop_walks:
  assumes "fs_ok ext s" and "1 \<le> ext a" and "dotdot \<notin> set (path_elems path)"
  shows "\<exists>s'. walkfile_loop a path s = Some (walks (tree_of s) a (path_elems path), s')
    \<and> fs_ok (case walks (tree_of s) a (path_elems path) of None \<Rightarrow> ext_add ext a (- 1)
        | Some c \<Rightarrow> ext_add (ext_add ext c 1) a (- 1)) s'"
  using assms
proof (induction path arbitrary: ext s a rule: path_elems.induct)
  case (1 path)
  show ?case
  proof (cases "path = []")
    case True
    then show ?thesis
      using 1 by (simp add: walkfile_loop.simps ext_add_ext_add)
  next
    case False
    define elem where "elem = takeWhile (\<lambda>c. c \<noteq> slash) path"
    define nexts where "nexts = drop 1 (dropWhile (\<lambda>c. c \<noteq> slash) path)"
    have pe: "path_elems path = elem # path_elems nexts"
      using False by (simp add: path_elems.simps [of path] elem_def nexts_def)
    then have nd: "elem \<noteq> dotdot" "dotdot \<notin> set (path_elems nexts)" using 1 by auto
    have wl: "walkfile_loop a path s = do {
        (r, s) \<leftarrow> walkfile1 a elem s;
        (case r of None \<Rightarrow> Some (None, s) | Some f \<Rightarrow> walkfile_loop f nexts s) }"
      using False by (simp only: walkfile_loop.simps [of a path] elem_def nexts_def Let_def if_False)
    obtain s1 where s1: "walkfile1 a elem s = Some (walk1 (tree_of s) a elem, s1)"
      "fs_ok (case walk1 (tree_of s) a elem of None \<Rightarrow> ext_add ext a (- 1)
        | Some c \<Rightarrow> ext_add (ext_add ext c 1) a (- 1)) s1"
      "walk1 (tree_of s) a elem \<noteq> None \<longrightarrow> tree_of s1 = tree_of s"
      using walkfile1_walks [OF 1(2,3), of elem] nd(1) by auto
    show ?thesis
    proof (cases "walk1 (tree_of s) a elem")
      case None
      then show ?thesis using pe wl s1 by simp
    next
      case (Some c)
      let ?e = "ext_add (ext_add ext c 1) a (- 1)"
      have "0 \<le> ext c"
        using fs_okD(3) [OF 1(2)] unfolding refs_ok_def
        by (metis eq_iff ref_ok.elims(2))
      then have "1 \<le> ?e c" using 1(3) by (cases "a = c") simp_all
      then obtain s' where s': "walkfile_loop c nexts s1 = Some (walks (tree_of s) c (path_elems nexts), s')"
        "fs_ok (case walks (tree_of s) c (path_elems nexts) of None \<Rightarrow> ext_add ?e c (- 1)
          | Some d \<Rightarrow> ext_add (ext_add ?e d 1) c (- 1)) s'"
        using 1(1) [OF False, of ?e s1 c] s1 Some nd(2) by (auto simp: nexts_def)
      have "ext_add ?e c (- 1) = ext_add ext a (- 1)"
        "ext_add (ext_add ?e d 1) c (- 1) = ext_add (ext_add ext d 1) a (- 1)" for d
        by (auto simp: ext_add_def fun_eq_iff)
      then show ?thesis
        using s' pe wl s1 Some by (auto split: option.splits)
    qed
  qed
qed

lemma walkfile_walks:
  assumes "fs_ok ext s" and "1 \<le> ext a"
    and "elems = (if slash \<in> set path then path_elems path else [path])" and "dotdot \<notin> set elems"
  shows "\<exists>s'. walkfile a path s = Some (walks (tree_of s) a elems, s')
    \<and> fs_ok (case walks (tree_of s) a elems of None \<Rightarrow> ext_add ext a (- 1)
        | Some c \<Rightarrow> ext_add (ext_add ext c 1) a (- 1)) s'"
proof (cases "slash \<in> set path")
  case True
  then show ?thesis using assms walkfile_loop_walks [OF assms(1,2)] by (simp add: walkfile_def)
next
  case False
  have "walks (tree_of s) a [path] = walk1 (tree_of s) a path"
    by (simp split: option.split)
  then show ?thesis
    using False assms walkfile1_walks [OF assms(1,2), of path] by (auto simp: walkfile_def)
qed

section \<open>Reading a directory\<close>

text \<open>Readers are counted in the directory and seen by nothing else.\<close>

lemma opendirfile_ok:
  assumes ok: "fs_ok ext s" and f: "fs_files s a = Some f" and d: "d_mode (fl_dir f) AND DMDIR \<noteq> 0"
  shows "\<exists>r s'. opendirfile a s = Some (Some r, s') \<and> fs_ok ext s' \<and> tree_of s' = tree_of s
    \<and> fs_files s' a = Some (f\<lparr>fl_readers := fl_readers f + 1\<rparr>)
    \<and> rd_dir r = a \<and> rd_fl r = map_option fst (case fl_list f of [] \<Rightarrow> None | e # _ \<Rightarrow> Some e)"
proof -
  let ?f = "f\<lparr>fl_readers := fl_readers f + 1\<rparr>"
  have "fs_ok ext (put_file a ?f s)"
    using fs_ok_put [OF ok f, of ?f ext] refs_okD [OF fs_okD(3) [OF ok] f] fs_okD(4) [OF ok f] by simp
  moreover have "tree_of (put_file a ?f s) = tree_of s"
    using f by (simp add: tree_of_def fun_eq_iff)
  ultimately show ?thesis
    using f d by (auto simp: opendirfile_def Let_def split: list.split)
qed

lemma closedirfile_ok:
  assumes ok: "fs_ok ext s" and f: "fs_files s (rd_dir r) = Some f"
  shows "\<exists>s' f'. closedirfile r s = Some s' \<and> fs_ok ext s' \<and> tree_of s' = tree_of s
    \<and> fs_files s' (rd_dir r) = Some f' \<and> fl_readers f' = fl_readers f - 1
    \<and> (fl_readers f = 1 \<longrightarrow> fl_nxchild f' = 0 \<and> map snd (fl_list f') = map Some (children f))"
proof -
  let ?f = "f\<lparr>fl_readers := fl_readers f - 1\<rparr>"
  let ?g = "if fl_readers ?f = 0 then cleanfilelist ?f else ?f"
  have g: "node_of ?g = node_of f" "local_ok (fs_nextnode s) ?g" "fl_ref ?g = fl_ref f" "links ?g = links f"
    using fs_okD(4) [OF ok f] by (auto simp: cleanfilelist_ok)
  then have "fs_ok ext (put_file (rd_dir r) ?g s)"
    using fs_ok_put [OF ok f, of ?g ext] refs_okD [OF fs_okD(3) [OF ok] f] by simp
  moreover have "tree_of (put_file (rd_dir r) ?g s) = tree_of s"
    using f g(1) by (simp only: tree_of_put) (auto simp: tree_of_def fun_eq_iff)
  moreover have "fl_readers ?g = fl_readers f - 1"
    by (simp add: cleanfilelist_def)
  moreover have "fl_nxchild ?g = 0 \<and> map snd (fl_list ?g) = map Some (children f)" if "fl_readers f = 1"
  proof -
    have some: "map snd (filter (\<lambda>e. snd e \<noteq> None) l) = map Some (List.map_filter snd l)"
      for l :: "(nat \<times> addr option) list"
      by (induction l) (auto split: option.split)
    have "filter (\<lambda>e. snd e \<noteq> None) l = l" if "length l = length (List.map_filter snd l)"
      for l :: "(nat \<times> addr option) list"
      using length_kept [of l] that by (metis filter_id_conv length_filter_less less_irrefl)
    then have "fl_nxchild f = 0 \<Longrightarrow> filter (\<lambda>e. snd e \<noteq> None) (fl_list f) = fl_list f"
      using fs_okD(4) [OF ok f] by (simp add: local_ok_def children_def del: not_None_eq)
    then show ?thesis
      using that some [of "fl_list f"] by (auto simp: cleanfilelist_def children_def simp del: not_None_eq)
  qed
  moreover have "closedirfile r s = Some (put_file (rd_dir r) ?g s)"
    using f by (simp add: closedirfile_def Let_def)
  ultimately show ?thesis
    by auto
qed

text \<open>
  \<open>readdirfile\<close> returns whole entries, in order, from the reader's position on, and leaves the
  position at the first entry it could not return.  \<open>entries\<close> are the directory entries of a
  part of the list.
\<close>

definition entries :: "fs \<Rightarrow> (nat \<times> addr option) list \<Rightarrow> Dir list" where
  "entries s l = map (\<lambda>a. fl_dir (the (fs_files s a))) (List.map_filter snd l)"

definition live_list :: "fs \<Rightarrow> (nat \<times> addr option) list \<Rightarrow> bool" where
  "live_list s l \<longleftrightarrow> (\<forall>a \<in> set (List.map_filter snd l). \<exists>f. fs_files s a = Some f \<and> dir_size (fl_dir f) < 2 ^ 32)"

definition stops :: "fs \<Rightarrow> (nat \<times> addr option) list \<Rightarrow> nat \<Rightarrow> bool" where
  "stops s l room \<longleftrightarrow> l = [] \<or> room < BIT16SZ
     \<or> (\<exists>a f. snd (hd l) = Some a \<and> fs_files s a = Some f \<and> room < dir_size (fl_dir f))"

definition reads :: "fs \<Rightarrow> (nat \<times> addr option) list \<Rightarrow> block \<Rightarrow> nat \<Rightarrow> nat
    \<Rightarrow> (nat \<times> addr option) list \<Rightarrow> (nat \<times> addr option) list \<Rightarrow> block \<Rightarrow> bool" where
  "reads s l buf m n l1 l2 buf' \<longleftrightarrow>
     (let out = concat (map edir (entries s l1)) in
       l = l1 @ l2
       \<and> readdir_loop s l buf m n
         = Some (m + length out, (case l2 of [] \<Rightarrow> None | e # _ \<Rightarrow> Some (fst e)), buf')
       \<and> length buf' = length buf \<and> m + length out \<le> n \<and> take (m + length out) buf' = take m buf @ out
       \<and> stops s l2 (n - (m + length out)))"

lemma reads_stop:
  assumes "readdir_loop s l buf m n = Some (m, (case l of [] \<Rightarrow> None | e # _ \<Rightarrow> Some (fst e)), buf')"
    and "length buf' = length buf" and "take m buf' = take m buf" and "m \<le> n" and "stops s l (n - m)"
  shows "reads s l buf m n [] l buf'"
  using assms by (simp add: reads_def entries_def)

lemma reads_skip:
  assumes "reads s l buf m n l1 l2 buf'" and "m + 2 \<le> n"
  shows "reads s ((node, None) # l) buf m n ((node, None) # l1) l2 buf'"
  using assms by (auto simp: reads_def entries_def Let_def)

lemma reads_take:
  assumes r: "reads s l (take m buf @ edir (fl_dir f) @ drop (dir_size (fl_dir f)) (drop m buf))
      (m + dir_size (fl_dir f)) n l1 l2 buf'"
    and a: "fs_files s a = Some f" and d: "dir_size (fl_dir f) < 2 ^ 32" "m + dir_size (fl_dir f) \<le> n"
    and n: "n \<le> length buf" "n < 2 ^ 32"
  shows "reads s ((node, Some a) # l) buf m n ((node, Some a) # l1) l2 buf'"
proof -
  let ?d = "fl_dir f"
  let ?buf = "take m buf @ edir ?d @ drop (dir_size ?d) (drop m buf)"
  have u: "unat (of_nat (n - m) :: u32) = n - m" "unat (of_nat (dir_size ?d) :: u32) = dir_size ?d"
    using n d(1) by (simp_all add: unat_of_nat)
  have "convD2M ?d (drop m buf) (of_nat (n - m))
      = Some (of_nat (dir_size ?d), edir ?d @ drop (dir_size ?d) (drop m buf))"
    using convD2M_edir [of ?d "of_nat (n - m)" "drop m buf"] d u n by simp
  then have rl: "readdir_loop s ((node, Some a) # l) buf m n = readdir_loop s l ?buf (m + dir_size ?d) n"
    using a u d dir_size_ge [of ?d] by simp
  have "take (m + dir_size ?d) ?buf = take m buf @ edir ?d" "length ?buf = length buf"
    using n d(2) by (auto simp: min_def)
  moreover have "entries s ((node, Some a) # l1) = ?d # entries s l1"
    using a by (simp add: entries_def)
  ultimately show ?thesis
    using r unfolding reads_def rl by (auto simp: Let_def add.assoc [symmetric])
qed

lemma readdir_loop_entries:
  assumes "live_list s l" and "m \<le> n" and "n \<le> length buf" and "n < 2 ^ 32"
  shows "\<exists>l1 l2 buf'. reads s l buf m n l1 l2 buf'"
  using assms
proof (induction l arbitrary: m buf)
  case Nil
  then have "reads s [] buf m n [] [] buf" by (intro reads_stop) (simp_all add: stops_def)
  then show ?case by blast
next
  case (Cons e l)
  obtain node fo where e: "e = (node, fo)" by (cases e)
  have ll: "live_list s l"
    using Cons.prems(1) by (auto simp: live_list_def e split: option.splits)
  consider (full) "n < m + 2" | (empty) "m + 2 \<le> n" "fo = None" 
    | (entry) a f where "m + 2 \<le> n" and "fo = Some a" and "fs_files s a = Some f" and "dir_size (fl_dir f) < 2 ^ 32"
    using Cons.prems(1) by (cases fo; cases "m + 2 \<le> n") (auto simp: live_list_def e)
  then show ?case
  proof cases
    case full
    then have "reads s (e # l) buf m n [] (e # l) buf"
      using Cons.prems by (intro reads_stop) (auto simp: e stops_def)
    then show ?thesis by blast
  next
    case empty
    then show ?thesis
      using Cons.IH [OF ll Cons.prems(2-4)] reads_skip e by blast
  next
    case entry
    let ?d = "fl_dir f"
    show ?thesis
    proof (cases "m + dir_size ?d \<le> n")
      case True
      let ?buf = "take m buf @ edir ?d @ drop (dir_size ?d) (drop m buf)"
      have "n \<le> length ?buf" using True Cons.prems by simp
      then show ?thesis
        using Cons.IH [OF ll True _ Cons.prems(4), of ?buf] reads_take [OF _ entry(3,4) True Cons.prems(3,4)]
          e entry(2) by blast
    next
      case False
      let ?buf = "take m buf @ le16 (of_nat (dir_size ?d - 2)) @ drop 2 (drop m buf)"
      have "unat (of_nat (n - m) :: u32) = n - m"
        using Cons.prems(4) by (simp add: unat_of_nat)
      then have "convD2M ?d (drop m buf) (of_nat (n - m))
          = Some (2, le16 (of_nat (dir_size ?d - 2)) @ drop 2 (drop m buf))"
        using convD2M_short [of ?d "of_nat (n - m)" "drop m buf"] entry False Cons.prems(3) by simp
      then have "reads s (e # l) buf m n [] (e # l) ?buf"
        using entry False Cons.prems by (intro reads_stop) (auto simp: e stops_def)
      then show ?thesis by blast
    qed
  qed
qed

lemma readdirfile_entries:
  assumes f: "fs_files s (rd_dir r) = Some f" and fl: "rd_fl r = Some node"
    and l: "dropWhile (\<lambda>e. fst e \<noteq> node) (fl_list f) = l" "l \<noteq> []" "live_list s l"
    and n: "n \<le> length buf" "n < 2 ^ 32"
  shows "\<exists>l1 l2 buf'. l = l1 @ l2
    \<and> readdirfile r buf n s = Some (length (concat (map edir (entries s l1))),
        r\<lparr>rd_fl := (case l2 of [] \<Rightarrow> None | e # _ \<Rightarrow> Some (fst e))\<rparr>, buf')
    \<and> take (length (concat (map edir (entries s l1)))) buf' = concat (map edir (entries s l1))
    \<and> stops s l2 (n - length (concat (map edir (entries s l1))))"
proof -
  obtain l1 l2 buf' where "reads s l buf 0 n l1 l2 buf'"
    using readdir_loop_entries [OF l(3) _ n, of 0] by blast
  moreover have "readdirfile r buf n s = do {
      (m, fl, buf) \<leftarrow> readdir_loop s l buf 0 n;
      Some (m, r\<lparr>rd_fl := fl\<rparr>, buf) }"
    using f fl l(2) unfolding readdirfile_def l(1) [symmetric] by (auto simp: Let_def)
  ultimately show ?thesis
    by (intro exI [of _ l1] exI [of _ l2] exI [of _ buf']) (auto simp: reads_def Let_def)
qed

text \<open>The nodes of a list that has a reader stay in it: \<open>removefile\<close> empties the entry and
  \<open>createfile\<close> adds at the end.\<close>

lemma cleanfilelist_readers: "fl_readers f \<noteq> 0 \<Longrightarrow> cleanfilelist f = f"
  by (simp add: cleanfilelist_def)

section \<open>Permissions\<close>

text \<open>The permission bits a user has on a file: the ones for others, with the owner's or the
  group's added.\<close>

lemma hasperm_iff:
  assumes "d_uid (fl_dir f) = Some u" and "d_gid (fl_dir f) = Some g"
  shows "hasperm f uid p = Some
    (let m = d_mode (fl_dir f) AND 7; o' = drop_bit 6 (d_mode (fl_dir f)) AND 7;
         g' = drop_bit 3 (d_mode (fl_dir f)) AND 7
     in p AND m = p \<or> (u = uid \<and> p AND (m OR o') = p)
        \<or> (g = uid \<and> p AND ((if u = uid then m OR o' else m) OR g') = p))"
  using assms by (auto simp: hasperm_def Let_def)

section \<open>Freeing a tree\<close>

lemma freefile_ref: "freefile a s = Some s' \<Longrightarrow> \<exists>f. fs_files s a = Some f \<and> fl_ref f = 0"
  by (auto simp: freefile_def bind_Some_iff split: if_splits)

lemma freefiles_list_Nil: "freefiles_list fuel [] s = Some s' \<Longrightarrow> s' = s"
  by (cases fuel) auto

text \<open>\<open>freetree\<close> always fails an assertion or touches freed memory: the root still has the
  reference the tree holds.\<close>

lemma freetree_faults:
  assumes "fs_ok ext s"
  shows "freetree fuel s = None"
proof (rule ccontr)
  assume "freetree fuel s \<noteq> None"
  then obtain s' where "freefiles fuel (fs_root s) s = Some s'" by (auto simp: freetree_def)
  then obtain n f where f: "fuel = Suc n" "fs_files s (fs_root s) = Some f" "fl_list f = []"
    and "freefile (fs_root s) (s\<lparr>fs_destroyed := fs_root s # fs_destroyed s\<rparr>) = Some s'"
    by (cases fuel) (auto simp: bind_Some_iff split: if_splits dest: freefiles_list_Nil)
  then have "fl_ref f = 0"
    using freefile_ref [of "fs_root s" "s\<lparr>fs_destroyed := fs_root s # fs_destroyed s\<rparr>"] by auto
  then show False
    using refs_okD(2) [OF fs_okD(3) [OF assms] f(2)] by simp
qed

section \<open>Files as their users see them\<close>

text \<open>Changes of a file that the tree does not see.\<close>

definition meta_same :: "File \<Rightarrow> File \<Rightarrow> bool" where
  "meta_same f f' \<longleftrightarrow> fl_ref f' = fl_ref f \<and> fl_parent f' = fl_parent f \<and> fl_list f' = fl_list f \<and> fl_nchild f' = fl_nchild f
     \<and> fl_nxchild f' = fl_nxchild f \<and> d_name (fl_dir f') = d_name (fl_dir f) \<and> d_uid (fl_dir f') = d_uid (fl_dir f)
     \<and> d_gid (fl_dir f') = d_gid (fl_dir f) \<and> q_type (d_qid (fl_dir f')) = q_type (d_qid (fl_dir f))"

lemma fs_ok_meta:
  assumes ok: "fs_ok ext s" and f: "fs_files s a = Some f" and m: "meta_same f f'"
  shows "fs_ok ext (put_file a f' s)"
proof -
  have c: "children f' = children f" "links f' = links f" using m by (simp_all add: meta_same_def children_def links_def)
  let ?T = "tree_of s" and ?T' = "tree_of (put_file a f' s)"
  have k: "kid_name ?T' = kid_name ?T" using f m by (auto simp: kid_name_def meta_same_def tree_of_def)
  have up: "\<exists>u'. ?T' b = Some u' \<and> tn_parent u' = tn_parent u \<and> tn_kids u' = tn_kids u" if "?T b = Some u" for b u
    using that f m c by (cases "b = a") (auto simp: tree_of_Some meta_same_def)
  have "tnode_ok (fs_root s) ?T' b u'" if u': "?T' b = Some u'" for b u'
  proof -
    obtain u where u: "?T b = Some u" "tn_parent u' = tn_parent u" "tn_kids u' = tn_kids u"
      "d_name (tn_dir u') = d_name (tn_dir u)" "d_uid (tn_dir u') = d_uid (tn_dir u)" "d_gid (tn_dir u') = d_gid (tn_dir u)"
      "q_type (d_qid (tn_dir u')) = q_type (d_qid (tn_dir u))"
      using u' f m c by (cases "b = a") (auto simp: tree_of_Some meta_same_def)
    have t: "tnode_ok (fs_root s) ?T b u" using fs_okD(2) [OF ok] u(1) by (auto simp: tree_ok_def)
    then have "\<exists>v. ?T' d = Some v \<and> tn_parent v = Some b" if "d \<in> set (tn_kids u)" for d
      using that up by (fastforce simp: tnode_ok_def)
    moreover have "\<exists>v. ?T' q = Some v \<and> b \<in> set (tn_kids v)" if "tn_parent u = Some q" "b \<noteq> fs_root s" for q
      using that t up by (fastforce simp: tnode_ok_def)
    ultimately show ?thesis using t u k by (simp add: tnode_ok_def)
  qed
  moreover have "\<exists>t. ?T' (fs_root s) = Some t \<and> tn_parent t = Some (fs_root s)"
    using fs_okD(2) [OF ok] up unfolding tree_ok_def by metis
  ultimately have "tree_ok (fs_root s) ?T'" by (simp add: tree_ok_def)
  moreover have "alloc_ok (put_file a f' s)" using fs_okD(1) [OF ok] f by (auto simp: alloc_ok_def)
  moreover have "refs_ok ext (put_file a f' s)"
    unfolding refs_ok_def
  proof
    fix b
    show "ref_ok (ext b) (fs_files (put_file a f' s) b)"
      using fs_okD(3) [OF ok] refs_okD [OF fs_okD(3) [OF ok] f] c m by (simp add: refs_ok_def meta_same_def)
  qed
  moreover have "local_ok (fs_nextnode s) g" if "fs_files (put_file a f' s) b = Some g" for b g
    using that fs_okD(4) [OF ok, of b] fs_okD(4) [OF ok f] c m by (auto simp: local_ok_def meta_same_def split: if_splits)
  ultimately show ?thesis by (simp add: fs_ok_def)
qed

lemma createfile_files:
  assumes ok: "fs_ok ext s" and c: "createfile fp name uid perm aux s = Some (Some a, s')"
  shows "\<exists>f g g'. fs_files s fp = Some g \<and> fs_files s a = None \<and> fs_files s' = (fs_files s)(a \<mapsto> f, fp \<mapsto> g')
    \<and> fl_aux f = aux \<and> fl_aux g' = fl_aux g"
proof -
  obtain g where g: "fs_files s fp = Some g" using c by (auto simp: createfile_def bind_Some_iff)
  let ?s = "s\<lparr>fs_nextnode := fs_nextnode s + 1\<rparr>"
  have "alloc_ok ?s" using fs_okD(1) [OF ok] by (simp add: alloc_ok_def)
  then obtain b s1 where al: "allocfile ?s = Some (b, s1)" "fresh_at ?s b s1"
    using allocfile_fresh by blast
  let ?g = "g\<lparr>fl_ref := fl_ref g + 1, fl_list := fl_list g @ [(fs_nextnode s, Some a)], fl_nchild := fl_nchild g + 1\<rparr>"
  obtain f where f: "new_file fp (fl_dir g) name uid perm aux (fs_qidgen s1) (fs_now s1) = Some f" "a = b"
    "fs_files s' = (fs_files s1)(a \<mapsto> f, fp \<mapsto> ?g)"
    using c g al(1) by (auto simp: createfile_def bind_Some_iff Let_def split: if_splits)
  moreover have "fl_aux f = aux" using f(1) by (auto simp: new_file_def bind_Some_iff Let_def)
  ultimately show ?thesis
    using g al(2) by (intro exI [of _ f] exI [of _ g] exI [of _ ?g] conjI) (auto simp: fresh_at_def)
qed

section \<open>The root of a new tree\<close>

lemma alloctree_root:
  "\<exists>s g. alloctree uid gid mode user now = Some s \<and> fs_files s = [fs_root s \<mapsto> g] \<and> fs_ok (\<lambda>_. 0) s
    \<and> q_type (d_qid (fl_dir g)) = QTDIR \<and> d_mode (fl_dir g) = DMDIR OR mode \<and> fl_aux g = 0 \<and> children g = []"
proof -
  obtain s t where s: "alloctree uid gid mode user now = Some s" "fs_ok (\<lambda>_. 0) s" using alloctree_ok by metis
  then have "\<exists>g. fs_files s = [fs_root s \<mapsto> g] \<and> q_type (d_qid (fl_dir g)) = QTDIR \<and> d_mode (fl_dir g) = DMDIR OR mode \<and> fl_aux g = 0 \<and> children g = []"
    by (auto simp: alloctree_def allocfile_def Let_def put_file_def zero_file_def children_def bind_Some_iff upt_conv_Cons [of 0 16])
  then show ?thesis using s by blast
qed

end
