(* ===== verification/Intmap.thy ===== *)
theory Intmap
  imports Prelude
begin

text \<open>
  \<^verbatim>\<open>lib9p/intmap.c\<close>: the map from 32-bit identifiers to pointers behind the fid and request
  pools, a table of \<open>NHASH\<close> chains.  A chain is a list of its \<open>Intlist\<close> nodes; the
  pointer-to-pointer that \<open>llookup\<close> returns is the rest of the chain from the node found.
  \<open>inc\<close>, which the pools use to take a reference, acts on the state \<open>'h\<close> of the objects
  pointed to.  The reader/writer lock serialises the operations and is not represented.
\<close>

section \<open>The code\<close>

abbreviation (input) NHASH :: nat where "NHASH \<equiv> 128"

record ('v, 'h) Intmap =
  hash :: "(u32 \<times> 'v) list list"
  inc :: "'v \<Rightarrow> 'h \<Rightarrow> 'h"

definition hashid :: "u32 \<Rightarrow> nat" where
  "hashid key = unat key mod NHASH"

definition nop :: "'v \<Rightarrow> 'h \<Rightarrow> 'h" where
  "nop v h = h"

definition allocmap :: "('v \<Rightarrow> 'h \<Rightarrow> 'h) option \<Rightarrow> ('v, 'h) Intmap" where
  "allocmap i = \<lparr>hash = replicate NHASH [], inc = (case i of None \<Rightarrow> nop | Some i \<Rightarrow> i)\<rparr>"

definition llookup :: "('v, 'h) Intmap \<Rightarrow> u32 \<Rightarrow> (u32 \<times> 'v) list" where
  "llookup m key = dropWhile (\<lambda>e. fst e \<noteq> key) (hash m ! hashid key)"

definition lookupkey :: "('v, 'h) Intmap \<Rightarrow> u32 \<Rightarrow> 'h \<Rightarrow> 'v option \<times> 'h" where
  "lookupkey m key h = (case llookup m key of
     [] \<Rightarrow> (None, h)
   | f # link \<Rightarrow> (let v = snd f in (Some v, inc m v h)))"

text \<open>The chain of \<open>key\<close> with the part from the node found on replaced.\<close>

definition relink :: "('v, 'h) Intmap \<Rightarrow> u32 \<Rightarrow> (u32 \<times> 'v) list \<Rightarrow> ('v, 'h) Intmap" where
  "relink m key rest = m\<lparr>hash := (hash m)[hashid key :=
     takeWhile (\<lambda>e. fst e \<noteq> key) (hash m ! hashid key) @ rest]\<rparr>"

text \<open>A new node goes to the head of its chain.\<close>

definition push_node :: "('v, 'h) Intmap \<Rightarrow> u32 \<Rightarrow> 'v \<Rightarrow> ('v, 'h) Intmap" where
  "push_node m key v = (let h = hashid key in
     m\<lparr>hash := (hash m)[h := (key, v) # hash m ! h]\<rparr>)"

definition insertkey :: "('v, 'h) Intmap \<Rightarrow> u32 \<Rightarrow> 'v \<Rightarrow> 'v option \<times> ('v, 'h) Intmap" where
  "insertkey m key v = (case llookup m key of
     f # link \<Rightarrow> (let ov = snd f in (Some ov, relink m key ((fst f, v) # link)))
   | [] \<Rightarrow> (None, push_node m key v))"

definition caninsertkey :: "('v, 'h) Intmap \<Rightarrow> u32 \<Rightarrow> 'v \<Rightarrow> bool \<times> ('v, 'h) Intmap" where
  "caninsertkey m key v = (case llookup m key of
     f # link \<Rightarrow> (False, m)
   | [] \<Rightarrow> (True, push_node m key v))"

definition deletekey :: "('v, 'h) Intmap \<Rightarrow> u32 \<Rightarrow> 'v option \<times> ('v, 'h) Intmap" where
  "deletekey m key = (case llookup m key of
     f # link \<Rightarrow> (let ov = snd f in (Some ov, relink m key link))
   | [] \<Rightarrow> (None, m))"

text \<open>Every value is passed to \<open>destroy\<close>, chain by chain, before the nodes are freed.\<close>

definition freemap :: "('v, 'h) Intmap \<Rightarrow> ('v \<Rightarrow> 'k \<Rightarrow> 'k) option \<Rightarrow> 'k \<Rightarrow> 'k" where
  "freemap m destroy h = (let destroy = (case destroy of None \<Rightarrow> nop | Some d \<Rightarrow> d) in
     fold (\<lambda>chain h. fold (\<lambda>e h. destroy (snd e) h) chain h) (hash m) h)"

section \<open>The invariant and the abstract map\<close>

definition intmap_ok :: "('v, 'h) Intmap \<Rightarrow> bool" where
  "intmap_ok m \<longleftrightarrow> length (hash m) = NHASH
     \<and> (\<forall>i < NHASH. distinct (map fst (hash m ! i)) \<and> (\<forall>e \<in> set (hash m ! i). hashid (fst e) = i))"

definition intmap_abs :: "('v, 'h) Intmap \<Rightarrow> u32 \<Rightarrow> 'v option" where
  "intmap_abs m key = map_of (hash m ! hashid key) key"

lemma hashid_less [simp]: "hashid key < 128"
  by (simp add: hashid_def)

lemma intmap_okD:
  "intmap_ok m \<Longrightarrow> length (hash m) = 128"
  "intmap_ok m \<Longrightarrow> i < 128 \<Longrightarrow> distinct (map fst (hash m ! i))"
  "intmap_ok m \<Longrightarrow> i < 128 \<Longrightarrow> e \<in> set (hash m ! i) \<Longrightarrow> hashid (fst e) = i"
  by (auto simp: intmap_ok_def)

lemma llookup_Nil: "llookup m key = [] \<longleftrightarrow> intmap_abs m key = None"
  by (auto simp: llookup_def intmap_abs_def map_of_eq_None_iff)

lemma llookup_Cons:
  assumes "llookup m key = e # r"
  shows "fst e = key" and "intmap_abs m key = Some (snd e)"
    and "hash m ! hashid key = takeWhile (\<lambda>e. fst e \<noteq> key) (hash m ! hashid key) @ e # r"
proof -
  let ?c = "hash m ! hashid key"
  show e: "fst e = key"
    using assms hd_dropWhile [of "\<lambda>e. fst e \<noteq> key" ?c] by (auto simp: llookup_def)
  show s: "?c = takeWhile (\<lambda>e. fst e \<noteq> key) ?c @ e # r"
    using assms takeWhile_dropWhile_id [of "\<lambda>e. fst e \<noteq> key" ?c] by (simp add: llookup_def)
  have "key \<notin> fst ` set (takeWhile (\<lambda>e. fst e \<noteq> key) ?c)"
    by (auto dest: set_takeWhileD)
  then have "map_of (takeWhile (\<lambda>e. fst e \<noteq> key) ?c) key = None"
    by (simp add: map_of_eq_None_iff)
  then show "intmap_abs m key = Some (snd e)"
    using e by (subst intmap_abs_def, subst s) (cases e; simp add: map_add_def)
qed

text \<open>Changing one chain, within the invariant, changes the map at the keys of that chain.\<close>

lemma intmap_chain_update:
  assumes "intmap_ok m" and "distinct (map fst c)" and "\<And>e. e \<in> set c \<Longrightarrow> hashid (fst e) = hashid key"
  shows "intmap_ok (m\<lparr>hash := (hash m)[hashid key := c]\<rparr>)"
    and "intmap_abs (m\<lparr>hash := (hash m)[hashid key := c]\<rparr>)
      = (\<lambda>j. if hashid j = hashid key then map_of c j else intmap_abs m j)"
  using assms by (auto simp: intmap_ok_def intmap_abs_def nth_list_update)

lemma map_of_other_chain:
  "intmap_ok m \<Longrightarrow> hashid j = hashid key \<Longrightarrow> map_of (hash m ! hashid key) j = intmap_abs m j"
  by (simp add: intmap_abs_def)

lemma push_node_refines:
  assumes ok: "intmap_ok m" and new: "intmap_abs m key = None"
  shows "intmap_ok (push_node m key v)" and "intmap_abs (push_node m key v) = (intmap_abs m)(key \<mapsto> v)"
proof -
  let ?c = "(key, v) # hash m ! hashid key"
  have d: "distinct (map fst ?c)"
    using new intmap_okD(2) [OF ok hashid_less] by (auto simp: intmap_abs_def map_of_eq_None_iff)
  have h: "hashid (fst e) = hashid key" if "e \<in> set ?c" for e
    using that intmap_okD(3) [OF ok hashid_less, of e key] by auto
  show "intmap_ok (push_node m key v)"
    using intmap_chain_update(1) [OF ok d h] by (simp add: push_node_def Let_def)
  show "intmap_abs (push_node m key v) = (intmap_abs m)(key \<mapsto> v)"
    using intmap_chain_update(2) [OF ok d h] map_of_other_chain [OF ok]
    by (auto simp: push_node_def Let_def fun_eq_iff)
qed

lemma relink_refines:
  assumes ok: "intmap_ok m" and l: "llookup m key = e # r"
    and rest: "rest = r \<or> (\<exists>v. rest = (key, v) # r)"
  shows "intmap_ok (relink m key rest)"
    and "intmap_abs (relink m key rest)
      = (intmap_abs m)(key := (case rest of [] \<Rightarrow> None | f # _ \<Rightarrow> if fst f = key then Some (snd f) else None))"
proof -
  let ?p = "takeWhile (\<lambda>e. fst e \<noteq> key) (hash m ! hashid key)"
  note s = llookup_Cons(3) [OF l]
  have d0: "distinct (map fst (?p @ e # r))"
    using intmap_okD(2) [OF ok hashid_less, of key] s by simp
  have np: "key \<notin> fst ` set ?p"
    by (auto dest: set_takeWhileD)
  have nr: "key \<notin> fst ` set r"
    using d0 llookup_Cons(1) [OF l] by auto
  have d: "distinct (map fst (?p @ rest))"
  proof -
    have "map fst rest = map fst r \<or> map fst rest = map fst (e # r)"
      using rest llookup_Cons(1) [OF l] by auto
    then have "distinct (map fst ?p @ map fst rest)"
      using d0 by (elim disjE) (simp_all only: map_append list.map distinct_append distinct.simps, auto)
    then show ?thesis by simp
  qed
  have h: "hashid (fst x) = hashid key" if "x \<in> set (?p @ rest)" for x
  proof -
    from that rest have "x \<in> set (?p @ e # r) \<or> fst x = key" by auto
    then show ?thesis
      using intmap_okD(3) [OF ok hashid_less, of x key] s by auto
  qed
  show "intmap_ok (relink m key rest)"
    using intmap_chain_update(1) [OF ok d h] by (simp add: relink_def)
  have "map_of (?p @ rest) j = ((intmap_abs m)(key := (case rest of [] \<Rightarrow> None
      | f # _ \<Rightarrow> if fst f = key then Some (snd f) else None))) j" if "hashid j = hashid key" for j
  proof (cases "j = key")
    case True
    have "map_of ?p key = None" and "map_of r key = None"
      using np nr by (simp_all add: map_of_eq_None_iff)
    then show ?thesis
      using rest True nr by (auto simp: map_add_def split: list.split)
  next
    case False
    have "map_of (?p @ rest) j = map_of (?p @ e # r) j"
      using rest False llookup_Cons(1) [OF l] by (cases e) (auto simp: map_add_def split: option.split)
    also have "\<dots> = intmap_abs m j"
      using s that by (simp add: intmap_abs_def)
    finally show ?thesis using False by simp
  qed
  then show "intmap_abs (relink m key rest)
      = (intmap_abs m)(key := (case rest of [] \<Rightarrow> None | f # _ \<Rightarrow> if fst f = key then Some (snd f) else None))"
    using intmap_chain_update(2) [OF ok d h] by (auto simp: relink_def fun_eq_iff)
qed

lemma llookup_tail_other:
  assumes "intmap_ok m" and "llookup m key = e # r"
  shows "(case r of [] \<Rightarrow> None | f # _ \<Rightarrow> if fst f = key then Some (snd f) else None) = None"
proof -
  have "distinct (map fst (takeWhile (\<lambda>e. fst e \<noteq> key) (hash m ! hashid key) @ e # r))"
    using intmap_okD(2) [OF assms(1) hashid_less, of key] llookup_Cons(3) [OF assms(2)] by simp
  then have "key \<notin> fst ` set r"
    using llookup_Cons(1) [OF assms(2)] by auto
  then show ?thesis
    by (cases r) auto
qed

section \<open>The operations implement a map\<close>

lemma allocmap_refines: "intmap_ok (allocmap i)" "intmap_abs (allocmap i) = Map.empty"
  by (auto simp: intmap_ok_def intmap_abs_def allocmap_def)

lemma lookupkey_refines:
  "lookupkey m key h = (intmap_abs m key, (case intmap_abs m key of None \<Rightarrow> h | Some v \<Rightarrow> inc m v h))"
  using llookup_Nil [of m key] llookup_Cons(2) [of m key]
  by (cases "llookup m key") (auto simp: lookupkey_def)

lemma insertkey_refines:
  assumes "intmap_ok m"
  shows "fst (insertkey m key v) = intmap_abs m key"
    and "intmap_ok (snd (insertkey m key v))"
    and "intmap_abs (snd (insertkey m key v)) = (intmap_abs m)(key \<mapsto> v)"
proof -
  have "fst (insertkey m key v) = intmap_abs m key \<and> intmap_ok (snd (insertkey m key v))
      \<and> intmap_abs (snd (insertkey m key v)) = (intmap_abs m)(key \<mapsto> v)"
  proof (cases "llookup m key")
    case Nil
    then show ?thesis
      using push_node_refines [OF assms, of key v] llookup_Nil [of m key] by (simp add: insertkey_def)
  next
    case (Cons e r)
    then show ?thesis
      using relink_refines [OF assms Cons, of "(key, v) # r"] llookup_Cons(1,2) [OF Cons]
      by (simp add: insertkey_def)
  qed
  then show "fst (insertkey m key v) = intmap_abs m key" and "intmap_ok (snd (insertkey m key v))"
    and "intmap_abs (snd (insertkey m key v)) = (intmap_abs m)(key \<mapsto> v)" by blast+
qed

lemma caninsertkey_refines:
  assumes "intmap_ok m"
  shows "fst (caninsertkey m key v) \<longleftrightarrow> intmap_abs m key = None"
    and "intmap_ok (snd (caninsertkey m key v))"
    and "intmap_abs (snd (caninsertkey m key v))
      = (if intmap_abs m key = None then (intmap_abs m)(key \<mapsto> v) else intmap_abs m)"
  using assms push_node_refines [OF assms, of key v] llookup_Cons(2) [of m key] llookup_Nil [of m key]
  by (auto simp: caninsertkey_def split: list.split)

lemma deletekey_refines:
  assumes "intmap_ok m"
  shows "fst (deletekey m key) = intmap_abs m key"
    and "intmap_ok (snd (deletekey m key))"
    and "intmap_abs (snd (deletekey m key)) = (intmap_abs m)(key := None)"
proof -
  have "fst (deletekey m key) = intmap_abs m key \<and> intmap_ok (snd (deletekey m key))
      \<and> intmap_abs (snd (deletekey m key)) = (intmap_abs m)(key := None)"
  proof (cases "llookup m key")
    case Nil
    then show ?thesis
      using assms llookup_Nil [of m key] by (auto simp: deletekey_def fun_eq_iff)
  next
    case (Cons e r)
    then show ?thesis
      using relink_refines [OF assms Cons, of r] llookup_Cons(2) [OF Cons]
        llookup_tail_other [OF assms Cons]
      by (simp add: deletekey_def)
  qed
  then show "fst (deletekey m key) = intmap_abs m key" and "intmap_ok (snd (deletekey m key))"
    and "intmap_abs (snd (deletekey m key)) = (intmap_abs m)(key := None)" by blast+
qed

lemma inc_kept [simp]:
  "inc (snd (insertkey m key v)) = inc m" "inc (snd (caninsertkey m key v)) = inc m"
  "inc (snd (deletekey m key)) = inc m"
  by (simp_all add: insertkey_def caninsertkey_def deletekey_def relink_def push_node_def Let_def
      split: list.split)

text \<open>\<open>freemap\<close> destroys exactly the values of the map, each once.\<close>

lemma fold_fold_concat: "fold (fold g) cs h = fold g (concat cs) h"
  by (induction cs arbitrary: h) simp_all

lemma freemap_concat:
  "freemap m destroy h = fold (\<lambda>e. (case destroy of None \<Rightarrow> nop | Some d \<Rightarrow> d) (snd e)) (concat (hash m)) h"
  by (simp add: freemap_def Let_def fold_fold_concat)

section \<open>Sequences of operations\<close>

text \<open>The calls of the interface and what they answer.\<close>

datatype 'v map_call = Clookup u32 | Cinsert u32 'v | Ccaninsert u32 'v | Cdelete u32

datatype 'v map_answer = Avalue "'v option" | Adone bool

text \<open>A sequence of calls on the table \<open>m\<close> and the objects \<open>h\<close>: the answers, and both afterwards.\<close>

fun table_run :: "'v map_call list \<Rightarrow> ('v, 'h) Intmap \<Rightarrow> 'h \<Rightarrow> 'v map_answer list \<times> ('v, 'h) Intmap \<times> 'h" where
  "table_run [] m h = ([], m, h)"
| "table_run (Clookup k # cs) m h = (let (v, h) = lookupkey m k h; (as, r) = table_run cs m h in (Avalue v # as, r))"
| "table_run (Cinsert k v # cs) m h = (let (ov, m) = insertkey m k v; (as, r) = table_run cs m h in (Avalue ov # as, r))"
| "table_run (Ccaninsert k v # cs) m h = (let (b, m) = caninsertkey m k v; (as, r) = table_run cs m h in (Adone b # as, r))"
| "table_run (Cdelete k # cs) m h = (let (ov, m) = deletekey m k; (as, r) = table_run cs m h in (Avalue ov # as, r))"

text \<open>The same calls on a finite map \<open>t\<close>; a value that is looked up is passed to \<open>grab\<close>.\<close>

fun map_run :: "('v \<Rightarrow> 'h \<Rightarrow> 'h) \<Rightarrow> 'v map_call list \<Rightarrow> (u32 \<Rightarrow> 'v option) \<Rightarrow> 'h \<Rightarrow> 'v map_answer list \<times> (u32 \<Rightarrow> 'v option) \<times> 'h" where
  "map_run grab [] t h = ([], t, h)"
| "map_run grab (Clookup k # cs) t h = (let (as, r) = map_run grab cs t (case t k of None \<Rightarrow> h | Some v \<Rightarrow> grab v h) in (Avalue (t k) # as, r))"
| "map_run grab (Cinsert k v # cs) t h = (let (as, r) = map_run grab cs (t(k \<mapsto> v)) h in (Avalue (t k) # as, r))"
| "map_run grab (Ccaninsert k v # cs) t h = (let (as, r) = map_run grab cs (if t k = None then t(k \<mapsto> v) else t) h in (Adone (t k = None) # as, r))"
| "map_run grab (Cdelete k # cs) t h = (let (as, r) = map_run grab cs (t(k := None)) h in (Avalue (t k) # as, r))"

section \<open>The interface the pools use\<close>

locale key_map =
  fixes empty :: "'m" and lookup :: "'m \<Rightarrow> u32 \<Rightarrow> 'v option"
    and insert_new :: "'m \<Rightarrow> u32 \<Rightarrow> 'v \<Rightarrow> bool \<times> 'm"
    and delete :: "'m \<Rightarrow> u32 \<Rightarrow> 'v option \<times> 'm"
    and ok :: "'m \<Rightarrow> bool"
  assumes ok_empty: "ok empty" and lookup_empty: "lookup empty k = None"
    and ok_insert: "ok m \<Longrightarrow> ok (snd (insert_new m k v))"
    and insert_iff: "ok m \<Longrightarrow> fst (insert_new m k v) \<longleftrightarrow> lookup m k = None"
    and lookup_insert: "ok m \<Longrightarrow> lookup m k = None
      \<Longrightarrow> lookup (snd (insert_new m k v)) j = (if j = k then Some v else lookup m j)"
    and insert_dup: "ok m \<Longrightarrow> lookup m k \<noteq> None \<Longrightarrow> snd (insert_new m k v) = m"
    and ok_delete: "ok m \<Longrightarrow> ok (snd (delete m k))"
    and delete_value: "ok m \<Longrightarrow> fst (delete m k) = lookup m k"
    and lookup_delete: "ok m \<Longrightarrow> lookup (snd (delete m k)) j = (if j = k then None else lookup m j)"
begin

text \<open>Allocating an identifier and releasing it restores every lookup.\<close>

lemma delete_insert:
  assumes "ok m" and "fst (insert_new m k v)"
  shows "fst (delete (snd (insert_new m k v)) k) = Some v"
    and "lookup (snd (delete (snd (insert_new m k v)) k)) j = lookup m j"
  using assms by (simp_all add: ok_insert insert_iff delete_value lookup_insert lookup_delete)

text \<open>An identifier in use cannot be allocated again until it is released.\<close>

lemma no_reuse:
  assumes "ok m" and "lookup m k = Some w"
  shows "\<not> fst (insert_new m k v)" and "fst (insert_new (snd (delete m k)) k v)"
  using assms by (simp_all add: insert_iff ok_delete lookup_delete)

lemma insert_new_map: "ok m \<Longrightarrow> lookup (snd (insert_new m k v)) = (if lookup m k = None then (lookup m)(k \<mapsto> v) else lookup m)"
  by (cases "lookup m k = None") (auto simp: fun_eq_iff lookup_insert insert_dup)

lemma delete_map: "ok m \<Longrightarrow> lookup (snd (delete m k)) = (lookup m)(k := None)"
  by (auto simp: fun_eq_iff lookup_delete)

end

text \<open>The whole interface: an insertion that replaces, and a lookup that passes the value to \<open>grab\<close>.\<close>

locale counted_map = key_map empty lookup insert_new delete ok
  for empty :: "'m" and lookup :: "'m \<Rightarrow> u32 \<Rightarrow> 'v option" and insert_new delete ok +
  fixes find :: "'m \<Rightarrow> u32 \<Rightarrow> 'h \<Rightarrow> 'v option \<times> 'h" and replace :: "'m \<Rightarrow> u32 \<Rightarrow> 'v \<Rightarrow> 'v option \<times> 'm"
    and grab :: "'m \<Rightarrow> 'v \<Rightarrow> 'h \<Rightarrow> 'h"
    and run :: "'v map_call list \<Rightarrow> 'm \<Rightarrow> 'h \<Rightarrow> 'v map_answer list \<times> 'm \<times> 'h"
  assumes find_value: "ok m \<Longrightarrow> find m k h = (lookup m k, case lookup m k of None \<Rightarrow> h | Some v \<Rightarrow> grab m v h)"
    and ok_replace: "ok m \<Longrightarrow> ok (snd (replace m k v))"
    and replace_value: "ok m \<Longrightarrow> fst (replace m k v) = lookup m k"
    and replace_map: "ok m \<Longrightarrow> lookup (snd (replace m k v)) = (lookup m)(k \<mapsto> v)"
    and grab_kept: "grab (snd (insert_new m k v)) = grab m" "grab (snd (delete m k)) = grab m" "grab (snd (replace m k v)) = grab m"
    and run_Nil: "run [] m h = ([], m, h)"
    and run_lookup: "run (Clookup k # cs) m h = (let (v, h) = find m k h; (as, r) = run cs m h in (Avalue v # as, r))"
    and run_insert: "run (Cinsert k v # cs) m h = (let (ov, m) = replace m k v; (as, r) = run cs m h in (Avalue ov # as, r))"
    and run_caninsert: "run (Ccaninsert k v # cs) m h = (let (b, m) = insert_new m k v; (as, r) = run cs m h in (Adone b # as, r))"
    and run_delete: "run (Cdelete k # cs) m h = (let (ov, m) = delete m k; (as, r) = run cs m h in (Avalue ov # as, r))"
begin

text \<open>Any sequence of calls answers as the finite map does, leaves the objects as it does, and ends in a table of that map.\<close>

lemma run_simulates:
  "ok m \<Longrightarrow> \<exists>as m' h'. run cs m h = (as, m', h') \<and> map_run (grab m) cs (lookup m) h = (as, lookup m', h') \<and> ok m' \<and> grab m' = grab m"
proof (induction cs arbitrary: m h)
  case Nil
  then show ?case by (simp add: run_Nil)
next
  case (Cons c cs)
  show ?case
  proof (cases c)
    case (Clookup k)
    obtain as m' h' where "run cs m (snd (find m k h)) = (as, m', h')" "map_run (grab m) cs (lookup m) (snd (find m k h)) = (as, lookup m', h')" "ok m'" "grab m' = grab m"
      using Cons.IH [OF Cons.prems] by blast
    then show ?thesis using Clookup find_value [OF Cons.prems, of k h] by (simp add: run_lookup Let_def case_prod_beta)
  next
    case (Cinsert k v)
    obtain as m' h' where "run cs (snd (replace m k v)) h = (as, m', h')" "map_run (grab m) cs ((lookup m)(k \<mapsto> v)) h = (as, lookup m', h')" "ok m'" "grab m' = grab m"
      using Cons.IH [OF ok_replace [OF Cons.prems, of k v]] unfolding grab_kept replace_map [OF Cons.prems] by blast
    then show ?thesis using Cinsert replace_value [OF Cons.prems, of k v] by (simp add: run_insert Let_def case_prod_beta)
  next
    case (Ccaninsert k v)
    obtain as m' h' where "run cs (snd (insert_new m k v)) h = (as, m', h')" "map_run (grab m) cs (if lookup m k = None then (lookup m)(k \<mapsto> v) else lookup m) h = (as, lookup m', h')" "ok m'" "grab m' = grab m"
      using Cons.IH [OF ok_insert [OF Cons.prems, of k v]] unfolding grab_kept insert_new_map [OF Cons.prems] by blast
    then show ?thesis using Ccaninsert insert_iff [OF Cons.prems, of k v] by (simp add: run_caninsert Let_def case_prod_beta)
  next
    case (Cdelete k)
    obtain as m' h' where "run cs (snd (delete m k)) h = (as, m', h')" "map_run (grab m) cs ((lookup m)(k := None)) h = (as, lookup m', h')" "ok m'" "grab m' = grab m"
      using Cons.IH [OF ok_delete [OF Cons.prems, of k]] unfolding grab_kept delete_map [OF Cons.prems] by blast
    then show ?thesis using Cdelete delete_value [OF Cons.prems, of k] by (simp add: run_delete Let_def case_prod_beta)
  qed
qed

end

interpretation im: counted_map "allocmap i :: ('v, 'h) Intmap" intmap_abs caninsertkey deletekey intmap_ok lookupkey insertkey inc table_run
proof
  fix m :: "('v, 'h) Intmap" and k v
  assume "intmap_ok m" and "intmap_abs m k \<noteq> None"
  then show "snd (caninsertkey m k v) = m"
    using llookup_Nil [of m k] by (auto simp: caninsertkey_def split: list.split)
qed (simp_all add: allocmap_refines caninsertkey_refines deletekey_refines insertkey_refines lookupkey_refines)

text \<open>The nodes of a table are a list of the map, each key once.\<close>

lemma nodes_are_the_map:
  assumes "intmap_ok m"
  shows "distinct (map fst (concat (hash m)))" and "map_of (concat (hash m)) = intmap_abs m"
proof -
  have len: "length (hash m) = 128" by (rule intmap_okD(1) [OF assms])
  have at: "\<exists>i < 128. c = hash m ! i" if "c \<in> set (hash m)" for c using that len by (auto simp: in_set_conv_nth)
  have node: "e \<in> set (concat (hash m)) \<longleftrightarrow> e \<in> set (hash m ! hashid (fst e))" for e
  proof
    assume "e \<in> set (concat (hash m))"
    then obtain c where c: "c \<in> set (hash m)" "e \<in> set c" by auto
    then obtain i where "i < 128" "c = hash m ! i" using at by blast
    then show "e \<in> set (hash m ! hashid (fst e))" using c(2) intmap_okD(3) [OF assms] by auto
  next
    assume "e \<in> set (hash m ! hashid (fst e))"
    then show "e \<in> set (concat (hash m))" using len nth_mem [of "hashid (fst e)" "hash m"] by auto
  qed
  have "distinct (concat (map (map fst) (take n (hash m)))) \<and> (\<forall>k \<in> set (concat (map (map fst) (take n (hash m)))). hashid k < n)" if "n \<le> 128" for n
    using that
  proof (induction n)
    case (Suc n)
    have n: "n < 128" "n < length (hash m)" using Suc.prems len by simp_all
    have t: "take (Suc n) (hash m) = take n (hash m) @ [hash m ! n]" by (rule take_Suc_conv_app_nth [OF n(2)])
    have h: "hashid k = n" if "k \<in> set (map fst (hash m ! n))" for k using that intmap_okD(3) [OF assms n(1)] by auto
    then show ?case using Suc.IH Suc.prems intmap_okD(2) [OF assms n(1)] unfolding t by fastforce
  qed simp
  from this [of 128] show d: "distinct (map fst (concat (hash m)))" using len by (simp add: map_concat)
  show "map_of (concat (hash m)) = intmap_abs m"
  proof
    fix k
    show "map_of (concat (hash m)) k = intmap_abs m k"
    proof (cases "intmap_abs m k")
      case None
      then have "k \<notin> fst ` set (hash m ! hashid k)" by (simp add: intmap_abs_def map_of_eq_None_iff)
      then have "k \<notin> fst ` set (concat (hash m))" using node by force
      then show ?thesis using None by (metis map_of_eq_None_iff)
    next
      case (Some v)
      then have "(k, v) \<in> set (concat (hash m))" using node [of "(k, v)"] by (auto simp: intmap_abs_def dest: map_of_SomeD)
      then show ?thesis using Some d by simp
    qed
  qed
qed

end
