(* ===== verification/Pools.thy ===== *)
theory Pools
  imports FileTree Intmap
begin

text \<open>
  The objects of a server (\<^verbatim>\<open>9p.h\<close>) and \<^verbatim>\<open>lib9p/fid.c\<close>: fids, requests, the two pools that
  map identifiers to them, and the fid operations.  Fids and requests live in stores of their
  own, \<^const>\<open>None\<close> at an address that is not allocated.

  The functions a program installs in its \<open>Srv\<close> are not part of the library: they are the
  fields of \<open>Handlers\<close>, arguments of every definition that calls them.  Such a function either
  calls \<open>respond\<close> on its request before it returns (\<open>Reply\<close>) or arranges for that to happen
  later (\<open>Later\<close>).  \<open>h_snprint\<close> stands for the formatting of error messages.  The state
  \<open>sv_aux\<close> belongs to the program.
\<close>

section \<open>Fids, requests and servers\<close>

record Fid =
  fd_fid :: u32
  fd_omode :: byte
  fd_file :: "addr option"
  fd_uid :: "cstr option"
  fd_qid :: Qid
  fd_aux :: nat
  fd_rdir :: "Readdir option"
  fd_ref :: int
  fd_diroffset :: u64
  fd_dirindex :: int

record Req =
  rq_tag :: u32
  rq_aux :: nat
  rq_ifcall :: Fcall
  rq_ofcall :: Fcall
  rq_d :: Dir
  rq_oldreq :: "addr option"
  rq_fid :: "addr option"
  rq_afid :: "addr option"
  rq_newfid :: "addr option"
  rq_ref :: int
  rq_pool :: bool
  rq_type :: byte
  rq_responded :: bool
  rq_error :: "cstr option"
  rq_flush :: "addr list"

record 'x Srv =
  sv_tree :: bool
  sv_fs :: fs
  sv_fids :: "addr \<Rightarrow> Fid option"
  sv_reqs :: "addr \<Rightarrow> Req option"
  sv_next :: addr
  sv_fpool :: "(addr, addr \<Rightarrow> Fid option) Intmap"
  sv_rpool :: "(addr, addr \<Rightarrow> Req option) Intmap"
  sv_msize :: u32
  sv_rbuf :: "block option"
  sv_wbuf :: "block option"
  sv_out :: "block list"
  sv_aux :: 'x

datatype reply = Later | Reply "cstr option"

datatype fmtarg = FStr cstr | FInt int

type_synonym 'x callback = "addr \<Rightarrow> 'x Srv \<Rightarrow> (reply \<times> 'x Srv) option"

record 'x Handlers =
  h_attach :: "'x callback option"
  h_auth :: "'x callback option"
  h_open :: "'x callback option"
  h_create :: "'x callback option"
  h_read :: "'x callback option"
  h_write :: "'x callback option"
  h_remove :: "'x callback option"
  h_flush :: "'x callback option"
  h_stat :: "'x callback option"
  h_wstat :: "'x callback option"
  h_walk :: "'x callback option"
  h_clone :: "(addr \<Rightarrow> addr \<Rightarrow> 'x Srv \<Rightarrow> (cstr option \<times> 'x Srv) option) option"
  h_walk1 :: "(addr \<Rightarrow> cstr \<Rightarrow> 'x Srv \<Rightarrow> (cstr option \<times> Qid \<times> 'x Srv) option) option"
  h_destroyfid :: "(addr \<Rightarrow> 'x Srv \<Rightarrow> 'x Srv) option"
  h_destroyreq :: "(addr \<Rightarrow> 'x Srv \<Rightarrow> 'x Srv) option"
  h_end :: "('x Srv \<Rightarrow> 'x Srv) option"
  h_snprint :: "string \<Rightarrow> fmtarg list \<Rightarrow> cstr"
  h_argv0 :: cstr

definition zero_fid :: Fid where
  "zero_fid = \<lparr>fd_fid = 0, fd_omode = 0, fd_file = None, fd_uid = None, fd_qid = zero_qid, fd_aux = 0,
     fd_rdir = None, fd_ref = 0, fd_diroffset = 0, fd_dirindex = 0\<rparr>"

definition zero_req :: Req where
  "zero_req = \<lparr>rq_tag = 0, rq_aux = 0, rq_ifcall = zero_fcall, rq_ofcall = zero_fcall, rq_d = zero_dir,
     rq_oldreq = None, rq_fid = None, rq_afid = None, rq_newfid = None, rq_ref = 0, rq_pool = False,
     rq_type = 0, rq_responded = False, rq_error = None, rq_flush = []\<rparr>"

text \<open>Writing to a fid or a request, a fault when there is none at the address.\<close>

definition put_fid :: "addr \<Rightarrow> Fid \<Rightarrow> 'x Srv \<Rightarrow> 'x Srv" where
  "put_fid a f s = s\<lparr>sv_fids := (sv_fids s)(a \<mapsto> f)\<rparr>"

definition put_req :: "addr \<Rightarrow> Req \<Rightarrow> 'x Srv \<Rightarrow> 'x Srv" where
  "put_req a r s = s\<lparr>sv_reqs := (sv_reqs s)(a \<mapsto> r)\<rparr>"

definition upd_fid :: "addr \<Rightarrow> (Fid \<Rightarrow> Fid) \<Rightarrow> 'x Srv \<Rightarrow> 'x Srv option" where
  "upd_fid a g s = do {
     f \<leftarrow> sv_fids s a;
     Some (put_fid a (g f) s)
   }"

definition upd_req :: "addr \<Rightarrow> (Req \<Rightarrow> Req) \<Rightarrow> 'x Srv \<Rightarrow> 'x Srv option" where
  "upd_req a g s = do {
     r \<leftarrow> sv_reqs s a;
     Some (put_req a (g r) s)
   }"

text \<open>An operation of the file tree, inside a server.\<close>

definition in_fs :: "(fs \<Rightarrow> fs option) \<Rightarrow> 'x Srv \<Rightarrow> 'x Srv option" where
  "in_fs g s = do {
     t \<leftarrow> g (sv_fs s);
     Some (s\<lparr>sv_fs := t\<rparr>)
   }"

section \<open>The fid pool\<close>

definition incfidref :: "addr \<Rightarrow> (addr \<Rightarrow> Fid option) \<Rightarrow> addr \<Rightarrow> Fid option" where
  "incfidref a h = h(a := map_option (\<lambda>f. f\<lparr>fd_ref := fd_ref f + 1\<rparr>) (h a))"

definition allocfidpool :: "(addr, addr \<Rightarrow> Fid option) Intmap" where
  "allocfidpool = allocmap (Some incfidref)"

definition freefidpool :: "'x Handlers \<Rightarrow> 'x Srv \<Rightarrow> 'x Srv" where
  "freefidpool h s = freemap (sv_fpool s) (h_destroyfid h) s"

definition closefid :: "'x Handlers \<Rightarrow> addr \<Rightarrow> 'x Srv \<Rightarrow> 'x Srv option" where
  "closefid h a s = do {
     f \<leftarrow> sv_fids s a;
     let f = f\<lparr>fd_ref := fd_ref f - 1\<rparr>;
     let s = put_fid a f s;
     if fd_ref f \<noteq> 0 then Some s
     else do {
       s \<leftarrow> (case fd_rdir f of None \<Rightarrow> Some s | Some r \<Rightarrow> in_fs (closedirfile r) s);
       let s = (case h_destroyfid h of None \<Rightarrow> s | Some d \<Rightarrow> d a s);
       f \<leftarrow> sv_fids s a;
       s \<leftarrow> (case fd_file f of None \<Rightarrow> Some s | Some x \<Rightarrow> in_fs (closefile x) s);
       Some (s\<lparr>sv_fids := (sv_fids s)(a := None)\<rparr>)
     }
   }"

definition allocfid :: "'x Handlers \<Rightarrow> u32 \<Rightarrow> 'x Srv \<Rightarrow> (addr option \<times> 'x Srv) option" where
  "allocfid h fid s = do {
     let a = sv_next s;
     let s = put_fid a (zero_fid\<lparr>fd_fid := fid, fd_omode := - 1\<rparr>) (s\<lparr>sv_next := a + 1\<rparr>);
     let s = s\<lparr>sv_fids := incfidref a (sv_fids s)\<rparr>;
     let s = s\<lparr>sv_fids := incfidref a (sv_fids s)\<rparr>;
     (case caninsertkey (sv_fpool s) fid a of
        (False, m) \<Rightarrow> do {
          s \<leftarrow> closefid h a s;
          s \<leftarrow> closefid h a s;
          Some (None, s)
        }
      | (True, m) \<Rightarrow> Some (Some a, s\<lparr>sv_fpool := m\<rparr>))
   }"

definition lookupfid :: "u32 \<Rightarrow> 'x Srv \<Rightarrow> addr option \<times> 'x Srv" where
  "lookupfid fid s = (case lookupkey (sv_fpool s) fid (sv_fids s) of
     (r, h) \<Rightarrow> (r, s\<lparr>sv_fids := h\<rparr>))"

definition removefid :: "u32 \<Rightarrow> 'x Srv \<Rightarrow> addr option \<times> 'x Srv" where
  "removefid fid s = (case deletekey (sv_fpool s) fid of
     (r, m) \<Rightarrow> (r, s\<lparr>sv_fpool := m\<rparr>))"

text \<open>\<open>closefid(removefid(pool, fid))\<close>, which dereferences nil when the fid is not there.\<close>

definition drop_fid :: "'x Handlers \<Rightarrow> u32 \<Rightarrow> 'x Srv \<Rightarrow> 'x Srv option" where
  "drop_fid h fid s = (case removefid fid s of (r, s) \<Rightarrow> do {
     a \<leftarrow> r;
     closefid h a s
   })"

section \<open>The request pool\<close>

text \<open>\<open>closereq\<close> calls \<open>respond\<close> and so is with the server.\<close>

definition increqref :: "addr \<Rightarrow> (addr \<Rightarrow> Req option) \<Rightarrow> addr \<Rightarrow> Req option" where
  "increqref a h = h(a := map_option (\<lambda>r. r\<lparr>rq_ref := rq_ref r + 1\<rparr>) (h a))"

definition allocreqpool :: "(addr, addr \<Rightarrow> Req option) Intmap" where
  "allocreqpool = allocmap (Some increqref)"

definition freereqpool :: "'x Handlers \<Rightarrow> 'x Srv \<Rightarrow> 'x Srv" where
  "freereqpool h s = freemap (sv_rpool s) (h_destroyreq h) s"

definition lookupreq :: "u32 \<Rightarrow> 'x Srv \<Rightarrow> addr option \<times> 'x Srv" where
  "lookupreq tag s = (case lookupkey (sv_rpool s) tag (sv_reqs s) of
     (r, h) \<Rightarrow> (r, s\<lparr>sv_reqs := h\<rparr>))"

definition removereq :: "u32 \<Rightarrow> 'x Srv \<Rightarrow> addr option \<times> 'x Srv" where
  "removereq tag s = (case deletekey (sv_rpool s) tag of
     (r, m) \<Rightarrow> (r, s\<lparr>sv_rpool := m\<rparr>))"

end
