(* ===== verification/Srv.thy ===== *)
theory Srv
  imports Pools
begin

text \<open>
  \<^verbatim>\<open>lib9p/srv.c\<close>, the rest of \<^verbatim>\<open>req.c\<close>, and \<^verbatim>\<open>read9pmsg\<close>: the loop that reads a request,
  dispatches it, and sends the reply.  Each \<open>s\<close>-function of the source ends by calling
  \<open>respond\<close>, by calling a function of the program, or both; here it returns which, and
  \<open>dispatch\<close> makes the call.  Each \<open>r\<close>-function is called by \<open>respond\<close> before the reply is sent.
  \<open>abort\<close>, \<open>sysfatal\<close> and a failed assertion end the server and are faults.
  The messages written to the connection are collected in \<open>sv_out\<close>; writing is assumed to
  succeed.  Debugging output (\<open>chatty9p\<close>) is left out.
\<close>

section \<open>Error messages\<close>

definition Ebadoffset :: cstr where "Ebadoffset = ascii ''bad offset''"
definition Ebotch :: cstr where "Ebotch = ascii ''9P protocol botch''"
definition Ecreatenondir :: cstr where "Ecreatenondir = ascii ''create in non-directory''"
definition Edupfid :: cstr where "Edupfid = ascii ''duplicate fid''"
definition Eduptag :: cstr where "Eduptag = ascii ''duplicate tag''"
definition Eisdir :: cstr where "Eisdir = ascii ''is a directory''"
definition Enocreate :: cstr where "Enocreate = ascii ''create prohibited''"
definition Enoremove :: cstr where "Enoremove = ascii ''remove prohibited''"
definition Enostat :: cstr where "Enostat = ascii ''stat prohibited''"
definition Enotfound :: cstr where "Enotfound = ascii ''file not found''"
definition Enowstat :: cstr where "Enowstat = ascii ''wstat prohibited''"
definition Eperm :: cstr where "Eperm = ascii ''permission denied''"
definition Eunknownfid :: cstr where "Eunknownfid = ascii ''unknown fid''"
definition Ebaddir :: cstr where "Ebaddir = ascii ''bad directory in wstat''"
definition Ewalknodir :: cstr where "Ewalknodir = ascii ''walk in non-directory''"

abbreviation (input) OREAD :: byte where "OREAD \<equiv> 0"
abbreviation (input) OWRITE :: byte where "OWRITE \<equiv> 1"
abbreviation (input) ORDWR :: byte where "ORDWR \<equiv> 2"
abbreviation (input) OEXEC :: byte where "OEXEC \<equiv> 3"
abbreviation (input) OTRUNC :: byte where "OTRUNC \<equiv> 16"
abbreviation (input) ORCLOSE :: byte where "ORCLOSE \<equiv> 64"
abbreviation (input) AEXEC :: u32 where "AEXEC \<equiv> 1"
abbreviation (input) AWRITE :: u32 where "AWRITE \<equiv> 2"
abbreviation (input) AREAD :: u32 where "AREAD \<equiv> 4"

section \<open>Shared pieces\<close>

type_synonym 'x handler = "addr \<Rightarrow> 'x Srv \<Rightarrow> (reply \<times> 'x Srv) option"

abbreviation (input) fails :: "cstr \<Rightarrow> 'x Srv \<Rightarrow> (reply \<times> 'x Srv) option" where
  "fails e s \<equiv> Some (Reply (Some e), s)"

abbreviation (input) succeeds :: "'x Srv \<Rightarrow> (reply \<times> 'x Srv) option" where
  "succeeds s \<equiv> Some (Reply None, s)"

definition setfcallerror :: "Fcall \<Rightarrow> cstr \<Rightarrow> Fcall" where
  "setfcallerror f err = f\<lparr>f_ename := Some err, f_type := Rerror\<rparr>"

definition changemsize :: "u32 \<Rightarrow> 'x Srv \<Rightarrow> 'x Srv" where
  "changemsize msize s = (if sv_rbuf s \<noteq> None \<and> sv_wbuf s \<noteq> None \<and> sv_msize s = msize then s
     else s\<lparr>sv_msize := msize, sv_rbuf := Some (replicate (unat msize) 0),
       sv_wbuf := Some (replicate (unat msize) 0)\<rparr>)"

text \<open>\<open>r->fid = lookupfid(srv->fpool, r->ifcall.fid)\<close>, at the head of most handlers: what follows
  gets the request and the fid found.\<close>

definition with_fid :: "addr \<Rightarrow> 'x Srv \<Rightarrow> (Req \<Rightarrow> addr \<Rightarrow> Fid \<Rightarrow> 'x Srv \<Rightarrow> (reply \<times> 'x Srv) option)
    \<Rightarrow> (reply \<times> 'x Srv) option" where
  "with_fid r s k = do {
     q \<leftarrow> sv_reqs s r;
     let (fo, s) = lookupfid (f_fid (rq_ifcall q)) s;
     let q = q\<lparr>rq_fid := fo\<rparr>;
     let s = put_req r q s;
     (case fo of
        None \<Rightarrow> fails Eunknownfid s
      | Some a \<Rightarrow> do {
          f \<leftarrow> sv_fids s a;
          k q a f s
        })
   }"

section \<open>Version, authentication, attach\<close>

definition sversion :: "'x Handlers \<Rightarrow> 'x handler" where
  "sversion h r s = do {
     q \<leftarrow> sv_reqs s r;
     v \<leftarrow> f_version (rq_ifcall q);
     if take 2 v \<noteq> ascii ''9P'' then do {
       s \<leftarrow> upd_req r (\<lambda>q. q\<lparr>rq_ofcall := (rq_ofcall q)\<lparr>f_version := Some (ascii ''unknown'')\<rparr>\<rparr>) s;
       succeeds s
     } else do {
       s \<leftarrow> upd_req r (\<lambda>q. q\<lparr>rq_ofcall := (rq_ofcall q)\<lparr>f_version := Some (ascii ''9P2000''),
         f_msize := f_msize (rq_ifcall q)\<rparr>\<rparr>) s;
       succeeds s
     }
   }"

definition rversion :: "addr \<Rightarrow> cstr option \<Rightarrow> 'x Srv \<Rightarrow> 'x Srv option" where
  "rversion r error s = (if error \<noteq> None then None
     else do {
       q \<leftarrow> sv_reqs s r;
       Some (changemsize (f_msize (rq_ofcall q)) s)
     })"

definition sauth :: "'x Handlers \<Rightarrow> 'x handler" where
  "sauth h r s = do {
     q \<leftarrow> sv_reqs s r;
     (fo, s) \<leftarrow> allocfid h (f_afid (rq_ifcall q)) s;
     s \<leftarrow> upd_req r (\<lambda>q. q\<lparr>rq_afid := fo\<rparr>) s;
     (case fo of
        None \<Rightarrow> fails Edupfid s
      | Some a \<Rightarrow> (case h_auth h of
            Some cb \<Rightarrow> cb r s
          | None \<Rightarrow> fails (h_snprint h ''%s: authentication not required'' [FStr (h_argv0 h)]) s))
   }"

definition rauth :: "'x Handlers \<Rightarrow> addr \<Rightarrow> cstr option \<Rightarrow> 'x Srv \<Rightarrow> 'x Srv option" where
  "rauth h r error s = do {
     q \<leftarrow> sv_reqs s r;
     (case rq_afid q of
        Some a \<Rightarrow> if error \<noteq> None then do {
            f \<leftarrow> sv_fids s a;
            drop_fid h (fd_fid f) s
          } else Some s
      | None \<Rightarrow> Some s)
   }"

definition sattach :: "'x Handlers \<Rightarrow> 'x handler" where
  "sattach h r s = do {
     q \<leftarrow> sv_reqs s r;
     (fo, s) \<leftarrow> allocfid h (f_fid (rq_ifcall q)) s;
     s \<leftarrow> upd_req r (\<lambda>q. q\<lparr>rq_fid := fo\<rparr>) s;
     (case fo of
        None \<Rightarrow> fails Edupfid s
      | Some a \<Rightarrow> do {
          s \<leftarrow> upd_req r (\<lambda>q. q\<lparr>rq_afid := None\<rparr>) s;
          let (afo, s) = (if f_afid (rq_ifcall q) \<noteq> NOFID then lookupfid (f_afid (rq_ifcall q)) s else (None, s));
          s \<leftarrow> upd_req r (\<lambda>q. q\<lparr>rq_afid := afo\<rparr>) s;
          if f_afid (rq_ifcall q) \<noteq> NOFID \<and> afo = None then fails Eunknownfid s
          else do {
            u \<leftarrow> f_uname (rq_ifcall q);
            s \<leftarrow> upd_fid a (\<lambda>f. f\<lparr>fd_uid := Some u\<rparr>) s;
            s \<leftarrow> (if sv_tree s then do {
                let root = fs_root (sv_fs s);
                s \<leftarrow> upd_fid a (\<lambda>f. f\<lparr>fd_file := Some root\<rparr>) s;
                s \<leftarrow> in_fs (incref_file root) s;
                x \<leftarrow> fs_files (sv_fs s) root;
                let qd = d_qid (fl_dir x);
                s \<leftarrow> upd_req r (\<lambda>q. q\<lparr>rq_ofcall := (rq_ofcall q)\<lparr>f_qid := qd\<rparr>\<rparr>) s;
                upd_fid a (\<lambda>f. f\<lparr>fd_qid := qd\<rparr>) s
              } else Some s);
            (case h_attach h of Some cb \<Rightarrow> cb r s | None \<Rightarrow> succeeds s)
          }
        })
   }"

definition rattach :: "'x Handlers \<Rightarrow> addr \<Rightarrow> cstr option \<Rightarrow> 'x Srv \<Rightarrow> 'x Srv option" where
  "rattach h r error s = do {
     q \<leftarrow> sv_reqs s r;
     (case rq_fid q of
        Some a \<Rightarrow> if error \<noteq> None then do {
            f \<leftarrow> sv_fids s a;
            drop_fid h (fd_fid f) s
          } else Some s
      | None \<Rightarrow> Some s)
   }"

definition sflush :: "'x Handlers \<Rightarrow> 'x handler" where
  "sflush h r s = do {
     q \<leftarrow> sv_reqs s r;
     let (old, s) = lookupreq (ucast (f_oldtag (rq_ifcall q))) s;
     s \<leftarrow> upd_req r (\<lambda>q. q\<lparr>rq_oldreq := old\<rparr>) s;
     if old = None \<or> old = Some r then succeeds s
     else (case h_flush h of Some cb \<Rightarrow> cb r s | None \<Rightarrow> succeeds s)
   }"

section \<open>Walk\<close>

text \<open>The loop of \<open>filewalk\<close>; it returns the file reached, if any, and the number of elements
  walked.\<close>

fun filewalk_loop :: "cstr option list \<Rightarrow> nat \<Rightarrow> addr \<Rightarrow> Qid list \<Rightarrow> fs
    \<Rightarrow> (addr option \<times> nat \<times> Qid list \<times> fs) option" where
  "filewalk_loop [] i f wqid t = Some (Some f, i, wqid, t)"
| "filewalk_loop (w # ws) i f wqid t = do {
     name \<leftarrow> w;
     (fo, t) \<leftarrow> walkfile f name t;
     (case fo of
        None \<Rightarrow> Some (None, i, wqid, t)
      | Some f \<Rightarrow> do {
          x \<leftarrow> fs_files t f;
          if i < length wqid then filewalk_loop ws (i + 1) f (wqid[i := d_qid (fl_dir x)]) t
          else None
        })
   }"

definition filewalk :: "'x handler" where
  "filewalk r s = do {
     q \<leftarrow> sv_reqs s r;
     a \<leftarrow> rq_fid q;
     fd \<leftarrow> sv_fids s a;
     f \<leftarrow> fd_file fd;
     t \<leftarrow> incref_file f (sv_fs s);
     (fo, i, wqid, t) \<leftarrow> filewalk_loop (take (unat (f_nwname (rq_ifcall q))) (f_wname (rq_ifcall q))) 0 f
        (f_wqid (rq_ofcall q)) t;
     let s = s\<lparr>sv_fs := t\<rparr>;
     s \<leftarrow> upd_req r (\<lambda>q. q\<lparr>rq_ofcall := (rq_ofcall q)\<lparr>f_wqid := wqid, f_nwqid := of_nat i\<rparr>\<rparr>) s;
     s \<leftarrow> (case fo of
         None \<Rightarrow> Some s
       | Some f \<Rightarrow> do {
           n \<leftarrow> rq_newfid q;
           x \<leftarrow> fs_files t f;
           upd_fid n (\<lambda>fd. fd\<lparr>fd_file := Some f, fd_qid := d_qid (fl_dir x)\<rparr>) s
         });
     succeeds s
   }"

text \<open>\<open>walkandclone\<close> with \<open>oldwalk1\<close> and \<open>oldclone\<close>, the one call the library makes of it.\<close>

definition oldwalk1 :: "'x Handlers \<Rightarrow> addr \<Rightarrow> cstr \<Rightarrow> 'x Srv \<Rightarrow> (cstr option \<times> 'x Srv) option" where
  "oldwalk1 h n name s = do {
     cb \<leftarrow> h_walk1 h;
     (e, qd, s) \<leftarrow> cb n name s;
     (case e of
        Some e \<Rightarrow> Some (Some e, s)
      | None \<Rightarrow> do {
          s \<leftarrow> upd_fid n (\<lambda>f. f\<lparr>fd_qid := qd\<rparr>) s;
          Some (None, s)
        })
   }"

definition oldclone :: "'x Handlers \<Rightarrow> addr \<Rightarrow> addr \<Rightarrow> 'x Srv \<Rightarrow> (cstr option \<times> 'x Srv) option" where
  "oldclone h a n s = (case h_clone h of None \<Rightarrow> Some (None, s) | Some cb \<Rightarrow> cb a n s)"

fun walkandclone_loop :: "'x Handlers \<Rightarrow> addr \<Rightarrow> cstr option list \<Rightarrow> nat \<Rightarrow> Qid list \<Rightarrow> 'x Srv
    \<Rightarrow> (cstr option \<times> nat \<times> Qid list \<times> 'x Srv) option" where
  "walkandclone_loop h n [] i wqid s = Some (None, i, wqid, s)"
| "walkandclone_loop h n (w # ws) i wqid s = do {
     name \<leftarrow> w;
     (e, s) \<leftarrow> oldwalk1 h n name s;
     (case e of
        Some e \<Rightarrow> Some (Some e, i, wqid, s)
      | None \<Rightarrow> do {
          f \<leftarrow> sv_fids s n;
          if i < length wqid then walkandclone_loop h n ws (i + 1) (wqid[i := fd_qid f]) s
          else None
        })
   }"

definition walkandclone :: "'x Handlers \<Rightarrow> 'x handler" where
  "walkandclone h r s = do {
     q \<leftarrow> sv_reqs s r;
     a \<leftarrow> rq_fid q;
     n \<leftarrow> rq_newfid q;
     if a = n \<and> unat (f_nwname (rq_ifcall q)) > 1 then
       fails (ascii ''lib9p: unused documented feature not implemented'') s
     else do {
       (e, s) \<leftarrow> (if a \<noteq> n then do {
           f \<leftarrow> sv_fids s a;
           s \<leftarrow> upd_fid n (\<lambda>g. g\<lparr>fd_qid := fd_qid f\<rparr>) s;
           oldclone h a n s
         } else Some (None, s));
       if e \<noteq> None then Some (Reply e, s)
       else do {
         (e, i, wqid, s) \<leftarrow> walkandclone_loop h n
            (take (unat (f_nwname (rq_ifcall q))) (f_wname (rq_ifcall q))) 0 (f_wqid (rq_ofcall q)) s;
         s \<leftarrow> upd_req r (\<lambda>q. q\<lparr>rq_ofcall := (rq_ofcall q)\<lparr>f_wqid := wqid, f_nwqid := of_nat i\<rparr>\<rparr>) s;
         if e \<noteq> None \<and> i = 0 then Some (Reply e, s) else succeeds s
       }
     }
   }"

definition swalk :: "'x Handlers \<Rightarrow> 'x handler" where
  "swalk h r s = with_fid r s (\<lambda>q a f s.
     if fd_omode f \<noteq> - 1 then fails (ascii ''cannot clone open fid'') s
     else if f_nwname (rq_ifcall q) \<noteq> 0 \<and> q_type (fd_qid f) AND QTDIR = 0 then fails Ewalknodir s
     else do {
       (no, s) \<leftarrow> (if f_fid (rq_ifcall q) \<noteq> f_newfid (rq_ifcall q)
           then allocfid h (f_newfid (rq_ifcall q)) s
           else do {
             s \<leftarrow> upd_fid a (\<lambda>f. f\<lparr>fd_ref := fd_ref f + 1\<rparr>) s;
             Some (Some a, s)
           });
       s \<leftarrow> upd_req r (\<lambda>q. q\<lparr>rq_newfid := no\<rparr>) s;
       (case no of
          None \<Rightarrow> fails Edupfid s
        | Some n \<Rightarrow> do {
            s \<leftarrow> (if f_fid (rq_ifcall q) \<noteq> f_newfid (rq_ifcall q) then do {
                u \<leftarrow> fd_uid f;
                upd_fid n (\<lambda>g. g\<lparr>fd_uid := Some u\<rparr>) s
              } else Some s);
            if fd_file f \<noteq> None then filewalk r s
            else if h_walk1 h \<noteq> None then walkandclone h r s
            else (case h_walk h of Some cb \<Rightarrow> cb r s | None \<Rightarrow> None)
          })
     })"

definition rwalk :: "'x Handlers \<Rightarrow> addr \<Rightarrow> cstr option \<Rightarrow> 'x Srv \<Rightarrow> 'x Srv option" where
  "rwalk h r error s = do {
     q \<leftarrow> sv_reqs s r;
     if error \<noteq> None \<or> f_nwqid (rq_ofcall q) < f_nwname (rq_ifcall q) then do {
       s \<leftarrow> (if f_fid (rq_ifcall q) \<noteq> f_newfid (rq_ifcall q) then
           (case rq_newfid q of
              Some n \<Rightarrow> do {
                f \<leftarrow> sv_fids s n;
                drop_fid h (fd_fid f) s
              }
            | None \<Rightarrow> Some s)
         else Some s);
       if f_nwqid (rq_ofcall q) = 0 then
         (if error = None \<and> f_nwname (rq_ifcall q) \<noteq> 0
          then upd_req r (\<lambda>q. q\<lparr>rq_error := Some Enotfound\<rparr>) s else Some s)
       else upd_req r (\<lambda>q. q\<lparr>rq_error := None\<rparr>) s
     } else do {
       n \<leftarrow> rq_newfid q;
       if f_nwqid (rq_ofcall q) = 0 then do {
         a \<leftarrow> rq_fid q;
         f \<leftarrow> sv_fids s a;
         upd_fid n (\<lambda>g. g\<lparr>fd_qid := fd_qid f\<rparr>) s
       } else do {
         let i = unat (f_nwqid (rq_ofcall q)) - 1;
         if i < length (f_wqid (rq_ofcall q))
         then upd_fid n (\<lambda>g. g\<lparr>fd_qid := f_wqid (rq_ofcall q) ! i\<rparr>) s
         else None
       }
     }
   }"

section \<open>Open and create\<close>

definition open_perm :: "byte \<Rightarrow> u32" where
  "open_perm mode = (let m = mode AND 3;
       p = (if m = OREAD then AREAD else if m = OWRITE then AWRITE
            else if m = ORDWR then AREAD OR AWRITE else AEXEC)
     in if mode AND OTRUNC \<noteq> 0 then p OR AWRITE else p)"

definition sopen :: "'x Handlers \<Rightarrow> 'x handler" where
  "sopen h r s = with_fid r s (\<lambda>q a f s. let mode = f_mode (rq_ifcall q) in
     if fd_omode f \<noteq> - 1 then fails Ebotch s
     else if q_type (fd_qid f) AND QTDIR \<noteq> 0 \<and> mode AND NOT ORCLOSE \<noteq> OREAD then fails Eisdir s
     else do {
       s \<leftarrow> upd_req r (\<lambda>q. q\<lparr>rq_ofcall := (rq_ofcall q)\<lparr>f_qid := fd_qid f\<rparr>\<rparr>) s;
       let p = open_perm mode;
       if q_type (fd_qid f) AND QTDIR \<noteq> 0 \<and> p \<noteq> AREAD then fails Eperm s
       else do {
         (e, s) \<leftarrow> (case fd_file f of
             None \<Rightarrow> Some (None, s)
           | Some file \<Rightarrow> do {
               x \<leftarrow> fs_files (sv_fs s) file;
               u \<leftarrow> fd_uid f;
               perm \<leftarrow> hasperm x u p;
               if \<not> perm then Some (Some Eperm, s)
               else do {
                 rm \<leftarrow> (if mode AND ORCLOSE \<noteq> 0 then do {
                     pa \<leftarrow> fl_parent x;
                     y \<leftarrow> fs_files (sv_fs s) pa;
                     hasperm y u AWRITE
                   } else Some True);
                 if \<not> rm then Some (Some Eperm, s)
                 else do {
                   s \<leftarrow> upd_req r (\<lambda>q. q\<lparr>rq_ofcall := (rq_ofcall q)\<lparr>f_qid := d_qid (fl_dir x)\<rparr>\<rparr>) s;
                   if q_type (d_qid (fl_dir x)) AND QTDIR \<noteq> 0 then do {
                     (rd, t) \<leftarrow> opendirfile file (sv_fs s);
                     let s = s\<lparr>sv_fs := t\<rparr>;
                     s \<leftarrow> upd_fid a (\<lambda>f. f\<lparr>fd_rdir := rd\<rparr>) s;
                     Some (if rd = None then Some (ascii ''opendirfile failed'') else None, s)
                   } else Some (None, s)
                 }
               }
             });
         (case e of
            Some e \<Rightarrow> fails e s
          | None \<Rightarrow> (case h_open h of Some cb \<Rightarrow> cb r s | None \<Rightarrow> succeeds s))
       }
     })"

definition ropen :: "addr \<Rightarrow> cstr option \<Rightarrow> 'x Srv \<Rightarrow> 'x Srv option" where
  "ropen r error s = (if error \<noteq> None then Some s
     else do {
       q \<leftarrow> sv_reqs s r;
       a \<leftarrow> rq_fid q;
       s \<leftarrow> upd_fid a (\<lambda>f. f\<lparr>fd_omode := f_mode (rq_ifcall q), fd_qid := f_qid (rq_ofcall q)\<rparr>) s;
       if q_type (f_qid (rq_ofcall q)) AND QTDIR \<noteq> 0 then upd_fid a (\<lambda>f. f\<lparr>fd_diroffset := 0\<rparr>) s
       else Some s
     })"

definition screate :: "'x Handlers \<Rightarrow> 'x handler" where
  "screate h r s = with_fid r s (\<lambda>q a f s.
     if fd_omode f \<noteq> - 1 then fails Ebotch s
     else if q_type (fd_qid f) AND QTDIR = 0 then fails Ecreatenondir s
     else do {
       ok \<leftarrow> (case fd_file f of
           None \<Rightarrow> Some True
         | Some file \<Rightarrow> do {
             x \<leftarrow> fs_files (sv_fs s) file;
             u \<leftarrow> fd_uid f;
             hasperm x u AWRITE
           });
       if \<not> ok then fails Eperm s
       else (case h_create h of Some cb \<Rightarrow> cb r s | None \<Rightarrow> fails Enocreate s)
     })"

definition rcreate :: "addr \<Rightarrow> cstr option \<Rightarrow> 'x Srv \<Rightarrow> 'x Srv option" where
  "rcreate r error s = (if error \<noteq> None then Some s
     else do {
       q \<leftarrow> sv_reqs s r;
       a \<leftarrow> rq_fid q;
       upd_fid a (\<lambda>f. f\<lparr>fd_omode := f_mode (rq_ifcall q), fd_qid := f_qid (rq_ofcall q)\<rparr>) s
     })"

section \<open>Read and write\<close>

text \<open>\<open>srv->msize - IOHDRSZ\<close>, in C's unsigned arithmetic.\<close>

definition clamp_count :: "u32 \<Rightarrow> u32 \<Rightarrow> u32" where
  "clamp_count msize count = (if count > msize - of_nat IOHDRSZ then msize - of_nat IOHDRSZ else count)"

definition sread :: "'x Handlers \<Rightarrow> 'x handler" where
  "sread h r s = with_fid r s (\<lambda>q a f s.
     if sint (f_count (rq_ifcall q)) < 0 then fails Ebotch s
     else if sint (f_offset (rq_ifcall q)) < 0
       \<or> (q_type (fd_qid f) AND QTDIR \<noteq> 0 \<and> f_offset (rq_ifcall q) \<noteq> 0
          \<and> f_offset (rq_ifcall q) \<noteq> fd_diroffset f) then fails Ebadoffset s
     else do {
       let count = clamp_count (sv_msize s) (f_count (rq_ifcall q));
       s \<leftarrow> upd_req r (\<lambda>q. q\<lparr>rq_ifcall := (rq_ifcall q)\<lparr>f_count := count\<rparr>,
         rq_ofcall := (rq_ofcall q)\<lparr>f_data := replicate (unat count) 0\<rparr>\<rparr>) s;
       let o' = fd_omode f AND 3;
       if o' \<noteq> OREAD \<and> o' \<noteq> ORDWR \<and> o' \<noteq> OEXEC then fails Ebotch s
       else if q_type (fd_qid f) AND QTDIR \<noteq> 0 \<and> fd_file f \<noteq> None then do {
         rd \<leftarrow> fd_rdir f;
         (m, rd, buf) \<leftarrow> readdirfile rd (replicate (unat count) 0) (unat count) (sv_fs s);
         s \<leftarrow> upd_fid a (\<lambda>f. f\<lparr>fd_rdir := Some rd\<rparr>) s;
         s \<leftarrow> upd_req r (\<lambda>q. q\<lparr>rq_ofcall := (rq_ofcall q)\<lparr>f_data := buf, f_count := of_nat m\<rparr>\<rparr>) s;
         succeeds s
       }
       else (case h_read h of Some cb \<Rightarrow> cb r s | None \<Rightarrow> fails (ascii ''no srv->read'') s)
     })"

definition rread :: "addr \<Rightarrow> cstr option \<Rightarrow> 'x Srv \<Rightarrow> 'x Srv option" where
  "rread r error s = (if error \<noteq> None then Some s
     else do {
       q \<leftarrow> sv_reqs s r;
       a \<leftarrow> rq_fid q;
       f \<leftarrow> sv_fids s a;
       if q_type (fd_qid f) AND QTDIR \<noteq> 0
       then upd_fid a (\<lambda>f. f\<lparr>fd_diroffset := fd_diroffset f + ucast (f_count (rq_ofcall q))\<rparr>) s
       else Some s
     })"

definition swrite :: "'x Handlers \<Rightarrow> 'x handler" where
  "swrite h r s = with_fid r s (\<lambda>q a f s.
     if sint (f_count (rq_ifcall q)) < 0 then fails Ebotch s
     else if sint (f_offset (rq_ifcall q)) < 0 then fails Ebotch s
     else do {
       let count = clamp_count (sv_msize s) (f_count (rq_ifcall q));
       s \<leftarrow> upd_req r (\<lambda>q. q\<lparr>rq_ifcall := (rq_ifcall q)\<lparr>f_count := count\<rparr>\<rparr>) s;
       let o' = fd_omode f AND 3;
       if o' \<noteq> OWRITE \<and> o' \<noteq> ORDWR then
         fails (h_snprint h ''write on fid with open mode 0x%ux'' [FInt (sint (fd_omode f))]) s
       else (case h_write h of Some cb \<Rightarrow> cb r s | None \<Rightarrow> fails (ascii ''no srv->write'') s)
     })"

definition rwrite :: "addr \<Rightarrow> cstr option \<Rightarrow> 'x Srv \<Rightarrow> 'x Srv option" where
  "rwrite r error s = (if error \<noteq> None then Some s
     else do {
       q \<leftarrow> sv_reqs s r;
       a \<leftarrow> rq_fid q;
       f \<leftarrow> sv_fids s a;
       (case fd_file f of
          None \<Rightarrow> Some s
        | Some file \<Rightarrow> in_fs (\<lambda>t. do {
            x \<leftarrow> fs_files t file;
            let d = fl_dir x;
            let d = d\<lparr>d_qid := (d_qid d)\<lparr>q_vers := q_vers (d_qid d) + 1\<rparr>\<rparr>;
            Some (put_file file (x\<lparr>fl_dir := d\<rparr>) t)
          }) s)
     })"

section \<open>Clunk and remove\<close>

definition sclunk :: "'x handler" where
  "sclunk r s = do {
     q \<leftarrow> sv_reqs s r;
     let (fo, s) = removefid (f_fid (rq_ifcall q)) s;
     s \<leftarrow> upd_req r (\<lambda>q. q\<lparr>rq_fid := fo\<rparr>) s;
     (case fo of None \<Rightarrow> fails Eunknownfid s | Some a \<Rightarrow> succeeds s)
   }"

definition sremove :: "'x Handlers \<Rightarrow> 'x handler" where
  "sremove h r s = do {
     q \<leftarrow> sv_reqs s r;
     let (fo, s) = removefid (f_fid (rq_ifcall q)) s;
     s \<leftarrow> upd_req r (\<lambda>q. q\<lparr>rq_fid := fo\<rparr>) s;
     (case fo of
        None \<Rightarrow> fails Eunknownfid s
      | Some a \<Rightarrow> do {
          f \<leftarrow> sv_fids s a;
          ok \<leftarrow> (case fd_file f of
              None \<Rightarrow> Some True
            | Some file \<Rightarrow> do {
                x \<leftarrow> fs_files (sv_fs s) file;
                pa \<leftarrow> fl_parent x;
                y \<leftarrow> fs_files (sv_fs s) pa;
                u \<leftarrow> fd_uid f;
                hasperm y u AWRITE
              });
          if \<not> ok then fails Eperm s
          else (case h_remove h of
              Some cb \<Rightarrow> cb r s
            | None \<Rightarrow> if fd_file f \<noteq> None then succeeds s else fails Enoremove s)
        })
   }"

definition rremove :: "'x Handlers \<Rightarrow> addr \<Rightarrow> cstr option \<Rightarrow> 'x Srv \<Rightarrow> 'x Srv option" where
  "rremove h r error s = (if error \<noteq> None then Some s
     else do {
       q \<leftarrow> sv_reqs s r;
       a \<leftarrow> rq_fid q;
       f \<leftarrow> sv_fids s a;
       (case fd_file f of
          None \<Rightarrow> Some s
        | Some file \<Rightarrow> do {
            (rc, t) \<leftarrow> removefile file (sv_fs s);
            let s = s\<lparr>sv_fs := t\<rparr>;
            s \<leftarrow> (if rc < 0 then do {
                x \<leftarrow> fs_files t file;
                name \<leftarrow> d_name (fl_dir x);
                upd_req r (\<lambda>q. q\<lparr>rq_error := Some (h_snprint h ''remove %s: %r'' [FStr name, FStr (fs_errstr t)])\<rparr>) s
              } else Some s);
            upd_fid a (\<lambda>f. f\<lparr>fd_file := None\<rparr>) s
          })
     })"

section \<open>Stat and wstat\<close>

definition sstat :: "'x Handlers \<Rightarrow> 'x handler" where
  "sstat h r s = with_fid r s (\<lambda>q a f s. do {
     s \<leftarrow> (case fd_file f of
         None \<Rightarrow> Some s
       | Some file \<Rightarrow> do {
           x \<leftarrow> fs_files (sv_fs s) file;
           upd_req r (\<lambda>q. q\<lparr>rq_d := fl_dir x\<rparr>) s
         });
     (case h_stat h of
        Some cb \<Rightarrow> cb r s
      | None \<Rightarrow> if fd_file f \<noteq> None then succeeds s else fails Enostat s)
   })"

definition rstat :: "addr \<Rightarrow> cstr option \<Rightarrow> 'x Srv \<Rightarrow> 'x Srv option" where
  "rstat r error s = (if error \<noteq> None then Some s
     else do {
       q \<leftarrow> sv_reqs s r;
       (m, tmp) \<leftarrow> convD2M (rq_d q) [0, 0] (of_nat BIT16SZ);
       if m \<noteq> of_nat BIT16SZ then
         upd_req r (\<lambda>q. q\<lparr>rq_error := Some (ascii ''convD2M(_,_,BIT16SZ) did not return BIT16SZ'')\<rparr>) s
       else do {
         w \<leftarrow> GBIT16 tmp 0;
         let n = unat w + BIT16SZ;
         (m, statbuf) \<leftarrow> convD2M (rq_d q) (replicate n 0) (of_nat n);
         let nstat = (ucast m :: u16);
         s \<leftarrow> upd_req r (\<lambda>q. q\<lparr>rq_ofcall := (rq_ofcall q)\<lparr>f_nstat := nstat, f_stat := statbuf\<rparr>\<rparr>) s;
         if unat nstat \<le> BIT16SZ then upd_req r (\<lambda>q. q\<lparr>rq_error := Some (ascii ''convD2M fails'')\<rparr>) s
         else Some s
       }
     })"

definition swstat :: "'x Handlers \<Rightarrow> 'x handler" where
  "swstat h r s = with_fid r s (\<lambda>q a f s. case h_wstat h of
     None \<Rightarrow> fails Enowstat s
   | Some cb \<Rightarrow> do {
       (n, d, stat) \<leftarrow> convM2D (f_stat (rq_ifcall q)) 0 (ucast (f_nstat (rq_ifcall q))) (rq_d q) (Some 0);
       s \<leftarrow> upd_req r (\<lambda>q. q\<lparr>rq_d := d, rq_ifcall := (rq_ifcall q)\<lparr>f_stat := stat\<rparr>\<rparr>) s;
       if n \<noteq> ucast (f_nstat (rq_ifcall q)) then fails Ebaddir s
       else if NOT (d_type d) \<noteq> 0 then fails (ascii ''wstat -- attempt to change type'') s
       else if NOT (d_dev d) \<noteq> 0 then fails (ascii ''wstat -- attempt to change dev'') s
       else if NOT (q_type (d_qid d)) \<noteq> 0 \<or> NOT (q_vers (d_qid d)) \<noteq> 0 \<or> NOT (q_path (d_qid d)) \<noteq> 0 then
         fails (ascii ''wstat -- attempt to change qid'') s
       else if (case d_muid d of None \<Rightarrow> False | Some m \<Rightarrow> m \<noteq> []) then
         fails (ascii ''wstat -- attempt to change muid'') s
       else if NOT (d_mode d) \<noteq> 0
           \<and> drop_bit 24 (d_mode d AND DMDIR) \<noteq> ucast (q_type (fd_qid f) AND QTDIR) then
         fails (ascii ''wstat -- attempt to change DMDIR bit'') s
       else cb r s
     })"

section \<open>Replies\<close>

text \<open>
  \<open>rflush\<close>, \<open>closereq\<close> and \<open>respond\<close> call each other: answering a request answers the flushes
  that wait for it, and giving up the last reference to a request gives up those it holds.
  \<open>fuel\<close> bounds the depth of the calls.  \<open>rflush\<close> returns whether the reply must wait.
\<close>

definition free_req :: "'x Handlers \<Rightarrow> addr \<Rightarrow> 'x Srv \<Rightarrow> 'x Srv" where
  "free_req h r s = (let s = (case h_destroyreq h of None \<Rightarrow> s | Some d \<Rightarrow> d r s) in
     s\<lparr>sv_reqs := (sv_reqs s)(r := None)\<rparr>)"

definition close_opt :: "'x Handlers \<Rightarrow> addr option \<Rightarrow> 'x Srv \<Rightarrow> 'x Srv option" where
  "close_opt h fo s = (case fo of None \<Rightarrow> Some s | Some a \<Rightarrow> closefid h a s)"

text \<open>The \<open>r\<close>-function of the request's type, other than \<open>rflush\<close>.\<close>

definition finish :: "'x Handlers \<Rightarrow> addr \<Rightarrow> cstr option \<Rightarrow> 'x Srv \<Rightarrow> 'x Srv option" where
  "finish h r error s = do {
     q \<leftarrow> sv_reqs s r;
     let t = f_type (rq_ifcall q);
     if t = Tversion then rversion r error s
     else if t = Tauth then rauth h r error s
     else if t = Tattach then rattach h r error s
     else if t = Twalk then rwalk h r error s
     else if t = Topen then ropen r error s
     else if t = Tcreate then rcreate r error s
     else if t = Tread then rread r error s
     else if t = Twrite then rwrite r error s
     else if t = Tclunk then Some s
     else if t = Tremove then rremove h r error s
     else if t = Tstat then rstat r error s
     else if t = Twstat then Some s
     else None
   }"

text \<open>The reply is put in wire format in \<open>srv->wbuf\<close>; a reply that does not fit aborts the
  server.\<close>

definition pack_reply :: "addr \<Rightarrow> 'x Srv \<Rightarrow> (nat \<times> 'x Srv) option" where
  "pack_reply r s = do {
     q \<leftarrow> sv_reqs s r;
     let o1 = (rq_ofcall q)\<lparr>f_tag := f_tag (rq_ifcall q), f_type := f_type (rq_ifcall q) + 1\<rparr>;
     let o2 = (case rq_error q of None \<Rightarrow> o1 | Some e \<Rightarrow> setfcallerror o1 e);
     let s = put_req r (q\<lparr>rq_ofcall := o2\<rparr>) s;
     wbuf \<leftarrow> sv_wbuf s;
     (n, wbuf) \<leftarrow> convS2M o2 wbuf (sv_msize s);
     let s = s\<lparr>sv_wbuf := Some wbuf\<rparr>;
     if sint n \<le> 2 then None else Some (unat n, s)
   }"

definition write_reply :: "nat \<Rightarrow> 'x Srv \<Rightarrow> 'x Srv option" where
  "write_reply n s = do {
     wbuf \<leftarrow> sv_wbuf s;
     msg \<leftarrow> mread wbuf 0 n;
     Some (s\<lparr>sv_out := sv_out s @ [msg]\<rparr>)
   }"

datatype call = CRespond addr "cstr option" | CClosereq "addr option" | CRespond_all "addr list"

type_synonym 'x callee = "call \<Rightarrow> 'x Srv \<Rightarrow> 'x Srv option"

definition rflush :: "'x callee \<Rightarrow> addr \<Rightarrow> cstr option \<Rightarrow> 'x Srv \<Rightarrow> (bool \<times> 'x Srv) option" where
  "rflush call r error s = (if error \<noteq> None then None
     else do {
       q \<leftarrow> sv_reqs s r;
       (wait, s) \<leftarrow> (case rq_oldreq q of
           None \<Rightarrow> Some (False, s)
         | Some old \<Rightarrow> do {
             oq \<leftarrow> sv_reqs s old;
             if \<not> rq_responded oq then do {
               s \<leftarrow> upd_req old (\<lambda>q. q\<lparr>rq_flush := rq_flush q @ [r]\<rparr>) s;
               Some (True, s)
             } else do {
               s \<leftarrow> call (CClosereq (Some old)) s;
               Some (False, s)
             }
           });
       if wait then Some (True, s)
       else do {
         s \<leftarrow> upd_req r (\<lambda>q. q\<lparr>rq_oldreq := None\<rparr>) s;
         Some (False, s)
       }
     })"

definition respond_body :: "'x callee \<Rightarrow> 'x Handlers \<Rightarrow> addr \<Rightarrow> cstr option \<Rightarrow> 'x Srv \<Rightarrow> 'x Srv option" where
  "respond_body call h r error s = do {
     q \<leftarrow> sv_reqs s r;
     if rq_responded q then None
     else do {
       let s = put_req r (q\<lparr>rq_error := error\<rparr>) s;
       (wait, s) \<leftarrow> (if f_type (rq_ifcall q) = Tflush then rflush call r error s
         else do { s \<leftarrow> finish h r error s; Some (False, s) });
       if wait then Some s
       else do {
         (n, s) \<leftarrow> pack_reply r s;
         s \<leftarrow> (if rq_pool q then (case removereq (ucast (f_tag (rq_ifcall q))) s of
               (old, s) \<Rightarrow> call (CClosereq old) s)
             else Some s);
         s \<leftarrow> write_reply n s;
         s \<leftarrow> upd_req r (\<lambda>q. q\<lparr>rq_responded := True\<rparr>) s;
         q \<leftarrow> sv_reqs s r;
         s \<leftarrow> call (CRespond_all (rq_flush q)) s;
         s \<leftarrow> upd_req r (\<lambda>q. q\<lparr>rq_flush := []\<rparr>) s;
         if rq_pool q then call (CClosereq (Some r)) s
         else Some (s\<lparr>sv_reqs := (sv_reqs s)(r := None)\<rparr>)
       }
     }
   }"

definition closereq_body :: "'x callee \<Rightarrow> 'x Handlers \<Rightarrow> addr \<Rightarrow> 'x Srv \<Rightarrow> 'x Srv option" where
  "closereq_body call h r s = do {
     q \<leftarrow> sv_reqs s r;
     let q = q\<lparr>rq_ref := rq_ref q - 1\<rparr>;
     let s = put_req r q s;
     if rq_ref q \<noteq> 0 then Some s
     else do {
       s \<leftarrow> close_opt h (rq_fid q) s;
       s \<leftarrow> close_opt h (rq_newfid q) s;
       s \<leftarrow> close_opt h (rq_afid q) s;
       s \<leftarrow> call (CClosereq (rq_oldreq q)) s;
       s \<leftarrow> call (CRespond_all (rq_flush q)) s;
       Some (free_req h r s)
     }
   }"

primrec calls :: "nat \<Rightarrow> 'x Handlers \<Rightarrow> 'x callee" where
  "calls 0 h c s = None"
| "calls (Suc fuel) h c s = (case c of
     CRespond r error \<Rightarrow> respond_body (calls fuel h) h r error s
   | CClosereq None \<Rightarrow> Some s
   | CClosereq (Some r) \<Rightarrow> closereq_body (calls fuel h) h r s
   | CRespond_all [] \<Rightarrow> Some s
   | CRespond_all (r # rs) \<Rightarrow> do {
       s \<leftarrow> calls fuel h (CRespond r None) s;
       calls fuel h (CRespond_all rs) s
     })"

definition respond :: "nat \<Rightarrow> 'x Handlers \<Rightarrow> addr \<Rightarrow> cstr option \<Rightarrow> 'x Srv \<Rightarrow> 'x Srv option" where
  "respond fuel h r error s = calls fuel h (CRespond r error) s"

definition closereq :: "nat \<Rightarrow> 'x Handlers \<Rightarrow> addr option \<Rightarrow> 'x Srv \<Rightarrow> 'x Srv option" where
  "closereq fuel h ro s = calls fuel h (CClosereq ro) s"

definition allocreq :: "nat \<Rightarrow> 'x Handlers \<Rightarrow> u32 \<Rightarrow> 'x Srv \<Rightarrow> (addr option \<times> 'x Srv) option" where
  "allocreq fuel h tag s = do {
     let a = sv_next s;
     let s = put_req a (zero_req\<lparr>rq_tag := tag, rq_pool := True\<rparr>) (s\<lparr>sv_next := a + 1\<rparr>);
     let s = s\<lparr>sv_reqs := increqref a (sv_reqs s)\<rparr>;
     let s = s\<lparr>sv_reqs := increqref a (sv_reqs s)\<rparr>;
     (case caninsertkey (sv_rpool s) tag a of
        (False, m) \<Rightarrow> do {
          s \<leftarrow> closereq fuel h (Some a) s;
          s \<leftarrow> closereq fuel h (Some a) s;
          Some (None, s)
        }
      | (True, m) \<Rightarrow> Some (Some a, s\<lparr>sv_rpool := m\<rparr>))
   }"

section \<open>The loop\<close>

text \<open>\<open>readn\<close> on a connection: what is asked for, or what is left of the input.\<close>

definition read9pmsg :: "block \<Rightarrow> u32 \<Rightarrow> int \<times> block \<times> block" where
  "read9pmsg inp n = (let hd4 = take BIT32SZ inp in
     if length hd4 \<noteq> BIT32SZ then (0, hd4, drop BIT32SZ inp)
     else (case GBIT32 hd4 0 of
         None \<Rightarrow> (0, hd4, drop BIT32SZ inp)
       | Some len \<Rightarrow>
           if sint len \<le> int BIT32SZ \<or> len > n then (- 1, hd4, drop BIT32SZ inp)
           else (let m = unat len - BIT32SZ; body = take m (drop BIT32SZ inp); rest = drop (BIT32SZ + m) inp in
             if length body < m then (0, hd4 @ body, rest)
             else (int (BIT32SZ + m), hd4 @ body, rest))))"

text \<open>
  The message is decoded in a copy of its own bytes, and only the result \<open>n\<close>, their number, is taken; it is
  the same at every address of the copy (\<open>convM2S_address\<close>).
\<close>

definition getreq :: "nat \<Rightarrow> 'x Handlers \<Rightarrow> block \<Rightarrow> 'x Srv \<Rightarrow> (addr option \<times> block \<times> 'x Srv) option" where
  "getreq fuel h inp s = (case read9pmsg inp (sv_msize s) of (n, buf, rest) \<Rightarrow>
     if n \<le> 0 then Some (None, rest, s)
     else do {
       (m, f, buf) \<leftarrow> convM2S 0 buf (of_int n) zero_fcall;
       if m \<noteq> of_int n then Some (None, rest, s)
       else do {
         (ro, s) \<leftarrow> allocreq fuel h (ucast (f_tag f)) s;
         (case ro of
            None \<Rightarrow> do {
              let a = sv_next s;
              let s = put_req a (zero_req\<lparr>rq_ref := 1, rq_tag := ucast (f_tag f), rq_ifcall := f,
                 rq_error := Some Eduptag\<rparr>) (s\<lparr>sv_next := a + 1\<rparr>);
              Some (Some a, rest, s)
            }
          | Some r \<Rightarrow> do {
              s \<leftarrow> upd_req r (\<lambda>q. q\<lparr>rq_responded := False, rq_ifcall := f, rq_ofcall := zero_fcall,
                 rq_type := f_type f\<rparr>) s;
              Some (Some r, rest, s)
            })
       }
     })"

text \<open>The \<open>switch\<close> of \<open>srv\<close>.\<close>

definition serve :: "'x Handlers \<Rightarrow> 'x handler" where
  "serve h r s = do {
     q \<leftarrow> sv_reqs s r;
     let t = f_type (rq_ifcall q);
     if t = Tversion then sversion h r s
     else if t = Tauth then sauth h r s
     else if t = Tattach then sattach h r s
     else if t = Tflush then sflush h r s
     else if t = Twalk then swalk h r s
     else if t = Topen then sopen h r s
     else if t = Tcreate then screate h r s
     else if t = Tread then sread h r s
     else if t = Twrite then swrite h r s
     else if t = Tclunk then sclunk r s
     else if t = Tremove then sremove h r s
     else if t = Tstat then sstat h r s
     else if t = Twstat then swstat h r s
     else fails (ascii ''unknown message'') s
   }"

definition dispatch :: "nat \<Rightarrow> 'x Handlers \<Rightarrow> addr \<Rightarrow> 'x Srv \<Rightarrow> 'x Srv option" where
  "dispatch fuel h r s = do {
     q \<leftarrow> sv_reqs s r;
     (case rq_error q of
        Some e \<Rightarrow> respond fuel h r (Some e) s
      | None \<Rightarrow> do {
          (reply, s) \<leftarrow> serve h r s;
          (case reply of Later \<Rightarrow> Some s | Reply e \<Rightarrow> respond fuel h r e s)
        })
   }"

text \<open>The parts of \<open>srv\<close> before and after its loop.  The pools are nil when \<open>srv\<close> is entered and nil
  again when it returns, so that it always starts with new ones.\<close>

definition srv_start :: "'x Srv \<Rightarrow> 'x Srv" where
  "srv_start s = (let msize = (if sv_msize s = 0 then 16 * 1024 + of_nat IOHDRSZ else sv_msize s) in
     changemsize msize (s\<lparr>sv_fpool := allocfidpool, sv_rpool := allocreqpool, sv_msize := msize\<rparr>))"

lemma read9pmsg_rest: "read9pmsg inp n = (m, buf, rest) \<Longrightarrow> 0 < m \<Longrightarrow> length rest < length inp"
  by (auto simp: read9pmsg_def Let_def split: if_splits option.splits)

lemma getreq_rest: "getreq fuel h inp s = Some (Some r, rest, s') \<Longrightarrow> length rest < length inp"
  by (auto simp: getreq_def Let_def bind_Some_iff split: prod.splits if_splits option.splits
      intro: read9pmsg_rest)

function srv_loop :: "nat \<Rightarrow> 'x Handlers \<Rightarrow> block \<Rightarrow> 'x Srv \<Rightarrow> 'x Srv option" where
  "srv_loop fuel h inp s = (case getreq fuel h inp s of
     None \<Rightarrow> None
   | Some (None, rest, s') \<Rightarrow> Some s'
   | Some (Some r, rest, s') \<Rightarrow> (case dispatch fuel h r s' of None \<Rightarrow> None | Some s'' \<Rightarrow> srv_loop fuel h rest s''))"
  by pat_completeness auto
termination
  by (relation "measure (\<lambda>(fuel, h, inp, s). length inp)") (auto dest: getreq_rest)

definition srv_end :: "'x Handlers \<Rightarrow> 'x Srv \<Rightarrow> 'x Srv" where
  "srv_end h s = (let s = s\<lparr>sv_rbuf := None, sv_wbuf := None, sv_msize := 0\<rparr>;
       s = freereqpool h (freefidpool h s)
     in case h_end h of None \<Rightarrow> s | Some f \<Rightarrow> f s)"

definition srv :: "nat \<Rightarrow> 'x Handlers \<Rightarrow> block \<Rightarrow> 'x Srv \<Rightarrow> 'x Srv option" where
  "srv fuel h inp s = map_option (srv_end h) (srv_loop fuel h inp (srv_start s))"

end
