(* ===== verification/SrvReply.thy ===== *)
theory SrvReply
  imports Srv
begin

text \<open>
  What the server sends.  A request that is neither flushed nor a flush is answered by exactly
  one message, with its tag, after which the tag is free again and the request is gone.
\<close>

section \<open>Stores\<close>

lemma put_req_fields [simp]:
  "sv_reqs (put_req a q s) = (sv_reqs s)(a \<mapsto> q)" "sv_fids (put_req a q s) = sv_fids s"
  "sv_fs (put_req a q s) = sv_fs s" "sv_rpool (put_req a q s) = sv_rpool s"
  "sv_fpool (put_req a q s) = sv_fpool s" "sv_msize (put_req a q s) = sv_msize s"
  "sv_wbuf (put_req a q s) = sv_wbuf s" "sv_rbuf (put_req a q s) = sv_rbuf s"
  "sv_out (put_req a q s) = sv_out s" "sv_next (put_req a q s) = sv_next s"
  "sv_tree (put_req a q s) = sv_tree s" "sv_aux (put_req a q s) = sv_aux s"
  by (simp_all add: put_req_def)

lemma put_fid_fields [simp]:
  "sv_fids (put_fid a q s) = (sv_fids s)(a \<mapsto> q)" "sv_reqs (put_fid a q s) = sv_reqs s"
  "sv_fs (put_fid a q s) = sv_fs s" "sv_rpool (put_fid a q s) = sv_rpool s"
  "sv_fpool (put_fid a q s) = sv_fpool s" "sv_msize (put_fid a q s) = sv_msize s"
  "sv_wbuf (put_fid a q s) = sv_wbuf s" "sv_rbuf (put_fid a q s) = sv_rbuf s"
  "sv_out (put_fid a q s) = sv_out s" "sv_next (put_fid a q s) = sv_next s"
  "sv_tree (put_fid a q s) = sv_tree s" "sv_aux (put_fid a q s) = sv_aux s"
  by (simp_all add: put_fid_def)

lemma upd_req_Some: "sv_reqs s r = Some q \<Longrightarrow> upd_req r g s = Some (put_req r (g q) s)"
  by (simp add: upd_req_def)

lemma upd_fid_Some: "sv_fids s a = Some f \<Longrightarrow> upd_fid a g s = Some (put_fid a (g f) s)"
  by (simp add: upd_fid_def)

lemma put_req_put_req [simp]: "put_req r q (put_req r q' s) = put_req r q s"
  by (simp add: put_req_def)

lemma put_req_upd [simp]:
  "(put_req r q s)\<lparr>sv_wbuf := w\<rparr> = put_req r q (s\<lparr>sv_wbuf := w\<rparr>)"
  "(put_req r q s)\<lparr>sv_out := ms\<rparr> = put_req r q (s\<lparr>sv_out := ms\<rparr>)"
  "(put_req r q s)\<lparr>sv_rpool := rp\<rparr> = put_req r q (s\<lparr>sv_rpool := rp\<rparr>)"
  "(put_req r q s)\<lparr>sv_fpool := fp\<rparr> = put_req r q (s\<lparr>sv_fpool := fp\<rparr>)"
  "(put_req r q s)\<lparr>sv_fids := fh\<rparr> = put_req r q (s\<lparr>sv_fids := fh\<rparr>)"
  "(put_req r q s)\<lparr>sv_fs := t\<rparr> = put_req r q (s\<lparr>sv_fs := t\<rparr>)"
  by (simp_all add: put_req_def)

section \<open>Packing and sending\<close>

text \<open>The message a request's reply will be.\<close>

definition reply_fcall :: "Req \<Rightarrow> Fcall" where
  "reply_fcall q = (let o' = (rq_ofcall q)\<lparr>f_tag := f_tag (rq_ifcall q), f_type := f_type (rq_ifcall q) + 1\<rparr> in
     case rq_error q of None \<Rightarrow> o' | Some e \<Rightarrow> setfcallerror o' e)"

lemma reply_tag [simp]: "f_tag (reply_fcall q) = f_tag (rq_ifcall q)"
  by (simp add: reply_fcall_def setfcallerror_def Let_def split: option.split)

definition buf_ok :: "'x Srv \<Rightarrow> bool" where
  "buf_ok s \<longleftrightarrow> (\<exists>w. sv_wbuf s = Some w \<and> length w = unat (sv_msize s)) \<and> unat (sv_msize s) < 2 ^ 31"

lemma sint_small:
  assumes "unat (x :: u32) < 2 ^ 31"
  shows "sint x = int (unat x)"
proof -
  have "int (unat x) < int (2 ^ 31)"
    using assms by (simp only: of_nat_less_iff)
  then have less: "uint x < 2 ^ 31" by simp
  have "- (2 ^ 31) \<le> uint x"
    by (rule order_trans [of _ 0]) simp_all
  then have "signed_take_bit 31 (uint x) = uint x"
    using less by (rule signed_take_bit_int_eq_self)
  moreover have "sint x = signed_take_bit (LENGTH(32) - Suc 0) (uint x)"
    by (rule sint_uint)
  moreover have "LENGTH(32) - Suc 0 = 31" by simp
  ultimately have "sint x = uint x" by metis
  then show ?thesis by simp
qed

lemma pack_reply_encodes:
  assumes q: "sv_reqs s r = Some q" and b: "buf_ok s" and ok: "fcall_ok (reply_fcall q)"
    and m: "msg_of (reply_fcall q) = Some m" and sz: "msg_size m \<le> unat (sv_msize s)"
  shows "\<exists>w. pack_reply r s = Some (msg_size m, (put_req r (q\<lparr>rq_ofcall := reply_fcall q\<rparr>) s)\<lparr>sv_wbuf := Some w\<rparr>)
    \<and> take (msg_size m) w = encode (f_tag (rq_ifcall q)) m \<and> length w = unat (sv_msize s)"
proof -
  obtain w where w: "sv_wbuf s = Some w" "length w = unat (sv_msize s)" and small: "unat (sv_msize s) < 2 ^ 31"
    using b by (auto simp: buf_ok_def)
  have u: "unat (of_nat (msg_size m) :: u32) = msg_size m"
    using sz small by (simp add: unat_of_nat)
  have c: "convS2M (reply_fcall q) w (sv_msize s)
      = Some (of_nat (msg_size m), encode (f_tag (rq_ifcall q)) m @ drop (msg_size m) w)"
    using convS2M_encode [OF ok m, of "sv_msize s" w] sz small w(2) by simp
  have "sint (of_nat (msg_size m) :: u32) = int (msg_size m)"
    using sint_small [of "of_nat (msg_size m)"] u sz small by simp
  moreover have "7 \<le> msg_size m" by (simp add: msg_size_def)
  ultimately have "pack_reply r s = Some (msg_size m, (put_req r (q\<lparr>rq_ofcall := reply_fcall q\<rparr>) s)
      \<lparr>sv_wbuf := Some (encode (f_tag (rq_ifcall q)) m @ drop (msg_size m) w)\<rparr>)"
    using q w c u by (simp add: pack_reply_def reply_fcall_def Let_def)
  moreover have "length (encode (f_tag (rq_ifcall q)) m) = msg_size m"
    by (simp add: length_encode)
  ultimately show ?thesis
    using w(2) sz by (intro exI [of _ "encode (f_tag (rq_ifcall q)) m @ drop (msg_size m) w"]) simp
qed

section \<open>Answering a request\<close>

declare calls.simps [simp del]

lemma calls_simps [simp]:
  "calls (Suc n) h (CRespond r e) s = respond_body (calls n h) h r e s"
  "calls (Suc n) h (CClosereq None) s = Some s"
  "calls (Suc n) h (CClosereq (Some r)) s = closereq_body (calls n h) h r s"
  "calls (Suc n) h (CRespond_all []) s = Some s"
  "calls (Suc n) h (CRespond_all (r # rs)) s
    = Option.bind (calls n h (CRespond r None) s) (calls n h (CRespond_all rs))"
  by (simp_all add: calls.simps)

text \<open>A request as \<open>getreq\<close> hands it out: one reference of the pool, one of the handler.\<close>

definition fresh_req :: "Req \<Rightarrow> bool" where
  "fresh_req q \<longleftrightarrow> \<not> rq_responded q \<and> rq_pool q \<and> rq_ref q = 2 \<and> rq_flush q = [] \<and> rq_oldreq q = None"

text \<open>The state when the reply has been written and the last reference is given up.\<close>

definition answered :: "addr \<Rightarrow> Req \<Rightarrow> block \<Rightarrow> block \<Rightarrow> 'x Srv \<Rightarrow> 'x Srv" where
  "answered r q w msg s = put_req r (q\<lparr>rq_responded := True, rq_flush := [], rq_ref := 0\<rparr>)
     (s\<lparr>sv_wbuf := Some w, sv_rpool := snd (deletekey (sv_rpool s) (ucast (f_tag (rq_ifcall q)))),
        sv_out := sv_out s @ [msg]\<rparr>)"

text \<open>The state when the reply has been written; \<open>n\<close> references are left.\<close>

definition sent :: "addr \<Rightarrow> Req \<Rightarrow> block \<Rightarrow> block \<Rightarrow> 'x Srv \<Rightarrow> 'x Srv" where
  "sent r q w msg s = put_req r (q\<lparr>rq_ref := rq_ref q - 1, rq_responded := True\<rparr>)
     (s\<lparr>sv_wbuf := Some w, sv_rpool := snd (deletekey (sv_rpool s) (ucast (f_tag (rq_ifcall q)))),
        sv_out := sv_out s @ [msg]\<rparr>)"

lemma respond_pooled:
  assumes q: "sv_reqs s r = Some q" "\<not> rq_responded q" "rq_pool q"
    and fin: "(if f_type (rq_ifcall q) = Tflush then rflush (calls fuel h) r e (put_req r (q\<lparr>rq_error := e\<rparr>) s)
      else do { s \<leftarrow> finish h r e (put_req r (q\<lparr>rq_error := e\<rparr>) s); Some (False, s) }) = Some (False, s1)"
    and q1: "sv_reqs s1 r = Some q1" "rq_ifcall q1 = rq_ifcall q" "rq_ref q1 \<noteq> 1" "rq_pool q1"
    and rp: "intmap_ok (sv_rpool s1)" "intmap_abs (sv_rpool s1) (ucast (f_tag (rq_ifcall q))) = Some r"
    and b: "buf_ok s1" and ok: "fcall_ok (reply_fcall q1)" and m: "msg_of (reply_fcall q1) = Some m"
    and sz: "msg_size m \<le> unat (sv_msize s1)" and fuel: "fuel = Suc n"
  shows "\<exists>w. length w = unat (sv_msize s1) \<and> respond (Suc fuel) h r e s = do {
      s \<leftarrow> calls fuel h (CRespond_all (rq_flush q1))
        (sent r (q1\<lparr>rq_ofcall := reply_fcall q1\<rparr>) w (encode (f_tag (rq_ifcall q)) m) s1);
      s \<leftarrow> upd_req r (\<lambda>q. q\<lparr>rq_flush := []\<rparr>) s;
      calls fuel h (CClosereq (Some r)) s }"
proof -
  let ?q2 = "q1\<lparr>rq_ofcall := reply_fcall q1\<rparr>"
  let ?q3 = "?q2\<lparr>rq_ref := rq_ref q1 - 1\<rparr>"
  let ?tag = "ucast (f_tag (rq_ifcall q)) :: u32"
  obtain w where w: "pack_reply r s1 = Some (msg_size m, (put_req r ?q2 s1)\<lparr>sv_wbuf := Some w\<rparr>)"
    "take (msg_size m) w = encode (f_tag (rq_ifcall q1)) m" "length w = unat (sv_msize s1)"
    using pack_reply_encodes [OF q1(1) b ok m sz] by blast
  let ?s2 = "s1\<lparr>sv_wbuf := Some w, sv_rpool := snd (deletekey (sv_rpool s1) ?tag)\<rparr>"
  have rm: "removereq ?tag (put_req r ?q2 (s1\<lparr>sv_wbuf := Some w\<rparr>)) = (Some r, put_req r ?q2 ?s2)"
    using deletekey_refines(1) [OF rp(1), of ?tag] rp(2) by (auto simp: removereq_def split: prod.split)
  have rd: "mread w 0 (msg_size m) = Some (encode (f_tag (rq_ifcall q)) m)"
    using w sz q1(2) by (simp add: mread_def)
  have cl: "calls fuel h (CClosereq (Some r)) (put_req r ?q2 ?s2) = Some (put_req r ?q3 ?s2)"
    using q1(3) by (simp add: closereq_body_def fuel)
  have wr: "write_reply (msg_size m) (put_req r ?q3 ?s2) = Some (put_req r ?q3
      (?s2\<lparr>sv_out := sv_out s1 @ [encode (f_tag (rq_ifcall q)) m]\<rparr>))"
    using rd by (simp add: write_reply_def)
  have st: "sent r ?q2 w (encode (f_tag (rq_ifcall q)) m) s1
      = put_req r (?q3\<lparr>rq_responded := True\<rparr>) (?s2\<lparr>sv_out := sv_out s1 @ [encode (f_tag (rq_ifcall q)) m]\<rparr>)"
    using q1(2) by (simp add: sent_def)
  have "respond (Suc fuel) h r e s = do {
      s \<leftarrow> calls fuel h (CRespond_all (rq_flush q1)) (sent r ?q2 w (encode (f_tag (rq_ifcall q)) m) s1);
      s \<leftarrow> upd_req r (\<lambda>q. q\<lparr>rq_flush := []\<rparr>) s;
      calls fuel h (CClosereq (Some r)) s }"
    unfolding respond_def calls_simps(1) respond_body_def
    by (simp add: q(1) fin w(1) rm cl wr st upd_req_def q1(4) q(2,3) cong: if_cong)
  then show ?thesis
    using w(3) by blast
qed

lemma respond_fresh_gen:
  assumes q: "sv_reqs s r = Some q" "fresh_req q"
    and fin: "\<And>c. (if f_type (rq_ifcall q) = Tflush then rflush c r e (put_req r (q\<lparr>rq_error := e\<rparr>) s)
      else do { s \<leftarrow> finish h r e (put_req r (q\<lparr>rq_error := e\<rparr>) s); Some (False, s) }) = Some (False, s1)"
    and q1: "sv_reqs s1 r = Some q1" "fresh_req q1" "rq_ifcall q1 = rq_ifcall q"
    and rp: "intmap_ok (sv_rpool s1)" "intmap_abs (sv_rpool s1) (ucast (f_tag (rq_ifcall q))) = Some r"
    and b: "buf_ok s1" and ok: "fcall_ok (reply_fcall q1)" and m: "msg_of (reply_fcall q1) = Some m"
    and sz: "msg_size m \<le> unat (sv_msize s1)" and fuel: "3 \<le> fuel"
  shows "\<exists>w. length w = unat (sv_msize s1) \<and> respond fuel h r e s = do {
      s \<leftarrow> close_opt h (rq_fid q1) (answered r (q1\<lparr>rq_ofcall := reply_fcall q1\<rparr>) w (encode (f_tag (rq_ifcall q)) m) s1);
      s \<leftarrow> close_opt h (rq_newfid q1) s;
      s \<leftarrow> close_opt h (rq_afid q1) s;
      Some (free_req h r s) }"
proof -
  let ?q2 = "q1\<lparr>rq_ofcall := reply_fcall q1\<rparr>"
  obtain n where "fuel = 3 + n" using le_Suc_ex [OF fuel] by auto
  then have f: "fuel = Suc (Suc (Suc n))" by simp
  have q1': "rq_ref q1 = 2" "rq_pool q1" "rq_flush q1 = []" "rq_oldreq q1 = None" "\<not> rq_responded q" "rq_pool q"
    using q1(2) q(2) by (simp_all add: fresh_req_def)
  then have "rq_ref q1 \<noteq> 1" by simp
  from respond_pooled [OF q(1) q1'(5,6) fin q1(1,3) this q1'(2) rp b ok m sz, of "Suc (Suc n)" "Suc n"]
  obtain w where "length w = unat (sv_msize s1)" and
    "respond fuel h r e s = do {
      s \<leftarrow> upd_req r (\<lambda>q. q\<lparr>rq_flush := []\<rparr>) (sent r ?q2 w (encode (f_tag (rq_ifcall q)) m) s1);
      closereq_body (calls (Suc n) h) h r s }"
    using q1'(3) f by auto
  then show ?thesis
    using q1'(1,3,4) by (intro exI [of _ w]) (simp add: sent_def answered_def upd_req_def closereq_body_def)
qed

lemma respond_fresh:
  assumes q: "sv_reqs s r = Some q" "fresh_req q" "f_type (rq_ifcall q) \<noteq> Tflush"
    and fin: "finish h r e (put_req r (q\<lparr>rq_error := e\<rparr>) s) = Some s1"
    and q1: "sv_reqs s1 r = Some q1" "fresh_req q1" "rq_ifcall q1 = rq_ifcall q"
    and rp: "intmap_ok (sv_rpool s1)" "intmap_abs (sv_rpool s1) (ucast (f_tag (rq_ifcall q))) = Some r"
    and b: "buf_ok s1" and ok: "fcall_ok (reply_fcall q1)" and m: "msg_of (reply_fcall q1) = Some m"
    and sz: "msg_size m \<le> unat (sv_msize s1)" and fuel: "3 \<le> fuel"
  shows "\<exists>w. length w = unat (sv_msize s1) \<and> respond fuel h r e s = do {
      s \<leftarrow> close_opt h (rq_fid q1) (answered r (q1\<lparr>rq_ofcall := reply_fcall q1\<rparr>) w (encode (f_tag (rq_ifcall q)) m) s1);
      s \<leftarrow> close_opt h (rq_newfid q1) s;
      s \<leftarrow> close_opt h (rq_afid q1) s;
      Some (free_req h r s) }"
  by (rule respond_fresh_gen [OF q(1,2) _ q1 rp b ok m sz fuel]) (use q(3) fin in simp)

section \<open>Receiving a request\<close>

lemma put_req_increqref:
  "(put_req a q s)\<lparr>sv_reqs := increqref a (sv_reqs (put_req a q s))\<rparr> = put_req a (q\<lparr>rq_ref := rq_ref q + 1\<rparr>) s"
  by (simp add: put_req_def increqref_def)

lemma put_fid_incfidref:
  "(put_fid a f s)\<lparr>sv_fids := incfidref a (sv_fids (put_fid a f s))\<rparr> = put_fid a (f\<lparr>fd_ref := fd_ref f + 1\<rparr>) s"
  by (simp add: put_fid_def incfidref_def)

definition srv_ready :: "'x Srv \<Rightarrow> bool" where
  "srv_ready s \<longleftrightarrow> intmap_ok (sv_fpool s) \<and> intmap_ok (sv_rpool s) \<and> inc (sv_fpool s) = incfidref
     \<and> inc (sv_rpool s) = increqref \<and> buf_ok s \<and> 64 \<le> unat (sv_msize s)
     \<and> (\<forall>a \<ge> sv_next s. sv_reqs s a = None \<and> sv_fids s a = None)"

definition tag_free :: "u16 \<Rightarrow> 'x Srv \<Rightarrow> bool" where
  "tag_free tag s \<longleftrightarrow> intmap_abs (sv_rpool s) (ucast tag) = None"

lemma srv_readyD:
  assumes "srv_ready s"
  shows "intmap_ok (sv_fpool s)" "intmap_ok (sv_rpool s)" "inc (sv_fpool s) = incfidref"
    "inc (sv_rpool s) = increqref" "buf_ok s" "64 \<le> unat (sv_msize s)"
    "sv_next s \<le> a \<Longrightarrow> sv_reqs s a = None" "sv_next s \<le> a \<Longrightarrow> sv_fids s a = None"
  using assms by (auto simp: srv_ready_def)

lemma read9pmsg_encode:
  assumes "msg_size m \<le> unat n" and "unat n < 2 ^ 31"
  shows "read9pmsg (encode tag m @ rest) n = (int (msg_size m), encode tag m, rest)"
proof -
  let ?len = "of_nat (msg_size m) :: u32"
  have ge: "7 \<le> msg_size m" by (simp add: msg_size_def)
  have u: "unat ?len = msg_size m" using assms by (simp add: unat_of_nat)
  have e: "encode tag m = le32 ?len @ le8 (msg_type m) @ le16 tag @ payload m"
    by (simp add: encode_def)
  have t: "take 4 (encode tag m @ rest) = le32 ?len" "drop 4 (encode tag m @ rest) = drop 4 (encode tag m) @ rest"
    "encode tag m = le32 ?len @ drop 4 (encode tag m)" "length (drop 4 (encode tag m)) = msg_size m - 4"
    by (simp_all add: e msg_size_def)
  have g: "GBIT32 (le32 ?len) 0 = Some ?len" using GBIT_append(3) [of "[]" ?len "[]"] by simp
  have "sint ?len = int (msg_size m)" using sint_small [of ?len] u assms by simp
  moreover have "\<not> ?len > n" using u assms by (simp add: word_less_nat_alt)
  ultimately show ?thesis
    using ge u g t(1,2,4) t(3) [symmetric] by (simp add: read9pmsg_def Let_def length_encode)
qed

lemma msg_of_type: "msg_of f = Some m \<Longrightarrow> f_type f = msg_type m"
  by (auto simp: msg_of_def Let_def split: if_splits)

definition received :: "u16 \<Rightarrow> msg \<Rightarrow> 'x Srv \<Rightarrow> Req \<Rightarrow> 'x Srv \<Rightarrow> bool" where
  "received tag m s q s' \<longleftrightarrow>
     s' = put_req (sv_next s) q (s\<lparr>sv_next := sv_next s + 1,
        sv_rpool := snd (caninsertkey (sv_rpool s) (ucast tag) (sv_next s))\<rparr>)
     \<and> fresh_req q \<and> fcall_ok (rq_ifcall q) \<and> strs_set (rq_ifcall q) \<and> msg_of (rq_ifcall q) = Some m \<and> f_tag (rq_ifcall q) = tag
     \<and> rq_ofcall q = zero_fcall \<and> rq_fid q = None \<and> rq_newfid q = None \<and> rq_afid q = None
     \<and> rq_error q = None \<and> rq_d q = zero_dir"

lemma getreq_receives:
  assumes r: "srv_ready s" "tag_free tag s" and m: "wf_msg m" "msg_size m \<le> unat (sv_msize s)"
  shows "\<exists>q s'. received tag m s q s' \<and> (\<forall>fuel. getreq fuel h (encode tag m @ rest) s = Some (Some (sv_next s), rest, s'))"
proof -
  have small: "unat (sv_msize s) < 2 ^ 31" using srv_readyD(5) [OF r(1)] by (simp add: buf_ok_def)
  have n: "read9pmsg (encode tag m @ rest) (sv_msize s) = (int (msg_size m), encode tag m, rest)"
    by (rule read9pmsg_encode [OF m(2) small])
  have u: "msg_size m \<le> unat (of_nat (msg_size m) :: u32)"
    using m(2) small by (simp add: unat_of_nat)
  obtain f b where f: "convM2S 0 (encode tag m) (of_nat (msg_size m)) zero_fcall = Some (of_nat (msg_size m), f, b)"
    "msg_of f = Some m" "f_tag f = tag" "fcall_ok f" "strs_set f"
    using convM2S_decode [OF m(1) u, of 0 zero_fcall tag "[]"] unsigned_less [of "of_nat (msg_size m) :: u32", where 'a = nat]
    by (auto simp: zero_fcall_def)
  let ?a = "sv_next s"
  let ?q = "zero_req\<lparr>rq_tag := ucast tag, rq_pool := True, rq_ref := 2, rq_responded := False, rq_ifcall := f,
    rq_ofcall := zero_fcall, rq_type := f_type f\<rparr>"
  let ?s = "put_req ?a ?q (s\<lparr>sv_next := ?a + 1, sv_rpool := snd (caninsertkey (sv_rpool s) (ucast tag) ?a)\<rparr>)"
  obtain m' where ci: "caninsertkey (sv_rpool s) (ucast tag) ?a = (True, m')"
    using caninsertkey_refines(1) [OF srv_readyD(2) [OF r(1)], of "ucast tag" ?a] r(2)
    by (cases "caninsertkey (sv_rpool s) (ucast tag) ?a") (simp add: tag_free_def)
  have "allocreq fuel h (ucast tag) s = Some (Some ?a, put_req ?a (zero_req\<lparr>rq_tag := ucast tag, rq_pool := True,
      rq_ref := 2\<rparr>) (s\<lparr>sv_next := ?a + 1, sv_rpool := m'\<rparr>))" for fuel
    unfolding allocreq_def Let_def put_req_increqref using ci by (simp add: zero_req_def)
  then have "getreq fuel h (encode tag m @ rest) s = Some (Some ?a, rest, ?s)" for fuel
    using n f ci by (simp add: getreq_def upd_req_def msg_size_def)
  moreover have "received tag m s ?q ?s"
    using f by (simp add: received_def fresh_req_def zero_req_def)
  ultimately show ?thesis by blast
qed

section \<open>A request and its reply\<close>

text \<open>The state after a message has been answered and nothing else has changed.\<close>

definition replied :: "'x Srv \<Rightarrow> block list \<Rightarrow> 'x Srv \<Rightarrow> bool" where
  "replied s ms s' \<longleftrightarrow> srv_ready s' \<and> sv_out s' = sv_out s @ ms \<and> sv_reqs s' = sv_reqs s
     \<and> intmap_abs (sv_rpool s') = intmap_abs (sv_rpool s)"

lemma zero_fcall_ok [simp]: "fcall_ok (zero_fcall\<lparr>f_tag := t, f_type := y\<rparr>)"
  by (simp add: fcall_ok_def zero_fcall_def)

lemma reply_error:
  assumes "rq_ofcall q = zero_fcall" and "rq_error q = Some e"
  shows "msg_of (reply_fcall q) = Some (MRerror e)" and "fcall_ok (reply_fcall q)"
  using assms by (simp_all add: reply_fcall_def setfcallerror_def Let_def msg_of_def str_of_def
      fcall_ok_def zero_fcall_def)

text \<open>The whole way of a request, from the bytes received to the bytes sent, when its handler
  answers at once and has changed the fids, the pool of fids and the files only.\<close>

lemma answered_put_req [simp]: "answered r q w x (put_req r q' y) = answered r q w x y"
  by (simp add: answered_def)

lemma served:
  assumes r: "srv_ready s" "tag_free tag s" and rec: "received tag m s q s1"
    and sv: "serve h (sv_next s) s1 = Some (Reply e, put_req (sv_next s) qa (s1\<lparr>sv_fids := fids, sv_fpool := fp, sv_fs := t\<rparr>))"
    and qa: "fresh_req qa" "f_type (rq_ifcall qa) \<noteq> Tflush" "f_tag (rq_ifcall qa) = tag"
    and fin: "finish h (sv_next s) e (put_req (sv_next s) (qa\<lparr>rq_error := e\<rparr>) (s1\<lparr>sv_fids := fids, sv_fpool := fp, sv_fs := t\<rparr>))
      = Some (put_req (sv_next s) qb (s1\<lparr>sv_fids := fids', sv_fpool := fp', sv_fs := t'\<rparr>))"
    and qb: "fresh_req qb" "rq_ifcall qb = rq_ifcall qa"
    and ok: "fcall_ok (reply_fcall qb)" "msg_of (reply_fcall qb) = Some m'" "msg_size m' \<le> unat (sv_msize s)"
    and fuel: "3 \<le> fuel"
  shows "\<exists>w. length w = unat (sv_msize s) \<and> dispatch fuel h (sv_next s) s1 = do {
      s2 \<leftarrow> close_opt h (rq_fid qb) (answered (sv_next s) (qb\<lparr>rq_ofcall := reply_fcall qb\<rparr>) w (encode tag m')
         (s1\<lparr>sv_fids := fids', sv_fpool := fp', sv_fs := t'\<rparr>));
      s2 \<leftarrow> close_opt h (rq_newfid qb) s2;
      s2 \<leftarrow> close_opt h (rq_afid qb) s2;
      Some (free_req h (sv_next s) s2) }"
proof -
  let ?r = "sv_next s"
  have s1: "sv_reqs s1 ?r = Some q" "rq_error q = None" "sv_rpool s1 = snd (caninsertkey (sv_rpool s) (ucast tag) ?r)"
    "sv_msize s1 = sv_msize s" "sv_wbuf s1 = sv_wbuf s"
    using rec by (simp_all add: received_def)
  have rp: "intmap_ok (sv_rpool s1)" "intmap_abs (sv_rpool s1) (ucast tag) = Some ?r"
    using caninsertkey_refines [OF srv_readyD(2) [OF r(1)], of "ucast tag" ?r] r(2) s1(3)
    by (simp_all add: tag_free_def)
  have b: "buf_ok (put_req ?r qb (s1\<lparr>sv_fids := fids', sv_fpool := fp', sv_fs := t'\<rparr>))"
    using srv_readyD(5) [OF r(1)] s1 by (simp add: buf_ok_def)
  have d: "dispatch fuel h ?r s1
      = respond fuel h ?r e (put_req ?r qa (s1\<lparr>sv_fids := fids, sv_fpool := fp, sv_fs := t\<rparr>))"
    using s1 sv by (simp add: dispatch_def)
  have "\<exists>w. length w = unat (sv_msize (put_req ?r qb (s1\<lparr>sv_fids := fids', sv_fpool := fp', sv_fs := t'\<rparr>)))
    \<and> respond fuel h ?r e (put_req ?r qa (s1\<lparr>sv_fids := fids, sv_fpool := fp, sv_fs := t\<rparr>)) = do {
      s2 \<leftarrow> close_opt h (rq_fid qb) (answered ?r (qb\<lparr>rq_ofcall := reply_fcall qb\<rparr>) w (encode (f_tag (rq_ifcall qa)) m')
         (put_req ?r qb (s1\<lparr>sv_fids := fids', sv_fpool := fp', sv_fs := t'\<rparr>)));
      s2 \<leftarrow> close_opt h (rq_newfid qb) s2;
      s2 \<leftarrow> close_opt h (rq_afid qb) s2;
      Some (free_req h ?r s2) }"
    by (rule respond_fresh [where q = qa]) (use fin qa qb ok rp b s1(4) fuel in simp_all)
  then show ?thesis
    using d qa(3) s1(4) by simp
qed

text \<open>Nothing of the request is left once it has been answered.\<close>

lemma answered_replied_gen:
  assumes r: "srv_ready s" "tag_free tag s" and rec: "received tag m s q s1"
    and h: "h_destroyreq h = None" and q2: "f_tag (rq_ifcall q2) = tag"
    and s2: "sv_reqs s2 = sv_reqs (answered (sv_next s) q2 w x s1)" "sv_out s2 = sv_out s @ [x]"
      "sv_rpool s2 = snd (deletekey (sv_rpool s1) (ucast tag))" "buf_ok s2" "64 \<le> unat (sv_msize s2)"
      "sv_next s < sv_next s2"
    and f: "intmap_ok (sv_fpool s2)" "inc (sv_fpool s2) = incfidref" "\<And>a. sv_next s2 \<le> a \<Longrightarrow> sv_fids s2 a = None"
  shows "replied s [x] (free_req h (sv_next s) s2)"
proof -
  let ?r = "sv_next s"
  have s1: "s1 = put_req ?r q (s\<lparr>sv_next := ?r + 1, sv_rpool := snd (caninsertkey (sv_rpool s) (ucast tag) ?r)\<rparr>)"
    using rec by (simp add: received_def)
  have fr: "fst (caninsertkey (sv_rpool s) (ucast tag) ?r)"
    using caninsertkey_refines(1) [OF srv_readyD(2) [OF r(1)]] r(2) by (simp add: tag_free_def)
  have rp: "intmap_ok (sv_rpool s2)" "intmap_abs (sv_rpool s2) = intmap_abs (sv_rpool s)" "inc (sv_rpool s2) = increqref"
    using s2(3) s1 im.delete_insert(2) [OF srv_readyD(2) [OF r(1)] fr] srv_readyD(2,4) [OF r(1)]
    by (simp_all add: fun_eq_iff caninsertkey_refines deletekey_refines)
  have "(sv_reqs s2)(?r := None) = sv_reqs s"
    using s2(1) s1 srv_readyD(7) [OF r(1), of ?r] by (auto simp: answered_def)
  moreover have "sv_reqs s a = None" if "sv_next s2 \<le> a" for a
    using srv_readyD(7) [OF r(1), of a] that s2(6) by simp
  ultimately show ?thesis
    using rp f s2 h by (simp add: replied_def srv_ready_def free_req_def buf_ok_def)
qed

lemma answered_replied:
  assumes r: "srv_ready s" "tag_free tag s" and rec: "received tag m s q s1"
    and h: "h_destroyreq h = None" and q2: "f_tag (rq_ifcall q2) = tag"
    and s2: "sv_reqs s2 = sv_reqs (answered (sv_next s) q2 w x s1)" "sv_out s2 = sv_out s @ [x]"
      "sv_rpool s2 = snd (deletekey (sv_rpool s1) (ucast tag))" "buf_ok s2" "64 \<le> unat (sv_msize s2)"
      "sv_next s2 = sv_next s + 1"
    and f: "intmap_ok (sv_fpool s2)" "inc (sv_fpool s2) = incfidref" "\<And>a. sv_next s < a \<Longrightarrow> sv_fids s2 a = None"
  shows "replied s [x] (free_req h (sv_next s) s2)"
  by (rule answered_replied_gen [OF r rec h q2 s2(1-5) _ f(1,2)]) (use s2(6) f(3) in simp_all)

lemma srv_loop_step:
  assumes "getreq fuel h inp s = Some (Some r, rest, s1)"
  shows "srv_loop fuel h inp s
    = (case dispatch fuel h r s1 of None \<Rightarrow> None | Some s2 \<Rightarrow> srv_loop fuel h rest s2)"
  using assms by (subst srv_loop.simps) simp

declare srv_loop.simps [simp del]

section \<open>An unknown fid\<close>

fun msg_fid :: "msg \<Rightarrow> u32 option" where
  "msg_fid (MTwalk f nf ws) = Some f"
| "msg_fid (MTopen f m) = Some f"
| "msg_fid (MTcreate f n p m) = Some f"
| "msg_fid (MTread f off c) = Some f"
| "msg_fid (MTwrite f off d) = Some f"
| "msg_fid (MTclunk f) = Some f"
| "msg_fid (MTremove f) = Some f"
| "msg_fid (MTstat f) = Some f"
| "msg_fid (MTwstat f st) = Some f"
| "msg_fid _ = None"

lemma msg_fid_of: "msg_of f = Some m \<Longrightarrow> msg_fid m = Some fid \<Longrightarrow> f_fid f = fid"
  by (auto simp: msg_of_def Let_def split: if_splits)

lemma lookupfid_None: "intmap_abs (sv_fpool s) fid = None \<Longrightarrow> lookupfid fid s = (None, s)"
  by (simp add: lookupfid_def lookupkey_refines)

lemma removefid_None:
  "intmap_abs (sv_fpool s) fid = None \<Longrightarrow> removefid fid s = (None, s)"
  using llookup_Nil [of "sv_fpool s" fid] by (simp add: removefid_def deletekey_def)

lemma with_fid_unknown:
  assumes "sv_reqs s r = Some q" and "intmap_abs (sv_fpool s) (f_fid (rq_ifcall q)) = None" and "rq_fid q = None"
  shows "with_fid r s k = Some (Reply (Some Eunknownfid), s)"
proof -
  have "put_req r (q\<lparr>rq_fid := None\<rparr>) s = s"
    using assms by (simp add: put_req_def fun_upd_idem)
  then show ?thesis
    using assms by (simp add: with_fid_def lookupfid_None)
qed

lemma serve_unknown_fid:
  assumes q: "sv_reqs s r = Some q" "msg_of (rq_ifcall q) = Some m" "rq_fid q = None"
    and m: "msg_fid m = Some fid" and fid: "intmap_abs (sv_fpool s) fid = None"
  shows "serve h r s = Some (Reply (Some Eunknownfid), s)"
proof -
  have f: "f_fid (rq_ifcall q) = fid" and t: "f_type (rq_ifcall q) = msg_type m"
    using msg_fid_of [OF q(2) m] msg_of_type [OF q(2)] by simp_all
  have p: "put_req r (q\<lparr>rq_fid := None\<rparr>) s = s"
    using q by (simp add: put_req_def fun_upd_idem)
  have w: "with_fid r s k = Some (Reply (Some Eunknownfid), s)" for k
    using with_fid_unknown [OF q(1) _ q(3)] f fid by simp
  show ?thesis
    using m q(1) t f fid p w
    by (cases m) (simp_all add: serve_def swalk_def sopen_def screate_def sread_def swrite_def sclunk_def
        sremove_def sstat_def swstat_def removefid_None upd_req_def)
qed

lemma finish_error:
  assumes "sv_reqs s r = Some q" and "f_type (rq_ifcall q) = msg_type m" and "msg_fid m \<noteq> None"
    and "rq_newfid q = None" and "rq_ofcall q = zero_fcall"
  shows "finish h r (Some e) s = Some s"
  using assms
  by (cases m) (simp_all add: finish_def rwalk_def ropen_def rcreate_def rread_def rwrite_def rremove_def
      rstat_def zero_fcall_def)

lemma error_fits: "length e \<le> 55 \<Longrightarrow> 64 \<le> n \<Longrightarrow> msg_size (MRerror e) \<le> n"
  by (simp add: msg_size_def)

lemma unknown_fid_answered:
  assumes r: "srv_ready s" "tag_free tag s" and m: "wf_msg m" "msg_size m \<le> unat (sv_msize s)"
    and fid: "msg_fid m = Some fid" "intmap_abs (sv_fpool s) fid = None" and h: "h_destroyreq h = None"
    and fuel: "3 \<le> fuel"
  shows "\<exists>s'. srv_loop fuel h (encode tag m @ rest) s = srv_loop fuel h rest s'
    \<and> replied s [encode tag (MRerror Eunknownfid)] s'
    \<and> sv_fids s' = sv_fids s \<and> sv_fpool s' = sv_fpool s \<and> sv_fs s' = sv_fs s \<and> sv_msize s' = sv_msize s"
proof -
  let ?r = "sv_next s"
  obtain q s1 where rec: "received tag m s q s1"
    and g: "getreq fuel h (encode tag m @ rest) s = Some (Some ?r, rest, s1)"
    using getreq_receives [OF r m] by metis
  have s1: "sv_reqs s1 ?r = Some q" "sv_fpool s1 = sv_fpool s" "sv_fids s1 = sv_fids s" "sv_fs s1 = sv_fs s"
      "sv_msize s1 = sv_msize s"
    and q: "msg_of (rq_ifcall q) = Some m" "fresh_req q" "rq_fid q = None" "rq_newfid q = None" "rq_afid q = None"
      "f_tag (rq_ifcall q) = tag" "rq_ofcall q = zero_fcall" "put_req ?r q s1 = s1"
    using rec by (simp_all add: received_def)
  have t: "f_type (rq_ifcall q) = msg_type m" by (rule msg_of_type [OF q(1)])
  have "serve h ?r s1 = Some (Reply (Some Eunknownfid), s1)"
    by (rule serve_unknown_fid [OF s1(1) q(1,3) fid(1)]) (simp add: s1 fid)
  moreover have "finish h ?r (Some Eunknownfid) (put_req ?r (q\<lparr>rq_error := Some Eunknownfid\<rparr>) s1)
      = Some (put_req ?r (q\<lparr>rq_error := Some Eunknownfid\<rparr>) s1)"
    by (rule finish_error [of _ _ "q\<lparr>rq_error := Some Eunknownfid\<rparr>" m]) (use t fid q in simp_all)
  moreover have "msg_size (MRerror Eunknownfid) \<le> unat (sv_msize s)"
    by (rule error_fits [OF _ srv_readyD(6) [OF r(1)]]) (simp add: Eunknownfid_def ascii_def)
  moreover have "f_type (rq_ifcall q) \<noteq> Tflush" using t fid(1) by (cases m) simp_all
  ultimately obtain w where w: "length w = unat (sv_msize s)"
    "dispatch fuel h ?r s1 = Some (free_req h ?r (answered ?r
        (q\<lparr>rq_error := Some Eunknownfid, rq_ofcall := reply_fcall (q\<lparr>rq_error := Some Eunknownfid\<rparr>)\<rparr>) w
        (encode tag (MRerror Eunknownfid)) s1))"
    using served [OF r rec, where h = h and e = "Some Eunknownfid" and qa = q
        and fids = "sv_fids s1" and fp = "sv_fpool s1" and t = "sv_fs s1"
        and qb = "q\<lparr>rq_error := Some Eunknownfid\<rparr>" and fids' = "sv_fids s1" and fp' = "sv_fpool s1"
        and t' = "sv_fs s1" and m' = "MRerror Eunknownfid"]
      q reply_error [of "q\<lparr>rq_error := Some Eunknownfid\<rparr>" Eunknownfid] fuel
    by (auto simp: fresh_req_def close_opt_def)
  let ?s2 = "answered ?r (q\<lparr>rq_error := Some Eunknownfid, rq_ofcall := reply_fcall (q\<lparr>rq_error := Some Eunknownfid\<rparr>)\<rparr>) w
        (encode tag (MRerror Eunknownfid)) s1"
  have "replied s [encode tag (MRerror Eunknownfid)] (free_req h ?r ?s2)"
    by (rule answered_replied [OF r rec h, of "q\<lparr>rq_error := Some Eunknownfid, rq_ofcall := reply_fcall (q\<lparr>rq_error := Some Eunknownfid\<rparr>)\<rparr>"])
      (use q s1 w(1) rec srv_readyD [OF r(1)] in \<open>simp_all add: answered_def received_def buf_ok_def\<close>)
  moreover have "sv_fids (free_req h ?r ?s2) = sv_fids s" "sv_fpool (free_req h ?r ?s2) = sv_fpool s"
    "sv_fs (free_req h ?r ?s2) = sv_fs s" "sv_msize (free_req h ?r ?s2) = sv_msize s"
    using s1 h by (simp_all add: free_req_def answered_def)
  ultimately show ?thesis
    using srv_loop_step [OF g] w(2) by auto
qed

section \<open>Clunk\<close>

lemma closefid_more:
  assumes "sv_fids s a = Some f" and "fd_ref f \<noteq> 1"
  shows "closefid h a s = Some (put_fid a (f\<lparr>fd_ref := fd_ref f - 1\<rparr>) s)"
  using assms by (simp add: closefid_def)

text \<open>A fid whose file and directory reader are what the tree thinks they are.\<close>

definition fid_files_ok :: "(addr \<Rightarrow> int) \<Rightarrow> Fid \<Rightarrow> fs \<Rightarrow> bool" where
  "fid_files_ok ext f t \<longleftrightarrow> fs_ok ext t
     \<and> (case fd_rdir f of None \<Rightarrow> True | Some rd \<Rightarrow> fs_files t (rd_dir rd) \<noteq> None)
     \<and> (case fd_file f of None \<Rightarrow> True | Some x \<Rightarrow> 1 \<le> ext x)"

definition ext_closed :: "(addr \<Rightarrow> int) \<Rightarrow> Fid \<Rightarrow> addr \<Rightarrow> int" where
  "ext_closed ext f = (case fd_file f of None \<Rightarrow> ext | Some x \<Rightarrow> ext_add ext x (- 1))"

lemma put_fid_upd [simp]:
  "(put_fid a f s)\<lparr>sv_fs := t\<rparr> = put_fid a f (s\<lparr>sv_fs := t\<rparr>)"
  "(put_fid a f s)\<lparr>sv_fids := (sv_fids s')(a := None)\<rparr> = s\<lparr>sv_fids := (sv_fids s')(a := None)\<rparr>"
  by (simp_all add: put_fid_def)

lemma closefid_last:
  assumes f: "sv_fids s a = Some f" "fd_ref f = 1" and ok: "fid_files_ok ext f (sv_fs s)"
    and h: "h_destroyfid h = None"
  shows "\<exists>t. closefid h a s = Some (s\<lparr>sv_fs := t, sv_fids := (sv_fids s)(a := None)\<rparr>)
    \<and> fs_ok (ext_closed ext f) t"
proof -
  let ?f = "f\<lparr>fd_ref := 0\<rparr>"
  obtain t where t: "(case fd_rdir f of None \<Rightarrow> Some (put_fid a ?f s) | Some r \<Rightarrow> in_fs (closedirfile r) (put_fid a ?f s))
      = Some (put_fid a ?f (s\<lparr>sv_fs := t\<rparr>))" "fs_ok ext t"
  proof (cases "fd_rdir f")
    case None
    then show ?thesis using that [of "sv_fs s"] ok by (simp add: fid_files_ok_def)
  next
    case (Some rd)
    then obtain x where "fs_files (sv_fs s) (rd_dir rd) = Some x" and "fs_ok ext (sv_fs s)"
      using ok by (auto simp: fid_files_ok_def)
    then obtain t where "closedirfile rd (sv_fs s) = Some t" "fs_ok ext t"
      using closedirfile_ok by blast
    then show ?thesis using that Some by (simp add: in_fs_def)
  qed
  obtain t' where t': "(case fd_file f of None \<Rightarrow> Some (put_fid a ?f (s\<lparr>sv_fs := t\<rparr>))
        | Some x \<Rightarrow> in_fs (closefile x) (put_fid a ?f (s\<lparr>sv_fs := t\<rparr>)))
      = Some (put_fid a ?f (s\<lparr>sv_fs := t'\<rparr>))" "fs_ok (ext_closed ext f) t'"
  proof (cases "fd_file f")
    case None
    then show ?thesis using that [of t] t(2) by (simp add: ext_closed_def)
  next
    case (Some x)
    then have "1 \<le> ext x" using ok by (simp add: fid_files_ok_def)
    then obtain t' where "closefile x t = Some t'" "fs_ok (ext_add ext x (- 1)) t'"
      using closefile_tree [OF t(2)] by blast
    then show ?thesis using that Some by (simp add: in_fs_def ext_closed_def)
  qed
  have "put_fid a ?f (s\<lparr>sv_fs := t'\<rparr>)\<lparr>sv_fids := (sv_fids (put_fid a ?f (s\<lparr>sv_fs := t'\<rparr>)))(a := None)\<rparr>
      = s\<lparr>sv_fs := t', sv_fids := (sv_fids s)(a := None)\<rparr>"
    by (simp add: put_fid_def)
  then have "closefid h a s = Some (s\<lparr>sv_fs := t', sv_fids := (sv_fids s)(a := None)\<rparr>)"
    using f h t(1) t'(1) by (simp add: closefid_def)
  then show ?thesis using t'(2) by blast
qed

lemma clunk_answered:
  assumes r: "srv_ready s" "tag_free tag s"
    and fid: "intmap_abs (sv_fpool s) fid = Some a" "sv_fids s a = Some f" "fd_ref f = 1"
    and ok: "fid_files_ok ext f (sv_fs s)" and h: "h_destroyreq h = None" "h_destroyfid h = None" and fuel: "3 \<le> fuel"
  shows "\<exists>s'. srv_loop fuel h (encode tag (MTclunk fid) @ rest) s = srv_loop fuel h rest s'
    \<and> replied s [encode tag MRclunk] s' \<and> sv_fids s' = (sv_fids s)(a := None)
    \<and> intmap_abs (sv_fpool s') = (intmap_abs (sv_fpool s))(fid := None) \<and> fs_ok (ext_closed ext f) (sv_fs s')"
proof -
  let ?r = "sv_next s" and ?m = "MTclunk fid"
  have "wf_msg ?m" "msg_size ?m \<le> unat (sv_msize s)"
    using srv_readyD(6) [OF r(1)] by (simp_all add: wf_msg_def msg_size_def)
  then obtain q s1 where rec: "received tag ?m s q s1"
    and g: "getreq fuel h (encode tag ?m @ rest) s = Some (Some ?r, rest, s1)"
    using getreq_receives [OF r] by metis
  have s1: "sv_reqs s1 ?r = Some q" "sv_fpool s1 = sv_fpool s" "sv_fids s1 = sv_fids s" "sv_fs s1 = sv_fs s"
      "sv_msize s1 = sv_msize s"
    and q: "msg_of (rq_ifcall q) = Some ?m" "fresh_req q" "rq_fid q = None" "rq_newfid q = None" "rq_afid q = None"
      "f_tag (rq_ifcall q) = tag" "rq_ofcall q = zero_fcall" "rq_error q = None"
    using rec by (simp_all add: received_def)
  have t: "f_type (rq_ifcall q) = Tclunk" "f_fid (rq_ifcall q) = fid"
    using msg_of_type [OF q(1)] msg_fid_of [OF q(1)] by simp_all
  let ?q = "q\<lparr>rq_fid := Some a\<rparr>"
  obtain fp where fp: "deletekey (sv_fpool s) fid = (Some a, fp)"
    using deletekey_refines(1) [OF srv_readyD(1) [OF r(1)], of fid] fid(1)
    by (cases "deletekey (sv_fpool s) fid") simp
  then have fp': "intmap_ok fp" "intmap_abs fp = (intmap_abs (sv_fpool s))(fid := None)" "inc fp = incfidref"
    using deletekey_refines(2,3) [OF srv_readyD(1) [OF r(1)], of fid] inc_kept(3) [of "sv_fpool s" fid]
      srv_readyD(3) [OF r(1)] by simp_all
  have sv: "serve h ?r s1 = Some (Reply None, put_req ?r ?q (s1\<lparr>sv_fpool := fp\<rparr>))"
    using s1 t fp by (simp add: serve_def sclunk_def removefid_def upd_req_def)
  have "finish h ?r None (put_req ?r (?q\<lparr>rq_error := None\<rparr>) (s1\<lparr>sv_fpool := fp\<rparr>))
      = Some (put_req ?r (?q\<lparr>rq_error := None\<rparr>) (s1\<lparr>sv_fpool := fp\<rparr>))"
    using t by (simp add: finish_def)
  moreover have "msg_of (reply_fcall (?q\<lparr>rq_error := None\<rparr>)) = Some MRclunk" "fcall_ok (reply_fcall (?q\<lparr>rq_error := None\<rparr>))"
    using q t by (simp_all add: reply_fcall_def msg_of_def)
  moreover have "msg_size MRclunk \<le> unat (sv_msize s)"
    using srv_readyD(6) [OF r(1)] by (simp add: msg_size_def)
  ultimately obtain w where w: "length w = unat (sv_msize s)"
    "dispatch fuel h ?r s1 = do {
        s2 \<leftarrow> closefid h a (answered ?r (?q\<lparr>rq_error := None, rq_ofcall := reply_fcall (?q\<lparr>rq_error := None\<rparr>)\<rparr>) w
           (encode tag MRclunk) (s1\<lparr>sv_fpool := fp\<rparr>));
        Some (free_req h ?r s2) }"
    using served [OF r rec, where h = h and e = None and qa = ?q
        and fids = "sv_fids s1" and fp = fp and t = "sv_fs s1"
        and qb = "?q\<lparr>rq_error := None\<rparr>" and fids' = "sv_fids s1" and fp' = fp and t' = "sv_fs s1" and m' = MRclunk]
      q t sv fuel
    by (auto simp: fresh_req_def close_opt_def)
  let ?s2 = "answered ?r (?q\<lparr>rq_error := None, rq_ofcall := reply_fcall (?q\<lparr>rq_error := None\<rparr>)\<rparr>) w
    (encode tag MRclunk) (s1\<lparr>sv_fpool := fp\<rparr>)"
  have "sv_fids ?s2 a = Some f" "sv_fs ?s2 = sv_fs s" "sv_fids ?s2 = sv_fids s"
    using fid(2) s1 by (simp_all add: answered_def)
  then obtain t' where t': "closefid h a ?s2 = Some (?s2\<lparr>sv_fs := t', sv_fids := (sv_fids s)(a := None)\<rparr>)"
    "fs_ok (ext_closed ext f) t'"
    using closefid_last [of ?s2 a f ext h] fid(3) ok h by auto
  let ?s3 = "?s2\<lparr>sv_fs := t', sv_fids := (sv_fids s)(a := None)\<rparr>"
  have "replied s [encode tag MRclunk] (free_req h ?r ?s3)"
    by (rule answered_replied [OF r rec h(1), of "?q\<lparr>rq_error := None, rq_ofcall := reply_fcall (?q\<lparr>rq_error := None\<rparr>)\<rparr>"])
      (use q s1 w(1) rec fp' srv_readyD [OF r(1)] in \<open>simp_all add: answered_def received_def buf_ok_def\<close>)
  moreover have "sv_fids (free_req h ?r ?s3) = (sv_fids s)(a := None)" "sv_fpool (free_req h ?r ?s3) = fp"
    "sv_fs (free_req h ?r ?s3) = t'"
    using h by (simp_all add: free_req_def answered_def)
  ultimately show ?thesis
    using srv_loop_step [OF g] w(2) t' fp' by auto
qed

section \<open>A new server\<close>

lemma pool_refines:
  "intmap_ok allocfidpool" "intmap_ok allocreqpool" "inc allocfidpool = incfidref" "inc allocreqpool = increqref"
  "intmap_abs allocfidpool = Map.empty" "intmap_abs allocreqpool = Map.empty"
  by (simp_all add: allocfidpool_def allocreqpool_def allocmap_refines) (simp_all add: allocmap_def)

lemma srv_start_fields [simp]:
  "sv_tree (srv_start s) = sv_tree s" "sv_fs (srv_start s) = sv_fs s" "sv_fids (srv_start s) = sv_fids s"
  "sv_reqs (srv_start s) = sv_reqs s" "sv_next (srv_start s) = sv_next s" "sv_out (srv_start s) = sv_out s"
  "sv_aux (srv_start s) = sv_aux s" "sv_fpool (srv_start s) = allocfidpool" "sv_rpool (srv_start s) = allocreqpool"
  "sv_msize (srv_start s) = (if sv_msize s = 0 then 16408 else sv_msize s)"
  by (simp_all add: srv_start_def changemsize_def Let_def)

lemma srv_start_ready:
  assumes "sv_msize s = 0" "sv_wbuf s = None" and "\<And>a. sv_next s \<le> a \<Longrightarrow> sv_reqs s a = None \<and> sv_fids s a = None"
  shows "srv_ready (srv_start s)" "tag_free tag (srv_start s)"
proof -
  have "buf_ok (srv_start s)" using assms(1,2) by (simp add: srv_start_def changemsize_def buf_ok_def)
  then show "srv_ready (srv_start s)" using assms by (simp add: srv_ready_def pool_refines)
  show "tag_free tag (srv_start s)" by (simp add: tag_free_def pool_refines)
qed

lemma srv_loop_eof: "srv_loop fuel h [] s = Some s"
  by (subst srv_loop.simps) (simp add: getreq_def read9pmsg_def)

lemma fold_nop: "fold (\<lambda>e. nop (snd e)) l s = s"
  by (induction l arbitrary: s) (simp_all add: nop_def)

lemma freemap_none: "freemap m None s = s"
  by (simp add: freemap_concat fold_nop)

lemma srv_end_out:
  "h_destroyfid h = None \<Longrightarrow> h_destroyreq h = None \<Longrightarrow> h_end h = None \<Longrightarrow> sv_out (srv_end h s) = sv_out s \<and> sv_fs (srv_end h s) = sv_fs s \<and> sv_aux (srv_end h s) = sv_aux s"
  by (simp add: srv_end_def Let_def freefidpool_def freereqpool_def freemap_none)

end
