(* ===== verification/SrvProtocol.thy ===== *)
theory SrvProtocol
  imports SrvReply
begin

text \<open>
  The messages that concern the session and other messages: version, flush, a tag used twice,
  and the inputs that end the server.
\<close>

section \<open>Replies that do not fit\<close>

lemma convS2M_too_big:
  assumes "fcall_ok f" and "msg_of f = Some m" and "msg_size m < 2 ^ 32" and "unat nap < msg_size m"
  shows "convS2M f b nap = Some (0, b)"
proof -
  have "(of_nat (msg_size m) :: u32) > nap"
    using assms(3,4) by (simp add: word_less_nat_alt unat_of_nat)
  then show ?thesis
    using sizeS2M_eq [OF assms(1,2)] by (simp add: convS2M_def)
qed

lemma pack_reply_too_big:
  assumes "sv_reqs s r = Some q" and "fcall_ok (reply_fcall q)" and "msg_of (reply_fcall q) = Some m"
    and "msg_size m < 2 ^ 32" and "unat (sv_msize s) < msg_size m"
  shows "pack_reply r s = None"
  using assms convS2M_too_big [OF assms(2-5)]
  by (simp add: pack_reply_def reply_fcall_def Let_def bind_None_iff)

lemma respond_aborts:
  assumes "sv_reqs s r = Some q" and "f_type (rq_ifcall q) \<noteq> Tflush"
    and "\<And>s1. finish h r e (put_req r (q\<lparr>rq_error := e\<rparr>) s) = Some s1 \<Longrightarrow> pack_reply r s1 = None"
  shows "respond fuel h r e s = None"
  using assms by (cases fuel) (auto simp: respond_def respond_body_def calls.simps(1) bind_None_iff)

section \<open>Version\<close>

definition buffers :: "u32 \<Rightarrow> 'x Srv \<Rightarrow> bool" where
  "buffers msize s \<longleftrightarrow> sv_msize s = msize \<and> (\<exists>rb wb. sv_rbuf s = Some rb \<and> sv_wbuf s = Some wb
     \<and> length rb = unat msize \<and> length wb = unat msize)"

lemma changemsize_buffers:
  "(\<And>b. sv_rbuf s = Some b \<Longrightarrow> length b = unat (sv_msize s)) \<Longrightarrow>
   (\<And>b. sv_wbuf s = Some b \<Longrightarrow> length b = unat (sv_msize s)) \<Longrightarrow> buffers msize (changemsize msize s)"
  by (auto simp: buffers_def changemsize_def)

lemma changemsize_fields [simp]:
  "sv_msize (changemsize n s) = n" "sv_reqs (changemsize n s) = sv_reqs s" "sv_fids (changemsize n s) = sv_fids s"
  "sv_rpool (changemsize n s) = sv_rpool s" "sv_fpool (changemsize n s) = sv_fpool s" "sv_fs (changemsize n s) = sv_fs s"
  "sv_out (changemsize n s) = sv_out s" "sv_next (changemsize n s) = sv_next s"
  by (simp_all add: changemsize_def)

lemma serve_version:
  assumes "sv_reqs s r = Some q" and "msg_of (rq_ifcall q) = Some (MTversion ms v)" and "f_version (rq_ifcall q) \<noteq> None"
  shows "serve h r s = Some (Reply None, put_req r (q\<lparr>rq_ofcall := (rq_ofcall q)\<lparr>f_version := Some
      (if take 2 v = ascii ''9P'' then ascii ''9P2000'' else ascii ''unknown''),
      f_msize := (if take 2 v = ascii ''9P'' then ms else f_msize (rq_ofcall q))\<rparr>\<rparr>) s)"
proof -
  have "f_type (rq_ifcall q) = Tversion" "f_msize (rq_ifcall q) = ms" "f_version (rq_ifcall q) = Some v"
    using assms(2,3) by (auto simp: msg_of_def Let_def str_of_def split: if_splits option.splits)
  then show ?thesis
    using assms(1) by (simp add: serve_def sversion_def upd_req_def)
qed

lemma received_version:
  assumes "received tag (MTversion ms v) s q s1"
  shows "serve h (sv_next s) s1 = Some (Reply None, put_req (sv_next s) (q\<lparr>rq_ofcall := zero_fcall\<lparr>f_version := Some
      (if take 2 v = ascii ''9P'' then ascii ''9P2000'' else ascii ''unknown''),
      f_msize := (if take 2 v = ascii ''9P'' then ms else 0)\<rparr>\<rparr>) s1)"
proof -
  have q: "sv_reqs s1 (sv_next s) = Some q" "rq_ofcall q = zero_fcall" "msg_of (rq_ifcall q) = Some (MTversion ms v)"
    "strs_set (rq_ifcall q)"
    using assms by (simp_all add: received_def)
  then have "f_version (rq_ifcall q) \<noteq> None"
    using msg_of_type [OF q(3)] by (simp add: strs_set_def)
  then show ?thesis
    using serve_version [OF q(1,3)] q(2) by (simp add: zero_fcall_def)
qed

definition version_reply :: "Req \<Rightarrow> u32 \<Rightarrow> cstr \<Rightarrow> Req" where
  "version_reply q ms v = q\<lparr>rq_ofcall := zero_fcall\<lparr>f_version := Some
      (if take 2 v = ascii ''9P'' then ascii ''9P2000'' else ascii ''unknown''),
      f_msize := (if take 2 v = ascii ''9P'' then ms else 0)\<rparr>, rq_error := None\<rparr>"

lemma version_reply_msg:
  assumes "msg_of (rq_ifcall q) = Some (MTversion ms v)"
  shows "fcall_ok (reply_fcall (version_reply q ms v))"
    and "msg_of (reply_fcall (version_reply q ms v)) = Some (if take 2 v = ascii ''9P''
      then MRversion ms (ascii ''9P2000'') else MRversion 0 (ascii ''unknown''))"
  using msg_of_type [OF assms]
  by (simp_all add: version_reply_def reply_fcall_def zero_fcall_def fcall_ok_def msg_of_def str_of_def)

text \<open>A client that asks for a version the server does not know, or for messages too small to
  carry the reply, ends the server: the reply no longer fits in the buffers just resized.\<close>

lemma version_aborts:
  assumes r: "srv_ready s" "tag_free tag s" and m: "wf_msg (MTversion ms v)" "msg_size (MTversion ms v) \<le> unat (sv_msize s)"
    and bad: "take 2 v \<noteq> ascii ''9P'' \<or> unat ms < 19"
  shows "srv_loop fuel h (encode tag (MTversion ms v) @ rest) s = None"
proof -
  let ?r = "sv_next s"
  obtain q s1 where rec: "received tag (MTversion ms v) s q s1"
    and g: "getreq fuel h (encode tag (MTversion ms v) @ rest) s = Some (Some ?r, rest, s1)"
    using getreq_receives [OF r m] by metis
  have q: "sv_reqs s1 ?r = Some q" "msg_of (rq_ifcall q) = Some (MTversion ms v)" "rq_error q = None"
    using rec by (simp_all add: received_def)
  let ?q1 = "version_reply q ms v"
  let ?n = "if take 2 v = ascii ''9P'' then ms else 0"
  have t: "f_type (rq_ifcall q) = Tversion" using msg_of_type [OF q(2)] by simp
  have fin: "finish h ?r None (put_req ?r ?q1 s1) = Some (changemsize ?n (put_req ?r ?q1 s1))"
    using t by (simp add: finish_def rversion_def version_reply_def)
  have "pack_reply ?r (changemsize ?n (put_req ?r ?q1 s1)) = None"
    using version_reply_msg [OF q(2)] bad
    by (intro pack_reply_too_big [where q = ?q1]) (auto simp: msg_size_def ascii_def)
  then have "respond fuel h ?r None (put_req ?r (q\<lparr>rq_ofcall := rq_ofcall ?q1\<rparr>) s1) = None"
    using fin t by (intro respond_aborts [where q = "q\<lparr>rq_ofcall := rq_ofcall ?q1\<rparr>"]) (auto simp: version_reply_def)
  then have "dispatch fuel h ?r s1 = None"
    using q received_version [OF rec, of h] by (simp add: dispatch_def version_reply_def)
  then show ?thesis
    using srv_loop_step [OF g] by simp
qed

lemma version_answered:
  assumes r: "srv_ready s" "tag_free tag s" and m: "wf_msg (MTversion ms v)" "msg_size (MTversion ms v) \<le> unat (sv_msize s)"
    and v: "take 2 v = ascii ''9P''" "64 \<le> unat ms" "unat ms < 2 ^ 31" and h: "h_destroyreq h = None" and fuel: "3 \<le> fuel"
  shows "\<exists>s'. srv_loop fuel h (encode tag (MTversion ms v) @ rest) s = srv_loop fuel h rest s'
    \<and> replied s [encode tag (MRversion ms (ascii ''9P2000''))] s' \<and> sv_msize s' = ms
    \<and> sv_fids s' = sv_fids s \<and> sv_fpool s' = sv_fpool s \<and> sv_fs s' = sv_fs s"
proof -
  let ?r = "sv_next s"
  obtain q s1 where rec: "received tag (MTversion ms v) s q s1"
    and g: "getreq fuel h (encode tag (MTversion ms v) @ rest) s = Some (Some ?r, rest, s1)"
    using getreq_receives [OF r m] by metis
  have q: "sv_reqs s1 ?r = Some q" "msg_of (rq_ifcall q) = Some (MTversion ms v)" "rq_error q = None"
      "fresh_req q" "f_tag (rq_ifcall q) = tag" "rq_fid q = None" "rq_newfid q = None" "rq_afid q = None"
    and s1: "sv_rpool s1 = snd (caninsertkey (sv_rpool s) (ucast tag) ?r)" "sv_msize s1 = sv_msize s" "sv_wbuf s1 = sv_wbuf s"
      "sv_fids s1 = sv_fids s" "sv_fpool s1 = sv_fpool s" "sv_fs s1 = sv_fs s" "sv_next s1 = sv_next s + 1" "sv_out s1 = sv_out s"
    using rec by (simp_all add: received_def)
  let ?q1 = "version_reply q ms v" and ?m = "MRversion ms (ascii ''9P2000'')"
  let ?q0 = "q\<lparr>rq_ofcall := rq_ofcall ?q1\<rparr>"
  have q01: "?q0\<lparr>rq_error := None\<rparr> = ?q1" "rq_ifcall ?q1 = rq_ifcall q" by (simp_all add: version_reply_def)
  let ?s2 = "changemsize ms (put_req ?r ?q1 s1)"
  have t: "f_type (rq_ifcall q) = Tversion" using msg_of_type [OF q(2)] by simp
  have fin: "finish h ?r None (put_req ?r ?q1 s1) = Some ?s2"
    using t v(1) by (simp add: finish_def rversion_def version_reply_def)
  have rp: "intmap_ok (sv_rpool s1)" "intmap_abs (sv_rpool s1) (ucast tag) = Some ?r"
    using caninsertkey_refines [OF srv_readyD(2) [OF r(1)], of "ucast tag" ?r] r(2) s1(1)
    by (simp_all add: tag_free_def)
  have b: "buf_ok ?s2"
    using srv_readyD(5) [OF r(1)] s1(2,3) v(3) by (auto simp: buf_ok_def changemsize_def)
  have f1: "fresh_req ?q1" using q(4) by (simp add: fresh_req_def version_reply_def)
  have "\<exists>w. length w = unat (sv_msize ?s2) \<and> respond fuel h ?r None (put_req ?r ?q0 s1) = do {
      s \<leftarrow> close_opt h (rq_fid ?q1) (answered ?r (?q1\<lparr>rq_ofcall := reply_fcall ?q1\<rparr>) w (encode (f_tag (rq_ifcall ?q0)) ?m) ?s2);
      s \<leftarrow> close_opt h (rq_newfid ?q1) s;
      s \<leftarrow> close_opt h (rq_afid ?q1) s;
      Some (free_req h ?r s) }"
    by (rule respond_fresh) (use q q01 fin t f1 rp b v fuel version_reply_msg [OF q(2)]
        in \<open>simp_all add: fresh_req_def msg_size_def ascii_def\<close>)
  then obtain w where w: "length w = unat ms"
    "dispatch fuel h ?r s1 = Some (free_req h ?r (answered ?r (?q1\<lparr>rq_ofcall := reply_fcall ?q1\<rparr>) w (encode tag ?m) ?s2))"
    using q received_version [OF rec, of h] by (auto simp: dispatch_def version_reply_def close_opt_def)
  let ?s3 = "answered ?r (?q1\<lparr>rq_ofcall := reply_fcall ?q1\<rparr>) w (encode tag ?m) ?s2"
  have "replied s [encode tag ?m] (free_req h ?r ?s3)"
    by (rule answered_replied [OF r rec h, of "?q1\<lparr>rq_ofcall := reply_fcall ?q1\<rparr>"])
      (use q q01 s1 w(1) v srv_readyD [OF r(1)] in \<open>simp_all add: answered_def buf_ok_def\<close>)
  then show ?thesis
    using srv_loop_step [OF g] w(2) h s1 by (intro exI [of _ "free_req h ?r ?s3"]) (simp add: free_req_def answered_def)
qed

section \<open>Messages that are not requests\<close>

definition is_reply :: "msg \<Rightarrow> bool" where
  "is_reply m \<longleftrightarrow> msg_type m \<in> {Rversion, Rauth, Rattach, Rerror, Rflush, Rwalk, Ropen, Rcreate, Rread, Rwrite,
     Rclunk, Rremove, Rstat, Rwstat}"

lemma reply_aborts:
  assumes r: "srv_ready s" "tag_free tag s" and m: "wf_msg m" "msg_size m \<le> unat (sv_msize s)" and rep: "is_reply m"
  shows "srv_loop fuel h (encode tag m @ rest) s = None"
proof -
  let ?r = "sv_next s"
  obtain q s1 where rec: "received tag m s q s1"
    and g: "getreq fuel h (encode tag m @ rest) s = Some (Some ?r, rest, s1)"
    using getreq_receives [OF r m] by metis
  have q: "sv_reqs s1 ?r = Some q" "msg_of (rq_ifcall q) = Some m" "rq_error q = None"
    using rec by (simp_all add: received_def)
  have t: "f_type (rq_ifcall q) = msg_type m" by (rule msg_of_type [OF q(2)])
  have "serve h ?r s1 = Some (Reply (Some (ascii ''unknown message'')), s1)"
    using q(1) t rep by (auto simp: serve_def is_reply_def)
  moreover have "respond fuel h ?r e s1 = None" for e
    using q(1) t rep by (intro respond_aborts [where q = q]) (auto simp: finish_def is_reply_def)
  ultimately have "dispatch fuel h ?r s1 = None"
    using q by (simp add: dispatch_def)
  then show ?thesis
    using srv_loop_step [OF g] by simp
qed

section \<open>A tag used twice\<close>

text \<open>The request \<open>getreq\<close> makes up when the tag is in use.\<close>

definition duplicate :: "u16 \<Rightarrow> msg \<Rightarrow> 'x Srv \<Rightarrow> Req \<Rightarrow> 'x Srv \<Rightarrow> bool" where
  "duplicate tag m s q s' \<longleftrightarrow> s' = put_req (sv_next s + 1) q (s\<lparr>sv_next := sv_next s + 2\<rparr>)
     \<and> \<not> rq_responded q \<and> \<not> rq_pool q \<and> rq_flush q = [] \<and> rq_error q = Some Eduptag
     \<and> msg_of (rq_ifcall q) = Some m \<and> f_tag (rq_ifcall q) = tag \<and> rq_ofcall q = zero_fcall
     \<and> rq_fid q = None \<and> rq_newfid q = None \<and> rq_afid q = None"

lemma put_req_None:
  "sv_reqs s a = None \<Longrightarrow> (put_req a q s)\<lparr>sv_reqs := (sv_reqs (put_req a q s))(a := None)\<rparr> = s"
  by (simp add: put_req_def fun_upd_idem)

lemma allocreq_duplicate:
  assumes "srv_ready s" and "\<not> tag_free tag s" and "h_destroyreq h = None" and "2 \<le> fuel"
  shows "allocreq fuel h (ucast tag) s = Some (None, s\<lparr>sv_next := sv_next s + 1\<rparr>)"
proof -
  let ?a = "sv_next s"
  obtain n where "fuel = 2 + n" using le_Suc_ex [OF assms(4)] by auto
  then have f: "fuel = Suc (Suc n)" by simp
  have ci: "caninsertkey (sv_rpool s) (ucast tag) ?a = (False, snd (caninsertkey (sv_rpool s) (ucast tag) ?a))"
    using caninsertkey_refines(1) [OF srv_readyD(2) [OF assms(1)], of "ucast tag" ?a] assms(2)
    by (simp add: prod_eq_iff tag_free_def)
  then obtain m' where ci: "caninsertkey (sv_rpool s) (ucast tag) ?a = (False, m')" by metis
  have "sv_reqs (s\<lparr>sv_next := ?a + 1\<rparr>) ?a = None"
    using srv_readyD(7) [OF assms(1), of ?a] by simp
  note free = put_req_None [OF this]
  show ?thesis
    unfolding allocreq_def Let_def put_req_increqref
    using ci free assms(3)
    by (simp add: f closereq_def closereq_body_def zero_req_def close_opt_def free_req_def)
qed

lemma getreq_duplicate:
  assumes r: "srv_ready s" "\<not> tag_free tag s" and m: "wf_msg m" "msg_size m \<le> unat (sv_msize s)"
    and h: "h_destroyreq h = None" and fuel: "2 \<le> fuel"
  shows "\<exists>q s'. duplicate tag m s q s' \<and> getreq fuel h (encode tag m @ rest) s = Some (Some (sv_next s + 1), rest, s')"
proof -
  have small: "unat (sv_msize s) < 2 ^ 31" using srv_readyD(5) [OF r(1)] by (simp add: buf_ok_def)
  have n: "read9pmsg (encode tag m @ rest) (sv_msize s) = (int (msg_size m), encode tag m, rest)"
    by (rule read9pmsg_encode [OF m(2) small])
  have u: "msg_size m \<le> unat (of_nat (msg_size m) :: u32)"
    using m(2) small by (simp add: unat_of_nat)
  obtain f b where f: "convM2S 0 (encode tag m) (of_nat (msg_size m)) zero_fcall = Some (of_nat (msg_size m), f, b)"
    "msg_of f = Some m" "f_tag f = tag"
    using convM2S_decode [OF m(1) u, of 0 zero_fcall tag "[]"] unsigned_less [of "of_nat (msg_size m) :: u32", where 'a = nat]
    by (auto simp: zero_fcall_def)
  let ?q = "zero_req\<lparr>rq_ref := 1, rq_tag := ucast tag, rq_ifcall := f, rq_error := Some Eduptag\<rparr>"
  have "getreq fuel h (encode tag m @ rest) s
      = Some (Some (sv_next s + 1), rest, put_req (sv_next s + 1) ?q (s\<lparr>sv_next := sv_next s + 2\<rparr>))"
    using n f allocreq_duplicate [OF r h fuel] by (simp add: getreq_def msg_size_def Let_def)
  moreover have "duplicate tag m s ?q (put_req (sv_next s + 1) ?q (s\<lparr>sv_next := sv_next s + 2\<rparr>))"
    using f by (simp add: duplicate_def zero_req_def)
  ultimately show ?thesis by blast
qed

lemma duplicate_aborts:
  assumes r: "srv_ready s" "\<not> tag_free tag s" and m: "wf_msg m" "msg_size m \<le> unat (sv_msize s)"
    and h: "h_destroyreq h = None" and fuel: "2 \<le> fuel" and t: "msg_type m = Tflush \<or> msg_type m = Tversion"
  shows "srv_loop fuel h (encode tag m @ rest) s = None"
proof -
  let ?r = "sv_next s + 1"
  obtain q s1 where d: "duplicate tag m s q s1" and g: "getreq fuel h (encode tag m @ rest) s = Some (Some ?r, rest, s1)"
    using getreq_duplicate [OF r m h fuel] by blast
  have q: "sv_reqs s1 ?r = Some q" "rq_error q = Some Eduptag" "f_type (rq_ifcall q) = msg_type m"
    using d msg_of_type by (auto simp: duplicate_def)
  have "respond fuel h ?r (Some Eduptag) s1 = None"
    using q t by (cases fuel) (auto simp: respond_def calls.simps(1) respond_body_def rflush_def finish_def rversion_def)
  then show ?thesis
    using srv_loop_step [OF g] q by (simp add: dispatch_def)
qed

lemma respond_fake:
  assumes q: "sv_reqs s r = Some q" "\<not> rq_responded q" "\<not> rq_pool q" "rq_flush q = []"
    and t: "f_type (rq_ifcall q) \<noteq> Tflush"
    and fin: "finish h r (Some e) (put_req r (q\<lparr>rq_error := Some e\<rparr>) s) = Some (put_req r (q\<lparr>rq_error := Some e\<rparr>) s)"
    and b: "buf_ok s" and ofc: "rq_ofcall q = zero_fcall" and sz: "msg_size (MRerror e) \<le> unat (sv_msize s)" and fuel: "2 \<le> fuel"
  shows "\<exists>w. length w = unat (sv_msize s) \<and> respond fuel h r (Some e) s
    = Some (s\<lparr>sv_wbuf := Some w, sv_out := sv_out s @ [encode (f_tag (rq_ifcall q)) (MRerror e)],
        sv_reqs := (sv_reqs s)(r := None)\<rparr>)"
proof -
  obtain n where "fuel = 2 + n" using le_Suc_ex [OF fuel] by auto
  then have f: "fuel = Suc (Suc n)" by simp
  let ?q = "q\<lparr>rq_error := Some e\<rparr>"
  let ?q2 = "?q\<lparr>rq_ofcall := reply_fcall ?q\<rparr>"
  have m: "msg_of (reply_fcall ?q) = Some (MRerror e)" "fcall_ok (reply_fcall ?q)"
    using reply_error [of ?q e] ofc by simp_all
  obtain w where w: "pack_reply r (put_req r ?q s)
      = Some (msg_size (MRerror e), (put_req r ?q2 (put_req r ?q s))\<lparr>sv_wbuf := Some w\<rparr>)"
    "take (msg_size (MRerror e)) w = encode (f_tag (rq_ifcall ?q)) (MRerror e)" "length w = unat (sv_msize s)"
    using pack_reply_encodes [of "put_req r ?q s" r ?q "MRerror e"] b m sz by (auto simp: buf_ok_def)
  have rd: "mread w 0 (msg_size (MRerror e)) = Some (encode (f_tag (rq_ifcall q)) (MRerror e))"
    using w sz by (simp add: mread_def)
  have "(put_req r q' s)\<lparr>sv_reqs := (sv_reqs s)(r := None)\<rparr> = s\<lparr>sv_reqs := (sv_reqs s)(r := None)\<rparr>" for q' and s :: "'x Srv"
    by (simp add: put_req_def)
  then show ?thesis
    using q t fin w rd unfolding f respond_def calls_simps(1) respond_body_def
    by (intro exI [of _ w]) (simp add: write_reply_def upd_req_def put_req_def)
qed

lemma duplicate_answered:
  assumes r: "srv_ready s" "\<not> tag_free tag s" and m: "wf_msg m" "msg_size m \<le> unat (sv_msize s)"
    and h: "h_destroyreq h = None" and fuel: "2 \<le> fuel"
    and t: "msg_fid m \<noteq> None \<or> msg_type m = Tattach \<or> msg_type m = Tauth"
  shows "\<exists>s'. srv_loop fuel h (encode tag m @ rest) s = srv_loop fuel h rest s'
    \<and> replied s [encode tag (MRerror Eduptag)] s' \<and> sv_msize s' = sv_msize s
    \<and> sv_fids s' = sv_fids s \<and> sv_fpool s' = sv_fpool s \<and> sv_fs s' = sv_fs s"
proof -
  let ?r = "sv_next s + 1"
  obtain q s1 where d: "duplicate tag m s q s1" and g: "getreq fuel h (encode tag m @ rest) s = Some (Some ?r, rest, s1)"
    using getreq_duplicate [OF r m h fuel] by blast
  have q: "sv_reqs s1 ?r = Some q" "rq_error q = Some Eduptag" "\<not> rq_responded q" "\<not> rq_pool q" "rq_flush q = []"
      "rq_ofcall q = zero_fcall" "rq_newfid q = None" "rq_fid q = None" "rq_afid q = None" "f_tag (rq_ifcall q) = tag"
    and s1: "s1 = put_req ?r q (s\<lparr>sv_next := sv_next s + 2\<rparr>)" and ty: "f_type (rq_ifcall q) = msg_type m"
    using d msg_of_type by (auto simp: duplicate_def)
  have b: "buf_ok s1" using srv_readyD(5) [OF r(1)] by (simp add: s1 buf_ok_def)
  have fl: "f_type (rq_ifcall q) \<noteq> Tflush" using t ty by (cases m) auto
  have fin: "finish h ?r (Some Eduptag) (put_req ?r (q\<lparr>rq_error := Some Eduptag\<rparr>) s1)
      = Some (put_req ?r (q\<lparr>rq_error := Some Eduptag\<rparr>) s1)"
  proof (cases "msg_fid m \<noteq> None")
    case True
    then show ?thesis
      using q ty by (intro finish_error [of _ _ "q\<lparr>rq_error := Some Eduptag\<rparr>" m]) simp_all
  next
    case False
    then show ?thesis using t ty q by (auto simp: finish_def rattach_def rauth_def)
  qed
  have sz: "msg_size (MRerror Eduptag) \<le> unat (sv_msize s1)"
    using error_fits [OF _ srv_readyD(6) [OF r(1)], of Eduptag] s1 by (simp add: Eduptag_def ascii_def)
  obtain w where w: "length w = unat (sv_msize s)" "respond fuel h ?r (Some Eduptag) s1
    = Some (s1\<lparr>sv_wbuf := Some w, sv_out := sv_out s @ [encode tag (MRerror Eduptag)], sv_reqs := (sv_reqs s1)(?r := None)\<rparr>)"
    using respond_fake [OF q(1,3,4,5) fl fin b q(6) sz fuel] q(10) s1 by auto
  let ?s2 = "s1\<lparr>sv_wbuf := Some w, sv_out := sv_out s @ [encode tag (MRerror Eduptag)], sv_reqs := (sv_reqs s1)(?r := None)\<rparr>"
  have reqs: "sv_reqs ?s2 = sv_reqs s"
    using srv_readyD(7) [OF r(1), of ?r] by (auto simp: s1)
  then have "replied s [encode tag (MRerror Eduptag)] ?s2"
    using srv_readyD [OF r(1)] s1 w(1) unfolding replied_def srv_ready_def reqs by (simp add: buf_ok_def)
  then show ?thesis
    using srv_loop_step [OF g] q(1,2) w(2) s1 by (intro exI [of _ ?s2]) (simp add: dispatch_def)
qed

end
