(* ===== verification/SrvFlush.thy ===== *)
theory SrvFlush
  imports SrvProtocol
begin

text \<open>
  Flush.  A \<open>Tflush\<close> for a request that is still being worked on waits for it: its reply comes
  after the reply of the request it flushes.
\<close>

lemma received_flush:
  assumes "received tag (MTflush old) s q s1"
  shows "f_type (rq_ifcall q) = Tflush" "f_oldtag (rq_ifcall q) = old"
  using assms by (auto simp: received_def msg_of_def Let_def split: if_splits)

lemma serve_flush:
  assumes "sv_reqs s r = Some q" and "f_type (rq_ifcall q) = Tflush" and "f_oldtag (rq_ifcall q) = old"
  shows "serve h r s = sflush h r s"
  using assms by (simp add: serve_def)

lemma lookupreq_eq:
  "lookupreq tag s = (intmap_abs (sv_rpool s) tag, s\<lparr>sv_reqs := (case intmap_abs (sv_rpool s) tag of
     None \<Rightarrow> sv_reqs s | Some a \<Rightarrow> inc (sv_rpool s) a (sv_reqs s))\<rparr>)"
  by (simp add: lookupreq_def lookupkey_refines)

lemma ucast_back: "ucast (ucast (a :: u16) :: u32) = a"
  by (rule bit_word_eqI) (auto simp: bit_simps)

lemma tag_key_eq [simp]: "(ucast (a :: u16) :: u32) = ucast b \<longleftrightarrow> a = b"
  by (metis ucast_back)

section \<open>Nothing to flush\<close>

lemma flush_reply_msg:
  assumes "f_type (rq_ifcall q) = Tflush" and "rq_ofcall q = zero_fcall" and "rq_error q = None"
  shows "msg_of (reply_fcall q) = Some MRflush" and "fcall_ok (reply_fcall q)"
  using assms by (simp_all add: reply_fcall_def msg_of_def)

lemma flush_absent_answered:
  assumes r: "srv_ready s" "tag_free tag s" and old: "tag_free old s" "old \<noteq> tag"
    and h: "h_destroyreq h = None" and fuel: "3 \<le> fuel"
  shows "\<exists>s'. srv_loop fuel h (encode tag (MTflush old) @ rest) s = srv_loop fuel h rest s'
    \<and> replied s [encode tag MRflush] s' \<and> sv_msize s' = sv_msize s
    \<and> sv_fids s' = sv_fids s \<and> sv_fpool s' = sv_fpool s \<and> sv_fs s' = sv_fs s"
proof -
  let ?r = "sv_next s" and ?m = "MTflush old"
  have "wf_msg ?m" "msg_size ?m \<le> unat (sv_msize s)"
    using srv_readyD(6) [OF r(1)] by (simp_all add: wf_msg_def msg_size_def)
  then obtain q s1 where rec: "received tag ?m s q s1"
    and g: "getreq fuel h (encode tag ?m @ rest) s = Some (Some ?r, rest, s1)"
    using getreq_receives [OF r] by metis
  note t = received_flush [OF rec]
  have q: "sv_reqs s1 ?r = Some q" "rq_error q = None" "fresh_req q" "f_tag (rq_ifcall q) = tag" "rq_fid q = None"
      "rq_newfid q = None" "rq_afid q = None" "rq_ofcall q = zero_fcall" "rq_oldreq q = None"
    and s1: "sv_rpool s1 = snd (caninsertkey (sv_rpool s) (ucast tag) ?r)" "sv_msize s1 = sv_msize s" "sv_wbuf s1 = sv_wbuf s"
      "sv_fids s1 = sv_fids s" "sv_fpool s1 = sv_fpool s" "sv_fs s1 = sv_fs s" "sv_next s1 = sv_next s + 1" "sv_out s1 = sv_out s"
    using rec by (simp_all add: received_def fresh_req_def)
  have same: "put_req ?r q s1 = s1" using q(1) by (simp add: put_req_def fun_upd_idem)
  have rp: "intmap_ok (sv_rpool s1)" "intmap_abs (sv_rpool s1) (ucast tag) = Some ?r"
    "intmap_abs (sv_rpool s1) (ucast old) = None"
    using caninsertkey_refines [OF srv_readyD(2) [OF r(1)], of "ucast tag" ?r] r(2) s1(1) old
    by (simp_all add: tag_free_def)
  have qe: "q\<lparr>rq_error := None\<rparr> = q" "q\<lparr>rq_oldreq := None\<rparr> = q" using q by simp_all
  have "serve h ?r s1 = Some (Reply None, s1)"
    using q(1) t rp(3) same by (simp add: serve_def sflush_def lookupreq_eq upd_req_def qe)
  then have d: "dispatch fuel h ?r s1 = respond fuel h ?r None s1"
    using q by (simp add: dispatch_def)
  have fin: "(if f_type (rq_ifcall q) = Tflush then rflush c ?r None (put_req ?r (q\<lparr>rq_error := None\<rparr>) s1)
      else do { s \<leftarrow> finish h ?r None (put_req ?r (q\<lparr>rq_error := None\<rparr>) s1); Some (False, s) }) = Some (False, s1)" for c
    using t q(1,9) same by (simp add: rflush_def upd_req_def qe)
  have b: "buf_ok s1" using srv_readyD(5) [OF r(1)] s1 by (simp add: buf_ok_def)
  obtain w where w: "length w = unat (sv_msize s)"
    "dispatch fuel h ?r s1 = Some (free_req h ?r (answered ?r (q\<lparr>rq_ofcall := reply_fcall q\<rparr>) w (encode tag MRflush) s1))"
    using respond_fresh_gen [OF q(1,3) fin q(1,3) refl, of MRflush fuel] q rp b flush_reply_msg [OF t(1) q(8,2)] fuel d s1(2)
      srv_readyD(6) [OF r(1)] by (auto simp: msg_size_def close_opt_def)
  let ?s2 = "answered ?r (q\<lparr>rq_ofcall := reply_fcall q\<rparr>) w (encode tag MRflush) s1"
  have "replied s [encode tag MRflush] (free_req h ?r ?s2)"
    by (rule answered_replied [OF r rec h, of "q\<lparr>rq_ofcall := reply_fcall q\<rparr>"])
      (use q s1 w(1) srv_readyD [OF r(1)] in \<open>simp_all add: answered_def buf_ok_def\<close>)
  then show ?thesis
    using srv_loop_step [OF g] w(2) h s1 by (intro exI [of _ "free_req h ?r ?s2"]) (simp add: free_req_def answered_def)
qed

section \<open>A flush of itself\<close>

text \<open>A flush whose own tag is the one it flushes is put on its own list of waiting flushes: no
  reply is ever sent, and the tag stays in use.\<close>

lemma flush_self_waits:
  assumes r: "srv_ready s" "tag_free tag s" and fuel: "1 \<le> fuel"
  shows "\<exists>s' q. srv_loop fuel h (encode tag (MTflush tag) @ rest) s = srv_loop fuel h rest s'
    \<and> sv_out s' = sv_out s \<and> intmap_abs (sv_rpool s') (ucast tag) = Some (sv_next s)
    \<and> sv_reqs s' (sv_next s) = Some q \<and> rq_flush q = [sv_next s] \<and> \<not> rq_responded q"
proof -
  let ?r = "sv_next s" and ?m = "MTflush tag"
  have "wf_msg ?m" "msg_size ?m \<le> unat (sv_msize s)"
    using srv_readyD(6) [OF r(1)] by (simp_all add: wf_msg_def msg_size_def)
  then obtain q s1 where rec: "received tag ?m s q s1"
    and g: "getreq fuel h (encode tag ?m @ rest) s = Some (Some ?r, rest, s1)"
    using getreq_receives [OF r] by metis
  note t = received_flush [OF rec]
  have q: "sv_reqs s1 ?r = Some q" "rq_error q = None" "fresh_req q"
    and s1: "sv_rpool s1 = snd (caninsertkey (sv_rpool s) (ucast tag) ?r)" "sv_out s1 = sv_out s"
    using rec by (simp_all add: received_def)
  have rp: "intmap_abs (sv_rpool s1) (ucast tag) = Some ?r" "inc (sv_rpool s1) = increqref"
    using caninsertkey_refines [OF srv_readyD(2) [OF r(1)], of "ucast tag" ?r] r(2) s1(1) srv_readyD(4) [OF r(1)]
    by (simp_all add: tag_free_def)
  let ?q = "q\<lparr>rq_ref := rq_ref q + 1, rq_oldreq := Some ?r\<rparr>"
  have lk: "s1\<lparr>sv_reqs := increqref ?r (sv_reqs s1)\<rparr> = put_req ?r (q\<lparr>rq_ref := rq_ref q + 1\<rparr>) s1"
    using q(1) by (simp add: increqref_def put_req_def)
  have "serve h ?r s1 = Some (Reply None, put_req ?r ?q s1)"
    using q t rp lk by (simp add: serve_def sflush_def lookupreq_eq upd_req_def increqref_def)
  moreover have "respond fuel h ?r None (put_req ?r ?q s1)
      = Some (put_req ?r (?q\<lparr>rq_error := None, rq_flush := [?r]\<rparr>) s1)"
    using fuel t q(3)
    by (cases fuel) (simp_all add: respond_def respond_body_def rflush_def upd_req_def fresh_req_def)
  ultimately have "dispatch fuel h ?r s1 = Some (put_req ?r (?q\<lparr>rq_error := None, rq_flush := [?r]\<rparr>) s1)"
    using q by (simp add: dispatch_def)
  then show ?thesis
    using srv_loop_step [OF g] s1(2) rp(1) q(3)
    by (intro exI [of _ "put_req ?r (?q\<lparr>rq_error := None, rq_flush := [?r]\<rparr>) s1"]
        exI [of _ "?q\<lparr>rq_error := None, rq_flush := [?r]\<rparr>"]) (simp add: fresh_req_def)
qed

section \<open>Waiting for the request flushed\<close>

text \<open>A request \<open>p\<close> that a handler is still working on, and the flush \<open>r\<close> that waits for it.\<close>

definition waiting :: "addr \<Rightarrow> Req \<Rightarrow> addr \<Rightarrow> Req \<Rightarrow> 'x Srv \<Rightarrow> bool" where
  "waiting p qp r qr s \<longleftrightarrow> p \<noteq> r \<and> sv_reqs s p = Some qp \<and> sv_reqs s r = Some qr
     \<and> \<not> rq_responded qp \<and> rq_pool qp \<and> rq_ref qp = 3 \<and> rq_flush qp = [r] \<and> rq_oldreq qp = None
     \<and> f_type (rq_ifcall qp) \<noteq> Tflush
     \<and> \<not> rq_responded qr \<and> rq_pool qr \<and> rq_ref qr = 2 \<and> rq_flush qr = [] \<and> rq_oldreq qr = Some p
     \<and> f_type (rq_ifcall qr) = Tflush \<and> rq_ofcall qr = zero_fcall
     \<and> rq_fid qr = None \<and> rq_newfid qr = None \<and> rq_afid qr = None
     \<and> f_tag (rq_ifcall qp) \<noteq> f_tag (rq_ifcall qr)
     \<and> intmap_abs (sv_rpool s) (ucast (f_tag (rq_ifcall qp))) = Some p
     \<and> intmap_abs (sv_rpool s) (ucast (f_tag (rq_ifcall qr))) = Some r"

text \<open>The flush is put at the end of the queue of the request, which keeps the flushes that are there.  A flush function that only
  responds makes no difference.\<close>

lemma flush_queued:
  assumes r: "srv_ready s" "tag_free tag s"
    and p: "intmap_abs (sv_rpool s) (ucast old) = Some p" "sv_reqs s p = Some qp" "\<not> rq_responded qp"
    and h: "h_flush h = None \<or> h_flush h = Some (\<lambda>r t. Some (Reply None, t))" and fuel: "1 \<le> fuel"
  shows "\<exists>s' qr. srv_loop fuel h (encode tag (MTflush old) @ rest) s = srv_loop fuel h rest s' \<and> srv_ready s' \<and> sv_out s' = sv_out s
    \<and> sv_reqs s' = (sv_reqs s)(p \<mapsto> qp\<lparr>rq_ref := rq_ref qp + 1, rq_flush := rq_flush qp @ [sv_next s]\<rparr>, sv_next s \<mapsto> qr)
    \<and> sv_next s' = sv_next s + 1 \<and> intmap_abs (sv_rpool s') = (intmap_abs (sv_rpool s))(ucast tag \<mapsto> sv_next s)
    \<and> f_type (rq_ifcall qr) = Tflush \<and> f_tag (rq_ifcall qr) = tag \<and> rq_oldreq qr = Some p \<and> \<not> rq_responded qr \<and> rq_pool qr \<and> rq_ref qr = 2
    \<and> rq_flush qr = [] \<and> rq_ofcall qr = zero_fcall \<and> rq_fid qr = None \<and> rq_newfid qr = None \<and> rq_afid qr = None"
proof -
  let ?r = "sv_next s" and ?m = "MTflush old"
  have "wf_msg ?m" "msg_size ?m \<le> unat (sv_msize s)"
    using srv_readyD(6) [OF r(1)] by (simp_all add: wf_msg_def msg_size_def)
  then obtain q s1 where rec: "received tag ?m s q s1"
    and g: "getreq fuel h (encode tag ?m @ rest) s = Some (Some ?r, rest, s1)"
    using getreq_receives [OF r] by metis
  note t = received_flush [OF rec]
  have pr: "p \<noteq> ?r" using p(2) srv_readyD(7) [OF r(1), of ?r] by auto
  have ne: "old \<noteq> tag" using r(2) p(1) by (auto simp: tag_free_def)
  have q: "sv_reqs s1 ?r = Some q" "rq_error q = None" "fresh_req q" "f_tag (rq_ifcall q) = tag" "rq_fid q = None"
      "rq_newfid q = None" "rq_afid q = None" "rq_ofcall q = zero_fcall"
    and s1: "sv_rpool s1 = snd (caninsertkey (sv_rpool s) (ucast tag) ?r)" "sv_reqs s1 p = Some qp"
      "s1 = put_req ?r q (s\<lparr>sv_next := ?r + 1, sv_rpool := snd (caninsertkey (sv_rpool s) (ucast tag) ?r)\<rparr>)"
    using rec p(2) pr by (simp_all add: received_def)
  have rp: "intmap_abs (sv_rpool s1) = (intmap_abs (sv_rpool s))(ucast tag \<mapsto> ?r)" "inc (sv_rpool s1) = increqref" "intmap_ok (sv_rpool s1)"
    using caninsertkey_refines [OF srv_readyD(2) [OF r(1)], of "ucast tag" ?r] r(2) s1(1) srv_readyD(4) [OF r(1)]
    by (simp_all add: tag_free_def)
  let ?q = "q\<lparr>rq_oldreq := Some p\<rparr>" and ?p = "qp\<lparr>rq_ref := rq_ref qp + 1\<rparr>"
  let ?f = "qp\<lparr>rq_ref := rq_ref qp + 1, rq_flush := rq_flush qp @ [?r]\<rparr>"
  have lk: "s1\<lparr>sv_reqs := increqref p (sv_reqs s1)\<rparr> = put_req p ?p s1"
    using s1(2) by (simp add: increqref_def put_req_def)
  have "serve h ?r s1 = Some (Reply None, put_req ?r ?q (put_req p ?p s1))"
    using q t rp lk pr ne h p(1) by (auto simp: serve_def sflush_def lookupreq_eq upd_req_def increqref_def split: option.split)
  moreover have "respond fuel h ?r None (put_req ?r ?q (put_req p ?p s1)) = Some (put_req p ?f (put_req ?r (?q\<lparr>rq_error := None\<rparr>) (put_req p ?p s1)))"
    using fuel t q(3) p(3) pr
    by (cases fuel) (simp_all add: respond_def respond_body_def rflush_def upd_req_def fresh_req_def)
  ultimately have d: "dispatch fuel h ?r s1 = Some (put_req p ?f (put_req ?r (?q\<lparr>rq_error := None\<rparr>) (put_req p ?p s1)))"
    using q by (simp add: dispatch_def)
  let ?s = "put_req p ?f (put_req ?r (?q\<lparr>rq_error := None\<rparr>) (put_req p ?p s1))"
  have n: "sv_next s1 = ?r + 1" "sv_fids s1 = sv_fids s" "sv_fpool s1 = sv_fpool s" "sv_out s1 = sv_out s" "sv_msize s1 = sv_msize s" "sv_wbuf s1 = sv_wbuf s"
    "sv_reqs s1 = (sv_reqs s)(?r \<mapsto> q)" unfolding s1(3) by (simp_all add: put_req_def)
  have lt: "p < ?r" using p(2) srv_readyD(7) [OF r(1), of p] by (cases "?r \<le> p") auto
  have e: "sv_reqs ?s = (sv_reqs s)(p \<mapsto> ?f, ?r \<mapsto> ?q\<lparr>rq_error := None\<rparr>)" using n(7) pr by (auto simp: fun_eq_iff)
  have "srv_ready ?s" using srv_readyD [OF r(1)] rp lt n unfolding srv_ready_def e by (simp add: buf_ok_def)
  then show ?thesis
    using srv_loop_step [OF g] d n e rp q t
    by (intro exI [of _ ?s] exI [of _ "?q\<lparr>rq_error := None\<rparr>"]) (simp add: fresh_req_def)
qed

text \<open>The first flush of a request that a handler works on.\<close>

lemma flush_queued_waiting:
  assumes "sv_reqs s' = (sv_reqs s)(p \<mapsto> qp\<lparr>rq_ref := rq_ref qp + 1, rq_flush := rq_flush qp @ [r]\<rparr>, r \<mapsto> qr)" and "p \<noteq> r"
    and "intmap_abs (sv_rpool s') = (intmap_abs (sv_rpool s))(ucast tag \<mapsto> r)" and "intmap_abs (sv_rpool s) (ucast old) = Some p" and "old \<noteq> tag"
    and "fresh_req qp" "f_tag (rq_ifcall qp) = old" "f_type (rq_ifcall qp) \<noteq> Tflush"
    and "f_type (rq_ifcall qr) = Tflush" "f_tag (rq_ifcall qr) = tag" "rq_oldreq qr = Some p" "\<not> rq_responded qr" "rq_pool qr" "rq_ref qr = 2"
      "rq_flush qr = []" "rq_ofcall qr = zero_fcall" "rq_fid qr = None" "rq_newfid qr = None" "rq_afid qr = None"
  shows "waiting p (qp\<lparr>rq_ref := 3, rq_flush := [r]\<rparr>) r qr s'"
  using assms by (simp add: waiting_def fresh_req_def)

text \<open>Answering the flush, once the request it waits for has been answered.\<close>

lemma respond_flush:
  assumes q: "sv_reqs s r = Some qr" "\<not> rq_responded qr" "rq_pool qr" "rq_ref qr = 2" "rq_flush qr = []"
      "rq_oldreq qr = Some p" "f_type (rq_ifcall qr) = Tflush" "rq_ofcall qr = zero_fcall"
      "rq_fid qr = None" "rq_newfid qr = None" "rq_afid qr = None"
    and p: "sv_reqs s p = Some qp" "rq_responded qp" "rq_ref qp = 2" "p \<noteq> r"
    and rp: "intmap_ok (sv_rpool s)" "intmap_abs (sv_rpool s) (ucast (f_tag (rq_ifcall qr))) = Some r"
    and b: "buf_ok s" "64 \<le> unat (sv_msize s)" and h: "h_destroyreq h = None"
  shows "\<exists>w. length w = unat (sv_msize s) \<and> calls (Suc (Suc (Suc n))) h (CRespond r None) s
    = Some ((put_req p (qp\<lparr>rq_ref := 1\<rparr>) s)\<lparr>sv_wbuf := Some w,
        sv_rpool := snd (deletekey (sv_rpool s) (ucast (f_tag (rq_ifcall qr)))),
        sv_out := sv_out s @ [encode (f_tag (rq_ifcall qr)) MRflush],
        sv_reqs := (sv_reqs s)(p \<mapsto> qp\<lparr>rq_ref := 1\<rparr>, r := None)\<rparr>)"
proof -
  let ?q1 = "qr\<lparr>rq_error := None, rq_oldreq := None\<rparr>"
  let ?q2 = "?q1\<lparr>rq_ofcall := reply_fcall ?q1\<rparr>"
  let ?s1 = "put_req r ?q1 (put_req p (qp\<lparr>rq_ref := 1\<rparr>) s)"
  have tw: "put_req p x (put_req r y s) = put_req r y (put_req p x s)" for x y
    using p(4) by (simp add: put_req_def fun_upd_twist)
  have fin: "(if f_type (rq_ifcall qr) = Tflush then rflush (calls (Suc (Suc n)) h) r None (put_req r (qr\<lparr>rq_error := None\<rparr>) s)
      else do { s \<leftarrow> finish h r None (put_req r (qr\<lparr>rq_error := None\<rparr>) s); Some (False, s) }) = Some (False, ?s1)"
    using q p tw by (simp add: rflush_def closereq_body_def upd_req_def)
  have m: "msg_of (reply_fcall ?q1) = Some MRflush" "fcall_ok (reply_fcall ?q1)"
    using flush_reply_msg [of ?q1] q by simp_all
  have "\<exists>w. length w = unat (sv_msize ?s1) \<and> respond (Suc (Suc (Suc n))) h r None s = do {
      s \<leftarrow> calls (Suc (Suc n)) h (CRespond_all (rq_flush ?q1)) (sent r ?q2 w (encode (f_tag (rq_ifcall qr)) MRflush) ?s1);
      s \<leftarrow> upd_req r (\<lambda>q. q\<lparr>rq_flush := []\<rparr>) s;
      calls (Suc (Suc n)) h (CClosereq (Some r)) s }"
    by (rule respond_pooled [OF q(1-3) fin]) (use q rp b m in \<open>simp_all add: buf_ok_def msg_size_def\<close>)
  then obtain w where w: "length w = unat (sv_msize s)" and
    e: "respond (Suc (Suc (Suc n))) h r None s = do {
      s \<leftarrow> upd_req r (\<lambda>q. q\<lparr>rq_flush := []\<rparr>) (sent r ?q2 w (encode (f_tag (rq_ifcall qr)) MRflush) ?s1);
      closereq_body (calls (Suc n) h) h r s }"
    using q(5) by auto
  have "respond (Suc (Suc (Suc n))) h r None s
    = Some ((put_req p (qp\<lparr>rq_ref := 1\<rparr>) s)\<lparr>sv_wbuf := Some w,
        sv_rpool := snd (deletekey (sv_rpool s) (ucast (f_tag (rq_ifcall qr)))),
        sv_out := sv_out s @ [encode (f_tag (rq_ifcall qr)) MRflush],
        sv_reqs := (sv_reqs s)(p \<mapsto> qp\<lparr>rq_ref := 1\<rparr>, r := None)\<rparr>)"
    unfolding e using q h p(4)
    by (simp add: sent_def upd_req_def closereq_body_def close_opt_def free_req_def put_req_def)
  then show ?thesis
    using w unfolding respond_def by blast
qed

lemma flush_order:
  assumes w: "waiting p qp r qr s" and ok: "intmap_ok (sv_rpool s)" and b: "buf_ok s" "64 \<le> unat (sv_msize s)"
    and fin: "finish h p e (put_req p (qp\<lparr>rq_error := e\<rparr>) s) = Some (put_req p q1 (s\<lparr>sv_fids := fids, sv_fpool := fp, sv_fs := t\<rparr>))"
    and q1: "rq_ifcall q1 = rq_ifcall qp" "rq_ref q1 = 3" "rq_pool q1" "rq_flush q1 = [r]" "rq_oldreq q1 = None"
      "rq_newfid q1 = None" "rq_afid q1 = None" "\<And>a. rq_fid q1 = Some a \<Longrightarrow> \<exists>f. fids a = Some f \<and> fd_ref f \<noteq> 1"
    and m: "fcall_ok (reply_fcall q1)" "msg_of (reply_fcall q1) = Some m" "msg_size m \<le> unat (sv_msize s)"
    and h: "h_destroyreq h = None" and fuel: "5 \<le> fuel"
  shows "\<exists>s'. respond fuel h p e s = Some s'
    \<and> sv_out s' = sv_out s @ [encode (f_tag (rq_ifcall qp)) m, encode (f_tag (rq_ifcall qr)) MRflush]
    \<and> sv_reqs s' = (sv_reqs s)(p := None, r := None)
    \<and> intmap_abs (sv_rpool s') = (intmap_abs (sv_rpool s))(ucast (f_tag (rq_ifcall qp)) := None, ucast (f_tag (rq_ifcall qr)) := None)"
proof -
  obtain n where "fuel = 5 + n" using le_Suc_ex [OF fuel] by auto
  then have f: "fuel = Suc (Suc (Suc (Suc (Suc n))))" by simp
  have wp: "p \<noteq> r" "sv_reqs s p = Some qp" "sv_reqs s r = Some qr" "\<not> rq_responded qp" "rq_pool qp" "f_type (rq_ifcall qp) \<noteq> Tflush"
    "intmap_abs (sv_rpool s) (ucast (f_tag (rq_ifcall qp))) = Some p" "f_tag (rq_ifcall qp) \<noteq> f_tag (rq_ifcall qr)"
    "intmap_abs (sv_rpool s) (ucast (f_tag (rq_ifcall qr))) = Some r"
    using w by (simp_all add: waiting_def)
  let ?s1 = "put_req p q1 (s\<lparr>sv_fids := fids, sv_fpool := fp, sv_fs := t\<rparr>)"
  let ?q2 = "q1\<lparr>rq_ofcall := reply_fcall q1\<rparr>"
  let ?rp = "snd (deletekey (sv_rpool s) (ucast (f_tag (rq_ifcall qp))))"
  let ?m1 = "encode (f_tag (rq_ifcall qp)) m" and ?m2 = "encode (f_tag (rq_ifcall qr)) MRflush"
  have fin': "(if f_type (rq_ifcall qp) = Tflush then rflush c p e (put_req p (qp\<lparr>rq_error := e\<rparr>) s)
      else do { s \<leftarrow> finish h p e (put_req p (qp\<lparr>rq_error := e\<rparr>) s); Some (False, s) }) = Some (False, ?s1)" for c
    using wp(6) fin by simp
  have "\<exists>w. length w = unat (sv_msize ?s1) \<and> respond (Suc (Suc (Suc (Suc (Suc n))))) h p e s = do {
      s \<leftarrow> calls (Suc (Suc (Suc (Suc n)))) h (CRespond_all (rq_flush q1)) (sent p ?q2 w ?m1 ?s1);
      s \<leftarrow> upd_req p (\<lambda>q. q\<lparr>rq_flush := []\<rparr>) s;
      calls (Suc (Suc (Suc (Suc n)))) h (CClosereq (Some p)) s }"
    by (rule respond_pooled [OF wp(2,4,5) fin']) (use q1 ok wp b m in \<open>simp_all add: buf_ok_def\<close>)
  then obtain w1 where w1: "length w1 = unat (sv_msize s)" and e: "respond fuel h p e s = do {
      s \<leftarrow> calls (Suc (Suc (Suc n))) h (CRespond r None) (sent p ?q2 w1 ?m1 ?s1);
      s \<leftarrow> upd_req p (\<lambda>q. q\<lparr>rq_flush := []\<rparr>) s;
      closereq_body (calls (Suc (Suc (Suc n))) h) h p s }"
    using q1(4) f by auto
  let ?s2 = "sent p ?q2 w1 ?m1 ?s1"
  let ?p2 = "?q2\<lparr>rq_ref := 2, rq_responded := True\<rparr>"
  have s2: "sv_reqs ?s2 = (sv_reqs s)(p \<mapsto> ?p2)" "sv_rpool ?s2 = ?rp" "sv_out ?s2 = sv_out s @ [?m1]" "sv_msize ?s2 = sv_msize s"
    using q1 by (simp_all add: sent_def)
  have rp: "intmap_ok ?rp" "intmap_abs ?rp = (intmap_abs (sv_rpool s))(ucast (f_tag (rq_ifcall qp)) := None)"
    using deletekey_refines [OF ok] by simp_all
  have "\<exists>w2. length w2 = unat (sv_msize ?s2) \<and> calls (Suc (Suc (Suc n))) h (CRespond r None) ?s2
    = Some ((put_req p (?p2\<lparr>rq_ref := 1\<rparr>) ?s2)\<lparr>sv_wbuf := Some w2,
        sv_rpool := snd (deletekey (sv_rpool ?s2) (ucast (f_tag (rq_ifcall qr)))),
        sv_out := sv_out ?s2 @ [?m2], sv_reqs := (sv_reqs ?s2)(p \<mapsto> ?p2\<lparr>rq_ref := 1\<rparr>, r := None)\<rparr>)"
    by (rule respond_flush) (use w wp s2 rp w1 b h in \<open>simp_all add: waiting_def buf_ok_def\<close>, simp add: sent_def)
  then obtain s3 where s3: "calls (Suc (Suc (Suc n))) h (CRespond r None) ?s2 = Some s3"
    "sv_reqs s3 = (sv_reqs s)(p \<mapsto> ?p2\<lparr>rq_ref := 1\<rparr>, r := None)" "sv_out s3 = sv_out s @ [?m1, ?m2]"
    "sv_rpool s3 = snd (deletekey ?rp (ucast (f_tag (rq_ifcall qr))))" "sv_fids s3 = fids"
    using s2 by (auto simp: sent_def)
  define s4 where "s4 = put_req p (?p2\<lparr>rq_flush := [], rq_ref := 0\<rparr>) s3"
  obtain s5 where s5: "close_opt h (rq_fid q1) s4 = Some s5" "sv_reqs s5 = sv_reqs s4" "sv_out s5 = sv_out s4"
    "sv_rpool s5 = sv_rpool s4"
  proof (cases "rq_fid q1")
    case None
    then show ?thesis using that by (simp add: close_opt_def)
  next
    case (Some a)
    then obtain x where "sv_fids s4 a = Some x" "fd_ref x \<noteq> 1" using q1(8) s3(5) by (auto simp: s4_def)
    then show ?thesis using that Some closefid_more [of s4 a x h] by (simp add: close_opt_def)
  qed
  have s4: "sv_reqs s4 = (sv_reqs s)(p \<mapsto> ?p2\<lparr>rq_flush := [], rq_ref := 0\<rparr>, r := None)"
    "sv_out s4 = sv_out s3" "sv_rpool s4 = sv_rpool s3"
    using s3(2) wp(1) by (auto simp: s4_def fun_eq_iff)
  have "respond fuel h p e s = Some (s5\<lparr>sv_reqs := (sv_reqs s5)(p := None)\<rparr>)"
    unfolding e s3(1) using s3(2) wp(1) q1 h s5(1)
    by (simp add: upd_req_def closereq_body_def close_opt_def free_req_def s4_def Let_def)
  moreover have "(sv_reqs s5)(p := None) = (sv_reqs s)(p := None, r := None)"
    using s4(1) s5(2) wp(1) by (auto simp: fun_eq_iff)
  moreover have "intmap_abs (sv_rpool s5) = (intmap_abs (sv_rpool s))(ucast (f_tag (rq_ifcall qp)) := None, ucast (f_tag (rq_ifcall qr)) := None)"
    using s3(4) s4(3) s5(4) deletekey_refines(3) [OF rp(1)] rp(2) by simp
  ultimately show ?thesis
    using s3(3) s4(2) s5(3) by (intro exI [of _ "s5\<lparr>sv_reqs := (sv_reqs s5)(p := None)\<rparr>"]) simp
qed

end
