(* ===== verification/Cstring.thy ===== *)
theory Cstring
  imports Prelude
begin

text \<open>
  The string and memory functions of \<^verbatim>\<open>libc/port\<close>.  There is one memory, a block, and pointers
  are offsets into it, so that source and destination may overlap as they may in C.  A nil
  result is \<^const>\<open>None\<close> inside the \<^const>\<open>Some\<close> of a normal return.  Counts are natural numbers where
  the source has \<open>ulong\<close> and integers where it has \<open>long\<close>.
\<close>

section \<open>Loads and stores\<close>

definition ld :: "block \<Rightarrow> nat \<Rightarrow> byte option" where
  "ld m p = (if p < length m then Some (m ! p) else None)"

definition st :: "block \<Rightarrow> nat \<Rightarrow> byte \<Rightarrow> block option" where
  "st m p c = (if p < length m then Some (m[p := c]) else None)"

lemma ld_Some [simp]: "ld m p = Some c \<longleftrightarrow> p < length m \<and> m ! p = c"
  by (simp add: ld_def)

lemma st_Some [simp]: "st m p c = Some m' \<longleftrightarrow> p < length m \<and> m' = m[p := c]"
  by (auto simp: st_def)

lemma ld_in [simp]: "p < length m \<Longrightarrow> ld m p = Some (m ! p)"
  by (simp add: ld_def)

lemma st_in [simp]: "p < length m \<Longrightarrow> st m p c = Some (m[p := c])"
  by (simp add: st_def)

lemma st_length: "st m p c = Some m' \<Longrightarrow> length m' = length m"
  by simp

section \<open>Searching\<close>

text \<open>\<open>while(*s++) ; return s-1\<close> and the second loop of \<open>strchr\<close>.\<close>

function strchr_end :: "block \<Rightarrow> nat \<Rightarrow> nat option" where
  "strchr_end m s = do {
     c \<leftarrow> ld m s;
     if c \<noteq> 0 then strchr_end m (s + 1) else Some s
   }"
  by pat_completeness auto
termination by (relation "measure (\<lambda>(m, s). length m - s)") auto

function strchr_loop :: "block \<Rightarrow> byte \<Rightarrow> nat \<Rightarrow> nat option option" where
  "strchr_loop m c0 s = do {
     c1 \<leftarrow> ld m s;
     if c1 = 0 then Some None
     else if c1 = c0 then Some (Some s)
     else strchr_loop m c0 (s + 1)
   }"
  by pat_completeness auto
termination by (relation "measure (\<lambda>(m, c, s). length m - s)") auto

definition strchr :: "block \<Rightarrow> nat \<Rightarrow> u32 \<Rightarrow> nat option option" where
  "strchr m s c = (if c = 0 then map_option Some (strchr_end m s) else strchr_loop m (ucast c) s)"

definition strlen :: "block \<Rightarrow> nat \<Rightarrow> nat option" where
  "strlen m s = do {
     r \<leftarrow> strchr m s 0;
     e \<leftarrow> r;
     Some (e - s)
   }"

lemma strchr_loop_range: "strchr_loop m c s = Some (Some p) \<Longrightarrow> s \<le> p \<and> p < length m"
  by (induction m c s rule: strchr_loop.induct) (auto simp: bind_Some_iff split: if_splits)

lemma strchr_end_range: "strchr_end m s = Some p \<Longrightarrow> s \<le> p \<and> p < length m"
  by (induction m s rule: strchr_end.induct) (auto simp: bind_Some_iff split: if_splits)

lemma strchr_range: "strchr m s c = Some (Some p) \<Longrightarrow> s \<le> p \<and> p < length m"
  by (auto simp: strchr_def simp del: strchr_loop.simps strchr_end.simps split: if_splits dest: strchr_loop_range strchr_end_range)

lemma strchr_less:
  "strchr m s c = Some (Some p) \<Longrightarrow> length m - Suc p < length m - s"
  using strchr_range by fastforce

function strrchr_loop :: "block \<Rightarrow> u32 \<Rightarrow> nat \<Rightarrow> nat option \<Rightarrow> nat option option" where
  "strrchr_loop m c s r = do {
     x \<leftarrow> strchr m s c;
     (case x of None \<Rightarrow> Some r | Some p \<Rightarrow> strrchr_loop m c (p + 1) (Some p))
   }"
  by pat_completeness auto
termination by (relation "measure (\<lambda>(m, c, s, r). length m - s)") (auto dest: strchr_less)

definition strrchr :: "block \<Rightarrow> nat \<Rightarrow> u32 \<Rightarrow> nat option option" where
  "strrchr m s c = (if c = 0 then strchr m s 0 else strrchr_loop m c s None)"

declare strchr_end.simps [simp del] strchr_loop.simps [simp del] strrchr_loop.simps [simp del]

section \<open>Comparing\<close>

text \<open>\<open>unsigned c1 = *s1++\<close> extends the sign of a \<open>char\<close>.\<close>

abbreviation char_unsigned :: "byte \<Rightarrow> u32" where "char_unsigned c \<equiv> scast c"

function strcmp :: "block \<Rightarrow> nat \<Rightarrow> nat \<Rightarrow> int option" where
  "strcmp m s1 s2 = do {
     x \<leftarrow> ld m s1;
     y \<leftarrow> ld m s2;
     let c1 = char_unsigned x;
     let c2 = char_unsigned y;
     if c1 \<noteq> c2 then Some (if c1 > c2 then 1 else - 1)
     else if c1 = 0 then Some 0
     else strcmp m (s1 + 1) (s2 + 1)
   }"
  by pat_completeness auto
termination by (relation "measure (\<lambda>(m, s1, s2). length m - s1)") auto

function strncmp :: "block \<Rightarrow> nat \<Rightarrow> nat \<Rightarrow> int \<Rightarrow> int option" where
  "strncmp m s1 s2 n = (if n > 0 then do {
     x \<leftarrow> ld m s1;
     y \<leftarrow> ld m s2;
     let c1 = char_unsigned x;
     let c2 = char_unsigned y;
     if c1 \<noteq> c2 then Some (if c1 > c2 then 1 else - 1)
     else if c1 = 0 then Some 0
     else strncmp m (s1 + 1) (s2 + 1) (n - 1)
   } else Some 0)"
  by pat_completeness auto
termination by (relation "measure (\<lambda>(m, s1, s2, n). nat n)") auto

fun memcmp :: "block \<Rightarrow> nat \<Rightarrow> nat \<Rightarrow> nat \<Rightarrow> int option" where
  "memcmp m s1 s2 0 = Some 0"
| "memcmp m s1 s2 (Suc n) = do {
     c1 \<leftarrow> ld m s1;
     c2 \<leftarrow> ld m s2;
     if c1 \<noteq> c2 then Some (if c1 > c2 then 1 else - 1)
     else memcmp m (s1 + 1) (s2 + 1) n
   }"

fun memchr :: "block \<Rightarrow> nat \<Rightarrow> u32 \<Rightarrow> nat \<Rightarrow> nat option option" where
  "memchr m sp c 0 = Some None"
| "memchr m sp c (Suc n) = do {
     x \<leftarrow> ld m sp;
     if x = ucast (c AND 0xFF) then Some (Some sp) else memchr m (sp + 1) c n
   }"

declare strcmp.simps [simp del] strncmp.simps [simp del]

section \<open>Copying\<close>

fun memccpy :: "block \<Rightarrow> nat \<Rightarrow> nat \<Rightarrow> u32 \<Rightarrow> nat \<Rightarrow> (nat option \<times> block) option" where
  "memccpy m s1 s2 c 0 = Some (None, m)"
| "memccpy m s1 s2 c (Suc n) = do {
     x \<leftarrow> ld m s2;
     m \<leftarrow> st m s1 x;
     if x = ucast (c AND 0xFF) then Some (Some (s1 + 1), m) else memccpy m (s1 + 1) (s2 + 1) c n
   }"

fun memset :: "block \<Rightarrow> nat \<Rightarrow> byte \<Rightarrow> nat \<Rightarrow> block option" where
  "memset m p c 0 = Some m"
| "memset m p c (Suc n) = do {
     m \<leftarrow> st m p c;
     memset m (p + 1) c n
   }"

text \<open>The two loops of \<open>memmove\<close>; the second starts at the ends.\<close>

fun memmove_fwd :: "block \<Rightarrow> nat \<Rightarrow> nat \<Rightarrow> nat \<Rightarrow> block option" where
  "memmove_fwd m s1 s2 0 = Some m"
| "memmove_fwd m s1 s2 (Suc n) = do {
     x \<leftarrow> ld m s2;
     m \<leftarrow> st m s1 x;
     memmove_fwd m (s1 + 1) (s2 + 1) n
   }"

fun memmove_back :: "block \<Rightarrow> nat \<Rightarrow> nat \<Rightarrow> nat \<Rightarrow> block option" where
  "memmove_back m s1 s2 0 = Some m"
| "memmove_back m s1 s2 (Suc n) = do {
     x \<leftarrow> ld m (s2 - 1);
     m \<leftarrow> st m (s1 - 1) x;
     memmove_back m (s1 - 1) (s2 - 1) n
   }"

definition memmove :: "block \<Rightarrow> nat \<Rightarrow> nat \<Rightarrow> u32 \<Rightarrow> block option" where
  "memmove m a1 a2 n = (if sint n < 0 then None
     else if a2 < a1 \<and> a2 + unat n > a1 then memmove_back m (a1 + unat n) (a2 + unat n) (unat n)
     else memmove_fwd m a1 a2 (unat n))"

definition memcpy :: "block \<Rightarrow> nat \<Rightarrow> nat \<Rightarrow> u32 \<Rightarrow> block option" where
  "memcpy m a1 a2 n = memmove m a1 a2 n"

lemma memccpy_length: "memccpy m d s c n = Some (r, m') \<Longrightarrow> length m' = length m"
  by (induction m d s c n rule: memccpy.induct) (auto simp: bind_Some_iff split: if_splits)

lemma memccpy_range: "memccpy m d s c n = Some (None, m') \<Longrightarrow> n = 0 \<or> s + n \<le> length m"
  by (induction m d s c n rule: memccpy.induct) (auto simp: bind_Some_iff split: if_splits)

lemma memccpy_less:
  "memccpy m d s c n = Some (None, m') \<Longrightarrow> 0 < n \<Longrightarrow> length m' - (s + n) < length m - s"
  using memccpy_length memccpy_range by fastforce

text \<open>\<open>strcpy\<close> copies \<open>N\<close> bytes at a time.\<close>

function strcpy :: "block \<Rightarrow> nat \<Rightarrow> nat \<Rightarrow> block option" where
  "strcpy m s1 s2 = do {
     (r, m) \<leftarrow> memccpy m s1 s2 0 10000;
     (case r of Some _ \<Rightarrow> Some m | None \<Rightarrow> strcpy m (s1 + 10000) (s2 + 10000))
   }"
  by pat_completeness auto
termination
  by (relation "measure (\<lambda>(m, s1, s2). length m - s2)") (auto dest: memccpy_less simp del: memccpy.simps)

definition strcat :: "block \<Rightarrow> nat \<Rightarrow> nat \<Rightarrow> block option" where
  "strcat m s1 s2 = do {
     r \<leftarrow> strchr m s1 0;
     e \<leftarrow> r;
     strcpy m e s2
   }"

function strncpy_loop :: "block \<Rightarrow> nat \<Rightarrow> nat \<Rightarrow> int \<Rightarrow> int \<Rightarrow> block option" where
  "strncpy_loop m s1 s2 i n = (if i < n then do {
       x \<leftarrow> ld m s2;
       m \<leftarrow> st m s1 x;
       if x = 0 then memset m (s1 + 1) 0 (nat (n - (i + 1)))
       else strncpy_loop m (s1 + 1) (s2 + 1) (i + 1) n
     } else Some m)"
  by pat_completeness auto
termination by (relation "measure (\<lambda>(m, s1, s2, i, n). nat (n - i))") auto

definition strncpy :: "block \<Rightarrow> nat \<Rightarrow> nat \<Rightarrow> int \<Rightarrow> block option" where
  "strncpy m s1 s2 n = strncpy_loop m s1 s2 0 n"

text \<open>The copying loop of \<open>strncat\<close>, where \<open>n\<close> is decremented after each byte that is not the last.\<close>

function strncat_loop :: "block \<Rightarrow> nat \<Rightarrow> nat \<Rightarrow> int \<Rightarrow> block option" where
  "strncat_loop m s1 s2 n = do {
     x \<leftarrow> ld m s2;
     m \<leftarrow> st m s1 x;
     if x = 0 then Some m
     else if n - 1 < 0 then st m s1 0
     else strncat_loop m (s1 + 1) (s2 + 1) (n - 1)
   }"
  by pat_completeness auto
termination by (relation "measure (\<lambda>(m, s1, s2, n). nat n)") auto

definition strncat :: "block \<Rightarrow> nat \<Rightarrow> nat \<Rightarrow> int \<Rightarrow> block option" where
  "strncat m s1 s2 n = do {
     e \<leftarrow> strchr_end m s1;
     strncat_loop m e s2 n
   }"

definition strecpy :: "block \<Rightarrow> nat \<Rightarrow> nat \<Rightarrow> nat \<Rightarrow> (nat \<times> block) option" where
  "strecpy m to e from = (if to \<ge> e then Some (to, m)
     else do {
       (r, m) \<leftarrow> memccpy m to from 0 (e - to);
       (case r of
          None \<Rightarrow> do {
            m \<leftarrow> st m (e - 1) 0;
            Some (e - 1, m)
          }
        | Some q \<Rightarrow> Some (q - 1, m))
     })"

declare strcpy.simps [simp del] strncpy_loop.simps [simp del] strncat_loop.simps [simp del]

section \<open>Sets of characters\<close>

text \<open>\<open>char map[N]\<close> with a 1 for each byte of \<open>b\<close>; \<open>strcspn\<close> and \<open>strpbrk\<close> also mark the NUL.\<close>

function mark :: "block \<Rightarrow> nat \<Rightarrow> block \<Rightarrow> block option" where
  "mark m b mp = do {
     c \<leftarrow> ld m b;
     if c \<noteq> 0 then mark m (b + 1) (mp[unat c := 1]) else Some mp
   }"
  by pat_completeness auto
termination by (relation "measure (\<lambda>(m, b, mp). length m - b)") auto

function mark_nul :: "block \<Rightarrow> nat \<Rightarrow> block \<Rightarrow> block option" where
  "mark_nul m b mp = do {
     c \<leftarrow> ld m b;
     let mp = mp[unat c := 1];
     if c = 0 then Some mp else mark_nul m (b + 1) mp
   }"
  by pat_completeness auto
termination by (relation "measure (\<lambda>(m, b, mp). length m - b)") auto

text \<open>\<open>while(mp[*s++] == v)\<close>, the pointer moved back to the byte that ended the loop.\<close>

function skip :: "block \<Rightarrow> block \<Rightarrow> bool \<Rightarrow> nat \<Rightarrow> nat option" where
  "skip m mp v s = do {
     c \<leftarrow> ld m s;
     if (mp ! unat c \<noteq> 0) = v then skip m mp v (s + 1) else Some s
   }"
  by pat_completeness auto
termination by (relation "measure (\<lambda>(m, mp, v, s). length m - s)") auto

declare mark.simps [simp del] mark_nul.simps [simp del] skip.simps [simp del]

definition strspn :: "block \<Rightarrow> nat \<Rightarrow> nat \<Rightarrow> nat option" where
  "strspn m s b = do {
     mp \<leftarrow> mark m b (replicate 256 0);
     e \<leftarrow> skip m mp True s;
     Some (e - s)
   }"

definition strcspn :: "block \<Rightarrow> nat \<Rightarrow> nat \<Rightarrow> nat option" where
  "strcspn m s b = do {
     mp \<leftarrow> mark_nul m b (replicate 256 0);
     e \<leftarrow> skip m mp False s;
     Some (e - s)
   }"

definition strpbrk :: "block \<Rightarrow> nat \<Rightarrow> nat \<Rightarrow> nat option option" where
  "strpbrk m s b = do {
     mp \<leftarrow> mark_nul m b (replicate 256 0);
     e \<leftarrow> skip m mp False s;
     c \<leftarrow> ld m e;
     Some (if c \<noteq> 0 then Some e else None)
   }"

text \<open>\<open>strtok\<close>, with the static \<open>under_rock\<close> as argument and result: the token, the new value of
  \<open>under_rock\<close>, and the memory.\<close>

function strtok_loop :: "block \<Rightarrow> block \<Rightarrow> nat \<Rightarrow> (nat \<times> block) option" where
  "strtok_loop m mp s = do {
     c \<leftarrow> ld m s;
     if mp ! unat c = 0 then (if c = 0 then Some (s, m) else strtok_loop m mp (s + 1))
     else do {
       m \<leftarrow> st m s 0;
       Some (s + 1, m)
     }
   }"
  by pat_completeness auto
termination by (relation "measure (\<lambda>(m, mp, s). length m - s)") auto

declare strtok_loop.simps [simp del]

definition strtok :: "block \<Rightarrow> nat option \<Rightarrow> nat \<Rightarrow> nat option \<Rightarrow> (nat option \<times> nat option \<times> block) option" where
  "strtok m s b under_rock = do {
     mp \<leftarrow> mark m b (replicate 256 0);
     s \<leftarrow> (case s of None \<Rightarrow> under_rock | Some s \<Rightarrow> Some s);
     os \<leftarrow> skip m mp True s;
     c \<leftarrow> ld m os;
     if c = 0 then Some (None, under_rock, m)
     else do {
       (u, m) \<leftarrow> strtok_loop m mp os;
       Some (Some os, Some u, m)
     }
   }"

section \<open>Substrings\<close>

text \<open>The inner loop of \<open>strstr\<close>: whether the string at \<open>pb\<close> is at \<open>pa + 1\<close>.\<close>

function strstr_match :: "block \<Rightarrow> nat \<Rightarrow> nat \<Rightarrow> bool option" where
  "strstr_match m pa pb = do {
     c \<leftarrow> ld m pb;
     if c = 0 then Some True
     else do {
       d \<leftarrow> ld m (pa + 1);
       if c \<noteq> d then Some False else strstr_match m (pa + 1) (pb + 1)
     }
   }"
  by pat_completeness auto
termination by (relation "measure (\<lambda>(m, pa, pb). length m - pb)") auto

function strstr_loop :: "block \<Rightarrow> u32 \<Rightarrow> nat \<Rightarrow> nat option \<Rightarrow> nat option option" where
  "strstr_loop m c0 s2 None = Some None"
| "strstr_loop m c0 s2 (Some p) = do {
     ok \<leftarrow> strstr_match m p s2;
     if ok then Some (Some p)
     else do {
       r \<leftarrow> strchr m (p + 1) c0;
       strstr_loop m c0 s2 r
     }
   }"
  by pat_completeness auto
termination
  by (relation "measure (\<lambda>(m, c0, s2, r). case r of None \<Rightarrow> 0 | Some p \<Rightarrow> Suc (length m - p))")
    (auto split: option.split dest: strchr_range)

declare strstr_match.simps [simp del] strstr_loop.simps [simp del]

definition strstr :: "block \<Rightarrow> nat \<Rightarrow> nat \<Rightarrow> nat option option" where
  "strstr m s1 s2 = do {
     c0 \<leftarrow> ld m s2;
     if c0 = 0 then Some (Some s1)
     else do {
       p \<leftarrow> strchr m s1 (scast c0);
       strstr_loop m (scast c0) (s2 + 1) p
     }
   }"

section \<open>What the searches find\<close>

text \<open>\<^const>\<open>cstring_at\<close> one byte at a time, the shape all the loops above have.\<close>

lemma cstring_at_Nil [simp]: "cstring_at m p = Some [] \<longleftrightarrow> p < length m \<and> m ! p = 0"
  by (cases "p < length m") (auto simp: cstring_at_def Cons_nth_drop_Suc [symmetric] split: if_splits)

lemma cstring_at_Cons [simp]:
  "cstring_at m p = Some (c # s) \<longleftrightarrow> p < length m \<and> m ! p = c \<and> c \<noteq> 0 \<and> cstring_at m (Suc p) = Some s"
  by (cases "p < length m") (auto simp: cstring_at_def Cons_nth_drop_Suc [symmetric] split: if_splits)

lemma strchr_end_correct:
  "cstring_at m p = Some s \<Longrightarrow> strchr_end m p = Some (p + length s)"
  by (induction s arbitrary: p) (subst strchr_end.simps, simp)+

lemma strlen_correct: "cstring_at m p = Some s \<Longrightarrow> strlen m p = Some (length s)"
  by (simp add: strlen_def strchr_def strchr_end_correct)

lemma strchr_loop_correct:
  "cstring_at m p = Some s \<Longrightarrow> strchr_loop m c p
    = Some (if c \<in> set s then Some (p + length (takeWhile (\<lambda>x. x \<noteq> c) s)) else None)"
  by (induction s arbitrary: p) (subst strchr_loop.simps, auto)+

lemma strchr_correct:
  "cstring_at m p = Some s \<Longrightarrow> strchr m p c = Some (if c = 0 then Some (p + length s)
     else if ucast c \<in> set s then Some (p + length (takeWhile (\<lambda>x. x \<noteq> ucast c) s)) else None)"
  by (simp add: strchr_def strchr_end_correct strchr_loop_correct)

text \<open>The last occurrence: what follows it in the string does not contain the character.\<close>

lemma cstring_at_suffix: "cstring_at m p = Some (s @ t) \<Longrightarrow> cstring_at m (p + length s) = Some t"
  by (induction s arbitrary: p) (auto simp flip: add_Suc)

lemma strrchr_loop_none:
  "cstring_at m p = Some s \<Longrightarrow> c \<noteq> 0 \<Longrightarrow> ucast c \<notin> set s \<Longrightarrow> strrchr_loop m c p r = Some r"
  by (subst strrchr_loop.simps) (simp add: strchr_correct)

lemma strchr_first:
  "cstring_at m p = Some (t @ ucast c # u) \<Longrightarrow> c \<noteq> 0 \<Longrightarrow> ucast c \<notin> set t \<Longrightarrow> strchr m p c = Some (Some (p + length t))"
  by (subst strchr_correct) (auto simp: takeWhile_append)

lemma strrchr_loop_last:
  assumes "cstring_at m p = Some (a @ ucast c # b)" and "ucast c \<notin> set b" and "c \<noteq> 0"
  shows "strrchr_loop m c p r = Some (Some (p + length a))"
  using assms(1)
proof (induction "length a" arbitrary: p a r rule: less_induct)
  case less
  show ?case
  proof (cases "ucast c \<in> set a")
    case False
    have "cstring_at m (p + length (a @ [ucast c])) = Some b"
      using less(2) by (intro cstring_at_suffix) simp
    then show ?thesis
      using strchr_first [OF less(2) assms(3) False] assms(2,3) strrchr_loop_none
      by (subst strrchr_loop.simps) simp
  next
    case True
    then obtain t u where a: "a = t @ ucast c # u" and t: "ucast c \<notin> set t"
      by (metis split_list_first)
    have "cstring_at m (p + length (t @ [ucast c])) = Some (u @ ucast c # b)"
      using less(2) a by (intro cstring_at_suffix) simp
    then have "strrchr_loop m c (Suc (p + length t)) (Some (p + length t)) = Some (Some (Suc (p + length t) + length u))"
      using less(1) [of u] a by simp
    then show ?thesis
      using strchr_first [of m p t c "u @ ucast c # b"] less(2) a t assms(3) by (subst strrchr_loop.simps) simp
  qed
qed

lemma strrchr_correct:
  assumes "cstring_at m p = Some s" and "c \<noteq> 0"
  shows "ucast c \<notin> set s \<Longrightarrow> strrchr m p c = Some None"
    and "s = a @ ucast c # b \<Longrightarrow> ucast c \<notin> set b \<Longrightarrow> strrchr m p c = Some (Some (p + length a))"
  using assms by (simp_all add: strrchr_def strrchr_loop_none strrchr_loop_last)

section \<open>What the comparisons say\<close>

lemma sint_byte: "sint (a :: byte) = (if uint a < 128 then uint a else uint a - 256)"
proof -
  have lt: "uint a < 256" using uint_bounded [of a] by simp
  have "sint a = signed_take_bit 7 (uint a)" using sint_uint [of a] by simp
  also have "\<dots> = take_bit 8 (uint a) - 256 * of_bool (bit (uint a) 7)"
    using signed_take_bit_eq_take_bit_minus [of 7 "uint a"] by simp
  also have "take_bit 8 (uint a) = uint a" using lt by (simp add: take_bit_eq_mod)
  also have "bit (uint a) 7 \<longleftrightarrow> 128 \<le> uint a"
  proof -
    have "uint a div 128 = (if uint a < 128 then 0 else 1)" using lt uint_nonnegative [of a]
      by presburger
    then show ?thesis by (auto simp: bit_iff_odd)
  qed
  finally show ?thesis by auto
qed

lemma uint_char_unsigned:
  "uint (char_unsigned a) = (if uint a < 128 then uint a else uint a + 4294967040)"
proof -
  have lt: "uint a < 256" using uint_bounded [of a] by simp
  have "char_unsigned a = word_of_int (sint a)" by (rule scast_eq)
  then have "uint (char_unsigned a) = sint a mod 4294967296"
    using uint_word_of_int [of "sint a", where 'a = 32] by simp
  moreover have "(x - 256) mod 4294967296 = x + 4294967040" if "0 \<le> x" "x < 256" for x :: int
  proof -
    have "(x - 256) mod 4294967296 = (x - 256 + 4294967296) mod 4294967296" by (rule mod_add_self2 [symmetric])
    also have "\<dots> = x - 256 + 4294967296" using that by (intro mod_pos_pos_trivial) simp_all
    finally show ?thesis by simp
  qed
  ultimately show ?thesis using lt uint_nonnegative [of a] by (simp add: sint_byte)
qed

lemma char_unsigned_less: "char_unsigned a < char_unsigned b \<longleftrightarrow> a < b"
  unfolding word_less_def uint_char_unsigned using uint_bounded [of a] uint_bounded [of b] by auto

lemma char_unsigned_eq [simp]: "char_unsigned a = char_unsigned b \<longleftrightarrow> a = b"
  using char_unsigned_less [of a b] char_unsigned_less [of b a] by (metis less_irrefl not_less_iff_gr_or_eq)

lemma char_unsigned_0 [simp]: "char_unsigned a = 0 \<longleftrightarrow> a = 0"
  using char_unsigned_eq [of a 0] by simp
lemma char_unsigned_pos [simp]: "0 < char_unsigned a \<longleftrightarrow> a \<noteq> 0"
  using char_unsigned_less [of 0 a] by (simp add: word_neq_0_conv)

text \<open>The order of strings by their bytes, as unsigned numbers.\<close>

fun str_order :: "cstr \<Rightarrow> cstr \<Rightarrow> int" where
  "str_order [] [] = 0"
| "str_order [] (d # t) = - 1"
| "str_order (c # s) [] = 1"
| "str_order (c # s) (d # t) = (if c < d then - 1 else if d < c then 1 else str_order s t)"

lemma str_order_eq: "str_order s t = 0 \<longleftrightarrow> s = t"
  by (induction s t rule: str_order.induct) auto

lemma str_order_less: "str_order s t = - 1 \<longleftrightarrow> (s, t) \<in> lexord {(a, b). a < b}"
  by (induction s t rule: str_order.induct) auto

lemma str_order_swap: "str_order t s = - str_order s t"
  by (induction s t rule: str_order.induct) auto

lemma strcmp_correct:
  "cstring_at m p = Some s \<Longrightarrow> cstring_at m q = Some t \<Longrightarrow> strcmp m p q = Some (str_order s t)"
  by (induction s t arbitrary: p q rule: str_order.induct)
    (subst strcmp.simps, fastforce simp: Let_def char_unsigned_less)+

lemma strncmp_correct:
  "cstring_at m p = Some s \<Longrightarrow> cstring_at m q = Some t \<Longrightarrow>
    strncmp m p q n = Some (str_order (take (nat n) s) (take (nat n) t))"
  apply (induction s t arbitrary: p q n rule: str_order.induct)
  subgoal by (subst strncmp.simps) simp
  subgoal by (subst strncmp.simps) (simp add: take_Cons')
  subgoal by (subst strncmp.simps) (simp add: take_Cons')
  subgoal by (subst strncmp.simps) (auto simp: take_Cons' Let_def char_unsigned_less nat_diff_distrib)
  done

lemma memcmp_correct:
  "p + n \<le> length m \<Longrightarrow> q + n \<le> length m \<Longrightarrow>
    memcmp m p q n = Some (str_order (take n (drop p m)) (take n (drop q m)))"
  by (induction n arbitrary: p q) (auto simp: Cons_nth_drop_Suc [symmetric])

section \<open>What the copies leave in memory\<close>

text \<open>A run of bytes stored at an offset.\<close>

definition store :: "block \<Rightarrow> nat \<Rightarrow> block \<Rightarrow> block" where
  "store m d bs = take d m @ bs @ drop (d + length bs) m"

lemma store_mwrite: "d + length bs \<le> length m \<Longrightarrow> mwrite m d bs = Some (store m d bs)"
  by (simp add: mwrite_def store_def)

lemma store_length [simp]: "d + length bs \<le> length m \<Longrightarrow> length (store m d bs) = length m"
  by (simp add: store_def)

lemma store_Nil [simp]: "d \<le> length m \<Longrightarrow> store m d [] = m"
  by (simp add: store_def)

lemma store_Cons: "d < length m \<Longrightarrow> store (m[d := c]) (Suc d) bs = store m d (c # bs)"
  by (simp add: store_def take_Suc_conv_app_nth drop_update_swap)

lemma store_nth:
  "d + length bs \<le> length m \<Longrightarrow> i < length m \<Longrightarrow>
    store m d bs ! i = (if d \<le> i \<and> i < d + length bs then bs ! (i - d) else m ! i)"
  by (auto simp: store_def nth_append)

lemma store_append: "d + length a \<le> length m \<Longrightarrow> store (store m d a) (d + length a) b = store m d (a @ b)"
  by (simp add: store_def ac_simps)

lemma cstring_at_below: "d + length bs \<le> q \<Longrightarrow> d + length bs \<le> length m \<Longrightarrow> cstring_at (store m d bs) q = cstring_at m q"
  by (simp add: cstring_at_def store_def)

lemma cstring_at_above:
  "cstring_at m q = Some t \<Longrightarrow> q + length t < d \<Longrightarrow> d + length bs \<le> length m \<Longrightarrow> cstring_at (store m d bs) q = Some t"
  by (induction t arbitrary: q) (auto simp: store_nth)

lemma store_one: "d < length m \<Longrightarrow> m[d := c] = store m d [c]"
  by (simp add: store_def upd_conv_take_nth_drop)

text \<open>\<open>clear d s t\<close>: copying the string \<open>t\<close> at \<open>s\<close> upwards to \<open>d\<close> does not overwrite what is still to be read.\<close>

definition clear :: "nat \<Rightarrow> nat \<Rightarrow> nat \<Rightarrow> bool" where
  "clear d s n \<longleftrightarrow> d \<le> s \<or> s + n < d"

lemma memccpy_all:
  assumes "cstring_at m s = Some t" and "clear d s (length t)" and "length t < n" and "d + length t < length m"
  shows "memccpy m d s 0 n = Some (Some (d + length t + 1), store m d (t @ [0]))"
  using assms
proof (induction t arbitrary: m d s n)
  case Nil
  then show ?case by (cases n) (auto simp: store_one)
next
  case (Cons c t)
  obtain k where n: "n = Suc k" using Cons.prems(3) by (cases n) auto
  have "cstring_at (m[d := c]) (Suc s) = Some t"
    using Cons.prems cstring_at_below [of d "[c]" "Suc s" m] cstring_at_above [of m "Suc s" t d "[c]"]
    by (auto simp: store_one clear_def)
  then have "memccpy (m[d := c]) (Suc d) (Suc s) 0 k = Some (Some (Suc d + length t + 1), store (m[d := c]) (Suc d) (t @ [0]))"
    using Cons.IH [of "m[d := c]" "Suc s" "Suc d" k] Cons.prems n by (auto simp: clear_def)
  then show ?case using Cons.prems n by (simp add: store_Cons)
qed

lemma memccpy_part:
  assumes "cstring_at m s = Some t" and "clear d s (length t)" and "n \<le> length t" and "d + n \<le> length m"
  shows "memccpy m d s 0 n = Some (None, store m d (take n t))"
  using assms
proof (induction n arbitrary: m d s t)
  case 0
  then show ?case by simp
next
  case (Suc n)
  obtain c u where t: "t = c # u" using Suc.prems(3) by (cases t) auto
  have "cstring_at (m[d := c]) (Suc s) = Some u"
    using Suc.prems t cstring_at_below [of d "[c]" "Suc s" m] cstring_at_above [of m "Suc s" u d "[c]"]
    by (auto simp: store_one clear_def)
  then have "memccpy (m[d := c]) (Suc d) (Suc s) 0 n = Some (None, store (m[d := c]) (Suc d) (take n u))"
    using Suc.IH [of "m[d := c]" "Suc s" u "Suc d"] Suc.prems t by (auto simp: clear_def)
  then show ?case using Suc.prems t by (simp add: store_Cons)
qed

lemma strcpy_correct:
  assumes "cstring_at m s = Some t" and "clear d s (length t)" and "d + length t < length m"
  shows "strcpy m d s = Some (store m d (t @ [0]))"
  using assms
proof (induction "length t" arbitrary: m d s t rule: less_induct)
  case less
  show ?case
  proof (cases "length t < 10000")
    case True
    then show ?thesis
      using memccpy_all [OF less(2,3) True less(4)] by (subst strcpy.simps) simp
  next
    case False
    let ?a = "take 10000 t" and ?b = "drop 10000 t"
    have a: "length ?a = 10000" using False by simp
    have "cstring_at m (s + 10000) = Some ?b"
      using cstring_at_suffix [of m s ?a ?b] less(2) a by simp
    then have "cstring_at (store m d ?a) (s + 10000) = Some ?b"
      using less(3,4) a False cstring_at_below [of d ?a "s + 10000" m] cstring_at_above [of m "s + 10000" ?b d ?a]
      by (auto simp: clear_def)
    then have "strcpy (store m d ?a) (d + 10000) (s + 10000) = Some (store (store m d ?a) (d + 10000) (?b @ [0]))"
      using less False a by (auto simp: clear_def)
    also have "store (store m d ?a) (d + 10000) (?b @ [0]) = store m d (t @ [0])"
      using store_append [of d ?a m "?b @ [0]"] less(4) a by (simp flip: append_assoc)
    finally show ?thesis
      using memccpy_part [OF less(2,3), of 10000] False less(4) by (subst strcpy.simps) simp
  qed
qed

lemma strcat_correct:
  assumes "cstring_at m d = Some a" and "cstring_at m s = Some t" and "clear (d + length a) s (length t)"
    and "d + length a + length t < length m"
  shows "strcat m d s = Some (store m (d + length a) (t @ [0]))"
  using assms by (simp add: strcat_def strchr_correct strcpy_correct)

text \<open>\<open>strecpy\<close> never writes at or after the end it is given and always leaves a string there.\<close>

lemma strecpy_correct:
  assumes "cstring_at m s = Some t" and "clear d s (length t)" and "d < e" and "e \<le> length m"
  shows "strecpy m d e s = Some (d + length (take (e - d - 1) t), store m d (take (e - d - 1) t @ [0]))"
proof (cases "length t < e - d")
  case True
  then show ?thesis using memccpy_all [OF assms(1,2) True] assms by (simp add: strecpy_def)
next
  case False
  let ?k = "e - d - 1"
  have k: "e - d = Suc ?k" using assms(3) by simp
  then have "memccpy m d s 0 (e - d) = Some (None, store m d (take (Suc ?k) t))"
    using memccpy_part [OF assms(1,2), of "e - d"] False assms(3,4) by simp
  moreover have "take (Suc ?k) t = take ?k t @ [t ! ?k]"
    using False k by (intro take_Suc_conv_app_nth) simp
  moreover have "(store m d (take ?k t @ [t ! ?k]))[e - 1 := 0] = store m d (take ?k t @ [0])"
    using False k assms(3,4) by (auto simp: store_def list_update_append)
  ultimately show ?thesis using False k assms(3,4) by (simp add: strecpy_def)
qed

lemma memmove_fwd_correct:
  assumes "s1 + n \<le> length m" and "s2 + n \<le> length m" and "s1 \<le> s2 \<or> s2 + n \<le> s1"
  shows "memmove_fwd m s1 s2 n = Some (store m s1 (take n (drop s2 m)))"
  using assms
proof (induction n arbitrary: m s1 s2)
  case (Suc n)
  let ?m = "m[s1 := m ! s2]"
  have d: "drop s2 m = m ! s2 # drop (Suc s2) m" using Suc.prems by (simp add: Cons_nth_drop_Suc)
  have "take n (drop (Suc s2) ?m) = take n (drop (Suc s2) m)"
    using Suc.prems by (auto simp: drop_update_swap drop_update_cancel)
  then have "memmove_fwd ?m (Suc s1) (Suc s2) n = Some (store ?m (Suc s1) (take n (drop (Suc s2) m)))"
    using Suc.IH [of "Suc s1" ?m "Suc s2"] Suc.prems by auto
  then show ?case using Suc.prems d by (simp add: store_Cons)
qed simp

lemma memmove_back_correct:
  assumes "s1 + n \<le> length m" and "s2 \<le> s1"
  shows "memmove_back m (s1 + n) (s2 + n) n = Some (store m s1 (take n (drop s2 m)))"
  using assms
proof (induction n arbitrary: m)
  case (Suc n)
  let ?m = "m[s1 + n := m ! (s2 + n)]"
  have t: "take (Suc n) (drop s2 m) = take n (drop s2 m) @ [m ! (s2 + n)]"
    using Suc.prems by (simp add: take_Suc_conv_app_nth)
  have "take n (drop s2 ?m) = take n (drop s2 m)"
    using Suc.prems by (simp add: drop_update_swap)
  then have "memmove_back ?m (s1 + n) (s2 + n) n = Some (store ?m s1 (take n (drop s2 m)))"
    using Suc.IH [of ?m] Suc.prems by simp
  moreover have "store ?m s1 (take n (drop s2 m)) = store m s1 (take n (drop s2 m) @ [m ! (s2 + n)])"
    using Suc.prems by (intro nth_equalityI) (auto simp: store_nth nth_append nth_list_update)
  ultimately show ?case using Suc.prems t by simp
qed simp

lemma memmove_correct:
  assumes "a1 + unat n \<le> length m" and "a2 + unat n \<le> length m" and "0 \<le> sint n"
  shows "memmove m a1 a2 n = Some (store m a1 (take (unat n) (drop a2 m)))"
  using assms memmove_back_correct [of a1 "unat n" m a2] memmove_fwd_correct [of a1 "unat n" m a2]
  by (auto simp: memmove_def)

section \<open>Character sets and substrings\<close>

lemma unat_byte_less [simp]: "unat (c :: byte) < 256"
  using unsigned_less [of c, where 'a = nat] by simp

definition marks :: "block \<Rightarrow> byte set \<Rightarrow> bool" where
  "marks mp C \<longleftrightarrow> length mp = 256 \<and> (\<forall>c. mp ! unat c \<noteq> 0 \<longleftrightarrow> c \<in> C)"

lemma marks_empty: "marks (replicate 256 0) {}"
  by (simp add: marks_def)

lemma marks_insert: "marks mp C \<Longrightarrow> marks (mp[unat c := 1]) (insert c C)"
proof -
  assume a: "marks mp C"
  have "mp[unat c := 1] ! unat d = (if c = d then 1 else mp ! unat d)" for d
    using a by (cases "c = d") (simp_all add: marks_def word_unat_eq_iff)
  then show ?thesis using a by (auto simp: marks_def)
qed

lemma mark_correct:
  "cstring_at m b = Some t \<Longrightarrow> marks mp C \<Longrightarrow> \<exists>mp'. mark m b mp = Some mp' \<and> marks mp' (C \<union> set t)"
proof (induction t arbitrary: b mp C)
  case Nil
  then show ?case by (subst mark.simps) simp
next
  case (Cons c t)
  then show ?case
    using Cons.IH [of "Suc b" "mp[unat c := 1]" "insert c C"] marks_insert [of mp C c] by (subst mark.simps) simp
qed

lemma mark_nul_correct:
  "cstring_at m b = Some t \<Longrightarrow> marks mp C \<Longrightarrow> \<exists>mp'. mark_nul m b mp = Some mp' \<and> marks mp' (insert 0 (C \<union> set t))"
proof (induction t arbitrary: b mp C)
  case Nil
  then show ?case using marks_insert [of mp C 0] by (subst mark_nul.simps) (simp add: Let_def)
next
  case (Cons c t)
  then show ?case
    using Cons.IH [of "Suc b" "mp[unat c := 1]" "insert c C"] marks_insert [of mp C c]
    by (subst mark_nul.simps) (simp add: Let_def)
qed

lemma skip_correct:
  "cstring_at m p = Some s \<Longrightarrow> marks mp C \<Longrightarrow> (0 \<in> C) \<noteq> v \<Longrightarrow>
    skip m mp v p = Some (p + length (takeWhile (\<lambda>c. (c \<in> C) = v) s))"
  by (induction s arbitrary: p) (subst skip.simps, simp add: marks_def)+

lemma strspn_correct:
  assumes "cstring_at m p = Some s" and "cstring_at m b = Some t"
  shows "strspn m p b = Some (length (takeWhile (\<lambda>c. c \<in> set t) s))"
  using mark_correct [OF assms(2) marks_empty] skip_correct [OF assms(1), of _ "set t" True] cstring_at_no_nul [OF assms(2)]
  by (auto simp: strspn_def)

lemma strcspn_correct:
  assumes "cstring_at m p = Some s" and "cstring_at m b = Some t"
  shows "strcspn m p b = Some (length (takeWhile (\<lambda>c. c \<notin> set t) s))"
proof -
  have "takeWhile (\<lambda>c. c \<notin> insert 0 (set t)) s = takeWhile (\<lambda>c. c \<notin> set t) s"
    using cstring_at_no_nul [OF assms(1)] by (intro takeWhile_cong) auto
  then show ?thesis
    using mark_nul_correct [OF assms(2) marks_empty] skip_correct [OF assms(1), of _ "insert 0 (set t)" False]
    by (auto simp: strcspn_def)
qed

text \<open>\<open>strstr\<close> returns the first place where the second string occurs in the first.\<close>

lemma strstr_match_correct:
  "cstring_at m (Suc pa) = Some s \<Longrightarrow> cstring_at m pb = Some t \<Longrightarrow> strstr_match m pa pb = Some (take (length t) s = t)"
proof (induction t arbitrary: s pa pb)
  case Nil
  then show ?case by (subst strstr_match.simps) simp
next
  case (Cons c t)
  then show ?case
    by (cases s) (subst strstr_match.simps, auto)+
qed

fun find_sub :: "cstr \<Rightarrow> cstr \<Rightarrow> nat option" where
  "find_sub t [] = (if t = [] then Some 0 else None)"
| "find_sub t (c # s) = (if take (length t) (c # s) = t then Some 0 else map_option Suc (find_sub t s))"

lemma find_sub_Some:
  "find_sub t s = Some i \<Longrightarrow> i \<le> length s \<and> take (length t) (drop i s) = t \<and> (\<forall>j < i. take (length t) (drop j s) \<noteq> t)"
  by (induction s arbitrary: i) (auto split: if_splits simp: less_Suc_eq_0_disj)

lemma find_sub_None: "find_sub t s = None \<Longrightarrow> take (length t) (drop j s) \<noteq> t"
  by (induction s arbitrary: j) (auto split: if_splits simp: drop_Cons' take_Cons' split: if_splits)

lemma strchr_Suc:
  "p < length m \<Longrightarrow> m ! p \<noteq> 0 \<Longrightarrow> m ! p \<noteq> ucast c \<Longrightarrow> c \<noteq> 0 \<Longrightarrow> strchr m p c = strchr m (Suc p) c"
  by (simp add: strchr_def strchr_loop.simps [of m "ucast c" p])

lemma strstr_loop_correct:
  assumes "cstring_at m p = Some s" and "cstring_at m q = Some t" and "c0 \<noteq> 0" and "ucast c0 \<noteq> (0 :: byte)"
    and "strchr m p c0 = Some r"
  shows "strstr_loop m c0 q r = Some (map_option (\<lambda>i. p + i) (find_sub (ucast c0 # t) s))"
  using assms(1,5)
proof (induction s arbitrary: p r)
  case Nil
  then show ?case using assms(3) strchr_correct [OF Nil(1), of c0] by (simp add: strstr_loop.simps)
next
  case (Cons y s)
  note st = Cons.prems(1) [unfolded cstring_at_Cons]
  obtain r' where r': "strchr m (Suc p) c0 = Some r'" using st strchr_correct by blast
  have IH: "strstr_loop m c0 q r' = Some (map_option (\<lambda>i. Suc p + i) (find_sub (ucast c0 # t) s))"
    using Cons.IH [OF _ r'] st by simp
  show ?case
  proof (cases "y = ucast c0")
    case True
    then have "r = Some p"
      using Cons.prems assms(3) strchr_first [of m p "[]" c0 s] by simp
    then show ?thesis
      using True IH r' st strstr_match_correct [of m p s q t] assms(2)
      by (simp add: strstr_loop.simps option.map_comp comp_def)
  next
    case False
    then have "r = r'" using strchr_Suc [of p m c0] st r' Cons.prems(2) assms(3) by simp
    then show ?thesis using False IH by (simp add: option.map_comp comp_def)
  qed
qed

lemma strstr_correct:
  assumes "cstring_at m p = Some s" and "cstring_at m q = Some t"
  shows "strstr m p q = Some (map_option (\<lambda>i. p + i) (find_sub t s))"
proof (cases t)
  case Nil
  then show ?thesis using assms(2) by (cases s) (simp_all add: strstr_def)
next
  case (Cons c u)
  have u: "ucast (scast c :: u32) = c" by (rule bit_word_eqI) (auto simp: bit_simps)
  have q: "q < length m" "m ! q = c" "c \<noteq> 0" "cstring_at m (Suc q) = Some u" using assms(2) Cons by simp_all
  obtain r where r: "strchr m p (scast c) = Some r" using assms(1) strchr_correct by blast
  show ?thesis
    using strstr_loop_correct [OF assms(1) q(4) _ _ r] q r u Cons by (simp add: strstr_def)
qed

text \<open>What these results mean byte by byte.\<close>

lemma str_order_cases: "str_order s t = (if s = t then 0 else if (s, t) \<in> lexord {(a, b). a < b} then - 1 else 1)"
proof -
  have "str_order s t \<in> {- 1, 0, 1}" by (induction s t rule: str_order.induct) auto
  then show ?thesis using str_order_eq [of s t] str_order_less [of s t] by auto
qed

lemma strecpy_within:
  assumes "cstring_at m s = Some t" and "clear d s (length t)" and "d < e" and "e \<le> length m"
  shows "\<exists>m'. strecpy m d e s = Some (d + min (length t) (e - d - 1), m') \<and> length m' = length m
    \<and> cstring_at m' d = Some (take (e - d - 1) t) \<and> (\<forall>i < length m. i < d \<or> e \<le> i \<longrightarrow> m' ! i = m ! i)"
proof -
  let ?u = "take (e - d - 1) t"
  have len: "d + length (?u @ [0]) \<le> e" using assms(3) by simp
  have "0 \<notin> set ?u" using cstring_at_no_nul [OF assms(1)] by (meson in_set_takeD)
  then have "cstring_at (store m d (?u @ [0])) d = Some ?u"
    using cstring_at_append [of ?u "take d m"] len assms(3,4) by (simp add: store_def)
  moreover have "store m d (?u @ [0]) ! i = m ! i" if "i < d \<or> e \<le> i" "i < length m" for i
    using that len assms(4) by (auto simp: store_nth)
  ultimately show ?thesis using strecpy_correct [OF assms] len assms(4) by (auto simp: min.commute)
qed

lemma memmove_bytes:
  assumes "a1 + unat n \<le> length m" and "a2 + unat n \<le> length m" and "0 \<le> sint n"
  shows "\<exists>m'. memmove m a1 a2 n = Some m' \<and> length m' = length m
    \<and> (\<forall>i < length m. m' ! i = (if a1 \<le> i \<and> i < a1 + unat n then m ! (a2 + (i - a1)) else m ! i))"
  using memmove_correct [OF assms] assms(1,2) by (auto simp: store_nth)

lemma strstr_is_first:
  assumes "cstring_at m p = Some s" and "cstring_at m q = Some t"
  shows "\<exists>r. strstr m p q = Some r \<and> (case r of
      Some k \<Rightarrow> p \<le> k \<and> take (length t) (drop (k - p) s) = t \<and> (\<forall>j < k - p. take (length t) (drop j s) \<noteq> t)
    | None \<Rightarrow> \<forall>j. take (length t) (drop j s) \<noteq> t)"
  using strstr_correct [OF assms] find_sub_Some [of t s] find_sub_None [of t s]
  by (cases "find_sub t s") auto

end
