(* ===== verification/Utf.thy ===== *)
theory Utf
  imports Cstring
begin

text \<open>
  \<^verbatim>\<open>libc/port/rune.c\<close> and the UTF-8 string functions \<^verbatim>\<open>utf*.c\<close>.  A \<open>Rune\<close> is a 32-bit word.
\<close>

section \<open>Runes\<close>

abbreviation (input) UTFmax :: nat where "UTFmax \<equiv> 4"
abbreviation (input) Bitx :: nat where "Bitx \<equiv> 6"
abbreviation (input) Runesync :: u32 where "Runesync \<equiv> 0x80"
abbreviation (input) Runeself :: u32 where "Runeself \<equiv> 0x80"
abbreviation (input) Runeerror :: u32 where "Runeerror \<equiv> 0xFFFD"
abbreviation (input) Runemax :: u32 where "Runemax \<equiv> 0x10FFFF"
abbreviation (input) Rune1 :: u32 where "Rune1 \<equiv> 0x7F"
abbreviation (input) Tx :: u32 where "Tx \<equiv> 0x80"
abbreviation (input) Maskx :: u32 where "Maskx \<equiv> 0x3F"
abbreviation (input) Testx :: u32 where "Testx \<equiv> 0xC0"
abbreviation (input) SurrogateMin :: u32 where "SurrogateMin \<equiv> 0xD800"
abbreviation (input) SurrogateMax :: u32 where "SurrogateMax \<equiv> 0xDFFF"

definition utfT :: "nat \<Rightarrow> u32" where
  "utfT i = (push_bit (7 - i + 1) 1 - 1) XOR 0xFF"

definition RuneX :: "nat \<Rightarrow> u32" where
  "RuneX i = push_bit (7 - i + (i - 1) * Bitx) 1 - 1"

function chartorune_loop :: "block \<Rightarrow> nat \<Rightarrow> u32 \<Rightarrow> u32 \<Rightarrow> nat \<Rightarrow> (nat \<times> u32) option" where
  "chartorune_loop m str c0 l i = (if i < UTFmax then do {
       x \<leftarrow> ld m (str + i);
       let c = ucast x XOR Tx;
       if c AND Testx \<noteq> 0 then Some (1, Runeerror)
       else let l = push_bit Bitx l OR c in
         if c0 < utfT (i + 2) then
           (let l = l AND RuneX (i + 1) in
            if (if i = 1 then c0 < utfT 2 \<or> l \<le> Rune1 else l \<le> RuneX i \<or> l > Runemax) then Some (1, Runeerror)
            else if i = 2 \<and> SurrogateMin \<le> l \<and> l \<le> SurrogateMax then Some (1, Runeerror)
            else Some (i + 1, l))
         else chartorune_loop m str c0 l (i + 1)
     } else Some (1, Runeerror))"
  by pat_completeness auto
termination by (relation "measure (\<lambda>(m, str, c0, l, i). 4 - i)") auto

definition chartorune :: "block \<Rightarrow> nat \<Rightarrow> (nat \<times> u32) option" where
  "chartorune m str = do {
     x \<leftarrow> ld m str;
     let c0 = (ucast x :: u32);
     if c0 < Tx then Some (1, c0) else chartorune_loop m str c0 c0 1
   }"

text \<open>The bytes after the first of an encoding of \<open>i\<close> bytes.\<close>

function runetochar_rest :: "block \<Rightarrow> nat \<Rightarrow> u32 \<Rightarrow> nat \<Rightarrow> nat \<Rightarrow> block option" where
  "runetochar_rest m str c i j = (if j < i then do {
       m \<leftarrow> st m (str + j) (ucast (Tx OR (drop_bit ((i - j - 1) * Bitx) c AND Maskx)));
       runetochar_rest m str c i (j + 1)
     } else Some m)"
  by pat_completeness auto
termination by (relation "measure (\<lambda>(m, str, c, i, j). i - j)") auto

function runetochar_loop :: "block \<Rightarrow> nat \<Rightarrow> u32 \<Rightarrow> nat \<Rightarrow> (nat \<times> block) option" where
  "runetochar_loop m str c i = (if i < UTFmax + 1 then
       (let c = (if i = 3 \<and> c > Runemax then Runeerror else c);
            c = (if i = 3 \<and> SurrogateMin \<le> c \<and> c \<le> SurrogateMax then Runeerror else c)
        in if c \<le> RuneX i \<or> i = UTFmax then do {
             m \<leftarrow> st m str (ucast (utfT i OR drop_bit ((i - 1) * Bitx) c));
             m \<leftarrow> runetochar_rest m str c i 1;
             Some (i, m)
           } else runetochar_loop m str c (i + 1))
     else Some (UTFmax, m))"
  by pat_completeness auto
termination by (relation "measure (\<lambda>(m, str, c, i). 5 - i)") auto

definition runetochar :: "block \<Rightarrow> nat \<Rightarrow> u32 \<Rightarrow> (nat \<times> block) option" where
  "runetochar m str rune = (if rune \<le> Rune1 then do {
       m \<leftarrow> st m str (ucast rune);
       Some (1, m)
     } else runetochar_loop m str rune 2)"

declare chartorune_loop.simps [simp del] runetochar_rest.simps [simp del] runetochar_loop.simps [simp del]

definition runelen :: "u32 \<Rightarrow> nat option" where
  "runelen c = map_option fst (runetochar (replicate 10 0) 0 c)"

text \<open>The bytes \<open>runenlen\<close> counts for a rune, its loop over \<open>i\<close>.\<close>

definition runenlen1 :: "u32 \<Rightarrow> nat" where
  "runenlen1 c = (if c \<le> Rune1 then 1 else if c \<le> RuneX 2 then 2 else if c \<le> RuneX 3 then 3 else UTFmax)"

definition runenlen :: "u32 list \<Rightarrow> nat \<Rightarrow> nat option" where
  "runenlen r nrune = (if nrune \<le> length r then Some (sum_list (map runenlen1 (take nrune r))) else None)"

definition fullrune :: "block \<Rightarrow> nat \<Rightarrow> int \<Rightarrow> bool option" where
  "fullrune m str n = (if n \<le> 0 then Some False
     else do {
       x \<leftarrow> ld m str;
       let c = (ucast x :: u32);
       if c < Tx then Some True
       else if c < utfT 3 then Some (n \<ge> 2)
       else if c < utfT 4 then Some (n \<ge> 3)
       else Some (n \<ge> 4)
     })"

lemma utfT_vals: "utfT 2 = 0xC0" "utfT 3 = 0xE0" "utfT 4 = 0xF0" "utfT 5 = 0xF8"
  by (simp_all add: utfT_def push_bit_eq_mult)

lemma RuneX_vals: "RuneX 2 = 0x7FF" "RuneX 3 = 0xFFFF" "RuneX 4 = 0x1FFFFF"
  by (simp_all add: RuneX_def push_bit_eq_mult)

section \<open>UTF-8 strings\<close>

lemma chartorune_loop_pos: "chartorune_loop m p c0 l i = Some (k, r) \<Longrightarrow> 1 \<le> k"
  by (induction m p c0 l i rule: chartorune_loop.induct)
    (subst (asm) (2) chartorune_loop.simps, auto simp: bind_Some_iff Let_def split: if_splits)

lemma chartorune_pos: "chartorune m p = Some (k, r) \<Longrightarrow> 1 \<le> k"
  by (auto simp: chartorune_def bind_Some_iff Let_def split: if_splits dest: chartorune_loop_pos)

function utflen_loop :: "block \<Rightarrow> nat \<Rightarrow> nat \<Rightarrow> nat option" where
  "utflen_loop m s n = do {
     c \<leftarrow> ld m s;
     if ucast c < Runeself then (if c = 0 then Some n else utflen_loop m (s + 1) (n + 1))
     else do {
       (k, r) \<leftarrow> chartorune m s;
       utflen_loop m (s + k) (n + 1)
     }
   }"
  by pat_completeness auto
termination by (relation "measure (\<lambda>(m, s, n). length m - s)") (auto dest: chartorune_pos)

definition utflen :: "block \<Rightarrow> nat \<Rightarrow> nat option" where
  "utflen m s = utflen_loop m s 0"

function utfnlen_loop :: "block \<Rightarrow> nat \<Rightarrow> int \<Rightarrow> nat \<Rightarrow> nat option" where
  "utfnlen_loop m s es n = (if int s < es then do {
       c \<leftarrow> ld m s;
       if ucast c < Runeself then (if c = 0 then Some n else utfnlen_loop m (s + 1) es (n + 1))
       else do {
         full \<leftarrow> fullrune m s (es - int s);
         if \<not> full then Some n
         else do {
           (k, r) \<leftarrow> chartorune m s;
           utfnlen_loop m (s + k) es (n + 1)
         }
       }
     } else Some n)"
  by pat_completeness auto
termination by (relation "measure (\<lambda>(m, s, es, n). length m - s)") (auto dest: chartorune_pos)

definition utfnlen :: "block \<Rightarrow> nat \<Rightarrow> int \<Rightarrow> nat option" where
  "utfnlen m s n = utfnlen_loop m s (int s + n) 0"

function utfrune_loop :: "block \<Rightarrow> nat \<Rightarrow> u32 \<Rightarrow> nat option option" where
  "utfrune_loop m s c = do {
     c1 \<leftarrow> ld m s;
     if ucast c1 < Runeself then
       (if c1 = 0 then Some None
        else if ucast c1 = c then Some (Some s)
        else utfrune_loop m (s + 1) c)
     else do {
       (n, r) \<leftarrow> chartorune m s;
       if r = c then Some (Some s) else utfrune_loop m (s + n) c
     }
   }"
  by pat_completeness auto
termination by (relation "measure (\<lambda>(m, s, c). length m - s)") (auto dest: chartorune_pos)

definition utfrune :: "block \<Rightarrow> nat \<Rightarrow> u32 \<Rightarrow> nat option option" where
  "utfrune m s c = (if sint c < 0x80 then strchr m s c else utfrune_loop m s c)"

function utfrrune_loop :: "block \<Rightarrow> nat \<Rightarrow> u32 \<Rightarrow> nat option \<Rightarrow> nat option option" where
  "utfrrune_loop m s c s1 = do {
     c1 \<leftarrow> ld m s;
     if ucast c1 < Runeself then
       (if c1 = 0 then Some s1
        else utfrrune_loop m (s + 1) c (if ucast c1 = c then Some s else s1))
     else do {
       (n, r) \<leftarrow> chartorune m s;
       utfrrune_loop m (s + n) c (if r = c then Some s else s1)
     }
   }"
  by pat_completeness auto
termination by (relation "measure (\<lambda>(m, s, c, s1). length m - s)") (auto dest: chartorune_pos)

definition utfrrune :: "block \<Rightarrow> nat \<Rightarrow> u32 \<Rightarrow> nat option option" where
  "utfrrune m s c = (if sint c < 0x80 then strrchr m s c else utfrrune_loop m s c None)"

declare utflen_loop.simps [simp del] utfnlen_loop.simps [simp del] utfrune_loop.simps [simp del]
  utfrrune_loop.simps [simp del]

lemma utfrune_loop_range: "utfrune_loop m s c = Some (Some p) \<Longrightarrow> s \<le> p \<and> p < length m"
proof (induction "length m - s" arbitrary: s rule: less_induct)
  case less
  have s: "s < length m" using less.prems by (subst (asm) utfrune_loop.simps) (auto simp: bind_Some_iff)
  from less.prems consider "p = s" | k where "1 \<le> k" "utfrune_loop m (s + k) c = Some (Some p)"
    by (subst (asm) utfrune_loop.simps) (fastforce simp: bind_Some_iff split: if_splits dest: chartorune_pos)
  then show ?case
  proof cases
    case 2
    then have "s + k \<le> p \<and> p < length m" using less.hyps [of "s + k"] s by simp
    then show ?thesis by simp
  qed (use s in simp)
qed

lemma utfrune_range: "utfrune m s c = Some (Some p) \<Longrightarrow> s \<le> p \<and> p < length m"
  by (auto simp: utfrune_def split: if_splits dest: strchr_range utfrune_loop_range)

text \<open>The loop of \<open>utfutf\<close>, entered with \<open>p\<close>; \<open>n1\<close> is the length of the first rune of \<open>s2\<close>, \<open>f\<close> that rune.\<close>

function utfutf_loop :: "block \<Rightarrow> nat \<Rightarrow> nat \<Rightarrow> nat \<Rightarrow> u32 \<Rightarrow> nat \<Rightarrow> nat option option" where
  "utfutf_loop m s2 n1 n2 f p = (if n1 = 0 then None else do {
     r \<leftarrow> utfrune m p f;
     (case r of
        None \<Rightarrow> Some None
      | Some q \<Rightarrow> do {
          x \<leftarrow> strncmp m q s2 (int n2);
          if x = 0 then Some (Some q) else utfutf_loop m s2 n1 n2 f (q + n1)
        })
   })"
  by pat_completeness auto
termination by (relation "measure (\<lambda>(m, s2, n1, n2, f, p). length m - p)") (auto dest: utfrune_range)

definition utfutf :: "block \<Rightarrow> nat \<Rightarrow> nat \<Rightarrow> nat option option" where
  "utfutf m s1 s2 = do {
     (n1, f) \<leftarrow> chartorune m s2;
     if f \<le> Runesync then strstr m s1 s2
     else do {
       n2 \<leftarrow> strlen m s2;
       utfutf_loop m s2 n1 n2 f s1
     }
   }"

declare utfutf_loop.simps [simp del]

text \<open>The loop of \<open>utfecpy\<close> that backs up to the start of a rune.\<close>

fun utfecpy_back :: "block \<Rightarrow> nat \<Rightarrow> nat \<Rightarrow> nat option" where
  "utfecpy_back m to 0 = Some 0"
| "utfecpy_back m to (Suc e) = (if Suc e > to then do {
       x \<leftarrow> ld m e;
       if x AND 0xC0 = 0x80 then utfecpy_back m to e else Some e
     } else Some (Suc e))"

definition utfecpy :: "block \<Rightarrow> nat \<Rightarrow> nat \<Rightarrow> nat \<Rightarrow> (nat \<times> block) option" where
  "utfecpy m to e from = (if to \<ge> e then Some (to, m)
     else do {
       (r, m) \<leftarrow> memccpy m to from 0 (e - to);
       (case r of
          None \<Rightarrow> do {
            end \<leftarrow> utfecpy_back m to e;
            m \<leftarrow> st m end 0;
            Some (end, m)
          }
        | Some q \<Rightarrow> Some (q - 1, m))
     })"


definition ctest :: "int \<Rightarrow> bool" where
 "ctest n \<longleftrightarrow> (let c = (ucast (word_of_int n :: byte) XOR 0x80 :: u32) in
   if 128 \<le> n \<and> n < 192 then c AND 0xC0 = 0 \<and> uint c + 128 = n else c AND 0xC0 \<noteq> 0)"
lemma ctest_all: "list_all ctest [0..255]"
  by code_simp

lemma cont_byte:
  fixes x :: byte
  defines "c \<equiv> (ucast x XOR 0x80 :: u32)"
  shows "c AND 0xC0 = 0 \<longleftrightarrow> 128 \<le> unat x \<and> unat x < 192"
    and "128 \<le> unat x \<Longrightarrow> unat x < 192 \<Longrightarrow> unat c = unat x - 128"
proof -
  have "uint x \<in> set [0..255]" using unsigned_less [of x, where 'a = int] by simp
  then have "ctest (uint x)" using ctest_all by (simp add: list_all_iff)
  then have c: "if 128 \<le> uint x \<and> uint x < 192 then c AND 0xC0 = 0 \<and> uint c + 128 = uint x else c AND 0xC0 \<noteq> 0"
    by (simp add: ctest_def c_def Let_def)
  define u v where "u = unat x" and "v = unat c"
  then have x: "uint x = int u" "uint c = int v" by simp_all
  show "c AND 0xC0 = 0 \<longleftrightarrow> 128 \<le> unat x \<and> unat x < 192"
    using c unfolding x u_def [symmetric] by (auto split: if_splits)
  show "128 \<le> unat x \<Longrightarrow> unat x < 192 \<Longrightarrow> unat c = unat x - 128"
    using c unfolding x u_def [symmetric] v_def [symmetric] by (auto split: if_splits)
qed

lemma small_bits:
  assumes "unat (c :: u32) < 2 ^ k" and "bit c n"
  shows "n < k"
proof (rule ccontr)
  assume "\<not> n < k"
  have "unat (take_bit k c) = unat c"
    using assms(1) unsigned_take_bit_eq [of k c, where 'a = nat] by (simp add: take_bit_nat_eq_self)
  then have "take_bit k c = c" by (simp add: word_unat_eq_iff)
  then have "bit (take_bit k c) n" using assms(2) by simp
  with \<open>\<not> n < k\<close> show False by (simp add: bit_simps)
qed

lemma shift_or_gen:
  assumes "unat (l :: u32) * 2 ^ k + unat c < 2 ^ 32" and "unat c < 2 ^ k"
  shows "unat (push_bit k l OR c) = unat l * 2 ^ k + unat c"
proof -
  have "push_bit k l AND c = 0"
  proof (rule bit_word_eqI)
    fix n
    show "bit (push_bit k l AND c) n = bit (0 :: u32) n"
      using small_bits [of c k n] assms(2) by (auto simp: bit_simps)
  qed
  then have "push_bit k l OR c = push_bit k l + c" by (simp add: disjunctive_add_eq_or)
  moreover have "unat (push_bit k l) = unat l * 2 ^ k"
  proof -
    have "unat l * 2 ^ k < 2 ^ 32" using assms(1) by simp
    then show ?thesis
      using unsigned_push_bit_eq [of k l, where 'a = nat] by (simp add: push_bit_nat_eq take_bit_eq_mod push_bit_eq_mult)
  qed
  ultimately show ?thesis using assms by (simp add: unat_word_ariths)
qed

lemma shift_or: "unat (l :: u32) < 2 ^ 26 \<Longrightarrow> unat c < 64 \<Longrightarrow> unat (push_bit 6 l OR c) = unat l * 64 + unat c"
  using shift_or_gen [of l 6 c] by simp

lemma and_RuneX:
  fixes l :: u32
  shows "unat (l AND 0x7FF) = unat l mod 2048" and "unat (l AND 0xFFFF) = unat l mod 65536"
    and "unat (l AND 0x1FFFFF) = unat l mod 2097152"
proof -
  have "unat (l AND mask k) = unat l mod 2 ^ k" for k
    by (metis take_bit_eq_mask take_bit_eq_mod unsigned_take_bit_eq)
  from this [of 11] this [of 16] this [of 21] show "unat (l AND 0x7FF) = unat l mod 2048"
    and "unat (l AND 0xFFFF) = unat l mod 65536" and "unat (l AND 0x1FFFFF) = unat l mod 2097152"
    by (simp_all add: mask_eq_exp_minus_1)
qed

section \<open>Decoding, in numbers\<close>

definition cont :: "byte \<Rightarrow> bool" where "cont x \<longleftrightarrow> 128 \<le> unat x \<and> unat x < 192"

abbreviation (input) bad :: "(nat \<times> nat) option" where "bad \<equiv> Some (1, 0xFFFD)"

definition dec4 :: "block \<Rightarrow> nat \<Rightarrow> nat \<Rightarrow> nat \<Rightarrow> (nat \<times> nat) option" where
  "dec4 m p a l = do {
     x \<leftarrow> ld m (p + 3);
     let v = (l * 64 + (unat x - 128)) mod 0x200000;
     if \<not> cont x then bad else if a \<ge> 0xF8 \<or> v \<le> 0xFFFF \<or> 0x10FFFF < v then bad else Some (4, v)
   }"

definition dec3 :: "block \<Rightarrow> nat \<Rightarrow> nat \<Rightarrow> nat \<Rightarrow> (nat \<times> nat) option" where
  "dec3 m p a l = do {
     x \<leftarrow> ld m (p + 2);
     let l = l * 64 + (unat x - 128);
     let v = l mod 0x10000;
     if \<not> cont x then bad
     else if a < 0xF0 then (if v \<le> 0x7FF \<or> 0xD800 \<le> v \<and> v \<le> 0xDFFF then bad else Some (3, v))
     else dec4 m p a l
   }"

definition dec2 :: "block \<Rightarrow> nat \<Rightarrow> nat \<Rightarrow> (nat \<times> nat) option" where
  "dec2 m p a = do {
     x \<leftarrow> ld m (p + 1);
     let l = a * 64 + (unat x - 128);
     let v = l mod 0x800;
     if \<not> cont x then bad
     else if a < 0xE0 then (if a < 0xC0 \<or> v \<le> 0x7F then bad else Some (2, v))
     else dec3 m p a l
   }"

definition dec :: "block \<Rightarrow> nat \<Rightarrow> (nat \<times> nat) option" where
  "dec m p = do {
     x \<leftarrow> ld m p;
     if unat x < 128 then Some (1, unat x) else dec2 m p (unat x)
   }"

abbreviation nums :: "(nat \<times> u32) option \<Rightarrow> (nat \<times> nat) option" where
  "nums \<equiv> map_option (map_prod id unat)"

lemma nums_bind: "nums (Option.bind x f) = Option.bind x (\<lambda>y. nums (f y))"
  by (cases x) auto

lemma shift_cont:
  "cont x \<Longrightarrow> unat l < 2 ^ 26 \<Longrightarrow> unat (push_bit 6 l OR (ucast x XOR 0x80) :: u32) = unat l * 64 + (unat x - 128)"
  using shift_or [of l "ucast x XOR 0x80"] cont_byte(2) [of x] by (auto simp: cont_def)

lemma loop_end: "chartorune_loop m p c0 l 4 = Some (1, Runeerror)"
  by (simp add: chartorune_loop.simps)

lemmas decode_simps = Let_def nums_bind utfT_vals cont_byte(1) cont_def [symmetric] shift_cont word_less_nat_alt
  word_le_nat_alt and_RuneX RuneX_vals not_le

lemma loop4:
  assumes "unat l < 2 ^ 26"
  shows "nums (chartorune_loop m p c0 l 3) = dec4 m p (unat c0) (unat l)"
proof (cases "p + 3 < length m")
  case True
  then show ?thesis
    using assms by (cases "cont (m ! (p + 3))")
      (simp_all add: dec4_def chartorune_loop.simps [of m p c0 l 3] loop_end decode_simps)
qed (simp add: dec4_def chartorune_loop.simps [of m p c0 l 3] ld_def)

lemma loop3:
  assumes "unat l < 2 ^ 20"
  shows "nums (chartorune_loop m p c0 l 2) = dec3 m p (unat c0) (unat l)"
proof (cases "p + 2 < length m")
  case True
  then show ?thesis
  proof (cases "cont (m ! (p + 2))")
    case c: True
    have l: "unat (push_bit 6 l OR (ucast (m ! (p + 2)) XOR 0x80) :: u32) = unat l * 64 + (unat (m ! (p + 2)) - 128)"
      using assms by (intro shift_cont c) simp
    then have "nums (chartorune_loop m p c0 (push_bit 6 l OR (ucast (m ! (p + 2)) XOR 0x80)) 3)
        = dec4 m p (unat c0) (unat l * 64 + (unat (m ! (p + 2)) - 128))"
      using c assms by (subst loop4) (auto simp: cont_def)
    then show ?thesis
      using True c l assms mod_less_divisor [of 65536 "unat l * 64 + (unat (m ! (p + 2)) - 128)"] by (simp add: dec3_def chartorune_loop.simps [of m p c0 l 2] decode_simps)
  qed (use assms in \<open>simp add: dec3_def chartorune_loop.simps [of m p c0 l 2] decode_simps\<close>)
qed (simp add: dec3_def chartorune_loop.simps [of m p c0 l 2] ld_def)

lemma loop2:
  assumes "unat l < 2 ^ 8"
  shows "nums (chartorune_loop m p l l 1) = dec2 m p (unat l)"
proof (cases "p + 1 < length m")
  case True
  then show ?thesis
  proof (cases "cont (m ! (p + 1))")
    case c: True
    have l: "unat (push_bit 6 l OR (ucast (m ! (p + 1)) XOR 0x80) :: u32) = unat l * 64 + (unat (m ! (p + 1)) - 128)"
      using assms by (intro shift_cont c) simp
    then have "nums (chartorune_loop m p l (push_bit 6 l OR (ucast (m ! (p + 1)) XOR 0x80)) 2)
        = dec3 m p (unat l) (unat l * 64 + (unat (m ! (p + 1)) - 128))"
      using c assms by (subst loop3) (auto simp: cont_def)
    moreover have "unat l * 64 + (unat (m ! (p + 1)) - 128) < 65536" using assms c by (auto simp: cont_def)
    ultimately show ?thesis
      using True c l assms by (simp add: dec2_def chartorune_loop.simps [of m p l l "Suc 0"] decode_simps numeral_2_eq_2 [symmetric])
  qed (use assms in \<open>simp add: dec2_def chartorune_loop.simps [of m p l l "Suc 0"] decode_simps\<close>)
qed (simp add: dec2_def chartorune_loop.simps [of m p l l "Suc 0"] ld_def)

text \<open>\<open>chartorune\<close>, with its words read as numbers.\<close>

lemma unat_ucast_byte [simp]: "unat (ucast (x :: byte) :: u32) = unat x"
proof -
  have "unat x < 2 ^ 32" by (rule less_trans [OF unat_byte_less]) simp
  then show ?thesis by (simp add: unsigned_ucast_eq take_bit_nat_eq_self)
qed

lemma chartorune_dec: "nums (chartorune m p) = dec m p"
proof (cases "p < length m")
  case True
  have "unat (ucast (m ! p) :: u32) = unat (m ! p)"
    by (rule unat_ucast_byte)
  then show ?thesis
    using True loop2 [of "ucast (m ! p)" m p]
    by (simp add: chartorune_def dec_def word_less_nat_alt Let_def)
qed (simp add: chartorune_def dec_def ld_def)

section \<open>Encoding\<close>

definition utf8 :: "nat \<Rightarrow> block" where
  "utf8 n = map of_nat (if n < 0x80 then [n]
     else if n < 0x800 then [0xC0 + n div 64, 0x80 + n mod 64]
     else if n < 0x10000 then [0xE0 + n div 4096, 0x80 + n div 64 mod 64, 0x80 + n mod 64]
     else [0xF0 + n div 262144, 0x80 + n div 4096 mod 64, 0x80 + n div 64 mod 64, 0x80 + n mod 64])"

definition valid_rune :: "nat \<Rightarrow> bool" where
  "valid_rune n \<longleftrightarrow> n \<le> 0x10FFFF \<and> \<not> (0xD800 \<le> n \<and> n \<le> 0xDFFF)"

lemma lead_byte:
  assumes "unat (x :: u32) < 2 ^ k" and "a * 2 ^ k + 2 ^ k \<le> 256"
  shows "(ucast (push_bit k (of_nat a) OR x) :: byte) = of_nat (a * 2 ^ k + unat x)"
proof -
  have "a * 2 ^ k < 256" using assms(2) by (smt (verit) less_le_trans add_less_cancel_left zero_less_power zero_less_numeral less_add_same_cancel1)
  then have "a < 256" by (metis mult.right_neutral mult_le_mono2 one_le_numeral one_le_power le_less_trans)
  then have u: "unat (of_nat a :: u32) = a" by (simp add: unat_of_nat)
  have lt: "a * 2 ^ k + unat x < 256" using assms by linarith
  have "unat (push_bit k (of_nat a) OR x :: u32) = a * 2 ^ k + unat x"
    using shift_or_gen [of "of_nat a" k x] assms lt u by simp
  then have "ucast (push_bit k (of_nat a) OR x :: u32) = (of_nat (a * 2 ^ k + unat x) :: byte)"
    by (metis of_nat_unat)
  then show ?thesis .
qed


lemma unat_drop_bit: "unat (drop_bit k (c :: u32)) = unat c div 2 ^ k"
proof -
  have "take_bit 32 (unat c) = unat c"
    using unsigned_less [of c, where 'a = nat] by (simp add: take_bit_nat_eq_self)
  then show ?thesis
    using unsigned_drop_bit_eq [of k c, where 'a = nat] by (simp add: drop_bit_eq_div)
qed

lemma unat_and_3F: "unat (c AND 0x3F :: u32) = unat c mod 64"
proof -
  have "unat (c AND mask 6) = unat c mod 2 ^ 6"
    by (metis take_bit_eq_mask take_bit_eq_mod unsigned_take_bit_eq)
  then show ?thesis by (simp add: mask_eq_exp_minus_1)
qed

lemma tail_byte: "(ucast (0x80 OR (drop_bit k c AND 0x3F :: u32)) :: byte) = of_nat (0x80 + unat c div 2 ^ k mod 64)"
  using lead_byte [of "drop_bit k c AND 0x3F" 7 1] unat_drop_bit [of k c]
  by (simp add: unat_and_3F push_bit_eq_mult less_trans [OF mod_less_divisor])

lemma rest_bytes:
  assumes "str + i \<le> length m" and "1 \<le> j" and "j \<le> i"
  shows "runetochar_rest m str c i j
    = Some (store m (str + j) (map (\<lambda>k. of_nat (0x80 + unat c div 2 ^ ((i - k - 1) * 6) mod 64)) [j..<i]))"
  using assms
proof (induction "i - j" arbitrary: j m)
  case 0
  then show ?case by (subst runetochar_rest.simps) simp
next
  case (Suc n)
  let ?b = "\<lambda>k. (of_nat (0x80 + unat c div 2 ^ ((i - k - 1) * 6) mod 64) :: byte)"
  have "runetochar_rest (m[str + j := ?b j]) str c i (Suc j)
      = Some (store (m[str + j := ?b j]) (str + Suc j) (map ?b [Suc j..<i]))"
    using Suc.hyps(1) [of "Suc j" "m[str + j := ?b j]"] Suc.hyps(2) Suc.prems by simp
  moreover have "j < i" using Suc.hyps(2) by simp
  moreover have "[j..<i] = j # [Suc j..<i]" using \<open>j < i\<close> by (simp add: upt_conv_Cons)
  ultimately show ?case
    using Suc.hyps(2) Suc.prems by (subst runetochar_rest.simps) (simp add: tail_byte store_Cons)
qed

text \<open>The bytes written for \<open>c\<close> by the branch of \<open>i\<close> bytes.\<close>

lemma write_bytes:
  assumes "utfT i = push_bit k (of_nat a)" and "unat c div 2 ^ ((i - 1) * 6) < 2 ^ k" and "a * 2 ^ k + 2 ^ k \<le> 256"
    and "1 \<le> i" and "p + i \<le> length m"
  shows "do {
      m \<leftarrow> st m p (ucast (utfT i OR drop_bit ((i - 1) * Bitx) c));
      m \<leftarrow> runetochar_rest m p c i 1;
      Some (i, m)
    } = Some (i, store m p (of_nat (a * 2 ^ k + unat c div 2 ^ ((i - 1) * 6))
        # map (\<lambda>j. of_nat (0x80 + unat c div 2 ^ ((i - j - 1) * 6) mod 64)) [1..<i]))"
proof -
  have "ucast (utfT i OR drop_bit ((i - 1) * 6) c) = (of_nat (a * 2 ^ k + unat c div 2 ^ ((i - 1) * 6)) :: byte)"
    using lead_byte [of "drop_bit ((i - 1) * 6) c" k a] assms(1-3) by (simp add: unat_drop_bit)
  moreover have "p < length m" using assms(4,5) by simp
  ultimately show ?thesis
    using assms(4,5) rest_bytes [of p i "m[p := x]" 1 c for x] by (simp add: store_Cons)
qed

lemma utf8_length: "length (utf8 n) = (if n < 0x80 then 1 else if n < 0x800 then 2 else if n < 0x10000 then 3 else 4)"
  by (simp add: utf8_def)

lemma upto4: "[Suc 0..<2] = [1]" "[Suc 0..<3] = [1, 2]" "[Suc 0..<4] = [1, 2, 3]"
  by code_simp+

lemma runetochar_loop4:
  assumes "unat c < 0x200000" and "0x10000 \<le> unat c" and "p + 4 \<le> length m"
  shows "runetochar_loop m p c 4 = Some (4, store m p (utf8 (unat c)))"
proof -
  have "utfT 4 = push_bit 4 (of_nat 15)" by (simp add: utfT_vals push_bit_eq_mult)
  from write_bytes [OF this, of c p m] assms show ?thesis
    by (subst runetochar_loop.simps) (simp add: utf8_def upto4)
qed

lemma runetochar_loop3:
  assumes "0x800 \<le> unat c"
  defines "n \<equiv> (if valid_rune (unat c) then unat c else 0xFFFD)"
  assumes "p + length (utf8 n) \<le> length m"
  shows "runetochar_loop m p c 3 = Some (length (utf8 n), store m p (utf8 n))"
proof -
  have T: "utfT 3 = push_bit 5 (of_nat 7)" by (simp add: utfT_vals push_bit_eq_mult)
  have three: "runetochar_loop m p c 3 = Some (3, store m p (utf8 (unat d)))"
    if "d = (if valid_rune (unat c) then c else 0xFFFD)" "unat d < 0x10000" for d
  proof -
    have n: "n = unat d" using that(1) by (simp add: n_def)
    have "0x800 \<le> unat d" using that assms(1) by simp
    then have "0x800 \<le> unat d" "p + 3 \<le> length m" using that(2) assms(3) by (simp_all add: utf8_length n)
    with write_bytes [OF T, of d p m] that show ?thesis
      by (subst runetochar_loop.simps) (auto simp: utf8_def upto4 valid_rune_def word_less_nat_alt word_le_nat_alt RuneX_vals Let_def not_less)
  qed
  show ?thesis
  proof (cases "valid_rune (unat c) \<and> 0x10000 \<le> unat c")
    case True
    then have "runetochar_loop m p c 3 = runetochar_loop m p c 4"
      by (subst runetochar_loop.simps) (simp add: valid_rune_def word_less_nat_alt word_le_nat_alt RuneX_vals)
    then show ?thesis
      using True assms(3) runetochar_loop4 [of c p m] by (simp add: n_def utf8_def valid_rune_def)
  next
    case False
    then show ?thesis
      using three [of "if valid_rune (unat c) then c else 0xFFFD"] assms(1) by (auto simp: n_def utf8_def)
  qed
qed

lemma runetochar_correct:
  fixes r :: u32
  defines "n \<equiv> (if valid_rune (unat r) then unat r else 0xFFFD)"
  assumes "p + length (utf8 n) \<le> length m"
  shows "runetochar m p r = Some (length (utf8 n), store m p (utf8 n))"
proof -
  consider "unat r < 0x80" | "0x80 \<le> unat r" "unat r < 0x800" | "0x800 \<le> unat r" by linarith
  then show ?thesis
  proof cases
    case 1
    then have "valid_rune (unat r)" by (simp add: valid_rune_def)
    with 1 assms show ?thesis
      by (simp add: runetochar_def n_def utf8_def word_le_nat_alt store_one)
  next
    case 2
    then have v: "valid_rune (unat r)" by (simp add: valid_rune_def)
    have "utfT 2 = push_bit 6 (of_nat 3)" by (simp add: utfT_vals push_bit_eq_mult)
    from write_bytes [OF this, of r p m] 2 v assms show ?thesis
      by (simp add: runetochar_def runetochar_loop.simps [of m p r 2] n_def utf8_def word_le_nat_alt RuneX_vals upto4)
  next
    case 3
    then have "runetochar m p r = runetochar_loop m p r 3"
      by (simp add: runetochar_def runetochar_loop.simps [of m p r 2] word_le_nat_alt RuneX_vals)
    then show ?thesis using runetochar_loop3 [OF 3, of p m] assms by simp
  qed
qed

section \<open>Decoding and encoding are inverse\<close>

definition holds_at :: "block \<Rightarrow> nat \<Rightarrow> block \<Rightarrow> bool" where
  "holds_at m p bs \<longleftrightarrow> p + length bs \<le> length m \<and> take (length bs) (drop p m) = bs"

lemma holds_at_Nil [simp]: "holds_at m p [] \<longleftrightarrow> p \<le> length m"
  by (simp add: holds_at_def)

lemma holds_at_Cons [simp]: "holds_at m p (b # bs) \<longleftrightarrow> p < length m \<and> m ! p = b \<and> holds_at m (Suc p) bs"
  by (auto simp: holds_at_def Cons_nth_drop_Suc [symmetric])

lemma holds_at_store: "p + length bs \<le> length m \<Longrightarrow> holds_at (store m p bs) p bs"
  by (simp add: holds_at_def store_def)

lemma byte_num: "m ! p = (of_nat a :: byte) \<Longrightarrow> a < 256 \<Longrightarrow> unat (m ! p) = a"
  by (simp add: unat_of_nat)

lemma join6:
  fixes n :: nat
  shows "(a + n div 64) * 64 + n mod 64 = a * 64 + n"
    and "((a + n div 4096) * 64 + n div 64 mod 64) * 64 + n mod 64 = a * 4096 + n"
    and "(((a + n div 262144) * 64 + n div 4096 mod 64) * 64 + n div 64 mod 64) * 64 + n mod 64 = a * 262144 + n"
proof -
  have q: "n div 4096 = n div 64 div 64" "n div 262144 = n div 64 div 64 div 64"
    by (simp_all add: div_mult2_eq [symmetric])
  define r0 q1 r1 q2 r2 q3 where "r0 = n mod 64" and "q1 = n div 64" and "r1 = q1 mod 64" and "q2 = q1 div 64"
    and "r2 = q2 mod 64" and "q3 = q2 div 64"
  note d = this
  have e: "n = q1 * 64 + r0" "q1 = q2 * 64 + r1" "q2 = q3 * 64 + r2" by (simp_all add: d)
  have "n div 64 = q1" "n mod 64 = r0" "n div 64 mod 64 = r1" "n div 4096 = q2" "n div 4096 mod 64 = r2" "n div 262144 = q3"
    by (simp_all add: d q)
  then show "(a + n div 64) * 64 + n mod 64 = a * 64 + n"
    and "((a + n div 4096) * 64 + n div 64 mod 64) * 64 + n mod 64 = a * 4096 + n"
    and "(((a + n div 262144) * 64 + n div 4096 mod 64) * 64 + n div 64 mod 64) * 64 + n mod 64 = a * 262144 + n"
    using e by simp_all
qed

lemma mod_add_mult: "n < k \<Longrightarrow> (n + a * k) mod k = (n :: nat)"
  by simp

lemma dec_utf8:
  assumes "valid_rune n" and "holds_at m p (utf8 n)"
  shows "dec m p = Some (length (utf8 n), n)"
proof -
  consider "n < 0x80" | "0x80 \<le> n" "n < 0x800" | "0x800 \<le> n" "n < 0x10000" | "0x10000 \<le> n" by linarith
  then show ?thesis
  proof cases
    case 1
    then show ?thesis using assms by (simp add: utf8_def dec_def unat_of_nat)
  next
    case 2
    let ?a = "0xC0 + n div 64" and ?b = "0x80 + n mod 64"
    have h: "p + 1 < length m" "m ! p = of_nat ?a" "m ! (p + 1) = of_nat ?b"
      using assms(2) 2 by (simp_all add: utf8_def)
    have u: "unat (m ! p) = ?a" "unat (m ! (p + 1)) = ?b"
      by (rule byte_num [OF h(2)], use 2 in simp) (rule byte_num [OF h(3)], simp add: less_trans [OF mod_less_divisor])
    have "?a * 64 + (?b - 128) = n + 6 * 2048" using join6(1) [of "0xC0" n] by simp
    then have "(?a * 64 + (?b - 128)) mod 2048 = n" by (simp only: mod_add_mult 2)
    moreover have "?a < 0xE0" using 2 by simp
    ultimately show ?thesis using h(1) u 2 by (simp add: dec_def dec2_def cont_def utf8_length Let_def)
  next
    case 3
    let ?a = "0xE0 + n div 4096" and ?b = "0x80 + n div 64 mod 64" and ?c = "0x80 + n mod 64"
    have h: "p + 2 < length m" "m ! p = of_nat ?a" "m ! (p + 1) = of_nat ?b" "m ! (p + 2) = of_nat ?c"
      using assms(2) 3 by (simp_all add: utf8_def)
    have "?a < 0xF0" using 3 by simp
    have u: "unat (m ! p) = ?a" "unat (m ! (p + 1)) = ?b" "unat (m ! (p + 2)) = ?c"
      by (rule byte_num [OF h(2)], use 3 in simp) (rule byte_num [OF h(3)], simp add: less_trans [OF mod_less_divisor], 
        rule byte_num [OF h(4)], simp add: less_trans [OF mod_less_divisor])
    have "(?a * 64 + (?b - 128)) * 64 + (?c - 128) = n + 14 * 65536"
      using join6(2) [of "0xE0" n] by simp
    then have "((?a * 64 + (?b - 128)) * 64 + (?c - 128)) mod 65536 = n" by (simp only: mod_add_mult 3)
    then show ?thesis using h(1) u 3 \<open>?a < 0xF0\<close> assms(1)
      by (simp add: dec_def dec2_def dec3_def cont_def utf8_length Let_def valid_rune_def)
  next
    case 4
    then have le: "n \<le> 0x10FFFF" using assms(1) by (simp add: valid_rune_def)
    let ?a = "0xF0 + n div 262144" and ?b = "0x80 + n div 4096 mod 64" and ?c = "0x80 + n div 64 mod 64" and ?d = "0x80 + n mod 64"
    have h: "p + 3 < length m" "m ! p = of_nat ?a" "m ! (p + 1) = of_nat ?b" "m ! (p + 2) = of_nat ?c" "m ! (p + 3) = of_nat ?d"
      using assms(2) 4 by (simp_all add: utf8_def numeral_3_eq_3)
    have "?a < 0xF8" using le by simp
    have u: "unat (m ! p) = ?a" "unat (m ! (p + 1)) = ?b" "unat (m ! (p + 2)) = ?c" "unat (m ! (p + 3)) = ?d"
      by (rule byte_num [OF h(2)], use le in simp) (rule byte_num [OF h(3)], simp add: less_trans [OF mod_less_divisor], 
        rule byte_num [OF h(4)], simp add: less_trans [OF mod_less_divisor], rule byte_num [OF h(5)], simp add: less_trans [OF mod_less_divisor])
    have "((?a * 64 + (?b - 128)) * 64 + (?c - 128)) * 64 + (?d - 128) = n + 30 * 2097152"
      using join6(3) [of "0xF0" n] by simp
    then have "(((?a * 64 + (?b - 128)) * 64 + (?c - 128)) * 64 + (?d - 128)) mod 2097152 = n"
      using le mod_add_mult [of n 2097152 30] by (simp only:)
    then show ?thesis using h(1) u 4 \<open>?a < 0xF8\<close> le
      by (simp add: dec_def dec2_def dec3_def dec4_def cont_def utf8_length Let_def)
  qed
qed


text \<open>What \<open>dec\<close> returns is the encoding that is there, or the error rune for one byte.\<close>

lemma byte_back: "unat (x :: byte) = a \<Longrightarrow> x = of_nat a"
  by (metis of_nat_unat ucast_id)

lemma split6:
  fixes a :: nat
  assumes "b < 64"
  shows "(a * 64 + b) div 64 = a" "(a * 64 + b) mod 64 = b"
  using assms by simp_all

lemma parts6:
  fixes a :: nat
  assumes "b < 64" and "c < 64" and "d < 64"
  shows "((a * 64 + b) * 64 + c) div 4096 = a" "((a * 64 + b) * 64 + c) div 64 mod 64 = b"
    "(((a * 64 + b) * 64 + c) * 64 + d) div 262144 = a" "(((a * 64 + b) * 64 + c) * 64 + d) div 4096 mod 64 = b"
    "(((a * 64 + b) * 64 + c) * 64 + d) div 64 mod 64 = c"
proof -
  have q: "x div 4096 = x div 64 div 64" "x div 262144 = x div 64 div 64 div 64" for x :: nat
    by (simp_all add: div_mult2_eq [symmetric])
  show "((a * 64 + b) * 64 + c) div 4096 = a" "((a * 64 + b) * 64 + c) div 64 mod 64 = b"
    "(((a * 64 + b) * 64 + c) * 64 + d) div 262144 = a" "(((a * 64 + b) * 64 + c) * 64 + d) div 4096 mod 64 = b"
    "(((a * 64 + b) * 64 + c) * 64 + d) div 64 mod 64 = c"
    unfolding q using assms by (simp_all only: split6)
qed

definition decoded :: "block \<Rightarrow> nat \<Rightarrow> nat \<Rightarrow> nat \<Rightarrow> bool" where
  "decoded m p k n \<longleftrightarrow> (k = 1 \<and> n = 0xFFFD) \<or> (valid_rune n \<and> k = length (utf8 n) \<and> holds_at m p (utf8 n))"

lemma cont_part: "cont x \<Longrightarrow> \<exists>b < 64. unat x = 128 + b \<and> x = of_nat (128 + b)"
  using byte_back [of x] by (intro exI [of _ "unat x - 128"]) (auto simp: cont_def)

lemma dec4_sound:
  assumes "dec4 m p (0xF0 + a) (((0xF0 + a) * 64 + b) * 64 + c) = Some (k, n)" and "b < 64" "c < 64"
    and "p < length m" "m ! p = of_nat (0xF0 + a)" "m ! (p + 1) = of_nat (128 + b)" "m ! (p + 2) = of_nat (128 + c)"
  shows "decoded m p k n"
proof (cases "k = 1 \<and> n = 0xFFFD")
  case False
  let ?v = "\<lambda>d. (((0xF0 + a) * 64 + b) * 64 + c) * 64 + d"
  have p: "p + 3 < length m" using assms(1) by (auto simp: dec4_def bind_Some_iff)
  with assms(1) False have "cont (m ! (p + 3))" by (auto simp: dec4_def Let_def split: if_splits)
  then obtain d where d: "d < 64" "unat (m ! (p + 3)) = 128 + d" "m ! (p + 3) = of_nat (128 + d)" using cont_part by blast
  with assms(1) False p \<open>cont (m ! (p + 3))\<close> have n: "k = 4" "a < 8" "n = ?v d mod 2097152" "0xFFFF < n" "n \<le> 0x10FFFF"
    by (auto simp: dec4_def Let_def split: if_splits)
  have "a \<le> 7" "b \<le> 63" "c \<le> 63" "d \<le> 63" using n(2) assms(2,3) d(1) by simp_all
  then have "((a * 64 + b) * 64 + c) * 64 + d < 2097152" by (simp add: distrib_right)
  then have lt: "n \<le> 0x10FFFF" using n(5) by simp
  have "((a * 64 + b) * 64 + c) * 64 + d < 2097152" by fact
  moreover have "?v d = ((a * 64 + b) * 64 + c) * 64 + d + 30 * 2097152" by simp
  ultimately have v: "n = ((a * 64 + b) * 64 + c) * 64 + d" using n(3) by (simp only: mod_add_mult)
  have "n div 262144 = a" "n div 4096 mod 64 = b" "n div 64 mod 64 = c" "n mod 64 = d"
    unfolding v using parts6(3-5) [OF assms(2,3) d(1)] split6(2) [OF d(1)] by blast+
  then show ?thesis
    using n(1,4) lt p assms(4-7) d(3) by (simp add: decoded_def utf8_def valid_rune_def numeral_3_eq_3)
qed (simp add: decoded_def)

lemma dec3_sound:
  assumes "dec3 m p a (a * 64 + b) = Some (k, n)" and "0xE0 \<le> a" "b < 64"
    and "p < length m" "m ! p = of_nat a" "m ! (p + 1) = of_nat (128 + b)"
  shows "decoded m p k n"
proof (cases "k = 1 \<and> n = 0xFFFD")
  case False
  have p: "p + 2 < length m" using assms(1) by (auto simp: dec3_def bind_Some_iff)
  with assms(1) False have "cont (m ! (p + 2))" by (auto simp: dec3_def Let_def split: if_splits)
  then obtain c where c: "c < 64" "unat (m ! (p + 2)) = 128 + c" "m ! (p + 2) = of_nat (128 + c)" using cont_part by blast
  show ?thesis
  proof (cases "a < 0xF0")
    case True
    then obtain e where e: "a = 0xE0 + e" "e < 16" using assms(2) le_Suc_ex by auto
    have n: "k = 3" "n = ((a * 64 + b) * 64 + c) mod 65536" "0x7FF < n" "\<not> (0xD800 \<le> n \<and> n \<le> 0xDFFF)"
      using assms(1) False p \<open>cont (m ! (p + 2))\<close> c True by (auto simp: dec3_def Let_def split: if_splits)
    have "e \<le> 15" "b \<le> 63" "c \<le> 63" using e(2) assms(3) c(1) by simp_all
    then have "(e * 64 + b) * 64 + c < 65536" by (simp add: distrib_right)
    note lt = this
    have "(a * 64 + b) * 64 + c = (e * 64 + b) * 64 + c + 14 * 65536" by (simp add: e)
    then have v: "n = (e * 64 + b) * 64 + c" using n(2) lt by (simp only: mod_add_mult)
    have "n < 65536" using v lt by simp
    moreover have "n div 4096 = e" "n div 64 mod 64 = b" "n mod 64 = c"
      unfolding v using parts6(1,2) [OF assms(3) c(1) c(1)] split6(2) [OF c(1)] by blast+
    ultimately show ?thesis
      using n(1,3,4) p assms(4-6) e c(3) by (simp add: decoded_def utf8_def valid_rune_def)
  next
    case F0: False
    then obtain e where e: "a = 0xF0 + e" using le_Suc_ex by (auto simp: not_less)
    have "dec4 m p a ((a * 64 + b) * 64 + c) = Some (k, n)"
      using assms(1) p c \<open>cont (m ! (p + 2))\<close> F0 by (auto simp: dec3_def Let_def)
    then show ?thesis using dec4_sound [of m p e b c k n] assms c(1,3) by (simp only: e)
  qed
qed (simp add: decoded_def)

lemma dec_sound:
  assumes "dec m p = Some (k, n)"
  shows "decoded m p k n"
proof (cases "k = 1 \<and> n = 0xFFFD")
  case False
  have p0: "p < length m" using assms by (auto simp: dec_def bind_Some_iff)
  define a where "a = unat (m ! p)"
  have a: "m ! p = of_nat a" "a < 256" using byte_back by (auto simp: a_def)
  show ?thesis
  proof (cases "a < 128")
    case True
    then have "k = 1" "n = a" using assms p0 by (simp_all add: dec_def a_def)
    then show ?thesis
      using True p0 a(1) by (simp add: decoded_def utf8_def valid_rune_def)
  next
    case ge: False
    then have d: "dec2 m p a = Some (k, n)" using assms p0 by (simp add: dec_def a_def)
    then have p: "p + 1 < length m" by (auto simp: dec2_def bind_Some_iff)
    with d False have "cont (m ! (p + 1))" by (auto simp: dec2_def Let_def split: if_splits)
    then obtain b where b: "b < 64" "unat (m ! (p + 1)) = 128 + b" "m ! (p + 1) = of_nat (128 + b)" using cont_part by blast
    show ?thesis
    proof (cases "a < 0xE0")
      case True
      with d False p b \<open>cont (m ! (p + 1))\<close> have n: "k = 2" "n = (a * 64 + b) mod 2048" "0xC0 \<le> a" "0x7F < n"
        by (auto simp: dec2_def Let_def split: if_splits)
      then obtain e where e: "a = 0xC0 + e" "e < 32" using True le_Suc_ex by auto
      have "e \<le> 31" "b \<le> 63" using e(2) b(1) by simp_all
      then have lt: "e * 64 + b < 2048" by linarith
      have "a * 64 + b = e * 64 + b + 6 * 2048" by (simp add: e)
      then have v: "n = e * 64 + b" using n(2) lt by (simp only: mod_add_mult)
      have "n < 2048" "n div 64 = e" "n mod 64 = b" unfolding v using split6 [OF b(1)] lt by blast+
      then show ?thesis
        using n(1,4) p a e b(3) by (simp add: decoded_def utf8_def valid_rune_def)
    next
      case E0: False
      have "dec3 m p a (a * 64 + b) = Some (k, n)"
        using d p b \<open>cont (m ! (p + 1))\<close> E0 by (auto simp: dec2_def Let_def)
      then show ?thesis using dec3_sound a(1) b E0 p0 by (simp add: not_less)
    qed
  qed
qed (simp add: decoded_def)


section \<open>Strings of runes\<close>

lemma cstring_at_range: "cstring_at m p = Some s \<Longrightarrow> p + length s < length m"
  by (induction s arbitrary: p) fastforce+

text \<open>On a string, \<open>chartorune\<close> never reads past the terminator.\<close>

lemma dec_total:
  assumes "cstring_at m p = Some s"
  shows "\<exists>k n. dec m p = Some (k, n)"
proof -
  have next_in: "Suc q < length m" if "cstring_at m q = Some t" "128 \<le> unat (m ! q)" for q t
    using that cstring_at_range [of m q t] by (cases t) auto
  have next_str: "\<exists>u. cstring_at m (Suc q) = Some u" if "cstring_at m q = Some t" "128 \<le> unat (m ! q)" for q t
    using that by (cases t) auto
  have p: "p < length m" using cstring_at_range [OF assms] by simp
  show ?thesis
  proof (cases "unat (m ! p) < 128")
    case True
    then show ?thesis using p by (simp add: dec_def)
  next
    case a: False
    then obtain t where t: "Suc p < length m" "cstring_at m (Suc p) = Some t" using next_in [OF assms] next_str [OF assms] by (auto simp: not_less)
    show ?thesis
    proof (cases "cont (m ! Suc p)")
      case True
      then obtain u where u: "Suc (Suc p) < length m" "cstring_at m (Suc (Suc p)) = Some u"
        using next_in [OF t(2)] next_str [OF t(2)] by (auto simp: cont_def)
      show ?thesis
      proof (cases "cont (m ! Suc (Suc p))")
        case c: True
        then have "Suc (Suc (Suc p)) < length m" using next_in [OF u(2)] by (auto simp: cont_def)
        then have "p + 3 < length m" by simp
        then show ?thesis using p a t u True c by (simp add: dec_def dec2_def dec3_def dec4_def Let_def)
      qed (use p a t u True in \<open>simp add: dec_def dec2_def dec3_def Let_def\<close>)
    qed (use p a t in \<open>simp add: dec_def dec2_def Let_def\<close>)
  qed
qed

lemma byte_nz: "0 < x \<Longrightarrow> x < 256 \<Longrightarrow> (of_nat x :: byte) \<noteq> 0"
  by (simp add: word_of_nat_eq_0_iff nat_dvd_not_less)

lemma utf8_no_nul:
  assumes "0 < n" and "valid_rune n"
  shows "0 \<notin> set (utf8 n)"
proof -
  have "n \<le> 0x10FFFF" using assms(2) by (simp add: valid_rune_def)
  have "0xC0 + n div 64 < 256" if "n < 0x800" using that by simp
  moreover have "0xE0 + n div 4096 < 256" if "n < 0x10000" using that by simp
  moreover have "0xF0 + n div 262144 < 256" using \<open>n \<le> 0x10FFFF\<close> by simp
  moreover have m: "0x80 + x mod 64 < 256" for x :: nat by (simp add: less_trans [OF mod_less_divisor])
  ultimately have "\<forall>x \<in> set (utf8 n). x \<noteq> 0"
    using byte_nz [of n] byte_nz [of "0xC0 + n div 64"] byte_nz [of "0xE0 + n div 4096"] byte_nz [of "0xF0 + n div 262144"]
      byte_nz [OF _ m] assms(1) unfolding utf8_def by (simp del: of_nat_add add: of_nat_add [symmetric])
  then show ?thesis by auto
qed

lemma cstring_holds: "cstring_at m p = Some (a @ b) \<Longrightarrow> holds_at m p a"
proof (induction a arbitrary: p)
  case Nil
  then show ?case using cstring_at_range [of m p b] by simp
qed simp

lemma rune_step:
  assumes "valid_rune n" and "0 < n" and "cstring_at m p = Some (utf8 n @ t)"
  shows "chartorune m p = Some (length (utf8 n), of_nat n)" and "cstring_at m (p + length (utf8 n)) = Some t"
    and "p < length m" and "m ! p \<noteq> 0" and "unat (m ! p) < 0x80 \<longleftrightarrow> n < 0x80"
    and "n < 0x80 \<Longrightarrow> length (utf8 n) = 1 \<and> unat (m ! p) = n"
proof -
  have h: "holds_at m p (utf8 n)" by (rule cstring_holds [OF assms(3)])
  have d: "dec m p = Some (length (utf8 n), n)" by (rule dec_utf8 [OF assms(1) h])
  then obtain r where r: "chartorune m p = Some (length (utf8 n), r)" "unat r = n"
    using chartorune_dec [of m p] by (cases "chartorune m p") auto
  then have "r = of_nat n" by (metis of_nat_unat ucast_id)
  with r show "chartorune m p = Some (length (utf8 n), of_nat n)" by simp
  show "cstring_at m (p + length (utf8 n)) = Some t" by (rule cstring_at_suffix [OF assms(3)])
  show p: "p < length m" using cstring_at_range [OF assms(3)] by simp
  have low: "n < 0x80 \<Longrightarrow> length (utf8 n) = 1 \<and> unat (m ! p) = n"
    using h p by (simp add: utf8_def unat_of_nat)
  then show "n < 0x80 \<Longrightarrow> length (utf8 n) = 1 \<and> unat (m ! p) = n" .
  have "unat (m ! p) < 0x80 \<Longrightarrow> n = unat (m ! p)" using d p by (simp add: dec_def)
  with low show "unat (m ! p) < 0x80 \<longleftrightarrow> n < 0x80" by auto
  show "m ! p \<noteq> 0"
  proof
    assume "m ! p = 0"
    then have "n = 0" using d p by (simp add: dec_def)
    with assms(2) show False by simp
  qed
qed

definition rune_str :: "nat list \<Rightarrow> cstr" where
  "rune_str ns = concat (map utf8 ns)"

definition runes_ok :: "nat list \<Rightarrow> bool" where
  "runes_ok ns \<longleftrightarrow> (\<forall>n \<in> set ns. valid_rune n \<and> 0 < n)"

lemma utflen_loop_correct:
  "runes_ok ns \<Longrightarrow> cstring_at m p = Some (rune_str ns) \<Longrightarrow> utflen_loop m p k = Some (k + length ns)"
proof (induction ns arbitrary: p k)
  case Nil
  then show ?case by (subst utflen_loop.simps) (simp add: rune_str_def)
next
  case (Cons n ns)
  have n: "valid_rune n" "0 < n" "cstring_at m p = Some (utf8 n @ rune_str ns)" "runes_ok ns"
    using Cons.prems by (simp_all add: runes_ok_def rune_str_def)
  note s = rune_step [OF n(1-3)]
  have "utflen_loop m (p + length (utf8 n)) (Suc k) = Some (Suc k + length ns)"
    by (rule Cons.IH [OF n(4) s(2)])
  then show ?case
    using s by (subst utflen_loop.simps) (auto simp: word_less_nat_alt)
qed

lemma utflen_correct:
  "runes_ok ns \<Longrightarrow> cstring_at m p = Some (rune_str ns) \<Longrightarrow> utflen m p = Some (length ns)"
  by (simp add: utflen_def utflen_loop_correct)

lemma utfrune_loop_correct:
  "runes_ok ns \<Longrightarrow> cstring_at m p = Some (rune_str ns) \<Longrightarrow> utfrune_loop m p c
    = Some (if unat c \<in> set ns then Some (p + length (rune_str (takeWhile (\<lambda>n. n \<noteq> unat c) ns))) else None)"
proof (induction ns arbitrary: p)
  case Nil
  then show ?case by (subst utfrune_loop.simps) (simp add: rune_str_def)
next
  case (Cons n ns)
  have n: "valid_rune n" "0 < n" "cstring_at m p = Some (utf8 n @ rune_str ns)" "runes_ok ns"
    using Cons.prems by (simp_all add: runes_ok_def rune_str_def)
  note s = rune_step [OF n(1-3)]
  note IH = Cons.IH [OF n(4) s(2)]
  have u: "unat (of_nat n :: u32) = n" using n(1) by (simp add: unat_of_nat valid_rune_def)
  have e: "of_nat n = c \<longleftrightarrow> n = unat c" using u by auto
  have e': "ucast (m ! p) = c \<longleftrightarrow> n = unat c" if "n < 0x80"
    using s(6) [OF that] by (auto simp: word_unat_eq_iff)
  show ?case
  proof (cases "n < 0x80")
    case True
    then show ?thesis
      using s(3-5) s(6) [OF True] e' IH by (subst utfrune_loop.simps) (simp add: word_less_nat_alt rune_str_def)
  next
    case False
    then show ?thesis
      using s(1,3-5) e IH by (subst utfrune_loop.simps) (simp add: word_less_nat_alt rune_str_def)
  qed
qed

text \<open>\<open>fullrune\<close> tells when enough bytes are there to decode the next rune.\<close>

lemma fullrune_enough:
  assumes "fullrune m p n = Some True" and "p + nat n \<le> length m" and "p + nat n \<le> length m'"
    and "take (nat n) (drop p m') = take (nat n) (drop p m)"
  shows "dec m' p = dec m p"
proof -
  have ld: "ld m' (p + i) = ld m (p + i)" if "int i < n" for i
  proof -
    have "take (nat n) (drop p m') ! i = take (nat n) (drop p m) ! i" using assms(4) by simp
    then show ?thesis using that assms(2,3) by (simp add: nth_append)
  qed
  have n: "0 < n" using assms(1) by (auto simp: fullrune_def split: if_splits)
  have p: "p < length m" using assms(2) n by simp
  note l = ld [of 0] ld [of 1] ld [of 2] ld [of 3]
  show ?thesis
  proof (cases "unat (m ! p) < 0x80")
    case True
    then show ?thesis using l(1) n p by (simp add: dec_def)
  next
    case a: False
    then have f: "if unat (m ! p) < 0xE0 then n \<ge> 2 else if unat (m ! p) < 0xF0 then n \<ge> 3 else n \<ge> 4"
      using assms(1) p by (auto simp: fullrune_def utfT_vals word_less_nat_alt Let_def split: if_splits)
    then have "dec2 m' p (unat (m ! p)) = dec2 m p (unat (m ! p))"
      using l by (auto simp: dec2_def dec3_def dec4_def Let_def split: if_splits intro!: Option.bind_cong)
    then show ?thesis using l(1) n p by (simp add: dec_def)
  qed
qed

text \<open>The same about \<open>chartorune\<close> itself.\<close>

lemma chartorune_of_dec: "dec m p = Some (k, n) \<Longrightarrow> chartorune m p = Some (k, of_nat n) \<and> unat (of_nat n :: u32) = n"
  using chartorune_dec [of m p] by (cases "chartorune m p") auto

lemma fullrune_decides:
  assumes "fullrune m p n = Some True" and "p + nat n \<le> length m" and "p + nat n \<le> length m'"
    and "take (nat n) (drop p m') = take (nat n) (drop p m)"
  shows "chartorune m' p = chartorune m p"
proof -
  have "nums (chartorune m' p) = nums (chartorune m p)"
    using fullrune_enough [OF assms] chartorune_dec by simp
  then show ?thesis by (cases "chartorune m' p"; cases "chartorune m p") (auto simp: word_unat_eq_iff)
qed

lemma rune_there_and_back:
  assumes "valid_rune n" and "p + length (utf8 n) \<le> length m"
  shows "\<exists>k m'. runetochar m p (of_nat n) = Some (k, m') \<and> chartorune m' p = Some (k, of_nat n)
    \<and> runelen (of_nat n) = Some k \<and> length m' = length m \<and> (\<forall>i < length m. i < p \<or> p + k \<le> i \<longrightarrow> m' ! i = m ! i)"
proof -
  have n: "unat (of_nat n :: u32) = n" using assms(1) by (simp add: valid_rune_def unat_of_nat)
  let ?m = "store m p (utf8 n)"
  have w: "runetochar m p (of_nat n) = Some (length (utf8 n), ?m)"
    using runetochar_correct [of p "of_nat n" m] assms n by simp
  have "runelen (of_nat n) = Some (length (utf8 n))"
    using runetochar_correct [of 0 "of_nat n" "replicate 10 0"] assms(1) n utf8_length [of n] by (simp add: runelen_def)
  moreover have "holds_at ?m p (utf8 n)" using assms(2) by (simp add: holds_at_def store_def)
  then have "chartorune ?m p = Some (length (utf8 n), of_nat n)"
    using chartorune_of_dec dec_utf8 assms(1) by blast
  moreover have "?m ! i = m ! i" if "i < p \<or> p + length (utf8 n) \<le> i" "i < length m" for i
    using that assms(2) by (auto simp: store_nth)
  ultimately show ?thesis using w assms(2) by auto
qed

lemma holds_in_string:
  assumes "cstring_at m p = Some s" and "holds_at m p bs" and "0 \<notin> set bs"
  shows "\<exists>t. s = bs @ t"
  using assms by (induction bs arbitrary: p s) (simp, case_tac s, auto)

lemma chartorune_on_string:
  assumes "cstring_at m p = Some s"
  shows "\<exists>k r. chartorune m p = Some (k, r) \<and> 1 \<le> k \<and> k \<le> max 1 (length s)
    \<and> (k = 1 \<and> r = 0xFFFD \<or> valid_rune (unat r) \<and> k = length (utf8 (unat r)) \<and> holds_at m p (utf8 (unat r)))"
proof -
  obtain k n where d: "dec m p = Some (k, n)" using dec_total [OF assms] by blast
  note c = chartorune_of_dec [OF d]
  have k: "decoded m p k n" by (rule dec_sound [OF d])
  have "1 \<le> k \<and> k \<le> max 1 (length s)"
  proof (cases "0 < n \<and> \<not> (k = 1 \<and> n = 0xFFFD)")
    case True
    then obtain t where "s = utf8 n @ t" using k holds_in_string [OF assms, of "utf8 n"] utf8_no_nul by (auto simp: decoded_def)
    then show ?thesis using True k by (auto simp: decoded_def utf8_length)
  next
    case False
    then show ?thesis using k by (auto simp: decoded_def utf8_length)
  qed
  then show ?thesis using c k by (auto simp: decoded_def)
qed

lemma utflen_loop_total:
  "cstring_at m p = Some s \<Longrightarrow> \<exists>k. utflen_loop m p n = Some k \<and> k \<le> n + length s"
proof (induction s arbitrary: p n rule: length_induct)
  case (1 s)
  show ?case
  proof (cases s)
    case Nil
    then show ?thesis using 1(2) by (subst utflen_loop.simps) simp
  next
    case (Cons c t)
    obtain k r where k: "chartorune m p = Some (k, r)" "1 \<le> k" "k \<le> length s"
      using chartorune_on_string [OF 1(2)] Cons by auto
    have "cstring_at m (p + k) = Some (drop k s)"
      using cstring_at_suffix [of m p "take k s" "drop k s"] 1(2) k(3) by simp
    then obtain j where j: "utflen_loop m (p + k) (Suc n) = Some j" "j \<le> Suc n + length (drop k s)"
      using 1(1) [rule_format, of "drop k s" "p + k" "Suc n"] k(2,3) Cons by auto
    then have j': "j \<le> n + length s" using k(2,3) by simp
    have "cstring_at m (Suc p) = Some t" "p < length m" "m ! p = c" "c \<noteq> 0" using 1(2) Cons by simp_all
    moreover from this(1) obtain j' where "utflen_loop m (Suc p) (Suc n) = Some j'" "j' \<le> Suc n + length t"
      using 1(1) [rule_format, of t "Suc p" "Suc n"] Cons by auto
    ultimately show ?thesis using Cons k j(1) j' by (subst utflen_loop.simps) simp
  qed
qed

lemma utflen_on_string:
  assumes "cstring_at m p = Some s"
  shows "\<exists>k. utflen m p = Some k \<and> k \<le> length s \<and> (\<forall>ns. runes_ok ns \<and> s = rune_str ns \<longrightarrow> k = length ns)"
  using utflen_loop_total [OF assms, of 0] utflen_correct assms by (fastforce simp: utflen_def)

end
