(* ===== verification/Tokenize.thy ===== *)
theory Tokenize
  imports Utf
begin

text \<open>
  Quoting and splitting of strings: \<^verbatim>\<open>libc/port/quote.c\<close>, \<^verbatim>\<open>tokenize.c\<close>, \<^verbatim>\<open>getfields.c\<close> and the part of
  \<^verbatim>\<open>fmt/fmtquote.c\<close> that decides about quotes.  A set of separators is a string in a block of its
  own; what \<open>malloc\<close> returns is a new block, and allocation is assumed to succeed.
\<close>

section \<open>Taking quotes away\<close>

abbreviation (input) quote :: byte where "quote \<equiv> 0x27"

text \<open>The loop that \<open>qtoken\<close> and \<open>unquotestrdup\<close> share: \<open>s\<close> is the output pointer, \<open>t\<close> the input
  pointer, and \<open>sep\<close> the test that ends a token outside quotes.\<close>

function unquote_loop :: "(byte \<Rightarrow> bool option) \<Rightarrow> block \<Rightarrow> nat \<Rightarrow> nat \<Rightarrow> bool \<Rightarrow> (nat \<times> nat \<times> block) option" where
  "unquote_loop sep m s t quoting = do {
     c \<leftarrow> ld m t;
     stop \<leftarrow> (if c = 0 then Some True else if quoting then Some False else sep c);
     if stop then Some (s, t, m)
     else if c \<noteq> quote then do {
       m \<leftarrow> st m s c;
       unquote_loop sep m (s + 1) (t + 1) quoting
     }
     else if \<not> quoting then unquote_loop sep m s (t + 1) True
     else do {
       d \<leftarrow> ld m (t + 1);
       if d \<noteq> quote then unquote_loop sep m s (t + 1) False
       else do {
         m \<leftarrow> st m s d;
         unquote_loop sep m (s + 1) (t + 2) quoting
       }
     }
   }"
  by pat_completeness auto
termination by (relation "measure (\<lambda>(sep, m, s, t, q). length m - t)") auto

declare unquote_loop.simps [simp del]

text \<open>\<open>utfrune(sep, *t) != nil\<close>; the \<open>char\<close> is extended with its sign.\<close>

definition in_sep :: "block \<Rightarrow> byte \<Rightarrow> bool option" where
  "in_sep sep c = map_option (\<lambda>r. r \<noteq> None) (utfrune sep 0 (scast c))"

definition qtoken :: "block \<Rightarrow> block \<Rightarrow> nat \<Rightarrow> (nat \<times> block) option" where
  "qtoken sep m s = do {
     (s, t, m) \<leftarrow> unquote_loop (in_sep sep) m s s False;
     c \<leftarrow> ld m s;
     if c \<noteq> 0 then do {
       m \<leftarrow> st m s 0;
       Some (if t = s then t + 1 else t, m)
     } else Some (t, m)
   }"

function etoken :: "block \<Rightarrow> block \<Rightarrow> nat \<Rightarrow> bool \<Rightarrow> nat option" where
  "etoken sep m t quoting = do {
     c \<leftarrow> ld m t;
     stop \<leftarrow> (if c = 0 then Some True else if quoting then Some False else in_sep sep c);
     if stop then Some t
     else if c \<noteq> quote then etoken sep m (t + 1) quoting
     else if \<not> quoting then etoken sep m (t + 1) True
     else do {
       d \<leftarrow> ld m (t + 1);
       if d \<noteq> quote then etoken sep m (t + 1) False else etoken sep m (t + 2) quoting
     }
   }"
  by pat_completeness auto
termination by (relation "measure (\<lambda>(sep, m, t, q). length m - t)") auto

declare etoken.simps [simp del]

section \<open>Splitting\<close>

function skip_sep :: "block \<Rightarrow> block \<Rightarrow> nat \<Rightarrow> nat option" where
  "skip_sep sep m s = do {
     c \<leftarrow> ld m s;
     more \<leftarrow> (if c = 0 then Some False else in_sep sep c);
     if more then skip_sep sep m (s + 1) else Some s
   }"
  by pat_completeness auto
termination by (relation "measure (\<lambda>(sep, m, s). length m - s)") auto

text \<open>\<open>gettokens\<close> also overwrites the separators it skips.\<close>

function clear_sep :: "block \<Rightarrow> block \<Rightarrow> nat \<Rightarrow> (nat \<times> block) option" where
  "clear_sep sep m s = do {
     c \<leftarrow> ld m s;
     more \<leftarrow> (if c = 0 then Some False else in_sep sep c);
     if more then do {
       m \<leftarrow> st m s 0;
       clear_sep sep m (s + 1)
     } else Some (s, m)
   }"
  by pat_completeness auto
termination by (relation "measure (\<lambda>(sep, m, s). length m - s)") auto

declare skip_sep.simps [simp del] clear_sep.simps [simp del]

definition qsep :: block where
  "qsep = [0x20, 0x09, 0x0D, 0x0A, 0]"

text \<open>The vector \<open>args\<close> is the list of pointers stored so far, its length \<open>nargs\<close>.\<close>

fun gettokens :: "block \<Rightarrow> block \<Rightarrow> nat \<Rightarrow> nat \<Rightarrow> (nat list \<times> block) option" where
  "gettokens sep m s 0 = Some ([], m)"
| "gettokens sep m s (Suc mx) = do {
     (s, m) \<leftarrow> clear_sep sep m s;
     c \<leftarrow> ld m s;
     if c = 0 then Some ([], m)
     else do {
       e \<leftarrow> etoken sep m s False;
       (args, m) \<leftarrow> gettokens sep m e mx;
       Some (s # args, m)
     }
   }"

fun tokenize :: "block \<Rightarrow> nat \<Rightarrow> nat \<Rightarrow> (nat list \<times> block) option" where
  "tokenize m s 0 = Some ([], m)"
| "tokenize m s (Suc mx) = do {
     s \<leftarrow> skip_sep qsep m s;
     c \<leftarrow> ld m s;
     if c = 0 then Some ([], m)
     else do {
       (e, m) \<leftarrow> qtoken qsep m s;
       (args, m) \<leftarrow> tokenize m e mx;
       Some (s # args, m)
     }
   }"

lemma chartorune_less: "chartorune m p = Some (k, r) \<Longrightarrow> length m - (p + k) < length m - p"
  using chartorune_pos [of m p k r] by (auto simp: chartorune_def bind_Some_iff)

text \<open>The loop of \<open>getfields\<close>.  \<open>args\<close> holds the pointers stored so far, \<open>narg\<close> of them counted.\<close>

function getfields_loop :: "block \<Rightarrow> block \<Rightarrow> nat \<Rightarrow> nat list \<Rightarrow> nat \<Rightarrow> nat \<Rightarrow> bool \<Rightarrow> bool \<Rightarrow> (nat \<times> nat list \<times> block) option" where
  "getfields_loop sep m str args narg mx mflag intok = do {
     (nr, r) \<leftarrow> chartorune m str;
     if r = 0 then Some (narg, args, m)
     else do {
       hit \<leftarrow> utfrune sep 0 r;
       if hit \<noteq> None then
         (if narg \<ge> mx then Some (narg, args, m)
          else do {
            m' \<leftarrow> st m str 0;
            getfields_loop sep m' (str + nr) (take narg args @ [str + nr]) (if mflag then narg else narg + 1) mx mflag False
          })
       else getfields_loop sep m (str + nr) args (if \<not> intok \<and> mflag then narg + 1 else narg) mx mflag True
     }
   }"
  by pat_completeness auto
termination
  by (relation "measure (\<lambda>(sep, m, str, args, narg, mx, mflag, intok). length m - str)")
    (auto dest: chartorune_less)

definition getfields :: "block \<Rightarrow> block \<Rightarrow> nat \<Rightarrow> int \<Rightarrow> bool \<Rightarrow> (nat \<times> nat list \<times> block) option" where
  "getfields sep m str mx mflag = (if mx \<le> 0 then Some (0, [], m)
     else getfields_loop sep m str [str] (if mflag then 0 else 1) (nat mx) mflag False)"

declare getfields_loop.simps [simp del]

section \<open>Tokens\<close>

text \<open>Unquoting as a function of strings: the token and what is left after it.\<close>

fun unq :: "(byte \<Rightarrow> bool) \<Rightarrow> bool \<Rightarrow> cstr \<Rightarrow> cstr \<times> cstr" where
  "unq P q [] = ([], [])"
| "unq P q (c # s) = (if \<not> q \<and> P c then ([], c # s)
     else if c \<noteq> quote then (c # fst (unq P q s), snd (unq P q s))
     else if \<not> q then unq P True s
     else (case s of
         d # s' \<Rightarrow> if d = quote then (quote # fst (unq P True s'), snd (unq P True s')) else unq P False s
       | [] \<Rightarrow> unq P False s))"

declare unq.simps(2) [simp del]

text \<open>The cases of \<open>unq\<close> on a string that is not empty.\<close>

lemma unq_cases [simp]:
  "P c \<Longrightarrow> unq P False (c # s) = ([], c # s)"
  "\<not> P c \<Longrightarrow> c \<noteq> quote \<Longrightarrow> unq P False (c # s) = (c # fst (unq P False s), snd (unq P False s))"
  "c \<noteq> quote \<Longrightarrow> unq P True (c # s) = (c # fst (unq P True s), snd (unq P True s))"
  "\<not> P quote \<Longrightarrow> unq P False (quote # s) = unq P True s"
  "unq P True (quote # quote # s) = (quote # fst (unq P True s), snd (unq P True s))"
  "s = [] \<or> hd s \<noteq> quote \<Longrightarrow> unq P True (quote # s) = unq P False s"
  by (auto simp: unq.simps(2) split: list.split)

lemma unq_induct [case_names Nil sep plain qplain qstart qend double]:
  assumes "\<And>q. R q []" and "\<And>c s. P c \<Longrightarrow> R False (c # s)"
    and "\<And>c s. \<not> P c \<Longrightarrow> c \<noteq> quote \<Longrightarrow> R False s \<Longrightarrow> R False (c # s)"
    and "\<And>c s. c \<noteq> quote \<Longrightarrow> R True s \<Longrightarrow> R True (c # s)"
    and "\<And>s. \<not> P quote \<Longrightarrow> R True s \<Longrightarrow> R False (quote # s)"
    and "\<And>s. s = [] \<or> hd s \<noteq> quote \<Longrightarrow> R False s \<Longrightarrow> R True (quote # s)"
    and "\<And>s. R True s \<Longrightarrow> R True (quote # quote # s)"
  shows "R q (x :: cstr)"
proof (induction "length x" arbitrary: q x rule: less_induct)
  case less
  show ?case
  proof (cases x)
    case (Cons c s)
    have IH: "R q' s" for q' using less [of s q'] Cons by simp
    show ?thesis
    proof (cases q)
      case q: True
      show ?thesis
      proof (cases "c = quote \<and> s \<noteq> [] \<and> hd s = quote")
        case True
        then obtain s' where "s = quote # s'" by (cases s) auto
        then show ?thesis using less [of s' True] Cons True assms(7) q by simp
      next
        case False
        then show ?thesis using IH assms(4,6) q Cons by (cases "c = quote") auto
      qed
    next
      case False
      then show ?thesis using IH assms(2,3,5) Cons by (cases "P c"; cases "c = quote") auto
    qed
  qed (use assms(1) in simp)
qed

lemma unq_length: "length (fst (unq P q x)) + length (snd (unq P q x)) \<le> length x"
  by (induction q x rule: unq_induct [of _ P]) auto

lemma unq_suffix: "snd (unq P q x) = drop (length x - length (snd (unq P q x))) x"
proof -
  have "\<exists>y. x = y @ snd (unq P q x)"
    by (induction q x rule: unq_induct [of _ P]) (auto intro: exI [of _ "[]"] exI [of _ "c # y" for c y] exI [of _ "c # d # y" for c d y])
  then show ?thesis by (metis append_eq_conv_conj length_append add_diff_cancel_right')
qed

lemma unquote_correct:
  assumes "\<And>c. c \<noteq> 0 \<Longrightarrow> sep c = Some (P c)"
  shows "cstring_at m t = Some x \<Longrightarrow> s \<le> t \<Longrightarrow> unquote_loop sep m s t q
    = Some (s + length (fst (unq P q x)), t + (length x - length (snd (unq P q x))), store m s (fst (unq P q x)))"
proof (induction q x arbitrary: m s t rule: unq_induct [of _ P])
  case (Nil q)
  then show ?case by (subst unquote_loop.simps) simp
next
  case (sep c x)
  then show ?case using assms by (subst unquote_loop.simps) simp
next
  case (plain c x)
  have "cstring_at (m[s := c]) (Suc t) = Some x"
    using plain.prems cstring_at_below [of s "[c]" "Suc t" m] by (simp add: store_one)
  then show ?case
    using plain assms [of c] unq_length [of P False x] by (subst unquote_loop.simps) (simp add: store_Cons Suc_diff_le)
next
  case (qplain c x)
  have "cstring_at (m[s := c]) (Suc t) = Some x"
    using qplain.prems cstring_at_below [of s "[c]" "Suc t" m] by (simp add: store_one)
  then show ?case
    using qplain unq_length [of P True x] by (subst unquote_loop.simps) (simp add: store_Cons Suc_diff_le)
next
  case (qstart x)
  then show ?case
    using assms [of quote] unq_length [of P True x] by (subst unquote_loop.simps) (simp add: Suc_diff_le)
next
  case (qend x)
  have "Suc t < length m" "m ! Suc t \<noteq> quote"
    using qend by (cases x; simp)+
  then show ?case
    using qend unq_length [of P False x] by (subst unquote_loop.simps) (simp add: Suc_diff_le)
next
  case (double x)
  have "cstring_at (m[s := quote]) (Suc (Suc t)) = Some x"
    using double.prems cstring_at_below [of s "[quote]" "Suc (Suc t)" m] by (simp add: store_one)
  then show ?case
    using double unq_length [of P True x] by (subst unquote_loop.simps) (simp add: store_Cons Suc_diff_le)
qed

lemma unq_rest: "snd (unq P q x) = [] \<or> P (hd (snd (unq P q x)))"
  by (induction q x rule: unq_induct [of _ P]) auto

lemma unq_less: "\<not> P c \<Longrightarrow> length (snd (unq P False (c # s))) < length (c # s)"
  using unq_length [of P False s] unq_length [of P True s] by (cases "c = quote") auto

lemma unq_no_nul: "0 \<notin> set x \<Longrightarrow> 0 \<notin> set (fst (unq P q x))"
  by (induction q x rule: unq_induct [of _ P]) auto

function toks :: "(byte \<Rightarrow> bool) \<Rightarrow> cstr \<Rightarrow> cstr list" where
  "toks P x = (case dropWhile P x of [] \<Rightarrow> []
     | c # s \<Rightarrow> fst (unq P False (c # s)) # toks P (snd (unq P False (c # s))))"
  by pat_completeness auto
termination
proof (relation "measure (\<lambda>(P, x). length x)", goal_cases)
  case (2 P x c s)
  have "\<not> P c" using 2 by (metis dropWhile_eq_Cons_conv)
  moreover have "length (c # s) \<le> length x" using 2 by (metis length_dropWhile_le)
  ultimately show ?case using unq_less [of P c s] by simp
qed simp

declare toks.simps [simp del]

lemma toks_skip: "P c \<Longrightarrow> toks P (c # s) = toks P s"
  by (subst toks.simps, subst (2) toks.simps) simp

lemma toks_Nil [simp]: "toks P [] = []"
  by (subst toks.simps) simp

text \<open>The strings of separators used here are searched byte by byte.\<close>

lemma sint_char: "sint (scast (c :: byte) :: u32) < 0x80"
proof -
  have "sint (scast c :: u32) = sint c" by (rule sint_up_scast) (simp add: is_up)
  then show ?thesis using uint_bounded [of c] by (simp add: sint_byte)
qed

lemma ucast_scast_char: "ucast (scast (c :: byte) :: u32) = c"
  by (rule bit_word_eqI) (auto simp: bit_simps)

lemma in_sep_correct: "cstring_at sep 0 = Some z \<Longrightarrow> c \<noteq> 0 \<Longrightarrow> in_sep sep c = Some (c \<in> set z)"
  using sint_char [of c] by (simp add: in_sep_def utfrune_def strchr_correct ucast_scast_char)

lemma skip_sep_correct:
  assumes "\<And>c. c \<noteq> 0 \<Longrightarrow> in_sep sep c = Some (P c)"
  shows "cstring_at m s = Some x \<Longrightarrow> skip_sep sep m s = Some (s + length (takeWhile P x))"
  by (induction x arbitrary: s) (subst skip_sep.simps, simp add: assms)+

definition blank :: "byte \<Rightarrow> bool" where
  "blank c \<longleftrightarrow> c \<in> {0x20, 0x09, 0x0D, 0x0A}"

lemma in_qsep: "c \<noteq> 0 \<Longrightarrow> in_sep qsep c = Some (blank c)"
  using in_sep_correct [of qsep "[0x20, 0x09, 0x0D, 0x0A]" c] by (simp add: qsep_def blank_def)

lemma cstring_at_same:
  "cstring_at m p = Some a \<Longrightarrow> length m' = length m \<Longrightarrow> (\<And>i. p \<le> i \<Longrightarrow> i \<le> p + length a \<Longrightarrow> m' ! i = m ! i)
    \<Longrightarrow> cstring_at m' p = Some a"
  by (induction a arbitrary: p) auto

lemma cstring_at_store:
  assumes "0 \<notin> set a" and "p + length a < length m"
  shows "cstring_at (store m p (a @ [0])) p = Some a"
proof -
  have "store m p (a @ [0]) = take p m @ a @ 0 # drop (p + Suc (length a)) m" by (simp add: store_def)
  moreover have "length (take p m) = p" using assms(2) by simp
  ultimately show ?thesis using cstring_at_append [OF assms(1)] by metis
qed

lemma qtoken_correct:
  assumes sep: "\<And>c. c \<noteq> 0 \<Longrightarrow> in_sep sep c = Some (P c)" and "cstring_at m s = Some y"
  defines "a \<equiv> fst (unq P False y)" and "r \<equiv> snd (unq P False y)"
  shows "if r = [] \<and> length a = length y then qtoken sep m s = Some (s + length y, store m s a) \<and> m ! (s + length y) = 0
    else \<exists>e. qtoken sep m s = Some (e, store m s (a @ [0])) \<and> s + length a < e \<and> e \<le> length m
      \<and> (cstring_at m e = Some r \<or> r \<noteq> [] \<and> cstring_at m e = Some (tl r))"
proof -
  let ?t = "s + (length y - length r)"
  have l: "unquote_loop (in_sep sep) m s s False = Some (s + length a, ?t, store m s a)"
    using unquote_correct [where P = P, OF sep assms(2)] by (simp add: a_def r_def)
  have len: "length a + length r \<le> length y" using unq_length a_def r_def by blast
  have rng: "s + length y < length m" by (rule cstring_at_range [OF assms(2)])
  have y: "y = take (length y - length r) y @ r"
    unfolding r_def by (subst (2) unq_suffix) simp
  have r: "cstring_at m ?t = Some r"
    using cstring_at_suffix [of m s "take (length y - length r) y" r] assms(2) y by simp
  have c: "store m s a ! (s + length a) = m ! (s + length a)" using rng len by (simp add: store_nth)
  have mid: "m ! (s + length a) = 0 \<longleftrightarrow> length a = length y"
  proof -
    have "cstring_at m (s + length a) = Some (drop (length a) y)"
      using cstring_at_suffix [of m s "take (length a) y" "drop (length a) y"] assms(2) len by simp
    then show ?thesis using len by (cases "drop (length a) y") auto
  qed
  show ?thesis
  proof (cases "length a = length y")
    case True
    then have "r = []" using len by simp
    then show ?thesis using True l c mid rng by (simp add: qtoken_def)
  next
    case False
    then have nz: "m ! (s + length a) \<noteq> 0" using mid by simp
    have "(store m s a)[s + length a := 0] = store m s (a @ [0])"
      using rng len by (simp add: store_one store_append)
    then have q: "qtoken sep m s = Some (if ?t = s + length a then ?t + 1 else ?t, store m s (a @ [0]))"
      using l c nz rng len by (simp add: qtoken_def)
    show ?thesis
    proof (cases "?t = s + length a")
      case True
      then have "r \<noteq> []" using False len by auto
      then have "cstring_at m (?t + 1) = Some (tl r)" "?t < length m" using r by (cases r; simp)+
      then show ?thesis using q False True \<open>r \<noteq> []\<close> by auto
    next
      case neq: False
      then show ?thesis using q False r rng len by auto
    qed
  qed
qed

lemma tokenize_nil: "cstring_at m s = Some [] \<Longrightarrow> tokenize m s n = Some ([], m)"
  using skip_sep_correct [OF in_qsep, of m s "[]"] by (cases n) simp_all

lemma tokenize_correct:
  "cstring_at m s = Some x \<Longrightarrow> \<exists>args m'. tokenize m s n = Some (args, m') \<and> length m' = length m
    \<and> (\<forall>p < s. m' ! p = m ! p) \<and> map (cstring_at m') args = map Some (take n (toks blank x))"
proof (induction n arbitrary: m s x)
  case 0
  then show ?case by simp
next
  case (Suc n)
  define y where "y = dropWhile blank x"
  define s1 where "s1 = s + length (takeWhile blank x)"
  have sk: "skip_sep qsep m s = Some s1" using skip_sep_correct [OF in_qsep Suc.prems] by (simp add: s1_def)
  have y: "cstring_at m s1 = Some y"
    using cstring_at_suffix [of m s "takeWhile blank x" y] Suc.prems by (simp add: s1_def y_def)
  show ?case
  proof (cases y)
    case Nil
    then have "toks blank x = []" unfolding toks.simps [of blank x] y_def [symmetric] by simp
    then show ?thesis using sk y Nil by simp
  next
    case (Cons c u)
    define a r where "a = fst (unq blank False y)" and "r = snd (unq blank False y)"
    have tk: "toks blank x = a # toks blank r"
      using Cons by (subst toks.simps) (simp add: y_def a_def r_def)
    have len: "length a + length r \<le> length y" using unq_length a_def r_def by blast
    have rng: "s1 + length y < length m" by (rule cstring_at_range [OF y])
    have nul: "0 \<notin> set a" using unq_no_nul cstring_at_no_nul [OF y] by (auto simp: a_def)
    have m1: "m ! s1 \<noteq> 0" "s1 < length m" using y Cons by auto
    show ?thesis
    proof (cases "r = [] \<and> length a = length y")
      case True
      then have q: "qtoken qsep m s1 = Some (s1 + length y, store m s1 a)" "m ! (s1 + length y) = 0"
        using qtoken_correct [where P = blank, OF in_qsep y] by (simp_all add: a_def r_def)
      have z: "cstring_at (store m s1 a) (s1 + length y) = Some []" using True q(2) rng by (simp add: store_nth)
      have "store m s1 a = store m s1 (a @ [0])"
        using True q(2) rng by (intro nth_equalityI) (auto simp: store_nth nth_append less_Suc_eq)
      then have "cstring_at (store m s1 a) s1 = Some a" using cstring_at_store [OF nul, of s1 m] True rng by simp
      then show ?thesis
        using sk q z m1 tk True rng tokenize_nil [OF z, of n] by (auto simp: store_nth s1_def)
    next
      case False
      then obtain e where e: "qtoken qsep m s1 = Some (e, store m s1 (a @ [0]))" "s1 + length a < e" "e \<le> length m"
        "cstring_at m e = Some r \<or> r \<noteq> [] \<and> cstring_at m e = Some (tl r)"
        using qtoken_correct [where P = blank, OF in_qsep y] by (auto simp: a_def [symmetric] r_def [symmetric])
      let ?m = "store m s1 (a @ [0])"
      have lm: "length ?m = length m" using rng len by simp
      have "cstring_at ?m e = cstring_at m e" using e(2,3) by (intro cstring_at_below) simp_all
      moreover have "toks blank r = toks blank (tl r)" if "r \<noteq> []"
        using toks_skip [of blank "hd r" "tl r"] unq_rest [of blank False y] that by (simp add: r_def [symmetric])
      ultimately obtain z where z: "cstring_at ?m e = Some z" "toks blank z = toks blank r" using e(4) by auto
      obtain args m' where IH: "tokenize ?m e n = Some (args, m')" "length m' = length ?m" "\<forall>p < e. m' ! p = ?m ! p"
        "map (cstring_at m') args = map Some (take n (toks blank z))"
        using Suc.IH [OF z(1)] by blast
      have "cstring_at m' s1 = Some a"
        by (rule cstring_at_same [OF cstring_at_store [OF nul, of s1 m]]) (use IH e(2) rng len lm in auto)
      moreover have "\<forall>p < s. m' ! p = m ! p"
        using IH(3) e(2) rng len by (auto simp: s1_def store_nth)
      ultimately show ?thesis
        using sk m1 e(1) IH lm tk z(2) by auto
    qed
  qed
qed

section \<open>Putting quotes around\<close>

record Quoteinfo =
  qi_quoted :: bool
  qi_nrunesin :: int
  qi_nbytesin :: int
  qi_nrunesout :: int
  qi_nbytesout :: int

text \<open>One turn of the loop of \<open>_quotesetup\<close> for the rune \<open>c\<close> of \<open>w\<close> bytes: \<^const>\<open>Inl\<close> when the loop is
  left, \<^const>\<open>Inr\<close> when it goes on.\<close>

definition quote_step :: "(u32 \<Rightarrow> bool) option \<Rightarrow> bool \<Rightarrow> int \<Rightarrow> u32 \<Rightarrow> int \<Rightarrow> Quoteinfo \<Rightarrow> Quoteinfo + Quoteinfo" where
  "quote_step doquote runesout nout c w q =
     (if (if runesout then qi_nrunesout q + 1 > nout else qi_nbytesout q + w > nout) then Inl q
      else let go = (\<lambda>q. Inr (q\<lparr>qi_nbytesin := qi_nbytesin q + w, qi_nrunesin := qi_nrunesin q + 1,
               qi_nbytesout := qi_nbytesout q + w, qi_nrunesout := qi_nrunesout q + 1\<rparr>));
             dq = (\<lambda>q. if c = 0x27 then
                 (if (if runesout then 1 + qi_nrunesout q + 1 > nout else 1 + qi_nbytesout q + w > nout) then Inl q
                  else go (q\<lparr>qi_nbytesout := qi_nbytesout q + 1, qi_nrunesout := qi_nrunesout q + 1\<rparr>))
               else go q)
        in if c \<le> 0x20 \<or> c = 0x27 \<or> (case doquote of None \<Rightarrow> False | Some f \<Rightarrow> f c) then
             (if \<not> qi_quoted q then
                (if (if runesout then 1 + qi_nrunesout q + 1 + 1 > nout else 1 + qi_nbytesout q + w + 1 > nout) then Inl q
                 else dq (q\<lparr>qi_nrunesout := qi_nrunesout q + 2, qi_nbytesout := qi_nbytesout q + 2, qi_quoted := True\<rparr>))
              else dq q)
           else go q)"

function quotesetup_loop :: "(u32 \<Rightarrow> bool) option \<Rightarrow> block \<Rightarrow> nat \<Rightarrow> int \<Rightarrow> int \<Rightarrow> bool \<Rightarrow> Quoteinfo \<Rightarrow> Quoteinfo option" where
  "quotesetup_loop doquote m s nin nout runesout q = (if nin = 0 then Some q else do {
     (w, c) \<leftarrow> chartorune m s;
     if c = 0 then Some q
     else (case quote_step doquote runesout nout c (int w) q of
         Inl q \<Rightarrow> Some q
       | Inr q \<Rightarrow> quotesetup_loop doquote m (s + w) (nin - 1) nout runesout q)
   })"
  by pat_completeness auto
termination
  by (relation "measure (\<lambda>(d, m, s, nin, nout, ro, q). length m - s)") (auto dest: chartorune_less)

declare quotesetup_loop.simps [simp del]

text \<open>\<open>_quotesetup\<close> for a string in UTF-8.\<close>

definition quotesetup :: "(u32 \<Rightarrow> bool) option \<Rightarrow> block \<Rightarrow> nat \<Rightarrow> int \<Rightarrow> int \<Rightarrow> bool \<Rightarrow> bool \<Rightarrow> Quoteinfo option" where
  "quotesetup doquote m s nin nout sharp runesout = do {
     c \<leftarrow> ld m s;
     let q = \<lparr>qi_quoted = False, qi_nrunesin = 0, qi_nbytesin = 0, qi_nrunesout = 0, qi_nbytesout = 0\<rparr>;
     if sharp \<or> nin = 0 \<or> c = 0 then
       (if nout < 2 then Some q
        else quotesetup_loop doquote m s nin nout runesout (q\<lparr>qi_quoted := True, qi_nrunesout := 2, qi_nbytesout := 2\<rparr>))
     else quotesetup_loop doquote m s nin nout runesout q
   }"

definition needsquotes :: "(u32 \<Rightarrow> bool) option \<Rightarrow> block \<Rightarrow> nat \<Rightarrow> (bool \<times> int) option" where
  "needsquotes doquote m s = map_option (\<lambda>q. (qi_quoted q, qi_nbytesout q)) (quotesetup doquote m s (- 1) 0x7FFFFFFF False False)"

definition strdup :: "block \<Rightarrow> nat \<Rightarrow> block option" where
  "strdup m s = do {
     n \<leftarrow> strlen m s;
     m' \<leftarrow> strcpy (m @ replicate (n + 1) 0) (length m) s;
     Some (drop (length m) m')
   }"

text \<open>The loop of \<open>quotestrdup\<close>, from the string at \<open>t\<close> to the new block \<open>ret\<close>, and the whole.\<close>

function quote_copy :: "block \<Rightarrow> nat \<Rightarrow> block \<Rightarrow> nat \<Rightarrow> (nat \<times> block) option" where
  "quote_copy m t ret u = do {
     r \<leftarrow> ld m t;
     if r = 0 then Some (u, ret)
     else if r = quote then do {
       ret \<leftarrow> st ret u r;
       ret \<leftarrow> st ret (u + 1) r;
       quote_copy m (t + 1) ret (u + 2)
     } else do {
       ret \<leftarrow> st ret u r;
       quote_copy m (t + 1) ret (u + 1)
     }
   }"
  by pat_completeness auto
termination by (relation "measure (\<lambda>(m, t, ret, u). length m - t)") auto

declare quote_copy.simps [simp del]

definition quotestrdup :: "(u32 \<Rightarrow> bool) option \<Rightarrow> block \<Rightarrow> nat \<Rightarrow> block option" where
  "quotestrdup doquote m s = do {
     (q, quotelen) \<leftarrow> needsquotes doquote m s;
     if \<not> q then strdup m s
     else do {
       ret \<leftarrow> st (replicate (nat (quotelen + 1)) 0) 0 quote;
       (u, ret) \<leftarrow> quote_copy m s ret 1;
       ret \<leftarrow> st ret u quote;
       st ret (u + 1) 0
     }
   }"

definition unquotestrdup :: "block \<Rightarrow> nat \<Rightarrow> block option" where
  "unquotestrdup m s = do {
     ret \<leftarrow> strdup m s;
     (s, t, ret) \<leftarrow> unquote_loop (\<lambda>c. Some (c = 0x20 \<or> c = 0x09)) ret 0 0 False;
     if t \<noteq> s then do {
       n \<leftarrow> strlen ret t;
       memmove ret s t (of_nat (n + 1))
     } else Some ret
   }"

section \<open>Quoting and unquoting are inverse\<close>

lemma utf8_high: "0x80 \<le> n \<Longrightarrow> valid_rune n \<Longrightarrow> b \<in> set (utf8 n) \<Longrightarrow> 128 \<le> unat b"
proof -
  assume n: "0x80 \<le> n" "valid_rune n" "b \<in> set (utf8 n)"
  have le: "n \<le> 0x10FFFF" using n(2) by (simp add: valid_rune_def)
  have u: "unat (of_nat x :: byte) = x" if "x < 256" for x using that by (simp add: unat_of_nat)
  have m: "0x80 + x mod 64 < 256" for x :: nat by (simp add: less_trans [OF mod_less_divisor])
  have "0xC0 + n div 64 < 256" if "n < 0x800" using that by simp
  moreover have "0xE0 + n div 4096 < 256" if "n < 0x10000" using that by simp
  moreover have "0xF0 + n div 262144 < 256" using le by simp
  ultimately show ?thesis
    using n(1,3) u [of "0xC0 + n div 64"] u [of "0xE0 + n div 4096"] u [of "0xF0 + n div 262144"] u [OF m]
    unfolding utf8_def by (auto simp del: of_nat_add of_nat_numeral simp: of_nat_add [symmetric] split: if_splits)
qed

lemma holds_prefix:
  "holds_at m p bs \<Longrightarrow> cstring_at m p = Some x \<Longrightarrow> 0 \<notin> set bs \<Longrightarrow> length bs \<le> length x \<and> take (length bs) x = bs"
proof (induction bs arbitrary: p x)
  case (Cons b bs)
  then show ?case by (cases x) auto
qed simp

lemma chartorune_str:
  assumes "cstring_at m p = Some (b # s)"
  shows "\<exists>k r. chartorune m p = Some (k, r) \<and> 1 \<le> k \<and> k \<le> length (b # s)
    \<and> cstring_at m (p + k) = Some (drop k (b # s))
    \<and> (if unat b < 128 then k = 1 \<and> r = ucast b else 128 \<le> unat r \<and> (\<forall>x \<in> set (take k (b # s)). 128 \<le> unat x))"
proof -
  obtain k n where d: "dec m p = Some (k, n)" using dec_total [OF assms] by blast
  then obtain r where r: "chartorune m p = Some (k, r)" "unat r = n"
    using chartorune_dec [of m p] by (cases "chartorune m p") auto
  have b: "m ! p = b" "p < length m" "b \<noteq> 0" using assms by simp_all
  show ?thesis
  proof (cases "unat b < 128")
    case True
    then have k: "k = 1" "n = unat b" using d b by (simp_all add: dec_def)
    then have "r = ucast b" using r(2) by (simp add: word_unat_eq_iff)
    then show ?thesis using k r(1) True assms by (intro exI [of _ 1] exI [of _ "ucast b"]) simp
  next
    case False
    have "decoded m p k n" by (rule dec_sound [OF d])
    then consider "k = 1" "n = 0xFFFD" | "valid_rune n" "k = length (utf8 n)" "holds_at m p (utf8 n)"
      by (auto simp: decoded_def)
    then show ?thesis
    proof cases
      case 1
      then show ?thesis using r False assms by auto
    next
      case 2
      have n: "0x80 \<le> n"
      proof (rule ccontr)
        assume "\<not> 0x80 \<le> n"
        then have "b = of_nat n" "n < 128" using 2(3) b by (simp_all add: utf8_def)
        then show False using False by (simp add: unat_of_nat)
      qed
      then have "0 \<notin> set (utf8 n)" using utf8_no_nul 2(1) by simp
      then have h: "length (utf8 n) \<le> length (b # s)" "take (length (utf8 n)) (b # s) = utf8 n"
        using holds_prefix [OF 2(3) assms] by simp_all
      then have "cstring_at m (p + k) = Some (drop k (b # s))"
        using cstring_at_suffix [of m p "utf8 n" "drop k (b # s)"] assms 2(2) by (metis append_take_drop_id)
      moreover have "1 \<le> k" using chartorune_pos [OF r(1)] .
      moreover have "\<forall>x \<in> set (take k (b # s)). 128 \<le> unat x" using utf8_high [OF n 2(1)] h(2) 2(2) by simp
      ultimately show ?thesis using r n h(1) 2(2) False by (intro exI [of _ k] exI [of _ r]) simp
    qed
  qed
qed

definition dbl :: "cstr \<Rightarrow> cstr" where
  "dbl s = concat (map (\<lambda>c. if c = quote then [quote, quote] else [c]) s)"

definition quoted :: "cstr \<Rightarrow> cstr" where
  "quoted s = quote # dbl s @ [quote]"

definition plain :: "cstr \<Rightarrow> bool" where
  "plain s \<longleftrightarrow> (\<forall>c \<in> set s. c \<noteq> quote \<and> 0x20 < unat c)"

lemma dbl_simps [simp]: "dbl [] = []" "dbl (c # s) = (if c = quote then [quote, quote] else [c]) @ dbl s"
  by (simp_all add: dbl_def)

lemma dbl_plain: "(\<forall>c \<in> set s. 128 \<le> unat c) \<Longrightarrow> dbl s = s"
  by (induction s) auto

lemma dbl_append [simp]: "dbl (a @ b) = dbl a @ dbl b"
  by (simp add: dbl_def)

lemma high_plain: "(\<forall>c \<in> set s. 128 \<le> unat c) \<Longrightarrow> plain s"
  by (auto simp: plain_def)

definition needs :: "(u32 \<Rightarrow> bool) option \<Rightarrow> u32 \<Rightarrow> bool" where
  "needs doquote c \<longleftrightarrow> c \<le> 0x20 \<or> c = 0x27 \<or> (case doquote of None \<Rightarrow> False | Some f \<Rightarrow> f c)"

lemma quote_step_goes_on:
  assumes "qi_nbytesout q + (if qi_quoted q then 0 else 2) + w + (if c = 0x27 then 1 else 0) \<le> nout"
  shows "\<exists>q'. quote_step doquote False nout c w q = Inr q' \<and> qi_quoted q' = (qi_quoted q \<or> needs doquote c)
    \<and> qi_nbytesout q' = qi_nbytesout q + w + (if c = 0x27 then 1 else 0)
        + (if needs doquote c \<and> \<not> qi_quoted q then 2 else 0)"
  using assms unfolding quote_step_def needs_def [symmetric] Let_def
  by (cases "qi_quoted q"; cases "needs doquote c"; cases "c = 0x27") (auto simp: needs_def)

lemma quotesetup_loop_correct:
  assumes "cstring_at m p = Some x" and "nin < 0"
    and "qi_nbytesout q + int (length (dbl x)) + (if qi_quoted q then 0 else 2) \<le> nout"
  shows "\<exists>q'. quotesetup_loop doquote m p nin nout False q = Some q'
    \<and> (qi_quoted q \<longrightarrow> qi_quoted q') \<and> (\<not> qi_quoted q' \<longrightarrow> plain x)
    \<and> (plain x \<and> doquote = None \<longrightarrow> qi_quoted q' = qi_quoted q)
    \<and> qi_nbytesout q' = qi_nbytesout q + (if \<not> qi_quoted q' then int (length x) else int (length (dbl x)))
        + (if \<not> qi_quoted q \<and> qi_quoted q' then 2 else 0)"
  using assms
proof (induction "length x" arbitrary: x p nin q rule: less_induct)
  case less
  show ?case
  proof (cases x)
    case Nil
    then have "chartorune m p = Some (1, 0)" using less.prems(1) by (simp add: chartorune_def)
    then show ?thesis using Nil less.prems(2) by (subst quotesetup_loop.simps) (simp add: plain_def)
  next
    case (Cons b s)
    obtain k r where k: "chartorune m p = Some (k, r)" "1 \<le> k" "k \<le> length x" "cstring_at m (p + k) = Some (drop k x)"
      "if unat b < 128 then k = 1 \<and> r = ucast b else 128 \<le> unat r \<and> (\<forall>x \<in> set (take k x). 128 \<le> unat x)"
      using chartorune_str [of m p b s] less.prems(1) Cons by auto
    have b: "b \<noteq> 0" using less.prems(1) Cons by simp
    define y z where "y = take k x" and "z = drop k x"
    have x: "x = y @ z" "length y = k" "length z < length x" using k(2,3) by (auto simp: y_def z_def)
    have rz: "r \<noteq> 0" using k(5) b by (auto split: if_splits simp: word_unat_eq_iff)
    have "length (dbl y) = k + (if r = 0x27 then 1 else 0) \<and> (plain y \<longleftrightarrow> 0x20 < r \<and> r \<noteq> 0x27)"
    proof (cases "unat b < 128")
      case True
      then have "y = [b]" "k = 1" "r = ucast b" using k(5) Cons by (auto simp: y_def)
      then show ?thesis
        by (auto simp: plain_def word_unat_eq_iff word_less_nat_alt)
    next
      case False
      then have "\<forall>c \<in> set y. 128 \<le> unat c" "128 \<le> unat r" using k(5) by (auto simp: y_def)
      then show ?thesis
        using dbl_plain [of y] high_plain [of y] x(2) by (auto simp: word_less_nat_alt word_unat_eq_iff)
    qed
    then have r: "length (dbl y) = k + (if r = 0x27 then 1 else 0)" "plain y \<longleftrightarrow> 0x20 < r \<and> r \<noteq> 0x27" by auto
    have "qi_nbytesout q + (if qi_quoted q then 0 else 2) + int k + (if r = 0x27 then 1 else 0) \<le> nout"
      using less.prems(3) r(1) x(1) by auto
    from quote_step_goes_on [OF this, of doquote] obtain q1 where q1: "quote_step doquote False nout r (int k) q = Inr q1"
      "qi_quoted q1 = (qi_quoted q \<or> needs doquote r)"
      "qi_nbytesout q1 = qi_nbytesout q + int k + (if r = 0x27 then 1 else 0) + (if needs doquote r \<and> \<not> qi_quoted q then 2 else 0)"
      by blast
    have q1n: "qi_nbytesout q1 = qi_nbytesout q + int (length (dbl y)) + (if needs doquote r \<and> \<not> qi_quoted q then 2 else 0)"
      using q1(3) r(1) by simp
    have l: "quotesetup_loop doquote m p nin nout False q = quotesetup_loop doquote m (p + k) (nin - 1) nout False q1"
      using k(1) rz q1(1) less.prems(2) by (subst quotesetup_loop.simps) simp
    have np: "\<not> plain y \<Longrightarrow> needs doquote r" "doquote = None \<Longrightarrow> plain y \<Longrightarrow> \<not> needs doquote r"
      using r(2) by (auto simp: needs_def not_less)
    have lx: "length (dbl x) = length (dbl y) + length (dbl z)" "length x = length y + length z" using x(1) by simp_all
    have bd: "qi_nbytesout q1 + int (length (dbl z)) + (if qi_quoted q1 then 0 else 2) \<le> nout"
      using less.prems(3) unfolding q1n q1(2) lx(1) by (cases "qi_quoted q"; cases "needs doquote r") simp_all
    have z: "cstring_at m (p + k) = Some z" using k(4) by (simp add: z_def)
    have "nin - 1 < 0" using less.prems(2) by simp
    from less.hyps [OF x(3) z this bd] obtain q' where q': "quotesetup_loop doquote m (p + k) (nin - 1) nout False q1 = Some q'"
      "qi_quoted q1 \<longrightarrow> qi_quoted q'" "\<not> qi_quoted q' \<longrightarrow> plain z" "plain z \<and> doquote = None \<longrightarrow> qi_quoted q' = qi_quoted q1"
      "qi_nbytesout q' = qi_nbytesout q1 + (if \<not> qi_quoted q' then int (length z) else int (length (dbl z)))
          + (if \<not> qi_quoted q1 \<and> qi_quoted q' then 2 else 0)"
      by blast
    have px: "plain x \<longleftrightarrow> plain y \<and> plain z" using x(1) by (auto simp: plain_def)
    have ly: "length (dbl y) = length y" if "plain y" using r x(2) that by simp
    have "qi_nbytesout q' = qi_nbytesout q + (if \<not> qi_quoted q' then int (length x) else int (length (dbl x)))
        + (if \<not> qi_quoted q \<and> qi_quoted q' then 2 else 0)"
      using q'(2) np(1) ly unfolding q'(5) q1n lx q1(2)
      by (cases "qi_quoted q"; cases "needs doquote r"; cases "qi_quoted q'"; cases "plain y") simp_all
    moreover have "qi_quoted q \<longrightarrow> qi_quoted q'" "\<not> qi_quoted q' \<longrightarrow> plain x"
      "plain x \<and> doquote = None \<longrightarrow> qi_quoted q' = qi_quoted q"
      using q'(2-4) q1(2) np px by blast+
    ultimately show ?thesis unfolding l q'(1) by blast
  qed
qed

lemma needsquotes_correct:
  assumes "cstring_at m p = Some x" and "2 * length x + 2 < 2 ^ 31"
  shows "\<exists>f. needsquotes doquote m p = Some (f, int (length (if f then quoted x else x))) \<and> (\<not> f \<longrightarrow> x \<noteq> [] \<and> plain x)
    \<and> (x \<noteq> [] \<and> plain x \<and> doquote = None \<longrightarrow> \<not> f)"
proof -
  have d: "length (dbl x) \<le> 2 * length x" by (induction x) auto
  have c: "p < length m" "m ! p = 0 \<longleftrightarrow> x = []" using assms(1) by (cases x; simp)+
  let ?q0 = "\<lparr>qi_quoted = False, qi_nrunesin = 0, qi_nbytesin = 0, qi_nrunesout = 0, qi_nbytesout = 0\<rparr>"
  let ?q1 = "?q0\<lparr>qi_quoted := True, qi_nrunesout := 2, qi_nbytesout := 2\<rparr>"
  show ?thesis
  proof (cases "x = []")
    case True
    then have "chartorune m p = Some (1, 0)" using c by (simp add: chartorune_def)
    then have "quotesetup_loop doquote m p (- 1) 0x7FFFFFFF False ?q1 = Some ?q1"
      by (subst quotesetup_loop.simps) simp
    then show ?thesis
      using True c by (auto simp: needsquotes_def quotesetup_def quoted_def Let_def)
  next
    case False
    have "int (length (dbl x)) + 2 \<le> 0x7FFFFFFF" using d assms(2) by simp
    then have "qi_nbytesout ?q0 + int (length (dbl x)) + (if qi_quoted ?q0 then 0 else 2) \<le> 0x7FFFFFFF" by simp
    from quotesetup_loop_correct [OF assms(1) _ this, of "- 1" doquote]
    obtain q' where l: "quotesetup_loop doquote m p (- 1) 0x7FFFFFFF False ?q0 = Some q'" "\<not> qi_quoted q' \<longrightarrow> plain x"
        "plain x \<and> doquote = None \<longrightarrow> qi_quoted q' = qi_quoted ?q0"
        "qi_nbytesout q' = qi_nbytesout ?q0 + (if \<not> qi_quoted q' then int (length x) else int (length (dbl x)))
          + (if \<not> qi_quoted ?q0 \<and> qi_quoted q' then 2 else 0)"
      by auto
    have "qi_nbytesout q' = int (length (if qi_quoted q' then quoted x else x))" using l(4) by (simp add: quoted_def)
    moreover have "needsquotes doquote m p = Some (qi_quoted q', qi_nbytesout q')"
      using False c l(1) by (simp add: needsquotes_def quotesetup_def Let_def)
    ultimately show ?thesis using False l(2,3) by simp
  qed
qed

lemma quote_copy_correct:
  "cstring_at m t = Some x \<Longrightarrow> u + length (dbl x) \<le> length ret \<Longrightarrow>
    quote_copy m t ret u = Some (u + length (dbl x), store ret u (dbl x))"
proof (induction x arbitrary: t ret u)
  case Nil
  then show ?case by (subst quote_copy.simps) simp
next
  case (Cons c x)
  then show ?case
    by (subst quote_copy.simps) (auto simp: store_Cons)
qed

lemma cstring_at_extend: "cstring_at m p = Some x \<Longrightarrow> cstring_at (m @ e) p = Some x"
  by (induction x arbitrary: p) (auto simp: nth_append)

lemma strdup_correct:
  assumes "cstring_at m p = Some x"
  shows "strdup m p = Some (x @ [0])"
proof -
  have "strcpy (m @ replicate (length x + 1) 0) (length m) p = Some (store (m @ replicate (length x + 1) 0) (length m) (x @ [0]))"
  proof (rule strcpy_correct)
    show "cstring_at (m @ replicate (length x + 1) 0) p = Some x" by (rule cstring_at_extend [OF assms])
  qed (use cstring_at_range [OF assms] in \<open>simp_all add: clear_def\<close>)
  then show ?thesis by (simp add: strdup_def strlen_correct [OF assms] store_def)
qed

lemma quotestrdup_correct:
  assumes "cstring_at m p = Some x" and "2 * length x + 2 < 2 ^ 31"
  shows "\<exists>f. quotestrdup doquote m p = Some ((if f then quoted x else x) @ [0]) \<and> (\<not> f \<longrightarrow> x \<noteq> [] \<and> plain x)
    \<and> (x \<noteq> [] \<and> plain x \<and> doquote = None \<longrightarrow> \<not> f)"
proof -
  obtain f where f: "needsquotes doquote m p = Some (f, int (length (if f then quoted x else x)))"
    "\<not> f \<longrightarrow> x \<noteq> [] \<and> plain x" "x \<noteq> [] \<and> plain x \<and> doquote = None \<longrightarrow> \<not> f"
    using needsquotes_correct [OF assms] by blast
  show ?thesis
  proof (cases f)
    case True
    let ?n = "length (dbl x)" and ?r = "(replicate (length (quoted x) + 1) 0)[0 := quote]"
    have n: "nat (int (length (quoted x)) + 1) = length (quoted x) + 1" "length (quoted x) = ?n + 2" by (simp_all add: quoted_def)
    have "quote_copy m p ?r 1 = Some (1 + ?n, store ?r 1 (dbl x))"
      by (rule quote_copy_correct [OF assms(1)]) (simp add: n(2))
    moreover have "(store ?r 1 (dbl x))[1 + ?n := quote, 1 + ?n + 1 := 0] = quoted x @ [0]"
    proof -
      have "?r = quote # replicate (?n + 2) 0" by (simp add: n(2))
      moreover have "drop ?n (replicate (?n + 2) (0 :: byte)) = [0, 0]" by (simp only: drop_replicate) (simp add: numeral_2_eq_2)
      ultimately have "store ?r 1 (dbl x) = quote # dbl x @ [0, 0]" by (simp only: store_def) simp
      then show ?thesis by (simp add: quoted_def list_update_append)
    qed
    moreover have "st (replicate (length (quoted x) + 1) 0) 0 quote = Some ?r" by simp
    moreover have "1 + ?n + 1 < length (store ?r 1 (dbl x))" by (simp add: n(2))
    ultimately have "quotestrdup doquote m p = Some (quoted x @ [0])"
      using f(1) True by (simp only: quotestrdup_def n(1) if_True if_False bind.bind_lunit case_prod_conv not_True_eq_False) simp
    then show ?thesis using f True by (intro exI [of _ True]) simp
  next
    case False
    have "needsquotes doquote m p = Some (False, int (length x))" using f(1) False by simp
    then have "quotestrdup doquote m p = strdup m p" unfolding quotestrdup_def by simp
    then have "quotestrdup doquote m p = Some (x @ [0])" using strdup_correct [OF assms(1)] by simp
    moreover have "x \<noteq> []" "plain x" using f(2) False by simp_all
    ultimately show ?thesis by (intro exI [of _ False]) simp
  qed
qed

lemma unq_dbl:
  "r = [] \<or> hd r \<noteq> quote \<Longrightarrow> unq P True (dbl x @ quote # r) = (x @ fst (unq P False r), snd (unq P False r))"
  by (induction x) auto

lemma unq_plain: "plain x \<Longrightarrow> (\<forall>c \<in> set x. \<not> P c) \<Longrightarrow> r = [] \<or> P (hd r) \<Longrightarrow> unq P False (x @ r) = (x, r)"
proof (induction x)
  case Nil
  then show ?case by (cases r) auto
qed (auto simp: plain_def)

lemma blank_plain: "plain x \<Longrightarrow> c \<in> set x \<Longrightarrow> \<not> blank c"
  by (auto simp: plain_def blank_def)

text \<open>A list of strings, each quoted if it has to be and followed by a blank, is split into those strings.\<close>

lemma toks_quoted:
  assumes "list_all2 (\<lambda>x y. y = quoted x \<or> y = x \<and> x \<noteq> [] \<and> plain x) xs ys"
  shows "toks blank (concat (map (\<lambda>y. y @ [0x20]) ys)) = xs"
  using assms
proof (induction rule: list_all2_induct)
  case (Cons x xs y ys)
  let ?r = "0x20 # concat (map (\<lambda>y. y @ [0x20]) ys)"
  have b: "blank 0x20" "\<not> blank quote" by (simp_all add: blank_def)
  have u: "unq blank False (y @ ?r) = (x, ?r)"
    using Cons(1) unq_dbl [of ?r blank x] unq_plain [of x blank ?r] blank_plain b by (auto simp: quoted_def)
  have "y @ ?r \<noteq> []" "\<not> blank (hd (y @ ?r))"
    using Cons(1) b(2) blank_plain by (auto simp: quoted_def neq_Nil_conv)
  then have "dropWhile blank (y @ ?r) = y @ ?r" by (cases "y @ ?r") auto
  then have "toks blank (y @ ?r) = x # toks blank ?r"
    using u by (subst toks.simps) (auto split: list.split)
  then show ?case using Cons(3) toks_skip [of blank "0x20"] b(1) by simp
qed simp

lemma unquotestrdup_correct:
  assumes "cstring_at m p = Some y" and "unq (\<lambda>c. c = 0x20 \<or> c = 0x09) False y = (x, [])"
  shows "\<exists>ret. unquotestrdup m p = Some ret \<and> cstring_at ret 0 = Some x"
proof -
  let ?P = "\<lambda>c. c = 0x20 \<or> c = (0x09 :: byte)"
  let ?r = "store (y @ [0]) 0 x"
  have nul: "0 \<notin> set y" by (rule cstring_at_no_nul [OF assms(1)])
  then have y: "cstring_at (y @ [0]) 0 = Some y" using cstring_at_append [of y "[]" "[]"] by simp
  have len: "length x \<le> length y" using unq_length [of ?P False y] assms(2) by simp
  have nx: "0 \<notin> set x" using unq_no_nul [OF nul, of ?P False] assms(2) by simp
  have l: "unquote_loop (\<lambda>c. Some (?P c)) (y @ [0]) 0 0 False = Some (length x, length y, ?r)"
    using unquote_correct [where P = ?P, OF _ y] assms(2) by simp
  have z: "cstring_at ?r (length y) = Some []" using len by (simp add: store_nth nth_append)
  show ?thesis
  proof (cases "length y = length x")
    case True
    then have "?r = x @ [0]" by (simp add: store_def)
    then show ?thesis
      using l True strdup_correct [OF assms(1)] cstring_at_append [OF nx, of "[]" "[]"] by (simp add: unquotestrdup_def)
  next
    case False
    have "take 1 (drop (length y) ?r) = [0]" using z by (simp add: Cons_nth_drop_Suc [symmetric] take_Suc)
    then have "memmove ?r (length x) (length y) 1 = Some (store ?r (length x) [0])"
      using memmove_correct [of "length x" 1 ?r "length y"] len by simp
    also have "store ?r (length x) [0] = store (y @ [0]) 0 (x @ [0])"
      using store_append [of 0 x "y @ [0]" "[0]"] len by simp
    finally have "unquotestrdup m p = Some (store (y @ [0]) 0 (x @ [0]))"
      using l False strdup_correct [OF assms(1)] strlen_correct [OF z] by (simp add: unquotestrdup_def)
    moreover have "cstring_at (store (y @ [0]) 0 (x @ [0])) 0 = Some x" by (rule cstring_at_store [OF nx]) (use len in simp)
    ultimately show ?thesis by blast
  qed
qed

lemma unq_quotestr:
  assumes "y = quoted x \<or> y = x \<and> plain x"
  shows "unq (\<lambda>c. c = 0x20 \<or> c = 0x09) False y = (x, [])"
proof -
  have "\<forall>c \<in> set x. \<not> (c = 0x20 \<or> c = 0x09)" if "plain x" using that by (auto simp: plain_def)
  then show ?thesis
    using assms unq_dbl [of "[]" "\<lambda>c. c = 0x20 \<or> c = 0x09" x] unq_plain [of x "\<lambda>c. c = 0x20 \<or> c = 0x09" "[]"]
    by (auto simp: quoted_def)
qed

text \<open>Quoting a list of words and cutting the line again.\<close>

lemma quoted_words:
  assumes "list_all2 (\<lambda>x y. 0 \<notin> set x \<and> 2 * length x + 2 < 2 ^ 31 \<and> quotestrdup doquote (x @ [0]) 0 = Some (y @ [0])) xs ys"
    and "length xs \<le> n"
  shows "(\<exists>args m'. tokenize (concat (map (\<lambda>y. y @ [0x20]) ys) @ [0]) 0 n = Some (args, m')
      \<and> map (cstring_at m') args = map Some xs)
    \<and> list_all2 (\<lambda>x y. \<exists>ret. unquotestrdup (y @ [0]) 0 = Some ret \<and> cstring_at ret 0 = Some x) xs ys"
proof -
  have str: "cstring_at (x @ [0]) 0 = Some x" if "0 \<notin> set x" for x
    using cstring_at_append [of x "[]" "[]"] that by simp
  have dbl0: "0 \<notin> set (dbl x)" if "0 \<notin> set x" for x using that by (induction x) auto
  have q: "list_all2 (\<lambda>x y. 0 \<notin> set y \<and> (y = quoted x \<or> y = x \<and> x \<noteq> [] \<and> plain x)) xs ys"
    using assms(1)
  proof (rule list_all2_mono)
    fix x y assume *: "0 \<notin> set x \<and> 2 * length x + 2 < 2 ^ 31 \<and> quotestrdup doquote (x @ [0]) 0 = Some (y @ [0])"
    then have "y = quoted x \<or> y = x \<and> x \<noteq> [] \<and> plain x"
      using quotestrdup_correct [OF str, of x doquote] by (auto split: if_splits)
    moreover have "0 \<notin> set x" "0 \<notin> set (quoted x)" using * dbl0 [of x] by (simp_all add: quoted_def)
    ultimately show "0 \<notin> set y \<and> (y = quoted x \<or> y = x \<and> x \<noteq> [] \<and> plain x)" by metis
  qed
  let ?l = "concat (map (\<lambda>y. y @ [0x20]) ys)"
  have "0 \<notin> set ?l" using q by (induction rule: list_all2_induct) auto
  moreover have "toks blank ?l = xs" by (rule toks_quoted, rule list_all2_mono [OF q]) blast
  ultimately have "\<exists>args m'. tokenize (?l @ [0]) 0 n = Some (args, m') \<and> map (cstring_at m') args = map Some xs"
    using tokenize_correct [OF str, of ?l n] assms(2) by auto
  moreover have "list_all2 (\<lambda>x y. \<exists>ret. unquotestrdup (y @ [0]) 0 = Some ret \<and> cstring_at ret 0 = Some x) xs ys"
    using q by (rule list_all2_mono) (use unquotestrdup_correct [OF str unq_quotestr] in blast)
  ultimately show ?thesis by blast
qed

lemma quotestrdup_samples:
  "quotestrdup None (ascii ''ab'' @ [0]) 0 = Some (ascii ''ab'' @ [0])"
  "quotestrdup None [0x20, 0] 0 = Some [0x27, 0x20, 0x27, 0]"
  by code_simp+

end
