(* ===== verification/Strtol.thy ===== *)
theory Strtol
  imports Cstring
begin

text \<open>
  Numbers in strings: \<^verbatim>\<open>strtol.c\<close>, \<^verbatim>\<open>strtoll.c\<close>, \<^verbatim>\<open>strtoul.c\<close>, \<^verbatim>\<open>strtoull.c\<close>, \<^verbatim>\<open>atol.c\<close> and \<^verbatim>\<open>atoll.c\<close> of
  \<^verbatim>\<open>libc/port\<close>.  \<open>long\<close> is a 32-bit word and \<open>vlong\<close> a 64-bit word whose arithmetic wraps around;
  each function returns the number and the position it stores through \<open>endptr\<close>.
\<close>

section \<open>The common loops\<close>

definition white :: "byte \<Rightarrow> bool" where
  "white c \<longleftrightarrow> c \<in> {0x20, 0x09, 0x0A, 0x0C, 0x0D, 0x0B}"

function skip_white :: "block \<Rightarrow> nat \<Rightarrow> nat option" where
  "skip_white m p = do {
     c \<leftarrow> ld m p;
     if white c then skip_white m (p + 1) else Some p
   }"
  by pat_completeness auto
termination by (relation "measure (\<lambda>(m, p). length m - p)") auto

definition get_sign :: "block \<Rightarrow> nat \<Rightarrow> (bool \<times> nat) option" where
  "get_sign m p = do {
     c \<leftarrow> ld m p;
     Some (if c = 0x2D then (True, p + 1) else if c = 0x2B then (False, p + 1) else (False, p))
   }"

definition digit_value :: "byte \<Rightarrow> int \<Rightarrow> int" where
  "digit_value c base = (let n = int (unat c) in
     if 0x30 \<le> n \<and> n \<le> 0x39 then n - 0x30
     else if 0x61 \<le> n \<and> n \<le> 0x7A then n - 0x61 + 10
     else if 0x41 \<le> n \<and> n \<le> 0x5A then n - 0x41 + 10
     else base)"

text \<open>\<open>n\<close> is the number so far; \<open>lt\<close> is the order of its type, \<open>mx\<close> the largest value that can be multiplied
  by the base.\<close>

function digits :: "('w::len word \<Rightarrow> 'w word \<Rightarrow> bool) \<Rightarrow> block \<Rightarrow> int \<Rightarrow> 'w word \<Rightarrow> nat \<Rightarrow> 'w word \<Rightarrow> nat \<Rightarrow> bool
    \<Rightarrow> (nat \<times> 'w word \<times> nat \<times> bool) option" where
  "digits lt m base mx p n ndig ovfl = do {
     c \<leftarrow> ld m p;
     let v = digit_value c base;
     if v \<ge> base then Some (p, n, ndig, ovfl)
     else let nn = n * of_int base + of_int v in
       digits lt m base mx (p + 1) nn (ndig + 1) (ovfl \<or> lt mx n \<or> lt nn n)
   }"
  by pat_completeness auto
termination by (relation "measure (\<lambda>(lt, m, base, mx, p, n, ndig, ovfl). length m - p)") auto

declare skip_white.simps [simp del] digits.simps [simp del]

abbreviation is_x :: "byte \<Rightarrow> bool" where "is_x c \<equiv> c = 0x78 \<or> c = 0x58"

text \<open>The base and the start of the digits, as \<open>strtol\<close>, \<open>strtoll\<close> and \<open>strtoull\<close> decide; \<^const>\<open>None\<close> inside the
  result is \<open>goto Return\<close>.\<close>

definition get_base :: "block \<Rightarrow> nat \<Rightarrow> int \<Rightarrow> (int \<times> nat) option option" where
  "get_base m p base = do {
     c \<leftarrow> ld m p;
     if base = 0 then
       (if c = 0x30 then do {
          d \<leftarrow> ld m (p + 1);
          Some (Some (if is_x d then (16, p + 2) else (8, p)))
        } else Some (Some (10, p)))
     else if base = 16 \<and> c = 0x30 then do {
       d \<leftarrow> ld m (p + 1);
       Some (Some (if is_x d then (16, p + 2) else (16, p)))
     }
     else if base < 0 \<or> 36 < base then Some None
     else Some (Some (base, p))
   }"

section \<open>Signed numbers\<close>

definition slt :: "'w::len word \<Rightarrow> 'w word \<Rightarrow> bool" where
  "slt x y \<longleftrightarrow> sint x < sint y"

text \<open>The body of \<open>strtol\<close> and \<open>strtoll\<close>, which differ in the type and its limits only.\<close>

definition strto_signed :: "int \<Rightarrow> int \<Rightarrow> block \<Rightarrow> nat \<Rightarrow> int \<Rightarrow> ('w::len word \<times> nat) option" where
  "strto_signed vmax vmin m nptr base = do {
     p \<leftarrow> skip_white m nptr;
     (neg, p) \<leftarrow> get_sign m p;
     b \<leftarrow> get_base m p base;
     (case b of
        None \<Rightarrow> Some (0, nptr)
      | Some (base, p) \<Rightarrow> do {
          (p, n, ndig, ovfl) \<leftarrow> digits slt m base (of_int (vmax div base)) p 0 0 False;
          let p = (if ndig = 0 then nptr else p);
          Some (if ovfl then (if neg then of_int vmin else of_int vmax) else if neg then - n else n, p)
        })
   }"

definition strtol :: "block \<Rightarrow> nat \<Rightarrow> int \<Rightarrow> (32 word \<times> nat) option" where
  "strtol m nptr base = strto_signed 2147483647 (- 2147483648) m nptr base"

definition strtoll :: "block \<Rightarrow> nat \<Rightarrow> int \<Rightarrow> (64 word \<times> nat) option" where
  "strtoll m nptr base = strto_signed 9223372036854775807 (- 9223372036854775808) m nptr base"

section \<open>Unsigned numbers\<close>

definition get_ubase :: "block \<Rightarrow> nat \<Rightarrow> int \<Rightarrow> (int \<times> nat) option option" where
  "get_ubase m p base = do {
     c \<leftarrow> ld m p;
     base \<leftarrow> (if base = 0 then
         (if c \<noteq> 0x30 then Some 10
          else do {
            d \<leftarrow> ld m (p + 1);
            Some (if is_x d then 16 else 8)
          })
       else Some base);
     if base < 2 \<or> 36 < base then Some None
     else do {
       p \<leftarrow> (if base = 16 \<and> c = 0x30 then do {
           d \<leftarrow> ld m (p + 1);
           if is_x d then do {
             e \<leftarrow> ld m (p + 2);
             Some (if 0x30 \<le> e \<and> e \<le> 0x39 \<or> 0x61 \<le> e \<and> e \<le> 0x66 \<or> 0x41 \<le> e \<and> e \<le> 0x46 then p + 2 else p)
           } else Some p
         } else Some p);
       Some (Some (base, p))
     }
   }"

definition strtoul :: "block \<Rightarrow> nat \<Rightarrow> int \<Rightarrow> (32 word \<times> nat) option" where
  "strtoul m nptr base = do {
     p \<leftarrow> skip_white m nptr;
     (neg, p) \<leftarrow> get_sign m p;
     b \<leftarrow> get_ubase m p base;
     (case b of
        None \<Rightarrow> Some (0, nptr)
      | Some (base, p) \<Rightarrow> do {
          (p, n, ndig, ovfl) \<leftarrow> digits (<) m base (of_int (4294967295 div base)) p 0 0 False;
          let p = (if ndig = 0 then nptr else p);
          Some (if ovfl then 4294967295 else if neg then - n else n, p)
        })
   }"

text \<open>\<open>strtoull\<close> defines \<open>UVLONG_MAX\<close> as \<open>(1LL<<63)\<close>, a negative \<open>vlong\<close>: the division is signed and rounds
  towards 0, and the quotient is then converted to \<open>uvlong\<close>.\<close>

definition UVLONG_MAX :: int where
  "UVLONG_MAX = - 9223372036854775808"

definition strtoull :: "block \<Rightarrow> nat \<Rightarrow> int \<Rightarrow> (64 word \<times> nat) option" where
  "strtoull m nptr base = do {
     p \<leftarrow> skip_white m nptr;
     (neg, p) \<leftarrow> get_sign m p;
     b \<leftarrow> get_base m p base;
     (case b of
        None \<Rightarrow> Some (0, nptr)
      | Some (base, p) \<Rightarrow> do {
          (p, n, ndig, ovfl) \<leftarrow> digits (<) m base (of_int (- ((- UVLONG_MAX) div base))) p 0 0 False;
          let p = (if ndig = 0 then nptr else p);
          Some (if ovfl then of_int UVLONG_MAX else if neg then - n else n, p)
        })
   }"

section \<open>The simple functions\<close>

function skip_blank :: "block \<Rightarrow> nat \<Rightarrow> nat option" where
  "skip_blank m s = do {
     c \<leftarrow> ld m s;
     if c = 0x20 \<or> c = 0x09 then skip_blank m (s + 1) else Some s
   }"
  by pat_completeness auto
termination by (relation "measure (\<lambda>(m, s). length m - s)") auto

text \<open>The three digit loops of \<open>atol\<close>.\<close>

function atol_digits :: "block \<Rightarrow> int \<Rightarrow> nat \<Rightarrow> u32 \<Rightarrow> u32 option" where
  "atol_digits m base s n = do {
     c \<leftarrow> ld m s;
     let v = digit_value c 36;
     if v < base then atol_digits m base (s + 1) (n * of_int base + of_int v) else Some n
   }"
  by pat_completeness auto
termination by (relation "measure (\<lambda>(m, base, s, n). length m - s)") auto

declare skip_blank.simps [simp del] atol_digits.simps [simp del]

definition atol :: "block \<Rightarrow> nat \<Rightarrow> u32 option" where
  "atol m s = do {
     s \<leftarrow> skip_blank m s;
     c \<leftarrow> ld m s;
     (f, s) \<leftarrow> (if c = 0x2D \<or> c = 0x2B then do {
         t \<leftarrow> skip_blank m (s + 1);
         Some (c = 0x2D, t)
       } else Some (False, s));
     c \<leftarrow> ld m s;
     n \<leftarrow> (if c = 0x30 then do {
         d \<leftarrow> ld m (s + 1);
         if d \<noteq> 0 then (if is_x d then atol_digits m 16 (s + 2) 0 else atol_digits m 8 s 0)
         else atol_digits m 10 s 0
       } else atol_digits m 10 s 0);
     Some (if f then - n else n)
   }"

definition atoi :: "block \<Rightarrow> nat \<Rightarrow> u32 option" where
  "atoi m s = atol m s"

definition atoll :: "block \<Rightarrow> nat \<Rightarrow> u64 option" where
  "atoll m s = map_option fst (strtoll m s 0)"


section \<open>What the digit loop computes\<close>

text \<open>The number a digit string denotes, as an unbounded integer.\<close>

definition digit_in :: "int \<Rightarrow> byte \<Rightarrow> bool" where
  "digit_in base c \<longleftrightarrow> digit_value c base < base"

definition numeral_from :: "int \<Rightarrow> int \<Rightarrow> byte list \<Rightarrow> int" where
  "numeral_from base v ds = foldl (\<lambda>v c. v * base + digit_value c base) v ds"

abbreviation numeral_of :: "int \<Rightarrow> byte list \<Rightarrow> int" where
  "numeral_of base ds \<equiv> numeral_from base 0 ds"

lemma numeral_from_simps [simp]:
  "numeral_from base v [] = v"
  "numeral_from base v (c # ds) = numeral_from base (v * base + digit_value c base) ds"
  by (simp_all add: numeral_from_def)

lemma digit_value_nonneg: "0 \<le> base \<Longrightarrow> 0 \<le> digit_value c base"
  by (simp add: digit_value_def Let_def)

lemma numeral_from_grows:
  assumes "0 \<le> v" and "1 \<le> base"
  shows "v \<le> numeral_from base v ds"
  using assms(1)
proof (induction ds arbitrary: v)
  case Nil
  then show ?case by simp
next
  case (Cons c ds)
  have "v * 1 \<le> v * base" using assms(2) Cons.prems by (intro mult_left_mono) auto
  then have "v \<le> v * base + digit_value c base" using digit_value_nonneg [of base c] assms(2) by simp
  with Cons.IH [of "v * base + digit_value c base"] Cons.prems show ?case by simp
qed

lemma digit_nul: "base \<le> 36 \<Longrightarrow> \<not> digit_in base 0"
  by (simp add: digit_in_def digit_value_def)

text \<open>What the loop relies on: an order \<open>lt\<close> that compares the values \<open>val\<close> of the words, exact values up to \<open>V\<close>,
  and a wrap-around just above \<open>V\<close> to something small.\<close>

locale counter =
  fixes lt :: "'w::len word \<Rightarrow> 'w word \<Rightarrow> bool" and val :: "'w word \<Rightarrow> int" and V :: int
  assumes lt_val: "lt x y \<longleftrightarrow> val x < val y"
    and of_val: "of_int (val x) = x"
    and val_of: "0 \<le> v \<Longrightarrow> v \<le> V \<Longrightarrow> val (of_int v) = v"
    and val_wrap: "V < v \<Longrightarrow> v \<le> V + 35 \<Longrightarrow> val (of_int v) < 35"
    and large: "2000 \<le> V"
begin

text \<open>\<open>n\<close> and \<open>ovfl\<close> stand for the number \<open>v\<close>.\<close>

definition counts :: "int \<Rightarrow> 'w word \<Rightarrow> bool \<Rightarrow> bool" where
  "counts v n ovfl \<longleftrightarrow> (if ovfl then V < v else n = of_int v \<and> v \<le> V)"

lemma counts_step:
  assumes "counts v n ovfl" and "0 \<le> v" and "2 \<le> base" and "base \<le> 36" and "0 \<le> d" and "d < base"
  shows "counts (v * base + d) (n * of_int base + of_int d)
    (ovfl \<or> lt (of_int (V div base)) n \<or> lt (n * of_int base + of_int d) n)"
proof -
  have up: "v \<le> v * base" using assms(2,3) mult_left_mono [of 1 base v] by simp
  have mx: "0 \<le> V div base" "V div base \<le> V"
    using assms(3) large zdiv_mono2 [of V 1 base] by (simp_all add: pos_imp_zdiv_nonneg_iff)
  show ?thesis
  proof (cases ovfl)
    case True
    then show ?thesis using assms(1,5) up by (simp add: counts_def)
  next
    case False
    then have n: "n = of_int v" "v \<le> V" using assms(1) by (simp_all add: counts_def)
    then have vn: "val n = v" and vm: "val (of_int (V div base)) = V div base" using assms(2) mx val_of by simp_all
    have nn: "n * of_int base + of_int d = of_int (v * base + d)" using n by simp
    consider (big) "V div base < v" | (over) "v \<le> V div base" "V < v * base + d" | (fits) "v \<le> V div base" "v * base + d \<le> V"
      by linarith
    then show ?thesis
    proof cases
      case big
      then have "(V div base + 1) * base \<le> v * base" using assms(3) by (intro mult_right_mono) auto
      then have "V div base * base + base \<le> v * base" by (simp add: distrib_right)
      then have "V < v * base" using assms(3) div_mult_mod_eq [of V base] pos_mod_bound [of base V] by linarith
      then show ?thesis using big vn vm assms(5) by (simp add: counts_def lt_val)
    next
      case over
      have "v * base \<le> V div base * base" using over(1) assms(3) by (intro mult_right_mono) auto
      also have "\<dots> \<le> V" using assms(3) div_mult_mod_eq [of V base] pos_mod_sign [of base V] by linarith
      finally have "v * base + d \<le> V + 35" using assms(4,6) by simp
      then have "val (of_int (v * base + d)) < 35" using over(2) val_wrap by blast
      moreover have "v * base \<le> v * 36" using assms(2,4) by (intro mult_left_mono)
      ultimately show ?thesis using over vn large assms(4,6) by (simp add: counts_def lt_val nn del: of_int_add of_int_mult)
    next
      case fits
      have "0 \<le> v * base + d" using assms(2,3,5) by simp
      then have "val (of_int (v * base + d)) = v * base + d" using fits(2) val_of by blast
      then show ?thesis using fits False vn vm up assms(5) by (simp add: counts_def lt_val nn del: of_int_add of_int_mult)
    qed
  qed
qed

lemma digits_correct:
  assumes "cstring_at m p = Some s" and "counts v n ovfl" and "0 \<le> v" and "2 \<le> base" and "base \<le> 36"
  shows "\<exists>n' ovfl'. digits lt m base (of_int (V div base)) p n nd ovfl
      = Some (p + length (takeWhile (digit_in base) s), n', nd + length (takeWhile (digit_in base) s), ovfl')
    \<and> counts (numeral_from base v (takeWhile (digit_in base) s)) n' ovfl'"
  using assms(1-3)
proof (induction s arbitrary: p v n nd ovfl)
  case Nil
  then show ?case using digit_nul [OF assms(5)] by (subst digits.simps) (simp add: digit_in_def)
next
  case (Cons c s)
  show ?case
  proof (cases "digit_in base c")
    case True
    let ?v = "v * base + digit_value c base" and ?n = "n * of_int base + of_int (digit_value c base)"
    have pos: "0 \<le> digit_value c base" using digit_value_nonneg assms(4) by simp
    have "counts ?v ?n (ovfl \<or> lt (of_int (V div base)) n \<or> lt ?n n)"
      by (rule counts_step [OF Cons.prems(2,3) assms(4,5) pos]) (use True in \<open>simp add: digit_in_def\<close>)
    moreover have "0 \<le> ?v" using Cons.prems(3) assms(4) pos by simp
    ultimately obtain n' o' where "digits lt m base (of_int (V div base)) (Suc p) ?n (Suc nd)
        (ovfl \<or> lt (of_int (V div base)) n \<or> lt ?n n)
        = Some (Suc p + length (takeWhile (digit_in base) s), n', Suc nd + length (takeWhile (digit_in base) s), o')"
      "counts (numeral_from base ?v (takeWhile (digit_in base) s)) n' o'"
      using Cons.IH [of "Suc p" ?v ?n "ovfl \<or> lt (of_int (V div base)) n \<or> lt ?n n" "Suc nd"] Cons.prems(1) by auto
    then show ?thesis using Cons.prems(1) True by (subst digits.simps) (simp add: digit_in_def Let_def)
  next
    case False
    then show ?thesis using Cons.prems by (subst digits.simps) (simp add: digit_in_def)
  qed
qed

lemma counts_0: "counts 0 0 False"
  using large by (simp add: counts_def)

end

lemma sint_of_int_32:
  "- 2147483648 \<le> v \<Longrightarrow> v \<le> 2147483647 \<Longrightarrow> sint (of_int v :: 32 word) = v"
  by (simp add: signed_of_int signed_take_bit_int_eq_self)

lemma sint_of_int_64:
  "- 9223372036854775808 \<le> v \<Longrightarrow> v \<le> 9223372036854775807 \<Longrightarrow> sint (of_int v :: 64 word) = v"
  by (simp add: signed_of_int signed_take_bit_int_eq_self)

lemma uint_of_int_32: "0 \<le> v \<Longrightarrow> v \<le> 4294967295 \<Longrightarrow> uint (of_int v :: 32 word) = v"
  by (simp add: unsigned_of_int take_bit_int_eq_self)

interpretation ulong: counter "(<) :: 32 word \<Rightarrow> _" uint 4294967295
proof
  show "uint (of_int v :: 32 word) < 35" if "4294967295 < v" "v \<le> 4294967295 + 35" for v
  proof -
    have "(of_int v :: 32 word) = of_int (v - 4294967296)" by (simp add: word_of_int_eq_iff take_bit_eq_mod mod_eq_dvd_iff)
    then show ?thesis using uint_of_int_32 [of "v - 4294967296"] that by (simp del: of_int_diff)
  qed
qed (simp_all add: word_less_def uint_of_int_32)


section \<open>What the functions return\<close>

text \<open>The parts of a number: white space, sign, base prefix, digits.  The result is the sign, the base, the digits
  and the text before the digits.\<close>

definition split_sign :: "byte list \<Rightarrow> bool \<times> byte list" where
  "split_sign t = (case t of [] \<Rightarrow> (False, []) | c # u \<Rightarrow> if c = 0x2D then (True, u) else if c = 0x2B then (False, u) else (False, t))"

definition hex_prefix :: "byte list \<Rightarrow> bool" where
  "hex_prefix t \<longleftrightarrow> (case t of c # d # u \<Rightarrow> c = 0x30 \<and> is_x d | _ \<Rightarrow> False)"

definition split_base :: "int \<Rightarrow> byte list \<Rightarrow> int \<times> byte list" where
  "split_base base t =
     (if (base = 0 \<or> base = 16) \<and> hex_prefix t then (16, drop 2 t)
      else if base = 0 then (if take 1 t = [0x30] then 8 else 10, t)
      else (base, t))"

definition number_parts :: "int \<Rightarrow> byte list \<Rightarrow> bool \<times> int \<times> byte list \<times> nat" where
  "number_parts base s =
     (let (neg, t) = split_sign (dropWhile white s);
          (b, u) = split_base base t
      in (neg, b, takeWhile (digit_in b) u, length s - length u))"

lemma white_nul [simp]: "\<not> white 0"
  by (simp add: white_def)

lemma skip_white_correct:
  "cstring_at m p = Some s \<Longrightarrow> skip_white m p = Some (p + length (takeWhile white s))"
  by (induction s arbitrary: p) (subst skip_white.simps, simp)+

lemma get_sign_correct:
  assumes "cstring_at m p = Some t"
  shows "get_sign m p = Some (fst (split_sign t), p + (length t - length (snd (split_sign t))))
    \<and> cstring_at m (p + (length t - length (snd (split_sign t)))) = Some (snd (split_sign t))
    \<and> length (snd (split_sign t)) \<le> length t"
  using assms by (cases t) (auto simp: get_sign_def split_sign_def)

lemma get_base_correct:
  assumes "cstring_at m p = Some t" and "0 \<le> base" and "base \<le> 36"
  shows "get_base m p base = Some (Some (fst (split_base base t), p + (length t - length (snd (split_base base t)))))
    \<and> cstring_at m (p + (length t - length (snd (split_base base t)))) = Some (snd (split_base base t))
    \<and> length (snd (split_base base t)) \<le> length t"
proof (cases t)
  case Nil
  then show ?thesis using assms by (simp add: get_base_def split_base_def hex_prefix_def)
next
  case (Cons c u)
  then show ?thesis using assms by (cases u) (auto simp: get_base_def split_base_def hex_prefix_def)
qed

lemma split_base_range: "base = 0 \<or> 2 \<le> base \<and> base \<le> 36 \<Longrightarrow> 2 \<le> fst (split_base base t) \<and> fst (split_base base t) \<le> 36"
  by (auto simp: split_base_def)

text \<open>The value, limited to what a type from \<open>vmin\<close> to \<open>vmax\<close> holds.\<close>

definition clamp :: "int \<Rightarrow> int \<Rightarrow> int \<Rightarrow> int" where
  "clamp vmin vmax v = min vmax (max vmin v)"

lemma numeral_nonneg: "2 \<le> base \<Longrightarrow> 0 \<le> numeral_of base ds"
  using numeral_from_grows [of 0 base ds] by simp


lemma number_parts_simp:
  assumes "split_sign (dropWhile white s) = (neg, t)" and "split_base base t = (b, u)"
  shows "number_parts base s = (neg, b, takeWhile (digit_in b) u, length s - length u)"
  using assms by (simp add: number_parts_def)

lemma sign_start:
  assumes "cstring_at m p = Some s"
  obtains q r where "skip_white m p = Some q" and "get_sign m q = Some (fst (split_sign (dropWhile white s)), r)"
    and "cstring_at m r = Some (snd (split_sign (dropWhile white s)))"
    and "r = p + (length s - length (snd (split_sign (dropWhile white s))))"
    and "length (snd (split_sign (dropWhile white s))) \<le> length s"
proof -
  let ?q = "p + length (takeWhile white s)" and ?t = "dropWhile white s"
  have q: "skip_white m p = Some ?q" "cstring_at m ?q = Some ?t"
    using skip_white_correct [OF assms(1)] cstring_at_suffix [of m p "takeWhile white s" ?t] assms(1) by simp_all
  have len: "length (takeWhile white s) + length ?t = length s"
    using arg_cong [OF takeWhile_dropWhile_id [of white s], of length] by (simp only: length_append)
  have g: "get_sign m ?q = Some (fst (split_sign ?t), ?q + (length ?t - length (snd (split_sign ?t))))"
    "cstring_at m (?q + (length ?t - length (snd (split_sign ?t)))) = Some (snd (split_sign ?t))"
    "length (snd (split_sign ?t)) \<le> length ?t"
    using get_sign_correct [OF q(2)] by blast+
  then have r: "?q + (length ?t - length (snd (split_sign ?t))) = p + (length s - length (snd (split_sign ?t)))"
    using len by linarith
  show thesis by (rule that [OF q(1) g(1,2) r]) (use g(3) len in linarith)
qed

lemma number_start:
  assumes "cstring_at m p = Some s" and "0 \<le> base" and "base \<le> 36"
  obtains neg b u q r where "skip_white m p = Some q" and "get_sign m q = Some (neg, r)"
    and "get_base m r base = Some (Some (b, p + (length s - length u)))"
    and "cstring_at m (p + (length s - length u)) = Some u"
    and "number_parts base s = (neg, b, takeWhile (digit_in b) u, length s - length u)"
    and "b = fst (split_base base (snd (split_sign (dropWhile white s))))"
proof -
  obtain q r where q: "skip_white m p = Some q" "get_sign m q = Some (fst (split_sign (dropWhile white s)), r)"
    "cstring_at m r = Some (snd (split_sign (dropWhile white s)))"
    "r = p + (length s - length (snd (split_sign (dropWhile white s))))"
    "length (snd (split_sign (dropWhile white s))) \<le> length s"
    by (rule sign_start [OF assms(1)])
  note w = get_base_correct [OF q(3) assms(2,3)]
  show thesis
    by (rule that [where u = "snd (split_base base (snd (split_sign (dropWhile white s))))", OF q(1,2)])
      (use q(4,5) w in \<open>auto simp: number_parts_def split: prod.splits\<close>)
qed

locale signed_counter = counter "slt :: 'w word \<Rightarrow> _" sint V for V :: int and ty :: "'w::len itself" +
  assumes val_neg: "0 \<le> v \<Longrightarrow> v \<le> V \<Longrightarrow> sint (- of_int v :: 'w word) = - v"
    and val_min: "sint (of_int (- V - 1) :: 'w word) = - V - 1"
begin

lemma strto_signed_correct:
  assumes "cstring_at m p = Some s" and "base = 0 \<or> 2 \<le> base \<and> base \<le> 36"
    and "number_parts base s = (neg, b, ds, k)"
  shows "\<exists>n :: 'w word. strto_signed V (- V - 1) m p base = Some (n, if ds = [] then p else p + k + length ds)
    \<and> sint n = clamp (- V - 1) V (if neg then - numeral_of b ds else numeral_of b ds)"
proof -
  have base: "0 \<le> base" "base \<le> 36" using assms(2) by auto
  obtain q r u where start: "skip_white m p = Some q" "get_sign m q = Some (neg, r)"
    "get_base m r base = Some (Some (b, p + k))" "cstring_at m (p + k) = Some u" "ds = takeWhile (digit_in b) u"
    and b: "2 \<le> b" "b \<le> 36"
    using number_start [OF assms(1) base] split_base_range [OF assms(2)] assms(3) by (metis Pair_inject)
  obtain n ovfl where loop: "digits slt m b (of_int (V div b)) (p + k) 0 0 False = Some (p + k + length ds, n, length ds, ovfl)"
    and c: "counts (numeral_of b ds) n ovfl"
    using digits_correct [OF start(4) counts_0 _ b, of 0] start(5) by auto
  have v: "0 \<le> numeral_of b ds" using numeral_nonneg b(1) by simp
  let ?n = "if ovfl then (if neg then of_int (- V - 1) else of_int V) else if neg then - n else n"
  have "strto_signed V (- V - 1) m p base = Some (?n, if ds = [] then p else p + k + length ds)"
    using start(1-3) loop by (simp add: strto_signed_def)
  moreover have "sint ?n = clamp (- V - 1) V (if neg then - numeral_of b ds else numeral_of b ds)"
    using c v val_min val_neg val_of large by (auto simp: clamp_def counts_def)
  ultimately show ?thesis by blast
qed

end

interpretation long: signed_counter "2147483647 :: int" "TYPE(32)"
proof
  show "sint (of_int v :: 32 word) < 35" if "2147483647 < v" "v \<le> 2147483647 + 35" for v
  proof -
    have "(of_int v :: 32 word) = of_int (v - 4294967296)" by (simp add: word_of_int_eq_iff take_bit_eq_mod mod_eq_dvd_iff)
    then show ?thesis using sint_of_int_32 [of "v - 4294967296"] that by (simp del: of_int_diff)
  qed
  show "sint (- of_int v :: 32 word) = - v" if "0 \<le> v" "v \<le> 2147483647" for v
    using sint_of_int_32 [of "- v"] that by simp
qed (simp_all add: slt_def sint_of_int_32)

interpretation vlong: signed_counter "9223372036854775807 :: int" "TYPE(64)"
proof
  show "sint (of_int v :: 64 word) < 35" if "9223372036854775807 < v" "v \<le> 9223372036854775807 + 35" for v
  proof -
    have "(of_int v :: 64 word) = of_int (v - 18446744073709551616)" by (simp add: word_of_int_eq_iff take_bit_eq_mod mod_eq_dvd_iff)
    then show ?thesis using sint_of_int_64 [of "v - 18446744073709551616"] that by (simp del: of_int_diff)
  qed
  show "sint (- of_int v :: 64 word) = - v" if "0 \<le> v" "v \<le> 9223372036854775807" for v
    using sint_of_int_64 [of "- v"] that by simp
qed (simp_all add: slt_def sint_of_int_64)

lemma strtol_correct:
  assumes "cstring_at m p = Some s" and "base = 0 \<or> 2 \<le> base \<and> base \<le> 36" and "number_parts base s = (neg, b, ds, k)"
  shows "\<exists>n. strtol m p base = Some (n, if ds = [] then p else p + k + length ds)
    \<and> sint n = clamp (- 2147483648) 2147483647 (if neg then - numeral_of b ds else numeral_of b ds)"
  using long.strto_signed_correct [OF assms] by (simp add: strtol_def)

lemma strtoll_correct:
  assumes "cstring_at m p = Some s" and "base = 0 \<or> 2 \<le> base \<and> base \<le> 36" and "number_parts base s = (neg, b, ds, k)"
  shows "\<exists>n. strtoll m p base = Some (n, if ds = [] then p else p + k + length ds)
    \<and> sint n = clamp (- 9223372036854775808) 9223372036854775807 (if neg then - numeral_of b ds else numeral_of b ds)"
  using vlong.strto_signed_correct [OF assms] by (simp add: strtoll_def)

text \<open>\<open>strtoul\<close> takes \<open>0x\<close> for a prefix only before a hexadecimal digit.\<close>

definition split_ubase :: "int \<Rightarrow> byte list \<Rightarrow> int \<times> byte list" where
  "split_ubase base t =
     (let b = (if base \<noteq> 0 then base else if take 1 t \<noteq> [0x30] then 10 else if hex_prefix t then 16 else 8)
      in (b, if b = 16 \<and> hex_prefix t \<and> (case drop 2 t of [] \<Rightarrow> False | e # _ \<Rightarrow> digit_in 16 e) then drop 2 t else t))"

definition unumber_parts :: "int \<Rightarrow> byte list \<Rightarrow> bool \<times> int \<times> byte list \<times> nat" where
  "unumber_parts base s =
     (let (neg, t) = split_sign (dropWhile white s);
          (b, u) = split_ubase base t
      in (neg, b, takeWhile (digit_in b) u, length s - length u))"

lemma hex_digit_iff:
  "(0x30 \<le> e \<and> e \<le> 0x39 \<or> 0x61 \<le> e \<and> e \<le> 0x66 \<or> 0x41 \<le> e \<and> e \<le> 0x46) \<longleftrightarrow> digit_in 16 (e :: byte)"
  by (simp add: digit_in_def digit_value_def Let_def word_le_def) linarith

lemma get_ubase_correct:
  assumes "cstring_at m p = Some t" and "base = 0 \<or> 2 \<le> base \<and> base \<le> 36"
  shows "get_ubase m p base = Some (Some (fst (split_ubase base t), p + (length t - length (snd (split_ubase base t)))))
    \<and> cstring_at m (p + (length t - length (snd (split_ubase base t)))) = Some (snd (split_ubase base t))
    \<and> length (snd (split_ubase base t)) \<le> length t"
proof -
  consider "t = []" | c where "t = [c]" | c d where "t = [c, d]" | c d e u where "t = c # d # e # u"
    by (metis list.exhaust)
  then show ?thesis
    using assms digit_nul [of 16]
    by cases (auto simp: get_ubase_def split_ubase_def hex_prefix_def Let_def hex_digit_iff add_2_eq_Suc')
qed

lemma split_ubase_range: "base = 0 \<or> 2 \<le> base \<and> base \<le> 36 \<Longrightarrow> 2 \<le> fst (split_ubase base t) \<and> fst (split_ubase base t) \<le> 36"
  by (auto simp: split_ubase_def)

lemma unumber_start:
  assumes "cstring_at m p = Some s" and "base = 0 \<or> 2 \<le> base \<and> base \<le> 36"
  obtains neg b u q r where "skip_white m p = Some q" and "get_sign m q = Some (neg, r)"
    and "get_ubase m r base = Some (Some (b, p + (length s - length u)))"
    and "cstring_at m (p + (length s - length u)) = Some u"
    and "unumber_parts base s = (neg, b, takeWhile (digit_in b) u, length s - length u)"
    and "b = fst (split_ubase base (snd (split_sign (dropWhile white s))))"
proof -
  obtain q r where q: "skip_white m p = Some q" "get_sign m q = Some (fst (split_sign (dropWhile white s)), r)"
    "cstring_at m r = Some (snd (split_sign (dropWhile white s)))"
    "r = p + (length s - length (snd (split_sign (dropWhile white s))))"
    "length (snd (split_sign (dropWhile white s))) \<le> length s"
    by (rule sign_start [OF assms(1)])
  note w = get_ubase_correct [OF q(3) assms(2)]
  show thesis
    by (rule that [where u = "snd (split_ubase base (snd (split_sign (dropWhile white s))))", OF q(1,2)])
      (use q(4,5) w in \<open>auto simp: unumber_parts_def split: prod.splits\<close>)
qed

lemma strtoul_correct:
  assumes "cstring_at m p = Some s" and "base = 0 \<or> 2 \<le> base \<and> base \<le> 36" and "unumber_parts base s = (neg, b, ds, k)"
  shows "\<exists>n. strtoul m p base = Some (n, if ds = [] then p else p + k + length ds)
    \<and> uint n = (if 4294967295 < numeral_of b ds then 4294967295
        else if neg then (- numeral_of b ds) mod 2 ^ 32 else numeral_of b ds)"
proof -
  obtain q r u where start: "skip_white m p = Some q" "get_sign m q = Some (neg, r)"
    "get_ubase m r base = Some (Some (b, p + k))" "cstring_at m (p + k) = Some u" "ds = takeWhile (digit_in b) u"
    and b: "2 \<le> b" "b \<le> 36"
    using unumber_start [OF assms(1,2)] split_ubase_range [OF assms(2)] assms(3) by (metis Pair_inject)
  obtain n ovfl where loop: "digits (<) m b (of_int (4294967295 div b)) (p + k) 0 0 False = Some (p + k + length ds, n, length ds, ovfl)"
    and c: "ulong.counts (numeral_of b ds) n ovfl"
    using ulong.digits_correct [OF start(4) ulong.counts_0 _ b, of 0] start(5) by auto
  have v: "0 \<le> numeral_of b ds" using numeral_nonneg b(1) by simp
  let ?n = "if ovfl then 4294967295 else if neg then - n else n"
  have "strtoul m p base = Some (?n, if ds = [] then p else p + k + length ds)"
    using start(1-3) loop by (simp add: strtoul_def)
  moreover have "uint ?n = (if 4294967295 < numeral_of b ds then 4294967295
      else if neg then (- numeral_of b ds) mod 2 ^ 32 else numeral_of b ds)"
    using c v uint_of_int_32 by (auto simp: ulong.counts_def uint_word_ariths)
  ultimately show ?thesis by blast
qed

text \<open>\<open>atol\<close> and \<open>atoi\<close> do not look for overflow: the result is the number modulo \<open>2 ^ 32\<close>.\<close>

lemma digit_value_base:
  "base \<le> 36 \<Longrightarrow> (digit_value c 36 < base) = digit_in base c"
  "digit_in base c \<Longrightarrow> base \<le> 36 \<Longrightarrow> digit_value c 36 = digit_value c base"
  by (auto simp: digit_in_def digit_value_def Let_def)

lemma atol_digits_correct:
  assumes "cstring_at m p = Some s" and "base \<le> 36"
  shows "atol_digits m base p (of_int v) = Some (of_int (numeral_from base v (takeWhile (digit_in base) s)))"
  using assms(1)
proof (induction s arbitrary: p v)
  case Nil
  then show ?case using digit_nul [OF assms(2)] assms(2)
    by (subst atol_digits.simps) (simp add: digit_value_base)
next
  case (Cons c s)
  then show ?case using Cons.IH [of "Suc p" "v * base + digit_value c base"] assms(2)
    by (subst atol_digits.simps) (simp add: digit_value_base)
qed

text \<open>A decimal number as \<open>atol\<close> reads it: blanks, a sign, blanks, digits.\<close>

lemma skip_blank_correct:
  "cstring_at m p = Some s \<Longrightarrow> skip_blank m p = Some (p + length (takeWhile (\<lambda>c. c = 0x20 \<or> c = 0x09) s))"
  by (induction s arbitrary: p) (subst skip_blank.simps, simp)+

text \<open>\<open>strtoull\<close> is right for every number that fits.\<close>

lemma uint_of_int_64: "0 \<le> v \<Longrightarrow> v < 2 ^ 64 \<Longrightarrow> uint (of_int v :: 64 word) = v"
  by (simp add: unsigned_of_int take_bit_int_eq_self)

lemma digits_in_range:
  fixes mx :: "64 word"
  assumes "cstring_at m p = Some s" and "0 \<le> v" and "2 \<le> base" and "base \<le> 36" and "2 ^ 63 \<le> uint mx"
    and "numeral_from base v (takeWhile (digit_in base) s) < 2 ^ 64"
  shows "digits (<) m base mx p (of_int v) nd False
    = Some (p + length (takeWhile (digit_in base) s), of_int (numeral_from base v (takeWhile (digit_in base) s)),
        nd + length (takeWhile (digit_in base) s), False)"
  using assms(1,2,6)
proof (induction s arbitrary: p v nd)
  case Nil
  then show ?case using digit_nul [OF assms(4)] by (subst digits.simps) (simp add: digit_in_def)
next
  case (Cons c s)
  show ?case
  proof (cases "digit_in base c")
    case True
    let ?v = "v * base + digit_value c base"
    have d: "0 \<le> digit_value c base" using digit_value_nonneg assms(3) by simp
    have v: "v * 2 \<le> v * base" "0 \<le> ?v" using Cons.prems(2) assms(3) d by (simp_all add: mult_left_mono)
    have "?v \<le> numeral_from base ?v (takeWhile (digit_in base) s)" using numeral_from_grows v(2) assms(3) by simp
    then have lim: "?v < 2 ^ 64" using Cons.prems(3) True by simp
    then have "uint (of_int v :: 64 word) = v" "uint (of_int ?v :: 64 word) = ?v" "v < 2 ^ 63"
      using v d Cons.prems(2) by (simp_all add: uint_of_int_64 del: of_int_add of_int_mult)
    then have no: "\<not> mx < of_int v" "\<not> (of_int ?v :: 64 word) < of_int v"
      using v d assms(5) Cons.prems(2) by (simp_all add: word_less_def del: of_int_add of_int_mult)
    show ?thesis
      using Cons.IH [of "Suc p" ?v "Suc nd"] Cons.prems v(2) True True [unfolded digit_in_def] no
      by (subst digits.simps) (simp add: Let_def)
  next
    case False
    then show ?thesis using Cons.prems by (subst digits.simps) (simp add: digit_in_def)
  qed
qed

lemma strtoull_correct:
  assumes "cstring_at m p = Some s" and "base = 0 \<or> 2 \<le> base \<and> base \<le> 36" and "number_parts base s = (neg, b, ds, k)"
    and "numeral_of b ds < 2 ^ 64"
  shows "strtoull m p base = Some (of_int (if neg then - numeral_of b ds else numeral_of b ds),
    if ds = [] then p else p + k + length ds)"
proof -
  have base: "0 \<le> base" "base \<le> 36" using assms(2) by auto
  obtain q r u where start: "skip_white m p = Some q" "get_sign m q = Some (neg, r)"
    "get_base m r base = Some (Some (b, p + k))" "cstring_at m (p + k) = Some u" "ds = takeWhile (digit_in b) u"
    and b: "2 \<le> b" "b \<le> 36"
    using number_start [OF assms(1) base] split_base_range [OF assms(2)] assms(3) by (metis Pair_inject)
  let ?x = "9223372036854775808 div b"
  have x: "0 \<le> ?x" "?x \<le> 9223372036854775808 div 1"
    using b zdiv_mono2 [of 9223372036854775808 1 b] by (simp_all add: pos_imp_zdiv_nonneg_iff)
  have "(of_int (- ?x) :: 64 word) = of_int (2 ^ 64 - ?x)" by (simp add: word_of_int_eq_iff take_bit_eq_mod mod_eq_dvd_iff)
  moreover have "0 < ?x" using b by (simp add: pos_imp_zdiv_pos_iff)
  ultimately have mx: "2 ^ 63 \<le> uint (of_int (- ?x) :: 64 word)"
    using x uint_of_int_64 [of "2 ^ 64 - ?x"] by (simp del: of_int_diff of_int_minus)
  have "digits (<) m b (of_int (- ?x) :: 64 word) (p + k) 0 0 False = Some (p + k + length ds, of_int (numeral_of b ds), length ds, False)"
    using digits_in_range [OF start(4) _ b mx, of 0 0] assms(4) start(5) by simp
  then show ?thesis using start(1-3) by (simp add: strtoull_def UVLONG_MAX_def)
qed

lemma strtoull_misses_overflow:
  "strtoull (ascii ''30000000000000000000'' @ [0]) 0 10 = Some (11553255926290448384, 20)"
  "strtoull (ascii ''99999999999999999999999999999'' @ [0]) 0 10 = Some (9223372036854775808, 29)"
  by code_simp+

end
