(* ===== verification/SrvFiles.thy ===== *)
theory SrvFiles
  imports SrvReply
begin

text \<open>
  Requests about a fid the server knows, from the bytes received to the bytes sent: the fid gains a
  reference while the request is served and loses it when the request is given up, so that
  what a message does is what its handler and its reply function do.
\<close>

section \<open>The way of a request\<close>

text \<open>What no handler touches: pools, buffers, output.\<close>

definition keeps :: "'x Srv \<Rightarrow> 'x Srv \<Rightarrow> bool" where
  "keeps s s' \<longleftrightarrow> sv_rpool s' = sv_rpool s \<and> sv_fpool s' = sv_fpool s \<and> sv_msize s' = sv_msize s
     \<and> sv_wbuf s' = sv_wbuf s \<and> sv_out s' = sv_out s \<and> sv_next s' = sv_next s"

lemma keeps_refl [simp]: "keeps s s"
  by (simp add: keeps_def)

lemma keeps_put [simp]:
  "keeps s (put_req r q s') = keeps s s'" "keeps s (put_fid a f s') = keeps s s'"
  "keeps s (s'\<lparr>sv_fs := t\<rparr>) = keeps s s'" "keeps s (s'\<lparr>sv_aux := x\<rparr>) = keeps s s'"
  by (simp_all add: keeps_def)

lemma put_aux [simp]:
  "(put_req r q s)\<lparr>sv_aux := v\<rparr> = put_req r q (s\<lparr>sv_aux := v\<rparr>)" "(put_fid a f s)\<lparr>sv_aux := v\<rparr> = put_fid a f (s\<lparr>sv_aux := v\<rparr>)"
  by (simp_all add: put_req_def put_fid_def)

lemma put_again [simp]:
  "put_fid a f (put_fid a f' s) = put_fid a f s" "put_req r q (put_fid a f (put_req r q' s)) = put_req r q (put_fid a f s)"
  by (simp_all add: put_req_def put_fid_def)

lemma lookupfid_known:
  assumes "intmap_abs (sv_fpool s) fid = Some a" and "inc (sv_fpool s) = incfidref" and "sv_fids s a = Some f"
  shows "lookupfid fid s = (Some a, put_fid a (f\<lparr>fd_ref := fd_ref f + 1\<rparr>) s)"
  using assms by (simp add: lookupfid_def lookupkey_refines incfidref_def put_fid_def)

text \<open>A fid of the server, as \<open>lookupfid\<close> finds it.\<close>

definition has_fid :: "u32 \<Rightarrow> addr \<Rightarrow> Fid \<Rightarrow> 'x Srv \<Rightarrow> bool" where
  "has_fid fid a f s \<longleftrightarrow> intmap_abs (sv_fpool s) fid = Some a \<and> sv_fids s a = Some f \<and> 1 \<le> fd_ref f"

abbreviation held :: "Fid \<Rightarrow> Fid" where
  "held f \<equiv> f\<lparr>fd_ref := fd_ref f + 1\<rparr>"

lemma fid_start:
  assumes r: "srv_ready s" and rec: "received tag m s q s1" and m: "msg_fid m = Some fid" and fid: "has_fid fid a f s"
  shows "with_fid (sv_next s) s1 k
    = k (q\<lparr>rq_fid := Some a\<rparr>) a (held f) (put_req (sv_next s) (q\<lparr>rq_fid := Some a\<rparr>) (put_fid a (held f) s1))"
proof -
  have s1: "sv_reqs s1 (sv_next s) = Some q" "sv_fpool s1 = sv_fpool s" "sv_fids s1 = sv_fids s" "msg_of (rq_ifcall q) = Some m"
    using rec by (simp_all add: received_def)
  have "f_fid (rq_ifcall q) = fid" by (rule msg_fid_of [OF s1(4) m])
  moreover have "lookupfid fid s1 = (Some a, put_fid a (held f) s1)"
    by (rule lookupfid_known) (use fid s1 srv_readyD(3) [OF r] in \<open>simp_all add: has_fid_def\<close>)
  ultimately show ?thesis using s1(1) by (simp add: with_fid_def Let_def)
qed

lemma fid_end_gen:
  assumes r: "srv_ready s" "tag_free tag s" and rec: "received tag m s q s1"
    and g: "getreq fuel h inp s = Some (Some (sv_next s), rest, s1)"
    and sv: "serve h (sv_next s) s1 = Some (Reply e, put_req (sv_next s) qa sa)"
    and qa: "fresh_req qa" "f_type (rq_ifcall qa) \<noteq> Tflush" "f_tag (rq_ifcall qa) = tag"
    and fin: "finish h (sv_next s) e (put_req (sv_next s) (qa\<lparr>rq_error := e\<rparr>) sa) = Some (put_req (sv_next s) qb sb)"
    and qb: "fresh_req qb" "rq_ifcall qb = rq_ifcall qa" "rq_newfid qb = None" "rq_afid qb = None"
    and sb: "sv_rpool sb = sv_rpool s1" "sv_msize sb = sv_msize s1" "sv_wbuf sb = sv_wbuf s1" "sv_out sb = sv_out s1"
      "sv_reqs sb = sv_reqs s1"
    and ok: "fcall_ok (reply_fcall qb)" "msg_of (reply_fcall qb) = Some m'" "msg_size m' \<le> unat (sv_msize s)"
    and cl: "\<And>w. close_opt h (rq_fid qb) (answered (sv_next s) (qb\<lparr>rq_ofcall := reply_fcall qb\<rparr>) w (encode tag m') sb)
        = Some ((answered (sv_next s) (qb\<lparr>rq_ofcall := reply_fcall qb\<rparr>) w (encode tag m') sb)\<lparr>sv_fids := fids, sv_fs := t\<rparr>)"
    and f: "intmap_ok (sv_fpool sb)" "inc (sv_fpool sb) = incfidref" "sv_next s < sv_next sb" "\<And>a. sv_next sb \<le> a \<Longrightarrow> fids a = None"
    and h: "h_destroyreq h = None" and fuel: "3 \<le> fuel"
  shows "\<exists>s'. srv_loop fuel h inp s = srv_loop fuel h rest s' \<and> replied s [encode tag m'] s'
    \<and> sv_fids s' = fids \<and> sv_fpool s' = sv_fpool sb \<and> sv_fs s' = t \<and> sv_aux s' = sv_aux sb \<and> sv_msize s' = sv_msize s"
proof -
  let ?r = "sv_next s" and ?q = "qb\<lparr>rq_ofcall := reply_fcall qb\<rparr>" and ?s2 = "put_req (sv_next s) qb sb"
  have s1: "sv_reqs s1 = (sv_reqs s)(?r \<mapsto> q)" "rq_error q = None" "sv_rpool s1 = snd (caninsertkey (sv_rpool s) (ucast tag) ?r)"
    "sv_msize s1 = sv_msize s" "sv_wbuf s1 = sv_wbuf s" "sv_out s1 = sv_out s"
    using rec by (simp_all add: received_def)
  have rp: "intmap_ok (sv_rpool ?s2)" "intmap_abs (sv_rpool ?s2) (ucast tag) = Some ?r"
    using caninsertkey_refines [OF srv_readyD(2) [OF r(1)], of "ucast tag" ?r] r(2) s1(3) sb(1)
    by (simp_all add: tag_free_def)
  have b: "buf_ok ?s2" using srv_readyD(5) [OF r(1)] s1 sb by (simp add: buf_ok_def)
  have "\<exists>w. length w = unat (sv_msize ?s2) \<and> respond fuel h ?r e (put_req ?r qa sa) = do {
      s2 \<leftarrow> close_opt h (rq_fid qb) (answered ?r ?q w (encode (f_tag (rq_ifcall qa)) m') ?s2);
      s2 \<leftarrow> close_opt h (rq_newfid qb) s2;
      s2 \<leftarrow> close_opt h (rq_afid qb) s2;
      Some (free_req h ?r s2) }"
    by (rule respond_fresh [where q = qa]) (use fin qa qb rp b ok fuel sb s1(4) in simp_all)
  then obtain w where w: "length w = unat (sv_msize s)"
    "respond fuel h ?r e (put_req ?r qa sa) = Some (free_req h ?r ((answered ?r ?q w (encode tag m') sb)\<lparr>sv_fids := fids, sv_fs := t\<rparr>))"
    using qa(3) qb sb s1(4) cl by (auto simp: close_opt_def)
  let ?s3 = "(answered ?r ?q w (encode tag m') sb)\<lparr>sv_fids := fids, sv_fs := t\<rparr>"
  have d: "dispatch fuel h ?r s1 = Some (free_req h ?r ?s3)"
    using w(2) s1(1,2) sv by (simp add: dispatch_def)
  have "replied s [encode tag m'] (free_req h ?r ?s3)"
  proof (rule answered_replied_gen [OF r rec h, where ?q2.0 = ?q and w = w])
    show "sv_reqs ?s3 = sv_reqs (answered ?r ?q w (encode tag m') s1)"
      using sb(5) by (simp add: answered_def)
    show "sv_rpool ?s3 = snd (deletekey (sv_rpool s1) (ucast tag))"
      using sb(1) qa(3) qb(2) by (simp add: answered_def)
  qed (use f w(1) qa(3) qb(2) sb s1 srv_readyD(5,6) [OF r(1)] in \<open>simp_all add: answered_def buf_ok_def\<close>)
  then show ?thesis
    using srv_loop_step [OF g] d sb s1 h by (auto simp: free_req_def answered_def)
qed

text \<open>The common case: the fid was looked up and is given back.\<close>

lemma fid_end:
  assumes r: "srv_ready s" "tag_free tag s" and rec: "received tag m s q s1"
    and g: "getreq fuel h inp s = Some (Some (sv_next s), rest, s1)"
    and sv: "serve h (sv_next s) s1 = Some (Reply e, put_req (sv_next s) qa sa)"
    and qa: "fresh_req qa" "f_type (rq_ifcall qa) \<noteq> Tflush" "f_tag (rq_ifcall qa) = tag"
    and fin: "finish h (sv_next s) e (put_req (sv_next s) (qa\<lparr>rq_error := e\<rparr>) sa) = Some (put_req (sv_next s) qb sb)"
    and qb: "fresh_req qb" "rq_ifcall qb = rq_ifcall qa" "rq_fid qb = Some a" "rq_newfid qb = None" "rq_afid qb = None"
    and sb: "keeps s1 sb" "sv_reqs sb = sv_reqs s1" "sv_fids sb = (sv_fids s)(a \<mapsto> fb)" "fd_ref fb \<noteq> 1" "sv_fids s a \<noteq> None"
    and ok: "fcall_ok (reply_fcall qb)" "msg_of (reply_fcall qb) = Some m'" "msg_size m' \<le> unat (sv_msize s)"
    and h: "h_destroyreq h = None" and fuel: "3 \<le> fuel"
  shows "\<exists>s'. srv_loop fuel h inp s = srv_loop fuel h rest s' \<and> replied s [encode tag m'] s'
    \<and> sv_fids s' = (sv_fids s)(a \<mapsto> fb\<lparr>fd_ref := fd_ref fb - 1\<rparr>) \<and> sv_fpool s' = sv_fpool s
    \<and> sv_fs s' = sv_fs sb \<and> sv_aux s' = sv_aux sb \<and> sv_msize s' = sv_msize s"
proof -
  have s1: "sv_fpool s1 = sv_fpool s" "sv_next s1 = sv_next s + 1" using rec by (simp_all add: received_def)
  have new: "sv_fids s x = None" if "sv_next s \<le> x" for x using srv_readyD(8) [OF r(1) that] .
  then have a: "a < sv_next s" using sb(5) by (meson not_less)
  have cl: "close_opt h (rq_fid qb) (answered (sv_next s) (qb\<lparr>rq_ofcall := reply_fcall qb\<rparr>) w (encode tag m') sb)
      = Some ((answered (sv_next s) (qb\<lparr>rq_ofcall := reply_fcall qb\<rparr>) w (encode tag m') sb)
        \<lparr>sv_fids := (sv_fids s)(a \<mapsto> fb\<lparr>fd_ref := fd_ref fb - 1\<rparr>), sv_fs := sv_fs sb\<rparr>)" for w
    using closefid_more [of "answered (sv_next s) (qb\<lparr>rq_ofcall := reply_fcall qb\<rparr>) w (encode tag m') sb" a fb h] sb(3,4) qb(3)
    by (simp add: answered_def close_opt_def put_fid_def put_req_def)
  from fid_end_gen [OF r rec g sv qa fin qb(1,2,4,5) _ _ _ _ sb(2) ok cl _ _ _ _ h fuel] show ?thesis
    using sb(1) s1 srv_readyD(1,3) [OF r(1)] new a by (simp add: keeps_def)
qed

section \<open>Stores of file contents\<close>

definition overwrite :: "nat \<Rightarrow> block \<Rightarrow> block \<Rightarrow> block" where
  "overwrite off d c = take off c @ d @ drop (off + length d) c"

text \<open>What a read request asks for, and what a write request brings.\<close>

definition asks :: "addr \<Rightarrow> addr \<Rightarrow> Req \<Rightarrow> 'x Srv \<Rightarrow> bool" where
  "asks r x q s \<longleftrightarrow> sv_reqs s r = Some q \<and> (\<exists>a f. rq_fid q = Some a \<and> sv_fids s a = Some f \<and> fd_file f = Some x)
     \<and> 0 \<le> sint (f_offset (rq_ifcall q)) \<and> 0 \<le> sint (f_count (rq_ifcall q))"

text \<open>A fid open on a plain file with content \<open>c\<close>, in a mode that allows what is asked.\<close>

definition file_fid :: "(fs \<Rightarrow> 'x \<Rightarrow> addr \<Rightarrow> block option) \<Rightarrow> (fs \<Rightarrow> 'x \<Rightarrow> bool) \<Rightarrow> byte set \<Rightarrow> u32 \<Rightarrow> addr \<Rightarrow> Fid \<Rightarrow> addr
    \<Rightarrow> block \<Rightarrow> 'x Srv \<Rightarrow> bool" where
  "file_fid content ok modes fid a f x c s \<longleftrightarrow> has_fid fid a f s \<and> fd_omode f AND 3 \<in> modes \<and> q_type (fd_qid f) AND QTDIR = 0
     \<and> fd_file f = Some x \<and> content (sv_fs s) (sv_aux s) x = Some c \<and> ok (sv_fs s) (sv_aux s)"

text \<open>The functions a program installs for reading and writing plain files, and what it promises: \<open>content\<close> is
  what the program keeps for each file of its tree, \<open>ok\<close> its invariant.\<close>

lemma clamp_count_le:
  assumes "64 \<le> unat msize" and "unat msize < 2 ^ 31" and "0 \<le> sint cnt"
  shows "unat (clamp_count msize cnt) \<le> unat msize - 24" and "0 \<le> sint (clamp_count msize cnt)"
    and "unat (clamp_count msize cnt) = min (unat cnt) (unat msize - 24)"
proof -
  have m: "unat (msize - of_nat IOHDRSZ) = unat msize - 24" using assms(1) by (simp add: unat_sub word_le_nat_alt)
  then show c: "unat (clamp_count msize cnt) = min (unat cnt) (unat msize - 24)"
    by (auto simp: clamp_count_def word_less_nat_alt)
  then show "unat (clamp_count msize cnt) \<le> unat msize - 24" by simp
  then have "unat (clamp_count msize cnt) < 2 ^ 31" using assms(2) by simp
  then show "0 \<le> sint (clamp_count msize cnt)" by (simp add: sint_small)
qed

lemma serve_read: "sv_reqs s r = Some q \<Longrightarrow> f_type (rq_ifcall q) = Tread \<Longrightarrow> serve h r s = sread h r s"
  by (simp add: serve_def)

lemma serve_write: "sv_reqs s r = Some q \<Longrightarrow> f_type (rq_ifcall q) = Twrite \<Longrightarrow> serve h r s = swrite h r s"
  by (simp add: serve_def)

locale file_store =
  fixes h :: "'x Handlers" and content :: "fs \<Rightarrow> 'x \<Rightarrow> addr \<Rightarrow> block option" and ok :: "fs \<Rightarrow> 'x \<Rightarrow> bool"
  assumes no_destroy: "h_destroyreq h = None"
    and content_file: "content t v x = Some c \<Longrightarrow> fs_files t x \<noteq> None"
    and content_dir: "fs_files t x = Some y \<Longrightarrow> content (put_file x (y\<lparr>fl_dir := d\<rparr>) t) v = content t v"
    and ok_dir: "fs_files t x = Some y \<Longrightarrow> ok t v \<Longrightarrow> ok (put_file x (y\<lparr>fl_dir := d\<rparr>) t) v"
    and read_law: "ok (sv_fs s) (sv_aux s) \<Longrightarrow> content (sv_fs s) (sv_aux s) x = Some c \<Longrightarrow> asks r x q s
      \<Longrightarrow> length (f_data (rq_ofcall q)) = unat (f_count (rq_ifcall q))
      \<Longrightarrow> \<exists>rd d e. h_read h = Some rd \<and> d = take (unat (f_count (rq_ifcall q))) (drop (unat (f_offset (rq_ifcall q))) c)
        \<and> rd r s = Some (Reply None, put_req r (q\<lparr>rq_ofcall := (rq_ofcall q)\<lparr>f_count := of_nat (length d), f_data := d @ e\<rparr>\<rparr>) s)"
    and write_law: "ok (sv_fs s) (sv_aux s) \<Longrightarrow> content (sv_fs s) (sv_aux s) x = Some c \<Longrightarrow> asks r x q s
      \<Longrightarrow> unat (f_count (rq_ifcall q)) \<le> length (f_data (rq_ifcall q)) \<Longrightarrow> 0 < unat (f_count (rq_ifcall q))
      \<Longrightarrow> unat (f_offset (rq_ifcall q)) \<le> length c
      \<Longrightarrow> unat (f_offset (rq_ifcall q)) + unat (f_count (rq_ifcall q)) < 2 ^ 31
      \<Longrightarrow> \<exists>wr t v. h_write h = Some wr
        \<and> wr r s = Some (Reply None, put_req r (q\<lparr>rq_ofcall := (rq_ofcall q)\<lparr>f_count := f_count (rq_ifcall q)\<rparr>\<rparr>)
            (s\<lparr>sv_fs := t, sv_aux := v\<rparr>))
        \<and> ok t v \<and> (\<forall>ext. fs_ok ext (sv_fs s) \<longrightarrow> fs_ok ext t) \<and> content t v = (content (sv_fs s) (sv_aux s))
            (x \<mapsto> overwrite (unat (f_offset (rq_ifcall q))) (take (unat (f_count (rq_ifcall q))) (f_data (rq_ifcall q))) c)"
begin

lemma read_answered:
  assumes r: "srv_ready s" "tag_free tag s" and f: "file_fid content ok {OREAD, ORDWR, OEXEC} fid a f x c s"
    and lim: "0 \<le> sint off" "0 \<le> sint cnt" and fuel: "3 \<le> fuel"
  shows "\<exists>s'. srv_loop fuel h (encode tag (MTread fid off cnt) @ rest) s = srv_loop fuel h rest s'
    \<and> replied s [encode tag (MRread (take (unat (clamp_count (sv_msize s) cnt)) (drop (unat off) c)))] s'
    \<and> sv_fids s' = sv_fids s \<and> sv_fpool s' = sv_fpool s \<and> sv_fs s' = sv_fs s \<and> sv_aux s' = sv_aux s \<and> sv_msize s' = sv_msize s"
proof -
  let ?r = "sv_next s" and ?m = "MTread fid off cnt" and ?n = "clamp_count (sv_msize s) cnt"
  have "wf_msg ?m" "msg_size ?m \<le> unat (sv_msize s)"
    using srv_readyD(6) [OF r(1)] by (simp_all add: wf_msg_def msg_size_def)
  then obtain q s1 where rec: "received tag ?m s q s1"
    and g: "getreq fuel h (encode tag ?m @ rest) s = Some (Some ?r, rest, s1)"
    using getreq_receives [OF r] by metis
  have fid: "has_fid fid a f s" using f by (simp add: file_fid_def)
  have s1: "sv_reqs s1 = (sv_reqs s)(?r \<mapsto> q)" "sv_fids s1 = sv_fids s" "sv_fs s1 = sv_fs s" "sv_aux s1 = sv_aux s" "sv_msize s1 = sv_msize s"
    and q: "msg_of (rq_ifcall q) = Some ?m" "fresh_req q" "rq_newfid q = None" "rq_afid q = None"
      "f_tag (rq_ifcall q) = tag" "rq_ofcall q = zero_fcall" "rq_error q = None"
    using rec by (simp_all add: received_def)
  have t: "f_type (rq_ifcall q) = Tread" "f_offset (rq_ifcall q) = off" "f_count (rq_ifcall q) = cnt"
    using q(1) by (auto simp: msg_of_def Let_def split: if_splits)
  have small: "unat (sv_msize s) < 2 ^ 31" using srv_readyD(5) [OF r(1)] by (simp add: buf_ok_def)
  note cl = clamp_count_le [OF srv_readyD(6) [OF r(1)] small lim(2)]
  let ?q1 = "q\<lparr>rq_fid := Some a, rq_ifcall := (rq_ifcall q)\<lparr>f_count := ?n\<rparr>, rq_ofcall := zero_fcall\<lparr>f_data := replicate (unat ?n) 0\<rparr>\<rparr>"
  let ?s2 = "put_fid a (held f) s1"
  define d where "d = take (unat ?n) (drop (unat off) c)"
  have "asks ?r x ?q1 (put_req ?r ?q1 ?s2)"
    using f t lim cl(2) by (simp add: asks_def file_fid_def)
  then obtain rd e where rd: "h_read h = Some rd" "rd ?r (put_req ?r ?q1 ?s2) = Some (Reply None, put_req ?r
      (?q1\<lparr>rq_ofcall := (rq_ofcall ?q1)\<lparr>f_count := of_nat (length d), f_data := d @ e\<rparr>\<rparr>) ?s2)"
    using read_law [of "put_req ?r ?q1 ?s2" x c ?r ?q1] f s1 t by (auto simp: file_fid_def d_def)
  let ?q2 = "?q1\<lparr>rq_ofcall := zero_fcall\<lparr>f_count := of_nat (length d), f_data := d @ e\<rparr>\<rparr>"
  have "serve h ?r s1 = sread h ?r s1" by (rule serve_read) (use s1(1) t(1) in simp_all)
  also have "\<dots> = Some (Reply None, put_req ?r ?q2 ?s2)"
    unfolding sread_def fid_start [OF r(1) rec _ fid, simplified]
    using f t lim rd q(6) s1(5) by (simp add: file_fid_def upd_req_def Let_def zero_fcall_def)
  finally have sv: "serve h ?r s1 = Some (Reply None, put_req ?r ?q2 ?s2)" .
  let ?q3 = "?q2\<lparr>rq_error := None\<rparr>"
  have fin: "finish h ?r None (put_req ?r ?q3 ?s2) = Some (put_req ?r ?q3 ?s2)"
    using t f by (simp add: finish_def rread_def file_fid_def)
  have len: "length d < 2 ^ 32" "unat (of_nat (length d) :: u32) = length d"
    using cl(1) small by (simp_all add: unat_of_nat d_def)
  have rp: "msg_of (reply_fcall ?q3) = Some (MRread d)" "fcall_ok (reply_fcall ?q3)"
    using t len by (simp_all add: reply_fcall_def msg_of_def fcall_ok_def zero_fcall_def)
  have "msg_size (MRread d) \<le> unat (sv_msize s)" using cl(1) srv_readyD(6) [OF r(1)] by (simp add: msg_size_def d_def)
  from fid_end [where a = a and fb = "held f", OF r rec g sv _ _ _ fin _ _ _ _ _ _ _ _ _ _ rp(2,1) this no_destroy fuel]
  show ?thesis using q t s1 fid by (auto simp: fresh_req_def has_fid_def d_def fun_upd_idem)
qed

lemma write_answered:
  assumes r: "srv_ready s" "tag_free tag s" and f: "file_fid content ok {OWRITE, ORDWR} fid a f x c s"
    and lim: "0 \<le> sint off" "unat off \<le> length c" "unat off + length d < 2 ^ 31"
    and d: "d \<noteq> []" "msg_size (MTwrite fid off d) \<le> unat (sv_msize s)" and fuel: "3 \<le> fuel"
  defines "n \<equiv> min (length d) (unat (sv_msize s) - 24)"
  shows "\<exists>s'. srv_loop fuel h (encode tag (MTwrite fid off d) @ rest) s = srv_loop fuel h rest s'
    \<and> replied s [encode tag (MRwrite (of_nat n))] s' \<and> sv_fids s' = sv_fids s \<and> sv_fpool s' = sv_fpool s
    \<and> content (sv_fs s') (sv_aux s') = (content (sv_fs s) (sv_aux s))(x \<mapsto> overwrite (unat off) (take n d) c)
    \<and> ok (sv_fs s') (sv_aux s') \<and> (\<forall>ext. fs_ok ext (sv_fs s) \<longrightarrow> fs_ok ext (sv_fs s')) \<and> sv_msize s' = sv_msize s"
proof -
  let ?r = "sv_next s" and ?m = "MTwrite fid off d"
  have "wf_msg ?m" using lim(3) by (simp add: wf_msg_def msg_size_def)
  then obtain q s1 where rec: "received tag ?m s q s1"
    and g: "getreq fuel h (encode tag ?m @ rest) s = Some (Some ?r, rest, s1)"
    using getreq_receives [OF r _ d(2)] by metis
  have fid: "has_fid fid a f s" using f by (simp add: file_fid_def)
  have s1: "sv_reqs s1 = (sv_reqs s)(?r \<mapsto> q)" "sv_fids s1 = sv_fids s" "sv_fs s1 = sv_fs s" "sv_aux s1 = sv_aux s" "sv_msize s1 = sv_msize s"
    and q: "msg_of (rq_ifcall q) = Some ?m" "fresh_req q" "rq_newfid q = None" "rq_afid q = None"
      "f_tag (rq_ifcall q) = tag" "rq_ofcall q = zero_fcall" "rq_error q = None" "fcall_ok (rq_ifcall q)"
    using rec by (simp_all add: received_def)
  have t: "f_type (rq_ifcall q) = Twrite" "f_offset (rq_ifcall q) = off" "take (unat (f_count (rq_ifcall q))) (f_data (rq_ifcall q)) = d"
    using q(1) by (auto simp: msg_of_def Let_def split: if_splits)
  then have c: "unat (f_count (rq_ifcall q)) = length d" "length d \<le> length (f_data (rq_ifcall q))"
    using q(8) by (auto simp: fcall_ok_def)
  then have cs: "0 \<le> sint (f_count (rq_ifcall q))" using lim(3) sint_small [of "f_count (rq_ifcall q)"] by simp
  have small: "unat (sv_msize s) < 2 ^ 31" using srv_readyD(5) [OF r(1)] by (simp add: buf_ok_def)
  define w where "w = clamp_count (sv_msize s) (f_count (rq_ifcall q))"
  have w: "unat w = n" "0 \<le> sint w"
    using clamp_count_le [OF srv_readyD(6) [OF r(1)] small cs] c(1) by (simp_all add: n_def w_def)
  have n: "0 < n" "n \<le> length d" using d(1) srv_readyD(6) [OF r(1)] by (auto simp: n_def)
  have tk: "take n (f_data (rq_ifcall q)) = take n d" using t(3) c n(2) by (metis take_take min.absorb1)
  let ?q1 = "q\<lparr>rq_fid := Some a, rq_ifcall := (rq_ifcall q)\<lparr>f_count := w\<rparr>\<rparr>"
  let ?s2 = "put_fid a (held f) s1"
  have "asks ?r x ?q1 (put_req ?r ?q1 ?s2)"
    using f t lim w(2) by (simp add: asks_def file_fid_def)
  then obtain wr t1 v where wr: "h_write h = Some wr" "wr ?r (put_req ?r ?q1 ?s2) = Some (Reply None, put_req ?r
      (?q1\<lparr>rq_ofcall := (rq_ofcall ?q1)\<lparr>f_count := w\<rparr>\<rparr>) (?s2\<lparr>sv_fs := t1, sv_aux := v\<rparr>))" "ok t1 v"
      "\<forall>ext. fs_ok ext (sv_fs s) \<longrightarrow> fs_ok ext t1"
      "content t1 v = (content (sv_fs s) (sv_aux s))(x \<mapsto> overwrite (unat off) (take n d) c)"
    using write_law [of "put_req ?r ?q1 ?s2" x c ?r ?q1] f s1 t lim w(1) n c tk by (auto simp: file_fid_def)
  let ?q2 = "?q1\<lparr>rq_ofcall := zero_fcall\<lparr>f_count := w\<rparr>\<rparr>"
  have "serve h ?r s1 = swrite h ?r s1" by (rule serve_write) (use s1(1) t(1) in simp_all)
  also have "\<dots> = Some (Reply None, put_req ?r ?q2 (?s2\<lparr>sv_fs := t1, sv_aux := v\<rparr>))"
    unfolding swrite_def fid_start [OF r(1) rec _ fid, simplified]
    using f t lim cs wr(1,2) q(6) s1(5) by (auto simp: file_fid_def upd_req_def Let_def w_def)
  finally have sv: "serve h ?r s1 = Some (Reply None, put_req ?r ?q2 (?s2\<lparr>sv_fs := t1, sv_aux := v\<rparr>))" .
  let ?q3 = "?q2\<lparr>rq_error := None\<rparr>"
  obtain y where y: "fs_files t1 x = Some y" using content_file [of t1 v x] wr(5) by auto
  let ?t = "put_file x (y\<lparr>fl_dir := (fl_dir y)\<lparr>d_qid := (d_qid (fl_dir y))\<lparr>q_vers := q_vers (d_qid (fl_dir y)) + 1\<rparr>\<rparr>\<rparr>) t1"
  have fin: "finish h ?r None (put_req ?r ?q3 (?s2\<lparr>sv_fs := t1, sv_aux := v\<rparr>)) = Some (put_req ?r ?q3 (?s2\<lparr>sv_fs := ?t, sv_aux := v\<rparr>))"
    using t f y by (simp add: finish_def rwrite_def file_fid_def in_fs_def Let_def)
  have fs: "fs_ok ext (sv_fs s) \<longrightarrow> fs_ok ext ?t" for ext
    using wr(4) fs_ok_meta [OF _ y] by (simp add: meta_same_def)
  have rp: "msg_of (reply_fcall ?q3) = Some (MRwrite w)" "fcall_ok (reply_fcall ?q3)"
    using t by (simp_all add: reply_fcall_def msg_of_def fcall_ok_def zero_fcall_def)
  have "msg_size (MRwrite w) \<le> unat (sv_msize s)" using srv_readyD(6) [OF r(1)] by (simp add: msg_size_def)
  moreover have "w = of_nat n" using w(1) by (metis of_nat_unat ucast_id)
  ultimately show ?thesis
    using fid_end [where a = a and fb = "held f", OF r rec g sv _ _ _ fin _ _ _ _ _ _ _ _ _ _ rp(2,1) _ no_destroy fuel]
      q t s1 fid content_dir [OF y] ok_dir [OF y wr(3)] wr(5) fs by (auto simp: fresh_req_def has_fid_def fun_upd_idem)
qed

text \<open>What was written is what is read.\<close>

lemma write_read:
  assumes r: "srv_ready s" "tag_free tag s" "tag_free tag' s" and f: "file_fid content ok {ORDWR} fid a f x c s"
    and lim: "0 \<le> sint off" "unat off \<le> length c" "unat off + length d < 2 ^ 31"
    and d: "d \<noteq> []" "length d \<le> unat (sv_msize s) - 24" and fuel: "3 \<le> fuel"
  shows "\<exists>s'. srv_loop fuel h (encode tag (MTwrite fid off d) @ encode tag' (MTread fid off (of_nat (length d))) @ rest) s
      = srv_loop fuel h rest s'
    \<and> replied s [encode tag (MRwrite (of_nat (length d))), encode tag' (MRread d)] s'
    \<and> sv_fids s' = sv_fids s \<and> sv_fpool s' = sv_fpool s
    \<and> content (sv_fs s') (sv_aux s') = (content (sv_fs s) (sv_aux s))(x \<mapsto> overwrite (unat off) d c)
    \<and> (\<forall>ext. fs_ok ext (sv_fs s) \<longrightarrow> fs_ok ext (sv_fs s'))"
proof -
  have m: "64 \<le> unat (sv_msize s)" by (rule srv_readyD(6) [OF r(1)])
  have f1: "file_fid content ok {OWRITE, ORDWR} fid a f x c s" using f by (simp add: file_fid_def)
  have "msg_size (MTwrite fid off d) \<le> unat (sv_msize s)" using d(2) m by (simp add: msg_size_def)
  from write_answered [OF r(1,2) f1 lim d(1) this fuel]
  obtain s1 where s1: "srv_loop fuel h (encode tag (MTwrite fid off d) @ encode tag' (MTread fid off (of_nat (length d))) @ rest) s
      = srv_loop fuel h (encode tag' (MTread fid off (of_nat (length d))) @ rest) s1"
    "replied s [encode tag (MRwrite (of_nat (length d)))] s1" "sv_fids s1 = sv_fids s" "sv_fpool s1 = sv_fpool s"
    "content (sv_fs s1) (sv_aux s1) = (content (sv_fs s) (sv_aux s))(x \<mapsto> overwrite (unat off) d c)"
    "ok (sv_fs s1) (sv_aux s1)" "sv_msize s1 = sv_msize s" "\<forall>ext. fs_ok ext (sv_fs s) \<longrightarrow> fs_ok ext (sv_fs s1)"
    using d(2) by (auto simp: min_absorb1)
  have r1: "srv_ready s1" "tag_free tag' s1" using s1(2) r(3) by (simp_all add: replied_def tag_free_def)
  have f2: "file_fid content ok {OREAD, ORDWR, OEXEC} fid a f x (overwrite (unat off) d c) s1"
    using f s1 by (simp add: file_fid_def has_fid_def)
  have u: "unat (of_nat (length d) :: u32) = length d" using lim(3) by (simp add: unat_of_nat)
  then have c: "0 \<le> sint (of_nat (length d) :: u32)" using lim(3) sint_small [of "of_nat (length d)"] by simp
  have "unat (sv_msize s) < 2 ^ 31" using srv_readyD(5) [OF r(1)] by (simp add: buf_ok_def)
  then have "unat (clamp_count (sv_msize s1) (of_nat (length d))) = length d"
    using clamp_count_le(3) [OF m _ c] u d(2) s1(7) by simp
  moreover have "take (length d) (drop (unat off) (overwrite (unat off) d c)) = d" using lim(2) by (simp add: overwrite_def)
  ultimately obtain s2 where s2: "srv_loop fuel h (encode tag' (MTread fid off (of_nat (length d))) @ rest) s1 = srv_loop fuel h rest s2"
    "replied s1 [encode tag' (MRread d)] s2" "sv_fids s2 = sv_fids s1" "sv_fpool s2 = sv_fpool s1" "sv_fs s2 = sv_fs s1" "sv_aux s2 = sv_aux s1"
    using read_answered [OF r1 f2 lim(1) c fuel, of rest] by auto
  show ?thesis using s1 s2 by (intro exI [of _ s2]) (simp add: replied_def)
qed

end

section \<open>Attach\<close>

lemma allocfid_new:
  assumes ok: "intmap_ok (sv_fpool s)" and new: "intmap_abs (sv_fpool s) fid = None"
  shows "\<exists>fp. allocfid h fid s = Some (Some (sv_next s), put_fid (sv_next s) (zero_fid\<lparr>fd_fid := fid, fd_omode := - 1, fd_ref := 2\<rparr>)
      (s\<lparr>sv_next := sv_next s + 1, sv_fpool := fp\<rparr>))
    \<and> intmap_ok fp \<and> intmap_abs fp = (intmap_abs (sv_fpool s))(fid \<mapsto> sv_next s) \<and> inc fp = inc (sv_fpool s)"
proof -
  obtain fp where c: "caninsertkey (sv_fpool s) fid (sv_next s) = (True, fp)"
    using caninsertkey_refines(1) [OF ok, of fid "sv_next s"] new by (cases "caninsertkey (sv_fpool s) fid (sv_next s)") simp
  then have "intmap_ok fp" "intmap_abs fp = (intmap_abs (sv_fpool s))(fid \<mapsto> sv_next s)" "inc fp = inc (sv_fpool s)"
    using caninsertkey_refines(2,3) [OF ok, of fid "sv_next s"] inc_kept(2) [of "sv_fpool s" fid "sv_next s"] new by simp_all
  moreover have "allocfid h fid s = Some (Some (sv_next s), put_fid (sv_next s) (zero_fid\<lparr>fd_fid := fid, fd_omode := - 1, fd_ref := 2\<rparr>)
      (s\<lparr>sv_next := sv_next s + 1, sv_fpool := fp\<rparr>))"
    unfolding allocfid_def Let_def put_fid_incfidref using c by (simp add: zero_fid_def put_fid_def)
  ultimately show ?thesis by blast
qed

lemma attach_answered:
  assumes r: "srv_ready s" "tag_free tag s" and fid: "intmap_abs (sv_fpool s) fid = None"
    and root: "sv_tree s" "fs_files (sv_fs s) (fs_root (sv_fs s)) = Some g" and h: "h_attach h = None" "h_destroyreq h = None"
    and m: "wf_msg (MTattach fid NOFID uname aname)" "msg_size (MTattach fid NOFID uname aname) \<le> unat (sv_msize s)" and fuel: "3 \<le> fuel"
  shows "\<exists>s' a f. srv_loop fuel h (encode tag (MTattach fid NOFID uname aname) @ rest) s = srv_loop fuel h rest s'
    \<and> replied s [encode tag (MRattach (d_qid (fl_dir g)))] s'
    \<and> f = zero_fid\<lparr>fd_fid := fid, fd_omode := - 1, fd_uid := Some uname, fd_file := Some (fs_root (sv_fs s)), fd_qid := d_qid (fl_dir g), fd_ref := 1\<rparr>
    \<and> sv_fids s a = None \<and> sv_fids s' = (sv_fids s)(a \<mapsto> f) \<and> intmap_abs (sv_fpool s') = (intmap_abs (sv_fpool s))(fid \<mapsto> a)
    \<and> sv_fs s' = put_file (fs_root (sv_fs s)) (g\<lparr>fl_ref := fl_ref g + 1\<rparr>) (sv_fs s) \<and> sv_aux s' = sv_aux s \<and> sv_msize s' = sv_msize s"
proof -
  let ?r = "sv_next s" and ?m = "MTattach fid NOFID uname aname" and ?x = "fs_root (sv_fs s)" and ?a = "sv_next s + 1"
  obtain q s1 where rec: "received tag ?m s q s1"
    and g: "getreq fuel h (encode tag ?m @ rest) s = Some (Some ?r, rest, s1)"
    using getreq_receives [OF r m(1,2)] by metis
  have s1: "sv_reqs s1 = (sv_reqs s)(?r \<mapsto> q)" "sv_fids s1 = sv_fids s" "sv_fs s1 = sv_fs s" "sv_aux s1 = sv_aux s" "sv_msize s1 = sv_msize s"
      "sv_next s1 = ?a" "sv_fpool s1 = sv_fpool s" "sv_tree s1 = sv_tree s"
    and q: "msg_of (rq_ifcall q) = Some ?m" "fresh_req q" "rq_newfid q = None" "rq_afid q = None"
      "f_tag (rq_ifcall q) = tag" "rq_ofcall q = zero_fcall" "rq_error q = None" "strs_set (rq_ifcall q)"
    using rec by (simp_all add: received_def)
  have t: "f_type (rq_ifcall q) = Tattach" "f_fid (rq_ifcall q) = fid" "f_afid (rq_ifcall q) = NOFID" "str_of (f_uname (rq_ifcall q)) = uname"
    using q(1) by (auto simp: msg_of_def Let_def split: if_splits)
  then have nm: "f_uname (rq_ifcall q) = Some uname" using q(8) by (auto simp: strs_set_def str_of_def split: option.splits)
  obtain fp where fp: "allocfid h fid s1 = Some (Some ?a, put_fid ?a (zero_fid\<lparr>fd_fid := fid, fd_omode := - 1, fd_ref := 2\<rparr>)
      (s1\<lparr>sv_next := ?a + 1, sv_fpool := fp\<rparr>))" "intmap_ok fp" "intmap_abs fp = (intmap_abs (sv_fpool s))(fid \<mapsto> ?a)" "inc fp = incfidref"
    using allocfid_new [of s1 fid h] srv_readyD(1,3) [OF r(1)] fid s1 by auto
  let ?t = "put_file ?x (g\<lparr>fl_ref := fl_ref g + 1\<rparr>) (sv_fs s)" and ?qid = "d_qid (fl_dir g)"
  let ?f = "zero_fid\<lparr>fd_fid := fid, fd_omode := - 1, fd_ref := 2, fd_uid := Some uname, fd_file := Some ?x, fd_qid := ?qid\<rparr>"
  let ?q2 = "q\<lparr>rq_fid := Some ?a, rq_afid := None, rq_ofcall := zero_fcall\<lparr>f_qid := ?qid\<rparr>\<rparr>"
  let ?s3 = "put_fid ?a ?f (s1\<lparr>sv_next := ?a + 1, sv_fpool := fp, sv_fs := ?t\<rparr>)"
  have "serve h ?r s1 = sattach h ?r s1" using s1(1) t(1) by (simp add: serve_def)
  also have "\<dots> = Some (Reply None, put_req ?r ?q2 ?s3)"
    using s1 t nm fp(1) root h q(4,6)
    by (simp add: sattach_def upd_req_def upd_fid_def in_fs_def incref_file_def Let_def put_fid_def put_req_def zero_fcall_def)
  finally have sv: "serve h ?r s1 = Some (Reply None, put_req ?r ?q2 ?s3)" .
  let ?q3 = "?q2\<lparr>rq_error := None\<rparr>"
  have fin: "finish h ?r None (put_req ?r ?q3 ?s3) = Some (put_req ?r ?q3 ?s3)"
    using t by (simp add: finish_def rattach_def)
  have rp: "msg_of (reply_fcall ?q3) = Some (MRattach ?qid)" "fcall_ok (reply_fcall ?q3)"
    using t by (simp_all add: reply_fcall_def msg_of_def fcall_ok_def zero_fcall_def)
  have sz: "msg_size (MRattach ?qid) \<le> unat (sv_msize s)" using srv_readyD(6) [OF r(1)] by (simp add: msg_size_def)
  have new: "sv_fids s x = None" if "?r \<le> x" for x using srv_readyD(8) [OF r(1) that] .
  let ?fids = "(sv_fids s)(?a \<mapsto> ?f\<lparr>fd_ref := 1\<rparr>)"
  have cl: "close_opt h (rq_fid ?q3) (answered ?r (?q3\<lparr>rq_ofcall := reply_fcall ?q3\<rparr>) w (encode tag (MRattach ?qid)) ?s3)
      = Some ((answered ?r (?q3\<lparr>rq_ofcall := reply_fcall ?q3\<rparr>) w (encode tag (MRattach ?qid)) ?s3)\<lparr>sv_fids := ?fids, sv_fs := ?t\<rparr>)" for w
    using closefid_more [of "answered ?r (?q3\<lparr>rq_ofcall := reply_fcall ?q3\<rparr>) w (encode tag (MRattach ?qid)) ?s3" ?a ?f h] s1(2)
    by (simp add: answered_def close_opt_def put_fid_def put_req_def)
  obtain s' where "srv_loop fuel h (encode tag ?m @ rest) s = srv_loop fuel h rest s'" "replied s [encode tag (MRattach ?qid)] s'"
    "sv_fids s' = ?fids" "sv_fpool s' = fp" "sv_fs s' = ?t" "sv_aux s' = sv_aux s" "sv_msize s' = sv_msize s"
    using fid_end_gen [OF r rec g sv _ _ _ fin _ _ _ _ _ _ _ _ _ rp(2,1) sz cl _ _ _ _ h(2) fuel] q t s1 fp new
    by (auto simp: fresh_req_def)
  then show ?thesis using fp(3) new [of ?a] by (intro exI [of _ s'] exI [of _ ?a]) simp
qed

end
