(* ===== verification/Ramfs.thy ===== *)
theory Ramfs
  imports SrvFiles
begin

text \<open>
  A server program: \<^verbatim>\<open>lib9p/ramfs.c\<close>, files in memory, and \<^verbatim>\<open>lib9p/util.c\<close>.  The program's own state is a
  store of \<open>Ramfile\<close>s, the \<open>aux\<close> of a file is the address of its \<open>Ramfile\<close> and 0 for nil.  The bytes of
  memory fresh from \<open>realloc\<close> are arbitrary, \<open>rm_junk\<close>.  That \<open>fsdestroyfile\<close> frees a \<open>Ramfile\<close> is not represented: addresses
  are not used twice.
\<close>

section \<open>Memory\<close>

text \<open>What a pointer to allocated memory can be: nil, an area, or an area that has been freed.\<close>

datatype area = NilPtr | Area block | Freed

text \<open>\<open>realloc\<close> returns the new pointer, \<^const>\<open>None\<close> for nil, and what the old pointer is from then on.\<close>

definition realloc :: "(nat \<Rightarrow> byte) \<Rightarrow> area \<Rightarrow> nat \<Rightarrow> (block option \<times> area) option" where
  "realloc junk v sz = (case v of
     Freed \<Rightarrow> None
   | NilPtr \<Rightarrow> Some (if sz = 0 then (None, NilPtr) else (Some (map junk [0..<sz]), NilPtr))
   | Area b \<Rightarrow> Some (if sz = 0 then (None, Freed) else (Some (take sz b @ map junk [length b..<sz]), Freed)))"

definition area_read :: "area \<Rightarrow> nat \<Rightarrow> nat \<Rightarrow> block option" where
  "area_read v p n = (case v of Area b \<Rightarrow> mread b p n | _ \<Rightarrow> if n = 0 then Some [] else None)"

definition area_write :: "area \<Rightarrow> nat \<Rightarrow> block \<Rightarrow> area option" where
  "area_write v p d = (case v of Area b \<Rightarrow> map_option Area (mwrite b p d) | _ \<Rightarrow> if d = [] then Some v else None)"

section \<open>The file server\<close>

record Ramfile =
  rf_data :: area
  rf_ndata :: int

record ramfs =
  rm_files :: "nat \<Rightarrow> Ramfile option"
  rm_next :: nat
  rm_junk :: "nat \<Rightarrow> byte"

definition Ebad :: cstr where "Ebad = ascii ''something bad happened''"
definition Enomem :: cstr where "Enomem = ascii ''no memory''"

text \<open>\<open>r->fid->file\<close>, and \<open>r->fid->file->aux\<close>.\<close>

definition req_file :: "addr \<Rightarrow> 'x Srv \<Rightarrow> (addr \<times> File) option" where
  "req_file r s = do {
     q \<leftarrow> sv_reqs s r;
     a \<leftarrow> rq_fid q;
     f \<leftarrow> sv_fids s a;
     x \<leftarrow> fd_file f;
     y \<leftarrow> fs_files (sv_fs s) x;
     Some (x, y)
   }"

definition fsread :: "ramfs callback" where
  "fsread r s = do {
     (x, y) \<leftarrow> req_file r s;
     rf \<leftarrow> rm_files (sv_aux s) (fl_aux y);
     q \<leftarrow> sv_reqs s r;
     let offset = f_offset (rq_ifcall q);
     let count = sint (f_count (rq_ifcall q));
     if sint offset \<ge> rf_ndata rf then do {
       s \<leftarrow> upd_req r (\<lambda>q. q\<lparr>rq_ofcall := (rq_ofcall q)\<lparr>f_count := 0\<rparr>\<rparr>) s;
       succeeds s
     } else do {
       let count = (if sint (offset + of_int count) \<ge> rf_ndata rf then rf_ndata rf - sint offset else count);
       if count < 0 then None
       else do {
         d \<leftarrow> area_read (rf_data rf) (unat (ucast offset :: u32)) (nat count);
         buf \<leftarrow> mwrite (f_data (rq_ofcall q)) 0 d;
         s \<leftarrow> upd_req r (\<lambda>q. q\<lparr>rq_ofcall := (rq_ofcall q)\<lparr>f_count := of_int count, f_data := buf\<rparr>\<rparr>) s;
         succeeds s
       }
     }
   }"

definition put_ramfile :: "nat \<Rightarrow> Ramfile \<Rightarrow> ramfs Srv \<Rightarrow> ramfs Srv" where
  "put_ramfile k rf s = s\<lparr>sv_aux := (sv_aux s)\<lparr>rm_files := (rm_files (sv_aux s))(k \<mapsto> rf)\<rparr>\<rparr>"

definition set_length :: "addr \<Rightarrow> int \<Rightarrow> 'x Srv \<Rightarrow> 'x Srv option" where
  "set_length x n s = do {
     y \<leftarrow> fs_files (sv_fs s) x;
     Some (s\<lparr>sv_fs := put_file x (y\<lparr>fl_dir := (fl_dir y)\<lparr>d_length := of_int n\<rparr>\<rparr>) (sv_fs s)\<rparr>)
   }"

text \<open>The file is to end at \<open>end\<close>; the result says whether there was no memory.\<close>

definition fswrite_grow :: "addr \<Rightarrow> nat \<Rightarrow> Ramfile \<Rightarrow> int \<Rightarrow> ramfs Srv \<Rightarrow> (bool \<times> ramfs Srv) option" where
  "fswrite_grow x k rf end' s = do {
     (v, old) \<leftarrow> realloc (rm_junk (sv_aux s)) (rf_data rf) (unat (of_int end' :: u32));
     (case v of
        None \<Rightarrow> Some (True, put_ramfile k (rf\<lparr>rf_data := old\<rparr>) s)
      | Some b \<Rightarrow> do {
          let n = sint (of_int end' :: u32);
          s \<leftarrow> set_length x n (put_ramfile k \<lparr>rf_data = Area b, rf_ndata = n\<rparr> s);
          Some (False, s)
        })
   }"

definition fswrite :: "ramfs callback" where
  "fswrite r s = do {
     (x, y) \<leftarrow> req_file r s;
     rf \<leftarrow> rm_files (sv_aux s) (fl_aux y);
     q \<leftarrow> sv_reqs s r;
     let offset = f_offset (rq_ifcall q);
     let count = sint (f_count (rq_ifcall q));
     let end' = sint (offset + of_int count);
     (nomem, s) \<leftarrow> (if end' \<ge> rf_ndata rf then fswrite_grow x (fl_aux y) rf end' s else Some (False, s));
     if nomem then fails Enomem s
     else if count < 0 then None
     else do {
       rf \<leftarrow> rm_files (sv_aux s) (fl_aux y);
       d \<leftarrow> mread (f_data (rq_ifcall q)) 0 (nat count);
       v \<leftarrow> area_write (rf_data rf) (unat (ucast offset :: u32)) d;
       let s = put_ramfile (fl_aux y) (rf\<lparr>rf_data := v\<rparr>) s;
       s \<leftarrow> upd_req r (\<lambda>q. q\<lparr>rq_ofcall := (rq_ofcall q)\<lparr>f_count := of_int count\<rparr>\<rparr>) s;
       succeeds s
     }
   }"

definition fscreate :: "ramfs callback" where
  "fscreate r s = do {
     q \<leftarrow> sv_reqs s r;
     a \<leftarrow> rq_fid q;
     f \<leftarrow> sv_fids s a;
     x \<leftarrow> fd_file f;
     name \<leftarrow> f_name (rq_ifcall q);
     (new, t) \<leftarrow> createfile x name (fd_uid f) (f_perm (rq_ifcall q)) 0 (sv_fs s);
     let s = s\<lparr>sv_fs := t\<rparr>;
     (case new of
        None \<Rightarrow> fails Ebad s
      | Some n \<Rightarrow> do {
          let k = rm_next (sv_aux s);
          let s = put_ramfile k \<lparr>rf_data = NilPtr, rf_ndata = 0\<rparr> (s\<lparr>sv_aux := (sv_aux s)\<lparr>rm_next := k + 1\<rparr>\<rparr>);
          y \<leftarrow> fs_files (sv_fs s) n;
          let s = s\<lparr>sv_fs := put_file n (y\<lparr>fl_aux := k\<rparr>) (sv_fs s)\<rparr>;
          s \<leftarrow> upd_fid a (\<lambda>f. f\<lparr>fd_file := Some n\<rparr>) s;
          s \<leftarrow> upd_req r (\<lambda>q. q\<lparr>rq_ofcall := (rq_ofcall q)\<lparr>f_qid := d_qid (fl_dir y)\<rparr>\<rparr>) s;
          succeeds s
        })
   }"

definition fsopen :: "ramfs callback" where
  "fsopen r s = do {
     (x, y) \<leftarrow> req_file r s;
     q \<leftarrow> sv_reqs s r;
     (case (if fl_aux y = 0 then None else rm_files (sv_aux s) (fl_aux y)) of
        None \<Rightarrow> succeeds s
      | Some rf \<Rightarrow>
          if f_mode (rq_ifcall q) AND OTRUNC \<noteq> 0 then do {
            s \<leftarrow> set_length x 0 (put_ramfile (fl_aux y) (rf\<lparr>rf_ndata := 0\<rparr>) s);
            succeeds s
          } else succeeds s)
   }"

definition ramfs_fs :: "(string \<Rightarrow> fmtarg list \<Rightarrow> cstr) \<Rightarrow> cstr \<Rightarrow> ramfs Handlers" where
  "ramfs_fs snprint argv0 = \<lparr>h_attach = None, h_auth = None, h_open = Some fsopen, h_create = Some fscreate, h_read = Some fsread,
     h_write = Some fswrite, h_remove = None, h_flush = None, h_stat = None, h_wstat = None, h_walk = None, h_clone = None,
     h_walk1 = None, h_destroyfid = None, h_destroyreq = None, h_end = None, h_snprint = snprint, h_argv0 = argv0\<rparr>"

text \<open>\<open>main\<close> up to the start of the service.\<close>

definition ramfs_start :: "(nat \<Rightarrow> byte) \<Rightarrow> cstr option \<Rightarrow> u32 \<Rightarrow> ramfs Srv option" where
  "ramfs_start junk user now = do {
     t \<leftarrow> alloctree None None (DMDIR OR 0x1FF) user now;
     Some \<lparr>sv_tree = True, sv_fs = t, sv_fids = Map.empty, sv_reqs = Map.empty, sv_next = 0,
       sv_fpool = allocfidpool, sv_rpool = allocreqpool, sv_msize = 0, sv_rbuf = None, sv_wbuf = None, sv_out = [],
       sv_aux = \<lparr>rm_files = Map.empty, rm_next = 1, rm_junk = junk\<rparr>\<rparr>
   }"

section \<open>Buffers as files\<close>

text \<open>\<open>readbuf\<close> and \<open>readstr\<close> of \<^verbatim>\<open>util.c\<close>, on the block \<open>b\<close> at \<open>s\<close>.\<close>

definition readbuf :: "block \<Rightarrow> int \<Rightarrow> Req \<Rightarrow> Req option" where
  "readbuf b n q = (let offset = sint (f_offset (rq_ifcall q)); count = uint (f_count (rq_ifcall q)) in
     if offset \<ge> n then Some (q\<lparr>rq_ofcall := (rq_ofcall q)\<lparr>f_count := 0\<rparr>\<rparr>)
     else do {
       let count = (if sint (f_offset (rq_ifcall q) + of_int count) > n then (of_int (n - offset) :: u32) else of_int count);
       d \<leftarrow> mread b (unat (ucast (f_offset (rq_ifcall q)) :: u32)) (unat count);
       buf \<leftarrow> mwrite (f_data (rq_ofcall q)) 0 d;
       Some (q\<lparr>rq_ofcall := (rq_ofcall q)\<lparr>f_count := count, f_data := buf\<rparr>\<rparr>)
     })"

definition readstr :: "block \<Rightarrow> Req \<Rightarrow> Req option" where
  "readstr s q = readbuf (s @ [0]) (int (length s)) q"

section \<open>What the server promises\<close>

text \<open>The bytes of a file.\<close>

definition ram_bytes :: "Ramfile \<Rightarrow> block option" where
  "ram_bytes rf = (case rf_data rf of
     NilPtr \<Rightarrow> if rf_ndata rf = 0 then Some [] else None
   | Area b \<Rightarrow> if 0 \<le> rf_ndata rf \<and> rf_ndata rf \<le> int (length b) \<and> rf_ndata rf < 2 ^ 31 then Some (take (nat (rf_ndata rf)) b) else None
   | Freed \<Rightarrow> None)"

definition ram_content :: "fs \<Rightarrow> ramfs \<Rightarrow> addr \<Rightarrow> block option" where
  "ram_content t v x = do {
     y \<leftarrow> fs_files t x;
     rf \<leftarrow> rm_files v (fl_aux y);
     ram_bytes rf
   }"

text \<open>No two files share a \<open>Ramfile\<close>.\<close>

definition ram_ok :: "fs \<Rightarrow> ramfs \<Rightarrow> bool" where
  "ram_ok t v \<longleftrightarrow> (\<forall>x x' y y'. fs_files t x = Some y \<longrightarrow> fs_files t x' = Some y' \<longrightarrow> fl_aux y = fl_aux y'
      \<longrightarrow> rm_files v (fl_aux y) \<noteq> None \<longrightarrow> x = x') \<and> rm_files v 0 = None \<and> (\<forall>k. rm_next v \<le> k \<longrightarrow> rm_files v k = None)
    \<and> (\<forall>x y. fs_files t x = Some y \<longrightarrow> fl_aux y < rm_next v)"

lemma ram_bytes_ndata: "ram_bytes rf = Some c \<Longrightarrow> rf_ndata rf = int (length c) \<and> length c < 2 ^ 31"
  by (cases "rf_data rf") (auto simp: ram_bytes_def split: if_splits)

lemma req_file_asks:
  assumes "asks r x q s" and "fs_files (sv_fs s) x = Some y"
  shows "req_file r s = Some (x, y)" "sv_reqs s r = Some q"
  using assms by (auto simp: req_file_def asks_def)

lemma area_read_content:
  assumes "ram_bytes rf = Some c" and "p + n \<le> length c"
  shows "area_read (rf_data rf) p n = Some (take n (drop p c))"
  using assms by (cases "rf_data rf") (auto simp: ram_bytes_def area_read_def mread_def drop_take split: if_splits)

lemma unat_sint_64: "0 \<le> sint (x :: u64) \<Longrightarrow> sint x = int (unat x)"
proof -
  assume "0 \<le> sint x"
  then have "take_bit 64 (sint x) = sint x"
    using sint_lt [of x] by (simp add: take_bit_int_eq_self)
  then show ?thesis by (simp add: uint_sint)
qed

lemma unat_sint_32: "0 \<le> sint (x :: u32) \<Longrightarrow> sint x = int (unat x)"
proof -
  assume "0 \<le> sint x"
  then have "take_bit 32 (sint x) = sint x"
    using sint_lt [of x] by (simp add: take_bit_int_eq_self)
  then show ?thesis by (simp add: uint_sint)
qed

lemma unat_pos_32: "0 \<le> sint (x :: u32) \<Longrightarrow> unat x < 2 ^ 31"
proof -
  assume "0 \<le> sint x"
  then have "int (unat x) < int (2 ^ 31)" using unat_sint_32 [of x] sint_lt [of x] by simp
  then show ?thesis by (simp only: of_nat_less_iff)
qed

lemma sint_add_64:
  assumes "unat (x :: u64) + n < 2 ^ 63"
  shows "sint (x + of_int (int n)) = int (unat x + n)"
proof -
  have "unat (x + of_nat n) = unat x + n" using assms by (simp add: unat_word_ariths unat_of_nat)
  moreover have "int (unat x + n) < 2 ^ 63"
    using assms of_nat_less_iff [of "unat x + n" "2 ^ 63", where 'a = int] by simp
  moreover have "uint (x + of_nat n) = int (unat (x + of_nat n))" by simp
  ultimately have "uint (x + of_nat n) = int (unat x + n)" "uint (x + of_nat n) < 2 ^ 63" by (simp_all only:)
  moreover have "- 9223372036854775808 \<le> uint x + int n" using uint_nonnegative [of x] by linarith
  ultimately show ?thesis by (simp add: sint_uint signed_take_bit_int_eq_self)
qed

lemma ucast_offset: "unat (x :: u64) < 2 ^ 32 \<Longrightarrow> unat (ucast x :: u32) = unat x"
  by (simp add: unsigned_ucast_eq take_bit_nat_eq_self)

lemma fcall_data_self: "f\<lparr>f_count := n, f_data := f_data f\<rparr> = f\<lparr>f_count := n\<rparr>" for f :: Fcall
  by (cases f) simp

lemma clip_count:
  "off < len \<Longrightarrow> (if int (off + cnt) \<ge> int len then int len - int off else int cnt) = int (min cnt (len - off))"
  by (auto simp: min_def)

lemma fsread_step:
  assumes "req_file r s = Some (x, y)" and "rm_files (sv_aux s) (fl_aux y) = Some rf" and "sv_reqs s r = Some q"
    and "\<not> rf_ndata rf \<le> sint (f_offset (rq_ifcall q))"
    and "(if rf_ndata rf \<le> sint (f_offset (rq_ifcall q) + of_int (sint (f_count (rq_ifcall q))))
      then rf_ndata rf - sint (f_offset (rq_ifcall q)) else sint (f_count (rq_ifcall q))) = int k"
    and "area_read (rf_data rf) (unat (ucast (f_offset (rq_ifcall q)) :: u32)) k = Some d"
    and "mwrite (f_data (rq_ofcall q)) 0 d = Some buf"
  shows "fsread r s = Some (Reply None, put_req r (q\<lparr>rq_ofcall := (rq_ofcall q)\<lparr>f_count := of_nat k, f_data := buf\<rparr>\<rparr>) s)"
  unfolding fsread_def by (simp only: assms Option.bind.simps Let_def prod.case if_False) (simp add: assms upd_req_def)

lemma fsread_correct:
  assumes c: "ram_content (sv_fs s) (sv_aux s) x = Some c" and a: "asks r x q s"
    and len: "length (f_data (rq_ofcall q)) = unat (f_count (rq_ifcall q))"
  defines "d \<equiv> take (unat (f_count (rq_ifcall q))) (drop (unat (f_offset (rq_ifcall q))) c)"
  shows "\<exists>e. fsread r s = Some (Reply None, put_req r (q\<lparr>rq_ofcall := (rq_ofcall q)\<lparr>f_count := of_nat (length d), f_data := d @ e\<rparr>\<rparr>) s)"
proof -
  obtain y rf where y: "fs_files (sv_fs s) x = Some y" and rf: "rm_files (sv_aux s) (fl_aux y) = Some rf" "ram_bytes rf = Some c"
    using c by (auto simp: ram_content_def bind_Some_iff)
  note rq = req_file_asks [OF a y]
  note n = ram_bytes_ndata [OF rf(2)]
  let ?off = "unat (f_offset (rq_ifcall q))" and ?cnt = "unat (f_count (rq_ifcall q))"
  have o: "sint (f_offset (rq_ifcall q)) = int ?off" "sint (f_count (rq_ifcall q)) = int ?cnt" and cl: "?cnt < 2 ^ 31"
    using a unat_sint_64 unat_sint_32 unat_pos_32 by (auto simp: asks_def)
  show ?thesis
  proof (cases "length c \<le> ?off")
    case True
    then have "d = []" "rf_ndata rf \<le> sint (f_offset (rq_ifcall q))"
      unfolding o(1) conjunct1 [OF n] by (simp add: d_def, simp only: of_nat_le_iff)
    then show ?thesis
      using rq rf(1) by (intro exI [of _ "f_data (rq_ofcall q)"]) (simp add: fsread_def upd_req_def fcall_data_self)
  next
    case False
    have e: "sint (f_offset (rq_ifcall q) + of_int (int ?cnt)) = int (?off + ?cnt)"
      by (rule sint_add_64) (use False n cl in simp)
    let ?k = "min ?cnt (length c - ?off)"
    have k: "(if int (?off + ?cnt) \<ge> rf_ndata rf then rf_ndata rf - int ?off else int ?cnt) = int ?k"
      using clip_count [of ?off "length c" ?cnt] False unfolding conjunct1 [OF n] by (simp only: not_le)
    have d: "d = take ?k (drop ?off c)" "length d = ?k" by (auto simp: d_def min_def)
    have u: "unat (ucast (f_offset (rq_ifcall q)) :: u32) = ?off"
      by (rule ucast_offset) (use False n in simp)
    have rd: "area_read (rf_data rf) ?off ?k = Some d"
      unfolding d(1) by (rule area_read_content [OF rf(2)]) (use False in simp)
    have wr: "mwrite (f_data (rq_ofcall q)) 0 d = Some (d @ drop ?k (f_data (rq_ofcall q)))"
      using d(2) len by (simp add: mwrite_def)
    have "\<not> rf_ndata rf \<le> sint (f_offset (rq_ifcall q))"
      using False unfolding o(1) conjunct1 [OF n] by (simp only: of_nat_le_iff not_False_eq_True)
    from fsread_step [OF rq(1) rf(1) rq(2) this, unfolded o e u, OF k rd wr] show ?thesis
      using d(2) by (intro exI [of _ "drop ?k (f_data (rq_ofcall q))"]) (simp only:)
  qed
qed

lemma realloc_content:
  assumes "ram_bytes rf = Some c" and "length c \<le> n" and "0 < n"
  shows "\<exists>b old. realloc junk (rf_data rf) n = Some (Some b, old) \<and> length b = n \<and> take (length c) b = c"
  using assms by (cases "rf_data rf") (auto simp: realloc_def ram_bytes_def min_def split: if_splits)

lemma fswrite_step:
  assumes "req_file r s = Some (x, y)" and "rm_files (sv_aux s) (fl_aux y) = Some rf" and "sv_reqs s r = Some q"
    and "sint (f_count (rq_ifcall q)) = int k"
    and "(if rf_ndata rf \<le> sint (f_offset (rq_ifcall q) + of_int (int k))
      then fswrite_grow x (fl_aux y) rf (sint (f_offset (rq_ifcall q) + of_int (int k))) s else Some (False, s)) = Some (False, s1)"
    and "sv_reqs s1 = sv_reqs s" and "rm_files (sv_aux s1) (fl_aux y) = Some rf1"
    and "mread (f_data (rq_ifcall q)) 0 k = Some d"
    and "area_write (rf_data rf1) (unat (ucast (f_offset (rq_ifcall q)) :: u32)) d = Some v"
  shows "fswrite r s = Some (Reply None, put_req r (q\<lparr>rq_ofcall := (rq_ofcall q)\<lparr>f_count := of_nat k\<rparr>\<rparr>)
    (put_ramfile (fl_aux y) (rf1\<lparr>rf_data := v\<rparr>) s1))"
  unfolding fswrite_def using assms(3,6,7,8,9)
  by (simp only: assms(1-5) Option.bind.simps Let_def prod.case if_False) (simp add: upd_req_def put_ramfile_def assms(3))

lemma ram_bytes_whole:
  "length b = n \<Longrightarrow> n < 2 ^ 31 \<Longrightarrow> ram_bytes (\<lparr>rf_data = v, rf_ndata = int n\<rparr>\<lparr>rf_data := Area b\<rparr>) = Some b"
  by (simp add: ram_bytes_def)

lemma fswrite_state:
  assumes c: "ram_content (sv_fs s) (sv_aux s) x = Some c" and a: "asks r x q s"
    and lim: "unat (f_count (rq_ifcall q)) \<le> length (f_data (rq_ifcall q))" "0 < unat (f_count (rq_ifcall q))"
      "unat (f_offset (rq_ifcall q)) \<le> length c" "unat (f_offset (rq_ifcall q)) + unat (f_count (rq_ifcall q)) < 2 ^ 31"
    and y: "fs_files (sv_fs s) x = Some y"
  shows "\<exists>y' rf. fswrite r s = Some (Reply None, put_req r (q\<lparr>rq_ofcall := (rq_ofcall q)\<lparr>f_count := f_count (rq_ifcall q)\<rparr>\<rparr>)
      (put_ramfile (fl_aux y) rf (s\<lparr>sv_fs := put_file x y' (sv_fs s)\<rparr>)))
    \<and> fl_aux y' = fl_aux y \<and> meta_same y y' \<and> ram_bytes rf
        = Some (overwrite (unat (f_offset (rq_ifcall q))) (take (unat (f_count (rq_ifcall q))) (f_data (rq_ifcall q))) c)"
proof -
  obtain rf where rf: "rm_files (sv_aux s) (fl_aux y) = Some rf" "ram_bytes rf = Some c"
    using c y by (auto simp: ram_content_def bind_Some_iff)
  note rq = req_file_asks [OF a y]
  note n = ram_bytes_ndata [OF rf(2)]
  let ?off = "unat (f_offset (rq_ifcall q))" and ?cnt = "unat (f_count (rq_ifcall q))"
  let ?d = "take ?cnt (f_data (rq_ifcall q))" and ?k = "fl_aux y"
  have o: "sint (f_count (rq_ifcall q)) = int ?cnt" using a unat_sint_32 by (auto simp: asks_def)
  have e: "sint (f_offset (rq_ifcall q) + of_int (int ?cnt)) = int (?off + ?cnt)"
    by (rule sint_add_64) (use lim(4) in simp)
  have u: "unat (ucast (f_offset (rq_ifcall q)) :: u32) = ?off"
    by (rule ucast_offset) (use lim(4) in simp)
  have d: "mread (f_data (rq_ifcall q)) 0 ?cnt = Some ?d" "length ?d = ?cnt" using lim(1) by (simp_all add: mread_def)
  have cnt: "of_nat ?cnt = f_count (rq_ifcall q)" by simp
  show ?thesis
  proof (cases "length c \<le> ?off + ?cnt")
    case True
    have w: "unat (of_int (int (?off + ?cnt)) :: u32) = ?off + ?cnt" "sint (of_int (int (?off + ?cnt)) :: u32) = int (?off + ?cnt)"
      using lim(4) sint_small [of "of_nat (?off + ?cnt)"] by (simp_all add: unat_of_nat del: of_nat_add)
    obtain b old where b: "realloc (rm_junk (sv_aux s)) (rf_data rf) (?off + ?cnt) = Some (Some b, old)" "length b = ?off + ?cnt"
      "take (length c) b = c"
      using realloc_content [OF rf(2) True, of "rm_junk (sv_aux s)"] lim(2) by auto
    let ?y = "y\<lparr>fl_dir := (fl_dir y)\<lparr>d_length := of_int (int (?off + ?cnt))\<rparr>\<rparr>"
    let ?rf = "\<lparr>rf_data = Area b, rf_ndata = int (?off + ?cnt)\<rparr>"
    let ?s1 = "put_ramfile ?k ?rf (s\<lparr>sv_fs := put_file x ?y (sv_fs s)\<rparr>)"
    have g: "(if rf_ndata rf \<le> int (?off + ?cnt) then fswrite_grow x ?k rf (int (?off + ?cnt)) s else Some (False, s)) = Some (False, ?s1)"
      using True n b(1) w y by (simp add: fswrite_grow_def set_length_def put_ramfile_def del: of_nat_add)
    have "area_write (Area b) ?off ?d = Some (Area (take ?off b @ ?d))"
      using b(2) d(2) by (simp add: area_write_def mwrite_def)
    then have "fswrite r s = Some (Reply None, put_req r (q\<lparr>rq_ofcall := (rq_ofcall q)\<lparr>f_count := of_nat ?cnt\<rparr>\<rparr>)
        (put_ramfile ?k (?rf\<lparr>rf_data := Area (take ?off b @ ?d)\<rparr>) ?s1))"
      by (intro fswrite_step [OF rq(1) rf(1) rq(2) o, unfolded e u, OF g _ _ d(1)]) (simp_all add: put_ramfile_def)
    moreover have "put_ramfile ?k rf' ?s1 = put_ramfile ?k rf' (s\<lparr>sv_fs := put_file x ?y (sv_fs s)\<rparr>)" for rf'
      by (simp add: put_ramfile_def)
    moreover have "take ?off b = take ?off c" using b(3) lim(3) by (metis take_take min.absorb1)
    then have "take ?off b @ ?d = overwrite ?off ?d c" using d(2) True by (simp add: overwrite_def)
    moreover have "ram_bytes (?rf\<lparr>rf_data := Area (take ?off b @ ?d)\<rparr>) = Some (take ?off b @ ?d)"
      by (rule ram_bytes_whole) (use b(2) d(2) lim(4) in simp_all)
    ultimately show ?thesis
      unfolding cnt by (intro exI [of _ ?y] exI [of _ "?rf\<lparr>rf_data := Area (take ?off b @ ?d)\<rparr>"]) (simp add: meta_same_def)
  next
    case False
    then obtain b where b: "rf_data rf = Area b" "length c \<le> length b" "c = take (length c) b"
      using rf(2) by (cases "rf_data rf") (auto simp: ram_bytes_def min_def split: if_splits)
    let ?v = "Area (take ?off b @ ?d @ drop (?off + ?cnt) b)"
    have g: "(if rf_ndata rf \<le> int (?off + ?cnt) then fswrite_grow x ?k rf (int (?off + ?cnt)) s else Some (False, s)) = Some (False, s)"
      using False n by (simp del: of_nat_add)
    have "area_write (rf_data rf) ?off ?d = Some ?v"
      using b(1,2) False d(2) by (simp add: area_write_def mwrite_def)
    then have "fswrite r s = Some (Reply None, put_req r (q\<lparr>rq_ofcall := (rq_ofcall q)\<lparr>f_count := of_nat ?cnt\<rparr>\<rparr>)
        (put_ramfile ?k (rf\<lparr>rf_data := ?v\<rparr>) s))"
      by (intro fswrite_step [OF rq(1) rf(1) rq(2) o, unfolded e u, OF g _ rf(1) d(1)]) simp_all
    moreover have "s\<lparr>sv_fs := put_file x y (sv_fs s)\<rparr> = s" using y by (simp add: put_file_def fun_upd_idem)
    moreover have "take ?off b = take ?off c" "drop (?off + ?cnt) c = take (length c - (?off + ?cnt)) (drop (?off + ?cnt) b)"
      using b(3) lim(3) by (metis take_take min.absorb1, metis drop_take)
    then have "ram_bytes (rf\<lparr>rf_data := ?v\<rparr>) = Some (overwrite ?off ?d c)"
      using b(2) d(2) n False by (simp add: ram_bytes_def overwrite_def)
    ultimately show ?thesis
      unfolding cnt by (intro exI [of _ y] exI [of _ "rf\<lparr>rf_data := ?v\<rparr>"]) (simp add: meta_same_def)
  qed
qed

lemma ram_okD:
  assumes "ram_ok t v" and "fs_files t x = Some y"
  shows "fl_aux y < rm_next v"
    and "fs_files t x' = Some y' \<Longrightarrow> fl_aux y' = fl_aux y \<Longrightarrow> rm_files v (fl_aux y) \<noteq> None \<Longrightarrow> x' = x"
  using assms unfolding ram_ok_def by (blast, metis)

lemma ram_ok_aux:
  assumes "ram_ok t v" and "\<And>a w. fs_files t' a = Some w \<Longrightarrow> \<exists>w'. fs_files t a = Some w' \<and> fl_aux w' = fl_aux w"
  shows "ram_ok t' v"
  unfolding ram_ok_def
proof (intro conjI allI impI)
  fix x x' y y'
  assume "fs_files t' x = Some y" "fs_files t' x' = Some y'" "fl_aux y = fl_aux y'" "rm_files v (fl_aux y) \<noteq> None"
  then show "x = x'" using assms(2) [of x y] assms(2) [of x' y'] ram_okD(2) [OF assms(1)] by metis
next
  show "fl_aux y < rm_next v" if "fs_files t' x = Some y" for x y
    using assms(2) [OF that] ram_okD(1) [OF assms(1)] by metis
qed (use assms(1) in \<open>auto simp: ram_ok_def\<close>)

lemma ram_content_put:
  assumes ok: "ram_ok t v" and y: "fs_files t x = Some y" "rm_files v (fl_aux y) \<noteq> None" and y': "fl_aux y' = fl_aux y"
  shows "ram_content (put_file x y' t) (v\<lparr>rm_files := (rm_files v)(fl_aux y \<mapsto> rf)\<rparr>) = (ram_content t v)(x := ram_bytes rf)"
    and "ram_ok (put_file x y' t) (v\<lparr>rm_files := (rm_files v)(fl_aux y \<mapsto> rf)\<rparr>)"
proof -
  have other: "fl_aux z \<noteq> fl_aux y" if "fs_files t x' = Some z" "x' \<noteq> x" for x' z
    using ok y that unfolding ram_ok_def by metis
  show "ram_content (put_file x y' t) (v\<lparr>rm_files := (rm_files v)(fl_aux y \<mapsto> rf)\<rparr>) = (ram_content t v)(x := ram_bytes rf)"
  proof
    fix z
    show "ram_content (put_file x y' t) (v\<lparr>rm_files := (rm_files v)(fl_aux y \<mapsto> rf)\<rparr>) z = ((ram_content t v)(x := ram_bytes rf)) z"
      using other [of z] y' by (cases "fs_files t z") (auto simp: ram_content_def put_file_def)
  qed
  have z: "fl_aux y \<noteq> 0" "\<not> rm_next v \<le> fl_aux y" using ok y(2) unfolding ram_ok_def by metis+
  have up: "fl_aux z < rm_next v" if "fs_files t x' = Some z" for x' z using ok that unfolding ram_ok_def by metis
  show "ram_ok (put_file x y' t) (v\<lparr>rm_files := (rm_files v)(fl_aux y \<mapsto> rf)\<rparr>)"
    unfolding ram_ok_def
  proof (intro conjI allI impI)
    fix a b c d
    assume "fs_files (put_file x y' t) a = Some c" "fs_files (put_file x y' t) b = Some d" "fl_aux c = fl_aux d"
      "rm_files (v\<lparr>rm_files := (rm_files v)(fl_aux y \<mapsto> rf)\<rparr>) (fl_aux c) \<noteq> None"
    then show "a = b"
      using ok y y' other by (auto simp: put_file_def ram_ok_def split: if_splits)
  next
    show "fl_aux d < rm_next (v\<lparr>rm_files := (rm_files v)(fl_aux y \<mapsto> rf)\<rparr>)" if "fs_files (put_file x y' t) c = Some d" for c d
      using that y' y(1) up by (auto simp: put_file_def split: if_splits)
  qed (use ok z in \<open>auto simp: ram_ok_def\<close>)
qed

interpretation rm: file_store "ramfs_fs snprint argv0" ram_content ram_ok
proof
  show "h_destroyreq (ramfs_fs snprint argv0) = None" by (simp add: ramfs_fs_def)
next
  show "fs_files t x \<noteq> None" if "ram_content t v x = Some c" for t v x c
    using that by (auto simp: ram_content_def bind_Some_iff)
next
  show "ram_content (put_file x (y\<lparr>fl_dir := d\<rparr>) t) v = ram_content t v" if "fs_files t x = Some y" for t x y d v
    using that by (auto simp: ram_content_def put_file_def)
next
  show "ram_ok (put_file x (y\<lparr>fl_dir := d\<rparr>) t) v" if "fs_files t x = Some y" "ram_ok t v" for t x y d v
    by (rule ram_ok_aux [OF that(2)]) (use that(1) in \<open>auto simp: put_file_def split: if_splits\<close>)
next
  show "\<exists>rd d e. h_read (ramfs_fs snprint argv0) = Some rd
      \<and> d = take (unat (f_count (rq_ifcall q))) (drop (unat (f_offset (rq_ifcall q))) c)
      \<and> rd r s = Some (Reply None, put_req r (q\<lparr>rq_ofcall := (rq_ofcall q)\<lparr>f_count := of_nat (length d), f_data := d @ e\<rparr>\<rparr>) s)"
    if "ram_content (sv_fs s) (sv_aux s) x = Some c" "asks r x q s" "length (f_data (rq_ofcall q)) = unat (f_count (rq_ifcall q))"
    for s x c r q
    using fsread_correct [OF that] by (simp add: ramfs_fs_def)
next
  fix s :: "ramfs Srv" and x c r q
  assume ok: "ram_ok (sv_fs s) (sv_aux s)" and c: "ram_content (sv_fs s) (sv_aux s) x = Some c" and a: "asks r x q s"
    and l: "unat (f_count (rq_ifcall q)) \<le> length (f_data (rq_ifcall q))" "0 < unat (f_count (rq_ifcall q))"
      "unat (f_offset (rq_ifcall q)) \<le> length c" "unat (f_offset (rq_ifcall q)) + unat (f_count (rq_ifcall q)) < 2 ^ 31"
  obtain y where y: "fs_files (sv_fs s) x = Some y" "rm_files (sv_aux s) (fl_aux y) \<noteq> None"
    using c by (auto simp: ram_content_def bind_Some_iff)
  obtain y' rf where w: "fswrite r s = Some (Reply None, put_req r (q\<lparr>rq_ofcall := (rq_ofcall q)\<lparr>f_count := f_count (rq_ifcall q)\<rparr>\<rparr>)
      (put_ramfile (fl_aux y) rf (s\<lparr>sv_fs := put_file x y' (sv_fs s)\<rparr>)))" "fl_aux y' = fl_aux y" "meta_same y y'" "ram_bytes rf
        = Some (overwrite (unat (f_offset (rq_ifcall q))) (take (unat (f_count (rq_ifcall q))) (f_data (rq_ifcall q))) c)"
    using fswrite_state [OF c a l y(1)] by blast
  then show "\<exists>wr t v. h_write (ramfs_fs snprint argv0) = Some wr
      \<and> wr r s = Some (Reply None, put_req r (q\<lparr>rq_ofcall := (rq_ofcall q)\<lparr>f_count := f_count (rq_ifcall q)\<rparr>\<rparr>)
          (s\<lparr>sv_fs := t, sv_aux := v\<rparr>))
      \<and> ram_ok t v \<and> (\<forall>ext. fs_ok ext (sv_fs s) \<longrightarrow> fs_ok ext t) \<and> ram_content t v = (ram_content (sv_fs s) (sv_aux s))
          (x \<mapsto> overwrite (unat (f_offset (rq_ifcall q))) (take (unat (f_count (rq_ifcall q))) (f_data (rq_ifcall q))) c)"
    using ram_content_put [OF ok y w(2), of rf] fs_ok_meta [OF _ y(1) w(3)]
    by (intro exI [of _ fswrite] exI [of _ "put_file x y' (sv_fs s)"]
        exI [of _ "(sv_aux s)\<lparr>rm_files := (rm_files (sv_aux s))(fl_aux y \<mapsto> rf)\<rparr>"]) (simp add: ramfs_fs_def put_ramfile_def)
qed

lemma serve_create: "sv_reqs s r = Some q \<Longrightarrow> f_type (rq_ifcall q) = Tcreate \<Longrightarrow> serve h r s = screate h r s"
  by (simp add: serve_def)

text \<open>A directory of the tree that a fid, not yet open, stands for, and that the fid's user may write.\<close>

definition dir_fid :: "u32 \<Rightarrow> addr \<Rightarrow> Fid \<Rightarrow> addr \<Rightarrow> 'x Srv \<Rightarrow> bool" where
  "dir_fid fid a f x s \<longleftrightarrow> has_fid fid a f s \<and> fd_omode f = - 1 \<and> q_type (fd_qid f) AND QTDIR \<noteq> 0 \<and> fd_file f = Some x
     \<and> (\<exists>u g. fd_uid f = Some u \<and> fs_files (sv_fs s) x = Some g \<and> q_type (d_qid (fl_dir g)) AND QTDIR \<noteq> 0
          \<and> hasperm g u AWRITE = Some True)"

lemma fscreate_correct:
  assumes ok: "fs_ok ext (sv_fs s)" "ram_ok (sv_fs s) (sv_aux s)"
    and r: "sv_reqs s r = Some q" "rq_fid q = Some a" "sv_fids s a = Some f" "fd_file f = Some x" "f_name (rq_ifcall q) = Some name"
    and x: "tree_of (sv_fs s) x = Some p" "q_type (d_qid (tn_dir p)) AND QTDIR \<noteq> 0" "lookup_name (tree_of (sv_fs s)) x name = None"
  shows "\<exists>n t v d. fscreate r s = Some (Reply None, put_req r (q\<lparr>rq_ofcall := (rq_ofcall q)\<lparr>f_qid := d_qid d\<rparr>\<rparr>)
      (put_fid a (f\<lparr>fd_file := Some n\<rparr>) (s\<lparr>sv_fs := t, sv_aux := v\<rparr>)))
    \<and> tree_of (sv_fs s) n = None \<and> fs_ok (ext_add ext n 1) t \<and> ram_ok t v \<and> ram_content t v = (ram_content (sv_fs s) (sv_aux s))(n \<mapsto> [])
    \<and> new_dir (tn_dir p) name (fd_uid f) (f_perm (rq_ifcall q)) (fs_qidgen (sv_fs s)) (fs_now (sv_fs s)) d
    \<and> tree_of t = (tree_of (sv_fs s))(n \<mapsto> \<lparr>tn_dir = d, tn_parent = Some x, tn_kids = []\<rparr>, x \<mapsto> p\<lparr>tn_kids := tn_kids p @ [n]\<rparr>)"
proof -
  let ?v = "sv_aux s" and ?k = "rm_next (sv_aux s)"
  obtain n t1 u where c: "createfile x name (fd_uid f) (f_perm (rq_ifcall q)) 0 (sv_fs s) = Some (Some n, t1)"
    "tree_of (sv_fs s) n = None" "fs_ok (ext_add ext n 1) t1" 
    "tree_of t1 = (tree_of (sv_fs s))(n \<mapsto> u, x \<mapsto> p\<lparr>tn_kids := tn_kids p @ [n]\<rparr>)" "tn_parent u = Some x" "tn_kids u = []"
    "new_dir (tn_dir p) name (fd_uid f) (f_perm (rq_ifcall q)) (fs_qidgen (sv_fs s)) (fs_now (sv_fs s)) (tn_dir u)"
    using createfile_succeeds [OF ok(1) x] by blast
  obtain y g g' where f: "fs_files (sv_fs s) x = Some g" "fs_files (sv_fs s) n = None" "fs_files t1 = (fs_files (sv_fs s))(n \<mapsto> y, x \<mapsto> g')"
    "fl_aux y = 0" "fl_aux g' = fl_aux g"
    using createfile_files [OF ok(1) c(1)] by blast
  have nx: "n \<noteq> x" using x(1) c(2) by auto
  then have y: "fs_files t1 n = Some y" "u = node_of y" using f(3) c(4) by (auto simp: fun_eq_iff tree_of_def dest: spec [of _ n])
  let ?y = "y\<lparr>fl_aux := ?k\<rparr>" and ?rf = "\<lparr>rf_data = NilPtr, rf_ndata = 0\<rparr>"
  let ?t = "put_file n ?y t1" and ?v' = "?v\<lparr>rm_next := ?k + 1, rm_files := (rm_files ?v)(?k \<mapsto> ?rf)\<rparr>"
  have same: "node_of ?y = node_of y" by (simp add: node_of_def children_def)
  have fc: "fscreate r s = Some (Reply None, put_req r (q\<lparr>rq_ofcall := (rq_ofcall q)\<lparr>f_qid := d_qid (fl_dir y)\<rparr>\<rparr>)
      (put_fid a (f\<lparr>fd_file := Some n\<rparr>) (s\<lparr>sv_fs := ?t, sv_aux := ?v'\<rparr>)))"
    using r c(1) y(1) by (simp add: fscreate_def upd_fid_def upd_req_def put_ramfile_def put_fid_def Let_def)
  have k: "rm_files ?v ?k = None" "rm_files ?v 0 = None" and up: "\<And>z w. fs_files (sv_fs s) z = Some w \<Longrightarrow> fl_aux w < ?k"
    using ok(2) by (auto simp: ram_ok_def)
  have k0: "0 < ?k" using up [OF f(1)] by simp
  have "ram_content ?t ?v' z = ((ram_content (sv_fs s) ?v)(n \<mapsto> [])) z" for z
    using up [of z] up [OF f(1)] f(1,3,5) nx by (cases "fs_files (sv_fs s) z") (auto simp: ram_content_def ram_bytes_def)
  then have content: "ram_content ?t ?v' = (ram_content (sv_fs s) ?v)(n \<mapsto> [])" by blast
  have old: "z = n \<and> w = ?y \<or> (\<exists>w'. z \<noteq> n \<and> fs_files (sv_fs s) z = Some w' \<and> fl_aux w' = fl_aux w \<and> fl_aux w < ?k)"
    if "fs_files ?t z = Some w" for z w
    using that f(1,3,5) up by (auto split: if_splits)
  have "ram_ok ?t ?v'"
    unfolding ram_ok_def
  proof (intro conjI allI impI)
    fix z z' w w'
    assume "fs_files ?t z = Some w" "fs_files ?t z' = Some w'" "fl_aux w = fl_aux w'" "rm_files ?v' (fl_aux w) \<noteq> None"
    then show "z = z'" using old [of z w] old [of z' w'] ram_okD(2) [OF ok(2), of z _ z'] by auto
  next
    show "fl_aux w < rm_next ?v'" if "fs_files ?t z = Some w" for z w
      using old [OF that] by auto
  qed (use k0 k ok(2) in \<open>auto simp: ram_ok_def\<close>)
  moreover have "fs_ok (ext_add ext n 1) ?t"
    by (rule fs_ok_meta [OF c(3) y(1)]) (simp add: meta_same_def)
  moreover have "tree_of ?t = (tree_of (sv_fs s))(n \<mapsto> \<lparr>tn_dir = fl_dir y, tn_parent = Some x, tn_kids = []\<rparr>, x \<mapsto> p\<lparr>tn_kids := tn_kids p @ [n]\<rparr>)"
    using c(4-6) y(2) nx same by (auto simp: fun_eq_iff node_of_def)
  ultimately show ?thesis
    using fc content c(2,7) y(2) by (intro exI [of _ n] exI [of _ ?t] exI [of _ ?v'] exI [of _ "fl_dir y"]) simp
qed

lemma create_answered:
  fixes sp av
  defines "h \<equiv> ramfs_fs sp av"
  assumes r: "srv_ready s" "tag_free tag s" and f: "dir_fid fid a f x s"
    and ok: "fs_ok ext (sv_fs s)" "ram_ok (sv_fs s) (sv_aux s)" and new: "lookup_name (tree_of (sv_fs s)) x name = None"
    and m: "wf_msg (MTcreate fid name perm mode)" "msg_size (MTcreate fid name perm mode) \<le> unat (sv_msize s)"
      "perm AND DMDIR = 0" and fuel: "3 \<le> fuel"
  shows "\<exists>s' n qid f'. srv_loop fuel h (encode tag (MTcreate fid name perm mode) @ rest) s = srv_loop fuel h rest s'
    \<and> replied s [encode tag (MRcreate qid 0)] s' \<and> sv_fpool s' = sv_fpool s \<and> sv_msize s' = sv_msize s
    \<and> file_fid ram_content ram_ok {mode AND 3} fid a f' n [] s' \<and> fs_ok (ext_add ext n 1) (sv_fs s')
    \<and> (\<exists>t p. tree_of (sv_fs s') n = Some t \<and> d_name (tn_dir t) = Some name \<and> d_mode (tn_dir t) = perm \<and> tn_parent t = Some x
        \<and> tree_of (sv_fs s') x = Some p \<and> n \<in> set (tn_kids p))"
proof -
  let ?r = "sv_next s" and ?m = "MTcreate fid name perm mode"
  obtain q s1 where rec: "received tag ?m s q s1"
    and g: "getreq fuel h (encode tag ?m @ rest) s = Some (Some ?r, rest, s1)"
    using getreq_receives [OF r m(1,2)] by metis
  have fid: "has_fid fid a f s" using f by (simp add: dir_fid_def)
  have s1: "sv_reqs s1 = (sv_reqs s)(?r \<mapsto> q)" "sv_fids s1 = sv_fids s" "sv_fs s1 = sv_fs s" "sv_aux s1 = sv_aux s" "sv_msize s1 = sv_msize s"
    and q: "msg_of (rq_ifcall q) = Some ?m" "fresh_req q" "rq_newfid q = None" "rq_afid q = None"
      "f_tag (rq_ifcall q) = tag" "rq_ofcall q = zero_fcall" "rq_error q = None" "strs_set (rq_ifcall q)"
    using rec by (simp_all add: received_def)
  have t: "f_type (rq_ifcall q) = Tcreate" "f_perm (rq_ifcall q) = perm" "f_mode (rq_ifcall q) = mode" "str_of (f_name (rq_ifcall q)) = name"
    using q(1) by (auto simp: msg_of_def Let_def split: if_splits)
  then have nm: "f_name (rq_ifcall q) = Some name" using q(8) by (auto simp: strs_set_def str_of_def split: option.splits)
  obtain u y where y: "fd_uid f = Some u" "fs_files (sv_fs s) x = Some y" "q_type (d_qid (fl_dir y)) AND QTDIR \<noteq> 0"
    "hasperm y u AWRITE = Some True" using f by (auto simp: dir_fid_def)
  let ?q1 = "q\<lparr>rq_fid := Some a\<rparr>" and ?s2 = "put_fid a (held f) s1"
  obtain n t1 v d where c: "fscreate ?r (put_req ?r ?q1 ?s2) = Some (Reply None, put_req ?r (?q1\<lparr>rq_ofcall := (rq_ofcall ?q1)\<lparr>f_qid := d_qid d\<rparr>\<rparr>)
      (put_fid a ((held f)\<lparr>fd_file := Some n\<rparr>) (?s2\<lparr>sv_fs := t1, sv_aux := v\<rparr>)))"
    "tree_of (sv_fs s) n = None" "fs_ok (ext_add ext n 1) t1" "ram_ok t1 v" "ram_content t1 v = (ram_content (sv_fs s) (sv_aux s))(n \<mapsto> [])"
    "new_dir (fl_dir y) name (fd_uid f) perm (fs_qidgen (sv_fs s)) (fs_now (sv_fs s)) d"
    "tree_of t1 = (tree_of (sv_fs s))(n \<mapsto> \<lparr>tn_dir = d, tn_parent = Some x, tn_kids = []\<rparr>, x \<mapsto> (node_of y)\<lparr>tn_kids := tn_kids (node_of y) @ [n]\<rparr>)"
    using fscreate_correct [of ext "put_req ?r ?q1 ?s2" ?r ?q1 a "held f" x name "node_of y"] ok new f s1 t nm y(2,3)
    by (auto simp: dir_fid_def tree_of_Some)
  let ?q2 = "?q1\<lparr>rq_ofcall := zero_fcall\<lparr>f_qid := d_qid d\<rparr>\<rparr>" and ?s3 = "put_fid a ((held f)\<lparr>fd_file := Some n\<rparr>) (s1\<lparr>sv_fs := t1, sv_aux := v\<rparr>)"
  have "serve h ?r s1 = screate h ?r s1" by (rule serve_create) (use s1(1) t(1) in simp_all)
  also have "\<dots> = Some (Reply None, put_req ?r ?q2 ?s3)"
    unfolding screate_def fid_start [OF r(1) rec _ fid, simplified]
    using f c(1) q(6) s1(3) y by (simp add: dir_fid_def h_def ramfs_fs_def)
  finally have sv: "serve h ?r s1 = Some (Reply None, put_req ?r ?q2 ?s3)" .
  let ?q3 = "?q2\<lparr>rq_error := None\<rparr>" and ?f = "(held f)\<lparr>fd_file := Some n, fd_omode := mode, fd_qid := d_qid d\<rparr>"
  have fin: "finish h ?r None (put_req ?r ?q3 ?s3) = Some (put_req ?r ?q3 (put_fid a ?f ?s3))"
    using t by (simp add: finish_def rcreate_def upd_fid_def put_fid_def put_req_def)
  have rp: "msg_of (reply_fcall ?q3) = Some (MRcreate (d_qid d) 0)" "fcall_ok (reply_fcall ?q3)"
    using t by (simp_all add: reply_fcall_def msg_of_def fcall_ok_def zero_fcall_def)
  have "msg_size (MRcreate (d_qid d) 0) \<le> unat (sv_msize s)" using srv_readyD(6) [OF r(1)] by (simp add: msg_size_def)
  moreover have "h_destroyreq h = None" by (simp add: h_def ramfs_fs_def)
  ultimately obtain s' where s': "srv_loop fuel h (encode tag ?m @ rest) s = srv_loop fuel h rest s'" "replied s [encode tag (MRcreate (d_qid d) 0)] s'"
    "sv_fids s' = (sv_fids s)(a \<mapsto> ?f\<lparr>fd_ref := fd_ref ?f - 1\<rparr>)" "sv_fpool s' = sv_fpool s" "sv_fs s' = t1" "sv_aux s' = v" "sv_msize s' = sv_msize s"
    using fid_end [where a = a and fb = ?f, OF r rec g sv _ _ _ fin _ _ _ _ _ _ _ _ _ _ rp(2,1) _ _ fuel] q t s1 fid
    by (auto simp: fresh_req_def has_fid_def)
  have "n \<noteq> x" using c(2) y(2) by (auto simp: tree_of_def)
  have "file_fid ram_content ram_ok {mode AND 3} fid a (?f\<lparr>fd_ref := fd_ref ?f - 1\<rparr>) n [] s'"
    using s' fid c m(3) by (auto simp: file_fid_def has_fid_def new_dir_def)
  moreover have "\<exists>t p. tree_of t1 n = Some t \<and> d_name (tn_dir t) = Some name \<and> d_mode (tn_dir t) = perm \<and> tn_parent t = Some x
        \<and> tree_of t1 x = Some p \<and> n \<in> set (tn_kids p)"
    using c(6,7) \<open>n \<noteq> x\<close> by (auto simp: new_dir_def)
  ultimately show ?thesis using s' c(3) by blast
qed

section \<open>A session\<close>

lemma ramfs_talk_answered:
  assumes m: "wf_msg (MTattach fid NOFID uname aname)" "msg_size (MTattach fid NOFID uname aname) \<le> 16408"
     "wf_msg (MTcreate fid name perm ORDWR)" "msg_size (MTcreate fid name perm ORDWR) \<le> 16408" "perm AND DMDIR = 0"
     and d: "d \<noteq> []" "length d \<le> 16384" and fuel: "3 \<le> fuel"
  shows "\<exists>s0 s rootqid qid n. ramfs_start junk user now = Some s0
    \<and> srv fuel (ramfs_fs sp av) (encode t1 (MTattach fid NOFID uname aname) @ encode t2 (MTcreate fid name perm ORDWR)
       @ encode t3 (MTwrite fid 0 d) @ encode t4 (MTread fid 0 (of_nat (length d)))) s0 = Some s
    \<and> sv_out s = [encode t1 (MRattach rootqid), encode t2 (MRcreate qid 0), encode t3 (MRwrite (of_nat (length d))), encode t4 (MRread d)]
    \<and> q_type rootqid = QTDIR \<and> ram_content (sv_fs s) (sv_aux s) n = Some d"
proof -
  let ?h = "ramfs_fs sp av"
  obtain t g where t: "alloctree None None (DMDIR OR 0x1FF) user now = Some t" "fs_files t = [fs_root t \<mapsto> g]" "fs_ok (\<lambda>_. 0) t"
    "q_type (d_qid (fl_dir g)) = QTDIR" "d_mode (fl_dir g) = DMDIR OR (DMDIR OR 0x1FF)" "fl_aux g = 0" "children g = []"
    using alloctree_root by metis
  then obtain s0 where s0: "ramfs_start junk user now = Some s0" "sv_fs s0 = t" "sv_tree s0" "sv_fids s0 = Map.empty" "sv_reqs s0 = Map.empty"
     "sv_msize s0 = 0" "sv_wbuf s0 = None" "sv_out s0 = []" "sv_aux s0 = \<lparr>rm_files = Map.empty, rm_next = 1, rm_junk = junk\<rparr>"
    by (simp add: ramfs_start_def)
  let ?s = "srv_start s0" and ?x = "fs_root t"
  have r: "srv_ready ?s" "tag_free tag ?s" for tag using s0 by (simp_all add: srv_start_ready)
  have new: "intmap_abs (sv_fpool ?s) fid = None" by (simp add: pool_refines)
  have h: "h_attach ?h = None" "h_destroyreq ?h = None" by (simp_all add: ramfs_fs_def)
  let ?rest = "encode t2 (MTcreate fid name perm ORDWR) @ encode t3 (MTwrite fid 0 d) @ encode t4 (MTread fid 0 (of_nat (length d)))"
  obtain s1 a f where s1: "srv_loop fuel ?h (encode t1 (MTattach fid NOFID uname aname) @ ?rest) ?s = srv_loop fuel ?h ?rest s1"
    "replied ?s [encode t1 (MRattach (d_qid (fl_dir g)))] s1"
    "f = zero_fid\<lparr>fd_fid := fid, fd_omode := - 1, fd_uid := Some uname, fd_file := Some ?x, fd_qid := d_qid (fl_dir g), fd_ref := 1\<rparr>"
    "sv_fids s1 = (sv_fids ?s)(a \<mapsto> f)" "intmap_abs (sv_fpool s1) = (intmap_abs (sv_fpool ?s))(fid \<mapsto> a)"
    "sv_fs s1 = put_file ?x (g\<lparr>fl_ref := fl_ref g + 1\<rparr>) t" "sv_aux s1 = sv_aux s0" "sv_msize s1 = 16408"
    using attach_answered [OF r new _ _ h m(1) _ fuel, of g t1 ?rest] s0 t m(2) by auto
  have r1: "srv_ready s1" "tag_free tag s1" for tag using s1(2) r(2) by (simp_all add: replied_def tag_free_def)
  have fs1: "fs_ok (ext_add (\<lambda>_. 0) ?x 1) (sv_fs s1)"
    using incref_file_tree [OF t(3), of ?x] t(2) s1(6) by (auto simp: incref_file_def tree_of_def)
  have d1: "dir_fid fid a f ?x s1"
    using s1(3-6) t(4,5) by (simp add: dir_fid_def has_fid_def hasperm_def Let_def zero_fid_def)
  have "ram_ok (sv_fs s1) (sv_aux s1)" using s1(6,7) s0(9) t by (auto simp: ram_ok_def split: if_splits)
  moreover have "lookup_name (tree_of (sv_fs s1)) ?x name = None" using s1(6) t(7) by (simp add: lookup_name_def node_of_def children_def)
  ultimately obtain s2 n qid f2 where s2: "srv_loop fuel ?h ?rest s1 = srv_loop fuel ?h (encode t3 (MTwrite fid 0 d) @ encode t4 (MTread fid 0 (of_nat (length d)))) s2"
    "replied s1 [encode t2 (MRcreate qid 0)] s2" "sv_msize s2 = 16408" "file_fid ram_content ram_ok {ORDWR} fid a f2 n [] s2"
    using create_answered [where sp = sp and av = av and tag = t2
        and rest = "encode t3 (MTwrite fid 0 d) @ encode t4 (MTread fid 0 (of_nat (length d)))", OF r1 d1 fs1 _ _ m(3) _ m(5) fuel] s1(8) m(4) by auto
  have r2: "srv_ready s2" "tag_free tag s2" for tag using s2(2) r1(2) by (simp_all add: replied_def tag_free_def)
  obtain s3 where s3: "srv_loop fuel ?h (encode t3 (MTwrite fid 0 d) @ encode t4 (MTread fid 0 (of_nat (length d)))) s2 = srv_loop fuel ?h [] s3"
    "replied s2 [encode t3 (MRwrite (of_nat (length d))), encode t4 (MRread d)] s3" "ram_content (sv_fs s3) (sv_aux s3) n = Some d"
    using rm.write_read [where snprint = sp and ?argv0.0 = av and tag = t3 and tag' = t4 and off = 0 and rest = "[]", OF r2(1) r2(2) r2(2) s2(4) _ _ _ d(1) _ fuel] d(2) s2(3) by (auto simp: overwrite_def)
  have "sv_out (srv_end ?h s3) = sv_out s3" "sv_fs (srv_end ?h s3) = sv_fs s3" "sv_aux (srv_end ?h s3) = sv_aux s3"
    using srv_end_out [of ?h s3] by (simp_all add: ramfs_fs_def)
  then show ?thesis
    using s0(1,8) s1(1,2) s2(1,2) s3 t(4)
    by (intro exI [of _ s0] exI [of _ "srv_end ?h s3"]) (auto simp: srv_def srv_loop_eof replied_def)
qed

text \<open>An empty write at the start of an empty file asks \<open>realloc\<close> for no memory and gets nil.\<close>

lemma fswrite_empty:
  assumes a: "asks r x q s" and y: "fs_files (sv_fs s) x = Some y" and rf: "rm_files (sv_aux s) (fl_aux y) = Some rf" "ram_bytes rf = Some []"
    and z: "f_offset (rq_ifcall q) = 0" "f_count (rq_ifcall q) = 0"
  shows "fswrite r s = Some (Reply (Some Enomem), put_ramfile (fl_aux y) (rf\<lparr>rf_data := if rf_data rf = NilPtr then NilPtr else Freed\<rparr>) s)"
proof -
  have n: "rf_ndata rf = 0" using ram_bytes_ndata [OF rf(2)] by simp
  have "rf_data rf \<noteq> Freed" using rf(2) by (auto simp: ram_bytes_def)
  then have "realloc junk (rf_data rf) 0 = Some (None, if rf_data rf = NilPtr then NilPtr else Freed)" for junk
    by (simp add: realloc_def split: area.splits)
  then show ?thesis
    using req_file_asks [OF a y] rf(1) z n by (simp add: fswrite_def fswrite_grow_def)
qed

lemma freed_faults:
  assumes "ram_bytes rf \<noteq> None" "rf_data rf = Area b" "rm_files (sv_aux s) k = Some rf"
    and "fs_files (sv_fs s) x = Some y" "fl_aux y = k" "asks r x q s'" "s' = put_ramfile k (rf\<lparr>rf_data := Freed\<rparr>) s"
    and "rf_ndata rf \<le> sint (f_offset (rq_ifcall q) + of_int (sint (f_count (rq_ifcall q))))"
  shows "fswrite r s' = None"
  using req_file_asks [OF assms(6), of y] assms by (simp add: fswrite_def fswrite_grow_def realloc_def put_ramfile_def)

section \<open>Reading a buffer\<close>

lemma clip_word:
  assumes "off < m" and "m < 2 ^ 31"
  shows "unat (if int m < int (off + unat (cnt :: u32)) then of_int (int m - int off) else of_int (uint cnt) :: u32) = min (unat cnt) (m - off)"
proof -
  have "int m - int off = int (m - off)" using assms(1) by simp
  then have "unat (of_int (int m - int off) :: u32) = m - off" using assms(2) by (simp add: unat_of_nat del: of_nat_diff)
  then show ?thesis using assms(1) by (auto simp: min_def simp del: of_nat_add of_nat_unat)
qed

lemma readbuf_correct:
  assumes m: "m \<le> length b" "m < 2 ^ 31" and off: "0 \<le> sint (f_offset (rq_ifcall q))"
    and len: "unat (f_count (rq_ifcall q)) \<le> length (f_data (rq_ofcall q))"
  defines "d \<equiv> take (unat (f_count (rq_ifcall q))) (drop (unat (f_offset (rq_ifcall q))) (take m b))"
  shows "\<exists>e. readbuf b (int m) q = Some (q\<lparr>rq_ofcall := (rq_ofcall q)\<lparr>f_count := of_nat (length d), f_data := d @ e\<rparr>\<rparr>)"
proof -
  let ?off = "unat (f_offset (rq_ifcall q))" and ?cnt = "unat (f_count (rq_ifcall q))"
  have o: "sint (f_offset (rq_ifcall q)) = int ?off" by (rule unat_sint_64 [OF off])
  show ?thesis
  proof (cases "m \<le> ?off")
    case True
    then have "d = []" "int m \<le> sint (f_offset (rq_ifcall q))" unfolding o d_def by (simp, simp only: of_nat_le_iff)
    then show ?thesis by (intro exI [of _ "f_data (rq_ofcall q)"]) (simp add: readbuf_def fcall_data_self)
  next
    case False
    let ?k = "min ?cnt (m - ?off)"
    define w where "w = (if int m < int (?off + ?cnt) then of_int (int m - int ?off) else of_int (uint (f_count (rq_ifcall q))) :: u32)"
    have w: "unat w = ?k" unfolding w_def by (rule clip_word) (use False m(2) in simp_all)
    have d: "d = take ?k (drop ?off b)" "length d = ?k" using False m(1) by (auto simp: d_def min_def drop_take)
    have c: "?cnt < 2 ^ 32" using unsigned_less [of "f_count (rq_ifcall q)", where 'a = nat] by simp
    have e: "sint (f_offset (rq_ifcall q) + of_int (uint (f_count (rq_ifcall q)))) = int (?off + ?cnt)"
      using sint_add_64 [of "f_offset (rq_ifcall q)" ?cnt] False m(2) c by simp
    have u: "unat (ucast (f_offset (rq_ifcall q)) :: u32) = ?off" by (rule ucast_offset) (use False m(2) in simp)
    have "mread b ?off ?k = Some d" using d False m(1) by (simp add: mread_def)
    moreover have "mwrite (f_data (rq_ofcall q)) 0 d = Some (d @ drop ?k (f_data (rq_ofcall q)))"
      using d(2) len by (simp add: mwrite_def)
    moreover have "\<not> int m \<le> int ?off" using False by (simp only: of_nat_le_iff not_False_eq_True)
    ultimately have "readbuf b (int m) q = Some (q\<lparr>rq_ofcall := (rq_ofcall q)\<lparr>f_count := w, f_data := d @ drop ?k (f_data (rq_ofcall q))\<rparr>\<rparr>)"
      unfolding readbuf_def Let_def o e u w_def [symmetric] w by (simp only: if_False Option.bind.simps)
    moreover have "w = of_nat (length d)" using w d(2) by (metis of_nat_unat ucast_id)
    ultimately show ?thesis by blast
  qed
qed

end
