(* ===== verification/Qsort.thy ===== *)
theory Qsort
  imports Cstring "HOL-Library.Multiset"
begin

text \<open>
  Sorting: \<^verbatim>\<open>libc/port/qsort.c\<close>, on the bytes of an array whose elements have \<open>es\<close> bytes.  The comparison function of the
  caller is a parameter, applied to the memory and two pointers.  A pointer that would move below
  the memory is a fault.
\<close>

section \<open>The functions\<close>

text \<open>\<open>so_longs\<close> says that \<open>swap\<close> is \<open>swapi\<close>.\<close>

record Sort =
  so_cmp :: "block \<Rightarrow> nat \<Rightarrow> nat \<Rightarrow> int option"
  so_longs :: bool
  so_es :: nat

function swapb :: "block \<Rightarrow> nat \<Rightarrow> nat \<Rightarrow> u32 \<Rightarrow> block option" where
  "swapb m i j es = do {
     c \<leftarrow> ld m i;
     d \<leftarrow> ld m j;
     m' \<leftarrow> st m i d;
     m' \<leftarrow> st m' j c;
     if es - 1 \<noteq> 0 then swapb m' (i + 1) (j + 1) (es - 1) else Some m'
   }"
  by pat_completeness auto
termination by (relation "measure (\<lambda>(m, i, j, es). length m - i)") auto

function swapi :: "block \<Rightarrow> nat \<Rightarrow> nat \<Rightarrow> u32 \<Rightarrow> block option" where
  "swapi m i j es = do {
     c \<leftarrow> mread m i 4;
     d \<leftarrow> mread m j 4;
     m' \<leftarrow> mwrite m i d;
     m' \<leftarrow> mwrite m' j c;
     if es - 4 \<noteq> 0 then swapi m' (i + 4) (j + 4) (es - 4) else Some m'
   }"
  by pat_completeness auto
termination
proof (relation "measure (\<lambda>(m, i, j, es). length m - i)")
  fix m i j es c d m1 m2
  assume "mread m i 4 = Some c" "mwrite m i d = Some m1" "mwrite m1 j c = Some m2"
  then show "((m2, i + 4, j + 4, es - 4 :: u32), m, i, j, es) \<in> measure (\<lambda>(m, i, j, es). length m - i)"
    by (auto dest!: mwrite_length simp: mread_def split: if_splits)
qed simp

definition so_swap :: "Sort \<Rightarrow> block \<Rightarrow> nat \<Rightarrow> nat \<Rightarrow> block option" where
  "so_swap p m i j = (if so_longs p then swapi m i j (of_nat (so_es p)) else swapb m i j (of_nat (so_es p)))"

definition pivot :: "Sort \<Rightarrow> block \<Rightarrow> nat \<Rightarrow> nat \<Rightarrow> nat option" where
  "pivot p m a n = do {
     let j = n div 6 * so_es p;
     let pi = a + j;
     let j = j + j;
     let pj = pi + j;
     let pk = pj + j;
     ij \<leftarrow> so_cmp p m pi pj;
     if ij < 0 then do {
       ik \<leftarrow> so_cmp p m pi pk;
       if ik < 0 then do {
         jk \<leftarrow> so_cmp p m pj pk;
         Some (if jk < 0 then pj else pk)
       } else Some pi
     } else do {
       jk \<leftarrow> so_cmp p m pj pk;
       if jk < 0 then do {
         ik \<leftarrow> so_cmp p m pi pk;
         Some (if ik < 0 then pi else pk)
       } else Some pj
     }
   }"

text \<open>The two inner loops.  With elements of no bytes the program does not come here: the swap before
  them leaves the memory.\<close>

function scan_up :: "Sort \<Rightarrow> block \<Rightarrow> nat \<Rightarrow> nat \<Rightarrow> nat \<Rightarrow> nat option" where
  "scan_up p m a pn pi = (if so_es p = 0 then None
     else if pi + so_es p < pn then do {
       c \<leftarrow> so_cmp p m (pi + so_es p) a;
       if c < 0 then scan_up p m a pn (pi + so_es p) else Some (pi + so_es p)
     }
     else Some (pi + so_es p))"
  by pat_completeness auto
termination by (relation "measure (\<lambda>(p, m, a, pn, pi). pn - pi)") auto

function scan_down :: "Sort \<Rightarrow> block \<Rightarrow> nat \<Rightarrow> nat \<Rightarrow> nat option" where
  "scan_down p m a pj = (if so_es p = 0 \<or> pj < so_es p then None
     else if pj - so_es p > a then do {
       c \<leftarrow> so_cmp p m (pj - so_es p) a;
       if c > 0 then scan_down p m a (pj - so_es p) else Some (pj - so_es p)
     }
     else Some (pj - so_es p))"
  by pat_completeness auto
termination by (relation "measure (\<lambda>(p, m, a, pj). pj)") auto

lemma scan_down_less: "scan_down p m a pj = Some q \<Longrightarrow> q < pj"
  by (induction p m a pj rule: scan_down.induct)
    (subst (asm) scan_down.simps, fastforce simp: bind_Some_iff simp del: scan_down.simps split: if_splits)

declare swapb.simps [simp del] swapi.simps [simp del] scan_up.simps [simp del] scan_down.simps [simp del]

text \<open>The loop around them.\<close>

function qsort_split :: "Sort \<Rightarrow> block \<Rightarrow> nat \<Rightarrow> nat \<Rightarrow> nat \<Rightarrow> nat \<Rightarrow> (nat \<times> block) option" where
  "qsort_split p m a pn pi pj = do {
     pi' \<leftarrow> scan_up p m a pn pi;
     pj' \<leftarrow> scan_down p m a pj;
     if pj' < pi' then Some (pj', m)
     else do {
       m' \<leftarrow> so_swap p m pi' pj';
       qsort_split p m' a pn pi' pj'
     }
   }"
  by pat_completeness auto
termination by (relation "measure (\<lambda>(p, m, a, pn, pi, pj). pj)") (auto dest: scan_down_less)

lemma qsort_split_less: "qsort_split p m a pn pi pj = Some (q, m') \<Longrightarrow> q < pj"
  by (induction p m a pn pi pj rule: qsort_split.induct)
    (subst (asm) qsort_split.simps, fastforce simp: bind_Some_iff simp del: qsort_split.simps split: if_splits dest: scan_down_less)

declare qsort_split.simps [simp del]

lemma split_index: "q < a + n * es \<Longrightarrow> 1 < n \<Longrightarrow> (q - a) div es < n" for q a n es :: nat
proof (cases "es = 0")
  case False
  assume "q < a + n * es" "1 < n"
  then have "q - a < n * es" using False by (cases "q < a") auto
  then show ?thesis by (rule less_mult_imp_div_less)
qed simp

function qsorts :: "Sort \<Rightarrow> block \<Rightarrow> nat \<Rightarrow> nat \<Rightarrow> block option" where
  "qsorts p m a n = (if n > 1 then do {
       let es = so_es p;
       pi \<leftarrow> (if n > 10 then pivot p m a n else Some (a + (n div 2) * es));
       m \<leftarrow> so_swap p m a pi;
       (pj, m) \<leftarrow> qsort_split p m a (a + n * es) a (a + n * es);
       m \<leftarrow> so_swap p m a pj;
       let j = (pj - a) div es;
       let n = n - (j + 1);
       let pj = a + (j + 1) * es;
       if j \<ge> n then do {
         m \<leftarrow> qsorts p m a j;
         qsorts p m pj n
       } else do {
         m \<leftarrow> qsorts p m pj n;
         qsorts p m a j
       }
     }
     else Some m)"
  by pat_completeness auto
termination
  by (relation "measure (\<lambda>(p, m, a, n). n)") (auto dest!: qsort_split_less intro: split_index)

declare qsorts.simps [simp del]

definition qsort :: "block \<Rightarrow> nat \<Rightarrow> int \<Rightarrow> nat \<Rightarrow> (block \<Rightarrow> nat \<Rightarrow> nat \<Rightarrow> int option) \<Rightarrow> block option" where
  "qsort m va n es cmp = (let p = \<lparr>so_cmp = cmp, so_longs = (va OR es) mod 4 = 0, so_es = es\<rparr> in
     qsorts p m va (unat (of_int n :: u32)))"

section \<open>Exchanging two elements\<close>

definition exch :: "block \<Rightarrow> nat \<Rightarrow> nat \<Rightarrow> nat \<Rightarrow> block" where
  "exch m i j n = map (\<lambda>x. if i \<le> x \<and> x < i + n then m ! (j + (x - i))
     else if j \<le> x \<and> x < j + n then m ! (i + (x - j)) else m ! x) [0..<length m]"

lemma exch_length [simp]: "length (exch m i j n) = length m"
  by (simp add: exch_def)

lemma exch_nth:
  "x < length m \<Longrightarrow> exch m i j n ! x = (if i \<le> x \<and> x < i + n then m ! (j + (x - i))
     else if j \<le> x \<and> x < j + n then m ! (i + (x - j)) else m ! x)"
  by (simp add: exch_def)

definition apart :: "nat \<Rightarrow> nat \<Rightarrow> nat \<Rightarrow> bool" where
  "apart i j n \<longleftrightarrow> i = j \<or> i + n \<le> j \<or> j + n \<le> i"

lemma exch_exch:
  assumes "apart i j (a + b)" and "i + (a + b) \<le> length m" and "j + (a + b) \<le> length m"
  shows "exch (exch m i j a) (i + a) (j + a) b = exch m i j (a + b)"
proof (rule nth_equalityI)
  fix x
  assume "x < length (exch (exch m i j a) (i + a) (j + a) b)"
  then have x: "x < length m" by simp
  then show "exch (exch m i j a) (i + a) (j + a) b ! x = exch m i j (a + b) ! x"
    using assms unfolding apart_def by (elim disjE) (auto simp: exch_nth)
qed simp

lemma exch_one: "i < length m \<Longrightarrow> j < length m \<Longrightarrow> m[i := m ! j, j := m ! i] = exch m i j 1"
  by (rule nth_equalityI) (auto simp: exch_nth nth_list_update)

lemma exch_store:
  assumes "apart i j n" and "i + n \<le> length m" and "j + n \<le> length m"
  shows "store (store m i (take n (drop j m))) j (take n (drop i m)) = exch m i j n"
  using assms by (intro nth_equalityI) (auto simp: exch_nth store_nth apart_def)

lemma unat_minus: "k \<le> unat w \<Longrightarrow> unat (w - of_nat k) = unat w - k" for w :: u32
  by (metis le_unat_uoi unat_sub word_le_nat_alt)

lemma swapb_exch:
  assumes "unat es = n" and "0 < n" and "apart i j n" and "i + n \<le> length m" and "j + n \<le> length m"
  shows "swapb m i j es = Some (exch m i j n)"
  using assms
proof (induction n arbitrary: m i j es)
  case (Suc n)
  have u: "unat (es - 1) = n" using unat_minus [of 1 es] Suc.prems(1) by simp
  then have z: "es - 1 = 0 \<longleftrightarrow> n = 0" by (metis unat_eq_0)
  have ij: "i < length m" "j < length m" using Suc.prems by simp_all
  have s: "swapb m i j es = (if n \<noteq> 0 then swapb (exch m i j 1) (i + 1) (j + 1) (es - 1) else Some (exch m i j 1))"
    by (subst swapb.simps) (use ij z in \<open>simp add: exch_one\<close>)
  show ?case
  proof (cases "n = 0")
    case False
    then have "swapb (exch m i j 1) (i + 1) (j + 1) (es - 1) = Some (exch (exch m i j 1) (i + 1) (j + 1) n)"
      using Suc.prems by (intro Suc.IH u) (auto simp: apart_def)
    then show ?thesis using s False exch_exch [of i j 1 n m] Suc.prems by simp
  qed (use s in simp)
qed simp

lemma swapi_exch:
  assumes "unat es = 4 * n" and "0 < n" and "apart i j (4 * n)" and "i + 4 * n \<le> length m" and "j + 4 * n \<le> length m"
  shows "swapi m i j es = Some (exch m i j (4 * n))"
  using assms
proof (induction n arbitrary: m i j es)
  case (Suc n)
  have u: "unat (es - 4) = 4 * n" using unat_minus [of 4 es] Suc.prems(1) by simp
  then have z: "es - 4 = 0 \<longleftrightarrow> n = 0" by (metis unat_eq_0 mult_eq_0_iff zero_neq_numeral)
  have ij: "i + 4 \<le> length m" "j + 4 \<le> length m" "apart i j 4" using Suc.prems by (auto simp: apart_def)
  have s: "swapi m i j es = (if n \<noteq> 0 then swapi (exch m i j 4) (i + 4) (j + 4) (es - 4) else Some (exch m i j 4))"
    by (subst swapi.simps) (use ij z exch_store [OF ij(3,1,2)] in \<open>simp add: mread_def store_mwrite\<close>)
  show ?case
  proof (cases "n = 0")
    case False
    then have "swapi (exch m i j 4) (i + 4) (j + 4) (es - 4) = Some (exch (exch m i j 4) (i + 4) (j + 4) (4 * n))"
      using Suc.prems by (intro Suc.IH u) (auto simp: apart_def)
    then show ?thesis using s False exch_exch [of i j 4 "4 * n" m] Suc.prems by simp
  qed (use s in simp)
qed simp

section \<open>The memory as an array\<close>

text \<open>The elements \<open>xs\<close>, of \<open>es\<close> bytes each.\<close>

definition uniform :: "nat \<Rightarrow> block list \<Rightarrow> bool" where
  "uniform es xs \<longleftrightarrow> (\<forall>x \<in> set xs. length x = es)"

lemma uniform_append [simp]: "uniform es (xs @ ys) \<longleftrightarrow> uniform es xs \<and> uniform es ys"
  by (auto simp: uniform_def)

lemma uniform_concat: "uniform es xs \<Longrightarrow> length (concat xs) = length xs * es"
  by (induction xs) (auto simp: uniform_def)

lemma uniform_nth: "uniform es xs \<Longrightarrow> i < length xs \<Longrightarrow> length (xs ! i) = es"
  by (simp add: uniform_def)

lemma uniform_mset: "mset xs = mset ys \<Longrightarrow> uniform es xs = uniform es ys"
  by (metis uniform_def set_mset_mset)

lemma concat_nth:
  "uniform es xs \<Longrightarrow> y < length xs * es \<Longrightarrow> concat xs ! y = xs ! (y div es) ! (y mod es)"
proof (induction xs arbitrary: y)
  case (Cons x xs)
  have x: "length x = es" "uniform es xs" using Cons.prems(1) by (auto simp: uniform_def)
  show ?case
  proof (cases "y < es")
    case False
    then have e: "0 < es" "concat (x # xs) ! y = concat xs ! (y - es)" using Cons.prems(2) x by (auto simp: nth_append intro: Nat.gr0I)
    have "concat xs ! (y - es) = xs ! ((y - es) div es) ! ((y - es) mod es)"
      using Cons.prems(2) False by (intro Cons.IH x(2)) auto
    moreover have "y div es = Suc ((y - es) div es)" "(y - es) mod es = y mod es"
      using False e(1) by (simp_all add: le_div_geq le_mod_geq)
    ultimately show ?thesis using e(2) by simp
  qed (use x in \<open>simp add: nth_append\<close>)
qed simp

lemma elem_at:
  assumes "uniform es xs" and "i < length xs"
  shows "take es (drop (length pre + i * es) (pre @ concat xs @ post)) = xs ! i"
proof -
  have u: "uniform es (take i xs)" "length (xs ! i) = es" using assms by (auto simp: uniform_def dest: in_set_takeD)
  then have "length (concat (take i xs)) = i * es" using uniform_concat assms(2) by fastforce
  moreover have "concat xs = concat (take i xs) @ xs ! i @ concat (drop (Suc i) xs)"
    using assms(2) by (metis concat.simps(2) concat_append id_take_nth_drop)
  ultimately show ?thesis using u(2) by simp
qed

definition list_swap :: "'a list \<Rightarrow> nat \<Rightarrow> nat \<Rightarrow> 'a list" where
  "list_swap xs i j = xs[i := xs ! j, j := xs ! i]"

lemma list_swap_length [simp]: "length (list_swap xs i j) = length xs"
  by (simp add: list_swap_def)

lemma list_swap_mset [simp]: "i < length xs \<Longrightarrow> j < length xs \<Longrightarrow> mset (list_swap xs i j) = mset xs"
  by (simp add: list_swap_def mset_swap)

lemma list_swap_nth:
  "i < length xs \<Longrightarrow> j < length xs \<Longrightarrow> l < length xs \<Longrightarrow> list_swap xs i j ! l = xs ! (if l = i then j else if l = j then i else l)"
  by (auto simp: list_swap_def nth_list_update)

lemma elem_pos: "i < n \<Longrightarrow> a + i * es + es \<le> a + n * es" for i :: nat
  using mult_le_mono1 [of "Suc i" n es] by simp

lemma in_elem: "0 < es \<Longrightarrow> (i * es \<le> y \<and> y < i * es + es) \<longleftrightarrow> y div es = i" for y :: nat
  by (metis add.commute div_nat_eqI dividend_less_times_div mult.commute mult_Suc_right times_div_less_eq_dividend)

lemma exch_elems:
  assumes u: "uniform es xs" and e: "0 < es" and i: "i < length xs" and j: "j < length xs"
  shows "exch (pre @ concat xs @ post) (length pre + i * es) (length pre + j * es) es = pre @ concat (list_swap xs i j) @ post"
    (is "exch ?m ?p ?q es = _")
proof (rule nth_equalityI)
  have u': "uniform es (list_swap xs i j)" using uniform_mset u i j by (metis list_swap_mset)
  note len = uniform_concat [OF u] uniform_concat [OF u', unfolded list_swap_length]
  show "length (exch ?m ?p ?q es) = length (pre @ concat (list_swap xs i j) @ post)" using len by simp
  fix x
  assume "x < length (exch ?m ?p ?q es)"
  then have x: "x < length ?m" by simp
  note ends = elem_pos [OF i, of "length pre" es] elem_pos [OF j, of "length pre" es]
  consider (pre) "x < length pre" | (arr) y where "x = length pre + y" "y < length xs * es" | (post) "length pre + length xs * es \<le> x"
    by (metis add_diff_inverse_nat le_add_diff_inverse less_diff_conv2 not_less add.commute)
  then show "exch ?m ?p ?q es ! x = (pre @ concat (list_swap xs i j) @ post) ! x"
  proof cases
    case arr
    let ?l = "y div es" and ?r = "y mod es"
    have l: "?l < length xs" "y = ?l * es + ?r" "?r < es" using arr(2) e by (simp_all add: less_mult_imp_div_less)
    have pos: "k * es + ?r < length xs * es" "concat xs ! (k * es + ?r) = xs ! k ! ?r" if "k < length xs" for k
    proof -
      show "k * es + ?r < length xs * es" using elem_pos [OF that, of 0 es] l(3) by linarith
      then show "concat xs ! (k * es + ?r) = xs ! k ! ?r" using concat_nth [OF u, of "k * es + ?r"] l(3) by simp
    qed
    have m: "?m ! (length pre + (k * es + ?r)) = xs ! k ! ?r" if "k < length xs" for k
      using pos [OF that] len(1) by (simp add: nth_append)
    have c: "?p \<le> x \<and> x < ?p + es \<longleftrightarrow> ?l = i" "?q \<le> x \<and> x < ?q + es \<longleftrightarrow> ?l = j"
      using in_elem [OF e, of i y] in_elem [OF e, of j y] arr(1) by auto
    have d: "?l = i \<Longrightarrow> ?q + (x - ?p) = length pre + (j * es + ?r)" "?l = j \<Longrightarrow> ?p + (x - ?q) = length pre + (i * es + ?r)"
      "x = length pre + (?l * es + ?r)"
      using arr(1) l(2) by auto
    have "exch ?m ?p ?q es ! x = xs ! (if ?l = i then j else if ?l = j then i else ?l) ! ?r"
      unfolding exch_nth [OF x] c using m [OF i] m [OF j] m [OF l(1), folded d(3)] d(1,2)
      by (cases "?l = i"; cases "?l = j") (simp_all only: if_True if_False refl)
    moreover have "(pre @ concat (list_swap xs i j) @ post) ! x = list_swap xs i j ! ?l ! ?r"
      using arr len(2) concat_nth [OF u', of y] by (simp add: nth_append)
    ultimately show ?thesis using list_swap_nth [OF i j l(1)] by simp
  qed (use x len ends in \<open>auto simp: exch_nth nth_append\<close>)
qed

text \<open>What \<open>qsort\<close> relies on: the comparison function reads the two elements, and the size is right.\<close>

definition compares :: "nat \<Rightarrow> (block \<Rightarrow> nat \<Rightarrow> nat \<Rightarrow> int option) \<Rightarrow> (block \<Rightarrow> block \<Rightarrow> int) \<Rightarrow> bool" where
  "compares es cmp c \<longleftrightarrow> (\<forall>m p q. p + es \<le> length m \<longrightarrow> q + es \<le> length m
     \<longrightarrow> cmp m p q = Some (c (take es (drop p m)) (take es (drop q m))))"

definition sort_ok :: "(block \<Rightarrow> block \<Rightarrow> int) \<Rightarrow> Sort \<Rightarrow> bool" where
  "sort_ok c p \<longleftrightarrow> 0 < so_es p \<and> so_es p < 2 ^ 32 \<and> (so_longs p \<longrightarrow> 4 dvd so_es p) \<and> compares (so_es p) (so_cmp p) c"

definition arr :: "block \<Rightarrow> block list \<Rightarrow> block \<Rightarrow> block" where
  "arr pre xs post = pre @ concat xs @ post"

lemma arr_length: "uniform es xs \<Longrightarrow> length (arr pre xs post) = length pre + length xs * es + length post"
  by (simp add: arr_def uniform_concat)

lemma elem_in: "uniform es xs \<Longrightarrow> i < length xs \<Longrightarrow> length pre + i * es + es \<le> length (arr pre xs post)"
  using elem_pos [of i "length xs" "length pre" es] by (simp add: arr_length)

lemma cmp_elems:
  assumes "sort_ok c p" and "so_es p = es" and "uniform es xs" and "i < length xs" and "j < length xs"
  shows "so_cmp p (arr pre xs post) (length pre + i * es) (length pre + j * es) = Some (c (xs ! i) (xs ! j))"
proof -
  have "so_cmp p m s t = Some (c (take es (drop s m)) (take es (drop t m)))" if "s + es \<le> length m" "t + es \<le> length m" for m s t
    using assms(1,2) that unfolding sort_ok_def compares_def by blast
  then show ?thesis
    using elem_in [OF assms(3,4), of pre post] elem_in [OF assms(3,5), of pre post] elem_at [OF assms(3,4), of pre post]
      elem_at [OF assms(3,5), of pre post] by (simp add: arr_def)
qed

lemma swap_elems:
  assumes "sort_ok c p" and "so_es p = es" and "uniform es xs" and "i < length xs" and "j < length xs"
  shows "so_swap p (arr pre xs post) (length pre + i * es) (length pre + j * es) = Some (arr pre (list_swap xs i j) post)"
proof -
  have e: "0 < es" "unat (of_nat es :: u32) = es" using assms(1,2) by (auto simp: sort_ok_def unat_of_nat)
  have "apart (length pre + i * es) (length pre + j * es) es"
    using elem_pos [of i j 0 es] elem_pos [of j i 0 es] by (cases i j rule: linorder_cases) (auto simp: apart_def)
  note a = this elem_in [OF assms(3,4)] elem_in [OF assms(3,5)]
  have x: "exch (arr pre xs post) (length pre + i * es) (length pre + j * es) es = arr pre (list_swap xs i j) post"
    unfolding arr_def by (rule exch_elems [OF assms(3) e(1) assms(4,5)])
  show ?thesis
  proof (cases "so_longs p")
    case True
    then obtain n where n: "es = 4 * n" using assms(1,2) by (auto simp: sort_ok_def)
    show ?thesis
      using swapi_exch [of "of_nat es" n "length pre + i * es" "length pre + j * es" "arr pre xs post", folded n] e a x True assms(2) n
      by (simp add: so_swap_def)
  next
    case False
    then show ?thesis
      using swapb_exch [OF e(2,1) a] x assms(2) by (simp add: so_swap_def)
  qed
qed

lemma list_swap_uniform [simp]: "i < length xs \<Longrightarrow> j < length xs \<Longrightarrow> uniform es (list_swap xs i j) = uniform es xs"
  by (rule uniform_mset) simp

section \<open>Partition\<close>

lemma scan_up_correct:
  assumes ok: "sort_ok c p" "so_es p = es" "uniform es xs" and "i < length xs"
  shows "\<exists>k. scan_up p (arr pre xs post) (length pre) (length pre + length xs * es) (length pre + i * es) = Some (length pre + k * es)
    \<and> i < k \<and> k \<le> length xs \<and> (\<forall>l. i < l \<and> l < k \<longrightarrow> c (xs ! l) (xs ! 0) < 0) \<and> (k < length xs \<longrightarrow> 0 \<le> c (xs ! k) (xs ! 0))"
  using assms(4)
proof (induction "length xs - i" arbitrary: i rule: less_induct)
  case less
  have e: "0 < es" using ok by (auto simp: sort_ok_def)
  have pos: "length pre + i * es + es = length pre + Suc i * es" by simp
  have lt: "length pre + Suc i * es < length pre + length xs * es \<longleftrightarrow> Suc i < length xs" using e by (simp del: mult_Suc)
  note step = scan_up.simps [of p "arr pre xs post" "length pre" "length pre + length xs * es" "length pre + i * es", unfolded ok(2) pos lt]
  show ?case
  proof (cases "Suc i < length xs")
    case True
    have c: "so_cmp p (arr pre xs post) (length pre + Suc i * es) (length pre) = Some (c (xs ! Suc i) (xs ! 0))"
      using cmp_elems [OF ok True, of 0 pre post] True by (cases "xs = []") (simp_all del: mult_Suc)
    show ?thesis
    proof (cases "c (xs ! Suc i) (xs ! 0) < 0")
      case neg: True
      have "length xs - Suc i < length xs - i" using less(2) by simp
      then obtain k where k: "scan_up p (arr pre xs post) (length pre) (length pre + length xs * es) (length pre + Suc i * es) = Some (length pre + k * es)"
        "Suc i < k" "k \<le> length xs" "\<forall>l. Suc i < l \<and> l < k \<longrightarrow> c (xs ! l) (xs ! 0) < 0" "k < length xs \<longrightarrow> 0 \<le> c (xs ! k) (xs ! 0)"
        using less(1) [OF _ True] by blast
      have "c (xs ! l) (xs ! 0) < 0" if "i < l" "l < k" for l
        using k(4) neg that by (cases "l = Suc i") auto
      moreover have "scan_up p (arr pre xs post) (length pre) (length pre + length xs * es) (length pre + i * es) = Some (length pre + k * es)"
        using step c True neg k(1) e by (simp del: mult_Suc)
      ultimately show ?thesis using k by (intro exI [of _ k]) auto
    qed (use step c True e in \<open>intro exI [of _ "Suc i"], auto simp del: mult_Suc\<close>)
  qed (use step e less(2) in \<open>intro exI [of _ "Suc i"], auto simp del: mult_Suc\<close>)
qed

lemma scan_down_correct:
  assumes ok: "sort_ok c p" "so_es p = es" "uniform es xs" and "0 < j" and "j \<le> length xs"
  shows "\<exists>k. scan_down p (arr pre xs post) (length pre) (length pre + j * es) = Some (length pre + k * es)
    \<and> k < j \<and> (\<forall>l. k < l \<and> l < j \<longrightarrow> 0 < c (xs ! l) (xs ! 0)) \<and> (0 < k \<longrightarrow> c (xs ! k) (xs ! 0) \<le> 0)"
  using assms(4,5)
proof (induction j)
  case (Suc j)
  have e: "0 < es" using ok by (auto simp: sort_ok_def)
  have pos: "length pre + Suc j * es - es = length pre + j * es" "length pre + Suc j * es < es \<longleftrightarrow> False" by simp_all
  have lt: "length pre < length pre + j * es \<longleftrightarrow> 0 < j" using e by simp
  note step = scan_down.simps [of p "arr pre xs post" "length pre" "length pre + Suc j * es", unfolded ok(2) pos lt]
  show ?case
  proof (cases "0 < j")
    case True
    have c: "so_cmp p (arr pre xs post) (length pre + j * es) (length pre) = Some (c (xs ! j) (xs ! 0))"
      using cmp_elems [OF ok, of j 0 pre post] Suc.prems by (cases "xs = []") simp_all
    show ?thesis
    proof (cases "0 < c (xs ! j) (xs ! 0)")
      case pos: True
      obtain k where k: "scan_down p (arr pre xs post) (length pre) (length pre + j * es) = Some (length pre + k * es)"
        "k < j" "\<forall>l. k < l \<and> l < j \<longrightarrow> 0 < c (xs ! l) (xs ! 0)" "0 < k \<longrightarrow> c (xs ! k) (xs ! 0) \<le> 0"
        using Suc True by auto
      have "0 < c (xs ! l) (xs ! 0)" if "k < l" "l < Suc j" for l
        using k(3) pos that by (cases "l = j") auto
      moreover have "scan_down p (arr pre xs post) (length pre) (length pre + Suc j * es) = Some (length pre + k * es)"
        using step c True pos k(1) e by (simp del: mult_Suc)
      ultimately show ?thesis using k by (intro exI [of _ k]) auto
    qed (use step c True e in \<open>intro exI [of _ j], auto simp del: mult_Suc\<close>)
  qed (use step e in \<open>intro exI [of _ j], auto simp del: mult_Suc\<close>)
qed simp

definition part_inv :: "(block \<Rightarrow> block \<Rightarrow> int) \<Rightarrow> block list \<Rightarrow> nat \<Rightarrow> nat \<Rightarrow> bool" where
  "part_inv c xs i j \<longleftrightarrow> (\<forall>l. 0 < l \<and> l \<le> i \<longrightarrow> c (xs ! l) (xs ! 0) \<le> 0) \<and> (\<forall>l. j \<le> l \<and> l < length xs \<longrightarrow> 0 \<le> c (xs ! l) (xs ! 0))"

lemma qsort_split_correct:
  assumes "sort_ok c p" "so_es p = es" "uniform es xs" and "i < length xs" "0 < j" "j \<le> length xs" and "part_inv c xs i j"
  shows "\<exists>k xs'. qsort_split p (arr pre xs post) (length pre) (length pre + length xs * es) (length pre + i * es) (length pre + j * es)
      = Some (length pre + k * es, arr pre xs' post)
    \<and> k < length xs \<and> mset xs' = mset xs \<and> xs' ! 0 = xs ! 0 \<and> part_inv c xs' k (Suc k)"
  using assms(3-)
proof (induction j arbitrary: i xs rule: less_induct)
  case (less j)
  obtain k1 where k1: "scan_up p (arr pre xs post) (length pre) (length pre + length xs * es) (length pre + i * es) = Some (length pre + k1 * es)"
    "i < k1" "k1 \<le> length xs" "\<forall>l. i < l \<and> l < k1 \<longrightarrow> c (xs ! l) (xs ! 0) < 0" "k1 < length xs \<longrightarrow> 0 \<le> c (xs ! k1) (xs ! 0)"
    using scan_up_correct [OF assms(1,2) less(2,3)] by blast
  obtain k2 where k2: "scan_down p (arr pre xs post) (length pre) (length pre + j * es) = Some (length pre + k2 * es)"
    "k2 < j" "\<forall>l. k2 < l \<and> l < j \<longrightarrow> 0 < c (xs ! l) (xs ! 0)" "0 < k2 \<longrightarrow> c (xs ! k2) (xs ! 0) \<le> 0"
    using scan_down_correct [OF assms(1,2) less(2,4,5)] by blast
  have e: "0 < es" using assms(1,2) by (auto simp: sort_ok_def)
  have lt: "length pre + k2 * es < length pre + k1 * es \<longleftrightarrow> k2 < k1" using e by simp
  note step = qsort_split.simps [of p "arr pre xs post" "length pre" "length pre + length xs * es" "length pre + i * es" "length pre + j * es",
    unfolded k1(1) k2(1), simplified, unfolded lt]
  show ?case
  proof (cases "k2 < k1")
    case True
    have "c (xs ! l) (xs ! 0) \<le> 0" if "0 < l" "l \<le> k2" for l
      using less(6) k1(4) that True by (cases "l \<le> i") (auto simp: part_inv_def intro: less_imp_le)
    moreover have "0 \<le> c (xs ! l) (xs ! 0)" if "k2 < l" "l < length xs" for l
      using less(6) k2(3) that by (cases "j \<le> l") (auto simp: part_inv_def intro: less_imp_le)
    ultimately have "part_inv c xs k2 (Suc k2)" by (simp add: part_inv_def Suc_le_eq)
    then show ?thesis using step True k1 e by (intro exI [of _ k2] exI [of _ xs]) auto
  next
    case False
    have kl: "k1 < length xs" "k2 < length xs" "0 < k1" "0 < k2" using False k1(2) k2(2) less(5) by auto
    let ?ys = "list_swap xs k1 k2"
    have ys: "?ys ! l = xs ! (if l = k1 then k2 else if l = k2 then k1 else l)" if "l < length xs" for l
      using list_swap_nth [OF kl(1,2) that] .
    have y0: "?ys ! 0 = xs ! 0" using ys [of 0] kl by (cases xs) auto
    have sw: "so_swap p (arr pre xs post) (length pre + k1 * es) (length pre + k2 * es) = Some (arr pre ?ys post)"
      by (rule swap_elems [OF assms(1,2) less(2) kl(1,2)])
    have "c (?ys ! l) (?ys ! 0) \<le> 0" if "0 < l" "l \<le> k1" for l
      using less(6) k1(4) k2(4) that kl False ys [of l] unfolding y0
      by (cases "l \<le> i") (auto simp: part_inv_def intro: less_imp_le)
    moreover have "0 \<le> c (?ys ! l) (?ys ! 0)" if "k2 \<le> l" "l < length xs" for l
      using less(6) k2(3) k1(5) that kl False ys [of l] unfolding y0
      by (cases "j \<le> l") (auto simp: part_inv_def intro: less_imp_le)
    ultimately have "part_inv c ?ys k1 k2" by (simp add: part_inv_def)
    then obtain k xs' where "qsort_split p (arr pre ?ys post) (length pre) (length pre + length xs * es) (length pre + k1 * es) (length pre + k2 * es)
      = Some (length pre + k * es, arr pre xs' post)" "k < length xs" "mset xs' = mset xs" "xs' ! 0 = xs ! 0" "part_inv c xs' k (Suc k)"
      using less(1) [OF k2(2), of ?ys k1] less(2) kl y0 by auto
    then show ?thesis using step False sw by (intro exI [of _ k] exI [of _ xs']) auto
  qed
qed

lemma pivot_element:
  assumes ok: "sort_ok c p" "so_es p = es" "uniform es xs" and n: "10 < length xs"
  shows "\<exists>k < length xs. pivot p (arr pre xs post) (length pre) (length xs) = Some (length pre + k * es)"
proof -
  let ?k = "length xs div 6"
  have lt: "?k < length xs" "3 * ?k < length xs" "5 * ?k < length xs" using n by linarith+
  have pos: "length pre + ?k * es + (?k * es + ?k * es) = length pre + (3 * ?k) * es"
    "length pre + (3 * ?k) * es + (?k * es + ?k * es) = length pre + (5 * ?k) * es" by (simp_all add: algebra_simps)
  note c = cmp_elems [OF ok lt(1) lt(2), of pre post] cmp_elems [OF ok lt(1) lt(3), of pre post] cmp_elems [OF ok lt(2) lt(3), of pre post]
  have "pivot p (arr pre xs post) (length pre) (length xs) \<in> {Some (length pre + ?k * es), Some (length pre + (3 * ?k) * es), Some (length pre + (5 * ?k) * es)}"
    unfolding pivot_def Let_def ok(2) pos c by auto
  then show ?thesis using lt by blast
qed

definition ordering :: "('a \<Rightarrow> 'a \<Rightarrow> int) \<Rightarrow> bool" where
  "ordering c \<longleftrightarrow> (\<forall>x y. sgn (c y x) = - sgn (c x y)) \<and> (\<forall>x y z. c x y \<le> 0 \<longrightarrow> c y z \<le> 0 \<longrightarrow> c x z \<le> 0)"

text \<open>One round of \<open>qsorts\<close>: the memory before the recursive calls.\<close>

lemma qsorts_round:
  assumes ok: "sort_ok c p" "so_es p = es" "uniform es xs" and n: "1 < length xs"
  shows "\<exists>k ys. k < length xs \<and> mset ys = mset xs \<and> (\<forall>l < k. c (ys ! l) (ys ! k) \<le> 0) \<and> (\<forall>l. k < l \<and> l < length ys \<longrightarrow> 0 \<le> c (ys ! l) (ys ! k))
    \<and> qsorts p (arr pre xs post) (length pre) (length xs) = (let n = length xs - (k + 1); pj = length pre + (k + 1) * es in
        if k \<ge> n then do { m \<leftarrow> qsorts p (arr pre ys post) (length pre) k; qsorts p m pj n }
        else do { m \<leftarrow> qsorts p (arr pre ys post) pj n; qsorts p m (length pre) k })"
proof -
  have e: "0 < es" using ok by (auto simp: sort_ok_def)
  let ?pick = "if 10 < length xs then pivot p (arr pre xs post) (length pre) (length xs) else Some (length pre + length xs div 2 * es)"
  have "\<exists>h < length xs. ?pick = Some (length pre + h * es)"
  proof (cases "10 < length xs")
    case False
    have "length xs div 2 < length xs" using n by linarith
    then show ?thesis using False by (metis (full_types))
  qed (use pivot_element [OF ok, of pre post] in simp)
  then obtain h where h: "h < length xs" "?pick = Some (length pre + h * es)" by blast
  let ?xs1 = "list_swap xs 0 h"
  have n0: "0 < length xs" using n by linarith
  have u1: "uniform es ?xs1" "length ?xs1 = length xs" "mset ?xs1 = mset xs" using ok(3) h(1) n0 by simp_all
  have s1: "so_swap p (arr pre xs post) (length pre) (length pre + h * es) = Some (arr pre ?xs1 post)"
    using swap_elems [OF ok n0 h(1)] by simp
  obtain k zs where k: "qsort_split p (arr pre ?xs1 post) (length pre) (length pre + length xs * es) (length pre) (length pre + length xs * es)
      = Some (length pre + k * es, arr pre zs post)" "k < length xs" "mset zs = mset xs" "part_inv c zs k (Suc k)"
    using qsort_split_correct [OF ok(1,2) u1(1), of 0 "length xs" pre post] u1 n0 by (auto simp: part_inv_def)
  have lz: "length zs = length xs" "uniform es zs" using k(3) ok(3) uniform_mset by (metis size_mset, metis)
  let ?ys = "list_swap zs 0 k"
  have s2: "so_swap p (arr pre zs post) (length pre) (length pre + k * es) = Some (arr pre ?ys post)"
    using swap_elems [OF ok(1,2) lz(2), of 0 k pre post] lz(1) k(2) n0 by simp
  have ys: "?ys ! l = zs ! (if l = 0 then k else if l = k then 0 else l)" if "l < length xs" for l
    using list_swap_nth [of 0 zs k l] that lz k(2) n0 by simp
  have le: "c (?ys ! l) (?ys ! k) \<le> 0" if "l < k" for l
    using ys [of l] ys [of k] that k(2,4) n0 by (cases "l = 0") (auto simp: part_inv_def)
  have ge: "0 \<le> c (?ys ! l) (?ys ! k)" if "k < l" "l < length xs" for l
    using ys [of l] ys [of k] that k(2,4) lz(1) by (auto simp: part_inv_def)
  have q: "qsorts p (arr pre xs post) (length pre) (length xs) = (let n = length xs - (k + 1); pj = length pre + (k + 1) * es in
        if k \<ge> n then do { m \<leftarrow> qsorts p (arr pre ?ys post) (length pre) k; qsorts p m pj n }
        else do { m \<leftarrow> qsorts p (arr pre ?ys post) pj n; qsorts p m (length pre) k })"
    by (subst qsorts.simps, simp only: Let_def ok(2) h(2) s1 k(1) s2 n if_True Option.bind.simps prod.case) (use e in simp)
  have ms: "mset ?ys = mset xs" "length ?ys = length xs" using lz(1) k(2,3) n0 by simp_all
  show ?thesis
  proof (intro exI conjI allI impI)
    show "0 \<le> c (?ys ! l) (?ys ! k)" if "k < l \<and> l < length ?ys" for l using ge [of l] that ms(2) by simp
  qed (fact k(2) ms(1) le q)+
qed

text \<open>The elements outside the two parts do not move.\<close>

lemma sort_parts:
  assumes k: "k < length ys" and a: "mset as = mset (take k ys)" and b: "mset bs = mset (drop (Suc k) ys)" and o: "ordering c"
    and le: "\<forall>l < k. c (ys ! l) (ys ! k) \<le> 0" and ge: "\<forall>l. k < l \<and> l < length ys \<longrightarrow> 0 \<le> c (ys ! l) (ys ! k)"
    and s: "sorted_wrt (\<lambda>x y. c x y \<le> 0) as" "sorted_wrt (\<lambda>x y. c x y \<le> 0) bs"
  shows "sorted_wrt (\<lambda>x y. c x y \<le> 0) (as @ ys ! k # bs)"
proof -
  have sa: "set as = set (take k ys)" "set bs = set (drop (Suc k) ys)" using a b by (metis set_mset_mset)+
  have "c x (ys ! k) \<le> 0" if "x \<in> set as" for x
    using that le k unfolding sa by (auto simp: in_set_conv_nth)
  moreover have "c (ys ! k) y \<le> 0" if "y \<in> set bs" for y
  proof -
    have "0 \<le> c y (ys ! k)" using that ge k unfolding sa by (auto simp: in_set_conv_nth)
    moreover have "sgn (c (ys ! k) y) = - sgn (c y (ys ! k))" using o unfolding ordering_def by blast
    ultimately show ?thesis by (simp add: sgn_if split: if_splits)
  qed
  ultimately have "\<forall>x \<in> set as. c x (ys ! k) \<le> 0" "\<forall>y \<in> set bs. c (ys ! k) y \<le> 0" by simp_all
  moreover from this have "\<forall>x \<in> set as. \<forall>y \<in> set bs. c x y \<le> 0" using o unfolding ordering_def by meson
  ultimately show ?thesis using s by (simp add: sorted_wrt_append)
qed

lemma qsorts_correct:
  assumes ok: "sort_ok c p" "so_es p = es"
  shows "uniform es xs \<Longrightarrow> \<exists>ys. qsorts p (arr pre xs post) (length pre) (length xs) = Some (arr pre ys post) \<and> mset ys = mset xs
    \<and> (ordering c \<longrightarrow> sorted_wrt (\<lambda>x y. c x y \<le> 0) ys)"
proof (induction "length xs" arbitrary: xs pre post rule: less_induct)
  case less
  show ?case
  proof (cases "1 < length xs")
    case False
    then have "qsorts p (arr pre xs post) (length pre) (length xs) = Some (arr pre xs post)" by (subst qsorts.simps) simp
    moreover have "sorted_wrt (\<lambda>x y. c x y \<le> 0) xs" using False by (cases xs) auto
    ultimately show ?thesis by blast
  next
    case True
    obtain k ys where k: "k < length xs" "mset ys = mset xs" "\<forall>l < k. c (ys ! l) (ys ! k) \<le> 0" "\<forall>l. k < l \<and> l < length ys \<longrightarrow> 0 \<le> c (ys ! l) (ys ! k)"
      and q: "qsorts p (arr pre xs post) (length pre) (length xs) = (let n = length xs - (k + 1); pj = length pre + (k + 1) * es in
        if k \<ge> n then do { m \<leftarrow> qsorts p (arr pre ys post) (length pre) k; qsorts p m pj n }
        else do { m \<leftarrow> qsorts p (arr pre ys post) pj n; qsorts p m (length pre) k })"
      using qsorts_round [OF ok less(2) True, of pre post] by (elim exE conjE) (rule that)
    have u: "uniform es ys" "length ys = length xs" using k(2) less(2) uniform_mset by (metis, metis size_mset)
    have ut: "uniform es (take k ys)" "uniform es (drop (Suc k) ys)" using u(1) by (metis append_take_drop_id uniform_append)+
    \<comment> \<open>sorting the left part, and the right part, of an array with the same element \<open>k\<close>\<close>
    have left: "\<exists>as. qsorts p (arr pre (take k ys @ zs) post) (length pre) k = Some (arr pre (as @ zs) post) \<and> mset as = mset (take k ys)
        \<and> (ordering c \<longrightarrow> sorted_wrt (\<lambda>x y. c x y \<le> 0) as)" for zs
      using less(1) [OF _ ut(1), of pre "concat zs @ post"] k(1) u(2) unfolding arr_def concat_append append_assoc
      by (simp only: length_take min.absorb2 less_imp_le)
    have right: "\<exists>bs. qsorts p (arr pre (as @ drop (Suc k) ys) post) (length pre + Suc k * es) (length xs - Suc k) = Some (arr pre (as @ bs) post)
        \<and> mset bs = mset (drop (Suc k) ys) \<and> (ordering c \<longrightarrow> sorted_wrt (\<lambda>x y. c x y \<le> 0) bs)" if "length as = Suc k" "uniform es as" for as
      using less(1) [OF _ ut(2), of "pre @ concat as" post] that(1) uniform_concat [OF that(2)] k(1) u(2)
      unfolding arr_def concat_append append_assoc length_append length_drop by simp
    have ys: "ys = take k ys @ ys ! k # drop (Suc k) ys" by (rule id_take_nth_drop) (use k(1) u(2) in simp)
    have mid: "length (ys ! k) = es" "k < length ys" using uniform_nth [OF u(1)] k(1) u(2) by simp_all
    have "\<exists>as bs. qsorts p (arr pre xs post) (length pre) (length xs) = Some (arr pre (as @ ys ! k # bs) post)
      \<and> mset as = mset (take k ys) \<and> mset bs = mset (drop (Suc k) ys)
      \<and> (ordering c \<longrightarrow> sorted_wrt (\<lambda>x y. c x y \<le> 0) as \<and> sorted_wrt (\<lambda>x y. c x y \<le> 0) bs)"
    proof (cases "length xs - (k + 1) \<le> k")
      case True
      obtain as where as: "qsorts p (arr pre ys post) (length pre) k = Some (arr pre (as @ ys ! k # drop (Suc k) ys) post)"
        "mset as = mset (take k ys)" "ordering c \<longrightarrow> sorted_wrt (\<lambda>x y. c x y \<le> 0) as"
        using left [of "ys ! k # drop (Suc k) ys"] ys by metis
      have "uniform es (as @ [ys ! k])" "length (as @ [ys ! k]) = Suc k"
        using uniform_mset [OF as(2)] ut(1) mid mset_eq_length [OF as(2)] by (auto simp: uniform_def)
      from right [OF this(2,1)] show ?thesis using q True as by (auto simp: Let_def)
    next
      case False
      obtain bs where bs: "qsorts p (arr pre ys post) (length pre + Suc k * es) (length xs - Suc k) = Some (arr pre (take (Suc k) ys @ bs) post)"
        "mset bs = mset (drop (Suc k) ys)" "ordering c \<longrightarrow> sorted_wrt (\<lambda>x y. c x y \<le> 0) bs"
        using right [of "take (Suc k) ys"] mid(2) u(1) by (metis append_take_drop_id length_take min.absorb2 Suc_leI uniform_append)
      have "take (Suc k) ys @ bs = take k ys @ ys ! k # bs" using mid(2) by (simp add: take_Suc_conv_app_nth)
      then show ?thesis using left [of "ys ! k # bs"] q False bs by (auto simp: Let_def)
    qed
    then obtain as bs where z: "qsorts p (arr pre xs post) (length pre) (length xs) = Some (arr pre (as @ ys ! k # bs) post)"
      "mset as = mset (take k ys)" "mset bs = mset (drop (Suc k) ys)"
      "ordering c \<longrightarrow> sorted_wrt (\<lambda>x y. c x y \<le> 0) as \<and> sorted_wrt (\<lambda>x y. c x y \<le> 0) bs" by blast
    have "mset (as @ ys ! k # bs) = mset (take k ys @ ys ! k # drop (Suc k) ys)" using z(2,3) by simp
    then have "mset (as @ ys ! k # bs) = mset xs" unfolding ys [symmetric] k(2) .
    moreover have "sorted_wrt (\<lambda>x y. c x y \<le> 0) (as @ ys ! k # bs)" if "ordering c"
      using sort_parts [OF mid(2) z(2,3) that k(3,4)] z(4) that by blast
    ultimately show ?thesis using z(1) by blast
  qed
qed

lemma qsort_correct:
  assumes "compares es cmp c" and "uniform es xs" and "0 < es" "es < 2 ^ 32" and "length xs < 2 ^ 32"
  shows "\<exists>ys. qsort (arr pre xs post) (length pre) (int (length xs)) es cmp = Some (arr pre ys post) \<and> mset ys = mset xs
    \<and> (ordering c \<longrightarrow> sorted_wrt (\<lambda>x y. c x y \<le> 0) ys)"
proof -
  let ?p = "\<lparr>so_cmp = cmp, so_longs = (length pre OR es) mod 4 = 0, so_es = es\<rparr>"
  have "take_bit 2 es = 0" if "(length pre OR es) mod 4 = 0"
  proof -
    have "take_bit 2 (length pre OR es) = 0" using that by (simp add: take_bit_eq_mod)
    then show ?thesis by (metis take_bit_or or_eq_0_iff)
  qed
  then have "sort_ok c ?p" using assms by (auto simp: sort_ok_def take_bit_eq_mod)
  moreover have "unat (of_int (int (length xs)) :: u32) = length xs" using assms(5) by (simp add: unat_of_nat)
  ultimately show ?thesis using qsorts_correct [of c ?p es xs pre post] assms(2) by (simp add: qsort_def)
qed

section \<open>The order of the caller\<close>

text \<open>What a comparison function has to be for \<open>qsort\<close> to sort: a total preorder of what it reads.\<close>

locale sort_order =
  fixes es :: nat and cmp :: "block \<Rightarrow> nat \<Rightarrow> nat \<Rightarrow> int option" and c :: "block \<Rightarrow> block \<Rightarrow> int"
  assumes reads: "compares es cmp c"
    and flip: "sgn (c y x) = - sgn (c x y)"
    and transitive: "c x y \<le> 0 \<Longrightarrow> c y z \<le> 0 \<Longrightarrow> c x z \<le> 0"
begin

lemma is_ordering: "ordering c"
  unfolding ordering_def using flip transitive by blast

lemma sorts:
  assumes "uniform es xs" and "0 < es" "es < 2 ^ 32" and "length xs < 2 ^ 32"
  shows "\<exists>ys. qsort (arr pre xs post) (length pre) (int (length xs)) es cmp = Some (arr pre ys post) \<and> mset ys = mset xs
    \<and> sorted_wrt (\<lambda>x y. c x y \<le> 0) ys"
  using qsort_correct [OF reads assms] is_ordering by blast

end

lemma str_order_trans: "str_order s t \<le> 0 \<Longrightarrow> str_order t u \<le> 0 \<Longrightarrow> str_order s u \<le> 0"
proof (induction s t arbitrary: u rule: str_order.induct)
  case (2 d t)
  then show ?case by (cases u) auto
next
  case (4 a s b t)
  then show ?case by (cases u) (auto split: if_splits)
qed (auto elim: str_order.elims)

interpretation by_bytes: sort_order es "\<lambda>m p q. memcmp m p q es" str_order for es
proof
  show "compares es (\<lambda>m p q. memcmp m p q es) str_order" by (simp add: compares_def memcmp_correct)
  show "sgn (str_order y x) = - sgn (str_order x y)" for x y by (subst str_order_swap) (simp add: sgn_if)
qed (rule str_order_trans)

end
