(* ===== verification/MpVec.thy ===== *)
theory MpVec
  imports Prelude
begin

text \<open>
  Vectors of digits: the inner loops of \<^verbatim>\<open>libmp/port\<close>.  An \<open>mpdigit\<close> has 32 bits.  Digits live in arrays; a pointer is an array and
  an offset, so that the vectors of one call may overlap.  The lengths, \<open>int\<close> in the source, are natural numbers, and a
  loop variable that only counts down to the length is the number of rounds left.
\<close>

section \<open>Digits in memory\<close>

type_synonym mpdigit = u32
type_synonym dptr = "nat \<times> nat"
type_synonym dmem = "nat \<Rightarrow> mpdigit list option"

abbreviation Dbits :: nat where "Dbits \<equiv> 32"

definition dld :: "dmem \<Rightarrow> dptr \<Rightarrow> mpdigit option" where
  "dld m p = (case m (fst p) of None \<Rightarrow> None | Some ds \<Rightarrow> if snd p < length ds then Some (ds ! snd p) else None)"

definition dst :: "dmem \<Rightarrow> dptr \<Rightarrow> mpdigit \<Rightarrow> dmem option" where
  "dst m p d = (case m (fst p) of None \<Rightarrow> None
     | Some ds \<Rightarrow> if snd p < length ds then Some (m(fst p \<mapsto> ds[snd p := d])) else None)"

definition dadd :: "dptr \<Rightarrow> nat \<Rightarrow> dptr" where
  "dadd p n = (fst p, snd p + n)"

text \<open>C's comparisons as numbers.\<close>

abbreviation num :: "bool \<Rightarrow> mpdigit" where "num b \<equiv> (if b then 1 else 0)"

section \<open>Addition and subtraction\<close>

fun mpvecadd_both :: "dmem \<Rightarrow> dptr \<Rightarrow> dptr \<Rightarrow> dptr \<Rightarrow> mpdigit \<Rightarrow> nat \<Rightarrow> (mpdigit \<times> dmem) option" where
  "mpvecadd_both m a b s carry 0 = Some (carry, m)"
| "mpvecadd_both m a b s carry (Suc n) = do {
     x \<leftarrow> dld m a;
     y \<leftarrow> dld m b;
     let x = x + carry;
     let carry = num (x < carry);
     let x = x + y;
     let carry = carry + num (x < y);
     m \<leftarrow> dst m s x;
     mpvecadd_both m (dadd a 1) (dadd b 1) (dadd s 1) carry n
   }"

fun mpvecadd_carry :: "dmem \<Rightarrow> dptr \<Rightarrow> dptr \<Rightarrow> mpdigit \<Rightarrow> nat \<Rightarrow> (mpdigit \<times> dmem) option" where
  "mpvecadd_carry m a s carry 0 = Some (carry, m)"
| "mpvecadd_carry m a s carry (Suc n) = do {
     x \<leftarrow> dld m a;
     let x = x + carry;
     let carry = num (x < carry);
     m \<leftarrow> dst m s x;
     mpvecadd_carry m (dadd a 1) (dadd s 1) carry n
   }"

definition mpvecadd :: "dmem \<Rightarrow> dptr \<Rightarrow> nat \<Rightarrow> dptr \<Rightarrow> nat \<Rightarrow> dptr \<Rightarrow> dmem option" where
  "mpvecadd m a alen b blen s = do {
     (carry, m) \<leftarrow> mpvecadd_both m a b s 0 blen;
     (carry, m) \<leftarrow> mpvecadd_carry m (dadd a blen) (dadd s blen) carry (alen - blen);
     dst m (dadd s (max alen blen)) carry
   }"

fun mpvecsub_both :: "dmem \<Rightarrow> dptr \<Rightarrow> dptr \<Rightarrow> dptr \<Rightarrow> mpdigit \<Rightarrow> nat \<Rightarrow> (mpdigit \<times> dmem) option" where
  "mpvecsub_both m a b diff borrow 0 = Some (borrow, m)"
| "mpvecsub_both m a b diff borrow (Suc n) = do {
     x \<leftarrow> dld m a;
     y \<leftarrow> dld m b;
     let y = y + borrow;
     let borrow = num (y < borrow);
     let borrow = borrow + num (x < y);
     m \<leftarrow> dst m diff (x - y);
     mpvecsub_both m (dadd a 1) (dadd b 1) (dadd diff 1) borrow n
   }"

fun mpvecsub_borrow :: "dmem \<Rightarrow> dptr \<Rightarrow> dptr \<Rightarrow> mpdigit \<Rightarrow> nat \<Rightarrow> (mpdigit \<times> dmem) option" where
  "mpvecsub_borrow m a diff borrow 0 = Some (borrow, m)"
| "mpvecsub_borrow m a diff borrow (Suc n) = do {
     x \<leftarrow> dld m a;
     let y = x - borrow;
     let borrow = num (y > x);
     m \<leftarrow> dst m diff y;
     mpvecsub_borrow m (dadd a 1) (dadd diff 1) borrow n
   }"

definition mpvecsub :: "dmem \<Rightarrow> dptr \<Rightarrow> nat \<Rightarrow> dptr \<Rightarrow> nat \<Rightarrow> dptr \<Rightarrow> dmem option" where
  "mpvecsub m a alen b blen diff = do {
     (borrow, m) \<leftarrow> mpvecsub_both m a b diff 0 blen;
     (borrow, m) \<leftarrow> mpvecsub_borrow m (dadd a blen) (dadd diff blen) borrow (alen - blen);
     Some m
   }"

section \<open>Comparison\<close>

text \<open>\<open>while(alen > blen) if(a[--alen] != 0) return 1\<close>, for \<open>n = alen - blen\<close> rounds: whether it returns.\<close>

fun mpveccmp_high :: "dmem \<Rightarrow> dptr \<Rightarrow> nat \<Rightarrow> nat \<Rightarrow> bool option" where
  "mpveccmp_high m a len 0 = Some False"
| "mpveccmp_high m a len (Suc n) = do {
     x \<leftarrow> dld m (dadd a (len - 1));
     if x \<noteq> 0 then Some True else mpveccmp_high m a (len - 1) n
   }"

fun mpveccmp_both :: "dmem \<Rightarrow> dptr \<Rightarrow> dptr \<Rightarrow> nat \<Rightarrow> int option" where
  "mpveccmp_both m a b 0 = Some 0"
| "mpveccmp_both m a b (Suc n) = do {
     ad \<leftarrow> dld m (dadd a n);
     bd \<leftarrow> dld m (dadd b n);
     let x = ad - bd;
     if x = 0 then mpveccmp_both m a b n
     else if x > ad then Some (- 1) else Some 1
   }"

definition mpveccmp :: "dmem \<Rightarrow> dptr \<Rightarrow> nat \<Rightarrow> dptr \<Rightarrow> nat \<Rightarrow> int option" where
  "mpveccmp m a alen b blen = do {
     r \<leftarrow> mpveccmp_high m a alen (alen - blen);
     if r then Some 1
     else do {
       r \<leftarrow> mpveccmp_high m b blen (blen - alen);
       if r then Some (- 1)
       else mpveccmp_both m a b (min alen blen)
     }
   }"

text \<open>\<open>mpvectscmp\<close> takes the same time for all digits.  \<open>v |= a[--alen]\<close>; the top bit of \<open>-v^v|v\<close> says that \<open>v\<close> is not 0.\<close>

fun mpvectscmp_or :: "dmem \<Rightarrow> dptr \<Rightarrow> nat \<Rightarrow> nat \<Rightarrow> mpdigit \<Rightarrow> mpdigit option" where
  "mpvectscmp_or m a len 0 v = Some v"
| "mpvectscmp_or m a len (Suc n) v = do {
     x \<leftarrow> dld m (dadd a (len - 1));
     mpvectscmp_or m a (len - 1) n (v OR x)
   }"

definition nonzero_bit :: "mpdigit \<Rightarrow> mpdigit" where
  "nonzero_bit v = drop_bit (Dbits - 1) (((- v) XOR v) OR v)"

fun mpvectscmp_both :: "dmem \<Rightarrow> dptr \<Rightarrow> dptr \<Rightarrow> nat \<Rightarrow> u32 \<Rightarrow> u32 \<Rightarrow> (u32 \<times> u32) option" where
  "mpvectscmp_both mem a b 0 m p = Some (m, p)"
| "mpvectscmp_both mem a b (Suc n) m p = do {
     x \<leftarrow> dld mem (dadd a n);
     y \<leftarrow> dld mem (dadd b n);
     let z = x - y;
     let x = NOT x;
     let v = nonzero_bit z AND NOT m;
     let p = (drop_bit (Dbits - 1) (NOT ((x AND y) OR (x AND z) OR (y AND z))) AND v) OR (p AND NOT v);
     mpvectscmp_both mem a b n (m OR v) p
   }"

definition mpvectscmp :: "dmem \<Rightarrow> dptr \<Rightarrow> nat \<Rightarrow> dptr \<Rightarrow> nat \<Rightarrow> int option" where
  "mpvectscmp mem a alen b blen = do {
     (m, p) \<leftarrow> (if alen > blen then do {
          v \<leftarrow> mpvectscmp_or mem a alen (alen - blen) 0;
          let m = nonzero_bit v;
          Some (m, m)
        } else if blen > alen then do {
          v \<leftarrow> mpvectscmp_or mem b blen (blen - alen) 0;
          let m = nonzero_bit v;
          Some (m, m XOR 1)
        } else Some (0, 0));
     (m, p) \<leftarrow> mpvectscmp_both mem a b (min alen blen) m p;
     Some (sint ((p - m) OR m))
   }"

section \<open>Multiplication\<close>

abbreviation LO :: "mpdigit \<Rightarrow> mpdigit" where "LO x \<equiv> x AND 0xFFFF"
abbreviation HI :: "mpdigit \<Rightarrow> mpdigit" where "HI x \<equiv> drop_bit 16 x"

text \<open>The low and the high digit of the product.\<close>

definition mpdigmul :: "mpdigit \<Rightarrow> mpdigit \<Rightarrow> mpdigit \<times> mpdigit" where
  "mpdigmul a b = (let
     ah = HI a; al = LO a; bh = HI b; bl = LO b;
     p1 = ah * bl; p2 = bh * al; p3 = bl * al; p4 = ah * bh;
     x = push_bit 16 p1;
     p3 = p3 + x;
     carry = num (p3 < x);
     x = push_bit 16 p2;
     p3 = p3 + x;
     carry = carry + num (p3 < x);
     p4 = p4 + (carry + HI p1 + HI p2)
   in (p3, p4))"

fun mpvecdigmuladd_loop :: "dmem \<Rightarrow> dptr \<Rightarrow> mpdigit \<Rightarrow> dptr \<Rightarrow> mpdigit \<Rightarrow> mpdigit \<Rightarrow> nat \<Rightarrow> dmem option" where
  "mpvecdigmuladd_loop mem b m p part1 carry 0 = dst mem p (part1 + carry)"
| "mpvecdigmuladd_loop mem b m p part1 carry (Suc n) = do {
     let x = part1 + carry;
     let carry = num (x < carry);
     y \<leftarrow> dld mem p;
     d \<leftarrow> dld mem b;
     let (part0, part1) = mpdigmul d m;
     let x = x + part0;
     let carry = carry + num (x < part0);
     let x = x + y;
     let carry = carry + num (x < y);
     mem \<leftarrow> dst mem p x;
     mpvecdigmuladd_loop mem (dadd b 1) m (dadd p 1) part1 carry n
   }"

definition mpvecdigmuladd :: "dmem \<Rightarrow> dptr \<Rightarrow> nat \<Rightarrow> mpdigit \<Rightarrow> dptr \<Rightarrow> dmem option" where
  "mpvecdigmuladd mem b n m p = mpvecdigmuladd_loop mem b m p 0 0 n"

fun mpvecdigmulsub_loop :: "dmem \<Rightarrow> dptr \<Rightarrow> mpdigit \<Rightarrow> dptr \<Rightarrow> mpdigit \<Rightarrow> mpdigit \<Rightarrow> nat \<Rightarrow> (int \<times> dmem) option" where
  "mpvecdigmulsub_loop mem b m p part1 borrow 0 = do {
     x \<leftarrow> dld mem p;
     let y = x - borrow - part1;
     mem \<leftarrow> dst mem p y;
     Some (if y > x then - 1 else 1, mem)
   }"
| "mpvecdigmulsub_loop mem b m p part1 borrow (Suc n) = do {
     x \<leftarrow> dld mem p;
     let y = x - borrow;
     let borrow = num (y > x);
     let x = part1;
     d \<leftarrow> dld mem b;
     let (part0, part1) = mpdigmul d m;
     let x = x + part0;
     let borrow = borrow + num (x < part0);
     let x = y - x;
     let borrow = borrow + num (x > y);
     mem \<leftarrow> dst mem p x;
     mpvecdigmulsub_loop mem (dadd b 1) m (dadd p 1) part1 borrow n
   }"

definition mpvecdigmulsub :: "dmem \<Rightarrow> dptr \<Rightarrow> nat \<Rightarrow> mpdigit \<Rightarrow> dptr \<Rightarrow> (int \<times> dmem) option" where
  "mpvecdigmulsub mem b n m p = mpvecdigmulsub_loop mem b m p 0 0 n"

section \<open>Division of two digits by one\<close>

text \<open>The loop for \<open>i = n - 1, ..., 0\<close>, and the statements after it.\<close>

fun mpdigdiv_loop :: "mpdigit \<Rightarrow> nat \<Rightarrow> mpdigit \<Rightarrow> mpdigit \<Rightarrow> mpdigit \<Rightarrow> mpdigit \<Rightarrow> mpdigit" where
  "mpdigdiv_loop divisor 0 hi lo x q = q + lo div divisor"
| "mpdigdiv_loop divisor (Suc i) hi lo x q = (if hi > 0 then
       let x = drop_bit 1 x in
       if x > hi then mpdigdiv_loop divisor i hi lo x q
       else let y = push_bit i divisor in
         if x = hi \<and> y > lo then mpdigdiv_loop divisor i hi lo x q
         else let hi = (if y > lo then hi - 1 else hi);
                  lo = lo - y;
                  hi = hi - x;
                  q = q OR push_bit i 1
              in mpdigdiv_loop divisor i hi lo x q
     else q + lo div divisor)"

definition mpdigdiv :: "mpdigit \<Rightarrow> mpdigit \<Rightarrow> mpdigit \<Rightarrow> mpdigit" where
  "mpdigdiv lo hi divisor = (if hi \<ge> divisor \<or> divisor = 0 then NOT 0
     else mpdigdiv_loop divisor Dbits hi lo divisor 0)"

section \<open>The numbers the digits are\<close>

fun digval :: "mpdigit list \<Rightarrow> nat" where
  "digval [] = 0"
| "digval (d # ds) = unat d + 2 ^ Dbits * digval ds"

lemma digval_append: "digval (xs @ ys) = digval xs + 2 ^ (Dbits * length xs) * digval ys"
  by (induction xs) (simp_all add: algebra_simps power_add)

lemma unat_digit: "unat (d :: mpdigit) < 2 ^ Dbits"
  using unsigned_less [of d, where 'a = nat] by simp

lemma digval_bound: "digval ds < 2 ^ (Dbits * length ds)"
proof (induction ds)
  case (Cons d ds)
  then have "unat d + 2 ^ Dbits * (digval ds + 1) \<le> unat d + 2 ^ Dbits * 2 ^ (Dbits * length ds)" by simp
  then show ?case using unat_digit [of d] by (simp add: power_add)
qed simp

lemma digval_zeros [simp]: "digval (replicate n 0) = 0"
  by (induction n) simp_all

lemma add_digits: "unat (x + y) + 2 ^ Dbits * unat (num (x + y < y)) = unat x + unat y" for x y :: mpdigit
proof (cases "unat x + unat y < 2 ^ Dbits")
  case True
  then have "unat (x + y) = unat x + unat y" by (simp add: unat_word_ariths)
  then show ?thesis by (simp add: word_less_nat_alt)
next
  case False
  then have "unat (x + y) = unat x + unat y - 2 ^ Dbits"
    using unat_digit [of x] unat_digit [of y] by (simp add: unat_word_ariths le_mod_geq)
  then show ?thesis using False unat_digit [of x] by (simp add: word_less_nat_alt)
qed

lemma sub_digits: "unat (x - y) + unat y = unat x + 2 ^ Dbits * unat (num (x < y))" for x y :: mpdigit
proof (cases "x < y")
  case True
  then have "unat (x - y) = unat x + 2 ^ Dbits - unat y"
    using unat_sub_if_size [of x y] by (simp add: word_less_nat_alt word_size not_le)
  then show ?thesis using True unat_digit [of y] by simp
next
  case False
  then show ?thesis by (simp add: unat_sub word_less_nat_alt word_le_nat_alt not_less)
qed

lemma sub_wraps: "x - y > x \<longleftrightarrow> x < y" for x y :: mpdigit
  using sub_digits [of x y] unat_digit [of y] unat_digit [of "x - y"] by (auto simp: word_less_nat_alt split: if_splits)

lemma unat_num_add: "unat (num a + num b) = unat (num a) + unat (num b)"
  by (cases a; cases b) simp_all

lemma carry_small: "2 ^ Dbits * k < 2 ^ Dbits * 2 \<Longrightarrow> k \<le> 1" for k :: nat
  by simp

section \<open>Vectors in memory\<close>

text \<open>The digits \<open>ds\<close> at \<open>p\<close>; room for \<open>n\<close> digits; the memory after digits are stored.\<close>

definition seg :: "dmem \<Rightarrow> dptr \<Rightarrow> mpdigit list \<Rightarrow> bool" where
  "seg m p ds \<longleftrightarrow> (\<exists>xs. m (fst p) = Some xs \<and> snd p + length ds \<le> length xs \<and> take (length ds) (drop (snd p) xs) = ds)"

definition room :: "dmem \<Rightarrow> dptr \<Rightarrow> nat \<Rightarrow> bool" where
  "room m p n \<longleftrightarrow> (\<exists>xs. m (fst p) = Some xs \<and> snd p + n \<le> length xs)"

definition put :: "dmem \<Rightarrow> dptr \<Rightarrow> mpdigit list \<Rightarrow> dmem" where
  "put m p ds = m(fst p := map_option (\<lambda>xs. take (snd p) xs @ ds @ drop (snd p + length ds) xs) (m (fst p)))"

lemma dadd_simps [simp]: "fst (dadd p n) = fst p" "snd (dadd p n) = snd p + n" "dadd (dadd p i) j = dadd p (i + j)" "dadd p 0 = p"
  by (simp_all add: dadd_def)

lemma seg_room: "seg m p ds \<Longrightarrow> room m p (length ds)"
  by (auto simp: seg_def room_def)

lemma room_le: "room m p n \<Longrightarrow> k \<le> n \<Longrightarrow> room m p k"
  by (auto simp: room_def)

lemma room_seg: "room m p n \<Longrightarrow> \<exists>ds. seg m p ds \<and> length ds = n"
proof -
  assume "room m p n"
  then obtain xs where "m (fst p) = Some xs" "snd p + n \<le> length xs" by (auto simp: room_def)
  then show ?thesis by (intro exI [of _ "take n (drop (snd p) xs)"]) (simp add: seg_def)
qed

lemma seg_Nil: "seg m p [] \<longleftrightarrow> room m p 0"
  by (auto simp: seg_def room_def)

lemma seg_Cons [simp]: "seg m p (d # ds) \<longleftrightarrow> dld m p = Some d \<and> seg m (dadd p 1) ds"
proof -
  have "(take (Suc (length ds)) (drop i xs) = d # ds) \<longleftrightarrow> xs ! i = d \<and> take (length ds) (drop (Suc i) xs) = ds"
    if "i + Suc (length ds) \<le> length xs" for xs i
    using that by (simp add: Cons_nth_drop_Suc [symmetric])
  then show ?thesis by (auto simp: seg_def dld_def Suc_le_eq split: option.splits)
qed

lemma seg_append: "seg m p (xs @ ys) \<longleftrightarrow> seg m p xs \<and> seg m (dadd p (length xs)) ys"
proof (induction xs arbitrary: p)
  case Nil
  then show ?case by (auto simp: seg_Nil dest: seg_room room_le)
qed simp

lemma put_length: "snd p + length ds \<le> length xs \<Longrightarrow> m (fst p) = Some xs \<Longrightarrow> length (the (put m p ds (fst p))) = length xs"
  by (simp add: put_def)

lemma room_put [simp]: "room m p (length ds) \<Longrightarrow> room (put m p ds) q n = room m q n"
  by (auto simp: room_def put_def)

lemma room_dadd: "room m p (i + n) \<Longrightarrow> room m (dadd p i) n"
  by (auto simp: room_def)

lemma put_Nil [simp]: "room m p 0 \<Longrightarrow> put m p [] = m"
  by (auto simp: room_def put_def)

lemma dst_put [simp]: "room m p 1 \<Longrightarrow> dst m p d = Some (put m p [d])"
  by (auto simp: room_def dst_def put_def upd_conv_take_nth_drop)

lemma put_put:
  assumes "room m p (length xs + length ys)"
  shows "put (put m p xs) (dadd p (length xs)) ys = put m p (xs @ ys)"
proof -
  obtain zs where zs: "m (fst p) = Some zs" "snd p + (length xs + length ys) \<le> length zs" using assms by (auto simp: room_def)
  then have "drop (snd p + (length xs + length ys)) (take (snd p) zs @ xs @ drop (snd p + length xs) zs) = drop (snd p + (length xs + length ys)) zs"
    by (simp add: ac_simps)
  then show ?thesis using zs by (simp add: put_def ac_simps)
qed

lemma put_over: "room m p (length xs) \<Longrightarrow> length ys = length xs \<Longrightarrow> put (put m p xs) p ys = put m p ys"
  by (auto simp: room_def put_def)

lemma seg_put: "room m p (length ds) \<Longrightarrow> seg (put m p ds) p ds"
  by (auto simp: room_def put_def seg_def)

text \<open>Two vectors that do not meet, and a destination that a loop over a vector may write on its way.\<close>

definition away :: "dptr \<Rightarrow> nat \<Rightarrow> dptr \<Rightarrow> nat \<Rightarrow> bool" where
  "away p n q k \<longleftrightarrow> fst p \<noteq> fst q \<or> snd p + n \<le> snd q \<or> snd q + k \<le> snd p"

definition ahead :: "dptr \<Rightarrow> dptr \<Rightarrow> nat \<Rightarrow> bool" where
  "ahead p q n \<longleftrightarrow> fst p \<noteq> fst q \<or> snd p \<le> snd q \<or> snd q + n \<le> snd p"

lemma seg_away:
  assumes "away p (length ds) q (length es)" and "room m p (length ds)"
  shows "seg (put m p ds) q es = seg m q es"
proof (cases "fst p = fst q")
  case True
  then obtain xs where xs: "m (fst q) = Some xs" "snd p + length ds \<le> length xs" using assms(2) by (auto simp: room_def)
  have "take (length es) (drop (snd q) (take (snd p) xs @ ds @ drop (snd p + length ds) xs)) = take (length es) (drop (snd q) xs)"
    using assms(1) True xs(2) by (auto simp: away_def drop_take min_def)
  then show ?thesis using True xs by (simp add: seg_def put_def)
qed (simp add: seg_def put_def)

lemma ahead_step:
  assumes "ahead p q (Suc n)"
  shows "ahead (dadd p 1) (dadd q 1) n" "away p 1 (dadd q 1) n"
  using assms by (auto simp: ahead_def away_def)

lemma ahead_le: "ahead p q n \<Longrightarrow> k \<le> n \<Longrightarrow> ahead p q k"
  by (auto simp: ahead_def)

lemma ahead_dadd: "ahead p q (i + n) \<Longrightarrow> ahead (dadd p i) (dadd q i) n"
  by (auto simp: ahead_def)

lemma ahead_self [simp]: "ahead p p n"
  by (simp add: ahead_def)

lemma room_step: "room m s (Suc n) \<Longrightarrow> room (put m s [z]) (dadd s 1) n" "room m s (Suc n) \<Longrightarrow> room m s 1"
  using room_dadd [of m s 1 n] by (auto dest: room_le)

lemma put_step: "room m s (Suc n) \<Longrightarrow> length zs = n \<Longrightarrow> put (put m s [z]) (dadd s 1) zs = put m s (z # zs)"
  using put_put [of m s "[z]" zs] by simp

lemma seg_step: "ahead s q (Suc n) \<Longrightarrow> room m s 1 \<Longrightarrow> length es = n \<Longrightarrow> seg m (dadd q 1) es \<Longrightarrow> seg (put m s [z]) (dadd q 1) es"
  using seg_away [of s "[z]" "dadd q 1" es m] ahead_step(2) by simp

section \<open>Addition and subtraction\<close>

lemma add_step:
  fixes x y c :: mpdigit
  assumes "unat c \<le> 1"
  shows "unat (x + c + y) + 2 ^ Dbits * unat (num (x + c < c) + num (x + c + y < y)) = unat x + unat y + unat c"
    and "unat (num (x + c < c) + num (x + c + y < y)) \<le> 1"
proof -
  show e: "unat (x + c + y) + 2 ^ Dbits * unat (num (x + c < c) + num (x + c + y < y)) = unat x + unat y + unat c"
    using add_digits [of x c] add_digits [of "x + c" y] unfolding unat_num_add by (simp add: algebra_simps)
  have "2 ^ Dbits * unat (num (x + c < c) + num (x + c + y < y)) < 2 ^ Dbits * 2"
    using e assms unat_digit [of x] unat_digit [of y] by linarith
  then show "unat (num (x + c < c) + num (x + c + y < y)) \<le> 1" by (rule carry_small)
qed

lemma mpvecadd_both_correct:
  assumes "seg m a xs" "seg m b ys" "length xs = n" "length ys = n" and "room m s n" and "ahead s a n" "ahead s b n" and "unat c \<le> 1"
  shows "\<exists>zs c'. mpvecadd_both m a b s c n = Some (c', put m s zs) \<and> length zs = n \<and> unat c' \<le> 1
    \<and> digval zs + 2 ^ (Dbits * n) * unat c' = digval xs + digval ys + unat c"
  using assms
proof (induction n arbitrary: m a b s c xs ys)
  case 0
  then show ?case by auto
next
  case (Suc n)
  obtain x xs' y ys' where xy: "xs = x # xs'" "ys = y # ys'" "length xs' = n" "length ys' = n"
    using Suc.prems(3,4) by (auto simp: length_Suc_conv)
  let ?z = "x + c + y" and ?c = "num (x + c < c) + num (x + c + y < y)"
  have r: "room m s 1" by (rule room_step(2) [OF Suc.prems(5)])
  have "seg (put m s [?z]) (dadd a 1) xs'" "seg (put m s [?z]) (dadd b 1) ys'"
    using Suc.prems(1,2) xy(1,2) seg_step [OF Suc.prems(6) r xy(3), of ?z] seg_step [OF Suc.prems(7) r xy(4), of ?z] by simp_all
  from Suc.IH [OF this xy(3,4) room_step(1) [OF Suc.prems(5)] ahead_step(1) [OF Suc.prems(6)] ahead_step(1) [OF Suc.prems(7)]
      add_step(2) [OF Suc.prems(8)]]
  obtain zs c' where z: "mpvecadd_both (put m s [?z]) (dadd a 1) (dadd b 1) (dadd s 1) ?c n = Some (c', put (put m s [?z]) (dadd s 1) zs)"
    "length zs = n" "unat c' \<le> 1" "digval zs + 2 ^ (Dbits * n) * unat c' = digval xs' + digval ys' + unat ?c"
    by blast
  have "mpvecadd_both m a b s c (Suc n) = Some (c', put m s (?z # zs))"
    using Suc.prems(1,2) xy r z(1) put_step [OF Suc.prems(5) z(2), of ?z] by (simp add: Let_def)
  moreover have "digval (?z # zs) + 2 ^ (Dbits * Suc n) * unat c' = digval xs + digval ys + unat c"
    using z(4) add_step(1) [OF Suc.prems(8), of x y] xy(1,2) by (simp add: algebra_simps power_add)
  ultimately show ?case using z(2,3) by (intro exI [of _ "?z # zs"] exI [of _ c']) simp
qed

lemma mpvecadd_carry_correct:
  assumes "seg m a xs" "length xs = n" and "room m s n" and "ahead s a n" and "unat c \<le> 1"
  shows "\<exists>zs c'. mpvecadd_carry m a s c n = Some (c', put m s zs) \<and> length zs = n \<and> unat c' \<le> 1
    \<and> digval zs + 2 ^ (Dbits * n) * unat c' = digval xs + unat c"
  using assms
proof (induction n arbitrary: m a s c xs)
  case 0
  then show ?case by auto
next
  case (Suc n)
  obtain x xs' where xy: "xs = x # xs'" "length xs' = n" using Suc.prems(2) by (auto simp: length_Suc_conv)
  let ?z = "x + c" and ?c = "num (x + c < c)"
  have r: "room m s 1" by (rule room_step(2) [OF Suc.prems(3)])
  have "seg (put m s [?z]) (dadd a 1) xs'"
    using Suc.prems(1) xy(1) seg_step [OF Suc.prems(4) r xy(2), of ?z] by simp
  moreover have "unat ?c \<le> 1" by simp
  ultimately obtain zs c' where z: "mpvecadd_carry (put m s [?z]) (dadd a 1) (dadd s 1) ?c n = Some (c', put (put m s [?z]) (dadd s 1) zs)"
    "length zs = n" "unat c' \<le> 1" "digval zs + 2 ^ (Dbits * n) * unat c' = digval xs' + unat ?c"
    using Suc.IH [OF _ xy(2) room_step(1) [OF Suc.prems(3)] ahead_step(1) [OF Suc.prems(4)]] by blast
  have "mpvecadd_carry m a s c (Suc n) = Some (c', put m s (?z # zs))"
    using Suc.prems(1) xy(1) r z(1) put_step [OF Suc.prems(3) z(2), of ?z] by (simp add: Let_def)
  moreover have "digval (?z # zs) + 2 ^ (Dbits * Suc n) * unat c' = digval xs + unat c"
    using z(4) add_digits [of x c] xy(1) by (simp add: algebra_simps power_add)
  ultimately show ?case using z(2,3) by (intro exI [of _ "?z # zs"] exI [of _ c']) simp
qed

text \<open>The sum may be one of the summands.\<close>

lemma mpvecadd_correct:
  assumes a: "seg m a xs" "length xs = alen" and b: "seg m b ys" "length ys = blen" "blen \<le> alen"
    and s: "room m s (Suc alen)" "ahead s a alen" "ahead s b blen"
  shows "\<exists>zs. mpvecadd m a alen b blen s = Some (put m s zs) \<and> length zs = Suc alen \<and> digval zs = digval xs + digval ys"
proof -
  define xs1 where "xs1 = take blen xs"
  define xs2 where "xs2 = drop blen xs"
  have xs: "xs = xs1 @ xs2" "length xs1 = blen" "length xs2 = alen - blen" using a(2) b(3) by (simp_all add: xs1_def xs2_def)
  then have x: "seg m a xs1" "seg m (dadd a blen) xs2" using a(1) by (simp_all add: seg_append)
  have r: "room m s blen" "room m (dadd s blen) (alen - blen)" "room m (dadd s alen) 1" "room m s alen"
    using s(1) b(3) by (auto simp: room_def)
  obtain zs c where z: "mpvecadd_both m a b s 0 blen = Some (c, put m s zs)" "length zs = blen" "unat c \<le> 1"
    "digval zs + 2 ^ (Dbits * blen) * unat c = digval xs1 + digval ys"
    using mpvecadd_both_correct [OF x(1) b(1) xs(2) b(2) r(1) ahead_le [OF s(2) b(3)] s(3), of 0] by auto
  have "seg (put m s zs) (dadd a blen) xs2"
    using x(2) r(1) z(2) xs(3) s(2) b(3) by (subst seg_away) (auto simp: away_def ahead_def)
  moreover have "ahead (dadd s blen) (dadd a blen) (alen - blen)" using ahead_dadd [of s a blen "alen - blen"] s(2) b(3) by simp
  ultimately obtain zs' c' where z': "mpvecadd_carry (put m s zs) (dadd a blen) (dadd s blen) c (alen - blen)
      = Some (c', put (put m s zs) (dadd s blen) zs')" "length zs' = alen - blen" "unat c' \<le> 1"
    "digval zs' + 2 ^ (Dbits * (alen - blen)) * unat c' = digval xs2 + unat c"
    using mpvecadd_carry_correct [of "put m s zs" "dadd a blen" xs2 "alen - blen" "dadd s blen" c] xs(3) r(1,2) z(2,3) by auto
  have p: "put (put m s zs) (dadd s blen) zs' = put m s (zs @ zs')" using put_put [of m s zs zs'] z(2) z'(2) r(4) b(3) by simp
  have "dst (put m s (zs @ zs')) (dadd s alen) c' = Some (put (put m s (zs @ zs')) (dadd s alen) [c'])"
    using r(3,4) z(2) z'(2) b(3) by simp
  moreover have "put (put m s (zs @ zs')) (dadd s alen) [c'] = put m s ((zs @ zs') @ [c'])"
    using put_put [of m s "zs @ zs'" "[c']"] z(2) z'(2) s(1) b(3) by simp
  ultimately have "mpvecadd m a alen b blen s = Some (put m s ((zs @ zs') @ [c']))"
    using z(1) z'(1) p b(3) by (simp add: mpvecadd_def max_def)
  moreover have "digval ((zs @ zs') @ [c']) = digval xs + digval ys"
  proof -
    have "(2::nat) ^ (Dbits * alen) = 2 ^ (Dbits * blen) * 2 ^ (Dbits * (alen - blen))" using b(3) by (simp flip: power_add add: algebra_simps)
    then have "digval ((zs @ zs') @ [c']) = digval zs + 2 ^ (Dbits * blen) * (digval zs' + 2 ^ (Dbits * (alen - blen)) * unat c')"
      using z(2) z'(2) b(3) by (simp add: digval_append algebra_simps)
    also have "\<dots> = digval zs + 2 ^ (Dbits * blen) * unat c + 2 ^ (Dbits * blen) * digval xs2" unfolding z'(4) by (simp add: algebra_simps)
    finally show ?thesis unfolding z(4) xs(1) by (simp add: digval_append xs(2))
  qed
  ultimately show ?thesis using z(2) z'(2) b(3) by (intro exI [of _ "(zs @ zs') @ [c']"]) simp
qed

lemma sub_step:
  fixes x y c :: mpdigit
  assumes "unat c \<le> 1"
  shows "unat (x - (y + c)) + (unat y + unat c) = unat x + 2 ^ Dbits * unat (num (y + c < c) + num (x < y + c))"
    and "unat (num (y + c < c) + num (x < y + c)) \<le> 1"
proof -
  show e: "unat (x - (y + c)) + (unat y + unat c) = unat x + 2 ^ Dbits * unat (num (y + c < c) + num (x < y + c))"
    using sub_digits [of x "y + c"] add_digits [of y c] unfolding unat_num_add by (simp add: algebra_simps)
  have "2 ^ Dbits * unat (num (y + c < c) + num (x < y + c)) < 2 ^ Dbits * 2"
    using e assms unat_digit [of "x - (y + c)"] unat_digit [of y] by linarith
  then show "unat (num (y + c < c) + num (x < y + c)) \<le> 1" by (rule carry_small)
qed

lemma mpvecsub_both_correct:
  assumes "seg m a xs" "seg m b ys" "length xs = n" "length ys = n" and "room m s n" and "ahead s a n" "ahead s b n" and "unat c \<le> 1"
  shows "\<exists>zs c'. mpvecsub_both m a b s c n = Some (c', put m s zs) \<and> length zs = n \<and> unat c' \<le> 1
    \<and> digval zs + (digval ys + unat c) = digval xs + 2 ^ (Dbits * n) * unat c'"
  using assms
proof (induction n arbitrary: m a b s c xs ys)
  case 0
  then show ?case by auto
next
  case (Suc n)
  obtain x xs' y ys' where xy: "xs = x # xs'" "ys = y # ys'" "length xs' = n" "length ys' = n"
    using Suc.prems(3,4) by (auto simp: length_Suc_conv)
  let ?z = "x - (y + c)" and ?c = "num (y + c < c) + num (x < y + c)"
  have r: "room m s 1" by (rule room_step(2) [OF Suc.prems(5)])
  have "seg (put m s [?z]) (dadd a 1) xs'" "seg (put m s [?z]) (dadd b 1) ys'"
    using Suc.prems(1,2) xy(1,2) seg_step [OF Suc.prems(6) r xy(3), of ?z] seg_step [OF Suc.prems(7) r xy(4), of ?z] by simp_all
  from Suc.IH [OF this xy(3,4) room_step(1) [OF Suc.prems(5)] ahead_step(1) [OF Suc.prems(6)] ahead_step(1) [OF Suc.prems(7)]
      sub_step(2) [OF Suc.prems(8)]]
  obtain zs c' where z: "mpvecsub_both (put m s [?z]) (dadd a 1) (dadd b 1) (dadd s 1) ?c n = Some (c', put (put m s [?z]) (dadd s 1) zs)"
    "length zs = n" "unat c' \<le> 1" "digval zs + (digval ys' + unat ?c) = digval xs' + 2 ^ (Dbits * n) * unat c'"
    by blast
  have "mpvecsub_both m a b s c (Suc n) = Some (c', put m s (?z # zs))"
    using Suc.prems(1,2) xy r z(1) put_step [OF Suc.prems(5) z(2), of ?z] by (simp add: Let_def)
  moreover have "digval (?z # zs) + (digval ys + unat c) = digval xs + 2 ^ (Dbits * Suc n) * unat c'"
    using arg_cong [OF z(4), of "\<lambda>k. 2 ^ Dbits * k"] sub_step(1) [OF Suc.prems(8), of x y] xy(1,2)
    by (simp add: algebra_simps power_add)
  ultimately show ?case using z(2,3) by (intro exI [of _ "?z # zs"] exI [of _ c']) simp
qed

lemma mpvecsub_borrow_correct:
  assumes "seg m a xs" "length xs = n" and "room m s n" and "ahead s a n" and "unat c \<le> 1"
  shows "\<exists>zs c'. mpvecsub_borrow m a s c n = Some (c', put m s zs) \<and> length zs = n \<and> unat c' \<le> 1
    \<and> digval zs + unat c = digval xs + 2 ^ (Dbits * n) * unat c'"
  using assms
proof (induction n arbitrary: m a s c xs)
  case 0
  then show ?case by auto
next
  case (Suc n)
  obtain x xs' where xy: "xs = x # xs'" "length xs' = n" using Suc.prems(2) by (auto simp: length_Suc_conv)
  let ?z = "x - c" and ?c = "num (x < c)"
  have r: "room m s 1" by (rule room_step(2) [OF Suc.prems(3)])
  have "seg (put m s [?z]) (dadd a 1) xs'"
    using Suc.prems(1) xy(1) seg_step [OF Suc.prems(4) r xy(2), of ?z] by simp
  moreover have "unat ?c \<le> 1" by simp
  ultimately obtain zs c' where z: "mpvecsub_borrow (put m s [?z]) (dadd a 1) (dadd s 1) ?c n = Some (c', put (put m s [?z]) (dadd s 1) zs)"
    "length zs = n" "unat c' \<le> 1" "digval zs + unat ?c = digval xs' + 2 ^ (Dbits * n) * unat c'"
    using Suc.IH [OF _ xy(2) room_step(1) [OF Suc.prems(3)] ahead_step(1) [OF Suc.prems(4)]] by blast
  have "mpvecsub_borrow m a s c (Suc n) = Some (c', put m s (?z # zs))"
    using Suc.prems(1) xy(1) r z(1) put_step [OF Suc.prems(3) z(2), of ?z] by (simp add: Let_def sub_wraps)
  moreover have "digval (?z # zs) + unat c = digval xs + 2 ^ (Dbits * Suc n) * unat c'"
    using arg_cong [OF z(4), of "\<lambda>k. 2 ^ Dbits * k"] sub_digits [of x c] xy(1) by (simp add: algebra_simps power_add)
  ultimately show ?case using z(2,3) by (intro exI [of _ "?z # zs"] exI [of _ c']) simp
qed

lemma digval_split: "length xs = n \<Longrightarrow> digval xs = digval (take k xs) + 2 ^ (Dbits * min k n) * digval (drop k xs)"
  using digval_append [of "take k xs" "drop k xs"] by (simp add: min.commute)

text \<open>The difference, modulo the length of the longer vector; the exact difference when it is not negative.\<close>

lemma mpvecsub_general:
  assumes a: "seg m a xs" "length xs = alen" and b: "seg m b ys" "length ys = blen" "blen \<le> alen"
    and s: "room m s alen" "ahead s a alen" "ahead s b blen"
  shows "\<exists>zs c. mpvecsub m a alen b blen s = Some (put m s zs) \<and> length zs = alen \<and> c \<le> 1
    \<and> digval zs + digval ys = digval xs + 2 ^ (Dbits * alen) * c"
proof -
  define xs1 where "xs1 = take blen xs"
  define xs2 where "xs2 = drop blen xs"
  have xs: "xs = xs1 @ xs2" "length xs1 = blen" "length xs2 = alen - blen" using a(2) b(3) by (simp_all add: xs1_def xs2_def)
  then have x: "seg m a xs1" "seg m (dadd a blen) xs2" using a(1) by (simp_all add: seg_append)
  have r: "room m s blen" "room m (dadd s blen) (alen - blen)" using s(1) b(3) by (auto simp: room_def)
  obtain zs c where z: "mpvecsub_both m a b s 0 blen = Some (c, put m s zs)" "length zs = blen" "unat c \<le> 1"
    "digval zs + digval ys = digval xs1 + 2 ^ (Dbits * blen) * unat c"
    using mpvecsub_both_correct [OF x(1) b(1) xs(2) b(2) r(1) ahead_le [OF s(2) b(3)] s(3), of 0] by auto
  have "seg (put m s zs) (dadd a blen) xs2"
    using x(2) r(1) z(2) xs(3) s(2) b(3) by (subst seg_away) (auto simp: away_def ahead_def)
  moreover have "ahead (dadd s blen) (dadd a blen) (alen - blen)" using ahead_dadd [of s a blen "alen - blen"] s(2) b(3) by simp
  ultimately obtain zs' c' where z': "mpvecsub_borrow (put m s zs) (dadd a blen) (dadd s blen) c (alen - blen)
      = Some (c', put (put m s zs) (dadd s blen) zs')" "length zs' = alen - blen" "unat c' \<le> 1"
    "digval zs' + unat c = digval xs2 + 2 ^ (Dbits * (alen - blen)) * unat c'"
    using mpvecsub_borrow_correct [of "put m s zs" "dadd a blen" xs2 "alen - blen" "dadd s blen" c] xs(3) r(1,2) z(2,3) by auto
  have p: "put (put m s zs) (dadd s blen) zs' = put m s (zs @ zs')" using put_put [of m s zs zs'] z(2) z'(2) s(1) b(3) by simp
  have "(2::nat) ^ (Dbits * alen) = 2 ^ (Dbits * blen) * 2 ^ (Dbits * (alen - blen))" using b(3) by (simp flip: power_add add: algebra_simps)
  then have "digval (zs @ zs') + digval ys = digval xs + 2 ^ (Dbits * alen) * unat c'"
    using z(2,4) arg_cong [OF z'(4), of "\<lambda>k. 2 ^ (Dbits * blen) * k"] xs(1,2) by (simp add: digval_append algebra_simps)
  then show ?thesis using z(1,2) z'(1-3) p b(3) by (intro exI [of _ "zs @ zs'"] exI [of _ "unat c'"]) (simp add: mpvecsub_def)
qed

lemma mpvecsub_correct:
  assumes "seg m a xs" "length xs = alen" and "seg m b ys" "length ys = blen" "blen \<le> alen"
    and "room m s alen" "ahead s a alen" "ahead s b blen" and le: "digval ys \<le> digval xs"
  shows "\<exists>zs. mpvecsub m a alen b blen s = Some (put m s zs) \<and> length zs = alen \<and> digval zs = digval xs - digval ys"
proof -
  obtain zs c where z: "mpvecsub m a alen b blen s = Some (put m s zs)" "length zs = alen" "c \<le> 1"
    "digval zs + digval ys = digval xs + 2 ^ (Dbits * alen) * c"
    using mpvecsub_general [OF assms(1-8)] by blast
  have "c = 0"
  proof (rule ccontr)
    assume "c \<noteq> 0"
    then have "2 ^ (Dbits * alen) \<le> digval zs" using z(3,4) le by (cases c) auto
    then show False using digval_bound [of zs] z(2) by simp
  qed
  then show ?thesis using z le by (intro exI [of _ zs]) simp
qed

section \<open>Comparison\<close>

lemma dld_nth: "seg m a xs \<Longrightarrow> i < length xs \<Longrightarrow> dld m (dadd a i) = Some (xs ! i)"
proof -
  assume s: "seg m a xs" "i < length xs"
  then have "seg m a (take i xs @ xs ! i # drop (Suc i) xs)" by (simp add: id_take_nth_drop [symmetric])
  then show ?thesis using s(2) by (simp add: seg_append)
qed

lemma seg_take: "seg m a xs \<Longrightarrow> seg m a (take n xs)"
  by (metis append_take_drop_id seg_append)

text \<open>Are the digits from \<open>n\<close> on all 0?\<close>

lemma mpveccmp_high_correct:
  "seg m a xs \<Longrightarrow> length xs = n + k \<Longrightarrow> mpveccmp_high m a (n + k) k = Some (digval (drop n xs) \<noteq> 0)"
proof (induction k arbitrary: xs)
  case (Suc k)
  define ys where "ys = take (n + k) xs"
  define d where "d = xs ! (n + k)"
  have xs: "xs = ys @ [d]" "length ys = n + k" using Suc.prems(2) by (simp_all add: ys_def d_def take_Suc_conv_app_nth [symmetric])
  have "dld m (dadd a (n + k)) = Some d" using dld_nth [OF Suc.prems(1), of "n + k"] Suc.prems(2) by (simp add: d_def)
  moreover have "mpveccmp_high m a (n + k) k = Some (digval (drop n ys) \<noteq> 0)"
    using Suc.IH [of ys] Suc.prems(1) xs by (simp add: seg_append)
  moreover have "digval (drop n xs) = digval (drop n ys) + 2 ^ (Dbits * k) * unat d" using xs by (simp add: digval_append)
  ultimately show ?case by (simp add: unat_eq_0)
qed simp

lemma digval_less:
  assumes "length xs = n" "length ys = n" and "unat d < unat e"
  shows "digval (xs @ [d]) < digval (ys @ [e])"
proof -
  have "digval xs + 2 ^ (Dbits * n) * unat d < 2 ^ (Dbits * n) * (unat d + 1)" using digval_bound [of xs] assms(1) by simp
  also have "\<dots> \<le> 2 ^ (Dbits * n) * unat e" using assms(3) by (simp del: mult_Suc_right)
  finally show ?thesis using assms(1,2) by (simp add: digval_append)
qed

definition sign_of :: "nat \<Rightarrow> nat \<Rightarrow> int" where
  "sign_of x y = (if x < y then - 1 else if x = y then 0 else 1)"

lemma mpveccmp_both_correct:
  "seg m a xs \<Longrightarrow> seg m b ys \<Longrightarrow> length xs = n \<Longrightarrow> length ys = n \<Longrightarrow> mpveccmp_both m a b n = Some (sign_of (digval xs) (digval ys))"
proof (induction n arbitrary: xs ys)
  case 0
  then show ?case by (simp add: sign_of_def)
next
  case (Suc n)
  obtain xs' d ys' e where xy: "xs = xs' @ [d]" "ys = ys' @ [e]" "length xs' = n" "length ys' = n"
    using Suc.prems(3,4) by (auto simp: length_Suc_conv_rev)
  have l: "dld m (dadd a n) = Some d" "dld m (dadd b n) = Some e" "seg m a xs'" "seg m b ys'"
    using Suc.prems(1,2) xy by (simp_all add: seg_append)
  have "d - e > d \<longleftrightarrow> unat d < unat e" "d = e \<longleftrightarrow> unat d = unat e" using sub_wraps [of d e] by (simp_all add: word_less_nat_alt word_unat_eq_iff)
  then show ?case
    using l Suc.IH [OF l(3,4) xy(3,4)] digval_less [OF xy(3,4), of d e] digval_less [OF xy(4,3), of e d] xy
    by (cases "unat d" "unat e" rule: linorder_cases) (auto simp: sign_of_def digval_append)
qed

lemma high_digits:
  assumes "length xs = alen" and "blen \<le> alen" and "length ys = blen" and "digval (drop blen xs) \<noteq> 0"
  shows "digval ys < digval xs"
proof -
  have "digval ys < 2 ^ (Dbits * blen) * 1" using digval_bound [of ys] assms(3) by simp
  also have "\<dots> \<le> 2 ^ (Dbits * blen) * digval (drop blen xs)" using assms(4) by (intro mult_le_mono2) simp
  also have "\<dots> \<le> digval xs" using digval_split [OF assms(1), of blen] assms(2) by (simp add: min_def)
  finally show ?thesis .
qed

lemma mpveccmp_correct:
  assumes "seg m a xs" "length xs = alen" and "seg m b ys" "length ys = blen"
  shows "mpveccmp m a alen b blen = Some (sign_of (digval xs) (digval ys))"
proof (cases "blen \<le> alen")
  case True
  have "mpveccmp_high m a alen (alen - blen) = Some (digval (drop blen xs) \<noteq> 0)"
    using mpveccmp_high_correct [OF assms(1), of blen "alen - blen"] assms(2) True by simp
  moreover have "mpveccmp_both m a b blen = Some (sign_of (digval (take blen xs)) (digval ys))"
    using mpveccmp_both_correct [OF seg_take [OF assms(1)] assms(3), of blen blen] assms(2,4) True by simp
  moreover have "digval (take blen xs) = digval xs" if "digval (drop blen xs) = 0" using digval_split [OF assms(2), of blen] that by simp
  ultimately show ?thesis
    using True high_digits [OF assms(2) True assms(4)]
    by (cases "digval (drop blen xs) = 0") (simp_all add: mpveccmp_def min_def sign_of_def)
next
  case False
  have "mpveccmp_high m b blen (blen - alen) = Some (digval (drop alen ys) \<noteq> 0)"
    using mpveccmp_high_correct [OF assms(3), of alen "blen - alen"] assms(4) False by simp
  moreover have "mpveccmp_both m a b alen = Some (sign_of (digval xs) (digval (take alen ys)))"
    using mpveccmp_both_correct [OF assms(1) seg_take [OF assms(3)], of alen alen] assms(2,4) False by simp
  moreover have "digval (take alen ys) = digval ys" if "digval (drop alen ys) = 0" using digval_split [OF assms(4), of alen] that by simp
  ultimately show ?thesis
    using False high_digits [OF assms(4) _ assms(2)]
    by (cases "digval (drop alen ys) = 0") (simp_all add: mpveccmp_def min_def sign_of_def)
qed

section \<open>Multiplication\<close>

lemma LO_take_bit: "LO a = take_bit 16 a" for a :: mpdigit
proof -
  have "mask 16 = (0xFFFF :: mpdigit)" by (simp add: mask_eq_exp_minus_1)
  then show ?thesis by (simp only: take_bit_eq_mask)
qed

lemma unat_HI: "unat (HI a) = unat a div 2 ^ 16" for a :: mpdigit
  unfolding unat_drop_bit_eq by (rule drop_bit_eq_div)

lemma unat_LO: "unat (LO a) = unat a mod 2 ^ 16" for a :: mpdigit
  unfolding LO_take_bit unsigned_take_bit_eq by (rule take_bit_eq_mod)

lemma digit_halves: "unat (HI a) * 2 ^ 16 + unat (LO a) = unat a" for a :: mpdigit
  unfolding unat_HI unat_LO by (simp add: mult.commute)

lemma half_small: "unat (HI a) < 2 ^ 16" "unat (LO a) < 2 ^ 16" for a :: mpdigit
  unfolding unat_HI unat_LO using unat_digit [of a] by (simp_all add: less_mult_imp_div_less)

lemma half_mult: "unat x < 2 ^ 16 \<Longrightarrow> unat y < 2 ^ 16 \<Longrightarrow> unat (x * y) = unat x * unat y" for x y :: mpdigit
proof -
  assume "unat x < 2 ^ 16" "unat y < 2 ^ 16"
  then have "unat x * unat y \<le> (2 ^ 16 - 1) * (2 ^ 16 - 1)" by (intro mult_le_mono) simp_all
  then show ?thesis by (simp add: unat_word_ariths)
qed

lemma unat_push16: "unat (push_bit 16 p) + 2 ^ 32 * unat (HI p) = 2 ^ 16 * unat p" for p :: mpdigit
proof -
  have "unat (push_bit 16 p) = 2 ^ 16 * unat (LO p)"
  proof -
    have "push_bit 16 p = push_bit 16 (LO p)"
      unfolding LO_take_bit by (rule bit_word_eqI) (auto simp: bit_simps)
    moreover have "unat (push_bit 16 (LO p)) = 2 ^ 16 * unat (LO p)"
      unfolding unsigned_push_bit_eq using half_small(2) [of p] by (simp add: push_bit_nat_def take_bit_nat_eq_self)
    ultimately show ?thesis by simp
  qed
  then show ?thesis using digit_halves [of p] by simp
qed

lemma mpdigmul_correct:
  assumes "mpdigmul a b = (lo, hi)"
  shows "unat lo + 2 ^ Dbits * unat hi = unat a * unat b"
proof -
  define p1 where "p1 = HI a * LO b"
  define p2 where "p2 = HI b * LO a"
  define p3 where "p3 = LO b * LO a"
  define p4 where "p4 = HI a * HI b"
  define x1 where "x1 = push_bit 16 p1"
  define x2 where "x2 = push_bit 16 p2"
  define c1 where "c1 = num (p3 + x1 < x1)"
  define c2 where "c2 = num (p3 + x1 + x2 < x2)"
  have r: "lo = p3 + x1 + x2" "hi = p4 + (c1 + c2 + HI p1 + HI p2)"
    using assms unfolding mpdigmul_def Let_def p1_def [symmetric] p2_def [symmetric] p3_def [symmetric] p4_def [symmetric]
      x1_def [symmetric] x2_def [symmetric] c1_def [symmetric] c2_def [symmetric] by simp_all
  have u: "unat p1 = unat (HI a) * unat (LO b)" "unat p2 = unat (HI b) * unat (LO a)" "unat p3 = unat (LO b) * unat (LO a)"
    "unat p4 = unat (HI a) * unat (HI b)"
    unfolding p1_def p2_def p3_def p4_def by (intro half_mult half_small)+
  have lo: "unat lo + 2 ^ Dbits * (unat c1 + unat c2) = unat p3 + unat x1 + unat x2"
    using add_digits [of p3 x1] add_digits [of "p3 + x1" x2] unfolding r c1_def c2_def by (simp add: algebra_simps)
  have x: "unat x1 + 2 ^ 32 * unat (HI p1) = 2 ^ 16 * unat p1" "unat x2 + 2 ^ 32 * unat (HI p2) = 2 ^ 16 * unat p2"
    unfolding x1_def x2_def by (rule unat_push16)+
  have prod: "unat a * unat b = unat p4 * 2 ^ 32 + (unat p1 + unat p2) * 2 ^ 16 + unat p3"
    using digit_halves [of a] digit_halves [of b] unfolding u by (simp add: algebra_simps flip: digit_halves [of a] digit_halves [of b])
  define h where "h = unat p4 + (unat c1 + unat c2 + unat (HI p1) + unat (HI p2))"
  have e: "unat lo + 2 ^ 32 * h = unat a * unat b"
    using lo x unfolding prod h_def by (simp add: algebra_simps)
  have "unat a * unat b < 2 ^ 32 * 2 ^ 32" using unat_digit [of a] unat_digit [of b] by (intro mult_strict_mono) simp_all
  then have "2 ^ 32 * h < 2 ^ 32 * 2 ^ 32" using e by linarith
  then have h: "h < 2 ^ 32" by simp
  have "unat hi = h mod 2 ^ 32" unfolding r h_def by (simp add: unat_word_ariths mod_simps)
  then show ?thesis using e h by simp
qed

lemma unat_num_add3: "unat (num a + num b + num c) = unat (num a) + unat (num b) + unat (num c)"
  by (cases a; cases b; cases c) simp_all

lemma muladd_step:
  fixes p1 c y d m :: mpdigit
  assumes "mpdigmul d m = (q0, q1)"
  defines "x1 \<equiv> p1 + c"
  defines "x2 \<equiv> x1 + q0"
  defines "x3 \<equiv> x2 + y"
  defines "c' \<equiv> num (x1 < c) + num (x2 < q0) + num (x3 < y)"
  shows "unat x3 + 2 ^ Dbits * (unat q1 + unat c') = unat y + unat m * unat d + unat p1 + unat c"
  using add_digits [of p1 c] add_digits [of x1 q0] add_digits [of x2 y] mpdigmul_correct [OF assms(1)]
  unfolding c'_def unat_num_add3 x1_def x2_def x3_def by (simp add: algebra_simps)

lemma mpvecdigmuladd_loop_correct:
  assumes "seg mem b bs" "length bs = n" and "seg mem p ps" "length ps = n" and "room mem p (Suc n)" and "ahead p b n"
    and "digval ps + unat m * digval bs + unat p1 + unat c < 2 ^ (Dbits * Suc n)"
  shows "\<exists>zs. mpvecdigmuladd_loop mem b m p p1 c n = Some (put mem p zs) \<and> length zs = Suc n
    \<and> digval zs = digval ps + unat m * digval bs + unat p1 + unat c"
  using assms
proof (induction n arbitrary: mem b p bs ps p1 c)
  case 0
  then have "unat (p1 + c) = unat p1 + unat c" by (simp add: unat_word_ariths)
  then show ?case using 0 by (intro exI [of _ "[p1 + c]"]) simp
next
  case (Suc n)
  obtain d bs' y ps' where xy: "bs = d # bs'" "ps = y # ps'" "length bs' = n" "length ps' = n"
    using Suc.prems(2,4) by (auto simp: length_Suc_conv)
  obtain q0 q1 where q: "mpdigmul d m = (q0, q1)" by fastforce
  define x1 where "x1 = p1 + c"
  define x2 where "x2 = x1 + q0"
  define x3 where "x3 = x2 + y"
  define c' where "c' = num (x1 < c) + num (x2 < q0) + num (x3 < y)"
  note step = muladd_step [OF q, of p1 c y, folded x1_def, folded x2_def, folded x3_def, folded c'_def]
  have r: "room mem p 1" by (rule room_step(2) [OF Suc.prems(5)])
  have s: "seg (put mem p [x3]) (dadd b 1) bs'" "seg (put mem p [x3]) (dadd p 1) ps'"
    using Suc.prems(1,3) xy seg_step [OF Suc.prems(6) r xy(3), of x3] seg_step [OF ahead_self r xy(4), of x3] by simp_all
  have e: "unat x3 + 2 ^ Dbits * (digval ps' + unat m * digval bs' + unat q1 + unat c') = digval ps + unat m * digval bs + unat p1 + unat c"
    using step xy(1,2) by (simp add: algebra_simps)
  then have "2 ^ Dbits * (digval ps' + unat m * digval bs' + unat q1 + unat c') < 2 ^ Dbits * 2 ^ (Dbits * Suc n)"
    using Suc.prems(7) by (simp add: power_add)
  then have "digval ps' + unat m * digval bs' + unat q1 + unat c' < 2 ^ (Dbits * Suc n)" by simp
  then obtain zs where z: "mpvecdigmuladd_loop (put mem p [x3]) (dadd b 1) m (dadd p 1) q1 c' n = Some (put (put mem p [x3]) (dadd p 1) zs)"
    "length zs = Suc n" "digval zs = digval ps' + unat m * digval bs' + unat q1 + unat c'"
    using Suc.IH [OF s(1) xy(3) s(2) xy(4) room_step(1) [OF Suc.prems(5)] ahead_step(1) [OF Suc.prems(6)]] by blast
  have "mpvecdigmuladd_loop mem b m p p1 c (Suc n) = Some (put mem p (x3 # zs))"
    using Suc.prems(1,3) xy(1,2) q r z(1) put_step [OF Suc.prems(5) z(2), of x3]
    by (simp add: Let_def x1_def [symmetric] x2_def [symmetric] x3_def [symmetric] c'_def [symmetric] add.assoc [symmetric])
  then show ?case using z(2,3) e by (intro exI [of _ "x3 # zs"]) simp
qed

lemma muladd_bound:
  assumes "x < 2 ^ k" "y < 2 ^ k"
  shows "x + unat (m :: mpdigit) * y < 2 ^ (Dbits + k)"
proof -
  have "unat m * y \<le> (2 ^ Dbits - 1) * y" using unat_digit [of m] by (intro mult_le_mono1) simp
  then have "x + unat m * y < 2 ^ k + (2 ^ Dbits - 1) * 2 ^ k"
    using assms mult_le_mono2 [of y "2 ^ k" "2 ^ Dbits - 1"] by linarith
  then show ?thesis by (simp add: power_add)
qed

text \<open>The digit behind the vector is overwritten.\<close>

lemma mpvecdigmuladd_correct:
  assumes "seg mem b bs" "length bs = n" and "seg mem p ps" "length ps = n" and "room mem p (Suc n)" and "ahead p b n"
  shows "\<exists>zs. mpvecdigmuladd mem b n m p = Some (put mem p zs) \<and> length zs = Suc n \<and> digval zs = digval ps + unat m * digval bs"
  using mpvecdigmuladd_loop_correct [OF assms, of m 0 0] muladd_bound [of "digval ps" "Dbits * n" "digval bs" m]
    digval_bound [of ps] digval_bound [of bs] assms(2,4) by (simp add: mpvecdigmuladd_def)

lemma mulsub_step:
  fixes p1 c x d m :: mpdigit
  assumes "mpdigmul d m = (q0, q1)"
  defines "y \<equiv> x - c"
  defines "w \<equiv> p1 + q0"
  defines "c' \<equiv> num (y > x) + num (w < q0) + num (y - w > y)"
  shows "unat (y - w) + (unat m * unat d + unat p1 + unat c) = unat x + 2 ^ Dbits * (unat q1 + unat c')"
  using sub_digits [of x c] add_digits [of p1 q0] sub_digits [of y w] mpdigmul_correct [OF assms(1)]
  unfolding c'_def unat_num_add3 y_def w_def sub_wraps by (simp add: algebra_simps)

lemma mpvecdigmulsub_loop_correct:
  assumes "seg mem b bs" "length bs = n" and "seg mem p ps" "length ps = Suc n" and "ahead p b n"
    and "unat m * digval bs + unat p1 + unat c + 2 ^ (Dbits * n) \<le> 2 ^ (Dbits * Suc n)"
  shows "\<exists>zs k. mpvecdigmulsub_loop mem b m p p1 c n = Some (if k = 0 then 1 else - 1, put mem p zs) \<and> length zs = Suc n \<and> k \<le> 1
    \<and> digval zs + (unat m * digval bs + unat p1 + unat c) = digval ps + 2 ^ (Dbits * Suc n) * k"
  using assms
proof (induction n arbitrary: mem b p bs ps p1 c)
  case 0
  obtain x where x: "ps = [x]" "dld mem p = Some x" using 0 by (auto simp: length_Suc_conv)
  have r: "room mem p 1" using seg_room [OF 0(3)] 0(4) by simp
  have s: "unat (c + p1) = unat p1 + unat c" using 0 by (simp add: unat_word_ariths)
  have w: "x - c - p1 = x - (c + p1)" by simp
  have "mpvecdigmulsub_loop mem b m p p1 c 0 = Some (if unat (num (x < c + p1)) = 0 then 1 else - 1, put mem p [x - (c + p1)])"
    using x r sub_wraps [of x "c + p1"] by (simp add: Let_def w)
  moreover have "digval [x - (c + p1)] + (unat m * digval bs + unat p1 + unat c) = digval ps + 2 ^ (Dbits * Suc 0) * unat (num (x < c + p1))"
    using sub_digits [of x "c + p1"] s x(1) 0(2) by simp
  ultimately show ?case by (intro exI [of _ "[x - (c + p1)]"] exI [of _ "unat (num (x < c + p1))"]) simp
next
  case (Suc n)
  obtain d bs' x ps' where xy: "bs = d # bs'" "ps = x # ps'" "length bs' = n" "length ps' = Suc n"
    using Suc.prems(2,4) by (auto simp: length_Suc_conv)
  obtain q0 q1 where q: "mpdigmul d m = (q0, q1)" by fastforce
  define y where "y = x - c"
  define w where "w = p1 + q0"
  define z where "z = y - w"
  define c' where "c' = num (y > x) + num (w < q0) + num (z > y)"
  note step = mulsub_step [OF q, of x c p1, folded y_def, folded w_def, folded z_def, folded c'_def]
  have r: "room mem p (Suc (Suc n))" "room mem p 1" using seg_room [OF Suc.prems(3)] Suc.prems(4) by (auto intro: room_le)
  have s: "seg (put mem p [z]) (dadd b 1) bs'" "seg (put mem p [z]) (dadd p 1) ps'"
    using Suc.prems(1,3) xy seg_step [OF Suc.prems(5) r(2) xy(3), of z] seg_step [OF ahead_self r(2) xy(4), of z] by simp_all
  have e: "unat z + (unat m * digval bs + unat p1 + unat c) = unat x + 2 ^ Dbits * (unat m * digval bs' + unat q1 + unat c')"
    using step xy(1,2) by (simp add: algebra_simps)
  have "2 ^ Dbits * (unat m * digval bs' + unat q1 + unat c' + 2 ^ (Dbits * n)) < 2 ^ Dbits * (2 ^ (Dbits * Suc n) + 1)"
    using Suc.prems(6) e unat_digit [of z] by (simp add: power_add)
  then have "unat m * digval bs' + unat q1 + unat c' + 2 ^ (Dbits * n) \<le> 2 ^ (Dbits * Suc n)"
    unfolding nat_mult_less_cancel_disj by simp
  then obtain zs k where z: "mpvecdigmulsub_loop (put mem p [z]) (dadd b 1) m (dadd p 1) q1 c' n
      = Some (if k = 0 then 1 else - 1, put (put mem p [z]) (dadd p 1) zs)" "length zs = Suc n" "k \<le> 1"
    "digval zs + (unat m * digval bs' + unat q1 + unat c') = digval ps' + 2 ^ (Dbits * Suc n) * k"
    using Suc.IH [OF s(1) xy(3) s(2) xy(4) ahead_step(1) [OF Suc.prems(5)]] by blast
  have "mpvecdigmulsub_loop mem b m p p1 c (Suc n) = Some (if k = 0 then 1 else - 1, put mem p (z # zs))"
    using Suc.prems(1,3) xy(1,2) q r(2) z(1) put_step [OF r(1) z(2), of z]
    by (simp add: Let_def y_def [symmetric] w_def [symmetric] z_def [symmetric] c'_def [symmetric] add.assoc [symmetric])
  moreover have "digval (z # zs) + (unat m * digval bs + unat p1 + unat c) = digval ps + 2 ^ (Dbits * Suc (Suc n)) * k"
    using arg_cong [OF z(4), of "\<lambda>k. 2 ^ Dbits * k"] e xy(2) by (simp add: algebra_simps power_add)
  ultimately show ?case using z(2,3) by (intro exI [of _ "z # zs"] exI [of _ k]) simp
qed

lemma mpvecdigmulsub_correct:
  assumes "seg mem b bs" "length bs = n" and "seg mem p ps" "length ps = Suc n" and "ahead p b n"
  shows "\<exists>zs k. mpvecdigmulsub mem b n m p = Some (if k = 0 then 1 else - 1, put mem p zs) \<and> length zs = Suc n \<and> k \<le> 1
    \<and> digval zs + unat m * digval bs = digval ps + 2 ^ (Dbits * Suc n) * k"
proof -
  have "unat m * digval bs \<le> (2 ^ Dbits - 1) * 2 ^ (Dbits * n)"
    using unat_digit [of m] digval_bound [of bs] assms(2) by (intro mult_le_mono) simp_all
  then have "unat m * digval bs + 2 ^ (Dbits * n) \<le> 2 ^ (Dbits * Suc n)" by (simp add: power_add)
  then show ?thesis using mpvecdigmulsub_loop_correct [OF assms, of m 0 0] by (simp add: mpvecdigmulsub_def)
qed

section \<open>Division of two digits by one\<close>

lemma div_shift:
  fixes v :: mpdigit
  assumes "i \<le> 31"
  shows "2 ^ Dbits * unat (drop_bit (Dbits - i) v) + unat (push_bit i v) = unat v * 2 ^ i"
proof -
  have "unat (push_bit i v) = (unat v * 2 ^ i) mod 2 ^ Dbits"
    by (simp add: unsigned_push_bit_eq push_bit_nat_def take_bit_eq_mod del: push_bit_eq_mult)
  moreover have "unat (drop_bit (Dbits - i) v) = (unat v * 2 ^ i) div 2 ^ Dbits"
  proof -
    have "(2::nat) ^ Dbits = 2 ^ (Dbits - i) * 2 ^ i" using assms by (simp flip: power_add)
    then have "(unat v * 2 ^ i) div 2 ^ Dbits = unat v div 2 ^ (Dbits - i)" by (metis div_mult_mult2 power_not_zero zero_neq_numeral)
    moreover have "unat (drop_bit (Dbits - i) v) = unat v div 2 ^ (Dbits - i)" unfolding unat_drop_bit_eq by (rule drop_bit_eq_div)
    ultimately show ?thesis by simp
  qed
  ultimately show ?thesis by simp
qed

lemma dvd_room: "a dvd q \<Longrightarrow> a dvd b \<Longrightarrow> q < b \<Longrightarrow> q + a \<le> b" for a q b :: nat
  by (elim dvdE) (metis mult_Suc_right mult_le_mono2 Suc_leI add.commute nat_mult_less_cancel_disj)

lemma digit_room: "2 ^ i dvd unat q \<Longrightarrow> i \<le> Dbits \<Longrightarrow> unat q + 2 ^ i \<le> 2 ^ Dbits" for q :: mpdigit
  by (rule dvd_room [OF _ le_imp_power_dvd unat_digit])

lemma or_bit:
  fixes q :: mpdigit
  assumes "2 ^ Suc i dvd unat q" and "i < Dbits"
  shows "unat (q OR push_bit i 1) = unat q + 2 ^ i"
proof -
  obtain k where "unat q = push_bit (Suc i) k" using assms(1) by (auto simp: push_bit_nat_def mult.commute elim: dvdE)
  then have "\<not> bit (unat q) i" by (simp only: bit_push_bit_iff_nat) simp
  then have "\<not> bit q i" using assms(2) by (simp add: bit_unsigned_iff)
  then have "q AND push_bit i 1 = 0" by (intro bit_word_eqI) (auto simp: bit_simps)
  then have "q OR push_bit i 1 = q + push_bit i 1" by (simp add: disjunctive_add_eq_or)
  moreover have "unat (push_bit i 1 :: mpdigit) = 2 ^ i" unfolding unsigned_push_bit_eq using assms(2)
    by (simp add: push_bit_nat_def take_bit_nat_eq_self)
  moreover have "unat q + 2 ^ i < 2 ^ Dbits"
  proof -
    have "unat q + 2 ^ Suc i \<le> 2 ^ Dbits" using digit_room [OF assms(1)] assms(2) by simp
    moreover have "(2::nat) ^ i < 2 ^ Suc i" by simp
    ultimately show ?thesis by linarith
  qed
  ultimately show ?thesis by (simp add: unat_word_ariths)
qed

lemma two_digits_less:
  fixes h l x y b :: nat
  assumes "y < b" and "l < b"
  shows "b * h + l < b * x + y \<longleftrightarrow> h < x \<or> h = x \<and> l < y"
proof (cases h x rule: linorder_cases)
  case less
  then have "b * Suc h \<le> b * x" by (intro mult_le_mono2) simp
  then show ?thesis using less assms by simp
next
  case greater
  then have "b * Suc x \<le> b * h" by (intro mult_le_mono2) simp
  then show ?thesis using greater assms by simp
qed simp

lemma mpdigdiv_loop_correct:
  assumes "0 < unat v" and "n \<le> Dbits" and "2 ^ Dbits * unat hi + unat lo < unat v * 2 ^ n" and "2 ^ n dvd unat q" and "x = drop_bit (Dbits - n) v"
  shows "unat (mpdigdiv_loop v n hi lo x q) = unat q + (2 ^ Dbits * unat hi + unat lo) div unat v"
  using assms(2-5)
proof (induction n arbitrary: hi lo x q)
  case 0
  then have z: "unat hi = 0" using unat_digit [of v] by (cases "unat hi") auto
  then have "unat lo div unat v = 0" "lo div v = 0" using 0 by (simp_all add: word_arith_nat_div)
  then show ?case using z by simp
next
  case (Suc i)
  define x' where "x' = drop_bit 1 x"
  define y where "y = push_bit i v"
  have x': "x' = drop_bit (Dbits - i) v" unfolding x'_def Suc.prems(4) drop_bit_drop_bit using Suc.prems(1)
    by (intro arg_cong [of _ _ "\<lambda>k. drop_bit k v"]) simp
  have xy: "2 ^ Dbits * unat x' + unat y = unat v * 2 ^ i" unfolding x' y_def by (rule div_shift) (use Suc.prems(1) in simp)
  have d: "2 ^ i dvd unat q" using Suc.prems(3) by (metis dvd_trans le_imp_power_dvd lessI less_imp_le)
  have less: "2 ^ Dbits * unat hi + unat lo < unat v * 2 ^ i \<longleftrightarrow> hi < x' \<or> hi = x' \<and> lo < y"
    unfolding xy [symmetric] two_digits_less [OF unat_digit unat_digit] by (simp add: word_less_nat_alt word_unat_eq_iff)
  have step: "mpdigdiv_loop v (Suc i) hi lo x q = (if hi > 0 then
       if x' > hi then mpdigdiv_loop v i hi lo x' q
       else if x' = hi \<and> y > lo then mpdigdiv_loop v i hi lo x' q
       else mpdigdiv_loop v i ((if lo < y then hi - 1 else hi) - x') (lo - y) x' (q OR push_bit i 1)
     else q + lo div v)"
    by (simp only: mpdigdiv_loop.simps Let_def x'_def y_def)
  consider (zero) "hi = 0" | (skip) "hi \<noteq> 0" "hi < x' \<or> hi = x' \<and> lo < y" | (sub) "hi \<noteq> 0" "\<not> (hi < x' \<or> hi = x' \<and> lo < y)" by blast
  then show ?case
  proof cases
    case zero
    have "unat lo div unat v < 2 ^ Suc i" using Suc.prems(2) zero by (simp add: less_mult_imp_div_less mult.commute)
    moreover have "unat q + 2 ^ Suc i \<le> 2 ^ Dbits" using digit_room [OF Suc.prems(3,1)] .
    ultimately have "unat (q + lo div v) = unat q + unat lo div unat v" by (simp add: unat_word_ariths unat_div)
    then show ?thesis using zero by simp
  next
    case skip
    then have "mpdigdiv_loop v (Suc i) hi lo x q = mpdigdiv_loop v i hi lo x' q"
      unfolding step by (auto simp: word_gt_0)
    then show ?thesis using Suc.IH [OF _ _ d x'] Suc.prems(1) skip(2) less by simp
  next
    case sub
    let ?hi = "(if lo < y then hi - 1 else hi) - x'" and ?lo = "lo - y" and ?q = "q OR push_bit i 1"
    have l: "mpdigdiv_loop v (Suc i) hi lo x q = mpdigdiv_loop v i ?hi ?lo x' ?q"
      unfolding step using sub by (auto simp: word_gt_0)
    have q: "unat ?q = unat q + 2 ^ i" by (rule or_bit [OF Suc.prems(3)]) (use Suc.prems(1) in simp)
    have hx: "unat x' + unat (num (lo < y)) \<le> unat hi" using sub by (auto simp: word_less_nat_alt word_unat_eq_iff not_less)
    then have "unat ?hi = unat hi - unat (num (lo < y)) - unat x'" using sub(1)
      by (auto simp: unat_sub word_le_nat_alt unat_gt_0 Suc_le_eq split: if_splits)
    then have rem: "2 ^ Dbits * unat ?hi + unat ?lo + unat v * 2 ^ i = 2 ^ Dbits * unat hi + unat lo"
      using sub_digits [of lo y] hx xy by (simp add: algebra_simps) 
    have "2 ^ i dvd unat ?q" using d q by simp
    from Suc.IH [OF _ _ this x'] have "unat (mpdigdiv_loop v i ?hi ?lo x' ?q) = unat q + 2 ^ i + (2 ^ Dbits * unat ?hi + unat ?lo) div unat v"
      using Suc.prems(1,2) rem q by simp
    moreover have "(2 ^ Dbits * unat hi + unat lo) div unat v = 2 ^ i + (2 ^ Dbits * unat ?hi + unat ?lo) div unat v"
      unfolding rem [symmetric] using assms(1) by simp
    ultimately show ?thesis using l by simp
  qed
qed

lemma mpdigdiv_correct:
  "unat (mpdigdiv lo hi v) = (if v \<le> hi then 2 ^ Dbits - 1 else (2 ^ Dbits * unat hi + unat lo) div unat v)"
proof (cases "v \<le> hi")
  case False
  then have v: "unat hi < unat v" by (simp add: word_le_nat_alt)
  then have "2 ^ Dbits * (unat hi + 1) \<le> 2 ^ Dbits * unat v" by (intro mult_le_mono2) simp
  then have "2 ^ Dbits * unat hi + unat lo < unat v * 2 ^ Dbits" using unat_digit [of lo] by simp
  then show ?thesis using mpdigdiv_loop_correct [of v Dbits hi lo 0 v] v False by (auto simp: mpdigdiv_def)
next
  case True
  have "unat (NOT 0 :: mpdigit) = 2 ^ Dbits - 1"
    by (simp only: bit.compl_zero unsigned_minus_1_eq_mask) (simp add: mask_eq_exp_minus_1)
  then show ?thesis using True by (simp add: mpdigdiv_def)
qed

section \<open>Comparison in constant time\<close>

lemma top_bit: "drop_bit 31 w = num (2 ^ 31 \<le> unat w)" for w :: mpdigit
proof -
  have "unat (drop_bit 31 w) = unat w div 2 ^ 31" unfolding unat_drop_bit_eq by (rule drop_bit_eq_div)
  moreover have "unat w div 2 ^ 31 = (if 2 ^ 31 \<le> unat w then 1 else 0)" using unat_digit [of w] by (auto intro: div_nat_eqI)
  ultimately have "unat (drop_bit 31 w) = unat (num (2 ^ 31 \<le> unat w))" by simp
  then show ?thesis by (simp only: word_unat_eq_iff)
qed

lemma bit_top: "bit w 31 \<longleftrightarrow> 2 ^ 31 \<le> unat w" for w :: mpdigit
proof -
  have "bit w 31 \<longleftrightarrow> odd (drop_bit 31 w)" by (simp add: bit_iff_odd_drop_bit)
  then show ?thesis by (simp only: top_bit) simp
qed

lemma top_bit': "drop_bit 31 w = num (bit w 31)" for w :: mpdigit
  by (simp only: top_bit bit_top)

lemma nonzero_bit_eq: "nonzero_bit v = num (v \<noteq> 0)"
proof -
  have "bit (- v) 31 \<noteq> bit v 31 \<or> bit v 31 \<longleftrightarrow> v \<noteq> 0"
  proof (cases "v = 0")
    case False
    then have "unat (- v) + unat v = 2 ^ 32" using sub_digits [of 0 v] by (simp add: word_gt_0)
    then show ?thesis using False by (auto simp: bit_top)
  qed simp
  moreover have "nonzero_bit v = num (bit (((- v) XOR v) OR v) 31)" using top_bit' [of "((- v) XOR v) OR v"] by (simp add: nonzero_bit_def)
  ultimately show ?thesis by (simp only: bit_or_iff bit_xor_iff)
qed

lemma borrow_bit: "drop_bit 31 (NOT ((NOT x AND y) OR (NOT x AND (x - y)) OR (y AND (x - y)))) = num (y \<le> x)" for x y :: mpdigit
proof -
  have e: "unat (x - y) + unat y = unat x + 2 ^ 32 * (if x < y then 1 else 0)" using sub_digits [of x y] by simp
  have "(\<not> bit x 31 \<and> bit y 31 \<or> \<not> bit x 31 \<and> bit (x - y) 31 \<or> bit y 31 \<and> bit (x - y) 31) \<longleftrightarrow> x < y"
  proof (cases "x < y")
    case True
    then have "unat (x - y) + unat y = unat x + 2 ^ 32" using e by simp
    then show ?thesis using True unat_digit [of y] unat_digit [of "x - y"] unfolding bit_top by auto
  next
    case False
    then have "unat (x - y) + unat y = unat x" using e by simp
    then show ?thesis using False unat_digit [of x] unfolding bit_top by auto
  qed
  then show ?thesis by (auto simp: top_bit' bit_simps not_less [symmetric])
qed

lemma mpvectscmp_or_correct:
  "seg m a xs \<Longrightarrow> length xs = n + k \<Longrightarrow> \<exists>w. mpvectscmp_or m a (n + k) k v = Some w \<and> (w = 0 \<longleftrightarrow> v = 0 \<and> digval (drop n xs) = 0)"
proof (induction k arbitrary: xs v)
  case (Suc k)
  obtain ys d where xs: "xs = ys @ [d]" "length ys = n + k" using Suc.prems(2) by (auto simp: length_Suc_conv_rev)
  have "dld m (dadd a (n + k)) = Some d" "seg m a ys" using Suc.prems(1) xs by (simp_all add: seg_append)
  moreover have "digval (drop n xs) = digval (drop n ys) + 2 ^ (Dbits * k) * unat d" using xs by (simp add: digval_append)
  moreover obtain w where "mpvectscmp_or m a (n + k) k (v OR d) = Some w" "w = 0 \<longleftrightarrow> v OR d = 0 \<and> digval (drop n ys) = 0"
    using Suc.IH [OF calculation(2) xs(2), of "v OR d"] by blast
  ultimately show ?case by (auto simp: or_eq_0_iff unat_eq_0)
qed simp

lemma mpvectscmp_both_correct:
  "seg mem a xs \<Longrightarrow> seg mem b ys \<Longrightarrow> length xs = n \<Longrightarrow> length ys = n \<Longrightarrow> m = 0 \<or> m = 1 \<Longrightarrow> p = 0 \<or> p = 1 \<Longrightarrow>
    mpvectscmp_both mem a b n m p = Some (if m = 0 \<and> digval xs \<noteq> digval ys then (1, num (digval ys < digval xs)) else (m, p))"
proof (induction n arbitrary: xs ys m p)
  case (Suc n)
  obtain xs' d ys' e where xy: "xs = xs' @ [d]" "ys = ys' @ [e]" "length xs' = n" "length ys' = n"
    using Suc.prems(3,4) by (auto simp: length_Suc_conv_rev)
  have l: "dld mem (dadd a n) = Some d" "dld mem (dadd b n) = Some e" "seg mem a xs'" "seg mem b ys'"
    using Suc.prems(1,2) xy by (simp_all add: seg_append)
  let ?v = "num (d \<noteq> e) AND NOT m"
  have step: "mpvectscmp_both mem a b (Suc n) m p = mpvectscmp_both mem a b n (m OR ?v) ((num (e \<le> d) AND ?v) OR (p AND NOT ?v))"
    using l borrow_bit [of d e] by (simp add: Let_def nonzero_bit_eq)
  show ?case
  proof (cases "m = 0 \<and> d \<noteq> e")
    case True
    then have "mpvectscmp_both mem a b (Suc n) m p = mpvectscmp_both mem a b n 1 (num (e \<le> d))"
      unfolding step using Suc.prems(6) by auto
    also have "\<dots> = Some (1, num (e \<le> d))" using Suc.IH [OF l(3,4) xy(3,4), of 1 "num (e \<le> d)"] by simp
    finally show ?thesis
      using True digval_less [OF xy(3,4), of d e] digval_less [OF xy(4,3), of e d] xy(1,2)
      by (cases "unat d" "unat e" rule: linorder_cases) (auto simp: word_le_nat_alt word_unat_eq_iff [of d e] simp del: mpvectscmp_both.simps)
  next
    case False
    then have "?v = 0" using Suc.prems(5) by auto
    then have "mpvectscmp_both mem a b (Suc n) m p = mpvectscmp_both mem a b n m p" unfolding step by simp
    then show ?thesis using Suc.IH [OF l(3,4) xy(3,4) Suc.prems(5,6)] False Suc.prems(5) xy by (auto simp: digval_append)
  qed
qed simp

text \<open>When the second number has more digits, all 0, and the numbers are equal, the answer is 1.\<close>

lemma mpvectscmp_correct:
  assumes "seg m a xs" "length xs = alen" and "seg m b ys" "length ys = blen"
  shows "mpvectscmp m a alen b blen = Some (if alen < blen \<and> digval xs = digval ys then 1 else sign_of (digval xs) (digval ys))"
proof -
  consider (lt) "alen < blen" | (eq) "alen = blen" | (gt) "blen < alen" by linarith
  then show ?thesis
  proof cases
    case lt
    obtain w where w: "mpvectscmp_or m b blen (blen - alen) 0 = Some w" "w = 0 \<longleftrightarrow> digval (drop alen ys) = 0"
      using mpvectscmp_or_correct [OF assms(3), of alen "blen - alen" 0] assms(4) lt by auto
    have t: "digval (take alen ys) = digval ys" if "digval (drop alen ys) = 0" using digval_split [OF assms(4), of alen] that by simp
    have c: "mpvectscmp_both m a b alen k p = Some (if k = 0 \<and> digval xs \<noteq> digval (take alen ys)
        then (1, num (digval (take alen ys) < digval xs)) else (k, p))" if "k = 0 \<or> k = 1" "p = 0 \<or> p = 1" for k p
      using mpvectscmp_both_correct [OF assms(1) seg_take [OF assms(3)], of alen alen] assms(2,4) lt that by simp
    show ?thesis
      using w c [of 0 0] c [of 0 1] c [of 1 0] c [of 1 1] t lt high_digits [OF assms(4) _ assms(2)]
      by (cases "digval (drop alen ys) = 0") (auto simp: mpvectscmp_def nonzero_bit_eq min_def sign_of_def Let_def)
  next
    case eq
    then show ?thesis
      using mpvectscmp_both_correct [OF assms(1,3), of alen 0 0] assms(2,4) by (auto simp: mpvectscmp_def sign_of_def)
  next
    case gt
    obtain w where w: "mpvectscmp_or m a alen (alen - blen) 0 = Some w" "w = 0 \<longleftrightarrow> digval (drop blen xs) = 0"
      using mpvectscmp_or_correct [OF assms(1), of blen "alen - blen" 0] assms(2) gt by auto
    have t: "digval (take blen xs) = digval xs" if "digval (drop blen xs) = 0" using digval_split [OF assms(2), of blen] that by simp
    have c: "mpvectscmp_both m a b blen k p = Some (if k = 0 \<and> digval (take blen xs) \<noteq> digval ys
        then (1, num (digval ys < digval (take blen xs))) else (k, p))" if "k = 0 \<or> k = 1" "p = 0 \<or> p = 1" for k p
      using mpvectscmp_both_correct [OF seg_take [OF assms(1)] assms(3), of blen blen] assms(2,4) gt that by simp
    show ?thesis
      using w c [of 0 0] c [of 0 1] c [of 1 0] c [of 1 1] t gt high_digits [OF assms(2) _ assms(4)]
      by (cases "digval (drop blen xs) = 0") (auto simp: mpvectscmp_def nonzero_bit_eq min_def sign_of_def Let_def)
  qed
qed

end
