(* ===== verification/MpInt.thy ===== *)
theory MpInt
  imports MpVec
begin

text \<open>
  Multiple precision integers: \<^verbatim>\<open>libmp/port/mpaux.c\<close>, addition, subtraction, comparison and shifts.  The \<open>mpint\<close>s live in a store,
  so that a result may be one of the operands; the digits of the \<open>mpint\<close> at \<open>a\<close> are the array \<open>a\<close>, wherever \<open>mpbits\<close> has
  moved them.  \<open>sysfatal\<close> ends the program, \<^const>\<open>None\<close>; \<open>malloc\<close> is taken to succeed.  Sizes in bits are mathematical integers.
\<close>

section \<open>The store\<close>

record mpint =
  mp_sign :: int
  mp_size :: nat
  mp_top :: nat
  mp_static :: bool
  mp_norm :: bool
  mp_timesafe :: bool
  mp_field :: bool

record mpheap =
  mh_ints :: "nat \<Rightarrow> mpint option"
  mh_mem :: dmem
  mh_next :: nat
  mh_mindigits :: nat

abbreviation mp_p :: "nat \<Rightarrow> dptr" where "mp_p a \<equiv> (a, 0)"

text \<open>The constants.\<close>

abbreviation (input) mpzero :: nat where "mpzero \<equiv> 0"
abbreviation (input) mpone :: nat where "mpone \<equiv> 1"
abbreviation (input) mptwo :: nat where "mptwo \<equiv> 2"

definition mp_constant :: "nat \<Rightarrow> mpint" where
  "mp_constant tp = \<lparr>mp_sign = 1, mp_size = 1, mp_top = tp, mp_static = True, mp_norm = True, mp_timesafe = False, mp_field = False\<rparr>"

definition mp_start :: mpheap where
  "mp_start = \<lparr>mh_ints = [mpzero \<mapsto> mp_constant 0, mpone \<mapsto> mp_constant 1, mptwo \<mapsto> mp_constant 1],
     mh_mem = [mpzero \<mapsto> [0], mpone \<mapsto> [1], mptwo \<mapsto> [2]], mh_next = 3, mh_mindigits = 33\<rparr>"

definition upd_mp :: "nat \<Rightarrow> (mpint \<Rightarrow> mpint) \<Rightarrow> mpheap \<Rightarrow> mpheap option" where
  "upd_mp a f h = do {
     b \<leftarrow> mh_ints h a;
     Some (h\<lparr>mh_ints := (mh_ints h)(a \<mapsto> f b)\<rparr>)
   }"

definition in_mem :: "(dmem \<Rightarrow> dmem option) \<Rightarrow> mpheap \<Rightarrow> mpheap option" where
  "in_mem f h = map_option (\<lambda>m. h\<lparr>mh_mem := m\<rparr>) (f (mh_mem h))"

section \<open>mpaux.c\<close>

text \<open>Division in C rounds towards 0.\<close>

definition DIGITS :: "int \<Rightarrow> int" where
  "DIGITS x = (let n = int Dbits - 1 + x in if n < 0 then - ((- n) div int Dbits) else n div int Dbits)"

definition mpsetminbits :: "int \<Rightarrow> mpheap \<Rightarrow> mpheap option" where
  "mpsetminbits n h = (if n < 0 then None else Some (h\<lparr>mh_mindigits := nat (DIGITS (if n = 0 then 1 else n))\<rparr>))"

definition mpnew :: "int \<Rightarrow> mpheap \<Rightarrow> (nat \<times> mpheap) option" where
  "mpnew n h = (if n < 0 then None else
     let n = max (nat (DIGITS n)) (mh_mindigits h);
         a = mh_next h;
         b = \<lparr>mp_sign = 1, mp_size = n, mp_top = 0, mp_static = False, mp_norm = True, mp_timesafe = False, mp_field = False\<rparr>
     in Some (a, h\<lparr>mh_ints := (mh_ints h)(a \<mapsto> b), mh_mem := (mh_mem h)(a \<mapsto> replicate n 0), mh_next := a + 1\<rparr>))"

text \<open>When the digits move, those below \<open>top\<close> are copied and all the others are cleared.  The digits of a constant cannot be given
  to \<open>realloc\<close>.\<close>

definition mpbits :: "nat \<Rightarrow> int \<Rightarrow> mpheap \<Rightarrow> mpheap option" where
  "mpbits a m h = do {
     b \<leftarrow> mh_ints h a;
     ds \<leftarrow> mh_mem h a;
     let n = DIGITS m;
     if int (mp_size b) \<ge> n \<and> int (mp_top b) \<ge> n then Some h
     else if int (mp_size b) < n \<and> mp_static b then None
     else do {
       let (b, ds) = (if int (mp_size b) \<ge> n then (b, ds) else (b\<lparr>mp_size := nat n\<rparr>, take (mp_top b) ds @ replicate (nat n - mp_top b) 0));
       if nat n > length ds then None
       else do {
         let ds = take (mp_top b) ds @ replicate (nat n - mp_top b) 0 @ drop (nat n) ds;
         Some (h\<lparr>mh_ints := (mh_ints h)(a \<mapsto> b\<lparr>mp_top := nat n, mp_norm := False\<rparr>), mh_mem := (mh_mem h)(a \<mapsto> ds)\<rparr>)
       }
     }
   }"

definition mpfree :: "nat \<Rightarrow> mpheap \<Rightarrow> mpheap option" where
  "mpfree a h = do {
     b \<leftarrow> mh_ints h a;
     if mp_static b then None
     else Some (h\<lparr>mh_ints := (mh_ints h)(a := None), mh_mem := (mh_mem h)(a := None)\<rparr>)
   }"

text \<open>The loop of \<open>mpnorm\<close>: \<open>i + 1\<close> when it ends.\<close>

fun norm_top :: "dmem \<Rightarrow> dptr \<Rightarrow> nat \<Rightarrow> nat option" where
  "norm_top m p 0 = Some 0"
| "norm_top m p (Suc i) = do {
     d \<leftarrow> dld m (dadd p i);
     if d \<noteq> 0 then Some (Suc i) else norm_top m p i
   }"

definition mpnorm :: "nat \<Rightarrow> mpheap \<Rightarrow> mpheap option" where
  "mpnorm a h = do {
     b \<leftarrow> mh_ints h a;
     if mp_timesafe b then (if mp_sign b \<noteq> 1 then None else upd_mp a (\<lambda>b. b\<lparr>mp_norm := False\<rparr>) h)
     else do {
       tp \<leftarrow> norm_top (mh_mem h) (mp_p a) (mp_top b);
       upd_mp a (\<lambda>b. b\<lparr>mp_top := tp, mp_sign := if tp = 0 then 1 else mp_sign b, mp_norm := True\<rparr>) h
     }
   }"

text \<open>\<open>memmove(new->p, old->p, n*Dbytes)\<close>.\<close>

definition copy_digits :: "nat \<Rightarrow> nat \<Rightarrow> nat \<Rightarrow> mpheap \<Rightarrow> mpheap option" where
  "copy_digits old new n h = do {
     os \<leftarrow> mh_mem h old;
     ns \<leftarrow> mh_mem h new;
     if n > length os \<or> n > length ns then None
     else Some (h\<lparr>mh_mem := (mh_mem h)(new \<mapsto> take n os @ drop n ns)\<rparr>)
   }"

definition mpcopy :: "nat \<Rightarrow> mpheap \<Rightarrow> (nat \<times> mpheap) option" where
  "mpcopy old h = do {
     b \<leftarrow> mh_ints h old;
     (new, h) \<leftarrow> mpnew (int Dbits * int (mp_size b)) h;
     h \<leftarrow> upd_mp new (\<lambda>c. c\<lparr>mp_top := mp_top b, mp_sign := mp_sign b, mp_static := False, mp_norm := mp_norm b,
            mp_timesafe := mp_timesafe b, mp_field := False\<rparr>) h;
     h \<leftarrow> copy_digits old new (mp_top b) h;
     Some (new, h)
   }"

definition mpassign :: "nat \<Rightarrow> nat \<Rightarrow> mpheap \<Rightarrow> mpheap option" where
  "mpassign old new h = (if old = new then Some h else do {
     b \<leftarrow> mh_ints h old;
     h \<leftarrow> upd_mp new (\<lambda>c. c\<lparr>mp_top := 0\<rparr>) h;
     h \<leftarrow> mpbits new (int Dbits * int (mp_top b)) h;
     h \<leftarrow> upd_mp new (\<lambda>c. c\<lparr>mp_sign := mp_sign b, mp_top := mp_top b, mp_norm := mp_norm b,
            mp_timesafe := mp_timesafe c \<or> mp_timesafe b\<rparr>) h;
     copy_digits old new (mp_top b) h
   })"

text \<open>The position of the highest bit that is set among the first \<open>j\<close>, plus 1.\<close>

fun high_bit :: "mpdigit \<Rightarrow> nat \<Rightarrow> nat option" where
  "high_bit d 0 = None"
| "high_bit d (Suc j) = (if d AND push_bit j 1 \<noteq> 0 then Some (j + 1) else high_bit d j)"

fun mpsignif_loop :: "dmem \<Rightarrow> dptr \<Rightarrow> nat \<Rightarrow> nat option" where
  "mpsignif_loop m p 0 = Some 0"
| "mpsignif_loop m p (Suc i) = do {
     d \<leftarrow> dld m (dadd p i);
     (case high_bit d Dbits of Some j \<Rightarrow> Some (i * Dbits + j) | None \<Rightarrow> mpsignif_loop m p i)
   }"

definition mpsignif :: "nat \<Rightarrow> mpheap \<Rightarrow> nat option" where
  "mpsignif a h = do {
     b \<leftarrow> mh_ints h a;
     if mp_top b = 0 then Some 0 else mpsignif_loop (mh_mem h) (mp_p a) (mp_top b)
   }"

text \<open>\<open>bit\<close> and \<open>digit\<close> as in the source; \<open>fuel\<close> is the number of bits left.\<close>

function mplowbits0_loop :: "dmem \<Rightarrow> dptr \<Rightarrow> nat \<Rightarrow> nat \<Rightarrow> nat \<Rightarrow> nat \<Rightarrow> mpdigit \<Rightarrow> nat option" where
  "mplowbits0_loop m p tp k bt digit d = (if bt \<ge> Dbits then None
     else if d AND push_bit bt 1 \<noteq> 0 then Some k
     else if bt + 1 = Dbits then
       (if digit + 1 \<ge> tp then Some 0
        else do {
          d \<leftarrow> dld m (dadd p (digit + 1));
          mplowbits0_loop m p tp (k + 1) 0 (digit + 1) d
        })
     else mplowbits0_loop m p tp (k + 1) (bt + 1) digit d)"
  by pat_completeness auto
termination by (relation "measures [\<lambda>(m, p, tp, k, bt, digit, d). tp - digit, \<lambda>(m, p, tp, k, bt, digit, d). Dbits - bt]") auto

declare mplowbits0_loop.simps [simp del]

definition mplowbits0 :: "nat \<Rightarrow> mpheap \<Rightarrow> nat option" where
  "mplowbits0 a h = do {
     b \<leftarrow> mh_ints h a;
     if \<not> mp_norm b then None
     else if mp_top b = 0 then Some 0
     else do {
       d \<leftarrow> dld (mh_mem h) (mp_p a);
       mplowbits0_loop (mh_mem h) (mp_p a) (mp_top b) 0 0 0 d
     }
   }"

section \<open>mpcmp.c\<close>

definition mpmagcmp :: "nat \<Rightarrow> nat \<Rightarrow> mpheap \<Rightarrow> int option" where
  "mpmagcmp a1 a2 h = do {
     b1 \<leftarrow> mh_ints h a1;
     b2 \<leftarrow> mh_ints h a2;
     if mp_timesafe b1 \<or> mp_timesafe b2 then mpvectscmp (mh_mem h) (mp_p a1) (mp_top b1) (mp_p a2) (mp_top b2)
     else if (mp_norm b1 \<or> mp_norm b2) \<and> mp_top b1 \<noteq> mp_top b2 then Some (int (mp_top b1) - int (mp_top b2))
     else mpveccmp (mh_mem h) (mp_p a1) (mp_top b1) (mp_p a2) (mp_top b2)
   }"

definition mpcmp :: "nat \<Rightarrow> nat \<Rightarrow> mpheap \<Rightarrow> int option" where
  "mpcmp a1 a2 h = do {
     b1 \<leftarrow> mh_ints h a1;
     b2 \<leftarrow> mh_ints h a2;
     c \<leftarrow> mpmagcmp a1 a2 h;
     let sign = drop_bit 1 (mp_sign b1 - mp_sign b2);
     Some (sign OR (((sign AND 1) - 1) AND (c * mp_sign b1)))
   }"

section \<open>mpadd.c and mpsub.c\<close>

text \<open>\<open>sum->flags |= (b1->flags | b2->flags) & MPtimesafe\<close>.\<close>

definition add_timesafe :: "nat \<Rightarrow> mpint \<Rightarrow> mpint \<Rightarrow> mpheap \<Rightarrow> mpheap option" where
  "add_timesafe r b1 b2 h = upd_mp r (\<lambda>b. b\<lparr>mp_timesafe := mp_timesafe b \<or> mp_timesafe b1 \<or> mp_timesafe b2\<rparr>) h"

text \<open>The rest of \<open>mpmagadd\<close>, once the operand with more digits comes first.\<close>

definition add_swapped :: "nat \<Rightarrow> nat \<Rightarrow> nat \<Rightarrow> mpheap \<Rightarrow> mpheap option" where
  "add_swapped a1 a2 r h = do {
     b1 \<leftarrow> mh_ints h a1;
     b2 \<leftarrow> mh_ints h a2;
     let n = mp_top b1;
     let m = mp_top b2;
     if n = 0 then mpassign mpzero r h
     else if m = 0 then mpassign a1 r h
     else do {
       h \<leftarrow> mpbits r ((int n + 1) * int Dbits) h;
       h \<leftarrow> upd_mp r (\<lambda>b. b\<lparr>mp_top := n + 1\<rparr>) h;
       h \<leftarrow> in_mem (\<lambda>mem. mpvecadd mem (mp_p a1) n (mp_p a2) m (mp_p r)) h;
       h \<leftarrow> upd_mp r (\<lambda>b. b\<lparr>mp_sign := 1\<rparr>) h;
       mpnorm r h
     }
   }"

definition mpmagadd :: "nat \<Rightarrow> nat \<Rightarrow> nat \<Rightarrow> mpheap \<Rightarrow> mpheap option" where
  "mpmagadd a1 a2 r h = do {
     b1 \<leftarrow> mh_ints h a1;
     b2 \<leftarrow> mh_ints h a2;
     h \<leftarrow> add_timesafe r b1 b2 h;
     if mp_top b2 > mp_top b1 then add_swapped a2 a1 r h else add_swapped a1 a2 r h
   }"

definition no_timesafe :: "mpint \<Rightarrow> mpint \<Rightarrow> mpint \<Rightarrow> bool" where
  "no_timesafe b1 b2 b3 \<longleftrightarrow> \<not> mp_timesafe b1 \<and> \<not> mp_timesafe b2 \<and> \<not> mp_timesafe b3"

text \<open>The rest of \<open>mpmagsub\<close>, once the greater operand comes first.\<close>

definition sub_swapped :: "int \<Rightarrow> nat \<Rightarrow> nat \<Rightarrow> nat \<Rightarrow> mpheap \<Rightarrow> mpheap option" where
  "sub_swapped sign a1 a2 r h = do {
     b1 \<leftarrow> mh_ints h a1;
     b2 \<leftarrow> mh_ints h a2;
     let n = mp_top b1;
     let m = mp_top b2;
     if m = 0 then do {
       h \<leftarrow> mpassign a1 r h;
       upd_mp r (\<lambda>b. b\<lparr>mp_sign := sign\<rparr>) h
     } else do {
       h \<leftarrow> mpbits r (int n * int Dbits) h;
       h \<leftarrow> in_mem (\<lambda>mem. mpvecsub mem (mp_p a1) n (mp_p a2) m (mp_p r)) h;
       h \<leftarrow> upd_mp r (\<lambda>b. b\<lparr>mp_sign := sign, mp_top := n\<rparr>) h;
       mpnorm r h
     }
   }"

definition mpmagsub :: "nat \<Rightarrow> nat \<Rightarrow> nat \<Rightarrow> mpheap \<Rightarrow> mpheap option" where
  "mpmagsub a1 a2 r h = do {
     b1 \<leftarrow> mh_ints h a1;
     b2 \<leftarrow> mh_ints h a2;
     b3 \<leftarrow> mh_ints h r;
     c \<leftarrow> mpmagcmp a1 a2 h;
     if c < 0 then (if no_timesafe b1 b2 b3 then sub_swapped (- 1) a2 a1 r h else None)
     else do {
       h \<leftarrow> add_timesafe r b1 b2 h;
       sub_swapped 1 a1 a2 r h
     }
   }"

definition mpadd :: "nat \<Rightarrow> nat \<Rightarrow> nat \<Rightarrow> mpheap \<Rightarrow> mpheap option" where
  "mpadd a1 a2 r h = do {
     b1 \<leftarrow> mh_ints h a1;
     b2 \<leftarrow> mh_ints h a2;
     b3 \<leftarrow> mh_ints h r;
     if mp_sign b1 \<noteq> mp_sign b2 then
       if \<not> no_timesafe b1 b2 b3 then None
       else if mp_sign b1 < 0 then mpmagsub a2 a1 r h else mpmagsub a1 a2 r h
     else do {
       h \<leftarrow> mpmagadd a1 a2 r h;
       upd_mp r (\<lambda>b. if mp_top b \<noteq> 0 then b\<lparr>mp_sign := mp_sign b1\<rparr> else b) h
     }
   }"

definition mpsub :: "nat \<Rightarrow> nat \<Rightarrow> nat \<Rightarrow> mpheap \<Rightarrow> mpheap option" where
  "mpsub a1 a2 r h = do {
     b1 \<leftarrow> mh_ints h a1;
     b2 \<leftarrow> mh_ints h a2;
     b3 \<leftarrow> mh_ints h r;
     if mp_sign b1 \<noteq> mp_sign b2 then
       if \<not> no_timesafe b1 b2 b3 then None
       else do {
         h \<leftarrow> mpmagadd a1 a2 r h;
         upd_mp r (\<lambda>b. b\<lparr>mp_sign := mp_sign b1\<rparr>) h
       }
     else do {
       h \<leftarrow> mpmagsub a1 a2 r h;
       upd_mp r (\<lambda>b. if mp_top b \<noteq> 0 then b\<lparr>mp_sign := mp_sign b * mp_sign b1\<rparr> else b) h
     }
   }"

section \<open>Well-formed integers\<close>

text \<open>The array has the recorded size; a normalised number has no leading zeros; 0 is not negative; the sign of a
  number for computations in constant time is 1.\<close>

definition mp_sized :: "mpint \<Rightarrow> mpdigit list \<Rightarrow> bool" where
  "mp_sized b ds \<longleftrightarrow> length ds = mp_size b \<and> mp_top b \<le> mp_size b \<and> (mp_sign b = 1 \<or> mp_sign b = - 1)"

definition mag :: "mpint \<Rightarrow> mpdigit list \<Rightarrow> nat" where
  "mag b ds = digval (take (mp_top b) ds)"

definition mp_wf :: "mpint \<Rightarrow> mpdigit list \<Rightarrow> bool" where
  "mp_wf b ds \<longleftrightarrow> mp_sized b ds \<and> (mp_norm b \<longrightarrow> mp_top b \<noteq> 0 \<longrightarrow> ds ! (mp_top b - 1) \<noteq> 0)
     \<and> (mag b ds = 0 \<longrightarrow> mp_sign b = 1) \<and> (mp_timesafe b \<longrightarrow> mp_sign b = 1)"

text \<open>The flags that only the user of the library sets are kept, and a number does not lose digits.\<close>

definition like :: "mpint \<Rightarrow> mpint \<Rightarrow> bool" where
  "like b b' \<longleftrightarrow> mp_static b' = mp_static b \<and> mp_timesafe b' = mp_timesafe b \<and> mp_field b' = mp_field b
     \<and> mp_size b \<le> mp_size b'"

lemma like_trans [trans]: "like a b \<Longrightarrow> like b c \<Longrightarrow> like a c"
  by (simp add: like_def)

lemma like_self [simp]: "like b b"
  by (simp add: like_def)

lemma like_upd [simp]:
  "like b (c\<lparr>mp_top := n\<rparr>) = like b c" "like b (c\<lparr>mp_sign := s\<rparr>) = like b c" "like b (c\<lparr>mp_norm := f\<rparr>) = like b c" "like b (b\<lparr>mp_size := n\<rparr>) \<longleftrightarrow> mp_size b \<le> n"
  "like (b\<lparr>mp_top := n\<rparr>) c = like b c" "like (b\<lparr>mp_sign := s\<rparr>) c = like b c" "like (b\<lparr>mp_norm := f\<rparr>) c = like b c"
  by (simp_all add: like_def)

lemma like_timesafe: "like b c \<Longrightarrow> mp_timesafe c = mp_timesafe b"
  by (simp add: like_def)

definition mp_at :: "mpheap \<Rightarrow> nat \<Rightarrow> mpint \<Rightarrow> mpdigit list \<Rightarrow> bool" where
  "mp_at h a b ds \<longleftrightarrow> mh_ints h a = Some b \<and> mh_mem h a = Some ds"

definition mp_is :: "mpheap \<Rightarrow> nat \<Rightarrow> int \<Rightarrow> bool" where
  "mp_is h a v \<longleftrightarrow> (\<exists>b ds. mp_at h a b ds \<and> mp_wf b ds \<and> v = mp_sign b * int (mag b ds))"

definition put_mp :: "nat \<Rightarrow> mpint \<Rightarrow> mpdigit list \<Rightarrow> mpheap \<Rightarrow> mpheap" where
  "put_mp a b ds h = h\<lparr>mh_ints := (mh_ints h)(a \<mapsto> b), mh_mem := (mh_mem h)(a \<mapsto> ds)\<rparr>"

lemma put_mp_again [simp]: "put_mp a b ds (put_mp a c es h) = put_mp a b ds h"
  by (simp add: put_mp_def)

lemma put_mp_fields [simp]:
  "mh_ints (put_mp a b ds h) = (mh_ints h)(a \<mapsto> b)" "mh_mem (put_mp a b ds h) = (mh_mem h)(a \<mapsto> ds)" "mh_next (put_mp a b ds h) = mh_next h"
  by (simp_all add: put_mp_def)

lemma put_mp_same: "mp_at h a b ds \<Longrightarrow> put_mp a b ds h = h"
  by (auto simp: mp_at_def put_mp_def fun_upd_idem)

lemma mp_at_put [simp]: "mp_at (put_mp a b ds h) c b' ds' \<longleftrightarrow> (if c = a then b' = b \<and> ds' = ds else mp_at h c b' ds')"
  by (auto simp: mp_at_def)

lemma upd_mp_at: "mp_at h a b ds \<Longrightarrow> upd_mp a f h = Some (put_mp a (f b) ds h)"
  by (auto simp: upd_mp_def mp_at_def put_mp_def fun_upd_idem)

lemma upd_mp_put [simp]: "upd_mp a f (put_mp a b ds h) = Some (put_mp a (f b) ds h)"
  by (simp add: upd_mp_def put_mp_def)

lemma in_mem_put [simp]: "in_mem f (put_mp a b ds h) = map_option (\<lambda>m. (put_mp a b ds h)\<lparr>mh_mem := m\<rparr>) (f ((mh_mem h)(a \<mapsto> ds)))"
  by (simp add: in_mem_def)

lemma put_mp_mem: "(put_mp a b ds h)\<lparr>mh_mem := (mh_mem h)(a \<mapsto> es)\<rparr> = put_mp a b es h"
  by (simp add: put_mp_def)

lemma seg_whole: "m a = Some ds \<Longrightarrow> n \<le> length ds \<Longrightarrow> seg m (a, 0) (take n ds)"
  by (simp add: seg_def)

lemma room_whole: "m a = Some ds \<Longrightarrow> n \<le> length ds \<Longrightarrow> room m (a, 0) n"
  by (simp add: room_def)

lemma put_whole: "m a = Some ds \<Longrightarrow> put m (a, 0) zs = m(a \<mapsto> zs @ drop (length zs) ds)"
  by (simp add: put_def)

lemma digval_last: "xs \<noteq> [] \<Longrightarrow> last xs \<noteq> 0 \<Longrightarrow> 2 ^ (Dbits * (length xs - 1)) \<le> digval xs"
proof -
  assume xs: "xs \<noteq> []" "last xs \<noteq> 0"
  have "digval xs = digval (butlast xs) + 2 ^ (Dbits * (length xs - 1)) * unat (last xs)"
    using digval_append [of "butlast xs" "[last xs]"] xs(1) by simp
  moreover have "1 \<le> unat (last xs)" using xs(2) by (simp add: Suc_le_eq unat_gt_0)
  ultimately show ?thesis by (metis le_add2 le_trans mult.right_neutral mult_le_mono2)
qed

lemma top_length: "mp_sized b ds \<Longrightarrow> length (take (mp_top b) ds) = mp_top b"
  by (simp add: mp_sized_def)

lemma norm_mag:
  assumes "mp_wf b ds" "mp_norm b" "mp_top b \<noteq> 0"
  shows "2 ^ (Dbits * (mp_top b - 1)) \<le> mag b ds"
proof -
  let ?xs = "take (mp_top b) ds"
  have l: "length ?xs = mp_top b" by (rule top_length) (use assms(1) in \<open>simp add: mp_wf_def\<close>)
  then have e: "?xs \<noteq> []" using assms(3) by fastforce
  then have "last ?xs = ds ! (mp_top b - 1)" unfolding last_conv_nth [OF e] l using assms(3) by simp
  then show ?thesis using digval_last [OF e] assms l by (simp add: mp_wf_def mag_def)
qed

lemma mag_bound: "mp_sized b ds \<Longrightarrow> mag b ds < 2 ^ (Dbits * mp_top b)"
  using digval_bound [of "take (mp_top b) ds"] top_length [of b ds] unfolding mag_def by simp

lemma norm_zero: "mp_wf b ds \<Longrightarrow> mp_norm b \<Longrightarrow> mag b ds = 0 \<longleftrightarrow> mp_top b = 0"
proof (cases "mp_top b = 0")
  case False
  assume "mp_wf b ds" "mp_norm b"
  then have "2 ^ (Dbits * (mp_top b - 1)) \<le> mag b ds" using False by (rule norm_mag)
  moreover have "(0 :: nat) < 2 ^ (Dbits * (mp_top b - 1))" by simp
  ultimately show ?thesis using False by linarith
qed (simp add: mag_def)

section \<open>mpaux.c\<close>

lemma DIGITS_mult [simp]: "DIGITS (int n * 32) = int n" "DIGITS (32 * int n) = int n" "DIGITS ((int n + 1) * 32) = int n + 1"
  by (simp_all add: DIGITS_def Let_def)

lemma take_pad: "k \<le> length ds \<Longrightarrow> digval (take n (take k ds @ replicate (n - k) 0 @ es)) = digval (take (min k n) ds)"
  by (cases "k \<le> n") (simp_all add: digval_append min_def)

text \<open>\<open>mpbits\<close> makes room; digits that come into use are 0.\<close>

lemma mpbits_put:
  assumes "mp_at h a b ds" and "mp_sized b ds" and st: "\<not> mp_static b"
  shows "\<exists>b' ds'. mpbits a m h = Some (put_mp a b' ds' h) \<and> mp_sized b' ds' \<and> take (mp_top b) ds' = take (mp_top b) ds
    \<and> mp_top b' = max (mp_top b) (nat (DIGITS m)) \<and> mag b' ds' = mag b ds
    \<and> mp_sign b' = mp_sign b \<and> like b b' \<and> (mp_norm b' \<longrightarrow> mp_norm b \<and> b' = b \<and> ds' = ds)"
proof -
  let ?n = "nat (DIGITS m)"
  have at: "mh_ints h a = Some b" "mh_mem h a = Some ds" using assms(1) by (simp_all add: mp_at_def)
  have sz: "length ds = mp_size b" "mp_top b \<le> mp_size b" using assms(2) by (simp_all add: mp_sized_def)
  show ?thesis
  proof (cases "DIGITS m \<le> int (mp_top b)")
    case True
    then have "mpbits a m h = Some h" using at sz by (simp add: mpbits_def Let_def)
    then show ?thesis using put_mp_same [OF assms(1)] assms(2) True by (intro exI [of _ b] exI [of _ ds]) simp
  next
    case False
    let ?b = "b\<lparr>mp_size := max (mp_size b) ?n, mp_top := ?n, mp_norm := False\<rparr>"
    let ?ds = "take (mp_top b) ds @ replicate (?n - mp_top b) 0 @ drop ?n ds"
    have "mpbits a m h = Some (put_mp a ?b ?ds h)"
    proof (cases "DIGITS m \<le> int (mp_size b)")
      case True
      then have "max (mp_size b) ?n = mp_size b" by simp
      then show ?thesis using True False at sz st by (simp add: mpbits_def Let_def put_mp_def)
    next
      case f: False
      then have "max (mp_size b) ?n = ?n" "drop ?n ds = []" using sz by simp_all
      then show ?thesis using f False at sz st by (simp add: mpbits_def Let_def put_mp_def)
    qed
    moreover have "mag ?b ?ds = mag b ds"
    proof -
      have "min (mp_top b) ?n = mp_top b" using False by simp
      then show ?thesis using take_pad [of "mp_top b" ds ?n "drop ?n ds"] sz by (simp add: mag_def del: take_append)
    qed
    ultimately show ?thesis
      using assms(2) False sz by (intro exI [of _ ?b] exI [of _ ?ds]) (auto simp: mp_sized_def max_def)
  qed
qed

lemma norm_top_correct:
  "seg m p xs \<Longrightarrow> length xs = n \<Longrightarrow> \<exists>k. norm_top m p n = Some k \<and> k \<le> n \<and> digval (take k xs) = digval xs \<and> (k \<noteq> 0 \<longrightarrow> xs ! (k - 1) \<noteq> 0)"
proof (induction n arbitrary: xs)
  case (Suc n)
  obtain ys d where xs: "xs = ys @ [d]" "length ys = n" using Suc.prems(2) by (auto simp: length_Suc_conv_rev)
  have l: "dld m (dadd p n) = Some d" "seg m p ys" using Suc.prems(1) xs by (simp_all add: seg_append)
  show ?case
  proof (cases "d = 0")
    case True
    obtain k where "norm_top m p n = Some k" "k \<le> n" "digval (take k ys) = digval ys" "k \<noteq> 0 \<longrightarrow> ys ! (k - 1) \<noteq> 0"
      using Suc.IH [OF l(2) xs(2)] by blast
    then show ?thesis using True l(1) xs by (intro exI [of _ k]) (auto simp: digval_append nth_append)
  next
    case False
    then show ?thesis using l(1) xs Suc.prems(2) by (intro exI [of _ "Suc n"]) (simp add: nth_append)
  qed
qed simp

lemma mpnorm_put:
  assumes "mp_sized b ds" and "mp_timesafe b \<Longrightarrow> mp_sign b = 1"
  shows "\<exists>b'. mpnorm a (put_mp a b ds h) = Some (put_mp a b' ds h) \<and> mp_wf b' ds \<and> mag b' ds = mag b ds
    \<and> mp_sign b' = (if mag b ds = 0 then 1 else mp_sign b) \<and> like b b'
    \<and> (\<not> mp_timesafe b \<longrightarrow> mp_norm b') \<and> (mp_top b' = 0 \<longrightarrow> mag b ds = 0)"
proof (cases "mp_timesafe b")
  case True
  then show ?thesis using assms by (intro exI [of _ "b\<lparr>mp_norm := False\<rparr>"]) (auto simp: mpnorm_def mp_wf_def mp_sized_def mag_def)
next
  case False
  let ?m = "(mh_mem h)(a \<mapsto> ds)"
  have "seg ?m (a, 0) (take (mp_top b) ds)" "length (take (mp_top b) ds) = mp_top b"
    using assms(1) by (simp_all add: seg_whole mp_sized_def)
  from norm_top_correct [OF this] obtain k where k: "norm_top ?m (a, 0) (mp_top b) = Some k" "k \<le> mp_top b"
    "digval (take k (take (mp_top b) ds)) = mag b ds" "k \<noteq> 0 \<longrightarrow> take (mp_top b) ds ! (k - 1) \<noteq> 0" unfolding mag_def by blast
  then have k': "digval (take k ds) = mag b ds" "k \<noteq> 0 \<longrightarrow> ds ! (k - 1) \<noteq> 0" by (simp_all add: min_def)
  let ?b = "b\<lparr>mp_top := k, mp_sign := if k = 0 then 1 else mp_sign b, mp_norm := True\<rparr>"
  have n: "mpnorm a (put_mp a b ds h) = Some (put_mp a ?b ds h)" using False k(1) by (simp add: mpnorm_def)
  have m: "mag ?b ds = mag b ds" using k'(1) by (simp add: mag_def)
  have s: "mp_sized ?b ds" using assms(1) k(2) by (auto simp: mp_sized_def)
  have z: "mag b ds = 0 \<longleftrightarrow> k = 0"
    using norm_zero [of "b\<lparr>mp_top := k, mp_sign := 1, mp_norm := True\<rparr>" ds] k(2) k' assms(1) False by (auto simp: mp_wf_def mp_sized_def mag_def)
  show ?thesis using n m s z k'(2) False by (intro exI [of _ ?b]) (auto simp: mp_wf_def)
qed

lemma copy_digits_put:
  assumes "mh_mem h old = Some os" "old \<noteq> new" "n \<le> length os" "n \<le> length ns"
  shows "copy_digits old new n (put_mp new c ns h) = Some (put_mp new c (take n os @ drop n ns) h)"
  using assms by (simp add: copy_digits_def put_mp_def)

lemma mpassign_put:
  assumes o: "mp_at h old b ds" "mp_wf b ds" and n: "mp_at h new c es" "mp_sized c es" "\<not> mp_static c" and ts: "mp_timesafe c \<Longrightarrow> mp_sign b = 1"
    and ne: "old \<noteq> new"
  shows "\<exists>c' es'. mpassign old new h = Some (put_mp new c' es' h) \<and> mp_wf c' es' \<and> mag c' es' = mag b ds \<and> mp_sign c' = mp_sign b
    \<and> mp_top c' = mp_top b \<and> mp_norm c' = mp_norm b
    \<and> like (c\<lparr>mp_timesafe := mp_timesafe c \<or> mp_timesafe b\<rparr>) c'"
proof -
  have at: "mh_ints h old = Some b" "mh_mem h old = Some ds" using o(1) by (simp_all add: mp_at_def)
  have sz: "length ds = mp_size b" "mp_top b \<le> mp_size b" "mp_sign b = 1 \<or> mp_sign b = - 1" using o(2) by (simp_all add: mp_wf_def mp_sized_def)
  let ?c = "c\<lparr>mp_top := 0\<rparr>"
  have u: "upd_mp new (\<lambda>c. c\<lparr>mp_top := 0\<rparr>) h = Some (put_mp new ?c es h)" by (rule upd_mp_at [OF n(1)])
  have "mp_sized ?c es" "\<not> mp_static ?c" using n(2,3) by (auto simp: mp_sized_def)
  then obtain c1 es1 where c1: "mpbits new (int Dbits * int (mp_top b)) (put_mp new ?c es h) = Some (put_mp new c1 es1 h)" "mp_sized c1 es1"
    "mp_top c1 = mp_top b" "like c c1"
    using mpbits_put [of "put_mp new ?c es h" new ?c es "int Dbits * int (mp_top b)"] by auto
  let ?c2 = "c1\<lparr>mp_sign := mp_sign b, mp_top := mp_top b, mp_norm := mp_norm b, mp_timesafe := mp_timesafe c1 \<or> mp_timesafe b\<rparr>"
  let ?es = "take (mp_top b) ds @ drop (mp_top b) es1"
  have l: "mp_top b \<le> length es1" using c1(2,3) by (auto simp: mp_sized_def)
  have "mpassign old new h = Some (put_mp new ?c2 ?es h)"
    using ne at(1) u c1(1) copy_digits_put [OF at(2) ne, of "mp_top b" es1 ?c2] sz l by (simp add: mpassign_def)
  moreover have "mag ?c2 ?es = mag b ds" using sz by (simp add: mag_def)
  moreover have "mp_wf ?c2 ?es" using o(2) c1 sz l ts calculation(2)
    by (auto simp: mp_wf_def mp_sized_def nth_append like_def)
  ultimately show ?thesis using c1 by (intro exI [of _ ?c2] exI [of _ ?es]) (simp add: like_def)
qed

section \<open>Comparison\<close>

text \<open>One normalised number and one that is not, outside of constant time, are the only pair that is compared wrongly.\<close>

definition comparable :: "mpint \<Rightarrow> mpint \<Rightarrow> bool" where
  "comparable b1 b2 \<longleftrightarrow> mp_timesafe b1 \<or> mp_timesafe b2 \<or> mp_norm b1 = mp_norm b2"

lemma top_less_mag:
  assumes "mp_wf b1 ds1" "mp_wf b2 ds2" "mp_norm b2" "mp_top b1 < mp_top b2"
  shows "mag b1 ds1 < mag b2 ds2"
proof -
  have "mag b1 ds1 < 2 ^ (Dbits * mp_top b1)" using assms(1) by (intro mag_bound) (simp add: mp_wf_def)
  also have "\<dots> \<le> 2 ^ (Dbits * (mp_top b2 - 1))" using assms(4) by (intro power_increasing) simp_all
  also have "\<dots> \<le> mag b2 ds2" by (rule norm_mag) (use assms in simp_all)
  finally show ?thesis .
qed

lemma mpmagcmp_at:
  assumes a: "mp_at h a1 b1 ds1" "mp_wf b1 ds1" "mp_at h a2 b2 ds2" "mp_wf b2 ds2" and c: "comparable b1 b2"
  shows "\<exists>c. mpmagcmp a1 a2 h = Some c \<and> (c < 0 \<longleftrightarrow> mag b1 ds1 < mag b2 ds2) \<and> (c > 0 \<longrightarrow> mag b1 ds1 \<ge> mag b2 ds2)
    \<and> (\<not> mp_timesafe b1 \<longrightarrow> \<not> mp_timesafe b2 \<longrightarrow> sgn c = sign_of (mag b1 ds1) (mag b2 ds2))"
proof -
  have m: "mh_ints h a1 = Some b1" "mh_ints h a2 = Some b2" "mh_mem h a1 = Some ds1" "mh_mem h a2 = Some ds2"
    using a by (simp_all add: mp_at_def)
  have z: "mp_sized b1 ds1" "mp_sized b2 ds2" using a by (simp_all add: mp_wf_def)
  then have s: "seg (mh_mem h) (a1, 0) (take (mp_top b1) ds1)" "seg (mh_mem h) (a2, 0) (take (mp_top b2) ds2)"
    using m by (auto intro!: seg_whole simp: mp_sized_def)
  note cmp = mpveccmp_correct [OF s(1) top_length [OF z(1)] s(2) top_length [OF z(2)]]
    and tscmp = mpvectscmp_correct [OF s(1) top_length [OF z(1)] s(2) top_length [OF z(2)]]
  consider (ts) "mp_timesafe b1 \<or> mp_timesafe b2" | (tops) "\<not> mp_timesafe b1" "\<not> mp_timesafe b2" "mp_norm b1" "mp_norm b2" "mp_top b1 \<noteq> mp_top b2"
    | (vec) "\<not> mp_timesafe b1" "\<not> mp_timesafe b2" "\<not> ((mp_norm b1 \<or> mp_norm b2) \<and> mp_top b1 \<noteq> mp_top b2)"
    using c by (auto simp: comparable_def)
  then show ?thesis
  proof cases
    case ts
    then show ?thesis using m tscmp by (auto simp: mpmagcmp_def mag_def sign_of_def split: if_splits)
  next
    case tops
    then show ?thesis
      using m top_less_mag [OF a(2,4)] top_less_mag [OF a(4,2)]
      by (cases "mp_top b1" "mp_top b2" rule: linorder_cases) (auto simp: mpmagcmp_def sign_of_def sgn_if)
  next
    case vec
    then show ?thesis using m cmp by (auto simp: mpmagcmp_def mag_def sign_of_def split: if_splits)
  qed
qed

lemma sign_bits: "s = 0 \<or> s = 1 \<or> s = - 1 \<Longrightarrow> s OR ((s AND 1) - 1 AND x) = (if s = 0 then x else s)" for s x :: int
  by (elim disjE) simp_all

lemma mpcmp_at:
  assumes a: "mp_at h a1 b1 ds1" "mp_wf b1 ds1" "mp_at h a2 b2 ds2" "mp_wf b2 ds2" and c: "comparable b1 b2"
    and ts: "\<not> mp_timesafe b1" "\<not> mp_timesafe b2"
  shows "\<exists>c. mpcmp a1 a2 h = Some c \<and> sgn c = sgn (mp_sign b1 * int (mag b1 ds1) - mp_sign b2 * int (mag b2 ds2))"
proof -
  obtain c where c: "mpmagcmp a1 a2 h = Some c" "sgn c = sign_of (mag b1 ds1) (mag b2 ds2)" using mpmagcmp_at [OF a c] ts by blast
  have s: "mp_sign b1 = 1 \<or> mp_sign b1 = - 1" "mp_sign b2 = 1 \<or> mp_sign b2 = - 1"
    "mag b1 ds1 = 0 \<longrightarrow> mp_sign b1 = 1" "mag b2 ds2 = 0 \<longrightarrow> mp_sign b2 = 1" using a by (auto simp: mp_wf_def mp_sized_def)
  let ?s = "drop_bit 1 (mp_sign b1 - mp_sign b2)"
  have d: "?s = 0 \<and> mp_sign b1 = mp_sign b2 \<or> ?s = 1 \<and> mp_sign b1 = 1 \<and> mp_sign b2 = - 1 \<or> ?s = - 1 \<and> mp_sign b1 = - 1 \<and> mp_sign b2 = 1"
    using s(1,2) by auto
  then have "mpcmp a1 a2 h = Some (if ?s = 0 then c * mp_sign b1 else ?s)"
    using c(1) a sign_bits [of ?s "c * mp_sign b1"] by (auto simp: mpcmp_def mp_at_def)
  moreover have "sgn (if ?s = 0 then c * mp_sign b1 else ?s) = sgn (mp_sign b1 * int (mag b1 ds1) - mp_sign b2 * int (mag b2 ds2))"
    using d
  proof (elim disjE)
    assume "?s = 0 \<and> mp_sign b1 = mp_sign b2"
    then show ?thesis using c(2) s(1) by (auto simp: sign_of_def sgn_if split: if_splits)
  qed (use s(3,4) in \<open>auto simp: sgn_if\<close>)
  ultimately show ?thesis by blast
qed

section \<open>Addition and subtraction\<close>

lemma ahead_mp [simp]: "ahead (r, 0) (a, 0) n"
  by (simp add: ahead_def)

text \<open>The digits of an operand after the result has been given room, also when it is the result.\<close>

lemma seg_operand:
  assumes "mh_mem h a = Some ds" "n \<le> length ds" and "a = r \<Longrightarrow> n \<le> k \<and> length ds' \<ge> n \<and> take k ds' = take k ds"
  shows "seg ((mh_mem h)(r \<mapsto> ds')) (a, 0) (take n ds)"
proof (cases "a = r")
  case True
  then have "take n ds' = take n ds" using assms(3) by (metis min.absorb1 take_take)
  then show ?thesis using True assms(3) seg_whole [of "(mh_mem h)(r \<mapsto> ds')" r ds' n] by simp
next
  case False
  then show ?thesis using assms(1,2) by (intro seg_whole) simp_all
qed

text \<open>Normalised, and not for computations in constant time.\<close>

definition mp_plain :: "mpheap \<Rightarrow> nat \<Rightarrow> mpint \<Rightarrow> mpdigit list \<Rightarrow> bool" where
  "mp_plain h a b ds \<longleftrightarrow> mp_at h a b ds \<and> mp_wf b ds \<and> mp_norm b \<and> \<not> mp_timesafe b"

definition mp_out :: "mpheap \<Rightarrow> nat \<Rightarrow> mpint \<Rightarrow> mpdigit list \<Rightarrow> bool" where
  "mp_out h a b ds \<longleftrightarrow> mp_at h a b ds \<and> mp_sized b ds \<and> \<not> mp_timesafe b \<and> \<not> mp_static b"

lemma plainD:
  "mp_plain h a b ds \<Longrightarrow> mp_at h a b ds" "mp_plain h a b ds \<Longrightarrow> mp_wf b ds" "mp_plain h a b ds \<Longrightarrow> mp_sized b ds" "mp_plain h a b ds \<Longrightarrow> \<not> mp_timesafe b"
  "mp_plain h a b ds \<Longrightarrow> mp_norm b" "mp_plain h a b ds \<Longrightarrow> mh_ints h a = Some b" "mp_plain h a b ds \<Longrightarrow> mh_mem h a = Some ds"
  by (simp_all add: mp_plain_def mp_wf_def mp_at_def)

lemma outD:
  "mp_out h a b ds \<Longrightarrow> mp_at h a b ds" "mp_out h a b ds \<Longrightarrow> mp_sized b ds" "mp_out h a b ds \<Longrightarrow> \<not> mp_timesafe b"
  "mp_out h a b ds \<Longrightarrow> mh_ints h a = Some b" "mp_out h a b ds \<Longrightarrow> mh_mem h a = Some ds" "mp_out h a b ds \<Longrightarrow> \<not> mp_static b"
  by (simp_all add: mp_out_def mp_at_def)

lemma plain_out: "mp_plain h a b ds \<Longrightarrow> \<not> mp_static b \<Longrightarrow> mp_out h a b ds"
  by (simp add: mp_plain_def mp_out_def mp_wf_def)

text \<open>What an operation leaves in its result: the new number, in the place of the old one, is normalised.\<close>

definition result :: "mpheap option \<Rightarrow> mpheap \<Rightarrow> nat \<Rightarrow> mpint \<Rightarrow> int \<Rightarrow> bool" where
  "result res h r b v \<longleftrightarrow> (\<exists>b' ds'. res = Some (put_mp r b' ds' h) \<and> mp_wf b' ds' \<and> mp_norm b' \<and> like b b'
     \<and> mp_sign b' * int (mag b' ds') = v)"

lemma resultI:
  "res = Some (put_mp r b' ds' h) \<Longrightarrow> mp_wf b' ds' \<Longrightarrow> mp_norm b' \<Longrightarrow> like b b' \<Longrightarrow> mp_sign b' * int (mag b' ds') = v \<Longrightarrow> result res h r b v"
  unfolding result_def by blast

lemma resultE:
  assumes "result res h r b v"
  obtains b' ds' where "res = Some (put_mp r b' ds' h)" "mp_wf b' ds'" "mp_norm b'" "like b b'" "mp_sign b' * int (mag b' ds') = v"
  using assms unfolding result_def by blast

lemma mpnorm_result:
  assumes "mp_sized c ds" "like b c" "\<not> mp_timesafe b" and "mp_sign c * int (mag c ds) = v"
  shows "result (mpnorm r (put_mp r c ds h)) h r b v"
proof -
  have ts: "\<not> mp_timesafe c" using assms(2,3) by (simp add: like_def)
  obtain b' where "mpnorm r (put_mp r c ds h) = Some (put_mp r b' ds h)" "mp_wf b' ds" "mag b' ds = mag c ds"
    "mp_sign b' = (if mag c ds = 0 then 1 else mp_sign c)" "like c b'" "mp_norm b'" using mpnorm_put [OF assms(1), of r h] ts by blast
  then show ?thesis using assms(4) like_trans [OF assms(2)] by (intro resultI [of _ r b' ds]) auto
qed

lemma mpassign_result:
  assumes a: "mp_plain h a b1 ds1" and r: "mp_out h r b ds"
  shows "result (mpassign a r h) h r b (mp_sign b1 * int (mag b1 ds1))"
proof (cases "a = r")
  case True
  then have "b1 = b" "ds1 = ds" using plainD(1) [OF a] outD(1) [OF r] by (auto simp: mp_at_def)
  then show ?thesis using True a put_mp_same [OF plainD(1) [OF a]] by (intro resultI [of _ r b ds]) (auto simp: mpassign_def mp_plain_def)
next
  case False
  have ts: "mp_timesafe b \<Longrightarrow> mp_sign b1 = 1" "b\<lparr>mp_timesafe := mp_timesafe b \<or> mp_timesafe b1\<rparr> = b" using outD(3) [OF r] plainD(4) [OF a] by simp_all
  obtain c' es' where "mpassign a r h = Some (put_mp r c' es' h)" "mp_wf c' es'" "mag c' es' = mag b1 ds1" "mp_sign c' = mp_sign b1"
    "mp_norm c' = mp_norm b1" "like b c'"
    using mpassign_put [OF plainD(1,2) [OF a] outD(1,2,6) [OF r] ts(1) False] unfolding ts(2) by blast
  then show ?thesis using plainD(5) [OF a] by (intro resultI [of _ r c' es']) simp_all
qed

lemma room_for:
  assumes r: "mp_out h r b ds"
  obtains c es where "mpbits r (int n * int Dbits) h = Some (put_mp r c es h)" "mp_sized c es" "take (mp_top b) es = take (mp_top b) ds"
    "mp_top b \<le> length es" "n \<le> length es" "like b c"
proof -
  have d: "nat (DIGITS (int n * int Dbits)) = n" by simp
  obtain c es where c: "mpbits r (int n * int Dbits) h = Some (put_mp r c es h)" "mp_sized c es" "take (mp_top b) es = take (mp_top b) ds"
    "mp_top c = max (mp_top b) n" "like b c"
    using mpbits_put [OF outD(1,2,6) [OF r], of "int n * int Dbits"] unfolding d by blast
  then show thesis by (intro that [of c es]) (simp_all add: mp_sized_def)
qed

lemma plain_seg:
  assumes a: "mp_plain h a b1 ds1" and r: "mh_ints h r = Some b" "mh_mem h r = Some ds" and e: "take (mp_top b) es = take (mp_top b) ds" "mp_top b \<le> length es"
  shows "seg ((mh_mem h)(r \<mapsto> es)) (a, 0) (take (mp_top b1) ds1)" "length (take (mp_top b1) ds1) = mp_top b1"
proof -
  show "seg ((mh_mem h)(r \<mapsto> es)) (a, 0) (take (mp_top b1) ds1)"
    by (rule seg_operand [OF plainD(7) [OF a], where k = "mp_top b"]) (use plainD(3,6,7) [OF a] r e in \<open>auto simp: mp_sized_def\<close>)
qed (rule top_length [OF plainD(3) [OF a]])

text \<open>Digits computed into the result, with a new top and sign.\<close>

lemma vec_put:
  assumes "mp_sized c es" "length zs \<le> length es" "s = 1 \<or> s = - 1"
  shows "put ((mh_mem h)(r \<mapsto> es)) (r, 0) zs = (mh_mem h)(r \<mapsto> zs @ drop (length zs) es)"
    and "mp_sized (c\<lparr>mp_top := length zs, mp_sign := s\<rparr>) (zs @ drop (length zs) es)"
    and "mag (c\<lparr>mp_top := length zs, mp_sign := s\<rparr>) (zs @ drop (length zs) es) = digval zs"
  using assms put_whole [of "(mh_mem h)(r \<mapsto> es)" r es zs] by (auto simp: mp_sized_def mag_def)

lemma add_swapped_result:
  assumes a: "mp_plain h a1 b1 ds1" "mp_plain h a2 b2 ds2" and le: "mp_top b2 \<le> mp_top b1" and r: "mp_out h r b ds"
    and z: "mp_plain h mpzero z zs0" "mp_top z = 0"
  shows "result (add_swapped a1 a2 r h) h r b ((if mp_top b2 = 0 then mp_sign b1 else 1) * int (mag b1 ds1 + mag b2 ds2))"
proof (cases "mp_top b2 = 0")
  case True
  then have m: "mag b2 ds2 = 0" "mp_top b1 = 0 \<Longrightarrow> mag b1 ds1 = 0" "mag z zs0 = 0" using z(2) by (simp_all add: mag_def)
  show ?thesis
    using True m mpassign_result [OF z(1) r] mpassign_result [OF a(1) r] plainD(6) [OF a(1)] plainD(6) [OF a(2)]
    by (cases "mp_top b1 = 0") (simp_all add: add_swapped_def)
next
  case False
  let ?n = "mp_top b1"
  obtain c es where c: "mpbits r (int (Suc ?n) * int Dbits) h = Some (put_mp r c es h)" "mp_sized c es" "take (mp_top b) es = take (mp_top b) ds"
    "mp_top b \<le> length es" "Suc ?n \<le> length es" "like b c" by (rule room_for [OF r])
  have bits: "mpbits r ((int ?n + 1) * int Dbits) h = Some (put_mp r c es h)" using c(1) by (simp add: algebra_simps)
  note s1 = plain_seg [OF a(1) outD(4,5) [OF r] c(3,4)] and s2 = plain_seg [OF a(2) outD(4,5) [OF r] c(3,4)]
  have "room ((mh_mem h)(r \<mapsto> es)) (r, 0) (Suc ?n)" using c(5) by (simp add: room_whole)
  then obtain zs where z: "mpvecadd ((mh_mem h)(r \<mapsto> es)) (a1, 0) ?n (a2, 0) (mp_top b2) (r, 0) = Some (put ((mh_mem h)(r \<mapsto> es)) (r, 0) zs)"
    "length zs = Suc ?n" "digval zs = mag b1 ds1 + mag b2 ds2"
    using mpvecadd_correct [OF s1 s2 le, of "(r, 0)"] by (auto simp: mag_def)
  have le': "length zs \<le> length es" using z(2) c(5) by simp
  note v = vec_put [OF c(2) le', of 1, simplified]
  have "add_swapped a1 a2 r h = mpnorm r (put_mp r (c\<lparr>mp_top := length zs, mp_sign := 1\<rparr>) (zs @ drop (length zs) es) h)"
    using False le plainD(6) [OF a(1)] plainD(6) [OF a(2)] bits z(1,2) v(1) [of h r] by (simp add: add_swapped_def put_mp_mem Let_def)
  moreover have "result (mpnorm r (put_mp r (c\<lparr>mp_top := length zs, mp_sign := 1\<rparr>) (zs @ drop (length zs) es) h)) h r b (int (mag b1 ds1 + mag b2 ds2))"
    by (rule mpnorm_result) (use v(2,3) c(6) outD(3) [OF r] z(3) in simp_all)
  ultimately show ?thesis using False by simp
qed

lemma add_timesafe_plain:
  assumes "mp_plain h a1 b1 ds1" "mp_plain h a2 b2 ds2" and r: "mp_out h r b ds"
  shows "add_timesafe r b1 b2 h = Some h"
proof -
  have "b\<lparr>mp_timesafe := mp_timesafe b \<or> mp_timesafe b1 \<or> mp_timesafe b2\<rparr> = b" using assms by (cases b) (simp add: mp_plain_def mp_out_def)
  then show ?thesis using upd_mp_at [OF outD(1) [OF r]] put_mp_same [OF outD(1) [OF r]] by (simp add: add_timesafe_def)
qed

text \<open>\<open>mpmagadd\<close>: of two numbers of the same sign one gets the sum, up to the sign.\<close>

lemma mpmagadd_result:
  assumes a: "mp_plain h a1 b1 ds1" "mp_plain h a2 b2 ds2" and r: "mp_out h r b ds" and z: "mp_plain h mpzero z zs0" "mp_top z = 0"
  shows "\<exists>s. (s = 1 \<or> s = - 1) \<and> result (mpmagadd a1 a2 r h) h r b (s * int (mag b1 ds1 + mag b2 ds2))"
proof -
  have s: "mp_sign b1 = 1 \<or> mp_sign b1 = - 1" "mp_sign b2 = 1 \<or> mp_sign b2 = - 1" using plainD(3) [OF a(1)] plainD(3) [OF a(2)] by (simp_all add: mp_sized_def)
  show ?thesis
  proof (cases "mp_top b2 > mp_top b1")
    case True
    have "mpmagadd a1 a2 r h = add_swapped a2 a1 r h"
      using True plainD(6) [OF a(1)] plainD(6) [OF a(2)] add_timesafe_plain [OF a r] by (simp add: mpmagadd_def)
    then show ?thesis using add_swapped_result [OF a(2,1) less_imp_le [OF True] r z] s
      by (intro exI [of _ "if mp_top b1 = 0 then mp_sign b2 else 1"]) (auto simp: add.commute)
  next
    case False
    then have "mpmagadd a1 a2 r h = add_swapped a1 a2 r h"
      using plainD(6) [OF a(1)] plainD(6) [OF a(2)] add_timesafe_plain [OF a r] by (simp add: mpmagadd_def)
    then show ?thesis using add_swapped_result [OF a _ r z] False s
      by (intro exI [of _ "if mp_top b2 = 0 then mp_sign b1 else 1"]) auto
  qed
qed

lemma sign_top: "b\<lparr>mp_sign := s, mp_top := n\<rparr> = b\<lparr>mp_top := n, mp_sign := s\<rparr>"
  by (cases b) simp

lemma sub_swapped_result:
  assumes a: "mp_plain h a1 b1 ds1" "mp_plain h a2 b2 ds2" and le: "mag b2 ds2 \<le> mag b1 ds1" and r: "mp_out h r b ds"
    and sg: "sg = 1 \<or> sg = - 1" "mag b1 ds1 = 0 \<Longrightarrow> sg = 1"
  shows "result (sub_swapped sg a1 a2 r h) h r b (sg * (int (mag b1 ds1) - int (mag b2 ds2)))"
proof (cases "mp_top b2 = 0")
  case True
  then have m: "mag b2 ds2 = 0" by (simp add: mag_def)
  obtain b' ds' where b': "mpassign a1 r h = Some (put_mp r b' ds' h)" "mp_wf b' ds'" "mp_norm b'" "like b b'"
    "mp_sign b' * int (mag b' ds') = mp_sign b1 * int (mag b1 ds1)" by (rule resultE [OF mpassign_result [OF a(1) r]])
  have "mp_sign b1 = 1 \<or> mp_sign b1 = - 1" "mp_sign b' = 1 \<or> mp_sign b' = - 1" using plainD(3) [OF a(1)] b'(2) by (simp_all add: mp_sized_def mp_wf_def)
  then have e: "mag b' ds' = mag b1 ds1" using b'(5) by auto
  let ?b = "b'\<lparr>mp_sign := sg\<rparr>"
  have "sub_swapped sg a1 a2 r h = Some (put_mp r ?b ds' h)"
    using True plainD(6) [OF a(1)] plainD(6) [OF a(2)] b'(1) by (simp add: sub_swapped_def)
  moreover have "mp_wf ?b ds'" using b'(2) b'(4) outD(3) [OF r] e sg by (auto simp: mp_wf_def mp_sized_def mag_def like_def)
  moreover have "mag ?b ds' = mag b1 ds1" using e by (simp add: mag_def)
  ultimately show ?thesis using b'(3,4) m by (intro resultI [of _ r ?b ds']) simp_all
next
  case False
  let ?n = "mp_top b1"
  obtain c es where c: "mpbits r (int ?n * int Dbits) h = Some (put_mp r c es h)" "mp_sized c es" "take (mp_top b) es = take (mp_top b) ds"
    "mp_top b \<le> length es" "?n \<le> length es" "like b c" by (rule room_for [OF r])
  note s1 = plain_seg [OF a(1) outD(4,5) [OF r] c(3,4)] and s2 = plain_seg [OF a(2) outD(4,5) [OF r] c(3,4)]
  have tops: "mp_top b2 \<le> ?n"
    using top_less_mag [OF plainD(2) [OF a(1)] plainD(2) [OF a(2)] plainD(5) [OF a(2)]] le by (meson leD leI)
  have "room ((mh_mem h)(r \<mapsto> es)) (r, 0) ?n" using c(5) by (simp add: room_whole)
  then obtain zs where z: "mpvecsub ((mh_mem h)(r \<mapsto> es)) (a1, 0) ?n (a2, 0) (mp_top b2) (r, 0) = Some (put ((mh_mem h)(r \<mapsto> es)) (r, 0) zs)"
    "length zs = ?n" "digval zs = mag b1 ds1 - mag b2 ds2"
    using mpvecsub_correct [OF s1 s2 tops, of "(r, 0)"] le by (auto simp: mag_def)
  have le': "length zs \<le> length es" using z(2) c(5) by simp
  note v = vec_put [OF c(2) le' sg(1)]
  have "sub_swapped sg a1 a2 r h = mpnorm r (put_mp r (c\<lparr>mp_top := length zs, mp_sign := sg\<rparr>) (zs @ drop (length zs) es) h)"
    using False plainD(6) [OF a(1)] plainD(6) [OF a(2)] c(1) z(1,2) v(1) [of h r] by (simp add: sub_swapped_def put_mp_mem Let_def sign_top)
  moreover have "result (mpnorm r (put_mp r (c\<lparr>mp_top := length zs, mp_sign := sg\<rparr>) (zs @ drop (length zs) es) h)) h r b (sg * (int (mag b1 ds1) - int (mag b2 ds2)))"
    by (rule mpnorm_result) (use v(2,3) c(6) outD(3) [OF r] z(3) le in \<open>simp_all add: of_nat_diff\<close>)
  ultimately show ?thesis by simp
qed

lemma mpmagsub_result:
  assumes a: "mp_plain h a1 b1 ds1" "mp_plain h a2 b2 ds2" and r: "mp_out h r b ds"
  shows "result (mpmagsub a1 a2 r h) h r b (int (mag b1 ds1) - int (mag b2 ds2))"
proof -
  have "comparable b1 b2" using plainD(5) [OF a(1)] plainD(5) [OF a(2)] by (simp add: comparable_def)
  then obtain c where c: "mpmagcmp a1 a2 h = Some c" "c < 0 \<longleftrightarrow> mag b1 ds1 < mag b2 ds2"
    using mpmagcmp_at [OF plainD(1,2) [OF a(1)] plainD(1,2) [OF a(2)]] by blast
  have nt: "no_timesafe b1 b2 b" using plainD(4) [OF a(1)] plainD(4) [OF a(2)] outD(3) [OF r] by (simp add: no_timesafe_def)
  note i = plainD(6) [OF a(1)] plainD(6) [OF a(2)] outD(4) [OF r]
  show ?thesis
  proof (cases "c < 0")
    case True
    then have "mpmagsub a1 a2 r h = sub_swapped (- 1) a2 a1 r h" using i c(1) nt by (simp add: mpmagsub_def)
    then show ?thesis using sub_swapped_result [OF a(2,1) _ r, of "- 1"] True c(2) by simp
  next
    case False
    then have "mpmagsub a1 a2 r h = sub_swapped 1 a1 a2 r h" using i c(1) add_timesafe_plain [OF a r] by (simp add: mpmagsub_def)
    then show ?thesis using sub_swapped_result [OF a _ r, of 1] False c(2) by simp
  qed
qed

text \<open>A last assignment to the sign of a result.\<close>

lemma result_sign:
  assumes v: "result res h r b v" and nt: "\<not> mp_timesafe b" and f: "\<And>c. mp_top c \<noteq> 0 \<Longrightarrow> f c = c\<lparr>mp_sign := g (mp_sign c)\<rparr>" "\<And>c. mp_top c = 0 \<Longrightarrow> v = 0 \<Longrightarrow> f c = c"
    and g: "\<And>s. s = 1 \<or> s = - 1 \<Longrightarrow> g s = 1 \<or> g s = - 1"
  shows "result (Option.bind res (upd_mp r f)) h r b (g (sgn v) * \<bar>v\<bar>)"
proof -
  obtain b' ds' where b': "res = Some (put_mp r b' ds' h)" "mp_wf b' ds'" "mp_norm b'" "like b b'" "mp_sign b' * int (mag b' ds') = v"
    using v by (rule resultE)
  have z: "mag b' ds' = 0 \<longleftrightarrow> mp_top b' = 0" by (rule norm_zero [OF b'(2,3)])
  have s: "mp_sign b' = 1 \<or> mp_sign b' = - 1" using b'(2) by (simp add: mp_wf_def mp_sized_def)
  show ?thesis
  proof (cases "mp_top b' = 0")
    case True
    then have "v = 0" using z b'(5) by simp
    then show ?thesis using True f(2) [of b'] b' z by (intro resultI [of _ r b' ds']) simp_all
  next
    case False
    let ?c = "b'\<lparr>mp_sign := g (mp_sign b')\<rparr>"
    have "sgn v = mp_sign b'" "\<bar>v\<bar> = int (mag b' ds')" using b'(5) s z False by (auto simp: sgn_if)
    moreover have "mag ?c ds' = mag b' ds'" by (simp add: mag_def)
    moreover have "mp_wf ?c ds'" using b'(2,4) False z nt g [OF s] by (auto simp: mp_wf_def mp_sized_def mag_def like_def)
    ultimately show ?thesis using f(1) [OF False] b' by (intro resultI [of _ r ?c ds']) simp_all
  qed
qed

text \<open>Sum and difference.\<close>

lemma mpadd_result:
  assumes a: "mp_plain h a1 b1 ds1" "mp_plain h a2 b2 ds2" and r: "mp_out h r b ds" and z: "mp_plain h mpzero z zs0" "mp_top z = 0"
  shows "result (mpadd a1 a2 r h) h r b (mp_sign b1 * int (mag b1 ds1) + mp_sign b2 * int (mag b2 ds2))"
proof -
  note i = plainD(6) [OF a(1)] plainD(6) [OF a(2)] outD(4) [OF r]
  have nt: "no_timesafe b1 b2 b" "\<not> mp_timesafe b" using plainD(4) [OF a(1)] plainD(4) [OF a(2)] outD(3) [OF r] by (simp_all add: no_timesafe_def)
  have s: "mp_sign b1 = 1 \<or> mp_sign b1 = - 1" "mp_sign b2 = 1 \<or> mp_sign b2 = - 1"
    using plainD(3) [OF a(1)] plainD(3) [OF a(2)] by (simp_all add: mp_sized_def)
  show ?thesis
  proof (cases "mp_sign b1 = mp_sign b2")
    case True
    obtain s' where s': "s' = 1 \<or> s' = - 1" "result (mpmagadd a1 a2 r h) h r b (s' * int (mag b1 ds1 + mag b2 ds2))"
      using mpmagadd_result [OF a r z] by blast
    have "result (Option.bind (mpmagadd a1 a2 r h) (upd_mp r (\<lambda>b. if mp_top b \<noteq> 0 then b\<lparr>mp_sign := mp_sign b1\<rparr> else b))) h r b
       (mp_sign b1 * \<bar>s' * int (mag b1 ds1 + mag b2 ds2)\<bar>)"
      by (rule result_sign [OF s'(2) nt(2), where g = "\<lambda>_. mp_sign b1"]) (use s in auto)
    then show ?thesis using True i s'(1) by (auto simp: mpadd_def abs_mult algebra_simps)
  next
    case False
    then show ?thesis using s i nt(1) mpmagsub_result [OF a r] mpmagsub_result [OF a(2,1) r] by (auto simp: mpadd_def)
  qed
qed

lemma mpsub_result:
  assumes a: "mp_plain h a1 b1 ds1" "mp_plain h a2 b2 ds2" and r: "mp_out h r b ds" and z: "mp_plain h mpzero z zs0" "mp_top z = 0"
  shows "result (mpsub a1 a2 r h) h r b (mp_sign b1 * int (mag b1 ds1) - mp_sign b2 * int (mag b2 ds2))"
proof -
  note i = plainD(6) [OF a(1)] plainD(6) [OF a(2)] outD(4) [OF r]
  have nt: "no_timesafe b1 b2 b" "\<not> mp_timesafe b" using plainD(4) [OF a(1)] plainD(4) [OF a(2)] outD(3) [OF r] by (simp_all add: no_timesafe_def)
  have s: "mp_sign b1 = 1 \<or> mp_sign b1 = - 1" "mp_sign b2 = 1 \<or> mp_sign b2 = - 1" "mag b1 ds1 = 0 \<longrightarrow> mp_sign b1 = 1" "mag b2 ds2 = 0 \<longrightarrow> mp_sign b2 = 1"
    using plainD(2) [OF a(1)] plainD(2) [OF a(2)] by (simp_all add: mp_sized_def mp_wf_def)
  show ?thesis
  proof (cases "mp_sign b1 = mp_sign b2")
    case True
    have "result (Option.bind (mpmagsub a1 a2 r h) (upd_mp r (\<lambda>b. if mp_top b \<noteq> 0 then b\<lparr>mp_sign := mp_sign b * mp_sign b1\<rparr> else b))) h r b
       (sgn (int (mag b1 ds1) - int (mag b2 ds2)) * mp_sign b1 * \<bar>int (mag b1 ds1) - int (mag b2 ds2)\<bar>)"
      by (rule result_sign [OF mpmagsub_result [OF a r] nt(2), where g = "\<lambda>s. s * mp_sign b1"]) (use s in auto)
    moreover have "sgn (int (mag b1 ds1) - int (mag b2 ds2)) * mp_sign b1 * \<bar>int (mag b1 ds1) - int (mag b2 ds2)\<bar>
        = mp_sign b1 * int (mag b1 ds1) - mp_sign b2 * int (mag b2 ds2)"
      using True by (simp add: sgn_if abs_if algebra_simps)
    ultimately show ?thesis using True i by (simp add: mpsub_def)
  next
    case False
    obtain s' where s': "s' = 1 \<or> s' = - 1" "result (mpmagadd a1 a2 r h) h r b (s' * int (mag b1 ds1 + mag b2 ds2))"
      using mpmagadd_result [OF a r z] by blast
    have nz: "s' * int (mag b1 ds1 + mag b2 ds2) \<noteq> 0" using False s s'(1) by auto
    have "result (Option.bind (mpmagadd a1 a2 r h) (upd_mp r (\<lambda>b. b\<lparr>mp_sign := mp_sign b1\<rparr>))) h r b
       (mp_sign b1 * \<bar>s' * int (mag b1 ds1 + mag b2 ds2)\<bar>)"
      by (rule result_sign [OF s'(2) nt(2), where g = "\<lambda>_. mp_sign b1"]) (use s nz in auto)
    moreover have "mp_sign b1 * \<bar>s' * int (mag b1 ds1 + mag b2 ds2)\<bar> = mp_sign b1 * int (mag b1 ds1) - mp_sign b2 * int (mag b2 ds2)"
      using False s(1,2) s'(1) by (auto simp: abs_mult)
    ultimately show ?thesis using False i nt(1) by (simp add: mpsub_def)
  qed
qed

section \<open>Numbers\<close>

text \<open>The value of a number that is normalised and not for computations in constant time; what an operation leaves alone.\<close>

definition mp_val :: "mpheap \<Rightarrow> nat \<Rightarrow> int \<Rightarrow> bool" where
  "mp_val h a v \<longleftrightarrow> (\<exists>b ds. mp_plain h a b ds \<and> v = mp_sign b * int (mag b ds))"

text \<open>A number that may be a result: not a constant, not for computations in constant time.\<close>

definition mp_var :: "mpheap \<Rightarrow> nat \<Rightarrow> bool" where
  "mp_var h a \<longleftrightarrow> (\<exists>b ds. mp_out h a b ds)"

definition only_changes :: "nat \<Rightarrow> mpheap \<Rightarrow> mpheap \<Rightarrow> bool" where
  "only_changes r h h' \<longleftrightarrow> (\<forall>a. a \<noteq> r \<longrightarrow> mh_ints h' a = mh_ints h a \<and> mh_mem h' a = mh_mem h a)"

definition becomes :: "mpheap option \<Rightarrow> nat \<Rightarrow> int \<Rightarrow> mpheap \<Rightarrow> bool" where
  "becomes res r v h \<longleftrightarrow> (\<exists>h'. res = Some h' \<and> mp_val h' r v \<and> mp_var h' r \<and> only_changes r h h' \<and> mh_next h \<le> mh_next h')"

lemma result_val:
  assumes "result res (h\<lparr>mh_next := k\<rparr>) r b v" and "\<not> mp_timesafe b" "\<not> mp_static b" and "mh_next h \<le> k"
  shows "becomes res r v h"
proof -
  obtain b' ds' where b': "res = Some (put_mp r b' ds' (h\<lparr>mh_next := k\<rparr>))" "mp_wf b' ds'" "mp_norm b'" "like b b'" "mp_sign b' * int (mag b' ds') = v"
    using assms(1) by (rule resultE)
  then have "mp_plain (put_mp r b' ds' (h\<lparr>mh_next := k\<rparr>)) r b' ds'" "\<not> mp_static b'" using assms(2,3) by (simp_all add: mp_plain_def like_def)
  then have "mp_val (put_mp r b' ds' (h\<lparr>mh_next := k\<rparr>)) r v" "mp_var (put_mp r b' ds' (h\<lparr>mh_next := k\<rparr>)) r"
    using b'(5) plain_out unfolding mp_val_def mp_var_def by blast+
  then show ?thesis using b'(1) assms(4) by (simp add: becomes_def only_changes_def)
qed

lemma result_val0: "result res h r b v \<Longrightarrow> mp_out h r b ds \<Longrightarrow> becomes res r v h"
  using result_val [where k = "mh_next h" and h = h] outD(3,6) by simp

lemma mpadd_val:
  assumes "mp_val h a1 v1" "mp_val h a2 v2" "mp_var h r" "mp_val h mpzero 0"
  shows "becomes (mpadd a1 a2 r h) r (v1 + v2) h" and "becomes (mpsub a1 a2 r h) r (v1 - v2) h"
proof -
  obtain b1 ds1 b2 ds2 b ds b0 ds0 where p: "mp_plain h a1 b1 ds1" "mp_plain h a2 b2 ds2" "mp_out h r b ds" "mp_plain h mpzero b0 ds0"
    and v: "v1 = mp_sign b1 * int (mag b1 ds1)" "v2 = mp_sign b2 * int (mag b2 ds2)" "mp_sign b0 * int (mag b0 ds0) = 0"
    using assms unfolding mp_val_def mp_var_def by metis
  have "mag b0 ds0 = 0" using v(3) plainD(3) [OF p(4)] by (auto simp: mp_sized_def)
  then have z: "mp_top b0 = 0" using norm_zero [OF plainD(2,5) [OF p(4)]] by simp
  show "becomes (mpadd a1 a2 r h) r (v1 + v2) h" "becomes (mpsub a1 a2 r h) r (v1 - v2) h"
    unfolding v(1,2) by (rule result_val0 [OF mpadd_result [OF p z] p(3)], rule result_val0 [OF mpsub_result [OF p z] p(3)])
qed

lemma mpcmp_val:
  assumes "mp_val h a1 v1" "mp_val h a2 v2"
  shows "\<exists>c. mpcmp a1 a2 h = Some c \<and> sgn c = sgn (v1 - v2)"
proof -
  obtain b1 ds1 b2 ds2 where p: "mp_plain h a1 b1 ds1" "mp_plain h a2 b2 ds2"
    and v: "v1 = mp_sign b1 * int (mag b1 ds1)" "v2 = mp_sign b2 * int (mag b2 ds2)" using assms unfolding mp_val_def by metis
  show ?thesis unfolding v using mpcmp_at [OF plainD(1,2) [OF p(1)] plainD(1,2) [OF p(2)]] p by (simp add: mp_plain_def comparable_def)
qed

lemma mpassign_val: "mp_val h a v \<Longrightarrow> mp_var h r \<Longrightarrow> becomes (mpassign a r h) r v h"
  unfolding mp_val_def mp_var_def by (elim exE conjE) (auto intro: result_val0 [OF mpassign_result])

end
