(* ===== verification/MpMul.thy ===== *)
theory MpMul
  imports MpInt
begin

text \<open>
  Multiplication, \<^verbatim>\<open>libmp/port/mpmul.c\<close>.  Karatsuba's method works in an array of its own; the number \<open>f\<close> of that array is an argument,
  and no array from \<open>f\<close> on is in use.
\<close>

section \<open>Vectors\<close>

text \<open>\<open>memmove\<close> and \<open>memset\<close> on digits.\<close>

definition digits_at :: "dmem \<Rightarrow> dptr \<Rightarrow> nat \<Rightarrow> mpdigit list option" where
  "digits_at m p n = (case m (fst p) of None \<Rightarrow> None
     | Some ds \<Rightarrow> if snd p + n \<le> length ds then Some (take n (drop (snd p) ds)) else None)"

definition store_digits :: "dmem \<Rightarrow> dptr \<Rightarrow> mpdigit list \<Rightarrow> dmem option" where
  "store_digits m p xs = (case m (fst p) of None \<Rightarrow> None
     | Some ds \<Rightarrow> if snd p + length xs \<le> length ds then Some (m(fst p \<mapsto> take (snd p) ds @ xs @ drop (snd p + length xs) ds)) else None)"

text \<open>The loop over the digits of \<open>b\<close>; \<open>mpvectsmul\<close> does not skip the zeros.\<close>

fun mpvecmul_loop :: "bool \<Rightarrow> dmem \<Rightarrow> dptr \<Rightarrow> nat \<Rightarrow> dptr \<Rightarrow> dptr \<Rightarrow> nat \<Rightarrow> dmem option" where
  "mpvecmul_loop skip m a alen b p 0 = Some m"
| "mpvecmul_loop skip m a alen b p (Suc n) = do {
     d \<leftarrow> dld m b;
     m \<leftarrow> (if skip \<and> d = 0 then Some m else mpvecdigmuladd m a alen d p);
     mpvecmul_loop skip m a alen (dadd b 1) (dadd p 1) n
   }"

definition mpvectsmul :: "dmem \<Rightarrow> dptr \<Rightarrow> nat \<Rightarrow> dptr \<Rightarrow> nat \<Rightarrow> dptr \<Rightarrow> dmem option" where
  "mpvectsmul m a alen b blen p = (let (a, alen, b, blen) = (if alen < blen then (b, blen, a, alen) else (a, alen, b, blen)) in
     if blen = 0 then Some m else mpvecmul_loop False m a alen b p blen)"

definition KARATSUBAMIN :: nat where "KARATSUBAMIN = 32"

text \<open>\<open>n = alen/2; if(alen&1) n++\<close>.\<close>

definition kar_half :: "nat \<Rightarrow> nat" where
  "kar_half alen = (if odd alen then alen div 2 + 1 else alen div 2)"

text \<open>The two differences of halves in \<open>mpkaratsuba\<close>, with their signs: \<open>u1 - u0\<close> and \<open>v0 - v1\<close>.\<close>

definition kar_udiff :: "dmem \<Rightarrow> dptr \<Rightarrow> nat \<Rightarrow> dptr \<Rightarrow> nat \<Rightarrow> dptr \<Rightarrow> (int \<times> dmem) option" where
  "kar_udiff m u0 u0len u1 u1len d = do {
     c \<leftarrow> mpveccmp m u1 u1len u0 u0len;
     if c < 0 then map_option (Pair (- 1)) (mpvecsub m u0 u0len u1 u1len d)
     else map_option (Pair 1) (mpvecsub m u1 u1len u0 u1len d)
   }"

definition kar_vdiff :: "dmem \<Rightarrow> dptr \<Rightarrow> nat \<Rightarrow> dptr \<Rightarrow> nat \<Rightarrow> dptr \<Rightarrow> (int \<times> dmem) option" where
  "kar_vdiff m v0 v0len v1 v1len d = do {
     c \<leftarrow> mpveccmp m v0 v0len v1 v1len;
     if c < 0 then map_option (Pair (- 1)) (mpvecsub m v1 v1len v0 v1len d)
     else map_option (Pair 1) (mpvecsub m v0 v0len v1 v1len d)
   }"

text \<open>The sum of the partial products: \<open>l0\<close> is \<open>u0len+v0len\<close>, \<open>l1\<close> is \<open>u1len+v1len\<close>.\<close>

definition kar_sum :: "dmem \<Rightarrow> nat \<Rightarrow> dptr \<Rightarrow> nat \<Rightarrow> dptr \<Rightarrow> dptr \<Rightarrow> dptr \<Rightarrow> nat \<Rightarrow> nat \<Rightarrow> nat \<Rightarrow> int \<Rightarrow> dmem option" where
  "kar_sum m n res reslen u0v0 u1v1 diffprod l0 l1 v1len sign = do {
     m \<leftarrow> mpvecadd m res reslen u0v0 l0 res;
     m \<leftarrow> mpvecadd m (dadd res n) (reslen - n) u0v0 l0 (dadd res n);
     m \<leftarrow> (if v1len > 0 then do {
         m \<leftarrow> mpvecadd m (dadd res n) (reslen - n) u1v1 l1 (dadd res n);
         mpvecadd m (dadd res (2 * n)) (reslen - 2 * n) u1v1 l1 (dadd res (2 * n))
       } else Some m);
     if sign < 0 then mpvecsub m (dadd res n) (reslen - n) diffprod l0 (dadd res n)
     else mpvecadd m (dadd res n) (reslen - n) diffprod l0 (dadd res n)
   }"

text \<open>A measure of the calls: the lengths are halved.\<close>

definition mul_size :: "nat \<Rightarrow> nat \<Rightarrow> nat" where
  "mul_size alen blen = (if max alen blen \<ge> KARATSUBAMIN \<and> min alen blen > 1 then 2 * max alen blen + 2 else 0)"

lemma kar_half: "alen > 1 \<Longrightarrow> kar_half alen < alen" "alen \<le> 1 \<Longrightarrow> kar_half alen \<le> 1" "alen > 1 \<Longrightarrow> kar_half alen > 0"
  "kar_half alen \<le> alen" "alen \<le> 2 * kar_half alen" "2 * kar_half alen \<le> alen + 1"
  unfolding kar_half_def by presburger+

lemma mul_size_halves:
  "l \<le> kar_half alen \<Longrightarrow> mul_size (kar_half alen) l < 2 * max alen blen + 1"
  "mul_size (alen - kar_half alen) (blen - kar_half alen) < 2 * max alen blen + 1"
  using kar_half [of alen] by (cases "alen > 1"; auto simp: mul_size_def)+

function mpvecmul :: "dmem \<Rightarrow> nat \<Rightarrow> dptr \<Rightarrow> nat \<Rightarrow> dptr \<Rightarrow> nat \<Rightarrow> dptr \<Rightarrow> dmem option"
  and mpkaratsuba :: "dmem \<Rightarrow> nat \<Rightarrow> dptr \<Rightarrow> nat \<Rightarrow> dptr \<Rightarrow> nat \<Rightarrow> dptr \<Rightarrow> dmem option" where
  "mpvecmul m f a alen b blen p = (if alen < blen then
       (if blen \<ge> KARATSUBAMIN \<and> alen > 1 then mpkaratsuba m f b blen a alen p else mpvecmul_loop True m b blen a p alen)
     else
       (if alen \<ge> KARATSUBAMIN \<and> blen > 1 then mpkaratsuba m f a alen b blen p else mpvecmul_loop True m a alen b p blen))"
| "mpkaratsuba m f a alen b blen p = (let
     n = kar_half alen;
     u0len = n;
     u1len = alen - n;
     (v0len, v1len) = (if blen > n then (n, blen - n) else (blen, 0));
     u0 = a;
     u1 = dadd a u0len;
     v0 = b;
     v1 = dadd b v0len;
     m = m(f \<mapsto> replicate (5 * (2 * n + 1)) 0);
     t = (f, 0);
     u0v0 = t;
     u1v1 = dadd t (2 * n + 1);
     diffprod = dadd t (2 * (2 * n + 1));
     res = dadd t (3 * (2 * n + 1));
     reslen = 4 * n + 1
   in do {
     (s, m) \<leftarrow> kar_udiff m u0 u0len u1 u1len u0v0;
     (s', m) \<leftarrow> kar_vdiff m v0 v0len v1 v1len u1v1;
     m \<leftarrow> mpvecmul m (f + 1) u0v0 u0len u1v1 v0len diffprod;
     m \<leftarrow> store_digits m t (replicate (2 * (2 * n + 1)) 0);
     m \<leftarrow> (if v1len > 0 then mpvecmul m (f + 1) u1 u1len v1 v1len u1v1 else Some m);
     m \<leftarrow> mpvecmul m (f + 1) u0 u0len v0 v0len u0v0;
     m \<leftarrow> kar_sum m n res reslen u0v0 u1v1 diffprod (u0len + v0len) (u1len + v1len) v1len (s * s');
     xs \<leftarrow> digits_at m res (alen + blen);
     m \<leftarrow> store_digits m p xs;
     Some (m(f := None))
   })"
  by pat_completeness auto

termination
proof (relation "measure (\<lambda>x. case x of Inl (m, f, a, alen, b, blen, p) \<Rightarrow> mul_size alen blen
        | Inr (m, f, a, alen, b, blen, p) \<Rightarrow> 2 * max alen blen + 1)", goal_cases)
  case 2 then show ?case by (auto simp: mul_size_def)
next
  case 3 then show ?case by (auto simp: mul_size_def)
next
  case 4 then show ?case using mul_size_halves(1) by (auto split: if_splits)
next
  case 5 then show ?case using mul_size_halves(2) by (auto split: if_splits)
next
  case 6 then show ?case using mul_size_halves(1) by (auto split: if_splits)
qed simp

declare mpvecmul.simps [simp del] mpkaratsuba.simps [simp del]


section \<open>mpmul\<close>

text \<open>\<open>prod->flags = oprod->flags\<close>.\<close>

definition set_flags :: "mpint \<Rightarrow> mpint \<Rightarrow> mpint" where
  "set_flags b c = c\<lparr>mp_static := mp_static b, mp_norm := mp_norm b, mp_timesafe := mp_timesafe b, mp_field := mp_field b\<rparr>"

text \<open>The lines between the allocation of \<open>prod\<close> and the last assignment.\<close>

definition mul_into :: "nat \<Rightarrow> mpint \<Rightarrow> nat \<Rightarrow> mpint \<Rightarrow> nat \<Rightarrow> mpheap \<Rightarrow> mpheap option" where
  "mul_into a1 b1 a2 b2 r h = do {
     h \<leftarrow> add_timesafe r b1 b2 h;
     h \<leftarrow> upd_mp r (\<lambda>b. b\<lparr>mp_top := 0\<rparr>) h;
     h \<leftarrow> mpbits r (int (mp_top b1 + mp_top b2 + 1) * int Dbits) h;
     b \<leftarrow> mh_ints h r;
     h \<leftarrow> in_mem (\<lambda>m. if mp_timesafe b then mpvectsmul m (mp_p a1) (mp_top b1) (mp_p a2) (mp_top b2) (mp_p r)
            else mpvecmul m (mh_next h) (mp_p a1) (mp_top b1) (mp_p a2) (mp_top b2) (mp_p r)) h;
     h \<leftarrow> upd_mp r (\<lambda>b. b\<lparr>mp_top := mp_top b1 + mp_top b2 + 1, mp_sign := mp_sign b1 * mp_sign b2\<rparr>) h;
     mpnorm r h
   }"

definition mpmul :: "nat \<Rightarrow> nat \<Rightarrow> nat \<Rightarrow> mpheap \<Rightarrow> mpheap option" where
  "mpmul a1 a2 oprod h = do {
     b1 \<leftarrow> mh_ints h a1;
     b2 \<leftarrow> mh_ints h a2;
     b3 \<leftarrow> mh_ints h oprod;
     if oprod = a1 \<or> oprod = a2 then do {
       (r, h) \<leftarrow> mpnew 0 h;
       h \<leftarrow> upd_mp r (set_flags b3) h;
       h \<leftarrow> mul_into a1 b1 a2 b2 r h;
       h \<leftarrow> mpassign r oprod h;
       mpfree r h
     } else mul_into a1 b1 a2 b2 oprod h
   }"

section \<open>More on vectors in memory\<close>

lemma seg_put_same: "seg m p ds \<Longrightarrow> put m p ds = m"
proof -
  assume "seg m p ds"
  then obtain xs where xs: "m (fst p) = Some xs" "snd p + length ds \<le> length xs" "take (length ds) (drop (snd p) xs) = ds" by (auto simp: seg_def)
  have "take (snd p) xs @ ds @ drop (snd p + length ds) xs = xs"
    using xs(2,3) by (metis add.commute append_take_drop_id drop_drop)
  then show ?thesis using xs(1) by (simp add: put_def fun_upd_idem)
qed

lemma put_longer:
  assumes "room m p (Suc (length zs))" and "length ps \<le> length zs"
  shows "put (put m p (z # ps)) (dadd p 1) zs = put m p (z # zs)"
proof -
  obtain X where X: "m (fst p) = Some X" "snd p + Suc (length zs) \<le> length X" using assms(1) by (auto simp: room_def)
  then show ?thesis using assms(2) by (simp add: put_def drop_Cons' take_Cons' add.commute [of "snd p"])
qed

lemma away_le: "away p n q k \<Longrightarrow> n' \<le> n \<Longrightarrow> k' \<le> k \<Longrightarrow> away p n' q k'"
  by (auto simp: away_def)

lemma away_dadd: "away p (i + n) q k \<Longrightarrow> away (dadd p i) n q k" "away p n q (i + k) \<Longrightarrow> away p n (dadd q i) k"
  by (auto simp: away_def)

lemma away_ahead: "away p n q k \<Longrightarrow> 0 < n \<Longrightarrow> ahead p q k"
  by (auto simp: away_def ahead_def)

lemma away_sym: "away p n q k = away q k p n"
  by (auto simp: away_def)

section \<open>The schoolbook method\<close>

lemma mul_digit:
  assumes a: "seg m a xs" "length xs = alen" and p: "seg m p (ps @ [0])" "length ps = alen" and "away p (Suc alen) a alen"
  shows "\<exists>z ps'. (if skip \<and> d = 0 then Some m else mpvecdigmuladd m a alen d p) = Some (put m p (z # ps')) \<and> length ps' = alen
     \<and> unat z + 2 ^ Dbits * digval ps' = digval ps + unat d * digval xs"
proof (cases "skip \<and> d = 0")
  case True
  obtain z ps' where w: "ps @ [0] = z # ps'" by (cases "ps @ [0]") auto
  have "length (ps @ [0]) = Suc alen" "digval (ps @ [0]) = digval ps" using p(2) by (simp_all add: digval_append)
  then show ?thesis using True w seg_put_same [OF p(1)] by (intro exI [of _ z] exI [of _ ps']) simp
next
  case False
  have s: "seg m p ps" "room m p (Suc alen)" using p seg_room [OF p(1)] by (simp_all add: seg_append)
  obtain zs where zs: "mpvecdigmuladd m a alen d p = Some (put m p zs)" "length zs = Suc alen" "digval zs = digval ps + unat d * digval xs"
    using mpvecdigmuladd_correct [OF a s(1) p(2) s(2) away_ahead [OF assms(5)], of d] by auto
  then obtain z ps' where "zs = z # ps'" by (cases zs) auto
  then show ?thesis using False zs by (intro exI [of _ z] exI [of _ ps']) auto
qed

lemma mpvecmul_loop_correct:
  assumes "seg m a xs" "length xs = alen" and "seg m b ys" "length ys = blen" and "seg m p (ps @ replicate blen 0)" "length ps = alen"
    and "away p (alen + blen) a alen" "away p (alen + blen) b blen"
  shows "\<exists>zs. mpvecmul_loop skip m a alen b p blen = Some (put m p zs) \<and> length zs = alen + blen \<and> digval zs = digval ps + digval xs * digval ys"
  using assms(1,3-)
proof (induction ys arbitrary: m b p ps blen)
  case Nil
  then show ?case using seg_put_same [of m p ps] by (intro exI [of _ ps]) simp
next
  case (Cons y ys)
  then obtain n where n: "blen = Suc n" "length ys = n" by auto
  have y: "dld m b = Some y" "seg m (dadd b 1) ys" using Cons.prems(2) by simp_all
  have p: "seg m p (ps @ [0])" "seg m (dadd p (Suc alen)) (replicate n 0)"
    using Cons.prems(4,5) seg_append [of m p "ps @ [0]" "replicate n 0"] n by simp_all
  have aw: "away p (Suc alen) a alen" "away p (Suc alen) (dadd b 1) n"
    using away_le [OF Cons.prems(6), of "Suc alen" alen] away_le [OF Cons.prems(7), of "Suc alen" blen] away_dadd(2) [of p "Suc alen" b 1 n] n by simp_all
  obtain z ps' where z: "(if skip \<and> y = 0 then Some m else mpvecdigmuladd m a alen y p) = Some (put m p (z # ps'))" "length ps' = alen"
    "unat z + 2 ^ Dbits * digval ps' = digval ps + unat y * digval xs"
    using mul_digit [OF Cons.prems(1) assms(2) p(1) Cons.prems(5) aw(1)] by blast
  let ?m = "put m p (z # ps')"
  have r: "room m p (Suc (alen + n))" using seg_room [OF Cons.prems(4)] Cons.prems(5) n by simp
  then have r1: "room m p (length (z # ps'))" using z(2) by (auto intro: room_le)
  have s: "seg ?m a xs" "seg ?m (dadd b 1) ys" "seg ?m (dadd p (Suc alen)) (replicate n 0)" "seg ?m (dadd p 1) ps'"
    using seg_away [OF _ r1, of a xs] seg_away [OF _ r1, of "dadd b 1" ys] seg_away [OF _ r1, of "dadd p (Suc alen)" "replicate n 0"]
      Cons.prems(1) assms(2) y(2) p(2) aw n z(2) seg_put [OF r1] by (simp_all add: away_def [of p _ "dadd p _"])
  have "\<exists>zs. mpvecmul_loop skip ?m a alen (dadd b 1) (dadd p 1) n = Some (put ?m (dadd p 1) zs) \<and> length zs = alen + n
      \<and> digval zs = digval ps' + digval xs * digval ys"
  proof (rule Cons.IH [OF s(1,2) n(2)])
    show "seg ?m (dadd p 1) (ps' @ replicate n 0)" using s(3,4) z(2) by (simp add: seg_append)
    show "away (dadd p 1) (alen + n) a alen" "away (dadd p 1) (alen + n) (dadd b 1) n"
      using away_dadd(1) [of p 1 "alen + n"] away_dadd(2) [of p _ b 1 n] Cons.prems(6,7) n by simp_all
  qed (rule z(2))
  then obtain zs where zs: "mpvecmul_loop skip ?m a alen (dadd b 1) (dadd p 1) n = Some (put ?m (dadd p 1) zs)" "length zs = alen + n"
      "digval zs = digval ps' + digval xs * digval ys" by blast
  have "put ?m (dadd p 1) zs = put m p (z # zs)" by (rule put_longer) (use r zs(2) z(2) in simp_all)
  moreover have "digval (z # zs) = digval ps + digval xs * digval (y # ys)"
    using z(3) zs(3) by (simp add: algebra_simps)
  ultimately show ?case using y(1) z(1) zs(1,2) n by (intro exI [of _ "z # zs"]) simp
qed

section \<open>Karatsuba's method\<close>

text \<open>The array of the method, in blocks.\<close>

lemma seg_own: "length ds \<le> length Y \<Longrightarrow> take (length ds) Y = ds \<Longrightarrow> length X = k \<Longrightarrow> seg (m(f \<mapsto> X @ Y)) (f, k) ds"
  by (simp add: seg_def)

lemma put_own: "length zs \<le> length Y \<Longrightarrow> length X = k \<Longrightarrow> put (m(f \<mapsto> X @ Y)) (f, k) zs = m(f \<mapsto> X @ zs @ drop (length zs) Y)"
  by (auto simp: put_def)

lemma seg_other [simp]: "fst q \<noteq> f \<Longrightarrow> seg (m(f \<mapsto> T)) q ds = seg m q ds"
  by (simp add: seg_def)

lemma room_own: "n \<le> length Y \<Longrightarrow> length X = k \<Longrightarrow> room (m(f \<mapsto> X @ Y)) (f, k) n"
  by (simp add: room_def)

lemma store_digits_put: "room m p (length xs) \<Longrightarrow> store_digits m p xs = Some (put m p xs)"
  by (auto simp: store_digits_def room_def put_def)

lemma digits_at_seg: "seg m p ds \<Longrightarrow> digits_at m p (length ds) = Some ds"
  by (auto simp: digits_at_def seg_def)

text \<open>The differences.\<close>

lemma digval_fits:
  assumes "digval xs < 2 ^ (Dbits * n)"
  shows "digval (take n xs) = digval xs"
proof (cases "n \<le> length xs")
  case True
  have "digval xs = digval (take n xs) + 2 ^ (Dbits * n) * digval (drop n xs)" using digval_split [of xs "length xs" n] True by simp
  then show ?thesis using assms by (cases "digval (drop n xs)") auto
qed simp

lemma half_sub:
  assumes u: "seg m x xs" "length xs = xlen" "seg m y ys" "length ys = ylen" "xlen \<le> ylen" and d: "room m d xlen" "ahead d x xlen" "ahead d y xlen"
    and le: "digval ys \<le> digval xs"
  shows "\<exists>zs. mpvecsub m x xlen y xlen d = Some (put m d zs) \<and> length zs = xlen \<and> digval zs = digval xs - digval ys"
proof -
  have "digval ys < 2 ^ (Dbits * xlen)" using digval_bound [of xs] u(2) le by simp
  then have v: "digval (take xlen ys) = digval ys" by (rule digval_fits)
  have "length (take xlen ys) = xlen" using u(4,5) by simp
  from mpvecsub_correct [OF u(1,2) seg_take [OF u(3)] this order.refl d] show ?thesis using le v by simp
qed

lemma kar_udiff_correct:
  assumes u: "seg m u0 xs" "length xs = u0len" "seg m u1 ys" "length ys = u1len" "u1len \<le> u0len"
    and d: "room m d u0len" "ahead d u0 u0len" "ahead d u1 u1len"
  shows "\<exists>s zs. kar_udiff m u0 u0len u1 u1len d = Some (s, put m d zs) \<and> length zs \<le> u0len \<and> (s = 1 \<or> s = - 1)
    \<and> s * int (digval zs) = int (digval ys) - int (digval xs)"
proof -
  note c = mpveccmp_correct [OF u(3,4,1,2)]
  show ?thesis
  proof (cases "digval ys < digval xs")
    case True
    obtain zs where "mpvecsub m u0 u0len u1 u1len d = Some (put m d zs)" "length zs = u0len" "digval zs = digval xs - digval ys"
      using mpvecsub_correct [OF u(1-5) d less_imp_le [OF True]] by blast
    then show ?thesis using c True by (intro exI [of _ "- 1"] exI [of _ zs]) (simp add: kar_udiff_def sign_of_def of_nat_diff)
  next
    case False
    obtain zs where "mpvecsub m u1 u1len u0 u1len d = Some (put m d zs)" "length zs = u1len" "digval zs = digval ys - digval xs"
      using half_sub [OF u(3,4,1,2,5) room_le [OF d(1) u(5)] d(3) ahead_le [OF d(2) u(5)]] False by auto
    then show ?thesis using c False u(5) by (intro exI [of _ 1] exI [of _ zs]) (auto simp: kar_udiff_def sign_of_def of_nat_diff)
  qed
qed

lemma kar_vdiff_correct:
  assumes u: "seg m v0 xs" "length xs = v0len" "seg m v1 ys" "length ys = v1len" "v1len \<le> v0len"
    and d: "room m d v0len" "ahead d v0 v0len" "ahead d v1 v1len"
  shows "\<exists>s zs. kar_vdiff m v0 v0len v1 v1len d = Some (s, put m d zs) \<and> length zs \<le> v0len \<and> (s = 1 \<or> s = - 1)
    \<and> s * int (digval zs) = int (digval xs) - int (digval ys)"
proof -
  note c = mpveccmp_correct [OF u(1-4)]
  show ?thesis
  proof (cases "digval xs < digval ys")
    case True
    obtain zs where "mpvecsub m v1 v1len v0 v1len d = Some (put m d zs)" "length zs = v1len" "digval zs = digval ys - digval xs"
      using half_sub [OF u(3,4,1,2,5) room_le [OF d(1) u(5)] d(3) ahead_le [OF d(2) u(5)]] True by auto
    then show ?thesis using c True u(5) by (intro exI [of _ "- 1"] exI [of _ zs]) (auto simp: kar_vdiff_def sign_of_def of_nat_diff)
  next
    case False
    obtain zs where "mpvecsub m v0 v0len v1 v1len d = Some (put m d zs)" "length zs = v0len" "digval zs = digval xs - digval ys"
      using mpvecsub_correct [OF u(1-5) d] False by auto
    then show ?thesis using c False by (intro exI [of _ 1] exI [of _ zs]) (auto simp: kar_vdiff_def sign_of_def of_nat_diff)
  qed
qed

text \<open>Adding a partial product into the result: \<open>R\<close> is the block of the result, one digit longer than \<open>reslen\<close>.\<close>

lemma accumulate_parts:
  assumes R: "length R = Suc reslen" "digval R < 2 ^ (Dbits * reslen)" and "k \<le> reslen"
  shows "digval (take k R) + 2 ^ (Dbits * k) * digval (drop k (take reslen R)) = digval R"
proof -
  have "digval (take reslen R) = digval R" by (rule digval_fits [OF R(2)])
  moreover have "take k (take reslen R) = take k R" using assms(3) by (simp add: min_def)
  ultimately show ?thesis using digval_split [of "take reslen R" reslen k] assms by (simp add: min_def)
qed

lemma accumulate_add:
  assumes T: "length X = x" "length R = Suc reslen" "digval R < 2 ^ (Dbits * reslen)" and k: "k + length ys \<le> reslen"
    and y: "seg (m(f \<mapsto> X @ R)) q ys" "away q (length ys) (f, x) (Suc reslen)"
  shows "\<exists>R'. mpvecadd (m(f \<mapsto> X @ R)) (f, x + k) (reslen - k) q (length ys) (f, x + k) = Some (m(f \<mapsto> X @ R'))
     \<and> length R' = Suc reslen \<and> digval R' = digval R + 2 ^ (Dbits * k) * digval ys"
proof -
  let ?m = "m(f \<mapsto> X @ R)" and ?xs = "drop k (take reslen R)"
  have R: "X @ R = (X @ take k R) @ drop k R" "length (X @ take k R) = x + k" using T k by simp_all
  have l: "length ?xs = reslen - k" "Suc (reslen - k) = length (drop k R)" using T(2) k by simp_all
  have s: "seg ?m (f, x + k) ?xs" unfolding R(1) by (rule seg_own [OF _ _ R(2)]) (use T(2) k in \<open>simp_all add: drop_take\<close>)
  have r: "room ?m (f, x + k) (Suc (reslen - k))" unfolding R(1) using l(2) by (intro room_own [OF _ R(2)]) simp
  have kl: "length ys \<le> reslen - k" using k by simp
  have ah: "ahead (f, x + k) q (length ys)" using y(2) k by (auto simp: away_def ahead_def)
  obtain zs where zs: "mpvecadd ?m (f, x + k) (reslen - k) q (length ys) (f, x + k) = Some (put ?m (f, x + k) zs)"
    "length zs = Suc (reslen - k)" "digval zs = digval ?xs + digval ys"
    using mpvecadd_correct [OF s l(1) y(1) refl kl r ahead_self ah] by blast
  have p: "put ?m (f, x + k) zs = m(f \<mapsto> X @ take k R @ zs)" unfolding R(1) using put_own [of zs "drop k R" "X @ take k R" "x + k" m f] R(2) zs(2) l(2) by simp
  have "digval (take k R @ zs) = digval R + 2 ^ (Dbits * k) * digval ys"
    using accumulate_parts [OF T(2,3), of k] zs(3) k T(2) by (simp add: digval_append min_def algebra_simps)
  then show ?thesis using zs p T(2) k by (intro exI [of _ "take k R @ zs"]) simp
qed

lemma accumulate_sub:
  assumes T: "length X = x" "length R = Suc reslen" "digval R < 2 ^ (Dbits * reslen)" and k: "k + length ys \<le> reslen"
    and y: "seg (m(f \<mapsto> X @ R)) q ys" "away q (length ys) (f, x) (Suc reslen)" and le: "2 ^ (Dbits * k) * digval ys \<le> digval R"
  shows "\<exists>R'. mpvecsub (m(f \<mapsto> X @ R)) (f, x + k) (reslen - k) q (length ys) (f, x + k) = Some (m(f \<mapsto> X @ R'))
     \<and> length R' = Suc reslen \<and> digval R' = digval R - 2 ^ (Dbits * k) * digval ys"
proof -
  let ?m = "m(f \<mapsto> X @ R)" and ?xs = "drop k (take reslen R)"
  have R: "X @ R = (X @ take k R) @ drop k R" "length (X @ take k R) = x + k" using T k by simp_all
  have l: "length ?xs = reslen - k" "reslen - k \<le> length (drop k R)" using T(2) k by simp_all
  have s: "seg ?m (f, x + k) ?xs" unfolding R(1) by (rule seg_own [OF _ _ R(2)]) (use T(2) k in \<open>simp_all add: drop_take\<close>)
  have r: "room ?m (f, x + k) (reslen - k)" unfolding R(1) using l(2) by (intro room_own [OF _ R(2)]) simp
  have kl: "length ys \<le> reslen - k" using k by simp
  have ah: "ahead (f, x + k) q (length ys)" using y(2) k by (auto simp: away_def ahead_def)
  note parts = accumulate_parts [OF T(2,3), of k]
  have "digval (take k R) < 2 ^ (Dbits * k)" using digval_bound [of "take k R"] T(2) k by (simp add: min_def)
  then have "2 ^ (Dbits * k) * digval ys < 2 ^ (Dbits * k) * (digval ?xs + 1)" using parts le k by (simp add: algebra_simps)
  then have le': "digval ys \<le> digval ?xs" unfolding mult_less_cancel1 by simp
  obtain zs where zs: "mpvecsub ?m (f, x + k) (reslen - k) q (length ys) (f, x + k) = Some (put ?m (f, x + k) zs)"
    "length zs = reslen - k" "digval zs = digval ?xs - digval ys"
    using mpvecsub_correct [OF s l(1) y(1) refl kl r ahead_self ah le'] by blast
  let ?R = "take k R @ zs @ [last R]"
  have dr: "drop (reslen - k) (drop k R) = [last R]" using T(2) k by (cases R rule: rev_cases) simp_all
  have p: "put ?m (f, x + k) zs = m(f \<mapsto> X @ ?R)" unfolding R(1) using put_own [of zs "drop k R" "X @ take k R" "x + k" m f] R(2) zs(2) l(2) dr by simp
  have "R = take reslen R @ [last R]" using T(2) by (cases R rule: rev_cases) simp_all
  then have "digval R = digval (take reslen R) + 2 ^ (Dbits * reslen) * unat (last R)" using digval_append [of "take reslen R" "[last R]"] T(2) by simp
  then have "unat (last R) = 0" using T(3) digval_fits [OF T(3)] by simp
  then have "digval ?R = digval (take k R) + 2 ^ (Dbits * k) * (digval ?xs - digval ys)"
    using zs(3) k T(2) by (simp add: digval_append min_def)
  also have "\<dots> = digval R - 2 ^ (Dbits * k) * digval ys" using parts k le' by (simp add: diff_mult_distrib2)
  finally show ?thesis using zs p T(2) k by (intro exI [of _ ?R]) simp
qed

lemma seg_prefix: "snd q + length ys \<le> length X \<Longrightarrow> seg (m(f \<mapsto> X)) (f, snd q) ys \<Longrightarrow> seg (m(f \<mapsto> X @ R)) (f, snd q) ys"
  by (simp add: seg_def)

lemma dadd_pair: "dadd (f, k) n = (f, k + n)"
  by (simp add: dadd_def)

text \<open>The partial sums fit into \<open>4n+1\<close> digits.\<close>

lemma partial_sums:
  fixes B :: nat
  assumes "p0 < B ^ 2" "p1 < B ^ 2" "1 \<le> B"
  shows "p0 + B * p0 + B * p1 + B ^ 2 * p1 < 2 ^ Dbits * B ^ 4"
proof -
  have e: "B * B ^ 2 = B ^ 3" "B ^ 2 * B ^ 2 = B ^ 4" by (simp_all add: power2_eq_square power3_eq_cube power4_eq_xxxx)
  have "B ^ 2 \<le> B ^ 4" "B ^ 3 \<le> B ^ 4" using assms(3) by (auto intro: power_increasing)
  moreover have "B * p0 \<le> B ^ 3" "B * p1 \<le> B ^ 3" "B ^ 2 * p1 \<le> B ^ 4"
    using mult_le_mono2 [OF less_imp_le [OF assms(1)], of B] mult_le_mono2 [OF less_imp_le [OF assms(2)]] e by metis+
  ultimately have "p0 + B * p0 + B * p1 + B ^ 2 * p1 \<le> 4 * B ^ 4" using assms by linarith
  also have "\<dots> < 2 ^ Dbits * B ^ 4" using assms(3) by simp
  finally show ?thesis .
qed

lemma karatsuba_identity:
  fixes u0 u1 v0 v1 B d :: nat and s :: int
  assumes "s = 1 \<or> s = - 1" and "s * int d = (int u1 - int u0) * (int v0 - int v1)"
  shows "s = 1 \<Longrightarrow> u0 * v0 + B * (u0 * v0) + B * (u1 * v1) + B ^ 2 * (u1 * v1) + B * d = (u0 + B * u1) * (v0 + B * v1)"
    and "s = - 1 \<Longrightarrow> u0 * v0 + B * (u0 * v0) + B * (u1 * v1) + B ^ 2 * (u1 * v1) = (u0 + B * u1) * (v0 + B * v1) + B * d"
proof -
  have "int (u0 * v0 + B * (u0 * v0) + B * (u1 * v1) + B ^ 2 * (u1 * v1)) + int B * (s * int d) = int ((u0 + B * u1) * (v0 + B * v1))"
    unfolding assms(2) by (simp add: algebra_simps power2_eq_square)
  then show "s = 1 \<Longrightarrow> u0 * v0 + B * (u0 * v0) + B * (u1 * v1) + B ^ 2 * (u1 * v1) + B * d = (u0 + B * u1) * (v0 + B * v1)"
    and "s = - 1 \<Longrightarrow> u0 * v0 + B * (u0 * v0) + B * (u1 * v1) + B ^ 2 * (u1 * v1) = (u0 + B * u1) * (v0 + B * v1) + B * d"
    by (simp_all flip: of_nat_eq_iff [where 'a = int])
qed

lemma add_step2:
  assumes T: "length X = x" "length R = Suc reslen" "digval R < 2 ^ (Dbits * reslen)" and k: "k + l \<le> reslen"
    and y: "length ys = l" "seg (m(f \<mapsto> X)) (f, q) ys" "q + l \<le> x"
  shows "\<exists>R'. mpvecadd (m(f \<mapsto> X @ R)) (f, x + k) (reslen - k) (f, q) l (f, x + k) = Some (m(f \<mapsto> X @ R'))
     \<and> length R' = Suc reslen \<and> digval R' = digval R + 2 ^ (Dbits * k) * digval ys"
  using accumulate_add [OF T, of k ys m f "(f, q)"] seg_prefix [of "(f, q)" ys X m f R] assms by (simp add: away_def)

lemma sub_step2:
  assumes T: "length X = x" "length R = Suc reslen" "digval R < 2 ^ (Dbits * reslen)" and k: "k + l \<le> reslen"
    and y: "length ys = l" "seg (m(f \<mapsto> X)) (f, q) ys" "q + l \<le> x" and "2 ^ (Dbits * k) * digval ys \<le> digval R"
  shows "\<exists>R'. mpvecsub (m(f \<mapsto> X @ R)) (f, x + k) (reslen - k) (f, q) l (f, x + k) = Some (m(f \<mapsto> X @ R'))
     \<and> length R' = Suc reslen \<and> digval R' = digval R - 2 ^ (Dbits * k) * digval ys"
  using accumulate_sub [OF T, of k ys m f "(f, q)"] seg_prefix [of "(f, q)" ys X m f R] assms by (simp add: away_def)

lemma kar_sum_correct:
  fixes n :: nat
  defines "B \<equiv> 2 ^ (Dbits * n) :: nat" and "reslen \<equiv> 4 * n + 1"
  assumes X: "length X = x" "length R = Suc reslen" "digval R = 0"
    and y0: "length ys0 = l0" "seg (m(f \<mapsto> X)) (f, q0) ys0" "q0 + l0 \<le> x" "l0 \<le> 2 * n" "digval ys0 = u0 * v0"
    and y1: "length ys1 = l1" "seg (m(f \<mapsto> X)) (f, q1) ys1" "q1 + l1 \<le> x" "l1 \<le> 2 * n" "0 < v1len \<Longrightarrow> digval ys1 = u1 * v1" "v1len = 0 \<Longrightarrow> v1 = 0"
    and yd: "length ysd = l0" "seg (m(f \<mapsto> X)) (f, qd) ysd" "qd + l0 \<le> x" "s = 1 \<or> s = - 1" "s * int (digval ysd) = (int u1 - int u0) * (int v0 - int v1)"
    and b: "u0 < B" "u1 < B" "v0 < B" "v1 < B"
  shows "\<exists>R'. kar_sum (m(f \<mapsto> X @ R)) n (f, x) reslen (f, q0) (f, q1) (f, qd) l0 l1 v1len s = Some (m(f \<mapsto> X @ R'))
     \<and> length R' = Suc reslen \<and> digval R' = (u0 + B * u1) * (v0 + B * v1)"
proof -
  let ?p0 = "u0 * v0" and ?p1 = "u1 * v1"
  have B: "1 \<le> B" "2 ^ (Dbits * reslen) = 2 ^ Dbits * B ^ 4" "2 ^ (Dbits * (2 * n)) = B ^ 2"
    by (simp_all add: B_def reslen_def power_add power_mult [symmetric] mult.commute mult.left_commute)
  have p: "?p0 < B ^ 2" "?p1 < B ^ 2" using b by (simp_all add: power2_eq_square mult_strict_mono)
  note big = partial_sums [OF p B(1)]
  have lens: "0 + l0 \<le> reslen" "n + l0 \<le> reslen" "n + l1 \<le> reslen" "2 * n + l1 \<le> reslen" using y0(4) y1(4) by (simp_all add: reslen_def)
  have z: "digval R < 2 ^ (Dbits * reslen)" by (simp add: X(3))
  obtain R1 where R1: "mpvecadd (m(f \<mapsto> X @ R)) (f, x) reslen (f, q0) l0 (f, x) = Some (m(f \<mapsto> X @ R1))" "length R1 = Suc reslen" "digval R1 = ?p0"
    using add_step2 [OF X(1,2) z lens(1) y0(1-3)] X(3) y0(5) by auto
  have z1: "digval R1 < 2 ^ (Dbits * reslen)" using big unfolding R1(3) B(2) by linarith
  obtain R2 where R2: "mpvecadd (m(f \<mapsto> X @ R1)) (f, x + n) (reslen - n) (f, q0) l0 (f, x + n) = Some (m(f \<mapsto> X @ R2))" "length R2 = Suc reslen"
      "digval R2 = ?p0 + B * ?p0"
    using add_step2 [OF X(1) R1(2) z1 lens(2) y0(1-3)] unfolding R1(3) y0(5) B_def by blast
  have z2: "digval R2 < 2 ^ (Dbits * reslen)" using big unfolding R2(3) B(2) by linarith
  have "\<exists>R4. (if v1len > 0 then do {
         m \<leftarrow> mpvecadd (m(f \<mapsto> X @ R2)) (f, x + n) (reslen - n) (f, q1) l1 (f, x + n);
         mpvecadd m (f, x + 2 * n) (reslen - 2 * n) (f, q1) l1 (f, x + 2 * n)
       } else Some (m(f \<mapsto> X @ R2))) = Some (m(f \<mapsto> X @ R4)) \<and> length R4 = Suc reslen \<and> digval R4 = ?p0 + B * ?p0 + B * ?p1 + B ^ 2 * ?p1"
  proof (cases "v1len > 0")
    case True
    obtain R3 where R3: "mpvecadd (m(f \<mapsto> X @ R2)) (f, x + n) (reslen - n) (f, q1) l1 (f, x + n) = Some (m(f \<mapsto> X @ R3))" "length R3 = Suc reslen"
        "digval R3 = ?p0 + B * ?p0 + B * ?p1"
      using add_step2 [OF X(1) R2(2) z2 lens(3) y1(1-3)] unfolding R2(3) y1(5) [OF True] B_def by blast
    have z3: "digval R3 < 2 ^ (Dbits * reslen)" using big unfolding R3(3) B(2) by linarith
    show ?thesis using add_step2 [OF X(1) R3(2) z3 lens(4) y1(1-3)] True R3(1) unfolding R3(3) y1(5) [OF True] B(3) by simp
  next
    case False
    then show ?thesis using y1(6) R2 by (intro exI [of _ R2]) simp
  qed
  then obtain R4 where R4: "(if v1len > 0 then do {
         m \<leftarrow> mpvecadd (m(f \<mapsto> X @ R2)) (f, x + n) (reslen - n) (f, q1) l1 (f, x + n);
         mpvecadd m (f, x + 2 * n) (reslen - 2 * n) (f, q1) l1 (f, x + 2 * n)
       } else Some (m(f \<mapsto> X @ R2))) = Some (m(f \<mapsto> X @ R4))" "length R4 = Suc reslen" "digval R4 = ?p0 + B * ?p0 + B * ?p1 + B ^ 2 * ?p1" by blast
  have z4: "digval R4 < 2 ^ (Dbits * reslen)" using big unfolding R4(3) B(2) .
  note id = karatsuba_identity [OF yd(4,5), of B]
  have "\<exists>R'. (if s < 0 then mpvecsub (m(f \<mapsto> X @ R4)) (f, x + n) (reslen - n) (f, qd) l0 (f, x + n)
      else mpvecadd (m(f \<mapsto> X @ R4)) (f, x + n) (reslen - n) (f, qd) l0 (f, x + n)) = Some (m(f \<mapsto> X @ R'))
      \<and> length R' = Suc reslen \<and> digval R' = (u0 + B * u1) * (v0 + B * v1)"
    using yd(4)
  proof
    assume s: "s = 1"
    show ?thesis using add_step2 [OF X(1) R4(2) z4 lens(2) yd(1-3)] s id(1) [OF s] unfolding R4(3) B_def by simp
  next
    assume s: "s = - 1"
    show ?thesis using sub_step2 [OF X(1) R4(2) z4 lens(2) yd(1-3)] s id(2) [OF s] unfolding R4(3) B_def by simp
  qed
  then show ?thesis using R1(1) R2(1) R4(1) by (simp only: kar_sum_def dadd_pair Option.bind.simps)
qed

text \<open>What is to be shown of \<open>mpvecmul\<close> for lengths \<open>alen\<close> and \<open>blen\<close>; no array from \<open>f\<close> on is in use.\<close>

definition mul_pre :: "dmem \<Rightarrow> nat \<Rightarrow> dptr \<Rightarrow> mpdigit list \<Rightarrow> dptr \<Rightarrow> mpdigit list \<Rightarrow> dptr \<Rightarrow> bool" where
  "mul_pre m f a xs b ys p \<longleftrightarrow> seg m a xs \<and> seg m b ys \<and> seg m p (replicate (length xs + length ys) 0)
     \<and> away p (length xs + length ys) a (length xs) \<and> away p (length xs + length ys) b (length ys) \<and> (\<forall>k \<ge> f. m k = None)"

definition mul_post :: "dmem option \<Rightarrow> dmem \<Rightarrow> mpdigit list \<Rightarrow> mpdigit list \<Rightarrow> dptr \<Rightarrow> bool" where
  "mul_post res m xs ys p \<longleftrightarrow> (\<exists>zs. res = Some (put m p zs) \<and> length zs = length xs + length ys \<and> digval zs = digval xs * digval ys)"

definition mul_ok :: "nat \<Rightarrow> nat \<Rightarrow> bool" where
  "mul_ok alen blen \<longleftrightarrow> (\<forall>m f a xs b ys p. length xs = alen \<longrightarrow> length ys = blen \<longrightarrow> mul_pre m f a xs b ys p
     \<longrightarrow> mul_post (mpvecmul m f a alen b blen p) m xs ys p)"

lemma mul_okD:
  assumes "mul_ok alen blen" "length xs = alen" "length ys = blen" "mul_pre m f a xs b ys p"
  obtains zs where "mpvecmul m f a alen b blen p = Some (put m p zs)" "length zs = alen + blen" "digval zs = digval xs * digval ys"
  using assms unfolding mul_ok_def mul_post_def by metis

lemma seg_fst: "seg m q ds \<Longrightarrow> m f = None \<Longrightarrow> fst q \<noteq> f"
  by (auto simp: seg_def)

lemma seg_zeros: "k \<le> K \<Longrightarrow> length X = x \<Longrightarrow> seg (m(f \<mapsto> X @ replicate K 0 @ Y)) (f, x) (replicate k 0)"
  by (simp add: seg_def min_def)

lemma put_zeros:
  "length zs \<le> K \<Longrightarrow> length X = x \<Longrightarrow> put (m(f \<mapsto> X @ replicate K 0 @ Y)) (f, x) zs = m(f \<mapsto> X @ zs @ replicate (K - length zs) 0 @ Y)"
  using put_own [of zs "replicate K 0 @ Y" X x m f] by simp

lemma block_pad: "length zs \<le> k \<Longrightarrow> k \<le> K \<Longrightarrow> \<exists>A. zs @ replicate (K - length zs) 0 = A @ replicate (K - k) 0 \<and> length A = k \<and> digval A = digval zs"
proof (rule exI, intro conjI)
  assume "length zs \<le> k" "k \<le> K"
  then show "zs @ replicate (K - length zs) 0 = (zs @ replicate (k - length zs) 0) @ replicate (K - k) 0"
    by (simp flip: replicate_add)
qed (simp_all add: digval_append)

lemma put_block:
  assumes "length zs \<le> k" "k \<le> K" "length X = x"
  shows "\<exists>A. put (m(f \<mapsto> X @ replicate K 0 @ Y)) (f, x) zs = m(f \<mapsto> X @ A @ replicate (K - k) 0 @ Y) \<and> length A = k \<and> digval A = digval zs"
proof -
  obtain A where A: "zs @ replicate (K - length zs) 0 = A @ replicate (K - k) 0" "length A = k" "digval A = digval zs"
    using block_pad [OF assms(1,2)] by blast
  have "put (m(f \<mapsto> X @ replicate K 0 @ Y)) (f, x) zs = m(f \<mapsto> X @ (zs @ replicate (K - length zs) 0) @ Y)"
    using put_own [of zs "replicate K 0 @ Y" X x m f] assms by simp
  then show ?thesis unfolding A(1) using A(2,3) by auto
qed

text \<open>The two differences, their product.\<close>

lemma kar_diffs:
  assumes u: "seg m u0 xs0" "seg m u1 xs1" "length xs0 = n" "length xs1 \<le> n" and v: "seg m v0 ys0" "seg m v1 ys1" "length ys0 \<le> n" "length ys1 \<le> length ys0"
    and new: "\<forall>k \<ge> f. m k = None" and ok: "mul_ok n (length ys0)" and K: "K = 2 * n + 1" and R: "length R = 2 * K"
  shows "\<exists>s s' A B C m1 m2. kar_udiff (m(f \<mapsto> replicate (3 * K) 0 @ R)) u0 n u1 (length xs1) (f, 0) = Some (s, m1)
    \<and> kar_vdiff m1 v0 (length ys0) v1 (length ys1) (f, K) = Some (s', m2)
    \<and> mpvecmul m2 (f + 1) (f, 0) n (f, K) (length ys0) (f, 2 * K) = Some (m(f \<mapsto> A @ B @ C @ replicate (K - (n + length ys0)) 0 @ R))
    \<and> length A = K \<and> length B = K \<and> length C = n + length ys0 \<and> (s * s' = 1 \<or> s * s' = - 1)
    \<and> s * s' * int (digval C) = (int (digval xs1) - int (digval xs0)) * (int (digval ys0) - int (digval ys1))"
proof -
  let ?Z = "\<lambda>k. replicate k (0 :: mpdigit)"
  have f: "fst u0 \<noteq> f" "fst u1 \<noteq> f" "fst v0 \<noteq> f" "fst v1 \<noteq> f" using u v new by (auto dest: seg_fst [of _ _ _ f])
  let ?m0 = "m(f \<mapsto> ?Z K @ ?Z K @ ?Z K @ R)"
  have m0: "m(f \<mapsto> ?Z (3 * K) @ R) = ?m0"
  proof -
    have "3 * K = K + (K + K)" by simp
    then show ?thesis by (simp only: replicate_add append_assoc)
  qed
  have r0: "room ?m0 (f, 0) n" using room_own [of n "?Z K @ ?Z K @ ?Z K @ R" "[]" 0 m f] K by simp
  have "\<exists>s zs. kar_udiff ?m0 u0 n u1 (length xs1) (f, 0) = Some (s, put ?m0 (f, 0) zs) \<and> length zs \<le> n \<and> (s = 1 \<or> s = - 1)
    \<and> s * int (digval zs) = int (digval xs1) - int (digval xs0)"
    by (rule kar_udiff_correct [OF _ u(3) _ refl u(4) r0]) (use u f in \<open>simp_all add: ahead_def\<close>)
  then obtain s zs where s: "kar_udiff ?m0 u0 n u1 (length xs1) (f, 0) = Some (s, put ?m0 (f, 0) zs)" "length zs \<le> n" "s = 1 \<or> s = - 1"
    "s * int (digval zs) = int (digval xs1) - int (digval xs0)" by blast
  obtain A where A: "put ?m0 (f, 0) zs = m(f \<mapsto> A @ ?Z (K - n) @ ?Z K @ ?Z K @ R)" "length A = n" "digval A = digval zs"
    using put_block [OF s(2), of K "[]" 0 m f "?Z K @ ?Z K @ R"] K by auto
  let ?m1 = "m(f \<mapsto> (A @ ?Z (K - n)) @ ?Z K @ ?Z K @ R)"
  have lA: "length (A @ ?Z (K - n)) = K" using A(2) K by simp
  have r1: "room ?m1 (f, K) (length ys0)" using room_own [OF _ lA, of "length ys0" "?Z K @ ?Z K @ R" m f] v(3) K by simp
  have "\<exists>s zs. kar_vdiff ?m1 v0 (length ys0) v1 (length ys1) (f, K) = Some (s, put ?m1 (f, K) zs) \<and> length zs \<le> length ys0 \<and> (s = 1 \<or> s = - 1)
    \<and> s * int (digval zs) = int (digval ys0) - int (digval ys1)"
    by (rule kar_vdiff_correct [OF _ refl _ refl v(4) r1]) (use v f in \<open>simp_all add: ahead_def\<close>)
  then obtain s' zs' where s': "kar_vdiff ?m1 v0 (length ys0) v1 (length ys1) (f, K) = Some (s', put ?m1 (f, K) zs')" "length zs' \<le> length ys0" "s' = 1 \<or> s' = - 1"
    "s' * int (digval zs') = int (digval ys0) - int (digval ys1)" by blast
  have le: "length ys0 \<le> K" using v(3) K by simp
  obtain B where B: "put ?m1 (f, K) zs' = m(f \<mapsto> (A @ ?Z (K - n)) @ B @ ?Z (K - length ys0) @ ?Z K @ R)" "length B = length ys0" "digval B = digval zs'"
    using put_block [OF s'(2) le lA, of m f "?Z K @ R"] by auto
  let ?X = "(A @ ?Z (K - n)) @ B @ ?Z (K - length ys0)"
  have lX: "length ?X = 2 * K" using lA B(2) le by simp
  have m2: "put ?m1 (f, K) zs' = m(f \<mapsto> ?X @ ?Z K @ R)" unfolding B(1) by simp
  have "mul_pre (m(f \<mapsto> ?X @ ?Z K @ R)) (f + 1) (f, 0) A (f, K) B (f, 2 * K)"
    unfolding mul_pre_def
  proof (intro conjI)
    show "seg (m(f \<mapsto> ?X @ ?Z K @ R)) (f, 0) A" using seg_own [of A "A @ ?Z (K - n) @ B @ ?Z (K - length ys0) @ ?Z K @ R" "[]" 0 m f] by simp
    show "seg (m(f \<mapsto> ?X @ ?Z K @ R)) (f, K) B" using seg_own [OF _ _ lA, of B "B @ ?Z (K - length ys0) @ ?Z K @ R" m f] by simp
    show "seg (m(f \<mapsto> ?X @ ?Z K @ R)) (f, 2 * K) (?Z (length A + length B))"
      by (rule seg_zeros [OF _ lX]) (use A(2) B(2) v(3) K in simp)
  qed (use A(2) B(2) v(3) K new in \<open>auto simp: away_def\<close>)
  then obtain zs2 where z2: "mpvecmul (m(f \<mapsto> ?X @ ?Z K @ R)) (f + 1) (f, 0) n (f, K) (length ys0) (f, 2 * K)
      = Some (put (m(f \<mapsto> ?X @ ?Z K @ R)) (f, 2 * K) zs2)" "length zs2 = n + length ys0" "digval zs2 = digval A * digval B"
    by (rule mul_okD [OF ok A(2) B(2)])
  have p: "put (m(f \<mapsto> ?X @ ?Z K @ R)) (f, 2 * K) zs2 = m(f \<mapsto> ?X @ zs2 @ ?Z (K - (n + length ys0)) @ R)"
    unfolding z2(2) [symmetric] by (rule put_zeros [OF _ lX]) (use z2(2) v(3) K in simp)
  have val: "s * s' * int (digval zs2) = (int (digval xs1) - int (digval xs0)) * (int (digval ys0) - int (digval ys1))"
    unfolding s(4) [symmetric] s'(4) [symmetric] by (simp add: z2(3) A(3) B(3))
  have f1: "kar_udiff ?m0 u0 n u1 (length xs1) (f, 0) = Some (s, ?m1)" using s(1) A(1) by simp
  have f2: "kar_vdiff ?m1 v0 (length ys0) v1 (length ys1) (f, K) = Some (s', m(f \<mapsto> ?X @ ?Z K @ R))" using s'(1) m2 by simp
  have f3: "mpvecmul (m(f \<mapsto> ?X @ ?Z K @ R)) (f + 1) (f, 0) n (f, K) (length ys0) (f, 2 * K)
      = Some (m(f \<mapsto> (A @ ?Z (K - n)) @ (B @ ?Z (K - length ys0)) @ zs2 @ ?Z (K - (n + length ys0)) @ R))" using z2(1) p by simp
  have lB: "length (B @ ?Z (K - length ys0)) = K" and ss: "s * s' = 1 \<or> s * s' = - 1" using B(2) le s(3) s'(3) by auto
  show ?thesis unfolding m0 using f1 f2 f3 lA lB z2(2) ss val by (intro exI conjI)
qed


lemma put_own0: "length zs \<le> length Y \<Longrightarrow> put (m(f \<mapsto> Y)) (f, 0) zs = m(f \<mapsto> zs @ drop (length zs) Y)"
  using put_own [of zs Y "[]" 0 m f] by simp

lemma seg_own0: "length ds \<le> length Y \<Longrightarrow> take (length ds) Y = ds \<Longrightarrow> seg (m(f \<mapsto> Y)) (f, 0) ds"
  using seg_own [of ds Y "[]" 0 m f] by simp

text \<open>The other two products, over the differences.\<close>

lemma kar_products:
  assumes u: "seg m u0 xs0" "seg m u1 xs1" "length xs0 = n" "length xs1 \<le> n" and v: "seg m v0 ys0" "seg m v1 ys1" "length ys0 \<le> n" "length ys1 \<le> length ys0"
    and new: "\<forall>k \<ge> f. m k = None" and ok: "mul_ok n (length ys0)" "mul_ok (length xs1) (length ys1)" and K: "K = 2 * n + 1"
    and A: "length A = K" "length B = K"
  shows "\<exists>P Q m1 m2. store_digits (m(f \<mapsto> A @ B @ D)) (f, 0) (replicate (2 * K) 0) = Some m1
    \<and> (if length ys1 > 0 then mpvecmul m1 (f + 1) u1 (length xs1) v1 (length ys1) (f, K) else Some m1) = Some m2
    \<and> mpvecmul m2 (f + 1) u0 n v0 (length ys0) (f, 0) = Some (m(f \<mapsto> P @ Q @ D))
    \<and> length P = K \<and> length Q = K \<and> digval (take (n + length ys0) P) = digval xs0 * digval ys0
    \<and> (length ys1 > 0 \<longrightarrow> digval (take (length xs1 + length ys1) Q) = digval xs1 * digval ys1)"
proof -
  let ?Z = "\<lambda>k. replicate k (0 :: mpdigit)"
  have f: "fst u0 \<noteq> f" "fst u1 \<noteq> f" "fst v0 \<noteq> f" "fst v1 \<noteq> f" using u v new by (auto dest: seg_fst [of _ _ _ f])
  let ?m1 = "m(f \<mapsto> ?Z K @ ?Z K @ D)"
  have r: "room (m(f \<mapsto> A @ B @ D)) (f, 0) (length (?Z (2 * K)))" using room_own [of "2 * K" "A @ B @ D" "[]" 0 m f] A by simp
  have "?Z (2 * K) = ?Z K @ ?Z K" by (simp add: mult_2 replicate_add)
  then have m1: "store_digits (m(f \<mapsto> A @ B @ D)) (f, 0) (?Z (2 * K)) = Some ?m1"
    unfolding store_digits_put [OF r] using put_own0 [of "?Z (2 * K)" "A @ B @ D" m f] A by simp
  have lZ: "length (?Z K) = K" by simp
  have "\<exists>Q. (if length ys1 > 0 then mpvecmul ?m1 (f + 1) u1 (length xs1) v1 (length ys1) (f, K) else Some ?m1) = Some (m(f \<mapsto> ?Z K @ Q @ D)) \<and> length Q = K
    \<and> (length ys1 > 0 \<longrightarrow> digval (take (length xs1 + length ys1) Q) = digval xs1 * digval ys1)"
  proof (cases "length ys1 > 0")
    case True
    have "mul_pre ?m1 (f + 1) u1 xs1 v1 ys1 (f, K)"
      unfolding mul_pre_def
    proof (intro conjI)
      show "seg ?m1 (f, K) (?Z (length xs1 + length ys1))" by (rule seg_zeros [OF _ lZ]) (use u(4) v(3,4) K in simp)
    qed (use u v f new in \<open>simp_all add: away_def\<close>)
    then obtain zs where zs: "mpvecmul ?m1 (f + 1) u1 (length xs1) v1 (length ys1) (f, K) = Some (put ?m1 (f, K) zs)"
      "length zs = length xs1 + length ys1" "digval zs = digval xs1 * digval ys1" by (rule mul_okD [OF ok(2) refl refl])
    have lk: "length zs \<le> K" using zs(2) u(4) v(3,4) K by simp
    show ?thesis using True zs put_zeros [OF lk lZ, of m f D] lk by (intro exI [of _ "zs @ ?Z (K - length zs)"]) simp
  next
    case False
    then show ?thesis by (intro exI [of _ "?Z K"]) simp
  qed
  then obtain Q where Q: "(if length ys1 > 0 then mpvecmul ?m1 (f + 1) u1 (length xs1) v1 (length ys1) (f, K) else Some ?m1) = Some (m(f \<mapsto> ?Z K @ Q @ D))"
    "length Q = K" "length ys1 > 0 \<longrightarrow> digval (take (length xs1 + length ys1) Q) = digval xs1 * digval ys1" by blast
  let ?m2 = "m(f \<mapsto> ?Z K @ Q @ D)"
  have "mul_pre ?m2 (f + 1) u0 xs0 v0 ys0 (f, 0)"
    unfolding mul_pre_def
  proof (intro conjI)
    show "seg ?m2 (f, 0) (?Z (length xs0 + length ys0))" using seg_zeros [of "length xs0 + length ys0" K "[]" 0 m f "Q @ D"] u(3) v(3) K by simp
  qed (use u v f new in \<open>simp_all add: away_def\<close>)
  then obtain zs where zs: "mpvecmul ?m2 (f + 1) u0 n v0 (length ys0) (f, 0) = Some (put ?m2 (f, 0) zs)"
    "length zs = n + length ys0" "digval zs = digval xs0 * digval ys0" by (rule mul_okD [OF ok(1) u(3) refl])
  have lk: "length zs \<le> K" using zs(2) v(3) K by simp
  have "put ?m2 (f, 0) zs = m(f \<mapsto> (zs @ ?Z (K - length zs)) @ Q @ D)" using put_zeros [OF lk, of "[]" 0 m f "Q @ D"] by simp
  then show ?thesis using m1 Q zs lk
    by (intro exI [of _ "zs @ ?Z (K - length zs)"] exI [of _ Q] exI [of _ ?m1] exI [of _ ?m2]) simp
qed

lemma put_none: "m f = None \<Longrightarrow> fst p \<noteq> f \<Longrightarrow> (put (m(f \<mapsto> T)) p zs)(f := None) = put m p zs"
  by (auto simp: put_def fun_eq_iff)

lemma mpkaratsuba_correct:
  assumes len: "length xs = alen" "length ys = blen" "blen \<le> alen" and pre: "mul_pre m f a xs b ys p"
    and ok: "\<And>l. l \<le> kar_half alen \<Longrightarrow> mul_ok (kar_half alen) l" "mul_ok (alen - kar_half alen) (blen - kar_half alen)"
  shows "mul_post (mpkaratsuba m f a alen b blen p) m xs ys p"
proof -
  define n K where "n = kar_half alen" and K: "K = 2 * n + 1"
  have n: "n \<le> alen" "alen \<le> 2 * n" unfolding n_def by (rule kar_half)+
  define v0len v1len where "v0len = min n blen" and "v1len = blen - n"
  have split: "(if blen > n then (n, blen - n) else (blen, 0)) = (v0len, v1len)" by (simp add: v0len_def v1len_def min_def)
  define xs0 xs1 ys0 ys1 where "xs0 = take n xs" and "xs1 = drop n xs" and "ys0 = take n ys" and "ys1 = drop n ys"
  have l: "length xs0 = n" "length xs1 = alen - n" "length ys0 = v0len" "length ys1 = v1len" "v0len \<le> n" "v1len \<le> v0len" "alen - n \<le> n"
    using len n by (simp_all add: xs0_def xs1_def ys0_def ys1_def v0len_def v1len_def)
  have pr: "seg m a xs" "seg m b ys" "seg m p (replicate (alen + blen) 0)" "\<forall>k \<ge> f. m k = None" using pre len by (simp_all add: mul_pre_def)
  have s: "seg m a xs0" "seg m (dadd a n) xs1" "seg m b ys0" "seg m (dadd b v0len) ys1"
    using pr(1,2) seg_append [of m a xs0 xs1] seg_append [of m b ys0 ys1] l(1,3) by (simp_all add: xs0_def xs1_def ys0_def ys1_def)
  define B where "B = (2 ^ (Dbits * n) :: nat)"
  have val: "digval xs = digval xs0 + B * digval xs1" "digval ys = digval ys0 + B * digval ys1"
    using digval_split [OF len(1), of n] digval_split [OF len(2), of n] n len(2) by (simp_all add: xs0_def xs1_def ys0_def ys1_def B_def min_def)
  have small: "digval zs < B" if "length zs \<le> n" for zs
  proof -
    have "digval zs < 2 ^ (Dbits * length zs)" by (rule digval_bound)
    also have "\<dots> \<le> B" unfolding B_def using that by (intro power_increasing) simp_all
    finally show ?thesis .
  qed
  let ?Z = "\<lambda>k. replicate k (0 :: mpdigit)"
  have ok': "mul_ok n (length ys0)" "mul_ok (length xs1) (length ys1)" using ok l by (simp_all add: n_def v1len_def)
  have le: "length xs1 \<le> n" "length ys0 \<le> n" "length ys1 \<le> length ys0" using l by simp_all
  obtain s s' A A' C m1 m2 where d: "kar_udiff (m(f \<mapsto> ?Z (3 * K) @ ?Z (2 * K))) a n (dadd a n) (length xs1) (f, 0) = Some (s, m1)"
    "kar_vdiff m1 b (length ys0) (dadd b v0len) (length ys1) (f, K) = Some (s', m2)"
    "mpvecmul m2 (f + 1) (f, 0) n (f, K) (length ys0) (f, 2 * K) = Some (m(f \<mapsto> A @ A' @ C @ ?Z (K - (n + length ys0)) @ ?Z (2 * K)))"
    "length A = K" "length A' = K" "length C = n + length ys0" "s * s' = 1 \<or> s * s' = - 1"
    "s * s' * int (digval C) = (int (digval xs1) - int (digval xs0)) * (int (digval ys0) - int (digval ys1))"
    using kar_diffs [OF s(1,2) l(1) le(1) s(3,4) le(2,3) pr(4) ok'(1) K length_replicate] by blast
  obtain P Q m3 m4 where q: "store_digits (m(f \<mapsto> A @ A' @ C @ ?Z (K - (n + length ys0)) @ ?Z (2 * K))) (f, 0) (?Z (2 * K)) = Some m3"
    "(if length ys1 > 0 then mpvecmul m3 (f + 1) (dadd a n) (length xs1) (dadd b v0len) (length ys1) (f, K) else Some m3) = Some m4"
    "mpvecmul m4 (f + 1) a n b (length ys0) (f, 0) = Some (m(f \<mapsto> P @ Q @ C @ ?Z (K - (n + length ys0)) @ ?Z (2 * K)))"
    "length P = K" "length Q = K" "digval (take (n + length ys0) P) = digval xs0 * digval ys0"
    "length ys1 > 0 \<longrightarrow> digval (take (length xs1 + length ys1) Q) = digval xs1 * digval ys1"
    using kar_products [OF s(1,2) l(1) le(1) s(3,4) le(2,3) pr(4) ok' K d(4,5)] by blast
  define X where "X = P @ Q @ C @ ?Z (K - (n + length ys0))"
  have lX: "length X = 3 * K" using q(4,5) d(6) l K by (simp add: X_def)
  have zR: "length (?Z (2 * K)) = Suc (4 * n + 1)" using K by simp
  have k: "n + length ys0 \<le> K" "length xs1 + length ys1 \<le> K" "n + length ys0 \<le> 2 * n" "length xs1 + length ys1 \<le> 2 * n" using le K by simp_all
  have "\<exists>R'. kar_sum (m(f \<mapsto> X @ ?Z (2 * K))) n (f, 3 * K) (4 * n + 1) (f, 0) (f, K) (f, 2 * K) (n + length ys0) (length xs1 + length ys1) (length ys1) (s * s')
     = Some (m(f \<mapsto> X @ R')) \<and> length R' = Suc (4 * n + 1) \<and> digval R' = (digval xs0 + 2 ^ (Dbits * n) * digval xs1) * (digval ys0 + 2 ^ (Dbits * n) * digval ys1)"
  proof (rule kar_sum_correct [OF lX zR digval_zeros, where ?ys0.0 = "take (n + length ys0) P" and ?ys1.0 = "take (length xs1 + length ys1) Q" and ysd = C])
    show "seg (m(f \<mapsto> X)) (f, 0) (take (n + length ys0) P)" by (rule seg_own0) (use q(4) k(1) in \<open>simp_all add: X_def\<close>)
    show "seg (m(f \<mapsto> X)) (f, K) (take (length xs1 + length ys1) Q)" unfolding X_def by (rule seg_own [OF _ _ q(4)]) (use q(5) k(2) in simp_all)
    have "length (P @ Q) = 2 * K" using q(4,5) by simp
    from seg_own [OF _ _ this, of C "C @ ?Z (K - (n + length ys0))" m f] show "seg (m(f \<mapsto> X)) (f, 2 * K) C" by (simp add: X_def)
    show "digval xs0 < 2 ^ (Dbits * n)" "digval xs1 < 2 ^ (Dbits * n)" "digval ys0 < 2 ^ (Dbits * n)" "digval ys1 < 2 ^ (Dbits * n)"
      using small le l(1) by (simp_all add: B_def)
  qed (use q d k in simp_all)
  then obtain R' where R: "kar_sum (m(f \<mapsto> P @ Q @ C @ ?Z (K - (n + length ys0)) @ ?Z (2 * K))) n (f, 3 * K) (4 * n + 1) (f, 0) (f, K) (f, 2 * K)
       (n + length ys0) (length xs1 + length ys1) (length ys1) (s * s') = Some (m(f \<mapsto> X @ R'))" "length R' = Suc (4 * n + 1)" "digval R' = digval xs * digval ys"
    unfolding val B_def X_def by auto
  define zs where "zs = take (alen + blen) R'"
  have lz: "length zs = alen + blen" using R(2) n len(3) by (simp add: zs_def)
  have "digval xs * digval ys < 2 ^ (Dbits * (alen + blen))"
    using mult_strict_mono [OF digval_bound [of xs] digval_bound [of ys]] len by (simp add: power_add distrib_left)
  then have dz: "digval zs = digval xs * digval ys" unfolding zs_def R(3) [symmetric] by (rule digval_fits)
  have "seg (m(f \<mapsto> X @ R')) (f, 3 * K) zs" by (rule seg_own [OF _ _ lX]) (use lz R(2) in \<open>simp_all add: zs_def\<close>)
  then have at: "digits_at (m(f \<mapsto> X @ R')) (f, 3 * K) (alen + blen) = Some zs" using digits_at_seg lz by metis
  have fp: "fst p \<noteq> f" and fn: "m f = None" using seg_fst [OF pr(3)] pr(4) by auto
  have "room (m(f \<mapsto> X @ R')) p (length zs)" using seg_room [OF pr(3)] fp lz by (simp add: room_def)
  then have st: "store_digits (m(f \<mapsto> X @ R')) p zs = Some (put (m(f \<mapsto> X @ R')) p zs)" by (rule store_digits_put)
  have e: "?Z (5 * K) = ?Z (3 * K) @ ?Z (2 * K)" by (simp flip: replicate_add)
  have "mpkaratsuba m f a alen b blen p = Some (put m p zs)"
    unfolding mpkaratsuba.simps Let_def n_def [symmetric] split prod.case K [symmetric] dadd_pair add_0 e
    using d(1-3) q(1-3) R(1) at st put_none [of m f p, OF fn fp] unfolding l by (simp only: Option.bind.simps prod.case)
  then show ?thesis using lz dz len unfolding mul_post_def by auto
qed

lemma mul_post_swap: "mul_post res m ys xs p \<Longrightarrow> mul_post res m xs ys p"
  unfolding mul_post_def by (simp add: add.commute mult.commute)

lemma mul_pre_swap: "mul_pre m f a xs b ys p \<Longrightarrow> mul_pre m f b ys a xs p"
  unfolding mul_pre_def by (simp add: add.commute)

lemma loop_post:
  assumes "length xs = alen" "length ys = blen" "mul_pre m f a xs b ys p"
  shows "mul_post (mpvecmul_loop skip m a alen b p blen) m xs ys p"
proof -
  have "\<exists>zs. mpvecmul_loop skip m a alen b p blen = Some (put m p zs) \<and> length zs = alen + blen \<and> digval zs = digval (replicate alen 0) + digval xs * digval ys"
    by (rule mpvecmul_loop_correct) (use assms in \<open>auto simp: mul_pre_def replicate_add\<close>)
  then show ?thesis using assms(1,2) unfolding mul_post_def by auto
qed

text \<open>The product, whatever the lengths.\<close>

lemma mpvecmul_ok: "mul_ok alen blen"
proof (induction "max alen blen" arbitrary: alen blen rule: less_induct)
  case less
  have kar: "mul_post (mpkaratsuba m f a k b l p) m xs ys p"
    if "length xs = k" "length ys = l" "l \<le> k" "KARATSUBAMIN \<le> k" "k = max alen blen" "mul_pre m f a xs b ys p" for m f a k b l p xs ys
  proof (rule mpkaratsuba_correct [OF that(1-3,6)])
    have k: "1 < k" using that(4) by (simp add: KARATSUBAMIN_def)
    then show "mul_ok (kar_half k) i" if "i \<le> kar_half k" for i using kar_half(1) [OF k] that \<open>k = max alen blen\<close> by (intro less) simp
    show "mul_ok (k - kar_half k) (l - kar_half k)" using kar_half(3) [OF k] k that(3,5) by (intro less) simp
  qed
  show ?case
    unfolding mul_ok_def mpvecmul.simps
  proof (intro allI impI)
    fix m f a and xs :: "mpdigit list" and b and ys :: "mpdigit list" and p
    assume l: "length xs = alen" "length ys = blen" and pre: "mul_pre m f a xs b ys p"
    show "mul_post (if alen < blen then (if blen \<ge> KARATSUBAMIN \<and> alen > 1 then mpkaratsuba m f b blen a alen p else mpvecmul_loop True m b blen a p alen)
      else (if alen \<ge> KARATSUBAMIN \<and> blen > 1 then mpkaratsuba m f a alen b blen p else mpvecmul_loop True m a alen b p blen)) m xs ys p"
      using l kar [OF l _ _ _ pre] kar [OF l(2,1) _ _ _ mul_pre_swap [OF pre]] loop_post [OF l pre] loop_post [OF l(2,1) mul_pre_swap [OF pre]]
      by (auto intro: mul_post_swap)
  qed
qed

lemma mpvectsmul_post:
  assumes l: "length xs = alen" "length ys = blen" and pre: "mul_pre m f a xs b ys p"
  shows "mul_post (mpvectsmul m a alen b blen p) m xs ys p"
proof -
  have z: "mpvecmul_loop False m x k y p 0 = Some m" for x k y by simp
  show ?thesis
    using l loop_post [OF l pre, of False] loop_post [OF l(2,1) mul_pre_swap [OF pre], of False]
    by (cases "alen < blen") (auto simp: mpvectsmul_def intro: mul_post_swap)
qed

section \<open>Products\<close>

text \<open>Nothing is in use from \<open>mh_next\<close> on.\<close>

definition mp_heap :: "mpheap \<Rightarrow> bool" where
  "mp_heap h \<longleftrightarrow> (\<forall>k \<ge> mh_next h. mh_ints h k = None \<and> mh_mem h k = None)"

lemma mp_heapD: "mp_heap h \<Longrightarrow> mp_at h a b ds \<Longrightarrow> a < mh_next h"
  by (metis mp_heap_def mp_at_def option.distinct(1) not_le)

lemma mp_heap_put: "mp_heap h \<Longrightarrow> a < mh_next h \<Longrightarrow> mp_heap (put_mp a b ds h)"
  by (auto simp: mp_heap_def)

lemma zero_digval: "digval (take n xs) = 0 \<Longrightarrow> n \<le> length xs \<Longrightarrow> take n xs = replicate n 0"
proof (induction n arbitrary: xs)
  case (Suc n)
  then obtain d ds where "xs = d # ds" by (cases xs) auto
  then show ?case using Suc by (simp add: unat_eq_0)
qed simp

lemma mul_into_result:
  assumes a: "mp_plain h a1 b1 ds1" "mp_plain h a2 b2 ds2" and r: "mp_out h r b ds" and ne: "a1 \<noteq> r" "a2 \<noteq> r" and h: "mp_heap h"
  shows "result (mul_into a1 b1 a2 b2 r h) h r b (mp_sign b1 * int (mag b1 ds1) * (mp_sign b2 * int (mag b2 ds2)))"
proof -
  let ?n = "mp_top b1 + mp_top b2" and ?b0 = "b\<lparr>mp_top := 0\<rparr>"
  have u: "upd_mp r (\<lambda>b. b\<lparr>mp_top := 0\<rparr>) h = Some (put_mp r ?b0 ds h)" by (rule upd_mp_at [OF outD(1) [OF r]])
  have s0: "mp_sized ?b0 ds" using outD(2) [OF r] by (auto simp: mp_sized_def)
  have d: "nat (DIGITS (int (Suc ?n) * int Dbits)) = Suc ?n" using DIGITS_mult(1) [of "Suc ?n"] by (simp del: of_nat_Suc of_nat_add)
  obtain c es where c: "mpbits r (int (Suc ?n) * int Dbits) (put_mp r ?b0 ds h) = Some (put_mp r c es h)" "mp_sized c es"
    "mp_top c = Suc ?n" "mag c es = 0" "like b c"
    using mpbits_put [of "put_mp r ?b0 ds h" r ?b0 ds "int (Suc ?n) * int Dbits"] s0 outD(6) [OF r] unfolding d by (auto simp: mag_def)
  have le: "Suc ?n \<le> length es" using c(2,3) by (auto simp: mp_sized_def)
  then have z: "take (Suc ?n) es = replicate (Suc ?n) 0" using c(3,4) by (intro zero_digval) (simp_all add: mag_def)
  have ts: "\<not> mp_timesafe c" using c(5) outD(3) [OF r] by (simp add: like_def)
  let ?m = "(mh_mem h)(r \<mapsto> es)" and ?xs = "take (mp_top b1) ds1" and ?ys = "take (mp_top b2) ds2"
  have l: "length ?xs = mp_top b1" "length ?ys = mp_top b2" by (rule top_length [OF plainD(3)], rule a)+
  have fr: "\<forall>k \<ge> mh_next h. ?m k = None" using h mp_heapD [OF h outD(1) [OF r]] by (auto simp: mp_heap_def)
  have "take ?n (take (Suc ?n) es) = replicate ?n 0" unfolding z by (simp add: min_def del: replicate_Suc)
  then have "take ?n es = replicate ?n 0" by (simp add: min_def)
  then have zs: "seg ?m (r, 0) (replicate ?n 0)" using seg_whole [of ?m r es ?n] le by simp
  have "mul_pre ?m (mh_next h) (a1, 0) ?xs (a2, 0) ?ys (r, 0)"
    unfolding mul_pre_def l
    using seg_whole [of ?m a1 ds1 "mp_top b1"] seg_whole [of ?m a2 ds2 "mp_top b2"] plainD(3,7) [OF a(1)] plainD(3,7) [OF a(2)] ne zs fr
    by (auto simp: away_def mp_sized_def)
  then obtain ws where w: "mpvecmul ?m (mh_next h) (a1, 0) (mp_top b1) (a2, 0) (mp_top b2) (r, 0) = Some (put ?m (r, 0) ws)"
    "length ws = ?n" "digval ws = mag b1 ds1 * mag b2 ds2" unfolding mag_def by (rule mul_okD [OF mpvecmul_ok l])
  let ?zs = "ws @ [0]" and ?s = "mp_sign b1 * mp_sign b2"
  have sg: "?s = 1 \<or> ?s = - 1" using plainD(3) [OF a(1)] plainD(3) [OF a(2)] by (auto simp: mp_sized_def)
  have "drop ?n es = 0 # drop (Suc ?n) es"
  proof -
    have "es ! ?n = 0" using z by (metis lessI nth_replicate nth_take)
    then show ?thesis using le by (simp add: Cons_nth_drop_Suc [symmetric])
  qed
  then have p: "put ?m (r, 0) ws = (mh_mem h)(r \<mapsto> ?zs @ drop (length ?zs) es)" using put_whole [of ?m r es ws] w(2) by simp
  have lz: "length ?zs = Suc ?n" "length ?zs \<le> length es" using w(2) le by simp_all
  note v = vec_put(2,3) [OF c(2) lz(2) sg]
  have "mul_into a1 b1 a2 b2 r h = mpnorm r (put_mp r (c\<lparr>mp_top := length ?zs, mp_sign := ?s\<rparr>) (?zs @ drop (length ?zs) es) h)"
    unfolding mul_into_def add_timesafe_plain [OF a r] Option.bind.simps u Suc_eq_plus1 [symmetric] c(1)
    using w(1) p ts unfolding lz(1) by (simp add: put_mp_mem)
  moreover have "result (mpnorm r (put_mp r (c\<lparr>mp_top := length ?zs, mp_sign := ?s\<rparr>) (?zs @ drop (length ?zs) es) h)) h r b
      (mp_sign b1 * int (mag b1 ds1) * (mp_sign b2 * int (mag b2 ds2)))"
    by (rule mpnorm_result [OF v(1)]) (use v(2) c(5) outD(3) [OF r] w(3) in \<open>simp_all add: digval_append\<close>)
  ultimately show ?thesis by simp
qed


text \<open>A number that \<open>mpnew\<close> has made, and that \<open>mpfree\<close> takes back.\<close>

definition with_new :: "nat \<Rightarrow> mpint \<Rightarrow> mpdigit list \<Rightarrow> mpheap \<Rightarrow> mpheap" where
  "with_new a b ds h = (put_mp a b ds h)\<lparr>mh_next := Suc a\<rparr>"

lemma mpnew_with: "0 \<le> n \<Longrightarrow> \<exists>b ds. mpnew n h = Some (mh_next h, with_new (mh_next h) b ds h) \<and> mp_wf b ds \<and> mp_norm b \<and> mag b ds = 0
    \<and> \<not> mp_timesafe b \<and> \<not> mp_static b"
proof -
  let ?k = "max (nat (DIGITS n)) (mh_mindigits h)"
  let ?b = "\<lparr>mp_sign = 1, mp_size = ?k, mp_top = 0, mp_static = False, mp_norm = True, mp_timesafe = False, mp_field = False\<rparr>"
  assume "0 \<le> n"
  then have "mpnew n h = Some (mh_next h, with_new (mh_next h) ?b (replicate ?k 0) h)" by (simp add: mpnew_def Let_def with_new_def put_mp_def)
  then show ?thesis by (intro exI [of _ ?b] exI [of _ "replicate ?k 0"]) (simp add: mp_wf_def mp_sized_def mag_def)
qed

lemma with_new_simps [simp]:
  "put_mp a b ds (with_new a c es h) = with_new a b ds h" "upd_mp a g (with_new a b ds h) = Some (with_new a (g b) ds h)"
  "r \<noteq> a \<Longrightarrow> mp_at (with_new a b ds h) r c es = mp_at h r c es" "mp_at (with_new a b ds h) a c es \<longleftrightarrow> c = b \<and> es = ds"
  by (auto simp: with_new_def put_mp_def mp_at_def upd_mp_def)

lemma with_new_heap: "mp_heap h \<Longrightarrow> mp_heap (with_new (mh_next h) b ds h)"
  by (auto simp: mp_heap_def with_new_def)

lemma mpfree_new:
  assumes "mp_heap h" "r \<noteq> mh_next h" "\<not> mp_static b"
  shows "mpfree (mh_next h) (put_mp r c es (with_new (mh_next h) b ds h)) = Some (put_mp r c es (h\<lparr>mh_next := Suc (mh_next h)\<rparr>))"
proof -
  have "mh_ints h (mh_next h) = None" "mh_mem h (mh_next h) = None" using assms(1) by (simp_all add: mp_heap_def)
  then show ?thesis using assms(2,3) by (auto simp: mpfree_def with_new_def put_mp_def fun_eq_iff)
qed

text \<open>The product, also when it replaces a factor; what is allocated is freed again.\<close>

lemma mpmul_result:
  assumes a: "mp_plain h a1 b1 ds1" "mp_plain h a2 b2 ds2" and r: "mp_out h r b ds" and h: "mp_heap h"
  shows "\<exists>k \<ge> mh_next h. result (mpmul a1 a2 r h) (h\<lparr>mh_next := k\<rparr>) r b (mp_sign b1 * int (mag b1 ds1) * (mp_sign b2 * int (mag b2 ds2)))"
proof (cases "r = a1 \<or> r = a2")
  case False
  then have "mpmul a1 a2 r h = mul_into a1 b1 a2 b2 r h" using plainD(6) [OF a(1)] plainD(6) [OF a(2)] outD(4) [OF r] by (simp add: mpmul_def)
  then show ?thesis using mul_into_result [OF a r _ _ h] False by (intro exI [of _ "mh_next h"]) simp
next
  case True
  define x where "x = mh_next h"
  have lt: "a1 \<noteq> x" "a2 \<noteq> x" "r \<noteq> x"
    using mp_heapD [OF h plainD(1) [OF a(1)]] mp_heapD [OF h plainD(1) [OF a(2)]] mp_heapD [OF h outD(1) [OF r]] by (simp_all add: x_def)
  obtain c es where c: "mpnew 0 h = Some (x, with_new x c es h)" "mp_wf c es" using mpnew_with [of 0 h] unfolding x_def by auto
  let ?c = "set_flags b c" and ?v = "mp_sign b1 * int (mag b1 ds1) * (mp_sign b2 * int (mag b2 ds2))"
  define h1 where "h1 = with_new x ?c es h"
  have p1: "mp_plain h1 a1 b1 ds1" "mp_plain h1 a2 b2 ds2" "mp_out h1 x ?c es"
    using a lt c(2) outD(3,6) [OF r] by (simp_all add: h1_def mp_plain_def mp_out_def set_flags_def mp_wf_def mp_sized_def)
  have hp: "mp_heap h1" unfolding h1_def x_def by (rule with_new_heap [OF h])
  obtain b' ds' where b': "mul_into a1 b1 a2 b2 x h1 = Some (put_mp x b' ds' h1)" "mp_wf b' ds'" "mp_norm b'" "like ?c b'" "mp_sign b' * int (mag b' ds') = ?v"
    by (rule resultE [OF mul_into_result [OF p1 lt(1,2) hp]])
  define h2 where "h2 = with_new x b' ds' h"
  have h2: "put_mp x b' ds' h1 = h2" by (simp add: h1_def h2_def)
  have fl: "\<not> mp_timesafe b'" "\<not> mp_static b'" using b'(4) outD(3,6) [OF r] by (simp_all add: like_def set_flags_def)
  have p2: "mp_plain h2 x b' ds'" "mp_out h2 r b ds" using b'(2,3) fl(1) r lt(3) by (simp_all add: h2_def mp_plain_def mp_out_def)
  obtain b3 ds3 where b3: "mpassign x r h2 = Some (put_mp r b3 ds3 h2)" "mp_wf b3 ds3" "mp_norm b3" "like b b3" "mp_sign b3 * int (mag b3 ds3) = ?v"
    using resultE [OF mpassign_result [OF p2]] unfolding b'(5) by blast
  have f: "mpfree x (put_mp r b3 ds3 h2) = Some (put_mp r b3 ds3 (h\<lparr>mh_next := Suc x\<rparr>))"
    unfolding h2_def x_def by (rule mpfree_new [OF h]) (use lt(3) fl(2) in \<open>simp_all add: x_def\<close>)
  have "mpmul a1 a2 r h = Some (put_mp r b3 ds3 (h\<lparr>mh_next := Suc x\<rparr>))"
    using True plainD(6) [OF a(1)] plainD(6) [OF a(2)] outD(4) [OF r] c(1) b'(1) h2 b3(1) f by (simp add: mpmul_def h1_def)
  then have "result (mpmul a1 a2 r h) (h\<lparr>mh_next := Suc x\<rparr>) r b ?v" using b3(2-5) by (intro resultI [of _ r b3 ds3]) simp_all
  then show ?thesis by (intro exI [of _ "Suc x"]) (simp add: x_def)
qed

lemma mpmul_val:
  assumes "mp_val h a1 v1" "mp_val h a2 v2" "mp_var h r" "mp_heap h"
  shows "becomes (mpmul a1 a2 r h) r (v1 * v2) h"
proof -
  obtain b1 ds1 b2 ds2 b ds where p: "mp_plain h a1 b1 ds1" "mp_plain h a2 b2 ds2" "mp_out h r b ds"
    and v: "v1 = mp_sign b1 * int (mag b1 ds1)" "v2 = mp_sign b2 * int (mag b2 ds2)" using assms(1-3) unfolding mp_val_def mp_var_def by metis
  obtain k where "mh_next h \<le> k" "result (mpmul a1 a2 r h) (h\<lparr>mh_next := k\<rparr>) r b (v1 * v2)"
    using mpmul_result [OF p assms(4)] unfolding v by blast
  then show ?thesis using result_val outD(3,6) [OF p(3)] by blast
qed

end
