(* ===== verification/MpShift.thy ===== *)
theory MpShift
  imports MpMul
begin

text \<open>
  Shifts, \<^verbatim>\<open>libmp/port/mpleft.c\<close> and \<^verbatim>\<open>libmp/port/mpright.c\<close>.  The number of bits is an \<open>int\<close> from \<open>- 2\<^sup>3\<^sup>1\<close> on, whose negation and whose sum with the size of a
  number wrap around.
\<close>

section \<open>The functions\<close>

text \<open>The loops of \<open>mpleft\<close>, for \<open>i = n - 1, ..., 0\<close>.\<close>

fun mpleft_digits :: "dmem \<Rightarrow> dptr \<Rightarrow> dptr \<Rightarrow> nat \<Rightarrow> dmem option" where
  "mpleft_digits m b res 0 = Some m"
| "mpleft_digits m b res (Suc i) = do {
     x \<leftarrow> dld m (dadd b i);
     m \<leftarrow> dst m (dadd res i) x;
     mpleft_digits m b res i
   }"

fun mpleft_bits :: "nat \<Rightarrow> dmem \<Rightarrow> dptr \<Rightarrow> dptr \<Rightarrow> nat \<Rightarrow> mpdigit \<Rightarrow> dmem option" where
  "mpleft_bits l m b res 0 prev = dst m res (push_bit l prev)"
| "mpleft_bits l m b res (Suc i) prev = do {
     this \<leftarrow> dld m (dadd b i);
     m \<leftarrow> dst m (dadd res (Suc i)) (push_bit l prev OR drop_bit (Dbits - l) this);
     mpleft_bits l m b res i this
   }"

text \<open>\<open>for(i = 0; i < d; i++) res->p[i] = 0\<close>.\<close>

fun clear_digits :: "dmem \<Rightarrow> dptr \<Rightarrow> nat \<Rightarrow> dmem option" where
  "clear_digits m p 0 = Some m"
| "clear_digits m p (Suc n) = do {
     m \<leftarrow> dst m p 0;
     clear_digits m (dadd p 1) n
   }"

text \<open>The loops of \<open>mpright\<close>.\<close>

fun mpright_digits :: "dmem \<Rightarrow> dptr \<Rightarrow> dptr \<Rightarrow> nat \<Rightarrow> dmem option" where
  "mpright_digits m b res 0 = Some m"
| "mpright_digits m b res (Suc n) = do {
     x \<leftarrow> dld m b;
     m \<leftarrow> dst m res x;
     mpright_digits m (dadd b 1) (dadd res 1) n
   }"

fun mpright_bits :: "nat \<Rightarrow> dmem \<Rightarrow> dptr \<Rightarrow> dptr \<Rightarrow> nat \<Rightarrow> mpdigit \<Rightarrow> dmem option" where
  "mpright_bits r m b res 0 prev = dst m res (drop_bit r prev)"
| "mpright_bits r m b res (Suc n) prev = do {
     this \<leftarrow> dld m b;
     m \<leftarrow> dst m res (push_bit (Dbits - r) this OR drop_bit r prev);
     mpright_bits r m (dadd b 1) (dadd res 1) n this
   }"

text \<open>The size of the result in bits, an \<open>int\<close>.  As in \<open>MpInt\<close>, the size of a number is taken to fit one, and so its size with a part of a digit
  more; with a longer shift the sum wraps around (\<open>left_size_int\<close>).\<close>

definition left_size :: "nat \<Rightarrow> nat \<Rightarrow> int" where
  "left_size otop shift = (if shift < Dbits then int (otop * Dbits + shift) else sint (of_nat (otop * Dbits + shift) :: u32))"

text \<open>The body of \<open>mpleft\<close> for a positive shift of a number that is not 0.\<close>

definition left_body :: "nat \<Rightarrow> nat \<Rightarrow> nat \<Rightarrow> mpheap \<Rightarrow> mpheap option" where
  "left_body a shift res h = do {
     b \<leftarrow> mh_ints h a;
     let otop = mp_top b;
     h \<leftarrow> mpbits res (left_size otop shift) h;
     h \<leftarrow> upd_mp res (\<lambda>c. c\<lparr>mp_top := nat (DIGITS (left_size otop shift))\<rparr>) h;
     let d = shift div Dbits;
     let l = shift - d * Dbits;
     h \<leftarrow> in_mem (\<lambda>m. if l = 0 then mpleft_digits m (mp_p a) (dadd (mp_p res) d) otop
            else mpleft_bits l m (mp_p a) (dadd (mp_p res) d) otop 0) h;
     h \<leftarrow> in_mem (\<lambda>m. clear_digits m (mp_p res) d) h;
     h \<leftarrow> upd_mp res (\<lambda>c. c\<lparr>mp_timesafe := mp_timesafe c \<or> mp_timesafe b\<rparr>) h;
     mpnorm res h
   }"

text \<open>The body of \<open>mpright\<close> for a shift that is not negative of a number that is not 0.\<close>

definition right_body :: "nat \<Rightarrow> nat \<Rightarrow> nat \<Rightarrow> mpheap \<Rightarrow> mpheap option" where
  "right_body a shift res h = do {
     b \<leftarrow> mh_ints h a;
     if res = a \<and> shift = 0 then Some h
     else do {
       h \<leftarrow> (if res \<noteq> a then mpbits res (int (mp_top b * Dbits) - int shift) h else Some h);
       let d = shift div Dbits;
       let r = shift - d * Dbits;
       if d \<ge> mp_top b then upd_mp res (\<lambda>c. c\<lparr>mp_sign := 1, mp_top := 0\<rparr>) h
       else do {
         h \<leftarrow> (if r = 0 then in_mem (\<lambda>m. mpright_digits m (dadd (mp_p a) d) (mp_p res) (mp_top b - d)) h
              else in_mem (\<lambda>m. do {
                  prev \<leftarrow> dld m (dadd (mp_p a) d);
                  mpright_bits r m (dadd (mp_p a) (d + 1)) (mp_p res) (mp_top b - d - 1) prev
                }) h);
         h \<leftarrow> upd_mp res (\<lambda>c. c\<lparr>mp_top := mp_top b - d, mp_timesafe := mp_timesafe c \<or> mp_timesafe b\<rparr>) h;
         mpnorm res h
       }
     }
   }"

text \<open>\<open>-shift\<close> of an \<open>int\<close>.\<close>

definition neg_int :: "int \<Rightarrow> int" where
  "neg_int i = sint (- (of_int i :: u32))"

text \<open>\<open>mpleft\<close> and \<open>mpright\<close> begin alike and call each other, which need not end; \<open>left\<close> tells which it is.\<close>

partial_function (option) mpshift :: "bool \<Rightarrow> nat \<Rightarrow> int \<Rightarrow> nat \<Rightarrow> mpheap \<Rightarrow> mpheap option" where
  "mpshift left a shift res h = do {
     b \<leftarrow> mh_ints h a;
     h \<leftarrow> upd_mp res (\<lambda>c. c\<lparr>mp_sign := mp_sign b\<rparr>) h;
     if mp_top b = 0 then upd_mp res (\<lambda>c. c\<lparr>mp_top := 0\<rparr>) h
     else if left then (if shift \<le> 0 then mpshift False a (neg_int shift) res h else left_body a (nat shift) res h)
     else (if shift < 0 then mpshift True a (neg_int shift) res h else right_body a (nat shift) res h)
   }"

definition mpleft :: "nat \<Rightarrow> int \<Rightarrow> nat \<Rightarrow> mpheap \<Rightarrow> mpheap option" where
  "mpleft = mpshift True"

definition mpright :: "nat \<Rightarrow> int \<Rightarrow> nat \<Rightarrow> mpheap \<Rightarrow> mpheap option" where
  "mpright = mpshift False"

section \<open>The shift as an int\<close>

lemma signed_nat:
  fixes u :: int
  assumes "0 \<le> u" "u < 2 ^ Suc n"
  shows "signed_take_bit n u = (if u < 2 ^ n then u else u - 2 ^ Suc n)"
proof (cases "u < 2 ^ n")
  case True
  then have "(u + 2 ^ n) mod 2 ^ Suc n = u + 2 ^ n" using assms(1) by (intro mod_pos_pos_trivial) simp_all
  then show ?thesis using True by (simp only: signed_take_bit_eq_take_bit_shift take_bit_eq_mod) simp
next
  case False
  have "(u + 2 ^ n) mod 2 ^ Suc n = (u + 2 ^ n - 2 ^ Suc n) mod 2 ^ Suc n" by (rule minus_mod_self2 [symmetric])
  also have "\<dots> = u + 2 ^ n - 2 ^ Suc n" using False assms(2) by (intro mod_pos_pos_trivial) simp_all
  finally show ?thesis using False by (simp only: signed_take_bit_eq_take_bit_shift take_bit_eq_mod) simp
qed

lemma sint_u32: "sint x = (if unat x < 0x80000000 then int (unat x) else int (unat x) - 0x100000000)" for x :: u32
proof -
  have "sint x = signed_take_bit 31 (uint x)" by (simp add: sint_uint)
  also have "\<dots> = (if uint x < 2 ^ 31 then uint x else uint x - 2 ^ Suc 31)" using unsigned_less [of x, where 'a = int] by (intro signed_nat) simp_all
  finally have s: "sint x = (if uint x < 0x80000000 then uint x else uint x - 0x100000000)" by simp
  have e: "int (unat x) = uint x" by simp
  then have "unat x < 0x80000000 \<longleftrightarrow> uint x < 0x80000000" by linarith
  then show ?thesis unfolding s e by simp
qed

text \<open>For every number whose own size fits, this is the sum of the code.\<close>

lemma left_size_int:
  assumes "otop < 2 ^ 26"
  shows "left_size otop shift = sint (of_nat (otop * Dbits + shift) :: u32)"
proof (cases "shift < Dbits")
  case True
  define k where "k = otop * Dbits + shift"
  have k: "k < 0x80000000" using assms True by (simp add: k_def)
  then have "unat (of_nat k :: u32) = k" by (simp add: unat_of_nat)
  with k have "sint (of_nat k :: u32) = int k" by (simp add: sint_u32)
  then show ?thesis using True by (simp add: left_size_def k_def)
qed (simp add: left_size_def)

lemma sint_small_int: "- 0x80000000 \<le> i \<Longrightarrow> i < 0x80000000 \<Longrightarrow> sint (of_int i :: u32) = i"
  by (simp add: signed_of_int signed_take_bit_int_eq_self)

lemma neg_int_minus: "- (2 ^ 31) < i \<Longrightarrow> i \<le> 2 ^ 31 \<Longrightarrow> neg_int i = - i"
  unfolding neg_int_def using sint_small_int [of "- i"] by simp

lemma neg_int_least: "neg_int (- (2 ^ 31)) = - (2 ^ 31)"
  by (simp add: neg_int_def)

lemma left_size_fits: "s < Dbits \<or> n * Dbits + s < 2 ^ 31 \<Longrightarrow> left_size n s = int (n * Dbits + s)"
  using sint_small_int [of "int (n * Dbits + s)"] by (auto simp: left_size_def)

lemma left_size_wraps:
  assumes "2 ^ 31 \<le> n * Dbits + s" "n * Dbits + s < 2 ^ 32" "Dbits \<le> s"
  shows "left_size n s < 0"
proof -
  have "unat (of_nat (n * Dbits + s) :: u32) = n * Dbits + s" using assms(2) by (simp only: unat_of_nat) simp
  then show ?thesis using assms sint_u32 [of "of_nat (n * Dbits + s)"] by (simp add: left_size_def)
qed

text \<open>What \<open>mpleft\<close> and \<open>mpright\<close> have in common.\<close>

definition shift_start :: "nat \<Rightarrow> nat \<Rightarrow> mpheap \<Rightarrow> (mpheap \<Rightarrow> mpheap option) \<Rightarrow> mpheap option" where
  "shift_start a res h k = do {
     b \<leftarrow> mh_ints h a;
     h \<leftarrow> upd_mp res (\<lambda>c. c\<lparr>mp_sign := mp_sign b\<rparr>) h;
     if mp_top b = 0 then upd_mp res (\<lambda>c. c\<lparr>mp_top := 0\<rparr>) h
     else k h
   }"

lemma mpshift_steps:
  "mpshift True a s res h = shift_start a res h (\<lambda>h. if s \<le> 0 then mpshift False a (neg_int s) res h else left_body a (nat s) res h)"
  "mpshift False a s res h = shift_start a res h (\<lambda>h. if s < 0 then mpshift True a (neg_int s) res h else right_body a (nat s) res h)"
  unfolding shift_start_def by (subst mpshift.simps, simp only: if_True if_False)+

lemma mpleft_steps:
  assumes "- (2 ^ 31) < s"
  shows "mpleft a s res h = shift_start a res h (\<lambda>h. if s \<le> 0 then shift_start a res h (right_body a (nat (- s)) res) else left_body a (nat s) res h)"
  using neg_int_minus [OF assms] by (cases "s \<le> 0") (simp_all add: mpleft_def mpshift_steps(1), simp add: mpshift_steps(2))

lemma mpright_steps:
  assumes "- (2 ^ 31) < s"
  shows "mpright a s res h = shift_start a res h (\<lambda>h. if s < 0 then shift_start a res h (left_body a (nat (- s)) res) else right_body a (nat s) res h)"
  using neg_int_minus [OF assms] by (cases "s < 0") (simp_all add: mpright_def mpshift_steps(2), simp add: mpshift_steps(1))

text \<open>By the least \<open>int\<close> they call each other for ever.\<close>

lemma mpshift_ends: "mpshift left a s res h = Some h' \<Longrightarrow> s = - (2 ^ 31) \<longrightarrow> (\<forall>b. mh_ints h a = Some b \<longrightarrow> mp_top b = 0)"
proof (rule mpshift.raw_induct [of "\<lambda>left a s res h h'. s = - (2 ^ 31) \<longrightarrow> (\<forall>b. mh_ints h a = Some b \<longrightarrow> mp_top b = 0)"], intro impI allI)
  fix f left a s res h h' b
  assume ih: "\<And>left a s res h h'. f left a s res h = Some h' \<Longrightarrow> s = - (2 ^ 31) \<longrightarrow> (\<forall>b. mh_ints h a = Some b \<longrightarrow> mp_top b = 0)"
    and step: "do {
       b \<leftarrow> mh_ints h a;
       h \<leftarrow> upd_mp res (\<lambda>c. c\<lparr>mp_sign := mp_sign b\<rparr>) h;
       if mp_top b = 0 then upd_mp res (\<lambda>c. c\<lparr>mp_top := 0\<rparr>) h
       else if left then (if s \<le> 0 then f False a (neg_int s) res h else left_body a (nat s) res h)
       else (if s < 0 then f True a (neg_int s) res h else right_body a (nat s) res h)
     } = Some h'" and s: "s = - (2 ^ 31)" and b: "mh_ints h a = Some b"
  show "mp_top b = 0"
  proof (rule ccontr)
    assume t: "mp_top b \<noteq> 0"
    obtain h1 where h1: "upd_mp res (\<lambda>c. c\<lparr>mp_sign := mp_sign b\<rparr>) h = Some h1" "f (\<not> left) a s res h1 = Some h'"
      using step t b neg_int_least unfolding s by (cases left) (auto simp: bind_Some_iff split: if_splits)
    obtain b' where "mh_ints h1 a = Some b'" "mp_top b' = mp_top b" using h1(1) b by (cases "a = res") (auto simp: upd_mp_def bind_Some_iff)
    then show False using ih [OF h1(2)] s t by simp
  qed
qed

lemma mpshift_least: "mh_ints h a = Some b \<Longrightarrow> mp_top b \<noteq> 0 \<Longrightarrow> mpshift left a (- (2 ^ 31)) res h = None"
  using mpshift_ends [of left a "- (2 ^ 31)" res h] by (cases "mpshift left a (- (2 ^ 31)) res h") auto

section \<open>The digits\<close>

lemma put_back:
  assumes "room m p (length xs + length ys)"
  shows "put (put m (dadd p (length xs)) ys) p xs = put m p (xs @ ys)"
proof -
  obtain X where X: "m (fst p) = Some X" "snd p + (length xs + length ys) \<le> length X" using assms by (auto simp: room_def)
  then have "take (snd p) (take (snd p + length xs) X @ ys @ drop (snd p + length xs + length ys) X) = take (snd p) X"
    by (simp add: min_def)
  then show ?thesis using X by (simp add: put_def add.assoc)
qed

text \<open>A digit that is split by a shift.\<close>

lemma shift_split: "0 < l \<Longrightarrow> l < Dbits \<Longrightarrow> 2 ^ Dbits * unat (drop_bit (Dbits - l) d) + unat (push_bit l d) = unat d * 2 ^ l" for d :: mpdigit
  using div_shift [of l d] by simp

lemma drop_small: "0 < l \<Longrightarrow> l < Dbits \<Longrightarrow> unat (drop_bit (Dbits - l) d) < 2 ^ l" for d :: mpdigit
proof -
  assume l: "0 < l" "l < Dbits"
  have "2 ^ Dbits * unat (drop_bit (Dbits - l) d) \<le> unat d * 2 ^ l" using shift_split [OF l, of d] by linarith
  also have "\<dots> < 2 ^ Dbits * 2 ^ l" using unat_digit [of d] by simp
  finally show ?thesis unfolding mult_less_cancel1 by blast
qed

lemma shift_join:
  fixes x y :: mpdigit
  assumes l: "0 < l" "l < Dbits"
  shows "unat (push_bit l x OR drop_bit (Dbits - l) y) = unat (push_bit l x) + unat (drop_bit (Dbits - l) y)"
proof -
  have "push_bit l x AND drop_bit (Dbits - l) y = 0"
  proof (rule bit_word_eqI)
    fix n
    show "bit (push_bit l x AND drop_bit (Dbits - l) y) n = bit (0 :: mpdigit) n"
      using bit_imp_le_length [of y "Dbits - l + n"] l by (auto simp: bit_simps)
  qed
  then have e: "push_bit l x OR drop_bit (Dbits - l) y = push_bit l x + drop_bit (Dbits - l) y" by (simp add: disjunctive_add_eq_or)
  have "(2 :: nat) ^ l dvd 2 ^ Dbits" using l(2) by (intro le_imp_power_dvd) simp
  then have "2 ^ l dvd 2 ^ Dbits * unat (drop_bit (Dbits - l) x)" by (rule dvd_mult2)
  moreover have "2 ^ l dvd 2 ^ Dbits * unat (drop_bit (Dbits - l) x) + unat (push_bit l x)" unfolding shift_split [OF l] by simp
  ultimately have "2 ^ l dvd unat (push_bit l x)" using dvd_add_right_iff by blast
  then have "unat (push_bit l x) + 2 ^ l \<le> 2 ^ Dbits" using l(2) by (intro digit_room) simp_all
  then have "unat (push_bit l x) + unat (drop_bit (Dbits - l) y) < 2 ^ Dbits" using drop_small [OF l, of y] by linarith
  then show ?thesis unfolding e by (simp add: unat_word_ariths)
qed

text \<open>To the left.\<close>

lemma mpleft_digits_correct:
  assumes "seg m (a, 0) xs" "length xs = n" and "room m res n"
  shows "mpleft_digits m (a, 0) res n = Some (put m res xs)"
  using assms
proof (induction n arbitrary: m xs)
  case 0
  then show ?case by simp
next
  case (Suc n)
  obtain ys d where xs: "xs = ys @ [d]" "length ys = n" using Suc.prems(2) by (auto simp: length_Suc_conv_rev)
  have l: "dld m (dadd (a, 0) n) = Some d" "seg m (a, 0) ys" using Suc.prems(1) xs by (simp_all add: seg_append)
  have r: "room m (dadd res n) 1" "room m res n" using Suc.prems(3) room_dadd [of m res n 1] by (auto intro: room_le)
  have s: "seg (put m (dadd res n) [d]) (a, 0) ys"
    using seg_away [of "dadd res n" "[d]" "(a, 0)" ys m] l(2) r(1) xs(2) by (auto simp: away_def)
  have "mpleft_digits (put m (dadd res n) [d]) (a, 0) res n = Some (put (put m (dadd res n) [d]) res ys)"
    by (rule Suc.IH [OF s xs(2)]) (use r in simp)
  then show ?case using l(1) r(1) put_back [of m res ys "[d]"] Suc.prems(3) xs by simp
qed

lemma mpleft_bits_correct:
  assumes l: "0 < l" "l < Dbits" and "seg m (a, 0) xs" "length xs = n" and "room m res (Suc n)"
  shows "\<exists>zs. mpleft_bits l m (a, 0) res n c = Some (put m res zs) \<and> length zs = Suc n
    \<and> digval zs = 2 ^ l * digval xs + 2 ^ (Dbits * n) * unat (push_bit l c)"
  using assms(3-)
proof (induction n arbitrary: m xs c)
  case 0
  then show ?case by (intro exI [of _ "[push_bit l c]"]) simp
next
  case (Suc n)
  obtain ys d where xs: "xs = ys @ [d]" "length ys = n" using Suc.prems(2) by (auto simp: length_Suc_conv_rev)
  let ?w = "push_bit l c OR drop_bit (Dbits - l) d"
  have ld: "dld m (dadd (a, 0) n) = Some d" "seg m (a, 0) ys" using Suc.prems(1) xs by (simp_all add: seg_append)
  have r: "room m (dadd res (Suc n)) 1" "room m res (Suc n)" using Suc.prems(3) room_dadd [of m res "Suc n" 1] by (auto intro: room_le)
  have s: "seg (put m (dadd res (Suc n)) [?w]) (a, 0) ys"
    using seg_away [of "dadd res (Suc n)" "[?w]" "(a, 0)" ys m] ld(2) r(1) xs(2) by (auto simp: away_def)
  have "\<exists>zs. mpleft_bits l (put m (dadd res (Suc n)) [?w]) (a, 0) res n d = Some (put (put m (dadd res (Suc n)) [?w]) res zs) \<and> length zs = Suc n
    \<and> digval zs = 2 ^ l * digval ys + 2 ^ (Dbits * n) * unat (push_bit l d)"
    by (rule Suc.IH [OF s xs(2)]) (use r in simp)
  then obtain zs where zs: "mpleft_bits l (put m (dadd res (Suc n)) [?w]) (a, 0) res n d = Some (put (put m (dadd res (Suc n)) [?w]) res zs)" "length zs = Suc n"
    "digval zs = 2 ^ l * digval ys + 2 ^ (Dbits * n) * unat (push_bit l d)" by blast
  have p: "put (put m (dadd res (Suc n)) [?w]) res zs = put m res (zs @ [?w])" using put_back [of m res zs "[?w]"] Suc.prems(3) zs(2) by simp
  have "digval (zs @ [?w]) = 2 ^ l * digval ys + 2 ^ (Dbits * n) * (2 ^ Dbits * unat (drop_bit (Dbits - l) d) + unat (push_bit l d))
      + 2 ^ (Dbits * Suc n) * unat (push_bit l c)"
    by (simp add: digval_append zs(2,3) shift_join [OF l] power_add algebra_simps)
  also have "\<dots> = 2 ^ l * digval xs + 2 ^ (Dbits * Suc n) * unat (push_bit l c)"
    unfolding shift_split [OF l] by (simp add: xs digval_append algebra_simps)
  finally show ?case using ld(1) r(1) zs(1,2) p by (intro exI [of _ "zs @ [?w]"]) simp
qed

lemma clear_digits_correct: "room m p n \<Longrightarrow> clear_digits m p n = Some (put m p (replicate n 0))"
proof (induction n arbitrary: m p)
  case (Suc n)
  have r: "room m p 1" "room (put m p [0]) (dadd p 1) n" using room_step [OF Suc.prems] by simp_all
  then show ?case using Suc.IH [OF r(2)] put_step [OF Suc.prems, of "replicate n 0"] by simp
qed simp

text \<open>To the right.\<close>

lemma mpright_digits_correct:
  assumes "seg m b xs" "length xs = n" and "room m res n" and "ahead res b n"
  shows "mpright_digits m b res n = Some (put m res xs)"
  using assms
proof (induction xs arbitrary: m b res n)
  case (Cons x xs)
  then obtain k where k: "n = Suc k" "length xs = k" by auto
  have r: "room m res 1" "room (put m res [x]) (dadd res 1) k" using room_step [of m res k] Cons.prems(3) k by simp_all
  have a: "ahead (dadd res 1) (dadd b 1) k" "ahead res b (Suc k)" using ahead_step(1) [of res b k] Cons.prems(4) k by simp_all
  have s: "seg (put m res [x]) (dadd b 1) xs" using seg_step [OF a(2) r(1) k(2)] Cons.prems(1) by simp
  show ?case using Cons.IH [OF s k(2) r(2) a(1)] Cons.prems(1,3) r(1) put_step [of m res k xs x] k by simp
qed simp

lemma right_digit:
  fixes c y :: mpdigit and Y :: nat
  assumes r: "0 < r" "r < Dbits" and Y: "Y = unat y + 2 ^ Dbits * k"
  shows "unat (push_bit (Dbits - r) y) + unat (drop_bit r c) + 2 ^ Dbits * (Y div 2 ^ r) = (unat c + 2 ^ Dbits * Y) div 2 ^ r"
proof -
  have e: "(2 :: nat) ^ Dbits = 2 ^ r * 2 ^ (Dbits - r)" using r by (simp flip: power_add)
  have s: "2 ^ Dbits * unat (drop_bit r y) + unat (push_bit (Dbits - r) y) = unat y * 2 ^ (Dbits - r)"
    using shift_split [of "Dbits - r" y] r by simp
  have d: "unat (drop_bit r x) = unat x div 2 ^ r" for x :: mpdigit unfolding unat_drop_bit_eq by (rule drop_bit_eq_div)
  have "Y div 2 ^ r = unat (drop_bit r y) + 2 ^ (Dbits - r) * k"
    unfolding Y e d using div_mult_self2 [of "2 ^ r" "unat y" "2 ^ (Dbits - r) * k"] by (simp add: mult.assoc)
  then have "unat (push_bit (Dbits - r) y) + 2 ^ Dbits * (Y div 2 ^ r) = 2 ^ (Dbits - r) * Y"
    using s unfolding Y by (simp add: algebra_simps)
  moreover have "(unat c + 2 ^ Dbits * Y) div 2 ^ r = unat c div 2 ^ r + 2 ^ (Dbits - r) * Y"
    unfolding e using div_mult_self2 [of "2 ^ r" "unat c" "2 ^ (Dbits - r) * Y"] by (simp add: mult.assoc)
  ultimately show ?thesis unfolding d by linarith
qed

lemma mpright_bits_correct:
  assumes r: "0 < r" "r < Dbits" and "seg m b xs" "length xs = n" and "room m res (Suc n)" and "ahead res b n"
  shows "\<exists>zs. mpright_bits r m b res n c = Some (put m res zs) \<and> length zs = Suc n
    \<and> digval zs = (unat c + 2 ^ Dbits * digval xs) div 2 ^ r"
  using assms(3-)
proof (induction xs arbitrary: m b res n c)
  case Nil
  have "unat (drop_bit r c) = unat c div 2 ^ r" unfolding unat_drop_bit_eq by (rule drop_bit_eq_div)
  then show ?case using Nil by (intro exI [of _ "[drop_bit r c]"]) simp
next
  case (Cons y ys)
  then obtain k where k: "n = Suc k" "length ys = k" by auto
  let ?w = "push_bit (Dbits - r) y OR drop_bit r c"
  have ro: "room m res 1" "room (put m res [?w]) (dadd res 1) (Suc k)" using room_step [of m res "Suc k"] Cons.prems(3) k by simp_all
  have a: "ahead (dadd res 1) (dadd b 1) k" "ahead res b (Suc k)" using ahead_step(1) [of res b k] Cons.prems(4) k by simp_all
  have s: "seg (put m res [?w]) (dadd b 1) ys" using seg_step [OF a(2) ro(1) k(2)] Cons.prems(1) by simp
  obtain zs where zs: "mpright_bits r (put m res [?w]) (dadd b 1) (dadd res 1) k y = Some (put (put m res [?w]) (dadd res 1) zs)" "length zs = Suc k"
    "digval zs = (unat y + 2 ^ Dbits * digval ys) div 2 ^ r" using Cons.IH [OF s k(2) ro(2) a(1)] by blast
  have "unat ?w = unat (push_bit (Dbits - r) y) + unat (drop_bit r c)" using shift_join [of "Dbits - r" y c] r by simp
  then have "digval (?w # zs) = (unat c + 2 ^ Dbits * digval (y # ys)) div 2 ^ r"
    using right_digit [where y = y and k = "digval ys" and c = c, OF r refl] zs(3) by simp
  then show ?case using zs Cons.prems(1,3) ro(1) put_step [of m res "Suc k" zs ?w] k by (intro exI [of _ "?w # zs"]) simp
qed

section \<open>Shifted numbers\<close>

text \<open>An operand of a shift need not be normalised.\<close>

definition mp_in :: "mpheap \<Rightarrow> nat \<Rightarrow> mpint \<Rightarrow> mpdigit list \<Rightarrow> bool" where
  "mp_in h a b ds \<longleftrightarrow> mp_at h a b ds \<and> mp_sized b ds \<and> \<not> mp_timesafe b \<and> (mp_top b = 0 \<longrightarrow> mp_sign b = 1)"

lemma inD:
  "mp_in h a b ds \<Longrightarrow> mp_at h a b ds" "mp_in h a b ds \<Longrightarrow> mp_sized b ds" "mp_in h a b ds \<Longrightarrow> \<not> mp_timesafe b"
  "mp_in h a b ds \<Longrightarrow> mh_ints h a = Some b" "mp_in h a b ds \<Longrightarrow> mh_mem h a = Some ds" "mp_in h a b ds \<Longrightarrow> mp_top b = 0 \<Longrightarrow> mp_sign b = 1"
  by (simp_all add: mp_in_def mp_at_def)

lemma plain_in: "mp_plain h a b ds \<Longrightarrow> mp_in h a b ds"
  by (simp add: mp_plain_def mp_in_def mp_wf_def mag_def)

lemma in_seg:
  assumes a: "mp_in h a b1 ds1" and r: "mh_ints h r = Some b" "mh_mem h r = Some ds" and e: "take (mp_top b) es = take (mp_top b) ds" "mp_top b \<le> length es"
  shows "seg ((mh_mem h)(r \<mapsto> es)) (a, 0) (take (mp_top b1) ds1)" "length (take (mp_top b1) ds1) = mp_top b1"
proof -
  show "seg ((mh_mem h)(r \<mapsto> es)) (a, 0) (take (mp_top b1) ds1)"
    by (rule seg_operand [OF inD(5) [OF a], where k = "mp_top b"]) (use inD(2,4,5) [OF a] r e in \<open>auto simp: mp_sized_def\<close>)
qed (rule top_length [OF inD(2) [OF a]])

lemma room_bits:
  assumes r: "mp_out h r b ds" and n: "nat (DIGITS k) = n"
  obtains c es where "mpbits r k h = Some (put_mp r c es h)" "mp_sized c es" "take (mp_top b) es = take (mp_top b) ds"
    "mp_top b \<le> length es" "n \<le> length es" "like b c" "mp_sign c = mp_sign b"
proof -
  obtain c es where c: "mpbits r k h = Some (put_mp r c es h)" "mp_sized c es" "take (mp_top b) es = take (mp_top b) ds"
    "mp_top c = max (mp_top b) n" "mp_sign c = mp_sign b" "like b c"
    using mpbits_put [OF outD(1,2,6) [OF r], of k] unfolding n by blast
  then show thesis by (intro that [of c es]) (simp_all add: mp_sized_def)
qed

lemma div_split: "n = Dbits * (n div Dbits) + n mod Dbits" "n mod Dbits < Dbits" for n :: nat
  by simp_all

lemma DIGITS_left: "nat (DIGITS (int (n * Dbits + s))) = n + s div Dbits + (if s mod Dbits = 0 then 0 else 1)"
proof -
  have "DIGITS (int (n * Dbits + s)) = int ((31 + (n * Dbits + s)) div Dbits)" by (simp add: DIGITS_def Let_def zdiv_int)
  also have "(31 + (n * Dbits + s)) div Dbits = n + (31 + s) div Dbits" by simp
  also have "(31 + s) div Dbits = s div Dbits + (if s mod Dbits = 0 then 0 else 1)"
  proof -
    have "(31 + s) div Dbits = s div Dbits + (31 + s mod Dbits) div Dbits"
      using div_mult_self2 [of Dbits "31 + s mod Dbits" "s div Dbits"] div_split(1) [of s] by (simp add: algebra_simps)
    moreover have "(31 + s mod Dbits) div Dbits = (if s mod Dbits = 0 then 0 else 1)" using div_split(2) [of s] by (simp add: div_nat_eqI)
    ultimately show ?thesis by simp
  qed
  finally show ?thesis by simp
qed

lemma left_body_result:
  assumes a: "mp_in h a b1 ds1" and r: "mp_out h r b ds" and s: "0 < s" "s < Dbits \<or> mp_top b1 * Dbits + s < 2 ^ 31"
  shows "result (left_body a s r h) h r b (mp_sign b * int (2 ^ s * mag b1 ds1))"
proof -
  let ?n = "mp_top b1" and ?xs = "take (mp_top b1) ds1"
  note sz = left_size_fits [OF s(2)]
  define d l where "d = s div Dbits" and "l = s mod Dbits"
  have sl: "s - d * Dbits = l" "s = Dbits * d + l" "l < Dbits" by (simp_all add: d_def l_def modulo_nat_def mult.commute)
  define D where "D = (if l = 0 then ?n else Suc ?n)"
  have nD: "nat (DIGITS (int (?n * Dbits + s))) = d + D" unfolding DIGITS_left d_def l_def D_def by simp
  obtain c es where c: "mpbits r (int (?n * Dbits + s)) h = Some (put_mp r c es h)" "mp_sized c es" "take (mp_top b) es = take (mp_top b) ds"
    "mp_top b \<le> length es" "d + D \<le> length es" "like b c" "mp_sign c = mp_sign b" by (rule room_bits [OF r nD])
  let ?m = "(mh_mem h)(r \<mapsto> es)"
  note sg = in_seg [OF a outD(4,5) [OF r] c(3,4)]
  have ro: "room ?m (r, 0) (d + D)" using c(5) by (simp add: room_whole)
  then have rd: "room ?m (dadd (r, 0) d) D" by (rule room_dadd)
  have "\<exists>zs. (if l = 0 then mpleft_digits ?m (a, 0) (dadd (r, 0) d) ?n else mpleft_bits l ?m (a, 0) (dadd (r, 0) d) ?n 0)
      = Some (put ?m (dadd (r, 0) d) zs) \<and> length zs = D \<and> digval zs = 2 ^ l * mag b1 ds1"
  proof (cases "l = 0")
    case True
    then show ?thesis using mpleft_digits_correct [OF sg] rd sg(2) by (intro exI [of _ ?xs]) (simp add: D_def mag_def)
  next
    case False
    then show ?thesis using mpleft_bits_correct [OF _ sl(3) sg, of "dadd (r, 0) d" 0] rd by (simp add: D_def mag_def)
  qed
  then obtain zs where z: "(if l = 0 then mpleft_digits ?m (a, 0) (dadd (r, 0) d) ?n else mpleft_bits l ?m (a, 0) (dadd (r, 0) d) ?n 0)
      = Some (put ?m (dadd (r, 0) d) zs)" "length zs = D" "digval zs = 2 ^ l * mag b1 ds1" by blast
  let ?zs = "replicate d 0 @ zs" and ?s = "mp_sign b"
  have "room (put ?m (dadd (r, 0) d) zs) (r, 0) d" using rd z(2) ro by (simp add: room_le)
  then have cl: "clear_digits (put ?m (dadd (r, 0) d) zs) (r, 0) d = Some (put ?m (r, 0) ?zs)"
    using clear_digits_correct put_back [of ?m "(r, 0)" "replicate d 0" zs] ro z(2) by simp
  have lz: "length ?zs = d + D" "length ?zs \<le> length es" using z(2) c(5) by simp_all
  have ss: "?s = 1 \<or> ?s = - 1" using outD(2) [OF r] by (simp add: mp_sized_def)
  note v = vec_put [OF c(2) lz(2) ss]
  have val: "digval ?zs = 2 ^ s * mag b1 ds1" using z(3) sl(2) by (simp add: digval_append power_add)
  have nt: "\<not> mp_timesafe c" "\<not> mp_timesafe b1" using c(6) outD(3) [OF r] inD(3) [OF a] by (simp_all add: like_def)
  have same: "c\<lparr>mp_top := k, mp_timesafe := mp_timesafe c \<or> mp_timesafe b1\<rparr> = c\<lparr>mp_top := k, mp_sign := ?s\<rparr>" for k using nt c(7) by (cases c) simp
  have "left_body a s r h = mpnorm r (put_mp r (c\<lparr>mp_top := length ?zs, mp_sign := ?s\<rparr>) (?zs @ drop (length ?zs) es) h)"
    unfolding left_body_def Let_def d_def [symmetric] sl(1) inD(4) [OF a] Option.bind.simps sz c(1) upd_mp_put in_mem_put nD z(1) option.map
    using cl v(1) [of h r] same [of "d + D"] lz(1) by (simp add: in_mem_def put_mp_mem del: append_assoc)
  moreover have "result (mpnorm r (put_mp r (c\<lparr>mp_top := length ?zs, mp_sign := ?s\<rparr>) (?zs @ drop (length ?zs) es) h)) h r b (?s * int (2 ^ s * mag b1 ds1))"
    by (rule mpnorm_result [OF v(2)]) (use v(3) val c(6) outD(3) [OF r] in simp_all)
  ultimately show ?thesis by simp
qed

lemma DIGITS_right:
  assumes "d = s div Dbits"
  shows "d < n \<Longrightarrow> nat (DIGITS (int (n * Dbits) - int s)) = n - d" and "n \<le> d \<Longrightarrow> DIGITS (int (n * Dbits) - int s) \<le> 0"
proof -
  obtain q where q: "s = Dbits * d + q" "q < Dbits" using div_split [of s] assms by metis
  show "nat (DIGITS (int (n * Dbits) - int s)) = n - d" if dn: "d < n"
  proof -
    obtain k where k: "n = d + Suc k" using dn less_imp_Suc_add [of d n] by auto
    have "DIGITS (int (n * Dbits) - int s) = int ((31 + Dbits * Suc k - q) div Dbits)"
      using q k by (simp add: DIGITS_def Let_def zdiv_int of_nat_diff algebra_simps)
    also have "(31 + Dbits * Suc k - q) div Dbits = Suc k"
      using q(2) div_mult_self2 [of Dbits "31 - q" "Suc k"] by (simp add: algebra_simps)
    finally show ?thesis using k by simp
  qed
  show "DIGITS (int (n * Dbits) - int s) \<le> 0" if "n \<le> d"
  proof -
    have "int Dbits - 1 + (int (n * Dbits) - int s) < int Dbits" using that q by simp
    then show ?thesis by (auto simp: DIGITS_def Let_def)
  qed
qed

lemma mpbits_none:
  assumes "mp_at h r b ds" "mp_sized b ds" "DIGITS k \<le> 0"
  shows "mpbits r k h = Some h"
  using assms by (simp add: mpbits_def mp_at_def Let_def)

lemma right_zero:
  assumes a: "mp_in h a b1 ds1" and r: "mp_out h r b ds" "mp_norm b" and d: "mp_top b1 \<le> s div Dbits" "\<not> (r = a \<and> s = 0)"
  shows "result (right_body a s r h) h r b (mp_sign b * int (mag b1 ds1 div 2 ^ s))"
proof -
  let ?b = "b\<lparr>mp_sign := 1, mp_top := 0\<rparr>"
  have "mpbits r (int (mp_top b1 * Dbits) - int s) h = Some h"
    by (rule mpbits_none [OF outD(1,2) [OF r(1)] DIGITS_right(2) [OF refl d(1)]])
  then have "right_body a s r h = upd_mp r (\<lambda>c. c\<lparr>mp_sign := 1, mp_top := 0\<rparr>) h"
    using inD(4) [OF a] d by (auto simp: right_body_def Let_def)
  then have "right_body a s r h = Some (put_mp r ?b ds h)" using upd_mp_at [OF outD(1) [OF r(1)]] by simp
  moreover have "mag b1 ds1 div 2 ^ s = 0"
  proof -
    have "mag b1 ds1 < 2 ^ (Dbits * mp_top b1)" by (rule mag_bound [OF inD(2) [OF a]])
    also have "\<dots> \<le> 2 ^ s" using d(1) div_split(1) [of s] by (intro power_increasing) (simp_all add: less_eq_div_iff_mult_less_eq mult.commute)
    finally show ?thesis by simp
  qed
  moreover have "mp_wf ?b ds" using outD(2) [OF r(1)] by (simp add: mp_wf_def mp_sized_def mag_def)
  ultimately show ?thesis using r(2) by (intro resultI [of _ r ?b ds]) (simp_all add: mag_def)
qed

lemma right_same:
  assumes a: "mp_in h a b1 ds1" and r: "mp_out h r b ds" "mp_norm b" "mp_wf b ds" and "r = a" "s = 0"
  shows "result (right_body a s r h) h r b (mp_sign b * int (mag b1 ds1 div 2 ^ s))"
proof -
  have "b1 = b" "ds1 = ds" using inD(1) [OF a] outD(1) [OF r(1)] assms(5) by (auto simp: mp_at_def)
  then show ?thesis using assms put_mp_same [OF inD(1) [OF a]] inD(4) [OF a]
    by (intro resultI [of _ r b ds]) (auto simp: right_body_def)
qed

lemma digval_drop: "k \<le> length xs \<Longrightarrow> digval (drop k xs) = digval xs div 2 ^ (Dbits * k)"
proof -
  assume k: "k \<le> length xs"
  then have "digval (take k xs) < 2 ^ (Dbits * k)" using digval_bound [of "take k xs"] by (simp add: min.absorb2)
  then show ?thesis using digval_split [of xs "length xs" k] k by (simp add: min.absorb1)
qed

lemma right_digits:
  assumes sg: "seg m (a, 0) xs" "length xs = n" and d: "s div Dbits < n" and ro: "room m (r, 0) (n - s div Dbits)"
  shows "\<exists>zs. (if s - s div Dbits * Dbits = 0 then mpright_digits m (dadd (a, 0) (s div Dbits)) (r, 0) (n - s div Dbits)
      else do {
        prev \<leftarrow> dld m (dadd (a, 0) (s div Dbits));
        mpright_bits (s - s div Dbits * Dbits) m (dadd (a, 0) (s div Dbits + 1)) (r, 0) (n - s div Dbits - 1) prev
      }) = Some (put m (r, 0) zs) \<and> length zs = n - s div Dbits \<and> digval zs = digval xs div 2 ^ s"
proof -
  define d q where "d = s div Dbits" and "q = s mod Dbits"
  have s: "s - d * Dbits = q" "s = Dbits * d + q" "q < Dbits" by (simp_all add: d_def q_def modulo_nat_def mult.commute)
  have dn: "d < n" using assms(3) by (simp add: d_def)
  obtain x ys where xs: "drop d xs = x # ys" "length ys = n - d - 1" using sg(2) dn by (cases "drop d xs") (auto dest: arg_cong [of _ _ length])
  have e: "digval (x # ys) = digval xs div 2 ^ (Dbits * d)" using digval_drop [of d xs] sg(2) dn xs(1) by simp
  then have v: "digval xs div 2 ^ s = digval (x # ys) div 2 ^ q" unfolding s(2) power_add by (simp add: div_mult2_eq)
  have "seg m (a, 0) (take d xs @ x # ys)" using sg(1) xs(1) by (metis append_take_drop_id)
  then have sx: "seg m (dadd (a, 0) d) (x # ys)" using sg(2) dn by (simp add: seg_append)
  have ah: "ahead (r, 0) p k" for p k by (simp add: ahead_def)
  show ?thesis unfolding d_def [symmetric] s(1)
  proof (cases "q = 0")
    case True
    then show "\<exists>zs. (if q = 0 then mpright_digits m (dadd (a, 0) d) (r, 0) (n - d)
      else do { prev \<leftarrow> dld m (dadd (a, 0) d); mpright_bits q m (dadd (a, 0) (d + 1)) (r, 0) (n - d - 1) prev }) = Some (put m (r, 0) zs)
      \<and> length zs = n - d \<and> digval zs = digval xs div 2 ^ s"
      using mpright_digits_correct [OF sx _ _ ah, of "n - d"] ro xs(2) dn v unfolding d_def [symmetric] by (intro exI [of _ "x # ys"]) simp
  next
    case False
    have "Suc (n - d - 1) = n - d" using dn by simp
    then have "room m (r, 0) (Suc (n - d - 1))" using ro by (simp only: d_def)
    then obtain zs where "mpright_bits q m (dadd (a, 0) (d + 1)) (r, 0) (n - d - 1) x = Some (put m (r, 0) zs)" "length zs = Suc (n - d - 1)"
      "digval zs = (unat x + 2 ^ Dbits * digval ys) div 2 ^ q"
      using mpright_bits_correct [OF _ s(3) _ xs(2) _ ah, of m "dadd (a, 0) (d + 1)"] False sx by auto
    then show "\<exists>zs. (if q = 0 then mpright_digits m (dadd (a, 0) d) (r, 0) (n - d)
      else do { prev \<leftarrow> dld m (dadd (a, 0) d); mpright_bits q m (dadd (a, 0) (d + 1)) (r, 0) (n - d - 1) prev }) = Some (put m (r, 0) zs)
      \<and> length zs = n - d \<and> digval zs = digval xs div 2 ^ s"
      using False sx dn v by (intro exI [of _ zs]) simp
  qed
qed

lemma right_body_result:
  assumes a: "mp_in h a b1 ds1" and r: "mp_out h r b ds" "mp_norm b" and w: "r = a \<Longrightarrow> mp_wf b ds"
  shows "result (right_body a s r h) h r b (mp_sign b * int (mag b1 ds1 div 2 ^ s))"
proof -
  consider "r = a" "s = 0" | "\<not> (r = a \<and> s = 0)" "mp_top b1 \<le> s div Dbits" | (shift) "\<not> (r = a \<and> s = 0)" "s div Dbits < mp_top b1" by linarith
  then show ?thesis
  proof cases
    case shift
    let ?n = "mp_top b1" and ?d = "s div Dbits" and ?s = "mp_sign b"
    have "\<exists>c es. (if r \<noteq> a then mpbits r (int (?n * Dbits) - int s) h else Some h) = Some (put_mp r c es h) \<and> mp_sized c es
      \<and> take (mp_top b) es = take (mp_top b) ds \<and> mp_top b \<le> length es \<and> ?n - ?d \<le> length es \<and> like b c \<and> mp_sign c = ?s"
    proof (cases "r = a")
      case True
      then have "b1 = b" "ds1 = ds" using inD(1) [OF a] outD(1) [OF r(1)] by (auto simp: mp_at_def)
      then show ?thesis using True put_mp_same [OF outD(1) [OF r(1)]] outD(2) [OF r(1)] by (intro exI [of _ b] exI [of _ ds]) (auto simp: mp_sized_def)
    next
      case False
      then show ?thesis using room_bits [OF r(1) DIGITS_right(1) [OF refl shift(2)]] by (simp only: if_True not_False_eq_True) blast
    qed
    then obtain c es where c: "(if r \<noteq> a then mpbits r (int (?n * Dbits) - int s) h else Some h) = Some (put_mp r c es h)" "mp_sized c es"
      "take (mp_top b) es = take (mp_top b) ds" "mp_top b \<le> length es" "?n - ?d \<le> length es" "like b c" "mp_sign c = ?s" by blast
    let ?m = "(mh_mem h)(r \<mapsto> es)"
    note sg = in_seg [OF a outD(4,5) [OF r(1)] c(3,4)]
    have "room ?m (r, 0) (?n - ?d)" using c(5) by (simp add: room_whole)
    from right_digits [OF sg shift(2) this] obtain zs where z: "(if s - ?d * Dbits = 0 then mpright_digits ?m (dadd (a, 0) ?d) (r, 0) (?n - ?d)
      else do { prev \<leftarrow> dld ?m (dadd (a, 0) ?d); mpright_bits (s - ?d * Dbits) ?m (dadd (a, 0) (?d + 1)) (r, 0) (?n - ?d - 1) prev }) = Some (put ?m (r, 0) zs)"
      "length zs = ?n - ?d" "digval zs = mag b1 ds1 div 2 ^ s" unfolding mag_def by blast
    have ss: "?s = 1 \<or> ?s = - 1" using outD(2) [OF r(1)] by (simp add: mp_sized_def)
    have lz: "length zs \<le> length es" using z(2) c(5) by simp
    note v = vec_put [OF c(2) lz ss]
    have nt: "\<not> mp_timesafe c" "\<not> mp_timesafe b1" using c(6) outD(3) [OF r(1)] inD(3) [OF a] by (simp_all add: like_def)
    have same: "c\<lparr>mp_top := k, mp_timesafe := mp_timesafe c \<or> mp_timesafe b1\<rparr> = c\<lparr>mp_top := k, mp_sign := ?s\<rparr>" for k using nt c(7) by (cases c) simp
    have im: "(if P then in_mem f h' else in_mem g h') = in_mem (\<lambda>m. if P then f m else g m) h'" for P f g and h' :: mpheap by simp
    have "right_body a s r h = mpnorm r (put_mp r (c\<lparr>mp_top := length zs, mp_sign := ?s\<rparr>) (zs @ drop (length zs) es) h)"
      unfolding right_body_def Let_def inD(4) [OF a] Option.bind.simps if_not_P [OF shift(1)] c(1) im in_mem_put
      using shift z(1,2) v(1) [of h r] same [of "?n - ?d"] by (simp add: put_mp_mem not_le)
    moreover have "result (mpnorm r (put_mp r (c\<lparr>mp_top := length zs, mp_sign := ?s\<rparr>) (zs @ drop (length zs) es) h)) h r b (?s * int (mag b1 ds1 div 2 ^ s))"
      by (rule mpnorm_result [OF v(2)]) (use v(3) z(3) c(6) outD(3) [OF r(1)] in simp_all)
    ultimately show ?thesis by simp
  qed (use right_same [OF a r w] right_zero [OF a r] in blast)+
qed


lemma result_start: "result res (put_mp r c es h) r (b\<lparr>mp_sign := s\<rparr>) v \<Longrightarrow> result res h r b v"
  unfolding result_def by simp

lemma shift_start_result:
  assumes a: "mp_in h a b1 ds1" and r: "mp_out h r b ds" "mp_norm b" and z: "mag b1 ds1 = 0 \<Longrightarrow> v = 0"
    and k: "\<And>h'. mp_in h' a b1 ds1 \<Longrightarrow> mp_out h' r (b\<lparr>mp_sign := mp_sign b1\<rparr>) ds \<Longrightarrow> result (k h') h' r (b\<lparr>mp_sign := mp_sign b1\<rparr>) v"
  shows "result (shift_start a r h k) h r b v"
proof -
  let ?b = "b\<lparr>mp_sign := mp_sign b1\<rparr>"
  define h1 where "h1 = put_mp r ?b ds h"
  have u: "upd_mp r (\<lambda>c. c\<lparr>mp_sign := mp_sign b1\<rparr>) h = Some h1" unfolding h1_def by (rule upd_mp_at [OF outD(1) [OF r(1)]])
  have sg: "mp_sign b1 = 1 \<or> mp_sign b1 = - 1" using inD(2) [OF a] by (simp add: mp_sized_def)
  show ?thesis
  proof (cases "mp_top b1 = 0")
    case True
    let ?c = "?b\<lparr>mp_top := 0\<rparr>"
    have m: "mag b1 ds1 = 0" using True by (simp add: mag_def)
    have "shift_start a r h k = Some (put_mp r ?c ds h)" using True inD(4) [OF a] u by (simp add: shift_start_def h1_def)
    moreover have "mp_wf ?c ds" using outD(2) [OF r(1)] inD(6) [OF a True] by (simp add: mp_wf_def mp_sized_def mag_def)
    ultimately show ?thesis using r(2) z [OF m] by (intro resultI [of _ r ?c ds]) (simp_all add: mag_def)
  next
    case False
    have p: "mp_out h1 r ?b ds" using r(1) sg by (auto simp: h1_def mp_out_def mp_sized_def)
    have "mp_in h1 a b1 ds1"
    proof (cases "a = r")
      case True
      then have "b1 = b" "ds1 = ds" using inD(1) [OF a] outD(1) [OF r(1)] by (auto simp: mp_at_def)
      then show ?thesis using True a by (simp add: h1_def mp_in_def)
    qed (use a in \<open>simp add: h1_def mp_in_def\<close>)
    from result_start [OF k [OF this p, unfolded h1_def]] show ?thesis
      using False inD(4) [OF a] u by (simp add: shift_start_def h1_def)
  qed
qed

text \<open>The number \<open>v\<close> shifted by \<open>s\<close> bits to the left, or to the right with its sign kept.\<close>

definition shifted :: "int \<Rightarrow> int \<Rightarrow> int" where
  "shifted v s = (if s > 0 then v * 2 ^ nat s else sgn v * (\<bar>v\<bar> div 2 ^ nat (- s)))"

lemma shifted_mag:
  assumes "mp_sized b ds"
  shows "0 < s \<Longrightarrow> shifted (mp_sign b * int (mag b ds)) (int s) = mp_sign b * int (2 ^ s * mag b ds)"
    and "shifted (mp_sign b * int (mag b ds)) (- int s) = mp_sign b * int (mag b ds div 2 ^ s)"
  using assms by (auto simp: shifted_def mp_sized_def zdiv_int algebra_simps sgn_if abs_if)


text \<open>The shifts that do not overflow an \<open>int\<close>.\<close>

definition shift_fits :: "nat \<Rightarrow> int \<Rightarrow> bool" where
  "shift_fits n s \<longleftrightarrow> - (2 ^ 31) < s \<and> (s < int Dbits \<or> int (n * Dbits) + s < 2 ^ 31)"

lemma shift_fitsD: "shift_fits n s \<Longrightarrow> 0 < s \<Longrightarrow> nat s < Dbits \<or> n * Dbits + nat s < 2 ^ 31"
  by (auto simp: shift_fits_def nat_less_iff)

lemma mpshift_result:
  assumes a: "mp_in h a b1 ds1" and r: "mp_out h r b ds" "mp_norm b" and w: "r = a \<Longrightarrow> mp_wf b ds"
  shows "shift_fits (mp_top b1) s \<Longrightarrow> result (mpleft a s r h) h r b (shifted (mp_sign b1 * int (mag b1 ds1)) s)"
    and "0 \<le> s \<or> - (2 ^ 31) < s \<and> shift_fits (mp_top b1) (- s) \<Longrightarrow> result (mpright a s r h) h r b (shifted (mp_sign b1 * int (mag b1 ds1)) (- s))"
proof -
  let ?b = "b\<lparr>mp_sign := mp_sign b1\<rparr>" and ?v = "mp_sign b1 * int (mag b1 ds1)"
  have z: "mag b1 ds1 = 0 \<Longrightarrow> shifted ?v t = 0" for t by (simp add: shifted_def)
  have n: "mp_norm ?b" "mp_sign ?b = mp_sign b1" using r(2) by simp_all
  have w': "mp_wf ?b ds" if "r = a"
  proof -
    have "b1 = b" using inD(4) [OF a] outD(4) [OF r(1)] that by simp
    then show ?thesis using w [OF that] by simp
  qed
  have l: "result (left_body a (nat t) r h') h' r ?b (shifted ?v t)" if "mp_in h' a b1 ds1" "mp_out h' r ?b ds" "t > 0" "shift_fits (mp_top b1) t" for h' t
    using left_body_result [OF that(1,2), of "nat t"] shifted_mag(1) [OF inD(2) [OF a], of "nat t"] that(3) shift_fitsD [OF that(4,3)] by simp
  have ri: "result (right_body a (nat t) r h') h' r ?b (shifted ?v (- t))" if "mp_in h' a b1 ds1" "mp_out h' r ?b ds" "t \<ge> 0" for h' t
    using right_body_result [OF that(1,2) n(1) w', of "nat t"] shifted_mag(2) [OF inD(2) [OF a], of "nat t"] that(3) by simp
  have twice: "?b\<lparr>mp_sign := mp_sign b1\<rparr> = ?b" by simp
  have l2: "result (shift_start a r h' (left_body a (nat t) r)) h' r ?b (shifted ?v t)" if "mp_in h' a b1 ds1" "mp_out h' r ?b ds" "t > 0" "shift_fits (mp_top b1) t" for h' t
    by (rule shift_start_result [OF that(1,2) n(1) z], assumption) (unfold twice, rule l [OF _ _ that(3,4)])
  have r2: "result (shift_start a r h' (right_body a (nat t) r)) h' r ?b (shifted ?v (- t))" if "mp_in h' a b1 ds1" "mp_out h' r ?b ds" "t \<ge> 0" for h' t
    by (rule shift_start_result [OF that(1,2) n(1) z], assumption) (unfold twice, rule ri [OF _ _ that(3)])
  show "result (mpleft a s r h) h r b (shifted ?v s)" if f: "shift_fits (mp_top b1) s"
  proof -
    have "- (2 ^ 31) < s" using f by (simp add: shift_fits_def)
    then show ?thesis unfolding mpleft_steps [OF \<open>- (2 ^ 31) < s\<close>] by (intro shift_start_result [OF a r z]) (use l [of _ s] r2 [of _ "- s"] f in auto)
  qed
  show "result (mpright a s r h) h r b (shifted ?v (- s))" if f: "0 \<le> s \<or> - (2 ^ 31) < s \<and> shift_fits (mp_top b1) (- s)"
  proof -
    have "- (2 ^ 31) < s" using f by auto
    then show ?thesis unfolding mpright_steps [OF \<open>- (2 ^ 31) < s\<close>] by (intro shift_start_result [OF a r z]) (use ri [of _ s] l2 [of _ "- s"] f in auto)
  qed
qed

text \<open>When the size overflows, the digits are written behind the end of the result.\<close>

lemma left_body_overflow:
  assumes a: "mp_in h a b1 ds1" "mp_top b1 \<noteq> 0" and r: "mp_out h r b ds" "mp_size b < 2 ^ 26" and s: "2 ^ 31 \<le> mp_top b1 * Dbits + s" "mp_top b1 < 2 ^ 26" "s < 2 ^ 31"
  shows "left_body a s r h = None"
proof -
  let ?n = "mp_top b1" and ?d = "s div Dbits"
  have "left_size ?n s < 0" by (rule left_size_wraps) (use s in simp_all)
  then have D: "DIGITS (left_size ?n s) \<le> 0" by (auto simp: DIGITS_def Let_def)
  have far: "dst (mh_mem h) (dadd (dadd (r, 0) ?d) i) x = None" if "2 ^ 26 \<le> ?d + i + 1" for i x
    using outD(2,5) [OF r(1)] r(2) that by (simp add: dst_def dadd_def mp_sized_def)
  obtain k where k: "?n = Suc k" using a(2) by (cases ?n) auto
  have dk: "2 ^ 26 \<le> ?d + k + 1" using s(1) k div_split [of s] by simp
  let ?b = "b\<lparr>mp_top := nat (DIGITS (left_size ?n s))\<rparr>"
  have "(if s - ?d * Dbits = 0 then mpleft_digits (mh_mem h) (mp_p a) (dadd (mp_p r) ?d) ?n else mpleft_bits (s - ?d * Dbits) (mh_mem h) (mp_p a) (dadd (mp_p r) ?d) ?n 0) = None"
    using far [OF dk] far [of "Suc k"] dk unfolding k by (simp add: bind_eq_None_conv)
  then show ?thesis using inD(4) [OF a(1)] outD(4) [OF r(1)] mpbits_none [OF outD(1,2) [OF r(1)] D]
    by (auto simp: left_body_def Let_def upd_mp_def in_mem_def split: if_splits)
qed

lemma mpshift_val:
  assumes "mp_val h a v" "mp_val h r w" "mp_var h r" "mh_ints h a = Some b"
  shows "shift_fits (mp_top b) s \<Longrightarrow> becomes (mpleft a s r h) r (shifted v s) h"
    and "0 \<le> s \<or> - (2 ^ 31) < s \<and> shift_fits (mp_top b) (- s) \<Longrightarrow> becomes (mpright a s r h) r (shifted v (- s)) h"
proof -
  obtain b1 ds1 c ds c' ds' where p: "mp_plain h a b1 ds1" "v = mp_sign b1 * int (mag b1 ds1)" "mp_plain h r c' ds'" "mp_out h r c ds"
    using assms(1-3) unfolding mp_val_def mp_var_def by metis
  have b: "b = b1" using plainD(6) [OF p(1)] assms(4) by simp
  have "c' = c" "ds' = ds" using plainD(6,7) [OF p(3)] outD(4,5) [OF p(4)] by simp_all
  then have n: "mp_norm c" "mp_wf c ds" using plainD(2,5) [OF p(3)] by simp_all
  note s = mpshift_result [OF plain_in [OF p(1)] p(4) n]
  show "becomes (mpleft a s r h) r (shifted v s) h" if "shift_fits (mp_top b) s" using result_val0 [OF s(1) p(4)] that unfolding b p(2) by blast
  show "becomes (mpright a s r h) r (shifted v (- s)) h" if "0 \<le> s \<or> - (2 ^ 31) < s \<and> shift_fits (mp_top b) (- s)" using result_val0 [OF s(2) p(4)] that unfolding b p(2) by blast
qed

text \<open>Exactly which shifts of a number work.\<close>

lemma shift_start_None:
  assumes "mp_in h a b1 ds1" "mp_top b1 \<noteq> 0" "mp_out h r b ds"
    and "\<And>h'. mp_in h' a b1 ds1 \<Longrightarrow> mp_out h' r (b\<lparr>mp_sign := mp_sign b1\<rparr>) ds \<Longrightarrow> k h' = None"
  shows "shift_start a r h k = None"
proof -
  let ?b = "b\<lparr>mp_sign := mp_sign b1\<rparr>"
  have u: "upd_mp r (\<lambda>c. c\<lparr>mp_sign := mp_sign b1\<rparr>) h = Some (put_mp r ?b ds h)" by (rule upd_mp_at [OF outD(1) [OF assms(3)]])
  have sg: "mp_sign b1 = 1 \<or> mp_sign b1 = - 1" using inD(2) [OF assms(1)] by (simp add: mp_sized_def)
  have o: "mp_out (put_mp r ?b ds h) r ?b ds" using assms(3) sg by (auto simp: mp_out_def mp_sized_def)
  have "mp_in (put_mp r ?b ds h) a b1 ds1"
  proof (cases "a = r")
    case True
    then have "b1 = b" "ds1 = ds" using inD(1) [OF assms(1)] outD(1) [OF assms(3)] by (auto simp: mp_at_def)
    then show ?thesis using True assms(1) by (simp add: mp_in_def)
  qed (use assms(1) in \<open>simp add: mp_in_def\<close>)
  then show ?thesis using assms(2,4) o inD(4) [OF assms(1)] u by (simp add: shift_start_def)
qed

lemma mpshift_fails:
  assumes a: "mp_in h a b1 ds1" "mp_top b1 \<noteq> 0" "mp_top b1 < 2 ^ 26" and r: "mp_out h r b ds" "mp_size b < 2 ^ 26"
  shows "s < 2 ^ 31 \<Longrightarrow> 2 ^ 31 \<le> int (mp_top b1 * Dbits) + s \<Longrightarrow> mpleft a s r h = None"
    and "- (2 ^ 31) < s \<Longrightarrow> 2 ^ 31 \<le> int (mp_top b1 * Dbits) - s \<Longrightarrow> mpright a s r h = None"
proof -
  have n: "int (mp_top b1 * Dbits) < 2 ^ 31" using a(3) by simp
  have ov: "left_body a (nat t) r h' = None" if "mp_in h' a b1 ds1" "mp_out h' r (b\<lparr>mp_sign := mp_sign b1\<rparr>) ds" "t < 2 ^ 31" "2 ^ 31 \<le> int (mp_top b1 * Dbits) + t" for h' t
    by (rule left_body_overflow [OF that(1) a(2) that(2)]) (use r(2) a(3) that(3,4) in simp_all)
  show "mpleft a s r h = None" if s: "s < 2 ^ 31" "2 ^ 31 \<le> int (mp_top b1 * Dbits) + s"
  proof -
    have "0 < s" using s n by linarith
    then show ?thesis unfolding mpleft_steps [OF less_trans [OF _ \<open>0 < s\<close>], of a r h, simplified]
      by (intro shift_start_None [OF a(1,2) r(1)]) (use ov [OF _ _ s] in simp)
  qed
  show "mpright a s r h = None" if s: "- (2 ^ 31) < s" "2 ^ 31 \<le> int (mp_top b1 * Dbits) - s"
  proof -
    have neg: "s < 0" using s(2) n by linarith
    have b: "b\<lparr>mp_sign := mp_sign b1, mp_sign := mp_sign b1\<rparr> = b\<lparr>mp_sign := mp_sign b1\<rparr>" by simp
    have "shift_start a r h' (left_body a (nat (- s)) r) = None" if "mp_in h' a b1 ds1" "mp_out h' r (b\<lparr>mp_sign := mp_sign b1\<rparr>) ds" for h'
      by (rule shift_start_None [OF that(1) a(2) that(2)], rule ov) (use s in \<open>simp_all add: b\<close>)
    then show ?thesis unfolding mpright_steps [OF s(1)] using neg by (intro shift_start_None [OF a(1,2) r(1)]) simp
  qed
qed

lemma mpshift_exact:
  assumes v: "mp_val h a v" "mp_val h r w" "mp_var h r" and b: "mh_ints h a = Some b" "mp_top b < 2 ^ 26" and c: "mh_ints h r = Some c" "mp_size c < 2 ^ 26"
    and s: "- (2 ^ 31) \<le> s" "s < 2 ^ 31"
  shows "if v = 0 \<or> s \<noteq> - (2 ^ 31) \<and> int (mp_top b * Dbits) + s < 2 ^ 31 then becomes (mpleft a s r h) r (shifted v s) h else mpleft a s r h = None"
    and "if v = 0 \<or> s \<noteq> - (2 ^ 31) \<and> int (mp_top b * Dbits) - s < 2 ^ 31 then becomes (mpright a s r h) r (shifted v (- s)) h else mpright a s r h = None"
proof -
  obtain b1 ds1 c1 ds where p: "mp_plain h a b1 ds1" "v = mp_sign b1 * int (mag b1 ds1)" "mp_out h r c1 ds" using v unfolding mp_val_def mp_var_def by metis
  have e: "b1 = b" "c1 = c" using plainD(6) [OF p(1)] outD(4) [OF p(3)] b c by simp_all
  have "mag b ds1 = 0 \<longleftrightarrow> mp_top b = 0" using norm_zero [OF plainD(2,5) [OF p(1)]] e(1) by simp
  then have v0: "v = 0 \<longleftrightarrow> mp_top b = 0" using plainD(3) [OF p(1)] e(1) p(2) by (auto simp: mp_sized_def)
  note least = mpshift_least [OF b(1)] and ok = mpshift_val [OF v b(1)] and fail = mpshift_fails [OF plain_in [OF p(1)] _ _ p(3), unfolded e, OF _ b(2) c(2)]
  have z: "mpleft a s r h = mpleft a 0 r h" "mpright a s r h = mpright a 0 r h" if "v = 0"
    using that v0 b(1) by (simp_all add: mpleft_def mpright_def mpshift_steps shift_start_def)
  have f0: "shift_fits n 0" "shifted 0 t = 0" for n t by (simp_all add: shift_fits_def shifted_def)
  show "if v = 0 \<or> s \<noteq> - (2 ^ 31) \<and> int (mp_top b * Dbits) + s < 2 ^ 31 then becomes (mpleft a s r h) r (shifted v s) h else mpleft a s r h = None"
  proof (cases "v = 0")
    case True
    then show ?thesis using z(1) ok(1) [OF f0(1)] by (simp add: f0(2))
  next
    case False
    have "becomes (mpleft a s r h) r (shifted v s) h" if "s \<noteq> - (2 ^ 31)" "int (mp_top b * Dbits) + s < 2 ^ 31"
      using ok(1) [of s] that s(1) by (simp add: shift_fits_def)
    moreover have "mpleft a s r h = None" if "s = - (2 ^ 31)" using least [of True r] False v0 that unfolding mpleft_def by simp
    moreover have "mpleft a s r h = None" if "2 ^ 31 \<le> int (mp_top b * Dbits) + s" using fail(1) [of s] False v0 s(2) that by simp
    ultimately show ?thesis using False by (cases "s = - (2 ^ 31)") (auto simp: not_less)
  qed
  show "if v = 0 \<or> s \<noteq> - (2 ^ 31) \<and> int (mp_top b * Dbits) - s < 2 ^ 31 then becomes (mpright a s r h) r (shifted v (- s)) h else mpright a s r h = None"
  proof (cases "v = 0")
    case True
    then show ?thesis using z(2) ok(2) [of 0] by (simp add: f0(2))
  next
    case False
    have "becomes (mpright a s r h) r (shifted v (- s)) h" if "s \<noteq> - (2 ^ 31)" "int (mp_top b * Dbits) - s < 2 ^ 31"
      using ok(2) [of s] that s by (simp add: shift_fits_def)
    moreover have "mpright a s r h = None" if "s = - (2 ^ 31)" using least [of False r] False v0 that unfolding mpright_def by simp
    moreover have "mpright a s r h = None" if "s \<noteq> - (2 ^ 31)" "2 ^ 31 \<le> int (mp_top b * Dbits) - s" using fail(2) [of s] False v0 s(1) that by simp
    ultimately show ?thesis using False by (cases "s = - (2 ^ 31)") (auto simp: not_less)
  qed
qed

end
