(* ===== verification/MpDiv.thy ===== *)
theory MpDiv
  imports MpShift
begin

text \<open>
  Division, \<^verbatim>\<open>libmp/port/mpdiv.c\<close> and \<^verbatim>\<open>libmp/port/mpmod.c\<close>, with \<open>vtomp\<close> of \<^verbatim>\<open>libmp/port/mptov.c\<close> for a number that is given.  A pointer that may be nil is an option.
\<close>

section \<open>The functions\<close>

fun vtomp_loop :: "dmem \<Rightarrow> dptr \<Rightarrow> u64 \<Rightarrow> nat \<Rightarrow> dmem option" where
  "vtomp_loop m p uv 0 = Some m"
| "vtomp_loop m p uv (Suc n) = do {
     m \<leftarrow> dst m p (ucast uv);
     vtomp_loop m (dadd p 1) (drop_bit Dbits uv) n
   }"

abbreviation (input) VLDIGITS :: nat where "VLDIGITS \<equiv> 2"

definition vtomp :: "u64 \<Rightarrow> nat \<Rightarrow> mpheap \<Rightarrow> mpheap option" where
  "vtomp v a h = do {
     h \<leftarrow> mpbits a (int VLDIGITS * 4) h;
     let sign = (if sint v < 0 then - 1 else 1);
     h \<leftarrow> upd_mp a (\<lambda>b. b\<lparr>mp_sign := sign\<rparr>) h;
     let uv = v * of_int sign;
     h \<leftarrow> in_mem (\<lambda>m. vtomp_loop m (mp_p a) uv VLDIGITS) h;
     h \<leftarrow> upd_mp a (\<lambda>b. b\<lparr>mp_top := VLDIGITS\<rparr>) h;
     mpnorm a h
   }"

definition mpdighi :: mpdigit where "mpdighi = push_bit (Dbits - 1) 1"

text \<open>The two loops that count zero bits, in at most \<open>n\<close> rounds: with no bit set they do not end.\<close>

fun low_zeros :: "mpdigit \<Rightarrow> nat \<Rightarrow> nat \<Rightarrow> nat option" where
  "low_zeros d s 0 = None"
| "low_zeros d s (Suc n) = (if drop_bit s d AND 1 = 0 then low_zeros d (s + 1) n else Some s)"

fun high_zeros :: "mpdigit \<Rightarrow> nat \<Rightarrow> nat \<Rightarrow> nat option" where
  "high_zeros qd s 0 = None"
| "high_zeros qd s (Suc n) = (if qd AND mpdighi = 0 then high_zeros (push_bit 1 qd) (s + 1) n else Some s)"

text \<open>D3a: \<open>v2\<close> is \<open>vp-1\<close> and \<open>u3\<close> is \<open>up-2\<close>.\<close>

partial_function (option) div_trial :: "dmem \<Rightarrow> dptr \<Rightarrow> dptr \<Rightarrow> dptr \<Rightarrow> mpdigit \<Rightarrow> (mpdigit \<times> dmem) option" where
  "div_trial m v2 t u3 qd = do {
     m \<leftarrow> store_digits m t (replicate 3 0);
     m \<leftarrow> mpvecdigmuladd m v2 2 qd t;
     c \<leftarrow> mpveccmp m t 3 u3 3;
     if c > 0 then div_trial m v2 t u3 (qd - 1) else Some (qd, m)
   }"

declare div_trial.simps [code]

text \<open>D3 to D6, for \<open>j = vn + k + 1\<close>: \<open>up\<close> is the digit \<open>j - 1\<close> of \<open>u\<close>.\<close>

definition div_digit :: "dmem \<Rightarrow> nat \<Rightarrow> nat \<Rightarrow> nat \<Rightarrow> nat \<Rightarrow> nat \<Rightarrow> (mpdigit \<times> dmem) option" where
  "div_digit m u v vn t k = do {
     let up = vn + k;
     hi \<leftarrow> dld m (u, up);
     lo \<leftarrow> dld m (u, up - 1);
     vp \<leftarrow> dld m (v, vn - 1);
     let qd = mpdigdiv lo hi vp;
     (qd, m) \<leftarrow> (if vn > 1 then div_trial m (v, vn - 2) (mp_p t) (u, up - 2) qd else Some (qd, m));
     (sign, m) \<leftarrow> mpvecdigmulsub m (mp_p v) vn qd (u, up - vn);
     if sign < 0 then do {
       m \<leftarrow> mpvecadd m (u, up - vn) (vn + 1) (mp_p v) vn (u, up - vn);
       Some (qd - 1, m)
     } else Some (qd, m)
   }"

text \<open>D2 and D7, for \<open>j = vn + k, ..., vn + 1\<close>: \<open>qp\<close> is the digit \<open>j - vn - 1\<close> of the quotient.\<close>

fun div_loop :: "dmem \<Rightarrow> nat \<Rightarrow> nat \<Rightarrow> nat \<Rightarrow> nat \<Rightarrow> nat option \<Rightarrow> nat \<Rightarrow> dmem option" where
  "div_loop m u v vn t q 0 = Some m"
| "div_loop m u v vn t q (Suc k) = do {
     (qd, m) \<leftarrow> div_digit m u v vn t k;
     m \<leftarrow> (case q of None \<Rightarrow> Some m | Some qp \<Rightarrow> dst m (qp, k) qd);
     m \<leftarrow> dst m (u, vn + k) 0;
     div_loop m u v vn t q k
   }"

text \<open>Division by a power of 2 that is one digit.\<close>

definition div_power2 :: "nat \<Rightarrow> nat \<Rightarrow> nat option \<Rightarrow> nat option \<Rightarrow> mpheap \<Rightarrow> mpheap option" where
  "div_power2 dividend divisor quot rest h = do {
     b1 \<leftarrow> mh_ints h dividend;
     d \<leftarrow> dld (mh_mem h) (mp_p dividend);
     p \<leftarrow> dld (mh_mem h) (mp_p divisor);
     let r = (of_int (mp_sign b1) :: u64) * ucast (d AND (p - 1));
     h \<leftarrow> (case quot of None \<Rightarrow> Some h | Some q \<Rightarrow> do {
         s \<leftarrow> low_zeros p 0 Dbits;
         mpright dividend (int s) q h
       });
     (case rest of None \<Rightarrow> Some h | Some re \<Rightarrow> do {
         b1 \<leftarrow> mh_ints h dividend;
         h \<leftarrow> upd_mp re (\<lambda>b. b\<lparr>mp_timesafe := mp_timesafe b \<or> mp_timesafe b1\<rparr>) h;
         vtomp r re h
       })
   }"

text \<open>D1: \<open>u\<close> and \<open>v\<close>.\<close>

definition div_operands :: "nat \<Rightarrow> nat \<Rightarrow> nat option \<Rightarrow> nat option \<Rightarrow> nat \<Rightarrow> mpheap \<Rightarrow> (nat \<times> nat \<times> mpheap) option" where
  "div_operands dividend divisor quot rest s h = do {
     b1 \<leftarrow> mh_ints h dividend;
     b2 \<leftarrow> mh_ints h divisor;
     (u, h) \<leftarrow> mpnew (int ((mp_top b1 + 2) * Dbits + s)) h;
     if s = 0 \<and> Some divisor \<noteq> quot \<and> Some divisor \<noteq> rest then do {
       h \<leftarrow> mpassign dividend u h;
       Some (u, divisor, h)
     } else do {
       h \<leftarrow> mpleft dividend (int s) u h;
       (v, h) \<leftarrow> mpnew (int (mp_top b2 * Dbits)) h;
       h \<leftarrow> mpleft divisor (int s) v h;
       Some (u, v, h)
     }
   }"

text \<open>D1a.\<close>

definition div_top :: "nat \<Rightarrow> nat \<Rightarrow> mpheap \<Rightarrow> mpheap option" where
  "div_top u v h = do {
     bu \<leftarrow> mh_ints h u;
     bv \<leftarrow> mh_ints h v;
     up \<leftarrow> dld (mh_mem h) (u, mp_top bu - 1);
     vp \<leftarrow> dld (mh_mem h) (v, mp_top bv - 1);
     if up \<ge> vp then do {
       h \<leftarrow> in_mem (\<lambda>m. dst m (u, mp_top bu) 0) h;
       upd_mp u (\<lambda>b. b\<lparr>mp_top := mp_top b + 1\<rparr>) h
     } else Some h
   }"

text \<open>The end of \<open>mpdiv\<close>.\<close>

definition div_results :: "nat \<Rightarrow> nat \<Rightarrow> nat option \<Rightarrow> nat option \<Rightarrow> nat \<Rightarrow> nat \<Rightarrow> mpheap \<Rightarrow> mpheap option" where
  "div_results dividend divisor quot rest s u h = do {
     h \<leftarrow> (case quot of None \<Rightarrow> Some h | Some q \<Rightarrow> do {
         b \<leftarrow> mh_ints h q;
         if mp_timesafe b then None
         else do {
           h \<leftarrow> mpnorm q h;
           b1 \<leftarrow> mh_ints h dividend;
           b2 \<leftarrow> mh_ints h divisor;
           if mp_sign b1 \<noteq> mp_sign b2 then upd_mp q (\<lambda>b. b\<lparr>mp_sign := - 1\<rparr>) h else Some h
         }
       });
     (case rest of None \<Rightarrow> Some h | Some re \<Rightarrow> do {
         b \<leftarrow> mh_ints h re;
         if mp_timesafe b then None
         else do {
           h \<leftarrow> mpright u (int s) re h;
           b1 \<leftarrow> mh_ints h dividend;
           upd_mp re (\<lambda>b. b\<lparr>mp_sign := mp_sign b1\<rparr>) h
         }
       })
   }"

text \<open>D1a to D7: \<open>t\<close> and the heap.\<close>

definition div_digits :: "nat \<Rightarrow> nat \<Rightarrow> nat option \<Rightarrow> mpheap \<Rightarrow> (nat \<times> mpheap) option" where
  "div_digits u v quot h = do {
     h \<leftarrow> div_top u v h;
     (t, h) \<leftarrow> mpnew (4 * int Dbits) h;
     bu \<leftarrow> mh_ints h u;
     bv \<leftarrow> mh_ints h v;
     let vn = mp_top bv;
     h \<leftarrow> (case quot of None \<Rightarrow> Some h | Some q \<Rightarrow> do {
         h \<leftarrow> mpbits q ((int (mp_top bu) - int vn) * int Dbits) h;
         upd_mp q (\<lambda>b. b\<lparr>mp_top := mp_top bu - vn\<rparr>) h
       });
     h \<leftarrow> in_mem (\<lambda>m. div_loop m u v vn t quot (mp_top bu - vn)) h;
     h \<leftarrow> upd_mp u (\<lambda>b. b\<lparr>mp_top := mp_top b - (mp_top bu - vn)\<rparr>) h;
     Some (t, h)
   }"

definition div_long :: "nat \<Rightarrow> nat \<Rightarrow> nat option \<Rightarrow> nat option \<Rightarrow> mpheap \<Rightarrow> mpheap option" where
  "div_long dividend divisor quot rest h = do {
     b2 \<leftarrow> mh_ints h divisor;
     qd \<leftarrow> dld (mh_mem h) (divisor, mp_top b2 - 1);
     s \<leftarrow> high_zeros qd 0 Dbits;
     (u, v, h) \<leftarrow> div_operands dividend divisor quot rest s h;
     (t, h) \<leftarrow> div_digits u v quot h;
     h \<leftarrow> div_results dividend divisor quot rest s u h;
     h \<leftarrow> mpfree t h;
     h \<leftarrow> mpfree u h;
     if v \<noteq> divisor then mpfree v h else Some h
   }"

definition mpdiv :: "nat \<Rightarrow> nat \<Rightarrow> nat option \<Rightarrow> nat option \<Rightarrow> mpheap \<Rightarrow> mpheap option" where
  "mpdiv dividend divisor quot rest h = (if quot = rest then None else do {
     b1 \<leftarrow> mh_ints h dividend;
     b2 \<leftarrow> mh_ints h divisor;
     if \<not> mp_norm b2 \<or> mp_top b2 = 0 then None
     else do {
       p \<leftarrow> dld (mh_mem h) (mp_p divisor);
       if mp_top b2 = 1 \<and> p AND (p - 1) = 0 then div_power2 dividend divisor quot rest h
       else if mp_timesafe b1 then None
       else do {
         c \<leftarrow> mpmagcmp dividend divisor h;
         if c < 0 then do {
           h \<leftarrow> (case rest of None \<Rightarrow> Some h | Some r \<Rightarrow> mpassign dividend r h);
           (case quot of None \<Rightarrow> Some h | Some q \<Rightarrow> mpassign mpzero q h)
         } else div_long dividend divisor quot rest h
       }
     }
   })"

text \<open>\<open>reduce\<close> is the function of a field modulus; it is not called for other numbers.\<close>

definition mpmod :: "(nat \<Rightarrow> nat \<Rightarrow> nat \<Rightarrow> mpheap \<Rightarrow> (int \<times> mpheap) option) \<Rightarrow> nat \<Rightarrow> nat \<Rightarrow> nat \<Rightarrow> mpheap \<Rightarrow> mpheap option" where
  "mpmod reduce x n r h = do {
     bx \<leftarrow> mh_ints h x;
     let sign = mp_sign bx;
     (ns, h) \<leftarrow> (if sign < 0 \<and> n = r then mpcopy n h else Some (n, h));
     bn \<leftarrow> mh_ints h n;
     (again, h) \<leftarrow> (if \<not> mp_field bn then Some (True, h) else map_option (\<lambda>(c, h). (c \<noteq> 0, h)) (reduce n x r h));
     h \<leftarrow> (if again then mpdiv x n None (Some r) h else Some h);
     if sign < 0 then do {
       h \<leftarrow> mpmagsub ns r r h;
       if ns \<noteq> n then mpfree ns h else Some h
     } else Some h
   }"

section \<open>What the loops leave alone\<close>

definition alters :: "nat set \<Rightarrow> dmem \<Rightarrow> dmem \<Rightarrow> bool" where
  "alters S m m' \<longleftrightarrow> (\<forall>x. map_option length (m' x) = map_option length (m x)) \<and> (\<forall>x. x \<notin> S \<longrightarrow> m' x = m x)"

lemma alters_refl [simp]: "alters S m m"
  by (simp add: alters_def)

lemma alters_trans: "alters S m m' \<Longrightarrow> alters S m' m'' \<Longrightarrow> alters S m m''"
  by (simp add: alters_def)

lemma alters_put: "room m p (length ds) \<Longrightarrow> fst p \<in> S \<Longrightarrow> alters S m (put m p ds)"
  by (auto simp: alters_def put_def room_def)

lemma alters_room: "alters S m m' \<Longrightarrow> room m' p n = room m p n"
proof -
  assume "alters S m m'"
  then have "map_option length (m' (fst p)) = map_option length (m (fst p))" by (simp add: alters_def)
  then show ?thesis by (cases "m' (fst p)"; cases "m (fst p)") (auto simp: room_def)
qed

lemma alters_seg: "alters S m m' \<Longrightarrow> fst p \<notin> S \<Longrightarrow> seg m' p ds = seg m p ds"
  by (simp add: alters_def seg_def)

section \<open>One round\<close>

lemma muladd_zero:
  assumes "seg m b bs" "length bs = n" and "room m t (Suc n)" and "away t (Suc n) b n"
  shows "\<exists>zs. do { m \<leftarrow> store_digits m t (replicate (Suc n) 0); mpvecdigmuladd m b n d t } = Some (put m t zs) \<and> length zs = Suc n
    \<and> digval zs = unat d * digval bs"
proof -
  let ?z = "replicate (Suc n) (0 :: mpdigit)"
  have r: "room m t (length ?z)" using assms(3) by simp
  have s: "seg (put m t ?z) b bs" using seg_away [OF _ r, of b bs] assms(1,2,4) by simp
  have sz: "seg (put m t ?z) t (replicate n 0)" using seg_put [OF r] seg_take [of "put m t ?z" t ?z n] by (simp del: replicate_Suc)
  obtain zs where zs: "mpvecdigmuladd (put m t ?z) b n d t = Some (put (put m t ?z) t zs)" "length zs = Suc n" "digval zs = 0 + unat d * digval bs"
    using mpvecdigmuladd_correct [OF s assms(2) sz length_replicate _ away_ahead [OF assms(4)], of d] assms(3) r by (auto simp del: replicate_Suc)
  then show ?thesis using store_digits_put [OF r] put_over [OF r, of zs] by (intro exI [of _ zs]) simp
qed

lemma div_trial_correct:
  assumes v: "seg m v2 vs" "length vs = 2" "0 < digval vs" and u: "seg m u3 us" "length us = 3" and t: "room m t 3" "away t 3 v2 2" "away t 3 u3 3"
  shows "\<exists>qd' m'. div_trial m v2 t u3 qd = Some (qd', m') \<and> alters {fst t} m m' \<and> seg m' u3 us \<and> (\<forall>p ds. away t 3 p (length ds) \<longrightarrow> seg m' p ds = seg m p ds)
    \<and> unat qd' = min (unat qd) (digval us div digval vs)"
  using v(1) u(1) t(1)
proof (induction "unat qd" arbitrary: qd m rule: less_induct)
  case less
  obtain zs where z: "do { m \<leftarrow> store_digits m t (replicate 3 0); mpvecdigmuladd m v2 2 qd t } = Some (put m t zs)" "length zs = 3"
    "digval zs = unat qd * digval vs"
    using muladd_zero [OF less.prems(1) v(2), of t qd] less.prems(3) t(2) by (auto simp: eval_nat_numeral)
  let ?m = "put m t zs"
  have r: "room m t (length zs)" using less.prems(3) z(2) by simp
  have aw: "seg ?m p ds = seg m p ds" if "away t 3 p (length ds)" for p ds using seg_away [OF _ r, of p ds] that z(2) by simp
  have s: "seg ?m v2 vs" "seg ?m u3 us" "seg ?m t zs" using aw [of v2 vs] aw [of u3 us] less.prems v(2) u(2) t seg_put [OF r] by simp_all
  have al: "alters {fst t} m ?m" by (rule alters_put [OF r]) simp
  note c = mpveccmp_correct [OF s(3) z(2) s(2) u(2)]
  have step: "div_trial m v2 t u3 qd = (if digval us < digval zs then div_trial ?m v2 t u3 (qd - 1) else Some (qd, ?m))"
  proof -
    obtain m1 where m1: "store_digits m t (replicate 3 0) = Some m1" "mpvecdigmuladd m1 v2 2 qd t = Some ?m"
      using z(1) by (auto simp: bind_Some_iff)
    show ?thesis by (subst div_trial.simps) (use m1 c in \<open>auto simp: sign_of_def\<close>)
  qed
  show ?case
  proof (cases "digval us < digval zs")
    case True
    then have q0: "qd \<noteq> 0" using z(3) by auto
    then have q1: "unat (qd - 1) = unat qd - 1" "0 < unat qd" by (simp_all add: unat_minus_one unat_gt_0)
    have gt: "digval us div digval vs < unat qd" using True z(3) v(3) by (simp add: div_less_iff_less_mult)
    obtain qd' m' where q: "div_trial ?m v2 t u3 (qd - 1) = Some (qd', m')" "alters {fst t} ?m m'" "seg m' u3 us"
      "\<forall>p ds. away t 3 p (length ds) \<longrightarrow> seg m' p ds = seg ?m p ds" "unat qd' = min (unat (qd - 1)) (digval us div digval vs)"
      using less.hyps [of "qd - 1" ?m] s q1 less.prems(3) r by auto
    then show ?thesis using True step al aw alters_trans gt q1 by (intro exI [of _ qd'] exI [of _ m']) auto
  next
    case False
    then have "unat qd \<le> digval us div digval vs" using z(3) v(3) by (simp add: less_eq_div_iff_mult_less_eq)
    then show ?thesis using False step al s(2) aw by (intro exI [of _ qd] exI [of _ ?m]) simp
  qed
qed

text \<open>The trial digit is the digit of the quotient or one more.\<close>

lemma trial_lower:
  fixes Q V W P vh vl wh wl :: nat
  assumes "Q * V \<le> W" "V = vh * P + vl" "W = wh * P + wl" "wl < P" "0 < vh"
  shows "Q \<le> wh div vh"
proof -
  have "Q * vh * P \<le> Q * V" unfolding assms(2) by (simp add: algebra_simps)
  also have "\<dots> \<le> W" by (rule assms(1))
  also have "\<dots> < (wh + 1) * P" unfolding assms(3) using assms(4) by simp
  finally have "Q * vh < wh + 1" unfolding mult_less_cancel2 by blast
  then show ?thesis using assms(5) by (simp add: less_eq_div_iff_mult_less_eq)
qed

lemma trial_upper:
  fixes Q V W P B vh vl wh wl q :: nat
  assumes "q * vh \<le> wh" "V = vh * P + vl" "W = wh * P + wl" "vl < P" "q < B" "B * P \<le> V" "0 < P"
  shows "q \<le> W div V + 1"
proof (rule ccontr)
  have V: "0 < V" using assms(5-7) by (metis less_nat_zero_code mult_is_0 neq0_conv le_zero_eq)
  assume "\<not> q \<le> W div V + 1"
  then have "W div V + 2 \<le> q" by simp
  then have "(W div V + 2) * V \<le> q * V" by (rule mult_le_mono1)
  then have "W div V * V + V + V \<le> q * V" by (simp add: algebra_simps)
  moreover have "W < W div V * V + V" using V dividend_less_div_times [of V W] by (simp add: algebra_simps)
  moreover have "q * V \<le> wh * P + q * vl" unfolding assms(2) using mult_le_mono1 [OF assms(1), of P] by (simp add: algebra_simps)
  moreover have "q * vl \<le> B * P" using assms(4,5) by (intro mult_mono) simp_all
  ultimately show False using assms(3,6) by linarith
qed

lemma top_parts:
  assumes "length xs = Suc n"
  shows "digval xs = unat (xs ! n) * 2 ^ (Dbits * n) + digval (take n xs)" "digval (take n xs) < 2 ^ (Dbits * n)"
proof -
  have "xs = take n xs @ [xs ! n]" using assms by (metis lessI take_Suc_conv_app_nth take_all order_refl)
  then have "digval xs = digval (take n xs) + 2 ^ (Dbits * n) * unat (xs ! n)" using digval_append [of "take n xs" "[xs ! n]"] assms by simp
  then show "digval xs = unat (xs ! n) * 2 ^ (Dbits * n) + digval (take n xs)" by (simp add: algebra_simps)
  show "digval (take n xs) < 2 ^ (Dbits * n)" using digval_bound [of "take n xs"] assms by (simp add: min_def)
qed

lemma drop_parts:
  assumes "n \<le> length xs"
  shows "digval xs = digval (drop n xs) * 2 ^ (Dbits * n) + digval (take n xs)" "digval (take n xs) < 2 ^ (Dbits * n)"
  using digval_split [of xs "length xs" n] digval_bound [of "take n xs"] assms by (simp_all add: min.absorb1 min.absorb2 algebra_simps)

text \<open>The quotient of the top digits, D3.\<close>

lemma div_guess:
  assumes ws: "length ws = Suc n" and vs: "length vs = n" "0 < n" "vs ! (n - 1) \<noteq> 0" and lt: "digval ws < digval vs * 2 ^ Dbits"
  shows "digval ws div digval vs \<le> unat (mpdigdiv (ws ! (n - 1)) (ws ! n) (vs ! (n - 1)))"
    and "n = 1 \<Longrightarrow> unat (mpdigdiv (ws ! (n - 1)) (ws ! n) (vs ! (n - 1))) = digval ws div digval vs"
    and "digval ws div digval vs < 2 ^ Dbits" and "2 ^ (Dbits * (n - 1)) \<le> digval vs"
proof -
  define vh where "vh = unat (vs ! (n - 1))"
  have vh: "0 < vh" using vs(3) by (simp add: vh_def unat_gt_0)
  let ?P = "2 ^ (Dbits * (n - 1)) :: nat"
  have v: "digval vs = vh * ?P + digval (take (n - 1) vs)" "digval (take (n - 1) vs) < ?P" using top_parts [of vs "n - 1"] vs(1,2) by (simp_all add: vh_def)
  have d: "drop (n - 1) ws = [ws ! (n - 1), ws ! n]" using ws vs(2) by (cases n) (simp_all add: Cons_nth_drop_Suc [symmetric])
  have w: "digval ws = (2 ^ Dbits * unat (ws ! n) + unat (ws ! (n - 1))) * ?P + digval (take (n - 1) ws)" "digval (take (n - 1) ws) < ?P"
    using drop_parts [of "n - 1" ws] ws d by simp_all
  show P: "?P \<le> digval vs" using v(1) vh by (cases vh) simp_all
  then have V: "0 < digval vs" by (metis less_le_trans zero_less_numeral zero_less_power)
  show q: "digval ws div digval vs < 2 ^ Dbits" using lt V by (simp add: div_less_iff_less_mult mult.commute)
  have "digval ws div digval vs \<le> (2 ^ Dbits * unat (ws ! n) + unat (ws ! (n - 1))) div vh"
    by (rule trial_lower [OF _ v(1) w vh]) simp
  then show "digval ws div digval vs \<le> unat (mpdigdiv (ws ! (n - 1)) (ws ! n) (vs ! (n - 1)))"
    using q unfolding mpdigdiv_correct vh_def by simp
  show "unat (mpdigdiv (ws ! (n - 1)) (ws ! n) (vs ! (n - 1))) = digval ws div digval vs" if n: "n = 1"
  proof -
    have e: "digval vs = vh" "digval ws = 2 ^ Dbits * unat (ws ! n) + unat (ws ! (n - 1))" using v(1) w(1) n by simp_all
    have "2 ^ Dbits * unat (ws ! n) < 2 ^ Dbits * vh" using lt unfolding e by (simp add: mult.commute [of vh])
    then have "unat (ws ! n) < vh" by simp
    then have "\<not> vs ! (n - 1) \<le> ws ! n" by (simp add: vh_def word_le_nat_alt)
    then show ?thesis unfolding mpdigdiv_correct e vh_def by simp
  qed
qed

text \<open>The trial digit after D3a.\<close>

lemma div_trials:
  assumes ws: "seg m (u, k) ws" "length ws = Suc n" and vs: "seg m (v, 0) vs" "length vs = n" "0 < n" "vs ! (n - 1) \<noteq> 0"
    and lt: "digval ws < digval vs * 2 ^ Dbits" and t: "room m (t, 0) 3" "t \<noteq> u" "t \<noteq> v"
  shows "\<exists>qd m'. (if n > 1 then div_trial m (v, n - 2) (t, 0) (u, n + k - 2) (mpdigdiv (ws ! (n - 1)) (ws ! n) (vs ! (n - 1)))
      else Some (mpdigdiv (ws ! (n - 1)) (ws ! n) (vs ! (n - 1)), m)) = Some (qd, m') \<and> alters {t} m m'
    \<and> digval ws div digval vs \<le> unat qd \<and> unat qd \<le> digval ws div digval vs + 1"
proof (cases "n = 1")
  case True
  then show ?thesis using div_guess(2) [OF ws(2) vs(2-4) lt] by simp
next
  case False
  define g where "g = mpdigdiv (ws ! (n - 1)) (ws ! n) (vs ! (n - 1))"
  have n: "n > 1" using False vs(3) by simp
  let ?P = "2 ^ (Dbits * (n - 2)) :: nat" and ?v2 = "drop (n - 2) vs" and ?u3 = "drop (n - 2) ws"
  have l: "length ?v2 = 2" "length ?u3 = 3" using vs(2) ws(2) n by simp_all
  have "seg m (v, 0) (take (n - 2) vs @ ?v2)" "seg m (u, k) (take (n - 2) ws @ ?u3)" using vs(1) ws(1) by simp_all
  moreover have "length (take (n - 2) vs) = n - 2" "length (take (n - 2) ws) = n - 2" "n + k - 2 = k + (n - 2)" using vs(2) ws(2) n by simp_all
  ultimately have s: "seg m (v, n - 2) ?v2" "seg m (u, n + k - 2) ?u3" by (simp_all only: seg_append dadd_pair add_0)
  have v: "digval vs = digval ?v2 * ?P + digval (take (n - 2) vs)" "digval (take (n - 2) vs) < ?P" using drop_parts [of "n - 2" vs] vs(2) by simp_all
  have w: "digval ws = digval ?u3 * ?P + digval (take (n - 2) ws)" "digval (take (n - 2) ws) < ?P" using drop_parts [of "n - 2" ws] ws(2) by simp_all
  have n1: "n - 1 = Suc (n - 2)" using n by simp
  have BP: "2 ^ Dbits * ?P = 2 ^ (Dbits * (n - 1))" unfolding n1 mult_Suc_right by (rule power_add [symmetric])
  note big = div_guess(4) [OF ws(2) vs(2-4) lt]
  have v2: "0 < digval ?v2"
  proof (rule ccontr)
    assume "\<not> 0 < digval ?v2"
    then have "digval vs < ?P" using v by simp
    moreover have "?P \<le> 2 ^ Dbits * ?P" by simp
    ultimately show False using big unfolding BP by linarith
  qed
  have aw: "away (t, 0) 3 (v, n - 2) 2" "away (t, 0) 3 (u, n + k - 2) 3" using t by (simp_all add: away_def)
  obtain qd m' where q: "div_trial m (v, n - 2) (t, 0) (u, n + k - 2) g = Some (qd, m')" "alters {t} m m'" "unat qd = min (unat g) (digval ?u3 div digval ?v2)"
    using div_trial_correct [OF s(1) l(1) v2 s(2) l(2) t(1) aw, of g] by auto
  have "digval ws div digval vs \<le> unat qd"
    using div_guess(1) [OF ws(2) vs(2-4) lt] trial_lower [OF _ v(1) w v2, of "digval ws div digval vs"] unfolding q(3) g_def by simp
  moreover have "unat qd * digval ?v2 \<le> digval ?u3" using q(3) v2 by (simp add: less_eq_div_iff_mult_less_eq [symmetric])
  then have "unat qd \<le> digval ws div digval vs + 1"
    by (rule trial_upper [OF _ v(1) w(1) v(2) unat_digit]) (use big BP in simp_all)
  ultimately show ?thesis using n q(1,2) unfolding g_def by auto
qed

lemma digval_mod: "n \<le> length xs \<Longrightarrow> digval (take n xs) = digval xs mod 2 ^ (Dbits * n)"
  using drop_parts [of n xs] by simp

lemma borrow_zero:
  fixes q Z V W :: nat
  assumes "Z + q * V = W" "W div V \<le> q" "0 < V"
  shows "q = W div V" "Z = W mod V"
proof -
  have "q * V \<le> W" using assms(1) by linarith
  then have "q \<le> W div V" using assms(3) by (simp add: less_eq_div_iff_mult_less_eq)
  then show q: "q = W div V" using assms(2) by simp
  have "W mod V + W div V * V = W" by (rule mod_div_mult_eq)
  then show "Z = W mod V" using assms(1) unfolding q by linarith
qed

lemma borrow_one:
  fixes q :: nat
  assumes "Z + q * V = W + C" "Z < C" "q \<le> W div V + 1" "0 < V"
  shows "q = W div V + 1" "Z + V = W mod V + C"
proof -
  have "W < q * V" using assms(1,2) by linarith
  then have "W div V < q" using assms(4) by (simp add: div_less_iff_less_mult)
  then show q: "q = W div V + 1" using assms(3) by simp
  have "q * V = W div V * V + V" unfolding q by simp
  moreover have "W mod V + W div V * V = W" by (rule mod_div_mult_eq)
  ultimately show "Z + V = W mod V + C" using assms(1) by linarith
qed

lemma div_digit_correct:
  assumes ws: "seg m (u, k) ws" "length ws = Suc n" "room m (u, k) (n + 2)" and vs: "seg m (v, 0) vs" "length vs = n" "0 < n" "vs ! (n - 1) \<noteq> 0"
    and lt: "digval ws < digval vs * 2 ^ Dbits" and t: "room m (t, 0) 3" "t \<noteq> u" "t \<noteq> v" and uv: "u \<noteq> v"
  shows "\<exists>qd m' rs. div_digit m u v n t k = Some (qd, m') \<and> alters {u, t} m m' \<and> seg m' (u, k) rs \<and> length rs = Suc n
    \<and> digval rs = digval ws mod digval vs \<and> unat qd = digval ws div digval vs \<and> (\<forall>ds. length ds \<le> k \<longrightarrow> seg m' (u, 0) ds = seg m (u, 0) ds)"
proof -
  let ?W = "digval ws" and ?V = "digval vs" and ?C = "2 ^ (Dbits * Suc n) :: nat"
  have V: "0 < ?V" "?V < 2 ^ (Dbits * n)" using div_guess(4) [OF ws(2) vs(2-4) lt] digval_bound [of vs] vs(2) by (metis less_le_trans zero_less_numeral zero_less_power, simp)
  have ld: "dld m (u, n + k) = Some (ws ! n)" "dld m (u, n + k - 1) = Some (ws ! (n - 1))" "dld m (v, n - 1) = Some (vs ! (n - 1))"
    using dld_nth [OF ws(1), of n] dld_nth [OF ws(1), of "n - 1"] dld_nth [OF vs(1), of "n - 1"] ws(2) vs(2,3) by (simp_all add: dadd_def add.commute)
  obtain qd m1 where q: "(if n > 1 then div_trial m (v, n - 2) (t, 0) (u, n + k - 2) (mpdigdiv (ws ! (n - 1)) (ws ! n) (vs ! (n - 1)))
      else Some (mpdigdiv (ws ! (n - 1)) (ws ! n) (vs ! (n - 1)), m)) = Some (qd, m1)" "alters {t} m m1" "?W div ?V \<le> unat qd" "unat qd \<le> ?W div ?V + 1"
    using div_trials [OF ws(1,2) vs lt t] by blast
  have s1: "seg m1 (u, k) ws" "seg m1 (v, 0) vs" "room m1 (u, k) (n + 2)" "\<And>ds. seg m1 (u, 0) ds = seg m (u, 0) ds"
    using alters_seg [OF q(2)] alters_room [OF q(2)] ws(1,3) vs(1) t by simp_all
  have ah: "ahead (u, k) (v, 0) i" for i using uv by (simp add: ahead_def)
  obtain zs c where z: "mpvecdigmulsub m1 (v, 0) n qd (u, k) = Some (if c = 0 then 1 else - 1, put m1 (u, k) zs)" "length zs = Suc n" "c \<le> 1"
    "digval zs + unat qd * ?V = ?W + ?C * c"
    using mpvecdigmulsub_correct [OF s1(2) vs(2) s1(1) ws(2) ah, of qd] by blast
  let ?m2 = "put m1 (u, k) zs"
  have r2: "room m1 (u, k) (length zs)" using s1(3) z(2) by (auto intro: room_le)
  have low: "seg (put m1 (u, k) ys) (u, 0) ds = seg m (u, 0) ds" if "room m1 (u, k) (length ys)" "length ds \<le> k" for ys ds
    using seg_away [of "(u, k)" ys "(u, 0)" ds m1] that s1(4) by (simp add: away_def)
  have al: "alters {u, t} m (put m1 (u, k) ys)" if "room m1 (u, k) (length ys)" for ys
    by (rule alters_trans [of _ _ m1]) (use q(2) alters_put [OF that, of "{u, t}"] in \<open>auto simp: alters_def\<close>)
  have upvn: "n + k - n = k" by simp
  have dd: "div_digit m u v n t k = (if c = 0 then Some (qd, ?m2) else do {
       m \<leftarrow> mpvecadd ?m2 (u, k) (n + 1) (v, 0) n (u, k);
       Some (qd - 1, m)
     })"
    unfolding div_digit_def Let_def ld upvn Option.bind.simps q(1) prod.case z(1) by simp
  show ?thesis
  proof (cases "c = 0")
    case True
    have "unat qd = ?W div ?V" "digval zs = ?W mod ?V" using borrow_zero [OF _ q(3) V(1), of "digval zs"] z(4) True by simp_all
    then show ?thesis using True dd al [OF r2] seg_put [OF r2] z(2) low [OF r2] by (intro exI [of _ qd] exI [of _ ?m2] exI [of _ zs]) simp
  next
    case False
    then have c: "c = 1" using z(3) by simp
    have zb: "digval zs < ?C" using digval_bound [of zs] z(2) by simp
    have b: "unat qd = ?W div ?V + 1" "digval zs + ?V = ?W mod ?V + ?C" using borrow_one [OF _ zb q(4) V(1)] z(4) c by simp_all
    have s2: "seg ?m2 (u, k) zs" "seg ?m2 (v, 0) vs" "room ?m2 (u, k) (Suc (n + 1))"
      using seg_put [OF r2] seg_away [OF _ r2, of "(v, 0)" vs] s1(2,3) r2 uv by (simp_all add: away_def)
    have lz: "length zs = n + 1" "n \<le> n + 1" using z(2) by simp_all
    obtain ys where y: "mpvecadd ?m2 (u, k) (n + 1) (v, 0) n (u, k) = Some (put ?m2 (u, k) ys)" "length ys = Suc (n + 1)" "digval ys = digval zs + ?V"
      using mpvecadd_correct [OF s2(1) lz(1) s2(2) vs(2) lz(2) s2(3) ahead_self ah] by blast
    have ry: "room m1 (u, k) (length ys)" "room ?m2 (u, k) (length ys)" using s1(3) s2(3) y(2) by simp_all
    have p: "put ?m2 (u, k) ys = put m1 (u, k) ys"
    proof -
      obtain X where "m1 u = Some X" "k + length ys \<le> length X" using ry(1) by (auto simp: room_def)
      then show ?thesis using y(2) z(2) by (simp add: put_def)
    qed
    have "(2 :: nat) ^ (Dbits * n) \<le> ?C" by (rule power_increasing) simp_all
    then have "?W mod ?V < ?C" using V(2) mod_less_divisor [OF V(1), of ?W] by linarith
    then have rs: "digval (take (Suc n) ys) = ?W mod ?V" using digval_mod [of "Suc n" ys] y(2,3) b(2) by simp
    have "qd \<noteq> 0" using b(1) by auto
    then have "unat (qd - 1) = ?W div ?V" using b(1) by (simp add: unat_minus_one)
    then show ?thesis using False dd y(1,2) p al [OF ry(1)] seg_take [OF seg_put [OF ry(1)], of "Suc n"] rs low [OF ry(1)]
      by (intro exI [of _ "qd - 1"] exI [of _ "put m1 (u, k) ys"] exI [of _ "take (Suc n) ys"]) simp
  qed
qed

section \<open>The loop\<close>

lemma step_values:
  fixes A W V P :: nat
  assumes "0 < V"
  shows "(A + P * W) mod V = (A + P * (W mod V)) mod V" and "(A + P * W) div V = (A + P * (W mod V)) div V + P * (W div V)"
proof -
  have e: "A + P * W = (A + P * (W mod V)) + P * (W div V) * V"
    using mod_div_mult_eq [of W V] by (metis add.assoc distrib_left mult.assoc)
  show "(A + P * W) mod V = (A + P * (W mod V)) mod V" by (subst e) (rule mod_mult_self1)
  show "(A + P * W) div V = (A + P * (W mod V)) div V + P * (W div V)" by (subst e) (use assms in simp)
qed

text \<open>The digits of the next round are small enough.\<close>

lemma next_bound:
  assumes "digval rs < V" "length as = Suc j"
  shows "digval (drop j (as @ rs)) < V * 2 ^ Dbits"
proof -
  have "drop j as = [as ! j]" using assms(2) by (simp add: Cons_nth_drop_Suc [symmetric])
  then have "digval (drop j (as @ rs)) = unat (as ! j) + 2 ^ Dbits * digval rs" using assms(2) by simp
  also have "\<dots> < 2 ^ Dbits * (digval rs + 1)" using unat_digit [of "as ! j"] by simp
  also have "\<dots> \<le> 2 ^ Dbits * V" using assms(1) by (intro mult_le_mono2) simp
  finally show ?thesis by (simp add: mult.commute)
qed

definition div_state :: "dmem \<Rightarrow> nat \<Rightarrow> nat \<Rightarrow> nat \<Rightarrow> nat option \<Rightarrow> mpdigit list \<Rightarrow> mpdigit list \<Rightarrow> nat \<Rightarrow> bool" where
  "div_state m u v t q us vs k \<longleftrightarrow> seg m (u, 0) us \<and> length us = length vs + k \<and> (k > 0 \<longrightarrow> room m (u, 0) (length vs + k + 1))
     \<and> seg m (v, 0) vs \<and> room m (t, 0) 3 \<and> u \<noteq> v \<and> t \<noteq> u \<and> t \<noteq> v \<and> (\<forall>a. q = Some a \<longrightarrow> a \<noteq> u \<and> a \<noteq> v \<and> a \<noteq> t \<and> room m (a, 0) k)
     \<and> digval (drop (k - 1) us) < (if k = 0 then digval vs else digval vs * 2 ^ Dbits)"

lemma div_round:
  assumes st: "div_state m u v t q us vs (Suc k)" and vs: "vs \<noteq> []" "last vs \<noteq> 0"
  shows "\<exists>m' qd us'. (do {
       (qd, m) \<leftarrow> div_digit m u v (length vs) t k;
       m \<leftarrow> (case q of None \<Rightarrow> Some m | Some qp \<Rightarrow> dst m (qp, k) qd);
       dst m (u, length vs + k) 0 }) = Some m' \<and> alters ({u, t} \<union> set_option q) m m' \<and> div_state m' u v t q us' vs k
    \<and> digval us mod digval vs = digval us' mod digval vs \<and> digval us div digval vs = digval us' div digval vs + 2 ^ (Dbits * k) * unat qd
    \<and> (\<forall>a. q = Some a \<longrightarrow> seg m' (a, k) [qd] \<and> (\<forall>i > k. \<forall>ds. seg m' (a, i) ds = seg m (a, i) ds))"
proof -
  let ?n = "length vs" and ?V = "digval vs" and ?as = "take k us" and ?ws = "drop k us"
  have us: "seg m (u, 0) us" "length us = ?n + Suc k" "room m (u, 0) (?n + Suc k + 1)" "digval ?ws < ?V * 2 ^ Dbits"
    and v: "seg m (v, 0) vs" and t: "room m (t, 0) 3" "t \<noteq> u" "t \<noteq> v" and uv: "u \<noteq> v"
    and qa: "\<And>a. q = Some a \<Longrightarrow> a \<noteq> u \<and> a \<noteq> v \<and> a \<noteq> t \<and> room m (a, 0) (Suc k)" using st by (simp_all add: div_state_def)
  have n: "0 < ?n" "vs ! (?n - 1) \<noteq> 0" using vs by (simp_all add: last_conv_nth)
  have "seg m (u, 0) (?as @ ?ws)" using us(1) by simp
  then have s: "seg m (u, 0) ?as" "seg m (u, k) ?ws" using us(2) unfolding seg_append by (simp_all add: dadd_def min_def)
  have lw: "length ?ws = Suc ?n" "length ?as = k" using us(2) by simp_all
  have ru: "room m (u, k) (?n + 2)" using room_dadd [of m "(u, 0)" k "?n + 2"] us(3) by (simp add: dadd_def add.commute add.left_commute)
  obtain qd m1 rs where d: "div_digit m u v ?n t k = Some (qd, m1)" "alters {u, t} m m1" "seg m1 (u, k) rs" "length rs = Suc ?n"
    "digval rs = digval ?ws mod ?V" "unat qd = digval ?ws div ?V" "\<forall>ds. length ds \<le> k \<longrightarrow> seg m1 (u, 0) ds = seg m (u, 0) ds"
    using div_digit_correct [OF s(2) lw(1) ru v refl n us(4) t uv] by blast
  have V: "0 < ?V" "?V < 2 ^ (Dbits * ?n)" using div_guess(4) [OF lw(1) refl n us(4)] digval_bound [of vs] by (metis less_le_trans zero_less_numeral zero_less_power, simp)
  have rl: "digval rs < ?V" unfolding d(5) using V(1) by simp
  let ?rs = "take ?n rs" and ?us = "?as @ take ?n rs"
  have rv: "digval ?rs = digval rs" by (rule digval_fits) (use rl V(2) in linarith)
  define m2 where "m2 = (case q of None \<Rightarrow> m1 | Some a \<Rightarrow> put m1 (a, k) [qd])"
  have rq: "room m1 (a, k) 1" if "q = Some a" for a using qa [OF that] room_dadd [of m "(a, 0)" k 1] alters_room [OF d(2)] by (simp add: dadd_def)
  have m2: "(case q of None \<Rightarrow> Some m1 | Some qp \<Rightarrow> dst m1 (qp, k) qd) = Some m2" using rq by (auto simp: m2_def split: option.splits)
  have a2: "alters (set_option q) m1 m2" using rq alters_put by (auto simp: m2_def split: option.splits)
  have x2: "seg m2 (x, i) ds = seg m1 (x, i) ds" if "q \<noteq> Some x" for x i ds using alters_seg [OF a2, of "(x, i)"] that by auto
  have ru2: "room m2 (u, ?n + k) 1"
    using alters_room [OF a2] alters_room [OF d(2)] room_dadd [of m "(u, 0)" "?n + k" 1] room_le [OF us(3), of "?n + k + 1"] by (simp add: dadd_def)
  define m3 where "m3 = put m2 (u, ?n + k) [0]"
  have m3: "dst m2 (u, ?n + k) 0 = Some m3" using ru2 by (simp add: m3_def)
  have a3: "alters {u} m2 m3" unfolding m3_def by (rule alters_put) (use ru2 in simp_all)
  let ?S = "{u, t} \<union> set_option q"
  have al: "alters ?S m m3" by (rule alters_trans [of _ _ m1], rule_tac [2] alters_trans [of _ _ m2]) (use d(2) a2 a3 in \<open>auto simp: alters_def\<close>)
  have "q \<noteq> Some u" using qa by auto
  then have su: "seg m3 (u, 0) ?us"
  proof -
    have "seg m1 (u, 0) ?as" "seg m1 (u, k) ?rs" using d(7) s(1) lw(2) seg_take [OF d(3)] by simp_all
    then have "seg m2 (u, 0) ?us" using x2 [OF \<open>q \<noteq> Some u\<close>] lw(2) by (simp add: seg_append dadd_def)
    then show ?thesis unfolding m3_def using seg_away [of "(u, ?n + k)" "[0]" "(u, 0)" ?us m2] ru2 lw(2) d(4) by (simp add: away_def)
  qed
  have sv: "seg m3 (v, 0) vs" using alters_seg [OF al, of "(v, 0)" vs] v uv t qa by auto
  have dr: "digval (drop (k - 1) ?us) < (if k = 0 then ?V else ?V * 2 ^ Dbits)"
  proof (cases k)
    case 0
    then show ?thesis using rv rl by simp
  next
    case (Suc j)
    then show ?thesis using next_bound [of ?rs ?V ?as j] rv rl lw(2) by simp
  qed
  have st': "div_state m3 u v t q ?us vs k"
    unfolding div_state_def alters_room [OF al] using su sv t uv dr lw(2) d(4) us(3) qa by (auto intro: room_le)
  have vals: "digval us = digval ?as + 2 ^ (Dbits * k) * digval ?ws" "digval ?us = digval ?as + 2 ^ (Dbits * k) * (digval ?ws mod ?V)"
    using digval_split [of us "length us" k] us(2) rv d(5) lw(2) by (simp_all add: digval_append min_def)
  have qs: "seg m3 (a, k) [qd] \<and> (\<forall>i > k. \<forall>ds. seg m3 (a, i) ds = seg m (a, i) ds)" if "q = Some a" for a
  proof -
    have au: "a \<notin> {u, t}" using qa [OF that] by simp
    have "seg m2 (a, k) [qd]" "\<And>i ds. k < i \<Longrightarrow> seg m2 (a, i) ds = seg m1 (a, i) ds"
      using seg_put [of m1 "(a, k)" "[qd]"] seg_away [of "(a, k)" "[qd]"] rq [OF that] that by (simp_all add: m2_def away_def)
    then show ?thesis using alters_seg [OF a3, of "(a, k)" "[qd]"] alters_seg [OF a3] alters_seg [OF d(2)] au by (simp del: seg_Cons)
  qed
  have "do { (qd, m) \<leftarrow> div_digit m u v ?n t k; m \<leftarrow> (case q of None \<Rightarrow> Some m | Some qp \<Rightarrow> dst m (qp, k) qd); dst m (u, ?n + k) 0 } = Some m3"
    using d(1) m2 m3 by simp
  moreover have "digval us mod ?V = digval ?us mod ?V" "digval us div ?V = digval ?us div ?V + 2 ^ (Dbits * k) * unat qd"
    unfolding vals d(6) by (rule step_values [OF V(1)])+
  ultimately show ?thesis using al st' qs by (intro exI [of _ m3] exI [of _ qd] exI [of _ ?us]) (simp del: seg_Cons)
qed

lemma div_loop_correct:
  assumes "div_state m u v t q us vs k" and vs: "vs \<noteq> []" "last vs \<noteq> 0"
  shows "\<exists>m' rs. div_loop m u v (length vs) t q k = Some m' \<and> alters ({u, t} \<union> set_option q) m m' \<and> seg m' (u, 0) rs \<and> length rs = length vs
    \<and> digval rs = digval us mod digval vs \<and> (\<forall>a. q = Some a \<longrightarrow> (\<exists>qs. seg m' (a, 0) qs \<and> length qs = k \<and> digval qs = digval us div digval vs)
      \<and> (\<forall>i \<ge> k. \<forall>ds. seg m' (a, i) ds = seg m (a, i) ds))"
  using assms(1)
proof (induction k arbitrary: m us)
  case 0
  then have "digval us < digval vs" by (simp add: div_state_def)
  moreover have "seg m (a, 0) []" if "q = Some a" for a using 0 that by (simp add: div_state_def seg_Nil)
  ultimately show ?case using 0 by (intro exI [of _ m] exI [of _ us]) (auto simp: div_state_def intro: exI [of _ "[]"])
next
  case (Suc k)
  obtain m1 qd us' where r: "do { (qd, m) \<leftarrow> div_digit m u v (length vs) t k; m \<leftarrow> (case q of None \<Rightarrow> Some m | Some qp \<Rightarrow> dst m (qp, k) qd);
       dst m (u, length vs + k) 0 } = Some m1" "alters ({u, t} \<union> set_option q) m m1" "div_state m1 u v t q us' vs k"
    "digval us mod digval vs = digval us' mod digval vs" "digval us div digval vs = digval us' div digval vs + 2 ^ (Dbits * k) * unat qd"
    "\<forall>a. q = Some a \<longrightarrow> seg m1 (a, k) [qd] \<and> (\<forall>i > k. \<forall>ds. seg m1 (a, i) ds = seg m (a, i) ds)"
    using div_round [OF Suc.prems vs] by blast
  obtain m' rs where i: "div_loop m1 u v (length vs) t q k = Some m'" "alters ({u, t} \<union> set_option q) m1 m'" "seg m' (u, 0) rs" "length rs = length vs"
    "digval rs = digval us' mod digval vs" "\<forall>a. q = Some a \<longrightarrow> (\<exists>qs. seg m' (a, 0) qs \<and> length qs = k \<and> digval qs = digval us' div digval vs)
      \<and> (\<forall>i \<ge> k. \<forall>ds. seg m' (a, i) ds = seg m1 (a, i) ds)" using Suc.IH [OF r(3)] by blast
  have "div_loop m u v (length vs) t q (Suc k) = Some m'" using r(1) i(1) by (auto simp: bind_Some_iff split: prod.splits)
  moreover have "(\<exists>qs. seg m' (a, 0) qs \<and> length qs = Suc k \<and> digval qs = digval us div digval vs) \<and> (\<forall>i \<ge> Suc k. \<forall>ds. seg m' (a, i) ds = seg m (a, i) ds)"
    if qa: "q = Some a" for a
  proof -
    obtain qs where qs: "seg m' (a, 0) qs" "length qs = k" "digval qs = digval us' div digval vs" using i(6) qa by blast
    then have "seg m' (a, 0) (qs @ [qd])" using i(6) r(6) qa by (simp add: seg_append dadd_def del: seg_Cons)
    then show ?thesis using qs r(5,6) i(6) qa by (intro conjI exI [of _ "qs @ [qd]"]) (simp_all add: digval_append)
  qed
  ultimately show ?case using i(3-5) r(4) alters_trans [OF r(2) i(2)] by (intro exI [of _ m'] exI [of _ rs]) simp
qed

end
