(* ===== verification/MpQuot.thy ===== *)
theory MpQuot
  imports MpDiv
begin

text \<open>
  Correctness of \<open>mpdiv\<close> and \<open>mpmod\<close> on the heap: the quotient and the remainder of positive numbers, also when they replace the
  operands; what is allocated is freed.  The last section has the cases where a sign is wrong.
\<close>

section \<open>Counting zeros\<close>

lemma high_bit_digit: "d AND mpdighi = 0 \<longleftrightarrow> unat d < 2 ^ 31" for d :: mpdigit
proof -
  have "d AND mpdighi = push_bit 31 (of_bool (bit d 31))"
  proof (rule bit_word_eqI)
    fix n
    have e: "mpdighi = 2 ^ 31" by (simp add: mpdighi_def)
    have "bit mpdighi n \<longleftrightarrow> n = 31" unfolding e bit_exp_iff by auto
    then show "bit (d AND mpdighi) n = bit (push_bit 31 (of_bool (bit d 31)) :: mpdigit) n" by (cases "n = 31") (auto simp: bit_simps)
  qed
  moreover have "bit d 31 \<longleftrightarrow> 2 ^ 31 \<le> unat d"
  proof -
    have "bit d 31 \<longleftrightarrow> bit (unat d) 31" by (simp add: bit_unsigned_iff)
    also have "\<dots> \<longleftrightarrow> odd (unat d div 2 ^ 31)" by (rule bit_iff_odd)
    also have "\<dots> \<longleftrightarrow> 2 ^ 31 \<le> unat d"
    proof (cases "2 ^ 31 \<le> unat d")
      case True
      then have "unat d div 2 ^ 31 = 1" using unat_digit [of d] by (intro div_nat_eqI) simp_all
      then show ?thesis using True by simp
    next
      case False
      then have "unat d div 2 ^ 31 = 0" by simp
      then show ?thesis using False by simp
    qed
    finally show ?thesis .
  qed
  ultimately show ?thesis by (cases "bit d 31") auto
qed

lemma high_zeros_found: "0 < n \<Longrightarrow> n \<le> Dbits \<Longrightarrow> 2 ^ (Dbits - n) \<le> unat d \<Longrightarrow> \<exists>k. high_zeros d s n = Some k \<and> k < s + n"
proof (induction n arbitrary: d s)
  case (Suc n)
  show ?case
  proof (cases "unat d < 2 ^ 31")
    case True
    have n: "n \<noteq> 0"
    proof
      assume "n = 0"
      then show False using Suc.prems(3) True by simp
    qed
    have "unat (push_bit 1 d) = 2 * unat d" using True by (simp add: push_bit_eq_mult unat_word_ariths)
    moreover have "(2 :: nat) ^ (Dbits - n) = 2 * 2 ^ (Dbits - Suc n)" 
    proof -
      have "Dbits - n = Suc (Dbits - Suc n)" using Suc.prems(2) by simp
      then show ?thesis by (simp only: power_Suc)
    qed
    ultimately have "2 ^ (Dbits - n) \<le> unat (push_bit 1 d)" using Suc.prems(3) by linarith
    then obtain k where "high_zeros (push_bit 1 d) (s + 1) n = Some k" "k < s + 1 + n" using Suc.IH [of "push_bit 1 d" "s + 1"] n Suc.prems(2) by auto
    then show ?thesis using True high_bit_digit [of d] by simp
  qed (use high_bit_digit [of d] in simp)
qed simp

lemma high_zeros_ok: "d \<noteq> 0 \<Longrightarrow> \<exists>s < Dbits. high_zeros d 0 Dbits = Some s"
  using high_zeros_found [of Dbits d 0] by (auto simp: unat_gt_0 Suc_le_eq)

lemma low_zeros_power: "k < s + n \<Longrightarrow> s \<le> k \<Longrightarrow> k < Dbits \<Longrightarrow> low_zeros (push_bit k 1) s n = Some k"
proof (induction n arbitrary: s)
  case (Suc n)
  have "drop_bit s (push_bit k (1 :: mpdigit)) AND 1 = of_bool (s = k)"
    using Suc.prems by (intro bit_word_eqI) (auto simp: bit_simps bit_1_iff)
  then show ?case using Suc by auto
qed simp

text \<open>The digits with one bit.\<close>

lemma nat_one_bit: "0 < n \<Longrightarrow> n AND (n - 1) = 0 \<Longrightarrow> \<exists>k. n = 2 ^ k" for n :: nat
proof (induction n rule: less_induct)
  case (less n)
  have r: "n AND (n - 1) = of_bool (odd n \<and> odd (n - 1)) + 2 * (n div 2 AND (n - 1) div 2)" by (rule and_rec)
  show ?case
  proof (cases "even n")
    case True
    then obtain m where m: "n = 2 * m" by (elim evenE)
    then have "(n - 1) div 2 = m - 1" using less.prems(1) by (cases m) simp_all
    then have "m AND (m - 1) = 0" using r less.prems(2) m by simp
    then obtain k where "m = 2 ^ k" using less.IH [of m] less.prems(1) m by auto
    then show ?thesis using m by (intro exI [of _ "Suc k"]) simp
  next
    case False
    then obtain m where m: "n = 2 * m + 1" by (elim oddE)
    then have "m AND m = 0" using r less.prems(2) by simp
    then show ?thesis using m by (intro exI [of _ 0]) simp
  qed
qed

lemma one_bit:
  fixes p :: mpdigit
  assumes "p AND (p - 1) = 0" "p \<noteq> 0"
  shows "\<exists>k < Dbits. p = push_bit k 1 \<and> unat p = 2 ^ k"
proof -
  have "unat p AND unat (p - 1) = unat (p AND (p - 1))" by (rule unsigned_and_eq [symmetric])
  then have "unat p AND (unat p - 1) = 0" unfolding assms(1) unat_minus_one [OF assms(2)] by simp
  then obtain k where k: "unat p = 2 ^ k" using nat_one_bit [of "unat p"] assms(2) by (auto simp: unat_gt_0)
  have kl: "k < Dbits"
  proof (rule ccontr)
    assume "\<not> k < Dbits"
    then have "(2 :: nat) ^ Dbits \<le> 2 ^ k" by (intro power_increasing) simp_all
    then show False using k unat_digit [of p] by simp
  qed
  have "of_nat (unat p) = p" by simp
  then have "p = of_nat (2 ^ k)" unfolding k by simp
  then show ?thesis using k kl by (intro exI [of _ k]) (simp add: push_bit_eq_mult)
qed

section \<open>Numbers that are made for a while\<close>

lemma mpnew_room: "0 \<le> n \<Longrightarrow> \<exists>b ds. mpnew n h = Some (mh_next h, with_new (mh_next h) b ds h) \<and> mp_wf b ds \<and> mp_norm b \<and> mag b ds = 0
    \<and> \<not> mp_timesafe b \<and> \<not> mp_static b \<and> mp_sign b = 1 \<and> nat (DIGITS n) \<le> mp_size b"
proof -
  let ?k = "max (nat (DIGITS n)) (mh_mindigits h)"
  let ?b = "\<lparr>mp_sign = 1, mp_size = ?k, mp_top = 0, mp_static = False, mp_norm = True, mp_timesafe = False, mp_field = False\<rparr>"
  assume "0 \<le> n"
  then have "mpnew n h = Some (mh_next h, with_new (mh_next h) ?b (replicate ?k 0) h)" by (simp add: mpnew_def Let_def with_new_def put_mp_def)
  then show ?thesis by (intro exI [of _ ?b] exI [of _ "replicate ?k 0"]) (simp add: mp_wf_def mp_sized_def mag_def)
qed

text \<open>What changes between two heaps.\<close>

definition changes :: "nat set \<Rightarrow> mpheap \<Rightarrow> mpheap \<Rightarrow> bool" where
  "changes S h h' \<longleftrightarrow> (\<forall>a. a \<notin> S \<longrightarrow> mh_ints h' a = mh_ints h a \<and> mh_mem h' a = mh_mem h a)"

lemma changes_refl [simp]: "changes S h h"
  by (simp add: changes_def)

lemma changes_trans: "changes S h h' \<Longrightarrow> changes T h' h'' \<Longrightarrow> changes (S \<union> T) h h''"
  by (simp add: changes_def)

lemma changes_mono: "changes S h h' \<Longrightarrow> S \<subseteq> T \<Longrightarrow> changes T h h'"
  by (auto simp: changes_def)

lemma changes_put [simp]: "changes {a} h (put_mp a b ds h)"
  by (simp add: changes_def)

lemma changes_new [simp]: "changes {a} h (with_new a b ds h)"
  by (simp add: changes_def with_new_def)

lemma changes_at: "changes S h h' \<Longrightarrow> a \<notin> S \<Longrightarrow> mp_at h' a b ds = mp_at h a b ds"
  by (simp add: changes_def mp_at_def)

lemma changes_plain: "changes S h h' \<Longrightarrow> a \<notin> S \<Longrightarrow> mp_plain h' a b ds = mp_plain h a b ds"
  by (simp add: changes_at mp_plain_def)

lemma changes_out: "changes S h h' \<Longrightarrow> a \<notin> S \<Longrightarrow> mp_out h' a b ds = mp_out h a b ds"
  by (simp add: changes_at mp_out_def)

lemma mpfree_changes:
  assumes "mp_at h a b ds" "\<not> mp_static b"
  shows "\<exists>h'. mpfree a h = Some h' \<and> changes {a} h h' \<and> mh_next h' = mh_next h \<and> mh_ints h' a = None \<and> mh_mem h' a = None"
  using assms by (auto simp: mpfree_def mp_at_def changes_def)

text \<open>\<open>vtomp\<close> needs a number with two digits.\<close>

lemma vtomp_loop_two: "room m p 2 \<Longrightarrow> vtomp_loop m p uv VLDIGITS = Some (put m p [ucast uv, ucast (drop_bit Dbits uv)])"
proof -
  assume r: "room m p 2"
  have r1: "room m p 1" "room (put m p [x]) (dadd p 1) 1" for x using room_step [of m p 1] r by (simp_all add: numeral_2_eq_2)
  show ?thesis using r1 put_step [of m p 1 "[ucast (drop_bit Dbits uv)]" "ucast uv"] r by (simp add: numeral_2_eq_2)
qed

lemma vtomp_result:
  assumes r: "mp_out h a b ds" and sz: "2 \<le> mp_size b" and v: "unat v < 2 ^ Dbits"
  shows "result (vtomp v a h) h a b (int (unat v))"
proof -
  have "DIGITS (int VLDIGITS * 4) = 1" by (simp add: DIGITS_def Let_def)
  then have n: "nat (DIGITS (int VLDIGITS * 4)) = 1" by simp
  obtain c es where c: "mpbits a (int VLDIGITS * 4) h = Some (put_mp a c es h)" "mp_sized c es" "take (mp_top b) es = take (mp_top b) ds"
    "mp_top b \<le> length es" "1 \<le> length es" "like b c" "mp_sign c = mp_sign b" by (rule room_bits [OF r n])
  have le: "2 \<le> length es" using c(2,6) sz by (simp add: mp_sized_def like_def)
  have "uint v = int (unat v)" by simp
  moreover have "unat v < 4294967296" using v by simp
  ultimately have lt: "uint v < 4294967296" by linarith
  have "signed_take_bit 63 (uint v) = uint v" 
  proof (rule signed_take_bit_int_eq_self)
    have "0 \<le> uint v" by simp
    then show "- (2 ^ 63) \<le> uint v" by (rule order_trans [rotated]) simp
    show "uint v < 2 ^ 63" using lt by simp
  qed
  then have "sint v = uint v" by (simp add: sint_uint)
  then have s: "\<not> sint v < 0" "v * of_int 1 = v" by simp_all
  have "unat (drop_bit Dbits v) = unat v div 2 ^ Dbits" unfolding unat_drop_bit_eq by (rule drop_bit_eq_div)
  then have "unat (drop_bit Dbits v) = 0" using v by simp
  then have z: "drop_bit Dbits v = 0" by (simp add: unat_eq_0)
  let ?zs = "[ucast v, 0] :: mpdigit list"
  have u: "unat (ucast v :: mpdigit) = unat v" using v by (simp add: unsigned_ucast_eq take_bit_nat_eq_self)
  have lz: "length ?zs \<le> length es" using le by simp
  note vp = vec_put [OF c(2) lz, of 1]
  have ro: "room ((mh_mem h)(a \<mapsto> es)) (a, 0) 2" using le by (simp add: room_whole)
  have "vtomp v a h = mpnorm a (put_mp a (c\<lparr>mp_top := length ?zs, mp_sign := 1\<rparr>) (?zs @ drop (length ?zs) es) h)"
    unfolding vtomp_def Let_def c(1) if_not_P [OF s(1)] Option.bind.simps upd_mp_put in_mem_put s(2) vtomp_loop_two [OF ro] z
    using vp(1) [of h a] by (simp add: put_mp_mem sign_top numeral_2_eq_2)
  moreover have "result (mpnorm a (put_mp a (c\<lparr>mp_top := length ?zs, mp_sign := 1\<rparr>) (?zs @ drop (length ?zs) es) h)) h a b (int (unat v))"
    by (rule mpnorm_result [OF vp(2)]) (use vp(3) c(6) outD(3) [OF r] u in simp_all)
  ultimately show ?thesis by simp
qed

section \<open>Powers of 2\<close>

lemma low_digit: "mp_sized b ds \<Longrightarrow> 0 < mp_top b \<Longrightarrow> k \<le> Dbits \<Longrightarrow> mag b ds mod 2 ^ k = unat (ds ! 0) mod 2 ^ k"
proof -
  assume a: "mp_sized b ds" "0 < mp_top b" "k \<le> Dbits"
  then obtain d es where d: "take (mp_top b) ds = d # es" "ds ! 0 = d" by (cases ds; cases "mp_top b") (auto simp: mp_sized_def)
  have "(2 :: nat) ^ k dvd 2 ^ Dbits" using a(3) by (rule le_imp_power_dvd)
  then have "2 ^ k dvd 2 ^ Dbits * digval es" by (rule dvd_mult2)
  then have "(2 ^ Dbits * digval es) mod 2 ^ k = 0" by (simp only: dvd_eq_mod_eq_0)
  then have "(unat d + 2 ^ Dbits * digval es) mod 2 ^ k = unat d mod 2 ^ k" using mod_add_right_eq [of "unat d" "2 ^ Dbits * digval es" "2 ^ k"] by simp
  then show ?thesis using d by (simp add: mag_def)
qed

lemma mask_mod:
  fixes d p :: mpdigit
  assumes "p = push_bit k 1" "k < Dbits"
  shows "unat (d AND (p - 1)) = unat d mod 2 ^ k"
proof -
  have "p - 1 = mask k" using assms(1) by (simp add: mask_eq_exp_minus_1 push_bit_eq_mult)
  then have "d AND (p - 1) = take_bit k d" by (simp add: take_bit_eq_mask)
  then have "unat (d AND (p - 1)) = take_bit k (unat d)" using assms(2) by (simp add: unsigned_take_bit_eq)
  then show ?thesis by (simp add: take_bit_eq_mod)
qed

text \<open>A number with space for \<open>n\<close> digits.\<close>

definition has_room :: "nat \<Rightarrow> mpheap \<Rightarrow> nat \<Rightarrow> bool" where
  "has_room n h a \<longleftrightarrow> (\<exists>b. mh_ints h a = Some b \<and> n \<le> mp_size b)"

text \<open>A result that need not be wanted.\<close>

definition opt_val :: "nat \<Rightarrow> mpheap \<Rightarrow> nat option \<Rightarrow> int \<Rightarrow> bool" where
  "opt_val Z h x v \<longleftrightarrow> (\<forall>a. x = Some a \<longrightarrow> mp_val h a v \<and> mp_var h a \<and> has_room Z h a)"

definition div_done :: "nat \<Rightarrow> mpheap option \<Rightarrow> nat option \<Rightarrow> nat option \<Rightarrow> int \<Rightarrow> int \<Rightarrow> mpheap \<Rightarrow> bool" where
  "div_done Z res quot rest vq vr h \<longleftrightarrow> (\<exists>h'. res = Some h' \<and> opt_val Z h' quot vq \<and> opt_val 2 h' rest vr
     \<and> changes (set_option quot \<union> set_option rest) h h' \<and> mh_next h \<le> mh_next h')"

text \<open>The number where the quotient or the remainder goes.\<close>

definition opt_out :: "mpheap \<Rightarrow> nat option \<Rightarrow> (mpint \<Rightarrow> bool) \<Rightarrow> bool" where
  "opt_out h x P \<longleftrightarrow> (\<forall>a. x = Some a \<longrightarrow> (\<exists>b ds. mp_plain h a b ds \<and> \<not> mp_static b \<and> P b))"

lemma opt_outE:
  assumes "opt_out h (Some a) P"
  obtains b ds where "mp_plain h a b ds" "mp_out h a b ds" "P b"
  using assms unfolding opt_out_def using plain_out by blast

lemma changes_val: "changes S h h' \<Longrightarrow> a \<notin> S \<Longrightarrow> mp_val h' a v = mp_val h a v" "changes S h h' \<Longrightarrow> a \<notin> S \<Longrightarrow> mp_var h' a = mp_var h a"
  by (simp_all add: mp_val_def mp_var_def changes_plain changes_out)

lemma changes_room: "changes S h h' \<Longrightarrow> a \<notin> S \<Longrightarrow> has_room n h' a = has_room n h a"
  by (simp add: has_room_def changes_def)

lemma opt_val_keep: "changes S h h' \<Longrightarrow> set_option x \<inter> S = {} \<Longrightarrow> opt_val Z h' x v = opt_val Z h x v"
  by (cases x) (auto simp: opt_val_def changes_val changes_room)

lemma opt_out_keep: "changes S h h' \<Longrightarrow> set_option x \<inter> S = {} \<Longrightarrow> opt_out h' x P = opt_out h x P"
proof (cases x)
  case (Some a)
  assume "changes S h h'" "set_option x \<inter> S = {}"
  then have "mp_plain h' a = mp_plain h a" using Some by (intro ext changes_plain) auto
  then show ?thesis using Some by (simp add: opt_out_def)
qed (simp add: opt_out_def)

lemma result_changes:
  assumes "result res h r b v" "\<not> mp_timesafe b" "\<not> mp_static b"
  obtains h' b' ds' where "res = Some h'" "changes {r} h h'" "mh_next h' = mh_next h" "mp_plain h' r b' ds'" "mp_sign b' * int (mag b' ds') = v"
    "mp_val h' r v" "mp_var h' r" "\<not> mp_static b'" "mp_size b \<le> mp_size b'" "\<And>n. n \<le> mp_size b \<Longrightarrow> has_room n h' r"
proof -
  obtain b' ds' where b': "res = Some (put_mp r b' ds' h)" "mp_wf b' ds'" "mp_norm b'" "like b b'" "mp_sign b' * int (mag b' ds') = v"
    using assms(1) by (rule resultE)
  have p: "mp_plain (put_mp r b' ds' h) r b' ds'" "\<not> mp_static b'" "mp_size b \<le> mp_size b'" using b' assms(2,3) by (simp_all add: mp_plain_def like_def)
  then have "mp_val (put_mp r b' ds' h) r v" "mp_var (put_mp r b' ds' h) r" using b'(5) plain_out unfolding mp_val_def mp_var_def by blast+
  then show thesis using that [OF b'(1)] p b'(5) by (simp add: has_room_def)
qed

lemma still_timesafe:
  assumes "changes {r} h h'" "mp_plain h' r b' ds'" "mp_plain h a b ds"
  shows "\<exists>c es. mp_plain h' a c es"
  using assms changes_plain [OF assms(1), of a b ds] by (cases "a = r") auto

lemma div_power2_correct:
  assumes a: "mp_plain h a1 b1 ds1" "mp_sign b1 = 1" "0 < mag b1 ds1" and d: "mp_plain h a2 b2 ds2" "mp_top b2 = 1" "ds2 ! 0 AND (ds2 ! 0 - 1) = 0"
    and q: "opt_out h quot (\<lambda>b. Z \<le> mp_size b)" and r: "opt_out h rest (\<lambda>b. 2 \<le> mp_size b)" and ne: "quot = None \<or> quot \<noteq> rest"
  shows "div_done Z (div_power2 a1 a2 quot rest h) quot rest (int (mag b1 ds1) div int (mag b2 ds2)) (int (mag b1 ds1) mod int (mag b2 ds2)) h"
proof -
  let ?p = "ds2 ! 0" and ?d = "ds1 ! 0"
  have l2: "0 < length ds2" "?p \<noteq> 0" using plainD(2,5) [OF d(1)] d(2) by (auto simp: mp_wf_def mp_sized_def)
  have m2: "mag b2 ds2 = unat ?p" using l2(1) d(2) by (cases ds2) (simp_all add: mag_def)
  obtain k where k: "k < Dbits" "?p = push_bit k 1" "unat ?p = 2 ^ k" using one_bit [OF d(3) l2(2)] by blast
  have t1: "0 < mp_top b1" using norm_zero [OF plainD(2,5) [OF a(1)]] a(3) by simp
  have l1: "0 < length ds1" using plainD(3) [OF a(1)] t1 by (auto simp: mp_sized_def)
  have ld: "dld (mh_mem h) (a1, 0) = Some ?d" "dld (mh_mem h) (a2, 0) = Some ?p"
    using plainD(7) [OF a(1)] plainD(7) [OF d(1)] l1 l2 by (simp_all add: dld_def)
  have lz: "low_zeros ?p 0 Dbits = Some k" using low_zeros_power [of k 0 Dbits] k by simp
  let ?r = "(of_int (mp_sign b1) :: u64) * ucast (?d AND (?p - 1))"
  have "unat ?r = unat (?d AND (?p - 1))" using a(2) unat_digit [of "?d AND (?p - 1)"] by (simp add: unsigned_ucast_eq take_bit_nat_eq_self)
  then have rv: "unat ?r = mag b1 ds1 mod 2 ^ k" "unat ?r < 2 ^ Dbits"
    using mask_mod [OF k(2,1), of ?d] low_digit [OF plainD(3) [OF a(1)] t1, of k] k(1) unat_digit [of "?d AND (?p - 1)"] by simp_all
  have "\<exists>h1. (case quot of None \<Rightarrow> Some h | Some q \<Rightarrow> do { s \<leftarrow> low_zeros ?p 0 Dbits; mpright a1 (int s) q h }) = Some h1 \<and> changes (set_option quot) h h1
     \<and> mh_next h1 = mh_next h \<and> opt_val Z h1 quot (int (mag b1 ds1) div int (mag b2 ds2)) \<and> (\<exists>c es. mp_plain h1 a1 c es)"
  proof (cases quot)
    case None
    then show ?thesis using a by (auto simp: opt_val_def)
  next
    case (Some qa)
    then obtain b ds where b: "mp_plain h qa b ds" "mp_out h qa b ds" "Z \<le> mp_size b" using q opt_outE by blast
    have sv: "shifted (mp_sign b1 * int (mag b1 ds1)) (- int k) = int (mag b1 ds1) div int (mag b2 ds2)"
      using shifted_mag(2) [OF plainD(3) [OF a(1)], of k] a(2) m2 k(3) by (simp add: zdiv_int)
    have rs: "result (mpright a1 (int k) qa h) h qa b (int (mag b1 ds1) div int (mag b2 ds2))"
      using mpshift_result(2) [OF plain_in [OF a(1)] b(2) plainD(5) [OF b(1)] plainD(2) [OF b(1)], of "int k"] unfolding sv by simp
    obtain h' b' ds' where h': "mpright a1 (int k) qa h = Some h'" "changes {qa} h h'" "mh_next h' = mh_next h" "mp_plain h' qa b' ds'"
      "mp_val h' qa (int (mag b1 ds1) div int (mag b2 ds2))" "mp_var h' qa" "has_room Z h' qa" using result_changes [OF rs outD(3,6) [OF b(2)]] b(3) by metis
    then show ?thesis using Some lz still_timesafe [OF h'(2,4) a(1)] by (intro exI [of _ h']) (simp add: opt_val_def)
  qed
  then obtain h1 c es where h1: "(case quot of None \<Rightarrow> Some h | Some q \<Rightarrow> do { s \<leftarrow> low_zeros ?p 0 Dbits; mpright a1 (int s) q h }) = Some h1"
    "changes (set_option quot) h h1" "mh_next h1 = mh_next h" "opt_val Z h1 quot (int (mag b1 ds1) div int (mag b2 ds2))" "mp_plain h1 a1 c es" by blast
  have e: "div_power2 a1 a2 quot rest h = (case rest of None \<Rightarrow> Some h1 | Some re \<Rightarrow> do {
      h \<leftarrow> upd_mp re (\<lambda>b. b\<lparr>mp_timesafe := mp_timesafe b \<or> mp_timesafe c\<rparr>) h1; vtomp ?r re h })"
    unfolding div_power2_def Let_def plainD(6) [OF a(1)] ld Option.bind.simps h1(1) plainD(6) [OF h1(5)] by (rule refl)
  show ?thesis
  proof (cases rest)
    case None
    then show ?thesis using e h1 by (simp add: div_done_def opt_val_def)
  next
    case (Some ra)
    have nq: "set_option rest \<inter> set_option quot = {}" using Some ne by (cases quot) auto
    have "opt_out h1 rest (\<lambda>b. 2 \<le> mp_size b)" using opt_out_keep [OF h1(2) nq] r by simp
    then obtain b ds where b: "mp_plain h1 ra b ds" "mp_out h1 ra b ds" "2 \<le> mp_size b" using Some opt_outE by blast
    have "b\<lparr>mp_timesafe := mp_timesafe b \<or> mp_timesafe c\<rparr> = b" using plainD(4) [OF b(1)] plainD(4) [OF h1(5)] by simp
    then have u: "upd_mp ra (\<lambda>b. b\<lparr>mp_timesafe := mp_timesafe b \<or> mp_timesafe c\<rparr>) h1 = Some h1"
      using upd_mp_at [OF outD(1) [OF b(2)]] put_mp_same [OF outD(1) [OF b(2)]] by simp
    obtain h' where h': "vtomp ?r ra h1 = Some h'" "changes {ra} h1 h'" "mh_next h' = mh_next h1" "mp_val h' ra (int (unat ?r))" "mp_var h' ra" "has_room 2 h' ra"
      using result_changes [OF vtomp_result [OF b(2,3) rv(2)] outD(3,6) [OF b(2)]] b(3) by metis
    have "int (unat ?r) = int (mag b1 ds1) mod int (mag b2 ds2)" unfolding rv(1) m2 k(3) by (simp add: zmod_int)
    moreover have "opt_val Z h' quot (int (mag b1 ds1) div int (mag b2 ds2))" using opt_val_keep [OF h'(2), of quot] h1(4) nq Some by auto
    ultimately show ?thesis using e u h' h1(2,3) Some changes_trans [OF h1(2) h'(2)] by (simp add: div_done_def opt_val_def)
  qed
qed

section \<open>The operands\<close>

lemma wf_positive: "mp_wf b ds \<Longrightarrow> mp_sign b * int (mag b ds) = int n \<Longrightarrow> mp_sign b = 1 \<and> mag b ds = n"
  by (auto simp: mp_wf_def mp_sized_def)

lemma changes_heap: "changes S h h' \<Longrightarrow> mp_heap h \<Longrightarrow> mh_next h \<le> mh_next h' \<Longrightarrow> S \<subseteq> {..< mh_next h'} \<Longrightarrow> mp_heap h'"
  unfolding mp_heap_def changes_def by (metis lessThan_iff not_le order_trans subsetD)

lemma plain_less: "mp_heap h \<Longrightarrow> mp_plain h a b ds \<Longrightarrow> a < mh_next h"
  using mp_heapD plainD(1) by blast

text \<open>A new number that gets a value.\<close>

definition fresh :: "mpheap \<Rightarrow> nat \<Rightarrow> mpheap \<Rightarrow> bool" where
  "fresh h x h' \<longleftrightarrow> x = mh_next h \<and> mh_next h' = Suc x \<and> changes {x} h h' \<and> mp_heap h'"

definition positive :: "mpheap \<Rightarrow> nat \<Rightarrow> mpint \<Rightarrow> mpdigit list \<Rightarrow> nat \<Rightarrow> bool" where
  "positive h x b ds n \<longleftrightarrow> mp_plain h x b ds \<and> mp_sign b = 1 \<and> mag b ds = n"

lemma new_value:
  assumes h: "mp_heap h" and n: "0 \<le> n"
    and f: "\<And>h1 b ds. changes {mh_next h} h h1 \<Longrightarrow> mp_plain h1 (mh_next h) b ds \<Longrightarrow> mp_out h1 (mh_next h) b ds \<Longrightarrow> result (f (mh_next h) h1) h1 (mh_next h) b (int v)"
  shows "\<exists>h' b ds. do { (x, h) \<leftarrow> mpnew n h; h \<leftarrow> f x h; Some (x, h) } = Some (mh_next h, h') \<and> fresh h (mh_next h) h' \<and> positive h' (mh_next h) b ds v
    \<and> \<not> mp_static b \<and> nat (DIGITS n) \<le> mp_size b"
proof -
  define x where "x = mh_next h"
  obtain b ds where b: "mpnew n h = Some (x, with_new x b ds h)" "mp_wf b ds" "mp_norm b" "\<not> mp_timesafe b" "\<not> mp_static b" "nat (DIGITS n) \<le> mp_size b"
    using mpnew_room [OF n, of h] unfolding x_def by blast
  let ?h = "with_new x b ds h"
  have p: "mp_plain ?h x b ds" "mp_out ?h x b ds" using b by (simp_all add: mp_plain_def mp_out_def mp_wf_def)
  have rs: "result (f x ?h) ?h x b (int v)" using f [of ?h b ds] p unfolding x_def by simp
  obtain h' b' ds' where h': "f x ?h = Some h'" "changes {x} ?h h'" "mh_next h' = mh_next ?h" "mp_plain h' x b' ds'" "mp_sign b' * int (mag b' ds') = int v"
    "\<not> mp_static b'" "mp_size b \<le> mp_size b'" using result_changes [OF rs b(4,5)] by metis
  have nx: "mh_next h' = Suc x" using h'(3) by (simp add: with_new_def)
  have c: "changes {x} h h'" using changes_trans [OF changes_new h'(2)] by simp
  have "mp_heap h'" by (rule changes_heap [OF c h]) (simp_all add: nx x_def)
  then have "fresh h x h'" using nx c by (simp add: fresh_def x_def)
  moreover have "positive h' x b' ds' v" using h'(4) wf_positive [OF plainD(2) [OF h'(4)] h'(5)] by (simp add: positive_def)
  moreover have "do { (x, h) \<leftarrow> mpnew n h; h \<leftarrow> f x h; Some (x, h) } = Some (x, h')" using b(1) h'(1) by simp
  ultimately show ?thesis using h'(6,7) b(6) unfolding x_def by (intro exI [of _ h'] exI [of _ b'] exI [of _ ds']) simp
qed

lemma positive_keep: "changes S h h' \<Longrightarrow> x \<notin> S \<Longrightarrow> positive h x b ds n \<Longrightarrow> positive h' x b ds n"
  by (simp add: positive_def changes_plain)

lemma assign_positive:
  assumes "positive h a b1 ds1 n" "mp_out h r b ds"
  shows "result (mpassign a r h) h r b (int n)"
  using mpassign_result [of h a b1 ds1 r b ds] assms by (simp add: positive_def)

lemma left_positive:
  assumes "positive h a b1 ds1 n" "mp_out h r b ds" "mp_plain h r b ds" "s < Dbits"
  shows "result (mpleft a (int s) r h) h r b (int (2 ^ s * n))"
proof -
  have "mp_plain h a b1 ds1" "mp_sign b1 * int (mag b1 ds1) = int n" using assms(1) by (simp_all add: positive_def)
  moreover have "shifted (int n) (int s) = int (2 ^ s * n)" by (auto simp: shifted_def sgn_if)
  ultimately show ?thesis using mpshift_result(1) [OF plain_in assms(2) plainD(5,2) [OF assms(3)], of a b1 ds1 "int s"] assms(4) by (simp add: shift_fits_def)
qed

text \<open>What D1 makes.\<close>

definition div_ready :: "nat \<Rightarrow> nat \<Rightarrow> nat \<Rightarrow> nat \<Rightarrow> nat \<Rightarrow> nat \<Rightarrow> mpheap \<Rightarrow> mpheap \<Rightarrow> bool" where
  "div_ready a2 u v n N V h h' \<longleftrightarrow> (\<exists>bu us bv vs. positive h' u bu us N \<and> \<not> mp_static bu \<and> n \<le> mp_size bu \<and> positive h' v bv vs V \<and> (v \<noteq> a2 \<longrightarrow> \<not> mp_static bv)
     \<and> u = mh_next h \<and> u \<noteq> v \<and> changes ({u} \<union> ({v} - {a2})) h h' \<and> mp_heap h' \<and> mh_next h < mh_next h' \<and> (v = a2 \<or> mh_next h < v))"

lemma div_operands_correct:
  assumes a: "positive h a1 b1 ds1 N" and d: "positive h a2 b2 ds2 V" and h: "mp_heap h" and s: "s < Dbits"
  shows "\<exists>u v h'. div_operands a1 a2 quot rest s h = Some (u, v, h') \<and> div_ready a2 u v (mp_top b1 + 2 + (if s = 0 then 0 else 1)) (2 ^ s * N) (2 ^ s * V) h h'
    \<and> (v = a2 \<longrightarrow> quot \<noteq> Some a2 \<and> rest \<noteq> Some a2)"
proof -
  define u where "u = mh_next h"
  have la: "a1 < u" "a2 < u" using a d plain_less [OF h] unfolding positive_def u_def by blast+
  let ?n = "int ((mp_top b1 + 2) * Dbits + s)"
  have dg: "nat (DIGITS ?n) = mp_top b1 + 2 + (if s = 0 then 0 else 1)" using DIGITS_left [of "mp_top b1 + 2" s] s by simp
  have i: "mh_ints h a1 = Some b1" "mh_ints h a2 = Some b2" using a d plainD(6) unfolding positive_def by blast+
  show ?thesis
  proof (cases "s = 0 \<and> Some a2 \<noteq> quot \<and> Some a2 \<noteq> rest")
    case True
    have f: "result (mpassign a1 (mh_next h) h1) h1 (mh_next h) b (int N)" if "changes {mh_next h} h h1" "mp_plain h1 (mh_next h) b ds" "mp_out h1 (mh_next h) b ds" for h1 b ds
      by (rule assign_positive [OF positive_keep [OF that(1) _ a] that(3)]) (use la u_def in simp)
    obtain h' b ds where h': "do { (x, h) \<leftarrow> mpnew ?n h; h \<leftarrow> mpassign a1 x h; Some (x, h) } = Some (u, h')" "fresh h u h'" "positive h' u b ds N"
      "\<not> mp_static b" "nat (DIGITS ?n) \<le> mp_size b" using new_value [OF h, of ?n "mpassign a1" N] f unfolding u_def by auto
    have "div_operands a1 a2 quot rest s h = Some (u, a2, h')"
      unfolding div_operands_def i Option.bind.simps if_P [OF True] using h'(1) by (auto simp: bind_Some_iff split: prod.splits)
    moreover have "positive h' a2 b2 ds2 V" using positive_keep [OF _ _ d] h'(2) la unfolding fresh_def by blast
    ultimately show ?thesis using h'(2-5) la(2) True unfolding dg by (intro exI [of _ u] exI [of _ a2] exI [of _ h']) (auto simp: div_ready_def fresh_def)
  next
    case False
    have f: "result (mpleft a1 (int s) (mh_next h) h1) h1 (mh_next h) b (int (2 ^ s * N))"
      if "changes {mh_next h} h h1" "mp_plain h1 (mh_next h) b ds" "mp_out h1 (mh_next h) b ds" for h1 b ds
      by (rule left_positive [OF positive_keep [OF that(1) _ a] that(3,2) s]) (use la u_def in simp)
    obtain h1 b ds where h1: "do { (x, h) \<leftarrow> mpnew ?n h; h \<leftarrow> mpleft a1 (int s) x h; Some (x, h) } = Some (u, h1)" "fresh h u h1" "positive h1 u b ds (2 ^ s * N)"
      "\<not> mp_static b" "nat (DIGITS ?n) \<le> mp_size b" using new_value [OF h, of ?n "mpleft a1 (int s)" "2 ^ s * N"] f unfolding u_def by auto
    have d1: "positive h1 a2 b2 ds2 V" using positive_keep [OF _ _ d] h1(2) la unfolding fresh_def by blast
    have hp: "mp_heap h1" "mh_next h1 = Suc u" using h1(2) by (simp_all add: fresh_def)
    let ?k = "int (mp_top b2 * Dbits)"
    have g: "result (mpleft a2 (int s) (mh_next h1) h2) h2 (mh_next h1) b (int (2 ^ s * V))"
      if "changes {mh_next h1} h1 h2" "mp_plain h2 (mh_next h1) b ds" "mp_out h2 (mh_next h1) b ds" for h2 b ds
      by (rule left_positive [OF positive_keep [OF that(1) _ d1] that(3,2) s]) (use la hp in simp)
    obtain h2 c es where h2: "do { (x, h) \<leftarrow> mpnew ?k h1; h \<leftarrow> mpleft a2 (int s) x h; Some (x, h) } = Some (Suc u, h2)" "fresh h1 (Suc u) h2"
      "positive h2 (Suc u) c es (2 ^ s * V)" "\<not> mp_static c" using new_value [OF hp(1), of ?k "mpleft a2 (int s)" "2 ^ s * V"] g unfolding hp(2) by auto
    have "div_operands a1 a2 quot rest s h = Some (u, Suc u, h2)"
      unfolding div_operands_def i Option.bind.simps if_not_P [OF False] using h1(1) h2(1) by (auto simp: bind_Some_iff split: prod.splits)
    moreover have "positive h2 u b ds (2 ^ s * N)" 
    proof -
      have c: "changes {Suc u} h1 h2" using h2(2) unfolding fresh_def by blast
      show ?thesis by (rule positive_keep [OF c _ h1(3)]) simp
    qed
    moreover have "changes ({u} \<union> {Suc u}) h h2" using changes_trans h1(2) h2(2) unfolding fresh_def by blast
    moreover have "{u} \<union> ({Suc u} - {a2}) = {u} \<union> {Suc u}" using la(2) by auto
    ultimately show ?thesis using h1(2,4,5) h2(2-4) la(2) unfolding dg div_ready_def
      by (intro exI [of _ u] exI [of _ "Suc u"] exI [of _ h2] conjI exI [of _ b] exI [of _ ds] exI [of _ c] exI [of _ es]) (simp_all add: fresh_def u_def)
  qed
qed

section \<open>D1a\<close>

lemma top_digits:
  assumes "mp_sized b ds" "0 < mp_top b"
  shows "take (mp_top b) ds = take (mp_top b - 1) ds @ [ds ! (mp_top b - 1)]"
    and "mag b ds < 2 ^ (Dbits * (mp_top b - 1)) * (unat (ds ! (mp_top b - 1)) + 1)" "2 ^ (Dbits * (mp_top b - 1)) * unat (ds ! (mp_top b - 1)) \<le> mag b ds"
proof -
  obtain k where k: "mp_top b = Suc k" using assms(2) by (cases "mp_top b") auto
  then have kl: "k < length ds" using assms(1) by (simp add: mp_sized_def)
  show t: "take (mp_top b) ds = take (mp_top b - 1) ds @ [ds ! (mp_top b - 1)]" unfolding k using take_Suc_conv_app_nth [OF kl] by simp
  have "mag b ds = digval (take k ds) + 2 ^ (Dbits * k) * unat (ds ! k)" unfolding mag_def t using k kl by (simp add: digval_append min_def)
  moreover have "digval (take k ds) < 2 ^ (Dbits * k)" using digval_bound [of "take k ds"] kl by (simp add: min_def)
  ultimately show "mag b ds < 2 ^ (Dbits * (mp_top b - 1)) * (unat (ds ! (mp_top b - 1)) + 1)" "2 ^ (Dbits * (mp_top b - 1)) * unat (ds ! (mp_top b - 1)) \<le> mag b ds"
    using k by simp_all
qed

lemma divisor_top:
  assumes "mp_sized b ds" "0 < mp_top b"
  shows "2 ^ (Dbits * mp_top b) * unat (ds ! (mp_top b - 1)) \<le> mag b ds * 2 ^ Dbits"
proof -
  obtain k where k: "mp_top b = Suc k" using assms(2) by (cases "mp_top b") auto
  have "2 ^ (Dbits * k) * unat (ds ! k) \<le> mag b ds" using top_digits(3) [OF assms] k by simp
  then have "2 ^ (Dbits * k) * unat (ds ! k) * 2 ^ Dbits \<le> mag b ds * 2 ^ Dbits" by (rule mult_le_mono1)
  then show ?thesis unfolding k by (simp add: power_add mult.commute mult.left_commute)
qed

text \<open>The dividend with its top.\<close>

definition div_dividend :: "mpheap \<Rightarrow> nat \<Rightarrow> mpint \<Rightarrow> mpdigit list \<Rightarrow> nat \<Rightarrow> nat \<Rightarrow> nat \<Rightarrow> bool" where
  "div_dividend h u c es N V vn \<longleftrightarrow> mp_out h u c es \<and> mp_sign c = 1 \<and> mag c es = N \<and> vn < mp_top c \<and> mp_top c < mp_size c
     \<and> digval (drop (mp_top c - vn - 1) (take (mp_top c) es)) < V * 2 ^ Dbits"

lemma div_top_correct:
  assumes u: "positive h u bu us N" "\<not> mp_static bu" and v: "positive h v bv vs V" and le: "0 < V" "V \<le> N" and sz: "mp_top bu + 2 \<le> mp_size bu" and ne: "u \<noteq> v"
  shows "\<exists>c es. div_top u v h = Some (put_mp u c es h) \<and> div_dividend (put_mp u c es h) u c es N V (mp_top bv)"
proof -
  have pu: "mp_plain h u bu us" "mp_sign bu = 1" "mag bu us = N" and pv: "mp_plain h v bv vs" "mag bv vs = V" using u v by (simp_all add: positive_def)
  let ?n = "mp_top bu" and ?vn = "mp_top bv"
  have t: "0 < ?n" "0 < ?vn" using norm_zero [OF plainD(2,5) [OF pu(1)]] norm_zero [OF plainD(2,5) [OF pv(1)]] pu(3) pv(2) le by simp_all
  have nv: "?vn \<le> ?n" using top_less_mag [OF plainD(2) [OF pu(1)] plainD(2,5) [OF pv(1)]] pu(3) pv(2) le(2) by (metis not_le)
  have szu: "length us = mp_size bu" using plainD(3) [OF pu(1)] by (simp add: mp_sized_def)
  let ?up = "us ! (?n - 1)" and ?vp = "vs ! (?vn - 1)"
  have ld: "dld (mh_mem h) (u, ?n - 1) = Some ?up" "dld (mh_mem h) (v, ?vn - 1) = Some ?vp"
    using plainD(3,7) [OF pu(1)] plainD(3,7) [OF pv(1)] t by (auto simp: dld_def mp_sized_def)
  note dv = divisor_top [OF plainD(3) [OF pv(1)] t(2), unfolded pv(2)]
  have vp: "0 < unat ?vp" using plainD(2,5) [OF pv(1)] t(2) by (simp add: mp_wf_def unat_gt_0)
  show ?thesis
  proof (cases "?up \<ge> ?vp")
    case True
    let ?c = "bu\<lparr>mp_top := ?n + 1\<rparr>" and ?es = "take ?n us @ 0 # drop (Suc ?n) us"
    have "put (mh_mem h) (u, ?n) [0] = (mh_mem h)(u \<mapsto> ?es)" using plainD(7) [OF pu(1)] by (simp add: put_def)
    moreover have "room (mh_mem h) (u, ?n) 1" using plainD(7) [OF pu(1)] szu sz by (simp add: room_def)
    ultimately have "in_mem (\<lambda>m. dst m (u, ?n) 0) h = Some (put_mp u bu ?es h)"
      using plainD(6) [OF pu(1)] by (simp add: in_mem_def put_mp_def fun_upd_idem)
    then have e: "div_top u v h = Some (put_mp u ?c ?es h)" using True plainD(6) [OF pu(1)] plainD(6) [OF pv(1)] ld by (simp add: div_top_def)
    have tk: "take (Suc ?n) ?es = take ?n us @ [0]" using szu sz by simp
    have m: "mag ?c ?es = N" unfolding mag_def using pu(3) tk by (simp add: digval_append mag_def)
    have "digval (drop (?n - ?vn) (take ?n us @ [0])) = digval (drop (?n - ?vn) (take ?n us))" using szu sz by (simp add: digval_append)
    also have "\<dots> < 2 ^ (Dbits * ?vn)" using digval_bound [of "drop (?n - ?vn) (take ?n us)"] szu sz nv by simp
    also have "\<dots> \<le> 2 ^ (Dbits * ?vn) * unat ?vp" using vp by simp
    also note dv
    finally have "digval (drop (?n - ?vn) (take (Suc ?n) ?es)) < V * 2 ^ Dbits" unfolding tk .
    then have "div_dividend (put_mp u ?c ?es h) u ?c ?es N V ?vn"
      unfolding div_dividend_def m using u(2) plainD(3,4) [OF pu(1)] pu(2) nv sz szu by (simp add: mp_out_def mp_sized_def Suc_diff_le)
    then show ?thesis using e by blast
  next
    case False
    then have lt: "unat ?up + 1 \<le> unat ?vp" by (simp add: word_le_nat_alt)
    have e: "div_top u v h = Some (put_mp u bu us h)" using False plainD(6) [OF pu(1)] plainD(6) [OF pv(1)] ld put_mp_same [OF plainD(1) [OF pu(1)]] by (simp add: div_top_def)
    have "?n \<noteq> ?vn"
    proof
      assume q: "?n = ?vn"
      have "N < 2 ^ (Dbits * (?vn - 1)) * (unat ?up + 1)" using top_digits(2) [OF plainD(3) [OF pu(1)] t(1)] pu(3) q by simp
      also have "\<dots> \<le> 2 ^ (Dbits * (?vn - 1)) * unat ?vp" using lt by (intro mult_le_mono2)
      also have "\<dots> \<le> V" using top_digits(3) [OF plainD(3) [OF pv(1)] t(2)] pv(2) by simp
      finally show False using le(2) by simp
    qed
    then have nv': "?vn < ?n" using nv by simp
    have "drop (?n - ?vn - 1) (take ?n us) = drop (?n - ?vn - 1) (take (?n - 1) us) @ [?up]"
      unfolding top_digits(1) [OF plainD(3) [OF pu(1)] t(1)] using nv' szu sz by simp
    moreover have ln: "length (drop (?n - ?vn - 1) (take (?n - 1) us)) = ?vn" using nv' szu sz by simp
    ultimately have "digval (drop (?n - ?vn - 1) (take ?n us)) = digval (drop (?n - ?vn - 1) (take (?n - 1) us)) + 2 ^ (Dbits * ?vn) * unat ?up"
      by (simp add: digval_append)
    also have "\<dots> < 2 ^ (Dbits * ?vn) * (unat ?up + 1)" using digval_bound [of "drop (?n - ?vn - 1) (take (?n - 1) us)"] ln by simp
    also have "\<dots> \<le> 2 ^ (Dbits * ?vn) * unat ?vp" using lt by (intro mult_le_mono2)
    also note dv
    finally have "div_dividend (put_mp u bu us h) u bu us N V ?vn"
      unfolding div_dividend_def using u(2) plainD(3,4) [OF pu(1)] pu(2,3) nv' sz by (simp add: mp_out_def)
    then show ?thesis using e by blast
  qed
qed

section \<open>The loop on the heap\<close>

lemma div_quot_room:
  assumes q: "opt_out h quot (\<lambda>b. mp_sign b = \<sigma> \<and> Z \<le> mp_size b)" and n: "vn \<le> n"
  shows "\<exists>h'. (case quot of None \<Rightarrow> Some h | Some q \<Rightarrow> do {
         h \<leftarrow> mpbits q ((int n - int vn) * int Dbits) h;
         upd_mp q (\<lambda>b. b\<lparr>mp_top := n - vn\<rparr>) h
       }) = Some h' \<and> changes (set_option quot) h h' \<and> mh_next h' = mh_next h
     \<and> (\<forall>q. quot = Some q \<longrightarrow> (\<exists>b ds. mp_out h' q b ds \<and> mp_sign b = \<sigma> \<and> Z \<le> mp_size b \<and> mp_top b = n - vn))"
proof (cases quot)
  case (Some q)
  obtain b ds where b: "mp_plain h q b ds" "mp_out h q b ds" "mp_sign b = \<sigma>" "Z \<le> mp_size b" using q Some opt_outE by blast
  have e: "int n - int vn = int (n - vn)" using n by simp
  have dg: "nat (DIGITS (int (n - vn) * int Dbits)) = n - vn" by simp
  obtain c es where c: "mpbits q (int (n - vn) * int Dbits) h = Some (put_mp q c es h)" "mp_sized c es" "take (mp_top b) es = take (mp_top b) ds"
    "mp_top b \<le> length es" "n - vn \<le> length es" "like b c" "mp_sign c = mp_sign b" by (rule room_bits [OF b(2) dg])
  let ?c = "c\<lparr>mp_top := n - vn\<rparr>"
  have "mp_out (put_mp q ?c es h) q ?c es" using c(2,5,6) outD(3,6) [OF b(2)] by (simp add: mp_out_def mp_sized_def like_def)
  then show ?thesis unfolding Some option.case e c(1) using c(6,7) b(3,4) by (intro exI [of _ "put_mp q ?c es h"]) (auto intro!: exI [of _ ?c] exI [of _ es] simp: like_def)
qed simp

lemma out_seg: "mp_out h a b ds \<Longrightarrow> seg (mh_mem h) (a, 0) (take (mp_top b) ds)" "mp_out h a b ds \<Longrightarrow> n \<le> mp_size b \<Longrightarrow> room (mh_mem h) (a, 0) n"
  by (auto simp: mp_out_def mp_at_def mp_sized_def seg_whole room_whole)

lemma seg_take_whole: "m a = Some ds \<Longrightarrow> seg m (a, 0) xs \<Longrightarrow> take (length xs) ds = xs"
  by (auto simp: seg_def)

text \<open>What the loop leaves in a number.\<close>

lemma out_after:
  assumes "mp_out h a b ds" "alters S (mh_mem h) m" "seg m (a, 0) xs" "length xs \<le> mp_size b"
  shows "\<exists>es. mp_out (h\<lparr>mh_mem := m\<rparr>) a b es \<and> digval (take (length xs) es) = digval xs"
proof -
  have "map_option length (m a) = map_option length (mh_mem h a)" using assms(2) by (simp add: alters_def)
  then obtain es where es: "m a = Some es" "length es = length ds" using outD(5) [OF assms(1)] by (cases "m a") auto
  then have "mp_out (h\<lparr>mh_mem := m\<rparr>) a b es" using assms(1) by (simp add: mp_out_def mp_at_def mp_sized_def)
  then show ?thesis using seg_take_whole [OF es(1) assms(3)] by auto
qed

lemma div_loop_heap:
  assumes u: "div_dividend h u c es N V vn" and v: "positive h v bv vs V" "vn = mp_top bv" "0 < V" and t: "mp_out h t bt ts" "3 \<le> mp_size bt"
    and q: "\<And>q. quot = Some q \<Longrightarrow> \<exists>b ds. mp_out h q b ds \<and> mp_sign b = \<sigma> \<and> Z \<le> mp_size b \<and> mp_top b = mp_top c - vn"
    and ne: "u \<noteq> v" "t \<noteq> u" "t \<noteq> v" "set_option quot \<inter> {u, v, t} = {}"
  shows "\<exists>m. div_loop (mh_mem h) u v vn t quot (mp_top c - vn) = Some m \<and> alters ({u, t} \<union> set_option quot) (mh_mem h) m
    \<and> (\<exists>es. mp_out (h\<lparr>mh_mem := m\<rparr>) u c es \<and> digval (take vn es) = N mod V)
    \<and> (\<forall>q. quot = Some q \<longrightarrow> (\<exists>b ds. mp_out (h\<lparr>mh_mem := m\<rparr>) q b ds \<and> mp_sign b = \<sigma> \<and> Z \<le> mp_size b \<and> mag b ds = N div V))"
proof -
  let ?us = "take (mp_top c) es" and ?vs = "take vn vs" and ?k = "mp_top c - vn"
  have uo: "mp_out h u c es" "mag c es = N" "vn < mp_top c" "mp_top c < mp_size c" "digval (drop (?k - 1) ?us) < V * 2 ^ Dbits"
    using u by (simp_all add: div_dividend_def)
  have pv: "mp_plain h v bv vs" "mag bv vs = V" using v(1) by (simp_all add: positive_def)
  have lv: "length ?vs = vn" using top_length [OF plainD(3) [OF pv(1)]] v(2) by simp
  have lu: "length ?us = mp_top c" using top_length [OF outD(2) [OF uo(1)]] .
  have vn: "0 < vn" using norm_zero [OF plainD(2,5) [OF pv(1)]] pv(2) v(2,3) by simp
  have vv: "digval ?vs = V" using pv(2) v(2) by (simp add: mag_def)
  have sv: "seg (mh_mem h) (v, 0) ?vs" using plainD(3,7) [OF pv(1)] v(2) by (simp add: seg_whole mp_sized_def)
  have le: "vn \<le> length vs" using lv by simp
  then have ne': "?vs \<noteq> []" using vn by auto
  have "last ?vs = vs ! (vn - 1)" unfolding last_conv_nth [OF ne'] lv using vn by simp
  then have lst: "?vs \<noteq> []" "last ?vs \<noteq> 0" using ne' vn plainD(2,5) [OF pv(1)] v(2) by (simp_all add: mp_wf_def)
  have qr: "room (mh_mem h) (qa, 0) ?k" if qs: "quot = Some qa" for qa
  proof -
    obtain b ds where b: "mp_out h qa b ds" "mp_top b = ?k" using q [OF qs] by blast
    then show ?thesis using out_seg(2) [OF b(1)] outD(2) [OF b(1)] by (simp add: mp_sized_def)
  qed
  have st: "div_state (mh_mem h) u v t quot ?us ?vs ?k"
    unfolding div_state_def lv lu vv using out_seg(1) [OF uo(1)] out_seg(2) [OF uo(1), of "Suc (mp_top c)"] out_seg(2) [OF t] sv uo(3-5) ne qr by auto
  obtain m rs where m: "div_loop (mh_mem h) u v vn t quot ?k = Some m" "alters ({u, t} \<union> set_option quot) (mh_mem h) m" "seg m (u, 0) rs" "length rs = vn"
    "digval rs = N mod V" "\<forall>a. quot = Some a \<longrightarrow> (\<exists>qs. seg m (a, 0) qs \<and> length qs = ?k \<and> digval qs = N div V)"
    using div_loop_correct [OF st lst] unfolding lv vv uo(2) [unfolded mag_def] by blast
  have "\<exists>es. mp_out (h\<lparr>mh_mem := m\<rparr>) u c es \<and> digval (take vn es) = N mod V" using out_after [OF uo(1) m(2,3)] m(4,5) uo(3,4) by simp
  moreover have "\<exists>b ds. mp_out (h\<lparr>mh_mem := m\<rparr>) qa b ds \<and> mp_sign b = \<sigma> \<and> Z \<le> mp_size b \<and> mag b ds = N div V" if qe: "quot = Some qa" for qa
  proof -
    obtain b ds where b: "mp_out h qa b ds" "mp_sign b = \<sigma>" "mp_top b = ?k" "Z \<le> mp_size b" using q [OF qe] by blast
    obtain qs where qs: "seg m (qa, 0) qs" "length qs = ?k" "digval qs = N div V" using m(6) qe by blast
    have "length qs \<le> mp_size b" using outD(2) [OF b(1)] b(3) qs(2) by (simp add: mp_sized_def)
    from out_after [OF b(1) m(2) qs(1) this] obtain fs where "mp_out (h\<lparr>mh_mem := m\<rparr>) qa b fs" "digval (take ?k fs) = N div V" unfolding qs(2,3) by blast
    then show ?thesis using b(2,3,4) by (intro exI [of _ b] exI [of _ fs]) (simp add: mag_def)
  qed
  ultimately show ?thesis using m(1,2) by (intro exI [of _ m]) simp
qed

section \<open>The results\<close>

definition sign_one :: "mpheap \<Rightarrow> nat \<Rightarrow> bool" where
  "sign_one h a \<longleftrightarrow> (\<exists>b. mh_ints h a = Some b \<and> mp_sign b = 1)"

text \<open>An operation that leaves a positive number in \<open>r\<close>.\<close>

lemma result_positive:
  assumes "result res h r b (int n)" "\<not> mp_timesafe b" "\<not> mp_static b"
  obtains h' b' ds' where "res = Some h'" "changes {r} h h'" "mh_next h' = mh_next h" "positive h' r b' ds' n" "mp_val h' r (int n)" "mp_var h' r" "\<And>k. k \<le> mp_size b \<Longrightarrow> has_room k h' r"
    "\<And>a. sign_one h a \<Longrightarrow> sign_one h' a"
proof -
  obtain h' b' ds' where h': "res = Some h'" "changes {r} h h'" "mh_next h' = mh_next h" "mp_plain h' r b' ds'" "mp_sign b' * int (mag b' ds') = int n"
    "mp_val h' r (int n)" "mp_var h' r" "\<And>k. k \<le> mp_size b \<Longrightarrow> has_room k h' r" using result_changes [OF assms] by metis
  have p: "positive h' r b' ds' n" using h'(4) wf_positive [OF plainD(2) [OF h'(4)] h'(5)] by (simp add: positive_def)
  have "sign_one h' a" if "sign_one h a" for a
  proof (cases "a = r")
    case True
    then show ?thesis using p plainD(6) [OF h'(4)] by (simp add: positive_def sign_one_def)
  next
    case False
    then show ?thesis using \<open>sign_one h a\<close> h'(2) by (simp add: sign_one_def changes_def)
  qed
  then show thesis using that [OF h'(1-3) p h'(6,7,8)] by blast
qed

lemma div_quotient_result:
  assumes q: "\<And>q. quot = Some q \<Longrightarrow> \<exists>b ds. mp_out h q b ds \<and> mp_sign b = \<sigma> \<and> Z \<le> mp_size b \<and> mag b ds = Q" and s: "sign_one h a1" "sign_one h a2"
  shows "\<exists>h'. (case quot of None \<Rightarrow> Some h | Some q \<Rightarrow> do {
         b \<leftarrow> mh_ints h q;
         if mp_timesafe b then None
         else do {
           h \<leftarrow> mpnorm q h;
           b1 \<leftarrow> mh_ints h a1;
           b2 \<leftarrow> mh_ints h a2;
           if mp_sign b1 \<noteq> mp_sign b2 then upd_mp q (\<lambda>b. b\<lparr>mp_sign := - 1\<rparr>) h else Some h
         }
       }) = Some h' \<and> changes (set_option quot) h h' \<and> mh_next h' = mh_next h \<and> opt_val Z h' quot (\<sigma> * int Q) \<and> sign_one h' a1"
proof (cases quot)
  case None
  then show ?thesis using s by (simp add: opt_val_def)
next
  case (Some qa)
  obtain b ds where b: "mp_out h qa b ds" "mp_sign b = \<sigma>" "mag b ds = Q" "Z \<le> mp_size b" using q [OF Some] by blast
  have "result (mpnorm qa (put_mp qa b ds h)) h qa b (\<sigma> * int Q)" by (rule mpnorm_result [OF outD(2) [OF b(1)] like_self outD(3) [OF b(1)]]) (use b in simp)
  then have rs: "result (mpnorm qa h) h qa b (\<sigma> * int Q)" unfolding put_mp_same [OF outD(1) [OF b(1)]] .
  obtain h' b' ds' where h': "mpnorm qa h = Some h'" "changes {qa} h h'" "mh_next h' = mh_next h" "mp_plain h' qa b' ds'" "mp_sign b' * int (mag b' ds') = \<sigma> * int Q"
    "mp_val h' qa (\<sigma> * int Q)" "mp_var h' qa" "has_room Z h' qa" using result_changes [OF rs outD(3,6) [OF b(1)]] b(4) by metis
  have sn: "sign_one h' x" if sx: "sign_one h x" for x
  proof (cases "x = qa")
    case True
    then have "\<sigma> = 1" using sx b(2) outD(4) [OF b(1)] by (simp add: sign_one_def)
    then show ?thesis using True wf_positive [OF plainD(2) [OF h'(4)], of Q] h'(5) plainD(6) [OF h'(4)] by (simp add: sign_one_def)
  qed (use sx h'(2) in \<open>simp add: sign_one_def changes_def\<close>)
  obtain c1 c2 where c: "mh_ints h' a1 = Some c1" "mp_sign c1 = 1" "mh_ints h' a2 = Some c2" "mp_sign c2 = 1"
    using sn [OF s(1)] sn [OF s(2)] unfolding sign_one_def by blast
  then show ?thesis unfolding Some using h' outD(3,4) [OF b(1)] by (intro exI [of _ h']) (simp add: opt_val_def sign_one_def)
qed

lemma div_results_correct:
  assumes u: "mp_out h u c es" "mp_sign c = 1" "mag c es = 2 ^ s * R"
    and q: "\<And>q. quot = Some q \<Longrightarrow> \<exists>b ds. mp_out h q b ds \<and> mp_sign b = \<sigma> \<and> Z \<le> mp_size b \<and> mag b ds = Q" and r: "opt_out h rest (\<lambda>b. 2 \<le> mp_size b)"
    and sg: "sign_one h a1" "sign_one h a2" and ne: "quot = None \<or> quot \<noteq> rest" "quot \<noteq> Some u" "rest \<noteq> Some u"
  shows "\<exists>h'. div_results a1 a2 quot rest s u h = Some h' \<and> changes (set_option quot \<union> set_option rest) h h' \<and> mh_next h' = mh_next h
    \<and> opt_val Z h' quot (\<sigma> * int Q) \<and> opt_val 2 h' rest (int R)"
proof -
  obtain h1 where h1: "(case quot of None \<Rightarrow> Some h | Some q \<Rightarrow> do {
         b \<leftarrow> mh_ints h q;
         if mp_timesafe b then None
         else do {
           h \<leftarrow> mpnorm q h;
           b1 \<leftarrow> mh_ints h a1;
           b2 \<leftarrow> mh_ints h a2;
           if mp_sign b1 \<noteq> mp_sign b2 then upd_mp q (\<lambda>b. b\<lparr>mp_sign := - 1\<rparr>) h else Some h
         }
       }) = Some h1" "changes (set_option quot) h h1" "mh_next h1 = mh_next h" "opt_val Z h1 quot (\<sigma> * int Q)" "sign_one h1 a1"
    using div_quotient_result [OF q sg] by blast
  show ?thesis
  proof (cases rest)
    case None
    then show ?thesis using h1 unfolding div_results_def h1(1) Option.bind.simps by (simp add: opt_val_def)
  next
    case (Some re)
    have nq: "set_option rest \<inter> set_option quot = {}" using Some ne by (cases quot) auto
    have "opt_out h1 rest (\<lambda>b. 2 \<le> mp_size b)" using opt_out_keep [OF h1(2) nq] r by simp
    then obtain b ds where b: "mp_plain h1 re b ds" "mp_out h1 re b ds" "2 \<le> mp_size b" using Some opt_outE by blast
    have "mp_out h1 u c es" using changes_out [OF h1(2)] u(1) ne(2) by auto
    then have i: "mp_in h1 u c es" using u(2) by (simp add: mp_in_def mp_out_def)
    have v: "shifted (mp_sign c * int (mag c es)) (- int s) = int R" using shifted_mag(2) [OF inD(2) [OF i], of s] u(2,3) by simp
    have rs: "result (mpright u (int s) re h1) h1 re b (int R)"
      using mpshift_result(2) [OF i b(2) plainD(5) [OF b(1)] plainD(2) [OF b(1)], of "int s"] unfolding v by simp
    obtain h' b' ds' where h': "mpright u (int s) re h1 = Some h'" "changes {re} h1 h'" "mh_next h' = mh_next h1" "positive h' re b' ds' R" "mp_val h' re (int R)" "mp_var h' re"
      "has_room 2 h' re" "\<And>a. sign_one h1 a \<Longrightarrow> sign_one h' a" by (rule result_positive [OF rs outD(3,6) [OF b(2)]]) (use b(3) in blast)
    obtain c1 where c1: "mh_ints h' a1 = Some c1" "mp_sign c1 = 1" using h'(8) [OF h1(5)] unfolding sign_one_def by blast
    have p: "mp_at h' re b' ds'" "mp_sign b' = 1" using h'(4) by (simp_all add: positive_def mp_plain_def)
    have "upd_mp re (\<lambda>b. b\<lparr>mp_sign := 1\<rparr>) h' = Some (put_mp re (b'\<lparr>mp_sign := 1\<rparr>) ds' h')" by (rule upd_mp_at [OF p(1)])
    also have "b'\<lparr>mp_sign := 1\<rparr> = b'" using p(2) by simp
    finally have up: "upd_mp re (\<lambda>b. b\<lparr>mp_sign := 1\<rparr>) h' = Some h'" unfolding put_mp_same [OF p(1)] .
    have "div_results a1 a2 quot rest s u h = Some h'" unfolding div_results_def h1(1) Option.bind.simps using Some outD(3,4) [OF b(2)] h'(1) c1 up by simp
    moreover have "opt_val Z h' quot (\<sigma> * int Q)" using opt_val_keep [OF h'(2), of quot] h1(4) nq Some by auto
    ultimately show ?thesis using h'(3,5,6,7) h1(3) changes_trans [OF h1(2) h'(2)] Some by (intro exI [of _ h']) (simp add: opt_val_def)
  qed
qed

lemma changes_mem: "alters S (mh_mem h) m \<Longrightarrow> changes S h (h\<lparr>mh_mem := m\<rparr>)"
  by (simp add: alters_def changes_def)

lemma div_dividend_keep: "changes S h h' \<Longrightarrow> u \<notin> S \<Longrightarrow> div_dividend h u c es N V vn \<Longrightarrow> div_dividend h' u c es N V vn"
  by (simp add: div_dividend_def changes_out)

text \<open>The value of \<open>u\<close> and of the quotient after D7.\<close>

lemma div_digits_correct:
  assumes u: "positive h u bu us N" "\<not> mp_static bu" "mp_top bu + 2 \<le> mp_size bu" and v: "positive h v bv vs V" and le: "0 < V" "V \<le> N" and ne: "u \<noteq> v"
    and h: "mp_heap h" and q: "opt_out h quot (\<lambda>b. mp_sign b = \<sigma> \<and> Z \<le> mp_size b)" "set_option quot \<inter> {u, v} = {}"
  shows "\<exists>t h'. div_digits u v quot h = Some (t, h') \<and> t = mh_next h \<and> mh_next h' = Suc t \<and> changes ({u, t} \<union> set_option quot) h h'
    \<and> (\<exists>b ds. mp_at h' t b ds \<and> \<not> mp_static b) \<and> (\<exists>c es. mp_out h' u c es \<and> mp_sign c = 1 \<and> mag c es = N mod V)
    \<and> (\<forall>q. quot = Some q \<longrightarrow> (\<exists>b ds. mp_out h' q b ds \<and> mp_sign b = \<sigma> \<and> Z \<le> mp_size b \<and> mag b ds = N div V))"
proof -
  let ?vn = "mp_top bv" and ?q = "set_option quot"
  define t where "t = mh_next h"
  obtain c es where c: "div_top u v h = Some (put_mp u c es h)" "div_dividend (put_mp u c es h) u c es N V ?vn"
    using div_top_correct [OF u(1,2) v le u(3) ne] by blast
  define h2 where "h2 = put_mp u c es h"
  have c2: "changes {u} h h2" "mh_next h2 = t" by (simp_all add: h2_def t_def)
  have "DIGITS (4 * int Dbits) = 4" by (simp add: DIGITS_def Let_def)
  then obtain bt ts where t: "mpnew (4 * int Dbits) h2 = Some (t, with_new t bt ts h2)" "mp_wf bt ts" "\<not> mp_timesafe bt" "\<not> mp_static bt" "4 \<le> mp_size bt"
    using mpnew_room [of "4 * int Dbits" h2] c2(2) by auto
  define h3 where "h3 = with_new t bt ts h2"
  have c3: "changes {t} h2 h3" "mh_next h3 = Suc t" by (simp_all add: h3_def) (simp add: with_new_def)
  have lt: "t \<noteq> u" "t \<noteq> v" "t \<notin> ?q"
  proof -
    show "t \<noteq> u" "t \<noteq> v" using plain_less [OF h] u(1) v unfolding positive_def t_def by blast+
    show "t \<notin> ?q" using plain_less [OF h] q(1) unfolding opt_out_def t_def by (cases quot) auto
  qed
  have d3: "div_dividend h3 u c es N V ?vn" by (rule div_dividend_keep [OF c3(1) _ c(2) [folded h2_def]]) (use lt in simp)
  have c13: "changes ({u} \<union> {t}) h h3" by (rule changes_trans [OF c2(1) c3(1)])
  have v3: "positive h3 v bv vs V" by (rule positive_keep [OF c13 _ v]) (use ne lt in simp)
  have q3: "opt_out h3 quot (\<lambda>b. mp_sign b = \<sigma> \<and> Z \<le> mp_size b)" using opt_out_keep [OF c13, of quot] q lt(3) by auto
  have vn: "?vn < mp_top c" using d3 by (simp add: div_dividend_def)
  obtain h4 where h4: "(case quot of None \<Rightarrow> Some h3 | Some q \<Rightarrow> do {
         h \<leftarrow> mpbits q ((int (mp_top c) - int ?vn) * int Dbits) h3;
         upd_mp q (\<lambda>b. b\<lparr>mp_top := mp_top c - ?vn\<rparr>) h
       }) = Some h4" "changes ?q h3 h4" "mh_next h4 = mh_next h3"
    "\<And>q. quot = Some q \<Longrightarrow> \<exists>b ds. mp_out h4 q b ds \<and> mp_sign b = \<sigma> \<and> Z \<le> mp_size b \<and> mp_top b = mp_top c - ?vn"
    using div_quot_room [OF q3 less_imp_le [OF vn]] by blast
  have d4: "div_dividend h4 u c es N V ?vn" by (rule div_dividend_keep [OF h4(2) _ d3]) (use q(2) in auto)
  have v4: "positive h4 v bv vs V" by (rule positive_keep [OF h4(2) _ v3]) (use q(2) in auto)
  have "mp_out h3 t bt ts" using t(2-4) by (simp add: h3_def mp_out_def mp_wf_def)
  then have t4: "mp_out h4 t bt ts" using changes_out [OF h4(2) lt(3)] by simp
  have dj: "set_option quot \<inter> {u, v, t} = {}" using q(2) lt(3) by auto
  obtain m es5 where m: "div_loop (mh_mem h4) u v ?vn t quot (mp_top c - ?vn) = Some m" "alters ({u, t} \<union> ?q) (mh_mem h4) m"
    "mp_out (h4\<lparr>mh_mem := m\<rparr>) u c es5" "digval (take ?vn es5) = N mod V"
    "\<And>q. quot = Some q \<Longrightarrow> \<exists>b ds. mp_out (h4\<lparr>mh_mem := m\<rparr>) q b ds \<and> mp_sign b = \<sigma> \<and> Z \<le> mp_size b \<and> mag b ds = N div V"
    using div_loop_heap [OF d4 v4 refl le(1) t4 _ h4(4) ne lt(1,2) dj] t(5) by auto
  define h5 where "h5 = h4\<lparr>mh_mem := m\<rparr>"
  let ?c = "c\<lparr>mp_top := ?vn\<rparr>"
  define h6 where "h6 = put_mp u ?c es5 h5"
  have c6: "changes {u} h5 h6" by (simp add: h6_def)
  have "mp_top c - (mp_top c - ?vn) = ?vn" using vn by simp
  then have up: "upd_mp u (\<lambda>b. b\<lparr>mp_top := mp_top b - (mp_top c - ?vn)\<rparr>) h5 = Some h6"
    using upd_mp_at [OF outD(1) [OF m(3) [folded h5_def]]] unfolding h6_def by simp
  have uo: "mp_out h6 u ?c es5" "mp_sign ?c = 1" "mag ?c es5 = N mod V"
    using m(3,4) vn d4 by (simp_all add: h6_def mp_out_def mp_sized_def mag_def div_dividend_def)
  have c5: "changes ({u, t} \<union> ?q) h4 h5" unfolding h5_def by (rule changes_mem [OF m(2)])
  have "changes ((({u} \<union> {t}) \<union> ?q) \<union> (({u, t} \<union> ?q) \<union> {u})) h h6"
    by (rule changes_trans [OF changes_trans [OF c13 h4(2)] changes_trans [OF c5 c6]])
  moreover have "(({u} \<union> {t}) \<union> ?q) \<union> (({u, t} \<union> ?q) \<union> {u}) = {u, t} \<union> ?q" by auto
  ultimately have ch: "changes ({u, t} \<union> ?q) h h6" by simp
  have ti: "\<exists>ds. mp_at h6 t bt ds"
  proof -
    have "map_option length (m t) = map_option length (mh_mem h4 t)" using m(2) by (simp add: alters_def)
    then obtain ds where "m t = Some ds" using outD(5) [OF t4] by (cases "m t") auto
    then show ?thesis using outD(4) [OF t4] lt(1) by (auto simp: h6_def h5_def mp_at_def)
  qed
  have qo: "\<exists>b ds. mp_out h6 qa b ds \<and> mp_sign b = \<sigma> \<and> Z \<le> mp_size b \<and> mag b ds = N div V" if qe: "quot = Some qa" for qa
  proof -
    have "qa \<notin> {u}" using q(2) qe by auto
    then show ?thesis using m(5) [OF qe, folded h5_def] changes_out [OF c6] by metis
  qed
  have i: "mh_ints h3 u = Some c" "mh_ints h3 v = Some bv" using d3 v3 outD(4) plainD(6) unfolding div_dividend_def positive_def by blast+
  have "div_digits u v quot h = Some (t, h6)"
    unfolding div_digits_def c(1) [folded h2_def] Option.bind.simps t(1) [folded h3_def] prod.case i Let_def h4(1) in_mem_def m(1) option.map
    using up unfolding h5_def by simp
  moreover have "mh_next h6 = Suc t" using h4(3) c3(2) by (simp add: h6_def h5_def)
  ultimately show ?thesis using ch ti t(4) uo qo unfolding t_def [symmetric] by (intro exI [of _ t] exI [of _ h6]) blast
qed

section \<open>Division\<close>

lemma shifted_top:
  assumes a: "positive h a b1 ds1 N" and u: "positive h' u bu us (2 ^ s * N)" and s: "s < Dbits" and N: "0 < N"
  shows "mp_top bu \<le> mp_top b1 + (if s = 0 then 0 else 1)"
proof -
  let ?k = "mp_top b1 + (if s = 0 then 0 else 1)"
  have p: "mp_plain h a b1 ds1" "mag b1 ds1 = N" and pu: "mp_plain h' u bu us" "mag bu us = 2 ^ s * N" using a u by (simp_all add: positive_def)
  have t: "mp_top bu \<noteq> 0" using norm_zero [OF plainD(2,5) [OF pu(1)]] pu(2) N by simp
  have "2 ^ (Dbits * (mp_top bu - 1)) \<le> 2 ^ s * N" using norm_mag [OF plainD(2,5) [OF pu(1)] t] pu(2) by simp
  also have "\<dots> < 2 ^ s * 2 ^ (Dbits * mp_top b1)" using mag_bound [OF plainD(3) [OF p(1)]] p(2) by simp
  also have "\<dots> \<le> 2 ^ (Dbits * ?k)" using s by (simp add: power_add [symmetric] del: power_add) 
  finally have "Dbits * (mp_top bu - 1) < Dbits * ?k" by (rule power_less_imp_less_exp [rotated]) simp
  then show ?thesis using t by simp
qed

text \<open>What was made for a while is gone.\<close>

lemma changes_dropped:
  assumes "changes (S \<union> F) h h'" and "mp_heap h" and "\<And>x. x \<in> F \<Longrightarrow> mh_next h \<le> x \<and> mh_ints h' x = None \<and> mh_mem h' x = None"
  shows "changes S h h'"
  unfolding changes_def
proof (intro allI impI)
  fix x assume "x \<notin> S"
  then show "mh_ints h' x = mh_ints h x \<and> mh_mem h' x = mh_mem h x"
    using assms unfolding changes_def mp_heap_def by (cases "x \<in> F") auto
qed

lemma mpfree_two:
  assumes "mp_at h t bt ts" "mp_at h u bu us" "\<not> mp_static bt" "\<not> mp_static bu" "t \<noteq> u" and "v \<noteq> a2 \<Longrightarrow> \<exists>bv vs. mp_at h v bv vs \<and> \<not> mp_static bv" "v \<noteq> t" "v \<noteq> u"
  shows "\<exists>h'. do { h \<leftarrow> mpfree t h; h \<leftarrow> mpfree u h; if v \<noteq> a2 then mpfree v h else Some h } = Some h' \<and> changes ({t, u} \<union> ({v} - {a2})) h h' \<and> mh_next h' = mh_next h
    \<and> (\<forall>x \<in> {t, u} \<union> ({v} - {a2}). mh_ints h' x = None \<and> mh_mem h' x = None)"
  using assms by (cases "v = a2") (auto simp: mpfree_def mp_at_def changes_def)

text \<open>After D7: the numbers \<open>t\<close>, \<open>u\<close> and \<open>v\<close>, unless that is the divisor, are to be freed.\<close>

definition made :: "nat \<Rightarrow> nat \<Rightarrow> nat \<Rightarrow> nat \<Rightarrow> nat set" where
  "made t u v a2 = {t, u} \<union> ({v} - {a2})"

definition div_worked :: "nat \<Rightarrow> int \<Rightarrow> nat \<Rightarrow> nat option \<Rightarrow> nat \<Rightarrow> nat \<Rightarrow> nat \<Rightarrow> nat \<Rightarrow> nat \<Rightarrow> mpheap \<Rightarrow> mpheap \<Rightarrow> bool" where
  "div_worked Z \<sigma> a2 quot t u v R Q h h' \<longleftrightarrow> (\<exists>c es. mp_out h' u c es \<and> mp_sign c = 1 \<and> mag c es = R)
     \<and> (\<forall>q. quot = Some q \<longrightarrow> (\<exists>b ds. mp_out h' q b ds \<and> mp_sign b = \<sigma> \<and> Z \<le> mp_size b \<and> mag b ds = Q))
     \<and> (\<forall>x \<in> made t u v a2. \<exists>b ds. mp_at h' x b ds \<and> \<not> mp_static b) \<and> t \<noteq> u \<and> v \<noteq> t \<and> v \<noteq> u
     \<and> (\<forall>x \<in> made t u v a2. mh_next h \<le> x) \<and> changes (made t u v a2 \<union> set_option quot) h h' \<and> mh_next h \<le> mh_next h'"

lemma opt_less: "mp_heap h \<Longrightarrow> opt_out h x P \<Longrightarrow> a \<in> set_option x \<Longrightarrow> a < mh_next h"
  using plain_less unfolding opt_out_def by (metis elem_set)

lemma div_long_works:
  assumes a: "positive h a1 b1 ds1 N" and d: "positive h a2 b2 ds2 V" and le: "0 < V" "V \<le> N" and h: "mp_heap h" and s: "s < Dbits"
    and q: "opt_out h quot (\<lambda>b. mp_sign b = \<sigma> \<and> Z \<le> mp_size b)"
  shows "\<exists>u v h1 t h2. div_operands a1 a2 quot rest s h = Some (u, v, h1) \<and> div_digits u v quot h1 = Some (t, h2)
    \<and> div_worked Z \<sigma> a2 quot t u v (2 ^ s * (N mod V)) (N div V) h h2"
proof -
  let ?q = "set_option quot"
  obtain u v h1 where o1: "div_operands a1 a2 quot rest s h = Some (u, v, h1)"
    "div_ready a2 u v (mp_top b1 + 2 + (if s = 0 then 0 else 1)) (2 ^ s * N) (2 ^ s * V) h h1" "v = a2 \<longrightarrow> quot \<noteq> Some a2 \<and> rest \<noteq> Some a2"
    using div_operands_correct [OF a d h s] by blast
  obtain bu us bv vs where o2: "positive h1 u bu us (2 ^ s * N)" "\<not> mp_static bu" "mp_top b1 + 2 + (if s = 0 then 0 else 1) \<le> mp_size bu"
    "positive h1 v bv vs (2 ^ s * V)" "v \<noteq> a2 \<longrightarrow> \<not> mp_static bv" "u = mh_next h" "u \<noteq> v" "changes ({u} \<union> ({v} - {a2})) h h1" "mp_heap h1"
    "mh_next h < mh_next h1" "v = a2 \<or> mh_next h < v" using o1(2) unfolding div_ready_def by blast
  have qn: "x \<noteq> u \<and> x \<noteq> v" if xq: "x \<in> ?q" for x using opt_less [OF h q xq] o2(6,11) o1(3) xq by auto
  have q1: "opt_out h1 quot (\<lambda>b. mp_sign b = \<sigma> \<and> Z \<le> mp_size b)" "?q \<inter> {u, v} = {}" using opt_out_keep [OF o2(8), of quot] q qn by auto
  have tp: "mp_top bu + 2 \<le> mp_size bu" using shifted_top [OF a o2(1) s] le o2(3) by simp
  have le1: "0 < 2 ^ s * V" "2 ^ s * V \<le> 2 ^ s * N" using le by simp_all
  have vals: "2 ^ s * N mod (2 ^ s * V) = 2 ^ s * (N mod V)" "2 ^ s * N div (2 ^ s * V) = N div V" by (rule mult_mod_right [symmetric], simp)
  obtain t h2 c es where d2: "div_digits u v quot h1 = Some (t, h2)" "t = mh_next h1" "mh_next h2 = Suc t" "changes ({u, t} \<union> ?q) h1 h2"
    "\<exists>b ds. mp_at h2 t b ds \<and> \<not> mp_static b" "mp_out h2 u c es" "mp_sign c = 1" "mag c es = 2 ^ s * (N mod V)"
    "\<forall>q. quot = Some q \<longrightarrow> (\<exists>b ds. mp_out h2 q b ds \<and> mp_sign b = \<sigma> \<and> Z \<le> mp_size b \<and> mag b ds = N div V)"
    using div_digits_correct [OF o2(1,2) tp o2(4) le1 o2(7,9) q1] unfolding vals by blast
  have th: "t \<noteq> u" "v \<noteq> t" using plain_less [OF o2(9)] o2(1,4) d2(2) unfolding positive_def by blast+
  have v2: "\<exists>b ds. mp_at h2 v b ds \<and> \<not> mp_static b" if va: "v \<noteq> a2"
  proof -
    have "v \<notin> {u, t} \<union> ?q" using o2(7) th(2) qn by auto
    then have "mp_at h2 v bv vs" using o2(4) changes_at [OF d2(4)] plainD(1) unfolding positive_def by blast
    then show ?thesis using o2(5) va by blast
  qed
  have "changes (({u} \<union> ({v} - {a2})) \<union> ({u, t} \<union> ?q)) h h2" by (rule changes_trans [OF o2(8) d2(4)])
  then have ch: "changes (made t u v a2 \<union> ?q) h h2" by (rule changes_mono) (auto simp: made_def)
  have nw: "\<exists>b ds. mp_at h2 x b ds \<and> \<not> mp_static b" "mh_next h \<le> x" if "x \<in> made t u v a2" for x
    using that d2(2,5) v2 outD(1,6) [OF d2(6)] o2(6,10,11) by (auto simp: made_def)
  have "div_worked Z \<sigma> a2 quot t u v (2 ^ s * (N mod V)) (N div V) h h2"
    unfolding div_worked_def using d2(3,6-9) th o2(7,10) d2(2) ch nw by simp blast
  then show ?thesis using o1(1) d2(1) by blast
qed

lemma div_worked_done:
  assumes w: "div_worked Z \<sigma> a2 quot t u v (2 ^ s * R) Q h h2" and a: "sign_one h a1" "sign_one h a2" and h: "mp_heap h" and lt: "a1 < mh_next h" "a2 < mh_next h"
    and sx: "a1 \<in> set_option quot \<or> a2 \<in> set_option quot \<Longrightarrow> \<sigma> = 1" and q: "\<forall>x \<in> set_option quot. x < mh_next h" and r: "opt_out h rest (\<lambda>b. 2 \<le> mp_size b)" and ne: "quot = None \<or> quot \<noteq> rest"
  shows "\<exists>h4. do { h \<leftarrow> div_results a1 a2 quot rest s u h2; h \<leftarrow> mpfree t h; h \<leftarrow> mpfree u h; if v \<noteq> a2 then mpfree v h else Some h } = Some h4
    \<and> opt_val Z h4 quot (\<sigma> * int Q) \<and> opt_val 2 h4 rest (int R) \<and> changes (set_option quot \<union> set_option rest) h h4 \<and> mh_next h \<le> mh_next h4"
proof -
  let ?q = "set_option quot" and ?r = "set_option rest" and ?F = "made t u v a2"
  obtain c es where u: "mp_out h2 u c es" "mp_sign c = 1" "mag c es = 2 ^ s * R" using w unfolding div_worked_def by blast
  have d2: "\<And>q. quot = Some q \<Longrightarrow> \<exists>b ds. mp_out h2 q b ds \<and> mp_sign b = \<sigma> \<and> Z \<le> mp_size b \<and> mag b ds = Q" "\<forall>x \<in> ?F. \<exists>b ds. mp_at h2 x b ds \<and> \<not> mp_static b"
    "t \<noteq> u" "v \<noteq> t" "v \<noteq> u" "\<forall>x \<in> ?F. mh_next h \<le> x" "changes (?F \<union> ?q) h h2" "mh_next h \<le> mh_next h2" using w unfolding div_worked_def by blast+
  have old: "x \<notin> ?F" if "x < mh_next h" for x using d2(6) that by fastforce
  have dj: "?q \<inter> ?F = {}" "?r \<inter> ?F = {}" "?r \<inter> (?F \<union> ?q) = {}" using old q opt_less [OF h r] ne by (cases quot; cases rest; auto)+
  have sg: "sign_one h2 x" if "x \<in> {a1, a2}" for x
  proof (cases "x \<in> ?q")
    case True
    then obtain b ds where b: "quot = Some x" "mp_out h2 x b ds" "mp_sign b = \<sigma>" using d2(1) [of x] by auto
    then show ?thesis using outD(4) [OF b(2)] sx that unfolding sign_one_def by auto
  next
    case False
    then have "x \<notin> ?F \<union> ?q" using old that lt by blast
    then show ?thesis using that a d2(7) unfolding sign_one_def changes_def by auto
  qed
  have r2: "opt_out h2 rest (\<lambda>b. 2 \<le> mp_size b)" unfolding opt_out_keep [OF d2(7) dj(3)] by (rule r)
  have nu: "quot \<noteq> Some u" "rest \<noteq> Some u" using dj(1,2) by (auto simp: made_def)
  obtain h3 where h3: "div_results a1 a2 quot rest s u h2 = Some h3" "changes (?q \<union> ?r) h2 h3" "mh_next h3 = mh_next h2"
    "opt_val Z h3 quot (\<sigma> * int Q)" "opt_val 2 h3 rest (int R)" using div_results_correct [OF u d2(1) r2 sg sg ne nu] by blast
  have nw: "\<exists>b ds. mp_at h3 x b ds \<and> \<not> mp_static b" if xF: "x \<in> ?F" for x
  proof -
    have "x \<notin> ?q \<union> ?r" using dj xF by blast
    then show ?thesis using d2(2) xF changes_at [OF h3(2)] by blast
  qed
  obtain h4 where h4: "do { h \<leftarrow> mpfree t h3; h \<leftarrow> mpfree u h; if v \<noteq> a2 then mpfree v h else Some h } = Some h4" "changes ?F h3 h4" "mh_next h4 = mh_next h3"
    "\<forall>x \<in> ?F. mh_ints h4 x = None \<and> mh_mem h4 x = None"
  proof -
    obtain bt ts bu us where "mp_at h3 t bt ts" "\<not> mp_static bt" "mp_at h3 u bu us" "\<not> mp_static bu" using nw [of t] nw [of u] by (auto simp: made_def)
    from mpfree_two [OF this(1,3,2,4) d2(3), where v = v and ?a2.0 = a2] obtain h4 where
      "do { h \<leftarrow> mpfree t h3; h \<leftarrow> mpfree u h; if v \<noteq> a2 then mpfree v h else Some h } = Some h4" "changes ?F h3 h4" "mh_next h4 = mh_next h3"
      "\<forall>x \<in> ?F. mh_ints h4 x = None \<and> mh_mem h4 x = None" using nw [of v] d2(4,5) unfolding made_def by blast
    then show thesis by (rule that)
  qed
  have "changes ((?F \<union> ?q) \<union> ((?q \<union> ?r) \<union> ?F)) h h4" by (rule changes_trans [OF d2(7) changes_trans [OF h3(2) h4(2)]])
  then have "changes ((?q \<union> ?r) \<union> ?F) h h4" by (rule changes_mono) auto
  then have ch: "changes (?q \<union> ?r) h h4" by (rule changes_dropped [OF _ h]) (use h4(4) d2(6) in auto)
  have "opt_val Z h4 quot (\<sigma> * int Q)" "opt_val 2 h4 rest (int R)" using opt_val_keep [OF h4(2) dj(1)] opt_val_keep [OF h4(2) dj(2)] h3(4,5) by simp_all
  then show ?thesis using h3(1,3) h4(1,3) ch d2(8) by (intro exI [of _ h4]) simp
qed

lemma div_long_correct:
  assumes a: "positive h a1 b1 ds1 N" and d: "positive h a2 b2 ds2 V" and le: "0 < V" "V \<le> N" and h: "mp_heap h"
    and q: "opt_out h quot (\<lambda>b. mp_sign b = \<sigma> \<and> Z \<le> mp_size b)" and r: "opt_out h rest (\<lambda>b. 2 \<le> mp_size b)" and ne: "quot = None \<or> quot \<noteq> rest"
  shows "div_done Z (div_long a1 a2 quot rest h) quot rest (\<sigma> * (int N div int V)) (int N mod int V) h"
proof -
  let ?qd = "ds2 ! (mp_top b2 - 1)"
  have pd: "mp_plain h a1 b1 ds1" "mp_plain h a2 b2 ds2" "mag b2 ds2 = V" "mp_sign b1 = 1" "mp_sign b2 = 1" using a d by (simp_all add: positive_def)
  have t2: "0 < mp_top b2" using norm_zero [OF plainD(2,5) [OF pd(2)]] pd(3) le(1) by simp
  have ld: "dld (mh_mem h) (a2, mp_top b2 - 1) = Some ?qd" "?qd \<noteq> 0"
    using plainD(2,3,5,7) [OF pd(2)] t2 by (auto simp: dld_def mp_sized_def mp_wf_def)
  obtain s where s: "s < Dbits" "high_zeros ?qd 0 Dbits = Some s" using high_zeros_ok [OF ld(2)] by blast
  obtain u v h1 t h2 where w: "div_operands a1 a2 quot rest s h = Some (u, v, h1)" "div_digits u v quot h1 = Some (t, h2)"
    "div_worked Z \<sigma> a2 quot t u v (2 ^ s * (N mod V)) (N div V) h h2" using div_long_works [OF a d le h s(1) q] by blast
  have sg: "sign_one h a1" "sign_one h a2" using pd plainD(6) unfolding sign_one_def by blast+
  have sx: "\<sigma> = 1" if aq: "a1 \<in> set_option quot \<or> a2 \<in> set_option quot"
  proof -
    obtain x where x: "quot = Some x" "x = a1 \<or> x = a2" using aq by (cases quot) auto
    obtain b ds where b: "mp_plain h x b ds" "mp_sign b = \<sigma>" using q x(1) unfolding opt_out_def by blast
    then show ?thesis using x(2) plainD(6) [OF b(1)] plainD(6) [OF pd(1)] plainD(6) [OF pd(2)] pd(4,5) by auto
  qed
  have lt: "a1 < mh_next h" "a2 < mh_next h" "\<forall>x \<in> set_option quot. x < mh_next h" using plain_less [OF h] pd(1,2) opt_less [OF h q] by blast+
  obtain h4 where "do { h \<leftarrow> div_results a1 a2 quot rest s u h2; h \<leftarrow> mpfree t h; h \<leftarrow> mpfree u h; if v \<noteq> a2 then mpfree v h else Some h } = Some h4"
    "opt_val Z h4 quot (\<sigma> * int (N div V))" "opt_val 2 h4 rest (int (N mod V))" "changes (set_option quot \<union> set_option rest) h h4" "mh_next h \<le> mh_next h4"
    using div_worked_done [OF w(3) sg h lt(1,2) sx lt(3) r ne] by blast
  moreover have "div_long a1 a2 quot rest h = do { h \<leftarrow> div_results a1 a2 quot rest s u h2; h \<leftarrow> mpfree t h; h \<leftarrow> mpfree u h; if v \<noteq> a2 then mpfree v h else Some h }"
    unfolding div_long_def plainD(6) [OF pd(2)] Option.bind.simps ld(1) s(2) w(1) prod.case w(2) by (rule refl)
  ultimately show ?thesis unfolding div_done_def by (intro exI [of _ h4]) (simp add: zdiv_int zmod_int)
qed

text \<open>A place for the quotient, of which the sign is kept when it should be positive, and one for the remainder.\<close>

definition div_outs :: "nat \<Rightarrow> int \<Rightarrow> mpheap \<Rightarrow> nat option \<Rightarrow> nat option \<Rightarrow> bool" where
  "div_outs Z \<sigma> h quot rest \<longleftrightarrow> quot \<noteq> rest \<and> opt_out h quot (\<lambda>b. mp_sign b = \<sigma> \<and> Z \<le> mp_size b) \<and> opt_out h rest (\<lambda>b. 2 \<le> mp_size b)"

lemma opt_out_mono: "opt_out h x P \<Longrightarrow> (\<And>b. P b \<Longrightarrow> Q b) \<Longrightarrow> opt_out h x Q"
  unfolding opt_out_def by metis

lemma assign_opt:
  assumes "mp_val h a v" and "opt_out h x P" and P: "\<And>b. P b \<Longrightarrow> Z \<le> mp_size b"
  shows "\<exists>h'. (case x of None \<Rightarrow> Some h | Some r \<Rightarrow> mpassign a r h) = Some h' \<and> opt_val Z h' x v \<and> changes (set_option x) h h' \<and> mh_next h \<le> mh_next h'"
proof (cases x)
  case (Some r)
  then obtain b ds where b: "mp_out h r b ds" "P b" using assms(2) opt_outE by blast
  obtain b1 ds1 where a: "mp_plain h a b1 ds1" "v = mp_sign b1 * int (mag b1 ds1)" using assms(1) unfolding mp_val_def by blast
  show ?thesis using Some a(2) P [OF b(2)]
    by (rule_tac result_changes [OF mpassign_result [OF a(1) b(1)] outD(3,6) [OF b(1)]]) (auto simp: opt_val_def)
qed (simp add: opt_val_def)

lemma div_small:
  assumes a: "mp_val h a1 v1" "0 \<le> v1" and z: "mp_val h mpzero 0" "rest \<noteq> Some mpzero" and o: "div_outs Z \<sigma> h quot rest"
  shows "div_done Z (do {
       h \<leftarrow> (case rest of None \<Rightarrow> Some h | Some r \<Rightarrow> mpassign a1 r h);
       (case quot of None \<Rightarrow> Some h | Some q \<Rightarrow> mpassign mpzero q h)
     }) quot rest 0 v1 h"
proof -
  have oq: "opt_out h quot (\<lambda>b. mp_sign b = \<sigma> \<and> Z \<le> mp_size b)" "opt_out h rest (\<lambda>b. 2 \<le> mp_size b)" "quot \<noteq> rest" using o by (simp_all add: div_outs_def)
  obtain h1 where h1: "(case rest of None \<Rightarrow> Some h | Some r \<Rightarrow> mpassign a1 r h) = Some h1" "opt_val 2 h1 rest v1" "changes (set_option rest) h h1" "mh_next h \<le> mh_next h1"
    using assign_opt [OF a(1) oq(2)] by blast
  have dj: "set_option quot \<inter> set_option rest = {}" using oq(3) by (cases quot; cases rest) auto
  have z1: "mp_val h1 mpzero 0" using z changes_val(1) [OF h1(3), of mpzero] by (cases rest) auto
  have q1: "opt_out h1 quot (\<lambda>b. mp_sign b = \<sigma> \<and> Z \<le> mp_size b)" using opt_out_keep [OF h1(3) dj] oq(1) by simp
  obtain h2 where h2: "(case quot of None \<Rightarrow> Some h1 | Some q \<Rightarrow> mpassign mpzero q h1) = Some h2" "opt_val Z h2 quot 0" "changes (set_option quot) h1 h2" "mh_next h1 \<le> mh_next h2"
    using assign_opt [OF z1 q1, of Z] by blast
  have "opt_val 2 h2 rest v1" using opt_val_keep [OF h2(3), of rest] h1(2) dj by (simp add: Int_commute)
  moreover have "changes (set_option quot \<union> set_option rest) h h2" using changes_trans [OF h1(3) h2(3)] by (simp add: Un_commute)
  ultimately show ?thesis using h1(1,4) h2(1,2,4) unfolding div_done_def by (intro exI [of _ h2]) simp
qed

lemma mpdiv_done:
  assumes a: "mp_val h a1 v1" "0 < v1" and d: "mp_val h a2 v2" "0 < v2" and z: "mp_val h mpzero 0" "\<not> mp_var h mpzero" and h: "mp_heap h" and o: "div_outs Z \<sigma> h quot rest"
    and sg: "\<sigma> = 1 \<or> (\<forall>k < Dbits. v2 \<noteq> 2 ^ k)"
  shows "div_done Z (mpdiv a1 a2 quot rest h) quot rest (\<sigma> * (v1 div v2)) (v1 mod v2) h"
proof -
  obtain b1 ds1 b2 ds2 where p: "mp_plain h a1 b1 ds1" "v1 = mp_sign b1 * int (mag b1 ds1)" "mp_plain h a2 b2 ds2" "v2 = mp_sign b2 * int (mag b2 ds2)"
    using a(1) d(1) unfolding mp_val_def by blast
  define N V where "N = nat v1" and "V = nat v2"
  have n: "v1 = int N" "v2 = int V" "0 < N" "0 < V" using a(2) d(2) by (simp_all add: N_def V_def)
  have "mp_sign b1 * int (mag b1 ds1) = int N" "mp_sign b2 * int (mag b2 ds2) = int V" using p(2,4) n(1,2) by linarith+
  then have P: "positive h a1 b1 ds1 N" "positive h a2 b2 ds2 V"
    unfolding positive_def using p(1,3) wf_positive [OF plainD(2) [OF p(1)]] wf_positive [OF plainD(2) [OF p(3)]] by blast+
  then have m: "mp_sign b1 = 1" "mag b1 ds1 = N" "mp_sign b2 = 1" "mag b2 ds2 = V" by (simp_all add: positive_def)
  have oq: "opt_out h quot (\<lambda>b. mp_sign b = \<sigma> \<and> Z \<le> mp_size b)" "opt_out h rest (\<lambda>b. 2 \<le> mp_size b)" "quot \<noteq> rest" using o by (simp_all add: div_outs_def)
  have t2: "0 < mp_top b2" using norm_zero [OF plainD(2,5) [OF p(3)]] m(4) n(4) by simp
  have ld: "dld (mh_mem h) (a2, 0) = Some (ds2 ! 0)" using plainD(3,7) [OF p(3)] t2 by (auto simp: dld_def mp_sized_def)
  have "\<not> (\<not> mp_norm b2 \<or> mp_top b2 = 0)" using plainD(5) [OF p(3)] t2 by simp
  note start = mpdiv_def [of a1 a2 quot rest h, unfolded if_not_P [OF oq(3)] plainD(6) [OF p(1)] plainD(6) [OF p(3)] Option.bind.simps if_not_P [OF this] ld
      if_not_P [OF plainD(4) [OF p(1)]]]
  show ?thesis
  proof (cases "mp_top b2 = 1 \<and> ds2 ! 0 AND (ds2 ! 0 - 1) = 0")
    case True
    have l2: "0 < length ds2" "ds2 ! 0 \<noteq> 0" using plainD(2,5) [OF p(3)] True by (auto simp: mp_wf_def mp_sized_def)
    have "V = unat (ds2 ! 0)" using m(4) l2(1) True by (cases ds2) (simp_all add: mag_def)
    then obtain k where "k < Dbits" "V = 2 ^ k" using one_bit [of "ds2 ! 0"] True l2(2) by auto
    then have s1: "\<sigma> = 1" using sg n(2) by auto
    have "opt_out h quot (\<lambda>b. Z \<le> mp_size b)" using oq(1) by (rule opt_out_mono) simp
    then show ?thesis unfolding s1
      using div_power2_correct [OF p(1) m(1) _ p(3) _ _ _ oq(2), of quot] True n m oq(3) unfolding start by simp
  next
    case False
    obtain c where c: "mpmagcmp a1 a2 h = Some c" "c < 0 \<longleftrightarrow> N < V"
      using mpmagcmp_at [OF plainD(1,2) [OF p(1)] plainD(1,2) [OF p(3)]] plainD(5) [OF p(1)] plainD(5) [OF p(3)] m(2,4) by (auto simp: comparable_def)
    have rz: "rest \<noteq> Some mpzero" using oq(2) z(2) plain_out unfolding opt_out_def mp_var_def by blast
    show ?thesis
    proof (cases "N < V")
      case True
      then have "c < 0" using c(2) by simp
      then show ?thesis using div_small [OF a(1) _ z(1) rz o] True n unfolding start if_not_P [OF False] c(1) Option.bind.simps by simp
    next
      case ge: False
      then have "\<not> c < 0" "V \<le> N" using c(2) by simp_all
      then show ?thesis using div_long_correct [OF P n(4) _ h oq(1,2)] oq(3) n(1,2) unfolding start if_not_P [OF False] c(1) Option.bind.simps by simp
    qed
  qed
qed

text \<open>The remainder of a positive number by a modulus that is not a field.\<close>

lemma mpmod_val:
  assumes x: "mp_val h x v1" "0 < v1" and n: "mp_val h n v2" "0 < v2" "\<And>b. mh_ints h n = Some b \<Longrightarrow> \<not> mp_field b" and z: "mp_val h mpzero 0" "\<not> mp_var h mpzero"
    and h: "mp_heap h" and r: "opt_out h (Some r) (\<lambda>b. 2 \<le> mp_size b)"
  shows "becomes (mpmod reduce x n r h) r (v1 mod v2) h"
proof -
  obtain bx xs bn ns where p: "mp_plain h x bx xs" "v1 = mp_sign bx * int (mag bx xs)" "mp_plain h n bn ns" using x(1) n(1) unfolding mp_val_def by blast
  have "\<not> mp_sign bx < 0" using x(2) p(2) plainD(3) [OF p(1)] by (auto simp: mp_sized_def)
  moreover have "\<not> mp_field bn" using n(3) plainD(6) [OF p(3)] by blast
  ultimately have e: "mpmod reduce x n r h = mpdiv x n None (Some r) h" using plainD(6) [OF p(1)] plainD(6) [OF p(3)] by (simp add: mpmod_def)
  have "div_outs 0 1 h None (Some r)" using r by (simp add: div_outs_def opt_out_def)
  from mpdiv_done [OF x n(1,2) z h this disjI1 [OF refl]] show ?thesis unfolding e
    by (auto simp: div_done_def becomes_def opt_val_def only_changes_def changes_def)
qed


section \<open>Wrong signs\<close>

text \<open>A divisor that is a power of 2 of one digit.\<close>

lemma power_digit:
  assumes p: "mp_plain h a b ds" "mag b ds = 2 ^ k" and k: "k < Dbits"
  shows "mp_top b = 1" "0 < length ds" "ds ! 0 = push_bit k 1" "ds ! 0 AND (ds ! 0 - 1) = 0" "dld (mh_mem h) (a, 0) = Some (ds ! 0)"
proof -
  have t0: "mp_top b \<noteq> 0" using norm_zero [OF plainD(2,5) [OF p(1)]] p(2) by simp
  have "(2 :: nat) ^ (Dbits * (mp_top b - 1)) \<le> 2 ^ k" using norm_mag [OF plainD(2,5) [OF p(1)] t0] p(2) by simp
  then have "Dbits * (mp_top b - 1) \<le> k" by (rule power_le_imp_le_exp [rotated]) simp
  then show t: "mp_top b = 1" using k t0 by (cases "mp_top b") auto
  show l: "0 < length ds" using plainD(3) [OF p(1)] t by (auto simp: mp_sized_def)
  then have u: "unat (ds ! 0) = 2 ^ k" using p(2) t by (cases ds) (simp_all add: mag_def)
  have "of_nat (unat (ds ! 0)) = ds ! 0" by simp
  then show e: "ds ! 0 = push_bit k 1" unfolding u by (simp add: push_bit_eq_mult)
  show "ds ! 0 AND (ds ! 0 - 1) = 0" using mask_mod [OF e k, of "ds ! 0"] u by (simp add: unat_eq_0)
  show "dld (mh_mem h) (a, 0) = Some (ds ! 0)" using plainD(7) [OF p(1)] l by (simp add: dld_def)
qed

text \<open>A divisor that is minus a power of 2: the quotient has the wrong sign.\<close>

lemma mpdiv_minus_power:
  assumes a: "mp_val h a1 v1" "0 < v1" and d: "mp_val h a2 (- (2 ^ k))" "k < Dbits" and o: "div_outs Z \<sigma> h quot rest"
  shows "div_done Z (mpdiv a1 a2 quot rest h) quot rest (v1 div 2 ^ k) (v1 mod 2 ^ k) h"
proof -
  obtain b1 ds1 b2 ds2 where p: "mp_plain h a1 b1 ds1" "v1 = mp_sign b1 * int (mag b1 ds1)" "mp_plain h a2 b2 ds2" "- (2 ^ k) = mp_sign b2 * int (mag b2 ds2)"
    using a(1) d(1) unfolding mp_val_def by blast
  have s1: "mp_sign b1 = 1" "0 < mag b1 ds1" using a(2) p(2) plainD(3) [OF p(1)] by (auto simp: mp_sized_def)
  have "int (mag b2 ds2) = 2 ^ k"
  proof -
    have "\<bar>mp_sign b2\<bar> = 1" using plainD(3) [OF p(3)] by (auto simp: mp_sized_def)
    then have "\<bar>mp_sign b2 * int (mag b2 ds2)\<bar> = int (mag b2 ds2)" by (simp add: abs_mult)
    then show ?thesis unfolding p(4) [symmetric] by simp
  qed
  then have m2: "mag b2 ds2 = 2 ^ k" by (metis of_nat_eq_iff of_nat_numeral of_nat_power)
  note pw = power_digit [OF p(3) m2 d(2)]
  have oq: "opt_out h quot (\<lambda>b. Z \<le> mp_size b)" "opt_out h rest (\<lambda>b. 2 \<le> mp_size b)" "quot = None \<or> quot \<noteq> rest" "quot \<noteq> rest" using o opt_out_mono by (auto simp: div_outs_def)
  have "mpdiv a1 a2 quot rest h = div_power2 a1 a2 quot rest h"
    using oq(4) plainD(6) [OF p(1)] plainD(5,6) [OF p(3)] pw by (simp add: mpdiv_def)
  then show ?thesis using div_power2_correct [OF p(1) s1 p(3) pw(1,4) oq(1-3)] p(2) s1(1) m2 by simp
qed

text \<open>The remainder of a negative multiple of a power of 2 is the modulus instead of 0.\<close>

lemma mpmod_minus_multiple:
  assumes x: "mp_val h x (- (int j * 2 ^ k))" "0 < j" and n: "mp_val h n (2 ^ k)" "k < Dbits" "\<And>b. mh_ints h n = Some b \<Longrightarrow> \<not> mp_field b"
    and r: "opt_out h (Some r) (\<lambda>b. 2 \<le> mp_size b)" and ne: "n \<noteq> r"
  shows "becomes (mpmod reduce x n r h) r (2 ^ k) h"
proof -
  obtain bx xs bn ns where p: "mp_plain h x bx xs" "- (int j * 2 ^ k) = mp_sign bx * int (mag bx xs)" "mp_plain h n bn ns" "2 ^ k = mp_sign bn * int (mag bn ns)"
    using x(1) n(1) unfolding mp_val_def by blast
  obtain b ds where b: "mp_plain h r b ds" "mp_out h r b ds" "2 \<le> mp_size b" using opt_outE [OF r] by blast
  have "mp_sign bn * int (mag bn ns) = int (2 ^ k)" using p(4) by simp
  then have mn: "mp_sign bn = 1" "mag bn ns = 2 ^ k" using wf_positive [OF plainD(2) [OF p(3)]] by blast+
  note pw = power_digit [OF p(3) mn(2) n(2)]
  have neg: "- (int j * 2 ^ k) < 0" using x(2) by simp
  have sx: "mp_sign bx = - 1" using neg p(2) plainD(3) [OF p(1)] by (auto simp: mp_sized_def)
  then have "int (mag bx xs) = int (j * 2 ^ k)" using p(2) by simp
  then have mx: "mag bx xs = j * 2 ^ k" by (simp only: of_nat_eq_iff)
  have tx: "0 < mp_top bx" using norm_zero [OF plainD(2,5) [OF p(1)]] mx x(2) by simp
  have lx: "0 < length xs" using plainD(3) [OF p(1)] tx by (auto simp: mp_sized_def)
  have "unat (xs ! 0 AND (ns ! 0 - 1)) = 0" using mask_mod [OF pw(3) n(2), of "xs ! 0"] low_digit [OF plainD(3) [OF p(1)] tx, of k] n(2) mx by simp
  then have z: "xs ! 0 AND (ns ! 0 - 1) = 0" by (simp add: unat_eq_0)
  have ld: "dld (mh_mem h) (x, 0) = Some (xs ! 0)" using plainD(7) [OF p(1)] lx by (simp add: dld_def)
  have "b\<lparr>mp_timesafe := mp_timesafe b \<or> mp_timesafe bx\<rparr> = b" using plainD(4) [OF b(1)] plainD(4) [OF p(1)] by simp
  then have u: "upd_mp r (\<lambda>b. b\<lparr>mp_timesafe := mp_timesafe b \<or> mp_timesafe bx\<rparr>) h = Some h"
    using upd_mp_at [OF outD(1) [OF b(2)]] put_mp_same [OF outD(1) [OF b(2)]] by simp
  have dv: "mpdiv x n None (Some r) h = vtomp 0 r h"
    using plainD(6) [OF p(1)] plainD(5,6) [OF p(3)] pw ld z u by (simp add: mpdiv_def div_power2_def)
  have "result (vtomp 0 r h) h r b (int 0)" using vtomp_result [OF b(2,3), of 0] by simp
  then obtain h1 b1 ds1 where h1: "vtomp 0 r h = Some h1" "changes {r} h h1" "mh_next h1 = mh_next h" "mp_plain h1 r b1 ds1" "mp_sign b1 * int (mag b1 ds1) = int 0" "\<not> mp_static b1"
    using result_changes [OF _ outD(3,6) [OF b(2)]] by metis
  have n1: "mp_plain h1 n bn ns" using changes_plain [OF h1(2)] p(3) ne by simp
  have o1: "mp_out h1 r b1 ds1" by (rule plain_out [OF h1(4,6)])
  have m1: "mag b1 ds1 = 0" using wf_positive [OF plainD(2) [OF h1(4)] h1(5)] by simp
  have rs: "result (mpmagsub n r r h1) h1 r b1 (2 ^ k)" using mpmagsub_result [OF n1 h1(4) o1] mn(2) m1 by simp
  obtain h2 where h2: "mpmagsub n r r h1 = Some h2" "changes {r} h1 h2" "mh_next h2 = mh_next h1" "mp_val h2 r (2 ^ k)" "mp_var h2 r"
    using result_changes [OF rs outD(3,6) [OF o1]] by metis
  have "\<not> mp_field bn" using n(3) plainD(6) [OF p(3)] by blast
  then have "mpmod reduce x n r h = Some h2" using plainD(6) [OF p(1)] plainD(6) [OF p(3)] sx ne dv h1(1) h2(1) by (simp add: mpmod_def)
  then show ?thesis using h2(3-5) h1(3) changes_trans [OF h1(2) h2(2)] by (simp add: becomes_def only_changes_def changes_def)
qed

end
