(* ===== verification/MpEuclid.thy ===== *)
theory MpEuclid
  imports MpQuot
begin

text \<open>
  Euclid's algorithm, \<^verbatim>\<open>libmp/port/mpeuclid.c\<close>.  The locale \<open>integers\<close> has what it relies on of a store of numbers; it is interpreted on
  \<open>mpsub\<close>, \<open>mpmul\<close> and \<open>mpdiv\<close>.
\<close>

section \<open>The function\<close>

text \<open>The variables of the loop.\<close>

record euclid =
  eu_a :: nat
  eu_b :: nat
  eu_x0 :: nat
  eu_x1 :: nat
  eu_x2 :: nat
  eu_y0 :: nat
  eu_y1 :: nat
  eu_y2 :: nat
  eu_q :: nat
  eu_r :: nat

definition euclid_start :: "nat \<Rightarrow> nat \<Rightarrow> mpheap \<Rightarrow> (euclid \<times> mpheap) option" where
  "euclid_start a b h = do {
     (a, h) \<leftarrow> mpcopy a h;
     (b, h) \<leftarrow> mpcopy b h;
     (x0, h) \<leftarrow> mpnew 0 h;
     (x1, h) \<leftarrow> mpcopy mpzero h;
     (x2, h) \<leftarrow> mpcopy mpone h;
     (y0, h) \<leftarrow> mpnew 0 h;
     (y1, h) \<leftarrow> mpcopy mpone h;
     (y2, h) \<leftarrow> mpcopy mpzero h;
     (q, h) \<leftarrow> mpnew 0 h;
     (r, h) \<leftarrow> mpnew 0 h;
     Some (\<lparr>eu_a = a, eu_b = b, eu_x0 = x0, eu_x1 = x1, eu_x2 = x2, eu_y0 = y0, eu_y1 = y1, eu_y2 = y2, eu_q = q, eu_r = r\<rparr>, h)
   }"

definition euclid_step :: "euclid \<Rightarrow> mpheap \<Rightarrow> mpheap option" where
  "euclid_step e h = do {
     h \<leftarrow> mpdiv (eu_a e) (eu_b e) (Some (eu_q e)) (Some (eu_r e)) h;
     h \<leftarrow> mpmul (eu_q e) (eu_x1 e) (eu_x0 e) h;
     h \<leftarrow> mpsub (eu_x2 e) (eu_x0 e) (eu_x0 e) h;
     h \<leftarrow> mpmul (eu_q e) (eu_y1 e) (eu_y0 e) h;
     mpsub (eu_y2 e) (eu_y0 e) (eu_y0 e) h
   }"

definition euclid_rotate :: "euclid \<Rightarrow> euclid" where
  "euclid_rotate e = e\<lparr>eu_a := eu_b e, eu_b := eu_r e, eu_r := eu_a e, eu_x2 := eu_x1 e, eu_x1 := eu_x0 e, eu_x0 := eu_x2 e,
     eu_y2 := eu_y1 e, eu_y1 := eu_y0 e, eu_y0 := eu_y2 e\<rparr>"

partial_function (option) euclid_loop :: "euclid \<Rightarrow> mpheap \<Rightarrow> (euclid \<times> mpheap) option" where
  "euclid_loop e h = do {
     b \<leftarrow> mh_ints h (eu_b e);
     if mp_top b \<noteq> 0 \<and> mp_sign b > 0 then do {
       h \<leftarrow> euclid_step e h;
       euclid_loop (euclid_rotate e) h
     } else Some (e, h)
   }"

declare euclid_loop.simps [code]

fun mpfree_all :: "nat list \<Rightarrow> mpheap \<Rightarrow> mpheap option" where
  "mpfree_all [] h = Some h"
| "mpfree_all (a # as) h = do {
     h \<leftarrow> mpfree a h;
     mpfree_all as h
   }"

text \<open>The function after the exchange of its arguments.\<close>

definition euclid_ordered :: "nat \<Rightarrow> nat \<Rightarrow> nat \<Rightarrow> nat \<Rightarrow> nat \<Rightarrow> mpheap \<Rightarrow> mpheap option" where
  "euclid_ordered a b d x y h = do {
     bb \<leftarrow> mh_ints h b;
     if mp_top bb = 0 then do {
       h \<leftarrow> mpassign a d h;
       h \<leftarrow> mpassign mpone x h;
       mpassign mpzero y h
     } else do {
       (e, h) \<leftarrow> euclid_start a b h;
       (e, h) \<leftarrow> euclid_loop e h;
       h \<leftarrow> mpassign (eu_a e) d h;
       h \<leftarrow> mpassign (eu_x2 e) x h;
       h \<leftarrow> mpassign (eu_y2 e) y h;
       mpfree_all [eu_x0 e, eu_x1 e, eu_x2 e, eu_y0 e, eu_y1 e, eu_y2 e, eu_q e, eu_r e, eu_a e, eu_b e] h
     }
   }"

definition mpeuclid :: "nat \<Rightarrow> nat \<Rightarrow> nat \<Rightarrow> nat \<Rightarrow> nat \<Rightarrow> mpheap \<Rightarrow> mpheap option" where
  "mpeuclid a b d x y h = do {
     ba \<leftarrow> mh_ints h a;
     bb \<leftarrow> mh_ints h b;
     bd \<leftarrow> mh_ints h d;
     bx \<leftarrow> mh_ints h x;
     bt \<leftarrow> mh_ints h y;
     if \<not> (mp_norm ba \<and> mp_norm bb) \<or> mp_timesafe ba \<or> mp_timesafe bb \<or> mp_timesafe bd \<or> mp_timesafe bx \<or> mp_timesafe bt then None
     else if mp_sign ba < 0 \<or> mp_sign bb < 0 then None
     else do {
       c \<leftarrow> mpcmp a b h;
       if c < 0 then euclid_ordered b a d y x h else euclid_ordered a b d x y h
     }
   }"

section \<open>Stores of numbers\<close>

text \<open>\<open>num h a v\<close>: the variable \<open>a\<close> holds the number \<open>v\<close>; \<open>kept h h' a\<close>: nothing happened to \<open>a\<close>.\<close>

locale integers =
  fixes ok :: "'h \<Rightarrow> bool" and num :: "'h \<Rightarrow> nat \<Rightarrow> int \<Rightarrow> bool" and kept :: "'h \<Rightarrow> 'h \<Rightarrow> nat \<Rightarrow> bool"
    and sub mul :: "nat \<Rightarrow> nat \<Rightarrow> nat \<Rightarrow> 'h \<Rightarrow> 'h option" and divide :: "nat \<Rightarrow> nat \<Rightarrow> nat \<Rightarrow> nat \<Rightarrow> 'h \<Rightarrow> 'h option"
  assumes kept_trans: "kept h h' a \<Longrightarrow> kept h' h'' a \<Longrightarrow> kept h h'' a"
    and kept_num: "kept h h' a \<Longrightarrow> num h a v \<Longrightarrow> num h' a v"
    and sub_law: "ok h \<Longrightarrow> num h a v \<Longrightarrow> num h b w \<Longrightarrow> num h r z \<Longrightarrow> \<exists>h'. sub a b r h = Some h' \<and> ok h' \<and> num h' r (v - w) \<and> (\<forall>c. c \<noteq> r \<longrightarrow> kept h h' c)"
    and mul_law: "ok h \<Longrightarrow> num h a v \<Longrightarrow> num h b w \<Longrightarrow> num h r z \<Longrightarrow> \<exists>h'. mul a b r h = Some h' \<and> ok h' \<and> num h' r (v * w) \<and> (\<forall>c. c \<noteq> r \<longrightarrow> kept h h' c)"
    and div_law: "ok h \<Longrightarrow> num h a v \<Longrightarrow> 0 < v \<Longrightarrow> num h b w \<Longrightarrow> 0 < w \<Longrightarrow> num h q y \<Longrightarrow> 0 \<le> y \<Longrightarrow> num h r z \<Longrightarrow> q \<noteq> r
      \<Longrightarrow> \<exists>h'. divide a b q r h = Some h' \<and> ok h' \<and> num h' q (v div w) \<and> num h' r (v mod w) \<and> (\<forall>c. c \<noteq> q \<and> c \<noteq> r \<longrightarrow> kept h h' c)"
begin

lemma mul_sub:
  assumes "ok h" "num h q vq" "num h x1 v1" "num h x2 v2" "num h x0 v0" "x2 \<noteq> x0"
  shows "\<exists>h'. do { h \<leftarrow> mul q x1 x0 h; sub x2 x0 x0 h } = Some h' \<and> ok h' \<and> num h' x0 (v2 - vq * v1) \<and> (\<forall>c. c \<noteq> x0 \<longrightarrow> kept h h' c)"
proof -
  obtain h1 where h1: "mul q x1 x0 h = Some h1" "ok h1" "num h1 x0 (vq * v1)" "\<And>c. c \<noteq> x0 \<Longrightarrow> kept h h1 c" using mul_law [OF assms(1,2,3,5)] by blast
  have "num h1 x2 v2" using kept_num [OF h1(4)] assms(4,6) by blast
  then obtain h2 where h2: "sub x2 x0 x0 h1 = Some h2" "ok h2" "num h2 x0 (v2 - vq * v1)" "\<And>c. c \<noteq> x0 \<Longrightarrow> kept h1 h2 c" using sub_law [OF h1(2) _ h1(3,3)] by blast
  have "kept h h2 c" if "c \<noteq> x0" for c by (rule kept_trans [OF h1(4) h2(4)]) (rule that)+
  then show ?thesis using h1(1) h2(1-3) by (intro exI [of _ h2]) simp
qed

text \<open>One step of the extended algorithm.\<close>

lemma bezout_step:
  assumes ok: "ok h" and n: "num h a va" "0 < va" "num h b vb" "0 < vb" "num h q vq" "0 \<le> vq" "num h r vr"
    and x: "num h x0 vx0" "num h x1 vx1" "num h x2 vx2" and y: "num h y0 vy0" "num h y1 vy1" "num h y2 vy2" and d: "distinct [a, b, x0, x1, x2, y0, y1, y2, q, r]"
  shows "\<exists>h'. do {
       h \<leftarrow> divide a b q r h;
       h \<leftarrow> mul q x1 x0 h;
       h \<leftarrow> sub x2 x0 x0 h;
       h \<leftarrow> mul q y1 y0 h;
       sub y2 y0 y0 h
     } = Some h' \<and> ok h' \<and> num h' q (va div vb) \<and> num h' r (va mod vb) \<and> num h' x0 (vx2 - va div vb * vx1) \<and> num h' y0 (vy2 - va div vb * vy1)
     \<and> (\<forall>c. c \<notin> {q, r, x0, y0} \<longrightarrow> kept h h' c)"
proof -
  obtain h1 where h1: "divide a b q r h = Some h1" "ok h1" "num h1 q (va div vb)" "num h1 r (va mod vb)" "\<And>c. c \<noteq> q \<Longrightarrow> c \<noteq> r \<Longrightarrow> kept h h1 c"
    using div_law [OF ok n(1-7)] d by auto
  have k1: "num h1 c v" if "num h c v" "c \<noteq> q" "c \<noteq> r" for c v using kept_num [OF h1(5)] that by blast
  have x1: "num h1 x0 vx0" "num h1 x1 vx1" "num h1 x2 vx2" "x2 \<noteq> x0" using x k1 d by auto
  obtain h2 where h2: "do { h \<leftarrow> mul q x1 x0 h1; sub x2 x0 x0 h } = Some h2" "ok h2" "num h2 x0 (vx2 - va div vb * vx1)" "\<And>c. c \<noteq> x0 \<Longrightarrow> kept h1 h2 c"
    using mul_sub [OF h1(2,3) x1(2,3,1,4)] by blast
  have k2: "num h2 c v" if "num h1 c v" "c \<noteq> x0" for c v using kept_num [OF h2(4)] that by blast
  have y2: "num h2 q (va div vb)" "num h2 y1 vy1" "num h2 y2 vy2" "num h2 y0 vy0" "y2 \<noteq> y0" using h1(3) y k1 k2 d by auto
  obtain h3 where h3: "do { h \<leftarrow> mul q y1 y0 h2; sub y2 y0 y0 h } = Some h3" "ok h3" "num h3 y0 (vy2 - va div vb * vy1)" "\<And>c. c \<noteq> y0 \<Longrightarrow> kept h2 h3 c"
    using mul_sub [OF h2(2) y2] by blast
  have k3: "num h3 c v" if "num h2 c v" "c \<noteq> y0" for c v using kept_num [OF h3(4)] that by blast
  have "num h3 q (va div vb)" "num h3 r (va mod vb)" "num h3 x0 (vx2 - va div vb * vx1)" using h1(3,4) h2(3) k2 k3 d by auto
  moreover have "kept h h3 c" if "c \<notin> {q, r, x0, y0}" for c using h1(5) h2(4) h3(4) that kept_trans by (metis insertCI)
  moreover have "do { h \<leftarrow> divide a b q r h; h \<leftarrow> mul q x1 x0 h; h \<leftarrow> sub x2 x0 x0 h; h \<leftarrow> mul q y1 y0 h; sub y2 y0 y0 h } = Some h3"
    using h1(1) h2(1) h3(1) by (auto simp: bind_eq_Some_conv)
  ultimately show ?thesis using h3(2,3) by (intro exI [of _ h3]) simp
qed

end

section \<open>The store of multiple precision integers\<close>

definition mp_num :: "mpheap \<Rightarrow> nat \<Rightarrow> int \<Rightarrow> bool" where
  "mp_num h a v \<longleftrightarrow> mp_val h a v \<and> mp_var h a \<and> has_room 2 h a"

definition mp_kept :: "mpheap \<Rightarrow> mpheap \<Rightarrow> nat \<Rightarrow> bool" where
  "mp_kept h h' a \<longleftrightarrow> mh_ints h' a = mh_ints h a \<and> mh_mem h' a = mh_mem h a"

definition mp_store :: "nat \<Rightarrow> mpheap \<Rightarrow> bool" where
  "mp_store n h \<longleftrightarrow> mp_heap h \<and> mp_val h mpzero 0 \<and> \<not> mp_var h mpzero \<and> n \<le> mh_next h"

lemma kept_changes: "(\<forall>c. c \<notin> S \<longrightarrow> mp_kept h h' c) \<longleftrightarrow> changes S h h'"
  by (simp add: mp_kept_def changes_def)

lemma mp_numD:
  assumes "mp_num h a v"
  obtains b ds where "mp_plain h a b ds" "mp_out h a b ds" "v = mp_sign b * int (mag b ds)" "2 \<le> mp_size b"
proof -
  obtain b ds where b: "mp_plain h a b ds" "v = mp_sign b * int (mag b ds)" using assms unfolding mp_num_def mp_val_def by blast
  obtain c es where c: "mp_out h a c es" using assms unfolding mp_num_def mp_var_def by blast
  have "c = b" "es = ds" using plainD(6,7) [OF b(1)] outD(4,5) [OF c] by simp_all
  moreover have "2 \<le> mp_size b" using assms plainD(6) [OF b(1)] unfolding mp_num_def has_room_def by auto
  ultimately show thesis using that b c by blast
qed

lemma mp_numI: "mp_plain h a b ds \<Longrightarrow> \<not> mp_static b \<Longrightarrow> 2 \<le> mp_size b \<Longrightarrow> v = mp_sign b * int (mag b ds) \<Longrightarrow> mp_num h a v"
  unfolding mp_num_def mp_val_def mp_var_def has_room_def using plain_out plainD(6) by blast

lemma mp_num_keep: "mp_kept h h' a \<Longrightarrow> mp_num h a v \<Longrightarrow> mp_num h' a v"
  using changes_val [of "- {a}" h h' a] changes_room [of "- {a}" h h' a 2] by (simp add: mp_num_def mp_kept_def changes_def)

lemma store_keep:
  assumes "mp_store n h" "changes S h h'" "mh_next h \<le> mh_next h'" "\<And>a. a \<in> S \<Longrightarrow> mp_var h a"
  shows "mp_store n h'"
proof -
  have hp: "mp_heap h" "mp_val h mpzero 0" "\<not> mp_var h mpzero" "n \<le> mh_next h" using assms(1) by (simp_all add: mp_store_def)
  have z: "mpzero \<notin> S" using hp(3) assms(4) by blast
  have "a < mh_next h'" if aS: "a \<in> S" for a
  proof -
    obtain b ds where "mp_out h a b ds" using assms(4) [OF aS] unfolding mp_var_def by blast
    then have "a < mh_next h" using mp_heapD [OF hp(1)] outD(1) by blast
    then show ?thesis using assms(3) by simp
  qed
  then have "mp_heap h'" by (intro changes_heap [OF assms(2) hp(1) assms(3)]) auto
  then show ?thesis using hp changes_val [OF assms(2) z] assms(3) by (simp add: mp_store_def)
qed

lemma num_var: "mp_num h a v \<Longrightarrow> mp_var h a"
  by (simp add: mp_num_def)

lemma result_num:
  assumes "result res (h\<lparr>mh_next := k\<rparr>) r b v" "mh_next h \<le> k" "mp_out h r b ds" "2 \<le> mp_size b" "mp_store n h"
  shows "\<exists>h'. res = Some h' \<and> mp_store n h' \<and> mp_num h' r v \<and> (\<forall>c. c \<noteq> r \<longrightarrow> mp_kept h h' c)"
proof -
  obtain h' where h': "res = Some h'" "changes {r} (h\<lparr>mh_next := k\<rparr>) h'" "mh_next h' = mh_next (h\<lparr>mh_next := k\<rparr>)" "mp_val h' r v" "mp_var h' r" "has_room 2 h' r"
    using result_changes [OF assms(1) outD(3,6) [OF assms(3)]] assms(4) by metis
  have c: "changes {r} h h'" using h'(2) by (simp add: changes_def)
  have "mp_store n h'" by (rule store_keep [OF assms(5) c]) (use h'(3) assms(2,3) in \<open>auto simp: mp_var_def\<close>)
  then show ?thesis using h' c kept_changes [of "{r}" h h'] by (auto simp: mp_num_def)
qed

lemma result_num0:
  assumes "result res h r b v" "mp_out h r b ds" "2 \<le> mp_size b" "mp_store n h"
  shows "\<exists>h'. res = Some h' \<and> mp_store n h' \<and> mp_num h' r v \<and> (\<forall>c. c \<noteq> r \<longrightarrow> mp_kept h h' c)"
  using result_num [where k = "mh_next h" and h = h] assms by simp

lemma mpzero_top:
  assumes "mp_store n h"
  obtains b0 ds0 where "mp_plain h mpzero b0 ds0" "mp_top b0 = 0"
proof -
  obtain b0 ds0 where p: "mp_plain h mpzero b0 ds0" "0 = mp_sign b0 * int (mag b0 ds0)" using assms unfolding mp_store_def mp_val_def by blast
  have "mag b0 ds0 = 0" using p(2) plainD(3) [OF p(1)] by (auto simp: mp_sized_def)
  then show thesis using that [OF p(1)] norm_zero [OF plainD(2,5) [OF p(1)]] by simp
qed

lemma store_div:
  assumes st: "mp_store n h" and a: "mp_num h a v" "0 < v" and b: "mp_num h b w" "0 < w" and q: "mp_num h q y" "0 \<le> y" and r: "mp_num h r z" and ne: "q \<noteq> r"
  shows "\<exists>h'. mpdiv a b (Some q) (Some r) h = Some h' \<and> mp_store n h' \<and> mp_num h' q (v div w) \<and> mp_num h' r (v mod w) \<and> (\<forall>c. c \<noteq> q \<and> c \<noteq> r \<longrightarrow> mp_kept h h' c)"
proof -
  obtain bq qs where q': "mp_plain h q bq qs" "mp_out h q bq qs" "y = mp_sign bq * int (mag bq qs)" "2 \<le> mp_size bq" using q(1) by (rule mp_numD)
  obtain br rs where r': "mp_plain h r br rs" "mp_out h r br rs" "2 \<le> mp_size br" using r by (rule mp_numD) blast
  have "mp_sign bq = 1" using wf_positive [OF plainD(2) [OF q'(1)], of "nat y"] q(2) q'(3) by simp
  then have o: "div_outs 2 1 h (Some q) (Some r)" using q' r' ne outD(6) by (auto simp: div_outs_def opt_out_def)
  have hp: "mp_val h mpzero 0" "\<not> mp_var h mpzero" "mp_heap h" using st by (simp_all add: mp_store_def)
  have vals: "mp_val h a v" "mp_val h b w" using a b by (simp_all add: mp_num_def)
  obtain h' where h': "mpdiv a b (Some q) (Some r) h = Some h'" "opt_val 2 h' (Some q) (v div w)" "opt_val 2 h' (Some r) (v mod w)" "changes {q, r} h h'" "mh_next h \<le> mh_next h'"
    using mpdiv_done [OF vals(1) a(2) vals(2) b(2) hp o] by (auto simp: div_done_def insert_commute)
  have "mp_store n h'" by (rule store_keep [OF st h'(4,5)]) (use q(1) r num_var in blast)
  then show ?thesis using h' kept_changes [of "{q, r}" h h'] by (auto simp: opt_val_def mp_num_def)
qed

interpretation mps: integers "mp_store n" mp_num mp_kept mpsub mpmul "\<lambda>a b q r. mpdiv a b (Some q) (Some r)"
proof
  fix h h' h'' :: mpheap and a b r q :: nat and v w y z :: int
  show "mp_kept h h' a \<Longrightarrow> mp_kept h' h'' a \<Longrightarrow> mp_kept h h'' a" by (simp add: mp_kept_def)
  show "mp_kept h h' a \<Longrightarrow> mp_num h a v \<Longrightarrow> mp_num h' a v" by (rule mp_num_keep)
  show "\<exists>h'. mpsub a b r h = Some h' \<and> mp_store n h' \<and> mp_num h' r (v - w) \<and> (\<forall>c. c \<noteq> r \<longrightarrow> mp_kept h h' c)"
    if st: "mp_store n h" and n: "mp_num h a v" "mp_num h b w" "mp_num h r z"
  proof -
    obtain ba as where A: "mp_plain h a ba as" "v = mp_sign ba * int (mag ba as)" using n(1) by (rule mp_numD) blast
    obtain bb bs where B: "mp_plain h b bb bs" "w = mp_sign bb * int (mag bb bs)" using n(2) by (rule mp_numD) blast
    obtain br rs where R: "mp_out h r br rs" "2 \<le> mp_size br" using n(3) by (rule mp_numD) blast
    obtain b0 ds0 where Z: "mp_plain h mpzero b0 ds0" "mp_top b0 = 0" using st by (rule mpzero_top)
    show ?thesis using result_num0 [OF mpsub_result [OF A(1) B(1) R(1) Z] R st] unfolding A(2) B(2) .
  qed
  show "\<exists>h'. mpmul a b r h = Some h' \<and> mp_store n h' \<and> mp_num h' r (v * w) \<and> (\<forall>c. c \<noteq> r \<longrightarrow> mp_kept h h' c)"
    if st: "mp_store n h" and n: "mp_num h a v" "mp_num h b w" "mp_num h r z"
  proof -
    obtain ba as where A: "mp_plain h a ba as" "v = mp_sign ba * int (mag ba as)" using n(1) by (rule mp_numD) blast
    obtain bb bs where B: "mp_plain h b bb bs" "w = mp_sign bb * int (mag bb bs)" using n(2) by (rule mp_numD) blast
    obtain br rs where R: "mp_out h r br rs" "2 \<le> mp_size br" using n(3) by (rule mp_numD) blast
    have "mp_heap h" using st by (simp add: mp_store_def)
    from mpmul_result [OF A(1) B(1) R(1) this] show ?thesis using result_num [OF _ _ R st] unfolding A(2) B(2) by blast
  qed
qed (rule store_div)

section \<open>The loop\<close>

definition eu_addrs :: "euclid \<Rightarrow> nat list" where
  "eu_addrs e = [eu_a e, eu_b e, eu_x0 e, eu_x1 e, eu_x2 e, eu_y0 e, eu_y1 e, eu_y2 e, eu_q e, eu_r e]"

definition eu_nums :: "mpheap \<Rightarrow> euclid \<Rightarrow> bool" where
  "eu_nums h e \<longleftrightarrow> distinct (eu_addrs e) \<and> (\<forall>a \<in> set (eu_addrs e). \<exists>v. mp_num h a v)"

definition eu_inv :: "nat \<Rightarrow> int \<Rightarrow> int \<Rightarrow> euclid \<Rightarrow> mpheap \<Rightarrow> int \<Rightarrow> int \<Rightarrow> bool" where
  "eu_inv n A B e h va vb \<longleftrightarrow> mp_store n h \<and> eu_nums h e \<and> mp_num h (eu_a e) va \<and> 0 < va \<and> mp_num h (eu_b e) vb \<and> 0 \<le> vb \<and> gcd va vb = gcd A B
     \<and> (\<exists>v \<ge> 0. mp_num h (eu_q e) v)
     \<and> (\<exists>x1 x2 y1 y2. mp_num h (eu_x1 e) x1 \<and> mp_num h (eu_x2 e) x2 \<and> mp_num h (eu_y1 e) y1 \<and> mp_num h (eu_y2 e) y2
          \<and> x2 * A + y2 * B = va \<and> x1 * A + y1 * B = vb)"

lemma eu_rotate_addrs: "set (eu_addrs (euclid_rotate e)) = set (eu_addrs e)" "distinct (eu_addrs (euclid_rotate e)) = distinct (eu_addrs e)"
  by (auto simp: eu_addrs_def euclid_rotate_def)

lemma eu_rotate:
  "eu_a (euclid_rotate e) = eu_b e" "eu_b (euclid_rotate e) = eu_r e" "eu_r (euclid_rotate e) = eu_a e" "eu_q (euclid_rotate e) = eu_q e"
  "eu_x2 (euclid_rotate e) = eu_x1 e" "eu_x1 (euclid_rotate e) = eu_x0 e" "eu_x0 (euclid_rotate e) = eu_x2 e"
  "eu_y2 (euclid_rotate e) = eu_y1 e" "eu_y1 (euclid_rotate e) = eu_y0 e" "eu_y0 (euclid_rotate e) = eu_y2 e"
  by (simp_all add: euclid_rotate_def)

lemma num_positive:
  assumes "mp_num h a v" "0 \<le> v"
  shows "\<exists>b. mh_ints h a = Some b \<and> (mp_top b \<noteq> 0 \<and> mp_sign b > 0 \<longleftrightarrow> 0 < v)"
proof -
  obtain b ds where b: "mp_plain h a b ds" "v = mp_sign b * int (mag b ds)" using assms(1) by (rule mp_numD)
  have "mp_sign b = 1 \<and> mag b ds = nat v" using wf_positive [OF plainD(2) [OF b(1)], of "nat v"] b(2) assms(2) by simp
  then show ?thesis using plainD(6) [OF b(1)] norm_zero [OF plainD(2,5) [OF b(1)]] by auto
qed

text \<open>One round keeps the invariant, with the values of Euclid's algorithm.\<close>

lemma eu_round:
  assumes i: "eu_inv n A B e h va vb" and vb: "0 < vb"
  shows "\<exists>h'. euclid_step e h = Some h' \<and> eu_inv n A B (euclid_rotate e) h' vb (va mod vb) \<and> changes (set (eu_addrs e)) h h'"
proof -
  have st: "mp_store n h" "eu_nums h e" "mp_num h (eu_a e) va" "0 < va" "mp_num h (eu_b e) vb" "gcd va vb = gcd A B" using i by (simp_all add: eu_inv_def)
  obtain vq x1 x2 y1 y2 where v: "mp_num h (eu_q e) vq" "0 \<le> vq" "mp_num h (eu_x1 e) x1" "mp_num h (eu_x2 e) x2" "mp_num h (eu_y1 e) y1" "mp_num h (eu_y2 e) y2"
    and bz: "x2 * A + y2 * B = va" "x1 * A + y1 * B = vb" using i unfolding eu_inv_def by blast
  obtain x0 y0 vr where o: "mp_num h (eu_x0 e) x0" "mp_num h (eu_y0 e) y0" "mp_num h (eu_r e) vr" using st(2) unfolding eu_nums_def eu_addrs_def by auto
  have d: "distinct [eu_a e, eu_b e, eu_x0 e, eu_x1 e, eu_x2 e, eu_y0 e, eu_y1 e, eu_y2 e, eu_q e, eu_r e]" using st(2) by (simp only: eu_nums_def eu_addrs_def)
  let ?q = "va div vb"
  obtain h' where h': "euclid_step e h = Some h'" "mp_store n h'" "mp_num h' (eu_q e) ?q" "mp_num h' (eu_r e) (va mod vb)" "mp_num h' (eu_x0 e) (x2 - ?q * x1)"
    "mp_num h' (eu_y0 e) (y2 - ?q * y1)" "\<And>c. c \<notin> {eu_q e, eu_r e, eu_x0 e, eu_y0 e} \<Longrightarrow> mp_kept h h' c"
    using mps.bezout_step [OF st(1,3,4,5) vb v(1,2) o(3,1) v(3,4) o(2) v(5,6) d] unfolding euclid_step_def by blast
  have k: "mp_num h' c u" if "mp_num h c u" "c \<notin> {eu_q e, eu_r e, eu_x0 e, eu_y0 e}" for c u using mp_num_keep [OF h'(7)] that by blast
  have ds: "eu_a e \<notin> {eu_q e, eu_r e, eu_x0 e, eu_y0 e}" "eu_b e \<notin> {eu_q e, eu_r e, eu_x0 e, eu_y0 e}" "eu_x1 e \<notin> {eu_q e, eu_r e, eu_x0 e, eu_y0 e}"
    "eu_x2 e \<notin> {eu_q e, eu_r e, eu_x0 e, eu_y0 e}" "eu_y1 e \<notin> {eu_q e, eu_r e, eu_x0 e, eu_y0 e}" "eu_y2 e \<notin> {eu_q e, eu_r e, eu_x0 e, eu_y0 e}" using d by auto
  note kept = k [OF st(3) ds(1)] k [OF st(5) ds(2)] k [OF v(3) ds(3)] k [OF v(4) ds(4)] k [OF v(5) ds(5)] k [OF v(6) ds(6)]
  have nums: "eu_nums h' (euclid_rotate e)" unfolding eu_nums_def eu_rotate_addrs using st(2) kept h'(3-6) unfolding eu_nums_def eu_addrs_def by auto
  have gc: "gcd vb (va mod vb) = gcd A B" using st(6) by (simp add: gcd.commute gcd_red_int [symmetric])
  have bz': "(x2 - ?q * x1) * A + (y2 - ?q * y1) * B = va mod vb"
  proof -
    have "(x2 - ?q * x1) * A + (y2 - ?q * y1) * B = (x2 * A + y2 * B) - ?q * (x1 * A + y1 * B)" by (simp add: algebra_simps)
    then show ?thesis unfolding bz by (simp add: minus_div_mult_eq_mod)
  qed
  have q0: "0 \<le> ?q" using st(4) vb by (simp add: pos_imp_zdiv_nonneg_iff)
  have ex: "\<exists>v \<ge> 0. mp_num h' (eu_q e) v" "\<exists>x1 x2 y1 y2. mp_num h' (eu_x0 e) x1 \<and> mp_num h' (eu_x1 e) x2 \<and> mp_num h' (eu_y0 e) y1 \<and> mp_num h' (eu_y1 e) y2
      \<and> x2 * A + y2 * B = vb \<and> x1 * A + y1 * B = va mod vb" using q0 h'(3,5,6) kept(3,5) bz(2) bz' by blast+
  have "eu_inv n A B (euclid_rotate e) h' vb (va mod vb)"
    unfolding eu_inv_def eu_rotate by (intro conjI h'(2,4) kept(2) vb nums gc pos_mod_sign [OF vb] ex)
  moreover have "changes (set (eu_addrs e)) h h'"
  proof -
    have "changes {eu_q e, eu_r e, eu_x0 e, eu_y0 e} h h'" using h'(7) unfolding kept_changes [symmetric] by blast
    then show ?thesis by (rule changes_mono) (simp add: eu_addrs_def)
  qed
  ultimately show ?thesis using h'(1) by blast
qed

lemma eu_loop:
  "eu_inv n A B e h va vb \<Longrightarrow> \<exists>e' h' x y. euclid_loop e h = Some (e', h') \<and> mp_store n h' \<and> eu_nums h' e' \<and> set (eu_addrs e') = set (eu_addrs e)
     \<and> changes (set (eu_addrs e)) h h' \<and> mp_num h' (eu_a e') (gcd A B) \<and> mp_num h' (eu_x2 e') x \<and> mp_num h' (eu_y2 e') y \<and> x * A + y * B = gcd A B"
proof (induction "nat vb" arbitrary: e h va vb rule: less_induct)
  case less
  have vb: "mp_num h (eu_b e) vb" "0 \<le> vb" "0 < va" "gcd va vb = gcd A B" using less.prems by (simp_all add: eu_inv_def)
  obtain b where b: "mh_ints h (eu_b e) = Some b" "mp_top b \<noteq> 0 \<and> mp_sign b > 0 \<longleftrightarrow> 0 < vb" using num_positive [OF vb(1,2)] by blast
  show ?case
  proof (cases "0 < vb")
    case True
    obtain h1 where h1: "euclid_step e h = Some h1" "eu_inv n A B (euclid_rotate e) h1 vb (va mod vb)" "changes (set (eu_addrs e)) h h1"
      using eu_round [OF less.prems True] by blast
    have "nat (va mod vb) < nat vb" using True by simp
    from less.hyps [OF this h1(2)] obtain e' h' x y where l: "euclid_loop (euclid_rotate e) h1 = Some (e', h')" "mp_store n h'" "eu_nums h' e'"
      "set (eu_addrs e') = set (eu_addrs e)" "changes (set (eu_addrs e)) h1 h'" "mp_num h' (eu_a e') (gcd A B)" "mp_num h' (eu_x2 e') x" "mp_num h' (eu_y2 e') y"
      "x * A + y * B = gcd A B" unfolding eu_rotate_addrs by blast
    have "euclid_loop e h = Some (e', h')" using b True h1(1) l(1) by (subst euclid_loop.simps) simp
    moreover have "changes (set (eu_addrs e)) h h'" using changes_trans [OF h1(3) l(5)] by simp
    ultimately show ?thesis using l(2-4,6-9) by blast
  next
    case False
    then have "vb = 0" using vb(2) by simp
    then have g: "va = gcd A B" using vb(3,4) by simp
    have "euclid_loop e h = Some (e, h)" using b False by (subst euclid_loop.simps) auto
    then show ?thesis using less.prems g unfolding eu_inv_def by (intro exI [of _ e] exI [of _ h]) auto
  qed
qed

section \<open>Allocation\<close>

text \<open>The numbers \<open>vs\<close> are made, at the next addresses.\<close>

definition made_nums :: "mpheap \<Rightarrow> int list \<Rightarrow> mpheap \<Rightarrow> bool" where
  "made_nums h0 vs h \<longleftrightarrow> mh_next h = mh_next h0 + length vs \<and> changes {mh_next h0 ..< mh_next h} h0 h \<and> mp_heap h \<and> mh_mindigits h = mh_mindigits h0
     \<and> (\<forall>i < length vs. mp_num h (mh_next h0 + i) (vs ! i))"

lemma with_new_fields [simp]:
  "mh_mindigits (with_new a b ds h) = mh_mindigits h" "mh_next (with_new a b ds h) = Suc a" "mh_ints (with_new a b ds h) = (mh_ints h)(a \<mapsto> b)" "mh_mem (with_new a b ds h) = (mh_mem h)(a \<mapsto> ds)"
  by (simp_all add: with_new_def put_mp_def)

lemma with_new_num: "mp_wf b ds \<Longrightarrow> mp_norm b \<Longrightarrow> \<not> mp_timesafe b \<Longrightarrow> \<not> mp_static b \<Longrightarrow> 2 \<le> mp_size b \<Longrightarrow> v = mp_sign b * int (mag b ds)
    \<Longrightarrow> mp_num (with_new a b ds h) a v"
  by (rule mp_numI [of _ _ b ds]) (simp_all add: mp_plain_def)

lemma made_step:
  assumes m: "made_nums h0 vs h" and n: "mp_num (with_new (mh_next h) b ds h) (mh_next h) v"
  shows "made_nums h0 (vs @ [v]) (with_new (mh_next h) b ds h)"
proof -
  let ?h = "with_new (mh_next h) b ds h"
  have k: "mp_kept h ?h a" if "a \<noteq> mh_next h" for a using that by (simp add: mp_kept_def)
  have "mp_num ?h (mh_next h0 + i) ((vs @ [v]) ! i)" if "i < length (vs @ [v])" for i
  proof (cases "i = length vs")
    case True
    then show ?thesis using n m by (simp add: made_nums_def)
  next
    case False
    then have i: "i < length vs" using that by simp
    then have "mp_num h (mh_next h0 + i) (vs ! i)" "mh_next h0 + i \<noteq> mh_next h" using m by (auto simp: made_nums_def)
    then show ?thesis using mp_num_keep [OF k] i by (simp add: nth_append)
  qed
  moreover have "changes {mh_next h0 ..< Suc (mh_next h)} h0 ?h"
  proof -
    have "changes ({mh_next h0 ..< mh_next h} \<union> {mh_next h}) h0 ?h" using m unfolding made_nums_def by (intro changes_trans [OF _ changes_new]) blast
    then show ?thesis by (rule changes_mono) (use m in \<open>auto simp: made_nums_def\<close>)
  qed
  ultimately show ?thesis using m with_new_heap [of h b ds] by (simp add: made_nums_def)
qed

lemma made_new:
  assumes m: "made_nums h0 vs h" and d: "2 \<le> mh_mindigits h0"
  shows "\<exists>h'. mpnew 0 h = Some (mh_next h0 + length vs, h') \<and> made_nums h0 (vs @ [0]) h'"
proof -
  let ?b = "\<lparr>mp_sign = 1, mp_size = mh_mindigits h, mp_top = 0, mp_static = False, mp_norm = True, mp_timesafe = False, mp_field = False\<rparr>"
  let ?h = "with_new (mh_next h) ?b (replicate (mh_mindigits h) 0) h"
  have mh: "mh_next h = mh_next h0 + length vs" "mh_mindigits h = mh_mindigits h0" using m by (simp_all add: made_nums_def)
  have "mpnew 0 h = Some (mh_next h, ?h)" by (simp add: mpnew_def DIGITS_def Let_def with_new_def put_mp_def)
  moreover have "mp_num ?h (mh_next h) 0" by (rule with_new_num) (use d mh in \<open>simp_all add: mp_wf_def mp_sized_def mag_def\<close>)
  ultimately show ?thesis using made_step [OF m] mh(1) by auto
qed

lemma made_copy:
  assumes m: "made_nums h0 vs h" and d: "2 \<le> mh_mindigits h0" and a: "mp_val h0 a v" and h0: "mp_heap h0"
  shows "\<exists>h'. mpcopy a h = Some (mh_next h0 + length vs, h') \<and> made_nums h0 (vs @ [v]) h'"
proof -
  have mh: "mh_next h = mh_next h0 + length vs" "mh_mindigits h = mh_mindigits h0" "changes {mh_next h0 ..< mh_next h} h0 h" using m unfolding made_nums_def by blast+
  obtain b ds where b0: "mp_plain h0 a b ds" "v = mp_sign b * int (mag b ds)" using a unfolding mp_val_def by blast
  have b: "mp_plain h a b ds" using changes_plain [OF mh(3)] b0(1) plain_less [OF h0 b0(1)] by simp
  let ?k = "max (mp_size b) (mh_mindigits h)"
  let ?c = "\<lparr>mp_sign = mp_sign b, mp_size = ?k, mp_top = mp_top b, mp_static = False, mp_norm = mp_norm b, mp_timesafe = mp_timesafe b, mp_field = False\<rparr>"
  let ?es = "take (mp_top b) ds @ drop (mp_top b) (replicate ?k 0)"
  let ?h = "with_new (mh_next h) ?c ?es h"
  have sz: "length ds = mp_size b" "mp_top b \<le> mp_size b" using plainD(3) [OF b] by (simp_all add: mp_sized_def)
  have ne: "a \<noteq> mh_next h" using plain_less [OF h0 b0(1)] mh(1) by simp
  have "mpcopy a h = Some (mh_next h, ?h)"
    using plainD(6,7) [OF b] sz ne by (simp add: mpcopy_def mpnew_def Let_def upd_mp_def copy_digits_def with_new_def put_mp_def)
  moreover have "mag ?c ?es = mag b ds" using sz by (simp add: mag_def)
  then have "mp_num ?h (mh_next h) v"
    by (intro with_new_num) (use plainD(2,4,5) [OF b] sz b0(2) d mh(2) in \<open>auto simp: mp_wf_def mp_sized_def nth_append\<close>)
  ultimately show ?thesis using made_step [OF m] mh(1) by auto
qed

lemma euclid_start_made:
  assumes d: "2 \<le> mh_mindigits h" and a: "mp_val h a va" "mp_val h b vb" and c: "mp_val h mpzero 0" "mp_val h mpone 1" and h: "mp_heap h"
  defines "n \<equiv> mh_next h"
  shows "\<exists>h'. euclid_start a b h = Some (\<lparr>eu_a = n, eu_b = n + 1, eu_x0 = n + 2, eu_x1 = n + 3, eu_x2 = n + 4, eu_y0 = n + 5, eu_y1 = n + 6, eu_y2 = n + 7, eu_q = n + 8, eu_r = n + 9\<rparr>, h')
    \<and> made_nums h [va, vb, 0, 0, 1, 0, 1, 0, 0, 0] h'"
proof -
  have s0: "made_nums h [] h" using h by (simp add: made_nums_def)
  obtain h1 where h1: "mpcopy a h = Some (n, h1)" "made_nums h [va] h1" using made_copy [OF s0 d a(1) h] by (auto simp: n_def)
  obtain h2 where h2: "mpcopy b h1 = Some (n + 1, h2)" "made_nums h [va, vb] h2" using made_copy [OF h1(2) d a(2) h] by (auto simp: n_def)
  obtain h3 where h3: "mpnew 0 h2 = Some (n + 2, h3)" "made_nums h [va, vb, 0] h3" using made_new [OF h2(2) d] by (auto simp: n_def)
  obtain h4 where h4: "mpcopy mpzero h3 = Some (n + 3, h4)" "made_nums h [va, vb, 0, 0] h4" using made_copy [OF h3(2) d c(1) h] by (auto simp: n_def)
  obtain h5 where h5: "mpcopy mpone h4 = Some (n + 4, h5)" "made_nums h [va, vb, 0, 0, 1] h5" using made_copy [OF h4(2) d c(2) h] by (auto simp: n_def)
  obtain h6 where h6: "mpnew 0 h5 = Some (n + 5, h6)" "made_nums h [va, vb, 0, 0, 1, 0] h6" using made_new [OF h5(2) d] by (auto simp: n_def)
  obtain h7 where h7: "mpcopy mpone h6 = Some (n + 6, h7)" "made_nums h [va, vb, 0, 0, 1, 0, 1] h7" using made_copy [OF h6(2) d c(2) h] by (auto simp: n_def)
  obtain h8 where h8: "mpcopy mpzero h7 = Some (n + 7, h8)" "made_nums h [va, vb, 0, 0, 1, 0, 1, 0] h8" using made_copy [OF h7(2) d c(1) h] by (auto simp: n_def)
  obtain h9 where h9: "mpnew 0 h8 = Some (n + 8, h9)" "made_nums h [va, vb, 0, 0, 1, 0, 1, 0, 0] h9" using made_new [OF h8(2) d] by (auto simp: n_def)
  obtain h10 where h10: "mpnew 0 h9 = Some (n + 9, h10)" "made_nums h [va, vb, 0, 0, 1, 0, 1, 0, 0, 0] h10" using made_new [OF h9(2) d] by (auto simp: n_def)
  show ?thesis unfolding euclid_start_def h1(1) h2(1) h3(1) h4(1) h5(1) h6(1) h7(1) h8(1) h9(1) h10(1) Option.bind.simps prod.case using h10(2) by simp
qed

section \<open>The function\<close>

lemma mpfree_all_ok:
  assumes "\<And>a. a \<in> set as \<Longrightarrow> \<exists>v. mp_num h a v" "distinct as"
  shows "\<exists>h'. mpfree_all as h = Some h' \<and> changes (set as) h h' \<and> mh_next h' = mh_next h \<and> (\<forall>a \<in> set as. mh_ints h' a = None \<and> mh_mem h' a = None)"
  using assms
proof (induction as arbitrary: h)
  case (Cons a as)
  obtain b ds where "mp_at h a b ds" "\<not> mp_static b" using Cons.prems(1) [of a] mp_numD outD(1,6) by (metis list.set_intros(1))
  then obtain h1 where h1: "mpfree a h = Some h1" "changes {a} h h1" "mh_next h1 = mh_next h" "mh_ints h1 a = None" "mh_mem h1 a = None" using mpfree_changes by blast
  have "\<exists>v. mp_num h1 c v" if "c \<in> set as" for c
  proof -
    have "mp_kept h h1 c" using that Cons.prems(2) h1(2) by (auto simp: mp_kept_def changes_def)
    then show ?thesis using Cons.prems(1) [of c] that mp_num_keep by (metis list.set_intros(2))
  qed
  then obtain h2 where h2: "mpfree_all as h1 = Some h2" "changes (set as) h1 h2" "mh_next h2 = mh_next h1" "\<forall>a \<in> set as. mh_ints h2 a = None \<and> mh_mem h2 a = None"
    using Cons.IH [of h1] Cons.prems(2) by auto
  have "mh_ints h2 a = None \<and> mh_mem h2 a = None" using h2(2) h1(4,5) Cons.prems(2) by (simp add: changes_def)
  then show ?case using h1(1,3) h2 changes_trans [OF h1(2) h2(2)] by simp
qed simp

text \<open>Three assignments in a row.\<close>

lemma assign_three:
  assumes v: "mp_val h a1 v1" "mp_val h a2 v2" "mp_val h a3 v3" and r: "mp_var h d" "mp_var h x" "mp_var h y" and ne: "distinct [d, x, y]" "a2 \<noteq> d" "a3 \<noteq> d" "a3 \<noteq> x"
  shows "\<exists>h'. do { h \<leftarrow> mpassign a1 d h; h \<leftarrow> mpassign a2 x h; mpassign a3 y h } = Some h' \<and> mp_val h' d v1 \<and> mp_val h' x v2 \<and> mp_val h' y v3
    \<and> mp_var h' d \<and> mp_var h' x \<and> mp_var h' y \<and> changes {d, x, y} h h' \<and> mh_next h \<le> mh_next h'"
proof -
  obtain h1 where h1: "mpassign a1 d h = Some h1" "mp_val h1 d v1" "mp_var h1 d" "changes {d} h h1" "mh_next h \<le> mh_next h1"
    using mpassign_val [OF v(1) r(1)] by (auto simp: becomes_def only_changes_def changes_def)
  have k1: "mp_val h1 c u = mp_val h c u" "mp_var h1 c = mp_var h c" if "c \<noteq> d" for c u using changes_val [OF h1(4)] that by simp_all
  obtain h2 where h2: "mpassign a2 x h1 = Some h2" "mp_val h2 x v2" "mp_var h2 x" "changes {x} h1 h2" "mh_next h1 \<le> mh_next h2"
    using mpassign_val [of h1 a2 v2 x] v(2) r(2) k1 ne by (auto simp: becomes_def only_changes_def changes_def)
  have k2: "mp_val h2 c u = mp_val h1 c u" "mp_var h2 c = mp_var h1 c" if "c \<noteq> x" for c u using changes_val [OF h2(4)] that by simp_all
  obtain h3 where h3: "mpassign a3 y h2 = Some h3" "mp_val h3 y v3" "mp_var h3 y" "changes {y} h2 h3" "mh_next h2 \<le> mh_next h3"
    using mpassign_val [of h2 a3 v3 y] v(3) r(3) k1 k2 ne by (auto simp: becomes_def only_changes_def changes_def)
  have k3: "mp_val h3 c u = mp_val h2 c u" "mp_var h3 c = mp_var h2 c" if "c \<noteq> y" for c u using changes_val [OF h3(4)] that by simp_all
  have "changes ({d} \<union> ({x} \<union> {y})) h h3" by (rule changes_trans [OF h1(4) changes_trans [OF h2(4) h3(4)]])
  then have "changes {d, x, y} h h3" by (rule changes_mono) auto
  then show ?thesis using h1 h2 h3 k2 k3 ne by (intro exI [of _ h3]) auto
qed

text \<open>What the function promises.\<close>

definition euclid_done :: "mpheap option \<Rightarrow> int \<Rightarrow> int \<Rightarrow> nat \<Rightarrow> nat \<Rightarrow> nat \<Rightarrow> mpheap \<Rightarrow> bool" where
  "euclid_done res A B d x y h \<longleftrightarrow> (\<exists>h' vx vy. res = Some h' \<and> mp_val h' d (gcd A B) \<and> mp_val h' x vx \<and> mp_val h' y vy \<and> A * vx + B * vy = gcd A B \<and> changes {d, x, y} h h')"

lemma euclid_done_swap: "euclid_done res A B d x y h \<Longrightarrow> euclid_done res B A d y x h"
  unfolding euclid_done_def by (auto simp: gcd.commute insert_commute add.commute)

lemma eu_start_inv:
  assumes m: "made_nums h [A, B, 0, 0, 1, 0, 1, 0, 0, 0] h1" and st: "mp_store 0 h" and v: "0 < A" "0 \<le> B"
  defines "n \<equiv> mh_next h"
  defines "e \<equiv> \<lparr>eu_a = n, eu_b = n + 1, eu_x0 = n + 2, eu_x1 = n + 3, eu_x2 = n + 4, eu_y0 = n + 5, eu_y1 = n + 6, eu_y2 = n + 7, eu_q = n + 8, eu_r = n + 9\<rparr>"
  shows "eu_inv n A B e h1 A B" "set (eu_addrs e) = {n ..< n + 10}" "changes {n ..< n + 10} h h1"
proof -
  have nx: "changes {n ..< mh_next h1} h h1" "mp_heap h1" "mh_next h1 = n + length [A, B, 0, 0, 1, 0, 1, 0, 0, 0]" using m unfolding made_nums_def n_def by blast+
  then have nx: "mh_next h1 = n + 10" "changes {n ..< mh_next h1} h h1" "mp_heap h1" by simp_all
  then show c: "changes {n ..< n + 10} h h1" by simp
  have nth: "mp_num h1 (n + i) ([A, B, 0, 0, 1, 0, 1, 0, 0, 0] ! i)" if "i < 10" for i using m that unfolding made_nums_def n_def by simp
  note nums = nth [of 0, simplified] nth [of 1, simplified] nth [of 2, simplified] nth [of 3, simplified] nth [of 4, simplified]
    nth [of 5, simplified] nth [of 6, simplified] nth [of 7, simplified] nth [of 8, simplified] nth [of 9, simplified]
  show "set (eu_addrs e) = {n ..< n + 10}" unfolding eu_addrs_def e_def by (simp add: atLeastLessThan_upt upt_rec numeral_eq_Suc)
  have "mpzero < n" using plain_less st unfolding mp_store_def mp_val_def n_def by blast
  then have "mpzero \<notin> {n ..< n + 10}" by simp
  then have "mp_store n h1" using changes_val [OF c] st nx(1,3) by (simp add: mp_store_def)
  moreover have "eu_nums h1 e" unfolding eu_nums_def eu_addrs_def e_def using nums by (auto simp: numeral_eq_Suc)
  moreover have "\<exists>v \<ge> 0. mp_num h1 (eu_q e) v" using nums(9) by (auto simp: e_def)
  moreover have "\<exists>x1 x2 y1 y2. mp_num h1 (eu_x1 e) x1 \<and> mp_num h1 (eu_x2 e) x2 \<and> mp_num h1 (eu_y1 e) y1 \<and> mp_num h1 (eu_y2 e) y2
      \<and> x2 * A + y2 * B = A \<and> x1 * A + y1 * B = B"
    using nums(4,5,7,8) by (intro exI [of _ 0] exI [of _ 1] exI [of _ 1] exI [of _ 0]) (simp add: e_def)
  ultimately show "eu_inv n A B e h1 A B" unfolding eu_inv_def using nums(1,2) v by (simp add: e_def)
qed

lemma euclid_ordered_done:
  assumes d: "2 \<le> mh_mindigits h" and a: "mp_val h a A" "mp_val h b B" "B \<le> A" "0 \<le> B"
    and st: "mp_store 0 h" and one: "mp_val h mpone 1" "\<not> mp_var h mpone" and r: "mp_var h dd" "mp_var h x" "mp_var h y" and ne: "distinct [dd, x, y]"
  shows "euclid_done (euclid_ordered a b dd x y h) A B dd x y h"
proof -
  have z: "mp_heap h" "mp_val h mpzero 0" "\<not> mp_var h mpzero" using st by (simp_all add: mp_store_def)
  obtain bb bs where b: "mp_plain h b bb bs" "B = mp_sign bb * int (mag bb bs)" using a(2) unfolding mp_val_def by blast
  have "mag bb bs = nat B" using wf_positive [OF plainD(2) [OF b(1)], of "nat B"] b(2) a(4) by simp
  then have tb: "mp_top bb = 0 \<longleftrightarrow> B = 0" using norm_zero [OF plainD(2,5) [OF b(1)]] a(4) by auto
  show ?thesis
  proof (cases "B = 0")
    case True
    have "mpone \<noteq> dd" "mpzero \<noteq> dd" "mpzero \<noteq> x" using one(2) z(3) r by metis+
    then obtain h' where "do { h \<leftarrow> mpassign a dd h; h \<leftarrow> mpassign mpone x h; mpassign mpzero y h } = Some h'" "mp_val h' dd A" "mp_val h' x 1" "mp_val h' y 0" "changes {dd, x, y} h h'"
      using assign_three [OF a(1) one(1) z(2) r ne] by blast
    then show ?thesis using True a(3) tb plainD(6) [OF b(1)] unfolding euclid_done_def by (intro exI [of _ h'] exI [of _ 1] exI [of _ 0]) (simp add: euclid_ordered_def)
  next
    case False
    define n where "n = mh_next h"
    define e where "e = \<lparr>eu_a = n, eu_b = n + 1, eu_x0 = n + 2, eu_x1 = n + 3, eu_x2 = n + 4, eu_y0 = n + 5, eu_y1 = n + 6, eu_y2 = n + 7, eu_q = n + 8, eu_r = n + 9\<rparr>"
    obtain h1 where h1: "euclid_start a b h = Some (e, h1)" "made_nums h [A, B, 0, 0, 1, 0, 1, 0, 0, 0] h1"
      using euclid_start_made [OF d a(1,2) z(2) one(1) z(1)] unfolding e_def n_def by blast
    have A: "0 < A" using False a(3,4) by simp
    note iv = eu_start_inv [OF h1(2) st A a(4), folded n_def, folded e_def]
    let ?N = "{n ..< n + 10}"
    obtain e' h2 vx vy where l: "euclid_loop e h1 = Some (e', h2)" "eu_nums h2 e'" "set (eu_addrs e') = ?N" "changes ?N h1 h2"
      "mp_num h2 (eu_a e') (gcd A B)" "mp_num h2 (eu_x2 e') vx" "mp_num h2 (eu_y2 e') vy" "vx * A + vy * B = gcd A B" using eu_loop [OF iv(1)] unfolding iv(2) by blast
    have c2: "changes ?N h h2" using changes_trans [OF iv(3) l(4)] by simp
    have out: "c \<notin> ?N" if vc: "mp_var h c" for c
    proof -
      obtain bc cs where "mp_out h c bc cs" using vc unfolding mp_var_def by blast
      then have "c < n" using mp_heapD [OF z(1)] outD(1) unfolding n_def by blast
      then show ?thesis by simp
    qed
    note outs = out [OF r(1)] out [OF r(2)] out [OF r(3)]
    have r2: "mp_var h2 dd" "mp_var h2 x" "mp_var h2 y" using changes_val(2) [OF c2] outs r by simp_all
    have ad: "eu_x2 e' \<in> ?N" "eu_y2 e' \<in> ?N" using l(3) by (auto simp: eu_addrs_def)
    obtain h3 where h3: "do { h \<leftarrow> mpassign (eu_a e') dd h2; h \<leftarrow> mpassign (eu_x2 e') x h; mpassign (eu_y2 e') y h } = Some h3"
      "mp_val h3 dd (gcd A B)" "mp_val h3 x vx" "mp_val h3 y vy" "changes {dd, x, y} h2 h3"
      using assign_three [of h2 "eu_a e'" "gcd A B" "eu_x2 e'" vx "eu_y2 e'" vy dd x y] l(5-7) r2 ne outs ad unfolding mp_num_def by blast
    let ?as = "[eu_x0 e', eu_x1 e', eu_x2 e', eu_y0 e', eu_y1 e', eu_y2 e', eu_q e', eu_r e', eu_a e', eu_b e']"
    have as: "set ?as = ?N" "distinct ?as" using l(2,3) unfolding eu_nums_def eu_addrs_def by auto
    have "\<exists>v. mp_num h3 c v" if cN: "c \<in> set ?as" for c
    proof -
      have "c \<notin> {dd, x, y}" using cN outs unfolding as(1) by blast
      then have "mp_kept h2 h3 c" using h3(5) unfolding kept_changes [symmetric] by blast
      then show ?thesis using l(2,3) cN mp_num_keep unfolding as(1) eu_nums_def by blast
    qed
    then obtain h4 where h4: "mpfree_all ?as h3 = Some h4" "changes ?N h3 h4" "\<forall>a \<in> ?N. mh_ints h4 a = None \<and> mh_mem h4 a = None"
      using mpfree_all_ok [OF _ as(2)] unfolding as(1) by blast
    have "changes (?N \<union> ({dd, x, y} \<union> ?N)) h h4" by (rule changes_trans [OF c2 changes_trans [OF h3(5) h4(2)]])
    then have "changes ({dd, x, y} \<union> ?N) h h4" by (rule changes_mono) auto
    then have ch: "changes {dd, x, y} h h4" by (rule changes_dropped [OF _ z(1)]) (use h4(3) n_def in simp)
    have "euclid_ordered a b dd x y h = Some h4"
      using h1(1) l(1) h3(1) h4(1) False tb plainD(6) [OF b(1)] by (auto simp: euclid_ordered_def bind_eq_Some_conv)
    moreover have "mp_val h4 dd (gcd A B)" "mp_val h4 x vx" "mp_val h4 y vy" using changes_val(1) [OF h4(2)] outs h3(2-4) by simp_all
    moreover have "A * vx + B * vy = gcd A B" using l(8) by (simp add: mult.commute)
    ultimately show ?thesis using ch unfolding euclid_done_def by blast
  qed
qed

lemma mpeuclid_done:
  assumes d: "2 \<le> mh_mindigits h" and a: "mp_val h a A" "mp_val h b B" "0 \<le> A" "0 \<le> B"
    and st: "mp_store 0 h" and one: "mp_val h mpone 1" "\<not> mp_var h mpone" and r: "mp_var h dd" "mp_var h x" "mp_var h y" and ne: "distinct [dd, x, y]"
  shows "euclid_done (mpeuclid a b dd x y h) A B dd x y h"
proof -
  obtain ba as where p: "mp_plain h a ba as" "A = mp_sign ba * int (mag ba as)" using a(1) unfolding mp_val_def by blast
  obtain bb bs where q: "mp_plain h b bb bs" "B = mp_sign bb * int (mag bb bs)" using a(2) unfolding mp_val_def by blast
  have sg: "mp_sign ba = 1" "mp_sign bb = 1"
    using wf_positive [OF plainD(2) [OF p(1)], of "nat A"] wf_positive [OF plainD(2) [OF q(1)], of "nat B"] p(2) q(2) a(3,4) by simp_all
  obtain bd ds bx xs bt ts where o: "mp_out h dd bd ds" "mp_out h x bx xs" "mp_out h y bt ts" using r unfolding mp_var_def by blast
  obtain c where c: "mpcmp a b h = Some c" "sgn c = sgn (A - B)" using mpcmp_val [OF a(1,2)] by blast
  have e: "mpeuclid a b dd x y h = (if c < 0 then euclid_ordered b a dd y x h else euclid_ordered a b dd x y h)"
    using plainD(4,5,6) [OF p(1)] plainD(4,5,6) [OF q(1)] outD(3,4) [OF o(1)] outD(3,4) [OF o(2)] outD(3,4) [OF o(3)] sg c(1) by (simp add: mpeuclid_def)
  show ?thesis
  proof (cases "c < 0")
    case True
    then have "A \<le> B" using c(2) by (simp add: sgn_if split: if_splits)
    then have "euclid_done (euclid_ordered b a dd y x h) B A dd y x h" using euclid_ordered_done [OF d a(2,1) _ a(3) st one r(1,3,2)] ne by auto
    then show ?thesis unfolding e if_P [OF True] by (rule euclid_done_swap)
  next
    case False
    then have "B \<le> A" using c(2) by (simp add: sgn_if split: if_splits)
    then show ?thesis unfolding e if_not_P [OF False] using euclid_ordered_done [OF d a(1,2) _ a(4) st one r ne] by simp
  qed
qed

end
