(* ===== verification/MpBytes.thy ===== *)
theory MpBytes
  imports MpEuclid Cstring
begin

text \<open>
  Numbers as bytes, \<^verbatim>\<open>libmp/port/letomp.c\<close>, \<^verbatim>\<open>betomp.c\<close>, \<^verbatim>\<open>mptolel.c\<close>, \<^verbatim>\<open>mptober.c\<close>, \<^verbatim>\<open>mptole.c\<close> and \<^verbatim>\<open>mptobe.c\<close>.  The bytes are a block
  beside the store of numbers.  The functions that read bytes are modelled for a number that is given.  Counts of bytes are natural numbers; eight times a count is
  taken to fit an \<open>int\<close>.
\<close>

section \<open>The functions\<close>

abbreviation (input) Dbytes :: nat where "Dbytes \<equiv> 4"

fun letomp_loop :: "block \<Rightarrow> nat \<Rightarrow> nat \<Rightarrow> dmem \<Rightarrow> dptr \<Rightarrow> nat \<Rightarrow> nat \<Rightarrow> mpdigit \<Rightarrow> (nat \<times> dmem) option" where
  "letomp_loop B s 0 mem p i m x = (if i > 0 then do {
       mem \<leftarrow> dst mem (dadd p m) x;
       Some (m + 1, mem)
     } else Some (m, mem))"
| "letomp_loop B s (Suc n) mem p i m x = do {
     c \<leftarrow> ld B s;
     let x = x OR push_bit i (ucast c);
     let i = i + 8;
     if i = Dbits then do {
       mem \<leftarrow> dst mem (dadd p m) x;
       letomp_loop B (s + 1) n mem p 0 (m + 1) 0
     } else letomp_loop B (s + 1) n mem p i m x
   }"

definition letomp :: "block \<Rightarrow> nat \<Rightarrow> nat \<Rightarrow> nat \<Rightarrow> mpheap \<Rightarrow> mpheap option" where
  "letomp B s n b h = do {
     h \<leftarrow> mpbits b (8 * int n) h;
     (m, mem) \<leftarrow> letomp_loop B s n (mh_mem h) (mp_p b) 0 0 0;
     let h = h\<lparr>mh_mem := mem\<rparr>;
     h \<leftarrow> upd_mp b (\<lambda>c. c\<lparr>mp_top := m, mp_sign := 1\<rparr>) h;
     mpnorm b h
   }"

text \<open>\<open>m\<close> is one more than in the source: the digits that are left.\<close>

fun betomp_loop :: "block \<Rightarrow> nat \<Rightarrow> nat \<Rightarrow> dmem \<Rightarrow> dptr \<Rightarrow> nat \<Rightarrow> nat \<Rightarrow> mpdigit \<Rightarrow> dmem option" where
  "betomp_loop B p 0 mem bp s m x = Some mem"
| "betomp_loop B p (Suc n) mem bp s m x = do {
     c \<leftarrow> ld B p;
     let x = x OR push_bit s (ucast c);
     if s < 8 then (case m of 0 \<Rightarrow> None | Suc m \<Rightarrow> do {
         mem \<leftarrow> dst mem (dadd bp m) x;
         betomp_loop B (p + 1) n mem bp (Dbits - 8) m 0
       })
     else betomp_loop B (p + 1) n mem bp (s - 8) m x
   }"

definition betomp :: "block \<Rightarrow> nat \<Rightarrow> nat \<Rightarrow> nat \<Rightarrow> mpheap \<Rightarrow> mpheap option" where
  "betomp B p n b h = do {
     h \<leftarrow> mpbits b (int n * 8) h;
     let m = nat (DIGITS (int n * 8));
     h \<leftarrow> upd_mp b (\<lambda>c. c\<lparr>mp_top := m, mp_sign := 1\<rparr>) h;
     let s = (if n = 0 then Dbits - 8 else ((n - 1) * 8) mod Dbits);
     h \<leftarrow> in_mem (\<lambda>mem. betomp_loop B p n mem (mp_p b) s m 0) h;
     mpnorm b h
   }"

text \<open>\<open>for(j = 0; j < n; j++) { *p++ = x; x >>= 8; }\<close> and the same downwards.\<close>

fun put_le :: "block \<Rightarrow> nat \<Rightarrow> mpdigit \<Rightarrow> nat \<Rightarrow> block option" where
  "put_le B p x 0 = Some B"
| "put_le B p x (Suc j) = do {
     B \<leftarrow> st B p (ucast x);
     put_le B (p + 1) (drop_bit 8 x) j
   }"

fun put_be :: "block \<Rightarrow> nat \<Rightarrow> mpdigit \<Rightarrow> nat \<Rightarrow> block option" where
  "put_be B p x 0 = Some B"
| "put_be B p x (Suc j) = (case p of 0 \<Rightarrow> None | Suc p \<Rightarrow> do {
       B \<leftarrow> st B p (ucast x);
       put_be B p (drop_bit 8 x) j
     })"

function mptolel_loop :: "dmem \<Rightarrow> dptr \<Rightarrow> block \<Rightarrow> nat \<Rightarrow> nat \<Rightarrow> block option" where
  "mptolel_loop mem b B p n = (if n \<ge> Dbytes then do {
       x \<leftarrow> dld mem b;
       B \<leftarrow> put_le B p x Dbytes;
       mptolel_loop mem (dadd b 1) B (p + Dbytes) (n - Dbytes)
     } else if n > 0 then do {
       x \<leftarrow> dld mem b;
       put_le B p x n
     } else Some B)"
  by pat_completeness auto
termination by (relation "measure (\<lambda>(mem, b, B, p, n). n)") auto

function mptober_loop :: "dmem \<Rightarrow> dptr \<Rightarrow> block \<Rightarrow> nat \<Rightarrow> nat \<Rightarrow> block option" where
  "mptober_loop mem b B p n = (if n \<ge> Dbytes then do {
       x \<leftarrow> dld mem b;
       B \<leftarrow> put_be B p x Dbytes;
       mptober_loop mem (dadd b 1) B (p - Dbytes) (n - Dbytes)
     } else if n > 0 then do {
       x \<leftarrow> dld mem b;
       put_be B p x n
     } else Some B)"
  by pat_completeness auto
termination by (relation "measure (\<lambda>(mem, b, B, p, n). n)") auto

declare mptolel_loop.simps [simp del] mptober_loop.simps [simp del]

definition mptolel :: "nat \<Rightarrow> block \<Rightarrow> nat \<Rightarrow> nat \<Rightarrow> mpheap \<Rightarrow> block option" where
  "mptolel b B p n h = do {
     bb \<leftarrow> mh_ints h b;
     B \<leftarrow> memset B p 0 n;
     let m = mp_top bb * Dbytes;
     mptolel_loop (mh_mem h) (mp_p b) B p (if m < n then m else n)
   }"

definition mptober :: "nat \<Rightarrow> block \<Rightarrow> nat \<Rightarrow> nat \<Rightarrow> mpheap \<Rightarrow> block option" where
  "mptober b B p n h = do {
     bb \<leftarrow> mh_ints h b;
     B \<leftarrow> memset B p 0 n;
     let m = mp_top bb * Dbytes;
     mptober_loop (mh_mem h) (mp_p b) B (p + n) (if m < n then m else n)
   }"

text \<open>The bytes a number has; at least one.\<close>

definition mpbytes :: "nat \<Rightarrow> mpheap \<Rightarrow> nat option" where
  "mpbytes b h = do {
     s \<leftarrow> mpsignif b h;
     let m = (s + 7) div 8;
     Some (if m = 0 then m + 1 else m)
   }"

text \<open>The result is the value and the area with the bytes; when \<open>p\<close> is nil it is a new one.\<close>

definition mptole :: "nat \<Rightarrow> block \<Rightarrow> nat option \<Rightarrow> nat \<Rightarrow> mpheap \<Rightarrow> (int \<times> block) option" where
  "mptole b B p n h = do {
     m \<leftarrow> mpbytes b h;
     case p of None \<Rightarrow> do {
         B \<leftarrow> mptolel b (replicate m 0) 0 m h;
         Some (int m, B)
       }
     | Some p \<Rightarrow> if n < m then Some (- 1, B)
       else do {
         B \<leftarrow> mptolel b B p n h;
         Some (int m, B)
       }
   }"

definition mptobe :: "nat \<Rightarrow> block \<Rightarrow> nat option \<Rightarrow> nat \<Rightarrow> mpheap \<Rightarrow> (int \<times> block) option" where
  "mptobe b B p n h = do {
     m \<leftarrow> mpbytes b h;
     case p of None \<Rightarrow> do {
         B \<leftarrow> mptober b (replicate m 0) 0 m h;
         Some (int m, B)
       }
     | Some p \<Rightarrow> if n < m then Some (- 1, B)
       else do {
         B \<leftarrow> (if n > m then memset B (p + m) 0 (n - m) else Some B);
         B \<leftarrow> mptober b B p m h;
         Some (int m, B)
       }
   }"

section \<open>Bytes and numbers\<close>

fun lenum :: "byte list \<Rightarrow> nat" where
  "lenum [] = 0"
| "lenum (c # cs) = unat c + 256 * lenum cs"

fun lebytes :: "nat \<Rightarrow> nat \<Rightarrow> byte list" where
  "lebytes 0 v = []"
| "lebytes (Suc n) v = of_nat v # lebytes n (v div 256)"

lemma length_lebytes [simp]: "length (lebytes n v) = n"
  by (induction n arbitrary: v) simp_all

lemma unat_byte: "unat (c :: byte) < 256"
  using unsigned_less [of c, where 'a = nat] by simp

lemma lenum_lebytes: "lenum (lebytes n v) = v mod 256 ^ n"
proof (induction n arbitrary: v)
  case (Suc n)
  have "v mod 256 ^ Suc n = v mod 256 + 256 * (v div 256 mod 256 ^ n)" by (simp add: mod_mult2_eq)
  then show ?case using Suc by (simp add: unat_of_nat)
qed simp

lemma lenum_append: "lenum (xs @ ys) = lenum xs + 256 ^ length xs * lenum ys"
  by (induction xs) (simp_all add: algebra_simps)

lemma lebytes_split: "lebytes (m + n) v = lebytes m v @ lebytes n (v div 256 ^ m)"
  by (induction m arbitrary: v) (simp_all add: div_mult2_eq)

lemma lebytes_mod: "lebytes n (v mod 256 ^ n) = lebytes n v"
proof (induction n arbitrary: v)
  case (Suc n)
  have "(of_nat (v mod 256 ^ Suc n) :: byte) = of_nat v"
  proof -
    have "v mod 256 ^ Suc n mod 256 = v mod 256" by (rule mod_mod_cancel) simp
    then show ?thesis unfolding word_of_nat_eq_iff by (simp add: take_bit_eq_mod)
  qed
  moreover have "v mod 256 ^ Suc n div 256 = v div 256 mod 256 ^ n" by (simp add: mod_mult2_eq)
  ultimately show ?case using Suc by simp
qed simp

lemma lebytes_small: "v < 256 ^ m \<Longrightarrow> lebytes (m + n) v = lebytes m v @ replicate n 0"
proof -
  assume "v < 256 ^ m"
  then have "v div 256 ^ m = 0" by simp
  moreover have "lebytes n 0 = replicate n 0" by (induction n) simp_all
  ultimately show ?thesis unfolding lebytes_split by simp
qed

section \<open>Reading bytes\<close>

lemma bits_clear:
  assumes "(v div 2 ^ i) mod 256 = 0" "c < 256"
  shows "v AND push_bit i c = (0 :: nat)"
proof (rule bit_eqI)
  fix n
  have "\<not> bit v n" if "i \<le> n" "bit c (n - i)"
  proof -
    have "n - i < 8"
    proof (rule ccontr)
      assume "\<not> n - i < 8"
      then have "(2 :: nat) ^ 8 \<le> 2 ^ (n - i)" by (intro power_increasing) simp_all
      then have "c div 2 ^ (n - i) = 0" using assms(2) by simp
      then show False using that(2) by (simp add: bit_iff_odd)
    qed
    then obtain k where k: "8 = (n - i) + Suc k" by (metis add_Suc_right less_imp_Suc_add)
    obtain q where q: "v div 2 ^ i = 256 * q" using assms(1) by (metis mod_0_imp_dvd dvdE)
    have "v div 2 ^ n = v div 2 ^ i div 2 ^ (n - i)" using that(1) by (metis le_add_diff_inverse power_add div_mult2_eq)
    also have "\<dots> = (2 ^ ((n - i) + Suc k) * q) div 2 ^ (n - i)" unfolding q k [symmetric] by simp
    also have "\<dots> = 2 ^ Suc k * q" by (simp add: power_add mult.assoc)
    finally show ?thesis by (simp add: bit_iff_odd)
  qed
  then show "bit (v AND push_bit i c) n = bit 0 n" by (auto simp: bit_simps)
qed

lemma join_byte:
  fixes x :: mpdigit and c :: byte
  assumes x: "(unat x div 2 ^ i) mod 256 = 0" and i: "i + 8 \<le> Dbits"
  shows "unat (x OR push_bit i (ucast c)) = unat x + 2 ^ i * unat c"
proof -
  have "2 ^ i * unat c < 2 ^ i * 256" using unat_byte [of c] by simp
  also have "\<dots> = 2 ^ (i + 8)" by (simp add: power_add)
  also have "\<dots> \<le> 2 ^ Dbits" using i by (intro power_increasing) simp_all
  finally have lt: "2 ^ i * unat c < 2 ^ Dbits" .
  have "unat (push_bit i (ucast c) :: mpdigit) = take_bit Dbits (push_bit i (unat c))" by (simp add: unsigned_push_bit_eq unsigned_ucast_eq take_bit_nat_eq_self less_trans [OF unat_byte])
  then have u: "unat (push_bit i (ucast c) :: mpdigit) = push_bit i (unat c)" using lt by (simp add: take_bit_nat_eq_self push_bit_eq_mult mult.commute)
  have "unat (x OR push_bit i (ucast c)) = unat x OR push_bit i (unat c)" unfolding unsigned_or_eq u ..
  also have "\<dots> = unat x + push_bit i (unat c)" using bits_clear [OF x unat_byte] by (simp add: disjunctive_add_eq_or)
  finally show ?thesis by (simp add: push_bit_eq_mult mult.commute)
qed

lemma byte_at: "sp + Suc n \<le> length B \<Longrightarrow> take (Suc n) (drop sp B) = B ! sp # take n (drop (sp + 1) B)"
  by (simp add: Cons_nth_drop_Suc [symmetric])

lemma letomp_loop_correct:
  assumes "sp + n \<le> length B" and "i < Dbits" "8 dvd i" and "unat x < 2 ^ i" and "room mem (dadd p m) ((8 * n + i + 31) div Dbits)"
  shows "\<exists>zs. letomp_loop B sp n mem p i m x = Some (m + length zs, put mem (dadd p m) zs) \<and> length zs = (8 * n + i + 31) div Dbits
    \<and> digval zs = unat x + 2 ^ i * lenum (take n (drop sp B))"
  using assms
proof (induction n arbitrary: sp mem i m x)
  case 0
  show ?case
  proof (cases "i = 0")
    case True
    then show ?thesis using 0 by (intro exI [of _ "[]"]) simp
  next
    case False
    then have "(i + 31) div Dbits = 1" using 0(2) by (intro div_nat_eqI) simp_all
    then show ?thesis using 0(5) False by (intro exI [of _ "[x]"]) simp
  qed
next
  case (Suc n)
  let ?c = "B ! sp"
  let ?x = "x OR push_bit i (ucast ?c)"
  obtain j where j: "i = 8 * j" using Suc.prems(3) by (elim dvdE)
  have i8: "i + 8 \<le> Dbits" using Suc.prems(2) j by simp
  have ux: "unat ?x = unat x + 2 ^ i * unat ?c" using join_byte [OF _ i8] Suc.prems(4) by simp
  have lx: "unat ?x < 2 ^ (i + 8)"
  proof -
    have "unat x + 2 ^ i * unat ?c < 2 ^ i * (unat ?c + 1)" using Suc.prems(4) by simp
    also have "\<dots> \<le> 2 ^ i * 256" using unat_byte [of ?c] by (intro mult_le_mono2) linarith
    finally show ?thesis unfolding ux by (simp add: power_add)
  qed
  have l: "ld B sp = Some ?c" "sp + 1 + n \<le> length B" using Suc.prems(1) by simp_all
  have bs: "take (Suc n) (drop sp B) = ?c # take n (drop (sp + 1) B)" using byte_at Suc.prems(1) by blast
  have v: "unat ?x + 2 ^ (i + 8) * lenum cs = unat x + 2 ^ i * (unat ?c + 256 * lenum cs)" for cs unfolding ux by (simp add: power_add algebra_simps)
  show ?case
  proof (cases "i + 8 = Dbits")
    case True
    let ?k = "(8 * n + 31) div Dbits"
    have k: "(8 * Suc n + i + 31) div Dbits = Suc ?k"
    proof -
      have "8 * Suc n + i + 31 = 8 * n + 31 + Dbits" using True by simp
      then show ?thesis by simp
    qed
    have ro: "room mem (dadd p m) (Suc ?k)" using Suc.prems(5) unfolding k .
    let ?mem = "put mem (dadd p m) [?x]"
    have r: "room mem (dadd p m) 1" "room ?mem (dadd p (m + 1)) ?k" using room_step [OF ro] by simp_all
    obtain zs where z: "letomp_loop B (sp + 1) n ?mem p 0 (m + 1) 0 = Some (m + 1 + length zs, put ?mem (dadd p (m + 1)) zs)" "length zs = ?k"
      "digval zs = lenum (take n (drop (sp + 1) B))" using Suc.IH [of "sp + 1" 0 0 ?mem "m + 1"] l(2) r(2) by auto
    have "put ?mem (dadd p (m + 1)) zs = put mem (dadd p m) (?x # zs)" using put_step [OF ro z(2)] by simp
    then have "letomp_loop B sp (Suc n) mem p i m x = Some (m + length (?x # zs), put mem (dadd p m) (?x # zs))" using l(1) True r(1) z(1) by (simp add: Let_def)
    moreover have "digval (?x # zs) = unat x + 2 ^ i * lenum (take (Suc n) (drop sp B))" unfolding bs digval.simps lenum.simps z(3) using v True by simp
    ultimately show ?thesis using k z(2) by (intro exI [of _ "?x # zs"]) simp
  next
    case False
    have e: "8 * n + (i + 8) + 31 = 8 * Suc n + i + 31" by simp
    have "\<exists>zs. letomp_loop B (sp + 1) n mem p (i + 8) m ?x = Some (m + length zs, put mem (dadd p m) zs) \<and> length zs = (8 * n + (i + 8) + 31) div Dbits
      \<and> digval zs = unat ?x + 2 ^ (i + 8) * lenum (take n (drop (sp + 1) B))"
      by (rule Suc.IH) (use l(2) False i8 lx Suc.prems(3,5) in \<open>simp_all add: e del: mult_Suc_right\<close>)
    then show ?thesis using l(1) False unfolding bs lenum.simps v [symmetric] e by (simp add: Let_def)
  qed
qed

text \<open>Bytes with the most significant one first.\<close>

lemma betomp_loop_correct:
  assumes "pp + n \<le> length B" and "n = 0 \<Longrightarrow> x = 0" and "0 < n \<Longrightarrow> s = 8 * ((n - 1) mod 4)" "0 < n \<Longrightarrow> 2 ^ (s + 8) dvd unat x" and "k = (n + 3) div 4" and "room mem (a, 0) k"
  shows "\<exists>zs. betomp_loop B pp n mem (a, 0) s k x = Some (put mem (a, 0) zs) \<and> length zs = k \<and> digval zs = lenum (rev (take n (drop pp B))) + 2 ^ (Dbits * (k - 1)) * unat x"
  using assms
proof (induction n arbitrary: pp mem s k x)
  case 0
  then show ?case by (intro exI [of _ "[]"]) simp
next
  case (Suc n)
  let ?c = "B ! pp"
  let ?x = "x OR push_bit s (ucast ?c)" and ?bs = "take n (drop (pp + 1) B)"
  define q r where "q = n div 4" and "r = n mod 4"
  have n: "n = 4 * q + r" "r < 4" by (simp_all add: q_def r_def)
  have s: "s = 8 * r" using Suc.prems(3) n by simp
  have k: "k = Suc q" using Suc.prems(5) n by simp
  have s8: "s + 8 \<le> Dbits" using s n(2) by simp
  obtain y where y: "unat x = 2 ^ (s + 8) * y" using Suc.prems(4) by (auto elim: dvdE)
  have "unat x div 2 ^ s = 256 * y" unfolding y by (simp add: power_add mult.assoc)
  then have ux: "unat ?x = unat x + 2 ^ s * unat ?c" using join_byte [OF _ s8] by simp
  have l: "ld B pp = Some ?c" "pp + 1 + n \<le> length B" using Suc.prems(1) by simp_all
  have bs: "take (Suc n) (drop pp B) = ?c # ?bs" using byte_at Suc.prems(1) by blast
  have lb: "length ?bs = n" using l(2) by simp
  have pw: "(256 :: nat) ^ n = 2 ^ (Dbits * q) * 2 ^ s"
  proof -
    have "(256 :: nat) ^ n = 2 ^ (8 * n)" by (simp add: power_mult)
    also have "8 * n = Dbits * q + s" using n s by simp
    finally show ?thesis by (simp add: power_add)
  qed
  have v: "lenum (rev ?bs) + 2 ^ (Dbits * q) * unat ?x = lenum (rev (take (Suc n) (drop pp B))) + 2 ^ (Dbits * (k - 1)) * unat x"
    unfolding bs ux using lb k by (simp add: lenum_append pw algebra_simps)
  show ?case
  proof (cases "s = 0")
    case True
    then have r0: "n = 4 * q" using s n by simp
    let ?mem = "put mem (dadd (a, 0) q) [?x]"
    have ro: "room mem (dadd (a, 0) q) 1" "room mem (a, 0) q" using Suc.prems(6) k room_dadd [of mem "(a, 0)" q 1] by (auto intro: room_le)
    have "\<exists>zs. betomp_loop B (pp + 1) n ?mem (a, 0) (Dbits - 8) q 0 = Some (put ?mem (a, 0) zs) \<and> length zs = q \<and> digval zs = lenum (rev ?bs) + 2 ^ (Dbits * (q - 1)) * unat (0 :: mpdigit)"
    proof (rule Suc.IH)
      show "Dbits - 8 = 8 * ((n - 1) mod 4)" if np: "0 < n"
      proof -
        obtain q' where "q = Suc q'" using np r0 by (cases q) auto
        then have "n - 1 = 3 + 4 * q'" using r0 by simp
        then show ?thesis by (simp only: mod_mult_self2) simp
      qed
    qed (use l(2) r0 ro in simp_all)
    then obtain zs where z: "betomp_loop B (pp + 1) n ?mem (a, 0) (Dbits - 8) q 0 = Some (put ?mem (a, 0) zs)" "length zs = q" "digval zs = lenum (rev ?bs)" by auto
    have "put ?mem (a, 0) zs = put mem (a, 0) (zs @ [?x])" using put_back [of mem "(a, 0)" zs "[?x]"] Suc.prems(6) k z(2) by simp
    then have "betomp_loop B pp (Suc n) mem (a, 0) s k x = Some (put mem (a, 0) (zs @ [?x]))" using l(1) True k ro(1) z(1) by (simp add: Let_def)
    moreover have "digval (zs @ [?x]) = lenum (rev (take (Suc n) (drop pp B))) + 2 ^ (Dbits * (k - 1)) * unat x"
      unfolding v [symmetric] by (simp add: digval_append z(2,3))
    ultimately show ?thesis using z(2) k by (intro exI [of _ "zs @ [?x]"]) simp
  next
    case False
    then have rp: "0 < r" using s by simp
    have nk: "k = (n + 3) div 4" "0 < n" using k n rp by simp_all
    have "\<exists>zs. betomp_loop B (pp + 1) n mem (a, 0) (s - 8) k ?x = Some (put mem (a, 0) zs) \<and> length zs = k \<and> digval zs = lenum (rev ?bs) + 2 ^ (Dbits * (k - 1)) * unat ?x"
    proof (rule Suc.IH)
      show "s - 8 = 8 * ((n - 1) mod 4)"
      proof -
        have "n - 1 = (r - 1) + 4 * q" using n rp by simp
        then show ?thesis using s n(2) by (simp only: mod_mult_self2) simp
      qed
      show "2 ^ (s - 8 + 8) dvd unat ?x" unfolding ux y using False s by (simp add: power_add mult.assoc)
    qed (use l(2) nk Suc.prems(6) in simp_all)
    then show ?thesis using l(1) False s rp v k by (simp add: Let_def)
  qed
qed

lemma DIGITS_bytes: "nat (DIGITS (8 * int n)) = (8 * n + 31) div Dbits" "nat (DIGITS (int n * 8)) = (n + 3) div 4"
proof -
  have "DIGITS (8 * int n) = int ((8 * n + 31) div Dbits)" by (simp add: DIGITS_def Let_def zdiv_int add.commute)
  then show e: "nat (DIGITS (8 * int n)) = (8 * n + 31) div Dbits" by simp
  have "(8 * n + 31) div Dbits = (8 * n + 31) div 8 div 4" by (simp add: div_mult2_eq [symmetric])
  also have "(8 * n + 31) div 8 = n + 3" by (simp add: div_nat_eqI)
  finally show "nat (DIGITS (int n * 8)) = (n + 3) div 4" using e by (simp add: mult.commute)
qed

lemma letomp_result:
  assumes r: "mp_out h r b ds" and B: "s + n \<le> length B"
  shows "result (letomp B s n r h) h r b (int (lenum (take n (drop s B))))"
proof -
  obtain c es where c: "mpbits r (8 * int n) h = Some (put_mp r c es h)" "mp_sized c es" "take (mp_top b) es = take (mp_top b) ds"
    "mp_top b \<le> length es" "(8 * n + 31) div Dbits \<le> length es" "like b c" "mp_sign c = mp_sign b" by (rule room_bits [OF r DIGITS_bytes(1)])
  let ?m = "(mh_mem h)(r \<mapsto> es)"
  have ro: "room ?m (dadd (r, 0) 0) ((8 * n + 0 + 31) div Dbits)" using c(5) by (simp add: room_whole)
  have x0: "unat (0 :: mpdigit) < 2 ^ 0" by simp
  obtain zs where z: "letomp_loop B s n ?m (r, 0) 0 0 0 = Some (0 + length zs, put ?m (dadd (r, 0) 0) zs)" "length zs = (8 * n + 0 + 31) div Dbits"
    "digval zs = unat (0 :: mpdigit) + 2 ^ 0 * lenum (take n (drop s B))" using letomp_loop_correct [OF B _ _ x0 ro] by auto
  have lz: "length zs \<le> length es" using z(2) c(5) by simp
  note v = vec_put [OF c(2) lz, of 1]
  have "letomp B s n r h = mpnorm r (put_mp r (c\<lparr>mp_top := length zs, mp_sign := 1\<rparr>) (zs @ drop (length zs) es) h)"
    unfolding letomp_def c(1) Option.bind.simps Let_def using z(1) v(1) [of h r] by (simp add: put_mp_mem)
  moreover have "result (mpnorm r (put_mp r (c\<lparr>mp_top := length zs, mp_sign := 1\<rparr>) (zs @ drop (length zs) es) h)) h r b (int (lenum (take n (drop s B))))"
    by (rule mpnorm_result [OF v(2)]) (use v(3) c(6) outD(3) [OF r] z(3) in simp_all)
  ultimately show ?thesis by simp
qed

lemma betomp_result:
  assumes r: "mp_out h r b ds" and B: "p + n \<le> length B"
  shows "result (betomp B p n r h) h r b (int (lenum (rev (take n (drop p B)))))"
proof -
  let ?k = "(n + 3) div 4" and ?s = "if n = 0 then Dbits - 8 else ((n - 1) * 8) mod Dbits"
  obtain c es where c: "mpbits r (int n * 8) h = Some (put_mp r c es h)" "mp_sized c es" "take (mp_top b) es = take (mp_top b) ds"
    "mp_top b \<le> length es" "?k \<le> length es" "like b c" "mp_sign c = mp_sign b" by (rule room_bits [OF r DIGITS_bytes(2)])
  let ?m = "(mh_mem h)(r \<mapsto> es)"
  have ro: "room ?m (r, 0) ?k" using c(5) by (simp add: room_whole)
  have s: "?s = 8 * ((n - 1) mod 4)" if "0 < n" using that by (simp add: mult.commute mult_mod_right)
  obtain zs where z: "betomp_loop B p n ?m (r, 0) ?s ?k 0 = Some (put ?m (r, 0) zs)" "length zs = ?k"
    "digval zs = lenum (rev (take n (drop p B))) + 2 ^ (Dbits * (?k - 1)) * unat (0 :: mpdigit)" using betomp_loop_correct [OF B _ s _ refl ro, of 0] by auto
  have lz: "length zs \<le> length es" using z(2) c(5) by simp
  note v = vec_put [OF c(2) lz, of 1]
  have "betomp B p n r h = mpnorm r (put_mp r (c\<lparr>mp_top := length zs, mp_sign := 1\<rparr>) (zs @ drop (length zs) es) h)"
    unfolding betomp_def c(1) Option.bind.simps Let_def upd_mp_put in_mem_put DIGITS_bytes(2) z(1) option.map using v(1) [of h r] z(2) by (simp add: put_mp_mem)
  moreover have "result (mpnorm r (put_mp r (c\<lparr>mp_top := length zs, mp_sign := 1\<rparr>) (zs @ drop (length zs) es) h)) h r b (int (lenum (rev (take n (drop p B)))))"
    by (rule mpnorm_result [OF v(2)]) (use v(3) c(6) outD(3) [OF r] z(3) in simp_all)
  ultimately show ?thesis by simp
qed

section \<open>Writing bytes\<close>

lemma mwrite_one: "p < length B \<Longrightarrow> mwrite B p [c] = Some (B[p := c])"
  by (simp add: mwrite_def upd_conv_take_nth_drop)

lemma mwrite_form: "length pre = p \<Longrightarrow> length xs = length m \<Longrightarrow> mwrite (pre @ m @ post) p xs = Some (pre @ xs @ post)"
  by (simp add: mwrite_def)

lemma block_parts:
  assumes "p + m + n \<le> length B"
  obtains pre xs ys post where "B = pre @ (xs @ ys) @ post" "length pre = p" "length xs = m" "length ys = n"
proof -
  have "B = take p B @ (take m (drop p B) @ take n (drop (p + m) B)) @ drop (p + m + n) B"
    by (simp add: add.assoc) (metis append_take_drop_id drop_drop add.commute)
  then show thesis by (rule that) (use assms in simp_all)
qed

lemma mwrite_next:
  assumes "p + length xs + length ys \<le> length B"
  shows "Option.bind (mwrite B p xs) (\<lambda>B. mwrite B (p + length xs) ys) = mwrite B p (xs @ ys)"
proof -
  obtain pre us vs post where B: "B = pre @ (us @ vs) @ post" "length pre = p" "length us = length xs" "length vs = length ys" using assms by (rule block_parts)
  then show ?thesis using mwrite_form [of pre p xs us "vs @ post"] mwrite_form [of "pre @ xs" "p + length xs" ys vs post] mwrite_form [of pre p "xs @ ys" "us @ vs" post] by simp
qed

lemma mwrite_before:
  assumes "p + length xs + length ys \<le> length B"
  shows "Option.bind (mwrite B (p + length xs) ys) (\<lambda>B. mwrite B p xs) = mwrite B p (xs @ ys)"
proof -
  obtain pre us vs post where B: "B = pre @ (us @ vs) @ post" "length pre = p" "length us = length xs" "length vs = length ys" using assms by (rule block_parts)
  then show ?thesis using mwrite_form [of "pre @ us" "p + length xs" ys vs post] mwrite_form [of pre p xs us "ys @ post"] mwrite_form [of pre p "xs @ ys" "us @ vs" post] by simp
qed

text \<open>A second write over the first, from its start or at its end.\<close>

lemma mwrite_over:
  assumes "p + length (xs @ ys) \<le> length B" "length zs = length xs"
  shows "Option.bind (mwrite B p (xs @ ys)) (\<lambda>B. mwrite B p zs) = mwrite B p (zs @ ys)"
proof -
  have le: "p + length xs + length ys \<le> length B" using assms(1) by simp
  obtain pre us vs post where B: "B = pre @ (us @ vs) @ post" "length pre = p" "length us = length xs" "length vs = length ys" using le by (rule block_parts)
  then show ?thesis using mwrite_form [of pre p "xs @ ys" "us @ vs" post] mwrite_form [of pre p zs xs "ys @ post"] mwrite_form [of pre p "zs @ ys" "us @ vs" post] assms(2) by simp
qed

lemma mwrite_over_end:
  assumes "p + length (xs @ ys) \<le> length B" "length zs = length ys"
  shows "Option.bind (mwrite B p (xs @ ys)) (\<lambda>B. mwrite B (p + length xs) zs) = mwrite B p (xs @ zs)"
proof -
  have le: "p + length xs + length ys \<le> length B" using assms(1) by simp
  obtain pre us vs post where B: "B = pre @ (us @ vs) @ post" "length pre = p" "length us = length xs" "length vs = length ys" using le by (rule block_parts)
  then show ?thesis using mwrite_form [of pre p "xs @ ys" "us @ vs" post] mwrite_form [of "pre @ xs" "p + length xs" zs ys post] mwrite_form [of pre p "xs @ zs" "us @ vs" post] assms(2) by simp
qed

lemma memset_mwrite: "p + n \<le> length B \<Longrightarrow> memset B p c n = mwrite B p (replicate n c)"
proof (induction n arbitrary: B p)
  case (Suc n)
  then have "memset B p c (Suc n) = mwrite (B[p := c]) (p + 1) (replicate n c)" by simp
  also have "\<dots> = Option.bind (mwrite B p [c]) (\<lambda>B. mwrite B (p + length [c]) (replicate n c))" using Suc.prems mwrite_one [of p B c] by simp
  also have "\<dots> = mwrite B p (replicate (Suc n) c)" using mwrite_next [of p "[c]" "replicate n c" B] Suc.prems by simp
  finally show ?case .
qed (simp add: mwrite_def)

lemma byte_of_digit: "(ucast (x :: mpdigit) :: byte) = of_nat (unat x)" "unat (drop_bit 8 x) = unat x div 256" for x :: mpdigit
proof -
  show "(ucast x :: byte) = of_nat (unat x)" by simp
  have "unat (drop_bit 8 x) = unat x div 2 ^ 8" unfolding unat_drop_bit_eq by (rule drop_bit_eq_div)
  then show "unat (drop_bit 8 x) = unat x div 256" by simp
qed

lemma put_le_mwrite: "p + j \<le> length B \<Longrightarrow> put_le B p x j = mwrite B p (lebytes j (unat x))"
proof (induction j arbitrary: B p x)
  case (Suc j)
  let ?c = "of_nat (unat x) :: byte"
  have "put_le B p x (Suc j) = mwrite (B[p := ?c]) (p + 1) (lebytes j (unat x div 256))" using Suc byte_of_digit [of x] by simp
  also have "\<dots> = Option.bind (mwrite B p [?c]) (\<lambda>B. mwrite B (p + length [?c]) (lebytes j (unat x div 256)))" using Suc.prems mwrite_one [of p B ?c] by simp
  also have "\<dots> = mwrite B p (lebytes (Suc j) (unat x))" using mwrite_next [of p "[?c]" "lebytes j (unat x div 256)" B] Suc.prems by simp
  finally show ?case .
qed (simp add: mwrite_def)

lemma put_be_mwrite: "p + j \<le> length B \<Longrightarrow> put_be B (p + j) x j = mwrite B p (rev (lebytes j (unat x)))"
proof (induction j arbitrary: B x)
  case (Suc j)
  let ?c = "of_nat (unat x) :: byte"
  have "put_be B (p + Suc j) x (Suc j) = mwrite (B[p + j := ?c]) p (rev (lebytes j (unat x div 256)))" using Suc byte_of_digit [of x] by simp
  also have "\<dots> = Option.bind (mwrite B (p + length (rev (lebytes j (unat x div 256)))) [?c]) (\<lambda>B. mwrite B p (rev (lebytes j (unat x div 256))))" using Suc.prems mwrite_one [of "p + j" B ?c] by simp
  also have "\<dots> = mwrite B p (rev (lebytes (Suc j) (unat x)))" using mwrite_before [of p "rev (lebytes j (unat x div 256))" "[?c]" B] Suc.prems by simp
  finally show ?case .
qed (simp add: mwrite_def)

lemma lebytes_cong: "v mod 256 ^ n = w mod 256 ^ n \<Longrightarrow> lebytes n v = lebytes n w"
  by (metis lebytes_mod)

lemma lebytes_digit: "n \<le> 4 \<Longrightarrow> lebytes n (digval (d # ds)) = lebytes n (unat d)"
proof (rule lebytes_cong)
  assume "n \<le> 4"
  then have "(256 :: nat) ^ n dvd 256 ^ 4" by (rule le_imp_power_dvd)
  then have "256 ^ n dvd 2 ^ Dbits * digval ds" by (intro dvd_mult2) simp
  then show "digval (d # ds) mod 256 ^ n = unat d mod 256 ^ n" by (auto elim!: dvdE)
qed

lemma lebytes_digits: "lebytes (4 + n) (digval (d # ds)) = lebytes 4 (unat d) @ lebytes n (digval ds)"
proof -
  have "digval (d # ds) div 256 ^ 4 = digval ds" using unat_digit [of d] by simp
  then show ?thesis unfolding lebytes_split using lebytes_digit [of 4 d ds] by simp
qed

lemma mptolel_loop_mwrite:
  "seg mem b ds \<Longrightarrow> n \<le> 4 * length ds \<Longrightarrow> p + n \<le> length B \<Longrightarrow> mptolel_loop mem b B p n = mwrite B p (lebytes n (digval ds))"
proof (induction ds arbitrary: b B p n)
  case Nil
  then show ?case by (simp add: mptolel_loop.simps mwrite_def)
next
  case (Cons d ds)
  have l: "dld mem b = Some d" "seg mem (dadd b 1) ds" using Cons.prems(1) by simp_all
  show ?case
  proof (cases "n \<ge> 4")
    case True
    then obtain k where k: "n = 4 + k" using le_Suc_ex by blast
    have w: "put_le B p d 4 = mwrite B p (lebytes 4 (unat d))" using Cons.prems(3) k by (intro put_le_mwrite) simp
    have "mptolel_loop mem b B p n = Option.bind (mwrite B p (lebytes 4 (unat d))) (\<lambda>B. mptolel_loop mem (dadd b 1) B (p + 4) k)"
      using k l(1) w by (subst mptolel_loop.simps) simp
    also have "\<dots> = Option.bind (mwrite B p (lebytes 4 (unat d))) (\<lambda>B. mwrite B (p + length (lebytes 4 (unat d))) (lebytes k (digval ds)))"
      using Cons.IH [OF l(2)] Cons.prems(2,3) k mwrite_length by (cases "mwrite B p (lebytes 4 (unat d))") auto
    also have "\<dots> = mwrite B p (lebytes n (digval (d # ds)))" unfolding k lebytes_digits using Cons.prems(3) k by (intro mwrite_next) simp
    finally show ?thesis .
  next
    case False
    then have "mptolel_loop mem b B p n = mwrite B p (lebytes n (unat d))" using l(1) put_le_mwrite [OF Cons.prems(3)] by (subst mptolel_loop.simps) (auto simp: mwrite_def)
    then show ?thesis using False lebytes_digit [of n d ds] by simp
  qed
qed

lemma mptober_loop_mwrite:
  "seg mem b ds \<Longrightarrow> n \<le> 4 * length ds \<Longrightarrow> p + n \<le> length B \<Longrightarrow> mptober_loop mem b B (p + n) n = mwrite B p (rev (lebytes n (digval ds)))"
proof (induction ds arbitrary: b B n)
  case Nil
  then show ?case by (simp add: mptober_loop.simps mwrite_def)
next
  case (Cons d ds)
  have l: "dld mem b = Some d" "seg mem (dadd b 1) ds" using Cons.prems(1) by simp_all
  show ?case
  proof (cases "n \<ge> 4")
    case True
    then obtain k where k: "n = 4 + k" using le_Suc_ex by blast
    let ?d = "rev (lebytes 4 (unat d))" and ?e = "rev (lebytes k (digval ds))"
    have w: "put_be B (p + k + 4) d 4 = mwrite B (p + length ?e) ?d" using put_be_mwrite [of "p + k" 4 B d] Cons.prems(3) k by simp
    have "mptober_loop mem b B (p + n) n = Option.bind (mwrite B (p + length ?e) ?d) (\<lambda>B. mptober_loop mem (dadd b 1) B (p + k) k)"
    proof -
      have e: "p + n = p + k + 4" "p + n - 4 = p + k" "n - 4 = k" "n \<ge> 4" using k by simp_all
      show ?thesis by (subst mptober_loop.simps) (use e l(1) w in \<open>simp add: e(1) del: add_Suc_right\<close>)
    qed
    also have "\<dots> = Option.bind (mwrite B (p + length ?e) ?d) (\<lambda>B. mwrite B p ?e)"
      using Cons.IH [OF l(2)] Cons.prems(2,3) k mwrite_length by (cases "mwrite B (p + length ?e) ?d") auto
    also have "\<dots> = mwrite B p (rev (lebytes n (digval (d # ds))))" unfolding k lebytes_digits rev_append using Cons.prems(3) k by (intro mwrite_before) simp
    finally show ?thesis .
  next
    case False
    then have "mptober_loop mem b B (p + n) n = mwrite B p (rev (lebytes n (unat d)))" using l(1) put_be_mwrite [OF Cons.prems(3)] by (subst mptober_loop.simps) (auto simp: mwrite_def)
    then show ?thesis using False lebytes_digit [of n d ds] by simp
  qed
qed

lemma plain_bytes: "mp_plain h a b ds \<Longrightarrow> mag b ds < 256 ^ (mp_top b * 4)"
proof -
  assume "mp_plain h a b ds"
  then have "mag b ds < 2 ^ (Dbits * mp_top b)" by (intro mag_bound plainD(3))
  also have "Dbits * mp_top b = 8 * (mp_top b * 4)" by simp
  also have "2 ^ (8 * (mp_top b * 4)) = ((2 :: nat) ^ 8) ^ (mp_top b * 4)" by (rule power_mult)
  also have "(2 :: nat) ^ 8 = 256" by simp
  finally show ?thesis .
qed

text \<open>All the bytes that fit are written, the others of the area are 0.\<close>

lemma mptolel_mwrite:
  assumes a: "mp_plain h a b ds" and B: "p + n \<le> length B"
  shows "mptolel a B p n h = mwrite B p (lebytes n (mag b ds))"
proof -
  let ?k = "if mp_top b * 4 < n then mp_top b * 4 else n" and ?V = "mag b ds"
  have sg: "seg (mh_mem h) (a, 0) (take (mp_top b) ds)" "length (take (mp_top b) ds) = mp_top b"
    using plainD(3,7) [OF a] by (auto simp: seg_whole mp_sized_def)
  have k: "?k + (n - ?k) = n" by simp
  have "mptolel a B p n h = Option.bind (mwrite B p (replicate n 0)) (\<lambda>B. mptolel_loop (mh_mem h) (a, 0) B p ?k)"
    using plainD(6) [OF a] memset_mwrite [OF B] by (simp add: mptolel_def Let_def)
  also have "\<dots> = Option.bind (mwrite B p (replicate ?k 0 @ replicate (n - ?k) 0)) (\<lambda>B. mwrite B p (lebytes ?k ?V))"
    using mptolel_loop_mwrite [OF sg(1), of ?k p] sg(2) B mwrite_length unfolding replicate_add [symmetric] k mag_def
    by (cases "mwrite B p (replicate n 0)") (auto simp del: replicate_add)
  also have "\<dots> = mwrite B p (lebytes ?k ?V @ replicate (n - ?k) 0)" by (rule mwrite_over) (use B in simp_all)
  also have "lebytes ?k ?V @ replicate (n - ?k) 0 = lebytes n ?V"
  proof (cases "mp_top b * 4 < n")
    case True
    then show ?thesis using lebytes_small [OF plain_bytes [OF a], of "n - mp_top b * 4"] by simp
  qed simp
  finally show ?thesis .
qed

lemma mptober_mwrite:
  assumes a: "mp_plain h a b ds" and B: "p + n \<le> length B"
  shows "mptober a B p n h = mwrite B p (rev (lebytes n (mag b ds)))"
proof -
  let ?k = "if mp_top b * 4 < n then mp_top b * 4 else n" and ?V = "mag b ds"
  have sg: "seg (mh_mem h) (a, 0) (take (mp_top b) ds)" "length (take (mp_top b) ds) = mp_top b"
    using plainD(3,7) [OF a] by (auto simp: seg_whole mp_sized_def)
  have k: "(n - ?k) + ?k = n" "p + n = p + (n - ?k) + ?k" by simp_all
  have "mptober a B p n h = Option.bind (mwrite B p (replicate n 0)) (\<lambda>B. mptober_loop (mh_mem h) (a, 0) B (p + (n - ?k) + ?k) ?k)"
    using plainD(6) [OF a] memset_mwrite [OF B] by (simp add: mptober_def Let_def)
  also have "\<dots> = Option.bind (mwrite B p (replicate (n - ?k) 0 @ replicate ?k 0)) (\<lambda>B. mwrite B (p + length (replicate (n - ?k) (0 :: byte))) (rev (lebytes ?k ?V)))"
    using mptober_loop_mwrite [OF sg(1), of ?k "p + (n - ?k)"] sg(2) B mwrite_length unfolding replicate_add [symmetric] k(1) mag_def length_replicate
    by (cases "mwrite B p (replicate n 0)") (auto simp del: replicate_add)
  also have "\<dots> = mwrite B p (replicate (n - ?k) 0 @ rev (lebytes ?k ?V))" by (rule mwrite_over_end) (use B in simp_all)
  also have "replicate (n - ?k) 0 @ rev (lebytes ?k ?V) = rev (lebytes n ?V)"
  proof (cases "mp_top b * 4 < n")
    case True
    then show ?thesis using lebytes_small [OF plain_bytes [OF a], of "n - mp_top b * 4"] by simp
  qed simp
  finally show ?thesis .
qed

section \<open>The bits of a number\<close>

lemma bit_below: "v < 2 ^ Suc n \<Longrightarrow> bit (v :: nat) n \<longleftrightarrow> 2 ^ n \<le> v"
proof (cases "2 ^ n \<le> v")
  case True
  assume "v < 2 ^ Suc n"
  then have "v div 2 ^ n = 1" using True by (intro div_nat_eqI) simp_all
  then show ?thesis using True by (simp add: bit_iff_odd)
next
  case False
  then have "v div 2 ^ n = 0" by simp
  then show ?thesis using False by (simp add: bit_iff_odd)
qed

lemma one_bit_set: "d AND push_bit n 1 \<noteq> 0 \<longleftrightarrow> bit d n" for d :: mpdigit
proof -
  have "d AND push_bit n 1 = push_bit n (of_bool (bit d n))"
    by (rule bit_word_eqI) (auto simp: bit_simps bit_1_iff)
  then show ?thesis using bit_imp_le_length [of d n] by (auto simp: push_bit_eq_mult)
qed

lemma high_bit_found: "unat d < 2 ^ n \<Longrightarrow> n \<le> Dbits \<Longrightarrow> d \<noteq> 0 \<Longrightarrow> \<exists>j. high_bit d n = Some (Suc j) \<and> 2 ^ j \<le> unat d \<and> unat d < 2 ^ Suc j"
proof (induction n)
  case (Suc n)
  have b: "bit d n \<longleftrightarrow> 2 ^ n \<le> unat d" using bit_below [OF Suc.prems(1)] by (simp add: bit_unsigned_iff)
  show ?case
  proof (cases "bit d n")
    case True
    then show ?thesis using b Suc.prems(1) one_bit_set [of d n] by (intro exI [of _ n]) simp
  next
    case False
    then show ?thesis using b Suc one_bit_set [of d n] by simp
  qed
qed (simp add: unat_eq_0)

lemma high_bit_none: "high_bit 0 n = None"
  by (induction n) simp_all

lemma mpsignif_loop_bits:
  "seg m p ds \<Longrightarrow> length ds = n \<Longrightarrow> \<exists>s. mpsignif_loop m p n = Some s \<and> digval ds < 2 ^ s \<and> (0 < s \<longrightarrow> 2 ^ (s - 1) \<le> digval ds)"
proof (induction n arbitrary: ds)
  case (Suc n)
  obtain es d where ds: "ds = es @ [d]" "length es = n" using Suc.prems(2) by (auto simp: length_Suc_conv_rev)
  have l: "dld m (dadd p n) = Some d" "seg m p es" using Suc.prems(1) ds by (simp_all add: seg_append)
  have v: "digval ds = digval es + 2 ^ (Dbits * n) * unat d" "digval es < 2 ^ (Dbits * n)" using ds digval_bound [of es] by (simp_all add: digval_append)
  show ?case
  proof (cases "d = 0")
    case True
    then show ?thesis using Suc.IH [OF l(2) ds(2)] l(1) v high_bit_none by simp
  next
    case False
    then obtain j where j: "high_bit d Dbits = Some (Suc j)" "2 ^ j \<le> unat d" "unat d < 2 ^ Suc j" using high_bit_found [of d Dbits] unat_digit [of d] by auto
    have "digval ds < 2 ^ (Dbits * n) * (unat d + 1)" using v by simp
    also have "\<dots> \<le> 2 ^ (Dbits * n) * 2 ^ Suc j" using j(3) by (intro mult_le_mono2) simp
    finally have u: "digval ds < 2 ^ (n * Dbits + Suc j)" by (simp add: power_add mult.commute)
    have "2 ^ (Dbits * n) * 2 ^ j \<le> 2 ^ (Dbits * n) * unat d" using j(2) by (rule mult_le_mono2)
    then have "2 ^ (Dbits * n) * 2 ^ j \<le> digval ds" unfolding v(1) by (rule trans_le_add2)
    then have "2 ^ (n * Dbits + j) \<le> digval ds" by (simp add: power_add mult.commute)
    then show ?thesis using l(1) j(1) u by simp
  qed
qed simp

lemma mpbytes_correct:
  assumes a: "mp_plain h a b ds"
  shows "\<exists>m. mpbytes a h = Some m \<and> 0 < m \<and> mag b ds < 256 ^ m \<and> (\<forall>n. n < m \<longleftrightarrow> n = 0 \<or> 256 ^ n \<le> mag b ds)"
proof -
  let ?V = "mag b ds"
  have sg: "seg (mh_mem h) (a, 0) (take (mp_top b) ds)" "length (take (mp_top b) ds) = mp_top b"
    using plainD(3,7) [OF a] by (auto simp: seg_whole mp_sized_def)
  have "\<exists>s. mpsignif a h = Some s \<and> ?V < 2 ^ s \<and> (0 < s \<longrightarrow> 2 ^ (s - 1) \<le> ?V)"
  proof (cases "mp_top b = 0")
    case True
    then show ?thesis using plainD(6) [OF a] by (simp add: mpsignif_def mag_def)
  next
    case False
    then show ?thesis using mpsignif_loop_bits [OF sg] plainD(6) [OF a] by (simp add: mpsignif_def mag_def)
  qed
  then obtain s where s: "mpsignif a h = Some s" "?V < 2 ^ s" "0 < s \<Longrightarrow> 2 ^ (s - 1) \<le> ?V" by blast
  define m where "m = (if (s + 7) div 8 = 0 then 1 else (s + 7) div 8)"
  have m: "mpbytes a h = Some m" "0 < m" using s(1) by (simp_all add: mpbytes_def m_def Let_def)
  have pw: "(256 :: nat) ^ n = 2 ^ (8 * n)" for n by (simp add: power_mult)
  have sm: "s \<le> 8 * m" by (simp add: m_def) linarith
  have "?V < 256 ^ m"
  proof -
    have "(2 :: nat) ^ s \<le> 2 ^ (8 * m)" using sm by (intro power_increasing) simp_all
    then show ?thesis using s(2) unfolding pw by (rule less_le_trans [rotated])
  qed
  moreover have "n < m \<longleftrightarrow> n = 0 \<or> 256 ^ n \<le> ?V" for n
  proof
    assume n: "n < m"
    show "n = 0 \<or> 256 ^ n \<le> ?V"
    proof (cases "n = 0")
      case False
      then have "8 * n \<le> s - 1" "0 < s" using n by (auto simp: m_def split: if_splits)
      then have "(2 :: nat) ^ (8 * n) \<le> 2 ^ (s - 1)" by (intro power_increasing) simp_all
      then show ?thesis using s(3) [OF \<open>0 < s\<close>] unfolding pw by (intro disjI2) (rule le_trans)
    qed simp
  next
    assume "n = 0 \<or> 256 ^ n \<le> ?V"
    then show "n < m"
    proof
      assume "256 ^ n \<le> ?V"
      then have "(256 :: nat) ^ n < 256 ^ m" using \<open>?V < 256 ^ m\<close> by (rule le_less_trans)
      then show ?thesis using power_strict_increasing_iff [of "256 :: nat" n m] by linarith
    qed (use m(2) in simp)
  qed
  ultimately show ?thesis using m by blast
qed

section \<open>There and back\<close>

lemma take_written: "mwrite B p xs = Some B' \<Longrightarrow> k \<le> length xs \<Longrightarrow> take k (drop p B') = take k xs" "mwrite B p xs = Some B' \<Longrightarrow> p + length xs \<le> length B'"
  by (auto simp: mwrite_def split: if_splits)

lemma mwrite_ok: "p + length xs \<le> length B \<Longrightarrow> \<exists>B'. mwrite B p xs = Some B'"
  by (simp add: mwrite_def)

lemma lebytes_take: "k \<le> n \<Longrightarrow> take k (lebytes n v) = lebytes k v"
  using lebytes_split [of k "n - k" v] by simp

lemma read_back:
  assumes r: "mp_out h r b ds" and w: "mwrite B p (lebytes n V) = Some B'" and m: "m \<le> n" "V < 256 ^ m"
  shows "becomes (letomp B' p m r h) r (int V) h"
proof -
  have "lenum (take m (drop p B')) = V" using take_written(1) [OF w, of m] m lebytes_take [OF m(1), of V] lenum_lebytes [of m V] by simp
  moreover have "p + m \<le> length B'" using take_written(2) [OF w] m(1) by simp
  ultimately show ?thesis using result_val0 [OF letomp_result [OF r] r] by metis
qed

lemma read_back_be:
  assumes r: "mp_out h r b ds" and w: "mwrite B p (rev (lebytes m V)) = Some B'" and m: "V < 256 ^ m"
  shows "becomes (betomp B' p m r h) r (int V) h"
proof -
  have "lenum (rev (take m (drop p B'))) = V" using take_written(1) [OF w, of m] m lenum_lebytes [of m V] by simp
  moreover have "p + m \<le> length B'" using take_written(2) [OF w] by simp
  ultimately show ?thesis using result_val0 [OF betomp_result [OF r] r] by metis
qed

text \<open>What \<open>mptole\<close> and \<open>mptobe\<close> return for a number of value \<open>v\<close>: -1 and the area as it was when the bytes do not fit; otherwise the number of bytes, with
  which the number is read back by \<open>back\<close>.  The rest of the area is 0 and bytes outside stay as they were.\<close>

definition bytes_done :: "(int \<times> block) option \<Rightarrow> (block \<Rightarrow> nat \<Rightarrow> nat \<Rightarrow> nat \<Rightarrow> mpheap \<Rightarrow> mpheap option) \<Rightarrow> block \<Rightarrow> nat \<Rightarrow> nat \<Rightarrow> int \<Rightarrow> nat \<Rightarrow> mpheap \<Rightarrow> bool" where
  "bytes_done res back B p n v r h \<longleftrightarrow> (if n = 0 \<or> 256 ^ n \<le> \<bar>v\<bar> then res = Some (- 1, B)
     else \<exists>m B'. res = Some (int m, B') \<and> 0 < m \<and> m \<le> n \<and> length B' = length B \<and> take p B' = take p B \<and> drop (p + m) B' = replicate (n - m) 0 @ drop (p + n) B
       \<and> becomes (back B' p m r h) r \<bar>v\<bar> h)"

lemma mwrite_frame: "mwrite B p xs = Some B' \<Longrightarrow> length B' = length B \<and> take p B' = take p B \<and> drop (p + length xs) B' = drop (p + length xs) B"
  by (auto simp: mwrite_def split: if_splits)

lemma written_rest: "mwrite B p (xs @ ys) = Some B' \<Longrightarrow> length xs = m \<Longrightarrow> m + length ys = n \<Longrightarrow> drop (p + m) B' = ys @ drop (p + n) B"
  by (auto simp: mwrite_def add.assoc split: if_splits)

lemma le_pow: "(256 :: int) ^ n \<le> int k \<longleftrightarrow> 256 ^ n \<le> k"
proof -
  have "(256 :: int) ^ n = int (256 ^ n)" by simp
  then show ?thesis by linarith
qed

lemma plain_abs: "mp_plain h a b ds \<Longrightarrow> v = mp_sign b * int (mag b ds) \<Longrightarrow> \<bar>v\<bar> = int (mag b ds)"
  using plainD(3) [of h a b ds] by (auto simp: mp_wf_def abs_mult mp_sized_def)

lemma mptole_done:
  assumes a: "mp_plain h a b ds" and v: "\<bar>v\<bar> = int (mag b ds)" and r: "mp_out h r c es" and B: "p + n \<le> length B"
  shows "bytes_done (mptole a B (Some p) n h) letomp B p n v r h"
proof -
  obtain m where m: "mpbytes a h = Some m" "0 < m" "mag b ds < 256 ^ m" "\<And>n. n < m \<longleftrightarrow> n = 0 \<or> 256 ^ n \<le> mag b ds" using mpbytes_correct [OF a] by blast
  show ?thesis
  proof (cases "n < m")
    case True
    then show ?thesis using m(1,4) v by (simp add: mptole_def bytes_done_def le_pow)
  next
    case False
    have "p + length (lebytes n (mag b ds)) \<le> length B" using B by simp
    then obtain B' where w: "mwrite B p (lebytes n (mag b ds)) = Some B'" using mwrite_ok by blast
    have "mptole a B (Some p) n h = Some (int m, B')" using m(1) False mptolel_mwrite [OF a B] w by (simp add: mptole_def)
    moreover have "becomes (letomp B' p m r h) r \<bar>v\<bar> h" using read_back [OF r w _ m(3)] False v by simp
    moreover have "\<not> (n = 0 \<or> 256 ^ n \<le> \<bar>v\<bar>)" using False m(4) [of n] v by (simp add: le_pow)
    moreover have "drop (p + m) B' = replicate (n - m) 0 @ drop (p + n) B"
    proof (rule written_rest)
      show "mwrite B p (lebytes m (mag b ds) @ replicate (n - m) 0) = Some B'" using w lebytes_small [OF m(3), of "n - m"] False by simp
    qed (use False in simp_all)
    ultimately show ?thesis using mwrite_frame [OF w] False m(2) unfolding bytes_done_def by (simp only: if_False length_lebytes) (auto intro!: exI [of _ m])
  qed
qed

lemma mptobe_done:
  assumes a: "mp_plain h a b ds" and v: "\<bar>v\<bar> = int (mag b ds)" and r: "mp_out h r c es" and B: "p + n \<le> length B"
  shows "bytes_done (mptobe a B (Some p) n h) betomp B p n v r h"
proof -
  obtain m where m: "mpbytes a h = Some m" "0 < m" "mag b ds < 256 ^ m" "\<And>n. n < m \<longleftrightarrow> n = 0 \<or> 256 ^ n \<le> mag b ds" using mpbytes_correct [OF a] by blast
  show ?thesis
  proof (cases "n < m")
    case True
    then show ?thesis using m(1,4) v by (simp add: mptobe_def bytes_done_def le_pow)
  next
    case False
    have "p + m + (n - m) \<le> length B" using B False by simp
    then obtain B0 where w0: "mwrite B (p + m) (replicate (n - m) 0) = Some B0" using mwrite_ok [of "p + m" "replicate (n - m) 0" B] by auto
    have z: "(if n > m then memset B (p + m) 0 (n - m) else Some B) = Some B0"
    proof (cases "n > m")
      case True
      then show ?thesis using memset_mwrite [of "p + m" "n - m" B 0] B w0 by simp
    next
      case False
      then show ?thesis using w0 B by (simp add: mwrite_def split: if_splits)
    qed
    have B0: "p + m \<le> length B0" using mwrite_frame [OF w0] B False by simp
    then obtain B' where w: "mwrite B0 p (rev (lebytes m (mag b ds))) = Some B'" using mwrite_ok [of p "rev (lebytes m (mag b ds))" B0] by auto
    have "mptobe a B (Some p) n h = Some (int m, B')" using m(1) False z mptober_mwrite [OF a B0] w by (simp add: mptobe_def)
    moreover have "becomes (betomp B' p m r h) r \<bar>v\<bar> h" using read_back_be [OF r w m(3)] v by simp
    moreover have "\<not> (n = 0 \<or> 256 ^ n \<le> \<bar>v\<bar>)" using False m(4) [of n] v by (simp add: le_pow)
    moreover have "length B' = length B" "take p B' = take p B" "drop (p + m) B' = replicate (n - m) 0 @ drop (p + n) B"
    proof -
      have f: "length B' = length B0" "take p B' = take p B0" "drop (p + m) B' = drop (p + m) B0" using mwrite_frame [OF w] by simp_all
      have f0: "length B0 = length B" "take (p + m) B0 = take (p + m) B" using mwrite_frame [OF w0] by simp_all
      show "length B' = length B" using f(1) f0(1) by simp
      have "take p B0 = take p (take (p + m) B0)" by simp
      then show "take p B' = take p B" unfolding f(2) f0(2) by simp
      have "drop (p + m) B0 = replicate (n - m) 0 @ drop (p + m + (n - m)) B" using written_rest [of B "p + m" "[]" "replicate (n - m) 0" B0 0] w0 by simp
      then show "drop (p + m) B' = replicate (n - m) 0 @ drop (p + n) B" using f(3) False by simp
    qed
    ultimately show ?thesis using False m(2) unfolding bytes_done_def by (simp only: if_False) (auto intro!: exI [of _ m])
  qed
qed

text \<open>With nil for the area the bytes are in a new one that they fill.\<close>

definition bytes_new :: "(int \<times> block) option \<Rightarrow> (block \<Rightarrow> nat \<Rightarrow> nat \<Rightarrow> nat \<Rightarrow> mpheap \<Rightarrow> mpheap option) \<Rightarrow> int \<Rightarrow> nat \<Rightarrow> mpheap \<Rightarrow> bool" where
  "bytes_new res back v r h \<longleftrightarrow> (\<exists>B. res = Some (int (length B), B) \<and> 0 < length B \<and> (length B = 1 \<or> 256 ^ (length B - 1) \<le> \<bar>v\<bar>) \<and> becomes (back B 0 (length B) r h) r \<bar>v\<bar> h)"

lemma bytes_fresh:
  assumes a: "mp_plain h a b ds" and v: "\<bar>v\<bar> = int (mag b ds)" and r: "mp_out h r c es"
  shows "bytes_new (mptole a B None n h) letomp v r h" "bytes_new (mptobe a B None n h) betomp v r h"
proof -
  let ?V = "mag b ds"
  obtain m where m: "mpbytes a h = Some m" "0 < m" "?V < 256 ^ m" "\<And>n. n < m \<longleftrightarrow> n = 0 \<or> 256 ^ n \<le> ?V" using mpbytes_correct [OF a] by blast
  have l: "m = 1 \<or> 256 ^ (m - 1) \<le> \<bar>v\<bar>" using m(4) [of "m - 1"] m(2) unfolding v le_pow by auto
  have z: "0 + m \<le> length (replicate m (0 :: byte))" by simp
  obtain B1 where w1: "mwrite (replicate m 0) 0 (lebytes m ?V) = Some B1" using mwrite_ok [of 0 "lebytes m ?V" "replicate m 0"] by auto
  obtain B2 where w2: "mwrite (replicate m 0) 0 (rev (lebytes m ?V)) = Some B2" using mwrite_ok [of 0 "rev (lebytes m ?V)" "replicate m 0"] by auto
  show "bytes_new (mptole a B None n h) letomp v r h" unfolding bytes_new_def
    using m(1,2) l mptolel_mwrite [OF a z] w1 mwrite_frame [OF w1] read_back [OF r w1 _ m(3)] v by (intro exI [of _ B1]) (simp add: mptole_def)
  show "bytes_new (mptobe a B None n h) betomp v r h" unfolding bytes_new_def
    using m(1,2) l mptober_mwrite [OF a z] w2 mwrite_frame [OF w2] read_back_be [OF r w2 m(3)] v by (intro exI [of _ B2]) (simp add: mptobe_def)
qed

text \<open>Both for numbers by their value.\<close>

lemma bytes_val:
  assumes "mp_val h a v" "mp_var h r"
  shows "p + n \<le> length B \<Longrightarrow> bytes_done (mptole a B (Some p) n h) letomp B p n v r h" "p + n \<le> length B \<Longrightarrow> bytes_done (mptobe a B (Some p) n h) betomp B p n v r h"
    "bytes_new (mptole a B None n h) letomp v r h" "bytes_new (mptobe a B None n h) betomp v r h"
proof -
  obtain b ds where a: "mp_plain h a b ds" "v = mp_sign b * int (mag b ds)" using assms(1) by (auto simp: mp_val_def)
  obtain c es where r: "mp_out h r c es" using assms(2) by (auto simp: mp_var_def)
  note v = plain_abs [OF a]
  show "p + n \<le> length B \<Longrightarrow> bytes_done (mptole a B (Some p) n h) letomp B p n v r h" by (rule mptole_done [OF a(1) v r])
  show "p + n \<le> length B \<Longrightarrow> bytes_done (mptobe a B (Some p) n h) betomp B p n v r h" by (rule mptobe_done [OF a(1) v r])
  show "bytes_new (mptole a B None n h) letomp v r h" "bytes_new (mptobe a B None n h) betomp v r h" by (rule bytes_fresh [OF a(1) v r])+
qed

end
