(* ===== verification/MpConv.thy ===== *)
theory MpConv
  imports MpEuclid
begin

text \<open>
  Numbers and machine integers, \<^verbatim>\<open>libmp/port/mptoi.c\<close>, \<^verbatim>\<open>mptoui.c\<close>, \<^verbatim>\<open>mptov.c\<close> and \<^verbatim>\<open>mptouv.c\<close>.  An \<open>int\<close> or \<open>vlong\<close> is its word, which \<open>sint\<close> reads.
  The functions that make a number are modelled for one that is given.
\<close>

section \<open>The functions\<close>

abbreviation (input) MAXUINT :: u32 where "MAXUINT \<equiv> - 1"

definition MAXINT :: u32 where "MAXINT = drop_bit 1 MAXUINT"

definition MININT :: u32 where "MININT = MAXINT + 1"

definition MAXVLONG :: u64 where "MAXVLONG = drop_bit 1 (NOT 0)"

definition MINVLONG :: u64 where "MINVLONG = MAXVLONG + 1"

text \<open>\<open>(i >> (sizeof(i)*8 - 1)) | 1\<close>.\<close>

definition sign_bit :: "int \<Rightarrow> int" where
  "sign_bit i = (if i < 0 then - 1 else 1)"

definition itomp :: "u32 \<Rightarrow> nat \<Rightarrow> mpheap \<Rightarrow> mpheap option" where
  "itomp i b h = do {
     let sign = sign_bit (sint i);
     h \<leftarrow> upd_mp b (\<lambda>c. c\<lparr>mp_sign := sign\<rparr>) h;
     let i = i * of_int sign;
     h \<leftarrow> in_mem (\<lambda>m. dst m (mp_p b) i) h;
     h \<leftarrow> upd_mp b (\<lambda>c. c\<lparr>mp_top := 1\<rparr>) h;
     mpnorm b h
   }"

definition mptoi :: "nat \<Rightarrow> mpheap \<Rightarrow> u32 option" where
  "mptoi b h = do {
     bb \<leftarrow> mh_ints h b;
     if mp_top bb = 0 then Some 0
     else do {
       x \<leftarrow> dld (mh_mem h) (mp_p b);
       if mp_sign bb > 0 then (if mp_top bb > 1 \<or> x > MAXINT then Some MAXINT else Some x)
       else (if mp_top bb > 1 \<or> x > MAXINT + 1 then Some MININT else Some (- x))
     }
   }"

definition uitomp :: "u32 \<Rightarrow> nat \<Rightarrow> mpheap \<Rightarrow> mpheap option" where
  "uitomp i b h = do {
     h \<leftarrow> in_mem (\<lambda>m. dst m (mp_p b) i) h;
     h \<leftarrow> upd_mp b (\<lambda>c. c\<lparr>mp_top := 1, mp_sign := 1\<rparr>) h;
     mpnorm b h
   }"

text \<open>A digit has the size of an \<open>uint\<close>.\<close>

definition mptoui :: "nat \<Rightarrow> mpheap \<Rightarrow> u32 option" where
  "mptoui b h = do {
     bb \<leftarrow> mh_ints h b;
     x \<leftarrow> dld (mh_mem h) (mp_p b);
     if mp_sign bb < 0 then Some 0
     else if mp_top bb > 1 then Some MAXUINT
     else Some x
   }"

text \<open>A digit is shifted as a digit: a shift by its width or more is undefined.\<close>

definition shift_digit :: "mpdigit \<Rightarrow> nat \<Rightarrow> mpdigit option" where
  "shift_digit x n = (if n < Dbits then Some (push_bit n x) else None)"

fun mptov_loop :: "dmem \<Rightarrow> dptr \<Rightarrow> nat \<Rightarrow> u64 \<Rightarrow> nat \<Rightarrow> u64 option" where
  "mptov_loop mem p s v 0 = Some v"
| "mptov_loop mem p s v (Suc n) = do {
     x \<leftarrow> dld mem (dadd p s);
     x \<leftarrow> shift_digit x (s * Dbits);
     mptov_loop mem p (s + 1) (v OR ucast x) n
   }"

definition mptov :: "nat \<Rightarrow> mpheap \<Rightarrow> u64 option" where
  "mptov b h = do {
     bb \<leftarrow> mh_ints h b;
     if mp_top bb = 0 then Some 0
     else if mp_top bb > VLDIGITS then (if mp_sign bb > 0 then Some MAXVLONG else Some MINVLONG)
     else do {
       v \<leftarrow> mptov_loop (mh_mem h) (mp_p b) 0 0 (mp_top bb);
       if mp_sign bb > 0 then (if v > MAXVLONG then Some MAXVLONG else Some v)
       else (if v > MINVLONG then Some MINVLONG else Some (- v))
     }
   }"

definition uvtomp :: "u64 \<Rightarrow> nat \<Rightarrow> mpheap \<Rightarrow> mpheap option" where
  "uvtomp v b h = do {
     h \<leftarrow> mpbits b (int VLDIGITS * 4) h;
     h \<leftarrow> upd_mp b (\<lambda>c. c\<lparr>mp_sign := 1\<rparr>) h;
     h \<leftarrow> in_mem (\<lambda>m. vtomp_loop m (mp_p b) v VLDIGITS) h;
     h \<leftarrow> upd_mp b (\<lambda>c. c\<lparr>mp_top := VLDIGITS\<rparr>) h;
     mpnorm b h
   }"

fun mptouv_loop :: "dmem \<Rightarrow> dptr \<Rightarrow> nat \<Rightarrow> u64 \<Rightarrow> nat \<Rightarrow> u64 option" where
  "mptouv_loop mem p s v 0 = Some v"
| "mptouv_loop mem p s v (Suc n) = do {
     x \<leftarrow> dld mem (dadd p s);
     mptouv_loop mem p (s + 1) (v OR push_bit (s * Dbits) (ucast x)) n
   }"

definition mptouv :: "nat \<Rightarrow> mpheap \<Rightarrow> u64 option" where
  "mptouv b h = do {
     bb \<leftarrow> mh_ints h b;
     if mp_top bb = 0 then Some 0
     else if mp_top bb > VLDIGITS then Some MAXVLONG
     else mptouv_loop (mh_mem h) (mp_p b) 0 0 (mp_top bb)
   }"

section \<open>Machine integers\<close>

lemma limits: "MAXINT = 0x7FFFFFFF" "MININT = 0x80000000" "MAXVLONG = 0x7FFFFFFFFFFFFFFF" "MINVLONG = 0x8000000000000000"
  by (simp_all add: MAXINT_def MININT_def MAXVLONG_def MINVLONG_def mask_eq_exp_minus_1)

lemma sint_u64: "sint x = (if unat x < 0x8000000000000000 then int (unat x) else int (unat x) - 0x10000000000000000)" for x :: u64
proof -
  have "sint x = signed_take_bit 63 (uint x)" by (simp add: sint_uint)
  also have "\<dots> = (if uint x < 2 ^ 63 then uint x else uint x - 2 ^ Suc 63)" using unsigned_less [of x, where 'a = int] by (intro signed_nat) simp_all
  finally have s: "sint x = (if uint x < 0x8000000000000000 then uint x else uint x - 0x10000000000000000)" by simp
  have e: "int (unat x) = uint x" by simp
  then have "unat x < 0x8000000000000000 \<longleftrightarrow> uint x < 0x8000000000000000" by linarith
  then show ?thesis unfolding s e by simp
qed

lemma unat_uminus: "x \<noteq> 0 \<Longrightarrow> int (unat (- x)) = 2 ^ LENGTH('a) - int (unat x)" for x :: "'a::len word"
proof -
  assume "x \<noteq> 0"
  then have "uint x \<noteq> 0" by (simp add: uint_0_iff)
  moreover have "uint x mod 2 ^ LENGTH('a) = uint x" by (simp add: unsigned_less)
  moreover have "uint (- x) = (- uint x) mod 2 ^ LENGTH('a)" by (rule uint_word_ariths)
  ultimately show ?thesis by (simp add: zmod_zminus1_eq_if)
qed

lemma gt_unat: "(x > MAXINT) = (unat x > 0x7FFFFFFF)" "(x > MAXINT + 1) = (unat x > 0x80000000)" for x :: u32
  by (simp_all add: limits word_less_nat_alt)

section \<open>Numbers of one digit\<close>

lemma digit_result:
  assumes r: "mp_out h r b ds" and sz: "0 < mp_size b" and s: "s = 1 \<or> s = - 1"
  shows "result (Option.bind (in_mem (\<lambda>m. dst m (mp_p r) x) (put_mp r c ds h)) (\<lambda>h. Option.bind (upd_mp r (\<lambda>_. b\<lparr>mp_top := 1, mp_sign := s\<rparr>) h) (mpnorm r))) h r b (s * int (unat x))"
proof -
  have l: "length [x] \<le> length ds" using sz outD(2) [OF r] by (simp add: mp_sized_def)
  note v = vec_put [OF outD(2) [OF r] l s]
  have ro: "room ((mh_mem h)(r \<mapsto> ds)) (r, 0) 1" using l by (simp add: room_whole)
  have "result (mpnorm r (put_mp r (b\<lparr>mp_top := 1, mp_sign := s\<rparr>) (x # drop 1 ds) h)) h r b (s * int (unat x))"
    by (rule mpnorm_result) (use v(2,3) outD(3) [OF r] in \<open>simp_all add: like_def\<close>)
  then show ?thesis using v(1) [of h r] ro by (simp add: put_mp_mem)
qed

lemma itomp_result:
  assumes r: "mp_out h r b ds" and sz: "0 < mp_size b"
  shows "result (itomp i r h) h r b (sint i)"
proof -
  let ?s = "sign_bit (sint i)"
  have h: "h = put_mp r b ds h" using put_mp_same [OF outD(1) [OF r]] by simp
  have "itomp i r h = Option.bind (in_mem (\<lambda>m. dst m (mp_p r) (i * of_int ?s)) (put_mp r (b\<lparr>mp_sign := ?s\<rparr>) ds h)) (\<lambda>h. Option.bind (upd_mp r (\<lambda>c. c\<lparr>mp_top := 1\<rparr>) h) (mpnorm r))"
    by (subst h) (simp add: itomp_def Let_def)
  also have "\<dots> = Option.bind (in_mem (\<lambda>m. dst m (mp_p r) (i * of_int ?s)) (put_mp r (b\<lparr>mp_sign := ?s\<rparr>) ds h)) (\<lambda>h. Option.bind (upd_mp r (\<lambda>_. b\<lparr>mp_top := 1, mp_sign := ?s\<rparr>) h) (mpnorm r))"
    by (auto simp: in_mem_def upd_mp_def sign_top map_option_case split: option.splits)
  finally have e: "result (itomp i r h) h r b (?s * int (unat (i * of_int ?s)))" using digit_result [OF r sz, of ?s] by (simp add: sign_bit_def)
  have "?s * int (unat (i * of_int ?s)) = sint i"
  proof (cases "sint i < 0")
    case True
    then have "i \<noteq> 0" by auto
    then have "int (unat (- i)) = 0x100000000 - int (unat i)" using unat_uminus [of i] by simp
    then show ?thesis using True sint_u32 [of i] by (simp add: sign_bit_def split: if_splits)
  next
    case False
    then show ?thesis using sint_u32 [of i] unat_digit [of i] by (simp add: sign_bit_def split: if_splits)
  qed
  then show ?thesis using e by simp
qed

lemma uitomp_result:
  assumes r: "mp_out h r b ds" and sz: "0 < mp_size b"
  shows "result (uitomp i r h) h r b (int (unat i))"
proof -
  have h: "h = put_mp r b ds h" using put_mp_same [OF outD(1) [OF r]] by simp
  have "uitomp i r h = Option.bind (in_mem (\<lambda>m. dst m (mp_p r) i) (put_mp r b ds h)) (\<lambda>h. Option.bind (upd_mp r (\<lambda>_. b\<lparr>mp_top := 1, mp_sign := 1\<rparr>) h) (mpnorm r))"
    by (subst h) (auto simp: uitomp_def in_mem_def upd_mp_def map_option_case split: option.splits)
  then show ?thesis using digit_result [OF r sz, of 1] by simp
qed

text \<open>The digits of a number.\<close>

lemma plain_digits:
  assumes a: "mp_plain h a b ds"
  shows "mp_top b = 0 \<Longrightarrow> mag b ds = 0" "0 < mp_top b \<Longrightarrow> \<exists>d. dld (mh_mem h) (mp_p a) = Some d \<and> (mp_top b = 1 \<longrightarrow> mag b ds = unat d \<and> d \<noteq> 0)"
    "1 < mp_top b \<Longrightarrow> 2 ^ 32 \<le> mag b ds"
proof -
  show "mp_top b = 0 \<Longrightarrow> mag b ds = 0" by (simp add: mag_def)
  have at: "mh_mem h a = Some ds" "mp_top b \<le> length ds" using plainD(3,7) [OF a] by (auto simp: mp_sized_def)
  show "\<exists>d. dld (mh_mem h) (mp_p a) = Some d \<and> (mp_top b = 1 \<longrightarrow> mag b ds = unat d \<and> d \<noteq> 0)" if t: "0 < mp_top b"
  proof -
    obtain d es where ds: "ds = d # es" using t at(2) by (cases ds) auto
    moreover have "mp_top b = 1 \<Longrightarrow> d \<noteq> 0" using plainD(2,5) [OF a] ds by (simp add: mp_wf_def)
    ultimately show ?thesis using at(1) by (intro exI [of _ d]) (simp add: dld_def mag_def)
  qed
  show "2 ^ 32 \<le> mag b ds" if t: "1 < mp_top b"
  proof -
    have "(2 :: nat) ^ 32 \<le> 2 ^ (Dbits * (mp_top b - 1))" using t by (intro power_increasing) simp_all
    also have "\<dots> \<le> mag b ds" using norm_mag [OF plainD(2,5) [OF a]] t by simp
    finally show ?thesis .
  qed
qed

lemma sign_cases: "mp_plain h a b ds \<Longrightarrow> mp_sign b = 1 \<or> mp_sign b = - 1"
  using plainD(3) by (simp add: mp_sized_def)

lemma sint_clamps:
  "sint (if d > MAXINT then MAXINT else d) = max (- (2 ^ 31)) (min (2 ^ 31 - 1) (int (unat d)))"
  "d \<noteq> 0 \<Longrightarrow> sint (if d > MAXINT + 1 then MININT else - d) = max (- (2 ^ 31)) (min (2 ^ 31 - 1) (- int (unat d)))"
proof -
  have lim: "sint MAXINT = 0x7FFFFFFF" "sint MININT = - 0x80000000" "(2 :: int) ^ 31 = 0x80000000" by (simp_all add: sint_u32 limits)
  show "sint (if d > MAXINT then MAXINT else d) = max (- (2 ^ 31)) (min (2 ^ 31 - 1) (int (unat d)))"
    unfolding gt_unat if_distrib [of sint] lim sint_u32 [of d] by (cases "0x7FFFFFFF < unat d"; cases "unat d < 0x80000000"; simp only: if_True if_False; linarith)
  assume "d \<noteq> 0"
  then have "0 < unat d" "int (unat (- d)) = 0x100000000 - int (unat d)" using unat_uminus [of d] by (simp_all add: unat_gt_0)
  then show "sint (if d > MAXINT + 1 then MININT else - d) = max (- (2 ^ 31)) (min (2 ^ 31 - 1) (- int (unat d)))"
    unfolding gt_unat if_distrib [of sint] lim sint_u32 [of "- d"] by (cases "0x80000000 < unat d"; cases "unat (- d) < 0x80000000"; simp only: if_True if_False; linarith)
qed

lemma mptoi_value:
  assumes a: "mp_plain h a b ds" and v: "v = mp_sign b * int (mag b ds)"
  shows "\<exists>x. mptoi a h = Some x \<and> sint x = max (- (2 ^ 31)) (min (2 ^ 31 - 1) v)"
proof -
  have at: "mh_ints h a = Some b" by (rule plainD(6) [OF a])
  have lim: "sint MAXINT = 2 ^ 31 - 1" "sint MININT = - (2 ^ 31)" by (simp_all add: sint_u32 limits)
  consider "mp_top b = 0" | "mp_top b = 1" | "1 < mp_top b" by linarith
  then show ?thesis
  proof cases
    case 1
    then show ?thesis using at plain_digits(1) [OF a] v by (simp add: mptoi_def)
  next
    case 2
    then obtain d where d: "dld (mh_mem h) (mp_p a) = Some d" "mag b ds = unat d" "d \<noteq> 0" using plain_digits(2) [OF a] by auto
    let ?x = "if mp_sign b > 0 then (if d > MAXINT then MAXINT else d) else (if d > MAXINT + 1 then MININT else - d)"
    have "mptoi a h = Some ?x" using at d(1) 2 by (simp add: mptoi_def)
    moreover have "sint ?x = max (- (2 ^ 31)) (min (2 ^ 31 - 1) v)" unfolding v d(2) if_distrib [of sint, of "mp_sign b > 0"] sint_clamps(1) sint_clamps(2) [OF d(3)] using sign_cases [OF a] by auto
    ultimately show ?thesis by blast
  next
    case 3
    then obtain d where d: "dld (mh_mem h) (mp_p a) = Some d" using plain_digits(2) [OF a] by auto
    have "int (2 ^ 32) \<le> int (mag b ds)" using plain_digits(3) [OF a 3] by (simp only: of_nat_le_iff)
    then show ?thesis using sign_cases [OF a] at d 3 v lim by (elim disjE) (simp_all add: mptoi_def)
  qed
qed

section \<open>Numbers of two digits\<close>

lemma two_digits: "digval [ucast w, ucast (drop_bit Dbits w)] = unat w" for w :: u64
proof -
  have lt: "unat w div 2 ^ Dbits < 2 ^ Dbits" using unsigned_less [of w, where 'a = nat] by (simp add: less_mult_imp_div_less)
  have d: "unat (drop_bit Dbits w) = unat w div 2 ^ Dbits" unfolding unat_drop_bit_eq by (rule drop_bit_eq_div)
  have "unat (ucast w :: mpdigit) = unat w mod 2 ^ Dbits" "unat (ucast (drop_bit Dbits w) :: mpdigit) = unat w div 2 ^ Dbits"
    using lt d by (simp_all add: unsigned_ucast_eq take_bit_eq_mod)
  then show ?thesis by simp
qed

lemma vlong_result:
  assumes r: "mp_out h r b ds" and sz: "2 \<le> mp_size b" and s: "s = 1 \<or> s = - 1"
  shows "result (do {
      h \<leftarrow> mpbits r (int VLDIGITS * 4) h;
      h \<leftarrow> upd_mp r (\<lambda>b. b\<lparr>mp_sign := s\<rparr>) h;
      h \<leftarrow> in_mem (\<lambda>m. vtomp_loop m (mp_p r) w VLDIGITS) h;
      h \<leftarrow> upd_mp r (\<lambda>b. b\<lparr>mp_top := VLDIGITS\<rparr>) h;
      mpnorm r h
    }) h r b (s * int (unat w))"
proof -
  have "DIGITS (int VLDIGITS * 4) = 1" by (simp add: DIGITS_def Let_def)
  then have n: "nat (DIGITS (int VLDIGITS * 4)) = 1" by simp
  obtain c es where c: "mpbits r (int VLDIGITS * 4) h = Some (put_mp r c es h)" "mp_sized c es" "take (mp_top b) es = take (mp_top b) ds"
    "mp_top b \<le> length es" "1 \<le> length es" "like b c" "mp_sign c = mp_sign b" by (rule room_bits [OF r n])
  let ?zs = "[ucast w, ucast (drop_bit Dbits w)] :: mpdigit list"
  have le: "2 \<le> length es" using c(2,6) sz by (simp add: mp_sized_def like_def)
  then have lz: "length ?zs \<le> length es" by simp
  note vp = vec_put [OF c(2) lz s]
  have ro: "room ((mh_mem h)(r \<mapsto> es)) (r, 0) 2" using le by (simp add: room_whole)
  have "result (mpnorm r (put_mp r (c\<lparr>mp_top := length ?zs, mp_sign := s\<rparr>) (?zs @ drop (length ?zs) es) h)) h r b (s * int (unat w))"
  proof (rule mpnorm_result [OF vp(2)])
    show "like b (c\<lparr>mp_top := length ?zs, mp_sign := s\<rparr>)" using c(6) by (simp add: like_def)
    show "mp_sign (c\<lparr>mp_top := length ?zs, mp_sign := s\<rparr>) * int (mag (c\<lparr>mp_top := length ?zs, mp_sign := s\<rparr>) (?zs @ drop (length ?zs) es)) = s * int (unat w)"
      unfolding vp(3) two_digits by simp
  qed (rule outD(3) [OF r])
  then show ?thesis unfolding c(1) Option.bind.simps upd_mp_put in_mem_put vtomp_loop_two [OF ro]
    using vp(1) [of h r] by (simp add: put_mp_mem sign_top numeral_2_eq_2)
qed

lemma uvtomp_result: "mp_out h r b ds \<Longrightarrow> 2 \<le> mp_size b \<Longrightarrow> result (uvtomp w r h) h r b (int (unat w))"
  using vlong_result [of h r b ds 1 w] by (simp add: uvtomp_def)

lemma vtomp_exact:
  assumes "mp_out h r b ds" "2 \<le> mp_size b"
  shows "result (vtomp w r h) h r b (sint w)"
proof -
  define s :: int where "s = (if sint w < 0 then - 1 else 1)"
  have "s * int (unat (w * of_int s)) = sint w"
  proof (cases "sint w < 0")
    case True
    then have "w \<noteq> 0" by auto
    then have "int (unat (- w)) = 0x10000000000000000 - int (unat w)" using unat_uminus [of w] by simp
    then show ?thesis using True sint_u64 [of w] by (simp add: s_def split: if_splits)
  next
    case False
    have "unat w < 0x10000000000000000" using unsigned_less [of w, where 'a = nat] by simp
    then show ?thesis using False sint_u64 [of w] by (simp add: s_def split: if_splits)
  qed
  moreover have "result (vtomp w r h) h r b (s * int (unat (w * of_int s)))"
    using vlong_result [OF assms, of s "w * of_int s"] unfolding vtomp_def Let_def s_def by (simp split: if_splits)
  ultimately show ?thesis by simp
qed

lemma join_digits: "unat (ucast d OR push_bit Dbits (ucast e) :: u64) = digval [d, e]" for d e :: mpdigit
proof -
  have z: "(ucast d :: u64) AND push_bit Dbits (ucast e) = 0"
    by (rule bit_word_eqI) (auto simp: bit_simps dest: bit_imp_le_length)
  have "ucast d OR push_bit Dbits (ucast e) = (ucast d + push_bit Dbits (ucast e) :: u64)" using z by (simp add: disjunctive_add_eq_or)
  then have o: "ucast d OR push_bit Dbits (ucast e) = (of_nat (digval [d, e]) :: u64)" by (simp add: push_bit_eq_mult)
  have "digval [d, e] < 2 ^ 64" using digval_bound [of "[d, e]"] by simp
  then have "digval [d, e] mod 2 ^ LENGTH(64) = digval [d, e]" by (intro mod_less) simp
  then show ?thesis unfolding o unat_of_nat .
qed

text \<open>A number of one or two digits.\<close>

lemma mptouv_digits:
  assumes a: "mp_plain h a b ds" and t: "mp_top b \<le> 2"
  shows "\<exists>w. mptouv a h = Some w \<and> unat w = mag b ds"
proof -
  have at: "mh_ints h a = Some b" "mh_mem h a = Some ds" "mp_top b \<le> length ds" using plainD(3,6,7) [OF a] by (auto simp: mp_sized_def)
  consider "mp_top b = 0" | "mp_top b = 1" | "mp_top b = 2" using t by linarith
  then show ?thesis
  proof cases
    case 1
    then show ?thesis using at by (simp add: mptouv_def mag_def)
  next
    case 2
    then obtain d es where "ds = d # es" using at(3) by (cases ds) auto
    then show ?thesis using at 2 unat_digit [of d] by (simp add: mptouv_def mag_def dld_def dadd_def unsigned_ucast_eq take_bit_nat_eq_self)
  next
    case 3
    then obtain d e es where ds: "ds = d # e # es" using at(3) by (cases ds; cases "tl ds") auto
    have "mptouv a h = Some (ucast d OR push_bit Dbits (ucast e))" using at(1,2) 3 ds by (simp add: mptouv_def dld_def dadd_def numeral_2_eq_2)
    moreover have "mag b ds = digval [d, e]" using 3 ds by (simp add: mag_def)
    ultimately show ?thesis using join_digits [of d e] by simp
  qed
qed

lemma norm_power: "mp_plain h a b ds \<Longrightarrow> mp_top b \<noteq> 0 \<Longrightarrow> k \<le> Dbits * (mp_top b - 1) \<Longrightarrow> 2 ^ k \<le> mag b ds"
proof -
  assume a: "mp_plain h a b ds" and t: "mp_top b \<noteq> 0" and k: "k \<le> Dbits * (mp_top b - 1)"
  have "(2 :: nat) ^ k \<le> 2 ^ (Dbits * (mp_top b - 1))" using k by (intro power_increasing) simp_all
  also have "\<dots> \<le> mag b ds" by (rule norm_mag [OF plainD(2,5) [OF a] t])
  finally show ?thesis .
qed

text \<open>The digits of a number of that size.\<close>

lemma top_of_mag:
  assumes a: "mp_plain h a b ds"
  shows "mag b ds < 2 ^ Dbits \<longleftrightarrow> mp_top b \<le> 1" "mag b ds < 2 ^ 64 \<longleftrightarrow> mp_top b \<le> 2"
proof -
  have b: "mag b ds < 2 ^ (Dbits * n)" if "mp_top b \<le> n" for n
  proof -
    have "mag b ds < 2 ^ (Dbits * mp_top b)" by (rule mag_bound [OF plainD(3) [OF a]])
    also have "\<dots> \<le> 2 ^ (Dbits * n)" using that by (intro power_increasing) simp_all
    finally show ?thesis .
  qed
  show "mag b ds < 2 ^ Dbits \<longleftrightarrow> mp_top b \<le> 1" 
  proof
    show "mp_top b \<le> 1" if lt: "mag b ds < 2 ^ Dbits"
    proof (rule ccontr)
      assume "\<not> mp_top b \<le> 1"
      then have "2 ^ Dbits \<le> mag b ds" by (intro norm_power [OF a]) simp_all
      then show False using lt by simp
    qed
  qed (use b [of 1] in simp)
  show "mag b ds < 2 ^ 64 \<longleftrightarrow> mp_top b \<le> 2" 
  proof
    show "mp_top b \<le> 2" if lt: "mag b ds < 2 ^ 64"
    proof (rule ccontr)
      assume "\<not> mp_top b \<le> 2"
      then have "2 ^ 64 \<le> mag b ds" by (intro norm_power [OF a]) simp_all
      then show False using lt by simp
    qed
  qed (use b [of 2] in simp)
qed

lemma mptouv_value:
  assumes a: "mp_plain h a b ds"
  shows "\<exists>w. mptouv a h = Some w \<and> unat w = (if mag b ds < 2 ^ 64 then mag b ds else 2 ^ 63 - 1)"
proof (cases "mp_top b \<le> 2")
  case True
  then show ?thesis using mptouv_digits [OF a] top_of_mag(2) [OF a] by simp
next
  case False
  then have "mptouv a h = Some MAXVLONG" using plainD(6) [OF a] by (simp add: mptouv_def)
  then show ?thesis using False top_of_mag(2) [OF a] by (simp add: limits)
qed

lemma small_vlong: "unat w < 2 ^ Dbits \<Longrightarrow> \<not> w > MAXVLONG \<and> \<not> w > MINVLONG \<and> sint w = int (unat w) \<and> (w \<noteq> 0 \<longrightarrow> sint (- w) = - int (unat w))" for w :: u64
proof -
  assume w: "unat w < 2 ^ Dbits"
  then have l: "unat w < 0x100000000" by simp
  have "sint (- w) = - int (unat w)" if "w \<noteq> 0"
  proof -
    have m: "int (unat (- w)) = 0x10000000000000000 - int (unat w)" using unat_uminus [OF that] by simp
    then have "\<not> unat (- w) < 0x8000000000000000" using l by linarith
    then show ?thesis using m by (simp only: sint_u64 if_False)
  qed
  moreover have "\<not> w > MAXVLONG \<and> \<not> w > MINVLONG" using l by (simp add: limits word_less_nat_alt)
  moreover have "sint w = int (unat w)" using l by (simp only: sint_u64) simp
  ultimately show ?thesis by blast
qed

lemma mptov_value:
  assumes a: "mp_plain h a b ds" and v: "v = mp_sign b * int (mag b ds)"
  shows "mag b ds < 2 ^ Dbits \<Longrightarrow> \<exists>x. mptov a h = Some x \<and> sint x = v"
    "2 ^ Dbits \<le> mag b ds \<Longrightarrow> mag b ds < 2 ^ 64 \<Longrightarrow> mptov a h = None"
    "2 ^ 64 \<le> mag b ds \<Longrightarrow> \<exists>x. mptov a h = Some x \<and> sint x = max (- (2 ^ 63)) (min (2 ^ 63 - 1) v)"
proof -
  have at: "mh_ints h a = Some b" "mh_mem h a = Some ds" "mp_top b \<le> length ds" using plainD(3,6,7) [OF a] by (auto simp: mp_sized_def)
  show "\<exists>x. mptov a h = Some x \<and> sint x = v" if lt: "mag b ds < 2 ^ Dbits"
  proof (cases "mp_top b = 0")
    case True
    then show ?thesis using at plain_digits(1) [OF a] v by (simp add: mptov_def)
  next
    case False
    then have t: "mp_top b = 1" using top_of_mag(1) [OF a] lt by simp
    then obtain d where d: "dld (mh_mem h) (mp_p a) = Some d" "mag b ds = unat d" "d \<noteq> 0" using plain_digits(2) [OF a] by auto
    define w where "w = (ucast d :: u64)"
    have w: "unat w = unat d" using unat_digit [of d] by (simp add: w_def unsigned_ucast_eq take_bit_nat_eq_self)
    then have w0: "w \<noteq> 0" using d(3) by (metis unat_eq_0 unsigned_0)
    note sm = small_vlong [of w, unfolded w, OF lt [unfolded d(2)]]
    have "mptov a h = Some (if mp_sign b > 0 then w else - w)" using at(1) d(1) t sm by (simp add: mptov_def shift_digit_def dadd_def w_def)
    moreover have "sint (if mp_sign b > 0 then w else - w) = v" using sign_cases [OF a] sm w0 unfolding v d(2) by auto
    ultimately show ?thesis by blast
  qed
  show "mptov a h = None" if "2 ^ Dbits \<le> mag b ds" "mag b ds < 2 ^ 64"
  proof -
    have t: "mp_top b = 2" using that top_of_mag [OF a] by simp
    then obtain d e es where "ds = d # e # es" using at(3) by (cases ds; cases "tl ds") auto
    then show ?thesis using at t by (simp add: mptov_def shift_digit_def dld_def dadd_def numeral_2_eq_2)
  qed
  show "\<exists>x. mptov a h = Some x \<and> sint x = max (- (2 ^ 63)) (min (2 ^ 63 - 1) v)" if big: "2 ^ 64 \<le> mag b ds"
  proof -
    have t: "mp_top b > 2" using big top_of_mag(2) [OF a] by simp
    have m: "(0x10000000000000000 :: int) \<le> int (mag b ds)" using big by simp
    have lim: "sint MAXVLONG = 0x7FFFFFFFFFFFFFFF" "sint MINVLONG = - 0x8000000000000000" by (simp_all add: sint_u64 limits)
    show ?thesis using sign_cases [OF a] at(1) t v m lim by (elim disjE) (simp_all add: mptov_def)
  qed
qed

lemma mptoui_value:
  assumes a: "mp_plain h a b ds" and v: "v = mp_sign b * int (mag b ds)" and nz: "v \<noteq> 0"
  shows "\<exists>x. mptoui a h = Some x \<and> int (unat x) = max 0 (min (2 ^ 32 - 1) v)"
proof -
  have t: "0 < mp_top b" using nz v plain_digits(1) [OF a] by (cases "mp_top b") auto
  obtain d where d: "dld (mh_mem h) (mp_p a) = Some d" "mp_top b = 1 \<Longrightarrow> mag b ds = unat d" using plain_digits(2) [OF a t] by auto
  have at: "mh_ints h a = Some b" by (rule plainD(6) [OF a])
  show ?thesis
  proof (cases "mp_top b = 1")
    case True
    have "unat d < 0x100000000" using unat_digit [of d] by simp
    then have "int (unat d) < 0x100000000" by linarith
    moreover have "max 0 (min 0xFFFFFFFF (- uint d)) = 0" using unsigned_greater_eq [of d, where 'a = int] by linarith
    moreover note d True v at
    ultimately show ?thesis using sign_cases [OF a] by (elim disjE) (simp_all add: mptoui_def)
  next
    case False
    then have "1 < mp_top b" using t by simp
    then have "(0x100000000 :: int) \<le> int (mag b ds)" using plain_digits(3) [OF a] by simp
    then show ?thesis using sign_cases [OF a] at d(1) \<open>1 < mp_top b\<close> v by (elim disjE) (simp_all add: mptoui_def unsigned_minus_1_eq_mask mask_eq_exp_minus_1)
  qed
qed

text \<open>Of zero \<open>mptoui\<close> gives the first digit of the area.  \<open>mpassign\<close> of zero does not write it.\<close>

lemma mptoui_stale:
  assumes z: "mp_plain h z b es" "mp_top b = 0" and r: "mp_out h r c (d # ds)" and ne: "z \<noteq> r"
  shows "\<exists>h'. mpassign z r h = Some h' \<and> mp_val h' r 0 \<and> mptoui r h' = Some d"
proof -
  have at: "mh_ints h z = Some b" "mh_mem h z = Some es" "mh_ints h r = Some c" "mh_mem h r = Some (d # ds)" using plainD(6,7) [OF z(1)] outD(4,5) [OF r] .
  have D0: "DIGITS 0 = 0" by (simp add: DIGITS_def Let_def)
  let ?c = "c\<lparr>mp_top := 0, mp_sign := mp_sign b, mp_norm := mp_norm b, mp_timesafe := mp_timesafe c \<or> mp_timesafe b\<rparr>"
  have e: "c\<lparr>mp_top := 0, mp_sign := s, mp_norm := n, mp_timesafe := t\<rparr> = c\<lparr>mp_sign := s, mp_top := 0, mp_norm := n, mp_timesafe := t\<rparr>" for s n t by (cases c) simp
  let ?h = "h\<lparr>mh_ints := (mh_ints h)(r \<mapsto> ?c)\<rparr>"
  have "mpassign z r h = Some ?h" using at ne z(2) D0 by (simp add: mpassign_def upd_mp_def mpbits_def copy_digits_def e fun_upd_idem)
  moreover have s: "mp_sign b = 1" "mp_norm b" "\<not> mp_timesafe b" using z plainD(2,4,5) [OF z(1)] by (simp_all add: mp_wf_def mag_def)
  moreover have "mp_plain ?h r ?c (d # ds)" using s at outD(2,3) [OF r] by (simp add: mp_plain_def mp_at_def mp_wf_def mp_sized_def mag_def)
  then have "mp_val ?h r 0" unfolding mp_val_def by (intro exI [of _ ?c] exI [of _ "d # ds"]) (simp add: mag_def)
  moreover have "mptoui r ?h = Some d" using at(4) s(1) by (simp add: mptoui_def dld_def)
  ultimately show ?thesis by blast
qed

section \<open>By value\<close>

lemma mp_val_plain: "mp_val h a v \<Longrightarrow> (\<And>b ds. mp_plain h a b ds \<Longrightarrow> v = mp_sign b * int (mag b ds) \<Longrightarrow> \<bar>v\<bar> = int (mag b ds) \<Longrightarrow> P) \<Longrightarrow> P"
  using sign_cases by (fastforce simp: mp_val_def abs_mult)

lemma mag_limit: "\<bar>v\<bar> = int m \<Longrightarrow> \<bar>v\<bar> < 2 ^ k \<longleftrightarrow> m < 2 ^ k"
proof -
  have "(2 :: int) ^ k = int (2 ^ k)" by simp
  then show "\<bar>v\<bar> = int m \<Longrightarrow> ?thesis" by linarith
qed

lemma to_int_val: "mp_val h a v \<Longrightarrow> \<exists>x. mptoi a h = Some x \<and> sint x = max (- (2 ^ 31)) (min (2 ^ 31 - 1) v)"
  by (erule mp_val_plain) (rule mptoi_value)

lemma to_uint_val: "mp_val h a v \<Longrightarrow> v \<noteq> 0 \<Longrightarrow> \<exists>x. mptoui a h = Some x \<and> int (unat x) = max 0 (min (2 ^ 32 - 1) v)"
  by (erule mp_val_plain) (rule mptoui_value)

lemma to_vlong_val:
  assumes "mp_val h a v"
  shows "\<bar>v\<bar> < 2 ^ Dbits \<Longrightarrow> \<exists>x. mptov a h = Some x \<and> sint x = v" "2 ^ Dbits \<le> \<bar>v\<bar> \<Longrightarrow> \<bar>v\<bar> < 2 ^ 64 \<Longrightarrow> mptov a h = None"
    "2 ^ 64 \<le> \<bar>v\<bar> \<Longrightarrow> \<exists>x. mptov a h = Some x \<and> sint x = max (- (2 ^ 63)) (min (2 ^ 63 - 1) v)"
proof -
  obtain b ds where a: "mp_plain h a b ds" "v = mp_sign b * int (mag b ds)" and v: "\<bar>v\<bar> = int (mag b ds)" using assms by (rule mp_val_plain)
  note m = mag_limit [OF v, of Dbits] mag_limit [OF v, of 64] and t = mptov_value [OF a]
  show "\<exists>x. mptov a h = Some x \<and> sint x = v" if "\<bar>v\<bar> < 2 ^ Dbits" using that t(1) m(1) by blast
  show "mptov a h = None" if "2 ^ Dbits \<le> \<bar>v\<bar>" "\<bar>v\<bar> < 2 ^ 64" by (rule t(2)) (use that m in linarith)+
  show "\<exists>x. mptov a h = Some x \<and> sint x = max (- (2 ^ 63)) (min (2 ^ 63 - 1) v)" if "2 ^ 64 \<le> \<bar>v\<bar>" by (rule t(3)) (use that m(2) in linarith)
qed

lemma to_uvlong_val:
  assumes "mp_val h a v"
  shows "\<exists>w. mptouv a h = Some w \<and> int (unat w) = (if \<bar>v\<bar> < 2 ^ 64 then \<bar>v\<bar> else 2 ^ 63 - 1)"
proof -
  obtain b ds where a: "mp_plain h a b ds" "v = mp_sign b * int (mag b ds)" and v: "\<bar>v\<bar> = int (mag b ds)" using assms by (rule mp_val_plain)
  obtain w where w: "mptouv a h = Some w" "unat w = (if mag b ds < 2 ^ 64 then mag b ds else 2 ^ 63 - 1)" using mptouv_value [OF a(1)] by blast
  have "int (unat w) = (if \<bar>v\<bar> < 2 ^ 64 then \<bar>v\<bar> else 2 ^ 63 - 1)" unfolding w(2) mag_limit [OF v] v by simp
  then show ?thesis using w(1) by blast
qed

lemma stale_digit:
  assumes "mp_val h z 0" "mp_var h r" "mh_mem h r = Some (d # ds)" "z \<noteq> r"
  shows "\<exists>h'. mpassign z r h = Some h' \<and> mp_val h' r 0 \<and> mptoui r h' = Some d"
proof -
  obtain b es where z: "mp_plain h z b es" "0 = mp_sign b * int (mag b es)" using assms(1) by (auto simp: mp_val_def)
  then have m: "mag b es = 0" using sign_cases [OF z(1)] by auto
  have "mp_top b = 0"
  proof (rule ccontr)
    assume "mp_top b \<noteq> 0"
    then have "2 ^ 0 \<le> mag b es" by (intro norm_power [OF z(1)]) simp_all
    then show False using m by simp
  qed
  moreover obtain c where "mp_out h r c (d # ds)" using assms(2,3) outD(5) by (fastforce simp: mp_var_def)
  ultimately show ?thesis using mptoui_stale [OF z(1)] assms(4) by blast
qed

lemma from_machine:
  assumes "opt_out h (Some r) (\<lambda>b. 2 \<le> mp_size b)"
  shows "becomes (itomp i r h) r (sint i) h" "becomes (uitomp u r h) r (int (unat u)) h" "becomes (vtomp w r h) r (sint w) h" "becomes (uvtomp w r h) r (int (unat w)) h"
proof -
  obtain b ds where r: "mp_out h r b ds" "2 \<le> mp_size b" using assms unfolding opt_out_def by (auto dest: plain_out)
  then have "0 < mp_size b" by simp
  note r1 = r(1) this
  show "becomes (itomp i r h) r (sint i) h" by (rule result_val0 [OF itomp_result [OF r1] r(1)])
  show "becomes (uitomp u r h) r (int (unat u)) h" by (rule result_val0 [OF uitomp_result [OF r1] r(1)])
  show "becomes (vtomp w r h) r (sint w) h" by (rule result_val0 [OF vtomp_exact [OF r] r(1)])
  show "becomes (uvtomp w r h) r (int (unat w)) h" by (rule result_val0 [OF uvtomp_result [OF r] r(1)])
qed

end
