(* ===== verification/Spec2Isabelle.thy ===== *)
theory Spec2Isabelle
  imports SrvFlush Tokenize Strtol Ramfs Qsort MpBytes MpConv
begin

text \<open>
  IPNX Edition 12 is a Plan 9 system: a kernel in Rust, and the userland of Plan 9 in C, compiled to
  WebAssembly.  What holds the userland together is the file protocol 9P and the C library.  This development
  models that core in C, below \<^verbatim>\<open>src/userspace/sys\<close>: the 9P codec of \<^verbatim>\<open>libc/9sys\<close>, the file server library
  \<^verbatim>\<open>lib9p\<close>, strings and sorting in \<^verbatim>\<open>libc/port\<close>, and the long integers of \<^verbatim>\<open>libmp\<close>, on which the cryptography stands.

  \<^bold>\<open>Parts and how they interact.\<close>  A file server reads messages from its connection (\<open>read9pmsg\<close>), decodes them
  (\<open>convM2S\<close>), finds the fids and requests they name in two pools, which are hash tables (\<open>intmap.c\<close>), walks and
  changes its tree of files (\<open>file.c\<close>), encodes directory entries (\<open>convD2M\<close>) and replies (\<open>convS2M\<close>), and
  writes them (\<open>respond\<close>).  Strings in messages, and the words, runes and numbers in the text that control files carry, are
  handled by the functions of \<open>libc/port\<close>.

  \<^bold>\<open>Theories.\<close>
  \<^item> \<open>Prelude\<close>: memory blocks, reads and writes with bounds (a read or write outside is \<^const>\<open>None\<close>), C strings in a block.
  \<^item> \<open>Fcall\<close>: the structures \<open>Qid\<close>, \<open>Dir\<close> and \<open>Fcall\<close> and the \<open>GBIT\<close>/\<open>PBIT\<close> macros of \<^verbatim>\<open>fcall.h\<close>.
  \<^item> \<open>ConvS2M\<close>, \<open>ConvM2S\<close>: \<open>sizeS2M\<close>, \<open>convS2M\<close> and \<open>convM2S\<close>, and the message format as a datatype of messages with an
    encoding \<open>encode\<close>; the two functions are shown to write and read exactly that encoding.
  \<^item> \<open>DirCodec\<close>: \<open>sizeD2M\<close>, \<open>convD2M\<close>, \<open>statcheck\<close>, \<open>convM2D\<close>.
  \<^item> \<open>Intmap\<close>: the hash table, the locale \<open>key_map\<close> of what its clients rely on and \<open>counted_map\<close>, which adds the references that
    lookups take and runs of calls, both interpreted on the table.
  \<^item> \<open>FileTree\<close>: \<open>File\<close>s in a store of addresses, with reference counts; every operation of \<open>file.c\<close> and \<open>hasperm\<close>.  The
    invariant \<open>fs_ok ext\<close> says that the tree is well-formed and that each count is what the tree itself and the
    \<open>ext\<close> references of its users explain.
  \<^item> \<open>Pools\<close>: the records \<open>Fid\<close>, \<open>Req\<close>, \<open>Srv\<close>; \<open>fid.c\<close> and the pool part of \<open>req.c\<close>.  The functions a server program installs in
    its \<open>Srv\<close> (\<open>attach\<close>, \<open>open\<close>, \<open>read\<close>, and so on) are the fields of the record \<open>Handlers\<close>, parameters of the model.
  \<^item> \<open>Srv\<close>: every handler of \<open>srv.c\<close> (\<open>sversion\<close> to \<open>swstat\<close>), every reply function (\<open>rversion\<close> to \<open>rwstat\<close>), \<open>getreq\<close>, \<open>respond\<close>,
    \<open>closereq\<close> and the loop \<open>srv\<close>.  A handler ends with the answer it gives to \<open>respond\<close>, or with no answer yet.
  \<^item> \<open>SrvReply\<close>, \<open>SrvProtocol\<close>, \<open>SrvFlush\<close>: what a message does to the whole server, from the bytes that arrive to the
    bytes that are sent: errors for unknown fids and duplicate tags, version, clunk, and the order of replies around flush.
  \<^item> \<open>SrvFiles\<close>: requests about a fid the server knows, from bytes to bytes.  The locale \<open>file_store\<close> has what a server program promises of its
    \<open>read\<close> and \<open>write\<close> functions for a store of file contents, and shows once what clients of any such program are answered.
  \<^item> \<open>Ramfs\<close>: the program \<^verbatim>\<open>lib9p/ramfs.c\<close> on top of the server, an interpretation of \<open>file_store\<close>; \<open>readbuf\<close> of \<open>util.c\<close>.
  \<^item> \<open>Cstring\<close>: \<open>str*.c\<close> and \<open>mem*.c\<close> on one memory in which areas may overlap.
  \<^item> \<open>Utf\<close>: runes, \<open>rune.c\<close> and \<open>utf*.c\<close>, against the definition \<open>utf8\<close> of the encoding.
  \<^item> \<open>Tokenize\<close>: words and quoting, \<open>tokenize.c\<close>, \<open>getfields.c\<close>, \<open>quote.c\<close> and \<open>_quotesetup\<close>, against list functions \<open>toks\<close> and
    \<open>quoted\<close>.
  \<^item> \<open>Strtol\<close>: \<open>strtol.c\<close> and its relatives on 32- and 64-bit words; the locale \<open>counter\<close> has what the digit loop needs of
    a type to find overflow, and is interpreted on \<open>long\<close>, \<open>vlong\<close> and \<open>ulong\<close>.

  \<^item> \<open>Qsort\<close>: \<^verbatim>\<open>qsort.c\<close> on the bytes of an array; the locale \<open>sort_order\<close> has what sorting relies on of a comparison function, and is
    interpreted on \<open>memcmp\<close>.
  \<^item> \<open>MpVec\<close>, \<open>MpInt\<close>, \<open>MpMul\<close>, \<open>MpShift\<close>, \<open>MpDiv\<close>, \<open>MpQuot\<close>: multiple precision integers, \<^verbatim>\<open>libmp/port\<close>: the loops over vectors of 32-bit digits against the numbers
    they are; \<open>mpint\<close>s in a store, their allocation, normal form, comparison, sum and difference; products by Karatsuba's method; shifts;
    Knuth's division, in \<open>MpDiv\<close> on the digits and in \<open>MpQuot\<close> on the store.
  \<^item> \<open>MpEuclid\<close>: Euclid's algorithm, \<^verbatim>\<open>mpeuclid.c\<close>; the locale \<open>integers\<close> has what it needs of a store of numbers and shows a step of it once; it is interpreted
    on \<open>mpsub\<close>, \<open>mpmul\<close> and \<open>mpdiv\<close>.
  \<^item> \<open>MpBytes\<close>, \<open>MpConv\<close>: numbers as bytes, least or most significant first, \<^verbatim>\<open>letomp.c\<close> to \<^verbatim>\<open>mptobe.c\<close>, and as machine integers, \<^verbatim>\<open>mptoi.c\<close> to
    \<^verbatim>\<open>mptouv.c\<close>.

  \<^bold>\<open>Conventions.\<close>  Pointers into a buffer are offsets, \<^const>\<open>None\<close> as the result of an operation is a fault of the program: an
  access outside its memory, a nil pointer, use after \<open>free\<close>, a failed \<open>assert\<close> or \<open>abort\<close>, a call that does not end; and also an operation
  that C leaves undefined, where a program may go on with any value (the shift of a digit by its width, \<open>shift_digit\<close>).  A nil result is \<open>Some None\<close>.  The
  widths are those of the WebAssembly target: \<open>int\<close>, \<open>long\<close> and pointers have 32 bits, \<open>vlong\<close> 64, \<open>char\<close> is signed.  Signed
  arithmetic wraps around, as the code that tests for overflow expects.  Where a count of 32 bits from a message is added to a pointer
  (\<open>ConvM2S\<close>) the address of the buffer is an argument and the sum wraps around; elsewhere offsets are unbounded, which is exact for buffers
  that do not reach into the last 64 kB of the address space.  Sizes of long integers are unbounded, as for numbers of less than \<open>2\<^sup>2\<^sup>6\<close> digits; the numbers of
  bits by which they are shifted are \<open>int\<close>s.  Lengths that callers pass as \<open>long\<close> (\<open>readdirfile\<close>) or \<open>uint\<close> (\<open>mptole\<close>) are taken as not negative.

  \<^bold>\<open>Fuel.\<close>  Loops over memory and lists are total functions.  Partial functions, of which it is shown when they return: the correction of
  a trial digit in \<open>mpdiv\<close>, \<open>div_trial\<close>, and the loop of \<open>mpeuclid\<close>, \<open>euclid_loop\<close>, always; the calls of \<open>mpleft\<close> and \<open>mpright\<close> to each
  other, \<open>mpshift\<close>, unless the shift is the least \<open>int\<close>.  Loops that look for a bit (\<open>high_zeros\<close>, \<open>low_zeros\<close>) have as many rounds as a digit
  has bits.  \<open>respond\<close> and \<open>closereq\<close> call each other along the chain of flushes; their model \<open>calls\<close> has a fuel argument, and the theorems
  that a message is answered hold for every fuel of at least a small number (3 for a message that flushes nothing).  \<open>freefiles\<close>, the
  recursion of \<open>_freefiles\<close> over a tree, has fuel too, and \<^const>\<open>None\<close> both for its end and for a fault; the theorem about it holds for every fuel.

  \<^bold>\<open>What is shown.\<close>  The codec: encoding and decoding are inverse, for messages and directory entries; decoding
  stays inside the buffer on every input, and its result is trustworthy unless a count wraps around.  The tree: every operation keeps the invariant and does what its caller relies on, with
  the exact conditions of failure.  The server: which messages are sent, in which order, and what the state is
  afterwards; a client of \<open>ramfs\<close> reads back what it wrote.  Multiple precision: sums, differences, products, shifts within an \<open>int\<close>, quotients and
  remainders are those of the integers, whatever operands and results share; bytes are read back, machine integers are exact or at a limit.  Strings: functional correctness against list functions, bounds, and the round trips of runes and quoting.  Some
  theorems describe what the code does although it should not: messages that end the server, the flush that
  is never answered, \<open>freetree\<close>, the overflow of \<open>strtoull\<close>, an
  empty write to \<open>ramfs\<close>, signs of quotients and remainders, shifts by too many bits, a write message whose count wraps around.

  \<^bold>\<open>Not modelled.\<close>  Locks and interleavings inside \<open>lib9p\<close> (the library serves one message after another and the
  theorems are about that order); the output of \<open>chatty9p\<close>; failures of \<open>malloc\<close> and of writing to the connection; overflow
  of reference counts.  There is one tree per server.  From \<open>srv.c\<close>, \<open>responderror\<close> and \<open>postfd\<close>.  The rest of \<open>lib9p\<close> makes processes and
  connections (\<open>listen.c\<close>, \<open>post.c\<close>, \<open>rfork.c\<close>, \<open>thread.c\<close>) or talks to \<open>factotum\<close> (\<open>auth.c\<close>).  Formatted printing, floating point,
  the allocator, the other libraries and the commands are not modelled yet; the kernel and the hosts are not C.
\<close>

section \<open>The wire format\<close>

text \<open>C1: A message survives the wire.  Whatever call \<open>f\<close> of the protocol a program
  hands to \<open>convS2M\<close>, with strings the format can carry and a buffer large enough, the bytes
  produced decode with \<open>convM2S\<close>, at any address \<open>ap\<close> where they fit and into any \<open>Fcall\<close>, to a call that
  is the same message with the same tag, and both sides agree on its length.\<close>

theorem wire_round_trip:
  assumes "fcall_ok f" and "msg_of f = Some m" and "wf_msg m"
    and "msg_size m \<le> unat nap" and "unat nap \<le> length b"
    and "length (f_wname g) = MAXWELEM" and "length (f_wqid g) = MAXWELEM" and "unat ap + msg_size m < 2 ^ 32"
  shows "\<exists>n b1 f2 b2. convS2M f b nap = Some (n, b1) \<and> unat n = msg_size m
    \<and> convM2S ap b1 n g = Some (n, f2, b2) \<and> msg_of f2 = Some m \<and> f_tag f2 = f_tag f"
proof -
  let ?n = "of_nat (msg_size m) :: u32"
  have sz: "msg_size m < 2 ^ 32" using assms(3) by (simp add: wf_msg_def)
  then have u: "unat ?n = msg_size m" by (simp add: unat_of_nat)
  have "convS2M f b nap = Some (?n, encode (f_tag f) m @ drop (msg_size m) b)"
    by (rule convS2M_encode [OF assms(1,2) sz assms(4,5)])
  moreover obtain f2 b2 where "convM2S ap (encode (f_tag f) m @ drop (msg_size m) b) ?n g = Some (?n, f2, b2)"
    "msg_of f2 = Some m" "f_tag f2 = f_tag f"
    using convM2S_decode [OF assms(3), of ?n ap g "f_tag f" "drop (msg_size m) b"] u assms(6-8) by auto
  ultimately show ?thesis using u by blast
qed

definition sample_walk :: Fcall where
  "sample_walk = zero_fcall\<lparr>f_type := Twalk, f_tag := 7, f_fid := 1, f_newfid := 2, f_nwname := 2,
     f_wname := [Some (ascii ''usr''), Some (ascii ''glenda'')] @ replicate 14 None\<rparr>"

lemma sample_walk_msg:
  "fcall_ok sample_walk" "msg_of sample_walk = Some (MTwalk 1 2 [ascii ''usr'', ascii ''glenda''])"
  "wf_msg (MTwalk 1 2 [ascii ''usr'', ascii ''glenda''])"
  "msg_size (MTwalk 1 2 [ascii ''usr'', ascii ''glenda'']) = 30"
  by (simp_all add: sample_walk_def zero_fcall_def fcall_ok_def msg_of_def str_of_def wf_msg_def
      wf_str_def msg_size_def ascii_def)

theorem wire_round_trip_witness:
  "\<exists>n b1 f2 b2. convS2M sample_walk (replicate 64 0) 64 = Some (n, b1) \<and> unat n = 30
    \<and> convM2S 0x8000 b1 n zero_fcall = Some (n, f2, b2)
    \<and> msg_of f2 = Some (MTwalk 1 2 [ascii ''usr'', ascii ''glenda'']) \<and> f_tag f2 = 7"
  using wire_round_trip [OF sample_walk_msg(1-3), of 64 "replicate 64 0" zero_fcall "0x8000"]
  by (simp add: sample_walk_msg(4)) (simp add: sample_walk_def zero_fcall_def)

text \<open>C2: \<open>convS2M\<close> implements the protocol's encoding.  It writes exactly the bytes
  of the specification \<open>encode\<close> at the start of the buffer, leaves every byte after them as it
  was, and returns their number; \<open>sizeS2M\<close> announces that number beforehand.\<close>

theorem convS2M_writes_encoding:
  assumes "fcall_ok f" and "msg_of f = Some m" and "msg_size m < 2 ^ 32"
    and "msg_size m \<le> unat nap" and "unat nap \<le> length b"
  shows "convS2M f b nap = Some (of_nat (msg_size m), encode (f_tag f) m @ drop (msg_size m) b)
    \<and> sizeS2M f = Some (of_nat (msg_size m)) \<and> length (encode (f_tag f) m) = msg_size m"
  using convS2M_encode [OF assms] sizeS2M_eq [OF assms(1,2)] length_encode by simp

theorem convS2M_writes_encoding_witness:
  "convS2M sample_walk (replicate 64 9) 64
    = Some (30, encode 7 (MTwalk 1 2 [ascii ''usr'', ascii ''glenda'']) @ replicate 34 9)
    \<and> sizeS2M sample_walk = Some 30"
  using convS2M_writes_encoding [OF sample_walk_msg(1,2), of 64 "replicate 64 9"]
  by (simp add: sample_walk_msg(4)) (simp add: sample_walk_def zero_fcall_def)



text \<open>A type the protocol does not have is refused: \<open>sizeS2M\<close> and \<open>convS2M\<close> return
  0 and leave the buffer alone.\<close>

theorem unknown_message_refused:
  assumes "msg_of f = None"
  shows "sizeS2M f = Some 0 \<and> convS2M f b nap = Some (0, b)"
  using sizeS2M_unknown [OF assms] by (simp add: convS2M_def)

theorem unknown_message_refused_witness:
  "sizeS2M (zero_fcall\<lparr>f_type := 106\<rparr>) = Some 0
    \<and> convS2M (zero_fcall\<lparr>f_type := 106\<rparr>) [1, 2, 3] 3 = Some (0, [1, 2, 3])"
  using unknown_message_refused [of "zero_fcall\<lparr>f_type := 106\<rparr>" "[1, 2, 3]" 3]
  by (simp add: msg_of_def)

text \<open>C30: A directory entry survives its encoding.  \<open>convD2M\<close> writes the entry in exactly
  \<open>sizeD2M\<close> bytes, \<open>statcheck\<close> accepts them, and \<open>convM2D\<close>, told to put the strings over the
  very bytes it is reading (as the server does for a wstat), gives the entry back, a nil string
  as an empty one.\<close>

theorem dir_round_trip:
  assumes "wf_dir d" and "dir_size d \<le> unat nbuf" and "unat nbuf \<le> length b"
  shows "\<exists>n b1 b2. convD2M d b nbuf = Some (n, b1) \<and> n = sizeD2M d \<and> unat n = dir_size d
    \<and> statcheck b1 n = Some 0 \<and> convM2D b1 0 n d0 (Some 0) = Some (n, norm_dir d, b2)"
proof -
  let ?n = "of_nat (dir_size d) :: u32"
  have sz: "dir_size d < 2 ^ 32" using assms(1) by (simp add: wf_dir_def)
  then have u: "unat ?n = dir_size d" by (simp add: unat_of_nat)
  have c: "convD2M d b nbuf = Some (?n, edir d @ drop (dir_size d) b)"
    by (rule convD2M_edir [OF sz assms(2,3)])
  have "statcheck (edir d @ drop (dir_size d) b) ?n = Some 0"
    by (rule statcheck_edir [OF assms(1)])
  moreover obtain b2 where "convM2D (edir d @ drop (dir_size d) b) 0 ?n d0 (Some 0) = Some (?n, norm_dir d, b2)"
    using convM2D_edir [OF assms(1), of ?n 0 "[]" "[]" "drop (dir_size d) b" d0] u by auto
  ultimately show ?thesis
    using c u sizeD2M_eq [of d] by auto
qed

definition sample_dir :: Dir where
  "sample_dir = zero_dir\<lparr>d_name := Some (ascii ''lib''), d_uid := Some (ascii ''sys''),
     d_mode := 0x800001ED, d_length := 4096\<rparr>"

lemma sample_dir_wf: "wf_dir sample_dir" "dir_size sample_dir = 55"
  by (simp_all add: sample_dir_def zero_dir_def wf_dir_def dir_strs_def dir_svs_def str_of_def
      wf_str_def dir_size_def ascii_def)

theorem dir_round_trip_witness:
  "\<exists>n b1 b2. convD2M sample_dir (replicate 64 0) 64 = Some (n, b1) \<and> n = sizeD2M sample_dir
    \<and> unat n = 55 \<and> statcheck b1 n = Some 0
    \<and> convM2D b1 0 n zero_dir (Some 0) = Some (n, norm_dir sample_dir, b2)"
  using dir_round_trip [OF sample_dir_wf(1), of 64 "replicate 64 0" zero_dir]
  by (simp add: sample_dir_wf(2))

text \<open>A buffer too small for the entry, but with room for two bytes, gets the
  size a second call needs and nothing else; the return value, 2, tells the caller.\<close>

theorem convD2M_announces_size:
  assumes "wf_dir d" and "2 \<le> unat nbuf" and "unat nbuf < dir_size d" and "unat nbuf \<le> length b"
  shows "\<exists>b1. convD2M d b nbuf = Some (2, b1) \<and> drop 2 b1 = drop 2 b
    \<and> (\<exists>w. GBIT16 b1 0 = Some w \<and> unat w + 2 = dir_size d)"
proof -
  have sz: "dir_size d < 65538" using assms(1) by (simp add: wf_dir_def)
  then have "convD2M d b nbuf = Some (2, le16 (of_nat (dir_size d - 2)) @ drop 2 b)"
    using convD2M_short [of d nbuf b] assms by simp
  moreover have "unat (of_nat (dir_size d - 2) :: u16) + 2 = dir_size d"
    using sz dir_size_ge [of d] by (subst unat_of_nat) simp
  moreover have "GBIT16 (le16 (of_nat (dir_size d - 2)) @ drop 2 b) 0 = Some (of_nat (dir_size d - 2))"
    by (simp add: GBIT_here)
  moreover have "drop 2 (le16 (of_nat (dir_size d - 2)) @ drop 2 b) = drop 2 b" by simp
  ultimately show ?thesis by blast
qed

theorem convD2M_announces_size_witness:
  "\<exists>b1. convD2M sample_dir [0, 0] 2 = Some (2, b1) \<and> drop 2 b1 = []
    \<and> (\<exists>w. GBIT16 b1 0 = Some w \<and> unat w + 2 = 55)"
  using convD2M_announces_size [OF sample_dir_wf(1), of 2 "[0, 0]"] by (simp add: sample_dir_wf(2))

text \<open>C39: Bytes that \<open>statcheck\<close> accepts are decoded completely by \<open>convM2D\<close>, which reports no error and never leaves the buffer.  They
  are the size, the fields of the entry that results, and four strings.  With a string area \<open>a\<close>, which may be the buffer itself (as in \<open>swstat\<close>), lie before
  the strings, or lie behind the buffer, the strings are written there, each with a NUL behind it, and nothing else is; the entry has them up to a NUL inside
  them.  Without an area its strings are empty.\<close>

theorem statcheck_is_enough:
  assumes "statcheck (drop buf mem) nbuf = Some 0" and "buf + unat nbuf \<le> length mem"
    and "a \<le> buf + 41 \<or> buf + unat nbuf \<le> a \<and> a + (unat nbuf - 45) \<le> length mem"
  shows "(\<exists>d' ss. convM2D mem buf nbuf d (Some a) = Some (nbuf, d', take a mem @ concat (map zstr ss) @ drop (a + (unat nbuf - 45)) mem)
      \<and> take (unat nbuf) (drop buf mem) = stat_fixed (of_nat (unat nbuf - 2)) d' @ concat (map estr ss) \<and> length ss = 4
      \<and> [d_name d', d_uid d', d_gid d', d_muid d'] = map (\<lambda>s. Some (upto_nul s)) ss)
    \<and> (\<exists>d' ss. convM2D mem buf nbuf d None = Some (nbuf, d', mem)
      \<and> take (unat nbuf) (drop buf mem) = stat_fixed (of_nat (unat nbuf - 2)) d' @ concat (map estr ss) \<and> length ss = 4
      \<and> [d_name d', d_uid d', d_gid d', d_muid d'] = replicate 4 (Some []))"
  using statcheck_convM2D(1) [OF assms(1,2), of d] statcheck_convM2D(2) [OF assms, of d] unfolding dir_svs_def by blast

theorem statcheck_is_enough_witness:
  "\<exists>d' mem'. convM2D (edir sample_dir) 0 55 zero_dir (Some 0) = Some (55, d', mem')"
  using statcheck_is_enough [of 0 "edir sample_dir" 55 0 zero_dir] statcheck_edir [OF sample_dir_wf(1), of "[]"]
  by (auto simp: sample_dir_wf(2))

section \<open>The identifier map\<close>

text \<open>C31: The hash table is a finite map.  Any sequence of \<open>lookupkey\<close>, \<open>insertkey\<close>, \<open>caninsertkey\<close> and \<open>deletekey\<close>
  calls on a new table is answered as a finite map answers it, with \<open>inc\<close> called on exactly the values that lookups return; \<open>freemap\<close> of the
  table at the end calls \<open>destroy\<close> once for each key, on its value.\<close>

theorem intmap_is_a_map:
  fixes cs :: "'v map_call list" and i :: "('v \<Rightarrow> 'h \<Rightarrow> 'h) option"
  shows "\<exists>as m h'. table_run cs (allocmap i) h = (as, m, h')
    \<and> map_run (case i of None \<Rightarrow> (\<lambda>v h. h) | Some i \<Rightarrow> i) cs Map.empty h = (as, intmap_abs m, h')
    \<and> (\<exists>es. distinct (map fst es) \<and> map_of es = intmap_abs m \<and> freemap m (Some destroy) g = fold (\<lambda>(k, v). destroy v) es g)"
proof -
  have n: "inc (allocmap i :: ('v, 'h) Intmap) = (case i of None \<Rightarrow> (\<lambda>v h. h) | Some i \<Rightarrow> i)"
    by (auto simp: allocmap_def nop_def fun_eq_iff split: option.split)
  obtain as m h' where r: "table_run cs (allocmap i) h = (as, m, h')" "map_run (inc (allocmap i)) cs (intmap_abs (allocmap i)) h = (as, intmap_abs m, h')" "intmap_ok m"
    using im.run_simulates [OF allocmap_refines(1), of cs i h] by blast
  have "freemap m (Some destroy) g = fold (\<lambda>(k, v). destroy v) (concat (hash m)) g"
    unfolding freemap_concat by (intro fold_cong) auto
  then show ?thesis using r(1,2) nodes_are_the_map [OF r(3)] unfolding n allocmap_refines(2) by blast
qed

section \<open>The file tree\<close>

text \<open>\<open>alloctree\<close> makes a well-formed tree of one directory, its own parent, with no
  reference but the tree's own.\<close>

theorem tree_starts_well:
  "\<exists>s t. alloctree uid gid mode user now = Some s \<and> fs_ok (\<lambda>_. 0) s
    \<and> tree_of s = [fs_root s \<mapsto> t] \<and> tn_parent t = Some (fs_root s) \<and> tn_kids t = []
    \<and> q_type (d_qid (tn_dir t)) = QTDIR"
  using alloctree_ok [of uid gid mode user now] by metis

text \<open>C5: Creating a file.  In a well-formed tree \<open>createfile\<close> fails, changing nothing but
  the error string, exactly when the parent is not a directory or has an entry of that name;
  otherwise it returns a file that was not in use, placed after the other entries of its parent,
  with the attributes asked for, and the tree stays well-formed with one more reference, the
  caller's, to the new file.\<close>

theorem createfile_correct:
  assumes ok: "fs_ok ext s" and p: "tree_of s fp = Some p"
  shows "if q_type (d_qid (tn_dir p)) AND QTDIR = 0 \<or> lookup_name (tree_of s) fp name \<noteq> None
    then \<exists>m. createfile fp name uid perm aux s = Some (None, s\<lparr>fs_errstr := m\<rparr>)
    else \<exists>a s' t. createfile fp name uid perm aux s = Some (Some a, s') \<and> tree_of s a = None
      \<and> fs_ok (ext_add ext a 1) s'
      \<and> tree_of s' = (tree_of s)(a \<mapsto> t, fp \<mapsto> p\<lparr>tn_kids := tn_kids p @ [a]\<rparr>)
      \<and> tn_parent t = Some fp \<and> tn_kids t = []
      \<and> new_dir (tn_dir p) name uid perm (fs_qidgen s) (fs_now s) (tn_dir t)"
  using createfile_fails [OF ok p, of name uid perm aux]
    createfile_succeeds [OF ok p, of name uid perm aux] by auto

text \<open>A tree with one file, to try the operations on.\<close>

lemma sample_tree:
  "\<exists>s a s' t t'. alloctree None None 0x1ED None 0 = Some s
    \<and> createfile (fs_root s) (ascii ''tmp'') None 0x1B6 0 s = Some (Some a, s')
    \<and> fs_ok (ext_add (\<lambda>_. 0) a 1) s' \<and> a \<noteq> fs_root s \<and> fs_root s' = fs_root s
    \<and> tn_parent t' = Some (fs_root s) \<and> tn_kids t' = []
    \<and> tree_of s' = [a \<mapsto> t', fs_root s \<mapsto> t\<lparr>tn_kids := [a]\<rparr>]"
proof -
  obtain s t where s: "alloctree None None 0x1ED None 0 = Some s" "fs_ok (\<lambda>_. 0) s"
    "tree_of s = [fs_root s \<mapsto> t]" "tn_kids t = []" "q_type (d_qid (tn_dir t)) = QTDIR"
    using alloctree_ok [of None None "0x1ED" None 0] by blast
  then have "lookup_name (tree_of s) (fs_root s) (ascii ''tmp'') = None"
    by (simp add: lookup_name_def)
  then obtain a s' t' where c:
    "createfile (fs_root s) (ascii ''tmp'') None 0x1B6 0 s = Some (Some a, s')" "tree_of s a = None"
    "fs_ok (ext_add (\<lambda>_. 0) a 1) s'" "tn_parent t' = Some (fs_root s)" "tn_kids t' = []"
    "fs_root s' = fs_root s"
    "tree_of s' = (tree_of s)(a \<mapsto> t', fs_root s \<mapsto> t\<lparr>tn_kids := [a]\<rparr>)"
    using createfile_succeeds [OF s(2), of "fs_root s" t "ascii ''tmp''" None "0x1B6" 0] s by auto
  moreover have "a \<noteq> fs_root s" using s c(2) by auto
  ultimately show ?thesis
    using s by (intro exI [of _ s] exI [of _ a] exI [of _ s'] exI [of _ t] exI [of _ t'])
      (auto simp: fun_eq_iff)
qed

theorem createfile_correct_witness:
  "\<exists>s a s' t p. alloctree None None 0x1ED (Some (ascii ''glenda'')) 0 = Some s
    \<and> createfile (fs_root s) (ascii ''tmp'') None 0x1B6 0 s = Some (Some a, s')
    \<and> fs_ok (ext_add (\<lambda>_. 0) a 1) s' \<and> tree_of s' a = Some t \<and> tn_parent t = Some (fs_root s)
    \<and> tree_of s' (fs_root s) = Some p \<and> tn_kids p = [a] \<and> d_name (tn_dir t) = Some (ascii ''tmp'')"
proof -
  obtain s t where s: "alloctree None None 0x1ED (Some (ascii ''glenda'')) 0 = Some s" "fs_ok (\<lambda>_. 0) s"
    "tree_of s = [fs_root s \<mapsto> t]" "tn_kids t = []" "q_type (d_qid (tn_dir t)) = QTDIR"
    using alloctree_ok [of None None "0x1ED" "Some (ascii ''glenda'')" 0] by blast
  then have "lookup_name (tree_of s) (fs_root s) (ascii ''tmp'') = None"
    by (simp add: lookup_name_def)
  then obtain a s' t' where
    "createfile (fs_root s) (ascii ''tmp'') None 0x1B6 0 s = Some (Some a, s')" "tree_of s a = None"
    "fs_ok (ext_add (\<lambda>_. 0) a 1) s'"
    "tree_of s' = (tree_of s)(a \<mapsto> t', fs_root s \<mapsto> t\<lparr>tn_kids := tn_kids t @ [a]\<rparr>)"
    "tn_parent t' = Some (fs_root s)" "d_name (tn_dir t') = Some (ascii ''tmp'')"
    using createfile_correct [OF s(2), of "fs_root s" t "ascii ''tmp''" None "0x1B6" 0] s
    by (auto simp: new_dir_def)
  moreover from this have "a \<noteq> fs_root s" using s by auto
  ultimately show ?thesis
    using s by auto
qed

text \<open>C4: Removing a file.  A caller that holds a reference gives it up on every path, and no
  path touches freed memory or fails an assertion.  It is refused, leaving the tree as it was
  but for that reference, exactly for a file already removed, the root, and a directory with
  entries; otherwise the entry leaves its parent, and the file is freed when nobody else holds
  it.\<close>

theorem removefile_correct:
  assumes ok: "fs_ok ext s" and e: "1 \<le> ext a" and t: "tree_of s a = Some t"
  shows "\<exists>rc s'. removefile a s = Some (rc, s') \<and> fs_ok (ext_add ext a (- 1)) s'
    \<and> (case tn_parent t of
         Some fp \<Rightarrow> if fp \<noteq> a \<and> tn_kids t = []
           then rc = 0 \<and> (\<exists>p. tree_of s fp = Some p \<and> a \<in> set (tn_kids p)
             \<and> tree_of s' = close_tree (ext a) a (close_tree (ext fp + 1) fp
               ((tree_of s)(a \<mapsto> t\<lparr>tn_parent := None\<rparr>, fp \<mapsto> p\<lparr>tn_kids := remove1 a (tn_kids p)\<rparr>))))
           else rc = - 1 \<and> tree_of s' = close_tree (ext a) a (tree_of s)
       | None \<Rightarrow> rc = - 1 \<and> tree_of s' = close_tree (ext a) a (tree_of s))"
  using removefile_fails [OF ok e t] removefile_succeeds [OF ok e t] by (cases "tn_parent t") auto

theorem removefile_correct_witness:
  "\<exists>s a s' s'' p. alloctree None None 0x1ED None 0 = Some s
    \<and> createfile (fs_root s) (ascii ''tmp'') None 0x1B6 0 s = Some (Some a, s')
    \<and> removefile a s' = Some (0, s'') \<and> fs_ok (\<lambda>_. 0) s'' \<and> tree_of s'' a = None
    \<and> tree_of s'' (fs_root s) = Some p \<and> tn_kids p = []"
proof -
  obtain s a s' t t' where c: "alloctree None None 0x1ED None 0 = Some s"
    "createfile (fs_root s) (ascii ''tmp'') None 0x1B6 0 s = Some (Some a, s')"
    "fs_ok (ext_add (\<lambda>_. 0) a 1) s'" "a \<noteq> fs_root s" "fs_root s' = fs_root s" "tn_parent t' = Some (fs_root s)"
    "tn_kids t' = []" "tree_of s' = [a \<mapsto> t', fs_root s \<mapsto> t\<lparr>tn_kids := [a]\<rparr>]"
    using sample_tree by metis
  obtain rc s'' where "removefile a s' = Some (rc, s'')" "rc = 0" "fs_ok (\<lambda>_. 0) s''"
    "tree_of s'' = close_tree 1 a (close_tree (ext_add (\<lambda>_. 0) a 1 (fs_root s) + 1) (fs_root s)
       ((tree_of s')(a \<mapsto> t'\<lparr>tn_parent := None\<rparr>, fs_root s \<mapsto> t\<lparr>tn_kids := []\<rparr>)))"
    using removefile_correct [OF c(3), of a t'] c by (auto simp: ext_add_ext_add)
  then show ?thesis
    using c tree_ok_root [OF fs_okD(2) [OF c(3)]] by (auto simp: close_tree_def lone_def)
qed

text \<open>C6: Walking a path.  \<open>walkfile\<close> follows the elements the path is cut into and ends at
  the file the tree has there, or nowhere; the caller's reference to the starting point is
  traded for one to the result, and given up when there is none.  (An element \<open>..\<close> is treated
  by C38.)\<close>

theorem walkfile_correct:
  assumes "fs_ok ext s" and "1 \<le> ext a"
    and "elems = (if slash \<in> set path then path_elems path else [path])" and "dotdot \<notin> set elems"
  shows "\<exists>s'. walkfile a path s = Some (walks (tree_of s) a elems, s')
    \<and> fs_ok (case walks (tree_of s) a elems of None \<Rightarrow> ext_add ext a (- 1)
        | Some c \<Rightarrow> ext_add (ext_add ext c 1) a (- 1)) s'"
  by (rule walkfile_walks [OF assms])

theorem walkfile_correct_witness:
  "\<exists>s a s' s''. alloctree None None 0x1ED None 0 = Some s
    \<and> createfile (fs_root s) (ascii ''tmp'') None 0x1B6 0 s = Some (Some a, s')
    \<and> walkfile a (ascii ''x/y'') s' = Some (None, s'') \<and> fs_ok (\<lambda>_. 0) s''"
proof -
  obtain s a s' t t' where c: "alloctree None None 0x1ED None 0 = Some s"
    "createfile (fs_root s) (ascii ''tmp'') None 0x1B6 0 s = Some (Some a, s')"
    "fs_ok (ext_add (\<lambda>_. 0) a 1) s'" "a \<noteq> fs_root s" "tn_kids t' = []"
    "tree_of s' = [a \<mapsto> t', fs_root s \<mapsto> t\<lparr>tn_kids := [a]\<rparr>]"
    using sample_tree by metis
  have pe: "path_elems (ascii ''x/y'') = [ascii ''x'', ascii ''y'']"
    by (simp add: path_elems.simps ascii_def)
  have "walks (tree_of s') a [ascii ''x'', ascii ''y''] = None"
    using c by (simp add: walk1_def lookup_name_def dotdot_def ascii_def)
  then show ?thesis
    using walkfile_correct [OF c(3), of a "[ascii ''x'', ascii ''y'']" "ascii ''x/y''"] c pe
    by (auto simp: dotdot_def ascii_def ext_add_ext_add)
qed

text \<open>C38: Walking up.  The element \<open>..\<close> leads to the parent, the root being its own, unless the
  directory has been removed: then \<open>walkfile1\<close> dereferences a nil parent.\<close>

theorem walk_up:
  assumes "fs_ok ext s" and "1 \<le> ext a" and "tree_of s a = Some t"
  shows "case tn_parent t of
      None \<Rightarrow> walkfile1 a (ascii ''..'') s = None
    | Some p \<Rightarrow> \<exists>s'. walkfile1 a (ascii ''..'') s = Some (Some p, s')
        \<and> fs_ok (ext_add (ext_add ext p 1) a (- 1)) s'"
proof (cases "tn_parent t")
  case None
  then show ?thesis using walkfile1_dotdot_removed [OF assms(3)] by (simp add: dotdot_def)
next
  case (Some p)
  then have "walk1 (tree_of s) a dotdot = Some p" using assms(3) by (simp add: walk1_def)
  then show ?thesis
    using walkfile1_walks [OF assms(1,2), of dotdot] Some by (auto simp: dotdot_def)
qed

theorem walk_up_witness:
  "\<exists>s a s' s''. alloctree None None 0x1ED None 0 = Some s
    \<and> createfile (fs_root s) (ascii ''tmp'') None 0x1B6 0 s = Some (Some a, s')
    \<and> walkfile1 a (ascii ''..'') s' = Some (Some (fs_root s), s'')
    \<and> fs_ok (ext_add (ext_add (ext_add (\<lambda>_. 0) a 1) (fs_root s) 1) a (- 1)) s''"
proof -
  obtain s a s' t t' where c: "alloctree None None 0x1ED None 0 = Some s"
    "createfile (fs_root s) (ascii ''tmp'') None 0x1B6 0 s = Some (Some a, s')"
    "fs_ok (ext_add (\<lambda>_. 0) a 1) s'" "a \<noteq> fs_root s" "tn_parent t' = Some (fs_root s)"
    "tree_of s' = [a \<mapsto> t', fs_root s \<mapsto> t\<lparr>tn_kids := [a]\<rparr>]"
    using sample_tree by metis
  then have "tree_of s' a = Some t'" by simp
  then show ?thesis
    using walk_up [OF c(3), of a t'] c by auto
qed

text \<open>C40: \<open>freetree\<close> cannot be used: on every well-formed tree it fails the assertion
  that a file being freed has no references left (the root still has the tree's), or walks
  directory entries it has already freed.\<close>

theorem freetree_always_faults:
  assumes "fs_ok ext s"
  shows "freetree fuel s = None"
  by (rule freetree_faults [OF assms])

theorem freetree_always_faults_witness:
  "\<exists>s. alloctree None None 0x1ED None 0 = Some s \<and> freetree 100 s = None"
  using alloctree_ok [of None None "0x1ED" None 0] freetree_always_faults [of "\<lambda>_. 0" _ 100] by blast

text \<open>C32: Reading a directory.  \<open>readdirfile\<close> returns the encodings of the entries from the
  reader's position on, whole and in order, skipping the removed ones; it leaves the position at
  the first entry not returned, so that the next call continues there; and it stops only at the
  end, or when that entry does not fit in what is left of the buffer.\<close>

theorem readdirfile_whole_entries:
  assumes "fs_files s (rd_dir r) = Some f" and "rd_fl r = Some node"
    and "dropWhile (\<lambda>e. fst e \<noteq> node) (fl_list f) = l" and "l \<noteq> []" and "live_list s l"
    and "n \<le> length buf" and "n < 2 ^ 32"
  shows "\<exists>l1 l2 buf'. l = l1 @ l2
    \<and> readdirfile r buf n s = Some (length (concat (map edir (entries s l1))),
        r\<lparr>rd_fl := (case l2 of [] \<Rightarrow> None | e # _ \<Rightarrow> Some (fst e))\<rparr>, buf')
    \<and> take (length (concat (map edir (entries s l1)))) buf' = concat (map edir (entries s l1))
    \<and> stops s l2 (n - length (concat (map edir (entries s l1))))"
  by (rule readdirfile_entries [OF assms])

theorem readdirfile_whole_entries_witness:
  "\<exists>f s buf'. f = zero_file\<lparr>fl_dir := sample_dir, fl_list := [(3, Some 1), (4, None)]\<rparr>
    \<and> fs_files s = [0 \<mapsto> f, 1 \<mapsto> zero_file\<lparr>fl_dir := sample_dir\<rparr>]
    \<and> readdirfile \<lparr>rd_dir = 0, rd_fl = Some 3\<rparr> (replicate 100 0) 100 s
      = Some (55, \<lparr>rd_dir = 0, rd_fl = None\<rparr>, buf') \<and> take 55 buf' = edir sample_dir"
proof -
  let ?f = "zero_file\<lparr>fl_dir := sample_dir, fl_list := [(3, Some 1), (4, None)]\<rparr>"
  obtain s :: fs where s: "fs_files s = [0 \<mapsto> ?f, 1 \<mapsto> zero_file\<lparr>fl_dir := sample_dir\<rparr>]"
    by (metis fs.select_convs(1))
  let ?l = "[(3, Some 1), (4 :: nat, None)]"
  have en: "entries s [] = []" "entries s [(3, Some 1)] = [sample_dir]" "entries s ?l = [sample_dir]"
    "live_list s ?l"
    using s by (simp_all add: entries_def live_list_def sample_dir_wf(2))
  obtain l1 l2 buf' where r: "?l = l1 @ l2"
    "readdirfile \<lparr>rd_dir = 0, rd_fl = Some 3\<rparr> (replicate 100 0) 100 s
      = Some (length (concat (map edir (entries s l1))),
          \<lparr>rd_dir = 0, rd_fl = (case l2 of [] \<Rightarrow> None | e # _ \<Rightarrow> Some (fst e))\<rparr>, buf')"
    "take (length (concat (map edir (entries s l1)))) buf' = concat (map edir (entries s l1))"
    "stops s l2 (100 - length (concat (map edir (entries s l1))))"
    using readdirfile_whole_entries [of s "\<lparr>rd_dir = 0, rd_fl = Some 3\<rparr>" ?f 3 ?l 100 "replicate 100 0"] s en
    by (auto simp: zero_file_def)
  have "l1 = ?l \<and> l2 = []"
    using r(1,4) en s by (auto simp: Cons_eq_append_conv stops_def sample_dir_wf(2))
  then show ?thesis
    using r s en by (auto simp: sample_dir_wf(2))
qed

text \<open>The permission check grants what the mode gives to others, together with what it
  gives to the owner when the user owns the file, and to the group when the user is its
  leader.\<close>

theorem hasperm_correct:
  assumes "d_uid (fl_dir f) = Some u" and "d_gid (fl_dir f) = Some g"
  shows "hasperm f uid p = Some
    (let m = d_mode (fl_dir f) AND 7; o' = drop_bit 6 (d_mode (fl_dir f)) AND 7;
         g' = drop_bit 3 (d_mode (fl_dir f)) AND 7
     in p AND m = p \<or> (u = uid \<and> p AND (m OR o') = p)
        \<or> (g = uid \<and> p AND ((if u = uid then m OR o' else m) OR g') = p))"
  by (rule hasperm_iff [OF assms])

theorem hasperm_correct_witness:
  "hasperm (zero_file\<lparr>fl_dir := sample_dir\<lparr>d_gid := Some (ascii ''sys'')\<rparr>\<rparr>) (ascii ''sys'') 2 = Some True"
  by (subst hasperm_correct [of _ "ascii ''sys''" "ascii ''sys''"])
     (simp_all add: sample_dir_def zero_file_def zero_dir_def Let_def)

section \<open>The server\<close>

text \<open>A server that has just started, on an empty tree; one with a fid; one with a pending request.
  None of the program's functions is installed.\<close>

definition sample_handlers :: "unit Handlers" where
  "sample_handlers = \<lparr>h_attach = None, h_auth = None, h_open = None, h_create = None, h_read = None, h_write = None,
     h_remove = None, h_flush = None, h_stat = None, h_wstat = None, h_walk = None, h_clone = None, h_walk1 = None,
     h_destroyfid = None, h_destroyreq = None, h_end = None, h_snprint = \<lambda>_ _. [], h_argv0 = []\<rparr>"

definition sample_fs :: fs where
  "sample_fs = the (alloctree None None 0x1ED None 0)"

definition sample_srv :: "unit Srv" where
  "sample_srv = srv_start \<lparr>sv_tree = True, sv_fs = sample_fs, sv_fids = Map.empty, sv_reqs = Map.empty, sv_next = 0,
     sv_fpool = allocfidpool, sv_rpool = allocreqpool, sv_msize = 0, sv_rbuf = None, sv_wbuf = None,
     sv_out = [], sv_aux = ()\<rparr>"

definition sample_fid :: "unit Srv" where
  "sample_fid = sample_srv\<lparr>sv_fids := [0 \<mapsto> zero_fid\<lparr>fd_fid := 9, fd_omode := - 1, fd_ref := 1\<rparr>],
     sv_next := 1, sv_fpool := snd (caninsertkey allocfidpool 9 0)\<rparr>"

definition sample_req :: Req where
  "sample_req = zero_req\<lparr>rq_tag := 5, rq_ref := 2, rq_pool := True,
     rq_ifcall := zero_fcall\<lparr>f_type := Tclunk, f_tag := 5, f_fid := 9\<rparr>\<rparr>"

definition sample_pending :: "unit Srv" where
  "sample_pending = sample_srv\<lparr>sv_reqs := [0 \<mapsto> sample_req], sv_next := 1,
     sv_rpool := snd (caninsertkey allocreqpool 5 0)\<rparr>"

lemma sample_fs_ok: "fs_ok (\<lambda>_. 0) sample_fs"
  using alloctree_ok [of None None "0x1ED" None 0] by (auto simp: sample_fs_def)

lemma sample_srv_fields:
  "sv_fids sample_srv = Map.empty" "sv_reqs sample_srv = Map.empty" "sv_next sample_srv = 0"
  "sv_fpool sample_srv = allocfidpool" "sv_rpool sample_srv = allocreqpool" "sv_fs sample_srv = sample_fs"
  "sv_msize sample_srv = 16408" "sv_out sample_srv = []" "buf_ok sample_srv"
  by (simp_all add: sample_srv_def srv_start_def changemsize_def buf_ok_def)

lemma buf_ok_upd [simp]:
  "buf_ok (s\<lparr>sv_fids := a, sv_next := n, sv_fpool := b\<rparr>) = buf_ok s"
  "buf_ok (s\<lparr>sv_reqs := c, sv_next := n, sv_rpool := d\<rparr>) = buf_ok s"
  by (simp_all add: buf_ok_def)

lemma sample_ready:
  "srv_ready sample_srv" "srv_ready sample_fid" "srv_ready sample_pending"
  "tag_free tag sample_srv" "tag_free tag sample_fid"
  by (simp_all add: srv_ready_def tag_free_def sample_fid_def sample_pending_def sample_srv_fields pool_refines
      caninsertkey_refines)

lemma sample_tags:
  "tag_free 6 sample_pending" "\<not> tag_free 5 sample_pending" "sv_msize sample_pending = 16408"
  "intmap_abs (sv_rpool sample_pending) 5 = Some 0" "sv_reqs sample_pending 0 = Some sample_req"
  "sv_next sample_pending = 1" "sv_out sample_pending = []"
  by (simp_all add: tag_free_def sample_pending_def sample_srv_fields pool_refines caninsertkey_refines)

lemma sample_tags7: "intmap_abs (sv_rpool sample_pending) 7 = None"
  by (simp add: sample_pending_def sample_srv_fields pool_refines caninsertkey_refines)

text \<open>C7: A request about a fid the server does not know is answered, whatever the request, by
  exactly one message: the error \<open>unknown fid\<close> with the request's tag.  Fids, files and message
  size stay as they were, the tag is free again, no request is left over, and the server goes on with
  the rest of its input.\<close>

theorem unknown_fid_reply:
  assumes "srv_ready s" and "tag_free tag s" and "wf_msg m" and "msg_size m \<le> unat (sv_msize s)"
    and "msg_fid m = Some fid" and "intmap_abs (sv_fpool s) fid = None" and "h_destroyreq h = None" and "3 \<le> fuel"
  shows "\<exists>s'. srv_loop fuel h (encode tag m @ rest) s = srv_loop fuel h rest s'
    \<and> replied s [encode tag (MRerror Eunknownfid)] s'
    \<and> sv_fids s' = sv_fids s \<and> sv_fpool s' = sv_fpool s \<and> sv_fs s' = sv_fs s \<and> sv_msize s' = sv_msize s"
  by (rule unknown_fid_answered [OF assms])

theorem unknown_fid_reply_witness:
  "\<exists>s'. srv_loop 3 sample_handlers (encode 1 (MTstat 4) @ []) sample_srv = srv_loop 3 sample_handlers [] s'
    \<and> sv_out s' = [encode 1 (MRerror (ascii ''unknown fid''))]"
  using unknown_fid_reply [OF sample_ready(1,4), of "MTstat 4" 4 sample_handlers 3 1 "[]"]
  by (auto simp: wf_msg_def msg_size_def sample_srv_fields pool_refines sample_handlers_def replied_def Eunknownfid_def)

text \<open>C8: Clunking the last reference to a fid answers \<open>Rclunk\<close>, forgets the fid, closes its file and
  directory reader once, so that the tree's reference counts stay consistent without this fid,
  and leaves the server ready for the rest of its input.\<close>

theorem clunk_reply:
  assumes "srv_ready s" and "tag_free tag s"
    and "intmap_abs (sv_fpool s) fid = Some a" and "sv_fids s a = Some f" and "fd_ref f = 1"
    and "fid_files_ok ext f (sv_fs s)" and "h_destroyreq h = None" and "h_destroyfid h = None" and "3 \<le> fuel"
  shows "\<exists>s'. srv_loop fuel h (encode tag (MTclunk fid) @ rest) s = srv_loop fuel h rest s'
    \<and> replied s [encode tag MRclunk] s' \<and> sv_fids s' = (sv_fids s)(a := None)
    \<and> intmap_abs (sv_fpool s') = (intmap_abs (sv_fpool s))(fid := None)
    \<and> fs_ok (ext_closed ext f) (sv_fs s')"
  by (rule clunk_answered [OF assms])

theorem clunk_reply_witness:
  "\<exists>s'. srv_loop 3 sample_handlers (encode 1 (MTclunk 9) @ []) sample_fid = srv_loop 3 sample_handlers [] s'
    \<and> sv_out s' = [encode 1 MRclunk] \<and> sv_fids s' = Map.empty"
  using clunk_reply [OF sample_ready(2,5), of 9 0 "zero_fid\<lparr>fd_fid := 9, fd_omode := - 1, fd_ref := 1\<rparr>" "\<lambda>_. 0"
      sample_handlers 3 1 "[]"] sample_fs_ok
  by (auto simp: sample_fid_def sample_srv_fields pool_refines caninsertkey_refines sample_handlers_def replied_def
      fid_files_ok_def zero_fid_def)

text \<open>\<open>Tversion\<close> with a version of the family 9P and a sensible message size is answered with
  9P2000 and the size asked for; from then on the server works with buffers of that size.\<close>

theorem version_reply_ok:
  assumes "srv_ready s" and "tag_free tag s" and "wf_msg (MTversion ms v)" and "msg_size (MTversion ms v) \<le> unat (sv_msize s)"
    and "take 2 v = ascii ''9P''" and "64 \<le> unat ms" and "unat ms < 2 ^ 31" and "h_destroyreq h = None" and "3 \<le> fuel"
  shows "\<exists>s'. srv_loop fuel h (encode tag (MTversion ms v) @ rest) s = srv_loop fuel h rest s'
    \<and> replied s [encode tag (MRversion ms (ascii ''9P2000''))] s' \<and> sv_msize s' = ms
    \<and> sv_fids s' = sv_fids s \<and> sv_fpool s' = sv_fpool s \<and> sv_fs s' = sv_fs s"
  by (rule version_answered [OF assms])

theorem version_reply_ok_witness:
  "\<exists>s'. srv_loop 3 sample_handlers (encode 0xFFFF (MTversion 8192 (ascii ''9P2000.u'')) @ []) sample_srv
      = srv_loop 3 sample_handlers [] s'
    \<and> sv_out s' = [encode 0xFFFF (MRversion 8192 (ascii ''9P2000''))] \<and> sv_msize s' = 8192"
  using version_reply_ok [OF sample_ready(1,4), of 8192 "ascii ''9P2000.u''" sample_handlers 3 "0xFFFF" "[]"]
  by (auto simp: sample_srv_fields sample_handlers_def replied_def wf_msg_def wf_str_def msg_size_def ascii_def)

text \<open>C13: \<open>Tversion\<close> with a version outside the family 9P, or with a message size below the 19
  bytes of its own reply, ends the server instead of being refused: \<open>rversion\<close> shrinks the buffers
  (to nothing, in the first case) before the reply is packed, the reply does not fit, and
  \<open>respond\<close> aborts.\<close>

theorem version_ends_server:
  assumes "srv_ready s" and "tag_free tag s" and "wf_msg (MTversion ms v)" and "msg_size (MTversion ms v) \<le> unat (sv_msize s)"
    and "take 2 v \<noteq> ascii ''9P'' \<or> unat ms < 19"
  shows "srv_loop fuel h (encode tag (MTversion ms v) @ rest) s = None"
  by (rule version_aborts [OF assms])

theorem version_ends_server_witness:
  "srv_loop 9 sample_handlers (encode 0xFFFF (MTversion 8192 (ascii ''8P'')) @ []) sample_srv = None"
  by (rule version_ends_server [OF sample_ready(1,4)])
    (simp_all add: sample_srv_fields wf_msg_def wf_str_def msg_size_def ascii_def)

text \<open>A client that sends a reply message (any well-formed R-message) ends the server:
  \<open>convM2S\<close> accepts it, the \<open>switch\<close> of \<open>srv\<close> calls \<open>respond\<close> with \<open>unknown message\<close>, and \<open>respond\<close> itself
  has no case for the type and aborts.\<close>

theorem reply_ends_server:
  assumes "srv_ready s" and "tag_free tag s" and "wf_msg m" and "msg_size m \<le> unat (sv_msize s)" and "is_reply m"
  shows "srv_loop fuel h (encode tag m @ rest) s = None"
  by (rule reply_aborts [OF assms])

theorem reply_ends_server_witness:
  "srv_loop 9 sample_handlers (encode 3 MRclunk @ []) sample_srv = None"
  by (rule reply_ends_server [OF sample_ready(1,4)])
    (simp_all add: sample_srv_fields wf_msg_def msg_size_def is_reply_def)

text \<open>C12: A message whose tag belongs to a request not yet answered.  \<open>Tflush\<close> and \<open>Tversion\<close> end the
  server, since their \<open>r\<close>-functions assert that there is no error; the messages about a fid, \<open>Tattach\<close> and
  \<open>Tauth\<close> are answered with \<open>duplicate tag\<close>, leaving the request that owns the tag, the fids and
  the files as they were.\<close>

theorem duplicate_tag:
  assumes "srv_ready s" and "\<not> tag_free tag s" and "wf_msg m" and "msg_size m \<le> unat (sv_msize s)"
    and "h_destroyreq h = None" and "2 \<le> fuel"
  shows "if msg_type m = Tflush \<or> msg_type m = Tversion then srv_loop fuel h (encode tag m @ rest) s = None
    else msg_fid m \<noteq> None \<or> msg_type m = Tattach \<or> msg_type m = Tauth \<longrightarrow>
      (\<exists>s'. srv_loop fuel h (encode tag m @ rest) s = srv_loop fuel h rest s'
        \<and> replied s [encode tag (MRerror Eduptag)] s' \<and> sv_msize s' = sv_msize s
        \<and> sv_fids s' = sv_fids s \<and> sv_fpool s' = sv_fpool s \<and> sv_fs s' = sv_fs s)"
  using duplicate_aborts [OF assms] duplicate_answered [OF assms] by simp

theorem duplicate_tag_witness:
  "srv_loop 3 sample_handlers (encode 5 (MTflush 1) @ []) sample_pending = None
    \<and> (\<exists>s'. srv_loop 3 sample_handlers (encode 5 (MTstat 9) @ []) sample_pending = srv_loop 3 sample_handlers [] s'
      \<and> sv_out s' = [encode 5 (MRerror Eduptag)])"
  using duplicate_tag [OF sample_ready(3) sample_tags(2), of "MTflush 1" sample_handlers 3 "[]"]
    duplicate_tag [OF sample_ready(3) sample_tags(2), of "MTstat 9" sample_handlers 3 "[]"]
  by (auto simp: sample_tags sample_handlers_def wf_msg_def msg_size_def replied_def)

text \<open>Flushing a tag that no request has is answered with \<open>Rflush\<close> at once and changes nothing
  else.\<close>

theorem flush_nothing:
  assumes "srv_ready s" and "tag_free tag s" and "tag_free old s" and "old \<noteq> tag"
    and "h_destroyreq h = None" and "3 \<le> fuel"
  shows "\<exists>s'. srv_loop fuel h (encode tag (MTflush old) @ rest) s = srv_loop fuel h rest s'
    \<and> replied s [encode tag MRflush] s' \<and> sv_msize s' = sv_msize s
    \<and> sv_fids s' = sv_fids s \<and> sv_fpool s' = sv_fpool s \<and> sv_fs s' = sv_fs s"
  by (rule flush_absent_answered [OF assms])

theorem flush_nothing_witness:
  "\<exists>s'. srv_loop 3 sample_handlers (encode 1 (MTflush 2) @ []) sample_srv = srv_loop 3 sample_handlers [] s'
    \<and> sv_out s' = [encode 1 MRflush]"
  using flush_nothing [OF sample_ready(1,4,4), of 2 1 sample_handlers 3 "[]"]
  by (auto simp: sample_srv_fields sample_handlers_def replied_def)

text \<open>C14: Flushing one's own tag is never answered: \<open>sflush\<close> lets the request through, but \<open>rflush\<close>
  queues it on itself, so that it waits for its own reply.  No message is sent and the tag stays
  taken.\<close>

theorem flush_itself:
  assumes "srv_ready s" and "tag_free tag s" and "1 \<le> fuel"
  shows "\<exists>s' q. srv_loop fuel h (encode tag (MTflush tag) @ rest) s = srv_loop fuel h rest s'
    \<and> sv_out s' = sv_out s \<and> intmap_abs (sv_rpool s') (ucast tag) = Some (sv_next s)
    \<and> sv_reqs s' (sv_next s) = Some q \<and> rq_flush q = [sv_next s] \<and> \<not> rq_responded q"
  by (rule flush_self_waits [OF assms])

theorem flush_itself_witness:
  "\<exists>s'. srv_loop 1 sample_handlers (encode 1 (MTflush 1) @ []) sample_srv = srv_loop 1 sample_handlers [] s'
    \<and> sv_out s' = [] \<and> \<not> tag_free 1 s'"
  using flush_itself [OF sample_ready(1) sample_ready(4) [of 1], of 1 sample_handlers "[]"]
  by (auto simp: sample_srv_fields tag_free_def)

text \<open>C10: A flush of a request that has not been answered is not answered either: it is put behind the flushes that wait for that
  request already, holds a reference to it, and changes no other request; the server goes on.  The server has no flush function, or one that only responds.
  After the first flush of a request that a handler works on, the state is as the next property assumes it.\<close>

theorem flush_waits:
  assumes "srv_ready s" and "tag_free tag s"
    and "intmap_abs (sv_rpool s) (ucast old) = Some p" and "sv_reqs s p = Some qp" and "\<not> rq_responded qp"
    and "h_flush h = None \<or> h_flush h = Some (\<lambda>r t. Some (Reply None, t))" and "1 \<le> fuel"
  shows "\<exists>s' qr. srv_loop fuel h (encode tag (MTflush old) @ rest) s = srv_loop fuel h rest s' \<and> srv_ready s' \<and> sv_out s' = sv_out s
    \<and> sv_reqs s' = (sv_reqs s)(p \<mapsto> qp\<lparr>rq_ref := rq_ref qp + 1, rq_flush := rq_flush qp @ [sv_next s]\<rparr>, sv_next s \<mapsto> qr)
    \<and> sv_next s' = sv_next s + 1 \<and> intmap_abs (sv_rpool s') = (intmap_abs (sv_rpool s))(ucast tag \<mapsto> sv_next s)
    \<and> f_type (rq_ifcall qr) = Tflush \<and> f_tag (rq_ifcall qr) = tag \<and> rq_oldreq qr = Some p \<and> \<not> rq_responded qr \<and> rq_flush qr = []
    \<and> (fresh_req qp \<and> f_tag (rq_ifcall qp) = old \<and> f_type (rq_ifcall qp) \<noteq> Tflush
      \<longrightarrow> waiting p (qp\<lparr>rq_ref := 3, rq_flush := [sv_next s]\<rparr>) (sv_next s) qr s')"
proof -
  have ne: "p \<noteq> sv_next s" "old \<noteq> tag" using assms(2,3,4) srv_readyD(7) [OF assms(1), of p] by (auto simp: tag_free_def)
  obtain s' qr where q: "srv_loop fuel h (encode tag (MTflush old) @ rest) s = srv_loop fuel h rest s'" "srv_ready s'" "sv_out s' = sv_out s"
    "sv_reqs s' = (sv_reqs s)(p \<mapsto> qp\<lparr>rq_ref := rq_ref qp + 1, rq_flush := rq_flush qp @ [sv_next s]\<rparr>, sv_next s \<mapsto> qr)"
    "sv_next s' = sv_next s + 1" "intmap_abs (sv_rpool s') = (intmap_abs (sv_rpool s))(ucast tag \<mapsto> sv_next s)"
    "f_type (rq_ifcall qr) = Tflush" "f_tag (rq_ifcall qr) = tag" "rq_oldreq qr = Some p" "\<not> rq_responded qr" "rq_pool qr" "rq_ref qr = 2"
    "rq_flush qr = []" "rq_ofcall qr = zero_fcall" "rq_fid qr = None" "rq_newfid qr = None" "rq_afid qr = None"
    using flush_queued [OF assms, of rest] by blast
  then show ?thesis using flush_queued_waiting [OF q(4) ne(1) q(6) assms(3) ne(2)] by blast
qed

theorem flush_waits_witness:
  "\<exists>s' q. srv_loop 1 sample_handlers (encode 6 (MTflush 5) @ encode 7 (MTflush 5) @ []) sample_pending = srv_loop 1 sample_handlers [] s'
    \<and> sv_out s' = [] \<and> sv_reqs s' 0 = Some q \<and> rq_flush q = [1, 2] \<and> rq_ref q = 4"
proof -
  have nr: "\<not> rq_responded sample_req" and hf: "h_flush sample_handlers = None" by (simp_all add: sample_req_def zero_req_def sample_handlers_def)
  obtain s1 qr where s1: "srv_loop 1 sample_handlers (encode 6 (MTflush 5) @ encode 7 (MTflush 5) @ []) sample_pending = srv_loop 1 sample_handlers (encode 7 (MTflush 5) @ []) s1"
    "srv_ready s1" "sv_out s1 = []" "sv_reqs s1 0 = Some (sample_req\<lparr>rq_ref := 3, rq_flush := [1]\<rparr>)" "sv_next s1 = 2"
    "intmap_abs (sv_rpool s1) = (intmap_abs (sv_rpool sample_pending))(6 \<mapsto> 1)"
    using flush_waits [OF sample_ready(3) sample_tags(1), of 5 0 sample_req sample_handlers 1 "encode 7 (MTflush 5) @ []"] nr hf
    by (simp add: sample_tags) (auto simp: sample_req_def zero_req_def)
  have t: "tag_free 7 s1" "intmap_abs (sv_rpool s1) 5 = Some 0" using s1(6) sample_tags(4) sample_tags7 by (simp_all add: tag_free_def)
  show ?thesis using flush_waits [OF s1(2) t(1), of 5 0 "sample_req\<lparr>rq_ref := 3, rq_flush := [1]\<rparr>" sample_handlers 1 "[]"] s1 t nr hf by auto
qed

text \<open>C11: When the request with a waiting flush is answered, its reply is sent first and \<open>Rflush\<close> directly
  after it, both requests are gone and both tags are free.\<close>

theorem flush_answered_second:
  assumes "waiting p qp r qr s" and "intmap_ok (sv_rpool s)" and "buf_ok s" and "64 \<le> unat (sv_msize s)"
    and "finish h p e (put_req p (qp\<lparr>rq_error := e\<rparr>) s) = Some (put_req p q1 (s\<lparr>sv_fids := fids, sv_fpool := fp, sv_fs := t\<rparr>))"
    and "rq_ifcall q1 = rq_ifcall qp" and "rq_ref q1 = 3" and "rq_pool q1" and "rq_flush q1 = [r]" and "rq_oldreq q1 = None"
    and "rq_newfid q1 = None" and "rq_afid q1 = None" and "\<And>a. rq_fid q1 = Some a \<Longrightarrow> \<exists>f. fids a = Some f \<and> fd_ref f \<noteq> 1"
    and "fcall_ok (reply_fcall q1)" and "msg_of (reply_fcall q1) = Some m" and "msg_size m \<le> unat (sv_msize s)"
    and "h_destroyreq h = None" and "5 \<le> fuel"
  shows "\<exists>s'. respond fuel h p e s = Some s'
    \<and> sv_out s' = sv_out s @ [encode (f_tag (rq_ifcall qp)) m, encode (f_tag (rq_ifcall qr)) MRflush]
    \<and> sv_reqs s' = (sv_reqs s)(p := None, r := None)
    \<and> intmap_abs (sv_rpool s') = (intmap_abs (sv_rpool s))(ucast (f_tag (rq_ifcall qp)) := None, ucast (f_tag (rq_ifcall qr)) := None)"
  by (rule flush_order [OF assms])

definition sample_flush :: Req where
  "sample_flush = zero_req\<lparr>rq_tag := 6, rq_ref := 2, rq_pool := True, rq_oldreq := Some 0,
     rq_ifcall := zero_fcall\<lparr>f_type := Tflush, f_tag := 6, f_oldtag := 5\<rparr>\<rparr>"

definition sample_waiting :: "unit Srv" where
  "sample_waiting = sample_srv\<lparr>sv_reqs := [0 \<mapsto> sample_req\<lparr>rq_ref := 3, rq_flush := [1]\<rparr>, 1 \<mapsto> sample_flush], sv_next := 2,
     sv_rpool := snd (caninsertkey (snd (caninsertkey allocreqpool 5 0)) 6 1)\<rparr>"

lemma sample_waiting_ok:
  "waiting 0 (sample_req\<lparr>rq_ref := 3, rq_flush := [1]\<rparr>) 1 sample_flush sample_waiting"
  "intmap_ok (sv_rpool sample_waiting)" "buf_ok sample_waiting" "sv_msize sample_waiting = 16408" "sv_out sample_waiting = []"
  by (simp_all add: waiting_def sample_waiting_def sample_srv_fields caninsertkey_refines pool_refines)
    (simp add: sample_req_def sample_flush_def zero_req_def zero_fcall_def)

theorem flush_answered_second_witness:
  "\<exists>s'. respond 5 sample_handlers 0 None sample_waiting = Some s' \<and> sv_out s' = [encode 5 MRclunk, encode 6 MRflush]"
proof -
  let ?q = "sample_req\<lparr>rq_ref := 3, rq_flush := [1]\<rparr>"
  have "rq_error ?q = None" and "f_tag (rq_ifcall ?q) = 5" and "f_type (rq_ifcall ?q) = Tclunk"
    and "rq_ofcall ?q = zero_fcall" and "f_tag (rq_ifcall sample_flush) = 6"
    by (simp_all add: sample_req_def sample_flush_def zero_req_def zero_fcall_def)
  note q = this
  have "finish sample_handlers 0 None (put_req 0 (?q\<lparr>rq_error := None\<rparr>) sample_waiting)
      = Some (put_req 0 ?q (sample_waiting\<lparr>sv_fids := sv_fids sample_waiting, sv_fpool := sv_fpool sample_waiting,
          sv_fs := sv_fs sample_waiting\<rparr>))"
    using q by (simp add: finish_def sample_req_def zero_req_def)
  moreover have "msg_of (reply_fcall ?q) = Some MRclunk" "fcall_ok (reply_fcall ?q)"
    using q by (simp_all add: reply_fcall_def msg_of_def)
  ultimately show ?thesis
    using flush_answered_second [OF sample_waiting_ok(1-3), where h = sample_handlers and e = None and ?q1.0 = ?q
        and fids = "sv_fids sample_waiting" and fp = "sv_fpool sample_waiting" and t = "sv_fs sample_waiting" and m = MRclunk
        and fuel = 5] q
    by (auto simp: sample_waiting_ok sample_handlers_def msg_size_def)
      (auto simp: sample_req_def zero_req_def)
qed

section \<open>Strings and runes\<close>

text \<open>C25: Every rune \<open>runetochar\<close> writes is read back by \<open>chartorune\<close>, with the same number of bytes, which
  is what \<open>runelen\<close> announces; \<open>runetochar\<close> changes no other byte of the memory.\<close>

theorem rune_round_trip:
  assumes "valid_rune n" and "p + length (utf8 n) \<le> length m"
  shows "\<exists>k m'. runetochar m p (of_nat n) = Some (k, m') \<and> chartorune m' p = Some (k, of_nat n)
    \<and> runelen (of_nat n) = Some k \<and> length m' = length m \<and> (\<forall>i < length m. i < p \<or> p + k \<le> i \<longrightarrow> m' ! i = m ! i)"
  by (rule rune_there_and_back [OF assms])

theorem rune_round_trip_witness:
  "\<exists>k m'. runetochar [1, 2, 3, 4, 5] 1 0x20AC = Some (k, m') \<and> chartorune m' 1 = Some (k, 0x20AC)
    \<and> m' ! 0 = 1 \<and> length m' = 5"
  using rune_round_trip [of "0x20AC" 1 "[1, 2, 3, 4, 5]"] by (fastforce simp: valid_rune_def utf8_def)

text \<open>C24: On every C string \<open>chartorune\<close> returns.  It consumes at least one byte and never the bytes after
  the string, and the rune is either the one whose encoding stands there, which is in range, no
  surrogate and not overlong, or \<open>Runeerror\<close> for one byte.\<close>

theorem chartorune_safe:
  assumes "cstring_at m p = Some s"
  shows "\<exists>k r. chartorune m p = Some (k, r) \<and> 1 \<le> k \<and> k \<le> max 1 (length s)
    \<and> (k = 1 \<and> r = 0xFFFD \<or> valid_rune (unat r) \<and> k = length (utf8 (unat r)) \<and> holds_at m p (utf8 (unat r)))"
  by (rule chartorune_on_string [OF assms])

theorem chartorune_safe_witness:
  "\<exists>k r. chartorune [0xE2, 0x82, 0] 0 = Some (k, r) \<and> 1 \<le> k \<and> k \<le> 2"
  using chartorune_safe [of "[0xE2, 0x82, 0]" 0 "[0xE2, 0x82]"] by (fastforce simp: max_def)

text \<open>On every C string \<open>utflen\<close> returns, with at most one rune for each byte; on a string of encoded
  runes it counts them.\<close>

theorem utflen_total:
  assumes "cstring_at m p = Some s"
  shows "\<exists>k. utflen m p = Some k \<and> k \<le> length s \<and> (\<forall>ns. runes_ok ns \<and> s = rune_str ns \<longrightarrow> k = length ns)"
  by (rule utflen_on_string [OF assms])

theorem utflen_total_witness:
  "\<exists>k. utflen [0x61, 0xE2, 0x82, 0xAC, 0] 0 = Some k \<and> k \<le> 4"
  using utflen_total [of "[0x61, 0xE2, 0x82, 0xAC, 0]" 0 "[0x61, 0xE2, 0x82, 0xAC]"] by fastforce

text \<open>When \<open>fullrune\<close> says that the first \<open>n\<close> bytes hold a full rune, \<open>chartorune\<close> gives the same result
  whatever follows these bytes.\<close>

theorem fullrune_sufficient:
  assumes "fullrune m p n = Some True" and "p + nat n \<le> length m" and "p + nat n \<le> length m'"
    and "take (nat n) (drop p m') = take (nat n) (drop p m)"
  shows "chartorune m' p = chartorune m p"
  by (rule fullrune_decides [OF assms])

theorem fullrune_sufficient_witness:
  "chartorune [0xC3, 0xA9, 0xFF] 0 = chartorune [0xC3, 0xA9, 0x41] 0"
  by (rule fullrune_sufficient [of _ 0 2]) code_simp+

text \<open>\<open>strecpy\<close> writes nothing at or after the end \<open>e\<close> of the destination, leaves there a C string that
  is the longest prefix of the source that fits, and returns the position of its end.\<close>

theorem strecpy_bounded:
  assumes "cstring_at m s = Some t" and "clear d s (length t)" and "d < e" and "e \<le> length m"
  shows "\<exists>m'. strecpy m d e s = Some (d + min (length t) (e - d - 1), m') \<and> length m' = length m
    \<and> cstring_at m' d = Some (take (e - d - 1) t) \<and> (\<forall>i < length m. i < d \<or> e \<le> i \<longrightarrow> m' ! i = m ! i)"
  by (rule strecpy_within [OF assms])

theorem strecpy_bounded_witness:
  "\<exists>m'. strecpy [9, 9, 9, 9, 1, 2, 3, 0] 0 3 4 = Some (2, m') \<and> cstring_at m' 0 = Some [1, 2] \<and> m' ! 3 = 9"
proof -
  have "cstring_at [9, 9, 9, 9, 1, 2, 3, 0] 4 = Some [1, 2, 3]" by code_simp
  from strecpy_bounded [OF this, of 0 3] obtain m' where "strecpy [9, 9, 9, 9, 1, 2, 3, 0] 0 3 4 = Some (2, m')"
    "cstring_at m' 0 = Some [1, 2]" "\<forall>i < 8. 3 \<le> i \<longrightarrow> m' ! i = [9, 9, 9, 9, 1, 2, 3, 0] ! i"
    by (auto simp: clear_def)
  then show ?thesis by simp
qed

text \<open>\<open>memmove\<close> copies \<open>n\<close> bytes as they were before the call, however the two areas overlap,
  and changes nothing else.\<close>

theorem memmove_overlap:
  assumes "a1 + unat n \<le> length m" and "a2 + unat n \<le> length m" and "0 \<le> sint n"
  shows "\<exists>m'. memmove m a1 a2 n = Some m' \<and> length m' = length m
    \<and> (\<forall>i < length m. m' ! i = (if a1 \<le> i \<and> i < a1 + unat n then m ! (a2 + (i - a1)) else m ! i))"
  by (rule memmove_bytes [OF assms])

theorem memmove_overlap_witness:
  "\<exists>m'. memmove [1, 2, 3, 4, 5] 1 0 3 = Some m' \<and> m' ! 0 = 1 \<and> m' ! 1 = 1 \<and> m' ! 2 = 2 \<and> m' ! 3 = 3 \<and> m' ! 4 = 5"
proof -
  obtain m' where "memmove [1, 2, 3, 4, 5] 1 0 3 = Some m'"
    "\<forall>i < 5. m' ! i = (if 1 \<le> i \<and> i < 4 then [1, 2, 3, 4, 5] ! (i - 1) else [1, 2, 3, 4, 5] ! i)"
    using memmove_overlap [of 1 3 "[1, 2, 3, 4, 5]" 0] by auto
  then show ?thesis by simp
qed

text \<open>\<open>strcmp\<close> decides the lexicographic order of the two strings by their bytes as unsigned numbers, although
  \<open>char\<close> is signed: 0 for equal strings, -1 for a smaller and 1 for a greater first string.\<close>

theorem strcmp_lexicographic:
  assumes "cstring_at m p = Some s" and "cstring_at m q = Some t"
  shows "strcmp m p q = Some (if s = t then 0 else if (s, t) \<in> lexord {(a, b). a < b} then - 1 else 1)"
  using strcmp_correct [OF assms] str_order_cases [of s t] by simp

theorem strcmp_lexicographic_witness:
  "strcmp [0x61, 0xE9, 0, 0x61, 0x62, 0] 0 3 = Some 1"
proof -
  have "cstring_at [0x61, 0xE9, 0, 0x61, 0x62, 0] 0 = Some [0x61, 0xE9]"
    "cstring_at [0x61, 0xE9, 0, 0x61, 0x62, 0] 3 = Some [0x61, 0x62]" by code_simp+
  from strcmp_lexicographic [OF this] show ?thesis by simp
qed

text \<open>C29: \<open>strstr\<close>, which searches for the first byte with \<open>strchr\<close> and compares from there, finds the first
  occurrence of the second string in the first, and \<open>nil\<close> exactly when there is none.\<close>

theorem strstr_first:
  assumes "cstring_at m p = Some s" and "cstring_at m q = Some t"
  shows "\<exists>r. strstr m p q = Some r \<and> (case r of
      Some k \<Rightarrow> p \<le> k \<and> take (length t) (drop (k - p) s) = t \<and> (\<forall>j < k - p. take (length t) (drop j s) \<noteq> t)
    | None \<Rightarrow> \<forall>j. take (length t) (drop j s) \<noteq> t)"
  by (rule strstr_is_first [OF assms])

theorem strstr_first_witness:
  "strstr [1, 1, 2, 0, 1, 2, 0] 0 4 = Some (Some 1)"
  using strstr_first [of "[1, 1, 2, 0, 1, 2, 0]" 0 "[1, 1, 2]" 4 "[1, 2]"]
    strstr_correct [of "[1, 1, 2, 0, 1, 2, 0]" 0 "[1, 1, 2]" 4 "[1, 2]"] by (fastforce simp: numeral_eq_Suc)

text \<open>C23: \<open>tokenize\<close>, which unquotes and cuts the string where it stands, returns the first \<open>n\<close> words of the
  string: maximal runs of bytes that are no separator or stand between quotes, with the quotes removed and
  doubled quotes halved.  It writes nothing before the string.\<close>

theorem tokenize_splits:
  assumes "cstring_at m s = Some x"
  shows "\<exists>args m'. tokenize m s n = Some (args, m') \<and> length m' = length m
    \<and> (\<forall>p < s. m' ! p = m ! p) \<and> map (cstring_at m') args = map Some (take n (toks blank x))"
  by (rule tokenize_correct [OF assms])

theorem tokenize_splits_witness:
  "\<exists>args m'. tokenize (ascii ''a b'' @ [0]) 0 9 = Some (args, m') \<and> length m' = 4"
  using tokenize_splits [of "ascii ''a b'' @ [0]" 0 "ascii ''a b''" 9] by (fastforce simp: ascii_def)

text \<open>C22: Words quoted by \<open>quotestrdup\<close> (whatever its \<open>doquote\<close> function adds) and joined by blanks are what
  \<open>tokenize\<close> cuts the line into; and \<open>unquotestrdup\<close> undoes \<open>quotestrdup\<close>.  The words may be empty and hold blanks, quotes
  and any bytes but 0.\<close>

theorem quote_round_trip:
  assumes "list_all2 (\<lambda>x y. 0 \<notin> set x \<and> 2 * length x + 2 < 2 ^ 31 \<and> quotestrdup doquote (x @ [0]) 0 = Some (y @ [0])) xs ys"
    and "length xs \<le> n"
  shows "(\<exists>args m'. tokenize (concat (map (\<lambda>y. y @ [0x20]) ys) @ [0]) 0 n = Some (args, m')
      \<and> map (cstring_at m') args = map Some xs)
    \<and> list_all2 (\<lambda>x y. \<exists>ret. unquotestrdup (y @ [0]) 0 = Some ret \<and> cstring_at ret 0 = Some x) xs ys"
  by (rule quoted_words [OF assms])

theorem quote_round_trip_witness:
  "\<exists>args m'. tokenize (ascii ''ab '' @ [0x27, 0x20, 0x27, 0x20, 0]) 0 5 = Some (args, m')
    \<and> map (cstring_at m') args = [Some (ascii ''ab''), Some [0x20]]"
  using quote_round_trip [of None "[ascii ''ab'', [0x20]]" "[ascii ''ab'', [0x27, 0x20, 0x27]]" 5] quotestrdup_samples
  by (fastforce simp: ascii_def)

section \<open>Numbers\<close>

text \<open>C26: \<open>strtol\<close> and \<open>strtoll\<close> return the number the text denotes when it fits their type, and
  otherwise the smallest or largest value of the type, although they find overflow only by looking at wrapped-around
  intermediate results.  The end pointer is behind the last digit, or at the start when there is no digit.\<close>

theorem strtol_clamps:
  assumes "cstring_at m p = Some s" and "base = 0 \<or> 2 \<le> base \<and> base \<le> 36" and "number_parts base s = (neg, b, ds, k)"
  shows "\<exists>n n'. strtol m p base = Some (n, if ds = [] then p else p + k + length ds)
    \<and> strtoll m p base = Some (n', if ds = [] then p else p + k + length ds)
    \<and> sint n = clamp (- (2 ^ 31)) (2 ^ 31 - 1) (if neg then - numeral_of b ds else numeral_of b ds)
    \<and> sint n' = clamp (- (2 ^ 63)) (2 ^ 63 - 1) (if neg then - numeral_of b ds else numeral_of b ds)"
proof -
  obtain n n' where "strtol m p base = Some (n, if ds = [] then p else p + k + length ds)"
    "sint n = clamp (- 2147483648) 2147483647 (if neg then - numeral_of b ds else numeral_of b ds)"
    "strtoll m p base = Some (n', if ds = [] then p else p + k + length ds)"
    "sint n' = clamp (- 9223372036854775808) 9223372036854775807 (if neg then - numeral_of b ds else numeral_of b ds)"
    using strtol_correct [OF assms] strtoll_correct [OF assms] by blast
  then show ?thesis by (intro exI [of _ n] exI [of _ n'] conjI) simp_all
qed

theorem strtol_clamps_witness:
  "\<exists>n n'. strtol (ascii '' -0x80000001z'' @ [0]) 0 0 = Some (n, 12) \<and> strtoll (ascii '' -0x80000001z'' @ [0]) 0 0 = Some (n', 12)
    \<and> sint n = - 2147483648 \<and> sint n' = - 2147483649"
proof -
  let ?s = "ascii '' -0x80000001z''"
  have p: "number_parts 0 ?s = (True, 16, ascii ''80000001'', 4)" by code_simp
  have v: "numeral_of 16 (ascii ''80000001'') = 2147483649" by code_simp
  have s: "cstring_at (?s @ [0]) 0 = Some ?s" by code_simp
  have l: "ascii ''80000001'' \<noteq> []" "length (ascii ''80000001'') = 8" by code_simp+
  show ?thesis using strtol_clamps [OF s _ p] unfolding v by (simp add: clamp_def l)
qed

text \<open>C27: \<open>strtoul\<close> returns the number when it fits 32 bits, its negative modulo \<open>2 ^ 32\<close> after a minus sign, and the largest
  value for every number that does not fit.\<close>

theorem strtoul_wraps:
  assumes "cstring_at m p = Some s" and "base = 0 \<or> 2 \<le> base \<and> base \<le> 36" and "unumber_parts base s = (neg, b, ds, k)"
  shows "\<exists>n. strtoul m p base = Some (n, if ds = [] then p else p + k + length ds)
    \<and> uint n = (if 2 ^ 32 - 1 < numeral_of b ds then 2 ^ 32 - 1
        else if neg then (- numeral_of b ds) mod 2 ^ 32 else numeral_of b ds)"
proof -
  obtain n where "strtoul m p base = Some (n, if ds = [] then p else p + k + length ds)"
    "uint n = (if 4294967295 < numeral_of b ds then 4294967295
      else if neg then (- numeral_of b ds) mod 2 ^ 32 else numeral_of b ds)"
    using strtoul_correct [OF assms] by blast
  then show ?thesis by (intro exI [of _ n] conjI) simp_all
qed

theorem strtoul_wraps_witness:
  "\<exists>n. strtoul (ascii ''4294967296'' @ [0]) 0 10 = Some (n, 10) \<and> uint n = 4294967295"
proof -
  let ?s = "ascii ''4294967296''"
  have p: "unumber_parts 10 ?s = (False, 10, ?s, 0)" by code_simp
  have v: "numeral_of 10 ?s = 4294967296" by code_simp
  have s: "cstring_at (?s @ [0]) 0 = Some ?s" by code_simp
  have l: "?s \<noteq> []" "length ?s = 10" by code_simp+
  show ?thesis using strtoul_wraps [OF s _ p] unfolding v by (simp add: l)
qed

text \<open>C28: \<open>strtoull\<close> returns every number that fits 64 bits, negated modulo \<open>2 ^ 64\<close> after a minus sign.  Numbers that do
  not fit are not reliably found: \<open>30000000000000000000\<close> is returned modulo \<open>2 ^ 64\<close>, and where overflow is found the
  result is \<open>2 ^ 63\<close>, not the largest value, since \<open>UVLONG_MAX\<close> is defined as a negative number.\<close>

theorem strtoull_value:
  "(\<forall>m p s base neg b ds k. cstring_at m p = Some s \<and> (base = 0 \<or> 2 \<le> base \<and> base \<le> 36)
      \<and> number_parts base s = (neg, b, ds, k) \<and> numeral_of b ds < 2 ^ 64
      \<longrightarrow> strtoull m p base = Some (of_int (if neg then - numeral_of b ds else numeral_of b ds),
            if ds = [] then p else p + k + length ds))
    \<and> strtoull (ascii ''30000000000000000000'' @ [0]) 0 10 = Some (of_int (30000000000000000000 - 2 ^ 64), 20)
    \<and> strtoull (ascii ''99999999999999999999999999999'' @ [0]) 0 10 = Some (2 ^ 63, 29)"
proof (intro conjI allI impI)
  fix m p s base neg b ds k
  assume "cstring_at m p = Some s \<and> (base = 0 \<or> 2 \<le> base \<and> base \<le> 36)
    \<and> number_parts base s = (neg, b, ds, k) \<and> numeral_of b ds < 2 ^ 64"
  then show "strtoull m p base = Some (of_int (if neg then - numeral_of b ds else numeral_of b ds),
      if ds = [] then p else p + k + length ds)"
    using strtoull_correct by blast
qed (simp_all add: strtoull_misses_overflow)

theorem strtoull_value_witness:
  "strtoull (ascii ''18446744073709551615'' @ [0]) 0 10 = Some (18446744073709551615, 20)"
proof -
  let ?s = "ascii ''18446744073709551615''"
  have "number_parts 10 ?s = (False, 10, ?s, 0)" "numeral_of 10 ?s = 18446744073709551615"
    "cstring_at (?s @ [0]) 0 = Some ?s" "?s \<noteq> []" "length ?s = 20" by code_simp+
  then show ?thesis
    using conjunct1 [OF strtoull_value, rule_format, of "?s @ [0]" 0 ?s 10 False 10 ?s 0] by simp
qed

section \<open>A file server program\<close>

text \<open>C9: the program \<open>ramfs\<close>, from its start to the end of its connection: a client that attaches, creates a plain file,
  writes at most 16384 bytes to it and reads as many is answered four times, in order and with no error, the last time with the bytes it wrote; the
  server returns, and the file has that content.  It holds for every user name, file name, permission without \<open>DMDIR\<close>,
  tags (also equal ones) and bytes, and for every content of fresh memory.\<close>

theorem ramfs_session:
  assumes "wf_msg (MTattach fid NOFID uname aname)" "msg_size (MTattach fid NOFID uname aname) \<le> 16408"
    and "wf_msg (MTcreate fid name perm ORDWR)" "msg_size (MTcreate fid name perm ORDWR) \<le> 16408" "perm AND DMDIR = 0"
    and "d \<noteq> []" "length d \<le> 16384" and "3 \<le> fuel"
  shows "\<exists>s0 s rootqid qid n. ramfs_start junk user now = Some s0
    \<and> srv fuel (ramfs_fs sp av) (encode t1 (MTattach fid NOFID uname aname) @ encode t2 (MTcreate fid name perm ORDWR)
        @ encode t3 (MTwrite fid 0 d) @ encode t4 (MTread fid 0 (of_nat (length d)))) s0 = Some s
    \<and> sv_out s = [encode t1 (MRattach rootqid), encode t2 (MRcreate qid 0), encode t3 (MRwrite (of_nat (length d))), encode t4 (MRread d)]
    \<and> q_type rootqid = QTDIR \<and> ram_content (sv_fs s) (sv_aux s) n = Some d"
  by (rule ramfs_talk_answered [OF assms])

theorem ramfs_session_witness:
  "\<exists>s0 s rootqid qid n. ramfs_start (\<lambda>_. 0) None 0 = Some s0
    \<and> srv 3 (ramfs_fs (\<lambda>_ _. []) []) (encode 1 (MTattach 5 NOFID (ascii ''glenda'') []) @ encode 1 (MTcreate 5 (ascii ''f'') 0x1B6 ORDWR)
        @ encode 1 (MTwrite 5 0 [104, 105]) @ encode 1 (MTread 5 0 (of_nat (length [104, 105 :: byte])))) s0 = Some s
    \<and> sv_out s = [encode 1 (MRattach rootqid), encode 1 (MRcreate qid 0), encode 1 (MRwrite (of_nat (length [104, 105 :: byte]))),
        encode 1 (MRread [104, 105])]
    \<and> q_type rootqid = QTDIR \<and> ram_content (sv_fs s) (sv_aux s) n = Some [104, 105]"
  by (rule ramfs_session) (simp_all add: wf_msg_def msg_size_def ascii_def wf_str_def)

text \<open>C37: \<open>ramfs\<close> answers an empty write at the start of an empty file that has had content before with \<open>no memory\<close>, and
  keeps the pointer to the content, which \<open>realloc\<close> has freed: the next write that reaches the end of that file uses it.\<close>

theorem ramfs_empty_write:
  assumes "asks r x q s" and "fs_files (sv_fs s) x = Some y" and "rm_files (sv_aux s) (fl_aux y) = Some \<lparr>rf_data = Area b, rf_ndata = 0\<rparr>"
    and "f_offset (rq_ifcall q) = 0" "f_count (rq_ifcall q) = 0"
  shows "\<exists>s'. fswrite r s = Some (Reply (Some Enomem), s') \<and> rm_files (sv_aux s') (fl_aux y) = Some \<lparr>rf_data = Freed, rf_ndata = 0\<rparr>
    \<and> (\<forall>r' q'. asks r' x q' s' \<and> 0 \<le> sint (f_offset (rq_ifcall q') + of_int (sint (f_count (rq_ifcall q')))) \<longrightarrow> fswrite r' s' = None)"
proof -
  let ?s = "put_ramfile (fl_aux y) \<lparr>rf_data = Freed, rf_ndata = 0\<rparr> s"
  have "fswrite r s = Some (Reply (Some Enomem), ?s)"
    using fswrite_empty [OF assms(1-3) _ assms(4,5)] by (simp add: ram_bytes_def)
  moreover have "fswrite r' ?s = None" if "asks r' x q' ?s" "0 \<le> sint (f_offset (rq_ifcall q') + of_int (sint (f_count (rq_ifcall q'))))" for r' q'
    by (rule freed_faults [OF _ _ assms(3,2) refl that(1)]) (use that(2) in \<open>simp_all add: ram_bytes_def\<close>)
  moreover have "rm_files (sv_aux ?s) (fl_aux y) = Some \<lparr>rf_data = Freed, rf_ndata = 0\<rparr>" by (simp add: put_ramfile_def)
  ultimately show ?thesis by blast
qed

definition sample_ramfs :: "ramfs Srv" where
  "sample_ramfs = \<lparr>sv_tree = True, sv_fs = put_file 0 (zero_file\<lparr>fl_aux := 1\<rparr>) sample_fs, sv_fids = [0 \<mapsto> zero_fid\<lparr>fd_file := Some 0\<rparr>],
     sv_reqs = [1 \<mapsto> zero_req\<lparr>rq_fid := Some 0\<rparr>], sv_next = 2, sv_fpool = allocfidpool, sv_rpool = allocreqpool, sv_msize = 0, sv_rbuf = None,
     sv_wbuf = None, sv_out = [], sv_aux = \<lparr>rm_files = [1 \<mapsto> \<lparr>rf_data = Area [7], rf_ndata = 0\<rparr>], rm_next = 2, rm_junk = \<lambda>_. 0\<rparr>\<rparr>"

theorem ramfs_empty_write_witness:
  "\<exists>s'. fswrite 1 sample_ramfs = Some (Reply (Some Enomem), s') \<and> rm_files (sv_aux s') 1 = Some \<lparr>rf_data = Freed, rf_ndata = 0\<rparr>
    \<and> (\<forall>r' q'. asks r' 0 q' s' \<and> 0 \<le> sint (f_offset (rq_ifcall q') + of_int (sint (f_count (rq_ifcall q')))) \<longrightarrow> fswrite r' s' = None)"
  using ramfs_empty_write [of 1 0 "zero_req\<lparr>rq_fid := Some 0\<rparr>" sample_ramfs "zero_file\<lparr>fl_aux := 1\<rparr>" "[7]"]
  by (simp add: sample_ramfs_def asks_def zero_req_def zero_fcall_def)

text \<open>\<open>readbuf\<close> answers a read request on a buffer of \<open>m\<close> bytes with the bytes of the buffer at the offset asked for, as
  many as were asked for and as there are, none behind the end.\<close>

theorem readbuf_serves:
  assumes "m \<le> length b" "m < 2 ^ 31" and "0 \<le> sint (f_offset (rq_ifcall q))"
    and "unat (f_count (rq_ifcall q)) \<le> length (f_data (rq_ofcall q))"
  shows "\<exists>d e. d = take (unat (f_count (rq_ifcall q))) (drop (unat (f_offset (rq_ifcall q))) (take m b))
    \<and> readbuf b (int m) q = Some (q\<lparr>rq_ofcall := (rq_ofcall q)\<lparr>f_count := of_nat (length d), f_data := d @ e\<rparr>\<rparr>)"
  using readbuf_correct [OF assms] by blast

definition sample_read :: Req where
  "sample_read = zero_req\<lparr>rq_ifcall := zero_fcall\<lparr>f_offset := 1, f_count := 5\<rparr>, rq_ofcall := zero_fcall\<lparr>f_data := [0, 0, 0, 0, 0]\<rparr>\<rparr>"

lemma sample_read_fields:
  "f_offset (rq_ifcall sample_read) = 1" "unat (f_count (rq_ifcall sample_read)) = 5" "length (f_data (rq_ofcall sample_read)) = 5"
  "take 5 (drop (unat (1 :: u64)) (take 3 [1, 2, 3, 4])) = [2, 3 :: byte]"
  by (simp_all add: sample_read_def)

theorem readbuf_serves_witness:
  "\<exists>d e. d = [2, 3] \<and> readbuf [1, 2, 3, 4] (int 3) sample_read
    = Some (sample_read\<lparr>rq_ofcall := (rq_ofcall sample_read)\<lparr>f_count := of_nat (length d), f_data := d @ e\<rparr>\<rparr>)"
  using readbuf_serves [of 3 "[1, 2, 3, 4]" sample_read, unfolded sample_read_fields] by simp

section \<open>Sorting\<close>

text \<open>C21: \<open>qsort\<close> on an array of elements of \<open>es\<close> bytes returns for every comparison function that reads its two elements only,
  permutes the elements, writes nothing outside the array, and sorts it when the comparison is an order.\<close>

theorem qsort_sorts:
  assumes "compares es cmp c" and "uniform es xs" and "0 < es" "es < 2 ^ 32" and "length xs < 2 ^ 32"
  shows "\<exists>ys. qsort (arr pre xs post) (length pre) (int (length xs)) es cmp = Some (arr pre ys post) \<and> mset ys = mset xs
    \<and> (ordering c \<longrightarrow> sorted_wrt (\<lambda>x y. c x y \<le> 0) ys)"
  by (rule qsort_correct [OF assms])

theorem qsort_sorts_witness:
  "\<exists>ys. qsort (arr [9] [[3, 1], [2, 7], [2, 5]] [8, 8]) (length [9 :: byte]) (int (length [[3, 1], [2, 7], [2, 5 :: byte]])) 2 (\<lambda>m p q. memcmp m p q 2) = Some (arr [9] ys [8, 8])
    \<and> mset ys = mset [[3, 1], [2, 7], [2, 5]] \<and> sorted_wrt (\<lambda>x y. str_order x y \<le> 0) ys"
  using qsort_sorts [OF by_bytes.reads, of 2 "[[3, 1], [2, 7], [2, 5]]" "[9]" "[8, 8]"] by_bytes.is_ordering by (simp add: uniform_def)

section \<open>Multiple precision integers\<close>

text \<open>C20: \<open>mpadd\<close> and \<open>mpsub\<close> leave the sum and the difference of two numbers in the result, normalised, also when the
  result is one of the operands or both are the same number, and change no other number.\<close>

theorem mp_sum_difference:
  assumes "mp_val h a1 v1" "mp_val h a2 v2" "mp_var h r" "mp_val h mpzero 0"
  shows "becomes (mpadd a1 a2 r h) r (v1 + v2) h \<and> becomes (mpsub a1 a2 r h) r (v1 - v2) h"
  using mpadd_val [OF assms] by blast

text \<open>A store with the constants and the number \<open>- 5\<close>.\<close>

definition sample_mps :: mpheap where
  "sample_mps = (put_mp 3 ((mp_constant 1)\<lparr>mp_sign := - 1, mp_static := False\<rparr>) [5] mp_start)\<lparr>mh_next := 4\<rparr>"

lemma sample_mps_values: "mp_val sample_mps 0 0" "mp_val sample_mps 1 1" "mp_val sample_mps 2 2" "mp_val sample_mps 3 (- 5)"
  unfolding mp_val_def
     apply (rule exI [of _ "mp_constant 0"], rule exI [of _ "[0]"])
     apply (simp add: sample_mps_def mp_start_def mp_plain_def mp_at_def mp_wf_def mp_sized_def mag_def mp_constant_def)
    apply (rule exI [of _ "mp_constant 1"], rule exI [of _ "[1]"])
    apply (simp add: sample_mps_def mp_start_def mp_plain_def mp_at_def mp_wf_def mp_sized_def mag_def mp_constant_def)
   apply (rule exI [of _ "mp_constant 1"], rule exI [of _ "[2]"])
   apply (simp add: sample_mps_def mp_start_def mp_plain_def mp_at_def mp_wf_def mp_sized_def mag_def mp_constant_def)
  apply (rule exI [of _ "(mp_constant 1)\<lparr>mp_sign := - 1, mp_static := False\<rparr>"], rule exI [of _ "[5]"])
  apply (simp add: sample_mps_def mp_start_def mp_plain_def mp_at_def mp_wf_def mp_sized_def mag_def mp_constant_def)
  done

lemma sample_mps_var: "mp_var sample_mps 3"
  by (simp add: mp_var_def mp_out_def mp_at_def mp_sized_def sample_mps_def mp_constant_def)

theorem mp_sum_difference_witness:
  "becomes (mpadd 3 mptwo 3 sample_mps) 3 (- 5 + 2) sample_mps \<and> becomes (mpsub 3 mptwo 3 sample_mps) 3 (- 5 - 2) sample_mps"
  by (rule mp_sum_difference [OF sample_mps_values(4,3) sample_mps_var sample_mps_values(1)])

text \<open>C15: \<open>mpmul\<close>, by Karatsuba's method for long factors, leaves the product of two numbers in the result, normalised, also
  when the result is a factor, changes no other number, and frees what it allocates.\<close>

theorem mp_product:
  assumes "mp_val h a1 v1" "mp_val h a2 v2" "mp_var h r" "mp_heap h"
  shows "becomes (mpmul a1 a2 r h) r (v1 * v2) h"
  by (rule mpmul_val [OF assms])

theorem mp_product_witness: "becomes (mpmul 3 3 3 sample_mps) 3 (- 5 * - 5) sample_mps"
  by (rule mp_product [OF sample_mps_values(4,4) sample_mps_var]) (simp add: mp_heap_def sample_mps_def mp_start_def)

text \<open>\<open>mpcmp\<close> decides the order of two numbers.\<close>

theorem mp_order:
  assumes "mp_val h a1 v1" "mp_val h a2 v2"
  shows "\<exists>c. mpcmp a1 a2 h = Some c \<and> sgn c = sgn (v1 - v2)"
  by (rule mpcmp_val [OF assms])

theorem mp_order_witness: "\<exists>c. mpcmp 3 mptwo sample_mps = Some c \<and> sgn c = sgn (- 5 - 2 :: int)"
  by (rule mp_order [OF sample_mps_values(4,3)])

text \<open>\<open>mpvectscmp\<close>, the comparison in constant time, gives 1 where the numbers are equal and the second has
  more digits, although its operands are then the same number.\<close>

theorem tscmp_unequal:
  assumes "seg m a xs" "length xs = alen" and "seg m b ys" "length ys = blen" and "alen < blen" and "digval xs = digval ys"
  shows "mpvectscmp m a alen b blen = Some 1 \<and> mpveccmp m a alen b blen = Some 0"
  using mpvectscmp_correct [OF assms(1-4)] mpveccmp_correct [OF assms(1-4)] assms(5,6) by (simp add: sign_of_def)

theorem tscmp_unequal_witness:
  "mpvectscmp [0 \<mapsto> [7], 1 \<mapsto> [7, 0]] (0, 0) 1 (1, 0) 2 = Some 1 \<and> mpveccmp [0 \<mapsto> [7], 1 \<mapsto> [7, 0]] (0, 0) 1 (1, 0) 2 = Some 0"
  by (rule tscmp_unequal [of _ _ "[7]" _ _ "[7, 0]"]) (simp_all add: seg_def dld_def)



section \<open>Division of multiple precision integers\<close>

text \<open>C16: \<open>mpdiv\<close> of positive numbers returns, leaves the quotient and the remainder in the results that are wanted, normalised, also when
  these are the operands, changes no other number and frees what it allocates.  The quotient must not have been negative before, and the remainder has two
  digits of space.\<close>

theorem mp_division:
  assumes "mp_val h a1 v1" "0 < v1" and "mp_val h a2 v2" "0 < v2" and "mp_val h mpzero 0" "\<not> mp_var h mpzero" and "mp_heap h" and "div_outs Z 1 h quot rest"
  shows "div_done Z (mpdiv a1 a2 quot rest h) quot rest (v1 div v2) (v1 mod v2) h"
  using mpdiv_done [OF assms] by simp

text \<open>A store with the constants and the numbers 7, 3, -9, -4, -8, 4.\<close>

definition small_mp :: "int \<Rightarrow> mpint" where
  "small_mp v = (mp_constant 1)\<lparr>mp_sign := if v < 0 then - 1 else 1, mp_size := 2, mp_static := False\<rparr>"

definition put_small :: "nat \<Rightarrow> int \<Rightarrow> mpheap \<Rightarrow> mpheap" where
  "put_small a v h = put_mp a (small_mp v) [of_int \<bar>v\<bar>, 0] h"

definition sample_divs :: mpheap where
  "sample_divs = (put_small 8 4 (put_small 7 (- 8) (put_small 6 (- 4) (put_small 5 (- 9) (put_small 4 3 (put_small 3 7 mp_start))))))\<lparr>mh_next := 9\<rparr>"

lemma small_mp_wf: "0 < \<bar>v\<bar> \<Longrightarrow> \<bar>v\<bar> < 2 ^ Dbits \<Longrightarrow> mp_wf (small_mp v) [of_int \<bar>v\<bar>, 0] \<and> mp_sign (small_mp v) * int (mag (small_mp v) [of_int \<bar>v\<bar>, 0]) = v"
proof -
  assume v: "0 < \<bar>v\<bar>" "\<bar>v\<bar> < 2 ^ Dbits"
  then have "uint (of_int \<bar>v\<bar> :: mpdigit) = \<bar>v\<bar>" by (simp add: uint_word_of_int)
  then have "unat (of_int \<bar>v\<bar> :: mpdigit) = nat \<bar>v\<bar>" by (simp add: unat_eq_nat_uint)
  then show ?thesis using v by (auto simp: small_mp_def mp_constant_def mp_wf_def mp_sized_def mag_def unat_eq_0 [symmetric])
qed

lemma put_small_val:
  assumes "mh_ints h a = Some (small_mp v)" "mh_mem h a = Some [of_int \<bar>v\<bar>, 0]" "0 < \<bar>v\<bar>" "\<bar>v\<bar> < 2 ^ Dbits"
  shows "mp_val h a v" "mp_plain h a (small_mp v) [of_int \<bar>v\<bar>, 0]" "\<not> mp_static (small_mp v)" "mp_size (small_mp v) = 2"
proof -
  show p: "mp_plain h a (small_mp v) [of_int \<bar>v\<bar>, 0]" using assms small_mp_wf [of v] by (simp add: mp_plain_def mp_at_def) (simp add: small_mp_def mp_constant_def)
  show "mp_val h a v" unfolding mp_val_def using p small_mp_wf [OF assms(3,4)] by metis
qed (simp_all add: small_mp_def mp_constant_def)

lemma sample_divs_at:
  "mh_ints sample_divs 3 = Some (small_mp 7)" "mh_mem sample_divs 3 = Some [of_int \<bar>7\<bar>, 0]" "mh_ints sample_divs 4 = Some (small_mp 3)" "mh_mem sample_divs 4 = Some [of_int \<bar>3\<bar>, 0]"
  "mh_ints sample_divs 5 = Some (small_mp (- 9))" "mh_mem sample_divs 5 = Some [of_int \<bar>- 9\<bar>, 0]" "mh_ints sample_divs 6 = Some (small_mp (- 4))" "mh_mem sample_divs 6 = Some [of_int \<bar>- 4\<bar>, 0]"
  "mh_ints sample_divs 7 = Some (small_mp (- 8))" "mh_mem sample_divs 7 = Some [of_int \<bar>- 8\<bar>, 0]" "mh_ints sample_divs 8 = Some (small_mp 4)" "mh_mem sample_divs 8 = Some [of_int \<bar>4\<bar>, 0]"
  by (simp_all add: sample_divs_def put_small_def)

lemmas sample_divs_vals = put_small_val [OF sample_divs_at(1,2)] put_small_val [OF sample_divs_at(3,4)] put_small_val [OF sample_divs_at(5,6)]
  put_small_val [OF sample_divs_at(7,8)] put_small_val [OF sample_divs_at(9,10)] put_small_val [OF sample_divs_at(11,12)]

lemma sample_divs_zero: "mp_val sample_divs mpzero 0" "\<not> mp_var sample_divs mpzero" "mp_heap sample_divs"
proof -
  have z: "mp_at sample_divs mpzero (mp_constant 0) [0]" by (simp add: sample_divs_def put_small_def mp_start_def mp_at_def)
  show "mp_val sample_divs mpzero 0" unfolding mp_val_def mp_plain_def
    using z by (intro exI [of _ "mp_constant 0"] exI [of _ "[0]"]) (simp add: mp_wf_def mp_sized_def mag_def mp_constant_def)
  show "\<not> mp_var sample_divs mpzero" using z by (auto simp: mp_var_def mp_out_def mp_at_def mp_constant_def)
  show "mp_heap sample_divs" by (simp add: mp_heap_def sample_divs_def put_small_def mp_start_def)
qed

lemma sample_divs_out:
  "opt_out sample_divs (Some 3) (\<lambda>b. mp_sign b = 1 \<and> 2 \<le> mp_size b)" "opt_out sample_divs (Some 5) (\<lambda>b. mp_sign b = - 1 \<and> 2 \<le> mp_size b)" "opt_out sample_divs (Some 3) (\<lambda>b. 2 \<le> mp_size b)" "opt_out sample_divs (Some 4) (\<lambda>b. 2 \<le> mp_size b)"
  "opt_out sample_divs None P"
  using sample_divs_vals(2,3,4,6,7,8,10,11) unfolding opt_out_def by (auto simp: small_mp_def mp_constant_def)

theorem mp_division_witness: "div_done 2 (mpdiv 3 4 (Some 3) (Some 4) sample_divs) (Some 3) (Some 4) 2 1 sample_divs"
  using mp_division [OF sample_divs_vals(1) _ sample_divs_vals(5) _ sample_divs_zero, of 2 "Some 3" "Some 4"] sample_divs_out(1,4) by (simp add: div_outs_def)

text \<open>C35: where \<open>mpdiv\<close> gives a quotient of the wrong sign: the quotient of positive numbers is negative when the number it
  replaces is negative, unless the divisor is a power of 2 of one digit; and for a divisor \<open>- 2\<^sup>k\<close> of one digit the quotient is positive.\<close>

theorem mp_division_signs:
  assumes "mp_val h a1 v1" "0 < v1" and "mp_val h mpzero 0" "\<not> mp_var h mpzero" and "mp_heap h"
  shows "(mp_val h a2 v2 \<and> 0 < v2 \<and> (\<forall>k < Dbits. v2 \<noteq> 2 ^ k) \<and> div_outs Z (- 1) h quot rest
      \<longrightarrow> div_done Z (mpdiv a1 a2 quot rest h) quot rest (- (v1 div v2)) (v1 mod v2) h)
    \<and> (mp_val h a2 (- (2 ^ k)) \<and> k < Dbits \<and> div_outs Z sg h quot rest \<longrightarrow> div_done Z (mpdiv a1 a2 quot rest h) quot rest (v1 div 2 ^ k) (v1 mod 2 ^ k) h)"
  using mpdiv_done [OF assms(1,2) _ _ assms(3-5), of a2 v2 Z "- 1" quot rest] mpdiv_minus_power [OF assms(1,2), of a2 k Z sg quot rest] by simp

theorem mp_division_signs_witness:
  "div_done 2 (mpdiv 3 4 (Some 5) None sample_divs) (Some 5) None (- 2) 1 sample_divs \<and> div_done 2 (mpdiv 3 6 (Some 3) None sample_divs) (Some 3) None 1 3 sample_divs"
proof
  have "\<forall>k < Dbits. (3 :: int) \<noteq> 2 ^ k"
  proof (intro allI impI)
    fix k :: nat
    show "(3 :: int) \<noteq> 2 ^ k" by (cases k) (simp_all, presburger)
  qed
  then show "div_done 2 (mpdiv 3 4 (Some 5) None sample_divs) (Some 5) None (- 2) 1 sample_divs"
    using mp_division_signs [OF sample_divs_vals(1) _ sample_divs_zero, where ?a2.0 = 4 and ?v2.0 = 3 and quot = "Some 5" and rest = None and Z = 2] sample_divs_vals(5) sample_divs_out(2,5) by (simp add: div_outs_def)
  have "mp_val sample_divs 6 (- (2 ^ 2))" using sample_divs_vals(13) by simp
  then show "div_done 2 (mpdiv 3 6 (Some 3) None sample_divs) (Some 3) None 1 3 sample_divs"
    using mp_division_signs [OF sample_divs_vals(1) _ sample_divs_zero, where ?a2.0 = 6 and quot = "Some 3" and rest = None and Z = 2 and k = 2 and sg = 1] sample_divs_out(1,5) by (simp add: div_outs_def)
qed

text \<open>C34: \<open>mpmod\<close> by a modulus that is not a field leaves the remainder of a positive number in the result, normalised, also when it is an
  operand, and changes no other number; but the remainder of a negative multiple of a power of 2 is the modulus instead of 0.\<close>

theorem mp_remainder:
  assumes "mp_val h n v2" "0 < v2" "\<And>b. mh_ints h n = Some b \<Longrightarrow> \<not> mp_field b" and "mp_val h mpzero 0" "\<not> mp_var h mpzero" and "mp_heap h" and "opt_out h (Some r) (\<lambda>b. 2 \<le> mp_size b)"
  shows "(mp_val h x v1 \<and> 0 < v1 \<longrightarrow> becomes (mpmod reduce x n r h) r (v1 mod v2) h)
    \<and> (mp_val h x (- (int j * v2)) \<and> 0 < j \<and> v2 = 2 ^ k \<and> k < Dbits \<and> n \<noteq> r \<longrightarrow> becomes (mpmod reduce x n r h) r v2 h)"
  using mpmod_val [OF _ _ assms] mpmod_minus_multiple [of h x j k n r] assms by blast

theorem mp_remainder_witness:
  "becomes (mpmod (\<lambda>_ _ _ _. None) 3 4 4 sample_divs) 4 1 sample_divs \<and> becomes (mpmod (\<lambda>_ _ _ _. None) 7 8 3 sample_divs) 3 4 sample_divs"
proof
  have nf: "\<not> mp_field b" if "mh_ints sample_divs 4 = Some b \<or> mh_ints sample_divs 8 = Some b" for b
    using that by (auto simp: sample_divs_at small_mp_def mp_constant_def)
  show "becomes (mpmod (\<lambda>_ _ _ _. None) 3 4 4 sample_divs) 4 1 sample_divs"
    using mp_remainder [OF sample_divs_vals(5) _ nf [OF disjI1] sample_divs_zero sample_divs_out(4), of 3 7] sample_divs_vals(1) by simp
  have "mp_val sample_divs 7 (- (int 2 * 4))" using sample_divs_vals(17) by simp
  then show "becomes (mpmod (\<lambda>_ _ _ _. None) 7 8 3 sample_divs) 3 4 sample_divs"
    using mp_remainder [OF sample_divs_vals(21) _ nf [OF disjI2] sample_divs_zero sample_divs_out(3), of 7 _ _ 2 2] by simp
qed

section \<open>Euclid's algorithm\<close>

text \<open>C17: \<open>mpeuclid\<close> returns for any two numbers that are not negative, and leaves their greatest common divisor and coefficients \<open>x\<close> and \<open>y\<close>
  with \<open>a x + b y = gcd a b\<close> in its results; these may be the operands, other numbers do not change and what is allocated is freed.\<close>

theorem mp_euclid:
  assumes "2 \<le> mh_mindigits h" and "mp_val h a A" "mp_val h b B" "0 \<le> A" "0 \<le> B" and "mp_store 0 h" and "mp_val h mpone 1" "\<not> mp_var h mpone"
    and "mp_var h d" "mp_var h x" "mp_var h y" and "distinct [d, x, y]"
  shows "euclid_done (mpeuclid a b d x y h) A B d x y h"
  by (rule mpeuclid_done [OF assms])

theorem mp_euclid_witness: "euclid_done (mpeuclid 3 4 5 6 4 sample_divs) 7 3 5 6 4 sample_divs"
proof -
  have o: "mp_at sample_divs mpone (mp_constant 1) [1]" by (simp add: sample_divs_def put_small_def mp_start_def mp_at_def)
  have "mp_val sample_divs mpone 1" unfolding mp_val_def mp_plain_def
    using o by (intro exI [of _ "mp_constant 1"] exI [of _ "[1]"]) (simp add: mp_wf_def mp_sized_def mag_def mp_constant_def)
  moreover have "\<not> mp_var sample_divs mpone" using o by (auto simp: mp_var_def mp_out_def mp_at_def mp_constant_def)
  moreover have "mp_var sample_divs 5" "mp_var sample_divs 6" "mp_var sample_divs 4"
    using plain_out [OF sample_divs_vals(10,11)] plain_out [OF sample_divs_vals(14,15)] plain_out [OF sample_divs_vals(6,7)] unfolding mp_var_def by auto
  moreover have "2 \<le> mh_mindigits sample_divs" by (simp add: sample_divs_def put_small_def put_mp_def mp_start_def)
  moreover have "mp_store 0 sample_divs" using sample_divs_zero by (simp add: mp_store_def)
  ultimately show ?thesis using mp_euclid [OF _ sample_divs_vals(1) sample_divs_vals(5)] by simp
qed

section \<open>Multiple precision integers as bytes and as machine integers\<close>

text \<open>C18: \<open>mptole\<close> and \<open>mptobe\<close> write the magnitude of any number into an area, with the rest of it 0 and nothing outside it, or return
  -1 and write nothing, exactly when the area has no byte or the magnitude does not fit; with nil they return a new area without leading zeros.  From the
  bytes that are announced \<open>letomp\<close> and \<open>betomp\<close> make the same magnitude.\<close>

theorem mp_bytes_round_trip:
  assumes "mp_val h a v" "mp_var h r" and "p + n \<le> length B"
  shows "bytes_done (mptole a B (Some p) n h) letomp B p n v r h \<and> bytes_done (mptobe a B (Some p) n h) betomp B p n v r h
    \<and> bytes_new (mptole a B None n h) letomp v r h \<and> bytes_new (mptobe a B None n h) betomp v r h"
  using bytes_val [OF assms(1,2)] assms(3) by blast

theorem mp_bytes_round_trip_witness:
  "bytes_done (mptole 5 [1, 2, 3, 4] (Some 1) 2 sample_divs) letomp [1, 2, 3, 4] 1 2 (- 9) 3 sample_divs \<and> bytes_done (mptobe 5 [1, 2, 3, 4] (Some 1) 2 sample_divs) betomp [1, 2, 3, 4] 1 2 (- 9) 3 sample_divs
    \<and> bytes_new (mptole 5 [1, 2, 3, 4] None 2 sample_divs) letomp (- 9) 3 sample_divs \<and> bytes_new (mptobe 5 [1, 2, 3, 4] None 2 sample_divs) betomp (- 9) 3 sample_divs"
proof (rule mp_bytes_round_trip)
  show "mp_val sample_divs 5 (- 9)" using sample_divs_vals(9) by simp
  show "mp_var sample_divs 3" using plain_out [OF sample_divs_vals(2,3)] unfolding mp_var_def by auto
qed simp

text \<open>C19: \<open>itomp\<close>, \<open>uitomp\<close>, \<open>vtomp\<close> and \<open>uvtomp\<close> make the number of the machine integer, the least ones included; \<open>mptoi\<close> gives every
  number back, or the limit of the type on its side, and so does \<open>mptoui\<close> for numbers other than 0.  The result has two digits of space.\<close>

theorem mp_machine_ints:
  assumes "mp_val h a v" "v \<noteq> 0" and "opt_out h (Some r) (\<lambda>b. 2 \<le> mp_size b)"
  shows "becomes (itomp i r h) r (sint i) h \<and> becomes (uitomp u r h) r (int (unat u)) h \<and> becomes (vtomp w r h) r (sint w) h \<and> becomes (uvtomp w r h) r (int (unat w)) h
    \<and> (\<exists>x. mptoi a h = Some x \<and> sint x = max (- (2 ^ 31)) (min (2 ^ 31 - 1) v)) \<and> (\<exists>x. mptoui a h = Some x \<and> int (unat x) = max 0 (min (2 ^ 32 - 1) v))"
  using from_machine [OF assms(3)] to_int_val [OF assms(1)] to_uint_val [OF assms(1,2)] by blast

theorem mp_machine_ints_witness:
  "becomes (itomp 0x80000000 3 sample_divs) 3 (- (2 ^ 31)) sample_divs \<and> (\<exists>x. mptoi 5 sample_divs = Some x \<and> sint x = - 9) \<and> (\<exists>x. mptoui 5 sample_divs = Some x \<and> int (unat x) = 0)"
proof -
  have "sint (0x80000000 :: u32) = - (2 ^ 31)" by (simp add: sint_u32)
  then show ?thesis using mp_machine_ints [OF sample_divs_vals(9) _ sample_divs_out(3), of "0x80000000 :: u32"] by simp
qed

text \<open>C36: where the conversions give no number, or a wrong one: \<open>mptov\<close> shifts a digit by its width for numbers of two digits; \<open>mptouv\<close> loses
  the sign, and gives \<open>2\<^sup>6\<^sup>3 - 1\<close> for numbers that do not fit 64 bits; and \<open>mptoui\<close> gives for a 0 whatever the first digit was before.\<close>

theorem mp_machine_errors:
  assumes "mp_val h a v" "2 ^ 32 \<le> \<bar>v\<bar>" "\<bar>v\<bar> < 2 ^ 64" and "mp_val h c u" "2 ^ 64 \<le> \<bar>u\<bar>" and "mp_val h mpzero 0" "mp_var h r" "mh_mem h r = Some (d # ds)" "mpzero \<noteq> r"
  shows "mptov a h = None \<and> (\<exists>x. mptouv a h = Some x \<and> int (unat x) = \<bar>v\<bar>) \<and> (\<exists>x. mptouv c h = Some x \<and> int (unat x) = 2 ^ 63 - 1)
    \<and> (\<exists>h'. mpassign mpzero r h = Some h' \<and> mp_val h' r 0 \<and> mptoui r h' = Some d)"
  using to_vlong_val(2) [OF assms(1)] to_uvlong_val [OF assms(1)] to_uvlong_val [OF assms(4)] stale_digit [OF assms(6,7,8,9)] assms(2,3,5) by simp

text \<open>A store with the numbers \<open>- 2\<^sup>3\<^sup>2\<close>, \<open>2\<^sup>6\<^sup>4\<close> and 7.\<close>

definition wide_mp :: "int \<Rightarrow> nat \<Rightarrow> mpint" where
  "wide_mp s n = (mp_constant 1)\<lparr>mp_sign := s, mp_size := n, mp_top := n, mp_static := False\<rparr>"

definition sample_wide :: mpheap where
  "sample_wide = put_mp 3 (wide_mp (- 1) 2) [0, 1] (put_mp 4 (wide_mp 1 3) [0, 0, 1] (put_mp 5 (wide_mp 1 1) [7] mp_start))"

lemma sample_wide_vals: "mp_val sample_wide 3 (- (2 ^ 32))" "mp_val sample_wide 4 (2 ^ 64)" "mp_val sample_wide mpzero 0" "mp_var sample_wide 5" "mh_mem sample_wide 5 = Some [7]"
proof -
  show "mp_val sample_wide 3 (- (2 ^ 32))" unfolding mp_val_def
    by (intro exI [of _ "wide_mp (- 1) 2"] exI [of _ "[0, 1]"]) (simp add: sample_wide_def mp_plain_def mp_wf_def mp_sized_def mag_def wide_mp_def mp_constant_def)
  show "mp_val sample_wide 4 (2 ^ 64)" unfolding mp_val_def
    by (intro exI [of _ "wide_mp 1 3"] exI [of _ "[0, 0, 1]"]) (simp add: sample_wide_def mp_plain_def mp_wf_def mp_sized_def mag_def wide_mp_def mp_constant_def)
  show "mp_var sample_wide 5" unfolding mp_var_def
    by (intro exI [of _ "wide_mp 1 1"] exI [of _ "[7]"]) (simp add: sample_wide_def mp_out_def mp_sized_def wide_mp_def mp_constant_def)
  have z: "mp_at sample_wide mpzero (mp_constant 0) [0]" by (simp add: sample_wide_def mp_start_def mp_at_def)
  show "mp_val sample_wide mpzero 0" unfolding mp_val_def mp_plain_def
    using z by (intro exI [of _ "mp_constant 0"] exI [of _ "[0]"]) (simp add: mp_wf_def mp_sized_def mag_def mp_constant_def)
qed (simp add: sample_wide_def)

theorem mp_machine_errors_witness:
  "mptov 3 sample_wide = None \<and> (\<exists>x. mptouv 3 sample_wide = Some x \<and> int (unat x) = 2 ^ 32) \<and> (\<exists>x. mptouv 4 sample_wide = Some x \<and> int (unat x) = 2 ^ 63 - 1)
    \<and> (\<exists>h'. mpassign mpzero 5 sample_wide = Some h' \<and> mp_val h' 5 0 \<and> mptoui 5 h' = Some 7)"
  using mp_machine_errors [OF sample_wide_vals(1) _ _ sample_wide_vals(2) _ sample_wide_vals(3,4,5)] by simp


end
